(* ===== verification/Prelude.thy ===== *)
theory Prelude
  imports Main "HOL-Library.Word"
begin

text \<open>
  Shared vocabulary of the development: the errors the C code raises and the
  result type of fallible operations, the machine types (\<open>int32\<close>, \<open>uint64\<close>,
  \<open>Datum\<close>), the compiler and port-layer primitives on 64-bit words (number of
  the rightmost one bit, population count, the loop that clears the lowest set
  bit), and the generic facts about them that the components share.

  Array accesses are \<open>xs ! i\<close> and \<open>xs[i := v]\<close>.  An access outside the array is
  undefined in C; the theorems that read arrays carry the well-formedness
  hypotheses which keep every index in range.
\<close>

unbundle bit_operations_syntax

named_theorems bit_loop \<open>facts about loops over the set bits of a word\<close>
named_theorems wf_facts \<open>consequences of well-formedness predicates\<close>

section \<open>Machine types\<close>

type_synonym int4 = "32 word"
type_synonym uint32 = "32 word"
type_synonym uint64 = "64 word"
type_synonym datum = "64 word"

text \<open>\<open>DatumGetInt32\<close> truncates, \<open>Int32GetDatum\<close> sign-extends.\<close>

definition datum_get_int32 :: "datum \<Rightarrow> int4" where
  "datum_get_int32 d = ucast d"

definition int32_get_datum :: "int4 \<Rightarrow> datum" where
  "int32_get_datum v = scast v"

lemma datum_int32_roundtrip [simp]: "datum_get_int32 (int32_get_datum v) = v"
  unfolding datum_get_int32_def int32_get_datum_def
  by (rule bit_word_eqI) (simp add: bit_simps)

section \<open>Errors and results\<close>

text \<open>
  Every \<open>elog(ERROR, ...)\<close> and \<open>ereport(ERROR, ...)\<close> leaves the current
  operation: it is a left value of the sum.  The message is the source's format
  string; its arguments are dropped.
\<close>

datatype sqlstate =
    ERRCODE_NUMERIC_VALUE_OUT_OF_RANGE
  | ERRCODE_DIVISION_BY_ZERO
  | ERRCODE_INVALID_ROW_COUNT_IN_LIMIT_CLAUSE
  | ERRCODE_INVALID_ROW_COUNT_IN_RESULT_OFFSET_CLAUSE
  | ERRCODE_FEATURE_NOT_SUPPORTED
  | ERRCODE_DATA_CORRUPTED
  | ERRCODE_PROGRAM_LIMIT_EXCEEDED
  | ERRCODE_DUPLICATE_OBJECT
  | ERRCODE_OBJECT_IN_USE
  | ERRCODE_INVALID_PARAMETER_VALUE
  | ERRCODE_OBJECT_NOT_IN_PREREQUISITE_STATE

datatype pg_error = Elog string | Ereport sqlstate string

type_synonym 'a result = "pg_error + 'a"

definition rbind :: "'a result \<Rightarrow> ('a \<Rightarrow> 'b result) \<Rightarrow> 'b result" where
  "rbind m f = (case m of Inl e \<Rightarrow> Inl e | Inr x \<Rightarrow> f x)"

definition require :: "bool \<Rightarrow> pg_error \<Rightarrow> unit result" where
  "require b e = (if b then Inr () else Inl e)"

lemma rbind_simps [simp]:
  "rbind (Inl e) f = Inl e"
  "rbind (Inr x) f = f x"
  by (simp_all add: rbind_def)

lemma require_simps [simp]:
  "require True e = Inr ()"
  "require False e = Inl e"
  by (simp_all add: require_def)

lemma rbind_Inr_iff: "rbind m f = Inr y \<longleftrightarrow> (\<exists>x. m = Inr x \<and> f x = Inr y)"
  by (cases m) auto

lemma rbind_Inl_iff:
  "rbind m f = Inl e \<longleftrightarrow> m = Inl e \<or> (\<exists>x. m = Inr x \<and> f x = Inl e)"
  by (cases m) auto

lemma require_Inr_iff [simp]: "require b e = Inr u \<longleftrightarrow> b"
  by (simp add: require_def)

lemma require_Inl_iff [simp]: "require b e = Inl e' \<longleftrightarrow> \<not> b \<and> e' = e"
  by (auto simp: require_def)

lemma rbind_require: "rbind (require b e) f = (if b then f () else Inl e)"
  by (simp add: require_def)

section \<open>Indexes\<close>

lemma nat_int_div_numeral [simp]: "nat (int r div numeral k) = r div numeral k"
  by (simp add: nat_div_distrib)

lemma nat_int_mod_numeral [simp]: "nat (int r mod numeral k) = r mod numeral k"
  by (simp add: nat_mod_distrib)

lemma int_div_numeral: "int r div numeral k = int (r div numeral k)"
  by (simp add: zdiv_int)

lemma int_mod_numeral: "int r mod numeral k = int (r mod numeral k)"
  by (simp add: zmod_int)

text \<open>A loop of fallible steps stops at the first error.\<close>

fun rfold :: "('x \<Rightarrow> 's \<Rightarrow> 's result) \<Rightarrow> 'x list \<Rightarrow> 's \<Rightarrow> 's result" where
  "rfold f [] s = Inr s"
| "rfold f (x # xs) s = rbind (f x s) (rfold f xs)"

lemma rfold_append:
  "rfold f (xs @ ys) s = rbind (rfold f xs s) (rfold f ys)"
  by (induction xs arbitrary: s) (auto simp: rbind_def split: sum.splits)

lemma rfold_nested: "rfold (\<lambda>x. rfold f (g x)) xs s = rfold f (concat (map g xs)) s"
  by (induction xs arbitrary: s) (auto simp: rfold_append rbind_def split: sum.splits)

lemma fold_nested: "fold (\<lambda>x. fold f (g x)) xs s = fold f (concat (map g xs)) s"
  by (induction xs arbitrary: s) simp_all

lemma rfold_invariant:
  assumes "rfold f xs s = Inr s'" "I s"
    and "\<And>x t t'. x \<in> set xs \<Longrightarrow> I t \<Longrightarrow> f x t = Inr t' \<Longrightarrow> I t'"
  shows "I s'"
  using assms(1,2,3)
proof (induction xs arbitrary: s)
  case (Cons x xs)
  then obtain t where "f x s = Inr t" "rfold f xs t = Inr s'"
    by (auto simp: rbind_Inr_iff)
  with Cons show ?case by (metis list.set_intros)
qed simp

section \<open>Bits of 64-bit words\<close>

text \<open>\<open>pg_rightmost_one_pos64\<close> (ctz) and \<open>pg_popcount64\<close>.\<close>

definition bit_positions :: "uint64 \<Rightarrow> nat list" where
  "bit_positions w = filter (bit w) [0..<64]"

definition pg_rightmost_one_pos64 :: "uint64 \<Rightarrow> nat" where
  "pg_rightmost_one_pos64 w = length (takeWhile (\<lambda>i. \<not> bit w i) [0..<64])"

definition pg_popcount64 :: "uint64 \<Rightarrow> nat" where
  "pg_popcount64 w = length (bit_positions w)"

lemma word64_eq_0_iff: "(w :: uint64) = 0 \<longleftrightarrow> (\<forall>i<64. \<not> bit w i)"
  by (auto simp: bit_eq_iff)

lemma bit_push_bit_1:
  "n < 64 \<Longrightarrow> bit (push_bit n (1 :: uint64)) i \<longleftrightarrow> i = n"
  by (auto simp: bit_exp_iff)

lemma and_exp_eq_0 [simp]:
  assumes "n < LENGTH('a)"
  shows "w AND 2 ^ n = (0 :: 'a::len word) \<longleftrightarrow> \<not> bit w n"
proof -
  have "bit (w AND 2 ^ n) i \<longleftrightarrow> bit w n \<and> i = n" for i
    using assms by (auto simp: bit_and_iff bit_exp_iff)
  then show ?thesis
    by (metis bit_0_eq bit_eqI bot_fun_def bot_bool_def)
qed

lemma word64_bit_lt: "bit (w :: uint64) i \<Longrightarrow> i < 64"
  using bit_imp_le_length [of w i] by simp

lemma rightmost_one_pos64:
  assumes "w \<noteq> 0"
  shows "pg_rightmost_one_pos64 w < 64"
    and "bit w (pg_rightmost_one_pos64 w)"
    and "\<And>i. i < pg_rightmost_one_pos64 w \<Longrightarrow> \<not> bit w i"
proof -
  let ?k = "pg_rightmost_one_pos64 w"
  from assms obtain j where j: "j < 64" "bit w j"
    by (auto simp: word64_eq_0_iff)
  show lt: "?k < 64"
  proof (rule ccontr)
    assume "\<not> ?k < 64"
    moreover have "?k \<le> 64"
      unfolding pg_rightmost_one_pos64_def
      using length_takeWhile_le [of "\<lambda>i. \<not> bit w i" "[0..<64]"] by simp
    ultimately have "takeWhile (\<lambda>i. \<not> bit w i) [0..<64] = [0..<64]"
      unfolding pg_rightmost_one_pos64_def
      by (metis diff_zero le_antisym length_upt not_le takeWhile_eq_take take_all_iff)
    with j show False
      by (metis atLeastLessThan_iff set_takeWhileD set_upt zero_le)
  qed
  show "bit w ?k"
    using nth_length_takeWhile [of "\<lambda>i. \<not> bit w i" "[0..<64]"] lt
    by (simp add: pg_rightmost_one_pos64_def)
  show "\<not> bit w i" if "i < ?k" for i
    using takeWhile_nth [of i "\<lambda>i. \<not> bit w i" "[0..<64]"] that lt
      nth_mem [of i "takeWhile (\<lambda>i. \<not> bit w i) [0..<64]"]
      set_takeWhileD [of "[0..<64] ! i" "\<lambda>i. \<not> bit w i" "[0..<64]"]
    by (simp add: pg_rightmost_one_pos64_def)
qed

lemma bit_clear_lowest:
  assumes "w \<noteq> 0"
  shows "bit (w AND (w - 1)) i \<longleftrightarrow> bit w i \<and> i \<noteq> pg_rightmost_one_pos64 (w :: uint64)"
proof -
  let ?k = "pg_rightmost_one_pos64 w"
  note k = rightmost_one_pos64 [OF assms]
  let ?h = "w AND NOT (push_bit ?k 1)"
  have kb: "bit (push_bit ?k (1 :: uint64)) j \<longleftrightarrow> j = ?k" for j
    by (rule bit_push_bit_1 [OF k(1)])
  have "w = ?h OR push_bit ?k 1"
    by (rule bit_word_eqI)
      (use k(2) in \<open>auto simp: bit_or_iff bit_and_iff bit_not_iff bit_exp_iff possible_bit_word\<close>)
  also have "\<dots> = ?h + push_bit ?k 1"
    by (rule disjunctive_add [symmetric])
      (auto simp: bit_and_iff bit_not_iff bit_exp_iff possible_bit_word)
  finally have w: "w = ?h + push_bit ?k 1" .
  then have "w - 1 = ?h + (push_bit ?k 1 - 1)"
    by (metis add_diff_eq)
  also have "push_bit ?k 1 - 1 = (mask ?k :: uint64)"
    by (simp add: mask_eq_exp_minus_1 push_bit_eq_mult)
  also have "?h + mask ?k = ?h OR mask ?k"
    by (rule disjunctive_add) (use k(3) in \<open>auto simp: bit_and_iff bit_mask_iff\<close>)
  finally have w1: "w - 1 = ?h OR mask ?k" .
  show ?thesis
    unfolding w1 using k(3)
    by (auto simp: bit_and_iff bit_or_iff bit_not_iff bit_mask_iff bit_exp_iff
      possible_bit_word dest: word64_bit_lt)
qed

lemma popcount_clear_lowest:
  assumes "w \<noteq> 0"
  shows "pg_popcount64 (w AND (w - 1)) < pg_popcount64 w"
proof -
  have set: "set (bit_positions v) = {i. i < 64 \<and> bit v i}" for v
    by (auto simp: bit_positions_def)
  have card: "pg_popcount64 v = card {i. i < 64 \<and> bit v i}" for v
    unfolding pg_popcount64_def set [symmetric]
    by (rule distinct_card [symmetric]) (simp add: bit_positions_def)
  have "{i. i < 64 \<and> bit (w AND (w - 1)) i} \<subset> {i. i < 64 \<and> bit w i}"
    using bit_clear_lowest [OF assms] rightmost_one_pos64(1,2) [OF assms] by blast
  then show ?thesis
    unfolding card by (rule psubset_card_mono [rotated]) simp
qed

text \<open>
  The loop \<open>while (bits != 0) { r = pg_rightmost_one_pos64(bits); bits &= bits - 1; ... }\<close>
  runs over many components: the list of the row numbers it visits.
\<close>

function word_rows :: "uint64 \<Rightarrow> nat list" where
  "word_rows w = (if w = 0 then []
                  else pg_rightmost_one_pos64 w # word_rows (w AND (w - 1)))"
  by auto
termination
  by (relation "measure pg_popcount64") (simp_all add: popcount_clear_lowest)

declare word_rows.simps [simp del]

lemma word_rows_eq_Nil [simp]: "word_rows w = [] \<longleftrightarrow> w = 0"
  by (subst word_rows.simps) simp

lemma word_rows_0 [simp]: "word_rows 0 = []"
  by simp

lemma sorted_word_rows: "sorted_wrt (<) (word_rows w) \<and> set (word_rows w) = {i. bit w i}"
proof (induction w rule: word_rows.induct)
  case (1 w)
  show ?case
  proof (cases "w = 0")
    case False
    have "set (word_rows w) = {i. bit w i}"
      using 1 [OF False] bit_clear_lowest [OF False] rightmost_one_pos64(2) [OF False]
      by (subst word_rows.simps) (auto simp: False)
    moreover have "\<forall>j \<in> set (word_rows (w AND (w - 1))). pg_rightmost_one_pos64 w < j"
      using 1 [OF False] bit_clear_lowest [OF False] rightmost_one_pos64(3) [OF False]
      by (auto simp: not_less_iff_gr_or_eq)
    ultimately show ?thesis
      using 1 [OF False] False by (subst word_rows.simps) simp
  qed (simp add: word_rows.simps)
qed

lemma strict_sorted_unique:
  assumes "sorted_wrt (<) xs" "sorted_wrt (<) ys" "set xs = set (ys :: 'a::linorder list)"
  shows "xs = ys"
  using assms sorted_distinct_set_unique strict_sorted_iff by blast

lemma word_rows_eq_bit_positions [bit_loop]: "word_rows w = bit_positions w"
proof (rule strict_sorted_unique)
  show "sorted_wrt (<) (bit_positions w)"
    by (simp add: bit_positions_def sorted_wrt_filter)
  show "set (word_rows w) = set (bit_positions w)"
    using sorted_word_rows [of w] by (auto simp: bit_positions_def dest: word64_bit_lt)
qed (use sorted_word_rows in blast)

lemma set_word_rows [simp]: "set (word_rows w) = {i. bit w i}"
  using sorted_word_rows by blast

lemma distinct_word_rows [simp]: "distinct (word_rows w)"
  using sorted_word_rows [of w] strict_sorted_iff by blast

lemma bit_push_bit_minus_1 [simp]:
  "bit (push_bit n (- 1 :: uint64)) i \<longleftrightarrow> n \<le> i \<and> i < 64"
  by (auto simp: bit_simps)

lemma bit_drop_bit_minus_1 [simp]:
  "bit (drop_bit n (- 1 :: uint64)) i \<longleftrightarrow> i + n < 64"
  by (auto simp: bit_simps)

end
