(* ===== verification/Batch.thy ===== *)
theory Batch
  imports Prelude
begin

text \<open>
  The batch envelope (\<open>include/pg_batch/abi.h\<close>, \<open>batch.h\<close>, \<open>layout.h\<close> and the
  inline part of \<open>runtime.h\<close>): the row selection bitmap and its operations, the
  batch structure with its table of source callbacks, the logical layout, and
  the column access functions through which consumers read a batch.
\<close>

section \<open>Append-only structures\<close>

text \<open>
  \<open>PG_BATCH_ABI_SIZE_THROUGH(type, field)\<close> on the LP64 data model: a structure
  is the list of its fields (name, size, alignment) in declaration order.
\<close>

type_synonym struct_layout = "(string \<times> nat \<times> nat) list"

definition align_up :: "nat \<Rightarrow> nat \<Rightarrow> nat" where
  "align_up off al = (off + al - 1) div al * al"

fun size_through_from :: "nat \<Rightarrow> struct_layout \<Rightarrow> string \<Rightarrow> nat" where
  "size_through_from off [] f = off"
| "size_through_from off ((g, sz, al) # fs) f =
     (if g = f then align_up off al + sz
      else size_through_from (align_up off al + sz) fs f)"

definition abi_size_through :: "struct_layout \<Rightarrow> string \<Rightarrow> nat" where
  "abi_size_through fs f = size_through_from 0 fs f"

definition abi_has_field :: "nat \<Rightarrow> struct_layout \<Rightarrow> string \<Rightarrow> bool" where
  "abi_has_field struct_size fs f \<longleftrightarrow> abi_size_through fs f \<le> struct_size"

definition struct_sizeof :: "struct_layout \<Rightarrow> nat" where
  "struct_sizeof fs = align_up (size_through_from 0 fs (''<end>''))
     (fold (\<lambda>(_, _, al) m. max al m) fs 1)"

definition PgBatchDatumVector_layout :: struct_layout where
  "PgBatchDatumVector_layout =
     [(''struct_size'', 8, 8), (''values'', 8, 8), (''isnull'', 8, 8), (''nrows'', 4, 4)]"

definition PgBatchOps_layout :: struct_layout where
  "PgBatchOps_layout =
     [(''abi_version'', 4, 4), (''struct_size'', 8, 8), (''get_datum_column'', 8, 8),
      (''prepare_columns'', 8, 8), (''get_native_interface'', 8, 8), (''release'', 8, 8)]"

definition PgBatch_layout :: struct_layout where
  "PgBatch_layout =
     [(''abi_version'', 4, 4), (''struct_size'', 8, 8), (''selection'', 16, 8),
      (''table_oid'', 4, 4), (''ops'', 8, 8), (''private_data'', 8, 8), (''generation'', 8, 8)]"

definition PgBatchConsumerOps_layout :: struct_layout where
  "PgBatchConsumerOps_layout =
     [(''abi_version'', 4, 4), (''struct_size'', 8, 8), (''accept_batch'', 8, 8),
      (''select_row'', 8, 8)]"

definition PgBatchLayout_layout :: struct_layout where
  "PgBatchLayout_layout =
     [(''struct_size'', 8, 8), (''ncolumns'', 4, 4), (''ntargets'', 4, 4),
      (''target_columns'', 8, 8)]"

text \<open>Fields are only ever appended: a structure that has a field has every earlier one.\<close>

lemma align_up_ge:
  assumes "0 < al"
  shows "off \<le> align_up off al"
proof -
  have "(off + al - 1) div al * al + (off + al - 1) mod al = off + al - 1"
    by (rule div_mult_mod_eq)
  moreover have "(off + al - 1) mod al < al"
    using assms by (rule mod_less_divisor)
  ultimately show ?thesis
    using assms unfolding align_up_def by linarith
qed

lemma size_through_from_ge:
  "\<forall>(g, sz, al) \<in> set fs. 0 < al \<Longrightarrow> off \<le> size_through_from off fs f"
proof (induction fs arbitrary: off)
  case (Cons x fs)
  obtain g sz al where x: "x = (g, sz, al)" by (cases x)
  with Cons have "align_up off al + sz \<le> size_through_from (align_up off al + sz) fs f"
    by simp
  with Cons.prems show ?case
    using align_up_ge [of al off] x by auto
qed simp

lemma size_through_from_mono:
  assumes "\<forall>(g, sz, al) \<in> set (fs @ gs). 0 < al" "f \<in> fst ` set fs" "h \<notin> fst ` set fs"
  shows "size_through_from off (fs @ gs) f \<le> size_through_from off (fs @ gs) h"
  using assms
proof (induction fs arbitrary: off)
  case (Cons x fs)
  obtain g sz al where x: "x = (g, sz, al)" by (cases x)
  show ?case
  proof (cases "g = f")
    case True
    with Cons.prems x show ?thesis
      by (simp add: size_through_from_ge)
  next
    case False
    then show ?thesis
      using Cons.prems x Cons.IH [of "align_up off al + sz"] by auto
  qed
qed simp

lemma abi_has_field_append_only:
  assumes "abi_has_field struct_size (fs @ gs) h"
    and "\<forall>(g, sz, al) \<in> set (fs @ gs). 0 < al" "f \<in> fst ` set fs" "h \<notin> fst ` set fs"
  shows "abi_has_field struct_size (fs @ gs) f"
  using size_through_from_mono [OF assms(2-4), of 0] assms(1)
  by (simp add: abi_has_field_def abi_size_through_def)

section \<open>Row selections\<close>

record selection =
  sel_nrows :: int
  sel_nwords :: int
  sel_words :: "uint64 list"

definition selection_count :: "selection \<Rightarrow> int" where
  "selection_count s =
     (if sel_nwords s = 1 then int (pg_popcount64 (sel_words s ! 0))
      else fold (\<lambda>word result. result + int (pg_popcount64 (sel_words s ! word)))
             [0..<nat (sel_nwords s)] 0)"

definition selection_contains :: "selection \<Rightarrow> int \<Rightarrow> bool" where
  "selection_contains s row \<longleftrightarrow>
     (sel_words s ! nat (row div 64)) AND push_bit (nat (row mod 64)) 1 \<noteq> 0"

definition selection_clear :: "selection \<Rightarrow> int \<Rightarrow> selection" where
  "selection_clear s row =
     (let k = nat (row div 64) in
      s\<lparr>sel_words := (sel_words s)
          [k := (sel_words s ! k) AND NOT (push_bit (nat (row mod 64)) 1)]\<rparr>)"

definition selection_intersect :: "selection \<Rightarrow> selection \<Rightarrow> selection" where
  "selection_intersect s other =
     s\<lparr>sel_words :=
         fold (\<lambda>word ws. ws[word := (ws ! word) AND (sel_words other ! word)])
           [0..<nat (sel_nwords s)] (sel_words s)\<rparr>"

text \<open>The \<open>for (;;)\<close> loop of \<open>pg_batch_selection_next\<close>.\<close>

function selection_next_loop :: "selection \<Rightarrow> int \<Rightarrow> uint64 \<Rightarrow> int" where
  "selection_next_loop s word bits =
     (if bits \<noteq> 0 then
        (let result = word * 64 + int (pg_rightmost_one_pos64 bits)
         in if result < sel_nrows s then result else - 1)
      else if sel_nwords s \<le> word + 1 then - 1
      else selection_next_loop s (word + 1) (sel_words s ! nat (word + 1)))"
  by auto
termination
  by (relation "measure (\<lambda>(s, word, bits). nat (sel_nwords s - word))") auto

declare selection_next_loop.simps [simp del]

definition selection_next :: "selection \<Rightarrow> int \<Rightarrow> int" where
  "selection_next s previous =
     (let row = previous + 1; word = row div 64
      in if sel_nrows s \<le> row then - 1
         else selection_next_loop s word
           ((sel_words s ! nat word) AND push_bit (nat (row mod 64)) (- 1)))"

subsection \<open>Well-formed selections and the rows they denote\<close>

definition sel_bit :: "selection \<Rightarrow> nat \<Rightarrow> bool" where
  "sel_bit s r \<longleftrightarrow> bit (sel_words s ! (r div 64)) (r mod 64)"

definition sel_wf :: "selection \<Rightarrow> bool" where
  "sel_wf s \<longleftrightarrow> 0 \<le> sel_nrows s \<and> sel_nwords s = (sel_nrows s + 63) div 64 \<and>
     length (sel_words s) = nat (sel_nwords s) \<and>
     (\<forall>k < length (sel_words s). \<forall>i < 64.
        bit (sel_words s ! k) i \<longrightarrow> int (64 * k + i) < sel_nrows s)"

definition selected :: "selection \<Rightarrow> nat list" where
  "selected s = filter (sel_bit s) [0..<nat (sel_nrows s)]"

lemma selection_contains_iff [simp]: "selection_contains s (int r) \<longleftrightarrow> sel_bit s r"
  by (simp add: selection_contains_def sel_bit_def)

lemma sel_wf_nonneg [wf_facts]: "sel_wf s \<Longrightarrow> 0 \<le> sel_nrows s"
  by (simp add: sel_wf_def)

lemma sel_wf_nwords [wf_facts]: "sel_wf s \<Longrightarrow> sel_nwords s = (sel_nrows s + 63) div 64"
  by (simp add: sel_wf_def)

lemma sel_wf_length [wf_facts]: "sel_wf s \<Longrightarrow> length (sel_words s) = nat (sel_nwords s)"
  by (simp add: sel_wf_def)

lemma sel_wf_bit:
  assumes "sel_wf s" "k < nat (sel_nwords s)" "bit (sel_words s ! k) i"
  shows "64 * k + i < nat (sel_nrows s)"
proof -
  have "int (64 * k + i) < sel_nrows s"
    using assms word64_bit_lt [OF assms(3)] unfolding sel_wf_def by auto
  then show ?thesis by linarith
qed

lemma sel_wf_word_lt:
  assumes "sel_wf s" "r < nat (sel_nrows s)"
  shows "r div 64 < nat (sel_nwords s)"
  using assms by (simp add: sel_wf_def)

lemma set_selected: "set (selected s) = {r. r < nat (sel_nrows s) \<and> sel_bit s r}"
  by (auto simp: selected_def)

lemma sorted_selected: "sorted_wrt (<) (selected s)"
  by (simp add: selected_def sorted_wrt_filter)

lemma distinct_selected [simp]: "distinct (selected s)"
  by (simp add: selected_def)

subsection \<open>Words in row order\<close>

text \<open>
  Nearly every kernel visits the set bits word by word.  Row order is word order:
  the rows of a selection are the concatenation of the shifted bit positions.
\<close>

lemma upt_mult_64: "concat (map (\<lambda>k. map ((+) (64 * k)) [0..<64]) [0..<n]) = [0..<64 * n]"
proof (induction n)
  case (Suc n)
  have "map ((+) (64 * n)) [0..<64] = [64 * n..<64 * n + 64]"
    by (simp add: map_add_upt [symmetric] add.commute)
  moreover have "[0..<64 * n] @ [64 * n..<64 * n + 64] = [0..<64 * n + 64]"
    using upt_add_eq_append [of 0 "64 * n" 64] by simp
  ultimately show ?case using Suc by (simp add: add.commute [of 64])
qed simp

lemma filter_upt_bound:
  assumes "\<And>r. P r \<Longrightarrow> r < n" "n \<le> m"
  shows "filter P [0..<m] = filter P [0..<n]"
proof -
  have "[0..<m] = [0..<n] @ [n..<m]"
    using assms(2) by (metis le_add_diff_inverse upt_add_eq_append zero_le)
  moreover have "filter P [n..<m] = []"
    using assms(1) by (auto simp: filter_empty_conv not_less [symmetric])
  ultimately show ?thesis by simp
qed

lemma selected_concat_words:
  assumes "sel_wf s"
  shows "selected s =
    concat (map (\<lambda>k. map ((+) (64 * k)) (word_rows (sel_words s ! k))) [0..<nat (sel_nwords s)])"
proof -
  let ?n = "nat (sel_nwords s)"
  have inner: "map ((+) (64 * k)) (bit_positions (sel_words s ! k)) =
      filter (sel_bit s) (map ((+) (64 * k)) [0..<64])" for k
    unfolding bit_positions_def filter_map o_def
    by (rule arg_cong [of _ _ "map _"], rule filter_cong) (auto simp: sel_bit_def)
  have "concat (map (\<lambda>k. map ((+) (64 * k)) (word_rows (sel_words s ! k))) [0..<?n])
      = filter (sel_bit s) [0..<64 * ?n]"
    unfolding upt_mult_64 [symmetric] filter_concat
    by (simp add: word_rows_eq_bit_positions inner o_def)
  also have "\<dots> = filter (\<lambda>r. r < nat (sel_nrows s) \<and> sel_bit s r) [0..<64 * ?n]"
  proof (rule filter_cong [OF refl])
    fix r assume "r \<in> set [0..<64 * ?n]"
    then have "r div 64 < ?n" by auto
    then show "sel_bit s r = (r < nat (sel_nrows s) \<and> sel_bit s r)"
      using sel_wf_bit [OF assms, of "r div 64" "r mod 64"] by (auto simp: sel_bit_def)
  qed
  also have "\<dots> = filter (\<lambda>r. r < nat (sel_nrows s) \<and> sel_bit s r) [0..<nat (sel_nrows s)]"
    using assms by (intro filter_upt_bound) (auto simp: sel_wf_def)
  also have "\<dots> = selected s"
    unfolding selected_def by (rule filter_cong) auto
  finally show ?thesis by simp
qed

subsection \<open>Counting, iterating and removing rows\<close>

lemma fold_add_sum_list:
  "fold (\<lambda>x acc. acc + f x) xs a = a + (sum_list (map f xs) :: 'a::comm_monoid_add)"
  by (induction xs arbitrary: a) (simp_all add: ac_simps)

lemma length_concat_sum: "length (concat xss) = sum_list (map length xss)"
  by (induction xss) simp_all

lemma selection_count_selected:
  assumes "sel_wf s"
  shows "selection_count s = int (length (selected s))"
proof -
  have "selection_count s =
      sum_list (map (\<lambda>k. int (pg_popcount64 (sel_words s ! k))) [0..<nat (sel_nwords s)])"
    by (simp add: selection_count_def fold_add_sum_list)
  also have "\<dots> = int (length (selected s))"
    by (simp add: selected_concat_words [OF assms] length_concat_sum o_def pg_popcount64_def
        word_rows_eq_bit_positions sum_list_of_nat [symmetric])
  finally show ?thesis .
qed

text \<open>What \<open>pg_batch_selection_next\<close> promises when asked for a row number at least \<open>lo\<close>.\<close>

definition next_spec :: "selection \<Rightarrow> nat \<Rightarrow> int \<Rightarrow> bool" where
  "next_spec s lo res \<longleftrightarrow>
     (if res < 0 then res = - 1 \<and> (\<forall>r \<ge> lo. r < nat (sel_nrows s) \<longrightarrow> \<not> sel_bit s r)
      else lo \<le> nat res \<and> res < sel_nrows s \<and> sel_bit s (nat res) \<and>
        (\<forall>r. lo \<le> r \<longrightarrow> r < nat res \<longrightarrow> \<not> sel_bit s r))"

lemma next_spec_found:
  assumes "lo \<le> q" "q < nat (sel_nrows s)" "sel_bit s q"
    and "\<And>r. lo \<le> r \<Longrightarrow> r < q \<Longrightarrow> \<not> sel_bit s r"
  shows "next_spec s lo (int q)"
  using assms by (auto simp: next_spec_def)

lemma next_spec_skip:
  assumes "next_spec s hi res" "lo \<le> hi"
    and skip: "\<And>r. lo \<le> r \<Longrightarrow> r < hi \<Longrightarrow> \<not> sel_bit s r"
  shows "next_spec s lo res"
proof (cases "res < 0")
  case True
  with assms(1) have "res = - 1" "\<And>r. hi \<le> r \<Longrightarrow> r < nat (sel_nrows s) \<Longrightarrow> \<not> sel_bit s r"
    by (simp_all add: next_spec_def)
  moreover from this(2) skip have "\<not> sel_bit s r" if "lo \<le> r" "r < nat (sel_nrows s)" for r
    using that by (metis not_le)
  ultimately show ?thesis by (simp add: next_spec_def)
next
  case False
  with assms(1) have "hi \<le> nat res" "res < sel_nrows s" "sel_bit s (nat res)"
    "\<And>r. hi \<le> r \<Longrightarrow> r < nat res \<Longrightarrow> \<not> sel_bit s r"
    by (simp_all add: next_spec_def)
  moreover from this(4) skip have "\<not> sel_bit s r" if "lo \<le> r" "r < nat res" for r
    using that by (metis not_le)
  ultimately show ?thesis using False assms(2) by (simp add: next_spec_def)
qed

lemma sel_bit_word: "i < 64 \<Longrightarrow> sel_bit s (64 * k + i) \<longleftrightarrow> bit (sel_words s ! k) i"
  by (simp add: sel_bit_def)

lemma selection_next_loop_spec:
  assumes "sel_wf s" "w < nat (sel_nwords s)" "m < 64"
  shows "next_spec s (64 * w + m)
    (selection_next_loop s (int w) ((sel_words s ! w) AND push_bit m (- 1)))"
  using assms(2,3)
proof (induction "nat (sel_nwords s) - w" arbitrary: w m)
  case (Suc d)
  let ?b = "(sel_words s ! w) AND push_bit m (- 1)"
  have bit_b: "bit ?b i \<longleftrightarrow> bit (sel_words s ! w) i \<and> m \<le> i" for i
    using word64_bit_lt [of "sel_words s ! w" i] by (auto simp: bit_simps)
  have in_word: "\<exists>i. r = 64 * w + i \<and> m \<le> i \<and> i < 64" if "64 * w + m \<le> r" "r < 64 * w + 64" for r
    using that by (intro exI [of _ "r - 64 * w"]) linarith
  show ?case
  proof (cases "?b = 0")
    case False
    note k = rightmost_one_pos64 [OF False]
    let ?k = "pg_rightmost_one_pos64 ?b"
    have bk: "bit (sel_words s ! w) ?k" "m \<le> ?k"
      using k(2) bit_b by auto
    have lt: "64 * w + ?k < nat (sel_nrows s)"
      by (rule sel_wf_bit [OF assms(1) Suc.prems(1) bk(1)])
    have eq: "selection_next_loop s (int w) ?b = int (64 * w + ?k)"
      using False lt by (subst selection_next_loop.simps) (simp add: Let_def mult.commute)
    have "\<not> sel_bit s r" if r: "64 * w + m \<le> r" "r < 64 * w + ?k" for r
    proof -
      obtain i where i: "r = 64 * w + i" "m \<le> i" "i < 64"
        using in_word [of r] r k(1) by auto
      with r(2) have "\<not> bit ?b i" by (intro k(3)) simp
      then have "\<not> bit (sel_words s ! w) i" using i unfolding bit_b by simp
      with i show ?thesis by (simp add: sel_bit_word)
    qed
    then show ?thesis
      unfolding eq using lt bk sel_bit_word [OF k(1), of s w] by (intro next_spec_found) auto
  next
    case True
    then have none: "\<not> bit (sel_words s ! w) i" if "m \<le> i" for i
      using bit_b [of i] that by simp
    have skip: "\<not> sel_bit s r" if "64 * w + m \<le> r" "r < 64 * w + 64" for r
      using in_word [OF that] none by (auto simp: sel_bit_word)
    show ?thesis
    proof (cases "nat (sel_nwords s) \<le> w + 1")
      case last: True
      have "selection_next_loop s (int w) ?b = - 1"
        using True last Suc.prems(1) by (subst selection_next_loop.simps) (simp; linarith)
      moreover have "nat (sel_nrows s) \<le> 64 * w + 64"
        using last Suc.prems(1) assms(1) unfolding sel_wf_def by linarith
      ultimately show ?thesis
        using skip by (simp add: next_spec_def)
    next
      case more: False
      have eq: "selection_next_loop s (int w) ?b =
          selection_next_loop s (int (Suc w)) ((sel_words s ! Suc w) AND push_bit 0 (- 1))"
      proof -
        have "\<not> sel_nwords s \<le> int w + 1" "nat (int w + 1) = Suc w" using more by linarith+
        then show ?thesis
          using True by (subst selection_next_loop.simps) (simp add: add.commute [of 1])
      qed
      have "next_spec s (64 * Suc w + 0) (selection_next_loop s (int w) ?b)"
        unfolding eq by (rule Suc.hyps(1)) (use Suc.hyps(2) more in auto)
      then show ?thesis
        by (rule next_spec_skip) (use skip Suc.prems(2) in auto)
    qed
  qed
qed simp

lemma selection_next_spec:
  assumes "sel_wf s" "- 1 \<le> previous"
  shows "next_spec s (nat (previous + 1)) (selection_next s previous)"
proof (cases "sel_nrows s \<le> previous + 1")
  case True
  then show ?thesis by (auto simp: selection_next_def next_spec_def)
next
  case False
  define lo where "lo = nat (previous + 1)"
  have lo: "previous + 1 = int lo" using assms(2) by (simp add: lo_def)
  have "lo < nat (sel_nrows s)" using False lo by linarith
  then have "next_spec s (64 * (lo div 64) + lo mod 64) (selection_next s previous)"
    using selection_next_loop_spec [OF assms(1) sel_wf_word_lt [OF assms(1)], of lo "lo mod 64"] False
    by (simp add: selection_next_def Let_def lo int_div_numeral int_mod_numeral)
  then show ?thesis by (simp add: lo_def)
qed

text \<open>
  Consumers walk a batch with
  \<open>for (row = next(s, -1); row >= 0; row = next(s, row))\<close>.
\<close>

lemma selection_next_loop_lt:
  "selection_next_loop s word bits = - 1 \<or> selection_next_loop s word bits < sel_nrows s"
proof (induction s word bits rule: selection_next_loop.induct)
  case (1 s word bits)
  then show ?case by (subst (1 2) selection_next_loop.simps) (auto simp: Let_def)
qed

lemma selection_next_lt: "0 \<le> selection_next s p \<Longrightarrow> selection_next s p < sel_nrows s"
  using selection_next_loop_lt
  by (auto simp: selection_next_def Let_def split: if_splits) (metis neg_0_le_iff_le not_one_le_zero)

text \<open>
  The second exit, a row number that does not increase, is never taken on a
  well-formed selection; it makes the walk total on every input.
\<close>

function selection_walk :: "selection \<Rightarrow> int \<Rightarrow> int list" where
  "selection_walk s previous =
     (let row = selection_next s previous
      in if row < 0 \<or> row \<le> previous then [] else row # selection_walk s row)"
  by auto
termination
  by (relation "measure (\<lambda>(s, p). nat (sel_nrows s - p))") (auto dest!: selection_next_lt simp: not_less)

declare selection_walk.simps [simp del]

lemma filter_split_first:
  assumes "sorted_wrt (<) xs" "x \<in> set xs" "lo \<le> x"
    and "\<And>y. y \<in> set xs \<Longrightarrow> lo \<le> y \<Longrightarrow> x \<le> (y :: nat)"
  shows "filter (\<lambda>y. lo \<le> y) xs = x # filter (\<lambda>y. Suc x \<le> y) xs"
proof (rule strict_sorted_unique)
  show "set (filter (\<lambda>y. lo \<le> y) xs) = set (x # filter (\<lambda>y. Suc x \<le> y) xs)"
    using assms by (auto simp: Suc_le_eq) (metis le_neq_implies_less)
qed (use assms(1) in \<open>auto simp: sorted_wrt_filter\<close>)

lemma selection_walk_selected:
  assumes "sel_wf s" "- 1 \<le> previous"
  shows "selection_walk s previous = map int (filter (\<lambda>r. nat (previous + 1) \<le> r) (selected s))"
  using assms
proof (induction s previous rule: selection_walk.induct)
  case (1 s previous)
  let ?row = "selection_next s previous"
  note spec = selection_next_spec [OF 1(2,3)]
  show ?case
  proof (cases "?row < 0")
    case True
    with spec have "filter (\<lambda>r. nat (previous + 1) \<le> r) (selected s) = []"
      by (auto simp: next_spec_def filter_empty_conv set_selected)
    with True show ?thesis by (subst selection_walk.simps) simp
  next
    case False
    with spec have row: "nat (previous + 1) \<le> nat ?row" "?row < sel_nrows s" "sel_bit s (nat ?row)"
      "\<And>r. nat (previous + 1) \<le> r \<Longrightarrow> r < nat ?row \<Longrightarrow> \<not> sel_bit s r"
      by (auto simp: next_spec_def)
    have gt: "previous < ?row" using row(1) False 1(3) by linarith
    have "filter (\<lambda>r. nat (previous + 1) \<le> r) (selected s) =
        nat ?row # filter (\<lambda>r. Suc (nat ?row) \<le> r) (selected s)"
      by (rule filter_split_first [OF sorted_selected])
        (use row False in \<open>auto simp: set_selected not_less [symmetric]\<close>)
    moreover have "selection_walk s ?row =
        map int (filter (\<lambda>r. nat (?row + 1) \<le> r) (selected s))"
      using 1(1) [OF refl] False gt 1(2) by simp
    moreover have "nat (?row + 1) = Suc (nat ?row)" using False by simp
    ultimately show ?thesis
      using False gt by (subst selection_walk.simps) (simp add: Let_def)
  qed
qed

lemma sel_bit_update:
  assumes "k < length (sel_words s)"
  shows "sel_bit (s\<lparr>sel_words := (sel_words s)[k := w]\<rparr>) r \<longleftrightarrow>
    (if r div 64 = k then bit w (r mod 64) else sel_bit s r)"
  using assms by (simp add: sel_bit_def nth_list_update)

lemma sel_wf_shrink:
  assumes "sel_wf s" "sel_nrows t = sel_nrows s" "sel_nwords t = sel_nwords s"
    and "length (sel_words t) = length (sel_words s)"
    and "\<And>k i. k < length (sel_words s) \<Longrightarrow> bit (sel_words t ! k) i \<Longrightarrow> bit (sel_words s ! k) i"
  shows "sel_wf t"
  using assms unfolding sel_wf_def by fastforce

lemma selection_shrink_fields [simp]:
  "sel_nrows (selection_clear s row) = sel_nrows s"
  "sel_nwords (selection_clear s row) = sel_nwords s"
  "sel_nrows (selection_intersect s other) = sel_nrows s"
  "sel_nwords (selection_intersect s other) = sel_nwords s"
  by (simp_all add: selection_clear_def selection_intersect_def Let_def)

lemma selection_clear_selected:
  assumes "sel_wf s" "r < nat (sel_nrows s)"
  shows "sel_wf (selection_clear s (int r))"
    and "selected (selection_clear s (int r)) = filter (\<lambda>q. q \<noteq> r) (selected s)"
proof -
  have k: "r div 64 < length (sel_words s)"
    using sel_wf_word_lt [OF assms] assms(1) by (simp add: sel_wf_length)
  have eq: "selection_clear s (int r) = s\<lparr>sel_words := (sel_words s)[r div 64 :=
      (sel_words s ! (r div 64)) AND NOT (push_bit (r mod 64) 1)]\<rparr>"
    by (simp add: selection_clear_def Let_def)
  have bits: "sel_bit (selection_clear s (int r)) q \<longleftrightarrow> sel_bit s q \<and> q \<noteq> r" for q
  proof -
    have "q mod 64 = r mod 64 \<longleftrightarrow> q = r" if "q div 64 = r div 64"
      using that by (metis div_mult_mod_eq)
    then show ?thesis
      unfolding eq sel_bit_update [OF k] by (auto simp: bit_simps sel_bit_def)
  qed
  show "sel_wf (selection_clear s (int r))"
  proof (rule sel_wf_shrink [OF assms(1)])
    fix q i assume "q < length (sel_words s)" "bit (sel_words (selection_clear s (int r)) ! q) i"
    then show "bit (sel_words s ! q) i"
      unfolding eq by (cases "q = r div 64") (auto simp: bit_and_iff)
  qed (simp_all add: eq)
  show "selected (selection_clear s (int r)) = filter (\<lambda>q. q \<noteq> r) (selected s)"
    unfolding selected_def bits filter_filter by (simp add: eq conj_commute)
qed

lemma fold_update_nth:
  assumes "n \<le> length xs"
  shows "length (fold (\<lambda>i ws. ws[i := f i (ws ! i)]) [0..<n] xs) = length xs"
    and "i < length xs \<Longrightarrow>
      fold (\<lambda>i ws. ws[i := f i (ws ! i)]) [0..<n] xs ! i = (if i < n then f i (xs ! i) else xs ! i)"
  using assms
  by (induction n arbitrary: i) (auto simp: nth_list_update less_Suc_eq)

lemma selection_intersect_selected:
  assumes "sel_wf s" "sel_nrows other = sel_nrows s" "sel_nwords other = sel_nwords s"
  shows "sel_wf (selection_intersect s other)"
    and "selected (selection_intersect s other) = filter (sel_bit other) (selected s)"
proof -
  have len: "nat (sel_nwords s) \<le> length (sel_words s)"
    using assms(1) by (simp add: sel_wf_length)
  note upd = fold_update_nth [where f = "\<lambda>i w. w AND (sel_words other ! i)", OF len]
  have word: "sel_words (selection_intersect s other) ! k = (sel_words s ! k) AND (sel_words other ! k)"
    if "k < nat (sel_nwords s)" for k
    using upd(2) [of k] that len by (simp add: selection_intersect_def)
  show "sel_wf (selection_intersect s other)"
  proof (rule sel_wf_shrink [OF assms(1)])
    fix k i assume "k < length (sel_words s)" "bit (sel_words (selection_intersect s other) ! k) i"
    then show "bit (sel_words s ! k) i"
      using word [of k] assms(1) by (simp add: sel_wf_length bit_and_iff)
  qed (use upd(1) in \<open>simp_all add: selection_intersect_def\<close>)
  have "sel_bit (selection_intersect s other) r \<longleftrightarrow> sel_bit s r \<and> sel_bit other r"
    if "r < nat (sel_nrows s)" for r
    using word [OF sel_wf_word_lt [OF assms(1) that]] by (simp add: sel_bit_def bit_and_iff)
  then show "selected (selection_intersect s other) = filter (sel_bit other) (selected s)"
    unfolding selected_def filter_filter
    by (intro filter_cong) (auto simp: selection_intersect_def)
qed

subsection \<open>Recognizing a well-formed selection\<close>

lemma uint_ge_bit:
  assumes "bit (w :: uint64) i"
  shows "2 ^ i \<le> uint w"
proof (rule ccontr)
  assume "\<not> 2 ^ i \<le> uint w"
  then have "uint w div 2 ^ i = 0" by (simp add: div_pos_pos_trivial)
  moreover have "bit (uint w) i"
    using assms word64_bit_lt [OF assms] by (simp add: bit_uint_iff)
  ultimately show False by (simp add: bit_iff_odd)
qed

lemma sel_wfI:
  assumes "0 \<le> sel_nrows s" "sel_nwords s = (sel_nrows s + 63) div 64"
    and "length (sel_words s) = nat (sel_nwords s)"
    and "list_all (\<lambda>(k, w). k + 64 \<le> nat (sel_nrows s) \<or> uint w < 2 ^ (nat (sel_nrows s) - k))
      (zip (map ((*) 64) [0..<length (sel_words s)]) (sel_words s))"
  shows "sel_wf s"
proof -
  have "int (64 * k + i) < sel_nrows s"
    if k: "k < length (sel_words s)" and i: "i < 64" "bit (sel_words s ! k) i" for k i
  proof (rule ccontr)
    assume "\<not> int (64 * k + i) < sel_nrows s"
    then have ge: "nat (sel_nrows s) - 64 * k \<le> i" "\<not> 64 * k + 64 \<le> nat (sel_nrows s)"
      using i(1) assms(1) by linarith+
    have "64 * k + 64 \<le> nat (sel_nrows s) \<or>
        uint (sel_words s ! k) < 2 ^ (nat (sel_nrows s) - 64 * k)"
      using assms(4) k by (simp add: list_all_length)
    with ge(2) have "uint (sel_words s ! k) < 2 ^ (nat (sel_nrows s) - 64 * k)" by blast
    also have "\<dots> \<le> 2 ^ i" using ge(1) by (rule power_increasing) simp
    finally show False using uint_ge_bit [OF i(2)] by simp
  qed
  with assms(1-3) show ?thesis by (simp add: sel_wf_def)
qed

section \<open>Properties of selections\<close>

text \<open>
  C12. Walking a well-formed selection with \<open>pg_batch_selection_next\<close>, from \<open>-1\<close>
  until it returns \<open>-1\<close>, visits exactly the row numbers that
  \<open>pg_batch_selection_contains\<close> reports, each once and in ascending order, and
  \<open>pg_batch_selection_count\<close> is their number.
\<close>

theorem selection_walk_correct:
  assumes "sel_wf s"
  shows "selection_walk s (- 1) =
      filter (selection_contains s) (map int [0..<nat (sel_nrows s)]) \<and>
    selection_count s = int (length (selection_walk s (- 1)))"
proof -
  have "selection_walk s (- 1) = map int (selected s)"
    by (simp add: selection_walk_selected [OF assms])
  moreover have "filter (selection_contains s) (map int [0..<nat (sel_nrows s)]) = map int (selected s)"
    by (simp add: selected_def filter_map o_def)
  ultimately show ?thesis
    by (simp add: selection_count_selected [OF assms])
qed

definition example_selection :: selection where
  "example_selection = \<lparr>sel_nrows = 70, sel_nwords = 2, sel_words = [5, 33]\<rparr>"

theorem selection_walk_correct_witness:
  "sel_wf example_selection \<and> selection_walk example_selection (- 1) = [0, 2, 64, 69] \<and>
   selection_count example_selection = 4"
proof -
  have wf: "sel_wf example_selection" by (rule sel_wfI) (simp_all add: example_selection_def)
  have "filter (selection_contains example_selection)
      (map int [0..<nat (sel_nrows example_selection)]) = [0, 2, 64, 69]"
    by code_simp
  with selection_walk_correct [OF wf] wf show ?thesis by simp
qed

text \<open>
  C30. A selection only shrinks: clearing one row removes that row and no other,
  intersecting keeps exactly the rows present in both, the order of the remaining
  rows is unchanged, and the result is well-formed again (no bit beyond the last
  row).
\<close>

theorem selection_shrinks:
  assumes "sel_wf s" "r < nat (sel_nrows s)"
    and "sel_nrows other = sel_nrows s" "sel_nwords other = sel_nwords s"
  shows "sel_wf (selection_clear s (int r)) \<and> sel_wf (selection_intersect s other) \<and>
    selected (selection_clear s (int r)) = filter (\<lambda>q. q \<noteq> r) (selected s) \<and>
    selected (selection_intersect s other) =
      filter (\<lambda>q. selection_contains other (int q)) (selected s)"
  using selection_clear_selected [OF assms(1,2)] selection_intersect_selected [OF assms(1,3,4)]
  by simp

theorem selection_shrinks_witness:
  "selected (selection_clear example_selection 2) = [0, 64, 69] \<and>
   selected (selection_intersect example_selection
     \<lparr>sel_nrows = 70, sel_nwords = 2, sel_words = [6, 1]\<rparr>) = [2, 64]"
proof -
  let ?other = "\<lparr>sel_nrows = 70, sel_nwords = 2, sel_words = [6, 1]\<rparr> :: selection"
  have wf: "sel_wf example_selection" by (rule sel_wfI) (simp_all add: example_selection_def)
  have rows: "selected example_selection = [0, 2, 64, 69]" by code_simp
  have mem: "filter (\<lambda>q. selection_contains ?other (int q)) [0, 2, 64, 69] = [2, 64]" by code_simp
  have "selected (selection_clear example_selection (int 2)) = filter (\<lambda>q. q \<noteq> 2) [0, 2, 64, 69]"
    "selected (selection_intersect example_selection ?other) =
      filter (\<lambda>q. selection_contains ?other (int q)) [0, 2, 64, 69]"
    unfolding rows [symmetric]
    by (use selection_shrinks [OF wf, of 2 ?other] in \<open>simp add: example_selection_def\<close>)+
  with mem show ?thesis by simp
qed

end
