(* ===== verification/Columns.thy ===== *)
theory Columns
  imports Batch
begin

text \<open>
  Batches, their source callbacks and the views of their columns:
  \<open>include/pg_batch/vector.h\<close>, the batch structure of \<open>batch.h\<close>, \<open>layout.h\<close>, the
  inline functions of \<open>runtime.h\<close>, the native-interface cache of
  \<open>runtime/adapter.c\<close> and \<open>kernels/vector.c\<close>.

  A source callback reads and changes the source's private data, so a batch
  carries that data (type \<open>'p\<close>) and a callback returns it updated.  An operations
  table is identified by its address \<open>ops_addr\<close>.
\<close>

section \<open>int4 vectors\<close>

datatype int4_data =
    INT4_DATUM "datum list" "bool list"
  | INT4_PACKED "int4 list" "8 word list option" int

record int4_vector =
  vec_struct_size :: nat
  vec_data :: int4_data

definition PgBatchInt4Vector_layout :: struct_layout where
  "PgBatchInt4Vector_layout =
     [(''struct_size'', 8, 8), (''layout'', 4, 4), (''data'', 24, 8)]"

definition int4_vector_init_datum :: "datum list \<Rightarrow> bool list \<Rightarrow> int4_vector" where
  "int4_vector_init_datum values isnull =
     \<lparr>vec_struct_size = struct_sizeof PgBatchInt4Vector_layout,
      vec_data = INT4_DATUM values isnull\<rparr>"

definition int4_vector_init_packed ::
  "int4 list \<Rightarrow> 8 word list option \<Rightarrow> int \<Rightarrow> int4_vector" where
  "int4_vector_init_packed values validity off =
     \<lparr>vec_struct_size = struct_sizeof PgBatchInt4Vector_layout,
      vec_data = INT4_PACKED values validity off\<rparr>"

text \<open>
  \<open>row += offset\<close> adds an \<open>int64\<close> into an \<open>int\<close>: the sum is truncated to 32 bits.
\<close>

definition to_int32 :: "int \<Rightarrow> int" where
  "to_int32 x = sint (word_of_int x :: 32 word)"

definition int4_row_is_null :: "int4_vector \<Rightarrow> nat \<Rightarrow> bool" where
  "int4_row_is_null column row =
     (case vec_data column of
        INT4_DATUM values isnull \<Rightarrow> isnull ! row
      | INT4_PACKED values None off \<Rightarrow> False
      | INT4_PACKED values (Some validity) off \<Rightarrow>
          (let r = to_int32 (int row + off)
           in (validity ! nat (r div 8)) AND push_bit (nat (r mod 8)) 1 = 0))"

definition int4_row_value :: "int4_vector \<Rightarrow> nat \<Rightarrow> int4" where
  "int4_row_value column row =
     (case vec_data column of
        INT4_DATUM values isnull \<Rightarrow> datum_get_int32 (values ! row)
      | INT4_PACKED values validity off \<Rightarrow> values ! nat (off + int row))"

text \<open>The abstract column a vector describes: a nullable value per row.\<close>

definition vec_get :: "int4_vector \<Rightarrow> nat \<Rightarrow> int4 option" where
  "vec_get column row =
     (if int4_row_is_null column row then None else Some (int4_row_value column row))"

text \<open>A vector that covers \<open>n\<close> rows: its arrays reach that far, and no index wraps.\<close>

definition vec_wf :: "int4_vector \<Rightarrow> nat \<Rightarrow> bool" where
  "vec_wf column n =
     (case vec_data column of
        INT4_DATUM values isnull \<Rightarrow> n \<le> length values \<and> n \<le> length isnull
      | INT4_PACKED values validity off \<Rightarrow>
          0 \<le> off \<and> off + int n \<le> int (length values) \<and> off + int n \<le> 2 ^ 31 \<and>
          (case validity of None \<Rightarrow> True
           | Some v \<Rightarrow> off + int n \<le> 8 * int (length v)))"

lemma to_int32_id: "- (2 ^ 31) \<le> x \<Longrightarrow> x < 2 ^ 31 \<Longrightarrow> to_int32 x = x"
  by (simp add: to_int32_def signed_take_bit_int_eq_self word_of_int_inverse
      sint_sbintrunc' signed_of_int)

lemma packed_row_is_null:
  assumes "vec_data column = INT4_PACKED values (Some v) off" "vec_wf column n" "row < n"
  shows "int4_row_is_null column row \<longleftrightarrow>
    \<not> bit (v ! ((nat off + row) div 8)) ((nat off + row) mod 8)"
proof -
  have off: "0 \<le> off" "off + int row < 2 ^ 31"
    using assms by (auto simp: vec_wf_def)
  then have "to_int32 (int row + off) = int (nat off + row)"
    by (subst to_int32_id) auto
  then show ?thesis
    using assms(1) by (simp add: int4_row_is_null_def Let_def del: of_nat_add)
qed

section \<open>Batches and source callbacks\<close>

datatype column_phase = PG_BATCH_COLUMN_FILTER | PG_BATCH_COLUMN_PROJECT

record datum_vector =
  dv_struct_size :: nat
  dv_values :: "datum list option"
  dv_isnull :: "bool list option"
  dv_nrows :: int

record native_type =
  nt_name :: string
  nt_abi_version :: uint32
  nt_min_size :: nat

text \<open>A native interface table, cast to the int4 vector interface.\<close>

record 'p native_interface =
  ni_abi_version :: uint32
  ni_struct_size :: nat
  ni_get_column :: "'p \<Rightarrow> int \<Rightarrow> int4_vector \<Rightarrow> ('p \<times> bool \<times> int4_vector) result"

record 'p batch_ops =
  ops_addr :: nat
  ops_abi_version :: uint32
  ops_struct_size :: nat
  ops_get_datum_column ::
    "('p \<Rightarrow> selection \<Rightarrow> int \<Rightarrow> selection \<Rightarrow> column_phase \<Rightarrow> datum_vector \<Rightarrow>
       ('p \<times> datum_vector) result) option"
  ops_prepare_columns ::
    "('p \<Rightarrow> selection \<Rightarrow> nat set \<Rightarrow> selection \<Rightarrow> column_phase \<Rightarrow> 'p result) option"
  ops_get_native_interface :: "(native_type \<Rightarrow> 'p native_interface option) option"
  ops_release :: "('p \<Rightarrow> 'p) option"

record 'p batch =
  b_abi_version :: uint32
  b_struct_size :: nat
  b_selection :: selection
  b_table_oid :: uint32
  b_ops :: "'p batch_ops option"
  b_private :: 'p
  b_generation :: uint64

definition check_datum_vector :: "datum_vector option \<Rightarrow> unit result" where
  "check_datum_vector result =
     (case result of
        None \<Rightarrow> Inl (Elog ''pg_batch source received an incompatible Datum vector'')
      | Some r \<Rightarrow>
          require (abi_size_through PgBatchDatumVector_layout ''nrows'' \<le> dv_struct_size r)
            (Elog ''pg_batch source received an incompatible Datum vector''))"

subsection \<open>Inline operations of runtime.h\<close>

definition batch_row_count :: "'p batch \<Rightarrow> int" where
  "batch_row_count b = selection_count (b_selection b)"

definition batch_has_rows :: "'p batch \<Rightarrow> bool" where
  "batch_has_rows b =
     (let s = b_selection b
      in if sel_nwords s = 1 then sel_words s ! 0 \<noteq> 0
         else list_ex (\<lambda>word. sel_words s ! word \<noteq> 0) [0..<nat (sel_nwords s)])"

definition batch_selection_word :: "'p batch \<Rightarrow> nat \<Rightarrow> uint64" where
  "batch_selection_word b word =
     (let s = b_selection b;
          rows = sel_words s ! word;
          remaining = sel_nrows s - int word * 64
      in if remaining < 64 then rows AND drop_bit (nat (64 - remaining)) (- 1) else rows)"

definition batch_prepare_columns ::
  "'p batch \<Rightarrow> nat set \<Rightarrow> selection \<Rightarrow> column_phase \<Rightarrow> 'p batch result" where
  "batch_prepare_columns b columns rows phase =
     (case b_ops b of
        None \<Rightarrow> Inr b
      | Some ops \<Rightarrow>
          (case ops_prepare_columns ops of
             None \<Rightarrow> Inr b
           | Some prepare \<Rightarrow>
               if columns \<noteq> {} \<and>
                  abi_has_field (ops_struct_size ops) PgBatchOps_layout ''prepare_columns''
               then rbind (prepare (b_private b) (b_selection b) columns rows phase)
                      (\<lambda>p. Inr (b\<lparr>b_private := p\<rparr>))
               else Inr b))"

text \<open>
  \<open>get_datum_column\<close> is a required callback: the bridge refuses an operations
  table without it.  Calling a missing one is undefined in C; the model stops
  with an error of its own.
\<close>

definition batch_get_datum_column ::
  "'p batch \<Rightarrow> int \<Rightarrow> selection \<Rightarrow> column_phase \<Rightarrow> ('p batch \<times> datum_vector) result" where
  "batch_get_datum_column b column rows phase =
     (let init = \<lparr>dv_struct_size = struct_sizeof PgBatchDatumVector_layout,
                  dv_values = None, dv_isnull = None, dv_nrows = 0\<rparr>
      in case Option.bind (b_ops b) ops_get_datum_column of
           None \<Rightarrow> Inl (Elog ''call through a null function pointer'')
         | Some get \<Rightarrow>
             rbind (get (b_private b) (b_selection b) column rows phase init) (\<lambda>(p, result).
             rbind (check_datum_vector (Some result)) (\<lambda>_.
             rbind (require (dv_values result \<noteq> None \<and> dv_isnull result \<noteq> None \<and>
                      sel_nrows rows \<le> dv_nrows result)
                     (Elog ''pg_batch source returned an incomplete Datum column'')) (\<lambda>_.
             Inr (b\<lparr>b_private := p\<rparr>, result)))))"

record 'p column_access =
  acc_batch :: "'p batch"
  acc_columns :: "nat set"
  acc_rows :: selection
  acc_phase :: column_phase

definition column_access_init ::
  "'p batch option \<Rightarrow> nat set \<Rightarrow> selection option \<Rightarrow> column_phase \<Rightarrow> 'p column_access result" where
  "column_access_init batch columns rows phase =
     (case (batch, rows) of
        (Some b, Some r) \<Rightarrow>
          if b_ops b = None \<or> sel_nrows r \<noteq> sel_nrows (b_selection b) \<or>
             sel_nwords r \<noteq> sel_nwords (b_selection b)
          then Inl (Elog ''pg_batch received an invalid column access request'')
          else rbind (batch_prepare_columns b columns r phase) (\<lambda>b'.
               Inr \<lparr>acc_batch = b', acc_columns = columns, acc_rows = r, acc_phase = phase\<rparr>)
      | _ \<Rightarrow> Inl (Elog ''pg_batch received an invalid column access request''))"

definition bms_is_member :: "int \<Rightarrow> nat set \<Rightarrow> bool result" where
  "bms_is_member x a =
     (if x < 0 then Inl (Elog ''negative bitmapset member not allowed'') else Inr (nat x \<in> a))"

definition column_get_datum ::
  "'p column_access \<Rightarrow> int \<Rightarrow> ('p column_access \<times> datum_vector) result" where
  "column_get_datum access column =
     rbind (bms_is_member column (acc_columns access)) (\<lambda>member.
     rbind (require member (Elog ''pg_batch column %d was not requested'')) (\<lambda>_.
     rbind (batch_get_datum_column (acc_batch access) column (acc_rows access)
              (acc_phase access)) (\<lambda>(b, result).
     Inr (access\<lparr>acc_batch := b\<rparr>, result))))"

section \<open>The native-interface cache\<close>

record 'p native_entry =
  ne_ops :: nat
  ne_name :: string
  ne_abi_version :: uint32
  ne_interface :: "'p native_interface option"

record 'p native_cache =
  nc_entries :: "'p native_entry list"
  nc_last :: "'p native_entry option"

definition entry_matches :: "'p batch_ops \<Rightarrow> native_type \<Rightarrow> 'p native_entry \<Rightarrow> bool" where
  "entry_matches ops type e \<longleftrightarrow>
     ne_ops e = ops_addr ops \<and> ne_abi_version e = nt_abi_version type \<and> ne_name e = nt_name type"

definition checked_native_interface ::
  "'p native_entry \<Rightarrow> native_type \<Rightarrow> 'p native_interface option result" where
  "checked_native_interface e type =
     (case ne_interface e of
        Some i \<Rightarrow>
          if ni_struct_size i < nt_min_size type
          then Inl (Elog ''pg_batch source returned an incompatible native interface'')
          else Inr (Some i)
      | None \<Rightarrow> Inr None)"

text \<open>The cache is static data: it keeps its changes when the call fails.\<close>

definition get_native_interface ::
  "'p native_cache \<Rightarrow> 'p batch \<Rightarrow> native_type \<Rightarrow>
     'p native_interface option result \<times> 'p native_cache" where
  "get_native_interface c b type =
     (case b_ops b of
        None \<Rightarrow> (Inr None, c)
      | Some ops \<Rightarrow>
          (case (if abi_has_field (ops_struct_size ops) PgBatchOps_layout ''get_native_interface''
                 then ops_get_native_interface ops else None) of
             None \<Rightarrow> (Inr None, c)
           | Some callback \<Rightarrow>
               (case (case nc_last c of
                        Some e \<Rightarrow> if entry_matches ops type e then Some e else None
                      | None \<Rightarrow> None) of
                  Some e \<Rightarrow> (checked_native_interface e type, c)
                | None \<Rightarrow>
                    (case find (entry_matches ops type) (nc_entries c) of
                       Some e \<Rightarrow> (checked_native_interface e type, c\<lparr>nc_last := Some e\<rparr>)
                     | None \<Rightarrow>
                         (let result = callback type
                          in if (case result of None \<Rightarrow> False
                                 | Some i \<Rightarrow> ni_abi_version i \<noteq> nt_abi_version type \<or>
                                     ni_struct_size i < nt_min_size type)
                             then (Inl (Elog ''pg_batch source returned an incompatible native interface''), c)
                             else (let e = \<lparr>ne_ops = ops_addr ops, ne_name = nt_name type,
                                          ne_abi_version = nt_abi_version type,
                                          ne_interface = result\<rparr>
                                   in (Inr result,
                                       c\<lparr>nc_entries := nc_entries c @ [e], nc_last := Some e\<rparr>)))))))"

definition materialize_columns ::
  "'p batch option \<Rightarrow> nat set \<Rightarrow> selection option \<Rightarrow> column_phase \<Rightarrow> 'p column_access result" where
  "materialize_columns batch columns rows phase =
     rbind (column_access_init batch columns rows phase)
       (rfold (\<lambda>column access.
          rbind (column_get_datum access (int column)) (\<lambda>(access', _). Inr access'))
        (sorted_list_of_set columns))"

section \<open>Reading an int4 column\<close>

definition int4_vector_type :: native_type where
  "int4_vector_type = \<lparr>nt_name = ''pg_batch.int4_vector.v1'', nt_abi_version = 1,
     nt_min_size = 24\<rparr>"

definition column_int4_from_datum ::
  "int \<Rightarrow> 'p column_access \<Rightarrow> ('p column_access \<times> int4_vector) result" where
  "column_int4_from_datum column access =
     rbind (column_get_datum access column) (\<lambda>(access', dv).
       case (dv_values dv, dv_isnull dv) of
         (Some values, Some isnull) \<Rightarrow> Inr (access', int4_vector_init_datum values isnull)
       | _ \<Rightarrow> Inl (Elog ''pg_batch source returned an incomplete Datum column''))"

definition column_get_int4 ::
  "'p native_cache \<Rightarrow> 'p column_access \<Rightarrow> int \<Rightarrow>
     ('p column_access \<times> int4_vector) result \<times> 'p native_cache" where
  "column_get_int4 c access column =
     (case bms_is_member column (acc_columns access) of
           Inl e \<Rightarrow> (Inl e, c)
         | Inr False \<Rightarrow> (Inl (Elog ''pg_batch column %d was not requested''), c)
         | Inr True \<Rightarrow>
             (case get_native_interface c (acc_batch access) int4_vector_type of
                (Inl e, c') \<Rightarrow> (Inl e, c')
              | (Inr None, c') \<Rightarrow> (column_int4_from_datum column access, c')
              | (Inr (Some native), c') \<Rightarrow>
                  (rbind (ni_get_column native (b_private (acc_batch access)) column
                           \<lparr>vec_struct_size = struct_sizeof PgBatchInt4Vector_layout,
                            vec_data = INT4_DATUM [] []\<rparr>)
                    (\<lambda>(p, found, result).
                       let access' = access\<lparr>acc_batch := (acc_batch access)\<lparr>b_private := p\<rparr>\<rparr>
                       in if found then
                            (if vec_struct_size result < abi_size_through PgBatchInt4Vector_layout ''data''
                             then Inl (Elog ''pg_batch source returned an incompatible int4 vector'')
                             else Inr (access', result))
                          else column_int4_from_datum column access'), c')))"

section \<open>Logical layouts\<close>

record layout =
  lay_struct_size :: nat
  lay_ncolumns :: int
  lay_ntargets :: int
  lay_target_columns :: "int list option"

definition layout_column :: "layout \<Rightarrow> nat \<Rightarrow> int" where
  "layout_column l target =
     (case lay_target_columns l of None \<Rightarrow> int target | Some cols \<Rightarrow> cols ! target)"

definition check_layout :: "layout option \<Rightarrow> unit result" where
  "check_layout layout =
     (case layout of
        None \<Rightarrow> Inl (Elog ''pg_batch received an invalid logical layout'')
      | Some l \<Rightarrow>
          if lay_struct_size l < abi_size_through PgBatchLayout_layout ''target_columns'' \<or>
             lay_ncolumns l < 0 \<or> lay_ntargets l < 0 \<or>
             (lay_target_columns l = None \<and> lay_ntargets l > lay_ncolumns l)
          then Inl (Elog ''pg_batch received an invalid logical layout'')
          else rfold (\<lambda>target _.
                 let column = (case lay_target_columns l of None \<Rightarrow> int target | Some cols \<Rightarrow> cols ! target)
                 in if column < - 1 \<or> lay_ncolumns l \<le> column
                    then Inl (Elog ''pg_batch target column %d is out of range'') else Inr ())
               [0..<nat (lay_ntargets l)] ())"

lemma rfold_check:
  "rfold (\<lambda>x _. if bad x then Inl e else Inr ()) xs () = Inr () \<longleftrightarrow> (\<forall>x\<in>set xs. \<not> bad x)"
  by (induction xs) auto

section \<open>Properties of column access\<close>

text \<open>
  C32. An accepted layout maps every target either to no column (\<open>-1\<close>) or to one of
  its columns, and every layout with a large enough header, non-negative counts
  and such a map is accepted; anything else is refused with an error.
\<close>

theorem check_layout_correct:
  "check_layout (Some l) = Inr () \<longleftrightarrow>
     24 \<le> lay_struct_size l \<and> 0 \<le> lay_ncolumns l \<and> 0 \<le> lay_ntargets l \<and>
     (\<forall>target < nat (lay_ntargets l).
        - 1 \<le> layout_column l target \<and> layout_column l target < lay_ncolumns l)"
proof -
  have size: "abi_size_through PgBatchLayout_layout ''target_columns'' = 24"
    by code_simp
  have "lay_ntargets l \<le> lay_ncolumns l"
    if "lay_target_columns l = None" "0 \<le> lay_ncolumns l" "0 \<le> lay_ntargets l"
      "\<forall>target. nat (lay_ntargets l) \<le> target \<or> int target < lay_ncolumns l"
  proof (rule ccontr)
    assume "\<not> lay_ntargets l \<le> lay_ncolumns l"
    with that(2) have "nat (lay_ncolumns l) < nat (lay_ntargets l)" by linarith
    with that(4) have "int (nat (lay_ncolumns l)) < lay_ncolumns l" by (meson not_le)
    with that(2) show False by linarith
  qed
  then show ?thesis
    unfolding check_layout_def size
    by (auto simp: rfold_check Let_def layout_column_def not_less not_le split: option.splits)
qed

theorem check_layout_correct_witness:
  "check_layout (Some \<lparr>lay_struct_size = 24, lay_ncolumns = 2, lay_ntargets = 3,
     lay_target_columns = Some [1, - 1, 0]\<rparr>) = Inr () \<and>
   check_layout (Some \<lparr>lay_struct_size = 24, lay_ncolumns = 2, lay_ntargets = 1,
     lay_target_columns = Some [2]\<rparr>) \<noteq> Inr ()"
  unfolding check_layout_correct
  by (auto simp: layout_column_def less_Suc_eq numeral_3_eq_3)

text \<open>
  The cache of native interfaces is transparent.  \<open>tables\<close> maps an address to the
  operations table that lives there; a source's answer depends only on the
  table and on the name and version asked for, as \<open>batch.h\<close> requires.
\<close>

definition fresh_native_interface ::
  "'p batch \<Rightarrow> native_type \<Rightarrow> 'p native_interface option result" where
  "fresh_native_interface b type = fst (get_native_interface \<lparr>nc_entries = [], nc_last = None\<rparr> b type)"

definition native_callback :: "'p batch_ops \<Rightarrow> (native_type \<Rightarrow> 'p native_interface option) option" where
  "native_callback ops =
     (if abi_has_field (ops_struct_size ops) PgBatchOps_layout ''get_native_interface''
      then ops_get_native_interface ops else None)"

definition stable_tables :: "(nat \<Rightarrow> 'p batch_ops) \<Rightarrow> bool" where
  "stable_tables tables \<longleftrightarrow>
     (\<forall>a f t u. native_callback (tables a) = Some f \<longrightarrow> nt_name t = nt_name u \<longrightarrow>
        nt_abi_version t = nt_abi_version u \<longrightarrow> f t = f u)"

definition entry_sound :: "(nat \<Rightarrow> 'p batch_ops) \<Rightarrow> 'p native_entry \<Rightarrow> bool" where
  "entry_sound tables e \<longleftrightarrow>
     (\<exists>f t. native_callback (tables (ne_ops e)) = Some f \<and>
        nt_name t = ne_name e \<and> nt_abi_version t = ne_abi_version e \<and> f t = ne_interface e \<and>
        (\<forall>i. ne_interface e = Some i \<longrightarrow> ni_abi_version i = ne_abi_version e))"

definition cache_sound :: "(nat \<Rightarrow> 'p batch_ops) \<Rightarrow> 'p native_cache \<Rightarrow> bool" where
  "cache_sound tables c \<longleftrightarrow>
     (\<forall>e \<in> set (nc_entries c). entry_sound tables e) \<and>
     (\<forall>e. nc_last c = Some e \<longrightarrow> entry_sound tables e)"

lemma checked_native_fresh:
  assumes "stable_tables tables" "entry_sound tables e" "b_ops b = Some ops"
    and "tables (ops_addr ops) = ops" "entry_matches ops type e"
  shows "checked_native_interface e type = fresh_native_interface b type"
proof -
  from assms(2,4,5) obtain f t where f: "native_callback ops = Some f"
    "nt_name t = nt_name type" "nt_abi_version t = nt_abi_version type" "f t = ne_interface e"
    "\<And>i. ne_interface e = Some i \<Longrightarrow> ni_abi_version i = nt_abi_version type"
    by (auto simp: entry_sound_def entry_matches_def)
  have "f type = ne_interface e"
    using assms(1,4) f unfolding stable_tables_def by metis
  with f assms(3) show ?thesis
    by (auto simp: fresh_native_interface_def get_native_interface_def checked_native_interface_def
        native_callback_def Let_def split: option.splits if_splits)
qed

lemma get_native_interface_sound:
  assumes "stable_tables tables" "cache_sound tables c"
    and "\<And>ops. b_ops b = Some ops \<Longrightarrow> tables (ops_addr ops) = ops"
  shows "fst (get_native_interface c b type) = fresh_native_interface b type \<and>
    cache_sound tables (snd (get_native_interface c b type))"
proof (cases "Option.bind (b_ops b) native_callback")
  case None
  then show ?thesis
    using assms(2)
    by (auto simp: get_native_interface_def fresh_native_interface_def native_callback_def
        split: option.splits if_splits)
next
  case (Some f)
  then obtain ops where ops: "b_ops b = Some ops" "native_callback ops = Some f"
    by (cases "b_ops b") auto
  have found: "checked_native_interface e type = fresh_native_interface b type"
    if "entry_sound tables e" "entry_matches ops type e" for e
    using checked_native_fresh [OF assms(1) that(1) ops(1) assms(3) [OF ops(1)] that(2)] .
  have new: "entry_sound tables \<lparr>ne_ops = ops_addr ops, ne_name = nt_name type,
      ne_abi_version = nt_abi_version type, ne_interface = f type\<rparr>"
    if "\<And>i. f type = Some i \<Longrightarrow> ni_abi_version i = nt_abi_version type"
    using that ops assms(3) [OF ops(1)] by (auto simp: entry_sound_def)
  have mem: "find (entry_matches ops type) (nc_entries c) = Some e \<Longrightarrow>
      entry_sound tables e \<and> entry_matches ops type e" for e
    using assms(2) by (auto simp: find_Some_iff cache_sound_def)
  note unfold = get_native_interface_def ops(1) option.case native_callback_def [symmetric] ops(2)
  show ?thesis
  proof (cases "\<exists>e. nc_last c = Some e \<and> entry_matches ops type e")
    case True
    then obtain e where e: "nc_last c = Some e" "entry_matches ops type e" by blast
    with assms(2) have "entry_sound tables e" by (auto simp: cache_sound_def)
    with e found assms(2) show ?thesis by (simp add: unfold)
  next
    case False
    then have last: "(case nc_last c of
        Some e \<Rightarrow> if entry_matches ops type e then Some e else None | None \<Rightarrow> None) = None"
      by (auto split: option.splits)
    show ?thesis
    proof (cases "find (entry_matches ops type) (nc_entries c)")
      case (Some e)
      with mem found assms(2) show ?thesis
        by (simp add: unfold last cache_sound_def)
    next
      case None
      then show ?thesis
        using new assms(2)
        by (auto simp: unfold last fresh_native_interface_def cache_sound_def Let_def
            split: option.splits)
    qed
  qed
qed

text \<open>
  C31. The backend-wide cache of native interfaces is transparent: with a sound
  cache \<open>pg_batch_get_native_interface\<close> returns, errors included, what asking the
  source afresh would return, and it leaves the cache sound.
\<close>

theorem native_cache_transparent:
  assumes "stable_tables tables" "cache_sound tables c"
    and "\<And>ops. b_ops b = Some ops \<Longrightarrow> tables (ops_addr ops) = ops"
  shows "fst (get_native_interface c b type) =
      fst (get_native_interface \<lparr>nc_entries = [], nc_last = None\<rparr> b type) \<and>
    cache_sound tables (snd (get_native_interface c b type))"
  using get_native_interface_sound [OF assms] by (simp add: fresh_native_interface_def)

definition example_ops :: "unit batch_ops" where
  "example_ops = \<lparr>ops_addr = 0, ops_abi_version = 1, ops_struct_size = 48,
     ops_get_datum_column = None, ops_prepare_columns = None,
     ops_get_native_interface = Some (\<lambda>t. if nt_name t = nt_name int4_vector_type
       then Some \<lparr>ni_abi_version = 1, ni_struct_size = 24,
         ni_get_column = (\<lambda>p c v. Inr (p, False, v))\<rparr> else None),
     ops_release = None\<rparr>"

definition example_batch :: "unit batch" where
  "example_batch = \<lparr>b_abi_version = 1, b_struct_size = 56, b_selection = example_selection,
     b_table_oid = 0, b_ops = Some example_ops, b_private = (), b_generation = 0\<rparr>"

theorem native_cache_transparent_witness:
  "let c = snd (get_native_interface \<lparr>nc_entries = [], nc_last = None\<rparr> example_batch int4_vector_type)
   in nc_entries c \<noteq> [] \<and>
      fst (get_native_interface c example_batch int4_vector_type) =
      fst (get_native_interface \<lparr>nc_entries = [], nc_last = None\<rparr> example_batch int4_vector_type)"
proof -
  let ?empty = "\<lparr>nc_entries = [], nc_last = None\<rparr> :: unit native_cache"
  let ?c = "snd (get_native_interface ?empty example_batch int4_vector_type)"
  have st: "stable_tables (\<lambda>_. example_ops)"
    by (auto simp: stable_tables_def native_callback_def example_ops_def)
  have t: "\<And>ops. b_ops example_batch = Some ops \<Longrightarrow> example_ops = ops"
    by (simp add: example_batch_def)
  have c0: "cache_sound (\<lambda>_. example_ops) ?empty" by (simp add: cache_sound_def)
  have c: "cache_sound (\<lambda>_. example_ops) ?c"
    using native_cache_transparent [OF st c0 t] by blast
  have size: "abi_size_through PgBatchOps_layout ''get_native_interface'' = 40" by code_simp
  have "nc_entries ?c \<noteq> []"
    by (simp add: get_native_interface_def example_batch_def example_ops_def abi_has_field_def size
        int4_vector_type_def Let_def)
  with native_cache_transparent [OF st c t, where type = int4_vector_type] show ?thesis
    by (simp add: Let_def)
qed

end
