(* ===== verification/Kernels.thy ===== *)
theory Kernels
  imports Columns "HOL-Library.Signed_Division"
begin

text \<open>
  The int4 kernels of \<open>kernels/int4.c\<close>, \<open>kernels/int4_simd.c\<close> and
  \<open>kernels/internal.h\<close>: comparison of a column with a scalar (scalar loop and
  four-lane SIMD blocks, on NEON and on SSE2), the filter that removes rows,
  checked arithmetic, and the count/sum/min/max reduction.

  The loop \<open>while (rows != 0)\<close> over the set bits of a word is a fold over
  \<^const>\<open>word_rows\<close>; the code clears the visited bit with \<open>rows &= ~bit\<close> or with
  \<open>rows &= rows - 1\<close>, which \<open>clear_lowest_eq\<close> shows to be the same.
\<close>

lemma clear_lowest_eq [bit_loop]:
  assumes "rows \<noteq> 0"
  shows "rows AND NOT (push_bit (pg_rightmost_one_pos64 rows) 1) = rows AND (rows - 1)"
proof (rule bit_word_eqI)
  fix i assume "i < LENGTH(64)"
  show "bit (rows AND NOT (push_bit (pg_rightmost_one_pos64 rows) 1)) i = bit (rows AND (rows - 1)) i"
    using bit_clear_lowest [OF assms, of i] rightmost_one_pos64(1) [OF assms]
    by (auto simp: bit_and_iff bit_not_iff bit_exp_iff dest: word64_bit_lt)
qed

section \<open>Comparison operators\<close>

datatype int4_op =
    PG_BATCH_INT4_EQ | PG_BATCH_INT4_NE | PG_BATCH_INT4_LT
  | PG_BATCH_INT4_LE | PG_BATCH_INT4_GT | PG_BATCH_INT4_GE

text \<open>Object identifiers of the built-in comparison functions (\<open>utils/fmgroids.h\<close>).\<close>

definition F_INT4EQ :: uint32 where "F_INT4EQ = 65"
definition F_INT4LT :: uint32 where "F_INT4LT = 66"
definition F_INT4NE :: uint32 where "F_INT4NE = 144"
definition F_INT4GT :: uint32 where "F_INT4GT = 147"
definition F_INT4LE :: uint32 where "F_INT4LE = 149"
definition F_INT4GE :: uint32 where "F_INT4GE = 150"

lemmas int4_function_oids =
  F_INT4EQ_def F_INT4LT_def F_INT4NE_def F_INT4GT_def F_INT4LE_def F_INT4GE_def

definition int4_compare_op :: "uint32 \<Rightarrow> 8 word \<Rightarrow> int4_op option" where
  "int4_compare_op funcid var_argno =
     (case (if funcid = F_INT4EQ then Some PG_BATCH_INT4_EQ
            else if funcid = F_INT4NE then Some PG_BATCH_INT4_NE
            else if funcid = F_INT4LT then Some PG_BATCH_INT4_LT
            else if funcid = F_INT4LE then Some PG_BATCH_INT4_LE
            else if funcid = F_INT4GT then Some PG_BATCH_INT4_GT
            else if funcid = F_INT4GE then Some PG_BATCH_INT4_GE
            else None) of
        None \<Rightarrow> None
      | Some op \<Rightarrow>
          Some (if var_argno = 1 then
                  (if op = PG_BATCH_INT4_LT then PG_BATCH_INT4_GT
                   else if op = PG_BATCH_INT4_LE then PG_BATCH_INT4_GE
                   else if op = PG_BATCH_INT4_GT then PG_BATCH_INT4_LT
                   else if op = PG_BATCH_INT4_GE then PG_BATCH_INT4_LE
                   else op)
                else op))"

fun int4_compare :: "int4 \<Rightarrow> int4 \<Rightarrow> int4_op \<Rightarrow> bool" where
  "int4_compare left right PG_BATCH_INT4_EQ \<longleftrightarrow> left = right"
| "int4_compare left right PG_BATCH_INT4_NE \<longleftrightarrow> left \<noteq> right"
| "int4_compare left right PG_BATCH_INT4_LT \<longleftrightarrow> sint left < sint right"
| "int4_compare left right PG_BATCH_INT4_LE \<longleftrightarrow> sint left \<le> sint right"
| "int4_compare left right PG_BATCH_INT4_GT \<longleftrightarrow> sint left > sint right"
| "int4_compare left right PG_BATCH_INT4_GE \<longleftrightarrow> sint left \<ge> sint right"

text \<open>What the SQL function of that identifier computes on its two arguments.\<close>

definition int4_function :: "uint32 \<Rightarrow> (int \<Rightarrow> int \<Rightarrow> bool) option" where
  "int4_function f =
     map_of [(65, (=)), (144, (\<noteq>)), (66, (<)), (149, (\<le>)), (147, (>)), (150, (\<ge>))] f"

section \<open>SIMD comparison\<close>

text \<open>
  A 128-bit register is the list of its four 32-bit lanes, lane 0 first; the
  intrinsics act lane by lane.  The target is fixed when the library is compiled.
\<close>

datatype simd_target = NO_SIMD | USE_NEON | USE_SSE2

type_synonym lanes = "int4 list"

definition simd_available :: "simd_target \<Rightarrow> bool" where
  "simd_available target \<longleftrightarrow> target = USE_NEON \<or> target = USE_SSE2"

definition lane_mask :: "(int4 \<Rightarrow> int4 \<Rightarrow> bool) \<Rightarrow> lanes \<Rightarrow> lanes \<Rightarrow> lanes" where
  "lane_mask f xs ys = map2 (\<lambda>x y. if f x y then - 1 else 0) xs ys"

definition dup_lanes :: "int4 \<Rightarrow> lanes" where
  "dup_lanes x = [x, x, x, x]"

definition vceqq_s32 :: "lanes \<Rightarrow> lanes \<Rightarrow> lanes" where "vceqq_s32 = lane_mask (=)"
definition vcltq_s32 :: "lanes \<Rightarrow> lanes \<Rightarrow> lanes" where "vcltq_s32 = lane_mask (\<lambda>x y. sint x < sint y)"
definition vcleq_s32 :: "lanes \<Rightarrow> lanes \<Rightarrow> lanes" where "vcleq_s32 = lane_mask (\<lambda>x y. sint x \<le> sint y)"
definition vcgtq_s32 :: "lanes \<Rightarrow> lanes \<Rightarrow> lanes" where "vcgtq_s32 = lane_mask (\<lambda>x y. sint x > sint y)"
definition vcgeq_s32 :: "lanes \<Rightarrow> lanes \<Rightarrow> lanes" where "vcgeq_s32 = lane_mask (\<lambda>x y. sint x \<ge> sint y)"
definition vmvnq_u32 :: "lanes \<Rightarrow> lanes" where "vmvnq_u32 xs = map (\<lambda>x. NOT x) xs"

definition mm_cmpeq_epi32 :: "lanes \<Rightarrow> lanes \<Rightarrow> lanes" where "mm_cmpeq_epi32 = lane_mask (=)"
definition mm_cmpgt_epi32 :: "lanes \<Rightarrow> lanes \<Rightarrow> lanes" where
  "mm_cmpgt_epi32 = lane_mask (\<lambda>x y. sint x > sint y)"
definition mm_xor_si128 :: "lanes \<Rightarrow> lanes \<Rightarrow> lanes" where
  "mm_xor_si128 xs ys = map2 (\<lambda>x y. x XOR y) xs ys"

text \<open>Two \<open>Datum\<close>s fill a register; little-endian lanes, low half first.\<close>

definition load_two_datums :: "datum list \<Rightarrow> nat \<Rightarrow> lanes" where
  "load_two_datums values i =
     [ucast (values ! i), ucast (drop_bit 32 (values ! i)),
      ucast (values ! (i + 1)), ucast (drop_bit 32 (values ! (i + 1)))]"

definition mm_shuffle_epi32 :: "lanes \<Rightarrow> nat \<times> nat \<times> nat \<times> nat \<Rightarrow> lanes" where
  "mm_shuffle_epi32 v = (\<lambda>(z, y, x, w). [v ! w, v ! x, v ! y, v ! z])"

definition mm_unpacklo_epi64 :: "lanes \<Rightarrow> lanes \<Rightarrow> lanes" where
  "mm_unpacklo_epi64 a b = [a ! 0, a ! 1, b ! 0, b ! 1]"

definition load_datum_values_neon :: "datum list \<Rightarrow> nat \<Rightarrow> lanes" where
  "load_datum_values_neon values i =
     [ucast (values ! i), ucast (values ! (i + 1))] @
     [ucast (values ! (i + 2)), ucast (values ! (i + 3))]"

definition load_datum_values_sse2 :: "datum list \<Rightarrow> nat \<Rightarrow> lanes" where
  "load_datum_values_sse2 values i =
     (let first = load_two_datums values i;
          second = load_two_datums values (i + 2);
          first' = mm_shuffle_epi32 first (2, 0, 2, 0);
          second' = mm_shuffle_epi32 second (2, 0, 2, 0)
      in mm_unpacklo_epi64 first' second')"

definition load_packed_values :: "int4 list \<Rightarrow> nat \<Rightarrow> lanes" where
  "load_packed_values values i =
     [values ! i, values ! (i + 1), values ! (i + 2), values ! (i + 3)]"

definition comparison_mask_neon :: "lanes \<Rightarrow> uint32" where
  "comparison_mask_neon ls =
     drop_bit 31 (ls ! 0) OR push_bit 1 (drop_bit 31 (ls ! 1)) OR
     push_bit 2 (drop_bit 31 (ls ! 2)) OR push_bit 3 (drop_bit 31 (ls ! 3))"

text \<open>\<open>_mm_movemask_ps\<close>: the sign bits of the four lanes.\<close>

definition comparison_mask_sse2 :: "lanes \<Rightarrow> uint32" where
  "comparison_mask_sse2 ls =
     fold (\<lambda>i m. if bit (ls ! i) 31 then m OR push_bit i 1 else m) [0..<4] 0"

fun simd_compare_lanes :: "simd_target \<Rightarrow> int4_op \<Rightarrow> lanes \<Rightarrow> lanes \<Rightarrow> lanes" where
  "simd_compare_lanes USE_NEON op left right =
     (case op of
        PG_BATCH_INT4_EQ \<Rightarrow> vceqq_s32 left right
      | PG_BATCH_INT4_NE \<Rightarrow> vmvnq_u32 (vceqq_s32 left right)
      | PG_BATCH_INT4_LT \<Rightarrow> vcltq_s32 left right
      | PG_BATCH_INT4_LE \<Rightarrow> vcleq_s32 left right
      | PG_BATCH_INT4_GT \<Rightarrow> vcgtq_s32 left right
      | PG_BATCH_INT4_GE \<Rightarrow> vcgeq_s32 left right)"
| "simd_compare_lanes USE_SSE2 op left right =
     (case op of
        PG_BATCH_INT4_EQ \<Rightarrow> mm_cmpeq_epi32 left right
      | PG_BATCH_INT4_NE \<Rightarrow> mm_xor_si128 (mm_cmpeq_epi32 left right) (mm_cmpeq_epi32 left left)
      | PG_BATCH_INT4_LT \<Rightarrow> mm_cmpgt_epi32 right left
      | PG_BATCH_INT4_LE \<Rightarrow> mm_xor_si128 (mm_cmpgt_epi32 left right) (mm_cmpeq_epi32 left left)
      | PG_BATCH_INT4_GT \<Rightarrow> mm_cmpgt_epi32 left right
      | PG_BATCH_INT4_GE \<Rightarrow> mm_xor_si128 (mm_cmpgt_epi32 right left) (mm_cmpeq_epi32 left left))"
| "simd_compare_lanes NO_SIMD op left right = []"

definition simd_load :: "simd_target \<Rightarrow> int4_vector \<Rightarrow> nat \<Rightarrow> lanes" where
  "simd_load target column row =
     (case vec_data column of
        INT4_DATUM values isnull \<Rightarrow>
          if target = USE_NEON then load_datum_values_neon values row
          else load_datum_values_sse2 values row
      | INT4_PACKED values validity off \<Rightarrow> load_packed_values values (nat (off + int row)))"

definition comparison_mask :: "simd_target \<Rightarrow> lanes \<Rightarrow> uint32" where
  "comparison_mask target ls =
     (if target = USE_NEON then comparison_mask_neon ls else comparison_mask_sse2 ls)"

text \<open>Blocks of four rows, then the rows left over one by one.\<close>

definition int4_simd_compare ::
  "simd_target \<Rightarrow> int4_vector \<Rightarrow> nat \<Rightarrow> nat \<Rightarrow> int4_op \<Rightarrow> int4 \<Rightarrow> uint64" where
  "int4_simd_compare target column first_row nrows op scalar =
     (if target = NO_SIMD then 0
      else
        let right = dup_lanes scalar;
            blocks = fold (\<lambda>block result.
                let row = 4 * block;
                    left = simd_load target column (first_row + row);
                    comparison = simd_compare_lanes target op left right
                in result OR push_bit row (ucast (comparison_mask target comparison)))
              [0..<nrows div 4] 0
        in fold (\<lambda>row result.
               let physical_row = first_row + row;
                   value = (case vec_data column of
                       INT4_DATUM values isnull \<Rightarrow> datum_get_int32 (values ! physical_row)
                     | INT4_PACKED values validity off \<Rightarrow> values ! nat (off + int physical_row))
               in if int4_compare value scalar op then result OR push_bit row 1 else result)
             [4 * (nrows div 4)..<nrows] blocks)"

section \<open>The filter kernel\<close>

definition word_mask :: "int \<Rightarrow> nat \<Rightarrow> uint64" where
  "word_mask nrows word =
     (let remaining = nrows - int word * 64
      in if 64 \<le> remaining then - 1 else drop_bit (nat (64 - remaining)) (- 1))"

definition scalar_compare ::
  "int4_vector \<Rightarrow> nat \<Rightarrow> uint64 \<Rightarrow> int4_op \<Rightarrow> int4 \<Rightarrow> uint64" where
  "scalar_compare column first_row rows op scalar =
     fold (\<lambda>bitno result.
         let row = first_row + bitno
         in if \<not> int4_row_is_null column row \<and>
               int4_compare (int4_row_value column row) scalar op
            then result OR push_bit bitno 1 else result)
       (word_rows rows) 0"

definition not_null_mask :: "int4_vector \<Rightarrow> nat \<Rightarrow> int \<Rightarrow> uint64 \<Rightarrow> uint64" where
  "not_null_mask column first_row nrows rows =
     (if (case vec_data column of
            INT4_PACKED values None off \<Rightarrow> True
          | INT4_PACKED values (Some validity) off \<Rightarrow> False
          | INT4_DATUM values isnull \<Rightarrow>
              rows = word_mask nrows 0 \<and>
              True \<notin> set (take (nat nrows) (drop first_row isnull)))
      then rows
      else fold (\<lambda>bitno result.
               if \<not> int4_row_is_null column (first_row + bitno)
               then result OR push_bit bitno 1 else result)
             (word_rows rows) 0)"

definition filter_word ::
  "simd_target \<Rightarrow> int4_vector \<Rightarrow> int \<Rightarrow> int4_op \<Rightarrow> int4 \<Rightarrow> bool \<Rightarrow> nat \<Rightarrow> uint64 \<Rightarrow> uint64" where
  "filter_word target column nrows op scalar enable_simd word w =
     (let use_simd = enable_simd \<and> simd_available target;
          rows = w AND word_mask nrows word;
          first_row = word * 64;
          word_nrows = min 64 (nrows - int first_row)
      in if rows = 0 then w
         else if use_simd \<and> rows = word_mask nrows word \<and> 4 \<le> word_nrows then
           (let passing = int4_simd_compare target column first_row (nat word_nrows) op scalar;
                passing' = passing AND not_null_mask column first_row word_nrows rows
            in rows AND passing')
         else scalar_compare column first_row rows op scalar)"

definition filter_int4 ::
  "simd_target \<Rightarrow> int4_vector \<Rightarrow> selection \<Rightarrow> int4_op \<Rightarrow> int4 \<Rightarrow> bool \<Rightarrow> selection" where
  "filter_int4 target column s op scalar enable_simd =
     s\<lparr>sel_words :=
         fold (\<lambda>word ws.
             ws[word := filter_word target column (sel_nrows s) op scalar enable_simd word (ws ! word)])
           [0..<nat (sel_nwords s)] (sel_words s)\<rparr>"

text \<open>The row predicate the filter stands for.\<close>

definition int4_row_passes :: "int4_vector \<Rightarrow> int4_op \<Rightarrow> int4 \<Rightarrow> nat \<Rightarrow> bool" where
  "int4_row_passes column op scalar row =
     (case vec_get column row of None \<Rightarrow> False | Some v \<Rightarrow> int4_compare v scalar op)"

subsection \<open>Masks built bit by bit\<close>

lemma bit_fold_or:
  assumes "\<And>i. i \<in> set xs \<Longrightarrow> i < LENGTH('a)"
  shows "bit (fold (\<lambda>b r. if P b then r OR push_bit b 1 else r) xs (r0 :: 'a::len word)) i \<longleftrightarrow>
    bit r0 i \<or> (i \<in> set xs \<and> P i)"
  using assms
  by (induction xs arbitrary: r0) (auto simp: bit_or_iff bit_exp_iff)

lemma bit_word_mask:
  assumes "int word * 64 < nrows"
  shows "bit (word_mask nrows word) i \<longleftrightarrow> i < 64 \<and> int (64 * word + i) < nrows"
  using assms by (auto simp: word_mask_def Let_def bit_simps)

lemma bit_scalar_compare:
  "bit (scalar_compare column first_row rows op scalar) i \<longleftrightarrow>
     bit rows i \<and> int4_row_passes column op scalar (first_row + i)"
proof -
  have "bit (scalar_compare column first_row rows op scalar) i \<longleftrightarrow>
      bit (0 :: uint64) i \<or> i \<in> set (word_rows rows) \<and> (\<not> int4_row_is_null column (first_row + i) \<and>
        int4_compare (int4_row_value column (first_row + i)) scalar op)"
    unfolding scalar_compare_def Let_def by (rule bit_fold_or) (auto dest: word64_bit_lt)
  then show ?thesis
    by (auto simp: int4_row_passes_def vec_get_def)
qed

lemma bit_not_null_mask:
  assumes "vec_wf column (first_row + nat nrows)" "0 < nrows" "nrows \<le> 64"
    and "\<And>i. bit rows i \<Longrightarrow> int i < nrows"
  shows "bit (not_null_mask column first_row nrows rows) i \<longleftrightarrow>
    bit rows i \<and> vec_get column (first_row + i) \<noteq> None"
proof -
  let ?loop = "fold (\<lambda>bitno result.
      if \<not> int4_row_is_null column (first_row + bitno) then result OR push_bit bitno 1 else result)
      (word_rows rows) (0 :: uint64)"
  have loop: "bit ?loop i \<longleftrightarrow> bit rows i \<and> \<not> int4_row_is_null column (first_row + i)"
    by (subst bit_fold_or) (auto dest: word64_bit_lt)
  have vec: "vec_get column r \<noteq> None \<longleftrightarrow> \<not> int4_row_is_null column r" for r
    by (simp add: vec_get_def)
  show ?thesis
  proof (cases "vec_data column")
    case (INT4_DATUM vs isnull)
    have "\<not> isnull ! (first_row + i)"
      if "True \<notin> set (take (nat nrows) (drop first_row isnull))" "bit rows i"
    proof -
      have "i < nat nrows" using assms(4) [OF that(2)] assms(2) by linarith
      moreover have "first_row + nat nrows \<le> length isnull"
        using assms(1) INT4_DATUM by (simp add: vec_wf_def)
      ultimately have "isnull ! (first_row + i) \<in> set (take (nat nrows) (drop first_row isnull))"
        by (auto simp: in_set_conv_nth intro!: exI [of _ i])
      with that(1) show ?thesis by (cases "isnull ! (first_row + i)") auto
    qed
    then show ?thesis
      unfolding not_null_mask_def vec using loop INT4_DATUM
      by (auto simp: int4_row_is_null_def)
  next
    case (INT4_PACKED vs validity off)
    then show ?thesis
      unfolding not_null_mask_def vec using loop
      by (cases validity) (auto simp: int4_row_is_null_def)
  qed
qed

subsection \<open>SIMD blocks agree with the scalar comparison\<close>

lemmas simd_defs =
  vceqq_s32_def vcltq_s32_def vcleq_s32_def vcgtq_s32_def vcgeq_s32_def vmvnq_u32_def
  mm_cmpeq_epi32_def mm_cmpgt_epi32_def mm_xor_si128_def lane_mask_def dup_lanes_def

lemma simd_compare_lanes_eq:
  assumes "target \<noteq> NO_SIMD"
  shows "simd_compare_lanes target op [a, b, c, d] (dup_lanes x) =
    map (\<lambda>v. if int4_compare v x op then - 1 else 0) [a, b, c, d]"
  using assms by (cases target; cases op) (simp_all add: simd_defs not_less not_le)

lemma nat_lt_4: "(j :: nat) < 4 \<longleftrightarrow> j = 0 \<or> j = 1 \<or> j = 2 \<or> j = 3"
  by auto

lemma bit_drop_31 [simp]:
  "bit (drop_bit 31 (if p then - 1 else 0 :: int4)) i \<longleftrightarrow> p \<and> i = 0"
  by (auto simp: bit_simps)

lemma bit_comparison_mask:
  "bit (comparison_mask target (map (\<lambda>v. if P v then - 1 else 0) [a, b, c, d])) j \<longleftrightarrow>
     j < 4 \<and> P ([a, b, c, d] ! j)"
proof (cases "target = USE_NEON")
  case True
  then show ?thesis
    unfolding comparison_mask_def comparison_mask_neon_def
    by (auto simp: bit_or_iff bit_push_bit_iff nat_lt_4 bit_2_iff simp del: bit_drop_bit_eq)
next
  case False
  then show ?thesis
    unfolding comparison_mask_def comparison_mask_sse2_def
    by (simp only: if_False, subst bit_fold_or) (auto simp: nat_lt_4)
qed

lemma simd_load_eq:
  assumes "vec_wf column (row + 4)" "target \<noteq> NO_SIMD"
  shows "simd_load target column row = map (\<lambda>j. int4_row_value column (row + j)) [0, 1, 2, 3]"
proof (cases "vec_data column")
  case (INT4_DATUM vs isnull)
  then show ?thesis
    by (simp add: numeral_3_eq_3 simd_load_def int4_row_value_def load_datum_values_neon_def
        load_datum_values_sse2_def load_two_datums_def mm_shuffle_epi32_def
        mm_unpacklo_epi64_def datum_get_int32_def Let_def add.assoc)
next
  case (INT4_PACKED vs validity off)
  then have off: "0 \<le> off" using assms(1) by (simp add: vec_wf_def)
  have "nat (off + (int row + int j)) = nat (off + int row) + j" for j
    using off by linarith
  from this [of 1] this [of 2] this [of 3] show ?thesis
    using INT4_PACKED by (simp add: simd_load_def int4_row_value_def load_packed_values_def add.assoc)
qed

lemma vec_wf_mono: "vec_wf column n \<Longrightarrow> m \<le> n \<Longrightarrow> vec_wf column m"
  by (auto simp: vec_wf_def split: int4_data.splits option.splits)

lemma bit_simd_block:
  assumes "vec_wf column (row + 4)" "target \<noteq> NO_SIMD"
  shows "bit (comparison_mask target
      (simd_compare_lanes target op (simd_load target column row) (dup_lanes scalar))) j \<longleftrightarrow>
    j < 4 \<and> int4_compare (int4_row_value column (row + j)) scalar op"
proof -
  have eq: "simd_compare_lanes target op (simd_load target column row) (dup_lanes scalar) =
      map (\<lambda>v. if int4_compare v scalar op then - 1 else 0)
        [int4_row_value column (row + 0), int4_row_value column (row + 1),
         int4_row_value column (row + 2), int4_row_value column (row + 3)]"
    unfolding simd_load_eq [OF assms] list.map(2)
    using simd_compare_lanes_eq [OF assms(2)] by simp
  show ?thesis
    unfolding eq bit_comparison_mask by (auto simp: nat_lt_4)
qed

lemma bit_simd_blocks:
  assumes "vec_wf column (first_row + 4 * n)" "target \<noteq> NO_SIMD" "4 * n \<le> 64"
  shows "bit (fold (\<lambda>block result.
        result OR push_bit (4 * block) (ucast (comparison_mask target
          (simd_compare_lanes target op (simd_load target column (first_row + 4 * block))
             (dup_lanes scalar))) :: uint64)) [0..<n] 0) i \<longleftrightarrow>
    i < 4 * n \<and> int4_compare (int4_row_value column (first_row + i)) scalar op"
  using assms(1,3)
proof (induction n)
  case (Suc n)
  have wf: "vec_wf column (first_row + 4 * n + 4)" using Suc.prems(1) by (simp add: ac_simps)
  have IH: "bit (fold (\<lambda>block result.
        result OR push_bit (4 * block) (ucast (comparison_mask target
          (simd_compare_lanes target op (simd_load target column (first_row + 4 * block))
             (dup_lanes scalar))) :: uint64)) [0..<n] 0) i \<longleftrightarrow>
    i < 4 * n \<and> int4_compare (int4_row_value column (first_row + i)) scalar op"
    by (rule Suc.IH) (use Suc.prems vec_wf_mono [OF Suc.prems(1)] in auto)
  have "bit (push_bit (4 * n) (ucast (comparison_mask target
          (simd_compare_lanes target op (simd_load target column (first_row + 4 * n))
             (dup_lanes scalar))) :: uint64)) i \<longleftrightarrow>
      4 * n \<le> i \<and> i < 4 * n + 4 \<and> int4_compare (int4_row_value column (first_row + i)) scalar op"
  proof (cases "4 * n \<le> i")
    case True
    then show ?thesis
      using Suc.prems(2) bit_simd_block [OF wf assms(2), of op scalar "i - 4 * n"]
      by (auto simp: bit_push_bit_iff bit_unsigned_iff)
  qed (simp add: bit_push_bit_iff)
  then show ?case
    unfolding upt_Suc_append [OF le0] fold_append o_apply fold_simps bit_or_iff IH by auto
qed simp

lemma bit_int4_simd_compare:
  assumes "vec_wf column (first_row + nrows)" "target \<noteq> NO_SIMD" "nrows \<le> 64"
  shows "bit (int4_simd_compare target column first_row nrows op scalar) i \<longleftrightarrow>
    i < nrows \<and> int4_compare (int4_row_value column (first_row + i)) scalar op"
proof -
  let ?b = "4 * (nrows div 4)"
  have wf: "vec_wf column (first_row + ?b)"
    by (rule vec_wf_mono [OF assms(1)]) simp
  have row_value: "(case vec_data column of
          INT4_DATUM values isnull \<Rightarrow> datum_get_int32 (values ! r)
        | INT4_PACKED values validity off \<Rightarrow> values ! nat (off + int r)) = int4_row_value column r" for r
    by (simp add: int4_row_value_def)
  show ?thesis
    unfolding int4_simd_compare_def Let_def row_value using assms(2)
    by (simp only: if_False, subst bit_fold_or)
      (use assms(3) bit_simd_blocks [OF wf assms(2)] in auto)
qed

subsection \<open>The filter removes exactly the rows that do not pass\<close>

lemma bit_filter_word:
  assumes "vec_wf column (nat nrows)" "int word * 64 < nrows"
    and "\<And>i. bit w i \<Longrightarrow> int (64 * word + i) < nrows"
  shows "bit (filter_word target column nrows op scalar enable_simd word w) i \<longleftrightarrow>
    bit w i \<and> int4_row_passes column op scalar (64 * word + i)"
proof -
  let ?n = "min 64 (nrows - int (word * 64))"
  have rows: "w AND word_mask nrows word = w"
    by (rule bit_word_eqI) (use assms(3) in \<open>auto simp: bit_and_iff bit_word_mask [OF assms(2)]\<close>)
  have wf: "vec_wf column (word * 64 + nat ?n)"
    by (rule vec_wf_mono [OF assms(1)]) (use assms(2) in linarith)
  have bound: "int i < ?n" if "bit w i" for i
    using assms(3) [OF that] word64_bit_lt [OF that] by simp
  have nn: "0 < ?n" "?n \<le> 64" using assms(2) by auto
  have simd: "bit (int4_simd_compare target column (word * 64) (nat ?n) op scalar AND
        not_null_mask column (word * 64) ?n w) i \<and> bit w i \<longleftrightarrow>
      bit w i \<and> int4_row_passes column op scalar (64 * word + i)" if "simd_available target"
  proof -
    have "bit (int4_simd_compare target column (word * 64) (nat ?n) op scalar) i \<longleftrightarrow>
        i < nat ?n \<and> int4_compare (int4_row_value column (word * 64 + i)) scalar op"
      by (rule bit_int4_simd_compare) (use that wf nn in \<open>auto simp: simd_available_def\<close>)
    moreover have "i < nat ?n" if "bit w i" using bound [OF that] by linarith
    ultimately show ?thesis
      using bit_not_null_mask [OF wf nn bound, where i = i]
      by (auto simp: bit_and_iff int4_row_passes_def vec_get_def mult.commute)
  qed
  show ?thesis
  proof (cases "w = 0")
    case True then show ?thesis by (simp add: filter_word_def)
  next
    case False
    then show ?thesis
      using simd unfolding filter_word_def Let_def rows
      by (auto simp: bit_and_iff bit_scalar_compare mult.commute)
  qed
qed

lemma filter_int4_word:
  assumes "sel_wf s" "k < nat (sel_nwords s)"
  shows "sel_words (filter_int4 target column s op scalar enable_simd) ! k =
    filter_word target column (sel_nrows s) op scalar enable_simd k (sel_words s ! k)"
  using fold_update_nth(2) [of "nat (sel_nwords s)" "sel_words s" k] assms
  by (simp add: filter_int4_def sel_wf_length)

lemma sel_word_in_range: "sel_wf s \<Longrightarrow> k < nat (sel_nwords s) \<Longrightarrow> int k * 64 < sel_nrows s"
  by (simp add: sel_wf_def)

lemma bit_filter_int4:
  assumes "sel_wf s" "vec_wf column (nat (sel_nrows s))" "k < nat (sel_nwords s)"
  shows "bit (sel_words (filter_int4 target column s op scalar enable_simd) ! k) i \<longleftrightarrow>
    bit (sel_words s ! k) i \<and> int4_row_passes column op scalar (64 * k + i)"
  unfolding filter_int4_word [OF assms(1,3)]
  by (rule bit_filter_word [OF assms(2) sel_word_in_range [OF assms(1,3)]])
    (use sel_wf_bit [OF assms(1,3)] in force)

lemma filter_int4_fields [simp]:
  "sel_nrows (filter_int4 target column s op scalar enable_simd) = sel_nrows s"
  "sel_nwords (filter_int4 target column s op scalar enable_simd) = sel_nwords s"
  by (simp_all add: filter_int4_def)

lemma filter_int4_sel_wf:
  assumes "sel_wf s" "vec_wf column (nat (sel_nrows s))"
  shows "sel_wf (filter_int4 target column s op scalar enable_simd)"
proof (rule sel_wf_shrink [OF assms(1)])
  show "length (sel_words (filter_int4 target column s op scalar enable_simd)) = length (sel_words s)"
    using fold_update_nth(1) [of "nat (sel_nwords s)" "sel_words s"] assms(1)
    by (simp add: filter_int4_def sel_wf_length)
qed (use bit_filter_int4 [OF assms] assms(1) in \<open>auto simp: sel_wf_length\<close>)

lemma filter_int4_selected:
  assumes "sel_wf s" "vec_wf column (nat (sel_nrows s))"
  shows "selected (filter_int4 target column s op scalar enable_simd) =
    filter (int4_row_passes column op scalar) (selected s)"
proof -
  have "sel_bit (filter_int4 target column s op scalar enable_simd) r \<longleftrightarrow>
      sel_bit s r \<and> int4_row_passes column op scalar r" if "r < nat (sel_nrows s)" for r
    using bit_filter_int4 [OF assms sel_wf_word_lt [OF assms(1) that], of _ _ _ _ "r mod 64"]
    by (simp add: sel_bit_def)
  then show ?thesis
    unfolding selected_def filter_filter by (intro filter_cong) auto
qed

section \<open>Filters as an interface\<close>

text \<open>
  What the executor relies on when it applies a filter to a selection: the
  selection stays well-formed and keeps exactly the selected rows that satisfy
  the filter's row predicate.
\<close>

locale row_filter =
  fixes apply_filter :: "selection \<Rightarrow> selection"
    and passes :: "nat \<Rightarrow> bool"
    and pre :: "selection \<Rightarrow> bool"
  assumes pre_wf: "pre s \<Longrightarrow> sel_wf s"
    and filter_pre: "pre s \<Longrightarrow> pre (apply_filter s)"
    and filter_nrows: "pre s \<Longrightarrow> sel_nrows (apply_filter s) = sel_nrows s"
    and filter_selected: "pre s \<Longrightarrow> selected (apply_filter s) = filter passes (selected s)"
begin

lemma never_restores: "pre s \<Longrightarrow> set (selected (apply_filter s)) \<subseteq> set (selected s)"
  by (simp add: filter_selected)

lemma idempotent: "pre s \<Longrightarrow> selected (apply_filter (apply_filter s)) = selected (apply_filter s)"
  by (simp add: filter_selected filter_pre)

lemma count_decreases: "pre s \<Longrightarrow> selection_count (apply_filter s) \<le> selection_count s"
  by (simp add: selection_count_selected pre_wf filter_pre filter_selected)

lemma count_unchanged_iff:
  assumes "pre s"
  shows "selection_count (apply_filter s) = selection_count s \<longleftrightarrow> (\<forall>r\<in>set (selected s). passes r)"
  using assms
  by (simp add: selection_count_selected pre_wf filter_pre filter_selected)
    (metis filter_id_conv length_filter_less nat_neq_iff)

end

interpretation int4_filter: row_filter
  "\<lambda>s. filter_int4 target column s op scalar enable_simd"
  "int4_row_passes column op scalar"
  "\<lambda>s. sel_wf s \<and> vec_wf column (nat (sel_nrows s))"
  for target column op scalar enable_simd
  by unfold_locales (auto simp: filter_int4_sel_wf filter_int4_selected)

interpretation intersect_filter: row_filter
  "\<lambda>s. selection_intersect s other" "sel_bit other"
  "\<lambda>s. sel_wf s \<and> sel_nrows other = sel_nrows s \<and> sel_nwords other = sel_nwords s"
  for other
  by unfold_locales
    (auto simp: selection_intersect_selected)

interpretation clear_filter: row_filter
  "\<lambda>s. selection_clear s (int r)" "\<lambda>q. q \<noteq> r" "\<lambda>s. sel_wf s \<and> r < nat (sel_nrows s)"
  for r
  by unfold_locales (auto simp: selection_clear_selected)

section \<open>Normalized comparison operators\<close>

lemma int4_compare_op_function:
  assumes "int4_compare_op f argno = Some op"
  shows "\<exists>g. int4_function f = Some g \<and>
    (\<forall>v c. int4_compare v c op = (if argno = 1 then g (sint c) (sint v) else g (sint v) (sint c)))"
  using assms unfolding int4_compare_op_def int4_function_def int4_function_oids
  by (auto simp: signed_word_eqI dest: sym split: if_splits)

lemma int4_compare_op_None:
  "int4_compare_op f argno = None \<longleftrightarrow> int4_function f = None"
  by (simp add: int4_compare_op_def int4_function_def int4_function_oids)

section \<open>Properties of the filter kernel\<close>

text \<open>
  C9. \<open>pg_batch_filter_int4\<close> keeps exactly the selected rows whose value is not NULL
  and stands in the relation \<open>op\<close> to the scalar, in the same order, whatever the
  compilation target and whether SIMD is enabled or not, for both vector layouts.
\<close>

theorem filter_int4_correct:
  assumes "sel_wf s" "vec_wf column (nat (sel_nrows s))"
  shows "sel_wf (filter_int4 target column s op scalar enable_simd) \<and>
    selected (filter_int4 target column s op scalar enable_simd) =
      filter (\<lambda>r. \<not> int4_row_is_null column r \<and>
                 int4_compare (int4_row_value column r) scalar op) (selected s)"
proof -
  have "int4_row_passes column op scalar r \<longleftrightarrow> \<not> int4_row_is_null column r \<and>
      int4_compare (int4_row_value column r) scalar op" for r
    by (simp add: int4_row_passes_def vec_get_def)
  then show ?thesis
    using filter_int4_sel_wf [OF assms] filter_int4_selected [OF assms] by presburger
qed

definition example_column :: int4_vector where
  "example_column = int4_vector_init_packed [9, 7, - 3, 7, 8, 7] (Some [59]) 1"

theorem filter_int4_correct_witness:
  "selected (filter_int4 USE_SSE2 example_column
     \<lparr>sel_nrows = 5, sel_nwords = 1, sel_words = [31]\<rparr> PG_BATCH_INT4_LE 7 True) = [0, 2, 4]"
proof -
  let ?s = "\<lparr>sel_nrows = 5, sel_nwords = 1, sel_words = [31]\<rparr> :: selection"
  have wf: "sel_wf ?s" by (rule sel_wfI) simp_all
  have col: "vec_wf example_column (nat (sel_nrows ?s))"
    by (simp add: vec_wf_def example_column_def int4_vector_init_packed_def)
  have rows: "filter (\<lambda>r. \<not> int4_row_is_null example_column r \<and>
      int4_compare (int4_row_value example_column r) 7 PG_BATCH_INT4_LE) (selected ?s) = [0, 2, 4]"
    by code_simp
  show ?thesis
    using filter_int4_correct [OF wf col, of USE_SSE2 PG_BATCH_INT4_LE 7 True] rows by simp
qed

text \<open>
  C28. The four-lane SIMD comparison, in its NEON and in its SSE2 form, restricted to
  the non-NULL rows, is the scalar comparison of the same full word: every bit
  agrees.
\<close>

theorem simd_compare_equals_scalar:
  assumes "vec_wf column (first_row + nat nrows)" "0 < nrows" "nrows \<le> 64" "simd_available target"
  shows "int4_simd_compare target column first_row (nat nrows) op scalar AND
      not_null_mask column first_row nrows (word_mask nrows 0) =
    scalar_compare column first_row (word_mask nrows 0) op scalar"
proof (rule bit_word_eqI)
  fix i :: nat assume "i < LENGTH(64)"
  have bound: "int j < nrows" if "bit (word_mask nrows 0) j" for j
    using that assms(2) by (simp add: bit_word_mask)
  have target: "target \<noteq> NO_SIMD" using assms(4) by (auto simp: simd_available_def)
  have "i < nat nrows" if "bit (word_mask nrows 0) i" using bound [OF that] by linarith
  then show "bit (int4_simd_compare target column first_row (nat nrows) op scalar AND
      not_null_mask column first_row nrows (word_mask nrows 0)) i =
    bit (scalar_compare column first_row (word_mask nrows 0) op scalar) i"
    using bit_not_null_mask [OF assms(1-3) bound, where i = i] assms(3)
      bit_int4_simd_compare [OF assms(1) target, of op scalar i]
    by (auto simp: bit_and_iff bit_scalar_compare int4_row_passes_def vec_get_def)
qed

theorem simd_compare_equals_scalar_witness:
  "int4_simd_compare USE_NEON example_column 0 5 PG_BATCH_INT4_GE 7 AND
      not_null_mask example_column 0 5 (word_mask 5 0) =
    scalar_compare example_column 0 (word_mask 5 0) PG_BATCH_INT4_GE 7"
proof -
  have "vec_wf example_column (0 + nat 5)"
    by (simp add: vec_wf_def example_column_def int4_vector_init_packed_def)
  from simd_compare_equals_scalar [OF this, of USE_NEON PG_BATCH_INT4_GE 7] show ?thesis
    by (simp add: simd_available_def)
qed

text \<open>
  \<open>pg_batch_int4_compare_op\<close> accepts exactly the six int4 comparison functions,
  and the operator it returns compares the column value with the constant as the
  function compares its arguments, with the arguments swapped when the column is
  the right one.
\<close>

theorem int4_compare_op_correct:
  "case int4_compare_op f argno of
     None \<Rightarrow> int4_function f = None
   | Some op \<Rightarrow> \<exists>g. int4_function f = Some g \<and>
       (\<forall>v c. int4_compare v c op =
          (if argno = 1 then g (sint c) (sint v) else g (sint v) (sint c)))"
proof (cases "int4_compare_op f argno")
  case None
  then show ?thesis using int4_compare_op_None [of f argno] by simp
next
  case (Some op)
  then show ?thesis using int4_compare_op_function [OF Some] by simp
qed

end
