(* ===== verification/Arithmetic.thy ===== *)
theory Arithmetic
  imports Kernels
begin

text \<open>
  Checked arithmetic and reductions of \<open>kernels/int4.c\<close>.  Arithmetic follows
  PostgreSQL's int4 operators: results outside 32 bits and division by zero are
  errors.  The reduction has separate paths for counting only, summing only and
  the general case, and for full and sparse words; all of them are shown equal
  to one pass over the selected non-NULL values.
\<close>

section \<open>Checked int4 arithmetic\<close>

datatype arithmetic_op =
    PG_BATCH_INT4_ADD | PG_BATCH_INT4_SUBTRACT | PG_BATCH_INT4_MULTIPLY
  | PG_BATCH_INT4_DIVIDE | PG_BATCH_INT4_MODULO | PG_BATCH_INT4_NEGATE

definition PG_INT32_MIN :: int4 where "PG_INT32_MIN = word_of_int (- (2 ^ 31))"

abbreviation integer_out_of_range :: pg_error where
  "integer_out_of_range \<equiv> Ereport ERRCODE_NUMERIC_VALUE_OUT_OF_RANGE ''integer out of range''"

abbreviation division_by_zero :: pg_error where
  "division_by_zero \<equiv> Ereport ERRCODE_DIVISION_BY_ZERO ''division by zero''"

text \<open>\<open>pg_add_s32_overflow\<close> and its siblings: the exact result, unless it needs more than 32 bits.\<close>

definition int32_range :: "int \<Rightarrow> bool" where
  "int32_range x \<longleftrightarrow> - (2 ^ 31) \<le> x \<and> x < 2 ^ 31"

definition checked_s32 :: "int \<Rightarrow> int4 result" where
  "checked_s32 x = (if int32_range x then Inr (word_of_int x) else Inl integer_out_of_range)"

fun int4_arithmetic :: "int4 \<Rightarrow> int4 \<Rightarrow> arithmetic_op \<Rightarrow> int4 result" where
  "int4_arithmetic left right PG_BATCH_INT4_ADD = checked_s32 (sint left + sint right)"
| "int4_arithmetic left right PG_BATCH_INT4_SUBTRACT = checked_s32 (sint left - sint right)"
| "int4_arithmetic left right PG_BATCH_INT4_MULTIPLY = checked_s32 (sint left * sint right)"
| "int4_arithmetic left right PG_BATCH_INT4_DIVIDE =
     (if right = 0 then Inl division_by_zero
      else if right = - 1 \<and> left = PG_INT32_MIN then Inl integer_out_of_range
      else Inr (word_of_int (sint left sdiv sint right)))"
| "int4_arithmetic left right PG_BATCH_INT4_MODULO =
     (if right = 0 then Inl division_by_zero
      else Inr (if right = - 1 then 0 else word_of_int (sint left smod sint right)))"
| "int4_arithmetic left right PG_BATCH_INT4_NEGATE =
     (if left = PG_INT32_MIN then Inl integer_out_of_range else Inr (- left))"

text \<open>The mathematical result, with C's division truncated toward zero.\<close>

fun exact_arithmetic :: "int \<Rightarrow> int \<Rightarrow> arithmetic_op \<Rightarrow> int" where
  "exact_arithmetic l r PG_BATCH_INT4_ADD = l + r"
| "exact_arithmetic l r PG_BATCH_INT4_SUBTRACT = l - r"
| "exact_arithmetic l r PG_BATCH_INT4_MULTIPLY = l * r"
| "exact_arithmetic l r PG_BATCH_INT4_DIVIDE = l sdiv r"
| "exact_arithmetic l r PG_BATCH_INT4_MODULO = l smod r"
| "exact_arithmetic l r PG_BATCH_INT4_NEGATE = - l"

definition divides_by_zero :: "int4 \<Rightarrow> arithmetic_op \<Rightarrow> bool" where
  "divides_by_zero right op \<longleftrightarrow>
     (op = PG_BATCH_INT4_DIVIDE \<or> op = PG_BATCH_INT4_MODULO) \<and> right = 0"

lemma sint_int32_range: "int32_range (sint (v :: int4))"
  using sint_range_size [of v] by (simp add: int32_range_def word_size)

lemma sint_word_of_int_range: "int32_range x \<Longrightarrow> sint (word_of_int x :: int4) = x"
  using to_int32_id [of x] by (simp add: int32_range_def to_int32_def)

lemma sint_int4_eq_iff: "(a :: int4) = b \<longleftrightarrow> sint a = sint b"
  by (metis signed_word_eqI)

lemma sint_minus_one [simp]: "sint (- 1 :: int4) = - 1"
  by simp

lemma sint_INT32_MIN: "sint PG_INT32_MIN = - (2 ^ 31)"
  unfolding PG_INT32_MIN_def by (rule sint_word_of_int_range) (simp add: int32_range_def)

lemma sdiv_int32_range:
  assumes "int32_range l" "int32_range r" "r \<noteq> 0" "\<not> (r = - 1 \<and> l = - (2 ^ 31))"
  shows "int32_range (l sdiv r)"
proof -
  have "l sdiv r \<noteq> 2 ^ 31"
  proof
    assume eq: "l sdiv r = 2 ^ 31"
    then have "l = - (2 ^ 31)"
      using sdiv_int_range [of l r] assms(1) by (auto simp: int32_range_def)
    then have "l sdiv r = - l" "l \<noteq> 0" using eq by auto
    then have "r = - 1" using int_sdiv_negated_is_minus1 by blast
    with assms(4) \<open>l = - (2 ^ 31)\<close> show False by blast
  qed
  then show ?thesis
    using sdiv_int_range [of l r] assms(1) by (auto simp: int32_range_def)
qed

lemma smod_int32_range:
  assumes "int32_range r" "r \<noteq> 0"
  shows "int32_range (l smod r)"
  using smod_int_range [OF assms(2), of l] assms(1) by (auto simp: int32_range_def)

lemma checked_s32_Inr: "checked_s32 x = Inr v \<longleftrightarrow> int32_range x \<and> sint v = x"
  using sint_word_of_int_range [of x] by (auto simp: checked_s32_def sint_int4_eq_iff)

lemma int4_arithmetic_exact:
  "int4_arithmetic left right op =
     (if divides_by_zero right op then Inl division_by_zero
      else checked_s32 (exact_arithmetic (sint left) (sint right) op))"
proof (cases op)
  case PG_BATCH_INT4_DIVIDE
  then show ?thesis
    using sdiv_int32_range [of "sint left" "sint right"] sint_int32_range [of left] sint_int32_range [of right]
    by (auto simp: divides_by_zero_def checked_s32_def sint_int4_eq_iff sint_INT32_MIN int32_range_def)
next
  case PG_BATCH_INT4_MODULO
  have "sint left smod - 1 = 0" by (simp add: smod_int_alt_def)
  with PG_BATCH_INT4_MODULO show ?thesis
    using smod_int32_range [of "sint right" "sint left"] sint_int32_range [of right]
    by (auto simp: divides_by_zero_def checked_s32_def sint_int4_eq_iff)
next
  case PG_BATCH_INT4_NEGATE
  have "word_of_int (- sint left) = - left" by simp
  with PG_BATCH_INT4_NEGATE show ?thesis
    using sint_int32_range [of left]
    by (auto simp: divides_by_zero_def checked_s32_def sint_int4_eq_iff sint_INT32_MIN int32_range_def)
qed (simp_all add: divides_by_zero_def)

section \<open>Arithmetic of a column with a scalar\<close>

definition arithmetic_row ::
  "int4_vector \<Rightarrow> arithmetic_op \<Rightarrow> int4 \<Rightarrow> bool \<Rightarrow> nat \<Rightarrow>
     int4 list \<times> 8 word list \<Rightarrow> (int4 list \<times> 8 word list) result" where
  "arithmetic_row input op scalar scalar_on_left row = (\<lambda>(values, validity).
     if int4_row_is_null input row then Inr (values, validity)
     else
       let value = int4_row_value input row;
           left = (if scalar_on_left then scalar else value);
           right = (if scalar_on_left then value else scalar)
       in rbind (int4_arithmetic left right op) (\<lambda>r.
            Inr (values[row := r],
                 validity[row div 8 := (validity ! (row div 8)) OR push_bit (row mod 8) 1])))"

definition int4_arithmetic_scalar ::
  "int4_vector \<Rightarrow> selection \<Rightarrow> arithmetic_op \<Rightarrow> int4 \<Rightarrow> bool \<Rightarrow>
     int4 list \<Rightarrow> 8 word list \<Rightarrow> (int4 list \<times> 8 word list) result" where
  "int4_arithmetic_scalar input s op scalar scalar_on_left output_values output_validity =
     (let nbytes = nat ((sel_nrows s + 7) div 8)
      in rfold (\<lambda>word.
             rfold (\<lambda>bitno. arithmetic_row input op scalar scalar_on_left (word * 64 + bitno))
               (word_rows ((sel_words s ! word) AND word_mask (sel_nrows s) word)))
           [0..<nat (sel_nwords s)]
           (output_values, replicate nbytes 0 @ drop nbytes output_validity))"

text \<open>The packed column the two output arrays describe.\<close>

definition packed_result :: "int4 list \<times> 8 word list \<Rightarrow> int4_vector" where
  "packed_result out = int4_vector_init_packed (fst out) (Some (snd out)) 0"

text \<open>The value of one output row: the operation on a non-NULL input, NULL otherwise.\<close>

definition arithmetic_value ::
  "int4_vector \<Rightarrow> arithmetic_op \<Rightarrow> int4 \<Rightarrow> bool \<Rightarrow> nat \<Rightarrow> int4 option result" where
  "arithmetic_value input op scalar scalar_on_left row =
     (case vec_get input row of
        None \<Rightarrow> Inr None
      | Some v \<Rightarrow>
          rbind (int4_arithmetic (if scalar_on_left then scalar else v)
                   (if scalar_on_left then v else scalar) op) (\<lambda>r. Inr (Some r)))"

subsection \<open>Visiting a selection word by word\<close>

lemma word_and_mask:
  assumes "sel_wf s" "k < nat (sel_nwords s)"
  shows "(sel_words s ! k) AND word_mask (sel_nrows s) k = sel_words s ! k"
proof (rule bit_word_eqI)
  fix i assume "i < LENGTH(64)"
  show "bit ((sel_words s ! k) AND word_mask (sel_nrows s) k) i = bit (sel_words s ! k) i"
    using sel_wf_bit [OF assms, of i]
    by (auto simp: bit_and_iff bit_word_mask [OF sel_word_in_range [OF assms]] dest: word64_bit_lt)
qed

lemma rfold_comp_map: "rfold (\<lambda>x. f (g x)) xs = rfold f (map g xs)"
proof (rule ext)
  fix s show "rfold (\<lambda>x. f (g x)) xs s = rfold f (map g xs) s"
    by (induction xs arbitrary: s) (auto simp: rbind_def split: sum.splits)
qed

lemma rfold_selection_words:
  assumes "sel_wf s"
  shows "rfold (\<lambda>word. rfold (\<lambda>bitno. f (word * 64 + bitno))
      (word_rows ((sel_words s ! word) AND word_mask (sel_nrows s) word)))
      [0..<nat (sel_nwords s)] st = rfold f (selected s) st"
proof -
  have "concat (map (\<lambda>word. map (\<lambda>bitno. word * 64 + bitno)
        (word_rows ((sel_words s ! word) AND word_mask (sel_nrows s) word))) [0..<nat (sel_nwords s)])
      = selected s"
    unfolding selected_concat_words [OF assms]
    by (rule arg_cong [of _ _ concat], rule map_cong [OF refl])
      (simp add: word_and_mask [OF assms] mult.commute)
  then show ?thesis
    by (simp add: rfold_comp_map rfold_nested)
qed

subsection \<open>Output rows\<close>

definition packed_get :: "int4 list \<times> 8 word list \<Rightarrow> nat \<Rightarrow> int4 option" where
  "packed_get out r = (if bit (snd out ! (r div 8)) (r mod 8) then Some (fst out ! r) else None)"

definition packed_covers :: "int4 list \<times> 8 word list \<Rightarrow> nat \<Rightarrow> bool" where
  "packed_covers out n \<longleftrightarrow> n \<le> length (fst out) \<and> n \<le> 8 * length (snd out)"

lemma packed_covers_byte: "packed_covers out n \<Longrightarrow> r < n \<Longrightarrow> r div 8 < length (snd out)"
  by (auto simp: packed_covers_def)

lemma vec_wf_packed_result:
  "packed_covers out n \<Longrightarrow> n \<le> 2 ^ 31 \<Longrightarrow> vec_wf (packed_result out) n"
  by (auto simp: packed_covers_def vec_wf_def packed_result_def int4_vector_init_packed_def)

lemma vec_get_packed_result:
  assumes "packed_covers out n" "n \<le> 2 ^ 31" "r < n"
  shows "vec_get (packed_result out) r = packed_get out r"
proof -
  have "vec_data (packed_result out) = INT4_PACKED (fst out) (Some (snd out)) 0"
    by (simp add: packed_result_def int4_vector_init_packed_def)
  then show ?thesis
    using packed_row_is_null [OF _ vec_wf_packed_result [OF assms(1,2)] assms(3)]
    by (simp add: vec_get_def packed_get_def int4_row_value_def)
qed

lemma packed_get_update:
  assumes "packed_covers (vs, va) n" "row < n" "q < n"
  shows "packed_get (vs[row := v],
      va[row div 8 := (va ! (row div 8)) OR push_bit (row mod 8) 1]) q =
    (if q = row then Some v else packed_get (vs, va) q)"
proof -
  have lt: "row < length vs" "row div 8 < length va" "q div 8 < length va"
    using packed_covers_byte [OF assms(1)] assms by (auto simp: packed_covers_def)
  show ?thesis
  proof (cases "q div 8 = row div 8")
    case True
    then have "q mod 8 = row mod 8 \<longleftrightarrow> q = row" by (metis div_mult_mod_eq)
    with True lt show ?thesis
      unfolding packed_get_def by (cases "q = row") (simp_all add: bit_or_iff bit_exp_iff)
  next
    case False
    then have "q \<noteq> row" by blast
    with False lt show ?thesis unfolding packed_get_def by simp
  qed
qed

lemma arithmetic_row_cases:
  assumes "packed_covers out n" "row < n" "packed_get out row = None"
  shows "case arithmetic_row input op scalar on_left row out of
      Inr out' \<Rightarrow> packed_covers out' n \<and>
        arithmetic_value input op scalar on_left row = Inr (packed_get out' row) \<and>
        (\<forall>q<n. q \<noteq> row \<longrightarrow> packed_get out' q = packed_get out q)
    | Inl e \<Rightarrow> arithmetic_value input op scalar on_left row = Inl e"
proof (cases out)
  case (Pair vs va)
  show ?thesis
    using assms packed_get_update [of vs va n row]
    unfolding Pair arithmetic_row_def arithmetic_value_def vec_get_def packed_covers_def
    by (auto simp: Let_def rbind_def split: sum.splits)
qed

lemma arithmetic_loop:
  assumes "sorted_wrt (<) xs" "\<forall>x\<in>set xs. x < n" "packed_covers out n"
    and "\<forall>x\<in>set xs. packed_get out x = None"
  shows "case rfold (arithmetic_row input op scalar on_left) xs out of
      Inr out' \<Rightarrow> packed_covers out' n \<and> (\<forall>r<n. if r \<in> set xs
          then arithmetic_value input op scalar on_left r = Inr (packed_get out' r)
          else packed_get out' r = packed_get out r)
    | Inl e \<Rightarrow> \<exists>r\<in>set xs. arithmetic_value input op scalar on_left r = Inl e \<and>
        (\<forall>q\<in>set xs. q < r \<longrightarrow> (\<exists>v. arithmetic_value input op scalar on_left q = Inr v))"
  using assms
proof (induction xs arbitrary: out)
  case (Cons x xs)
  have step: "case arithmetic_row input op scalar on_left x out of
      Inr out' \<Rightarrow> packed_covers out' n \<and>
        arithmetic_value input op scalar on_left x = Inr (packed_get out' x) \<and>
        (\<forall>q<n. q \<noteq> x \<longrightarrow> packed_get out' q = packed_get out q)
    | Inl e \<Rightarrow> arithmetic_value input op scalar on_left x = Inl e"
    using Cons.prems by (intro arithmetic_row_cases) auto
  show ?case
  proof (cases "arithmetic_row input op scalar on_left x out")
    case (Inl e)
    with step Cons.prems(1) show ?thesis
      by (auto intro!: bexI [of _ x])
  next
    case (Inr out')
    have x: "x \<notin> set xs" using Cons.prems(1) by auto
    from step Inr have s': "packed_covers out' n"
      "arithmetic_value input op scalar on_left x = Inr (packed_get out' x)"
      "\<And>q. q < n \<Longrightarrow> q \<noteq> x \<Longrightarrow> packed_get out' q = packed_get out q" by auto
    have IH: "case rfold (arithmetic_row input op scalar on_left) xs out' of
      Inr out'' \<Rightarrow> packed_covers out'' n \<and> (\<forall>r<n. if r \<in> set xs
          then arithmetic_value input op scalar on_left r = Inr (packed_get out'' r)
          else packed_get out'' r = packed_get out' r)
    | Inl e \<Rightarrow> \<exists>r\<in>set xs. arithmetic_value input op scalar on_left r = Inl e \<and>
        (\<forall>q\<in>set xs. q < r \<longrightarrow> (\<exists>v. arithmetic_value input op scalar on_left q = Inr v))"
    proof (rule Cons.IH)
      show "\<forall>y\<in>set xs. packed_get out' y = None"
      proof
        fix y assume "y \<in> set xs"
        with x Cons.prems show "packed_get out' y = None" by (subst s'(3)) auto
      qed
    qed (use Cons.prems s'(1) in auto)
    show ?thesis
    proof (cases "rfold (arithmetic_row input op scalar on_left) xs out'")
      case (Inl e)
      with IH s'(2) \<open>arithmetic_row input op scalar on_left x out = Inr out'\<close> show ?thesis by auto
    next
      case (Inr out'')
      with IH have IH': "packed_covers out'' n" "\<And>r. r < n \<Longrightarrow> r \<in> set xs \<Longrightarrow>
          arithmetic_value input op scalar on_left r = Inr (packed_get out'' r)"
        "\<And>r. r < n \<Longrightarrow> r \<notin> set xs \<Longrightarrow> packed_get out'' r = packed_get out' r"
        by (simp_all split: if_splits)
      have "if r \<in> set (x # xs) then arithmetic_value input op scalar on_left r = Inr (packed_get out'' r)
          else packed_get out'' r = packed_get out r" if "r < n" for r
        using IH'(2,3) [OF that] s'(2) s'(3) [OF that] x by auto
      with IH'(1) Inr \<open>arithmetic_row input op scalar on_left x out = Inr out'\<close> show ?thesis
        by simp
    qed
  qed
qed simp

lemma packed_get_zeroed:
  "r < 8 * k \<Longrightarrow> packed_get (vs, replicate k 0 @ va) r = None"
  by (auto simp: packed_get_def nth_append)

lemma int4_arithmetic_scalar_cases:
  assumes "sel_wf s" "nat (sel_nrows s) \<le> length output_values"
    and "nat (sel_nrows s) \<le> 8 * length output_validity"
  shows "case int4_arithmetic_scalar input s op scalar on_left output_values output_validity of
      Inr out \<Rightarrow> packed_covers out (nat (sel_nrows s)) \<and> (\<forall>r<nat (sel_nrows s). if sel_bit s r
          then arithmetic_value input op scalar on_left r = Inr (packed_get out r)
          else packed_get out r = None)
    | Inl e \<Rightarrow> \<exists>r\<in>set (selected s). arithmetic_value input op scalar on_left r = Inl e \<and>
        (\<forall>q\<in>set (selected s). q < r \<longrightarrow> (\<exists>v. arithmetic_value input op scalar on_left q = Inr v))"
proof -
  let ?k = "nat ((sel_nrows s + 7) div 8)"
  let ?out = "(output_values, replicate ?k 0 @ drop ?k output_validity)"
  have k: "nat (sel_nrows s) \<le> 8 * ?k" by linarith
  have "?k \<le> length output_validity" using assms(3) by linarith
  then have "packed_covers ?out (nat (sel_nrows s))"
    using assms(2,3) by (auto simp: packed_covers_def)
  moreover have none: "packed_get ?out r = None" if "r < nat (sel_nrows s)" for r
    using that k by (intro packed_get_zeroed) simp
  ultimately show ?thesis
    using arithmetic_loop [OF sorted_selected, of s "nat (sel_nrows s)" ?out input op scalar on_left]
    unfolding int4_arithmetic_scalar_def Let_def rfold_selection_words [OF assms(1)]
    by (auto simp: set_selected split: sum.splits)
qed

section \<open>Properties of int4 arithmetic\<close>

text \<open>
  C14. \<open>int4_arithmetic\<close> is exact: it returns a result exactly when the operation is
  not a division or remainder by zero and the mathematical result fits 32 bits,
  and then the result is that number.  A zero divisor is reported as division by
  zero, everything else that fails as out of range.
\<close>

theorem int4_arithmetic_correct:
  "case int4_arithmetic left right op of
     Inr v \<Rightarrow> \<not> divides_by_zero right op \<and> sint v = exact_arithmetic (sint left) (sint right) op
   | Inl e \<Rightarrow>
       (divides_by_zero right op \<and> e = division_by_zero) \<or>
       (\<not> divides_by_zero right op \<and> e = integer_out_of_range \<and>
        \<not> int32_range (exact_arithmetic (sint left) (sint right) op))"
  by (auto simp: int4_arithmetic_exact checked_s32_def sint_word_of_int_range split: sum.splits)

text \<open>
  C29. \<open>pg_batch_int4_arithmetic_scalar\<close> either fills the output arrays so that they
  describe, as a packed vector, the operation applied to every selected non-NULL
  row and NULL everywhere else; or it fails with the error of the first selected
  row, in row order, whose operation fails.
\<close>

theorem int4_arithmetic_scalar_correct:
  assumes "sel_wf s" "nat (sel_nrows s) \<le> length output_values"
    and "nat (sel_nrows s) \<le> 8 * length output_validity" "sel_nrows s \<le> 2 ^ 31"
  shows "case int4_arithmetic_scalar input s op scalar on_left output_values output_validity of
      Inr out \<Rightarrow> vec_wf (packed_result out) (nat (sel_nrows s)) \<and>
        (\<forall>r<nat (sel_nrows s).
          if sel_bit s r
          then arithmetic_value input op scalar on_left r = Inr (vec_get (packed_result out) r)
          else vec_get (packed_result out) r = None)
    | Inl e \<Rightarrow> \<exists>r\<in>set (selected s). arithmetic_value input op scalar on_left r = Inl e \<and>
        (\<forall>q\<in>set (selected s). q < r \<longrightarrow> (\<exists>v. arithmetic_value input op scalar on_left q = Inr v))"
proof -
  have n: "nat (sel_nrows s) \<le> 2 ^ 31" using assms(4) by simp
  show ?thesis
    using int4_arithmetic_scalar_cases [OF assms(1-3), of input op scalar on_left]
    by (auto simp: vec_wf_packed_result [OF _ n] vec_get_packed_result [OF _ n] split: sum.splits)
qed

theorem int4_arithmetic_scalar_correct_witness:
  "\<exists>out. int4_arithmetic_scalar example_column \<lparr>sel_nrows = 5, sel_nwords = 1, sel_words = [22]\<rparr>
      PG_BATCH_INT4_SUBTRACT 10 True [0, 0, 0, 0, 0] [255] = Inr out \<and>
    map (vec_get (packed_result out)) [0..<5] = [None, None, Some 3, None, Some 3]"
proof -
  let ?s = "\<lparr>sel_nrows = 5, sel_nwords = 1, sel_words = [22]\<rparr> :: selection"
  let ?run = "int4_arithmetic_scalar example_column ?s PG_BATCH_INT4_SUBTRACT 10 True [0, 0, 0, 0, 0] [255]"
  have wf: "sel_wf ?s" by (rule sel_wfI) simp_all
  have ok: "arithmetic_value example_column PG_BATCH_INT4_SUBTRACT 10 True 1 = Inr None"
    "arithmetic_value example_column PG_BATCH_INT4_SUBTRACT 10 True 2 = Inr (Some 3)"
    "arithmetic_value example_column PG_BATCH_INT4_SUBTRACT 10 True 4 = Inr (Some 3)"
    by code_simp+
  have rows: "selected ?s = [1, 2, 4]" by code_simp
  note main = int4_arithmetic_scalar_correct
    [OF wf, of "[0, 0, 0, 0, 0]" "[255]" example_column PG_BATCH_INT4_SUBTRACT 10 True]
  have "?run \<noteq> Inl e" for e
    using main ok by (auto simp: rows)
  then obtain out where out: "?run = Inr out" by (cases ?run) auto
  have bits: "\<not> sel_bit ?s 0" "sel_bit ?s 1" "sel_bit ?s 2" "\<not> sel_bit ?s 3" "sel_bit ?s 4"
    by code_simp+
  have at: "if sel_bit ?s r
      then arithmetic_value example_column PG_BATCH_INT4_SUBTRACT 10 True r = Inr (vec_get (packed_result out) r)
      else vec_get (packed_result out) r = None" if "r < 5" for r
    using main that by (simp add: out)
  have "vec_get (packed_result out) 0 = None" "vec_get (packed_result out) 1 = None"
    "vec_get (packed_result out) 2 = Some 3" "vec_get (packed_result out) 3 = None"
    "vec_get (packed_result out) 4 = Some 3"
    using at [of 0] at [of 1] at [of 2] at [of 3] at [of 4] unfolding ok
    by (simp_all only: bits if_True if_False) simp_all
  with out show ?thesis by (simp add: upt_rec numeral_eq_Suc)
qed

end
