(* ===== verification/Reduce.thy ===== *)
theory Reduce
  imports Arithmetic
begin

text \<open>
  The reduction kernel \<open>pg_batch_reduce_int4\<close> of \<open>kernels/int4.c\<close> with its
  helpers \<open>reduce_value\<close> and \<open>reduce_sum\<close>, and the one-pass reduction over the
  selected non-NULL values that it implements.
\<close>

definition REDUCE_COUNT :: uint32 where "REDUCE_COUNT = push_bit 0 1"
definition REDUCE_SUM :: uint32 where "REDUCE_SUM = push_bit 1 1"
definition REDUCE_MIN :: uint32 where "REDUCE_MIN = push_bit 2 1"
definition REDUCE_MAX :: uint32 where "REDUCE_MAX = push_bit 3 1"

lemmas reduce_flag_defs = REDUCE_COUNT_def REDUCE_SUM_def REDUCE_MIN_def REDUCE_MAX_def

definition has_flag :: "uint32 \<Rightarrow> uint32 \<Rightarrow> bool" where
  "has_flag flags f \<longleftrightarrow> flags AND f \<noteq> 0"

record int4_reduction =
  red_count :: "64 word"
  red_sum :: "64 word"
  red_min :: int4
  red_max :: int4
  red_has_value :: bool

definition reduction_zero :: int4_reduction where
  "reduction_zero =
     \<lparr>red_count = 0, red_sum = 0, red_min = 0, red_max = 0, red_has_value = False\<rparr>"

definition reduce_value :: "uint32 \<Rightarrow> int4 \<Rightarrow> int4_reduction \<Rightarrow> int4_reduction" where
  "reduce_value flags value r =
     (let r1 = (if has_flag flags REDUCE_SUM
                then r\<lparr>red_sum := red_sum r + scast value\<rparr> else r)
      in if \<not> red_has_value r1 then
           (let r2 = (if has_flag flags REDUCE_MIN then r1\<lparr>red_min := value\<rparr> else r1);
                r3 = (if has_flag flags REDUCE_MAX then r2\<lparr>red_max := value\<rparr> else r2)
            in r3\<lparr>red_has_value := True\<rparr>)
         else
           (let r2 = (if has_flag flags REDUCE_MIN \<and> sint value < sint (red_min r1)
                      then r1\<lparr>red_min := value\<rparr> else r1)
            in if has_flag flags REDUCE_MAX \<and> sint value > sint (red_max r2)
               then r2\<lparr>red_max := value\<rparr> else r2))"

definition reduce_sum :: "int4_vector \<Rightarrow> nat \<Rightarrow> int \<Rightarrow> uint64 \<Rightarrow> 64 word" where
  "reduce_sum column first_row nrows rows =
     (if rows = word_mask nrows 0 then
        (case vec_data column of
           INT4_DATUM values isnull \<Rightarrow>
             fold (\<lambda>row sum. sum + scast (datum_get_int32 (values ! (first_row + row))))
               [0..<nat nrows] 0
         | INT4_PACKED values validity off \<Rightarrow>
             fold (\<lambda>row sum. sum + scast (values ! (nat (off + int first_row) + row)))
               [0..<nat nrows] 0)
      else
        (case vec_data column of
           INT4_DATUM values isnull \<Rightarrow>
             fold (\<lambda>bitno sum. sum + scast (datum_get_int32 (values ! (first_row + bitno))))
               (word_rows rows) 0
         | INT4_PACKED values validity off \<Rightarrow>
             fold (\<lambda>bitno sum. sum + scast (values ! (nat (off + int first_row) + bitno)))
               (word_rows rows) 0))"

definition reduce_word ::
  "int4_vector \<Rightarrow> selection \<Rightarrow> uint32 \<Rightarrow> nat \<Rightarrow> int4_reduction \<Rightarrow> int4_reduction" where
  "reduce_word column s flags word r =
     (let nrows = sel_nrows s;
          value_flags = flags AND (REDUCE_SUM OR REDUCE_MIN OR REDUCE_MAX);
          first_row = word * 64;
          word_nrows = min 64 (nrows - int first_row);
          rows0 = (sel_words s ! word) AND word_mask nrows word
      in if rows0 = 0 then r
         else
           let rows = rows0 AND not_null_mask column first_row word_nrows rows0
           in if rows = 0 then r
              else
                let r1 = (if has_flag flags REDUCE_COUNT
                          then r\<lparr>red_count := red_count r + of_nat (pg_popcount64 rows)\<rparr> else r)
                in if value_flags = 0 then r1\<lparr>red_has_value := True\<rparr>
                   else if value_flags = REDUCE_SUM then
                     r1\<lparr>red_sum := red_sum r1 + reduce_sum column first_row word_nrows rows,
                        red_has_value := True\<rparr>
                   else if rows = word_mask nrows word then
                     fold (\<lambda>row. reduce_value value_flags (int4_row_value column row))
                       [first_row..<first_row + nat word_nrows] r1
                   else
                     fold (\<lambda>bitno. reduce_value value_flags (int4_row_value column (first_row + bitno)))
                       (word_rows rows) r1)"

definition reduce_int4 :: "int4_vector \<Rightarrow> selection \<Rightarrow> uint32 \<Rightarrow> int4_reduction" where
  "reduce_int4 column s flags =
     fold (reduce_word column s flags) [0..<nat (sel_nwords s)] reduction_zero"

section \<open>One pass over the values\<close>

text \<open>The reference: every selected non-NULL value advances the requested results.\<close>

definition reduce_step :: "uint32 \<Rightarrow> int4 \<Rightarrow> int4_reduction \<Rightarrow> int4_reduction" where
  "reduce_step flags v r =
     reduce_value flags v
       (if has_flag flags REDUCE_COUNT then r\<lparr>red_count := red_count r + 1\<rparr> else r)"

definition selected_values :: "int4_vector \<Rightarrow> selection \<Rightarrow> int4 list" where
  "selected_values column s = List.map_filter (vec_get column) (selected s)"

abbreviation value_flags_of :: "uint32 \<Rightarrow> uint32" where
  "value_flags_of flags \<equiv> flags AND (REDUCE_SUM OR REDUCE_MIN OR REDUCE_MAX)"

lemma has_flag_bit:
  "has_flag flags REDUCE_COUNT \<longleftrightarrow> bit flags 0"
  "has_flag flags REDUCE_SUM \<longleftrightarrow> bit flags 1"
  "has_flag flags REDUCE_MIN \<longleftrightarrow> bit flags 2"
  "has_flag flags REDUCE_MAX \<longleftrightarrow> bit flags 3"
proof -
  have "has_flag flags (push_bit k 1) \<longleftrightarrow> bit flags k" if "k < 32" for k
    using that by (simp add: has_flag_def)
  from this [of 0] this [of 1] this [of 2] this [of 3]
  show "has_flag flags REDUCE_COUNT \<longleftrightarrow> bit flags 0" "has_flag flags REDUCE_SUM \<longleftrightarrow> bit flags 1"
    "has_flag flags REDUCE_MIN \<longleftrightarrow> bit flags 2" "has_flag flags REDUCE_MAX \<longleftrightarrow> bit flags 3"
    unfolding reduce_flag_defs by simp_all
qed

lemma bit_value_flags:
  "bit (value_flags_of flags) k \<longleftrightarrow> bit flags k \<and> (k = 1 \<or> k = 2 \<or> k = 3)"
proof -
  have "bit (push_bit m (1 :: uint32)) k \<longleftrightarrow> k = m" if "m < 32" for m
    using that by (auto simp: bit_exp_iff)
  from this [of 1] this [of 2] this [of 3] show ?thesis
    unfolding reduce_flag_defs bit_and_iff bit_or_iff by auto
qed

lemma reduce_value_value_flags: "reduce_value (value_flags_of flags) = reduce_value flags"
  by (intro ext) (simp add: reduce_value_def has_flag_bit bit_value_flags)

lemma reduce_value_count:
  "reduce_value flags v (r\<lparr>red_count := c\<rparr>) = (reduce_value flags v r)\<lparr>red_count := c\<rparr>"
  by (simp add: reduce_value_def Let_def)

lemma fold_reduce_value_count:
  "fold (reduce_value flags) vs (r\<lparr>red_count := c\<rparr>) = (fold (reduce_value flags) vs r)\<lparr>red_count := c\<rparr>"
  by (induction vs arbitrary: r) (simp_all add: reduce_value_count)

lemma red_count_reduce_value [simp]: "red_count (reduce_value flags v r) = red_count r"
  by (simp add: reduce_value_def Let_def)

lemma red_count_fold [simp]: "red_count (fold (reduce_value flags) vs r) = red_count r"
  by (induction vs arbitrary: r) simp_all

lemma fold_reduce_step:
  "fold (reduce_step flags) vs r =
     fold (reduce_value flags) vs
       (if has_flag flags REDUCE_COUNT then r\<lparr>red_count := red_count r + of_nat (length vs)\<rparr> else r)"
  by (induction vs arbitrary: r)
    (auto simp: reduce_step_def reduce_value_count fold_reduce_value_count add.commute add.left_commute)

lemma fold_reduce_none:
  assumes "value_flags_of flags = 0"
  shows "fold (reduce_value flags) vs r = (if vs = [] then r else r\<lparr>red_has_value := True\<rparr>)"
proof -
  have flags: "\<not> has_flag flags REDUCE_SUM" "\<not> has_flag flags REDUCE_MIN"
    "\<not> has_flag flags REDUCE_MAX"
    using bit_value_flags [of flags] assms unfolding has_flag_bit by auto
  have "reduce_value flags v r = r\<lparr>red_has_value := True\<rparr>" for v r
    by (cases r) (simp add: reduce_value_def flags Let_def)
  then show ?thesis
    by (induction vs arbitrary: r) auto
qed

lemma fold_reduce_sum_only:
  assumes "value_flags_of flags = REDUCE_SUM"
  shows "fold (reduce_value flags) vs r =
    (if vs = [] then r
     else r\<lparr>red_sum := red_sum r + sum_list (map scast vs), red_has_value := True\<rparr>)"
proof -
  have "bit REDUCE_SUM 1" "\<not> bit REDUCE_SUM 2" "\<not> bit REDUCE_SUM 3"
    by (simp_all add: REDUCE_SUM_def bit_2_iff)
  then have flags: "has_flag flags REDUCE_SUM" "\<not> has_flag flags REDUCE_MIN"
    "\<not> has_flag flags REDUCE_MAX"
    unfolding has_flag_bit
    using bit_value_flags [of flags 1] bit_value_flags [of flags 2] bit_value_flags [of flags 3]
    unfolding assms by blast+
  have step: "reduce_value flags v r = r\<lparr>red_sum := red_sum r + scast v, red_has_value := True\<rparr>" for v r
    by (cases r) (simp add: reduce_value_def flags Let_def)
  show ?thesis
    by (induction vs arbitrary: r) (simp_all add: step add.assoc)
qed

section \<open>Each word advances the reduction by its values\<close>

lemma fold_word_rows_sum:
  "fold (\<lambda>b sum. sum + f b) xs (0 :: 64 word) = sum_list (map f xs)"
  by (simp add: fold_add_sum_list)

lemma word_rows_full:
  assumes "0 < nrows" "nrows \<le> 64"
  shows "word_rows (word_mask nrows 0) = [0..<nat nrows]"
  by (rule strict_sorted_unique)
    (use assms sorted_word_rows [of "word_mask nrows 0"] in \<open>auto simp: bit_word_mask\<close>)

lemma word_mask_shift:
  "word_mask nrows word = word_mask (min 64 (nrows - int (word * 64))) 0"
  by (simp add: word_mask_def Let_def min_def)

lemma reduce_sum_eq:
  assumes "vec_wf column (first_row + nat nrows)" "0 < nrows" "nrows \<le> 64"
  shows "reduce_sum column first_row nrows rows =
    sum_list (map (\<lambda>b. scast (int4_row_value column (first_row + b))) (word_rows rows))"
proof (cases "vec_data column")
  case (INT4_DATUM vs isnull)
  then show ?thesis
    by (auto simp: reduce_sum_def fold_word_rows_sum int4_row_value_def word_rows_full [OF assms(2,3)])
next
  case (INT4_PACKED vs validity off)
  then have "nat (off + (int first_row + int b)) = nat (off + int first_row) + b" for b
    using assms(1) by (simp add: vec_wf_def) linarith
  with INT4_PACKED show ?thesis
    by (auto simp: reduce_sum_def fold_word_rows_sum int4_row_value_def word_rows_full [OF assms(2,3)])
qed

lemma fold_map_comp: "fold (\<lambda>x. f (g x)) xs r = fold f (map g xs) r"
  by (induction xs arbitrary: r) simp_all

lemma reduce_word_values:
  assumes "sel_wf s" "vec_wf column (nat (sel_nrows s))" "word < nat (sel_nwords s)"
  shows "reduce_word column s flags word r =
    fold (reduce_step flags)
      (List.map_filter (vec_get column) (map ((+) (64 * word)) (word_rows (sel_words s ! word)))) r"
proof -
  let ?w = "sel_words s ! word"
  let ?n = "min 64 (sel_nrows s - int (word * 64))"
  let ?rows = "?w AND not_null_mask column (word * 64) ?n ?w"
  let ?val = "\<lambda>b. int4_row_value column (word * 64 + b)"
  let ?vs = "map ?val (word_rows ?rows)"
  have range: "int word * 64 < sel_nrows s" by (rule sel_word_in_range [OF assms(1,3)])
  have n: "0 < ?n" "?n \<le> 64" using range by auto
  have wf: "vec_wf column (word * 64 + nat ?n)"
    by (rule vec_wf_mono [OF assms(2)]) (use range in linarith)
  have bound: "int i < ?n" if "bit ?w i" for i
    using sel_wf_bit [OF assms(1,3) that] word64_bit_lt [OF that] by simp
  have bits: "bit ?rows i \<longleftrightarrow> bit ?w i \<and> vec_get column (word * 64 + i) \<noteq> None" for i
    using bit_not_null_mask [OF wf n bound, where i = i] by (auto simp: bit_and_iff)
  have "bit_positions ?rows = filter (\<lambda>i. vec_get column (word * 64 + i) \<noteq> None) (bit_positions ?w)"
    unfolding bit_positions_def filter_filter bits [abs_def] by (rule filter_cong) auto
  then have vs: "List.map_filter (vec_get column) (map ((+) (64 * word)) (word_rows ?w)) = ?vs"
    unfolding word_rows_eq_bit_positions List.map_filter_def
    by (auto simp: filter_map o_def vec_get_def mult.commute)
  have empty: "?vs = [] \<longleftrightarrow> ?rows = 0" by simp
  have len: "pg_popcount64 ?rows = length ?vs"
    by (simp add: pg_popcount64_def word_rows_eq_bit_positions)
  have sum: "reduce_sum column (word * 64) ?n ?rows = sum_list (map scast ?vs)"
    unfolding reduce_sum_eq [OF wf n] by (simp add: o_def)
  have full: "map (int4_row_value column) [word * 64..<word * 64 + nat ?n] = ?vs"
    if "?rows = word_mask (sel_nrows s) word"
  proof -
    have "[word * 64..<word * 64 + nat ?n] = map (\<lambda>b. word * 64 + b) [0..<nat ?n]"
      using map_add_upt [of "word * 64" "nat ?n"] by (simp add: add.commute)
    then show ?thesis
      unfolding that word_mask_shift [of "sel_nrows s" word] word_rows_full [OF n] by simp
  qed
  have full': "(if ?rows = word_mask (sel_nrows s) word
      then fold (reduce_value flags) (map (int4_row_value column) [word * 64..<word * 64 + nat ?n]) q
      else fold (reduce_value flags) ?vs q) = fold (reduce_value flags) ?vs q" for q
  proof (cases "?rows = word_mask (sel_nrows s) word")
    case True
    show ?thesis unfolding if_P [OF True] full [OF True] ..
  next
    case False
    show ?thesis unfolding if_not_P [OF False] ..
  qed
  show ?thesis
  proof (cases "?rows = 0")
    case True
    then show ?thesis
      unfolding vs reduce_word_def Let_def word_and_mask [OF assms(1,3)] by (simp add: word_rows.simps)
  next
    case False
    then have "?w \<noteq> 0" by auto
    define r1 where "r1 = (if has_flag flags REDUCE_COUNT
      then r\<lparr>red_count := red_count r + of_nat (pg_popcount64 ?rows)\<rparr> else r)"
    have "fold (reduce_step flags) ?vs r = fold (reduce_value flags) ?vs r1"
      unfolding fold_reduce_step r1_def len ..
    moreover have "reduce_word column s flags word r =
        (if value_flags_of flags = 0 then r1\<lparr>red_has_value := True\<rparr>
         else if value_flags_of flags = REDUCE_SUM then
           r1\<lparr>red_sum := red_sum r1 + sum_list (map scast ?vs), red_has_value := True\<rparr>
         else fold (reduce_value flags) ?vs r1)"
      unfolding reduce_word_def Let_def word_and_mask [OF assms(1,3)] reduce_value_value_flags
        fold_map_comp [of _ "int4_row_value column"] fold_map_comp [of _ ?val] sum r1_def [symmetric]
        if_not_P [OF False] if_not_P [OF \<open>?w \<noteq> 0\<close>] full' ..
    moreover have "?vs \<noteq> []" using False empty by blast
    ultimately show ?thesis
      unfolding vs using fold_reduce_none [of flags ?vs r1] fold_reduce_sum_only [of flags ?vs r1]
      by presburger
  qed
qed

lemma map_filter_concat:
  "List.map_filter f (concat xss) = concat (map (List.map_filter f) xss)"
  by (induction xss) (simp_all add: List.map_filter_def)

lemma reduce_int4_values:
  assumes "sel_wf s" "vec_wf column (nat (sel_nrows s))"
  shows "reduce_int4 column s flags = fold (reduce_step flags) (selected_values column s) reduction_zero"
proof -
  have "reduce_int4 column s flags = fold (\<lambda>word. fold (reduce_step flags)
      (List.map_filter (vec_get column) (map ((+) (64 * word)) (word_rows (sel_words s ! word)))))
      [0..<nat (sel_nwords s)] reduction_zero"
    unfolding reduce_int4_def
    by (rule fold_cong) (use reduce_word_values [OF assms] in auto)
  then show ?thesis
    unfolding selected_values_def selected_concat_words [OF assms(1)] map_filter_concat fold_nested
    by (simp add: o_def)
qed

section \<open>What the one pass computes\<close>

lemma red_has_value_fold:
  "red_has_value (fold (reduce_step flags) vs r) \<longleftrightarrow> red_has_value r \<or> vs \<noteq> []"
proof (induction vs arbitrary: r)
  case (Cons v vs)
  have "red_has_value (reduce_step flags v r)"
    by (simp add: reduce_step_def reduce_value_def Let_def)
  then show ?case by (simp add: Cons.IH)
qed simp

lemma red_count_step:
  "red_count (fold (reduce_step flags) vs r) =
     red_count r + (if has_flag flags REDUCE_COUNT then of_nat (length vs) else 0)"
  by (simp add: fold_reduce_step)

lemma red_sum_step:
  "red_sum (fold (reduce_step flags) vs r) =
     red_sum r + (if has_flag flags REDUCE_SUM then sum_list (map scast vs) else 0)"
  by (induction vs arbitrary: r)
    (auto simp: reduce_step_def reduce_value_def Let_def add.assoc)

text \<open>Minimum and maximum of the values seen so far.\<close>

lemma red_min_step:
  assumes "has_flag flags REDUCE_MIN"
  shows "sint (red_min (fold (reduce_step flags) vs r)) =
    (if red_has_value r then foldl min (sint (red_min r)) (map sint vs)
     else if vs = [] then sint (red_min r) else foldl min (sint (hd vs)) (map sint (tl vs)))"
proof (induction vs arbitrary: r)
  case (Cons v vs)
  have "red_has_value (reduce_step flags v r)"
    "sint (red_min (reduce_step flags v r)) =
      (if red_has_value r then min (sint (red_min r)) (sint v) else sint v)"
    using assms by (auto simp: reduce_step_def reduce_value_def Let_def min_def)
  then show ?case by (simp add: Cons.IH)
qed simp

lemma red_max_step:
  assumes "has_flag flags REDUCE_MAX"
  shows "sint (red_max (fold (reduce_step flags) vs r)) =
    (if red_has_value r then foldl max (sint (red_max r)) (map sint vs)
     else if vs = [] then sint (red_max r) else foldl max (sint (hd vs)) (map sint (tl vs)))"
proof (induction vs arbitrary: r)
  case (Cons v vs)
  have "red_has_value (reduce_step flags v r)"
    "sint (red_max (reduce_step flags v r)) =
      (if red_has_value r then max (sint (red_max r)) (sint v) else sint v)"
    using assms by (auto simp: reduce_step_def reduce_value_def Let_def max_def)
  then show ?case by (simp add: Cons.IH)
qed simp

lemma foldl_min_Min: "foldl min (x :: int) xs = Min (insert x (set xs))"
proof (induction xs arbitrary: x)
  case (Cons y xs)
  then show ?case by (cases "xs = []") (simp_all add: min.assoc)
qed simp

lemma foldl_max_Max: "foldl max (x :: int) xs = Max (insert x (set xs))"
proof (induction xs arbitrary: x)
  case (Cons y xs)
  then show ?case by (cases "xs = []") (simp_all add: max.assoc)
qed simp

text \<open>
  A batch has fewer than \<open>2^31\<close> rows, so 64 bits hold every sum of its values:
  the sum never wraps.
\<close>

lemma sum_list_sint_bounds:
  "- (2 ^ 31) * int (length vs) \<le> sum_list (map sint (vs :: int4 list)) \<and>
   sum_list (map sint vs) \<le> 2 ^ 31 * int (length vs)"
proof (induction vs)
  case (Cons v vs)
  then show ?case using sint_int32_range [of v] by (auto simp: int32_range_def algebra_simps)
qed simp

lemma sint_sum_list:
  assumes "length vs < 2 ^ 31"
  shows "sint (sum_list (map scast (vs :: int4 list)) :: 64 word) = sum_list (map sint vs)"
proof -
  have "sum_list (map scast vs) = (word_of_int (sum_list (map sint vs)) :: 64 word)"
    by (induction vs) simp_all
  moreover have "- (2 ^ 63) \<le> sum_list (map sint vs)" "sum_list (map sint vs) < 2 ^ 63"
  proof -
    have "int (length vs) \<le> 2147483647" using assms by simp
    then show "- (2 ^ 63) \<le> sum_list (map sint vs)" "sum_list (map sint vs) < 2 ^ 63"
      using sum_list_sint_bounds [of vs] by simp_all
  qed
  ultimately show ?thesis
    by (simp add: sint_sbintrunc' signed_take_bit_int_eq_self)
qed

lemma length_selected_values: "length (selected_values column s) \<le> nat (sel_nrows s)"
proof -
  have "length (selected_values column s) \<le> length (selected s)"
    by (simp add: selected_values_def List.map_filter_def)
  also have "\<dots> \<le> nat (sel_nrows s)"
    using length_filter_le [of _ "[0..<nat (sel_nrows s)]"] by (simp add: selected_def)
  finally show ?thesis .
qed

section \<open>Property of the reduction kernel\<close>

lemma foldl_min_hd: "vs \<noteq> [] \<Longrightarrow> foldl min (sint (hd vs)) (map sint (tl vs)) = Min (sint ` set vs)"
  by (cases vs) (simp_all add: foldl_min_Min)

lemma foldl_max_hd: "vs \<noteq> [] \<Longrightarrow> foldl max (sint (hd vs)) (map sint (tl vs)) = Max (sint ` set vs)"
  by (cases vs) (simp_all add: foldl_max_Max)

lemma unat_count: "n < 2 ^ 64 \<Longrightarrow> unat (of_nat n :: 64 word) = n"
  by (simp add: unat_of_nat)

text \<open>
  C24. \<open>pg_batch_reduce_int4\<close> computes, of the selected non-NULL values, the number,
  the exact sum (it never wraps), the minimum and the maximum that were asked for,
  and reports whether there was any value; a count or sum that was not requested
  stays zero.
\<close>

theorem reduce_int4_correct:
  fixes flags :: uint32
  assumes "sel_wf s" "vec_wf column (nat (sel_nrows s))" "sel_nrows s < 2 ^ 31"
  defines "vs \<equiv> map (int4_row_value column) (filter (\<lambda>r. \<not> int4_row_is_null column r) (selected s))"
    and "r \<equiv> reduce_int4 column s flags"
  shows "red_has_value r = (vs \<noteq> []) \<and>
    unat (red_count r) = (if has_flag flags REDUCE_COUNT then length vs else 0) \<and>
    sint (red_sum r) = (if has_flag flags REDUCE_SUM then sum_list (map sint vs) else 0) \<and>
    (has_flag flags REDUCE_MIN \<longrightarrow> vs \<noteq> [] \<longrightarrow> sint (red_min r) = Min (sint ` set vs)) \<and>
    (has_flag flags REDUCE_MAX \<longrightarrow> vs \<noteq> [] \<longrightarrow> sint (red_max r) = Max (sint ` set vs))"
proof -
  have "vs = selected_values column s"
    unfolding vs_def selected_values_def List.map_filter_def by (auto simp: vec_get_def)
  then have r: "r = fold (reduce_step flags) vs reduction_zero" and "length vs \<le> nat (sel_nrows s)"
    unfolding r_def using reduce_int4_values [OF assms(1,2)] length_selected_values by auto
  then have len: "length vs < 2 ^ 31" using assms(3) by simp
  show ?thesis
    unfolding r using len
    by (auto simp: red_has_value_fold red_count_step red_sum_step red_min_step red_max_step
        foldl_min_hd foldl_max_hd sint_sum_list unat_count reduction_zero_def)
qed

theorem reduce_int4_correct_witness:
  "let r = reduce_int4 example_column \<lparr>sel_nrows = 5, sel_nwords = 1, sel_words = [30]\<rparr>
     (REDUCE_COUNT OR REDUCE_SUM OR REDUCE_MIN OR REDUCE_MAX)
   in red_has_value r \<and> unat (red_count r) = 3 \<and> sint (red_sum r) = 22 \<and>
      sint (red_min r) = 7 \<and> sint (red_max r) = 8"
proof -
  let ?s = "\<lparr>sel_nrows = 5, sel_nwords = 1, sel_words = [30]\<rparr> :: selection"
  let ?f = "REDUCE_COUNT OR REDUCE_SUM OR REDUCE_MIN OR REDUCE_MAX"
  have wf: "sel_wf ?s" by (rule sel_wfI) simp_all
  have col: "vec_wf example_column (nat (sel_nrows ?s))"
    by (simp add: vec_wf_def example_column_def int4_vector_init_packed_def)
  have vs: "map (int4_row_value example_column)
      (filter (\<lambda>r. \<not> int4_row_is_null example_column r) (selected ?s)) = [7, 8, 7]"
    by code_simp
  have flags: "has_flag ?f REDUCE_COUNT" "has_flag ?f REDUCE_SUM" "has_flag ?f REDUCE_MIN"
    "has_flag ?f REDUCE_MAX"
    by code_simp+
  show ?thesis
    using reduce_int4_correct [OF wf col, of ?f] unfolding vs by (simp add: flags Let_def)
qed

end
