(* ===== verification/Hash.thy ===== *)
theory Hash
  imports Reduce
begin

text \<open>
  The hash kernel \<open>kernels/int4_hash.c\<close>.  The two hash functions
  \<open>murmurhash32\<close> and \<open>hash_combine\<close> belong to PostgreSQL: they are the arguments
  \<open>mur\<close> and \<open>comb\<close> of the definitions.  The kernel hashes the selected rows of
  one or more key columns and drops the rows with a NULL key; its two-column
  path and its general path are both shown to compute the same row hash.
\<close>

type_synonym hash32 = "uint32 \<Rightarrow> uint32"
type_synonym hash_comb = "uint32 \<Rightarrow> uint32 \<Rightarrow> uint32"

definition hash_value :: "hash32 \<Rightarrow> hash_comb \<Rightarrow> nat \<Rightarrow> nat \<Rightarrow> int4 \<Rightarrow> uint32 list \<Rightarrow> uint32 list" where
  "hash_value mur comb row key value hashes =
     (let key_hash = mur value
      in hashes[row := if key = 0 then key_hash else comb (hashes ! row) key_hash])"

definition hash_two_keys ::
  "hash32 \<Rightarrow> hash_comb \<Rightarrow> int4_vector \<Rightarrow> int4_vector \<Rightarrow> selection \<Rightarrow>
     uint32 list \<Rightarrow> selection \<Rightarrow> uint32 list \<times> selection" where
  "hash_two_keys mur comb left right s hashes valid_rows =
     (let (h, ws) = fold (\<lambda>word (h, ws).
           let rows = (sel_words s ! word) AND word_mask (sel_nrows s) word;
               first_row = word * 64;
               ws0 = ws[word := 0]
           in if rows = 0 then (h, ws0)
              else
                let (h', valid) = fold (\<lambda>bitno (h, valid).
                      let row = first_row + bitno
                      in if \<not> int4_row_is_null left row \<and> \<not> int4_row_is_null right row then
                           (h[row := comb (mur (int4_row_value left row)) (mur (int4_row_value right row))],
                            valid OR push_bit bitno 1)
                         else (h, valid)) (word_rows rows) (h, 0)
                in (h', ws0[word := valid]))
         [0..<nat (sel_nwords s)] (hashes, sel_words valid_rows)
      in (h, valid_rows\<lparr>sel_words := ws\<rparr>))"

text \<open>The NULL test of the general path indexes the validity map with 64-bit arithmetic.\<close>

definition hash_row_is_null :: "int4_vector \<Rightarrow> nat \<Rightarrow> bool" where
  "hash_row_is_null column row =
     (case vec_data column of
        INT4_DATUM values isnull \<Rightarrow> isnull ! row
      | INT4_PACKED values None off \<Rightarrow> False
      | INT4_PACKED values (Some validity) off \<Rightarrow>
          (let physical = off + int row
           in (validity ! nat (physical div 8)) AND push_bit (nat (physical mod 8)) 1 = 0))"

definition hash_key_word ::
  "hash32 \<Rightarrow> hash_comb \<Rightarrow> nat \<Rightarrow> int4_vector \<Rightarrow> nat \<Rightarrow>
     uint32 list \<times> uint64 list \<Rightarrow> uint32 list \<times> uint64 list" where
  "hash_key_word mur comb key column word = (\<lambda>(h, ws).
     let rows = ws ! word;
         first_row = word * 64
     in if rows = 0 then (h, ws)
        else
          let (h', valid) = fold (\<lambda>bitno (h, valid).
                let row = first_row + bitno
                in if hash_row_is_null column row then (h, valid AND NOT (push_bit bitno 1))
                   else (hash_value mur comb row key
                           (case vec_data column of
                              INT4_DATUM values isnull \<Rightarrow> datum_get_int32 (values ! row)
                            | INT4_PACKED values validity off \<Rightarrow>
                                values ! (nat (off + int first_row) + bitno)) h,
                         valid)) (word_rows rows) (h, rows)
          in (h', ws[word := valid]))"

definition hash_int4 ::
  "hash32 \<Rightarrow> hash_comb \<Rightarrow> int4_vector list \<Rightarrow> selection \<Rightarrow>
     uint32 list \<Rightarrow> selection \<Rightarrow> uint32 list \<times> selection" where
  "hash_int4 mur comb keys s hashes valid_rows =
     (if length keys = 2 then hash_two_keys mur comb (keys ! 0) (keys ! 1) s hashes valid_rows
      else
        let nwords = nat (sel_nwords s);
            ws0 = fold (\<lambda>word ws.
                ws[word := (sel_words s ! word) AND word_mask (sel_nrows s) word])
              [0..<nwords] (sel_words valid_rows);
            (h, ws) = fold (\<lambda>key st.
                fold (hash_key_word mur comb key (keys ! key)) [0..<nwords] st)
              [0..<length keys] (hashes, ws0)
        in (h, valid_rows\<lparr>sel_words := ws\<rparr>))"

section \<open>The row hash\<close>

fun row_hash :: "hash32 \<Rightarrow> hash_comb \<Rightarrow> int4 list \<Rightarrow> uint32" where
  "row_hash mur comb [] = 0"
| "row_hash mur comb (v # vs) = fold (\<lambda>x h. comb h (mur x)) vs (mur v)"

definition keys_present :: "int4_vector list \<Rightarrow> nat \<Rightarrow> bool" where
  "keys_present keys row \<longleftrightarrow> (\<forall>column \<in> set keys. vec_get column row \<noteq> None)"

definition key_values :: "int4_vector list \<Rightarrow> nat \<Rightarrow> int4 list" where
  "key_values keys row = map (\<lambda>column. int4_row_value column row) keys"

lemma row_hash_snoc: "row_hash mur comb (vs @ [v]) =
    (if vs = [] then mur v else comb (row_hash mur comb vs) (mur v))"
  by (cases vs) simp_all

lemma hash_row_is_null_eq:
  assumes "vec_wf column n" "row < n"
  shows "hash_row_is_null column row = (vec_get column row = None)"
proof (cases "vec_data column")
  case (INT4_DATUM vs isnull)
  then show ?thesis
    by (simp add: vec_get_def hash_row_is_null_def int4_row_is_null_def)
next
  case (INT4_PACKED vs validity off)
  show ?thesis
  proof (cases validity)
    case None
    then show ?thesis
      using INT4_PACKED by (simp add: vec_get_def hash_row_is_null_def int4_row_is_null_def)
  next
    case (Some v)
    then have off: "off + int row = int (nat off + row)"
      using INT4_PACKED assms by (simp add: vec_wf_def)
    show ?thesis
      using packed_row_is_null [OF _ assms] INT4_PACKED Some
      by (simp add: vec_get_def hash_row_is_null_def Let_def off del: of_nat_add)
  qed
qed

lemma packed_value_eq:
  assumes "vec_wf column n"
  shows "(case vec_data column of
      INT4_DATUM values isnull \<Rightarrow> datum_get_int32 (values ! (first_row + bitno))
    | INT4_PACKED values validity off \<Rightarrow> values ! (nat (off + int first_row) + bitno)) =
    int4_row_value column (first_row + bitno)"
proof (cases "vec_data column")
  case (INT4_PACKED vs validity off)
  then have "nat (off + int (first_row + bitno)) = nat (off + int first_row) + bitno"
    using assms by (simp add: vec_wf_def) linarith
  with INT4_PACKED show ?thesis by (simp add: int4_row_value_def)
qed (simp add: int4_row_value_def)

section \<open>One word of rows\<close>

text \<open>
  Both inner loops are instances of this one: visit the rows \<open>first + b\<close>, write the
  hash of those that satisfy \<open>P\<close>, and update the word of valid rows by \<open>upd\<close>.
\<close>

definition hash_bits ::
  "(nat \<Rightarrow> bool) \<Rightarrow> (nat \<Rightarrow> uint32 \<Rightarrow> uint32) \<Rightarrow> (nat \<Rightarrow> uint64 \<Rightarrow> uint64) \<Rightarrow>
     (nat \<Rightarrow> uint64 \<Rightarrow> uint64) \<Rightarrow> nat \<Rightarrow> nat list \<Rightarrow> uint32 list \<times> uint64 \<Rightarrow> uint32 list \<times> uint64" where
  "hash_bits P new updt upde first = fold (\<lambda>b (h, valid).
      if P (first + b) then (h[first + b := new (first + b) (h ! (first + b))], updt b valid)
      else (h, upde b valid))"

lemma hash_bits_spec:
  assumes "distinct bs" "\<forall>b\<in>set bs. first + b < length h"
  shows "snd (hash_bits P new updt upde first bs (h, v)) =
      fold (\<lambda>b valid. if P (first + b) then updt b valid else upde b valid) bs v \<and>
    length (fst (hash_bits P new updt upde first bs (h, v))) = length h \<and>
    (\<forall>r<length h. fst (hash_bits P new updt upde first bs (h, v)) ! r =
        (if first \<le> r \<and> r - first \<in> set bs \<and> P r then new r (h ! r) else h ! r))"
  using assms unfolding hash_bits_def
proof (induction bs arbitrary: h v)
  case (Cons b bs)
  show ?case
  proof (cases "P (first + b)")
    case True
    let ?h = "h[first + b := new (first + b) (h ! (first + b))]"
    have nth: "?h ! r = (if r = first + b then new r (h ! r) else h ! r)" if "r < length h" for r
      using that by simp
    have mem: "first \<le> r \<and> r - first \<in> set (b # bs) \<longleftrightarrow>
        r = first + b \<or> first \<le> r \<and> r - first \<in> set bs" for r
      by auto
    have "\<not> (first \<le> first + b \<and> first + b - first \<in> set bs)"
      using Cons.prems(1) by simp
    with Cons.IH [of ?h "updt b v"] Cons.prems True show ?thesis
      unfolding conj_assoc [symmetric] mem by (simp add: nth) blast
  next
    case False
    then show ?thesis
      using Cons.prems Cons.IH [of h "upde b v"] by auto
  qed
qed simp

text \<open>Row \<open>r\<close> of a word list.\<close>

definition wbit :: "uint64 list \<Rightarrow> nat \<Rightarrow> bool" where
  "wbit ws r \<longleftrightarrow> bit (ws ! (r div 64)) (r mod 64)"

text \<open>
  What one pass over the first \<open>n\<close> words does to the state \<open>(h, ws)\<close>: of the rows set
  in \<open>src\<close> those that satisfy \<open>P\<close> get a new hash and stay, the others are dropped.
\<close>

definition hash_pass ::
  "(nat \<Rightarrow> bool) \<Rightarrow> (nat \<Rightarrow> uint32 \<Rightarrow> uint32) \<Rightarrow> uint64 list \<Rightarrow> nat \<Rightarrow>
     uint32 list \<times> uint64 list \<Rightarrow> uint32 list \<times> uint64 list \<Rightarrow> bool" where
  "hash_pass P new src n st st' \<longleftrightarrow>
     length (fst st') = length (fst st) \<and> length (snd st') = length (snd st) \<and>
     (\<forall>r<length (fst st). fst st' ! r =
        (if r div 64 < n \<and> wbit src r \<and> P r then new r (fst st ! r) else fst st ! r)) \<and>
     (\<forall>k<length (snd st). if k < n
        then (\<forall>i<64. bit (snd st' ! k) i \<longleftrightarrow> bit (src ! k) i \<and> P (64 * k + i))
        else snd st' ! k = snd st ! k)"

text \<open>A step on word \<open>k\<close> that reads the rows \<open>src ! k\<close> and rewrites word \<open>k\<close>.\<close>

definition hash_step ::
  "(nat \<Rightarrow> bool) \<Rightarrow> (nat \<Rightarrow> uint32 \<Rightarrow> uint32) \<Rightarrow> uint64 list \<Rightarrow> nat \<Rightarrow>
     uint32 list \<times> uint64 list \<Rightarrow> uint32 list \<times> uint64 list \<Rightarrow> bool" where
  "hash_step P new src k st st' \<longleftrightarrow>
     length (fst st') = length (fst st) \<and>
     (\<forall>r<length (fst st). fst st' ! r =
        (if r div 64 = k \<and> wbit src r \<and> P r then new r (fst st ! r) else fst st ! r)) \<and>
     (\<exists>w. snd st' = (snd st)[k := w] \<and> (\<forall>i<64. bit w i \<longleftrightarrow> bit (src ! k) i \<and> P (64 * k + i)))"

lemma hash_pass_0: "hash_pass P new src 0 st st"
  by (simp add: hash_pass_def)

lemma hash_pass_later:
  "hash_pass P new src n st st' \<Longrightarrow> n \<le> k \<Longrightarrow> k < length (snd st) \<Longrightarrow> snd st' ! k = snd st ! k"
  by (auto simp: hash_pass_def not_less [symmetric])

lemma hash_pass_Suc:
  assumes "hash_pass P new src n st st'" "hash_step P new src n st' st''"
  shows "hash_pass P new src (Suc n) st st''"
proof -
  from assms(2) obtain w where w: "snd st'' = (snd st')[n := w]"
    "\<And>i. i < 64 \<Longrightarrow> bit w i \<longleftrightarrow> bit (src ! n) i \<and> P (64 * n + i)"
    by (auto simp: hash_step_def)
  have "fst st'' ! r = (if r div 64 < Suc n \<and> wbit src r \<and> P r then new r (fst st ! r) else fst st ! r)"
    if "r < length (fst st)" for r
    using assms that by (simp add: hash_pass_def hash_step_def less_Suc_eq)
  moreover have "if k < Suc n
        then (\<forall>i<64. bit (snd st'' ! k) i \<longleftrightarrow> bit (src ! k) i \<and> P (64 * k + i))
        else snd st'' ! k = snd st ! k" if "k < length (snd st)" for k
    using assms(1) that w by (cases "k = n") (simp_all add: hash_pass_def less_Suc_eq)
  moreover have "length (fst st'') = length (fst st)" "length (snd st'') = length (snd st)"
    using assms w(1) by (auto simp: hash_pass_def hash_step_def)
  ultimately show ?thesis
    unfolding hash_pass_def by blast
qed

lemma hash_pass_fold:
  assumes "\<And>k st'. k < n \<Longrightarrow> hash_pass P new src k st st' \<Longrightarrow> hash_step P new src k st' (f k st')"
  shows "hash_pass P new src n st (fold f [0..<n] st)"
  using assms
proof (induction n)
  case (Suc n)
  then have pass: "hash_pass P new src n st (fold f [0..<n] st)" by simp
  then show ?case
    using hash_pass_Suc [OF pass Suc.prems [OF lessI pass]] by simp
qed (simp add: hash_pass_0)

lemma hash_step_bits:
  assumes "k < length ws" "\<And>i. bit (src ! k) i \<Longrightarrow> 64 * k + i < length h"
    and "\<And>i. i < 64 \<Longrightarrow> bit (fold (\<lambda>b valid. if P (k * 64 + b) then updt b valid else upde b valid)
      (word_rows (src ! k)) v) i \<longleftrightarrow> bit (src ! k) i \<and> P (64 * k + i)"
  shows "hash_step P new src k (h, ws)
    (let (h', valid) = hash_bits P new updt upde (k * 64) (word_rows (src ! k)) (h, v)
     in (h', ws[k := valid]))"
proof -
  let ?out = "hash_bits P new updt upde (k * 64) (word_rows (src ! k)) (h, v)"
  have spec: "snd ?out = fold (\<lambda>b valid. if P (k * 64 + b) then updt b valid else upde b valid)
        (word_rows (src ! k)) v"
    "length (fst ?out) = length h"
    "\<And>r. r < length h \<Longrightarrow> fst ?out ! r =
      (if k * 64 \<le> r \<and> r - k * 64 \<in> set (word_rows (src ! k)) \<and> P r then new r (h ! r) else h ! r)"
    using hash_bits_spec [of "word_rows (src ! k)" "k * 64" h P new updt upde v] assms(2)
    by (auto simp: mult.commute)
  have "k * 64 \<le> r \<and> r - k * 64 \<in> set (word_rows (src ! k)) \<longleftrightarrow> r div 64 = k \<and> wbit src r" for r
  proof
    assume a: "k * 64 \<le> r \<and> r - k * 64 \<in> set (word_rows (src ! k))"
    then have "r - k * 64 < 64" by (auto dest: word64_bit_lt)
    with a have "r div 64 = k" by auto
    then have "r mod 64 = r - k * 64" by (simp add: modulo_nat_def mult.commute)
    note \<open>r div 64 = k\<close> this
    with a show "r div 64 = k \<and> wbit src r" by (simp add: wbit_def)
  next
    assume "r div 64 = k \<and> wbit src r"
    then show "k * 64 \<le> r \<and> r - k * 64 \<in> set (word_rows (src ! k))"
      by (auto simp: wbit_def modulo_nat_def)
  qed
  with spec assms(3) show ?thesis
    unfolding hash_step_def by (auto simp: split_beta)
qed

section \<open>One key column\<close>

lemma bit_fold_andnot:
  assumes "\<And>i. i \<in> set xs \<Longrightarrow> i < LENGTH('a)"
  shows "bit (fold (\<lambda>b r. if P b then r else r AND NOT (push_bit b 1)) xs (r0 :: 'a::len word)) i \<longleftrightarrow>
    bit r0 i \<and> (i \<in> set xs \<longrightarrow> P i)"
  using assms
  by (induction xs arbitrary: r0) (auto simp: bit_and_iff bit_not_iff bit_exp_iff dest: bit_imp_le_length)

definition key_update :: "hash32 \<Rightarrow> hash_comb \<Rightarrow> nat \<Rightarrow> int4_vector \<Rightarrow> nat \<Rightarrow> uint32 \<Rightarrow> uint32" where
  "key_update mur comb key column r old =
     (if key = 0 then mur (int4_row_value column r) else comb old (mur (int4_row_value column r)))"

lemma if_not_swap: "(if \<not> P then a else b) = (if P then b else a)"
  by simp

lemma hash_step_skip: "src ! k = 0 \<Longrightarrow> ws ! k = 0 \<Longrightarrow> hash_step P new src k (h, ws) (h, ws)"
  using list_update_id [of ws k]
  by (auto simp: hash_step_def wbit_def intro!: exI [of _ 0])

lemma hash_key_word_step:
  assumes "vec_wf column n" "k < length ws" "\<And>i. bit (ws ! k) i \<Longrightarrow> 64 * k + i < length h"
    and "src ! k = ws ! k"
  shows "hash_step (\<lambda>r. \<not> hash_row_is_null column r) (key_update mur comb key column) src k (h, ws)
    (hash_key_word mur comb key column k (h, ws))"
proof (cases "ws ! k = 0")
  case True
  with assms(4) hash_step_skip show ?thesis by (simp add: hash_key_word_def)
next
  case False
  have "hash_key_word mur comb key column k (h, ws) =
      (let (h', valid) = hash_bits (\<lambda>r. \<not> hash_row_is_null column r) (key_update mur comb key column)
           (\<lambda>b v. v) (\<lambda>b v. v AND NOT (push_bit b 1)) (k * 64) (word_rows (src ! k)) (h, ws ! k)
       in (h', ws[k := valid]))"
    using False
    unfolding hash_key_word_def hash_bits_def key_update_def hash_value_def packed_value_eq [OF assms(1)]
      Let_def assms(4) if_not_swap by simp
  also have "hash_step (\<lambda>r. \<not> hash_row_is_null column r) (key_update mur comb key column) src k (h, ws) \<dots>"
  proof (rule hash_step_bits)
    fix i :: nat
    show "bit (fold (\<lambda>b valid. if \<not> hash_row_is_null column (k * 64 + b) then valid
          else valid AND NOT (push_bit b 1)) (word_rows (src ! k)) (ws ! k)) i \<longleftrightarrow>
        bit (src ! k) i \<and> \<not> hash_row_is_null column (64 * k + i)"
      by (subst bit_fold_andnot) (auto simp: assms(4) mult.commute dest: word64_bit_lt)
  qed (use assms(2-4) in auto)
  finally show ?thesis .
qed

lemma hash_key_pass:
  assumes "vec_wf column n" "nwords \<le> length (snd st)"
    and "\<And>k i. k < nwords \<Longrightarrow> bit (snd st ! k) i \<Longrightarrow> 64 * k + i < length (fst st)"
  shows "hash_pass (\<lambda>r. \<not> hash_row_is_null column r) (key_update mur comb key column) (snd st) nwords st
    (fold (hash_key_word mur comb key column) [0..<nwords] st)"
proof (rule hash_pass_fold)
  fix k st' assume k: "k < nwords"
    and pass: "hash_pass (\<lambda>r. \<not> hash_row_is_null column r) (key_update mur comb key column) (snd st) k st st'"
  obtain h ws where st': "st' = (h, ws)" by (cases st')
  have "snd st ! k = ws ! k" "k < length ws" "length h = length (fst st)"
    using hash_pass_later [OF pass, of k] pass k assms(2) by (auto simp: hash_pass_def st')
  then show "hash_step (\<lambda>r. \<not> hash_row_is_null column r) (key_update mur comb key column) (snd st) k st'
      (hash_key_word mur comb key column k st')"
    unfolding st' using assms(3) [OF k] by (intro hash_key_word_step [OF assms(1)]) auto
qed

text \<open>After the first \<open>n\<close> keys: the rows whose first \<open>n\<close> keys are present, with their hash.\<close>

definition keys_hashed ::
  "hash32 \<Rightarrow> hash_comb \<Rightarrow> int4_vector list \<Rightarrow> uint64 list \<Rightarrow> nat \<Rightarrow> nat \<Rightarrow>
     uint32 list \<times> uint64 list \<Rightarrow> bool" where
  "keys_hashed mur comb keys src nwords n st \<longleftrightarrow>
     (\<forall>k<nwords. \<forall>i<64. bit (snd st ! k) i \<longleftrightarrow>
        bit (src ! k) i \<and> (\<forall>c\<in>set (take n keys). \<not> hash_row_is_null c (64 * k + i))) \<and>
     (\<forall>r<length (fst st). 0 < n \<longrightarrow> r div 64 < nwords \<longrightarrow> wbit (snd st) r \<longrightarrow>
        fst st ! r = row_hash mur comb (key_values (take n keys) r))"

lemma keys_hashed_Suc:
  assumes "keys_hashed mur comb keys src nwords n st" "n < length keys" "nwords \<le> length (snd st)"
    and "hash_pass (\<lambda>r. \<not> hash_row_is_null (keys ! n) r) (key_update mur comb n (keys ! n))
      (snd st) nwords st st'"
  shows "keys_hashed mur comb keys src nwords (Suc n) st'"
proof -
  have take: "take (Suc n) keys = take n keys @ [keys ! n]"
    using assms(2) by (rule take_Suc_conv_app_nth)
  have words: "bit (snd st' ! k) i \<longleftrightarrow> bit (snd st ! k) i \<and> \<not> hash_row_is_null (keys ! n) (64 * k + i)"
    if "k < nwords" "i < 64" for k i
    using assms(3,4) that by (auto simp: hash_pass_def)
  have "fst st' ! r = row_hash mur comb (key_values (take (Suc n) keys) r)"
    if r: "r < length (fst st')" "r div 64 < nwords" "wbit (snd st') r" for r
  proof -
    have len: "length (fst st') = length (fst st)" using assms(4) by (simp add: hash_pass_def)
    have old: "wbit (snd st) r" "\<not> hash_row_is_null (keys ! n) r"
      using words [OF r(2), of "r mod 64"] r(3) by (auto simp: wbit_def)
    then have "fst st' ! r = key_update mur comb n (keys ! n) r (fst st ! r)"
      using assms(4) r len by (simp add: hash_pass_def)
    moreover have "0 < n \<Longrightarrow> fst st ! r = row_hash mur comb (key_values (take n keys) r)"
      using assms(1) r old(1) len by (simp add: keys_hashed_def)
    ultimately show ?thesis
      unfolding take key_values_def map_append list.map row_hash_snoc key_update_def
      using assms(2) by (cases "n = 0") auto
  qed
  moreover have "bit (snd st' ! k) i \<longleftrightarrow> bit (src ! k) i \<and>
      (\<forall>c\<in>set (take (Suc n) keys). \<not> hash_row_is_null c (64 * k + i))" if "k < nwords" "i < 64" for k i
    using words [OF that] assms(1) that by (auto simp: keys_hashed_def take)
  ultimately show ?thesis by (simp add: keys_hashed_def)
qed

section \<open>All key columns\<close>

text \<open>The buffers a caller provides: one hash per row, one word per 64 rows.\<close>

definition hash_buffers :: "int4_vector list \<Rightarrow> selection \<Rightarrow> uint32 list \<Rightarrow> selection \<Rightarrow> bool" where
  "hash_buffers keys s hashes valid_rows \<longleftrightarrow>
     sel_wf s \<and> keys \<noteq> [] \<and> (\<forall>c\<in>set keys. vec_wf c (nat (sel_nrows s))) \<and>
     nat (sel_nrows s) \<le> length hashes \<and>
     sel_nrows valid_rows = sel_nrows s \<and> sel_nwords valid_rows = sel_nwords s \<and>
     length (sel_words valid_rows) = nat (sel_nwords s)"

definition hash_result ::
  "hash32 \<Rightarrow> hash_comb \<Rightarrow> int4_vector list \<Rightarrow> selection \<Rightarrow> uint32 list \<Rightarrow>
     uint32 list \<times> selection \<Rightarrow> bool" where
  "hash_result mur comb keys s hashes out \<longleftrightarrow>
     length (fst out) = length hashes \<and> sel_wf (snd out) \<and>
     selected (snd out) = filter (keys_present keys) (selected s) \<and>
     (\<forall>r\<in>set (selected (snd out)). fst out ! r = row_hash mur comb (key_values keys r))"

lemma hash_resultI:
  assumes "hash_buffers keys s hashes valid_rows"
    and "length h = length hashes" "length ws = nat (sel_nwords s)"
    and words: "\<And>k i. k < nat (sel_nwords s) \<Longrightarrow> i < 64 \<Longrightarrow> bit (ws ! k) i \<longleftrightarrow>
      bit (sel_words s ! k) i \<and> (\<forall>c\<in>set keys. \<not> hash_row_is_null c (64 * k + i))"
    and hash: "\<And>r. r < nat (sel_nrows s) \<Longrightarrow> wbit ws r \<Longrightarrow> h ! r = row_hash mur comb (key_values keys r)"
  shows "hash_result mur comb keys s hashes (h, valid_rows\<lparr>sel_words := ws\<rparr>)"
proof -
  let ?v = "valid_rows\<lparr>sel_words := ws\<rparr>"
  note buf = assms(1) [unfolded hash_buffers_def]
  have wf: "sel_wf ?v"
  proof (rule sel_wf_shrink [of s])
    fix k i assume "k < length (sel_words s)" "bit (sel_words ?v ! k) i"
    then show "bit (sel_words s ! k) i"
      using words [of k i] buf by (auto simp: sel_wf_length dest: word64_bit_lt)
  qed (use buf assms(3) in \<open>auto simp: sel_wf_length\<close>)
  have bits: "sel_bit ?v r \<longleftrightarrow> sel_bit s r \<and> keys_present keys r" if "r < nat (sel_nrows s)" for r
  proof -
    have "r div 64 < nat (sel_nwords s)" using sel_wf_word_lt that buf by blast
    then show ?thesis
      using words [of "r div 64" "r mod 64"] hash_row_is_null_eq [of _ "nat (sel_nrows s)" r] buf that
      by (auto simp: sel_bit_def keys_present_def)
  qed
  have "selected ?v = filter (keys_present keys) (selected s)"
    unfolding selected_def filter_filter using buf bits by (auto intro!: filter_cong)
  moreover have "\<forall>r\<in>set (selected ?v). h ! r = row_hash mur comb (key_values keys r)"
    using buf hash by (auto simp: set_selected sel_bit_def wbit_def)
  ultimately show ?thesis
    using wf assms(2) by (simp add: hash_result_def)
qed

lemma keys_hashed_fold:
  fixes mur :: hash32 and comb :: hash_comb
  assumes "\<forall>c\<in>set keys. vec_wf c n" "nwords \<le> length ws0" "m \<le> length keys"
    and "\<And>k i. k < nwords \<Longrightarrow> bit (ws0 ! k) i \<Longrightarrow> 64 * k + i < length hashes"
  defines "out \<equiv> fold (\<lambda>key st. fold (hash_key_word mur comb key (keys ! key)) [0..<nwords] st)
    [0..<m] (hashes, ws0)"
  shows "keys_hashed mur comb keys ws0 nwords m out \<and>
    length (fst out) = length hashes \<and> length (snd out) = length ws0"
  using assms(3) unfolding out_def
proof (induction m)
  case 0
  then show ?case by (simp add: keys_hashed_def)
next
  case (Suc m)
  let ?st = "fold (\<lambda>key st. fold (hash_key_word mur comb key (keys ! key)) [0..<nwords] st)
    [0..<m] (hashes, ws0)"
  from Suc have IH: "keys_hashed mur comb keys ws0 nwords m ?st"
    "length (fst ?st) = length hashes" "length (snd ?st) = length ws0" by auto
  have "hash_pass (\<lambda>r. \<not> hash_row_is_null (keys ! m) r) (key_update mur comb m (keys ! m)) (snd ?st)
      nwords ?st (fold (hash_key_word mur comb m (keys ! m)) [0..<nwords] ?st)"
  proof (rule hash_key_pass)
    show "vec_wf (keys ! m) n" using assms(1) Suc.prems by simp
    fix k i assume ki: "k < nwords" "bit (snd ?st ! k) i"
    then have "bit (ws0 ! k) i"
      using IH(1) word64_bit_lt [OF ki(2)] unfolding keys_hashed_def by blast
    then show "64 * k + i < length (fst ?st)"
      using IH(2) assms(4) [OF ki(1)] by simp
  qed (use IH assms(2) in simp)
  with IH Suc.prems assms(2) show ?case
    using keys_hashed_Suc [of mur comb keys ws0 nwords m ?st]
    by (auto simp: hash_pass_def)
qed

lemma fold_init_words:
  assumes "n \<le> length ws" "k < n"
  shows "fold (\<lambda>word ws. ws[word := f word]) [0..<n] ws ! k = f k"
  using fold_update_nth(2) [of n ws k "\<lambda>i _. f i"] assms by simp

lemma length_fold_init_words:
  "length (fold (\<lambda>word ws. ws[word := f word]) xs ws) = length ws"
  by (induction xs arbitrary: ws) simp_all

lemma hash_general_path:
  assumes "hash_buffers keys s hashes valid_rows" "length keys \<noteq> 2"
  shows "hash_result mur comb keys s hashes (hash_int4 mur comb keys s hashes valid_rows)"
proof -
  note buf = assms(1) [unfolded hash_buffers_def]
  let ?n = "nat (sel_nwords s)"
  define ws0 where "ws0 = fold (\<lambda>word ws.
      ws[word := (sel_words s ! word) AND word_mask (sel_nrows s) word]) [0..<?n] (sel_words valid_rows)"
  define out where "out = fold (\<lambda>key st. fold (hash_key_word mur comb key (keys ! key)) [0..<?n] st)
      [0..<length keys] (hashes, ws0)"
  have ws0: "ws0 ! k = sel_words s ! k" if "k < ?n" for k
    unfolding ws0_def using buf that by (simp add: fold_init_words word_and_mask)
  have len0: "length ws0 = ?n" unfolding ws0_def using buf by (simp add: length_fold_init_words)
  have lt: "64 * k + i < nat (sel_nrows s)" if "k < ?n" "bit (ws0 ! k) i" for k i
    using sel_wf_bit [of s k i] that ws0 buf by auto
  have "keys_hashed mur comb keys ws0 ?n (length keys) out \<and>
      length (fst out) = length hashes \<and> length (snd out) = length ws0"
    unfolding out_def
    by (rule keys_hashed_fold [where n = "nat (sel_nrows s)"]) (use buf len0 lt in \<open>auto intro: less_le_trans\<close>)
  then have out: "keys_hashed mur comb keys ws0 ?n (length keys) out"
    "length (fst out) = length hashes" "length (snd out) = ?n" using len0 by auto
  have "hash_result mur comb keys s hashes (fst out, valid_rows\<lparr>sel_words := snd out\<rparr>)"
  proof (rule hash_resultI [OF assms(1) out(2,3)])
    fix r assume "r < nat (sel_nrows s)" "wbit (snd out) r"
    then show "fst out ! r = row_hash mur comb (key_values keys r)"
      using out(1,2) buf sel_wf_word_lt [of s r] by (simp add: keys_hashed_def)
  qed (use out(1) ws0 in \<open>auto simp: keys_hashed_def\<close>)
  then show ?thesis
    using assms(2) unfolding hash_int4_def Let_def ws0_def [symmetric] out_def [symmetric]
    by (simp add: split_beta)
qed

text \<open>The path for two keys visits each row once.\<close>

lemma hash_two_keys_path:
  assumes "hash_buffers [left, right] s hashes valid_rows"
  shows "hash_result mur comb [left, right] s hashes
    (hash_two_keys mur comb left right s hashes valid_rows)"
proof -
  note buf = assms [unfolded hash_buffers_def]
  let ?n = "nat (sel_nwords s)"
  let ?P = "\<lambda>r. \<not> int4_row_is_null left r \<and> \<not> int4_row_is_null right r"
  let ?new = "\<lambda>r (old :: uint32). comb (mur (int4_row_value left r)) (mur (int4_row_value right r))"
  define f where "f = (\<lambda>word (h, ws :: uint64 list).
           let rows = (sel_words s ! word) AND word_mask (sel_nrows s) word;
               first_row = word * 64;
               ws0 = ws[word := 0]
           in if rows = 0 then (h, ws0)
              else
                let (h', valid) = fold (\<lambda>bitno (h, valid).
                      let row = first_row + bitno
                      in if \<not> int4_row_is_null left row \<and> \<not> int4_row_is_null right row then
                           (h[row := comb (mur (int4_row_value left row)) (mur (int4_row_value right row))],
                            valid OR push_bit bitno 1)
                         else (h, valid)) (word_rows rows) (h, 0)
                in (h', ws0[word := valid]))"
  have step: "hash_step ?P ?new (sel_words s) k (h, ws) (f k (h, ws))"
    if k: "k < ?n" "length ws = ?n" "length h = length hashes" for k h ws
  proof -
    have "f k (h, ws) = (let (h', valid) = hash_bits ?P ?new (\<lambda>b v. v OR push_bit b 1) (\<lambda>b v. v) (k * 64)
        (word_rows (sel_words s ! k)) (h, 0) in (h', ws[k := valid]))"
      using buf k by (cases "sel_words s ! k = 0")
        (simp_all add: f_def Let_def hash_bits_def word_and_mask split_beta del: push_bit_of_1)
    also have "hash_step ?P ?new (sel_words s) k (h, ws) \<dots>"
    proof (rule hash_step_bits)
      show "64 * k + i < length h" if "bit (sel_words s ! k) i" for i
        using sel_wf_bit [of s k i] buf k that by auto
      show "bit (fold (\<lambda>b valid. if ?P (k * 64 + b) then valid OR push_bit b 1 else valid)
          (word_rows (sel_words s ! k)) (0 :: uint64)) i \<longleftrightarrow> bit (sel_words s ! k) i \<and> ?P (64 * k + i)" for i
        using bit_fold_or [where P = "\<lambda>b. ?P (k * 64 + b)" and xs = "word_rows (sel_words s ! k)"
            and ?r0.0 = "0 :: uint64" and i = i] word64_bit_lt [of "sel_words s ! k"]
        by (simp add: mult.commute)
    qed (use k in simp)
    finally show ?thesis .
  qed
  define out where "out = fold f [0..<?n] (hashes, sel_words valid_rows)"
  have "hash_pass ?P ?new (sel_words s) ?n (hashes, sel_words valid_rows) out"
    unfolding out_def
  proof (rule hash_pass_fold)
    fix k st' assume "k < ?n" "hash_pass ?P ?new (sel_words s) k (hashes, sel_words valid_rows) st'"
    then show "hash_step ?P ?new (sel_words s) k st' (f k st')"
      using step [of k "snd st'" "fst st'"] buf by (simp add: hash_pass_def)
  qed
  then have out: "length (fst out) = length hashes" "length (snd out) = ?n"
    "\<And>r. r < length hashes \<Longrightarrow> fst out ! r =
        (if r div 64 < ?n \<and> wbit (sel_words s) r \<and> ?P r then ?new r (hashes ! r) else hashes ! r)"
    "\<And>k i. k < ?n \<Longrightarrow> i < 64 \<Longrightarrow> bit (snd out ! k) i \<longleftrightarrow> bit (sel_words s ! k) i \<and> ?P (64 * k + i)"
    using buf by (simp_all add: hash_pass_def)
  have null: "int4_row_is_null c r = hash_row_is_null c r"
    if "c \<in> {left, right}" "r < nat (sel_nrows s)" for c r
    using hash_row_is_null_eq [of c "nat (sel_nrows s)" r] that buf by (auto simp: vec_get_def split: if_splits)
  have "hash_result mur comb [left, right] s hashes (fst out, valid_rows\<lparr>sel_words := snd out\<rparr>)"
  proof (rule hash_resultI [OF assms out(1,2)])
    fix k i :: nat assume "k < ?n" "i < 64"
    then show "bit (snd out ! k) i \<longleftrightarrow> bit (sel_words s ! k) i \<and>
        (\<forall>c\<in>set [left, right]. \<not> hash_row_is_null c (64 * k + i))"
      using out(4) [of k i] null [of _ "64 * k + i"] sel_wf_bit [of s k i] buf by auto
  next
    fix r assume r: "r < nat (sel_nrows s)" "wbit (snd out) r"
    then have "r div 64 < ?n" using sel_wf_word_lt buf by blast
    with r out(3) [of r] out(4) [of "r div 64" "r mod 64"] buf
    show "fst out ! r = row_hash mur comb (key_values [left, right] r)"
      by (simp add: wbit_def key_values_def)
  qed
  then show ?thesis
    unfolding hash_two_keys_def f_def [symmetric] out_def [symmetric] by (simp add: split_beta)
qed

lemma hash_int4_result:
  assumes "hash_buffers keys s hashes valid_rows"
  shows "hash_result mur comb keys s hashes (hash_int4 mur comb keys s hashes valid_rows)"
proof (cases "length keys = 2")
  case True
  then obtain l r where "keys = [l, r]"
    by (cases keys; cases "tl keys") (auto simp: length_Suc_conv)
  with hash_two_keys_path [of l r s hashes valid_rows mur comb] assms show ?thesis
    by (simp add: hash_int4_def)
qed (rule hash_general_path [OF assms])

section \<open>Property of the hash kernel\<close>

text \<open>
  C25. \<open>pg_batch_hash_int4\<close> leaves in \<open>valid_rows\<close> exactly the selected rows none of
  whose keys is NULL, and stores for each of them the combination, from the first
  key to the last, of the hashes of its key values.  The path specialized for two
  keys and the general path give the same answer, for any hash functions.
\<close>

theorem hash_int4_correct:
  fixes mur :: hash32 and comb :: hash_comb
  assumes "hash_buffers keys s hashes valid_rows"
  defines "out \<equiv> hash_int4 mur comb keys s hashes valid_rows"
  shows "sel_wf (snd out) \<and> length (fst out) = length hashes \<and>
    selected (snd out) =
      filter (\<lambda>r. \<forall>column\<in>set keys. vec_get column r \<noteq> None) (selected s) \<and>
    (\<forall>r\<in>set (selected (snd out)). fst out ! r =
      row_hash mur comb (map (\<lambda>column. int4_row_value column r) keys))"
  using hash_int4_result [OF assms(1), of mur comb]
  unfolding out_def hash_result_def keys_present_def [abs_def] key_values_def by blast

theorem hash_int4_correct_witness:
  "selected (snd (hash_int4 (\<lambda>x. x) (+) [example_column, int4_vector_init_datum [1, 2, 3, 4, 5]
       [False, False, False, True, False]]
     \<lparr>sel_nrows = 5, sel_nwords = 1, sel_words = [31]\<rparr> [0, 0, 0, 0, 0]
     \<lparr>sel_nrows = 5, sel_nwords = 1, sel_words = [0]\<rparr>)) = [0, 2, 4] \<and>
   fst (hash_int4 (\<lambda>x. x) (+) [example_column, int4_vector_init_datum [1, 2, 3, 4, 5]
       [False, False, False, True, False]]
     \<lparr>sel_nrows = 5, sel_nwords = 1, sel_words = [31]\<rparr> [0, 0, 0, 0, 0]
     \<lparr>sel_nrows = 5, sel_nwords = 1, sel_words = [0]\<rparr>) ! 2 = 10"
proof -
  let ?s = "\<lparr>sel_nrows = 5, sel_nwords = 1, sel_words = [31]\<rparr> :: selection"
  let ?v = "\<lparr>sel_nrows = 5, sel_nwords = 1, sel_words = [0]\<rparr> :: selection"
  let ?keys = "[example_column, int4_vector_init_datum [1, 2, 3, 4, 5] [False, False, False, True, False]]"
  have wf: "sel_wf ?s" by (rule sel_wfI) simp_all
  have buf: "hash_buffers ?keys ?s [0, 0, 0, 0, 0] ?v"
    unfolding hash_buffers_def using wf
    by (simp add: vec_wf_def example_column_def int4_vector_init_packed_def int4_vector_init_datum_def)
  have sel: "filter (\<lambda>r. \<forall>column\<in>set ?keys. vec_get column r \<noteq> None) (selected ?s) = [0, 2, 4]"
    by code_simp
  have h: "row_hash (\<lambda>x. x) (+) (map (\<lambda>column. int4_row_value column 2) ?keys) = 10" by code_simp
  show ?thesis
    using hash_int4_correct [OF buf, of "\<lambda>x. x" "(+)"] unfolding sel using h by simp
qed

end
