(* ===== verification/Expr.thy ===== *)
theory Expr
  imports Hash
begin

text \<open>
  Restricted batch expressions, \<open>expr/expr.c\<close>: the analysis of PostgreSQL
  expression trees with at most one int4 column reference, their compilation to a
  chain of column-with-scalar arithmetic steps, and the evaluation of a compiled
  expression or filter on a batch.

  \<open>ExecInitExpr\<close>/\<open>ExecEvalExpr\<close> belong to PostgreSQL's executor: evaluating a
  scalar sub-expression is the argument \<open>ev\<close>, from an expression tree and an
  expression context to a nullable \<open>Datum\<close> or an error.  The batch an expression
  is bound to is passed and returned explicitly.
\<close>

section \<open>Expression trees\<close>

definition INT4OID :: uint32 where "INT4OID = 23"
definition BOOLOID :: uint32 where "BOOLOID = 16"

datatype param_kind = PARAM_EXTERN | PARAM_EXEC | PARAM_SUBLINK | PARAM_MULTIEXPR

record var_node =
  vartype :: uint32
  varattno :: int
  varlevelsup :: nat
  varreturning_default :: bool
  varno :: int

datatype node =
    Var var_node
  | Const uint32 "datum option"
  | Param uint32 param_kind int
  | RelabelType node
  | OpExpr uint32 uint32 "node list"
  | OtherNode uint32

fun strip_relabel :: "node \<Rightarrow> node" where
  "strip_relabel (RelabelType n) = strip_relabel n"
| "strip_relabel n = n"

definition valid_var :: "var_node \<Rightarrow> nat \<Rightarrow> bool" where
  "valid_var v relid \<longleftrightarrow>
     vartype v = INT4OID \<and> 0 < varattno v \<and> varlevelsup v = 0 \<and> varreturning_default v \<and>
     (relid = 0 \<or> varno v = int relid)"

fun scalar_leaf :: "node \<Rightarrow> bool" where
  "scalar_leaf (Const consttype v) \<longleftrightarrow> consttype = INT4OID"
| "scalar_leaf (Param paramtype paramkind i) \<longleftrightarrow>
     paramtype = INT4OID \<and> (paramkind = PARAM_EXTERN \<or> paramkind = PARAM_EXEC)"
| "scalar_leaf _ \<longleftrightarrow> False"

definition F_INT4MUL :: uint32 where "F_INT4MUL = 141"
definition F_INT4DIV :: uint32 where "F_INT4DIV = 154"
definition F_INT4MOD :: uint32 where "F_INT4MOD = 156"
definition F_INT4PL :: uint32 where "F_INT4PL = 177"
definition F_INT4MI :: uint32 where "F_INT4MI = 181"
definition F_INT4UM :: uint32 where "F_INT4UM = 212"

definition arithmetic_op_of :: "uint32 \<Rightarrow> nat \<Rightarrow> arithmetic_op option" where
  "arithmetic_op_of funcid nargs =
     (if funcid = F_INT4UM then (if nargs \<noteq> 1 then None else Some PG_BATCH_INT4_NEGATE)
      else
        (case (if funcid = F_INT4PL then Some PG_BATCH_INT4_ADD
               else if funcid = F_INT4MI then Some PG_BATCH_INT4_SUBTRACT
               else if funcid = F_INT4MUL then Some PG_BATCH_INT4_MULTIPLY
               else if funcid = F_INT4DIV then Some PG_BATCH_INT4_DIVIDE
               else if funcid = F_INT4MOD then Some PG_BATCH_INT4_MODULO
               else None) of
           None \<Rightarrow> None
         | Some op \<Rightarrow> if nargs = 2 then Some op else None))"

text \<open>The number of column references, or \<open>None\<close> outside the restricted grammar.\<close>

fun analyze_value :: "nat \<Rightarrow> node \<Rightarrow> nat option"
  and analyze_args :: "nat \<Rightarrow> node list \<Rightarrow> nat \<Rightarrow> nat option" where
  "analyze_value relid (RelabelType n) = analyze_value relid n"
| "analyze_value relid (Var v) = (if valid_var v relid then Some 1 else None)"
| "analyze_value relid (Const t v) = (if scalar_leaf (Const t v) then Some 0 else None)"
| "analyze_value relid (Param t k i) = (if scalar_leaf (Param t k i) then Some 0 else None)"
| "analyze_value relid (OtherNode t) = None"
| "analyze_value relid (OpExpr opfuncid opresulttype args) =
     (if opresulttype \<noteq> INT4OID \<or> arithmetic_op_of opfuncid (length args) = None then None
      else analyze_args relid args 0)"
| "analyze_args relid [] vars = Some vars"
| "analyze_args relid (arg # args) vars =
     (case analyze_value relid arg of
        None \<Rightarrow> None
      | Some arg_vars \<Rightarrow>
          if vars + arg_vars > 1 then None else analyze_args relid args (vars + arg_vars))"

definition supports_int4 :: "node \<Rightarrow> nat \<Rightarrow> bool" where
  "supports_int4 n relid \<longleftrightarrow> analyze_value relid n \<noteq> None"

text \<open>The position of the column side, and the comparison normalized to it.\<close>

definition analyze_filter :: "nat \<Rightarrow> node \<Rightarrow> (nat \<times> int4_op) option" where
  "analyze_filter relid n =
     (case strip_relabel n of
        OpExpr opfuncid opresulttype [a, b] \<Rightarrow>
          if opresulttype \<noteq> BOOLOID then None
          else (case (analyze_value relid a, analyze_value relid b) of
                  (Some left_vars, Some right_vars) \<Rightarrow>
                    if left_vars + right_vars \<noteq> 1 then None
                    else (let value_arg = (if left_vars = 1 then 0 else 1 :: nat)
                          in map_option (Pair value_arg)
                               (int4_compare_op opfuncid (of_nat value_arg)))
                | _ \<Rightarrow> None)
      | _ \<Rightarrow> None)"

definition supports_filter :: "node \<Rightarrow> nat \<Rightarrow> bool" where
  "supports_filter n relid \<longleftrightarrow> analyze_filter relid n \<noteq> None"

definition match_int4_comparison :: "node \<Rightarrow> nat \<Rightarrow> (int \<times> int4_op \<times> node) option" where
  "match_int4_comparison n relid =
     (case analyze_filter relid (strip_relabel n) of
        None \<Rightarrow> None
      | Some (value_arg, comparison) \<Rightarrow>
          (case strip_relabel n of
             OpExpr opfuncid opresulttype args \<Rightarrow>
               (case strip_relabel (args ! value_arg) of
                  Var v \<Rightarrow>
                    (let scalar = strip_relabel (args ! (1 - value_arg))
                     in if analyze_value relid scalar = Some 0
                        then Some (varattno v, comparison, scalar) else None)
                | _ \<Rightarrow> None)
           | _ \<Rightarrow> None))"

section \<open>Compiled expressions\<close>

record arithmetic_step =
  step_op :: arithmetic_op
  step_scalar :: "node option"
  step_scalar_on_left :: bool

record 'c batch_expr =
  ex_column :: int
  ex_column_mask :: "nat set"
  ex_scalar_value :: "node option"
  ex_steps :: "arithmetic_step list"
  ex_comparison_scalar :: "node option"
  ex_comparison :: int4_op
  ex_is_filter :: bool
  ex_bound :: bool
  ex_econtext :: "'c option"
  ex_phase :: column_phase
  ex_capacity :: int
  ex_values :: "int4 list list"
  ex_validity :: "8 word list list"
  ex_result :: int4_vector
  ex_result_ready :: bool

definition expr_empty :: "bool \<Rightarrow> 'c batch_expr" where
  "expr_empty for_filter =
     \<lparr>ex_column = - 1, ex_column_mask = {}, ex_scalar_value = None, ex_steps = [],
      ex_comparison_scalar = None, ex_comparison = PG_BATCH_INT4_EQ, ex_is_filter = for_filter,
      ex_bound = False, ex_econtext = None, ex_phase = PG_BATCH_COLUMN_FILTER, ex_capacity = 0,
      ex_values = [[], []], ex_validity = [[], []],
      ex_result = int4_vector_init_datum [] [], ex_result_ready = False\<rparr>"

definition append_step ::
  "arithmetic_op \<Rightarrow> node option \<Rightarrow> bool \<Rightarrow> 'c batch_expr \<Rightarrow> 'c batch_expr" where
  "append_step op scalar scalar_on_left e =
     e\<lparr>ex_steps := ex_steps e @
         [\<lparr>step_op = op, step_scalar = scalar, step_scalar_on_left = scalar_on_left\<rparr>]\<rparr>"

text \<open>
  \<open>compile_value\<close>: a column reference resolves to a batch column, an expression
  without one becomes the scalar value, and each operator around the column
  appends a step.
\<close>

fun compile_value ::
  "(var_node \<Rightarrow> int) \<Rightarrow> node \<Rightarrow> 'c batch_expr \<Rightarrow> 'c batch_expr result" where
  "compile_value resolve (RelabelType n) e = compile_value resolve n e"
| "compile_value resolve (Var v) e =
     (let column = resolve v
      in if column < 0 then Inl (Elog ''pg_batch expression input column is unavailable'')
         else Inr (e\<lparr>ex_column := column\<rparr>))"
| "compile_value resolve (OpExpr opfuncid opresulttype args) e =
     (case analyze_value 0 (OpExpr opfuncid opresulttype args) of
        None \<Rightarrow> Inl (Elog ''pg_batch received an unsupported int4 expression'')
      | Some left_vars \<Rightarrow>
          if left_vars = 0
          then Inr (e\<lparr>ex_scalar_value := Some (OpExpr opfuncid opresulttype args)\<rparr>)
          else
            (case arithmetic_op_of opfuncid (length args) of
               None \<Rightarrow> Inl (Elog ''pg_batch received an invalid int4 arithmetic expression'')
             | Some arithmetic \<Rightarrow>
                 (case args of
                    [a] \<Rightarrow>
                      rbind (compile_value resolve a e) (\<lambda>e'.
                      Inr (append_step arithmetic None False e'))
                  | [a, b] \<Rightarrow>
                      if analyze_value 0 a = Some 1 then
                        rbind (compile_value resolve a e) (\<lambda>e'.
                        Inr (append_step arithmetic (Some b) False e'))
                      else
                        rbind (compile_value resolve b e) (\<lambda>e'.
                        Inr (append_step arithmetic (Some a) True e'))
                  | _ \<Rightarrow> Inl (Elog ''pg_batch received an invalid int4 arithmetic expression''))))"
| "compile_value resolve n e =
     (if analyze_value 0 n = None
      then Inl (Elog ''pg_batch received an unsupported int4 expression'')
      else Inr (e\<lparr>ex_scalar_value := Some n\<rparr>))"

definition compile_expression ::
  "node \<Rightarrow> bool \<Rightarrow> (var_node \<Rightarrow> int) \<Rightarrow> 'c batch_expr result" where
  "compile_expression n for_filter resolve =
     rbind
       (if for_filter then
          (case analyze_filter 0 n of
             None \<Rightarrow> Inl (Elog ''pg_batch received an unsupported filter expression'')
           | Some (value_arg, comparison) \<Rightarrow>
               (case strip_relabel n of
                  OpExpr opfuncid opresulttype args \<Rightarrow>
                    Inr (args ! value_arg,
                         (expr_empty for_filter)\<lparr>ex_comparison := comparison,
                           ex_comparison_scalar := Some (args ! (1 - value_arg))\<rparr>)
                | _ \<Rightarrow> Inl (Elog ''pg_batch received an unsupported filter expression'')))
        else if \<not> supports_int4 n 0
        then Inl (Elog ''pg_batch received an unsupported int4 expression'')
        else Inr (n, expr_empty for_filter))
       (\<lambda>(val, e0).
     rbind (compile_value resolve val e0) (\<lambda>e.
     Inr (if 0 \<le> ex_column e then e\<lparr>ex_column_mask := {nat (ex_column e)}\<rparr> else e)))"

definition expr_bind :: "'c option \<Rightarrow> column_phase \<Rightarrow> bool \<Rightarrow> 'c batch_expr \<Rightarrow> 'c batch_expr" where
  "expr_bind econtext phase has_batch e =
     e\<lparr>ex_bound := has_batch, ex_econtext := econtext, ex_phase := phase, ex_result_ready := False\<rparr>"

section \<open>Evaluation on a batch\<close>

text \<open>
  Enlarging a buffer keeps its contents; the fresh part is never read before it is
  written, its contents are zero here.
\<close>

definition resize_buffer :: "nat \<Rightarrow> 'a::zero list \<Rightarrow> 'a list" where
  "resize_buffer n xs = take n xs @ replicate (n - length xs) 0"

definition ensure_capacity :: "int \<Rightarrow> 'c batch_expr \<Rightarrow> 'c batch_expr" where
  "ensure_capacity nrows e =
     (if nrows \<le> ex_capacity e then e
      else
        let buffers = (if length (ex_steps e) > 1 then 2 else 1 :: nat)
        in e\<lparr>ex_values := map (resize_buffer (nat nrows)) (take buffers (ex_values e)) @
                drop buffers (ex_values e),
             ex_validity := map (resize_buffer (nat ((nrows + 7) div 8))) (take buffers (ex_validity e)) @
                drop buffers (ex_validity e),
             ex_capacity := nrows\<rparr>)"

text \<open>\<open>MemSet(validity, 0, (nrows + 7) / 8)\<close>.\<close>

definition clear_validity :: "int \<Rightarrow> 8 word list \<Rightarrow> 8 word list" where
  "clear_validity nrows v =
     (let n = nat ((nrows + 7) div 8) in replicate n 0 @ drop n v)"

definition buffer_vector :: "'c batch_expr \<Rightarrow> nat \<Rightarrow> int4_vector" where
  "buffer_vector e i = int4_vector_init_packed (ex_values e ! i) (Some (ex_validity e ! i)) 0"

definition build_scalar_vector ::
  "(node \<Rightarrow> 'c \<Rightarrow> datum option result) \<Rightarrow> 'p batch \<Rightarrow> 'c \<Rightarrow> node \<Rightarrow> 'c batch_expr \<Rightarrow>
     ('c batch_expr \<times> int4_vector) result" where
  "build_scalar_vector ev b econtext scalar_value e =
     (let nrows = sel_nrows (b_selection b);
          e1 = ensure_capacity nrows e;
          e2 = e1\<lparr>ex_validity := (ex_validity e1)[0 := clear_validity nrows (ex_validity e1 ! 0)]\<rparr>
      in if \<not> batch_has_rows b then Inr (e2, buffer_vector e2 0)
         else rbind (ev scalar_value econtext) (\<lambda>datum.
           case datum of
             None \<Rightarrow> Inr (e2, buffer_vector e2 0)
           | Some d \<Rightarrow>
               let (vs, va) = fold (\<lambda>word.
                     fold (\<lambda>bitno (vs, va).
                       let row = word * 64 + bitno
                       in (vs[row := datum_get_int32 d],
                           va[row div 8 := (va ! (row div 8)) OR push_bit (row mod 8) 1]))
                     (word_rows (batch_selection_word b word)))
                   [0..<nat (sel_nwords (b_selection b))] (ex_values e2 ! 0, ex_validity e2 ! 0);
                   e3 = e2\<lparr>ex_values := (ex_values e2)[0 := vs], ex_validity := (ex_validity e2)[0 := va]\<rparr>
               in Inr (e3, buffer_vector e3 0)))"

text \<open>One arithmetic step reads \<open>input\<close> and writes the buffer \<open>buf\<close>.\<close>

definition run_step ::
  "(node \<Rightarrow> 'c \<Rightarrow> datum option result) \<Rightarrow> 'p batch \<Rightarrow> 'c \<Rightarrow> arithmetic_step \<Rightarrow>
     'c batch_expr \<times> int4_vector \<times> nat \<Rightarrow> ('c batch_expr \<times> int4_vector \<times> nat) result" where
  "run_step ev b econtext step = (\<lambda>(e, input, buf).
     rbind (case step_scalar step of
              Some scalar \<Rightarrow> if batch_has_rows b then ev scalar econtext
                             else Inr (Some (int32_get_datum 0))
            | None \<Rightarrow> Inr (Some (int32_get_datum 0))) (\<lambda>scalar.
     rbind (case scalar of
              None \<Rightarrow> Inr (ex_values e ! buf,
                  clear_validity (sel_nrows (b_selection b)) (ex_validity e ! buf))
            | Some d \<Rightarrow> int4_arithmetic_scalar input (b_selection b) (step_op step)
                  (datum_get_int32 d) (step_scalar_on_left step)
                  (ex_values e ! buf) (ex_validity e ! buf)) (\<lambda>(vs, va).
     let e' = e\<lparr>ex_values := (ex_values e)[buf := vs], ex_validity := (ex_validity e)[buf := va]\<rparr>
     in Inr (e', buffer_vector e' buf, 1 - buf))))"

definition expr_get_int4 ::
  "(node \<Rightarrow> 'c \<Rightarrow> datum option result) \<Rightarrow> 'p native_cache \<Rightarrow> 'p batch \<Rightarrow> 'c batch_expr \<Rightarrow>
     ('p batch \<times> 'c batch_expr \<times> int4_vector) result \<times> 'p native_cache" where
  "expr_get_int4 ev c b e =
     (case (if ex_bound e then ex_econtext e else None) of
        None \<Rightarrow> (Inl (Elog ''pg_batch expression is not bound to a batch''), c)
      | Some econtext \<Rightarrow>
          if ex_result_ready e then (Inr (b, e, ex_result e), c)
          else
            (let (fetched, c') =
               (case ex_scalar_value e of
                  Some scalar_value \<Rightarrow>
                    (rbind (build_scalar_vector ev b econtext scalar_value e)
                       (\<lambda>(e', input). Inr (b, e', input)), c)
                | None \<Rightarrow>
                    (case column_access_init (Some b) (ex_column_mask e) (Some (b_selection b)) (ex_phase e) of
                       Inl err \<Rightarrow> (Inl err, c)
                     | Inr access \<Rightarrow>
                         (case column_get_int4 c access (ex_column e) of
                            (Inl err, c') \<Rightarrow> (Inl err, c')
                          | (Inr (access', input), c') \<Rightarrow> (Inr (acc_batch access', e, input), c'))))
             in (rbind fetched (\<lambda>(b', e', input).
                 let e1 = (if ex_steps e' \<noteq> [] then ensure_capacity (sel_nrows (b_selection b')) e' else e')
                 in rbind (rfold (run_step ev b' econtext) (ex_steps e1) (e1, input, 0))
                      (\<lambda>(e2, result, _).
                    Inr (b', e2\<lparr>ex_result := result, ex_result_ready := True\<rparr>, result))), c')))"

definition expr_apply_filter ::
  "simd_target \<Rightarrow> (node \<Rightarrow> 'c \<Rightarrow> datum option result) \<Rightarrow> 'p native_cache \<Rightarrow> bool \<Rightarrow>
     'p batch \<Rightarrow> 'c batch_expr \<Rightarrow> ('p batch \<times> 'c batch_expr) result \<times> 'p native_cache" where
  "expr_apply_filter target ev c enable_simd b e =
     (if \<not> ex_is_filter e
      then (Inl (Elog ''pg_batch value expression cannot be used as a filter''), c)
      else if \<not> batch_has_rows b then (Inr (b, e), c)
      else
        (case expr_get_int4 ev c b e of
           (Inl err, c') \<Rightarrow> (Inl err, c')
         | (Inr (b', e', val), c') \<Rightarrow>
             (case (ex_comparison_scalar e', ex_econtext e') of
                (Some scalar_node, Some econtext) \<Rightarrow>
                  (rbind (ev scalar_node econtext) (\<lambda>scalar.
                     case scalar of
                       None \<Rightarrow>
                         (let s = b_selection b' in
                          Inr (b'\<lparr>b_selection := s\<lparr>sel_words :=
                                 replicate (nat (sel_nwords s)) 0 @ drop (nat (sel_nwords s)) (sel_words s)\<rparr>\<rparr>, e'))
                     | Some d \<Rightarrow>
                         Inr (b'\<lparr>b_selection := filter_int4 target val (b_selection b')
                                (ex_comparison e') (datum_get_int32 d) enable_simd\<rparr>, e')), c')
              | _ \<Rightarrow> (Inl (Elog ''call through a null expression state''), c'))))"

end
