(* ===== verification/Expr_Correct.thy ===== *)
theory Expr_Correct
  imports Expr
begin

text \<open>
  Correctness of batch expressions: compiling an expression tree and running its
  steps over a batch gives, for every selected row, what evaluating the tree on
  that row gives, and it fails exactly when the evaluation of some selected row
  fails.  The reported error may belong to another row or operand than the first
  one of a row-by-row evaluation, because the batch runs each step over all rows and
  evaluates the operand with the column first; it is always the error of some operand
  or operator of the tree on some selected row (\<open>row_errors\<close>).
\<close>

section \<open>Row-by-row evaluation\<close>

fun strict_apply :: "arithmetic_op \<Rightarrow> int4 option list \<Rightarrow> int4 option result" where
  "strict_apply op [Some a] = rbind (int4_arithmetic a 0 op) (\<lambda>r. Inr (Some r))"
| "strict_apply op [Some a, Some b] = rbind (int4_arithmetic a b op) (\<lambda>r. Inr (Some r))"
| "strict_apply op _ = Inr None"

definition int4_datum :: "datum option result \<Rightarrow> int4 option result" where
  "int4_datum m = rbind m (\<lambda>d. Inr (map_option datum_get_int32 d))"

fun row_value :: "(node \<Rightarrow> datum option result) \<Rightarrow> (var_node \<Rightarrow> int4 option) \<Rightarrow> node \<Rightarrow> int4 option result"
  and row_args :: "(node \<Rightarrow> datum option result) \<Rightarrow> (var_node \<Rightarrow> int4 option) \<Rightarrow> node list \<Rightarrow>
    int4 option list result" where
  "row_value ev col (RelabelType n) = row_value ev col n"
| "row_value ev col (Var v) = Inr (col v)"
| "row_value ev col (OpExpr f t args) =
     rbind (row_args ev col args) (\<lambda>vs.
       case arithmetic_op_of f (length args) of
         None \<Rightarrow> Inl (Elog ''unsupported operator'')
       | Some op \<Rightarrow> strict_apply op vs)"
| "row_value ev col n = int4_datum (ev n)"
| "row_args ev col [] = Inr []"
| "row_args ev col (n # ns) =
     rbind (row_value ev col n) (\<lambda>v. rbind (row_args ev col ns) (\<lambda>vs. Inr (v # vs)))"

text \<open>
  The errors the evaluation of the tree on a row can meet, whatever the order in which
  the operands of an operator are evaluated: those of its operands, and that of the
  operator itself where all operands have a value.
\<close>

fun row_errors :: "(node \<Rightarrow> datum option result) \<Rightarrow> (var_node \<Rightarrow> int4 option) \<Rightarrow> node \<Rightarrow> pg_error list" where
  "row_errors ev col (RelabelType n) = row_errors ev col n"
| "row_errors ev col (Var v) = []"
| "row_errors ev col (OpExpr f t args) =
     concat (map (row_errors ev col) args) @
     (case row_args ev col args of
        Inl _ \<Rightarrow> []
      | Inr vs \<Rightarrow>
          (case (case arithmetic_op_of f (length args) of
                   None \<Rightarrow> Inl (Elog ''unsupported operator'')
                 | Some op \<Rightarrow> strict_apply op vs) of
             Inl e \<Rightarrow> [e] | Inr _ \<Rightarrow> []))"
| "row_errors ev col n = (case int4_datum (ev n) of Inl e \<Rightarrow> [e] | Inr _ \<Rightarrow> [])"

lemma row_value_error:
  "row_value ev col n = Inl e \<Longrightarrow> e \<in> set (row_errors ev col n)"
  "row_args ev col ns = Inl e \<Longrightarrow> \<exists>n\<in>set ns. e \<in> set (row_errors ev col n)"
  by (induction ev col n and ev col ns arbitrary: e and e rule: row_value_row_args.induct)
    (auto simp: rbind_def split: sum.splits option.splits)

lemma row_args_failed:
  "\<lbrakk>n \<in> set ns; row_value ev col n = Inl e\<rbrakk> \<Longrightarrow> \<exists>e'. row_args ev col ns = Inl e'"
  by (induction ns) (auto simp: rbind_def split: sum.splits)

lemma row_errors_fail:
  "e \<in> set (row_errors ev col n) \<Longrightarrow> \<exists>e'. row_value ev col n = Inl e'"
proof (induction ev col n arbitrary: e rule: row_errors.induct)
  case (3 ev col f t args)
  show ?case
  proof (cases "row_args ev col args")
    case (Inl e')
    then show ?thesis by simp
  next
    case (Inr vs)
    have "row_errors ev col a = []" if "a \<in> set args" for a
    proof (rule ccontr)
      assume "row_errors ev col a \<noteq> []"
      then obtain e' where "e' \<in> set (row_errors ev col a)" by (metis list.set_intros(1) neq_Nil_conv)
      with 3(1) [OF that] obtain e'' where "row_value ev col a = Inl e''" by blast
      from row_args_failed [OF that this] Inr show False by simp
    qed
    with 3(2) Inr show ?thesis by (auto split: sum.splits intro: sym)
  qed
qed (auto split: sum.splits intro: sym)

text \<open>
  What is assumed of PostgreSQL's executor: on an int4 expression without columns
  it computes what its int4 functions compute, strictly and from the leaves up.
\<close>

definition executor_ok :: "(node \<Rightarrow> datum option result) \<Rightarrow> bool" where
  "executor_ok ev \<longleftrightarrow>
     (\<forall>n col. analyze_value 0 n = Some 0 \<longrightarrow> int4_datum (ev n) = row_value ev col n)"

text \<open>Two results agree when both fail or both return the same value.\<close>

definition agree :: "'a result \<Rightarrow> 'a result \<Rightarrow> bool" where
  "agree a b \<longleftrightarrow> (\<forall>v. a = Inr v \<longleftrightarrow> b = Inr v)"

lemma agree_refl [simp]: "agree a a"
  by (simp add: agree_def)

lemma agree_Inr_iff: "agree a (Inr v) \<longleftrightarrow> a = Inr v"
  unfolding agree_def by (metis sum.inject(2))

lemma agree_sym: "agree a b \<Longrightarrow> agree b a"
  by (simp add: agree_def)

lemma agree_trans: "agree a b \<Longrightarrow> agree b c \<Longrightarrow> agree a c"
  by (simp add: agree_def)

lemma agree_rbind: "agree a b \<Longrightarrow> (\<And>x. agree (f x) (g x)) \<Longrightarrow> agree (rbind a f) (rbind b g)"
  unfolding agree_def rbind_Inr_iff by blast

lemma agree_swap:
  "agree (rbind a (\<lambda>x. rbind b (\<lambda>y. f x y))) (rbind b (\<lambda>y. rbind a (\<lambda>x. f x y)))"
  by (cases a; cases b) (auto simp: agree_def)

text \<open>A result that agrees with the tree, and whose error is one the tree can meet.\<close>

definition tree_agrees ::
  "(node \<Rightarrow> datum option result) \<Rightarrow> (var_node \<Rightarrow> int4 option) \<Rightarrow> node \<Rightarrow> int4 option result \<Rightarrow> bool" where
  "tree_agrees ev col n x \<longleftrightarrow>
     agree (row_value ev col n) x \<and> (\<forall>e. x = Inl e \<longrightarrow> e \<in> set (row_errors ev col n))"

section \<open>The value of a chain of steps\<close>

definition step_value ::
  "(node \<Rightarrow> datum option result) \<Rightarrow> arithmetic_step \<Rightarrow> int4 option \<Rightarrow> int4 option result" where
  "step_value ev step x =
     rbind (case step_scalar step of
              Some scalar \<Rightarrow> int4_datum (ev scalar) | None \<Rightarrow> Inr (Some 0)) (\<lambda>k.
       case (k, x) of
         (Some k, Some v) \<Rightarrow>
           rbind (int4_arithmetic (if step_scalar_on_left step then k else v)
                    (if step_scalar_on_left step then v else k) (step_op step)) (\<lambda>r. Inr (Some r))
       | _ \<Rightarrow> Inr None)"

definition steps_value ::
  "(node \<Rightarrow> datum option result) \<Rightarrow> arithmetic_step list \<Rightarrow> int4 option \<Rightarrow> int4 option result" where
  "steps_value ev steps x = rfold (step_value ev) steps x"

lemma steps_value_snoc:
  "steps_value ev (steps @ [st]) x = rbind (steps_value ev steps x) (step_value ev st)"
proof -
  have "rfold f [st] = f st" for f :: "arithmetic_step \<Rightarrow> int4 option \<Rightarrow> int4 option result"
    by (rule ext) (simp add: rbind_def split: sum.splits)
  then show ?thesis by (simp add: steps_value_def rfold_append)
qed

subsection \<open>Analysis\<close>

lemma analyze_args_ge: "analyze_args relid args vars = Some k \<Longrightarrow> vars \<le> k"
proof (induction args arbitrary: vars)
  case (Cons a args)
  then obtain j where "analyze_args relid args (vars + j) = Some k"
    by (auto split: option.splits if_splits)
  with Cons.IH [of "vars + j"] show ?case by simp
qed simp

lemma analyze_args_zero:
  "analyze_args relid args 0 = Some 0 \<Longrightarrow> \<forall>a\<in>set args. analyze_value relid a = Some 0"
proof (induction args)
  case (Cons a args)
  then obtain j where j: "analyze_value relid a = Some j" "analyze_args relid args j = Some 0"
    by (auto split: option.splits if_splits)
  with analyze_args_ge [OF j(2)] Cons.IH show ?case by simp
qed simp

lemma analyze_value_le_1:
  "analyze_value relid n = Some k \<Longrightarrow> k \<le> 1"
  "analyze_args relid args vars = Some k' \<Longrightarrow> vars \<le> 1 \<Longrightarrow> k' \<le> 1"
  by (induction relid n and relid args vars arbitrary: k and k' rule: analyze_value_analyze_args.induct)
    (auto split: option.splits if_splits)

lemma analyze_strip: "analyze_value relid (strip_relabel n) = analyze_value relid n"
  by (induction n) auto

lemma row_value_strip: "row_value ev col (strip_relabel n) = row_value ev col n"
  by (induction n) auto

subsection \<open>Compilation\<close>

text \<open>A compiled column expression: the fields that describe the chain.\<close>

definition compiled_column ::
  "(var_node \<Rightarrow> int) \<Rightarrow> (node \<Rightarrow> datum option result) \<Rightarrow> node \<Rightarrow> 'c batch_expr \<Rightarrow> 'c batch_expr \<Rightarrow> bool" where
  "compiled_column resolve ev n e e' \<longleftrightarrow>
     (\<exists>v steps. 0 \<le> resolve v \<and> e' = e\<lparr>ex_column := resolve v, ex_steps := ex_steps e @ steps\<rparr> \<and>
        (\<forall>col. tree_agrees ev col n (steps_value ev steps (col v))))"

lemma compiled_columnI:
  assumes "compiled_column resolve ev a e e'"
    and "\<And>col x. tree_agrees ev col a x \<Longrightarrow> tree_agrees ev col n (rbind x (step_value ev
      \<lparr>step_op = op, step_scalar = scalar, step_scalar_on_left = on_left\<rparr>))"
  shows "compiled_column resolve ev n e (append_step op scalar on_left e')"
proof -
  let ?st = "\<lparr>step_op = op, step_scalar = scalar, step_scalar_on_left = on_left\<rparr>"
  from assms(1) obtain v steps where v: "0 \<le> resolve v"
    "e' = e\<lparr>ex_column := resolve v, ex_steps := ex_steps e @ steps\<rparr>"
    "\<And>col. tree_agrees ev col a (steps_value ev steps (col v))"
    by (auto simp: compiled_column_def)
  have "append_step op scalar on_left e' = e\<lparr>ex_column := resolve v, ex_steps := ex_steps e @ (steps @ [?st])\<rparr>"
    by (simp add: v(2) append_step_def)
  moreover have "tree_agrees ev col n (steps_value ev (steps @ [?st]) (col v))" for col
    unfolding steps_value_snoc by (rule assms(2) [OF v(3)])
  ultimately show ?thesis using v(1) unfolding compiled_column_def by blast
qed

lemma unary_step_agree:
  assumes "tree_agrees ev col a x" "arithmetic_op_of f 1 = Some op"
  shows "tree_agrees ev col (OpExpr f t [a]) (rbind x (step_value ev
      \<lparr>step_op = op, step_scalar = None, step_scalar_on_left = False\<rparr>))"
proof -
  have step: "strict_apply op [v] = step_value ev \<lparr>step_op = op, step_scalar = None, step_scalar_on_left = False\<rparr> v" for v
    by (cases v) (simp_all add: step_value_def)
  then have "row_value ev col (OpExpr f t [a]) = rbind (row_value ev col a)
      (step_value ev \<lparr>step_op = op, step_scalar = None, step_scalar_on_left = False\<rparr>)"
    using assms(2) by (auto simp: rbind_def split: sum.splits)
  moreover have "e \<in> set (row_errors ev col (OpExpr f t [a]))"
    if "rbind x (step_value ev \<lparr>step_op = op, step_scalar = None, step_scalar_on_left = False\<rparr>) = Inl e" for e
    using assms that by (cases x) (auto simp: tree_agrees_def agree_Inr_iff step [symmetric])
  ultimately show ?thesis using assms(1) by (simp add: tree_agrees_def agree_rbind)
qed

lemma binary_row_value:
  assumes "arithmetic_op_of f 2 = Some op"
  shows "row_value ev col (OpExpr f t [a, b]) =
    rbind (row_value ev col a) (\<lambda>x. rbind (row_value ev col b) (\<lambda>y. strict_apply op [x, y]))"
  using assms by (auto simp: rbind_def numeral_2_eq_2 split: sum.splits)

lemma strict_apply_step:
  "(case (Some k, x) of (Some k, Some v) \<Rightarrow> rbind (int4_arithmetic v k op) (\<lambda>r. Inr (Some r)) | _ \<Rightarrow> Inr None) =
     strict_apply op [x, Some k]"
  by (cases x) simp_all

lemma right_scalar_agree:
  assumes "tree_agrees ev col a x" "arithmetic_op_of f 2 = Some op" "executor_ok ev"
    and "analyze_value 0 b = Some 0"
  shows "tree_agrees ev col (OpExpr f t [a, b]) (rbind x (step_value ev
      \<lparr>step_op = op, step_scalar = Some b, step_scalar_on_left = False\<rparr>))"
proof -
  have "int4_datum (ev b) = row_value ev col b"
    using assms(3,4) by (simp add: executor_ok_def)
  then have step: "step_value ev \<lparr>step_op = op, step_scalar = Some b, step_scalar_on_left = False\<rparr> v =
      rbind (row_value ev col b) (\<lambda>y. strict_apply op [v, y])" for v
    by (cases v; cases "row_value ev col b") (auto simp: step_value_def split: option.splits)
  have "agree (row_value ev col a) x" using assms(1) by (simp add: tree_agrees_def)
  then have "agree (row_value ev col (OpExpr f t [a, b]))
      (rbind x (step_value ev \<lparr>step_op = op, step_scalar = Some b, step_scalar_on_left = False\<rparr>))"
    unfolding binary_row_value [OF assms(2)] step [abs_def] by (intro agree_rbind) simp_all
  moreover have "e \<in> set (row_errors ev col (OpExpr f t [a, b]))"
    if "rbind x (step_value ev \<lparr>step_op = op, step_scalar = Some b, step_scalar_on_left = False\<rparr>) = Inl e" for e
    using assms(1,2) that row_value_error(1) [of ev col b e]
    by (cases x; cases "row_value ev col b")
      (auto simp: tree_agrees_def agree_Inr_iff step numeral_2_eq_2)
  ultimately show ?thesis by (simp add: tree_agrees_def)
qed

lemma left_scalar_agree:
  assumes "tree_agrees ev col b x" "arithmetic_op_of f 2 = Some op" "executor_ok ev"
    and "analyze_value 0 a = Some 0"
  shows "tree_agrees ev col (OpExpr f t [a, b]) (rbind x (step_value ev
      \<lparr>step_op = op, step_scalar = Some a, step_scalar_on_left = True\<rparr>))"
proof -
  have "int4_datum (ev a) = row_value ev col a"
    using assms(3,4) by (simp add: executor_ok_def)
  then have step: "step_value ev \<lparr>step_op = op, step_scalar = Some a, step_scalar_on_left = True\<rparr> v =
      rbind (row_value ev col a) (\<lambda>y. strict_apply op [y, v])" for v
    by (cases v; cases "row_value ev col a") (auto simp: step_value_def split: option.splits)
  have "agree (row_value ev col (OpExpr f t [a, b]))
      (rbind (row_value ev col b) (\<lambda>y. rbind (row_value ev col a) (\<lambda>x. strict_apply op [x, y])))"
    unfolding binary_row_value [OF assms(2)] by (rule agree_swap)
  moreover have "agree \<dots> (rbind x (step_value ev
      \<lparr>step_op = op, step_scalar = Some a, step_scalar_on_left = True\<rparr>))"
    using assms(1) by (simp add: tree_agrees_def step agree_rbind)
  ultimately have "agree (row_value ev col (OpExpr f t [a, b]))
      (rbind x (step_value ev \<lparr>step_op = op, step_scalar = Some a, step_scalar_on_left = True\<rparr>))"
    by (rule agree_trans)
  moreover have "e \<in> set (row_errors ev col (OpExpr f t [a, b]))"
    if "rbind x (step_value ev \<lparr>step_op = op, step_scalar = Some a, step_scalar_on_left = True\<rparr>) = Inl e" for e
    using assms(1,2) that row_value_error(1) [of ev col a e]
    by (cases x; cases "row_value ev col a")
      (auto simp: tree_agrees_def agree_Inr_iff step numeral_2_eq_2)
  ultimately show ?thesis by (simp add: tree_agrees_def)
qed

lemma compile_value_scalar:
  "analyze_value 0 n = Some 0 \<Longrightarrow>
     compile_value resolve n e = Inr (e\<lparr>ex_scalar_value := Some (strip_relabel n)\<rparr>)"
  by (induction resolve n e rule: compile_value.induct) (auto split: if_splits)

lemma analyze_opexpr:
  assumes "analyze_value 0 (OpExpr f t args) = Some 1"
  obtains (unary) a op where "args = [a]" "arithmetic_op_of f 1 = Some op" "analyze_value 0 a = Some 1"
  | (left) a b op where "args = [a, b]" "arithmetic_op_of f 2 = Some op"
      "analyze_value 0 a = Some 1" "analyze_value 0 b = Some 0"
  | (right) a b op where "args = [a, b]" "arithmetic_op_of f 2 = Some op"
      "analyze_value 0 a = Some 0" "analyze_value 0 b = Some 1"
proof -
  from assms obtain op where op: "arithmetic_op_of f (length args) = Some op"
    and args: "analyze_args 0 args 0 = Some 1" by (auto split: if_splits)
  then have len: "length args = 1 \<or> length args = 2"
    by (auto simp: arithmetic_op_of_def split: if_splits option.splits)
  show thesis
  proof (cases "length args = 1")
    case True
    then obtain a where "args = [a]" by (auto simp: length_Suc_conv)
    with op args unary show thesis by (auto split: option.splits if_splits)
  next
    case False
    with len have "length args = 2" by blast
    then obtain a b where ab: "args = [a, b]" by (auto simp: length_Suc_conv numeral_2_eq_2)
    then obtain i j where "analyze_value 0 a = Some i" "analyze_value 0 b = Some j" "i + j = 1"
      using args by (auto split: option.splits if_splits)
    then have "analyze_value 0 a = Some 1 \<and> analyze_value 0 b = Some 0 \<or>
        analyze_value 0 a = Some 0 \<and> analyze_value 0 b = Some 1" by (cases i) auto
    with op ab left right show thesis by (auto simp: numeral_2_eq_2)
  qed
qed

lemma compile_value_column:
  "compile_value resolve n e = Inr e' \<Longrightarrow> analyze_value 0 n = Some 1 \<Longrightarrow> executor_ok ev \<Longrightarrow>
     compiled_column resolve ev n e e'"
proof (induction resolve n e arbitrary: e' rule: compile_value.induct)
  case (1 resolve n e)
  then have "compiled_column resolve ev n e e'" by simp
  then show ?case by (simp add: compiled_column_def tree_agrees_def)
next
  case (2 resolve v e)
  then have "e' = e\<lparr>ex_column := resolve v, ex_steps := ex_steps e @ []\<rparr>" "0 \<le> resolve v"
    by (auto simp: Let_def split: if_splits)
  moreover have "tree_agrees ev col (Var v) (steps_value ev [] (col v))" for col
    by (simp add: steps_value_def tree_agrees_def)
  ultimately show ?case unfolding compiled_column_def by blast
next
  case (3 resolve f t args e)
  from 3(5) show ?case
  proof (cases rule: analyze_opexpr)
    case (unary a op)
    with 3(4,5) obtain e1 where e1: "compile_value resolve a e = Inr e1" "e' = append_step op None False e1"
      by (auto simp: rbind_Inr_iff)
    have "compiled_column resolve ev a e e1"
      using 3(1) [OF 3(5) one_neq_zero _ unary(1) refl e1(1) unary(3) 3(6), of op] unary by simp
    with e1(2) show ?thesis
      using unary_step_agree [of ev _ a _ f op] unary(1,2) by (auto intro!: compiled_columnI)
  next
    case (left a b op)
    with 3(4,5) obtain e1 where e1: "compile_value resolve a e = Inr e1" "e' = append_step op (Some b) False e1"
      by (auto simp: rbind_Inr_iff numeral_2_eq_2)
    have "compiled_column resolve ev a e e1"
      using 3(2) [OF 3(5) one_neq_zero _ left(1) refl refl left(3) e1(1) left(3) 3(6), of op] left
      by (simp add: numeral_2_eq_2)
    with e1(2) left(1) show ?thesis
      using right_scalar_agree [OF _ left(2) 3(6) left(4)] by (auto intro!: compiled_columnI)
  next
    case (right a b op)
    with 3(4,5) obtain e1 where e1: "compile_value resolve b e = Inr e1" "e' = append_step op (Some a) True e1"
      by (auto simp: rbind_Inr_iff numeral_2_eq_2)
    have "compiled_column resolve ev b e e1"
      using 3(3) [OF 3(5) one_neq_zero _ right(1) refl refl _ e1(1) right(4) 3(6), of op] right
      by (simp add: numeral_2_eq_2)
    with e1(2) right(1) show ?thesis
      using left_scalar_agree [OF _ right(2) 3(6) right(3)] by (auto intro!: compiled_columnI)
  qed
qed (auto split: if_splits)

end
