(* ===== verification/Expr_Run.thy ===== *)
theory Expr_Run
  imports Expr_Correct
begin

text \<open>
  Running a compiled expression over a batch: the buffers are large enough, each
  step transforms the vector row by row, fetching the column leaves the selection
  alone, and together with \<open>Expr_Correct\<close> the result is the row-by-row value of the
  expression tree.
\<close>

section \<open>Buffers\<close>

definition buffer_covers :: "'c batch_expr \<Rightarrow> nat \<Rightarrow> nat \<Rightarrow> bool" where
  "buffer_covers e n i \<longleftrightarrow> i < length (ex_values e) \<and> i < length (ex_validity e) \<and>
     packed_covers (ex_values e ! i, ex_validity e ! i) n"

definition expr_wf :: "'c batch_expr \<Rightarrow> bool" where
  "expr_wf e \<longleftrightarrow> 0 \<le> ex_capacity e \<and> length (ex_values e) = 2 \<and> length (ex_validity e) = 2 \<and>
     (\<forall>i < (if length (ex_steps e) > 1 then 2 else 1). buffer_covers e (nat (ex_capacity e)) i)"

lemma length_resize_buffer [simp]: "length (resize_buffer n xs) = n"
  by (simp add: resize_buffer_def)

lemma ensure_capacity_covers:
  assumes "expr_wf e" "i < (if length (ex_steps e) > 1 then 2 else 1)"
  shows "buffer_covers (ensure_capacity nrows e) (nat nrows) i"
proof (cases "nrows \<le> ex_capacity e")
  case True
  then show ?thesis
    using assms by (auto simp: expr_wf_def ensure_capacity_def buffer_covers_def packed_covers_def)
next
  case False
  have "nat nrows \<le> 8 * nat ((nrows + 7) div 8)" by linarith
  with False assms show ?thesis
    by (auto simp: expr_wf_def ensure_capacity_def buffer_covers_def packed_covers_def Let_def
        nth_append min_def split: if_splits)
qed

lemma ensure_capacity_fields [simp]:
  "ex_steps (ensure_capacity n e) = ex_steps e"
  "ex_comparison (ensure_capacity n e) = ex_comparison e"
  "ex_comparison_scalar (ensure_capacity n e) = ex_comparison_scalar e"
  "ex_econtext (ensure_capacity n e) = ex_econtext e"
  by (simp_all add: ensure_capacity_def Let_def)

lemma batch_has_rows_selected:
  assumes "sel_wf (b_selection b)"
  shows "batch_has_rows b \<longleftrightarrow> selected (b_selection b) \<noteq> []"
proof -
  let ?s = "b_selection b"
  have "batch_has_rows b \<longleftrightarrow> (\<exists>k<nat (sel_nwords ?s). sel_words ?s ! k \<noteq> 0)"
    by (auto simp: batch_has_rows_def Let_def list_ex_iff)
  also have "\<dots> \<longleftrightarrow> selected ?s \<noteq> []"
    unfolding selected_concat_words [OF assms] by auto
  finally show ?thesis .
qed

section \<open>One step\<close>

text \<open>What a transformation of vectors does to the selected rows.\<close>

definition maps_rows ::
  "selection \<Rightarrow> (int4 option \<Rightarrow> int4 option result) \<Rightarrow> int4_vector \<Rightarrow> int4_vector result \<Rightarrow> bool" where
  "maps_rows s f input out \<longleftrightarrow>
     (case out of
        Inr v \<Rightarrow> vec_wf v (nat (sel_nrows s)) \<and>
          (\<forall>r\<in>set (selected s). f (vec_get input r) = Inr (vec_get v r))
      | Inl err \<Rightarrow> \<exists>r\<in>set (selected s). f (vec_get input r) = Inl err)"

lemma maps_rows_comp:
  assumes "maps_rows s f input (Inr v)" "maps_rows s g v out"
  shows "maps_rows s (\<lambda>x. rbind (f x) g) input out"
  using assms by (auto simp: maps_rows_def split: sum.splits)

lemma maps_rows_id: "vec_wf v (nat (sel_nrows s)) \<Longrightarrow> maps_rows s Inr v (Inr v)"
  by (simp add: maps_rows_def)

lemma maps_rows_fail_first:
  assumes "maps_rows s f input (Inl err)"
  shows "maps_rows s (\<lambda>x. rbind (f x) g) input (Inl err)"
proof -
  from assms obtain r where "r \<in> set (selected s)" "f (vec_get input r) = Inl err"
    by (auto simp: maps_rows_def)
  then show ?thesis by (auto simp: maps_rows_def intro!: bexI [of _ r])
qed

lemma clear_validity_covers:
  "packed_covers (vs, va) n \<Longrightarrow> packed_covers (vs, clear_validity (int n) va) n"
  by (auto simp: packed_covers_def clear_validity_def Let_def)

lemma packed_get_clear: "r < n \<Longrightarrow> packed_get (vs, clear_validity (int n) va) r = None"
  unfolding clear_validity_def Let_def by (rule packed_get_zeroed) linarith

lemma buffer_vector_packed:
  "buffer_vector e i = packed_result (ex_values e ! i, ex_validity e ! i)"
  by (simp add: buffer_vector_def packed_result_def)

definition row_bounds :: "'p batch \<Rightarrow> bool" where
  "row_bounds b \<longleftrightarrow> sel_wf (b_selection b) \<and> sel_nrows (b_selection b) \<le> 2 ^ 31"

text \<open>The arrays a step leaves in its buffer.\<close>

definition step_output ::
  "(node \<Rightarrow> 'c \<Rightarrow> datum option result) \<Rightarrow> 'p batch \<Rightarrow> 'c \<Rightarrow> arithmetic_step \<Rightarrow> int4_vector \<Rightarrow>
     int4 list \<times> 8 word list \<Rightarrow> (int4 list \<times> 8 word list) result" where
  "step_output ev b econtext step input out =
     rbind (case step_scalar step of
              Some scalar \<Rightarrow> if batch_has_rows b then ev scalar econtext
                             else Inr (Some (int32_get_datum 0))
            | None \<Rightarrow> Inr (Some (int32_get_datum 0))) (\<lambda>scalar.
     case scalar of
       None \<Rightarrow> Inr (fst out, clear_validity (sel_nrows (b_selection b)) (snd out))
     | Some d \<Rightarrow> int4_arithmetic_scalar input (b_selection b) (step_op step)
           (datum_get_int32 d) (step_scalar_on_left step) (fst out) (snd out))"

lemma run_step_output:
  "run_step ev b econtext step (e, input, buf) =
     rbind (step_output ev b econtext step input (ex_values e ! buf, ex_validity e ! buf)) (\<lambda>(vs, va).
       let e' = e\<lparr>ex_values := (ex_values e)[buf := vs], ex_validity := (ex_validity e)[buf := va]\<rparr>
       in Inr (e', buffer_vector e' buf, 1 - buf))"
  by (auto simp: run_step_def step_output_def rbind_def split: sum.splits option.splits)

definition output_rows ::
  "selection \<Rightarrow> (int4 option \<Rightarrow> int4 option result) \<Rightarrow> int4_vector \<Rightarrow>
     (int4 list \<times> 8 word list) result \<Rightarrow> bool" where
  "output_rows s f input out \<longleftrightarrow>
     (case out of
        Inr o' \<Rightarrow> packed_covers o' (nat (sel_nrows s)) \<and>
          (\<forall>r\<in>set (selected s). f (vec_get input r) = Inr (packed_get o' r))
      | Inl err \<Rightarrow> \<exists>r\<in>set (selected s). f (vec_get input r) = Inl err)"

lemma arithmetic_output_rows:
  assumes "sel_wf s" "packed_covers out (nat (sel_nrows s))"
    and "\<And>r. r \<in> set (selected s) \<Longrightarrow> f (vec_get input r) = arithmetic_value input op k on_left r"
  shows "output_rows s f input (int4_arithmetic_scalar input s op k on_left (fst out) (snd out))"
  using int4_arithmetic_scalar_cases [OF assms(1), of "fst out" "snd out" input op k on_left] assms(2,3)
  by (auto simp: output_rows_def packed_covers_def set_selected split: sum.splits)

lemma step_output_rows:
  assumes "sel_wf (b_selection b)" "packed_covers out (nat (sel_nrows (b_selection b)))"
  shows "output_rows (b_selection b) (step_value (\<lambda>n. ev n econtext) step) input
    (step_output ev b econtext step input out)"
proof -
  let ?s = "b_selection b" and ?f = "step_value (\<lambda>n. ev n econtext) step"
  let ?n = "nat (sel_nrows ?s)"
  have nn: "int ?n = sel_nrows ?s" using assms(1) by (simp add: sel_wf_nonneg)
  have arith: "output_rows ?s ?f input (int4_arithmetic_scalar input ?s (step_op step)
      (datum_get_int32 d) (step_scalar_on_left step) (fst out) (snd out))"
    if "\<And>r. r \<in> set (selected ?s) \<Longrightarrow> (case step_scalar step of
      Some scalar \<Rightarrow> int4_datum (ev scalar econtext) | None \<Rightarrow> Inr (Some 0)) = Inr (Some (datum_get_int32 d))" for d
    by (rule arithmetic_output_rows [OF assms])
      (simp add: that step_value_def arithmetic_value_def split: option.splits)
  show ?thesis
  proof (cases "step_scalar step")
    case None
    then show ?thesis using arith [of "int32_get_datum 0"] by (simp add: step_output_def)
  next
    case (Some sc)
    show ?thesis
    proof (cases "batch_has_rows b")
      case False
      then have "selected ?s = []" using batch_has_rows_selected [OF assms(1)] by simp
      then show ?thesis using arith [of "int32_get_datum 0"] Some False by (simp add: step_output_def)
    next
      case True
      then obtain r where r: "r \<in> set (selected ?s)"
        using batch_has_rows_selected [OF assms(1)] by (metis hd_in_set)
      show ?thesis
      proof (cases "ev sc econtext")
        case (Inl err)
        with Some True r show ?thesis
          by (auto simp: step_output_def output_rows_def step_value_def int4_datum_def)
      next
        case (Inr d)
        show ?thesis
        proof (cases d)
          case None
          have "packed_get (fst out, clear_validity (sel_nrows ?s) (snd out)) q = None"
            if "q \<in> set (selected ?s)" for q
            using that packed_get_clear [of q ?n "fst out" "snd out"] unfolding nn set_selected by blast
          moreover have "packed_covers (fst out, clear_validity (sel_nrows ?s) (snd out)) ?n"
            using clear_validity_covers [of "fst out" "snd out" ?n] assms(2) unfolding nn by simp
          ultimately show ?thesis
            using None Some True Inr
            by (auto simp: step_output_def output_rows_def step_value_def int4_datum_def)
        next
          case (Some k)
          with \<open>step_scalar step = Some sc\<close> True Inr show ?thesis
            using arith [of k] by (simp add: step_output_def int4_datum_def)
        qed
      qed
    qed
  qed
qed

text \<open>The part of the expression state that evaluation leaves alone.\<close>

definition same_shape :: "'c batch_expr \<Rightarrow> 'c batch_expr \<Rightarrow> bool" where
  "same_shape e e' \<longleftrightarrow>
     ex_comparison e' = ex_comparison e \<and> ex_comparison_scalar e' = ex_comparison_scalar e \<and>
     ex_econtext e' = ex_econtext e \<and> ex_is_filter e' = ex_is_filter e"

lemma run_step_rows:
  assumes "row_bounds b" "buffer_covers e (nat (sel_nrows (b_selection b))) buf"
  shows "case run_step ev b econtext step (e, input, buf) of
      Inl err \<Rightarrow> maps_rows (b_selection b) (step_value (\<lambda>n. ev n econtext) step) input (Inl err)
    | Inr (e', v, buf') \<Rightarrow>
        maps_rows (b_selection b) (step_value (\<lambda>n. ev n econtext) step) input (Inr v) \<and>
        buf' = 1 - buf \<and> same_shape e e' \<and>
        (\<forall>i. buffer_covers e (nat (sel_nrows (b_selection b))) i \<longrightarrow>
           buffer_covers e' (nat (sel_nrows (b_selection b))) i)"
proof -
  let ?s = "b_selection b"
  let ?out = "step_output ev b econtext step input (ex_values e ! buf, ex_validity e ! buf)"
  have wf: "sel_wf ?s" and n: "nat (sel_nrows ?s) \<le> 2 ^ 31"
    using assms(1) by (auto simp: row_bounds_def)
  have rows: "output_rows ?s (step_value (\<lambda>n. ev n econtext) step) input ?out"
    by (rule step_output_rows [OF wf]) (use assms(2) in \<open>simp add: buffer_covers_def\<close>)
  show ?thesis
  proof (cases ?out)
    case (Inl err)
    then show ?thesis using rows by (auto simp: run_step_output output_rows_def maps_rows_def)
  next
    case (Inr o')
    obtain vs va where o': "o' = (vs, va)" by (cases o')
    let ?e = "e\<lparr>ex_values := (ex_values e)[buf := vs], ex_validity := (ex_validity e)[buf := va]\<rparr>"
    have cov: "packed_covers (vs, va) (nat (sel_nrows ?s))"
      and get: "\<And>r. r \<in> set (selected ?s) \<Longrightarrow>
        step_value (\<lambda>n. ev n econtext) step (vec_get input r) = Inr (packed_get (vs, va) r)"
      using rows Inr o' by (auto simp: output_rows_def)
    have buf: "buffer_vector ?e buf = packed_result (vs, va)"
      using assms(2) by (simp add: buffer_vector_packed buffer_covers_def)
    have "maps_rows ?s (step_value (\<lambda>n. ev n econtext) step) input (Inr (packed_result (vs, va)))"
      using get vec_wf_packed_result [OF cov n] vec_get_packed_result [OF cov n]
      by (simp add: maps_rows_def set_selected)
    moreover have "buffer_covers ?e (nat (sel_nrows ?s)) i"
      if "buffer_covers e (nat (sel_nrows ?s)) i" for i
      using that cov by (cases "i = buf") (auto simp: buffer_covers_def)
    ultimately show ?thesis
      using Inr o' buf by (simp add: run_step_output Let_def same_shape_def)
  qed
qed

section \<open>All steps\<close>

lemma steps_value_Cons:
  "steps_value ev (st # steps) x = rbind (step_value ev st x) (steps_value ev steps)"
  by (simp add: steps_value_def [abs_def])

lemma same_shape_trans: "same_shape e e' \<Longrightarrow> same_shape e' e'' \<Longrightarrow> same_shape e e''"
  by (simp add: same_shape_def)

lemma run_steps_rows:
  assumes "row_bounds b" "vec_wf input (nat (sel_nrows (b_selection b)))" "buf \<le> 1"
    and "steps \<noteq> [] \<Longrightarrow> buffer_covers e (nat (sel_nrows (b_selection b))) buf"
    and "1 < length steps \<Longrightarrow> buffer_covers e (nat (sel_nrows (b_selection b))) (1 - buf)"
  shows "case rfold (run_step ev b econtext) steps (e, input, buf) of
      Inl err \<Rightarrow> maps_rows (b_selection b) (steps_value (\<lambda>n. ev n econtext) steps) input (Inl err)
    | Inr (e', v, buf') \<Rightarrow>
        maps_rows (b_selection b) (steps_value (\<lambda>n. ev n econtext) steps) input (Inr v) \<and> same_shape e e'"
  using assms
proof (induction steps arbitrary: e input buf)
  case Nil
  then show ?case by (simp add: steps_value_def maps_rows_def same_shape_def)
next
  case (Cons st steps)
  let ?s = "b_selection b" and ?ev = "\<lambda>n. ev n econtext"
  note first = run_step_rows [OF Cons.prems(1), of e buf ev econtext st input]
  have cov: "buffer_covers e (nat (sel_nrows ?s)) buf" using Cons.prems(4) by simp
  have comp: "steps_value ?ev (st # steps) = (\<lambda>x. rbind (step_value ?ev st x) (steps_value ?ev steps))"
    by (rule ext) (rule steps_value_Cons)
  show ?case
  proof (cases "run_step ev b econtext st (e, input, buf)")
    case (Inl err)
    then show ?thesis
      unfolding comp using first [OF cov] by (simp add: maps_rows_fail_first)
  next
    case (Inr q)
    then obtain e' v buf' where q: "run_step ev b econtext st (e, input, buf) = Inr (e', v, buf')"
      by (cases q) auto
    from first [OF cov] q have step: "maps_rows ?s (step_value ?ev st) input (Inr v)" "buf' = 1 - buf"
      "same_shape e e'" "\<And>i. buffer_covers e (nat (sel_nrows ?s)) i \<Longrightarrow> buffer_covers e' (nat (sel_nrows ?s)) i"
      by auto
    have "case rfold (run_step ev b econtext) steps (e', v, buf') of
      Inl err \<Rightarrow> maps_rows ?s (steps_value ?ev steps) v (Inl err)
    | Inr (e'', v', buf'') \<Rightarrow> maps_rows ?s (steps_value ?ev steps) v (Inr v') \<and> same_shape e' e''"
      by (rule Cons.IH [OF Cons.prems(1)])
        (use step cov Cons.prems(3,5) in \<open>auto simp: maps_rows_def Suc_lessI dest!: Suc_lessI\<close>)
    then show ?thesis
      unfolding comp using q maps_rows_comp [OF step(1)] same_shape_trans [OF step(3)]
      by (auto split: sum.splits)
  qed
qed

section \<open>Fetching the column\<close>

lemma prepare_columns_selection:
  "batch_prepare_columns b cols rows phase = Inr b' \<Longrightarrow> b_selection b' = b_selection b"
  by (auto simp: batch_prepare_columns_def rbind_Inr_iff split: option.splits if_splits)

lemma access_init_selection:
  "column_access_init (Some b) cols (Some rows) phase = Inr acc \<Longrightarrow>
     b_selection (acc_batch acc) = b_selection b"
  by (auto simp: column_access_init_def rbind_Inr_iff prepare_columns_selection split: if_splits)

lemma get_datum_selection:
  "column_get_datum acc column = Inr (acc', dv) \<Longrightarrow> b_selection (acc_batch acc') = b_selection (acc_batch acc)"
  by (auto simp: column_get_datum_def batch_get_datum_column_def rbind_Inr_iff Let_def
      split: option.splits prod.splits)

lemma int4_from_datum_selection:
  "column_int4_from_datum column acc = Inr (acc', v) \<Longrightarrow>
     b_selection (acc_batch acc') = b_selection (acc_batch acc)"
  by (auto simp: column_int4_from_datum_def rbind_Inr_iff dest!: get_datum_selection split: option.splits)

lemma get_int4_selection:
  assumes "column_get_int4 c acc column = (Inr (acc', v), c')"
  shows "b_selection (acc_batch acc') = b_selection (acc_batch acc)"
  using assms
  by (auto simp: column_get_int4_def rbind_Inr_iff Let_def dest!: int4_from_datum_selection
      split: sum.splits bool.splits option.splits prod.splits if_splits)

text \<open>A batch whose column \<open>column\<close> can be read, with the values \<open>vals\<close>.\<close>

definition column_readable ::
  "'p native_cache \<Rightarrow> 'p batch \<Rightarrow> column_phase \<Rightarrow> int \<Rightarrow> (nat \<Rightarrow> int4 option) \<Rightarrow> bool" where
  "column_readable c b phase column vals \<longleftrightarrow>
     (case column_access_init (Some b) {nat column} (Some (b_selection b)) phase of
        Inl _ \<Rightarrow> False
      | Inr access \<Rightarrow>
          (case column_get_int4 c access column of
             (Inl _, _) \<Rightarrow> False
           | (Inr (access', v), _) \<Rightarrow>
               vec_wf v (nat (sel_nrows (b_selection b))) \<and>
               (\<forall>r<nat (sel_nrows (b_selection b)). vec_get v r = vals r)))"

section \<open>Scalar expressions\<close>

lemma batch_selection_word_eq:
  assumes "sel_wf (b_selection b)" "k < nat (sel_nwords (b_selection b))"
  shows "batch_selection_word b k = sel_words (b_selection b) ! k"
proof -
  let ?s = "b_selection b"
  have "batch_selection_word b k = (sel_words ?s ! k) AND word_mask (sel_nrows ?s) k"
    by (simp add: batch_selection_word_def word_mask_def Let_def)
  then show ?thesis using word_and_mask [OF assms] by simp
qed

lemma fold_selection_words:
  assumes "sel_wf (b_selection b)"
  shows "fold (\<lambda>word. fold (\<lambda>bitno. f (word * 64 + bitno)) (word_rows (batch_selection_word b word)))
      [0..<nat (sel_nwords (b_selection b))] st = fold f (selected (b_selection b)) st"
proof -
  have inner: "fold (\<lambda>bitno. f (w * 64 + bitno)) xs = fold f (map ((+) (64 * w)) xs)" for w xs
    by (rule ext, subst mult.commute, rule fold_map_comp [where g = "(+) (64 * w)"])
  have "fold (\<lambda>word. fold (\<lambda>bitno. f (word * 64 + bitno)) (word_rows (batch_selection_word b word)))
      [0..<nat (sel_nwords (b_selection b))] st =
    fold (\<lambda>word. fold f (map ((+) (64 * word)) (word_rows (sel_words (b_selection b) ! word))))
      [0..<nat (sel_nwords (b_selection b))] st"
    unfolding inner by (rule fold_cong) (auto simp: batch_selection_word_eq [OF assms])
  then show ?thesis
    by (simp add: fold_nested selected_concat_words [OF assms])
qed

lemma fill_rows:
  fixes k :: int4
  assumes "packed_covers out n" "\<forall>r\<in>set xs. r < n"
  defines "out' \<equiv> fold (\<lambda>row (vs, va).
      (vs[row := k], va[row div 8 := (va ! (row div 8)) OR push_bit (row mod 8) 1])) xs out"
  shows "packed_covers out' n \<and> (\<forall>q<n. packed_get out' q = (if q \<in> set xs then Some k else packed_get out q))"
  using assms(1,2) unfolding out'_def
proof (induction xs arbitrary: out)
  case (Cons x xs)
  obtain vs va where out: "out = (vs, va)" by (cases out)
  let ?o = "(vs[x := k], va[x div 8 := (va ! (x div 8)) OR push_bit (x mod 8) 1])"
  have "packed_covers ?o n" using Cons.prems(1) by (simp add: out packed_covers_def)
  with Cons.IH [of ?o] Cons.prems packed_get_update [of vs va n x _ k] show ?case
    by (simp add: out)
qed simp

lemma build_scalar_vector_rows:
  assumes "row_bounds b" "expr_wf e"
  shows "case build_scalar_vector ev b econtext scalar e of
      Inl err \<Rightarrow> batch_has_rows b \<and> int4_datum (ev scalar econtext) = Inl err
    | Inr (e', v) \<Rightarrow> vec_wf v (nat (sel_nrows (b_selection b))) \<and> same_shape e e' \<and>
        ex_steps e' = ex_steps e \<and>
        (\<forall>r\<in>set (selected (b_selection b)). int4_datum (ev scalar econtext) = Inr (vec_get v r))"
proof -
  let ?s = "b_selection b"
  let ?n = "nat (sel_nrows ?s)"
  define e1 where "e1 = ensure_capacity (sel_nrows ?s) e"
  define e2 where "e2 = e1\<lparr>ex_validity := (ex_validity e1)[0 := clear_validity (sel_nrows ?s) (ex_validity e1 ! 0)]\<rparr>"
  have wf: "sel_wf ?s" and n: "?n \<le> 2 ^ 31" and nn: "int ?n = sel_nrows ?s"
    using assms(1) by (auto simp: row_bounds_def sel_wf_nonneg)
  have "buffer_covers e1 ?n 0"
    unfolding e1_def by (rule ensure_capacity_covers [OF assms(2)]) simp
  then have cov: "packed_covers (ex_values e2 ! 0, ex_validity e2 ! 0) ?n" "0 < length (ex_validity e2)"
      "0 < length (ex_values e2)"
    and val: "ex_validity e2 ! 0 = clear_validity (sel_nrows ?s) (ex_validity e1 ! 0)"
    using clear_validity_covers [of _ _ ?n] unfolding nn by (auto simp: e2_def buffer_covers_def)
  have none: "packed_get (ex_values e2 ! 0, ex_validity e2 ! 0) r = None" if "r < ?n" for r
    using packed_get_clear [OF that] unfolding val nn by blast
  have shape: "same_shape e e2" "ex_steps e2 = ex_steps e"
    by (simp_all add: same_shape_def e2_def e1_def ensure_capacity_def Let_def)
  have empty: "vec_wf (buffer_vector e2 0) ?n"
    "\<And>r. r < ?n \<Longrightarrow> vec_get (buffer_vector e2 0) r = None"
    unfolding buffer_vector_packed
    using vec_wf_packed_result [OF cov(1) n] vec_get_packed_result [OF cov(1) n] none by auto
  define fill where "fill d = fold (\<lambda>row (vs, va). (vs[row := datum_get_int32 d],
        va[row div 8 := (va ! (row div 8)) OR push_bit (row mod 8) 1]))
      (selected ?s) (ex_values e2 ! 0, ex_validity e2 ! 0)" for d
  have run: "build_scalar_vector ev b econtext scalar e =
      (if \<not> batch_has_rows b then Inr (e2, buffer_vector e2 0)
       else rbind (ev scalar econtext) (\<lambda>d. case d of
           None \<Rightarrow> Inr (e2, buffer_vector e2 0)
         | Some d \<Rightarrow>
             let (vs, va) = fill d;
                 e3 = e2\<lparr>ex_values := (ex_values e2)[0 := vs], ex_validity := (ex_validity e2)[0 := va]\<rparr>
             in Inr (e3, buffer_vector e3 0)))"
    unfolding build_scalar_vector_def Let_def e1_def [symmetric] e2_def [symmetric] fill_def
    by (subst fold_selection_words [OF wf, symmetric]) simp
  have rows: "selected ?s = []" if "\<not> batch_has_rows b"
    using that batch_has_rows_selected [OF wf] by simp
  have filled: "case build_scalar_vector ev b econtext scalar e of Inl _ \<Rightarrow> False
      | Inr (e', v) \<Rightarrow> vec_wf v ?n \<and> same_shape e e' \<and> ex_steps e' = ex_steps e \<and>
          (\<forall>r\<in>set (selected ?s). vec_get v r = Some (datum_get_int32 d))"
    if "batch_has_rows b" "ev scalar econtext = Inr (Some d)" for d
  proof -
    obtain vs va where o: "fill d = (vs, va)" by (cases "fill d")
    let ?e = "e2\<lparr>ex_values := (ex_values e2)[0 := vs], ex_validity := (ex_validity e2)[0 := va]\<rparr>"
    have built: "build_scalar_vector ev b econtext scalar e = Inr (?e, buffer_vector ?e 0)"
      unfolding run using that o by (simp add: Let_def)
    have fill: "packed_covers (vs, va) ?n" "\<And>q. q < ?n \<Longrightarrow>
        packed_get (vs, va) q = (if q \<in> set (selected ?s) then Some (datum_get_int32 d)
          else packed_get (ex_values e2 ! 0, ex_validity e2 ! 0) q)"
      using fill_rows [OF cov(1), of "selected ?s" "datum_get_int32 d"]
      unfolding fill_def [of d, symmetric] o by (auto simp: set_selected)
    have "buffer_vector ?e 0 = packed_result (vs, va)"
      using cov by (simp add: buffer_vector_packed)
    moreover have "same_shape e ?e" "ex_steps ?e = ex_steps e" using shape by (simp_all add: same_shape_def)
    ultimately show ?thesis
      unfolding built
      using fill vec_wf_packed_result [OF fill(1) n] vec_get_packed_result [OF fill(1) n]
      by (auto simp: set_selected)
  qed
  show ?thesis
  proof (cases "batch_has_rows b")
    case False
    then show ?thesis using empty(1) shape rows by (simp add: run)
  next
    case True
    consider (err) err where "ev scalar econtext = Inl err" | (null) "ev scalar econtext = Inr None"
      | (val) d where "ev scalar econtext = Inr (Some d)"
      by (metis sum.exhaust option.exhaust)
    then show ?thesis
    proof cases
      case err
      then show ?thesis using True by (simp add: run int4_datum_def)
    next
      case null
      then show ?thesis using True empty shape by (simp add: run int4_datum_def set_selected)
    next
      case val
      from filled [OF True val] val show ?thesis by (auto simp: int4_datum_def split: sum.splits)
    qed
  qed
qed

section \<open>A compiled expression on a batch\<close>

text \<open>
  An expression state ready for evaluation: bound, with the compiled fields of
  \<open>e0\<close>, and buffers from any number of earlier batches.
\<close>

definition expr_ready :: "'c batch_expr \<Rightarrow> 'c \<Rightarrow> column_phase \<Rightarrow> 'c batch_expr \<Rightarrow> bool" where
  "expr_ready e0 econtext phase e \<longleftrightarrow>
     expr_wf e \<and> ex_bound e \<and> ex_econtext e = Some econtext \<and> ex_phase e = phase \<and>
     \<not> ex_result_ready e \<and> ex_column e = ex_column e0 \<and> ex_column_mask e = ex_column_mask e0 \<and>
     ex_scalar_value e = ex_scalar_value e0 \<and> ex_steps e = ex_steps e0 \<and>
     ex_comparison e = ex_comparison e0 \<and> ex_comparison_scalar e = ex_comparison_scalar e0 \<and>
     ex_is_filter e = ex_is_filter e0"

lemma expr_wf_empty: "expr_wf (expr_empty f)"
  by (simp add: expr_wf_def expr_empty_def buffer_covers_def packed_covers_def)

text \<open>The value of an expression on the rows of a batch with column contents \<open>cols\<close>.\<close>

abbreviation value_at ::
  "(node \<Rightarrow> datum option result) \<Rightarrow> (var_node \<Rightarrow> int) \<Rightarrow> (int \<Rightarrow> nat \<Rightarrow> int4 option) \<Rightarrow> node \<Rightarrow> nat \<Rightarrow>
     int4 option result" where
  "value_at ev resolve cols n r \<equiv> row_value ev (\<lambda>v. cols (resolve v) r) n"

definition get_int4_spec ::
  "(nat \<Rightarrow> pg_error \<Rightarrow> bool) \<Rightarrow> (nat \<Rightarrow> int4 option result) \<Rightarrow> 'p batch \<Rightarrow> 'c batch_expr \<Rightarrow>
     ('p batch \<times> 'c batch_expr \<times> int4_vector) result \<Rightarrow> bool" where
  "get_int4_spec fails val b e out \<longleftrightarrow>
     (case out of
        Inl err \<Rightarrow> \<exists>r\<in>set (selected (b_selection b)). fails r err
      | Inr (b', e', v) \<Rightarrow> b_selection b' = b_selection b \<and> same_shape e e' \<and>
          vec_wf v (nat (sel_nrows (b_selection b))) \<and>
          (\<forall>r\<in>set (selected (b_selection b)). val r = Inr (vec_get v r)))"

lemma get_int4_scalar:
  assumes "row_bounds b" "expr_ready e0 econtext phase e" "ex_scalar_value e0 = Some sc" "ex_steps e0 = []"
  shows "get_int4_spec (\<lambda>r err. int4_datum (ev sc econtext) = Inl err)
    (\<lambda>r. int4_datum (ev sc econtext)) b e (fst (expr_get_int4 ev c b e))"
proof -
  have wf: "expr_wf e" and sel: "sel_wf (b_selection b)"
    using assms(1,2) by (auto simp: expr_ready_def row_bounds_def)
  have run: "fst (expr_get_int4 ev c b e) = rbind (build_scalar_vector ev b econtext sc e)
      (\<lambda>(e', input). rbind (rfold (run_step ev b econtext) (ex_steps e')
        (if ex_steps e' \<noteq> [] then ensure_capacity (sel_nrows (b_selection b)) e' else e', input, 0))
        (\<lambda>(e2, result, _). Inr (b, e2\<lparr>ex_result := result, ex_result_ready := True\<rparr>, result)))"
    using assms(2,3)
    by (auto simp: expr_get_int4_def expr_ready_def Let_def rbind_def split: sum.splits)
  show ?thesis
    using build_scalar_vector_rows [OF assms(1) wf, where ev = ev and econtext = econtext and scalar = sc] assms(2,4)
      batch_has_rows_selected [OF sel]
    unfolding run get_int4_spec_def
    by (auto simp: expr_ready_def same_shape_def ex_in_conv split: sum.splits)
qed

lemma get_int4_column:
  assumes "row_bounds b" "expr_ready e0 econtext phase e" "ex_scalar_value e0 = None"
    and "ex_column_mask e0 = {nat (ex_column e0)}" "column_readable c b phase (ex_column e0) vals"
  shows "get_int4_spec (\<lambda>r err. steps_value (\<lambda>n. ev n econtext) (ex_steps e0) (vals r) = Inl err)
    (\<lambda>r. steps_value (\<lambda>n. ev n econtext) (ex_steps e0) (vals r)) b e
    (fst (expr_get_int4 ev c b e))"
proof -
  let ?s = "b_selection b"
  let ?n = "nat (sel_nrows ?s)"
  note ready = assms(2) [unfolded expr_ready_def]
  from assms(5) obtain acc acc' input c' where
    acc: "column_access_init (Some b) {nat (ex_column e0)} (Some ?s) phase = Inr acc"
      "column_get_int4 c acc (ex_column e0) = (Inr (acc', input), c')"
    and input: "vec_wf input ?n" "\<And>r. r < ?n \<Longrightarrow> vec_get input r = vals r"
    by (auto simp: column_readable_def split: sum.splits prod.splits)
  have sel: "b_selection (acc_batch acc') = ?s"
    using get_int4_selection [OF acc(2)] access_init_selection [OF acc(1)] by simp
  define e1 where "e1 = (if ex_steps e \<noteq> [] then ensure_capacity (sel_nrows ?s) e else e)"
  have e1: "ex_steps e1 = ex_steps e0" "same_shape e e1"
    using ready by (auto simp: e1_def same_shape_def ensure_capacity_def Let_def)
  have run: "fst (expr_get_int4 ev c b e) =
      rbind (rfold (run_step ev (acc_batch acc') econtext) (ex_steps e0) (e1, input, 0))
        (\<lambda>(e2, result, _). Inr (acc_batch acc', e2\<lparr>ex_result := result, ex_result_ready := True\<rparr>, result))"
    using ready assms(3,4) acc
    by (simp add: expr_get_int4_def Let_def sel) (simp add: e1_def)
  have "row_bounds (acc_batch acc')" using assms(1) sel by (simp add: row_bounds_def)
  moreover have "buffer_covers e1 ?n i" if "ex_steps e0 \<noteq> []" "i < (if length (ex_steps e0) > 1 then 2 else 1)" for i
    using ensure_capacity_covers [of e i "sel_nrows ?s"] ready that by (simp add: e1_def)
  ultimately have rows: "case rfold (run_step ev (acc_batch acc') econtext) (ex_steps e0) (e1, input, 0) of
      Inl err \<Rightarrow> maps_rows ?s (steps_value (\<lambda>n. ev n econtext) (ex_steps e0)) input (Inl err)
    | Inr (e', v, buf') \<Rightarrow>
        maps_rows ?s (steps_value (\<lambda>n. ev n econtext) (ex_steps e0)) input (Inr v) \<and> same_shape e1 e'"
    using run_steps_rows [of "acc_batch acc'" input 0 "ex_steps e0" e1 ev econtext] input(1)
    unfolding sel by (cases "ex_steps e0") auto
  have vals: "vec_get input r = vals r" if "r \<in> set (selected ?s)" for r
    using that input(2) by (simp add: set_selected)
  show ?thesis
  proof (cases "rfold (run_step ev (acc_batch acc') econtext) (ex_steps e0) (e1, input, 0)")
    case (Inl err)
    then show ?thesis using rows vals by (auto simp: run get_int4_spec_def maps_rows_def)
  next
    case (Inr q)
    then show ?thesis
      using rows vals sel e1(2)
      by (cases q) (auto simp: run get_int4_spec_def maps_rows_def same_shape_def)
  qed
qed

text \<open>Compilation and evaluation together.\<close>

lemma compile_value_fields:
  assumes "compile_value resolve n (expr0 :: 'c batch_expr) = Inr e" "analyze_value 0 n \<noteq> None"
    and "ex_column expr0 = - 1" "ex_scalar_value expr0 = None" "ex_steps expr0 = []" "executor_ok ev"
  obtains (scalar) "analyze_value 0 n = Some 0" "e = expr0\<lparr>ex_scalar_value := Some (strip_relabel n)\<rparr>"
  | (column) v steps where "analyze_value 0 n = Some 1" "0 \<le> resolve v"
      "e = expr0\<lparr>ex_column := resolve v, ex_steps := steps\<rparr>"
      "\<And>col. tree_agrees ev col n (steps_value ev steps (col v))"
proof (cases "analyze_value 0 n = Some 0")
  case True
  with assms(1) scalar show thesis by (simp add: compile_value_scalar)
next
  case False
  with assms(2) analyze_value_le_1(1) [of 0 n] have one: "analyze_value 0 n = Some 1"
    by (metis One_nat_def le_SucE le_zero_eq option.exhaust)
  from compile_value_column [OF assms(1) one assms(6)] obtain v steps where
    "0 \<le> resolve v" "e = expr0\<lparr>ex_column := resolve v, ex_steps := ex_steps expr0 @ steps\<rparr>"
    "\<And>col. tree_agrees ev col n (steps_value ev steps (col v))"
    by (auto simp: compiled_column_def)
  with one assms(5) column show thesis by simp
qed

definition finish_compile :: "'c batch_expr \<Rightarrow> 'c batch_expr" where
  "finish_compile e = (if 0 \<le> ex_column e then e\<lparr>ex_column_mask := {nat (ex_column e)}\<rparr> else e)"

lemma get_int4_compiled:
  assumes "compile_value resolve n expr0 = Inr e1" "analyze_value 0 n \<noteq> None"
    and "ex_column expr0 = - 1" "ex_scalar_value expr0 = None" "ex_steps expr0 = []"
    and ok: "executor_ok (\<lambda>n. ev n econtext)"
    and "row_bounds b" "expr_ready (finish_compile e1) econtext phase e"
    and "0 \<le> ex_column e1 \<Longrightarrow> column_readable c b phase (ex_column e1) (cols (ex_column e1))"
  shows "get_int4_spec (\<lambda>r err. err \<in> set (row_errors (\<lambda>n. ev n econtext) (\<lambda>v. cols (resolve v) r) n))
    (value_at (\<lambda>n. ev n econtext) resolve cols n) b e (fst (expr_get_int4 ev c b e))"
  using assms(1-5) ok
proof (cases rule: compile_value_fields)
  case scalar
  have "int4_datum (ev (strip_relabel n) econtext) = row_value (\<lambda>n. ev n econtext) col n" for col
    using ok scalar(1) unfolding executor_ok_def by (metis analyze_strip row_value_strip)
  moreover have "get_int4_spec (\<lambda>r err. int4_datum (ev (strip_relabel n) econtext) = Inl err)
      (\<lambda>r. int4_datum (ev (strip_relabel n) econtext)) b e (fst (expr_get_int4 ev c b e))"
    by (rule get_int4_scalar [OF assms(7,8)]) (use scalar(2) assms(3,5) in \<open>simp_all add: finish_compile_def\<close>)
  ultimately show ?thesis
    unfolding get_int4_spec_def
    by (auto split: sum.splits intro!: bexI row_value_error(1) [OF sym])
next
  case (column v steps)
  have e1: "ex_column (finish_compile e1) = resolve v" "ex_steps (finish_compile e1) = steps"
    "ex_scalar_value (finish_compile e1) = None" "ex_column_mask (finish_compile e1) = {nat (resolve v)}"
    using column(2,3) assms(4) by (simp_all add: finish_compile_def)
  have "get_int4_spec (\<lambda>r err. steps_value (\<lambda>n. ev n econtext) steps (cols (resolve v) r) = Inl err)
      (\<lambda>r. steps_value (\<lambda>n. ev n econtext) steps (cols (resolve v) r)) b e
      (fst (expr_get_int4 ev c b e))"
  proof -
    have "column_readable c b phase (resolve v) (cols (resolve v))"
      using assms(9) column(2,3) by simp
    then show ?thesis
      unfolding e1(2) [symmetric]
      by (intro get_int4_column [OF assms(7,8) e1(3)]) (simp_all add: e1)
  qed
  moreover have "tree_agrees (\<lambda>n. ev n econtext) (\<lambda>v. cols (resolve v) r) n
      (steps_value (\<lambda>n. ev n econtext) steps (cols (resolve v) r))" for r
    by (rule column(4))
  ultimately show ?thesis
    unfolding get_int4_spec_def tree_agrees_def agree_def by (auto split: sum.splits)
qed

lemma compile_int4_fields:
  assumes "compile_expression n False resolve = Inr e0"
  obtains e1 where "compile_value resolve n (expr_empty False) = Inr e1" "analyze_value 0 n \<noteq> None"
    "e0 = finish_compile e1"
  using assms unfolding compile_expression_def finish_compile_def [symmetric]
  by (auto simp: supports_int4_def rbind_Inr_iff split: if_splits)

lemma compile_filter_fields:
  assumes "compile_expression n True resolve = Inr e0"
  obtains value_arg comparison f t args e1 where "analyze_filter 0 n = Some (value_arg, comparison)"
    "strip_relabel n = OpExpr f t args"
    "compile_value resolve (args ! value_arg) ((expr_empty True)\<lparr>ex_comparison := comparison,
       ex_comparison_scalar := Some (args ! (1 - value_arg))\<rparr>) = Inr e1"
    "e0 = finish_compile e1"
  using assms unfolding compile_expression_def finish_compile_def [symmetric]
  by (auto simp: rbind_Inr_iff split: if_splits option.splits node.splits)

lemma analyze_filter_args:
  assumes "analyze_filter 0 n = Some (value_arg, comparison)" "strip_relabel n = OpExpr f t args"
  shows "args = [args ! 0, args ! 1]" "value_arg \<le> 1"
    "int4_compare_op f (of_nat value_arg) = Some comparison"
    "analyze_value 0 (args ! value_arg) = Some 1" "analyze_value 0 (args ! (1 - value_arg)) = Some 0"
proof -
  from assms obtain a b where ab: "args = [a, b]"
    by (auto simp: analyze_filter_def split: list.splits)
  with assms obtain i j where ij: "analyze_value 0 a = Some i" "analyze_value 0 b = Some j" "i + j = 1"
    "value_arg = (if i = 1 then 0 else 1)" "int4_compare_op f (of_nat value_arg) = Some comparison"
    by (auto simp: analyze_filter_def Let_def split: option.splits if_splits)
  from ij(3) have "i = 0 \<and> j = 1 \<or> i = 1 \<and> j = 0" by auto
  with ab ij show "args = [args ! 0, args ! 1]" "value_arg \<le> 1"
    "int4_compare_op f (of_nat value_arg) = Some comparison"
    "analyze_value 0 (args ! value_arg) = Some 1" "analyze_value 0 (args ! (1 - value_arg)) = Some 0"
    by auto
qed

text \<open>A comparison on one row: unknown when an operand is NULL.\<close>

definition row_qual ::
  "(node \<Rightarrow> datum option result) \<Rightarrow> (var_node \<Rightarrow> int4 option) \<Rightarrow> node \<Rightarrow> bool option result" where
  "row_qual ev col n =
     (case strip_relabel n of
        OpExpr f t [a, b] \<Rightarrow>
          rbind (row_value ev col a) (\<lambda>x. rbind (row_value ev col b) (\<lambda>y.
            Inr (case (int4_function f, x, y) of
                   (Some g, Some x, Some y) \<Rightarrow> Some (g (sint x) (sint y)) | _ \<Rightarrow> None)))
      | _ \<Rightarrow> Inl (Elog ''not a comparison''))"

lemma row_qual_comparison:
  assumes "analyze_filter 0 n = Some (value_arg, comparison)" "strip_relabel n = OpExpr f t args"
  shows "agree (row_qual ev col n)
    (rbind (row_value ev col (args ! value_arg)) (\<lambda>x. rbind (row_value ev col (args ! (1 - value_arg))) (\<lambda>y.
       Inr (case (x, y) of (Some x, Some y) \<Rightarrow> Some (int4_compare x y comparison) | _ \<Rightarrow> None))))"
proof -
  note args = analyze_filter_args [OF assms]
  obtain a b where ab: "args = [a, b]" using args(1) by blast
  from int4_compare_op_function [OF args(3)] obtain g where g: "int4_function f = Some g"
    "\<And>x y. int4_compare x y comparison =
      (if (of_nat value_arg :: 8 word) = 1 then g (sint y) (sint x) else g (sint x) (sint y))" by blast
  have qual: "row_qual ev col n = rbind (row_value ev col a) (\<lambda>x. rbind (row_value ev col b) (\<lambda>y.
      Inr (case (x, y) of (Some x, Some y) \<Rightarrow> Some (g (sint x) (sint y)) | _ \<Rightarrow> None)))"
    by (simp add: row_qual_def assms(2) ab g(1))
  show ?thesis
  proof (cases "value_arg = 0")
    case True
    have same: "(case (x, y) of (Some x, Some y) \<Rightarrow> Some (g (sint x) (sint y)) | _ \<Rightarrow> None) =
        (case (x, y) of (Some x, Some y) \<Rightarrow> Some (int4_compare x y comparison) | _ \<Rightarrow> None)" for x y
      by (cases x; cases y) (simp_all add: g(2) True)
    show ?thesis unfolding qual True ab same by simp
  next
    case False
    with args(2) have one: "value_arg = 1" by simp
    have flip: "(case (x, y) of (Some x, Some y) \<Rightarrow> Some (g (sint x) (sint y)) | _ \<Rightarrow> None) =
        (case (y, x) of (Some y, Some x) \<Rightarrow> Some (int4_compare y x comparison) | _ \<Rightarrow> None)" for x y
      by (cases x; cases y) (simp_all add: g(2) one)
    show ?thesis
      unfolding qual one ab flip by (simp add: agree_swap)
  qed
qed

lemma replicate_zero_selected:
  assumes "sel_wf s"
  defines "z \<equiv> s\<lparr>sel_words := replicate (nat (sel_nwords s)) 0 @ drop (nat (sel_nwords s)) (sel_words s)\<rparr>"
  shows "sel_wf z" "selected z = []"
proof -
  have z: "z = s\<lparr>sel_words := replicate (nat (sel_nwords s)) 0\<rparr>"
    using assms(1) by (simp add: z_def sel_wf_length)
  show "sel_wf z"
    by (rule sel_wf_shrink [OF assms(1)]) (use assms(1) in \<open>simp_all add: z sel_wf_length\<close>)
  show "selected z = []"
    using sel_wf_word_lt [OF assms(1)] by (auto simp: selected_def z sel_bit_def filter_empty_conv)
qed

definition filter_spec ::
  "(nat \<Rightarrow> bool option result) \<Rightarrow> 'p batch \<Rightarrow> ('p batch \<times> 'c batch_expr) result \<Rightarrow> bool" where
  "filter_spec qual b out \<longleftrightarrow>
     (case out of
        Inl _ \<Rightarrow> \<exists>r\<in>set (selected (b_selection b)). \<exists>err. qual r = Inl err
      | Inr (b', e') \<Rightarrow> sel_wf (b_selection b') \<and>
          sel_nrows (b_selection b') = sel_nrows (b_selection b) \<and>
          (\<forall>r\<in>set (selected (b_selection b)). \<exists>v. qual r = Inr v) \<and>
          selected (b_selection b') = filter (\<lambda>r. qual r = Inr (Some True)) (selected (b_selection b)))"

lemma filter_spec_agree:
  assumes "\<And>r. agree (q r) (q' r)" "filter_spec q' b out"
  shows "filter_spec q b out"
proof -
  have "(\<exists>err. q r = Inl err) \<longleftrightarrow> (\<exists>err. q' r = Inl err)" "(\<exists>v. q r = Inr v) \<longleftrightarrow> (\<exists>v. q' r = Inr v)"
    "q r = Inr (Some True) \<longleftrightarrow> q' r = Inr (Some True)" for r
    using assms(1) [of r] unfolding agree_def by (metis sum.exhaust sum.distinct(1))+
  with assms(2) show ?thesis unfolding filter_spec_def by (auto split: sum.splits)
qed

text \<open>The comparison against the scalar, once the value vector is known.\<close>

lemma filter_scalar:
  assumes "get_int4_spec fails val b e (Inr (b', e', v))" "row_bounds b"
    and "\<And>r. q r = rbind (val r) (\<lambda>x. rbind (int4_datum (Inr d)) (\<lambda>y. Inr (case (x, y) of
      (Some x, Some y) \<Rightarrow> Some (int4_compare x y op) | _ \<Rightarrow> None)))"
  shows "filter_spec q b (Inr (case d of
      None \<Rightarrow> b'\<lparr>b_selection := (b_selection b')\<lparr>sel_words :=
          replicate (nat (sel_nwords (b_selection b'))) 0 @
          drop (nat (sel_nwords (b_selection b'))) (sel_words (b_selection b'))\<rparr>\<rparr>
    | Some d \<Rightarrow> b'\<lparr>b_selection := filter_int4 target v (b_selection b') op (datum_get_int32 d) simd\<rparr>, e'))"
proof -
  let ?s = "b_selection b"
  have wf: "sel_wf ?s" using assms(2) by (simp add: row_bounds_def)
  from assms(1) have v: "b_selection b' = ?s" "vec_wf v (nat (sel_nrows ?s))"
    "\<And>r. r \<in> set (selected ?s) \<Longrightarrow> val r = Inr (vec_get v r)"
    by (auto simp: get_int4_spec_def)
  show ?thesis
  proof (cases d)
    case None
    have "q r = Inr None" if "r \<in> set (selected ?s)" for r
      using v(3) [OF that] None by (auto simp: assms(3) int4_datum_def split: option.splits)
    with replicate_zero_selected [OF wf] None show ?thesis
      by (auto simp: filter_spec_def v(1) filter_empty_conv)
  next
    case (Some k)
    have q: "q r = Inr (case vec_get v r of None \<Rightarrow> None | Some x \<Rightarrow>
        Some (int4_compare x (datum_get_int32 k) op))" if "r \<in> set (selected ?s)" for r
      using v(3) [OF that] Some by (auto simp: assms(3) int4_datum_def split: option.splits)
    have "filter (int4_row_passes v op (datum_get_int32 k)) (selected ?s) =
        filter (\<lambda>r. q r = Inr (Some True)) (selected ?s)"
      by (rule filter_cong [OF refl]) (simp add: q int4_row_passes_def split: option.splits)
    then show ?thesis
      using filter_int4_sel_wf [OF wf v(2)] filter_int4_selected [OF wf v(2)] q Some
      by (auto simp: filter_spec_def v(1))
  qed
qed

lemma filter_spec_fail:
  assumes "r \<in> set (selected (b_selection b))" "\<And>r. r \<in> set (selected (b_selection b)) \<Longrightarrow> \<exists>err. q r = Inl err"
  shows "filter_spec q b (Inl err')"
  using assms by (auto simp: filter_spec_def)

lemma apply_filter_compiled:
  assumes "compile_expression n True resolve = Inr e0" "executor_ok (\<lambda>n. ev n econtext)"
    and "row_bounds b" "expr_ready e0 econtext phase e"
    and "0 \<le> ex_column e0 \<Longrightarrow> column_readable c b phase (ex_column e0) (cols (ex_column e0))"
  shows "filter_spec (\<lambda>r. row_qual (\<lambda>n. ev n econtext) (\<lambda>v. cols (resolve v) r) n) b
    (fst (expr_apply_filter target ev c simd b e))"
proof -
  let ?ev = "\<lambda>n. ev n econtext"
  from assms(1) obtain value_arg comparison f t args e1 where
    an: "analyze_filter 0 n = Some (value_arg, comparison)" "strip_relabel n = OpExpr f t args" and
    comp: "compile_value resolve (args ! value_arg) ((expr_empty True)\<lparr>ex_comparison := comparison,
       ex_comparison_scalar := Some (args ! (1 - value_arg))\<rparr>) = Inr e1" and e0: "e0 = finish_compile e1"
    by (rule compile_filter_fields)
  note args = analyze_filter_args [OF an]
  let ?val = "value_at ?ev resolve cols (args ! value_arg)"
  let ?sc = "args ! (1 - value_arg)"
  let ?errs = "\<lambda>r err. err \<in> set (row_errors ?ev (\<lambda>v. cols (resolve v) r) (args ! value_arg))"
  let ?q = "\<lambda>r. rbind (?val r) (\<lambda>x. rbind (int4_datum (ev ?sc econtext)) (\<lambda>y. Inr (case (x, y) of
      (Some x, Some y) \<Rightarrow> Some (int4_compare x y comparison) | _ \<Rightarrow> None)))"
  have col: "ex_column e0 = ex_column e1" by (simp add: e0 finish_compile_def)
  have value_spec: "get_int4_spec ?errs ?val b e (fst (expr_get_int4 ev c b e))"
    by (rule get_int4_compiled [OF comp])
      (use args(4) assms(2-5) e0 col in \<open>simp_all add: expr_empty_def\<close>)
  obtain fin: "ex_comparison e1 = comparison" "ex_comparison_scalar e1 = Some ?sc" "ex_is_filter e1"
    using comp args(4) assms(2)
    by (elim compile_value_fields [where ev = ?ev]) (auto simp: expr_empty_def)
  then have e: "ex_comparison e = comparison" "ex_comparison_scalar e = Some ?sc" "ex_is_filter e"
    "ex_econtext e = Some econtext"
    using assms(4) by (auto simp: e0 finish_compile_def expr_ready_def)
  have "filter_spec ?q b (fst (expr_apply_filter target ev c simd b e))"
  proof (cases "batch_has_rows b")
    case False
    then have "selected (b_selection b) = []"
      using assms(3) batch_has_rows_selected by (auto simp: row_bounds_def)
    then show ?thesis
      using False e(3) assms(3) by (simp add: expr_apply_filter_def filter_spec_def row_bounds_def)
  next
    case True
    then obtain r where r: "r \<in> set (selected (b_selection b))"
      using assms(3) batch_has_rows_selected by (metis row_bounds_def hd_in_set)
    show ?thesis
    proof (cases "expr_get_int4 ev c b e")
      case (Pair out c')
      show ?thesis
      proof (cases out)
        case (Inl err)
        then obtain q where q: "q \<in> set (selected (b_selection b))" "?errs q err"
          using value_spec Pair by (auto simp: get_int4_spec_def)
        from row_errors_fail [OF q(2)] obtain err' where "?val q = Inl err'" by blast
        then show ?thesis using q(1) Inl Pair True e(3)
          by (auto simp: expr_apply_filter_def filter_spec_def intro!: bexI [of _ q])
      next
        case (Inr o')
        obtain b' e' v where o': "o' = (b', e', v)" by (cases o')
        have spec: "get_int4_spec ?errs ?val b e (Inr (b', e', v))"
          using value_spec Pair Inr o' by simp
        then have e': "ex_comparison e' = comparison" "ex_comparison_scalar e' = Some ?sc"
          "ex_econtext e' = Some econtext"
          using e by (auto simp: get_int4_spec_def same_shape_def)
        show ?thesis
        proof (cases "ev ?sc econtext")
          case (Inl err)
          have "\<exists>err. ?q q = Inl err" if "q \<in> set (selected (b_selection b))" for q
            using spec that Inl by (auto simp: get_int4_spec_def int4_datum_def)
          then have "filter_spec ?q b (Inl err)" by (rule filter_spec_fail [OF r])
          then show ?thesis using Pair \<open>out = Inr o'\<close> o' True e(3) e' Inl
            by (simp add: expr_apply_filter_def)
        next
          case (Inr d)
          show ?thesis
            using filter_scalar [OF spec assms(3), of ?q d comparison target simd] Pair \<open>out = Inr o'\<close>
              o' True e(3) e' Inr
            by (cases d) (simp_all add: expr_apply_filter_def Let_def)
        qed
      qed
    qed
  qed
  moreover have "agree (row_qual ?ev (\<lambda>v. cols (resolve v) r) n) (?q r)" for r
    using row_qual_comparison [OF an, of ?ev "\<lambda>v. cols (resolve v) r"] assms(2) args(5)
    by (simp add: executor_ok_def)
  ultimately show ?thesis by (rule filter_spec_agree [rotated])
qed

end
