(* ===== verification/Expr_Props.thy ===== *)
theory Expr_Props
  imports Expr_Run
begin

text \<open>
  The properties of batch expressions, with a concrete executor and a concrete
  batch on which they are applied.
\<close>

section \<open>A concrete executor\<close>

text \<open>
  An executor that evaluates leaves by \<open>leaf\<close> and operators as PostgreSQL's int4
  functions do; it meets the assumption on \<open>ExecEvalExpr\<close>.
\<close>

definition tree_executor :: "(node \<Rightarrow> datum option result) \<Rightarrow> node \<Rightarrow> datum option result" where
  "tree_executor leaf n =
     rbind (row_value leaf (\<lambda>_. None) n) (\<lambda>v. Inr (map_option int32_get_datum v))"

lemma int4_datum_tree_executor: "int4_datum (tree_executor leaf n) = row_value leaf (\<lambda>_. None) n"
  by (cases "row_value leaf (\<lambda>_. None) n")
    (simp_all add: tree_executor_def int4_datum_def option.map_comp o_def option.map_ident)

lemma row_value_tree_executor:
  "analyze_value 0 n = Some 0 \<Longrightarrow>
     row_value (tree_executor leaf) col n = row_value leaf (\<lambda>_. None) n"
  "analyze_args 0 ns 0 = Some 0 \<Longrightarrow>
     row_args (tree_executor leaf) col ns = row_args leaf (\<lambda>_. None) ns"
proof (induction "tree_executor leaf" col n and "tree_executor leaf" col ns rule: row_value_row_args.induct)
  case (3 col f t args)
  then show ?case by (auto split: if_splits)
next
  case (6 col n ns)
  then obtain j where j: "analyze_value 0 n = Some j" "analyze_args 0 ns j = Some 0"
    by (auto split: option.splits if_splits)
  with analyze_args_ge [OF j(2)] 6 show ?case by simp
qed (auto simp: int4_datum_tree_executor split: if_splits)

lemma executor_ok_tree: "executor_ok (tree_executor leaf)"
  by (simp add: executor_ok_def int4_datum_tree_executor row_value_tree_executor)

section \<open>A concrete batch\<close>

definition example_datum_ops :: "unit batch_ops" where
  "example_datum_ops = \<lparr>ops_addr = 1, ops_abi_version = 1, ops_struct_size = 24,
     ops_get_datum_column = Some (\<lambda>p s column rows phase dv. Inr (p, dv\<lparr>
        dv_values := Some [3, 10, 7, 0], dv_isnull := Some [False, False, False, True], dv_nrows := 4\<rparr>)),
     ops_prepare_columns = None, ops_get_native_interface = None, ops_release = None\<rparr>"

definition example_rows :: "unit batch" where
  "example_rows = \<lparr>b_abi_version = 1, b_struct_size = 64,
     b_selection = \<lparr>sel_nrows = 4, sel_nwords = 1, sel_words = [13]\<rparr>, b_table_oid = 0,
     b_ops = Some example_datum_ops, b_private = (), b_generation = 1\<rparr>"

definition example_values :: "int \<Rightarrow> nat \<Rightarrow> int4 option" where
  "example_values column r = [Some 3, Some 10, Some 7, None] ! r"

definition example_var :: node where
  "example_var = Var \<lparr>vartype = 23, varattno = 1, varlevelsup = 0, varreturning_default = True, varno = 1\<rparr>"

definition example_leaf :: "node \<Rightarrow> datum option result" where
  "example_leaf n = (case n of Const t v \<Rightarrow> Inr v | _ \<Rightarrow> Inr None)"

text \<open>\<open>20 - x * 2\<close> and \<open>20 - x * 2 > 8\<close>.\<close>

definition example_value_tree :: node where
  "example_value_tree = OpExpr 181 23 [Const 23 (Some 20), OpExpr 141 23 [example_var, Const 23 (Some 2)]]"

definition example_filter_tree :: node where
  "example_filter_tree = OpExpr 147 16 [example_value_tree, Const 23 (Some 8)]"

lemma example_row_bounds: "row_bounds example_rows"
proof -
  have "sel_wf (b_selection example_rows)" by (rule sel_wfI) (simp_all add: example_rows_def)
  then show ?thesis by (simp add: row_bounds_def example_rows_def)
qed

lemma example_readable:
  "column_readable \<lparr>nc_entries = [], nc_last = None\<rparr> example_rows PG_BATCH_COLUMN_FILTER 0 (example_values 0)"
proof -
  have size: "abi_size_through PgBatchOps_layout ''get_native_interface'' = 40"
    "abi_size_through PgBatchDatumVector_layout ''nrows'' = 28"
    "struct_sizeof PgBatchDatumVector_layout = 32" by code_simp+
  have "r < 4 \<longleftrightarrow> r = 0 \<or> r = 1 \<or> r = 2 \<or> r = 3" for r :: nat by auto
  then show ?thesis
    by (auto simp: column_readable_def column_access_init_def batch_prepare_columns_def example_rows_def
        example_datum_ops_def column_get_int4_def bms_is_member_def get_native_interface_def
        abi_has_field_def size column_int4_from_datum_def column_get_datum_def batch_get_datum_column_def
        check_datum_vector_def Let_def int4_vector_init_datum_def vec_wf_def vec_get_def
        int4_row_is_null_def int4_row_value_def datum_get_int32_def example_values_def)
qed

section \<open>Properties\<close>

text \<open>
  C11. Evaluating a compiled int4 expression on a batch gives, for every selected row,
  the value of the expression tree on that row's columns (NULL included), and does not
  change the batch's selection.  It fails only if the evaluation of some selected row
  fails, and with an error that evaluation meets: the error of one of its operators on
  operands that have values, or of an operand evaluated by the executor.  (Which one is
  not fixed by the row: the batch evaluates the operand with the column first.)
\<close>

theorem expr_get_int4_correct:
  assumes "compile_expression n False resolve = Inr e0" "executor_ok (\<lambda>n. ev n econtext)"
    and "row_bounds b" "expr_ready e0 econtext phase e"
    and "0 \<le> ex_column e0 \<Longrightarrow> column_readable c b phase (ex_column e0) (cols (ex_column e0))"
  shows "case fst (expr_get_int4 ev c b e) of
      Inr (b', e', v) \<Rightarrow> b_selection b' = b_selection b \<and>
        (\<forall>r\<in>set (selected (b_selection b)).
           row_value (\<lambda>n. ev n econtext) (\<lambda>v. cols (resolve v) r) n = Inr (vec_get v r))
    | Inl err \<Rightarrow> \<exists>r\<in>set (selected (b_selection b)).
        err \<in> set (row_errors (\<lambda>n. ev n econtext) (\<lambda>v. cols (resolve v) r) n) \<and>
        (\<exists>err'. row_value (\<lambda>n. ev n econtext) (\<lambda>v. cols (resolve v) r) n = Inl err')"
proof -
  from assms(1) obtain e1 where e1: "compile_value resolve n (expr_empty False) = Inr e1"
    "analyze_value 0 n \<noteq> None" "e0 = finish_compile e1" by (rule compile_int4_fields)
  have "ex_column e0 = ex_column e1" by (simp add: e1(3) finish_compile_def)
  then have "get_int4_spec (\<lambda>r err. err \<in> set (row_errors (\<lambda>n. ev n econtext) (\<lambda>v. cols (resolve v) r) n))
      (value_at (\<lambda>n. ev n econtext) resolve cols n) b e (fst (expr_get_int4 ev c b e))"
    using assms e1 by (intro get_int4_compiled [OF e1(1,2)]) (simp_all add: expr_empty_def)
  then show ?thesis
    by (auto simp: get_int4_spec_def dest: row_errors_fail split: sum.splits intro!: bexI)
qed

abbreviation example_cache :: "unit native_cache" where
  "example_cache \<equiv> \<lparr>nc_entries = [], nc_last = None\<rparr>"

abbreviation example_ev :: "node \<Rightarrow> unit \<Rightarrow> datum option result" where
  "example_ev \<equiv> \<lambda>n _. tree_executor example_leaf n"

definition example_compiled :: "node \<Rightarrow> bool \<Rightarrow> unit batch_expr" where
  "example_compiled n f =
     (case compile_expression n f (\<lambda>_. 0) of Inr e \<Rightarrow> e | Inl _ \<Rightarrow> expr_empty f)"

lemma example_ready:
  assumes "expr_wf e0"
  shows "expr_ready e0 () PG_BATCH_COLUMN_FILTER (expr_bind (Some ()) PG_BATCH_COLUMN_FILTER True e0)"
  using assms by (simp add: expr_ready_def expr_bind_def expr_wf_def buffer_covers_def)

lemma example_compiled_wf:
  "expr_wf (example_compiled example_value_tree False)"
  "expr_wf (example_compiled example_filter_tree True)"
proof -
  have "ex_capacity e = 0 \<and> ex_values e = [[], []] \<and> ex_validity e = [[], []]"
    if "e = example_compiled example_value_tree False \<or> e = example_compiled example_filter_tree True" for e
    using that by (elim disjE; hypsubst_thin; code_simp)
  then show "expr_wf (example_compiled example_value_tree False)"
    "expr_wf (example_compiled example_filter_tree True)"
    by (simp_all add: expr_wf_def buffer_covers_def packed_covers_def nth_Cons split: nat.splits)
qed

theorem expr_get_int4_correct_witness:
  "\<exists>b' e' v. fst (expr_get_int4 example_ev example_cache example_rows
      (expr_bind (Some ()) PG_BATCH_COLUMN_FILTER True (example_compiled example_value_tree False))) =
      Inr (b', e', v) \<and>
    vec_get v 0 = Some 14 \<and> vec_get v 2 = Some 6 \<and> vec_get v 3 = None"
proof -
  let ?e0 = "example_compiled example_value_tree False"
  let ?run = "fst (expr_get_int4 example_ev example_cache example_rows
      (expr_bind (Some ()) PG_BATCH_COLUMN_FILTER True ?e0))"
  have comp: "compile_expression example_value_tree False (\<lambda>_. 0) = Inr ?e0" by code_simp
  have col: "ex_column ?e0 = 0" by code_simp
  have rows: "selected (b_selection example_rows) = [0, 2, 3]" by code_simp
  have vals: "row_value (tree_executor example_leaf) (\<lambda>v. example_values 0 0) example_value_tree = Inr (Some 14)"
    "row_value (tree_executor example_leaf) (\<lambda>v. example_values 0 2) example_value_tree = Inr (Some 6)"
    "row_value (tree_executor example_leaf) (\<lambda>v. example_values 0 3) example_value_tree = Inr None"
    by code_simp+
  have main: "case ?run of
      Inr (b', e', v) \<Rightarrow> b_selection b' = b_selection example_rows \<and>
        (\<forall>r\<in>set (selected (b_selection example_rows)).
           row_value (tree_executor example_leaf) (\<lambda>v. example_values 0 r) example_value_tree = Inr (vec_get v r))
    | Inl err \<Rightarrow> \<exists>r\<in>set (selected (b_selection example_rows)).
        err \<in> set (row_errors (tree_executor example_leaf) (\<lambda>v. example_values 0 r) example_value_tree) \<and>
        (\<exists>err'. row_value (tree_executor example_leaf) (\<lambda>v. example_values 0 r) example_value_tree = Inl err')"
    using expr_get_int4_correct [where ev = example_ev and econtext = "()" and cols = example_values,
        OF comp executor_ok_tree example_row_bounds example_ready [OF example_compiled_wf(1)]]
      example_readable col by simp
  then show ?thesis
    using vals unfolding rows by (cases ?run) auto
qed

text \<open>
  C7. Applying a compiled filter leaves selected exactly the rows on which the
  comparison is true (not false, not unknown), keeps the selection well-formed, and
  fails only if the comparison fails on some selected row; if it succeeds, no
  selected row would have failed.
\<close>

theorem expr_apply_filter_correct:
  assumes "compile_expression n True resolve = Inr e0" "executor_ok (\<lambda>n. ev n econtext)"
    and "row_bounds b" "expr_ready e0 econtext phase e"
    and "0 \<le> ex_column e0 \<Longrightarrow> column_readable c b phase (ex_column e0) (cols (ex_column e0))"
  defines "qual \<equiv> \<lambda>r. row_qual (\<lambda>n. ev n econtext) (\<lambda>v. cols (resolve v) r) n"
  shows "case fst (expr_apply_filter target ev c simd b e) of
      Inr (b', e') \<Rightarrow> sel_wf (b_selection b') \<and>
        (\<forall>r\<in>set (selected (b_selection b)). \<exists>v. qual r = Inr v) \<and>
        selected (b_selection b') = filter (\<lambda>r. qual r = Inr (Some True)) (selected (b_selection b))
    | Inl _ \<Rightarrow> \<exists>r\<in>set (selected (b_selection b)). \<exists>err. qual r = Inl err"
  using apply_filter_compiled [where ev = ev and econtext = econtext and cols = cols,
      OF assms(1-5), of target simd]
  unfolding qual_def filter_spec_def by (auto split: sum.splits)

theorem expr_apply_filter_correct_witness:
  "\<exists>b' e'. fst (expr_apply_filter USE_NEON example_ev example_cache True example_rows
      (expr_bind (Some ()) PG_BATCH_COLUMN_FILTER True (example_compiled example_filter_tree True))) =
      Inr (b', e') \<and> selected (b_selection b') = [0]"
proof -
  let ?e0 = "example_compiled example_filter_tree True"
  let ?run = "fst (expr_apply_filter USE_NEON example_ev example_cache True example_rows
      (expr_bind (Some ()) PG_BATCH_COLUMN_FILTER True ?e0))"
  let ?qual = "\<lambda>r. row_qual (tree_executor example_leaf) (\<lambda>v. example_values 0 r) example_filter_tree"
  have comp: "compile_expression example_filter_tree True (\<lambda>_. 0) = Inr ?e0" by code_simp
  have col: "ex_column ?e0 = 0" by code_simp
  have rows: "selected (b_selection example_rows) = [0, 2, 3]" by code_simp
  have quals: "?qual 0 = Inr (Some True)" "?qual 2 = Inr (Some False)" "?qual 3 = Inr None"
    by code_simp+
  have main: "case ?run of
      Inr (b', e') \<Rightarrow> sel_wf (b_selection b') \<and>
        (\<forall>r\<in>set (selected (b_selection example_rows)). \<exists>v. ?qual r = Inr v) \<and>
        selected (b_selection b') = filter (\<lambda>r. ?qual r = Inr (Some True)) (selected (b_selection example_rows))
    | Inl _ \<Rightarrow> \<exists>r\<in>set (selected (b_selection example_rows)). \<exists>err. ?qual r = Inl err"
    using expr_apply_filter_correct [where ev = example_ev and econtext = "()" and cols = example_values
          and target = USE_NEON and simd = True,
        OF comp executor_ok_tree example_row_bounds example_ready [OF example_compiled_wf(2)]]
      example_readable col by simp
  then show ?thesis
    using quals unfolding rows by (cases ?run) auto
qed

end
