(* ===== verification/Registry.thy ===== *)
theory Registry
  imports Columns
begin

text \<open>
  The two registries of the bridge, \<open>bridge/bridge.c\<close>: batch sources and
  batch-producing plan nodes, each a list of operation tables owned by the
  extensions that registered them.  A function pointer the bridge only tests for
  NULL is an optional address; \<open>so_addr\<close> and \<open>no_addr\<close> are the addresses of the
  tables.  Enumerations received from other modules are integers: the code checks
  their range.
\<close>

section \<open>Version checks\<close>

definition validate_abi :: "uint32 \<Rightarrow> nat \<Rightarrow> uint32 \<Rightarrow> nat \<Rightarrow> unit result" where
  "validate_abi version struct_size expected_version required_size =
     (if version \<noteq> expected_version \<or> struct_size < required_size
      then Inl (Ereport ERRCODE_FEATURE_NOT_SUPPORTED ''incompatible %s ABI'')
      else Inr ())"

lemma validate_abi_Inr [simp]:
  "validate_abi v sz ev req = Inr u \<longleftrightarrow> v = ev \<and> req \<le> sz"
  by (auto simp: validate_abi_def)

section \<open>Sources\<close>

definition PgBatchSourceOps_layout :: struct_layout where
  "PgBatchSourceOps_layout =
     [(''abi_version'', 4, 4), (''struct_size'', 8, 8), (''source_name'', 8, 8),
      (''delivery'', 4, 4), (''supports_relation'', 8, 8), (''plan_scan'', 8, 8),
      (''begin_scan'', 8, 8), (''rescan'', 8, 8), (''end_scan'', 8, 8),
      (''next_batch'', 8, 8), (''explain'', 8, 8), (''parallel'', 8, 8)]"

abbreviation (input) PG_BATCH_SOURCE_SLOT :: int where "PG_BATCH_SOURCE_SLOT \<equiv> 0"
abbreviation (input) PG_BATCH_SOURCE_PULL :: int where "PG_BATCH_SOURCE_PULL \<equiv> 1"
abbreviation (input) PG_BATCH_SOURCE_OPS_ABI_VERSION :: uint32 where "PG_BATCH_SOURCE_OPS_ABI_VERSION \<equiv> 1"

record 'r source_ops =
  so_addr :: nat
  so_abi_version :: uint32
  so_struct_size :: nat
  so_source_name :: "string option"
  so_delivery :: int
  so_supports_relation :: "('r \<Rightarrow> bool) option"
  so_plan_scan :: "nat option"
  so_begin_scan :: "nat option"
  so_rescan :: "nat option"
  so_end_scan :: "nat option"
  so_next_batch :: "nat option"

definition source_valid :: "'r source_ops \<Rightarrow> unit result" where
  "source_valid source =
     rbind (validate_abi (so_abi_version source) (so_struct_size source)
       PG_BATCH_SOURCE_OPS_ABI_VERSION (abi_size_through PgBatchSourceOps_layout ''end_scan'')) (\<lambda>_.
     rbind (require (so_source_name source \<noteq> None \<and> so_source_name source \<noteq> Some [])
       (Elog ''pg_batch source must have a name'')) (\<lambda>_.
     rbind (require (so_delivery source = PG_BATCH_SOURCE_SLOT \<or> so_delivery source = PG_BATCH_SOURCE_PULL)
       (Elog ''pg_batch source has an invalid delivery mode'')) (\<lambda>_.
     rbind (require (\<not> Option.is_none (so_supports_relation source) \<and> so_plan_scan source \<noteq> None \<and>
         so_begin_scan source \<noteq> None \<and> so_rescan source \<noteq> None \<and> so_end_scan source \<noteq> None)
       (Elog ''pg_batch source has incomplete operations'')) (\<lambda>_.
     require (\<not> (so_delivery source = PG_BATCH_SOURCE_PULL \<and>
         (\<not> abi_has_field (so_struct_size source) PgBatchSourceOps_layout ''next_batch'' \<or>
          so_next_batch source = None)))
       (Elog ''pg_batch pull source has no next operation'')))))"

abbreviation source_name :: "'r source_ops \<Rightarrow> string" where
  "source_name source \<equiv> the (so_source_name source)"

fun add_source :: "'r source_ops \<Rightarrow> 'r source_ops list \<Rightarrow> 'r source_ops list \<Rightarrow> 'r source_ops list result" where
  "add_source source sources [] = Inr (sources @ [source])"
| "add_source source sources (existing # rest) =
     (if source_name existing = source_name source then
        (if so_addr existing = so_addr source then Inr sources
         else Inl (Elog ''pg_batch source is already registered''))
      else add_source source sources rest)"

definition register_source ::
  "'r source_ops option \<Rightarrow> 'r source_ops list \<Rightarrow> 'r source_ops list result" where
  "register_source source sources =
     (case source of
        None \<Rightarrow> Inl (Elog ''pg_batch cannot register a null source'')
      | Some source \<Rightarrow> rbind (source_valid source) (\<lambda>_. add_source source sources sources))"

fun unregister_source :: "string \<Rightarrow> 'r source_ops list \<Rightarrow> 'r source_ops list" where
  "unregister_source name [] = []"
| "unregister_source name (source # rest) =
     (if source_name source = name then rest else source # unregister_source name rest)"

text \<open>The scan keeps the first source that claims the relation and refuses a second.\<close>

fun find_source_from ::
  "'r \<Rightarrow> 'r source_ops option \<Rightarrow> 'r source_ops list \<Rightarrow> 'r source_ops option result" where
  "find_source_from relation found [] = Inr found"
| "find_source_from relation found (source # rest) =
     (if \<not> the (so_supports_relation source) relation then find_source_from relation found rest
      else if \<not> Option.is_none found
      then Inl (Ereport ERRCODE_DUPLICATE_OBJECT ''multiple pg_batch sources support relation'')
      else find_source_from relation (Some source) rest)"

definition find_source :: "'r source_ops list \<Rightarrow> 'r \<Rightarrow> 'r source_ops option result" where
  "find_source sources relation = find_source_from relation None sources"

fun get_source :: "'r source_ops list \<Rightarrow> string \<Rightarrow> 'r source_ops option" where
  "get_source [] name = None"
| "get_source (source # rest) name =
     (if source_name source = name then Some source else get_source rest name)"

section \<open>Plan nodes\<close>

definition PgBatchNodeOps_layout :: struct_layout where
  "PgBatchNodeOps_layout =
     [(''abi_version'', 4, 4), (''struct_size'', 8, 8), (''node_name'', 8, 8),
      (''supports_path'', 8, 8), (''get_layout'', 8, 8), (''get_request_binding'', 8, 8)]"

abbreviation (input) PG_BATCH_NODE_OPS_ABI_VERSION :: uint32 where "PG_BATCH_NODE_OPS_ABI_VERSION \<equiv> 1"

record ('r, 'plan) node_ops =
  no_addr :: nat
  no_abi_version :: uint32
  no_struct_size :: nat
  no_node_name :: "string option"
  no_supports_path :: "('r \<Rightarrow> bool) option"
  no_get_layout :: "('plan \<Rightarrow> layout \<Rightarrow> layout result) option"
  no_get_request_binding :: "nat option"

definition node_valid :: "('r, 'plan) node_ops \<Rightarrow> unit result" where
  "node_valid node =
     rbind (validate_abi (no_abi_version node) (no_struct_size node)
       PG_BATCH_NODE_OPS_ABI_VERSION
       (abi_size_through PgBatchNodeOps_layout ''get_request_binding'')) (\<lambda>_.
     require (no_node_name node \<noteq> None \<and> no_node_name node \<noteq> Some [] \<and>
         \<not> Option.is_none (no_supports_path node) \<and> \<not> Option.is_none (no_get_layout node) \<and>
         no_get_request_binding node \<noteq> None)
       (Elog ''invalid pg_batch node registration''))"

abbreviation node_name :: "('r, 'plan) node_ops \<Rightarrow> string" where
  "node_name node \<equiv> the (no_node_name node)"

fun add_node :: "('r, 'plan) node_ops \<Rightarrow> ('r, 'plan) node_ops list \<Rightarrow>
    ('r, 'plan) node_ops list \<Rightarrow> ('r, 'plan) node_ops list result" where
  "add_node node nodes [] = Inr (nodes @ [node])"
| "add_node node nodes (existing # rest) =
     (if node_name existing = node_name node then
        (if no_addr existing = no_addr node then Inr nodes
         else Inl (Elog ''pg_batch node is already registered''))
      else add_node node nodes rest)"

definition register_node :: "('r, 'plan) node_ops option \<Rightarrow>
    ('r, 'plan) node_ops list \<Rightarrow> ('r, 'plan) node_ops list result" where
  "register_node node nodes =
     (case node of
        None \<Rightarrow> Inl (Elog ''pg_batch cannot register a null node'')
      | Some node \<Rightarrow> rbind (node_valid node) (\<lambda>_. add_node node nodes nodes))"

fun get_node :: "('r, 'plan) node_ops list \<Rightarrow> string \<Rightarrow> ('r, 'plan) node_ops option" where
  "get_node [] name = None"
| "get_node (node # rest) name =
     (if node_name node = name then Some node else get_node rest name)"

text \<open>\<open>list_delete_ptr\<close> removes the first cell that holds the pointer.\<close>

fun list_delete_ptr :: "('r, 'plan) node_ops list \<Rightarrow> nat \<Rightarrow> ('r, 'plan) node_ops list" where
  "list_delete_ptr [] p = []"
| "list_delete_ptr (node # rest) p =
     (if no_addr node = p then rest else node # list_delete_ptr rest p)"

definition unregister_node :: "string \<Rightarrow> ('r, 'plan) node_ops list \<Rightarrow> ('r, 'plan) node_ops list" where
  "unregister_node name nodes =
     (case get_node nodes name of None \<Rightarrow> nodes | Some node \<Rightarrow> list_delete_ptr nodes (no_addr node))"

fun find_node_from :: "'r \<Rightarrow> ('r, 'plan) node_ops option \<Rightarrow> ('r, 'plan) node_ops list \<Rightarrow>
    ('r, 'plan) node_ops option result" where
  "find_node_from path found [] = Inr found"
| "find_node_from path found (node # rest) =
     (if \<not> the (no_supports_path node) path then find_node_from path found rest
      else if \<not> Option.is_none found
      then Inl (Ereport ERRCODE_DUPLICATE_OBJECT ''multiple pg_batch nodes support one plan path'')
      else find_node_from path (Some node) rest)"

definition find_node :: "('r, 'plan) node_ops list \<Rightarrow> 'r \<Rightarrow> ('r, 'plan) node_ops option result" where
  "find_node nodes path = find_node_from path None nodes"

section \<open>The contract of a registry\<close>

text \<open>
  Both registries promise the same: at most one table per name, lookup by name,
  and a search that finds the only table claiming an object or fails.
\<close>

locale registry =
  fixes name :: "'o \<Rightarrow> string"
    and addr :: "'o \<Rightarrow> nat"
    and valid :: "'o \<Rightarrow> bool"
    and claims :: "'o \<Rightarrow> 'r \<Rightarrow> bool"
    and register :: "'o option \<Rightarrow> 'o list \<Rightarrow> 'o list result"
    and unregister :: "string \<Rightarrow> 'o list \<Rightarrow> 'o list"
    and get :: "'o list \<Rightarrow> string \<Rightarrow> 'o option"
    and search :: "'o list \<Rightarrow> 'r \<Rightarrow> 'o option result"
  assumes register_law:
      "register x l = Inr l' \<longleftrightarrow>
         (\<exists>s. x = Some s \<and> valid s \<and>
            (case List.find (\<lambda>e. name e = name s) l of
               None \<Rightarrow> l' = l @ [s] | Some e \<Rightarrow> addr e = addr s \<and> l' = l))"
    and unregister_law:
      "\<lbrakk>distinct (map name l); distinct (map addr l)\<rbrakk> \<Longrightarrow>
         unregister n l = filter (\<lambda>e. name e \<noteq> n) l"
    and get_law: "get l n = List.find (\<lambda>e. name e = n) l"
    and search_law:
      "(\<exists>e. search l r = Inl e) \<longleftrightarrow> 2 \<le> length (filter (\<lambda>e. claims e r) l)"
      "search l r = Inr found \<Longrightarrow>
         filter (\<lambda>e. claims e r) l = (case found of None \<Rightarrow> [] | Some e \<Rightarrow> [e])"
begin

definition reg_wf :: "'o list \<Rightarrow> bool" where
  "reg_wf l \<longleftrightarrow> distinct (map name l) \<and> distinct (map addr l) \<and> (\<forall>e \<in> set l. valid e)"

lemma get_iff:
  assumes "reg_wf l"
  shows "get l n = Some e \<longleftrightarrow> e \<in> set l \<and> name e = n"
proof
  assume "get l n = Some e"
  then show "e \<in> set l \<and> name e = n"
    by (auto simp: get_law find_Some_iff)
next
  assume e: "e \<in> set l \<and> name e = n"
  then obtain e' where "get l n = Some e'"
    by (cases "get l n") (auto simp: get_law find_None_iff)
  moreover from this have "e' \<in> set l" "name e' = name e"
    using e by (auto simp: get_law find_Some_iff)
  ultimately show "get l n = Some e"
    using e assms by (metis distinct_map inj_onD reg_wf_def)
qed

lemma get_None: "get l n = None \<longleftrightarrow> n \<notin> name ` set l"
  by (auto simp: get_law find_None_iff)

lemma register_wf:
  assumes "reg_wf l" "register (Some s) l = Inr l'" "\<forall>e \<in> set l. addr e = addr s \<longrightarrow> e = s"
  shows "reg_wf l' \<and> set l' = insert s (set l)"
proof (cases "List.find (\<lambda>e. name e = name s) l")
  case None
  then have "name s \<notin> name ` set l" by (auto simp: find_None_iff)
  moreover from None assms(2) have "l' = l @ [s]" "valid s" by (auto simp: register_law)
  ultimately show ?thesis
    using assms(1,3) by (auto simp: reg_wf_def)
next
  case (Some e)
  then have "e \<in> set l" by (auto simp: find_Some_iff)
  moreover from Some assms(2) have "l' = l" "addr e = addr s" by (auto simp: register_law)
  ultimately show ?thesis using assms(1,3) by auto
qed

lemma unregister_wf:
  "reg_wf l \<Longrightarrow> reg_wf (unregister n l) \<and> set (unregister n l) = {e \<in> set l. name e \<noteq> n}"
  by (auto simp: reg_wf_def unregister_law distinct_map_filter)

lemma get_register:
  assumes "reg_wf l" "register (Some s) l = Inr l'" "\<forall>e \<in> set l. addr e = addr s \<longrightarrow> e = s"
  shows "get l' n = (if n = name s then Some s else get l n)"
proof (cases "get l' n")
  case None
  then have n: "n \<notin> name ` set l'" by (simp add: get_None)
  then have "n \<notin> name ` set l" "n \<noteq> name s" using register_wf [OF assms] by auto
  then have "get l n = None" by (simp add: get_None)
  with None \<open>n \<noteq> name s\<close> show ?thesis by simp
next
  case (Some e)
  have wf: "reg_wf l'" and set: "set l' = insert s (set l)"
    using register_wf [OF assms] by auto
  have e: "e \<in> insert s (set l)" "name e = n"
    using Some set by (auto simp: get_iff [OF wf])
  have "get l' (name s) = Some s" by (simp add: get_iff [OF wf] set)
  moreover have "get l n = Some e" if "n \<noteq> name s"
    using e that by (auto simp: get_iff [OF assms(1)])
  ultimately show ?thesis using Some by auto
qed

lemma get_unregister:
  assumes "reg_wf l"
  shows "get (unregister n l) m = (if m = n then None else get l m)"
proof (cases "get (unregister n l) m")
  case None
  then have "m \<notin> name ` set (unregister n l)" by (simp add: get_None)
  then have "m \<noteq> n \<Longrightarrow> m \<notin> name ` set l" using unregister_wf [OF assms, of n] by auto
  then have "m \<noteq> n \<Longrightarrow> get l m = None" by (simp add: get_None)
  with None show ?thesis by simp
next
  case (Some e)
  have wf: "reg_wf (unregister n l)" and set: "set (unregister n l) = {e \<in> set l. name e \<noteq> n}"
    using unregister_wf [OF assms, of n] by auto
  have "e \<in> set l" "name e = m" "m \<noteq> n"
    using Some set by (auto simp: get_iff [OF wf])
  then have "get l m = Some e" by (simp add: get_iff [OF assms])
  with Some \<open>m \<noteq> n\<close> show ?thesis by simp
qed

lemma search_unique:
  assumes "reg_wf l"
  shows "search l r = Inr (Some e) \<longleftrightarrow> {x \<in> set l. claims x r} = {e}"
    and "search l r = Inr None \<longleftrightarrow> {x \<in> set l. claims x r} = {}"
proof -
  have dist: "distinct (filter (\<lambda>e. claims e r) l)"
    using assms by (auto simp: reg_wf_def distinct_map)
  have set: "set (filter (\<lambda>e. claims e r) l) = {x \<in> set l. claims x r}" by auto
  then have card: "card {x \<in> set l. claims x r} = length (filter (\<lambda>e. claims e r) l)"
    using dist distinct_card by fastforce
  show "search l r = Inr (Some e) \<longleftrightarrow> {x \<in> set l. claims x r} = {e}"
  proof
    assume "search l r = Inr (Some e)"
    from search_law(2) [OF this] show "{x \<in> set l. claims x r} = {e}"
      using set by simp
  next
    assume e: "{x \<in> set l. claims x r} = {e}"
    then have "length (filter (\<lambda>e. claims e r) l) = 1" using card by simp
    then obtain found where f: "search l r = Inr found"
      using search_law(1) [of l r] by (cases "search l r") auto
    from search_law(2) [OF f] set e show "search l r = Inr (Some e)"
      using f by (cases found) auto
  qed
  show "search l r = Inr None \<longleftrightarrow> {x \<in> set l. claims x r} = {}"
  proof
    assume "search l r = Inr None"
    from search_law(2) [OF this] show "{x \<in> set l. claims x r} = {}"
      using set by simp
  next
    assume e: "{x \<in> set l. claims x r} = {}"
    then have "length (filter (\<lambda>e. claims e r) l) = 0" using card by simp
    then obtain found where f: "search l r = Inr found"
      using search_law(1) [of l r] by (cases "search l r") auto
    from search_law(2) [OF f] set e show "search l r = Inr None"
      using f by (cases found) auto
  qed
qed

end

section \<open>The registries of the bridge\<close>

lemma add_source_eq:
  "add_source s sources l = Inr l' \<longleftrightarrow>
     (case List.find (\<lambda>e. source_name e = source_name s) l of
        None \<Rightarrow> l' = sources @ [s] | Some e \<Rightarrow> so_addr e = so_addr s \<and> l' = sources)"
  by (induction l) auto

lemma unregister_source_eq:
  "distinct (map source_name l) \<Longrightarrow> unregister_source n l = filter (\<lambda>e. source_name e \<noteq> n) l"
proof (induction l)
  case (Cons e l)
  moreover have "filter (\<lambda>x. source_name x \<noteq> source_name e) l = l" if "source_name e \<notin> source_name ` set l"
    using that by (metis (mono_tags, lifting) filter_True image_eqI)
  ultimately show ?case by auto
qed simp

lemma get_source_eq: "get_source l n = List.find (\<lambda>e. source_name e = n) l"
  by (induction l) auto

abbreviation source_claims :: "'r source_ops \<Rightarrow> 'r \<Rightarrow> bool" where
  "source_claims e r \<equiv> the (so_supports_relation e) r"

lemma find_source_from_Some:
  "find_source_from r (Some f) l = (if filter (\<lambda>e. source_claims e r) l = [] then Inr (Some f)
     else Inl (Ereport ERRCODE_DUPLICATE_OBJECT ''multiple pg_batch sources support relation''))"
  by (induction l) auto

lemma find_source_from_None:
  "find_source_from r None l = (case filter (\<lambda>e. source_claims e r) l of
      [] \<Rightarrow> Inr None | [e] \<Rightarrow> Inr (Some e)
    | _ \<Rightarrow> Inl (Ereport ERRCODE_DUPLICATE_OBJECT ''multiple pg_batch sources support relation''))"
proof (induction l)
  case (Cons e l)
  then show ?case
    by (cases "source_claims e r"; cases "filter (\<lambda>e. source_claims e r) l")
      (simp_all add: find_source_from_Some)
qed simp

interpretation sources: registry source_name so_addr "\<lambda>s. source_valid s = Inr ()"
  source_claims register_source unregister_source get_source find_source
proof
  show "register_source x l = Inr l' \<longleftrightarrow>
         (\<exists>s. x = Some s \<and> source_valid s = Inr () \<and>
            (case List.find (\<lambda>e. source_name e = source_name s) l of
               None \<Rightarrow> l' = l @ [s] | Some e \<Rightarrow> so_addr e = so_addr s \<and> l' = l))"
    for x :: "'r source_ops option" and l l'
    by (auto simp: register_source_def rbind_Inr_iff add_source_eq split: option.splits)
  show "unregister_source n l = filter (\<lambda>e. source_name e \<noteq> n) l"
    if "distinct (map source_name l)" for n and l :: "'r source_ops list"
    using that by (rule unregister_source_eq)
  show "get_source l n = List.find (\<lambda>e. source_name e = n) l" for l :: "'r source_ops list" and n
    by (rule get_source_eq)
  show "(\<exists>e. find_source l r = Inl e) \<longleftrightarrow> 2 \<le> length (filter (\<lambda>e. source_claims e r) l)"
    for l :: "'r source_ops list" and r
    by (auto simp: find_source_def find_source_from_None split: list.splits)
  show "filter (\<lambda>e. source_claims e r) l = (case found of None \<Rightarrow> [] | Some e \<Rightarrow> [e])"
    if "find_source l r = Inr found" for l :: "'r source_ops list" and r found
    using that by (auto simp: find_source_def find_source_from_None split: list.splits)
qed

lemma add_node_eq:
  "add_node s nodes l = Inr l' \<longleftrightarrow>
     (case List.find (\<lambda>e. node_name e = node_name s) l of
        None \<Rightarrow> l' = nodes @ [s] | Some e \<Rightarrow> no_addr e = no_addr s \<and> l' = nodes)"
  by (induction l) auto

lemma get_node_eq: "get_node l n = List.find (\<lambda>e. node_name e = n) l"
  by (induction l) auto

lemma list_delete_ptr_eq:
  "distinct (map no_addr l) \<Longrightarrow> list_delete_ptr l p = filter (\<lambda>e. no_addr e \<noteq> p) l"
proof (induction l)
  case (Cons e l)
  moreover have "filter (\<lambda>x. no_addr x \<noteq> no_addr e) l = l" if "no_addr e \<notin> no_addr ` set l"
    using that by (metis (mono_tags, lifting) filter_True image_eqI)
  ultimately show ?case by auto
qed simp

lemma unregister_node_eq:
  assumes "distinct (map node_name l)" "distinct (map no_addr l)"
  shows "unregister_node n l = filter (\<lambda>e. node_name e \<noteq> n) l"
proof (cases "get_node l n")
  case None
  then have "n \<notin> node_name ` set l" by (auto simp: get_node_eq find_None_iff)
  then have "filter (\<lambda>e. node_name e \<noteq> n) l = l"
    by (metis (mono_tags, lifting) filter_True image_eqI)
  with None show ?thesis by (simp add: unregister_node_def)
next
  case (Some e)
  then have e: "e \<in> set l" "node_name e = n" by (auto simp: get_node_eq find_Some_iff)
  have "no_addr x \<noteq> no_addr e \<longleftrightarrow> node_name x \<noteq> n" if "x \<in> set l" for x
    using e that assms by (metis distinct_map inj_onD)
  then have "filter (\<lambda>x. no_addr x \<noteq> no_addr e) l = filter (\<lambda>x. node_name x \<noteq> n) l"
    by (rule filter_cong [OF refl])
  with Some show ?thesis by (simp add: unregister_node_def list_delete_ptr_eq [OF assms(2)])
qed

abbreviation node_claims :: "('r, 'plan) node_ops \<Rightarrow> 'r \<Rightarrow> bool" where
  "node_claims e r \<equiv> the (no_supports_path e) r"

lemma find_node_from_Some:
  "find_node_from r (Some f) l = (if filter (\<lambda>e. node_claims e r) l = [] then Inr (Some f)
     else Inl (Ereport ERRCODE_DUPLICATE_OBJECT ''multiple pg_batch nodes support one plan path''))"
  by (induction l) auto

lemma find_node_from_None:
  "find_node_from r None l = (case filter (\<lambda>e. node_claims e r) l of
      [] \<Rightarrow> Inr None | [e] \<Rightarrow> Inr (Some e)
    | _ \<Rightarrow> Inl (Ereport ERRCODE_DUPLICATE_OBJECT ''multiple pg_batch nodes support one plan path''))"
proof (induction l)
  case (Cons e l)
  then show ?case
    by (cases "node_claims e r"; cases "filter (\<lambda>e. node_claims e r) l")
      (simp_all add: find_node_from_Some)
qed simp

interpretation nodes: registry node_name no_addr "\<lambda>s. node_valid s = Inr ()"
  node_claims register_node unregister_node get_node find_node
proof
  show "register_node x l = Inr l' \<longleftrightarrow>
         (\<exists>s. x = Some s \<and> node_valid s = Inr () \<and>
            (case List.find (\<lambda>e. node_name e = node_name s) l of
               None \<Rightarrow> l' = l @ [s] | Some e \<Rightarrow> no_addr e = no_addr s \<and> l' = l))"
    for x :: "('r, 'plan) node_ops option" and l l'
    by (auto simp: register_node_def rbind_Inr_iff add_node_eq split: option.splits)
  show "unregister_node n l = filter (\<lambda>e. node_name e \<noteq> n) l"
    if "distinct (map node_name l)" "distinct (map no_addr l)" for n and l :: "('r, 'plan) node_ops list"
    using that by (rule unregister_node_eq)
  show "get_node l n = List.find (\<lambda>e. node_name e = n) l" for l :: "('r, 'plan) node_ops list" and n
    by (rule get_node_eq)
  show "(\<exists>e. find_node l r = Inl e) \<longleftrightarrow> 2 \<le> length (filter (\<lambda>e. node_claims e r) l)"
    for l :: "('r, 'plan) node_ops list" and r
    by (auto simp: find_node_def find_node_from_None split: list.splits)
  show "filter (\<lambda>e. node_claims e r) l = (case found of None \<Rightarrow> [] | Some e \<Rightarrow> [e])"
    if "find_node l r = Inr found" for l :: "('r, 'plan) node_ops list" and r found
    using that by (auto simp: find_node_def find_node_from_None split: list.splits)
qed

section \<open>Properties of the registries\<close>

definition sources_wf :: "'r source_ops list \<Rightarrow> bool" where
  "sources_wf l \<longleftrightarrow> distinct (map source_name l) \<and> distinct (map so_addr l) \<and>
     (\<forall>e \<in> set l. source_valid e = Inr ())"

lemma sources_wf_eq: "sources_wf l \<longleftrightarrow> sources.reg_wf l"
  by (simp add: sources_wf_def sources.reg_wf_def)

text \<open>
  C37. The source registry.  From a well-formed registry (names and tables unique,
  every table valid) a successful registration gives a well-formed one in which
  the source is found by its name and every other name answers as before, and
  removing a name removes exactly that source.  \<open>find_source\<close> returns a source
  when it is the only one claiming the relation, none when nobody does, and fails
  when several do.
\<close>

theorem source_registry_correct:
  assumes "sources_wf l" "register_source (Some s) l = Inr l'"
    and "\<forall>e \<in> set l. so_addr e = so_addr s \<longrightarrow> e = s"
  shows "sources_wf l' \<and> sources_wf (unregister_source n l') \<and>
    get_source l' m = (if m = source_name s then Some s else get_source l m) \<and>
    get_source (unregister_source n l') m = (if m = n then None else get_source l' m) \<and>
    (find_source l' r = Inr (Some e) \<longleftrightarrow> {x \<in> set l'. source_claims x r} = {e}) \<and>
    (find_source l' r = Inr None \<longleftrightarrow> (\<forall>x \<in> set l'. \<not> source_claims x r))"
proof -
  note wf = assms(1) [unfolded sources_wf_eq]
  have wf': "sources.reg_wf l'" using sources.register_wf [OF wf assms(2,3)] by blast
  show ?thesis
    unfolding sources_wf_eq
    using sources.get_register [OF wf assms(2,3), of m] sources.get_unregister [OF wf', of n m]
      sources.unregister_wf [OF wf', of n] sources.search_unique [OF wf', of r] wf'
    by auto
qed

definition nodes_wf :: "('r, 'plan) node_ops list \<Rightarrow> bool" where
  "nodes_wf l \<longleftrightarrow> distinct (map node_name l) \<and> distinct (map no_addr l) \<and>
     (\<forall>e \<in> set l. node_valid e = Inr ())"

lemma nodes_wf_eq: "nodes_wf l \<longleftrightarrow> nodes.reg_wf l"
  by (simp add: nodes_wf_def nodes.reg_wf_def)

text \<open>
  The registry of plan nodes keeps the same promises, although it removes a
  node by the address of its table and not by its name.
\<close>

theorem node_registry_correct:
  assumes "nodes_wf l" "register_node (Some s) l = Inr l'"
    and "\<forall>e \<in> set l. no_addr e = no_addr s \<longrightarrow> e = s"
  shows "nodes_wf l' \<and> nodes_wf (unregister_node n l') \<and>
    get_node l' m = (if m = node_name s then Some s else get_node l m) \<and>
    get_node (unregister_node n l') m = (if m = n then None else get_node l' m) \<and>
    (find_node l' r = Inr (Some e) \<longleftrightarrow> {x \<in> set l'. node_claims x r} = {e}) \<and>
    (find_node l' r = Inr None \<longleftrightarrow> (\<forall>x \<in> set l'. \<not> node_claims x r))"
proof -
  note wf = assms(1) [unfolded nodes_wf_eq]
  have wf': "nodes.reg_wf l'" using nodes.register_wf [OF wf assms(2,3)] by blast
  show ?thesis
    unfolding nodes_wf_eq
    using nodes.get_register [OF wf assms(2,3), of m] nodes.get_unregister [OF wf', of n m]
      nodes.unregister_wf [OF wf', of n] nodes.search_unique [OF wf', of r] wf'
    by auto
qed

definition example_source :: "nat \<Rightarrow> string \<Rightarrow> nat \<Rightarrow> nat source_ops" where
  "example_source addr name rel = \<lparr>so_addr = addr, so_abi_version = 1, so_struct_size = 96,
     so_source_name = Some name, so_delivery = PG_BATCH_SOURCE_PULL,
     so_supports_relation = Some (\<lambda>r. r = rel), so_plan_scan = Some 1, so_begin_scan = Some 2,
     so_rescan = Some 3, so_end_scan = Some 4, so_next_batch = Some 5\<rparr>"

lemma example_source_valid: "name \<noteq> [] \<Longrightarrow> source_valid (example_source a name r) = Inr ()"
proof -
  have "abi_size_through PgBatchSourceOps_layout ''end_scan'' = 72"
    "abi_size_through PgBatchSourceOps_layout ''next_batch'' = 80" by code_simp+
  then show "name \<noteq> [] \<Longrightarrow> source_valid (example_source a name r) = Inr ()"
    by (simp add: source_valid_def example_source_def abi_has_field_def validate_abi_def)
qed

theorem source_registry_correct_witness:
  "get_source [example_source 1 ''heap'' 7, example_source 2 ''arrow'' 8] ''arrow'' =
     Some (example_source 2 ''arrow'' 8)"
proof -
  have "sources_wf [example_source 1 ''heap'' 7]"
    using example_source_valid [of "''heap''" 1 7] by (simp add: sources_wf_def)
  moreover have "register_source (Some (example_source 2 ''arrow'' 8)) [example_source 1 ''heap'' 7] =
      Inr [example_source 1 ''heap'' 7, example_source 2 ''arrow'' 8]"
    using example_source_valid [of "''arrow''" 2 8]
    by (simp add: register_source_def) (simp add: example_source_def)
  moreover have "\<forall>e \<in> set [example_source 1 ''heap'' 7].
      so_addr e = so_addr (example_source 2 ''arrow'' 8) \<longrightarrow> e = example_source 2 ''arrow'' 8"
    by (simp add: example_source_def)
  ultimately show ?thesis
    using source_registry_correct [of "[example_source 1 ''heap'' 7]" "example_source 2 ''arrow'' 8"
        "[example_source 1 ''heap'' 7, example_source 2 ''arrow'' 8]" "[]" "''arrow''" 0]
    by (simp add: example_source_def)
qed

definition example_node :: "nat \<Rightarrow> string \<Rightarrow> nat \<Rightarrow> (nat, nat) node_ops" where
  "example_node addr name path = \<lparr>no_addr = addr, no_abi_version = 1, no_struct_size = 48,
     no_node_name = Some name, no_supports_path = Some (\<lambda>p. p = path),
     no_get_layout = Some (\<lambda>_ l. Inr l), no_get_request_binding = Some 1\<rparr>"

lemma example_node_valid: "name \<noteq> [] \<Longrightarrow> node_valid (example_node a name r) = Inr ()"
proof -
  have "abi_size_through PgBatchNodeOps_layout ''get_request_binding'' = 48" by code_simp
  then show "name \<noteq> [] \<Longrightarrow> node_valid (example_node a name r) = Inr ()"
    by (simp add: node_valid_def example_node_def validate_abi_def)
qed

theorem node_registry_correct_witness:
  "get_node (unregister_node ''scan'' [example_node 1 ''scan'' 7, example_node 2 ''agg'' 8]) ''agg'' =
     Some (example_node 2 ''agg'' 8)"
proof -
  have "nodes_wf [example_node 1 ''scan'' 7]"
    using example_node_valid [of "''scan''" 1 7] by (simp add: nodes_wf_def)
  moreover have "register_node (Some (example_node 2 ''agg'' 8)) [example_node 1 ''scan'' 7] =
      Inr [example_node 1 ''scan'' 7, example_node 2 ''agg'' 8]"
    using example_node_valid [of "''agg''" 2 8]
    by (simp add: register_node_def) (simp add: example_node_def)
  moreover have "\<forall>e \<in> set [example_node 1 ''scan'' 7].
      no_addr e = no_addr (example_node 2 ''agg'' 8) \<longrightarrow> e = example_node 2 ''agg'' 8"
    by (simp add: example_node_def)
  ultimately show ?thesis
    using node_registry_correct [of "[example_node 1 ''scan'' 7]" "example_node 2 ''agg'' 8"
        "[example_node 1 ''scan'' 7, example_node 2 ''agg'' 8]" "''scan''" "''agg''" 0]
    by (simp add: example_node_def)
qed

end
