(* ===== verification/Bridge.thy ===== *)
theory Bridge
  imports Registry
begin

text \<open>
  The bridge, \<open>bridge/bridge.c\<close>: bindings attached to tuple slots, the request of
  a binding and its sealing, and the life of a published batch.  Slots, bindings
  and batches are addresses; \<open>br_bindings\<close> and \<open>br_batches\<close> are the parts of the
  heap that hold bindings and batches.  A consumer is its table of callbacks with
  its private state; a callback may also change the private data of the batch.
  Memory contexts are not modelled: the owner of a binding is its slot.  The null
  array of selection words is the empty list.
\<close>

section \<open>State\<close>

record ('p, 'c) consumer_ops =
  co_abi_version :: uint32
  co_struct_size :: nat
  co_accept_batch :: "('c \<Rightarrow> nat \<Rightarrow> 'p batch \<Rightarrow> ('c \<times> 'p) result) option"
  co_select_row :: "('c \<Rightarrow> nat \<Rightarrow> 'p batch \<Rightarrow> int \<Rightarrow> ('c \<times> 'p) result) option"

abbreviation (input) PG_BATCH_OUTPUT_ROWS :: int where "PG_BATCH_OUTPUT_ROWS \<equiv> 0"
abbreviation (input) PG_BATCH_OUTPUT_BATCH :: int where "PG_BATCH_OUTPUT_BATCH \<equiv> 1"

definition PgBatchRequestSpec_layout :: struct_layout where
  "PgBatchRequestSpec_layout =
     [(''struct_size'', 8, 8), (''filter_columns'', 8, 8), (''project_columns'', 8, 8),
      (''output_mode'', 4, 4), (''max_rows'', 4, 4)]"

record request_spec =
  rs_struct_size :: nat
  rs_filter_columns :: "nat set"
  rs_project_columns :: "nat set"
  rs_output_mode :: int
  rs_max_rows :: int

record ('p, 'c) binding =
  bd_slot :: nat
  bd_request :: request_spec
  bd_layout :: layout
  bd_consumer_ops :: "('p, 'c) consumer_ops"
  bd_consumer_state :: 'c
  bd_source_name :: "string option"
  bd_source_state :: "nat option"
  bd_batch :: "nat option"
  bd_validated_ops :: "nat option"
  bd_request_sealed :: bool
  bd_finished :: bool

record ('p, 'c) bridge =
  br_slot_entries :: "nat \<Rightarrow> nat option"
  br_bindings :: "nat \<Rightarrow> ('p, 'c) binding option"
  br_batches :: "nat \<Rightarrow> 'p batch option"
  br_next_generation :: uint64
  br_next_binding :: nat

definition bridge_init :: "('p, 'c) bridge" where
  "bridge_init = \<lparr>br_slot_entries = Map.empty, br_bindings = Map.empty, br_batches = Map.empty,
     br_next_generation = 1, br_next_binding = 0\<rparr>"

definition set_binding :: "nat \<Rightarrow> ('p, 'c) binding \<Rightarrow> ('p, 'c) bridge \<Rightarrow> ('p, 'c) bridge" where
  "set_binding b bd s = s\<lparr>br_bindings := (br_bindings s)(b \<mapsto> bd)\<rparr>"

definition set_batch :: "nat \<Rightarrow> 'p batch \<Rightarrow> ('p, 'c) bridge \<Rightarrow> ('p, 'c) bridge" where
  "set_batch a bt s = s\<lparr>br_batches := (br_batches s)(a \<mapsto> bt)\<rparr>"

text \<open>A dereference of an address the heap does not hold is undefined in C.\<close>

definition deref :: "(nat \<Rightarrow> 'x option) \<Rightarrow> nat \<Rightarrow> ('x \<Rightarrow> 'y result) \<Rightarrow> 'y result" where
  "deref heap a f = (case heap a of None \<Rightarrow> Inl (Elog ''invalid pointer'') | Some x \<Rightarrow> f x)"

lemma deref_Inr_iff: "deref heap a f = Inr y \<longleftrightarrow> (\<exists>x. heap a = Some x \<and> f x = Inr y)"
  by (auto simp: deref_def split: option.splits)

lemma deref_Some [simp]: "heap a = Some x \<Longrightarrow> deref heap a f = f x"
  by (simp add: deref_def)

section \<open>Bindings and requests\<close>

definition find_binding :: "('p, 'c) bridge \<Rightarrow> nat \<Rightarrow> nat option" where
  "find_binding s slot = br_slot_entries s slot"

definition attach_slot ::
  "('p, 'c) bridge \<Rightarrow> nat option \<Rightarrow> layout option \<Rightarrow> ('p, 'c) consumer_ops option \<Rightarrow> 'c \<Rightarrow>
     (nat \<times> ('p, 'c) bridge) result" where
  "attach_slot s slot layout consumer_ops consumer_state =
     (case slot of
        None \<Rightarrow> Inl (Elog ''invalid pg_batch slot configuration'')
      | Some slot \<Rightarrow>
          rbind (check_layout layout) (\<lambda>_.
          case consumer_ops of
            None \<Rightarrow> Inl (Elog ''pg_batch slot requires consumer operations'')
          | Some ops \<Rightarrow>
              rbind (validate_abi (co_abi_version ops) (co_struct_size ops) 1
                (abi_size_through PgBatchConsumerOps_layout ''select_row'')) (\<lambda>_.
              rbind (require (\<not> Option.is_none (co_accept_batch ops) \<and> \<not> Option.is_none (co_select_row ops))
                (Elog ''pg_batch slot requires consumer operations'')) (\<lambda>_.
              rbind (require (br_slot_entries s slot = None)
                (Elog ''pg_batch slot is already configured'')) (\<lambda>_.
              let b = br_next_binding s;
                  l = the layout;
                  bd = \<lparr>bd_slot = slot,
                        bd_request = \<lparr>rs_struct_size = struct_sizeof PgBatchRequestSpec_layout,
                          rs_filter_columns = {}, rs_project_columns = {},
                          rs_output_mode = PG_BATCH_OUTPUT_ROWS, rs_max_rows = 0\<rparr>,
                        bd_layout = l\<lparr>lay_struct_size := struct_sizeof PgBatchLayout_layout,
                          lay_target_columns := map_option (take (nat (lay_ntargets l))) (lay_target_columns l)\<rparr>,
                        bd_consumer_ops = ops, bd_consumer_state = consumer_state,
                        bd_source_name = None, bd_source_state = None, bd_batch = None,
                        bd_validated_ops = None, bd_request_sealed = False, bd_finished = False\<rparr>
              in Inr (b, s\<lparr>br_slot_entries := (br_slot_entries s)(slot \<mapsto> b),
                   br_bindings := (br_bindings s)(b \<mapsto> bd), br_next_binding := b + 1\<rparr>))))))"

definition bms_next_member :: "nat set \<Rightarrow> int \<Rightarrow> int" where
  "bms_next_member members prev =
     (case filter (\<lambda>m. prev < int m) (sorted_list_of_set members) of [] \<Rightarrow> - 2 | m # _ \<Rightarrow> int m)"

definition set_request ::
  "('p, 'c) bridge \<Rightarrow> nat option \<Rightarrow> request_spec option \<Rightarrow> ('p, 'c) bridge result" where
  "set_request s binding spec =
     (case (binding, spec) of
        (Some b, Some spec) \<Rightarrow>
          if rs_struct_size spec < abi_size_through PgBatchRequestSpec_layout ''max_rows''
          then Inl (Elog ''pg_batch received an invalid request specification'')
          else deref (br_bindings s) b (\<lambda>bd.
            rbind (require (\<not> bd_request_sealed bd) (Elog ''pg_batch request is already sealed'')) (\<lambda>_.
            rbind (require (\<not> rs_max_rows spec < 0)
              (Elog ''pg_batch maximum row count cannot be negative'')) (\<lambda>_.
            rbind (require (rs_output_mode spec = PG_BATCH_OUTPUT_ROWS \<or>
                rs_output_mode spec = PG_BATCH_OUTPUT_BATCH)
              (Elog ''pg_batch request has an invalid output mode'')) (\<lambda>_.
            rbind (require (\<not> 0 \<le> bms_next_member (rs_filter_columns spec) (lay_ncolumns (bd_layout bd) - 1))
              (Elog ''pg_batch filter column is out of range'')) (\<lambda>_.
            rbind (require (\<not> 0 \<le> bms_next_member (rs_project_columns spec) (lay_ncolumns (bd_layout bd) - 1))
              (Elog ''pg_batch project column is out of range'')) (\<lambda>_.
            Inr (set_binding b (bd\<lparr>bd_request := (bd_request bd)
                \<lparr>rs_filter_columns := rs_filter_columns spec,
                 rs_project_columns := rs_project_columns spec,
                 rs_output_mode := rs_output_mode spec,
                 rs_max_rows := rs_max_rows spec\<rparr>\<rparr>) s)))))))
      | _ \<Rightarrow> Inl (Elog ''pg_batch received an invalid request specification''))"

definition set_source ::
  "('p, 'c) bridge \<Rightarrow> nat option \<Rightarrow> string option \<Rightarrow> nat option \<Rightarrow> ('p, 'c) bridge result" where
  "set_source s binding name state =
     (case binding of
        None \<Rightarrow> Inl (Elog ''pg_batch cannot configure a null binding'')
      | Some b \<Rightarrow> deref (br_bindings s) b (\<lambda>bd.
          Inr (set_binding b (bd\<lparr>bd_source_name := name, bd_source_state := state\<rparr>) s)))"

definition get_bound_source ::
  "('p, 'c) bridge \<Rightarrow> nat option \<Rightarrow> (nat option \<times> string option) result" where
  "get_bound_source s binding =
     (case binding of
        None \<Rightarrow> Inr (None, None)
      | Some b \<Rightarrow> deref (br_bindings s) b (\<lambda>bd. Inr (bd_source_state bd, bd_source_name bd)))"

text \<open>The request is returned with the layout it points to.\<close>

definition seal_request ::
  "('p, 'c) bridge \<Rightarrow> nat option \<Rightarrow> ((layout \<times> request_spec) option \<times> ('p, 'c) bridge) result" where
  "seal_request s binding =
     (case binding of
        None \<Rightarrow> Inr (None, s)
      | Some b \<Rightarrow> deref (br_bindings s) b (\<lambda>bd.
          Inr (Some (bd_layout bd, bd_request bd), set_binding b (bd\<lparr>bd_request_sealed := True\<rparr>) s)))"

definition get_request ::
  "('p, 'c) bridge \<Rightarrow> nat option \<Rightarrow> (layout \<times> request_spec) option result" where
  "get_request s binding =
     (case binding of
        None \<Rightarrow> Inr None
      | Some b \<Rightarrow> deref (br_bindings s) b (\<lambda>bd. Inr (Some (bd_layout bd, bd_request bd))))"

section \<open>Batches\<close>

definition release_batch :: "('p, 'c) bridge \<Rightarrow> nat \<Rightarrow> ('p, 'c) bridge result" where
  "release_batch s b =
     deref (br_bindings s) b (\<lambda>bd.
       case bd_batch bd of
         None \<Rightarrow> Inr s
       | Some a \<Rightarrow> deref (br_batches s) a (\<lambda>bt.
           let s = set_binding b (bd\<lparr>bd_batch := None, bd_finished := False\<rparr>) s;
               bt = bt\<lparr>b_generation := 0\<rparr>
           in case b_ops bt of
                None \<Rightarrow> Inr (set_batch a bt s)
              | Some ops \<Rightarrow>
                  if abi_has_field (ops_struct_size ops) PgBatchOps_layout ''release'' then
                    (case ops_release ops of
                       None \<Rightarrow> Inr (set_batch a bt s)
                     | Some release \<Rightarrow> Inr (set_batch a (bt\<lparr>b_private := release (b_private bt)\<rparr>) s))
                  else Inr (set_batch a bt s)))"

definition publish_check :: "('p, 'c) binding \<Rightarrow> 'p batch \<Rightarrow> unit result" where
  "publish_check bd bt =
     (let sel = b_selection bt in
      rbind (validate_abi (b_abi_version bt) (b_struct_size bt) 1
        (abi_size_through PgBatch_layout ''generation'')) (\<lambda>_.
      rbind (require (\<not> Option.is_none (b_ops bt) \<and> sel_words sel \<noteq> [] \<and> \<not> sel_nrows sel \<le> 0 \<and>
          sel_nwords sel = (sel_nrows sel + 63) div 64)
        (Elog ''pg_batch source published an invalid batch'')) (\<lambda>_.
      rbind (require (b_generation bt = 0)
        (Elog ''pg_batch source published a batch that is already active'')) (\<lambda>_.
      rbind (require (\<not> (rs_max_rows (bd_request bd) > 0 \<and> sel_nrows sel > rs_max_rows (bd_request bd)))
        (Elog ''pg_batch source exceeded the requested batch size'')) (\<lambda>_.
      require (\<not> (sel_nrows sel mod 64 \<noteq> 0 \<and>
          (sel_words sel ! nat (sel_nwords sel - 1)) AND
            push_bit (nat (sel_nrows sel mod 64)) (- 1) \<noteq> 0))
        (Elog ''pg_batch source selected rows beyond the end of its batch''))))))"

definition publish_validate_ops :: "('p, 'c) binding \<Rightarrow> 'p batch_ops \<Rightarrow> unit result" where
  "publish_validate_ops bd ops =
     (if bd_validated_ops bd \<noteq> Some (ops_addr ops) then
        rbind (validate_abi (ops_abi_version ops) (ops_struct_size ops) 1
          (abi_size_through PgBatchOps_layout ''get_datum_column'')) (\<lambda>_.
        require (\<not> Option.is_none (ops_get_datum_column ops))
          (Elog ''pg_batch source must provide Datum materialization''))
      else Inr ())"

definition take_generation :: "uint64 \<Rightarrow> uint64 result \<times> uint64" where
  "take_generation counter =
     (let generation = counter; counter = counter + 1
      in if generation = 0 then
           (let generation = counter; counter = counter + 1
            in if generation = 0
               then (Inl (Elog ''pg_batch generation counter wrapped around''), counter)
               else (Inr generation, counter))
         else (Inr generation, counter))"

text \<open>
  An error after the first change of state leaves that change behind: the result
  comes with the state.
\<close>

definition publish_batch ::
  "('p, 'c) bridge \<Rightarrow> nat \<Rightarrow> nat option \<Rightarrow> unit result \<times> ('p, 'c) bridge" where
  "publish_batch s b batch =
     (case br_bindings s b of
        None \<Rightarrow> (Inl (Elog ''invalid pointer''), s)
      | Some bd \<Rightarrow>
          if bd_batch bd \<noteq> None then
            (Inl (Elog ''pg_batch source published a new batch before clearing the previous one''), s)
          else
            (case batch of
               None \<Rightarrow> (Inl (Elog ''pg_batch source published an invalid batch''), s)
             | Some a \<Rightarrow>
                 (case br_batches s a of
                    None \<Rightarrow> (Inl (Elog ''invalid pointer''), s)
                  | Some bt \<Rightarrow>
                      (case rbind (publish_check bd bt) (\<lambda>_. publish_validate_ops bd (the (b_ops bt))) of
                         Inl e \<Rightarrow> (Inl e, s)
                       | Inr _ \<Rightarrow>
                           (let bd = bd\<lparr>bd_validated_ops := Some (ops_addr (the (b_ops bt))),
                                        bd_request_sealed := True\<rparr>
                            in case take_generation (br_next_generation s) of
                                 (Inl e, counter) \<Rightarrow>
                                   (Inl e, (set_binding b bd s)\<lparr>br_next_generation := counter\<rparr>)
                               | (Inr generation, counter) \<Rightarrow>
                                   (let bt = bt\<lparr>b_generation := generation\<rparr>;
                                        bd = bd\<lparr>bd_batch := Some a, bd_finished := False\<rparr>;
                                        s = (set_batch a bt (set_binding b bd s))\<lparr>br_next_generation := counter\<rparr>
                                    in case the (co_accept_batch (bd_consumer_ops bd))
                                              (bd_consumer_state bd) (bd_slot bd) bt of
                                         Inl e \<Rightarrow> (Inl e, s)
                                       | Inr (c, p) \<Rightarrow>
                                           (Inr (), set_batch a (bt\<lparr>b_private := p\<rparr>)
                                              (set_binding b (bd\<lparr>bd_consumer_state := c\<rparr>) s))))))))"

definition get_batch :: "('p, 'c) bridge \<Rightarrow> nat option \<Rightarrow> nat option result" where
  "get_batch s binding =
     (case binding of
        None \<Rightarrow> Inr None
      | Some b \<Rightarrow> deref (br_bindings s) b (\<lambda>bd. Inr (bd_batch bd)))"

definition row_in_batch :: "'p batch \<Rightarrow> int \<Rightarrow> bool" where
  "row_in_batch bt row \<longleftrightarrow>
     \<not> (row < 0 \<or> row \<ge> sel_nrows (b_selection bt) \<or> \<not> selection_contains (b_selection bt) row)"

definition select_row :: "('p, 'c) bridge \<Rightarrow> nat \<Rightarrow> int \<Rightarrow> ('p, 'c) bridge result" where
  "select_row s b row =
     deref (br_bindings s) b (\<lambda>bd.
       case bd_batch bd of
         None \<Rightarrow> Inl (Elog ''pg_batch cannot select row'')
       | Some a \<Rightarrow> deref (br_batches s) a (\<lambda>bt.
           rbind (require (\<not> (bd_finished bd \<or> \<not> row_in_batch bt row))
             (Elog ''pg_batch cannot select row'')) (\<lambda>_.
           rbind (the (co_select_row (bd_consumer_ops bd)) (bd_consumer_state bd) (bd_slot bd) bt row)
             (\<lambda>(c, p). Inr (set_batch a (bt\<lparr>b_private := p\<rparr>)
                          (set_binding b (bd\<lparr>bd_consumer_state := c\<rparr>) s))))))"

definition finish :: "('p, 'c) bridge \<Rightarrow> nat \<Rightarrow> ('p, 'c) bridge result" where
  "finish s b =
     deref (br_bindings s) b (\<lambda>bd.
       case bd_batch bd of
         None \<Rightarrow> Inl (Elog ''pg_batch cannot finish a slot without an active batch'')
       | Some a \<Rightarrow>
           rbind (require (\<not> bd_finished bd)
             (Elog ''pg_batch cannot finish a slot without an active batch'')) (\<lambda>_.
           deref (br_batches s) a (\<lambda>bt.
           Inr (set_batch a (bt\<lparr>b_generation := 0\<rparr>) (set_binding b (bd\<lparr>bd_finished := True\<rparr>) s)))))"

definition finished :: "('p, 'c) bridge \<Rightarrow> nat option \<Rightarrow> bool result" where
  "finished s binding =
     (case binding of
        None \<Rightarrow> Inl (Elog ''pg_batch cannot inspect a null binding'')
      | Some b \<Rightarrow> deref (br_bindings s) b (\<lambda>bd. Inr (bd_batch bd = None \<or> bd_finished bd)))"

definition clear_binding :: "('p, 'c) bridge \<Rightarrow> nat option \<Rightarrow> ('p, 'c) bridge result" where
  "clear_binding s binding = (case binding of None \<Rightarrow> Inr s | Some b \<Rightarrow> release_batch s b)"

definition detach_binding :: "('p, 'c) bridge \<Rightarrow> nat option \<Rightarrow> ('p, 'c) bridge result" where
  "detach_binding s binding =
     (case binding of
        None \<Rightarrow> Inr s
      | Some b \<Rightarrow> deref (br_bindings s) b (\<lambda>bd.
          rbind (release_batch s b) (\<lambda>s.
          Inr (s\<lparr>br_slot_entries := (br_slot_entries s)(bd_slot bd := None),
                 br_bindings := (br_bindings s)(b := None)\<rparr>))))"

text \<open>
  The reset callback of the slot's memory context: it drops the entry of the slot;
  the context then frees the binding.
\<close>

definition slot_reset :: "('p, 'c) bridge \<Rightarrow> nat \<Rightarrow> ('p, 'c) bridge" where
  "slot_reset s b =
     (case br_bindings s b of
        None \<Rightarrow> s
      | Some bd \<Rightarrow>
          s\<lparr>br_slot_entries := (br_slot_entries s)(bd_slot bd := None),
            br_bindings := (br_bindings s)(b := None)\<rparr>)"

section \<open>Row views\<close>

definition PgBatchRowView_layout :: struct_layout where
  "PgBatchRowView_layout =
     [(''struct_size'', 8, 8), (''slot'', 8, 8), (''batch'', 8, 8), (''generation'', 8, 8),
      (''consumer_state'', 8, 8), (''select_row'', 8, 8)]"

text \<open>\<open>rv_consumer\<close> is the binding whose consumer state the view points to.\<close>

record ('p, 'c) row_view =
  rv_struct_size :: nat
  rv_slot :: nat
  rv_batch :: "nat option"
  rv_generation :: uint64
  rv_consumer :: nat
  rv_select_row :: "('c \<Rightarrow> nat \<Rightarrow> 'p batch \<Rightarrow> int \<Rightarrow> ('c \<times> 'p) result) option"

definition get_row_view ::
  "('p, 'c) bridge \<Rightarrow> nat option \<Rightarrow> ('p, 'c) row_view option \<Rightarrow> ('p, 'c) row_view result" where
  "get_row_view s binding result =
     (case result of
        None \<Rightarrow> Inl (Elog ''pg_batch received an incompatible row view'')
      | Some v \<Rightarrow>
          if rv_struct_size v < abi_size_through PgBatchRowView_layout ''select_row''
          then Inl (Elog ''pg_batch received an incompatible row view'')
          else
            (case binding of
               None \<Rightarrow> Inl (Elog ''pg_batch binding has no active batch'')
             | Some b \<Rightarrow> deref (br_bindings s) b (\<lambda>bd.
                 case bd_batch bd of
                   None \<Rightarrow> Inl (Elog ''pg_batch binding has no active batch'')
                 | Some a \<Rightarrow>
                     rbind (require (\<not> bd_finished bd)
                       (Elog ''pg_batch binding has no active batch'')) (\<lambda>_.
                     deref (br_batches s) a (\<lambda>bt.
                     Inr (v\<lparr>rv_slot := bd_slot bd, rv_batch := Some a,
                            rv_generation := b_generation bt, rv_consumer := b,
                            rv_select_row := co_select_row (bd_consumer_ops bd)\<rparr>))))))"

definition row_view_ok :: "('p, 'c) bridge \<Rightarrow> ('p, 'c) row_view option \<Rightarrow> int \<Rightarrow> bool" where
  "row_view_ok s view row =
     (case view of
        None \<Rightarrow> False
      | Some v \<Rightarrow>
          abi_size_through PgBatchRowView_layout ''select_row'' \<le> rv_struct_size v \<and>
          (case rv_batch v of
             None \<Rightarrow> False
           | Some a \<Rightarrow>
               rv_generation v \<noteq> 0 \<and>
               (case br_batches s a of
                  None \<Rightarrow> False
                | Some bt \<Rightarrow> b_generation bt = rv_generation v \<and>
                    \<not> Option.is_none (rv_select_row v) \<and> row_in_batch bt row)))"

definition row_view_select ::
  "('p, 'c) bridge \<Rightarrow> ('p, 'c) row_view option \<Rightarrow> int \<Rightarrow> (nat \<times> ('p, 'c) bridge) result" where
  "row_view_select s view row =
     (if \<not> row_view_ok s view row then Inl (Elog ''pg_batch cannot select row'')
      else
        (let v = the view; a = the (rv_batch v)
         in deref (br_batches s) a (\<lambda>bt. deref (br_bindings s) (rv_consumer v) (\<lambda>bd.
              rbind (the (rv_select_row v) (bd_consumer_state bd) (rv_slot v) bt row) (\<lambda>(c, p).
              Inr (rv_slot v, set_batch a (bt\<lparr>b_private := p\<rparr>)
                (set_binding (rv_consumer v) (bd\<lparr>bd_consumer_state := c\<rparr>) s)))))))"

section \<open>Histories\<close>

text \<open>
  What the components sharing the bridge may do, one call at a time.  The calls of
  the bridge are taken as they are, with nothing but their own checks in front.
  Two actions stand for what components do to a batch behind the bridge's back
  (\<open>batch.h\<close>): a source creates or refills a batch no binding holds, with
  generation zero, and whoever works on a held batch changes its selection and its
  private data, not its size.
\<close>

datatype ('p, 'c) action =
    A_attach nat layout "('p, 'c) consumer_ops" 'c
  | A_set_request nat request_spec
  | A_set_source nat "string option" "nat option"
  | A_seal nat
  | A_new_batch nat "'p batch"
  | A_consume nat selection 'p
  | A_publish nat nat
  | A_select nat int
  | A_finish nat
  | A_clear nat
  | A_detach nat
  | A_reset nat

definition held :: "('p, 'c) bridge \<Rightarrow> nat \<Rightarrow> bool" where
  "held s a \<longleftrightarrow> (\<exists>b bd. br_bindings s b = Some bd \<and> bd_batch bd = Some a)"

inductive bridge_step :: "('p, 'c) bridge \<Rightarrow> ('p, 'c) action \<Rightarrow> ('p, 'c) bridge \<Rightarrow> bool" where
  attach: "attach_slot s (Some slot) (Some l) (Some ops) c = Inr (b, s') \<Longrightarrow>
    bridge_step s (A_attach slot l ops c) s'"
| set_request: "set_request s (Some b) (Some spec) = Inr s' \<Longrightarrow> bridge_step s (A_set_request b spec) s'"
| set_source: "set_source s (Some b) name state = Inr s' \<Longrightarrow> bridge_step s (A_set_source b name state) s'"
| seal: "seal_request s (Some b) = Inr (r, s') \<Longrightarrow> bridge_step s (A_seal b) s'"
| new_batch: "\<lbrakk>\<not> held s a; b_generation bt = 0\<rbrakk> \<Longrightarrow> bridge_step s (A_new_batch a bt) (set_batch a bt s)"
| consume: "\<lbrakk>br_batches s a = Some bt; held s a; sel_nrows sel = sel_nrows (b_selection bt)\<rbrakk> \<Longrightarrow>
    bridge_step s (A_consume a sel p) (set_batch a (bt\<lparr>b_selection := sel, b_private := p\<rparr>) s)"
| publish: "publish_batch s b (Some a) = (r, s') \<Longrightarrow> bridge_step s (A_publish b a) s'"
| select: "select_row s b row = Inr s' \<Longrightarrow> bridge_step s (A_select b row) s'"
| finish: "finish s b = Inr s' \<Longrightarrow> bridge_step s (A_finish b) s'"
| clear: "clear_binding s (Some b) = Inr s' \<Longrightarrow> bridge_step s (A_clear b) s'"
| detach: "detach_binding s (Some b) = Inr s' \<Longrightarrow> bridge_step s (A_detach b) s'"
| reset: "slot_reset s b = s' \<Longrightarrow> bridge_step s (A_reset b) s'"

inductive_cases attachE: "bridge_step s (A_attach slot l ops c) s'"
inductive_cases publishE: "bridge_step s (A_publish b a) s'"
inductive_cases finishE: "bridge_step s (A_finish b) s'"
inductive_cases clearE: "bridge_step s (A_clear b) s'"
inductive_cases detachE: "bridge_step s (A_detach b) s'"

inductive bridge_run :: "('p, 'c) bridge \<Rightarrow> ('p, 'c) action list \<Rightarrow> ('p, 'c) bridge \<Rightarrow> bool" where
  Nil: "bridge_run s [] s"
| Cons: "\<lbrakk>bridge_step s act s1; bridge_run s1 acts s2\<rbrakk> \<Longrightarrow> bridge_run s (act # acts) s2"

text \<open>
  \<open>publish_batch\<close> rejects a batch that is active, by its generation, but not one that
  a binding has finished and not cleared yet: finishing has zeroed the generation.  A
  history is \<^emph>\<open>cleared\<close> when no publication uses that gap.
\<close>

definition finished_held :: "('p, 'c) bridge \<Rightarrow> nat \<Rightarrow> bool" where
  "finished_held s a \<longleftrightarrow>
     (\<exists>b bd. br_bindings s b = Some bd \<and> bd_batch bd = Some a \<and> bd_finished bd)"

fun publishes_cleared :: "('p, 'c) bridge \<Rightarrow> ('p, 'c) action \<Rightarrow> bool" where
  "publishes_cleared s (A_publish b a) \<longleftrightarrow> \<not> finished_held s a"
| "publishes_cleared s _ \<longleftrightarrow> True"

inductive cleared_run :: "('p, 'c) bridge \<Rightarrow> ('p, 'c) action list \<Rightarrow> ('p, 'c) bridge \<Rightarrow> bool" where
  Nil: "cleared_run s [] s"
| Cons: "\<lbrakk>bridge_step s act s1; publishes_cleared s act; cleared_run s1 acts s2\<rbrakk> \<Longrightarrow>
    cleared_run s (act # acts) s2"

end
