(* ===== verification/Bridge_Props.thy ===== *)
theory Bridge_Props
  imports Bridge
begin

text \<open>
  What the bridge guarantees over whole histories.  The abstract specification
  \<open>own_step\<close> keeps only who holds which batch, the generation of every batch and
  the generation counter; every step of the bridge simulates a step of it.  In a
  cleared history its invariant gives exclusive ownership of active batches and the
  safety of row views; \<open>finished_batch_republished\<close> shows what happens in another one.
\<close>

section \<open>Ownership of batches\<close>

record ownership =
  ow_holds :: "nat \<Rightarrow> (nat \<times> bool) option"
  ow_gen :: "nat \<Rightarrow> uint64"
  ow_next :: uint64

definition ownership_of :: "('p, 'c) bridge \<Rightarrow> ownership" where
  "ownership_of s = \<lparr>
     ow_holds = (\<lambda>b. Option.bind (br_bindings s b)
        (\<lambda>bd. map_option (\<lambda>a. (a, bd_finished bd)) (bd_batch bd))),
     ow_gen = (\<lambda>a. case br_batches s a of None \<Rightarrow> 0 | Some bt \<Rightarrow> b_generation bt),
     ow_next = br_next_generation s\<rparr>"

definition unheld :: "ownership \<Rightarrow> nat \<Rightarrow> bool" where
  "unheld ow a \<longleftrightarrow> (\<forall>b f. ow_holds ow b \<noteq> Some (a, f))"

fun is_frame :: "('p, 'c) action \<Rightarrow> bool" where
  "is_frame (A_attach _ _ _ _) = True"
| "is_frame (A_set_request _ _) = True"
| "is_frame (A_set_source _ _ _) = True"
| "is_frame (A_seal _) = True"
| "is_frame (A_consume _ _ _) = True"
| "is_frame (A_select _ _) = True"
| "is_frame _ = False"

inductive own_step :: "ownership \<Rightarrow> ('p, 'c) action \<Rightarrow> ownership \<Rightarrow> bool" where
  frame: "is_frame act \<Longrightarrow> own_step ow act ow"
| new_batch: "unheld ow a \<Longrightarrow> own_step ow (A_new_batch a bt) (ow\<lparr>ow_gen := (ow_gen ow)(a := 0)\<rparr>)"
| publish: "\<lbrakk>ow_holds ow b = None; ow_gen ow a = 0; take_generation (ow_next ow) = (Inr g, n)\<rbrakk> \<Longrightarrow>
    own_step ow (A_publish b a)
      (ow\<lparr>ow_holds := (ow_holds ow)(b \<mapsto> (a, False)), ow_gen := (ow_gen ow)(a := g), ow_next := n\<rparr>)"
| refused: "own_step ow (A_publish b a) ow"
| finish: "ow_holds ow b = Some (a, False) \<Longrightarrow> own_step ow (A_finish b)
    (ow\<lparr>ow_holds := (ow_holds ow)(b \<mapsto> (a, True)), ow_gen := (ow_gen ow)(a := 0)\<rparr>)"
| release: "\<lbrakk>act = A_clear b \<or> act = A_detach b; ow_holds ow b = Some (a, f)\<rbrakk> \<Longrightarrow> own_step ow act
    (ow\<lparr>ow_holds := (ow_holds ow)(b := None), ow_gen := (ow_gen ow)(a := 0)\<rparr>)"
| idle: "\<lbrakk>act = A_clear b \<or> act = A_detach b; ow_holds ow b = None\<rbrakk> \<Longrightarrow> own_step ow act ow"
| drop: "own_step ow (A_reset b) (ow\<lparr>ow_holds := (ow_holds ow)(b := None)\<rparr>)"

text \<open>The discipline of cleared histories, on the specification.\<close>

fun settled :: "ownership \<Rightarrow> ('p, 'c) action \<Rightarrow> bool" where
  "settled ow (A_publish b a) \<longleftrightarrow> (\<forall>c. ow_holds ow c \<noteq> Some (a, True))"
| "settled ow _ \<longleftrightarrow> True"

section \<open>The simulation\<close>

definition bindings_wf :: "('p, 'c) bridge \<Rightarrow> bool" where
  "bindings_wf s \<longleftrightarrow>
     (\<forall>b bd. br_bindings s b = Some bd \<longrightarrow>
        b < br_next_binding s \<and> br_slot_entries s (bd_slot bd) = Some b \<and>
        co_accept_batch (bd_consumer_ops bd) \<noteq> None \<and> co_select_row (bd_consumer_ops bd) \<noteq> None) \<and>
     (\<forall>slot b. br_slot_entries s slot = Some b \<longrightarrow>
        (\<exists>bd. br_bindings s b = Some bd \<and> bd_slot bd = slot))"

lemma bindings_wfD:
  assumes "bindings_wf s" "br_bindings s b = Some bd"
  shows "b < br_next_binding s" "br_slot_entries s (bd_slot bd) = Some b"
    "co_accept_batch (bd_consumer_ops bd) \<noteq> None" "co_select_row (bd_consumer_ops bd) \<noteq> None"
  using assms by (auto simp: bindings_wf_def)

lemma bindings_wf_slot:
  assumes "bindings_wf s" "br_slot_entries s slot = Some b"
  shows "\<exists>bd. br_bindings s b = Some bd \<and> bd_slot bd = slot"
  using assms by (simp add: bindings_wf_def)

lemma bindings_wf_init [simp]: "bindings_wf bridge_init"
  by (simp add: bindings_wf_def bridge_init_def)

lemma bindings_wf_update:
  assumes "bindings_wf s" "br_bindings s b = Some bd"
    and "bd_slot bd' = bd_slot bd" "bd_consumer_ops bd' = bd_consumer_ops bd"
  shows "bindings_wf (set_binding b bd' s)"
  unfolding bindings_wf_def
proof (intro conjI allI impI)
  fix c cd assume "br_bindings (set_binding b bd' s) c = Some cd"
  then show "c < br_next_binding (set_binding b bd' s)"
    "br_slot_entries (set_binding b bd' s) (bd_slot cd) = Some c"
    "co_accept_batch (bd_consumer_ops cd) \<noteq> None" "co_select_row (bd_consumer_ops cd) \<noteq> None"
    using bindings_wfD [OF assms(1), of c] bindings_wfD [OF assms(1,2)] assms(3,4)
    by (auto simp: set_binding_def split: if_splits)
next
  fix slot c assume "br_slot_entries (set_binding b bd' s) slot = Some c"
  then show "\<exists>cd. br_bindings (set_binding b bd' s) c = Some cd \<and> bd_slot cd = slot"
    using bindings_wf_slot [OF assms(1), of slot c] assms(2,3) by (auto simp: set_binding_def)
qed

lemma bindings_wf_set_batch [simp]: "bindings_wf (set_batch a bt s) = bindings_wf s"
  by (simp add: bindings_wf_def set_batch_def)

lemma bindings_wf_generation [simp]: "bindings_wf (s\<lparr>br_next_generation := n\<rparr>) = bindings_wf s"
  by (simp add: bindings_wf_def)

lemma bindings_wf_remove:
  assumes "bindings_wf s" "br_bindings s b = Some bd"
  shows "bindings_wf (s\<lparr>br_slot_entries := (br_slot_entries s)(bd_slot bd := None),
    br_bindings := (br_bindings s)(b := None)\<rparr>)"
    (is "bindings_wf ?s")
  unfolding bindings_wf_def
proof (intro conjI allI impI)
  fix c cd assume "br_bindings ?s c = Some cd"
  then have c: "c \<noteq> b" "br_bindings s c = Some cd" by (auto split: if_splits)
  note wf = bindings_wfD [OF assms(1) c(2)]
  show "c < br_next_binding ?s" "co_accept_batch (bd_consumer_ops cd) \<noteq> None"
    "co_select_row (bd_consumer_ops cd) \<noteq> None" using wf by auto
  have "bd_slot cd \<noteq> bd_slot bd" using wf(2) bindings_wfD(2) [OF assms] c(1) by auto
  then show "br_slot_entries ?s (bd_slot cd) = Some c" using wf(2) by simp
next
  fix slot c assume "br_slot_entries ?s slot = Some c"
  then have c: "slot \<noteq> bd_slot bd" "br_slot_entries s slot = Some c" by (auto split: if_splits)
  then obtain cd where "br_bindings s c = Some cd" "bd_slot cd = slot"
    using bindings_wf_slot [OF assms(1)] by blast
  with c(1) assms(2) show "\<exists>cd. br_bindings ?s c = Some cd \<and> bd_slot cd = slot" by auto
qed

lemmas bridge_ops_defs = set_request_def set_source_def seal_request_def select_row_def
  finish_def clear_binding_def detach_binding_def slot_reset_def

lemma release_batch_cases:
  assumes "release_batch s b = Inr s'"
  obtains bd where "br_bindings s b = Some bd" "bd_batch bd = None" "s' = s"
  | bd a bt p where "br_bindings s b = Some bd" "bd_batch bd = Some a" "br_batches s a = Some bt"
      "s' = set_batch a (bt\<lparr>b_generation := 0, b_private := p\<rparr>)
        (set_binding b (bd\<lparr>bd_batch := None, bd_finished := False\<rparr>) s)"
proof -
  from assms obtain bd where bd: "br_bindings s b = Some bd"
    by (auto simp: release_batch_def deref_Inr_iff)
  show thesis
  proof (cases "bd_batch bd")
    case None
    with assms bd show thesis by (auto simp: release_batch_def intro: that(1))
  next
    case (Some a)
    with assms bd obtain bt where bt: "br_batches s a = Some bt"
      by (auto simp: release_batch_def deref_Inr_iff)
    let ?s = "set_binding b (bd\<lparr>bd_batch := None, bd_finished := False\<rparr>) s"
    have eq: "bt\<lparr>b_generation := 0\<rparr> = bt\<lparr>b_generation := 0, b_private := b_private bt\<rparr>" by simp
    have "s' = set_batch a (bt\<lparr>b_generation := 0\<rparr>) ?s \<or>
        (\<exists>p. s' = set_batch a (bt\<lparr>b_generation := 0, b_private := p\<rparr>) ?s)"
      using assms bd bt Some
      by (cases "b_ops bt"; cases "ops_release (the (b_ops bt))")
        (auto simp: release_batch_def Let_def split: if_splits)
    then obtain p where "s' = set_batch a (bt\<lparr>b_generation := 0, b_private := p\<rparr>) ?s"
      using eq by metis
    with bd bt Some show thesis using that(2) by blast
  qed
qed

lemma detach_binding_cases:
  assumes "detach_binding s (Some b) = Inr s'"
  obtains bd s1 where "br_bindings s b = Some bd" "release_batch s b = Inr s1"
    "s' = s1\<lparr>br_slot_entries := (br_slot_entries s1)(bd_slot bd := None),
              br_bindings := (br_bindings s1)(b := None)\<rparr>"
proof -
  from assms obtain bd s1 where "br_bindings s b = Some bd" "release_batch s b = Inr s1"
    "s' = s1\<lparr>br_slot_entries := (br_slot_entries s1)(bd_slot bd := None),
              br_bindings := (br_bindings s1)(b := None)\<rparr>"
    by (auto simp: detach_binding_def deref_Inr_iff rbind_Inr_iff)
  then show thesis by (rule that)
qed

lemma publish_batch_cases:
  assumes "publish_batch s b (Some a) = (r, s')"
  obtains "s' = s" "\<exists>e. r = Inl e"
  | bd bt g n c p where "br_bindings s b = Some bd" "bd_batch bd = None" "br_batches s a = Some bt"
      "publish_check bd bt = Inr ()" "publish_validate_ops bd (the (b_ops bt)) = Inr ()"
      "take_generation (br_next_generation s) = (Inr g, n)"
      "s' = (set_batch a (bt\<lparr>b_generation := g, b_private := p\<rparr>)
         (set_binding b (bd\<lparr>bd_validated_ops := Some (ops_addr (the (b_ops bt))),
           bd_request_sealed := True, bd_batch := Some a, bd_finished := False,
           bd_consumer_state := c\<rparr>) s))\<lparr>br_next_generation := n\<rparr>"
      "r = rbind (the (co_accept_batch (bd_consumer_ops bd)) (bd_consumer_state bd) (bd_slot bd)
         (bt\<lparr>b_generation := g\<rparr>)) (\<lambda>_. Inr ())"
proof (cases "\<exists>bd bt. br_bindings s b = Some bd \<and> bd_batch bd = None \<and> br_batches s a = Some bt \<and>
    publish_check bd bt = Inr () \<and> publish_validate_ops bd (the (b_ops bt)) = Inr ()")
  case False
  then show thesis
    using assms that(1)
    by (auto simp: publish_batch_def rbind_def split: option.splits if_splits sum.splits)
next
  case True
  then obtain bd bt where d: "br_bindings s b = Some bd" "bd_batch bd = None" "br_batches s a = Some bt"
    "publish_check bd bt = Inr ()" "publish_validate_ops bd (the (b_ops bt)) = Inr ()" by blast
  obtain g n where g: "take_generation (br_next_generation s) = (Inr g, n)"
    by (cases "br_next_generation s = 0") (auto simp: take_generation_def Let_def)
  show thesis
  proof (cases "the (co_accept_batch (bd_consumer_ops bd)) (bd_consumer_state bd) (bd_slot bd)
      (bt\<lparr>b_generation := g\<rparr>)")
    case (Inl e)
    have "s' = (set_batch a (bt\<lparr>b_generation := g, b_private := b_private bt\<rparr>)
         (set_binding b (bd\<lparr>bd_validated_ops := Some (ops_addr (the (b_ops bt))),
           bd_request_sealed := True, bd_batch := Some a, bd_finished := False,
           bd_consumer_state := bd_consumer_state bd\<rparr>) s))\<lparr>br_next_generation := n\<rparr>"
      by (rule bridge.equality)
        (use assms d g Inl in \<open>auto simp: publish_batch_def set_batch_def set_binding_def\<close>)
    moreover have "r = rbind (the (co_accept_batch (bd_consumer_ops bd)) (bd_consumer_state bd) (bd_slot bd)
        (bt\<lparr>b_generation := g\<rparr>)) (\<lambda>_. Inr ())"
      using assms d g Inl by (simp add: publish_batch_def)
    ultimately show thesis by (rule that(2) [OF d g])
  next
    case (Inr cp)
    have "s' = (set_batch a (bt\<lparr>b_generation := g, b_private := snd cp\<rparr>)
         (set_binding b (bd\<lparr>bd_validated_ops := Some (ops_addr (the (b_ops bt))),
           bd_request_sealed := True, bd_batch := Some a, bd_finished := False,
           bd_consumer_state := fst cp\<rparr>) s))\<lparr>br_next_generation := n\<rparr>"
      by (rule bridge.equality)
        (use assms d g Inr in \<open>auto simp: publish_batch_def set_batch_def set_binding_def split: prod.splits\<close>)
    moreover have "r = rbind (the (co_accept_batch (bd_consumer_ops bd)) (bd_consumer_state bd) (bd_slot bd)
        (bt\<lparr>b_generation := g\<rparr>)) (\<lambda>_. Inr ())"
      using assms d g Inr by (cases cp) (auto simp: publish_batch_def Let_def)
    ultimately show thesis by (rule that(2) [OF d g])
  qed
qed

lemma publish_check_generation: "publish_check bd bt = Inr () \<Longrightarrow> b_generation bt = 0"
  by (simp add: publish_check_def Let_def rbind_Inr_iff)

text \<open>How the updates of the heap act on the abstract state.\<close>

lemma ownership_of_set_binding:
  "ownership_of (set_binding b bd s) = (ownership_of s)\<lparr>ow_holds :=
     (ow_holds (ownership_of s))(b := map_option (\<lambda>a. (a, bd_finished bd)) (bd_batch bd))\<rparr>"
  by (auto simp: ownership_of_def set_binding_def)

lemma ownership_of_set_batch:
  "ownership_of (set_batch a bt s) = (ownership_of s)\<lparr>ow_gen :=
     (ow_gen (ownership_of s))(a := b_generation bt)\<rparr>"
  by (auto simp: ownership_of_def set_batch_def)

lemma ownership_of_generation:
  "ownership_of (s\<lparr>br_next_generation := n\<rparr>) = (ownership_of s)\<lparr>ow_next := n\<rparr>"
  by (simp add: ownership_of_def)

lemma ownership_of_remove:
  "ownership_of (s\<lparr>br_slot_entries := e, br_bindings := (br_bindings s)(b := None)\<rparr>) =
     (ownership_of s)\<lparr>ow_holds := (ow_holds (ownership_of s))(b := None)\<rparr>"
  by (auto simp: ownership_of_def)

lemma ow_holds_of:
  "br_bindings s b = Some bd \<Longrightarrow>
     ow_holds (ownership_of s) b = map_option (\<lambda>a. (a, bd_finished bd)) (bd_batch bd)"
  by (simp add: ownership_of_def)

lemma ow_gen_of: "br_batches s a = Some bt \<Longrightarrow> ow_gen (ownership_of s) a = b_generation bt"
  by (simp add: ownership_of_def)

lemma ow_next_of [simp]: "ow_next (ownership_of s) = br_next_generation s"
  by (simp add: ownership_of_def)

lemmas ownership_of_simps = ownership_of_set_binding ownership_of_set_batch
  ownership_of_generation ownership_of_remove

lemma unheld_of: "\<not> held s a \<Longrightarrow> unheld (ownership_of s) a"
  by (auto simp: held_def unheld_def ownership_of_def bind_eq_Some_conv)

text \<open>A change of a binding or batch that keeps what the abstract state sees.\<close>

lemma ownership_of_same_binding:
  assumes "br_bindings s b = Some bd" "bd_batch bd' = bd_batch bd" "bd_finished bd' = bd_finished bd"
  shows "ownership_of (set_binding b bd' s) = ownership_of s"
  using assms ow_holds_of [OF assms(1)] by (simp add: ownership_of_set_binding fun_upd_idem)

lemma ownership_of_same_batch:
  assumes "br_batches s a = Some bt" "b_generation bt' = b_generation bt"
  shows "ownership_of (set_batch a bt' s) = ownership_of s"
  using assms ow_gen_of [OF assms(1)] by (simp add: ownership_of_set_batch fun_upd_idem)

lemma br_batches_set_binding [simp]: "br_batches (set_binding b bd s) = br_batches s"
  by (simp add: set_binding_def)

lemma br_bindings_set_batch [simp]: "br_bindings (set_batch a bt s) = br_bindings s"
  by (simp add: set_batch_def)

lemma attach_slot_cases:
  assumes "attach_slot s (Some slot) (Some l) (Some ops) c = Inr (b, s')"
  obtains bd where "b = br_next_binding s" "br_slot_entries s slot = None"
    "bd_slot bd = slot" "bd_consumer_ops bd = ops" "bd_batch bd = None" "\<not> bd_finished bd"
    "\<not> bd_request_sealed bd" "co_accept_batch ops \<noteq> None" "co_select_row ops \<noteq> None"
    "check_layout (Some l) = Inr ()"
    "s' = s\<lparr>br_slot_entries := (br_slot_entries s)(slot \<mapsto> b),
            br_bindings := (br_bindings s)(b \<mapsto> bd), br_next_binding := b + 1\<rparr>"
  using assms
  by (auto simp: attach_slot_def rbind_Inr_iff Let_def Option.is_none_def split: option.splits
      intro!: that)

lemma bindings_wf_attach:
  assumes "bindings_wf s" "br_slot_entries s slot = None" "bd_slot bd = slot"
    and "co_accept_batch (bd_consumer_ops bd) \<noteq> None" "co_select_row (bd_consumer_ops bd) \<noteq> None"
    and "b = br_next_binding s"
  shows "bindings_wf (s\<lparr>br_slot_entries := (br_slot_entries s)(slot \<mapsto> b),
            br_bindings := (br_bindings s)(b \<mapsto> bd), br_next_binding := b + 1\<rparr>)"
    (is "bindings_wf ?s")
  unfolding bindings_wf_def
proof (intro conjI allI impI)
  fix c cd assume c: "br_bindings ?s c = Some cd"
  have "c = b \<and> cd = bd \<or> c \<noteq> b \<and> br_bindings s c = Some cd" using c by (auto split: if_splits)
  then show "c < br_next_binding ?s" "br_slot_entries ?s (bd_slot cd) = Some c"
    "co_accept_batch (bd_consumer_ops cd) \<noteq> None" "co_select_row (bd_consumer_ops cd) \<noteq> None"
    using bindings_wfD [OF assms(1), of c cd] assms(2-6) by auto
next
  fix sl c assume "br_slot_entries ?s sl = Some c"
  then have "sl = slot \<and> c = b \<or> sl \<noteq> slot \<and> br_slot_entries s sl = Some c"
    by (auto split: if_splits)
  then show "\<exists>cd. br_bindings ?s c = Some cd \<and> bd_slot cd = sl"
    using bindings_wf_slot [OF assms(1), of sl c] bindings_wfD(1) [OF assms(1), of c] assms(3,6) by auto
qed

lemma bindings_wf_fresh: "bindings_wf s \<Longrightarrow> br_bindings s (br_next_binding s) = None"
  using bindings_wfD(1) [of s "br_next_binding s"] by (cases "br_bindings s (br_next_binding s)") auto

text \<open>
  Every step of the bridge is a step of the specification and keeps the bindings
  well-formed.
\<close>

lemma simulation_frame:
  assumes "bridge_step s act s'" "bindings_wf s" "is_frame act"
  shows "ownership_of s' = ownership_of s \<and> bindings_wf s'"
  using assms(1)
proof cases
  case (attach slot l ops c b)
  from attach(2) show ?thesis
  proof (cases rule: attach_slot_cases)
    case (1 bd)
    have "ownership_of s' = ownership_of s"
      using bindings_wf_fresh [OF assms(2)] 1 by (auto simp: ownership_of_def)
    moreover have "bindings_wf s'"
      unfolding 1(11) using 1 by (intro bindings_wf_attach [OF assms(2)]) auto
    ultimately show ?thesis by blast
  qed
next
  case (set_request b spec)
  then obtain bd bd' where "br_bindings s b = Some bd" "s' = set_binding b bd' s"
    "bd_batch bd' = bd_batch bd" "bd_finished bd' = bd_finished bd"
    "bd_slot bd' = bd_slot bd" "bd_consumer_ops bd' = bd_consumer_ops bd"
    by (auto simp: set_request_def deref_Inr_iff rbind_Inr_iff split: if_splits)
  then show ?thesis by (simp add: ownership_of_same_binding bindings_wf_update assms(2))
next
  case (set_source b name state)
  then obtain bd bd' where "br_bindings s b = Some bd" "s' = set_binding b bd' s"
    "bd_batch bd' = bd_batch bd" "bd_finished bd' = bd_finished bd"
    "bd_slot bd' = bd_slot bd" "bd_consumer_ops bd' = bd_consumer_ops bd"
    by (auto simp: set_source_def deref_Inr_iff)
  then show ?thesis by (simp add: ownership_of_same_binding bindings_wf_update assms(2))
next
  case (seal b r)
  then obtain bd bd' where "br_bindings s b = Some bd" "s' = set_binding b bd' s"
    "bd_batch bd' = bd_batch bd" "bd_finished bd' = bd_finished bd"
    "bd_slot bd' = bd_slot bd" "bd_consumer_ops bd' = bd_consumer_ops bd"
    by (auto simp: seal_request_def deref_Inr_iff)
  then show ?thesis by (simp add: ownership_of_same_binding bindings_wf_update assms(2))
next
  case (consume a bt sel p)
  then show ?thesis by (simp add: ownership_of_same_batch assms(2))
next
  case (select b row)
  then obtain bd bd' a bt bt' where "br_bindings s b = Some bd" "br_batches s a = Some bt"
    "s' = set_batch a bt' (set_binding b bd' s)"
    "bd_batch bd' = bd_batch bd" "bd_finished bd' = bd_finished bd"
    "bd_slot bd' = bd_slot bd" "bd_consumer_ops bd' = bd_consumer_ops bd"
    "b_generation bt' = b_generation bt"
    by (force simp: select_row_def deref_Inr_iff rbind_Inr_iff split: option.splits)
  then show ?thesis
    by (simp add: ownership_of_same_binding ownership_of_same_batch [of "set_binding b bd' s"]
        bindings_wf_update assms(2))
qed (use assms(3) in simp_all)

lemma simulation_release:
  assumes "release_batch s b = Inr s'" "bindings_wf s" "act = A_clear b \<or> act = A_detach b"
  shows "own_step (ownership_of s) act (ownership_of s') \<and> bindings_wf s' \<and>
    ow_holds (ownership_of s') b = None \<and>
    (\<forall>bd. br_bindings s b = Some bd \<longrightarrow>
      (\<exists>bd'. br_bindings s' b = Some bd' \<and> bd_slot bd' = bd_slot bd))"
  using assms(1)
proof (cases rule: release_batch_cases)
  case (1 bd)
  then show ?thesis
    using assms(2,3) by (auto simp: ow_holds_of intro: own_step.idle)
next
  case (2 bd a bt p)
  have "own_step (ownership_of s) act ((ownership_of s)\<lparr>
      ow_holds := (ow_holds (ownership_of s))(b := None),
      ow_gen := (ow_gen (ownership_of s))(a := 0)\<rparr>)"
    using assms(3) 2 by (intro own_step.release) (auto simp: ow_holds_of)
  with 2 assms(2) show ?thesis
    by (auto simp: ownership_of_simps bindings_wf_update) (simp add: set_batch_def set_binding_def)
qed

lemma bridge_simulation_step:
  assumes "bridge_step s act s'" "bindings_wf s"
  shows "own_step (ownership_of s) act (ownership_of s') \<and> bindings_wf s'"
proof (cases "is_frame act")
  case True
  with simulation_frame [OF assms] show ?thesis by (simp add: own_step.frame)
next
  case False
  from assms(1) show ?thesis
  proof cases
    case (new_batch a bt)
    with assms(2) show ?thesis
      by (simp add: ownership_of_set_batch own_step.new_batch unheld_of)
  next
    case (publish b a r)
    from publish(2) show ?thesis
    proof (cases rule: publish_batch_cases)
      case 1
      with publish assms(2) show ?thesis by (simp add: own_step.refused)
    next
      case (2 bd bt g n c p)
      then have "ow_holds (ownership_of s) b = None" by (simp add: ow_holds_of)
      moreover have "ow_gen (ownership_of s) a = 0"
        using publish_check_generation [OF 2(4)] 2(3) by (simp add: ow_gen_of)
      ultimately show ?thesis
        using 2 publish assms(2)
        by (simp add: ownership_of_simps bindings_wf_update) (simp add: own_step.publish)
    qed
  next
    case (finish b)
    then obtain bd a bt where d: "br_bindings s b = Some bd" "bd_batch bd = Some a" "\<not> bd_finished bd"
      "br_batches s a = Some bt"
      "s' = set_batch a (bt\<lparr>b_generation := 0\<rparr>) (set_binding b (bd\<lparr>bd_finished := True\<rparr>) s)"
      by (auto simp: finish_def deref_Inr_iff rbind_Inr_iff split: option.splits)
    then have "ow_holds (ownership_of s) b = Some (a, False)" by (simp add: ow_holds_of)
    with d finish assms(2) show ?thesis
      by (simp add: ownership_of_simps bindings_wf_update) (simp add: own_step.finish)
  next
    case (clear b)
    then have "release_batch s b = Inr s'" by (simp add: clear_binding_def)
    from simulation_release [OF this assms(2)] clear show ?thesis by blast
  next
    case (detach b)
    from detach(2) obtain bd s1 where d: "br_bindings s b = Some bd" "release_batch s b = Inr s1"
      "s' = s1\<lparr>br_slot_entries := (br_slot_entries s1)(bd_slot bd := None),
                 br_bindings := (br_bindings s1)(b := None)\<rparr>"
      by (rule detach_binding_cases)
    have sim: "own_step (ownership_of s) act (ownership_of s1)" "bindings_wf s1"
      "ow_holds (ownership_of s1) b = None"
      using simulation_release [OF d(2) assms(2), of act] detach by auto
    obtain bd' where "br_bindings s1 b = Some bd'" "bd_slot bd' = bd_slot bd"
      using simulation_release [OF d(2) assms(2), of act] detach d(1) by auto
    then show ?thesis
      using sim bindings_wf_remove [of s1 b bd'] by (simp add: d(3) ownership_of_remove fun_upd_idem)
  next
    case (reset b)
    show ?thesis
    proof (cases "br_bindings s b")
      case None
      then have "(ownership_of s)\<lparr>ow_holds := (ow_holds (ownership_of s))(b := None)\<rparr> = ownership_of s"
        by (simp add: ownership_of_def fun_upd_idem)
      with reset None assms(2) own_step.drop [of "ownership_of s" b] show ?thesis
        by (simp add: slot_reset_def)
    next
      case (Some bd)
      with reset assms(2) show ?thesis
        by (auto simp: slot_reset_def ownership_of_remove bindings_wf_remove intro: own_step.drop)
    qed
  qed (use False in simp_all)
qed

section \<open>The invariant of the specification\<close>

inductive own_run :: "ownership \<Rightarrow> ('p, 'c) action list \<Rightarrow> ownership \<Rightarrow> bool" where
  Nil: "own_run ow [] ow"
| Cons: "\<lbrakk>own_step ow act ow1; own_run ow1 acts ow2\<rbrakk> \<Longrightarrow> own_run ow (act # acts) ow2"

inductive settled_run :: "ownership \<Rightarrow> ('p, 'c) action list \<Rightarrow> ownership \<Rightarrow> bool" where
  Nil: "settled_run ow [] ow"
| Cons: "\<lbrakk>own_step ow act ow1; settled ow act; settled_run ow1 acts ow2\<rbrakk> \<Longrightarrow>
    settled_run ow (act # acts) ow2"

inductive_cases settled_run_NilE [elim!]: "settled_run ow [] ow'"
inductive_cases settled_run_ConsE [elim!]: "settled_run ow (act # acts) ow'"
inductive_cases bridge_run_NilE [elim!]: "bridge_run s [] s'"
inductive_cases bridge_run_ConsE [elim!]: "bridge_run s (act # acts) s'"

lemma simulation_run:
  assumes "bridge_run s acts s'" "bindings_wf s"
  shows "own_run (ownership_of s) acts (ownership_of s') \<and> bindings_wf s'"
  using assms by (induction rule: bridge_run.induct) (metis bridge_simulation_step own_run.simps)+

lemma settled_of: "publishes_cleared s act \<Longrightarrow> settled (ownership_of s) act"
  by (cases act) (auto simp: finished_held_def ownership_of_def bind_eq_Some_conv)

lemma cleared_bridge_run: "cleared_run s acts s' \<Longrightarrow> bridge_run s acts s'"
  by (induction rule: cleared_run.induct) (auto intro: bridge_run.intros)

lemma bridge_run_append:
  "bridge_run s acts s1 \<Longrightarrow> bridge_run s1 acts' s2 \<Longrightarrow> bridge_run s (acts @ acts') s2"
  by (induction rule: bridge_run.induct) (auto intro: bridge_run.Cons)

lemma simulation_cleared_run:
  assumes "cleared_run s acts s'" "bindings_wf s"
  shows "settled_run (ownership_of s) acts (ownership_of s') \<and> bindings_wf s'"
  using assms
proof (induction rule: cleared_run.induct)
  case (Nil s)
  then show ?case by (simp add: settled_run.Nil)
next
  case (Cons s act s1 acts s2)
  then show ?case
    using bridge_simulation_step [OF Cons.hyps(1) Cons.prems]
    by (auto intro: settled_run.Cons settled_of)
qed

text \<open>
  A batch has one holder at most, an active batch a nonzero generation, and every
  generation is below the counter, as long as the counter has not wrapped.
\<close>

definition own_inv :: "ownership \<Rightarrow> bool" where
  "own_inv ow \<longleftrightarrow>
     (\<forall>b b' a f f'. ow_holds ow b = Some (a, f) \<longrightarrow> ow_holds ow b' = Some (a, f') \<longrightarrow> b = b') \<and>
     (\<forall>b a. ow_holds ow b = Some (a, False) \<longrightarrow> ow_gen ow a \<noteq> 0) \<and>
     (\<forall>a. ow_gen ow a < ow_next ow)"

lemma own_invI:
  assumes "\<And>b b' a f f'. ow_holds ow b = Some (a, f) \<Longrightarrow> ow_holds ow b' = Some (a, f') \<Longrightarrow> b = b'"
    and "\<And>b a. ow_holds ow b = Some (a, False) \<Longrightarrow> ow_gen ow a \<noteq> 0"
    and "\<And>a. ow_gen ow a < ow_next ow"
  shows "own_inv ow"
  using assms unfolding own_inv_def by blast

lemma own_invD:
  assumes "own_inv ow"
  shows "ow_holds ow b = Some (a, f) \<Longrightarrow> ow_holds ow b' = Some (a, f') \<Longrightarrow> b = b'"
    and "ow_holds ow b = Some (a, False) \<Longrightarrow> ow_gen ow a \<noteq> 0"
    and "ow_gen ow a < ow_next ow" "0 < ow_next ow"
proof -
  show "ow_gen ow a < ow_next ow" using assms by (simp add: own_inv_def)
  then show "0 < ow_next ow" by (metis word_gt_0 word_not_simps(1))
qed (use assms in \<open>auto simp: own_inv_def\<close>)

lemma take_generation_inv:
  assumes "take_generation n = (Inr g, n')" "0 < n" "unat n + 1 < 2 ^ 64"
  shows "g = n" "n < n'" "unat n' = unat n + 1"
proof -
  have n: "n \<noteq> 0" using assms(2) by auto
  show "g = n" using assms(1) n by (simp add: take_generation_def Let_def)
  have n': "n' = n + 1" using assms(1) n by (auto simp: take_generation_def Let_def)
  show "unat n' = unat n + 1" using assms(3) n' by (simp add: unat_word_ariths)
  then show "n < n'" by (simp add: word_less_nat_alt)
qed

text \<open>The check of the generation keeps a batch from a second holder, unless one has finished it.\<close>

lemma settled_unheld:
  assumes "own_inv ow" "settled ow (A_publish b a)" "ow_gen ow a = 0"
  shows "unheld ow a"
proof -
  have "ow_holds ow c \<noteq> Some (a, f)" for c f
    using assms own_invD(2) [OF assms(1), of c a] by (cases f) auto
  then show ?thesis by (simp add: unheld_def)
qed

lemma own_step_inv:
  assumes "own_step ow act ow'" "settled ow act" "own_inv ow" "unat (ow_next ow) + 1 < 2 ^ 64"
  shows "own_inv ow' \<and> ow_next ow \<le> ow_next ow' \<and> unat (ow_next ow') \<le> unat (ow_next ow) + 1"
  using assms(1)
proof cases
  case (new_batch a bt)
  with own_invD [OF assms(3)] show ?thesis
    by (auto intro!: own_invI simp: unheld_def split: if_splits)
next
  case (publish b a g n)
  have free: "unheld ow a" using settled_unheld [OF assms(3)] assms(2) publish by simp
  note t = take_generation_inv [OF publish(5) own_invD(4) [OF assms(3)] assms(4)]
  have less: "ow_gen ow x < n" for x
    using own_invD(3) [OF assms(3), of x] t(2) by (rule order.strict_trans)
  have "own_inv ow'"
  proof (rule own_invI)
    fix c c' x f f' assume "ow_holds ow' c = Some (x, f)" "ow_holds ow' c' = Some (x, f')"
    then show "c = c'"
      using own_invD(1) [OF assms(3), of c x f c' f'] publish(2) free
      by (auto simp: unheld_def split: if_splits)
  next
    fix c x assume "ow_holds ow' c = Some (x, False)"
    then show "ow_gen ow' x \<noteq> 0"
      using own_invD(2) [OF assms(3), of c x] own_invD(4) [OF assms(3)] t(1) publish(2)
      by (auto split: if_splits)
  next
    fix x show "ow_gen ow' x < ow_next ow'"
      using less t(1,2) publish(2) by auto
  qed
  with t publish show ?thesis by simp
next
  case (finish b a)
  have "own_inv ow'"
  proof (rule own_invI)
    fix c c' x f f' assume "ow_holds ow' c = Some (x, f)" "ow_holds ow' c' = Some (x, f')"
    then show "c = c'"
      using own_invD(1) [OF assms(3), of _ x] finish by (auto split: if_splits)
  next
    fix c x assume c: "ow_holds ow' c = Some (x, False)"
    then have "ow_holds ow c = Some (x, False)" "c \<noteq> b" using finish by (auto split: if_splits)
    moreover from this have "x \<noteq> a"
      using own_invD(1) [OF assms(3), of c x False b False] finish by auto
    ultimately show "ow_gen ow' x \<noteq> 0" using own_invD(2) [OF assms(3)] finish by auto
  qed (use own_invD(3,4) [OF assms(3)] finish in auto)
  with finish show ?thesis by simp
next
  case (release b a f)
  have "own_inv ow'"
  proof (rule own_invI)
    fix c c' x f f' assume "ow_holds ow' c = Some (x, f)" "ow_holds ow' c' = Some (x, f')"
    then show "c = c'"
      using own_invD(1) [OF assms(3), of c x f c' f'] release by (auto split: if_splits)
  next
    fix c x assume c: "ow_holds ow' c = Some (x, False)"
    then have "ow_holds ow c = Some (x, False)" "c \<noteq> b" using release by (auto split: if_splits)
    moreover from this have "x \<noteq> a"
      using own_invD(1) [OF assms(3), of c x False b f] release by auto
    ultimately show "ow_gen ow' x \<noteq> 0" using own_invD(2) [OF assms(3)] release by auto
  qed (use own_invD(3,4) [OF assms(3)] release in auto)
  with release show ?thesis by simp
next
  case (drop b)
  with own_invD [OF assms(3)] show ?thesis
    by (auto intro!: own_invI split: if_splits)
qed (use assms(3) in auto)

lemma settled_run_inv:
  assumes "settled_run ow acts ow'" "own_inv ow" "unat (ow_next ow) + length acts < 2 ^ 64"
  shows "own_inv ow' \<and> unat (ow_next ow') \<le> unat (ow_next ow) + length acts"
  using assms
proof (induction acts arbitrary: ow)
  case (Cons act acts)
  then obtain ow1 where s: "own_step ow act ow1" "settled ow act" "settled_run ow1 acts ow'" by blast
  have "own_inv ow1 \<and> unat (ow_next ow1) \<le> unat (ow_next ow) + 1"
    using own_step_inv [OF s(1,2) Cons.prems(2)] Cons.prems(3) by simp
  with Cons.IH [OF s(3)] Cons.prems(3) show ?case by auto
qed auto

definition own_init :: ownership where
  "own_init = \<lparr>ow_holds = Map.empty, ow_gen = (\<lambda>_. 0), ow_next = 1\<rparr>"

lemma ownership_of_init [simp]: "ownership_of bridge_init = own_init"
  by (simp add: ownership_of_def bridge_init_def own_init_def)

lemma own_inv_init [simp]: "own_inv own_init"
  by (rule own_invI) (simp_all add: own_init_def)

section \<open>Row views\<close>

definition releases :: "nat \<Rightarrow> ('p, 'c) action set" where
  "releases b = {A_finish b, A_clear b, A_detach b}"

text \<open>A view stays live until its binding lets the batch go, and then is dead for ever.\<close>

definition live_view :: "nat \<Rightarrow> nat \<Rightarrow> uint64 \<Rightarrow> ownership \<Rightarrow> bool" where
  "live_view b a g ow \<longleftrightarrow> ow_holds ow b = Some (a, False) \<and> ow_gen ow a = g"

definition dead_view :: "nat \<Rightarrow> uint64 \<Rightarrow> ownership \<Rightarrow> bool" where
  "dead_view a g ow \<longleftrightarrow> ow_gen ow a \<noteq> g \<and> g < ow_next ow"

lemma dead_view_step:
  assumes "own_step ow act ow'" "settled ow act" "own_inv ow" "unat (ow_next ow) + 1 < 2 ^ 64"
    and "dead_view a g ow" "g \<noteq> 0"
  shows "dead_view a g ow'"
proof -
  have mono: "ow_next ow \<le> ow_next ow'" using own_step_inv [OF assms(1-4)] by blast
  have "ow_gen ow' a \<noteq> g"
    using assms(1)
  proof cases
    case (publish b c h n)
    have "h = ow_next ow"
      using take_generation_inv(1) [OF publish(5) own_invD(4) [OF assms(3)] assms(4)] .
    with publish assms(5) show ?thesis by (auto simp: dead_view_def)
  qed (use assms(5,6) in \<open>auto simp: dead_view_def\<close>)
  with mono assms(5) show ?thesis by (auto simp: dead_view_def)
qed

lemma live_view_step:
  assumes "own_step ow act ow'" "settled ow act" "own_inv ow" "unat (ow_next ow) + 1 < 2 ^ 64"
    and "live_view b a g ow" "act \<noteq> A_reset b"
  shows "if act \<in> releases b then dead_view a g ow' else live_view b a g ow'"
proof -
  have g: "g \<noteq> 0" "g < ow_next ow"
    using own_invD(2,3) [OF assms(3)] assms(5) by (auto simp: live_view_def)
  have other: "c = b" if "ow_holds ow c = Some (a, f)" for c f
    using own_invD(1) [OF assms(3) that, of b False] assms(5) by (simp add: live_view_def)
  show ?thesis
    using assms(1)
  proof cases
    case (frame)
    with assms(5) show ?thesis by (cases act) (simp_all add: releases_def)
  next
    case (new_batch x bt)
    then have "x \<noteq> a" using assms(5) by (auto simp: live_view_def unheld_def)
    with new_batch assms(5) show ?thesis by (simp add: live_view_def releases_def)
  next
    case (publish c x h n)
    then have "unheld ow x" using settled_unheld [OF assms(3)] assms(2) by simp
    with publish have "x \<noteq> a" "c \<noteq> b" using assms(5) by (auto simp: live_view_def unheld_def)
    with publish assms(5) show ?thesis by (simp add: live_view_def releases_def)
  next
    case (refused c x)
    with assms(5) show ?thesis by (simp add: releases_def)
  next
    case (finish c x)
    then have "c = b \<longleftrightarrow> x = a" using assms(5) other [of c False] by (auto simp: live_view_def)
    with finish assms(5) g show ?thesis
      by (auto simp: live_view_def dead_view_def releases_def)
  next
    case (release c x f)
    then have "c = b \<longleftrightarrow> x = a" using assms(5) other [of c f] by (auto simp: live_view_def)
    with release assms(5) g show ?thesis
      by (auto simp: live_view_def dead_view_def releases_def)
  next
    case (idle c)
    then have "c \<noteq> b" using assms(5) by (auto simp: live_view_def)
    with idle assms(5) show ?thesis by (auto simp: releases_def)
  next
    case (drop c)
    then have "c \<noteq> b" using assms(6) by auto
    with drop assms(5) show ?thesis by (simp add: live_view_def releases_def)
  qed
qed

lemma view_run:
  assumes "settled_run ow acts ow'" "own_inv ow" "unat (ow_next ow) + length acts < 2 ^ 64" "g \<noteq> 0"
  shows "dead_view a g ow \<Longrightarrow> dead_view a g ow'"
    and "live_view b a g ow \<Longrightarrow> A_reset b \<notin> set acts \<Longrightarrow>
      if set acts \<inter> releases b = {} then live_view b a g ow' else dead_view a g ow'"
  using assms(1-3)
proof (induction acts arbitrary: ow)
  case (Cons act acts)
  {
    case 1
    then obtain ow1 where s: "own_step ow act ow1" "settled ow act" "settled_run ow1 acts ow'" by blast
    have "unat (ow_next ow) + 1 < 2 ^ 64" using 1(4) by simp
    note step = own_step_inv [OF s(1,2) 1(3) this] dead_view_step [OF s(1,2) 1(3) this 1(1) assms(4)]
    then show ?case using Cons.IH(1) [OF _ s(3)] 1(4) by auto
  next
    case 2
    then obtain ow1 where s: "own_step ow act ow1" "settled ow act" "settled_run ow1 acts ow'" by blast
    have "unat (ow_next ow) + 1 < 2 ^ 64" using 2(5) by simp
    moreover have "act \<noteq> A_reset b" using 2(2) by auto
    ultimately have step: "own_inv ow1" "unat (ow_next ow1) \<le> unat (ow_next ow) + 1"
      "if act \<in> releases b then dead_view a g ow1 else live_view b a g ow1"
      using own_step_inv [OF s(1,2) 2(4)] live_view_step [OF s(1,2) 2(4) _ 2(1)] by auto
    show ?case
    proof (cases "act \<in> releases b")
      case True
      then show ?thesis using Cons.IH(1) [OF _ s(3) step(1)] step(2,3) 2(5) by auto
    next
      case False
      then show ?thesis using Cons.IH(2) [OF _ _ s(3) step(1)] step(2,3) 2(2,5) by auto
    qed
  }
qed auto

section \<open>Requests\<close>

definition same_request :: "('p, 'c) binding \<Rightarrow> ('p, 'c) binding \<Rightarrow> bool" where
  "same_request bd bd' \<longleftrightarrow> bd_request_sealed bd' \<and> bd_request bd' = bd_request bd \<and> bd_layout bd' = bd_layout bd"

definition keeps_request :: "nat \<Rightarrow> ('p, 'c) bridge \<Rightarrow> ('p, 'c) bridge \<Rightarrow> bool" where
  "keeps_request b s s' \<longleftrightarrow>
     (\<forall>bd. br_bindings s b = Some bd \<longrightarrow> bd_request_sealed bd \<longrightarrow>
        (\<forall>bd'. br_bindings s' b = Some bd' \<longrightarrow> same_request bd bd'))"

lemma keeps_request_set_binding:
  assumes "br_bindings s c = Some cd" "bd_request_sealed cd \<Longrightarrow> same_request cd cd'"
  shows "keeps_request b s (set_binding c cd' s)" "keeps_request b s (set_batch a bt (set_binding c cd' s))"
    "keeps_request b s ((set_batch a bt (set_binding c cd' s))\<lparr>br_next_generation := n\<rparr>)"
  using assms by (auto simp: keeps_request_def set_binding_def set_batch_def same_request_def)

lemma keeps_request_refl [simp]: "keeps_request b s s" "keeps_request b s (set_batch a bt s)"
  by (auto simp: keeps_request_def set_batch_def same_request_def)

lemma keeps_request_release:
  assumes "release_batch s c = Inr s'"
  shows "keeps_request b s s'"
  using assms by (cases rule: release_batch_cases)
    (auto intro!: keeps_request_set_binding simp: same_request_def)

lemma keeps_request_step:
  assumes "bridge_step s act s'" "bindings_wf s"
  shows "keeps_request b s s'"
  using assms(1)
proof cases
  case (attach slot l ops c d)
  from attach(2) show ?thesis
  proof (cases rule: attach_slot_cases)
    case (1 bd)
    then show ?thesis
      using bindings_wf_fresh [OF assms(2)] by (auto simp: keeps_request_def same_request_def)
  qed
next
  case (set_request c spec)
  then obtain cd cd' where "br_bindings s c = Some cd" "\<not> bd_request_sealed cd" "s' = set_binding c cd' s"
    by (auto simp: set_request_def deref_Inr_iff rbind_Inr_iff split: if_splits)
  then show ?thesis by (auto intro!: keeps_request_set_binding)
next
  case (set_source c name state)
  then show ?thesis
    by (auto simp: set_source_def deref_Inr_iff same_request_def intro!: keeps_request_set_binding)
next
  case (seal c r)
  then show ?thesis
    by (auto simp: seal_request_def deref_Inr_iff same_request_def intro!: keeps_request_set_binding)
next
  case (publish c a r)
  from publish(2) show ?thesis
    by (cases rule: publish_batch_cases)
      (auto simp: same_request_def intro!: keeps_request_set_binding)
next
  case (select c row)
  then show ?thesis
    by (auto simp: select_row_def deref_Inr_iff rbind_Inr_iff same_request_def
        intro!: keeps_request_set_binding split: option.splits)
next
  case (finish c)
  then show ?thesis
    by (auto simp: finish_def deref_Inr_iff rbind_Inr_iff same_request_def
        intro!: keeps_request_set_binding split: option.splits)
next
  case (clear c)
  then show ?thesis by (simp add: clear_binding_def keeps_request_release)
next
  case (detach c)
  from detach(2) obtain cd s1 where "br_bindings s c = Some cd" "release_batch s c = Inr s1"
    "s' = s1\<lparr>br_slot_entries := (br_slot_entries s1)(bd_slot cd := None),
                 br_bindings := (br_bindings s1)(c := None)\<rparr>"
    by (rule detach_binding_cases)
  with keeps_request_release [of s c s1 b] show ?thesis by (simp add: keeps_request_def)
next
  case (reset c)
  then show ?thesis
    by (auto simp: slot_reset_def keeps_request_def same_request_def split: option.splits if_splits)
qed auto

text \<open>A binding that is gone never comes back: new bindings are new objects.\<close>

lemma gone_step:
  assumes "bridge_step s act s'" "bindings_wf s" "br_bindings s b = None" "b < br_next_binding s"
  shows "br_bindings s' b = None \<and> b < br_next_binding s'"
  using assms(1)
proof cases
  case (attach slot l ops c d)
  from attach(2) show ?thesis
    by (cases rule: attach_slot_cases) (use assms(3,4) in auto)
next
  case (publish c a r)
  from publish(2) show ?thesis
    by (cases rule: publish_batch_cases) (use assms(3,4) in \<open>auto simp: set_binding_def set_batch_def\<close>)
next
  case (clear c)
  then have "release_batch s c = Inr s'" by (simp add: clear_binding_def)
  then show ?thesis
    by (cases rule: release_batch_cases) (use assms(3,4) in \<open>auto simp: set_binding_def set_batch_def\<close>)
next
  case (detach c)
  from detach(2) obtain cd s1 where "br_bindings s c = Some cd" and d: "release_batch s c = Inr s1"
    "s' = s1\<lparr>br_slot_entries := (br_slot_entries s1)(bd_slot cd := None),
                 br_bindings := (br_bindings s1)(c := None)\<rparr>"
    by (rule detach_binding_cases)
  from d(1) show ?thesis
    by (cases rule: release_batch_cases) (use assms(3,4) d(2) in \<open>auto simp: set_binding_def set_batch_def\<close>)
qed (use assms(3,4) in \<open>auto simp: bridge_ops_defs deref_Inr_iff rbind_Inr_iff set_binding_def set_batch_def
      split: option.splits if_splits\<close>)

lemma run_gone:
  assumes "bridge_run s acts s'" "bindings_wf s" "br_bindings s b = None" "b < br_next_binding s"
  shows "br_bindings s' b = None"
  using assms
proof (induction rule: bridge_run.induct)
  case (Cons s act s1 acts s2)
  then show ?case
    using gone_step [OF Cons.hyps(1) Cons.prems] bridge_simulation_step [OF Cons.hyps(1) Cons.prems(1)]
    by simp
qed

lemma run_keeps_request:
  assumes "bridge_run s acts s'" "bindings_wf s" "br_bindings s b = Some bd" "bd_request_sealed bd"
    and "br_bindings s' b = Some bd'"
  shows "same_request bd bd'"
  using assms
proof (induction arbitrary: bd rule: bridge_run.induct)
  case (Nil s)
  then show ?case by (simp add: same_request_def)
next
  case (Cons s act s1 acts s2)
  have wf: "bindings_wf s1" using bridge_simulation_step Cons.hyps(1) Cons.prems(1) by blast
  show ?case
  proof (cases "br_bindings s1 b")
    case None
    have "b < br_next_binding s" using bindings_wfD(1) [OF Cons.prems(1,2)] .
    moreover have "b < br_next_binding s1"
      using Cons.hyps(1)
      by cases
        (use \<open>b < br_next_binding s\<close> in
          \<open>auto simp: bridge_ops_defs deref_Inr_iff rbind_Inr_iff set_binding_def set_batch_def
             elim!: attach_slot_cases publish_batch_cases release_batch_cases
             split: option.splits if_splits\<close>)
    ultimately have "br_bindings s2 b = None" using run_gone [OF Cons.hyps(2) wf None] by blast
    with Cons.prems(4) show ?thesis by simp
  next
    case (Some bd1)
    then have same: "same_request bd bd1"
      using keeps_request_step [OF Cons.hyps(1) Cons.prems(1), of b] Cons.prems(2,3)
      by (simp add: keeps_request_def)
    then have "same_request bd1 bd'"
      using Cons.IH [OF wf Some _ Cons.prems(4)] by (simp add: same_request_def)
    with same show ?thesis by (simp add: same_request_def)
  qed
qed

section \<open>Published batches\<close>

lemma last_word_rows:
  assumes "0 < (n :: nat)"
  shows "n = 64 * ((n + 63) div 64 - 1) + (if n mod 64 = 0 then 64 else n mod 64)"
proof -
  define q r where "q = n div 64" and "r = n mod 64"
  then have n: "n = 64 * q + r" "r < 64" by simp_all
  show ?thesis
  proof (cases "r = 0")
    case True
    with n assms have "(n + 63) div 64 = q" "0 < q" by auto
    with n True \<open>r = n mod 64\<close> show ?thesis by (simp add: diff_mult_distrib2)
  next
    case False
    with n have "(n + 63) div 64 = q + 1" by auto
    with n False \<open>r = n mod 64\<close> show ?thesis by simp
  qed
qed

lemma last_word_clear:
  assumes "0 < sel_nrows sel" "sel_nwords sel = (sel_nrows sel + 63) div 64"
    and "length (sel_words sel) = nat (sel_nwords sel)"
  shows "sel_wf sel \<longleftrightarrow> sel_nrows sel mod 64 = 0 \<or>
    (sel_words sel ! nat (sel_nwords sel - 1)) AND push_bit (nat (sel_nrows sel mod 64)) (- 1) = 0"
    (is "_ \<longleftrightarrow> _ \<or> ?last = 0")
proof -
  let ?n = "nat (sel_nrows sel)" and ?w = "nat (sel_nwords sel)"
  have n: "0 < ?n" "sel_nrows sel = int ?n" using assms(1) by simp_all
  have w: "?w = (?n + 63) div 64" "nat (sel_nwords sel - 1) = ?w - 1"
    using assms(1,2) by (simp_all add: nat_div_distrib nat_add_distrib nat_diff_distrib)
  have mod: "nat (sel_nrows sel mod 64) = ?n mod 64"
    using assms(1) by (simp add: nat_mod_distrib)
  have last: "?last = 0 \<longleftrightarrow> (\<forall>i<64. bit (sel_words sel ! (?w - 1)) i \<longrightarrow> i < ?n mod 64)"
    by (auto simp: word64_eq_0_iff bit_and_iff bit_not_iff bit_mask_iff mod w(2) not_le
        possible_bit_word)
  have wf: "sel_wf sel \<longleftrightarrow> (\<forall>k < ?w. \<forall>i < 64. bit (sel_words sel ! k) i \<longrightarrow> 64 * k + i < ?n)"
  proof -
    have "int (64 * k + i) < sel_nrows sel \<longleftrightarrow> 64 * k + i < ?n" for k i by linarith
    then show ?thesis using assms by (simp add: sel_wf_def)
  qed
  have split: "?n = 64 * (?w - 1) + (if ?n mod 64 = 0 then 64 else ?n mod 64)" "0 < ?w"
  proof -
    show "?n = 64 * (?w - 1) + (if ?n mod 64 = 0 then 64 else ?n mod 64)"
      unfolding w(1) by (rule last_word_rows [OF n(1)])
    show "0 < ?w" using n(1) unfolding w(1) by (simp add: div_greater_zero_iff)
  qed
  have full: "64 * k + i < ?n" if "k < ?w - 1" "i < 64" for k i
    using that split by (auto split: if_splits)
  have rest: "sel_wf sel \<longleftrightarrow> (\<forall>i < 64. bit (sel_words sel ! (?w - 1)) i \<longrightarrow> 64 * (?w - 1) + i < ?n)"
    unfolding wf
    using full split(2)
    by (metis One_nat_def Suc_pred diff_less lessI less_SucE)
  have eq: "sel_nrows sel mod 64 = int (?n mod 64)" using assms(1) by (simp add: zmod_int)
  show ?thesis
  proof (cases "?n mod 64 = 0")
    case True
    then have "sel_nrows sel mod 64 = 0" unfolding eq by simp
    with True split rest show ?thesis by (simp split: if_splits)
  next
    case False
    then have "sel_nrows sel mod 64 \<noteq> 0" unfolding eq by simp
    moreover have "64 * (?w - 1) + i < ?n \<longleftrightarrow> i < ?n mod 64" for i
    proof -
      have "?n = 64 * (?w - 1) + ?n mod 64" using False split(1) by simp
      then show ?thesis by linarith
    qed
    ultimately show ?thesis by (simp only: rest last) simp
  qed
qed

section \<open>Examples\<close>

definition published_ops :: "unit batch_ops" where
  "published_ops = \<lparr>ops_addr = 7, ops_abi_version = 1, ops_struct_size = 48,
     ops_get_datum_column = Some (\<lambda>p sel c rows ph v. Inr (p, v)), ops_prepare_columns = None,
     ops_get_native_interface = None, ops_release = None\<rparr>"

definition published_batch :: "unit batch" where
  "published_batch = \<lparr>b_abi_version = 1, b_struct_size = 64, b_selection = example_selection,
     b_table_oid = 0, b_ops = Some published_ops, b_private = (), b_generation = 0\<rparr>"

definition example_consumer :: "(unit, unit) consumer_ops" where
  "example_consumer = \<lparr>co_abi_version = 1, co_struct_size = 32,
     co_accept_batch = Some (\<lambda>c slot b. Inr (c, b_private b)),
     co_select_row = Some (\<lambda>c slot b row. Inr (c, b_private b))\<rparr>"

definition example_layout :: layout where
  "example_layout = \<lparr>lay_struct_size = 24, lay_ncolumns = 1, lay_ntargets = 1, lay_target_columns = None\<rparr>"

definition example_binding :: "(unit, unit) binding" where
  "example_binding = \<lparr>bd_slot = 3,
     bd_request = \<lparr>rs_struct_size = 32, rs_filter_columns = {}, rs_project_columns = {},
       rs_output_mode = 0, rs_max_rows = 0\<rparr>,
     bd_layout = example_layout, bd_consumer_ops = example_consumer, bd_consumer_state = (),
     bd_source_name = None, bd_source_state = None, bd_batch = None, bd_validated_ops = None,
     bd_request_sealed = False, bd_finished = False\<rparr>"

lemma example_selection_wf: "sel_wf example_selection"
  by (rule sel_wfI) (simp_all add: example_selection_def)

text \<open>A slot is attached, a batch created and published, and a row selected.\<close>

definition example_history :: "(unit, unit) action list" where
  "example_history = [A_attach 3 example_layout example_consumer (), A_new_batch 5 published_batch,
     A_publish 0 5]"

definition example_created :: "(unit, unit) bridge" where
  "example_created = set_batch 5 published_batch (bridge_init\<lparr>br_slot_entries := [3 \<mapsto> 0],
     br_bindings := [0 \<mapsto> example_binding], br_next_binding := 1\<rparr>)"

definition example_published :: "(unit, unit) bridge" where
  "example_published = \<lparr>br_slot_entries = [3 \<mapsto> 0],
     br_bindings = [0 \<mapsto> example_binding\<lparr>bd_validated_ops := Some 7, bd_request_sealed := True,
       bd_batch := Some 5\<rparr>],
     br_batches = [5 \<mapsto> published_batch\<lparr>b_generation := 1\<rparr>],
     br_next_generation = 2, br_next_binding = 1\<rparr>"

lemma example_sizes:
  "abi_size_through PgBatchConsumerOps_layout ''select_row'' = 32"
  "struct_sizeof PgBatchRequestSpec_layout = 32" "struct_sizeof PgBatchLayout_layout = 24"
  "abi_size_through PgBatch_layout ''generation'' = 64"
  "abi_size_through PgBatchOps_layout ''get_datum_column'' = 24"
  "abi_size_through PgBatchLayout_layout ''target_columns'' = 24"
  "abi_size_through PgBatchRowView_layout ''select_row'' = 48"
  by code_simp+

lemma publish_check_iff:
  assumes "length (sel_words (b_selection bt)) = nat (sel_nwords (b_selection bt))"
  shows "publish_check bd bt = Inr () \<longleftrightarrow>
    b_abi_version bt = 1 \<and> 64 \<le> b_struct_size bt \<and> b_ops bt \<noteq> None \<and> b_generation bt = 0 \<and>
    0 < sel_nrows (b_selection bt) \<and> sel_wf (b_selection bt) \<and>
    (rs_max_rows (bd_request bd) \<le> 0 \<or>
       sel_nrows (b_selection bt) \<le> rs_max_rows (bd_request bd))"
proof -
  let ?sel = "b_selection bt"
  have size: "abi_size_through PgBatch_layout ''generation'' = 64" by code_simp
  have nonempty: "sel_words ?sel \<noteq> []"
    if "0 < sel_nrows ?sel" "sel_nwords ?sel = (sel_nrows ?sel + 63) div 64"
  proof -
    have "0 < sel_nwords ?sel" using that by simp
    then show ?thesis using assms by auto
  qed
  define clr where "clr \<longleftrightarrow> sel_nrows ?sel mod 64 = 0 \<or>
      (sel_words ?sel ! nat (sel_nwords ?sel - 1)) AND
         push_bit (nat (sel_nrows ?sel mod 64)) (- 1) = 0"
  have raw: "publish_check bd bt = Inr () \<longleftrightarrow>
      (b_abi_version bt = 1 \<and> 64 \<le> b_struct_size bt) \<and>
      (b_ops bt \<noteq> None \<and> sel_words ?sel \<noteq> [] \<and> 0 < sel_nrows ?sel \<and>
        sel_nwords ?sel = (sel_nrows ?sel + 63) div 64) \<and> b_generation bt = 0 \<and>
      (rs_max_rows (bd_request bd) \<le> 0 \<or> sel_nrows ?sel \<le> rs_max_rows (bd_request bd)) \<and> clr"
    by (simp add: clr_def publish_check_def Let_def size rbind_Inr_iff Option.is_none_def not_less not_le)
  show ?thesis
  proof (cases "0 < sel_nrows ?sel \<and> sel_nwords ?sel = (sel_nrows ?sel + 63) div 64")
    case True
    then have "clr \<longleftrightarrow> sel_wf ?sel"
      unfolding clr_def by (intro last_word_clear [symmetric]) (use assms in auto)
    with True nonempty show ?thesis unfolding raw by blast
  next
    case False
    then show ?thesis unfolding raw by (metis sel_wf_nwords)
  qed
qed

lemma publish_validate_ops_iff:
  "publish_validate_ops bd ops = Inr () \<longleftrightarrow>
     bd_validated_ops bd = Some (ops_addr ops) \<or>
     ops_abi_version ops = 1 \<and> 24 \<le> ops_struct_size ops \<and> ops_get_datum_column ops \<noteq> None"
  by (auto simp: publish_validate_ops_def example_sizes rbind_Inr_iff validate_abi_def Option.is_none_def)

lemma take_generation_nonzero: "take_generation n = (Inr g, n') \<Longrightarrow> g \<noteq> 0"
  by (auto simp: take_generation_def Let_def split: if_splits)

text \<open>What \<open>batch.h\<close> asks of a batch for a binding.\<close>

definition batch_contract :: "('p, 'c) binding \<Rightarrow> 'p batch \<Rightarrow> bool" where
  "batch_contract bd bt \<longleftrightarrow>
     b_abi_version bt = 1 \<and> 64 \<le> b_struct_size bt \<and> b_generation bt = 0 \<and>
     0 < sel_nrows (b_selection bt) \<and> sel_wf (b_selection bt) \<and>
     (rs_max_rows (bd_request bd) \<le> 0 \<or>
        sel_nrows (b_selection bt) \<le> rs_max_rows (bd_request bd)) \<and>
     (\<exists>ops. b_ops bt = Some ops \<and>
        (bd_validated_ops bd = Some (ops_addr ops) \<or>
         ops_abi_version ops = 1 \<and> 24 \<le> ops_struct_size ops \<and> ops_get_datum_column ops \<noteq> None))"

lemma publish_checks_iff:
  assumes "length (sel_words (b_selection bt)) = nat (sel_nwords (b_selection bt))"
  shows "publish_check bd bt = Inr () \<and> publish_validate_ops bd (the (b_ops bt)) = Inr () \<longleftrightarrow>
    batch_contract bd bt"
  by (auto simp: publish_check_iff [OF assms] publish_validate_ops_iff batch_contract_def)

text \<open>
  C22. \<open>publish_batch\<close> accepts exactly the batches that satisfy the contract of
  \<open>batch.h\<close> on a binding that holds none: the right version, not already active, a
  positive number of rows with a well-formed selection (the array as long as
  announced, no row beyond the end), no more rows than the request allows, and
  operations that were validated before or have the right version and materialize
  Datums.  An accepted batch is the binding's active batch under a new nonzero
  generation, its request is sealed, and the call fails only as the consumer does;
  any other batch is an error that changes nothing.
\<close>

theorem publish_batch_correct:
  assumes "br_bindings s b = Some bd" "br_batches s a = Some bt"
    and "length (sel_words (b_selection bt)) = nat (sel_nwords (b_selection bt))"
    and "publish_batch s b (Some a) = (r, s')"
  shows "if bd_batch bd = None \<and>
      b_abi_version bt = 1 \<and> 64 \<le> b_struct_size bt \<and> b_generation bt = 0 \<and>
      0 < sel_nrows (b_selection bt) \<and> sel_wf (b_selection bt) \<and>
      (rs_max_rows (bd_request bd) \<le> 0 \<or>
         sel_nrows (b_selection bt) \<le> rs_max_rows (bd_request bd)) \<and>
      (\<exists>ops. b_ops bt = Some ops \<and>
         (bd_validated_ops bd = Some (ops_addr ops) \<or>
          ops_abi_version ops = 1 \<and> 24 \<le> ops_struct_size ops \<and> ops_get_datum_column ops \<noteq> None))
    then (\<exists>g bd' bt'. g \<noteq> 0 \<and>
        br_bindings s' b = Some bd' \<and> bd_batch bd' = Some a \<and> \<not> bd_finished bd' \<and> bd_request_sealed bd' \<and>
        br_batches s' a = Some bt' \<and> b_generation bt' = g \<and> b_selection bt' = b_selection bt \<and>
        r = rbind (the (co_accept_batch (bd_consumer_ops bd)) (bd_consumer_state bd) (bd_slot bd)
           (bt\<lparr>b_generation := g\<rparr>)) (\<lambda>_. Inr ()))
    else (\<exists>e. r = Inl e) \<and> s' = s"
  using assms(4)
proof (cases rule: publish_batch_cases)
  case 1
  have "\<not> (bd_batch bd = None \<and> batch_contract bd bt)"
  proof
    assume free: "bd_batch bd = None \<and> batch_contract bd bt"
    then have "publish_check bd bt = Inr ()" "publish_validate_ops bd (the (b_ops bt)) = Inr ()"
      using publish_checks_iff [OF assms(3)] by auto
    with free assms(1,2,4) have "br_next_generation s' \<noteq> br_next_generation s"
      by (auto simp: publish_batch_def take_generation_def Let_def set_batch_def set_binding_def
          split: sum.splits if_splits prod.splits)
    with 1 show False by simp
  qed
  with 1 show ?thesis unfolding batch_contract_def by (subst if_not_P) blast+
next
  case (2 bd0 bt0 g n c p)
  then have eq: "bd0 = bd" "bt0 = bt" using assms(1,2) by auto
  then have "bd_batch bd = None \<and> batch_contract bd bt"
    using 2 publish_checks_iff [OF assms(3)] by auto
  moreover have "g \<noteq> 0" using take_generation_nonzero [OF 2(6)] .
  ultimately show ?thesis
    using 2(7,8) unfolding eq batch_contract_def
    by (subst if_P) (blast, auto simp: set_batch_def set_binding_def)
qed

theorem publish_batch_correct_witness:
  "(\<exists>bd'. br_bindings (snd (publish_batch example_created 0 (Some 5))) 0 = Some bd' \<and>
      bd_batch bd' = Some 5) \<and>
   snd (publish_batch (set_batch 5 (published_batch\<lparr>b_selection :=
     \<lparr>sel_nrows = 70, sel_nwords = 2, sel_words = [5, 64]\<rparr>\<rparr>) example_created) 0 (Some 5)) =
     set_batch 5 (published_batch\<lparr>b_selection :=
     \<lparr>sel_nrows = 70, sel_nwords = 2, sel_words = [5, 64]\<rparr>\<rparr>) example_created"
proof
  have b: "br_bindings example_created 0 = Some example_binding"
    "br_batches example_created 5 = Some published_batch"
    by (simp_all add: example_created_def set_batch_def)
  have len: "length (sel_words (b_selection published_batch)) = nat (sel_nwords (b_selection published_batch))"
    by (simp add: published_batch_def example_selection_def)
  show "\<exists>bd'. br_bindings (snd (publish_batch example_created 0 (Some 5))) 0 = Some bd' \<and>
      bd_batch bd' = Some 5"
    using publish_batch_correct [OF b len surjective_pairing] example_selection_wf
    by (auto simp: published_batch_def published_ops_def example_selection_def example_binding_def)
  let ?bad = "published_batch\<lparr>b_selection := \<lparr>sel_nrows = 70, sel_nwords = 2, sel_words = [5, 64]\<rparr>\<rparr>"
  have "\<not> sel_wf \<lparr>sel_nrows = 70, sel_nwords = 2, sel_words = [5, 64]\<rparr>"
  proof
    assume "sel_wf \<lparr>sel_nrows = 70, sel_nwords = 2, sel_words = [5, 64]\<rparr>"
    from sel_wf_bit [OF this, of 1 6] show False by (simp add: bit_numeral_rec)
  qed
  moreover have "br_bindings (set_batch 5 ?bad example_created) 0 = Some example_binding"
    "br_batches (set_batch 5 ?bad example_created) 5 = Some ?bad"
    using b by (simp_all add: set_batch_def)
  note publish_batch_correct [OF this _ surjective_pairing]
  ultimately show "snd (publish_batch (set_batch 5 ?bad example_created) 0 (Some 5)) =
      set_batch 5 ?bad example_created"
    by simp
qed

lemma example_publish_check: "publish_check example_binding published_batch = Inr ()"
  by (simp add: publish_check_def example_sizes published_batch_def example_selection_def
      example_binding_def Let_def validate_abi_def) code_simp

lemma example_cleared: "cleared_run bridge_init example_history example_published"
proof -
  let ?s1 = "bridge_init\<lparr>br_slot_entries := [3 \<mapsto> 0], br_bindings := [0 \<mapsto> example_binding],
      br_next_binding := 1\<rparr> :: (unit, unit) bridge"
  let ?s2 = example_created
  have s2: "?s2 = set_batch 5 published_batch ?s1" by (simp add: example_created_def)
  have "attach_slot bridge_init (Some 3) (Some example_layout) (Some example_consumer) () = Inr (0, ?s1)"
    by (simp add: attach_slot_def example_sizes bridge_init_def example_layout_def check_layout_def
        example_consumer_def validate_abi_def example_binding_def Let_def)
  then have 1: "bridge_step bridge_init (A_attach 3 example_layout example_consumer ()) ?s1"
    by (rule bridge_step.attach)
  have 2: "bridge_step ?s1 (A_new_batch 5 published_batch) ?s2"
    unfolding s2 by (rule bridge_step.new_batch)
      (simp_all add: held_def example_binding_def published_batch_def)
  have "publish_batch ?s2 0 (Some 5) = (Inr (), example_published)"
  proof -
    have "publish_validate_ops example_binding published_ops = Inr ()"
      by (simp add: publish_validate_ops_def published_ops_def example_binding_def example_sizes validate_abi_def)
    moreover have "take_generation 1 = (Inr 1, 2)" by (simp add: take_generation_def)
    moreover have "b_ops published_batch = Some published_ops" "ops_addr published_ops = 7"
      "bd_batch example_binding = None"
      "bd_consumer_ops example_binding = example_consumer" "bd_finished example_binding = False"
      by (simp_all add: published_batch_def published_ops_def example_binding_def)
    moreover have "the (co_accept_batch example_consumer) c sl b = Inr (c, b_private b)" for c sl b
      by (simp add: example_consumer_def)
    moreover have "br_bindings ?s2 0 = Some example_binding" "br_batches ?s2 5 = Some published_batch"
      "br_next_generation ?s2 = 1"
      by (simp_all add: example_created_def set_batch_def bridge_init_def)
    ultimately have "publish_batch ?s2 0 (Some 5) = (Inr (), (set_batch 5 (published_batch\<lparr>b_generation := 1\<rparr>)
        (set_binding 0 (example_binding\<lparr>bd_validated_ops := Some 7, bd_request_sealed := True,
          bd_batch := Some 5, bd_finished := False\<rparr>) ?s2))\<lparr>br_next_generation := 2\<rparr>)"
      using example_publish_check
      by (simp add: publish_batch_def)
        (simp add: set_batch_def set_binding_def bridge_init_def example_binding_def published_batch_def)
    then show ?thesis
      by (simp add: example_published_def example_created_def set_batch_def set_binding_def bridge_init_def)
        (simp add: example_binding_def)
  qed
  then have 3: "bridge_step ?s2 (A_publish 0 5) example_published"
    by (rule bridge_step.publish)
  have "\<not> finished_held ?s2 5"
    by (auto simp: finished_held_def s2 set_batch_def example_binding_def split: if_splits)
  then show ?thesis
    unfolding example_history_def
    by (intro cleared_run.Cons [OF 1] cleared_run.Cons [OF 2] cleared_run.Cons [OF 3] cleared_run.Nil)
      simp_all
qed

lemma example_run: "bridge_run bridge_init example_history example_published"
  by (rule cleared_bridge_run [OF example_cleared])

text \<open>
  The gap the cleared histories leave out is real: a finished batch can be published
  through a second binding, and clearing the first one then deactivates it there.
\<close>

lemma finished_batch_republished:
  "\<exists>s' bt. bridge_run bridge_init (example_history @ [A_attach 4 example_layout example_consumer (),
       A_finish 0, A_publish 1 5, A_clear 0]) s' \<and>
     get_batch s' (Some 1) = Inr (Some 5) \<and> finished s' (Some 1) = Inr False \<and>
     br_batches s' 5 = Some bt \<and> b_generation bt = 0"
proof -
  let ?holder = "example_binding\<lparr>bd_validated_ops := Some 7, bd_request_sealed := True,
     bd_batch := Some 5\<rparr>"
  let ?s1 = "example_published\<lparr>br_slot_entries := [3 \<mapsto> 0, 4 \<mapsto> 1],
     br_bindings := [0 \<mapsto> ?holder, 1 \<mapsto> example_binding\<lparr>bd_slot := 4\<rparr>], br_next_binding := 2\<rparr>"
  let ?s2 = "?s1\<lparr>br_bindings := [0 \<mapsto> ?holder\<lparr>bd_finished := True\<rparr>,
     1 \<mapsto> example_binding\<lparr>bd_slot := 4\<rparr>], br_batches := [5 \<mapsto> published_batch]\<rparr>"
  let ?s3 = "?s2\<lparr>br_bindings := [0 \<mapsto> ?holder\<lparr>bd_finished := True\<rparr>, 1 \<mapsto> ?holder\<lparr>bd_slot := 4\<rparr>],
     br_batches := [5 \<mapsto> published_batch\<lparr>b_generation := 2\<rparr>], br_next_generation := 3\<rparr>"
  let ?s4 = "?s3\<lparr>br_bindings := [0 \<mapsto> ?holder\<lparr>bd_batch := None\<rparr>, 1 \<mapsto> ?holder\<lparr>bd_slot := 4\<rparr>],
     br_batches := [5 \<mapsto> published_batch]\<rparr>"
  have "attach_slot example_published (Some 4) (Some example_layout) (Some example_consumer) () = Inr (1, ?s1)"
    by (simp add: attach_slot_def example_sizes example_published_def example_layout_def check_layout_def
        example_consumer_def validate_abi_def example_binding_def Let_def)
  then have 1: "bridge_step example_published (A_attach 4 example_layout example_consumer ()) ?s1"
    by (rule bridge_step.attach)
  have "finish ?s1 0 = Inr ?s2"
    by (simp add: finish_def set_batch_def set_binding_def example_published_def example_binding_def
        published_batch_def fun_upd_twist)
  then have 2: "bridge_step ?s1 (A_finish 0) ?s2" by (rule bridge_step.finish)
  have "publish_check (example_binding\<lparr>bd_slot := 4\<rparr>) published_batch = Inr ()"
    using example_publish_check by (simp add: publish_check_def)
  moreover have "publish_validate_ops (example_binding\<lparr>bd_slot := 4\<rparr>) published_ops = Inr ()"
    by (simp add: publish_validate_ops_def published_ops_def example_binding_def example_sizes validate_abi_def)
  moreover have "take_generation 2 = (Inr 2, 3)" by (simp add: take_generation_def)
  moreover have "b_ops published_batch = Some published_ops" "ops_addr published_ops = 7"
    by (simp_all add: published_batch_def published_ops_def)
  ultimately have "publish_batch ?s2 1 (Some 5) = (Inr (), ?s3)"
    by (simp add: publish_batch_def Let_def set_batch_def set_binding_def example_published_def)
      (simp add: example_binding_def example_consumer_def published_batch_def set_batch_def
        set_binding_def fun_upd_twist)
  then have 3: "bridge_step ?s2 (A_publish 1 5) ?s3" by (rule bridge_step.publish)
  have "clear_binding ?s3 (Some 0) = Inr ?s4"
    by (simp add: clear_binding_def release_batch_def example_published_def set_batch_def set_binding_def)
      (simp add: example_binding_def published_batch_def published_ops_def set_batch_def
        set_binding_def Let_def fun_upd_twist)
  then have 4: "bridge_step ?s3 (A_clear 0) ?s4" by (rule bridge_step.clear)
  have "bridge_run example_published [A_attach 4 example_layout example_consumer (), A_finish 0,
      A_publish 1 5, A_clear 0] ?s4"
    by (rule bridge_run.intros 1 2 3 4)+
  then have "bridge_run bridge_init (example_history @ [A_attach 4 example_layout example_consumer (),
      A_finish 0, A_publish 1 5, A_clear 0]) ?s4"
    by (rule bridge_run_append [OF example_run])
  moreover have "get_batch ?s4 (Some 1) = Inr (Some 5)" "finished ?s4 (Some 1) = Inr False"
    "br_batches ?s4 5 = Some published_batch" "b_generation published_batch = 0"
    by (simp_all add: get_batch_def finished_def example_binding_def published_batch_def)
  ultimately show ?thesis by blast
qed

section \<open>Properties of histories\<close>

lemma run_from_init:
  assumes "cleared_run bridge_init acts s" "length acts + 1 < 2 ^ 64"
  shows "bindings_wf s" "own_inv (ownership_of s)" "unat (br_next_generation s) \<le> 1 + length acts"
proof -
  show "bindings_wf s" using simulation_cleared_run [OF assms(1) bindings_wf_init] by blast
  have run: "settled_run own_init acts (ownership_of s)"
    using simulation_cleared_run [OF assms(1) bindings_wf_init] by simp
  have "ow_next own_init = 1" by (simp add: own_init_def)
  then show "own_inv (ownership_of s)" "unat (br_next_generation s) \<le> 1 + length acts"
    using settled_run_inv [OF run own_inv_init] assms(2) by auto
qed

text \<open>
  C8. Over every history the bridge implements the ownership specification, in which
  a batch is published only with generation zero, and a slot has at most one binding
  and finds it.  In a cleared history (of fewer than \<open>2 ^ 64 - 1\<close> calls), where no
  batch is published while another binding has finished it without clearing it, the
  bridge's checks give exclusive ownership: no batch has two holders, and an active
  batch has a nonzero generation.
\<close>

theorem bridge_refines_ownership:
  assumes "bridge_run bridge_init acts s"
  shows "own_run own_init acts (ownership_of s) \<and>
    (\<forall>slot b. find_binding s slot = Some b \<longleftrightarrow> (\<exists>bd. br_bindings s b = Some bd \<and> bd_slot bd = slot)) \<and>
    (cleared_run bridge_init acts s \<longrightarrow> length acts + 1 < 2 ^ 64 \<longrightarrow>
      (\<forall>b b' a. get_batch s (Some b) = Inr (Some a) \<longrightarrow> get_batch s (Some b') = Inr (Some a) \<longrightarrow> b = b') \<and>
      (\<forall>b a. get_batch s (Some b) = Inr (Some a) \<longrightarrow> finished s (Some b) = Inr False \<longrightarrow>
         (\<exists>bt. br_batches s a = Some bt \<and> b_generation bt \<noteq> 0)))"
proof (intro conjI allI impI)
  have sim: "own_run own_init acts (ownership_of s)" "bindings_wf s"
    using simulation_run [OF assms bindings_wf_init] by simp_all
  show "own_run own_init acts (ownership_of s)" by (fact sim(1))
  show "find_binding s slot = Some b \<longleftrightarrow> (\<exists>bd. br_bindings s b = Some bd \<and> bd_slot bd = slot)" for slot b
    using bindings_wf_slot [OF sim(2), of slot b] bindings_wfD(2) [OF sim(2), of b]
    by (auto simp: find_binding_def)
  assume "cleared_run bridge_init acts s" "length acts + 1 < 2 ^ 64"
  note r = run_from_init [OF this]
  have holds: "\<exists>f. ow_holds (ownership_of s) b = Some (a, f)"
    if "get_batch s (Some b) = Inr (Some a)" for a b
    using that by (auto simp: get_batch_def deref_Inr_iff ow_holds_of)
  show "b = b'" if "get_batch s (Some b) = Inr (Some a)" "get_batch s (Some b') = Inr (Some a)" for a b b'
    using own_invD(1) [OF r(2)] holds [OF that(1)] holds [OF that(2)] by blast
  show "\<exists>bt. br_batches s a = Some bt \<and> b_generation bt \<noteq> 0"
    if "get_batch s (Some b) = Inr (Some a)" "finished s (Some b) = Inr False" for a b
  proof -
    have "ow_holds (ownership_of s) b = Some (a, False)"
      using that by (auto simp: get_batch_def finished_def deref_Inr_iff ow_holds_of)
    from own_invD(2) [OF r(2) this] show ?thesis
      by (auto simp: ownership_of_def split: option.splits)
  qed
qed

theorem bridge_refines_ownership_witness:
  "find_binding example_published 3 = Some 0 \<and>
   (\<exists>bt. br_batches example_published 5 = Some bt \<and> b_generation bt \<noteq> 0)"
proof -
  let ?bd = "example_binding\<lparr>bd_validated_ops := Some 7, bd_request_sealed := True, bd_batch := Some 5\<rparr>"
  have bd: "br_bindings example_published 0 = Some ?bd" "bd_slot ?bd = 3" "\<not> bd_finished ?bd"
    by (simp_all add: example_published_def example_binding_def)
  then have "get_batch example_published (Some 0) = Inr (Some 5)"
    "finished example_published (Some 0) = Inr False"
    by (simp_all add: get_batch_def finished_def)
  moreover have "length example_history + 1 < 2 ^ 64" by (simp add: example_history_def)
  note bridge_refines_ownership [OF example_run] example_cleared this
  ultimately show ?thesis using bd by blast
qed

text \<open>
  C10. A row view is safe in a cleared history.  A view taken from an active binding lets rows be
  selected exactly as long as its batch has been neither finished, cleared nor
  detached, whatever happened elsewhere and even if the same batch object has been
  published again since, and then only the rows still selected in the batch.
\<close>

theorem row_view_safe:
  assumes "cleared_run bridge_init acts0 s" "get_row_view s (Some b) v0 = Inr v"
    and "cleared_run s acts s'" "A_reset b \<notin> set acts" "length acts0 + length acts + 1 < 2 ^ 64"
  shows "row_view_ok s' (Some v) row \<longleftrightarrow>
    A_finish b \<notin> set acts \<and> A_clear b \<notin> set acts \<and> A_detach b \<notin> set acts \<and>
    (\<exists>bt. br_batches s' (the (rv_batch v)) = Some bt \<and> row_in_batch bt row)"
proof -
  have r: "bindings_wf s" "own_inv (ownership_of s)" "unat (br_next_generation s) \<le> 1 + length acts0"
    using run_from_init [OF assms(1)] assms(5) by auto
  obtain bd a bt where v: "br_bindings s b = Some bd" "bd_batch bd = Some a" "\<not> bd_finished bd"
    "br_batches s a = Some bt" "rv_batch v = Some a" "rv_generation v = b_generation bt"
    "rv_select_row v = co_select_row (bd_consumer_ops bd)"
    "abi_size_through PgBatchRowView_layout ''select_row'' \<le> rv_struct_size v"
    using assms(2)
    by (auto simp: get_row_view_def deref_Inr_iff rbind_Inr_iff split: option.splits if_splits)
  have live: "live_view b a (b_generation bt) (ownership_of s)"
    using v by (simp add: live_view_def ow_holds_of ow_gen_of)
  then have g: "b_generation bt \<noteq> 0"
    using own_invD(2) [OF r(2)] by (auto simp: live_view_def)
  have sel: "co_select_row (bd_consumer_ops bd) \<noteq> None"
    using bindings_wfD(4) [OF r(1) v(1)] .
  have run: "settled_run (ownership_of s) acts (ownership_of s')"
    using simulation_cleared_run [OF assms(3) r(1)] by blast
  have bound: "unat (ow_next (ownership_of s)) + length acts < 2 ^ 64" using r(3) assms(5) by simp
  have "if set acts \<inter> releases b = {} then live_view b a (b_generation bt) (ownership_of s')
      else dead_view a (b_generation bt) (ownership_of s')"
    by (rule view_run(2) [OF run r(2) bound g live assms(4)])
  then have "set acts \<inter> releases b = {} \<longleftrightarrow> ow_gen (ownership_of s') a = b_generation bt"
    by (auto simp: live_view_def dead_view_def split: if_splits)
  moreover have "set acts \<inter> releases b = {} \<longleftrightarrow>
      A_finish b \<notin> set acts \<and> A_clear b \<notin> set acts \<and> A_detach b \<notin> set acts"
    by (auto simp: releases_def)
  moreover have "ow_gen (ownership_of s') a = b_generation bt \<longleftrightarrow>
      (\<exists>bt'. br_batches s' a = Some bt' \<and> b_generation bt' = b_generation bt)"
    using g by (auto simp: ownership_of_def split: option.splits)
  ultimately show ?thesis
    using v g sel by (auto simp: row_view_ok_def Option.is_none_def split: option.splits)
qed

definition example_view :: "(unit, unit) row_view" where
  "example_view = \<lparr>rv_struct_size = 48, rv_slot = 3, rv_batch = Some 5, rv_generation = 1,
     rv_consumer = 0, rv_select_row = co_select_row example_consumer\<rparr>"

theorem row_view_safe_witness:
  "row_view_ok example_published (Some example_view) 64 \<and>
   \<not> row_view_ok example_published (Some example_view) 65 \<and>
   (\<exists>s'. finish example_published 0 = Inr s' \<and> \<not> row_view_ok s' (Some example_view) 64)"
proof -
  have view: "get_row_view example_published (Some 0) (Some example_view) = Inr example_view"
    by (simp add: get_row_view_def example_sizes example_view_def)
      (simp add: example_published_def example_binding_def)
  have rows: "row_in_batch (published_batch\<lparr>b_generation := g\<rparr>) 64"
    "\<not> row_in_batch (published_batch\<lparr>b_generation := g\<rparr>) 65" for g
    by (simp_all add: row_in_batch_def published_batch_def) code_simp+
  have batch: "br_batches example_published (the (rv_batch example_view)) =
      Some (published_batch\<lparr>b_generation := 1\<rparr>)"
    by (simp add: example_published_def example_view_def)
  note safe = row_view_safe [OF example_cleared view]
  have now: "row_view_ok example_published (Some example_view) 64"
    "\<not> row_view_ok example_published (Some example_view) 65"
    using safe [of "[]" example_published] rows batch
    by (simp_all add: cleared_run.Nil example_history_def)
  obtain s' where s': "finish example_published 0 = Inr s'"
    by (simp add: finish_def) (simp add: example_published_def example_binding_def)
  then have "cleared_run example_published [A_finish 0] s'"
    by (intro cleared_run.Cons [OF _ _ cleared_run.Nil] bridge_step.finish) simp_all
  from safe [OF this, of 64] have "\<not> row_view_ok s' (Some example_view) 64"
    by (simp add: example_history_def)
  with now s' show ?thesis by blast
qed

text \<open>
  C33. A request is frozen once it is sealed, by \<open>seal_request\<close> or by the first batch
  that is published: whatever follows, as long as the binding exists its request
  and layout stay what the source was shown, and \<open>set_request\<close> is refused.
\<close>

theorem sealed_request_frozen:
  assumes "bridge_run bridge_init acts0 s" "br_bindings s b = Some bd" "bd_request_sealed bd"
    and "bridge_run s acts s'" "br_bindings s' b = Some bd'"
  shows "get_request s' (Some b) = get_request s (Some b) \<and>
    (\<forall>spec. \<exists>e. set_request s' (Some b) spec = Inl e)"
proof -
  have "bindings_wf s" using simulation_run [OF assms(1) bindings_wf_init] by blast
  from run_keeps_request [OF assms(4) this assms(2,3,5)] have "same_request bd bd'" .
  then show ?thesis
    using assms(2,5) by (auto simp: same_request_def get_request_def set_request_def split: option.splits)
qed

theorem sealed_request_frozen_witness:
  "\<exists>s'. finish example_published 0 = Inr s' \<and>
     get_request s' (Some 0) = get_request example_published (Some 0) \<and>
     (\<forall>spec. \<exists>e. set_request s' (Some 0) spec = Inl e)"
proof -
  let ?bd = "example_binding\<lparr>bd_validated_ops := Some 7, bd_request_sealed := True, bd_batch := Some 5\<rparr>"
  obtain s' where s': "finish example_published 0 = Inr s'" "br_bindings s' 0 \<noteq> None"
    by (simp add: finish_def)
      (simp add: example_published_def example_binding_def set_batch_def set_binding_def)
  then have "bridge_run example_published [A_finish 0] s'"
    by (intro bridge_run.Cons [OF _ bridge_run.Nil] bridge_step.finish)
  moreover have "br_bindings example_published 0 = Some ?bd" by (simp add: example_published_def)
  moreover obtain bd' where "br_bindings s' 0 = Some bd'" using s'(2) by blast
  ultimately show ?thesis
    using sealed_request_frozen [OF example_run, of 0 ?bd "[A_finish 0]" s' bd'] s'(1) by simp
qed

end
