(* ===== verification/Plan_Data.thy ===== *)
theory Plan_Data
  imports Columns "HOL-Library.Multiset"
begin

text \<open>
  Named plan data, \<open>runtime/plan.c\<close>: the writer that collects named fields into a
  copyable PostgreSQL list and the reader that decodes it, with every check the
  code makes (names, duplicates, kind and version, fields read twice, missing or
  left unread).  A list of type List or IntList is never empty: the empty list is
  the null pointer.  A NULL name is the empty one: both are refused alike.
\<close>

section \<open>Nodes\<close>

datatype pnode =
    PNull
  | PInteger int
  | PString string
  | PList "pnode list"
  | PIntList "int list"
  | POther nat

definition mk_list :: "pnode list \<Rightarrow> pnode" where
  "mk_list xs = (if xs = [] then PNull else PList xs)"

definition mk_int_list :: "int list \<Rightarrow> pnode" where
  "mk_int_list xs = (if xs = [] then PNull else PIntList xs)"

text \<open>The elements of a \<open>List\<close> (\<open>foreach_ptr\<close>) and of an \<open>IntList\<close> (\<open>foreach_int\<close>).\<close>

fun list_elems :: "pnode \<Rightarrow> pnode list" where
  "list_elems (PList xs) = xs"
| "list_elems _ = []"

fun int_elems :: "pnode \<Rightarrow> int list" where
  "int_elems (PIntList xs) = xs"
| "int_elems _ = []"

section \<open>Writing\<close>

record plan_writer =
  pw_kind :: string
  pw_version :: int
  pw_fields :: "pnode list"
  pw_finished :: bool

definition check_name :: "string \<Rightarrow> unit result" where
  "check_name name = require (name \<noteq> []) (Elog ''pg_batch plan field requires a name'')"

text \<open>\<open>NIL\<close> is returned when there is no such field.\<close>

fun find_field :: "pnode list \<Rightarrow> string \<Rightarrow> pnode list result" where
  "find_field [] name = Inr []"
| "find_field (PList [PString n, v] # fs) name =
     (if n = name then Inr [PString n, v] else find_field fs name)"
| "find_field (_ # fs) name = Inl (Elog ''pg_batch received malformed plan data'')"

definition write_field :: "string \<Rightarrow> pnode \<Rightarrow> plan_writer \<Rightarrow> plan_writer result" where
  "write_field name val w =
     rbind (check_name name) (\<lambda>_.
     rbind (require (\<not> pw_finished w) (Elog ''pg_batch plan writer is not active'')) (\<lambda>_.
     rbind (find_field (pw_fields w) name) (\<lambda>found.
     rbind (require (found = []) (Elog ''pg_batch plan field is duplicated'')) (\<lambda>_.
     Inr (w\<lparr>pw_fields := pw_fields w @ [PList [PString name, val]]\<rparr>)))))"

definition plan_writer_create :: "string \<Rightarrow> int \<Rightarrow> plan_writer result" where
  "plan_writer_create kind version =
     (if kind = [] \<or> version \<le> 0
      then Inl (Elog ''pg_batch plan writer requires a kind and version'')
      else Inr \<lparr>pw_kind = kind, pw_version = version, pw_fields = [], pw_finished = False\<rparr>)"

definition plan_write_int :: "string \<Rightarrow> int \<Rightarrow> plan_writer \<Rightarrow> plan_writer result" where
  "plan_write_int name v w = write_field name (PInteger v) w"

definition plan_write_string :: "string \<Rightarrow> string option \<Rightarrow> plan_writer \<Rightarrow> plan_writer result" where
  "plan_write_string name v w =
     (case v of
        None \<Rightarrow> Inl (Elog ''pg_batch plan string field is NULL'')
      | Some s \<Rightarrow> write_field name (PString s) w)"

definition plan_write_node :: "string \<Rightarrow> pnode \<Rightarrow> plan_writer \<Rightarrow> plan_writer result" where
  "plan_write_node name v w = write_field name v w"

definition plan_write_list :: "string \<Rightarrow> pnode \<Rightarrow> plan_writer \<Rightarrow> plan_writer result" where
  "plan_write_list name v w =
     (case v of
        PNull \<Rightarrow> write_field name v w
      | PList _ \<Rightarrow> write_field name v w
      | _ \<Rightarrow> Inl (Elog ''pg_batch plan field is not a List''))"

definition plan_write_int_list :: "string \<Rightarrow> pnode \<Rightarrow> plan_writer \<Rightarrow> plan_writer result" where
  "plan_write_int_list name v w =
     (case v of
        PNull \<Rightarrow> write_field name v w
      | PIntList _ \<Rightarrow> write_field name v w
      | _ \<Rightarrow> Inl (Elog ''pg_batch plan field is not an IntList''))"

definition plan_write_bitmap :: "string \<Rightarrow> nat set \<Rightarrow> plan_writer \<Rightarrow> plan_writer result" where
  "plan_write_bitmap name members w =
     write_field name (mk_int_list (map int (sorted_list_of_set members))) w"

definition plan_writer_finish :: "plan_writer \<Rightarrow> (plan_writer \<times> pnode) result" where
  "plan_writer_finish w =
     rbind (require (\<not> pw_finished w) (Elog ''pg_batch plan writer is not active'')) (\<lambda>_.
     Inr (w\<lparr>pw_finished := True\<rparr>,
       PList [PString (pw_kind w), PInteger (pw_version w), mk_list (pw_fields w)]))"

section \<open>Reading\<close>

record plan_reader =
  pr_kind :: string
  pr_fields :: "pnode list"
  pr_read_names :: "string list"

fun field_name :: "pnode \<Rightarrow> string option" where
  "field_name (PList [PString n, v]) = Some n"
| "field_name _ = None"

text \<open>The double loop over the fields: each field is compared with the ones before it.\<close>

fun check_fields :: "string list \<Rightarrow> pnode list \<Rightarrow> unit result" where
  "check_fields seen [] = Inr ()"
| "check_fields seen (f # fs) =
     (case field_name f of
        None \<Rightarrow> Inl (Elog ''pg_batch received malformed plan field'')
      | Some n \<Rightarrow>
          if n \<in> set seen then Inl (Elog ''pg_batch plan field is duplicated'')
          else check_fields (seen @ [n]) fs)"

definition plan_reader_create :: "pnode \<Rightarrow> string \<Rightarrow> int \<Rightarrow> plan_reader result" where
  "plan_reader_create data kind version =
     (if kind = [] \<or> version \<le> 0
      then Inl (Elog ''pg_batch plan reader requires a kind and version'')
      else
        (case data of
           PList [PString k, PInteger v, flds] \<Rightarrow>
             if k \<noteq> kind then Inl (Elog ''pg_batch expected other plan data'')
             else if v \<noteq> version then Inl (Elog ''pg_batch expected other plan version'')
             else
               (case flds of
                  PNull \<Rightarrow> Inr \<lparr>pr_kind = kind, pr_fields = [], pr_read_names = []\<rparr>
                | PList fs \<Rightarrow>
                    rbind (check_fields [] fs) (\<lambda>_.
                    Inr \<lparr>pr_kind = kind, pr_fields = fs, pr_read_names = []\<rparr>)
                | _ \<Rightarrow> Inl (Elog ''pg_batch received malformed plan fields''))
         | _ \<Rightarrow> Inl (Elog ''pg_batch received malformed plan data'')))"

definition read_field :: "string \<Rightarrow> plan_reader \<Rightarrow> (pnode \<times> plan_reader) result" where
  "read_field name r =
     rbind (check_name name) (\<lambda>_.
     rbind (require (name \<notin> set (pr_read_names r)) (Elog ''pg_batch plan field was read twice'')) (\<lambda>_.
     rbind (find_field (pr_fields r) name) (\<lambda>field.
     rbind (require (field \<noteq> []) (Elog ''pg_batch plan field is missing'')) (\<lambda>_.
     Inr (field ! 1, r\<lparr>pr_read_names := pr_read_names r @ [name]\<rparr>)))))"

definition plan_read_int :: "string \<Rightarrow> plan_reader \<Rightarrow> (int \<times> plan_reader) result" where
  "plan_read_int name r = rbind (read_field name r) (\<lambda>(v, r').
     case v of PInteger i \<Rightarrow> Inr (i, r') | _ \<Rightarrow> Inl (Elog ''pg_batch plan field is not an integer''))"

definition plan_read_string :: "string \<Rightarrow> plan_reader \<Rightarrow> (string \<times> plan_reader) result" where
  "plan_read_string name r = rbind (read_field name r) (\<lambda>(v, r').
     case v of PString s \<Rightarrow> Inr (s, r') | _ \<Rightarrow> Inl (Elog ''pg_batch plan field is not a string''))"

definition plan_read_node :: "string \<Rightarrow> plan_reader \<Rightarrow> (pnode \<times> plan_reader) result" where
  "plan_read_node name r = read_field name r"

definition plan_read_list :: "string \<Rightarrow> plan_reader \<Rightarrow> (pnode \<times> plan_reader) result" where
  "plan_read_list name r = rbind (read_field name r) (\<lambda>(v, r').
     case v of
       PNull \<Rightarrow> Inr (v, r')
     | PList _ \<Rightarrow> Inr (v, r')
     | _ \<Rightarrow> Inl (Elog ''pg_batch plan field is not a List''))"

definition plan_read_int_list :: "string \<Rightarrow> plan_reader \<Rightarrow> (pnode \<times> plan_reader) result" where
  "plan_read_int_list name r = rbind (read_field name r) (\<lambda>(v, r').
     case v of
       PNull \<Rightarrow> Inr (v, r')
     | PIntList _ \<Rightarrow> Inr (v, r')
     | _ \<Rightarrow> Inl (Elog ''pg_batch plan field is not an IntList''))"

definition bms_add_member :: "int \<Rightarrow> nat set \<Rightarrow> nat set result" where
  "bms_add_member x a =
     (if x < 0 then Inl (Elog ''negative bitmapset member not allowed'') else Inr (insert (nat x) a))"

definition plan_read_bitmap :: "string \<Rightarrow> plan_reader \<Rightarrow> (nat set \<times> plan_reader) result" where
  "plan_read_bitmap name r = rbind (plan_read_int_list name r) (\<lambda>(members, r').
     rbind (rfold bms_add_member (int_elems members) {}) (\<lambda>s. Inr (s, r')))"

definition plan_reader_finish :: "plan_reader \<Rightarrow> unit result" where
  "plan_reader_finish r =
     (if length (pr_read_names r) \<noteq> length (pr_fields r) then
        rfold (\<lambda>field _.
            if (case field_name field of Some n \<Rightarrow> n \<in> set (pr_read_names r) | None \<Rightarrow> False)
            then Inr () else Inl (Elog ''pg_batch plan field was not read''))
          (pr_fields r) ()
      else Inr ())"

section \<open>Plan data as an association list\<close>

definition fields_of :: "(string \<times> pnode) list \<Rightarrow> pnode list" where
  "fields_of fs = map (\<lambda>(n, v). PList [PString n, v]) fs"

definition names_ok :: "string list \<Rightarrow> bool" where
  "names_ok ns \<longleftrightarrow> distinct ns \<and> [] \<notin> set ns"

lemma fields_of_simps [simp]:
  "fields_of [] = []"
  "fields_of ((n, v) # fs) = PList [PString n, v] # fields_of fs"
  "fields_of (fs @ gs) = fields_of fs @ fields_of gs"
  "length (fields_of fs) = length fs"
  by (simp_all add: fields_of_def)

lemma find_field_fields_of:
  "find_field (fields_of fs) name =
     Inr (case map_of fs name of None \<Rightarrow> [] | Some v \<Rightarrow> [PString name, v])"
  by (induction fs) auto

lemma write_field_fields_of:
  assumes "pw_fields w = fields_of fs" "\<not> pw_finished w"
  shows "write_field name v w =
    (if name = [] then Inl (Elog ''pg_batch plan field requires a name'')
     else if name \<in> fst ` set fs then Inl (Elog ''pg_batch plan field is duplicated'')
     else Inr (w\<lparr>pw_fields := fields_of (fs @ [(name, v)])\<rparr>))"
  using assms
proof (cases "map_of fs name")
  case None
  then have "name \<notin> fst ` set fs" by (simp add: map_of_eq_None_iff)
  with None assms show ?thesis
    by (simp add: write_field_def check_name_def find_field_fields_of rbind_require)
next
  case (Some v')
  then have "name \<in> fst ` set fs" by (metis map_of_eq_None_iff option.distinct(1))
  with Some assms show ?thesis
    by (simp add: write_field_def check_name_def find_field_fields_of rbind_require)
qed

definition write_all :: "(string \<times> pnode) list \<Rightarrow> plan_writer \<Rightarrow> plan_writer result" where
  "write_all = rfold (\<lambda>(n, v). write_field n v)"

lemma write_all_fields_of:
  assumes "pw_fields w = fields_of gs" "\<not> pw_finished w" "names_ok (map fst (gs @ fs))"
  shows "write_all fs w = Inr (w\<lparr>pw_fields := fields_of (gs @ fs)\<rparr>)"
  using assms
proof (induction fs arbitrary: gs w)
  case (Cons f fs)
  obtain n v where f: "f = (n, v)" by (cases f)
  let ?w = "w\<lparr>pw_fields := fields_of (gs @ [(n, v)])\<rparr>"
  have "write_field n v w = Inr ?w"
    using Cons.prems f by (auto simp: write_field_fields_of names_ok_def)
  moreover have "write_all fs ?w = Inr (?w\<lparr>pw_fields := fields_of ((gs @ [(n, v)]) @ fs)\<rparr>)"
    using Cons.prems f by (intro Cons.IH) auto
  ultimately show ?case by (simp add: write_all_def f)
qed (simp add: write_all_def)

definition plan_encode :: "string \<Rightarrow> int \<Rightarrow> (string \<times> pnode) list \<Rightarrow> pnode result" where
  "plan_encode kind version fs =
     rbind (plan_writer_create kind version) (\<lambda>w.
     rbind (write_all fs w) (\<lambda>w.
     rbind (plan_writer_finish w) (\<lambda>(w, data). Inr data)))"

lemma plan_encode_eq:
  assumes "kind \<noteq> []" "0 < version" "names_ok (map fst fs)"
  shows "plan_encode kind version fs =
    Inr (PList [PString kind, PInteger version, mk_list (fields_of fs)])"
  using assms write_all_fields_of [of "\<lparr>pw_kind = kind, pw_version = version, pw_fields = [], pw_finished = False\<rparr>" "[]" fs]
  by (simp add: plan_encode_def plan_writer_create_def plan_writer_finish_def)

lemma check_fields_fields_of:
  "distinct (seen @ map fst fs) \<Longrightarrow> check_fields seen (fields_of fs) = Inr ()"
  by (induction fs arbitrary: seen) auto

text \<open>The reader state after the fields \<open>read\<close> have been consumed.\<close>

definition reader_at :: "string \<Rightarrow> (string \<times> pnode) list \<Rightarrow> string list \<Rightarrow> plan_reader" where
  "reader_at kind fs ns = \<lparr>pr_kind = kind, pr_fields = fields_of fs, pr_read_names = ns\<rparr>"

lemma plan_reader_create_eq:
  assumes "kind \<noteq> []" "0 < version" "names_ok (map fst fs)"
  shows "plan_reader_create (PList [PString kind, PInteger version, mk_list (fields_of fs)]) kind version =
    Inr (reader_at kind fs [])"
  using assms check_fields_fields_of [of "[]" fs]
  by (cases fs) (auto simp: plan_reader_create_def mk_list_def reader_at_def names_ok_def)

lemma read_field_reader_at:
  "read_field name (reader_at kind fs ns) =
     (if name = [] then Inl (Elog ''pg_batch plan field requires a name'')
      else if name \<in> set ns then Inl (Elog ''pg_batch plan field was read twice'')
      else case map_of fs name of
             None \<Rightarrow> Inl (Elog ''pg_batch plan field is missing'')
           | Some v \<Rightarrow> Inr (v, reader_at kind fs (ns @ [name])))"
  by (auto simp: read_field_def check_name_def reader_at_def find_field_fields_of rbind_require
      split: option.splits)

lemma rfold_guard:
  "rfold (\<lambda>x _. if P x then Inr () else Inl e) xs () = Inr () \<longleftrightarrow> (\<forall>x \<in> set xs. P x)"
  by (induction xs) auto

lemma field_name_fields_of: "f \<in> set (fields_of fs) \<Longrightarrow> \<exists>n \<in> fst ` set fs. field_name f = Some n"
  by (force simp: fields_of_def)

lemma plan_reader_finish_reader_at:
  assumes "names_ok (map fst fs)" "distinct ns" "set ns \<subseteq> fst ` set fs"
  shows "plan_reader_finish (reader_at kind fs ns) = Inr () \<longleftrightarrow> set ns = fst ` set fs"
proof -
  have card: "card (fst ` set fs) = length fs" "card (set ns) = length ns"
    using assms(1,2) distinct_card [of "map fst fs"] by (auto simp: names_ok_def distinct_card)
  show ?thesis
  proof (cases "length ns = length fs")
    case True
    then have "set ns = fst ` set fs"
      using card assms(3) by (intro card_subset_eq) auto
    with True show ?thesis by (simp add: plan_reader_finish_def reader_at_def)
  next
    case False
    then have ne: "set ns \<noteq> fst ` set fs" using card by auto
    then obtain n where "n \<in> fst ` set fs" "n \<notin> set ns" using assms(3) by blast
    then obtain v where "(n, v) \<in> set fs" "n \<notin> set ns" by auto
    then have pl: "PList [PString n, v] \<in> set (fields_of fs)"
      by (force simp: fields_of_def)
    have "\<not> (\<forall>f \<in> set (fields_of fs).
        case field_name f of Some n \<Rightarrow> n \<in> set ns | None \<Rightarrow> False)"
    proof
      assume "\<forall>f \<in> set (fields_of fs).
        case field_name f of Some n \<Rightarrow> n \<in> set ns | None \<Rightarrow> False"
      from bspec [OF this pl] \<open>n \<notin> set ns\<close> show False by simp
    qed
    with False ne show ?thesis
      unfolding plan_reader_finish_def reader_at_def plan_reader.simps
      by (simp add: rfold_guard)
  qed
qed

section \<open>Properties of plan data\<close>

text \<open>Reading a list of fields one after the other.\<close>

fun read_all :: "string list \<Rightarrow> plan_reader \<Rightarrow> (pnode list \<times> plan_reader) result" where
  "read_all [] r = Inr ([], r)"
| "read_all (n # ns) r =
     rbind (read_field n r) (\<lambda>(v, r).
     rbind (read_all ns r) (\<lambda>(vs, r). Inr (v # vs, r)))"

lemma read_all_reader_at:
  assumes "[] \<notin> fst ` set fs" "distinct (ms @ ns)" "set ns \<subseteq> fst ` set fs"
  shows "read_all ns (reader_at kind fs ms) =
    Inr (map (\<lambda>n. the (map_of fs n)) ns, reader_at kind fs (ms @ ns))"
  using assms(2,3)
proof (induction ns arbitrary: ms)
  case (Cons n ns)
  then obtain v where "map_of fs n = Some v"
    by (metis (no_types, opaque_lifting) list.set_intros(1) map_of_eq_None_iff not_Some_eq subsetD)
  moreover have "n \<noteq> []" using Cons.prems(2) assms(1) by (metis list.set_intros(1) subsetD)
  ultimately show ?case
    using Cons by (simp add: read_field_reader_at)
qed simp

text \<open>
  C13. Round trip of named plan data.  The writer accepts exactly the field lists
  whose names are distinct and non-empty, under a non-empty kind and a positive
  version.  What it writes, the reader accepts under the same kind and version;
  the fields may be read in any order, each once, and every value comes back;
  the reader finishes without error exactly when all the fields have been read.
\<close>

theorem plan_data_roundtrip:
  assumes "kind \<noteq> []" "0 < version" "names_ok (map fst fs)"
    and "distinct ns" "set ns \<subseteq> fst ` set fs"
  shows "\<exists>data r r'. plan_encode kind version fs = Inr data \<and>
    plan_reader_create data kind version = Inr r \<and>
    read_all ns r = Inr (map (\<lambda>n. the (map_of fs n)) ns, r') \<and>
    (plan_reader_finish r' = Inr () \<longleftrightarrow> set ns = fst ` set fs) \<and>
    (\<forall>n. (\<exists>v r''. read_field n r' = Inr (v, r'')) \<longleftrightarrow> n \<in> fst ` set fs - set ns)"
proof -
  have ok: "[] \<notin> fst ` set fs" using assms(3) by (auto simp: names_ok_def)
  have "(\<exists>v r''. read_field n (reader_at kind fs ns) = Inr (v, r'')) \<longleftrightarrow> n \<in> fst ` set fs - set ns" for n
  proof (cases "n \<in> fst ` set fs")
    case True
    then obtain v where "map_of fs n = Some v" "n \<noteq> []"
      using ok by (metis map_of_eq_None_iff not_Some_eq)
    with True show ?thesis by (simp add: read_field_reader_at)
  next
    case False
    then have "map_of fs n = None" by (simp add: map_of_eq_None_iff)
    with False show ?thesis by (simp add: read_field_reader_at)
  qed
  moreover have "read_all ns (reader_at kind fs []) =
      Inr (map (\<lambda>n. the (map_of fs n)) ns, reader_at kind fs ns)"
    using read_all_reader_at [OF ok, of "[]" ns kind] assms(4,5) by simp
  ultimately show ?thesis
    using plan_encode_eq [OF assms(1,2,3)] plan_reader_create_eq [OF assms(1,2,3)]
      plan_reader_finish_reader_at [OF assms(3,4,5), of kind]
    by blast
qed

theorem plan_data_roundtrip_witness:
  "\<exists>data r r'. plan_encode ''scan'' 1 [(''a'', PInteger 5), (''b'', PNull)] = Inr data \<and>
    plan_reader_create data ''scan'' 1 = Inr r \<and>
    read_all [''b'', ''a''] r = Inr ([PNull, PInteger 5], r') \<and>
    plan_reader_finish r' = Inr ()"
  using plan_data_roundtrip [of "''scan''" 1 "[(''a'', PInteger 5), (''b'', PNull)]" "[''b'', ''a'']"]
  by (auto simp: names_ok_def)

lemma check_fields_Inr:
  "check_fields seen fl = Inr () \<longleftrightarrow>
     (\<exists>fs. fl = fields_of fs \<and> distinct (map fst fs) \<and> set seen \<inter> fst ` set fs = {})"
proof (induction fl arbitrary: seen)
  case (Cons f fl)
  show ?case
  proof (cases "field_name f")
    case None
    then have "\<nexists>fs. f # fl = fields_of fs"
      by (auto simp: fields_of_def)
    with None show ?thesis by simp
  next
    case (Some n)
    then obtain v where f: "f = PList [PString n, v]"
      by (cases f rule: field_name.cases) auto
    have "(\<exists>fs. f # fl = fields_of fs \<and> P fs) \<longleftrightarrow> (\<exists>fs. fl = fields_of fs \<and> P ((n, v) # fs))" for P
    proof
      assume "\<exists>fs. f # fl = fields_of fs \<and> P fs"
      then obtain fs where "f # fl = fields_of fs" "P fs" by blast
      then show "\<exists>fs. fl = fields_of fs \<and> P ((n, v) # fs)"
        by (cases fs) (auto simp: f)
    next
      assume "\<exists>fs. fl = fields_of fs \<and> P ((n, v) # fs)"
      then show "\<exists>fs. f # fl = fields_of fs \<and> P fs"
        by (metis f fields_of_simps(2))
    qed
    then show ?thesis
      using Cons.IH [of "seen @ [n]"] by (auto simp: Some)
  qed
qed (auto simp: fields_of_def)

text \<open>
  C34. Exactly the data of the right shape is accepted by the reader: a kind and a
  version that match, and a list of named fields without a repeated name; the
  reader then starts with no field read.  Everything else is an error.
\<close>

theorem plan_reader_accepts_iff:
  "(\<exists>r. plan_reader_create data kind version = Inr r \<and> pr_read_names r = []) \<longleftrightarrow>
     kind \<noteq> [] \<and> 0 < version \<and>
     (\<exists>fs flds. data = PList [PString kind, PInteger version, flds] \<and>
        distinct (map fst fs) \<and> (flds = PList (fields_of fs) \<or> flds = PNull \<and> fs = []))"
proof (cases "\<exists>k v flds. data = PList [PString k, PInteger v, flds]")
  case False
  then show ?thesis
    by (auto simp: plan_reader_create_def split: pnode.splits list.splits)
next
  case True
  then obtain k v flds where d: "data = PList [PString k, PInteger v, flds]" by blast
  have e: "rbind (check_fields [] fl) (\<lambda>_. Inr (r :: plan_reader)) = Inr r' \<longleftrightarrow>
      (\<exists>fs. fl = fields_of fs \<and> distinct (map fst fs)) \<and> r' = r" for fl r r'
    using check_fields_Inr [of "[]" fl] by (auto simp: rbind_Inr_iff)
  show ?thesis
    by (cases flds) (auto simp: d plan_reader_create_def e intro: exI [of _ "[]"])
qed

lemma rfold_bms_add_member:
  "rfold bms_add_member xs s =
     (if \<forall>x \<in> set xs. 0 \<le> x then Inr (s \<union> nat ` set xs)
      else Inl (Elog ''negative bitmapset member not allowed''))"
  by (induction xs arbitrary: s) (auto simp: bms_add_member_def)

lemma int_elems_mk [simp]: "int_elems (mk_int_list xs) = xs"
  by (simp add: mk_int_list_def)

lemma list_elems_mk [simp]: "list_elems (mk_list xs) = xs"
  by (simp add: mk_list_def)

lemma plan_read_int_list_mk:
  "read_field name r = Inr (mk_int_list xs, r') \<Longrightarrow>
     plan_read_int_list name r = Inr (mk_int_list xs, r')"
  by (simp add: plan_read_int_list_def mk_int_list_def)

text \<open>
  A bitmap survives the round trip: the set written as a list of integers is
  the set read back, and a list that is no bitmap (a negative member) is refused.
\<close>

theorem plan_bitmap_roundtrip:
  assumes "finite members" "name \<noteq> []" "kind \<noteq> []" "0 < version"
    and "plan_writer_create kind version = Inr w"
  shows "\<exists>w' w'' data r r'. plan_write_bitmap name members w = Inr w' \<and>
    plan_writer_finish w' = Inr (w'', data) \<and>
    plan_reader_create data kind version = Inr r \<and>
    plan_read_bitmap name r = Inr (members, r') \<and> plan_reader_finish r' = Inr ()"
proof -
  define v where "v = mk_int_list (map int (sorted_list_of_set members))"
  have w: "w = \<lparr>pw_kind = kind, pw_version = version, pw_fields = [], pw_finished = False\<rparr>"
    using assms(3-5) by (simp add: plan_writer_create_def split: if_splits)
  have ok: "names_ok (map fst [(name, v)])" using assms(2) by (simp add: names_ok_def)
  have 1: "plan_write_bitmap name members w = Inr (w\<lparr>pw_fields := fields_of [(name, v)]\<rparr>)"
    using write_field_fields_of [of w "[]" name v] assms(2) by (simp add: w plan_write_bitmap_def v_def)
  have 2: "plan_writer_finish (w\<lparr>pw_fields := fields_of [(name, v)]\<rparr>) =
      Inr (w\<lparr>pw_fields := fields_of [(name, v)], pw_finished := True\<rparr>,
        PList [PString kind, PInteger version, mk_list (fields_of [(name, v)])])"
    by (simp add: plan_writer_finish_def w)
  have "read_field name (reader_at kind [(name, v)] []) = Inr (v, reader_at kind [(name, v)] [name])"
    using assms(2) by (simp add: read_field_reader_at)
  then have 3: "plan_read_bitmap name (reader_at kind [(name, v)] []) =
      Inr (members, reader_at kind [(name, v)] [name])"
    using assms(1) by (simp add: plan_read_bitmap_def v_def plan_read_int_list_mk
        rfold_bms_add_member image_image)
  have 4: "plan_reader_finish (reader_at kind [(name, v)] [name]) = Inr ()"
    using plan_reader_finish_reader_at [OF ok, of "[name]" kind] by simp
  show ?thesis
    using 1 2 3 4 plan_reader_create_eq [OF assms(3,4) ok] by blast
qed

theorem plan_bitmap_roundtrip_witness:
  "\<exists>w' w'' data r r'. plan_write_bitmap ''cols'' {0, 5, 63}
      \<lparr>pw_kind = ''k'', pw_version = 1, pw_fields = [], pw_finished = False\<rparr> = Inr w' \<and>
    plan_writer_finish w' = Inr (w'', data) \<and>
    plan_reader_create data ''k'' 1 = Inr r \<and>
    plan_read_bitmap ''cols'' r = Inr ({0, 5, 63}, r') \<and> plan_reader_finish r' = Inr ()"
  by (rule plan_bitmap_roundtrip) (simp_all add: plan_writer_create_def)

end
