(* ===== verification/Planner.thy ===== *)
theory Planner
  imports Plan_Data Registry
begin

text \<open>
  Batch-aware paths and plans, \<open>runtime/planner.c\<close>: creating a \<open>CustomPath\<close> and a
  \<open>CustomScan\<close> with their common plan data, inspecting a child, and decoding the
  plan when execution starts.  A path or plan that is no custom node is opaque.
  \<open>path_rest\<close> stands for the generic fields of \<open>Path\<close> copied from the template.
  A result argument is the size its caller announces (\<open>None\<close> is NULL).
\<close>

section \<open>Paths and plans\<close>

datatype path =
    Plain_Path (path_rest: nat)
  | Custom_Path (path_rest: nat) (cp_methods: nat) (cp_flags: uint32)
      (cp_paths: "path option list") (cp_restrictinfo: pnode) (cp_private: pnode)

datatype plan =
    Plain_Plan (plan_targetlist: "pnode list")
  | Custom_Scan (plan_targetlist: "pnode list") (cs_qual: pnode) (cs_methods: nat)
      (cs_flags: uint32) (cs_scanrelid: nat) (cs_plans: "plan option list") (cs_exprs: pnode)
      (cs_scan_tlist: "pnode list") (cs_relids: "nat set") (cs_private: pnode)

type_synonym plan_node = "(path option, plan) node_ops"

definition PgBatchAPI_layout :: struct_layout where
  "PgBatchAPI_layout =
     [(''abi_version'', 4, 4), (''struct_size'', 8, 8), (''register_source'', 8, 8),
      (''unregister_source'', 8, 8), (''find_source'', 8, 8), (''get_source'', 8, 8),
      (''register_node'', 8, 8), (''unregister_node'', 8, 8), (''find_node'', 8, 8),
      (''get_node'', 8, 8), (''find_binding'', 8, 8), (''attach_slot'', 8, 8),
      (''set_request'', 8, 8), (''set_source'', 8, 8), (''get_bound_source'', 8, 8),
      (''seal_request'', 8, 8), (''get_request'', 8, 8), (''publish_batch'', 8, 8),
      (''get_batch'', 8, 8), (''select_row'', 8, 8), (''finish'', 8, 8), (''finished'', 8, 8),
      (''clear'', 8, 8), (''detach_binding'', 8, 8), (''get_row_view'', 8, 8)]"

record planner_api =
  api_abi_version :: uint32
  api_struct_size :: nat
  api_find_node :: "(path option \<Rightarrow> plan_node option result) option"

definition check_api :: "planner_api option \<Rightarrow> unit result" where
  "check_api api =
     (case api of
        None \<Rightarrow> Inl (Elog ''pg_batch plan received an incompatible bridge API'')
      | Some a \<Rightarrow>
          if api_abi_version a \<noteq> 1 \<or>
             api_struct_size a < abi_size_through PgBatchAPI_layout ''detach_binding'' \<or>
             Option.is_none (api_find_node a)
          then Inl (Elog ''pg_batch plan received an incompatible bridge API'')
          else Inr ())"

section \<open>Creating and reading a path\<close>

definition PgBatchPathConfig_layout :: struct_layout where
  "PgBatchPathConfig_layout =
     [(''struct_size'', 8, 8), (''template_path'', 8, 8), (''methods'', 8, 8), (''children'', 8, 8),
      (''restrictinfo'', 8, 8), (''expressions'', 8, 8), (''node_data'', 8, 8), (''flags'', 4, 4)]"

definition PgBatchPathInfo_layout :: struct_layout where
  "PgBatchPathInfo_layout =
     [(''struct_size'', 8, 8), (''expressions'', 8, 8), (''node_data'', 8, 8)]"

record path_config =
  pc_struct_size :: nat
  pc_template_path :: "path option"
  pc_methods :: "nat option"
  pc_children :: "path option list"
  pc_restrictinfo :: pnode
  pc_expressions :: pnode
  pc_node_data :: pnode
  pc_flags :: uint32

definition check_path_config :: "path_config option \<Rightarrow> unit result" where
  "check_path_config config =
     (case config of
        None \<Rightarrow> Inl (Elog ''pg_batch received an incompatible path configuration'')
      | Some c \<Rightarrow>
          if pc_struct_size c < abi_size_through PgBatchPathConfig_layout ''flags''
          then Inl (Elog ''pg_batch received an incompatible path configuration'')
          else if pc_template_path c = None \<or> pc_methods c = None
          then Inl (Elog ''pg_batch path requires a template and methods'')
          else rfold (\<lambda>child _. if child = None
                 then Inl (Elog ''pg_batch path received an invalid child'') else Inr ())
               (pc_children c) ())"

abbreviation (input) PATH_DATA_KIND :: string where "PATH_DATA_KIND \<equiv> ''pg_batch.path''"
abbreviation (input) PLAN_DATA_KIND :: string where "PLAN_DATA_KIND \<equiv> ''pg_batch.plan''"
abbreviation (input) COMMON_DATA_VERSION :: int where "COMMON_DATA_VERSION \<equiv> 1"

definition path_create :: "path_config option \<Rightarrow> path result" where
  "path_create config =
     rbind (check_path_config config) (\<lambda>_.
     let c = the config in
     rbind (plan_writer_create PATH_DATA_KIND COMMON_DATA_VERSION) (\<lambda>w.
     rbind (plan_write_list ''expressions'' (pc_expressions c) w) (\<lambda>w.
     rbind (plan_write_node ''node_data'' (pc_node_data c) w) (\<lambda>w.
     rbind (plan_writer_finish w) (\<lambda>(w, data).
     Inr (Custom_Path (path_rest (the (pc_template_path c))) (the (pc_methods c)) (pc_flags c)
            (pc_children c) (pc_restrictinfo c) data))))))"

definition path_matches :: "path option \<Rightarrow> nat option \<Rightarrow> bool" where
  "path_matches path methods =
     (case (path, methods) of
        (Some (Custom_Path _ m _ _ _ _), Some methods) \<Rightarrow> m = methods
      | _ \<Rightarrow> False)"

record path_info =
  pi_expressions :: pnode
  pi_path_node_data :: pnode

definition path_get_info :: "path option \<Rightarrow> nat option \<Rightarrow> path_info result" where
  "path_get_info path result_size =
     (case result_size of
        None \<Rightarrow> Inl (Elog ''pg_batch received an incompatible path result'')
      | Some sz \<Rightarrow>
          if sz < abi_size_through PgBatchPathInfo_layout ''node_data''
          then Inl (Elog ''pg_batch received an incompatible path result'')
          else
            (case path of
               Some (Custom_Path _ _ _ _ _ private) \<Rightarrow>
                 rbind (plan_reader_create private PATH_DATA_KIND COMMON_DATA_VERSION) (\<lambda>r.
                 rbind (plan_read_list ''expressions'' r) (\<lambda>(expressions, r).
                 rbind (plan_read_node ''node_data'' r) (\<lambda>(node_data, r).
                 rbind (plan_reader_finish r) (\<lambda>_.
                 Inr \<lparr>pi_expressions = expressions, pi_path_node_data = node_data\<rparr>))))
             | _ \<Rightarrow> Inl (Elog ''pg_batch expected a custom path'')))"

section \<open>Creating a plan\<close>

definition PgBatchPlanConfig_layout :: struct_layout where
  "PgBatchPlanConfig_layout =
     [(''struct_size'', 8, 8), (''api'', 8, 8), (''methods'', 8, 8), (''layout_policy'', 4, 4),
      (''layout_child'', 4, 4), (''explicit_layout'', 8, 8), (''qual'', 8, 8),
      (''expressions'', 8, 8), (''node_data'', 8, 8), (''scan_targetlist'', 8, 8), (''scanrelid'', 4, 4)]"

definition PgBatchPlanChild_layout :: struct_layout where
  "PgBatchPlanChild_layout =
     [(''struct_size'', 8, 8), (''path'', 8, 8), (''plan'', 8, 8), (''node'', 8, 8), (''layout'', 24, 8)]"

definition PgBatchPlanInfo_layout :: struct_layout where
  "PgBatchPlanInfo_layout =
     [(''struct_size'', 8, 8), (''nchildren'', 4, 4), (''child_names'', 8, 8), (''layout'', 24, 8),
      (''node_data'', 8, 8)]"

abbreviation (input) PG_BATCH_LAYOUT_PRESERVE_CHILD :: int where "PG_BATCH_LAYOUT_PRESERVE_CHILD \<equiv> 0"
abbreviation (input) PG_BATCH_LAYOUT_DENSE :: int where "PG_BATCH_LAYOUT_DENSE \<equiv> 1"
abbreviation (input) PG_BATCH_LAYOUT_EXPLICIT :: int where "PG_BATCH_LAYOUT_EXPLICIT \<equiv> 2"

record plan_config =
  plc_struct_size :: nat
  plc_api :: "planner_api option"
  plc_methods :: "nat option"
  plc_layout_policy :: int
  plc_layout_child :: int
  plc_explicit_layout :: "layout option"
  plc_qual :: pnode
  plc_expressions :: pnode
  plc_node_data :: pnode
  plc_scan_targetlist :: "pnode list"
  plc_scanrelid :: nat

definition check_plan_config :: "plan_config option \<Rightarrow> unit result" where
  "check_plan_config config =
     (case config of
        None \<Rightarrow> Inl (Elog ''pg_batch received an incompatible plan configuration'')
      | Some c \<Rightarrow>
          rbind (require (\<not> plc_struct_size c < abi_size_through PgBatchPlanConfig_layout ''scanrelid'')
            (Elog ''pg_batch received an incompatible plan configuration'')) (\<lambda>_.
          rbind (require (plc_methods c \<noteq> None) (Elog ''pg_batch plan requires scan methods'')) (\<lambda>_.
          rbind (check_api (plc_api c)) (\<lambda>_.
          rbind (require (\<not> (plc_layout_policy c < PG_BATCH_LAYOUT_PRESERVE_CHILD \<or>
              plc_layout_policy c > PG_BATCH_LAYOUT_EXPLICIT))
            (Elog ''pg_batch plan received an invalid layout policy'')) (\<lambda>_.
          require (\<not> (plc_layout_policy c = PG_BATCH_LAYOUT_EXPLICIT \<and> plc_explicit_layout c = None))
            (Elog ''pg_batch plan requires an explicit output layout''))))))"

definition check_plan_child_lists :: "path option \<Rightarrow> plan option list \<Rightarrow> unit result" where
  "check_plan_child_lists path child_plans =
     (case path of
        Some (Custom_Path _ _ _ paths _ _) \<Rightarrow>
          require (length paths = length child_plans)
            (Elog ''pg_batch path and plan child counts differ'')
      | _ \<Rightarrow> Inl (Elog ''pg_batch expected a custom path''))"

definition copy_layout :: "layout option \<Rightarrow> layout \<Rightarrow> layout result" where
  "copy_layout source result =
     rbind (check_layout source) (\<lambda>_.
     let s = the source in
     Inr (result\<lparr>lay_ncolumns := lay_ncolumns s, lay_ntargets := lay_ntargets s,
       lay_target_columns := (case lay_target_columns s of
          None \<Rightarrow> None | Some columns \<Rightarrow> Some (take (nat (lay_ntargets s)) columns))\<rparr>))"

definition layout_initializer :: layout where
  "layout_initializer = \<lparr>lay_struct_size = struct_sizeof PgBatchLayout_layout, lay_ncolumns = 0,
     lay_ntargets = 0, lay_target_columns = None\<rparr>"

record plan_child =
  ch_path :: "path option"
  ch_plan :: plan
  ch_node :: "plan_node option"
  ch_layout :: layout

definition plan_child ::
  "planner_api option \<Rightarrow> path option \<Rightarrow> plan option list \<Rightarrow> int \<Rightarrow> nat option \<Rightarrow>
     (bool \<times> plan_child) result" where
  "plan_child api path child_plans child_index result_size =
     rbind (check_api api) (\<lambda>_.
     rbind (require (case result_size of None \<Rightarrow> False
         | Some sz \<Rightarrow> \<not> sz < abi_size_through PgBatchPlanChild_layout ''layout'')
       (Elog ''pg_batch received an incompatible plan child result'')) (\<lambda>_.
     rbind (check_plan_child_lists path child_plans) (\<lambda>_.
     rbind (require (\<not> (child_index < 0 \<or> child_index \<ge> int (length child_plans)))
       (Elog ''pg_batch plan child index is out of range'')) (\<lambda>_.
     let child_path = cp_paths (the path) ! nat child_index in
     case child_plans ! nat child_index of
       None \<Rightarrow> Inl (Elog ''pg_batch received an invalid child plan'')
     | Some child_plan \<Rightarrow>
         rbind (the (api_find_node (the api)) child_path) (\<lambda>node.
         let result = \<lparr>ch_path = child_path, ch_plan = child_plan, ch_node = node,
                       ch_layout = layout_initializer\<rparr>
         in case node of
              None \<Rightarrow> Inr (False, result)
            | Some node \<Rightarrow>
                rbind (the (no_get_layout node) child_plan layout_initializer) (\<lambda>layout.
                rbind (check_layout (Some layout)) (\<lambda>_.
                rbind (require (lay_ntargets layout = int (length (plan_targetlist child_plan)))
                  (Elog ''pg_batch node returned an invalid output layout'')) (\<lambda>_.
                Inr (True, result\<lparr>ch_layout := layout\<rparr>)))))))))"

fun plan_child_names ::
  "(path option \<Rightarrow> plan_node option result) \<Rightarrow> path option list \<Rightarrow> plan option list \<Rightarrow>
     pnode list \<Rightarrow> pnode list result" where
  "plan_child_names search (child_path # paths) (child_plan # plans) names =
     rbind (require (child_plan \<noteq> None) (Elog ''pg_batch received an invalid child plan'')) (\<lambda>_.
     rbind (search child_path) (\<lambda>node.
     plan_child_names search paths plans
       (names @ [case node of Some node \<Rightarrow> PString (node_name node) | None \<Rightarrow> PNull])))"
| "plan_child_names search _ _ names = Inr names"

definition plan_layout ::
  "plan_config \<Rightarrow> path option \<Rightarrow> plan option list \<Rightarrow> pnode list \<Rightarrow> layout result" where
  "plan_layout c path child_plans targetlist =
     (if plc_layout_policy c = PG_BATCH_LAYOUT_PRESERVE_CHILD then
        rbind (plan_child (plc_api c) path child_plans (plc_layout_child c)
                (Some (struct_sizeof PgBatchPlanChild_layout))) (\<lambda>(batches, child).
        rbind (require batches (Elog ''pg_batch cannot preserve a row-only child layout'')) (\<lambda>_.
        copy_layout (Some (ch_layout child)) layout_initializer))
      else if plc_layout_policy c = PG_BATCH_LAYOUT_DENSE then
        Inr (layout_initializer\<lparr>lay_ncolumns := int (length targetlist),
               lay_ntargets := int (length targetlist), lay_target_columns := None\<rparr>)
      else copy_layout (plc_explicit_layout c) layout_initializer)"

definition plan_data_write ::
  "pnode list \<Rightarrow> int \<Rightarrow> layout \<Rightarrow> pnode \<Rightarrow> pnode result" where
  "plan_data_write child_names layout_policy layout node_data =
     (let mapped = lay_target_columns layout \<noteq> None;
          target_columns = (case lay_target_columns layout of None \<Rightarrow> []
            | Some columns \<Rightarrow> map (\<lambda>target. columns ! target) [0..<nat (lay_ntargets layout)])
      in
      rbind (plan_writer_create PLAN_DATA_KIND COMMON_DATA_VERSION) (\<lambda>w.
      rbind (plan_write_list ''child_names'' (mk_list child_names) w) (\<lambda>w.
      rbind (plan_write_int ''layout_policy'' layout_policy w) (\<lambda>w.
      rbind (plan_write_int ''ncolumns'' (lay_ncolumns layout) w) (\<lambda>w.
      rbind (plan_write_int ''ntargets'' (lay_ntargets layout) w) (\<lambda>w.
      rbind (plan_write_int ''mapped'' (if mapped then 1 else 0) w) (\<lambda>w.
      rbind (plan_write_int_list ''target_columns'' (mk_int_list target_columns) w) (\<lambda>w.
      rbind (plan_write_node ''node_data'' node_data w) (\<lambda>w.
      rbind (plan_writer_finish w) (\<lambda>(w, data). Inr data))))))))))"

definition plan_create ::
  "nat set option \<Rightarrow> path option \<Rightarrow> pnode list \<Rightarrow> plan option list \<Rightarrow> plan_config option \<Rightarrow>
     plan result" where
  "plan_create rel_relids path targetlist child_plans config =
     rbind (check_plan_config config) (\<lambda>_.
     let c = the config in
     rbind (check_plan_child_lists path child_plans) (\<lambda>_.
     rbind (plan_child_names (the (api_find_node (the (plc_api c)))) (cp_paths (the path)) child_plans [])
       (\<lambda>child_names.
     rbind (plan_layout c path child_plans targetlist) (\<lambda>layout.
     rbind (require (lay_ntargets layout = int (length targetlist))
       (Elog ''pg_batch output layout does not match its target list'')) (\<lambda>_.
     let scan_targetlist =
           (if plc_scan_targetlist c \<noteq> [] then plc_scan_targetlist c
            else if plc_layout_policy c = PG_BATCH_LAYOUT_PRESERVE_CHILD
            then plan_targetlist (the (child_plans ! nat (plc_layout_child c)))
            else targetlist)
     in
     rbind (plan_data_write child_names (plc_layout_policy c) layout (plc_node_data c)) (\<lambda>private.
     Inr (Custom_Scan targetlist (plc_qual c) (the (plc_methods c)) (cp_flags (the path))
            (plc_scanrelid c) child_plans (plc_expressions c) scan_targetlist
            (case rel_relids of None \<Rightarrow> {} | Some relids \<Rightarrow> relids) private)))))))"

section \<open>Reading a plan\<close>

record plan_info =
  pi_nchildren :: int
  pi_child_names :: "string option list"
  pi_layout :: layout
  pi_node_data :: pnode

fun child_name_strings :: "pnode list \<Rightarrow> string option list result" where
  "child_name_strings [] = Inr []"
| "child_name_strings (v # vs) =
     (case v of
        PNull \<Rightarrow> rbind (child_name_strings vs) (\<lambda>ns. Inr (None # ns))
      | PString n \<Rightarrow> rbind (child_name_strings vs) (\<lambda>ns. Inr (Some n # ns))
      | _ \<Rightarrow> Inl (Elog ''pg_batch plan received an invalid child name''))"

definition plan_get_info :: "plan option \<Rightarrow> nat option \<Rightarrow> plan_info result" where
  "plan_get_info scan result_size =
     rbind (require (case result_size of None \<Rightarrow> False
         | Some sz \<Rightarrow> \<not> sz < abi_size_through PgBatchPlanInfo_layout ''node_data'')
       (Elog ''pg_batch received an incompatible plan result'')) (\<lambda>_.
     case scan of
       Some (Custom_Scan targetlist _ _ _ _ _ _ _ _ private) \<Rightarrow>
         rbind (plan_reader_create private PLAN_DATA_KIND COMMON_DATA_VERSION) (\<lambda>r.
         rbind (plan_read_list ''child_names'' r) (\<lambda>(child_names, r).
         rbind (child_name_strings (list_elems child_names)) (\<lambda>names.
         rbind (plan_read_int ''layout_policy'' r) (\<lambda>(layout_policy, r).
         rbind (require (\<not> (layout_policy < PG_BATCH_LAYOUT_PRESERVE_CHILD \<or>
             layout_policy > PG_BATCH_LAYOUT_EXPLICIT))
           (Elog ''pg_batch plan received an invalid layout policy'')) (\<lambda>_.
         rbind (plan_read_int ''ncolumns'' r) (\<lambda>(ncolumns, r).
         rbind (plan_read_int ''ntargets'' r) (\<lambda>(ntargets, r).
         rbind (plan_read_int ''mapped'' r) (\<lambda>(mapped, r).
         rbind (plan_read_int_list ''target_columns'' r) (\<lambda>(target_columns, r).
         rbind (if mapped \<noteq> 0
                then rbind (require (int (length (int_elems target_columns)) = ntargets)
                       (Elog ''pg_batch plan received an invalid target mapping''))
                     (\<lambda>_. Inr (Some (int_elems target_columns)))
                else if target_columns \<noteq> PNull
                then Inl (Elog ''pg_batch identity layout contains a target mapping'')
                else Inr None) (\<lambda>columns.
         rbind (plan_read_node ''node_data'' r) (\<lambda>(node_data, r).
         rbind (plan_reader_finish r) (\<lambda>_.
         let layout =
           (if layout_policy = PG_BATCH_LAYOUT_DENSE
            then layout_initializer\<lparr>lay_ncolumns := int (length targetlist),
                   lay_ntargets := int (length targetlist), lay_target_columns := None\<rparr>
            else layout_initializer\<lparr>lay_ncolumns := ncolumns, lay_ntargets := ntargets,
                   lay_target_columns := columns\<rparr>)
         in
         rbind (check_layout (Some layout)) (\<lambda>_.
         rbind (require (lay_ntargets layout = int (length targetlist))
           (Elog ''pg_batch plan layout does not match its target list'')) (\<lambda>_.
         Inr \<lparr>pi_nchildren = int (length (list_elems child_names)), pi_child_names = names,
              pi_layout = layout, pi_node_data = node_data\<rparr>))))))))))))))
     | _ \<Rightarrow> Inl (Elog ''pg_batch expected a custom plan''))"

definition plan_get_layout :: "plan option \<Rightarrow> layout option \<Rightarrow> layout result" where
  "plan_get_layout plan result =
     (case result of
        None \<Rightarrow> Inl (Elog ''pg_batch received an incompatible output layout'')
      | Some l \<Rightarrow>
          if lay_struct_size l < abi_size_through PgBatchLayout_layout ''target_columns''
          then Inl (Elog ''pg_batch received an incompatible output layout'')
          else
            (case plan of
               Some (Custom_Scan _ _ _ _ _ _ _ _ _ _) \<Rightarrow>
                 rbind (plan_get_info plan (Some (struct_sizeof PgBatchPlanInfo_layout))) (\<lambda>info.
                 copy_layout (Some (pi_layout info)) l)
             | _ \<Rightarrow> Inl (Elog ''pg_batch expected a custom plan'')))"

end
