(* ===== verification/Planner_Props.thy ===== *)
theory Planner_Props
  imports Planner
begin

text \<open>
  Round trips through the common plan data: what \<open>path_create\<close> and \<open>plan_create\<close>
  store is what \<open>path_get_info\<close> and \<open>plan_get_info\<close> return.
\<close>

section \<open>Writers and readers over association lists\<close>

definition writer_at :: "string \<Rightarrow> int \<Rightarrow> (string \<times> pnode) list \<Rightarrow> plan_writer" where
  "writer_at kind version fs =
     \<lparr>pw_kind = kind, pw_version = version, pw_fields = fields_of fs, pw_finished = False\<rparr>"

lemma plan_writer_create_at:
  "kind \<noteq> [] \<Longrightarrow> 0 < version \<Longrightarrow> plan_writer_create kind version = Inr (writer_at kind version [])"
  by (simp add: plan_writer_create_def writer_at_def)

lemma write_field_at:
  "name \<noteq> [] \<Longrightarrow> name \<notin> fst ` set fs \<Longrightarrow>
     write_field name v (writer_at kind version fs) = Inr (writer_at kind version (fs @ [(name, v)]))"
  using write_field_fields_of [of "writer_at kind version fs" fs name v] by (simp add: writer_at_def)

lemma plan_writer_finish_at:
  "plan_writer_finish (writer_at kind version fs) =
     Inr ((writer_at kind version fs)\<lparr>pw_finished := True\<rparr>,
       PList [PString kind, PInteger version, mk_list (fields_of fs)])"
  by (simp add: plan_writer_finish_def writer_at_def)

lemma plan_write_typed [simp]:
  "plan_write_int name i w = write_field name (PInteger i) w"
  "plan_write_node name v w = write_field name v w"
  "plan_write_list name (mk_list xs) w = write_field name (mk_list xs) w"
  "plan_write_int_list name (mk_int_list is) w = write_field name (mk_int_list is) w"
  "plan_write_string name (Some s) w = write_field name (PString s) w"
  by (simp_all add: plan_write_int_def plan_write_node_def plan_write_list_def
      plan_write_int_list_def plan_write_string_def mk_list_def mk_int_list_def)

lemma plan_write_list_eq:
  "plan_write_list name v w =
     (if v = PNull \<or> (\<exists>xs. v = PList xs) then write_field name v w
      else Inl (Elog ''pg_batch plan field is not a List''))"
  by (simp add: plan_write_list_def split: pnode.splits)

lemma read_field_at:
  "name \<noteq> [] \<Longrightarrow> name \<notin> set ns \<Longrightarrow> map_of fs name = Some v \<Longrightarrow>
     read_field name (reader_at kind fs ns) = Inr (v, reader_at kind fs (ns @ [name]))"
  by (simp add: read_field_reader_at)

lemma plan_read_typed:
  "read_field name r = Inr (PInteger i, r') \<Longrightarrow> plan_read_int name r = Inr (i, r')"
  "read_field name r = Inr (v, r') \<Longrightarrow> plan_read_node name r = Inr (v, r')"
  "read_field name r = Inr (mk_list xs, r') \<Longrightarrow> plan_read_list name r = Inr (mk_list xs, r')"
  "read_field name r = Inr (mk_int_list is, r') \<Longrightarrow> plan_read_int_list name r = Inr (mk_int_list is, r')"
  "read_field name r = Inr (PString s, r') \<Longrightarrow> plan_read_string name r = Inr (s, r')"
  by (simp_all add: plan_read_int_def plan_read_node_def plan_read_list_def
      plan_read_int_list_def plan_read_string_def mk_list_def mk_int_list_def)

lemma plan_reader_finish_at:
  "names_ok (map fst fs) \<Longrightarrow> distinct ns \<Longrightarrow> set ns = fst ` set fs \<Longrightarrow>
     plan_reader_finish (reader_at kind fs ns) = Inr ()"
  by (simp add: plan_reader_finish_reader_at)

lemmas write_plan_data = plan_writer_create_at write_field_at plan_writer_finish_at
lemmas read_plan_data = plan_reader_create_eq plan_read_typed [OF read_field_at]
  read_field_at plan_reader_finish_at

section \<open>Plans\<close>

definition layout_targets :: "layout \<Rightarrow> int list" where
  "layout_targets l = (case lay_target_columns l of None \<Rightarrow> []
     | Some columns \<Rightarrow> map (\<lambda>target. columns ! target) [0..<nat (lay_ntargets l)])"

definition plan_fields :: "pnode list \<Rightarrow> int \<Rightarrow> layout \<Rightarrow> pnode \<Rightarrow> (string \<times> pnode) list" where
  "plan_fields names policy l node_data =
     [(''child_names'', mk_list names), (''layout_policy'', PInteger policy),
      (''ncolumns'', PInteger (lay_ncolumns l)), (''ntargets'', PInteger (lay_ntargets l)),
      (''mapped'', PInteger (if lay_target_columns l \<noteq> None then 1 else 0)),
      (''target_columns'', mk_int_list (layout_targets l)), (''node_data'', node_data)]"

lemma plan_fields_ok: "names_ok (map fst (plan_fields names policy l node_data))"
  by (simp add: plan_fields_def names_ok_def)

lemma plan_data_write_eq:
  "plan_data_write names policy l node_data =
     Inr (PList [PString PLAN_DATA_KIND, PInteger COMMON_DATA_VERSION,
       mk_list (fields_of (plan_fields names policy l node_data))])"
  unfolding plan_data_write_def Let_def layout_targets_def [symmetric]
  by (simp add: write_plan_data plan_fields_def)

definition name_node :: "string option \<Rightarrow> pnode" where
  "name_node n = (case n of Some s \<Rightarrow> PString s | None \<Rightarrow> PNull)"

lemma child_name_strings_name_node [simp]: "child_name_strings (map name_node ns) = Inr ns"
  by (induction ns) (auto simp: name_node_def split: option.splits)

text \<open>The names a successful \<open>plan_child_names\<close> collects.\<close>

definition node_name_of :: "plan_node option \<Rightarrow> string option" where
  "node_name_of node = map_option node_name node"

lemma plan_child_names_Inr:
  assumes "plan_child_names search paths plans names = Inr names'" "length paths = length plans"
  shows "\<exists>found. names' = names @ map (\<lambda>n. name_node (node_name_of n)) found \<and> None \<notin> set plans \<and>
    list_all2 (\<lambda>p node. search p = Inr node) paths found"
  using assms(2,1)
proof (induction paths plans arbitrary: names rule: list_induct2)
  case (Cons p ps q qs)
  then obtain node where node: "search p = Inr node" "q \<noteq> None"
    "plan_child_names search ps qs (names @ [name_node (node_name_of node)]) = Inr names'"
    by (auto simp: rbind_Inr_iff name_node_def node_name_of_def split: option.splits)
  from Cons.IH [OF node(3)] obtain found where
    "names' = names @ map (\<lambda>n. name_node (node_name_of n)) (node # found)" "None \<notin> set qs"
    "list_all2 (\<lambda>p node. search p = Inr node) ps found"
    by auto
  with node show ?case by (intro exI [of _ "node # found"]) auto
qed simp

lemma copy_layout_Inr:
  "copy_layout (Some s) l = Inr l' \<longleftrightarrow> check_layout (Some s) = Inr () \<and>
     l' = l\<lparr>lay_ncolumns := lay_ncolumns s, lay_ntargets := lay_ntargets s,
       lay_target_columns := map_option (take (nat (lay_ntargets s))) (lay_target_columns s)\<rparr>"
  by (auto simp: copy_layout_def rbind_Inr_iff map_option_case)

text \<open>A layout is in copied form when its target array has exactly its length.\<close>

definition layout_exact :: "layout \<Rightarrow> bool" where
  "layout_exact l \<longleftrightarrow> lay_struct_size l = 24 \<and> 0 \<le> lay_ntargets l \<and>
     (\<forall>columns. lay_target_columns l = Some columns \<longrightarrow> length columns = nat (lay_ntargets l))"

text \<open>The memory contract of a layout received by pointer: the target array is long enough.\<close>

definition layout_covers :: "layout \<Rightarrow> bool" where
  "layout_covers l \<longleftrightarrow>
     (\<forall>columns. lay_target_columns l = Some columns \<longrightarrow> nat (lay_ntargets l) \<le> length columns)"

lemma layout_sizes:
  "struct_sizeof PgBatchLayout_layout = 24"
  "abi_size_through PgBatchLayout_layout ''target_columns'' = 24"
  "abi_size_through PgBatchPlanInfo_layout ''node_data'' = 56"
  "struct_sizeof PgBatchPlanInfo_layout = 56"
  "abi_size_through PgBatchPathInfo_layout ''node_data'' = 24"
  by code_simp+

lemma check_layout_nonneg:
  "check_layout (Some l) = Inr () \<Longrightarrow> 24 \<le> lay_struct_size l \<and> 0 \<le> lay_ncolumns l \<and> 0 \<le> lay_ntargets l"
  by (auto simp: check_layout_def layout_sizes split: if_splits)

lemma check_layout_copy:
  assumes "check_layout (Some s) = Inr ()"
    and "l = layout_initializer\<lparr>lay_ncolumns := lay_ncolumns s, lay_ntargets := lay_ntargets s,
       lay_target_columns := map_option (take (nat (lay_ntargets s))) (lay_target_columns s)\<rparr>"
    and "layout_covers s"
  shows "check_layout (Some l) = Inr () \<and> layout_exact l"
proof -
  have n: "0 \<le> lay_ntargets s" using check_layout_nonneg [OF assms(1)] by blast
  have "(case lay_target_columns l of None \<Rightarrow> int t | Some cols \<Rightarrow> cols ! t) =
      (case lay_target_columns s of None \<Rightarrow> int t | Some cols \<Rightarrow> cols ! t)"
    if "t < nat (lay_ntargets s)" for t
    using that by (simp add: assms(2) split: option.splits)
  then have "check_layout (Some l) = Inr ()"
    using assms(1,2) unfolding check_layout_def
    by (auto simp: rfold_check Let_def layout_initializer_def layout_sizes not_less not_le split: if_splits)
  moreover have "layout_exact l"
    using assms(2,3) n by (auto simp: layout_exact_def layout_covers_def layout_initializer_def layout_sizes)
  ultimately show ?thesis by blast
qed

text \<open>Core may replace the target list of a plan after \<open>PlanCustomPath\<close> returns.\<close>

fun replace_targetlist :: "pnode list \<Rightarrow> plan \<Rightarrow> plan" where
  "replace_targetlist targets (Plain_Plan _) = Plain_Plan targets"
| "replace_targetlist targets (Custom_Scan _ q m f s ps es stl rs pr) = Custom_Scan targets q m f s ps es stl rs pr"

definition dense_layout :: "nat \<Rightarrow> layout" where
  "dense_layout n = layout_initializer\<lparr>lay_ncolumns := int n, lay_ntargets := int n,
     lay_target_columns := None\<rparr>"

lemma check_layout_dense [simp]: "check_layout (Some (dense_layout n)) = Inr ()"
  by (auto simp: check_layout_def dense_layout_def layout_initializer_def layout_sizes rfold_check)

lemma mk_int_list_eq_PNull [simp]: "mk_int_list xs = PNull \<longleftrightarrow> xs = []"
  by (simp add: mk_int_list_def)

lemma layout_targets_exact:
  "layout_exact l \<Longrightarrow> lay_target_columns l = Some columns \<Longrightarrow> layout_targets l = columns"
  by (simp add: layout_targets_def layout_exact_def) (metis map_nth)

text \<open>What \<open>plan_get_info\<close> returns for written plan data, for any final target list.\<close>

lemma plan_get_info_written:
  assumes "plan_data_write (map name_node names) policy l node_data = Inr pdata"
    and "0 \<le> policy" "policy \<le> 2" "layout_exact l" "check_layout (Some l) = Inr ()"
    and "lay_struct_size l = 24"
  shows "plan_get_info (Some (Custom_Scan targets q m f s ps es stl rs pdata)) (Some 56) =
    (let l' = (if policy = PG_BATCH_LAYOUT_DENSE then dense_layout (length targets) else l)
     in if lay_ntargets l' = int (length targets)
        then Inr \<lparr>pi_nchildren = int (length names), pi_child_names = names,
               pi_layout = l', pi_node_data = node_data\<rparr>
        else Inl (Elog ''pg_batch plan layout does not match its target list''))"
proof -
  let ?fs = "plan_fields (map name_node names) policy l node_data"
  have pdata: "pdata = PList [PString PLAN_DATA_KIND, PInteger COMMON_DATA_VERSION, mk_list (fields_of ?fs)]"
    using assms(1) by (simp add: plan_data_write_eq)
  have create: "plan_reader_create pdata PLAN_DATA_KIND COMMON_DATA_VERSION = Inr (reader_at PLAN_DATA_KIND ?fs [])"
    unfolding pdata by (intro plan_reader_create_eq plan_fields_ok) simp_all
  have finish: "plan_reader_finish (reader_at PLAN_DATA_KIND ?fs [''child_names'', ''layout_policy'',
      ''ncolumns'', ''ntargets'', ''mapped'', ''target_columns'', ''node_data'']) = Inr ()"
    by (intro plan_reader_finish_at plan_fields_ok) (simp_all add: plan_fields_def insert_commute)
  have reads:
    "plan_read_list ''child_names'' (reader_at PLAN_DATA_KIND ?fs []) =
       Inr (mk_list (map name_node names), reader_at PLAN_DATA_KIND ?fs [''child_names''])"
    "plan_read_int ''layout_policy'' (reader_at PLAN_DATA_KIND ?fs [''child_names'']) =
       Inr (policy, reader_at PLAN_DATA_KIND ?fs [''child_names'', ''layout_policy''])"
    "plan_read_int ''ncolumns'' (reader_at PLAN_DATA_KIND ?fs [''child_names'', ''layout_policy'']) =
       Inr (lay_ncolumns l, reader_at PLAN_DATA_KIND ?fs [''child_names'', ''layout_policy'', ''ncolumns''])"
    "plan_read_int ''ntargets'' (reader_at PLAN_DATA_KIND ?fs [''child_names'', ''layout_policy'', ''ncolumns'']) =
       Inr (lay_ntargets l, reader_at PLAN_DATA_KIND ?fs
         [''child_names'', ''layout_policy'', ''ncolumns'', ''ntargets''])"
    "plan_read_int ''mapped'' (reader_at PLAN_DATA_KIND ?fs
         [''child_names'', ''layout_policy'', ''ncolumns'', ''ntargets'']) =
       Inr (if lay_target_columns l \<noteq> None then 1 else 0, reader_at PLAN_DATA_KIND ?fs
         [''child_names'', ''layout_policy'', ''ncolumns'', ''ntargets'', ''mapped''])"
    "plan_read_int_list ''target_columns'' (reader_at PLAN_DATA_KIND ?fs
         [''child_names'', ''layout_policy'', ''ncolumns'', ''ntargets'', ''mapped'']) =
       Inr (mk_int_list (layout_targets l), reader_at PLAN_DATA_KIND ?fs
         [''child_names'', ''layout_policy'', ''ncolumns'', ''ntargets'', ''mapped'', ''target_columns''])"
    "plan_read_node ''node_data'' (reader_at PLAN_DATA_KIND ?fs
         [''child_names'', ''layout_policy'', ''ncolumns'', ''ntargets'', ''mapped'', ''target_columns'']) =
       Inr (node_data, reader_at PLAN_DATA_KIND ?fs [''child_names'', ''layout_policy'',
         ''ncolumns'', ''ntargets'', ''mapped'', ''target_columns'', ''node_data''])"
    by (simp_all add: plan_fields_def plan_read_typed [OF read_field_at])
  have targets: "layout_targets l = (case lay_target_columns l of None \<Rightarrow> [] | Some columns \<Rightarrow> columns)"
    using layout_targets_exact [OF assms(4)] by (simp add: layout_targets_def split: option.splits)
  have len: "length columns = nat (lay_ntargets l)" "0 \<le> lay_ntargets l"
    if "lay_target_columns l = Some columns" for columns
    using assms(4) that by (simp_all add: layout_exact_def)
  have l: "layout_initializer\<lparr>lay_ncolumns := lay_ncolumns l, lay_ntargets := lay_ntargets l,
      lay_target_columns := lay_target_columns l\<rparr> = l"
    using assms(6) by (simp add: layout_initializer_def layout_sizes)
  have dense: "layout_initializer\<lparr>lay_ncolumns := int (length targets),
      lay_ntargets := int (length targets), lay_target_columns := None\<rparr> = dense_layout (length targets)"
    by (simp add: dense_layout_def)
  note steps = layout_sizes create reads targets len finish assms(2,3,5) rbind_require dense
  have "layout_initializer\<lparr>lay_ncolumns := lay_ncolumns l, lay_ntargets := lay_ntargets l,
      lay_target_columns := None\<rparr> = l" if "lay_target_columns l = None"
    using l that by simp
  moreover have "layout_initializer\<lparr>lay_ncolumns := lay_ncolumns l, lay_ntargets := lay_ntargets l,
      lay_target_columns := Some columns\<rparr> = l" if "lay_target_columns l = Some columns" for columns
    using l that by simp
  ultimately have "plan_get_info (Some (Custom_Scan targets q m f s ps es stl rs pdata)) (Some 56) =
    (let l' = (if policy = PG_BATCH_LAYOUT_DENSE then dense_layout (length targets) else l)
     in rbind (check_layout (Some l')) (\<lambda>_.
        rbind (require (lay_ntargets l' = int (length targets))
          (Elog ''pg_batch plan layout does not match its target list'')) (\<lambda>_.
        Inr \<lparr>pi_nchildren = int (length names), pi_child_names = names,
               pi_layout = l', pi_node_data = node_data\<rparr>)))"
    using assms(2,3) unfolding plan_get_info_def Let_def
    by (cases "lay_target_columns l"; cases "lay_ntargets l = int (length targets)")
      (simp_all add: steps not_less)
  moreover have "check_layout (Some (if policy = PG_BATCH_LAYOUT_DENSE then dense_layout (length targets) else l)) =
      Inr ()"
    using assms(5) by simp
  ultimately show ?thesis by (simp add: Let_def rbind_require)
qed

lemma plan_create_Inr:
  assumes "plan_create rel path targets child_plans (Some c) = Inr p"
  obtains names layout pdata rest m f ps rp stl where
    "path = Some (Custom_Path rest m f ps rp stl)" "length ps = length child_plans"
    "plan_child_names (the (api_find_node (the (plc_api c)))) ps child_plans [] = Inr names"
    "plan_layout c path child_plans targets = Inr layout"
    "lay_ntargets layout = int (length targets)"
    "0 \<le> plc_layout_policy c" "plc_layout_policy c \<le> 2"
    "plc_layout_policy c = PG_BATCH_LAYOUT_EXPLICIT \<Longrightarrow> plc_explicit_layout c \<noteq> None"
    "plan_data_write names (plc_layout_policy c) layout (plc_node_data c) = Inr pdata"
    "\<exists>q m f s es stl rs. p = Custom_Scan targets q m f s child_plans es stl rs pdata"
proof -
  have cfg: "check_plan_config (Some c) = Inr ()" and lists: "check_plan_child_lists path child_plans = Inr ()"
    using assms by (auto simp: plan_create_def rbind_Inr_iff Let_def)
  from lists obtain rest m f ps rp pr where path: "path = Some (Custom_Path rest m f ps rp pr)"
    "length ps = length child_plans"
    by (auto simp: check_plan_child_lists_def split: option.splits path.splits)
  show thesis
    using assms cfg path
    by (auto simp: plan_create_def rbind_Inr_iff Let_def check_plan_config_def not_less intro!: that)
qed

text \<open>The memory contract of the layouts a plan is made from.\<close>

definition layouts_cover :: "plan_config \<Rightarrow> bool" where
  "layouts_cover c \<longleftrightarrow> (\<forall>l. plc_explicit_layout c = Some l \<longrightarrow> layout_covers l) \<and>
     (\<forall>path node plan l. the (api_find_node (the (plc_api c))) path = Inr (Some node) \<longrightarrow>
        the (no_get_layout node) plan layout_initializer = Inr l \<longrightarrow> layout_covers l)"

lemma plan_layout_Inr:
  assumes "plan_layout c path child_plans targets = Inr layout" "layouts_cover c"
    and "plc_layout_policy c = PG_BATCH_LAYOUT_EXPLICIT \<Longrightarrow> plc_explicit_layout c \<noteq> None"
    and "0 \<le> plc_layout_policy c" "plc_layout_policy c \<le> 2"
  shows "check_layout (Some layout) = Inr () \<and> layout_exact layout"
    and "plc_layout_policy c = PG_BATCH_LAYOUT_DENSE \<Longrightarrow> layout = dense_layout (length targets)"
proof -
  show dense: "layout = dense_layout (length targets)" if "plc_layout_policy c = PG_BATCH_LAYOUT_DENSE"
    using assms(1) that by (simp add: plan_layout_def dense_layout_def)
  consider "plc_layout_policy c = 0" | "plc_layout_policy c = 1" | "plc_layout_policy c = 2"
    using assms(4,5) by linarith
  then show "check_layout (Some layout) = Inr () \<and> layout_exact layout"
  proof cases
    case 1
    with assms(1) obtain child where child:
      "plan_child (plc_api c) path child_plans (plc_layout_child c)
         (Some (struct_sizeof PgBatchPlanChild_layout)) = Inr (True, child)"
      "copy_layout (Some (ch_layout child)) layout_initializer = Inr layout"
      by (auto simp: plan_layout_def rbind_Inr_iff)
    from child(1) assms(2) have "layout_covers (ch_layout child)"
      by (auto simp: plan_child_def rbind_Inr_iff Let_def layouts_cover_def
          split: option.splits)
    with child(2) show ?thesis by (metis check_layout_copy copy_layout_Inr)
  next
    case 2
    then have "layout = dense_layout (length targets)" by (rule dense)
    then show ?thesis
      by (simp add: layout_exact_def) (simp add: dense_layout_def layout_initializer_def layout_sizes)
  next
    case 3
    then obtain l where "plc_explicit_layout c = Some l" using assms(3) by auto
    then show ?thesis
      using assms(1,2) 3 check_layout_copy [of l layout]
      by (auto simp: plan_layout_def copy_layout_Inr layouts_cover_def)
  qed
qed

lemma layout_exact_dense [simp]: "layout_exact (dense_layout n)"
  by (simp add: layout_exact_def) (simp add: dense_layout_def layout_initializer_def layout_sizes)

lemma copy_layout_exact:
  assumes "layout_exact l" "check_layout (Some l) = Inr ()"
  shows "copy_layout (Some l) layout_initializer = Inr l"
  using assms
  by (auto simp: copy_layout_Inr layout_exact_def layout_initializer_def layout_sizes map_option_case
      split: option.splits)

lemma plan_create_info:
  assumes "plan_create rel path targets child_plans (Some c) = Inr p" "layouts_cover c"
  shows "\<exists>layout found. plan_layout c path child_plans targets = Inr layout \<and> layout_exact layout \<and>
    check_layout (Some layout) = Inr () \<and>
    list_all2 (\<lambda>child node. the (api_find_node (the (plc_api c))) child = Inr node)
      (cp_paths (the path)) found \<and>
    plan_get_info (Some (replace_targetlist targets' p)) (Some 56) =
      (let l = (if plc_layout_policy c = PG_BATCH_LAYOUT_DENSE
                then dense_layout (length targets') else layout)
       in if lay_ntargets l = int (length targets')
          then Inr \<lparr>pi_nchildren = int (length child_plans), pi_child_names = map node_name_of found,
                 pi_layout = l, pi_node_data = plc_node_data c\<rparr>
          else Inl (Elog ''pg_batch plan layout does not match its target list''))"
  using assms(1)
proof (cases rule: plan_create_Inr)
  case (1 names layout pdata rest m f ps rp stl)
  obtain found where found: "names = map (\<lambda>n. name_node (node_name_of n)) found"
    "list_all2 (\<lambda>child node. the (api_find_node (the (plc_api c))) child = Inr node) ps found"
    using plan_child_names_Inr [OF 1(3,2)] by auto
  then have names: "names = map name_node (map node_name_of found)" by simp
  have len: "int (length child_plans) = int (length (map node_name_of found))"
    using found(2) 1(2) list_all2_lengthD by fastforce
  have l: "check_layout (Some layout) = Inr ()" "layout_exact layout"
    using plan_layout_Inr(1) [OF 1(4) assms(2) 1(8) 1(6,7)] by blast+
  have "lay_struct_size layout = 24" using l(2) by (simp add: layout_exact_def)
  note info = plan_get_info_written [OF 1(9) [unfolded names] 1(6,7) l(2,1) this]
  obtain q m' f' s es stl' rs where p: "p = Custom_Scan targets q m' f' s child_plans es stl' rs pdata"
    using 1(10) by blast
  show ?thesis
  proof (intro exI conjI)
    show "plan_layout c path child_plans targets = Inr layout" using 1(4) by simp
    show "layout_exact layout" "check_layout (Some layout) = Inr ()" by (fact l)+
    show "list_all2 (\<lambda>child node. the (api_find_node (the (plc_api c))) child = Inr node)
      (cp_paths (the path)) found" using found(2) 1(1) by simp
  qed (unfold p replace_targetlist.simps len, rule info)
qed

section \<open>Properties\<close>

text \<open>
  C27. What \<open>plan_create\<close> puts into a plan is what execution reads back, also when
  core has replaced the target list in between: the child names (of the nodes that
  publish batches), the provider's data, and the layout.  A dense layout follows
  the final target list; any other is the layout chosen at planning time, refused
  when the new target list has another length.  \<open>plan_get_layout\<close> hands the same
  layout to the parent.
\<close>

theorem plan_roundtrip:
  assumes "plan_create rel path targets child_plans (Some c) = Inr p" "layouts_cover c"
  shows "\<exists>layout found. plan_layout c path child_plans targets = Inr layout \<and>
    list_all2 (\<lambda>child node. the (api_find_node (the (plc_api c))) child = Inr node)
      (cp_paths (the path)) found \<and>
    (let l = (if plc_layout_policy c = PG_BATCH_LAYOUT_DENSE
              then dense_layout (length targets') else layout);
         q = replace_targetlist targets' p
     in if lay_ntargets l = int (length targets')
        then plan_get_info (Some q) (Some 56) =
               Inr \<lparr>pi_nchildren = int (length child_plans), pi_child_names = map node_name_of found,
                 pi_layout = l, pi_node_data = plc_node_data c\<rparr> \<and>
             plan_get_layout (Some q) (Some layout_initializer) = Inr l
        else plan_get_info (Some q) (Some 56) =
               Inl (Elog ''pg_batch plan layout does not match its target list''))"
proof -
  obtain layout found where i: "plan_layout c path child_plans targets = Inr layout"
    "layout_exact layout" "check_layout (Some layout) = Inr ()"
    "list_all2 (\<lambda>child node. the (api_find_node (the (plc_api c))) child = Inr node)
      (cp_paths (the path)) found"
    "plan_get_info (Some (replace_targetlist targets' p)) (Some 56) =
      (let l = (if plc_layout_policy c = PG_BATCH_LAYOUT_DENSE
                then dense_layout (length targets') else layout)
       in if lay_ntargets l = int (length targets')
          then Inr \<lparr>pi_nchildren = int (length child_plans), pi_child_names = map node_name_of found,
                 pi_layout = l, pi_node_data = plc_node_data c\<rparr>
          else Inl (Elog ''pg_batch plan layout does not match its target list''))"
    using plan_create_info [OF assms, of targets'] by blast
  define l where "l = (if plc_layout_policy c = PG_BATCH_LAYOUT_DENSE
    then dense_layout (length targets') else layout)"
  have l: "check_layout (Some l) = Inr ()" "layout_exact l"
    using i(2,3) by (auto simp: l_def layout_exact_dense)
  obtain q' m f s cps es stl rs pr where q: "replace_targetlist targets' p = Custom_Scan targets' q' m f s cps es stl rs pr"
    using plan_create_Inr [OF assms(1)] by (metis replace_targetlist.simps(2))
  have "plan_get_layout (Some (replace_targetlist targets' p)) (Some layout_initializer) = Inr l"
    if "plan_get_info (Some (replace_targetlist targets' p)) (Some 56) =
      Inr \<lparr>pi_nchildren = n, pi_child_names = ns, pi_layout = l, pi_node_data = d\<rparr>" for n ns d
    using that l copy_layout_exact [OF l(2,1)] unfolding q
    by (simp add: plan_get_layout_def layout_sizes) (simp add: layout_initializer_def layout_sizes)
  moreover note i(5) [unfolded Let_def, folded l_def]
  ultimately show ?thesis
    using i(1,4)
    by (intro exI [of _ layout] exI [of _ found], unfold Let_def, fold l_def) auto
qed

text \<open>
  C35. Round trip of a path: \<open>path_get_info\<close> returns the expressions and provider data
  that \<open>path_create\<close> was given, the path carries the children, flags and methods of
  the configuration, and it is recognised by its methods.
\<close>

theorem path_roundtrip:
  assumes "path_create (Some c) = Inr p"
  shows "path_get_info (Some p) (Some 24) =
      Inr \<lparr>pi_expressions = pc_expressions c, pi_path_node_data = pc_node_data c\<rparr> \<and>
    cp_paths p = pc_children c \<and> None \<notin> set (pc_children c) \<and> cp_flags p = pc_flags c \<and>
    (\<forall>methods. path_matches (Some p) methods \<longleftrightarrow> methods = pc_methods c \<and> methods \<noteq> None)"
proof -
  let ?fs = "[(''expressions'', pc_expressions c), (''node_data'', pc_node_data c)]"
  have cfg: "check_path_config (Some c) = Inr ()"
    using assms by (auto simp: path_create_def rbind_Inr_iff)
  have isl: "pc_expressions c = PNull \<or> (\<exists>xs. pc_expressions c = PList xs)"
    using assms by (auto simp: path_create_def rbind_Inr_iff Let_def plan_write_list_eq split: if_splits)
  obtain m where m: "pc_methods c = Some m" and none: "None \<notin> set (pc_children c)"
    using cfg by (auto simp: check_path_config_def rfold_check split: if_splits)
  have p: "p = Custom_Path (path_rest (the (pc_template_path c))) m (pc_flags c) (pc_children c)
      (pc_restrictinfo c) (PList [PString PATH_DATA_KIND, PInteger 1, mk_list (fields_of ?fs)])"
    using assms cfg isl m by (simp add: path_create_def Let_def plan_write_list_eq write_plan_data)
  have ok: "names_ok (map fst ?fs)" by (simp add: names_ok_def)
  have "plan_read_list ''expressions'' (reader_at PATH_DATA_KIND ?fs []) =
      Inr (pc_expressions c, reader_at PATH_DATA_KIND ?fs [''expressions''])"
    using isl by (auto simp: plan_read_list_def read_field_at)
  moreover have "plan_reader_finish (reader_at PATH_DATA_KIND ?fs [''expressions'', ''node_data'']) = Inr ()"
    by (rule plan_reader_finish_at [OF ok]) auto
  ultimately have "path_get_info (Some p) (Some 24) =
      Inr \<lparr>pi_expressions = pc_expressions c, pi_path_node_data = pc_node_data c\<rparr>"
    using plan_reader_create_eq [OF _ _ ok, of PATH_DATA_KIND 1]
    by (simp add: p path_get_info_def layout_sizes read_field_at plan_read_typed(2) [OF read_field_at]
        del: fields_of_simps)
  then show ?thesis
    using none by (auto simp: p path_matches_def m split: option.splits)
qed

definition example_api :: planner_api where
  "example_api = \<lparr>api_abi_version = 1, api_struct_size = 200, api_find_node = Some (\<lambda>_. Inr None)\<rparr>"

definition example_plan_config :: plan_config where
  "example_plan_config = \<lparr>plc_struct_size = 88, plc_api = Some example_api, plc_methods = Some 4,
     plc_layout_policy = 2, plc_layout_child = 0,
     plc_explicit_layout = Some \<lparr>lay_struct_size = 24, lay_ncolumns = 2, lay_ntargets = 2,
       lay_target_columns = Some [1, - 1]\<rparr>,
     plc_qual = PNull, plc_expressions = PNull, plc_node_data = PInteger 7,
     plc_scan_targetlist = [], plc_scanrelid = 0\<rparr>"

abbreviation example_path :: "path option" where
  "example_path \<equiv> Some (Custom_Path 0 6 0 [Some (Plain_Path 9)] PNull PNull)"

abbreviation example_layout2 :: layout where
  "example_layout2 \<equiv> \<lparr>lay_struct_size = 24, lay_ncolumns = 2, lay_ntargets = 2, lay_target_columns = Some [1, - 1]\<rparr>"

lemma example_plan_layout:
  "plan_layout (example_plan_config\<lparr>plc_node_data := d\<rparr>) example_path [Some (Plain_Plan [])] targets =
     Inr example_layout2"
proof -
  have "check_layout (Some example_layout2) = Inr ()"
    by (simp add: check_layout_def layout_sizes rfold_check less_Suc_eq numeral_2_eq_2)
  then show ?thesis
    by (simp add: plan_layout_def example_plan_config_def copy_layout_Inr layout_initializer_def layout_sizes)
qed

lemma example_layouts_cover: "layouts_cover (example_plan_config\<lparr>plc_node_data := d\<rparr>)"
  by (simp add: layouts_cover_def example_plan_config_def example_api_def layout_covers_def)

lemma example_plan_created:
  obtains p where "plan_create None example_path [POther 3, POther 2] [Some (Plain_Plan [])]
      (Some (example_plan_config\<lparr>plc_node_data := d\<rparr>)) = Inr p"
    "replace_targetlist [POther 3, POther 2] p = p"
proof -
  have sizes: "abi_size_through PgBatchPlanConfig_layout ''scanrelid'' = 76"
    "abi_size_through PgBatchAPI_layout ''detach_binding'' = 192" by code_simp+
  obtain p where p: "plan_create None example_path [POther 3, POther 2] [Some (Plain_Plan [])]
      (Some (example_plan_config\<lparr>plc_node_data := d\<rparr>)) = Inr p"
    using example_plan_layout [of d]
    by (simp add: plan_create_def check_plan_config_def check_api_def check_plan_child_lists_def
        plan_data_write_eq Let_def)
      (simp add: example_plan_config_def example_api_def sizes)
  moreover have "replace_targetlist [POther 3, POther 2] p = p"
    using p by (cases p) (auto simp: plan_create_def rbind_Inr_iff Let_def)
  ultimately show thesis by (rule that)
qed

theorem plan_roundtrip_witness:
  "\<exists>p. plan_create None example_path [POther 3, POther 2] [Some (Plain_Plan [])]
      (Some (example_plan_config\<lparr>plc_node_data := PInteger 8\<rparr>)) = Inr p \<and>
    (\<exists>info. plan_get_info (Some p) (Some 56) = Inr info \<and>
       lay_target_columns (pi_layout info) = Some [1, - 1] \<and> pi_node_data info = PInteger 8)"
proof -
  let ?c = "example_plan_config\<lparr>plc_node_data := PInteger 8\<rparr>"
  obtain p where p: "plan_create None example_path [POther 3, POther 2] [Some (Plain_Plan [])] (Some ?c) = Inr p"
    "replace_targetlist [POther 3, POther 2] p = p" by (rule example_plan_created)
  have "plc_layout_policy ?c = 2" by (simp add: example_plan_config_def)
  with plan_roundtrip [OF p(1) example_layouts_cover, of "[POther 3, POther 2]"]
  have "\<exists>found. plan_get_info (Some p) (Some 56) = Inr \<lparr>pi_nchildren = 1,
      pi_child_names = map node_name_of found, pi_layout = example_layout2, pi_node_data = PInteger 8\<rparr>"
    by (auto simp: example_plan_layout p(2) Let_def)
  with p(1) show ?thesis by auto
qed

theorem path_roundtrip_witness:
  "\<exists>p. path_create (Some \<lparr>pc_struct_size = 64, pc_template_path = Some (Plain_Path 3), pc_methods = Some 8,
      pc_children = [Some (Plain_Path 1)], pc_restrictinfo = PNull, pc_expressions = PNull,
      pc_node_data = PString ''x'', pc_flags = 1\<rparr>) = Inr p \<and>
    path_get_info (Some p) (Some 24) = Inr \<lparr>pi_expressions = PNull, pi_path_node_data = PString ''x''\<rparr> \<and>
    path_matches (Some p) (Some 8) \<and> \<not> path_matches (Some p) (Some 9)"
proof -
  let ?c = "\<lparr>pc_struct_size = 64, pc_template_path = Some (Plain_Path 3), pc_methods = Some 8,
      pc_children = [Some (Plain_Path 1)], pc_restrictinfo = PNull, pc_expressions = PNull,
      pc_node_data = PString ''x'', pc_flags = 1\<rparr>"
  have "abi_size_through PgBatchPathConfig_layout ''flags'' = 60" by code_simp
  then obtain p where p: "path_create (Some ?c) = Inr p"
    by (simp add: path_create_def check_path_config_def plan_write_list_eq write_plan_data)
  from path_roundtrip [OF p] p show ?thesis by auto
qed

end
