(* ===== verification/Node_Plans.thy ===== *)
theory Node_Plans
  imports Planner_Props
begin

text \<open>
  The private data of the bundled nodes, \<open>nodes/plan_data.c\<close> and the writers of
  \<open>nodes/planner.c\<close>: what a path carries to planning (heap scan mode, hash quals,
  aggregates) and what a plan carries to execution (scan, filter, projection, hash
  join, aggregate).  Every kind is a codec over named fields.  Lists of integers
  are their elements; the data of the last three kinds is the provider's part of
  the common plan data.
\<close>

section \<open>The contract of a codec\<close>

abbreviation (input) PG_BATCH_PLAN_DATA_VERSION :: int where "PG_BATCH_PLAN_DATA_VERSION \<equiv> 1"

locale plan_codec =
  fixes kind :: string
    and fields :: "'a \<Rightarrow> (string \<times> pnode) list"
    and valid :: "'a \<Rightarrow> bool"
    and encode :: "'a \<Rightarrow> pnode result"
    and decode :: "pnode \<Rightarrow> 'a result"
  assumes encode_law: "valid x \<Longrightarrow>
      encode x = Inr (PList [PString kind, PInteger PG_BATCH_PLAN_DATA_VERSION, mk_list (fields_of (fields x))])"
    and decode_law: "valid x \<Longrightarrow>
      decode (PList [PString kind, PInteger PG_BATCH_PLAN_DATA_VERSION, mk_list (fields_of (fields x))]) = Inr x"
    and kind_law: "decode d = Inr x \<Longrightarrow> \<exists>flds. d = PList [PString kind, PInteger PG_BATCH_PLAN_DATA_VERSION, flds]"
begin

lemma roundtrip:
  assumes "valid x"
  shows "\<exists>d. encode x = Inr d \<and> decode d = Inr x"
  using encode_law [OF assms] decode_law [OF assms] by blast

lemma encode_inj: "\<lbrakk>valid x; valid y; encode x = encode y\<rbrakk> \<Longrightarrow> x = y"
  by (metis Inr_inject roundtrip)

lemma other_kind:
  assumes "decode d = Inr x" "kind' \<noteq> kind"
  shows "d \<noteq> PList [PString kind', v, flds]"
  using kind_law [OF assms(1)] assms(2) by auto

end

lemma plan_reader_create_kind:
  "plan_reader_create d kind version = Inr r \<Longrightarrow> \<exists>flds. d = PList [PString kind, PInteger version, flds]"
  by (auto simp: plan_reader_create_def split: if_splits pnode.splits list.splits)

lemma rbind_reader_kind:
  "rbind (plan_reader_create d kind version) f = Inr x \<Longrightarrow>
     \<exists>flds. d = PList [PString kind, PInteger version, flds]"
  by (auto simp: rbind_Inr_iff dest: plan_reader_create_kind)

section \<open>Path data\<close>

text \<open>Heap scan modes: sequential is 0, bitmap 1.\<close>

definition make_base_path_data :: "int \<Rightarrow> pnode result" where
  "make_base_path_data mode =
     rbind (plan_writer_create ''base_path'' PG_BATCH_PLAN_DATA_VERSION) (\<lambda>w.
     rbind (plan_write_int ''heap_scan_mode'' mode w) (\<lambda>w.
     rbind (plan_writer_finish w) (\<lambda>(w, d). Inr d)))"

definition read_base_path_data :: "pnode \<Rightarrow> int result" where
  "read_base_path_data custom_private =
     rbind (plan_reader_create custom_private ''base_path'' PG_BATCH_PLAN_DATA_VERSION) (\<lambda>r.
     rbind (plan_read_int ''heap_scan_mode'' r) (\<lambda>(mode, r).
     rbind (plan_reader_finish r) (\<lambda>_. Inr mode)))"

definition make_hash_path_data :: "pnode list \<times> int \<Rightarrow> pnode result" where
  "make_hash_path_data = (\<lambda>(hash_quals, planned_partitions).
     rbind (plan_writer_create ''hash_path'' PG_BATCH_PLAN_DATA_VERSION) (\<lambda>w.
     rbind (plan_write_list ''hash_quals'' (mk_list hash_quals) w) (\<lambda>w.
     rbind (plan_write_int ''planned_partitions'' planned_partitions w) (\<lambda>w.
     rbind (plan_writer_finish w) (\<lambda>(w, d). Inr d)))))"

definition read_hash_path_data :: "pnode \<Rightarrow> (pnode list \<times> int) result" where
  "read_hash_path_data node_data =
     rbind (plan_reader_create node_data ''hash_path'' PG_BATCH_PLAN_DATA_VERSION) (\<lambda>r.
     rbind (plan_read_list ''hash_quals'' r) (\<lambda>(hash_quals, r).
     rbind (plan_read_int ''planned_partitions'' r) (\<lambda>(planned_partitions, r).
     rbind (plan_reader_finish r) (\<lambda>_.
     Inr (list_elems hash_quals, planned_partitions)))))"

text \<open>An aggregate specification is a kind with an expression.\<close>

definition make_agg_path_data :: "(int \<times> pnode) list \<times> bool \<Rightarrow> pnode result" where
  "make_agg_path_data = (\<lambda>(specs, partial).
     rbind (plan_writer_create ''aggregate_path'' PG_BATCH_PLAN_DATA_VERSION) (\<lambda>w.
     rbind (plan_write_int_list ''kinds'' (mk_int_list (map fst specs)) w) (\<lambda>w.
     rbind (plan_write_list ''expressions'' (mk_list (map snd specs)) w) (\<lambda>w.
     rbind (plan_write_int ''partial'' (if partial then 1 else 0) w) (\<lambda>w.
     rbind (plan_writer_finish w) (\<lambda>(w, d). Inr d))))))"

definition read_agg_path_data :: "pnode \<Rightarrow> ((int list \<times> pnode list) \<times> bool) result" where
  "read_agg_path_data node_data =
     rbind (plan_reader_create node_data ''aggregate_path'' PG_BATCH_PLAN_DATA_VERSION) (\<lambda>r.
     rbind (plan_read_int_list ''kinds'' r) (\<lambda>(kinds, r).
     rbind (plan_read_list ''expressions'' r) (\<lambda>(expressions, r).
     rbind (plan_read_int ''partial'' r) (\<lambda>(partial, r).
     rbind (require (length (int_elems kinds) = length (list_elems expressions))
       (Elog ''pg_batch aggregate path fields are misaligned'')) (\<lambda>_.
     rbind (plan_reader_finish r) (\<lambda>_.
     Inr ((int_elems kinds, list_elems expressions), partial \<noteq> 0)))))))"

section \<open>Plan data\<close>

record scan_plan =
  sp_source_attnums :: "int list"
  sp_nfilter_columns :: int
  sp_heap_scan_mode :: int
  sp_source_name :: string
  sp_source_private :: pnode
  sp_nsource_exprs :: int
  sp_batch_recheck_flags :: "int list"
  sp_exact_filter_columns :: "int list"

definition write_scan_plan :: "scan_plan \<Rightarrow> pnode result" where
  "write_scan_plan s =
     rbind (plan_writer_create ''scan'' PG_BATCH_PLAN_DATA_VERSION) (\<lambda>w.
     rbind (plan_write_int_list ''source_attnums'' (mk_int_list (sp_source_attnums s)) w) (\<lambda>w.
     rbind (plan_write_int ''nfilter_columns'' (sp_nfilter_columns s) w) (\<lambda>w.
     rbind (plan_write_int ''heap_scan_mode'' (sp_heap_scan_mode s) w) (\<lambda>w.
     rbind (plan_write_string ''source_name'' (Some (sp_source_name s)) w) (\<lambda>w.
     rbind (plan_write_node ''source_private'' (sp_source_private s) w) (\<lambda>w.
     rbind (plan_write_int ''nsource_exprs'' (sp_nsource_exprs s) w) (\<lambda>w.
     rbind (plan_write_int_list ''batch_recheck_flags'' (mk_int_list (sp_batch_recheck_flags s)) w) (\<lambda>w.
     rbind (plan_write_int_list ''exact_filter_columns'' (mk_int_list (sp_exact_filter_columns s)) w) (\<lambda>w.
     rbind (plan_writer_finish w) (\<lambda>(w, d). Inr d))))))))))"

text \<open>A scan or filter keeps its data directly in \<open>custom_private\<close>.\<close>

definition plan_reader_of :: "pnode option \<Rightarrow> string \<Rightarrow> plan_reader result" where
  "plan_reader_of scan kind =
     (case scan of
        None \<Rightarrow> Inl (Elog ''pg_batch received a null custom plan'')
      | Some custom_private \<Rightarrow> plan_reader_create custom_private kind PG_BATCH_PLAN_DATA_VERSION)"

definition read_scan_plan :: "pnode option \<Rightarrow> scan_plan result" where
  "read_scan_plan scan =
     rbind (plan_reader_of scan ''scan'') (\<lambda>r.
     rbind (plan_read_int_list ''source_attnums'' r) (\<lambda>(source_attnums, r).
     rbind (plan_read_int ''nfilter_columns'' r) (\<lambda>(nfilter_columns, r).
     rbind (plan_read_int ''heap_scan_mode'' r) (\<lambda>(heap_scan_mode, r).
     rbind (plan_read_string ''source_name'' r) (\<lambda>(source_name, r).
     rbind (plan_read_node ''source_private'' r) (\<lambda>(source_private, r).
     rbind (plan_read_int ''nsource_exprs'' r) (\<lambda>(nsource_exprs, r).
     rbind (plan_read_int_list ''batch_recheck_flags'' r) (\<lambda>(batch_recheck_flags, r).
     rbind (plan_read_int_list ''exact_filter_columns'' r) (\<lambda>(exact_filter_columns, r).
     rbind (plan_reader_finish r) (\<lambda>_.
     Inr \<lparr>sp_source_attnums = int_elems source_attnums, sp_nfilter_columns = nfilter_columns,
          sp_heap_scan_mode = heap_scan_mode, sp_source_name = source_name,
          sp_source_private = source_private, sp_nsource_exprs = nsource_exprs,
          sp_batch_recheck_flags = int_elems batch_recheck_flags,
          sp_exact_filter_columns = int_elems exact_filter_columns\<rparr>))))))))))"

record filter_plan =
  fp_source_attnums :: "int list"
  fp_nfilter_columns :: int
  fp_project_columns :: "int list"

definition write_filter_plan :: "filter_plan \<Rightarrow> pnode result" where
  "write_filter_plan f =
     rbind (plan_writer_create ''filter'' PG_BATCH_PLAN_DATA_VERSION) (\<lambda>w.
     rbind (plan_write_int_list ''source_attnums'' (mk_int_list (fp_source_attnums f)) w) (\<lambda>w.
     rbind (plan_write_int ''nfilter_columns'' (fp_nfilter_columns f) w) (\<lambda>w.
     rbind (plan_write_int_list ''project_columns'' (mk_int_list (fp_project_columns f)) w) (\<lambda>w.
     rbind (plan_writer_finish w) (\<lambda>(w, d). Inr d)))))"

definition read_filter_plan :: "pnode option \<Rightarrow> filter_plan result" where
  "read_filter_plan scan =
     rbind (plan_reader_of scan ''filter'') (\<lambda>r.
     rbind (plan_read_int_list ''source_attnums'' r) (\<lambda>(source_attnums, r).
     rbind (plan_read_int ''nfilter_columns'' r) (\<lambda>(nfilter_columns, r).
     rbind (plan_read_int_list ''project_columns'' r) (\<lambda>(project_columns, r).
     rbind (plan_reader_finish r) (\<lambda>_.
     Inr \<lparr>fp_source_attnums = int_elems source_attnums, fp_nfilter_columns = nfilter_columns,
          fp_project_columns = int_elems project_columns\<rparr>)))))"

text \<open>The other nodes find their data in the common plan data.\<close>

definition provider_reader :: "pnode \<Rightarrow> string \<Rightarrow> plan_reader result" where
  "provider_reader node_data kind =
     (case node_data of
        PList _ \<Rightarrow> plan_reader_create node_data kind PG_BATCH_PLAN_DATA_VERSION
      | _ \<Rightarrow> Inl (Elog ''pg_batch plan has no provider data''))"

definition common_plan_reader :: "plan option \<Rightarrow> string \<Rightarrow> (plan_info \<times> plan_reader) result" where
  "common_plan_reader scan kind =
     rbind (plan_get_info scan (Some (struct_sizeof PgBatchPlanInfo_layout))) (\<lambda>info.
     rbind (provider_reader (pi_node_data info) kind) (\<lambda>r. Inr (info, r)))"

definition write_project_plan :: "int list \<Rightarrow> pnode result" where
  "write_project_plan input_columns =
     rbind (plan_writer_create ''project'' PG_BATCH_PLAN_DATA_VERSION) (\<lambda>w.
     rbind (plan_write_int_list ''input_columns'' (mk_int_list input_columns) w) (\<lambda>w.
     rbind (plan_writer_finish w) (\<lambda>(w, d). Inr d)))"

definition read_project_fields :: "plan_reader \<Rightarrow> int list result" where
  "read_project_fields r =
     rbind (plan_read_int_list ''input_columns'' r) (\<lambda>(input_columns, r).
     rbind (plan_reader_finish r) (\<lambda>_. Inr (int_elems input_columns)))"

definition read_project_plan :: "plan option \<Rightarrow> (plan_info \<times> int list) result" where
  "read_project_plan scan =
     rbind (common_plan_reader scan ''project'') (\<lambda>(info, r).
     rbind (read_project_fields r) (\<lambda>x. Inr (info, x)))"

record hash_plan =
  hp_outer_columns :: "int list"
  hp_inner_columns :: "int list"
  hp_outer_keys :: "int list"
  hp_inner_keys :: "int list"
  hp_planned_partitions :: int

definition write_hash_plan :: "hash_plan \<Rightarrow> pnode result" where
  "write_hash_plan h =
     rbind (plan_writer_create ''hash_join'' PG_BATCH_PLAN_DATA_VERSION) (\<lambda>w.
     rbind (plan_write_int_list ''outer_columns'' (mk_int_list (hp_outer_columns h)) w) (\<lambda>w.
     rbind (plan_write_int_list ''inner_columns'' (mk_int_list (hp_inner_columns h)) w) (\<lambda>w.
     rbind (plan_write_int_list ''outer_keys'' (mk_int_list (hp_outer_keys h)) w) (\<lambda>w.
     rbind (plan_write_int_list ''inner_keys'' (mk_int_list (hp_inner_keys h)) w) (\<lambda>w.
     rbind (plan_write_int ''planned_partitions'' (hp_planned_partitions h) w) (\<lambda>w.
     rbind (plan_writer_finish w) (\<lambda>(w, d). Inr d)))))))"

definition read_hash_fields :: "plan_reader \<Rightarrow> hash_plan result" where
  "read_hash_fields r =
     rbind (plan_read_int_list ''outer_columns'' r) (\<lambda>(outer_columns, r).
     rbind (plan_read_int_list ''inner_columns'' r) (\<lambda>(inner_columns, r).
     rbind (plan_read_int_list ''outer_keys'' r) (\<lambda>(outer_keys, r).
     rbind (plan_read_int_list ''inner_keys'' r) (\<lambda>(inner_keys, r).
     rbind (plan_read_int ''planned_partitions'' r) (\<lambda>(planned_partitions, r).
     rbind (plan_reader_finish r) (\<lambda>_.
     Inr \<lparr>hp_outer_columns = int_elems outer_columns, hp_inner_columns = int_elems inner_columns,
          hp_outer_keys = int_elems outer_keys, hp_inner_keys = int_elems inner_keys,
          hp_planned_partitions = planned_partitions\<rparr>))))))"

definition read_hash_plan :: "plan option \<Rightarrow> (plan_info \<times> hash_plan) result" where
  "read_hash_plan scan =
     rbind (common_plan_reader scan ''hash_join'') (\<lambda>(info, r).
     rbind (read_hash_fields r) (\<lambda>x. Inr (info, x)))"

record agg_plan =
  ap_kinds :: "int list"
  ap_columns :: "int list"
  ap_partial :: bool

definition write_agg_plan :: "agg_plan \<Rightarrow> pnode result" where
  "write_agg_plan a =
     rbind (plan_writer_create ''aggregate'' PG_BATCH_PLAN_DATA_VERSION) (\<lambda>w.
     rbind (plan_write_int_list ''kinds'' (mk_int_list (ap_kinds a)) w) (\<lambda>w.
     rbind (plan_write_int_list ''columns'' (mk_int_list (ap_columns a)) w) (\<lambda>w.
     rbind (plan_write_int ''partial'' (if ap_partial a then 1 else 0) w) (\<lambda>w.
     rbind (plan_writer_finish w) (\<lambda>(w, d). Inr d)))))"

definition read_agg_fields :: "plan_reader \<Rightarrow> agg_plan result" where
  "read_agg_fields r =
     rbind (plan_read_int_list ''kinds'' r) (\<lambda>(kinds, r).
     rbind (plan_read_int_list ''columns'' r) (\<lambda>(columns, r).
     rbind (plan_read_int ''partial'' r) (\<lambda>(partial, r).
     rbind (require (length (int_elems kinds) = length (int_elems columns))
       (Elog ''pg_batch aggregate plan fields are misaligned'')) (\<lambda>_.
     rbind (plan_reader_finish r) (\<lambda>_.
     Inr \<lparr>ap_kinds = int_elems kinds, ap_columns = int_elems columns, ap_partial = partial \<noteq> 0\<rparr>)))))"

definition read_agg_plan :: "plan option \<Rightarrow> (plan_info \<times> agg_plan) result" where
  "read_agg_plan scan =
     rbind (common_plan_reader scan ''aggregate'') (\<lambda>(info, r).
     rbind (read_agg_fields r) (\<lambda>x. Inr (info, x)))"

section \<open>Every kind is a codec\<close>

lemma reader_create_at:
  "names_ok (map fst fs) \<Longrightarrow> kind \<noteq> [] \<Longrightarrow>
     plan_reader_create (PList [PString kind, PInteger PG_BATCH_PLAN_DATA_VERSION, mk_list (fields_of fs)])
       kind PG_BATCH_PLAN_DATA_VERSION = Inr (reader_at kind fs [])"
  by (rule plan_reader_create_eq) simp_all

lemmas decode_simps = reader_create_at plan_read_typed [OF read_field_at] plan_reader_finish_at names_ok_def

interpretation base_path: plan_codec "''base_path''" "\<lambda>mode. [(''heap_scan_mode'', PInteger mode)]"
  "\<lambda>_. True" make_base_path_data read_base_path_data
proof
  show "make_base_path_data mode = Inr (PList [PString ''base_path'', PInteger PG_BATCH_PLAN_DATA_VERSION,
      mk_list (fields_of [(''heap_scan_mode'', PInteger mode)])])" for mode
    by (simp add: make_base_path_data_def write_plan_data)
  show "read_base_path_data (PList [PString ''base_path'', PInteger PG_BATCH_PLAN_DATA_VERSION,
      mk_list (fields_of [(''heap_scan_mode'', PInteger mode)])]) = Inr mode" for mode
    by (simp add: read_base_path_data_def decode_simps del: fields_of_simps)
  show "\<exists>flds. d = PList [PString ''base_path'', PInteger PG_BATCH_PLAN_DATA_VERSION, flds]"
    if "read_base_path_data d = Inr x" for d x
    using that unfolding read_base_path_data_def by (rule rbind_reader_kind)
qed

abbreviation hash_path_fields :: "pnode list \<times> int \<Rightarrow> (string \<times> pnode) list" where
  "hash_path_fields x \<equiv> [(''hash_quals'', mk_list (fst x)), (''planned_partitions'', PInteger (snd x))]"

interpretation hash_path: plan_codec "''hash_path''" hash_path_fields "\<lambda>_. True"
  make_hash_path_data read_hash_path_data
proof
  show "make_hash_path_data x = Inr (PList [PString ''hash_path'', PInteger PG_BATCH_PLAN_DATA_VERSION,
      mk_list (fields_of (hash_path_fields x))])" for x
    by (simp add: make_hash_path_data_def write_plan_data split: prod.splits)
  show "read_hash_path_data (PList [PString ''hash_path'', PInteger PG_BATCH_PLAN_DATA_VERSION,
      mk_list (fields_of (hash_path_fields x))]) = Inr x" for x
    by (simp add: read_hash_path_data_def decode_simps del: fields_of_simps)
  show "\<exists>flds. d = PList [PString ''hash_path'', PInteger PG_BATCH_PLAN_DATA_VERSION, flds]"
    if "read_hash_path_data d = Inr x" for d x
    using that unfolding read_hash_path_data_def by (rule rbind_reader_kind)
qed

abbreviation scan_fields :: "scan_plan \<Rightarrow> (string \<times> pnode) list" where
  "scan_fields s \<equiv> [(''source_attnums'', mk_int_list (sp_source_attnums s)),
     (''nfilter_columns'', PInteger (sp_nfilter_columns s)),
     (''heap_scan_mode'', PInteger (sp_heap_scan_mode s)),
     (''source_name'', PString (sp_source_name s)), (''source_private'', sp_source_private s),
     (''nsource_exprs'', PInteger (sp_nsource_exprs s)),
     (''batch_recheck_flags'', mk_int_list (sp_batch_recheck_flags s)),
     (''exact_filter_columns'', mk_int_list (sp_exact_filter_columns s))]"

interpretation scan: plan_codec "''scan''" scan_fields "\<lambda>_. True" write_scan_plan "read_scan_plan \<circ> Some"
proof
  show "write_scan_plan x = Inr (PList [PString ''scan'', PInteger PG_BATCH_PLAN_DATA_VERSION,
      mk_list (fields_of (scan_fields x))])" for x
    by (simp add: write_scan_plan_def write_plan_data)
  show "(read_scan_plan \<circ> Some) (PList [PString ''scan'', PInteger PG_BATCH_PLAN_DATA_VERSION,
      mk_list (fields_of (scan_fields x))]) = Inr x" for x
    by (simp add: read_scan_plan_def plan_reader_of_def decode_simps del: fields_of_simps)
  show "\<exists>flds. d = PList [PString ''scan'', PInteger PG_BATCH_PLAN_DATA_VERSION, flds]"
    if "(read_scan_plan \<circ> Some) d = Inr x" for d x
    using that unfolding read_scan_plan_def plan_reader_of_def o_apply option.case by (rule rbind_reader_kind)
qed

abbreviation filter_fields :: "filter_plan \<Rightarrow> (string \<times> pnode) list" where
  "filter_fields f \<equiv> [(''source_attnums'', mk_int_list (fp_source_attnums f)),
     (''nfilter_columns'', PInteger (fp_nfilter_columns f)),
     (''project_columns'', mk_int_list (fp_project_columns f))]"

interpretation filter_codec: plan_codec "''filter''" filter_fields "\<lambda>_. True"
  write_filter_plan "read_filter_plan \<circ> Some"
proof
  show "write_filter_plan x = Inr (PList [PString ''filter'', PInteger PG_BATCH_PLAN_DATA_VERSION,
      mk_list (fields_of (filter_fields x))])" for x
    by (simp add: write_filter_plan_def write_plan_data)
  show "(read_filter_plan \<circ> Some) (PList [PString ''filter'', PInteger PG_BATCH_PLAN_DATA_VERSION,
      mk_list (fields_of (filter_fields x))]) = Inr x" for x
    by (simp add: read_filter_plan_def plan_reader_of_def decode_simps del: fields_of_simps)
  show "\<exists>flds. d = PList [PString ''filter'', PInteger PG_BATCH_PLAN_DATA_VERSION, flds]"
    if "(read_filter_plan \<circ> Some) d = Inr x" for d x
    using that unfolding read_filter_plan_def plan_reader_of_def o_apply option.case by (rule rbind_reader_kind)
qed

text \<open>The provider data of the other nodes, read through \<open>provider_reader\<close>.\<close>

definition decode_with :: "string \<Rightarrow> (plan_reader \<Rightarrow> 'a result) \<Rightarrow> pnode \<Rightarrow> 'a result" where
  "decode_with kind read d = rbind (provider_reader d kind) read"

lemma decode_with_kind:
  assumes "decode_with kind read d = Inr x"
  shows "\<exists>flds. d = PList [PString kind, PInteger PG_BATCH_PLAN_DATA_VERSION, flds]"
  using assms by (cases d) (auto simp: decode_with_def provider_reader_def rbind_Inr_iff
      dest: plan_reader_create_kind)

lemma decode_with_at:
  assumes "names_ok (map fst fs)" "kind \<noteq> []"
  shows "decode_with kind read (PList [PString kind, PInteger PG_BATCH_PLAN_DATA_VERSION, mk_list (fields_of fs)]) =
    read (reader_at kind fs [])"
  using reader_create_at [OF assms] by (simp add: decode_with_def provider_reader_def)

abbreviation project_fields :: "int list \<Rightarrow> (string \<times> pnode) list" where
  "project_fields columns \<equiv> [(''input_columns'', mk_int_list columns)]"

interpretation project: plan_codec "''project''" project_fields "\<lambda>_. True"
  write_project_plan "decode_with ''project'' read_project_fields"
proof
  show "write_project_plan x = Inr (PList [PString ''project'', PInteger PG_BATCH_PLAN_DATA_VERSION,
      mk_list (fields_of (project_fields x))])" for x
    by (simp add: write_project_plan_def write_plan_data)
  show "decode_with ''project'' read_project_fields (PList [PString ''project'',
      PInteger PG_BATCH_PLAN_DATA_VERSION, mk_list (fields_of (project_fields x))]) = Inr x" for x
    by (subst decode_with_at) (simp_all add: read_project_fields_def decode_simps del: fields_of_simps)
qed (rule decode_with_kind)

abbreviation hash_fields :: "hash_plan \<Rightarrow> (string \<times> pnode) list" where
  "hash_fields h \<equiv> [(''outer_columns'', mk_int_list (hp_outer_columns h)),
     (''inner_columns'', mk_int_list (hp_inner_columns h)), (''outer_keys'', mk_int_list (hp_outer_keys h)),
     (''inner_keys'', mk_int_list (hp_inner_keys h)),
     (''planned_partitions'', PInteger (hp_planned_partitions h))]"

interpretation hash_join: plan_codec "''hash_join''" hash_fields "\<lambda>_. True"
  write_hash_plan "decode_with ''hash_join'' read_hash_fields"
proof
  show "write_hash_plan x = Inr (PList [PString ''hash_join'', PInteger PG_BATCH_PLAN_DATA_VERSION,
      mk_list (fields_of (hash_fields x))])" for x
    by (simp add: write_hash_plan_def write_plan_data)
  show "decode_with ''hash_join'' read_hash_fields (PList [PString ''hash_join'',
      PInteger PG_BATCH_PLAN_DATA_VERSION, mk_list (fields_of (hash_fields x))]) = Inr x" for x
    by (subst decode_with_at) (simp_all add: read_hash_fields_def decode_simps del: fields_of_simps)
qed (rule decode_with_kind)

abbreviation agg_fields :: "agg_plan \<Rightarrow> (string \<times> pnode) list" where
  "agg_fields a \<equiv> [(''kinds'', mk_int_list (ap_kinds a)), (''columns'', mk_int_list (ap_columns a)),
     (''partial'', PInteger (if ap_partial a then 1 else 0))]"

interpretation agg: plan_codec "''aggregate''" agg_fields
  "\<lambda>a. length (ap_kinds a) = length (ap_columns a)"
  write_agg_plan "decode_with ''aggregate'' read_agg_fields"
proof
  show "write_agg_plan x = Inr (PList [PString ''aggregate'', PInteger PG_BATCH_PLAN_DATA_VERSION,
      mk_list (fields_of (agg_fields x))])" for x
    by (simp add: write_agg_plan_def write_plan_data)
  show "decode_with ''aggregate'' read_agg_fields (PList [PString ''aggregate'',
      PInteger PG_BATCH_PLAN_DATA_VERSION, mk_list (fields_of (agg_fields x))]) = Inr x"
    if "length (ap_kinds x) = length (ap_columns x)" for x
    using that by (subst decode_with_at) (simp_all add: read_agg_fields_def decode_simps del: fields_of_simps)
qed (rule decode_with_kind)

section \<open>Properties\<close>

lemma read_provider:
  assumes "plan_get_info scan (Some (struct_sizeof PgBatchPlanInfo_layout)) = Inr info"
  shows "rbind (common_plan_reader scan kind) (\<lambda>(info, r). rbind (read r) (\<lambda>x. Inr (info, x))) =
    rbind (decode_with kind read (pi_node_data info)) (\<lambda>x. Inr (info, x))"
  using assms
  by (cases "provider_reader (pi_node_data info) kind")
    (simp_all add: common_plan_reader_def decode_with_def)

text \<open>Data of another kind, for the nodes that read it from the common part and for the two others.\<close>

lemma refused_by_provider:
  assumes "plan_get_info scan (Some (struct_sizeof PgBatchPlanInfo_layout)) = Inr info"
    and "pi_node_data info = PList [PString kind, PInteger PG_BATCH_PLAN_DATA_VERSION, flds]"
  shows "kind \<noteq> ''project'' \<Longrightarrow> \<exists>e. read_project_plan scan = Inl e"
    "kind \<noteq> ''hash_join'' \<Longrightarrow> \<exists>e. read_hash_plan scan = Inl e"
    "kind \<noteq> ''aggregate'' \<Longrightarrow> \<exists>e. read_agg_plan scan = Inl e"
proof -
  have other: "\<exists>e. rbind (decode_with kind' read (pi_node_data info)) (\<lambda>x. Inr (info, x)) = Inl e"
    if "kind \<noteq> kind'" for kind' and read :: "plan_reader \<Rightarrow> 'x result"
    using that assms(2) decode_with_kind [of kind' read "pi_node_data info"]
    by (cases "decode_with kind' read (pi_node_data info)") auto
  show "kind \<noteq> ''project'' \<Longrightarrow> \<exists>e. read_project_plan scan = Inl e"
    "kind \<noteq> ''hash_join'' \<Longrightarrow> \<exists>e. read_hash_plan scan = Inl e"
    "kind \<noteq> ''aggregate'' \<Longrightarrow> \<exists>e. read_agg_plan scan = Inl e"
    unfolding read_project_plan_def read_hash_plan_def read_agg_plan_def read_provider [OF assms(1)]
    by (rule other; assumption)+
qed

lemma refused_by_private:
  assumes "d = PList [PString kind, PInteger PG_BATCH_PLAN_DATA_VERSION, flds]"
  shows "kind \<noteq> ''scan'' \<Longrightarrow> \<exists>e. read_scan_plan (Some d) = Inl e"
    "kind \<noteq> ''filter'' \<Longrightarrow> \<exists>e. read_filter_plan (Some d) = Inl e"
  using scan.kind_law [of d] filter_codec.kind_law [of d] assms
  by (cases "read_scan_plan (Some d)"; cases "read_filter_plan (Some d)"; auto)+

text \<open>
  C36. The data each bundled node writes at planning time is what it reads at
  execution: directly from \<open>custom_private\<close> for scans and filters, through the
  common plan data for projections, hash joins and aggregates, also after core has
  replaced the target list, and together with the decoded common part.  Each of the
  five readers refuses the data of each of the four other kinds.
\<close>

theorem node_plan_roundtrip:
  assumes "plan_create rel path targets child_plans (Some c) = Inr p" "layouts_cover c"
    and "plan_get_info (Some (replace_targetlist targets' p)) (Some 56) = Inr info"
  shows "(write_project_plan cols = Inr (plc_node_data c) \<longrightarrow>
      read_project_plan (Some (replace_targetlist targets' p)) = Inr (info, cols) \<and>
      (\<exists>e. read_hash_plan (Some (replace_targetlist targets' p)) = Inl e) \<and>
      (\<exists>e. read_agg_plan (Some (replace_targetlist targets' p)) = Inl e) \<and>
      (\<exists>e. read_scan_plan (Some (plc_node_data c)) = Inl e) \<and>
      (\<exists>e. read_filter_plan (Some (plc_node_data c)) = Inl e)) \<and>
    (write_hash_plan h = Inr (plc_node_data c) \<longrightarrow>
      read_hash_plan (Some (replace_targetlist targets' p)) = Inr (info, h) \<and>
      (\<exists>e. read_agg_plan (Some (replace_targetlist targets' p)) = Inl e) \<and>
      (\<exists>e. read_project_plan (Some (replace_targetlist targets' p)) = Inl e) \<and>
      (\<exists>e. read_scan_plan (Some (plc_node_data c)) = Inl e) \<and>
      (\<exists>e. read_filter_plan (Some (plc_node_data c)) = Inl e)) \<and>
    (write_agg_plan a = Inr (plc_node_data c) \<and> length (ap_kinds a) = length (ap_columns a) \<longrightarrow>
      read_agg_plan (Some (replace_targetlist targets' p)) = Inr (info, a) \<and>
      (\<exists>e. read_project_plan (Some (replace_targetlist targets' p)) = Inl e) \<and>
      (\<exists>e. read_hash_plan (Some (replace_targetlist targets' p)) = Inl e) \<and>
      (\<exists>e. read_scan_plan (Some (plc_node_data c)) = Inl e) \<and>
      (\<exists>e. read_filter_plan (Some (plc_node_data c)) = Inl e)) \<and>
    (write_scan_plan s = Inr (plc_node_data c) \<or> write_filter_plan f = Inr (plc_node_data c) \<longrightarrow>
      (\<exists>e. read_project_plan (Some (replace_targetlist targets' p)) = Inl e) \<and>
      (\<exists>e. read_hash_plan (Some (replace_targetlist targets' p)) = Inl e) \<and>
      (\<exists>e. read_agg_plan (Some (replace_targetlist targets' p)) = Inl e)) \<and>
    (\<exists>d. write_scan_plan s = Inr d \<and> read_scan_plan (Some d) = Inr s \<and>
      (\<exists>e. read_filter_plan (Some d) = Inl e)) \<and>
    (\<exists>d. write_filter_plan f = Inr d \<and> read_filter_plan (Some d) = Inr f \<and>
      (\<exists>e. read_scan_plan (Some d) = Inl e))"
proof -
  have data: "pi_node_data info = plc_node_data c"
    using plan_create_info [OF assms(1,2), of targets'] assms(3) by (auto simp: Let_def split: if_splits)
  note info = assms(3) [folded layout_sizes(4)]
  note defs = read_project_plan_def read_hash_plan_def read_agg_plan_def read_provider [OF info] data
  note refused = refused_by_provider [OF info, unfolded data] refused_by_private
  show ?thesis
  proof (intro conjI impI)
    assume *: "write_project_plan cols = Inr (plc_node_data c)"
    note laws = project.roundtrip [of cols] project.kind_law [of "plc_node_data c" cols]
    show "read_project_plan (Some (replace_targetlist targets' p)) = Inr (info, cols)"
      using * laws unfolding defs by auto
    show "\<exists>e. read_hash_plan (Some (replace_targetlist targets' p)) = Inl e"
      "\<exists>e. read_agg_plan (Some (replace_targetlist targets' p)) = Inl e"
      "\<exists>e. read_scan_plan (Some (plc_node_data c)) = Inl e"
      "\<exists>e. read_filter_plan (Some (plc_node_data c)) = Inl e"
      using * laws by (auto intro: refused)
  next
    assume *: "write_hash_plan h = Inr (plc_node_data c)"
    note laws = hash_join.roundtrip [of h] hash_join.kind_law [of "plc_node_data c" h]
    show "read_hash_plan (Some (replace_targetlist targets' p)) = Inr (info, h)"
      using * laws unfolding defs by auto
    show "\<exists>e. read_agg_plan (Some (replace_targetlist targets' p)) = Inl e"
      "\<exists>e. read_project_plan (Some (replace_targetlist targets' p)) = Inl e"
      "\<exists>e. read_scan_plan (Some (plc_node_data c)) = Inl e"
      "\<exists>e. read_filter_plan (Some (plc_node_data c)) = Inl e"
      using * laws by (auto intro: refused)
  next
    assume *: "write_agg_plan a = Inr (plc_node_data c) \<and> length (ap_kinds a) = length (ap_columns a)"
    note laws = agg.roundtrip [of a] agg.kind_law [of "plc_node_data c" a]
    show "read_agg_plan (Some (replace_targetlist targets' p)) = Inr (info, a)"
      using * laws unfolding defs by auto
    show "\<exists>e. read_project_plan (Some (replace_targetlist targets' p)) = Inl e"
      "\<exists>e. read_hash_plan (Some (replace_targetlist targets' p)) = Inl e"
      "\<exists>e. read_scan_plan (Some (plc_node_data c)) = Inl e"
      "\<exists>e. read_filter_plan (Some (plc_node_data c)) = Inl e"
      using * laws by (auto intro: refused)
  next
    assume *: "write_scan_plan s = Inr (plc_node_data c) \<or> write_filter_plan f = Inr (plc_node_data c)"
    then obtain kind flds where "plc_node_data c = PList [PString kind, PInteger PG_BATCH_PLAN_DATA_VERSION, flds]"
      "kind = ''scan'' \<or> kind = ''filter''"
      using scan.roundtrip [of s] filter_codec.roundtrip [of f] scan.kind_law [of "plc_node_data c" s]
        filter_codec.kind_law [of "plc_node_data c" f] by auto
    then show "\<exists>e. read_project_plan (Some (replace_targetlist targets' p)) = Inl e"
      "\<exists>e. read_hash_plan (Some (replace_targetlist targets' p)) = Inl e"
      "\<exists>e. read_agg_plan (Some (replace_targetlist targets' p)) = Inl e"
      by (auto intro: refused)
  next
    show "\<exists>d. write_scan_plan s = Inr d \<and> read_scan_plan (Some d) = Inr s \<and>
        (\<exists>e. read_filter_plan (Some d) = Inl e)"
      using scan.roundtrip [of s] scan.kind_law [of _ s] by (fastforce intro: refused)
    show "\<exists>d. write_filter_plan f = Inr d \<and> read_filter_plan (Some d) = Inr f \<and>
        (\<exists>e. read_scan_plan (Some d) = Inl e)"
      using filter_codec.roundtrip [of f] filter_codec.kind_law [of _ f] by (fastforce intro: refused)
  qed
qed

theorem node_plan_roundtrip_witness:
  "\<exists>p d info. write_hash_plan \<lparr>hp_outer_columns = [0, 1], hp_inner_columns = [1], hp_outer_keys = [0],
       hp_inner_keys = [1], hp_planned_partitions = 4\<rparr> = Inr d \<and>
     plan_create None example_path [POther 3, POther 2] [Some (Plain_Plan [])]
       (Some (example_plan_config\<lparr>plc_node_data := d\<rparr>)) = Inr p \<and>
     read_hash_plan (Some p) = Inr (info, \<lparr>hp_outer_columns = [0, 1], hp_inner_columns = [1],
       hp_outer_keys = [0], hp_inner_keys = [1], hp_planned_partitions = 4\<rparr>)"
proof -
  let ?h = "\<lparr>hp_outer_columns = [0, 1], hp_inner_columns = [1], hp_outer_keys = [0],
       hp_inner_keys = [1], hp_planned_partitions = 4\<rparr>"
  obtain d where d: "write_hash_plan ?h = Inr d" using hash_join.roundtrip [of ?h] by blast
  let ?c = "example_plan_config\<lparr>plc_node_data := d\<rparr>"
  obtain p where p: "plan_create None example_path [POther 3, POther 2] [Some (Plain_Plan [])] (Some ?c) = Inr p"
    "replace_targetlist [POther 3, POther 2] p = p" by (rule example_plan_created)
  have "plc_layout_policy ?c = 2" by (simp add: example_plan_config_def)
  with plan_create_info [OF p(1) example_layouts_cover, of "[POther 3, POther 2]"]
  obtain info where info: "plan_get_info (Some (replace_targetlist [POther 3, POther 2] p)) (Some 56) = Inr info"
    by (auto simp: example_plan_layout Let_def)
  have "write_hash_plan ?h = Inr (plc_node_data ?c)" using d by simp
  with node_plan_roundtrip [OF p(1) example_layouts_cover info, of "[]" ?h undefined undefined undefined]
  have "read_hash_plan (Some p) = Inr (info, ?h)" by (simp add: p(2))
  with d p(1) show ?thesis by blast
qed

end
