(* ===== verification/Spill.thy ===== *)
theory Spill
  imports Columns
begin

text \<open>
  The serial spill set, \<open>spill/spill.c\<close> (lines 15 to 478): rows of int4 columns with
  their hash are buffered per partition, written to tapes in blocks of at most 64
  rows, and read back block by block.  The tapes are PostgreSQL's \<open>logtape.c\<close>: the
  model takes their operations as the record \<open>tape_ops\<close>, and the properties rest on
  its documented behaviour \<open>tape_spec\<close>.  Words are written in the byte order of a
  little-endian machine.  Row, block and byte counters, \<open>uint64\<close> in C, are natural
  numbers.
\<close>

section \<open>Bytes\<close>

type_synonym byte = "8 word"

definition bytes32 :: "32 word \<Rightarrow> byte list" where
  "bytes32 w = map (\<lambda>i. ucast (drop_bit (8 * i) w)) [0..<4]"

definition bytes16 :: "16 word \<Rightarrow> byte list" where
  "bytes16 w = map (\<lambda>i. ucast (drop_bit (8 * i) w)) [0..<2]"

definition word32_of :: "byte list \<Rightarrow> 32 word" where
  "word32_of bs = ucast (bs ! 0) OR push_bit 8 (ucast (bs ! 1)) OR
     push_bit 16 (ucast (bs ! 2)) OR push_bit 24 (ucast (bs ! 3))"

definition word16_of :: "byte list \<Rightarrow> 16 word" where
  "word16_of bs = ucast (bs ! 0) OR push_bit 8 (ucast (bs ! 1))"

definition bytes_of_words :: "32 word list \<Rightarrow> byte list" where
  "bytes_of_words ws = concat (map bytes32 ws)"

definition words_of_bytes :: "byte list \<Rightarrow> 32 word list" where
  "words_of_bytes bs = map (\<lambda>i. word32_of (take 4 (drop (4 * i) bs))) [0..<length bs div 4]"

section \<open>Tapes\<close>

record 't tape_ops =
  tape_create :: 't
  tape_write :: "byte list \<Rightarrow> 't \<Rightarrow> 't"
  tape_freeze :: "'t \<Rightarrow> 't"
  tape_rewind :: "'t \<Rightarrow> 't"
  tape_read :: "nat \<Rightarrow> 't \<Rightarrow> byte list \<times> 't"

text \<open>
  What \<open>logtape.c\<close> documents.  A tape is first written; a rewind, or freezing, finishes
  writing and returns to the start; a read returns the next bytes, fewer at the end;
  only a frozen tape can be rewound again.  \<open>phase\<close> is the state of a tape, \<open>written\<close>
  everything written to it and \<open>rest\<close> what remains to be read.
\<close>

datatype tape_phase = Writing | Reading | Frozen

definition tape_spec ::
  "'t tape_ops \<Rightarrow> ('t \<Rightarrow> tape_phase) \<Rightarrow> ('t \<Rightarrow> byte list) \<Rightarrow> ('t \<Rightarrow> byte list) \<Rightarrow> bool" where
  "tape_spec T phase written rest \<longleftrightarrow>
     phase (tape_create T) = Writing \<and> written (tape_create T) = [] \<and>
     (\<forall>t bs. phase t = Writing \<longrightarrow>
        phase (tape_write T bs t) = Writing \<and> written (tape_write T bs t) = written t @ bs) \<and>
     (\<forall>t. phase t = Writing \<longrightarrow>
        phase (tape_freeze T t) = Frozen \<and> written (tape_freeze T t) = written t \<and>
        rest (tape_freeze T t) = written t \<and>
        phase (tape_rewind T t) = Reading \<and> rest (tape_rewind T t) = written t) \<and>
     (\<forall>t. phase t = Frozen \<longrightarrow>
        phase (tape_rewind T t) = Frozen \<and> written (tape_rewind T t) = written t \<and>
        rest (tape_rewind T t) = written t) \<and>
     (\<forall>t n. phase t \<noteq> Writing \<longrightarrow>
        fst (tape_read T n t) = take n (rest t) \<and>
        rest (snd (tape_read T n t)) = drop n (rest t) \<and>
        phase (snd (tape_read T n t)) = phase t \<and>
        (phase t = Frozen \<longrightarrow> written (snd (tape_read T n t)) = written t))"

section \<open>Spill sets\<close>

abbreviation (input) PG_BATCH_SPILL_BLOCK_ROWS :: nat where "PG_BATCH_SPILL_BLOCK_ROWS \<equiv> 64"

definition SPILL_MAGIC :: uint32 where
  "SPILL_MAGIC = 0x50474253"

record spill_writer =
  sw_nrows :: nat
  sw_hashes :: "uint32 list"
  sw_values :: "int4 list"
  sw_validity :: "byte list"

record spill_stats =
  st_rows_written :: nat
  st_blocks_written :: nat
  st_bytes_written :: nat
  st_rows_read :: nat
  st_blocks_read :: nat
  st_bytes_read :: nat

record 't spill_set =
  ss_ncolumns :: nat
  ss_npartitions :: nat
  ss_tapes :: "'t list"
  ss_writers :: "spill_writer option list"
  ss_partition_rows :: "nat list"
  ss_active_writers :: nat
  ss_max_writers :: nat
  ss_eviction_cursor :: nat
  ss_finished :: bool
  ss_frozen :: bool
  ss_stats :: spill_stats

text \<open>\<open>sizeof(SpillHeader)\<close> is 8 and \<open>sizeof(SpillWriter)\<close> is 280.\<close>

definition block_bytes :: "nat \<Rightarrow> nat \<Rightarrow> nat" where
  "block_bytes ncolumns nrows = 8 + 4 * nrows + 8 * ncolumns + 4 * ncolumns * nrows"

definition writer_bytes :: "nat \<Rightarrow> nat" where
  "writer_bytes ncolumns = 280 + (4 * PG_BATCH_SPILL_BLOCK_ROWS * ncolumns + 8 * ncolumns)"

definition validate_partition :: "'t spill_set \<Rightarrow> int \<Rightarrow> unit result" where
  "validate_partition s part =
     require (\<not> (part < 0 \<or> part \<ge> int (ss_npartitions s)))
       (Elog ''pg_batch spill partition is out of range'')"

definition free_writer :: "nat \<Rightarrow> 't spill_set \<Rightarrow> 't spill_set" where
  "free_writer part s =
     (if ss_writers s ! part \<noteq> None
      then s\<lparr>ss_writers := (ss_writers s)[part := None],
             ss_active_writers := ss_active_writers s - 1\<rparr>
      else s)"

definition spill_header :: "nat \<Rightarrow> nat \<Rightarrow> byte list" where
  "spill_header nrows ncolumns =
     bytes32 SPILL_MAGIC @ bytes16 (of_nat nrows) @ bytes16 (of_nat ncolumns)"

definition writer_column :: "spill_writer \<Rightarrow> nat \<Rightarrow> int4 list" where
  "writer_column w column = take (sw_nrows w) (drop (column * PG_BATCH_SPILL_BLOCK_ROWS) (sw_values w))"

definition flush_writer :: "'t tape_ops \<Rightarrow> nat \<Rightarrow> 't spill_set \<Rightarrow> 't spill_set" where
  "flush_writer T part s =
     (case ss_writers s ! part of
        None \<Rightarrow> s
      | Some w \<Rightarrow>
          if sw_nrows w = 0 then s
          else
            (let tape = ss_tapes s ! part;
                 tape = tape_write T (spill_header (sw_nrows w) (ss_ncolumns s)) tape;
                 tape = tape_write T (bytes_of_words (take (sw_nrows w) (sw_hashes w))) tape;
                 tape = tape_write T (take (8 * ss_ncolumns s) (sw_validity w)) tape;
                 tape = fold (\<lambda>column. tape_write T (bytes_of_words (writer_column w column)))
                          [0..<ss_ncolumns s] tape
             in s\<lparr>ss_tapes := (ss_tapes s)[part := tape],
                  ss_stats := (ss_stats s)
                    \<lparr>st_blocks_written := st_blocks_written (ss_stats s) + 1,
                     st_bytes_written := st_bytes_written (ss_stats s) +
                       block_bytes (ss_ncolumns s) (sw_nrows w)\<rparr>,
                  ss_writers := (ss_writers s)[part := Some (w\<lparr>sw_nrows := 0,
                    sw_validity := replicate (8 * ss_ncolumns s) 0\<rparr>)]\<rparr>))"

definition evict_writer :: "'t tape_ops \<Rightarrow> 't spill_set \<Rightarrow> 't spill_set" where
  "evict_writer T s =
     (case List.find (\<lambda>offset. ss_writers s ! ((ss_eviction_cursor s + offset) mod ss_npartitions s) \<noteq> None)
             [0..<ss_npartitions s] of
        None \<Rightarrow> s
      | Some offset \<Rightarrow>
          (let victim = (ss_eviction_cursor s + offset) mod ss_npartitions s
           in (free_writer victim (flush_writer T victim s))
                \<lparr>ss_eviction_cursor := (victim + 1) mod ss_npartitions s\<rparr>))"

definition new_writer :: "nat \<Rightarrow> spill_writer" where
  "new_writer ncolumns = \<lparr>sw_nrows = 0, sw_hashes = replicate PG_BATCH_SPILL_BLOCK_ROWS 0,
     sw_values = replicate (ncolumns * PG_BATCH_SPILL_BLOCK_ROWS) 0,
     sw_validity = replicate (8 * ncolumns) 0\<rparr>"

text \<open>\<open>get_writer\<close> makes sure that the partition has a writer.\<close>

definition get_writer :: "'t tape_ops \<Rightarrow> nat \<Rightarrow> 't spill_set \<Rightarrow> 't spill_set" where
  "get_writer T part s =
     (if ss_writers s ! part = None then
        (let s = (if ss_active_writers s = ss_max_writers s then evict_writer T s else s)
         in s\<lparr>ss_writers := (ss_writers s)[part := Some (new_writer (ss_ncolumns s))],
              ss_active_writers := ss_active_writers s + 1\<rparr>)
      else s)"

record attribute =
  att_isdropped :: bool
  att_typid :: uint32

definition spill_create ::
  "'t tape_ops \<Rightarrow> unit option \<Rightarrow> attribute list option \<Rightarrow> int \<Rightarrow> int \<Rightarrow> nat \<Rightarrow> 't spill_set result" where
  "spill_create T parent_context tuple_desc ncolumns npartitions buffer_limit =
     (case (parent_context, tuple_desc) of
        (Some _, Some attrs) \<Rightarrow>
          if ncolumns \<le> 0 \<or> ncolumns > int (length attrs) \<or> npartitions \<le> 0
          then Inl (Elog ''invalid pg_batch spill configuration'')
          else
            rbind (rfold (\<lambda>column _.
                if att_isdropped (attrs ! column) \<or> att_typid (attrs ! column) \<noteq> 23
                then Inl (Elog ''pg_batch spill column must be int4'') else Inr ())
              [0..<nat ncolumns] ()) (\<lambda>_.
            Inr \<lparr>ss_ncolumns = nat ncolumns, ss_npartitions = nat npartitions,
                 ss_tapes = replicate (nat npartitions) (tape_create T),
                 ss_writers = replicate (nat npartitions) None,
                 ss_partition_rows = replicate (nat npartitions) 0,
                 ss_active_writers = 0,
                 ss_max_writers = min (nat npartitions) (max 1 (buffer_limit div writer_bytes (nat ncolumns))),
                 ss_eviction_cursor = 0, ss_finished = False, ss_frozen = False,
                 ss_stats = \<lparr>st_rows_written = 0, st_blocks_written = 0, st_bytes_written = 0,
                   st_rows_read = 0, st_blocks_read = 0, st_bytes_read = 0\<rparr>\<rparr>)
      | _ \<Rightarrow> Inl (Elog ''invalid pg_batch spill configuration''))"

section \<open>Writing\<close>

text \<open>One row goes to position \<open>dest\<close> of the buffers; a NULL is stored as 0 without its bit.\<close>

definition put_column :: "nat \<Rightarrow> nat \<Rightarrow> int4 \<Rightarrow> bool \<Rightarrow> spill_writer \<Rightarrow> spill_writer" where
  "put_column dest column val valid w =
     (let w = w\<lparr>sw_values := (sw_values w)[column * PG_BATCH_SPILL_BLOCK_ROWS + dest := val]\<rparr>;
          k = column * 8 + dest div 8
      in if valid then w\<lparr>sw_validity := (sw_validity w)[k := (sw_validity w ! k) OR push_bit (dest mod 8) 1]\<rparr>
         else w)"

definition put_row :: "nat \<Rightarrow> uint32 \<Rightarrow> (nat \<Rightarrow> int4 \<times> bool) \<Rightarrow> spill_writer \<Rightarrow> spill_writer" where
  "put_row ncolumns hash cell w =
     (let dest = sw_nrows w;
          w = w\<lparr>sw_nrows := dest + 1, sw_hashes := (sw_hashes w)[dest := hash]\<rparr>
      in fold (\<lambda>column. put_column dest column (fst (cell column)) (snd (cell column))) [0..<ncolumns] w)"

definition spill_row ::
  "'t tape_ops \<Rightarrow> nat \<Rightarrow> uint32 \<Rightarrow> (nat \<Rightarrow> int4 \<times> bool) \<Rightarrow> 't spill_set \<Rightarrow> 't spill_set" where
  "spill_row T part hash cell s =
     (let w = put_row (ss_ncolumns s) hash cell (the (ss_writers s ! part));
          s = s\<lparr>ss_writers := (ss_writers s)[part := Some w],
                ss_partition_rows := (ss_partition_rows s)[part := ss_partition_rows s ! part + 1],
                ss_stats := (ss_stats s)\<lparr>st_rows_written := st_rows_written (ss_stats s) + 1\<rparr>\<rparr>
      in if sw_nrows w = PG_BATCH_SPILL_BLOCK_ROWS then flush_writer T part s else s)"

definition spill_write ::
  "'t tape_ops \<Rightarrow> int \<Rightarrow> int4_vector list option \<Rightarrow> selection option \<Rightarrow> uint32 list option \<Rightarrow>
     't spill_set \<Rightarrow> 't spill_set result" where
  "spill_write T part columns selection hashes s =
     rbind (validate_partition s part) (\<lambda>_.
     case (columns, selection, hashes) of
       (Some columns, Some sel, Some hashes) \<Rightarrow>
         if ss_finished s \<or> sel_nrows sel < 0 \<or> sel_nrows sel > int PG_BATCH_SPILL_BLOCK_ROWS \<or>
            sel_nwords sel \<noteq> 1 \<or> sel_words sel = []
         then Inl (Elog ''invalid pg_batch spill write'')
         else
           (let rows = (sel_words sel ! 0) AND
                  (if sel_nrows sel = 64 then - 1 else push_bit (nat (sel_nrows sel)) 1 - 1)
            in if rows = 0 then Inr s
               else Inr (fold (\<lambda>row. spill_row T (nat part) (hashes ! row)
                     (\<lambda>column.
                        let isnull = int4_row_is_null (columns ! column) row
                        in (if isnull then 0 else int4_row_value (columns ! column) row, \<not> isnull)))
                   (word_rows rows) (get_writer T (nat part) s)))
     | _ \<Rightarrow> Inl (Elog ''invalid pg_batch spill write''))"

definition spill_write_dense ::
  "'t tape_ops \<Rightarrow> int \<Rightarrow> int \<Rightarrow> uint32 list option \<Rightarrow> int4 list option \<Rightarrow> int \<Rightarrow> uint64 list option \<Rightarrow>
     't spill_set \<Rightarrow> 't spill_set result" where
  "spill_write_dense T part nrows hashes values value_stride validity s =
     rbind (validate_partition s part) (\<lambda>_.
     case (hashes, values, validity) of
       (Some hashes, Some values, Some validity) \<Rightarrow>
         if ss_finished s \<or> nrows \<le> 0 \<or> nrows > int PG_BATCH_SPILL_BLOCK_ROWS \<or> value_stride < nrows
         then Inl (Elog ''invalid dense pg_batch spill write'')
         else Inr (fold (\<lambda>row. spill_row T (nat part) (hashes ! row)
                (\<lambda>column. (values ! (column * nat value_stride + row), bit (validity ! column) row)))
              [0..<nat nrows] (get_writer T (nat part) s))
     | _ \<Rightarrow> Inl (Elog ''invalid dense pg_batch spill write''))"

definition finish_partition :: "'t tape_ops \<Rightarrow> bool \<Rightarrow> nat \<Rightarrow> 't spill_set \<Rightarrow> 't spill_set" where
  "finish_partition T frozen part s =
     (let s = flush_writer T part s;
          s = (if ss_partition_rows s ! part \<noteq> 0
               then s\<lparr>ss_tapes := (ss_tapes s)[part :=
                        (if frozen then tape_freeze T (ss_tapes s ! part)
                         else tape_rewind T (ss_tapes s ! part))]\<rparr>
               else s)
      in free_writer part s)"

definition spill_finish :: "'t tape_ops \<Rightarrow> bool \<Rightarrow> 't spill_set \<Rightarrow> 't spill_set result" where
  "spill_finish T frozen s =
     (if ss_finished s then Inl (Elog ''pg_batch spill set is already finished'')
      else Inr ((fold (finish_partition T frozen) [0..<ss_npartitions s] s)
             \<lparr>ss_finished := True, ss_frozen := frozen\<rparr>))"

definition spill_partition_empty :: "'t spill_set \<Rightarrow> int \<Rightarrow> bool result" where
  "spill_partition_empty s part =
     rbind (validate_partition s part) (\<lambda>_. Inr (ss_partition_rows s ! nat part = 0))"

definition spill_partition_rows :: "'t spill_set \<Rightarrow> int \<Rightarrow> nat result" where
  "spill_partition_rows s part =
     rbind (validate_partition s part) (\<lambda>_. Inr (ss_partition_rows s ! nat part))"

section \<open>Reading\<close>

text \<open>A reader uses the tape of its partitionition in place: it moves with the set.\<close>

record spill_reader =
  rd_partition :: nat
  rd_eof :: bool
  rd_hashes :: "uint32 list"
  rd_values :: "int4 list"
  rd_validity :: "byte list"

record spill_block =
  sb_nrows :: nat
  sb_ncolumns :: nat
  sb_selection :: uint64
  sb_hashes :: "uint32 list"
  sb_values :: "int4 list"
  sb_validity :: "byte list"

definition spill_reader_open ::
  "'t tape_ops \<Rightarrow> int \<Rightarrow> 't spill_set \<Rightarrow> (spill_reader \<times> 't spill_set) result" where
  "spill_reader_open T part s =
     rbind (validate_partition s part) (\<lambda>_.
     rbind (require (ss_finished s) (Elog ''pg_batch spill set is not ready for reading'')) (\<lambda>_.
     rbind (spill_partition_empty s part) (\<lambda>empty.
     let p = nat part;
         r = \<lparr>rd_partition = p, rd_eof = empty, rd_hashes = replicate PG_BATCH_SPILL_BLOCK_ROWS 0,
              rd_values = replicate (ss_ncolumns s * PG_BATCH_SPILL_BLOCK_ROWS) 0,
              rd_validity = replicate (8 * ss_ncolumns s) 0\<rparr>
     in if ss_frozen s \<and> ss_partition_rows s ! p \<noteq> 0
        then Inr (r, s\<lparr>ss_tapes := (ss_tapes s)[p := tape_rewind T (ss_tapes s ! p)]\<rparr>)
        else Inr (r, s))))"

text \<open>A read into an array that must be filled.\<close>

definition read_exact :: "'t tape_ops \<Rightarrow> nat \<Rightarrow> 't \<Rightarrow> (byte list \<times> 't) result" where
  "read_exact T n tape =
     (let (bs, tape) = tape_read T n tape
      in if length bs \<noteq> n then Inl (Elog ''unexpected end of pg_batch spill file'') else Inr (bs, tape))"

definition write_at :: "nat \<Rightarrow> 'a list \<Rightarrow> 'a list \<Rightarrow> 'a list" where
  "write_at k xs ys = take k ys @ xs @ drop (k + length xs) ys"

definition read_column ::
  "'t tape_ops \<Rightarrow> nat \<Rightarrow> nat \<Rightarrow> int4 list \<times> 't \<Rightarrow> (int4 list \<times> 't) result" where
  "read_column T nrows column st =
     rbind (read_exact T (4 * nrows) (snd st)) (\<lambda>(bs, tape).
     Inr (write_at (column * PG_BATCH_SPILL_BLOCK_ROWS) (words_of_bytes bs) (fst st), tape))"

definition spill_reader_next ::
  "'t tape_ops \<Rightarrow> spill_reader \<Rightarrow> 't spill_set \<Rightarrow>
     (spill_block option \<times> spill_reader \<times> 't spill_set) result" where
  "spill_reader_next T r s =
     (if rd_eof r then Inr (None, r, s)
      else
        (let p = rd_partition r;
             (header, tape) = tape_read T 8 (ss_tapes s ! p)
         in if header = [] then
              Inr (None, r\<lparr>rd_eof := True\<rparr>, s\<lparr>ss_tapes := (ss_tapes s)[p := tape]\<rparr>)
            else if length header \<noteq> 8 then Inl (Elog ''invalid pg_batch spill block'')
            else
              (let magic = word32_of (take 4 header);
                   nrows = unat (word16_of (take 2 (drop 4 header)));
                   ncolumns = unat (word16_of (drop 6 header))
               in if magic \<noteq> SPILL_MAGIC \<or> ncolumns \<noteq> ss_ncolumns s \<or> nrows = 0 \<or>
                     nrows > PG_BATCH_SPILL_BLOCK_ROWS
                  then Inl (Elog ''invalid pg_batch spill block'')
                  else
                    rbind (read_exact T (4 * nrows) tape) (\<lambda>(hs, tape).
                    rbind (read_exact T (8 * ss_ncolumns s) tape) (\<lambda>(validity, tape).
                    rbind (rfold (read_column T nrows) [0..<ss_ncolumns s] (rd_values r, tape))
                      (\<lambda>(values, tape).
                    let hashes = write_at 0 (words_of_bytes hs) (rd_hashes r);
                        r = r\<lparr>rd_hashes := hashes, rd_validity := validity, rd_values := values\<rparr>
                    in Inr (Some \<lparr>sb_nrows = nrows, sb_ncolumns = ss_ncolumns s,
                         sb_selection = (if nrows = 64 then - 1 else push_bit nrows 1 - 1),
                         sb_hashes = hashes, sb_values = values, sb_validity = validity\<rparr>,
                       r,
                       s\<lparr>ss_tapes := (ss_tapes s)[p := tape],
                         ss_stats := (ss_stats s)
                           \<lparr>st_rows_read := st_rows_read (ss_stats s) + nrows,
                            st_blocks_read := st_blocks_read (ss_stats s) + 1,
                            st_bytes_read := st_bytes_read (ss_stats s) +
                              block_bytes (ss_ncolumns s) nrows\<rparr>\<rparr>)))))))"

definition spill_reader_rewind ::
  "'t tape_ops \<Rightarrow> spill_reader \<Rightarrow> 't spill_set \<Rightarrow> (spill_reader \<times> 't spill_set) result" where
  "spill_reader_rewind T r s =
     rbind (require (ss_frozen s) (Elog ''cannot rewind a destructive pg_batch spill reader'')) (\<lambda>_.
     rbind (spill_partition_empty s (int (rd_partition r))) (\<lambda>empty.
     let p = rd_partition r
     in Inr (r\<lparr>rd_eof := empty\<rparr>,
          if \<not> empty then s\<lparr>ss_tapes := (ss_tapes s)[p := tape_rewind T (ss_tapes s ! p)]\<rparr> else s)))"

end
