(* ===== verification/Spill_Buffers.thy ===== *)
theory Spill_Buffers
  imports Spill
begin

text \<open>
  The buffers of the spill: byte encodings and their inverses, the rows a column-major
  buffer holds, adding a row to a writer, and the bytes of a block.
\<close>

section \<open>Bytes\<close>

lemma length_bytes32 [simp]: "length (bytes32 w) = 4"
  by (simp add: bytes32_def)

lemma length_bytes16 [simp]: "length (bytes16 w) = 2"
  by (simp add: bytes16_def)

lemma word32_of_bytes32 [simp]: "word32_of (bytes32 w) = w"
proof -
  have "bytes32 w = [ucast w, ucast (drop_bit 8 w), ucast (drop_bit 16 w), ucast (drop_bit 24 w)]"
    by (simp add: bytes32_def upt_rec)
  moreover have "n < 8 \<or> n - 8 < 8 \<and> 8 \<le> n \<or> n - 16 < 8 \<and> 16 \<le> n \<or> 24 \<le> n" for n :: nat
    by arith
  ultimately show ?thesis
    unfolding word32_of_def by (intro bit_word_eqI) (force simp: bit_simps nth_Cons_numeral)
qed

lemma word16_of_bytes16 [simp]: "word16_of (bytes16 w) = w"
proof -
  have "bytes16 w = [ucast w, ucast (drop_bit 8 w)]"
    by (simp add: bytes16_def upt_rec)
  then show ?thesis
    unfolding word16_of_def by (intro bit_word_eqI) (auto simp: bit_simps nth_Cons_numeral)
qed

lemma length_bytes_of_words [simp]: "length (bytes_of_words ws) = 4 * length ws"
  by (induction ws) (simp_all add: bytes_of_words_def)

lemma bytes_of_words_Cons: "bytes_of_words (w # ws) = bytes32 w @ bytes_of_words ws"
  by (simp add: bytes_of_words_def)

lemma take_bytes_of_words:
  "i < length ws \<Longrightarrow> take 4 (drop (4 * i) (bytes_of_words ws)) = bytes32 (ws ! i)"
proof (induction ws arbitrary: i)
  case (Cons w ws)
  then show ?case by (cases i) (simp_all add: bytes_of_words_Cons)
qed simp

lemma words_of_bytes_of_words [simp]: "words_of_bytes (bytes_of_words ws) = ws"
  by (rule nth_equalityI) (simp_all add: words_of_bytes_def take_bytes_of_words)

section \<open>Rows of a column-major buffer\<close>

type_synonym row = "uint32 \<times> int4 option list"

definition cell_value :: "int4 list \<Rightarrow> nat \<Rightarrow> nat \<Rightarrow> int4" where
  "cell_value vs column r = vs ! (column * PG_BATCH_SPILL_BLOCK_ROWS + r)"

definition cell_valid :: "byte list \<Rightarrow> nat \<Rightarrow> nat \<Rightarrow> bool" where
  "cell_valid bs column r = bit (bs ! (column * 8 + r div 8)) (r mod 8)"

definition buf_row :: "nat \<Rightarrow> uint32 list \<Rightarrow> int4 list \<Rightarrow> byte list \<Rightarrow> nat \<Rightarrow> row" where
  "buf_row n hs vs bs r = (hs ! r,
     map (\<lambda>column. if cell_valid bs column r then Some (cell_value vs column r) else None) [0..<n])"

definition writer_rows :: "nat \<Rightarrow> spill_writer \<Rightarrow> row list" where
  "writer_rows n w = map (buf_row n (sw_hashes w) (sw_values w) (sw_validity w)) [0..<sw_nrows w]"

definition block_rows :: "spill_block \<Rightarrow> row list" where
  "block_rows b = map (buf_row (sb_ncolumns b) (sb_hashes b) (sb_values b) (sb_validity b)) [0..<sb_nrows b]"

definition writer_wf :: "nat \<Rightarrow> spill_writer \<Rightarrow> bool" where
  "writer_wf n w \<longleftrightarrow> sw_nrows w \<le> 64 \<and> length (sw_hashes w) = 64 \<and> length (sw_values w) = n * 64 \<and>
     length (sw_validity w) = 8 * n \<and>
     (\<forall>column < n. \<forall>r < 64. sw_nrows w \<le> r \<longrightarrow> \<not> cell_valid (sw_validity w) column r)"

lemma writer_wf_new [simp]: "writer_wf n (new_writer n)"
  by (auto simp: writer_wf_def new_writer_def cell_valid_def)

lemma writer_rows_empty: "sw_nrows w = 0 \<Longrightarrow> writer_rows n w = []"
  by (simp add: writer_rows_def)

lemma length_writer_rows [simp]: "length (writer_rows n w) = sw_nrows w"
  by (simp add: writer_rows_def)

subsection \<open>Positions\<close>

lemma mult_add_inj:
  assumes "i < m" "j < m"
  shows "a * m + i = b * m + j \<longleftrightarrow> a = b \<and> i = (j :: nat)"
proof
  assume eq: "a * m + i = b * m + j"
  have "(a * m + i) div m = a" "(b * m + j) div m = b" using assms by simp_all
  with eq show "a = b \<and> i = j" by simp
qed simp

lemma mult_add_less: "a < n \<Longrightarrow> i < m \<Longrightarrow> a * m + i < n * (m :: nat)"
  using mult_le_mono1 [of "Suc a" n m] by simp

lemmas value_index_inj = mult_add_inj [where m = 64]
lemmas value_index_less = mult_add_less [where m = 64]

lemma validity_index_inj:
  assumes "r < 64" "q < 64"
  shows "column * 8 + r div 8 = d * 8 + q div 8 \<and> r mod 8 = q mod 8 \<longleftrightarrow> column = d \<and> r = (q :: nat)"
proof -
  have "r div 8 = q div 8 \<and> r mod 8 = q mod 8 \<longleftrightarrow> r = q"
    by (metis mod_div_decomp)
  then show ?thesis
    using mult_add_inj [of "r div 8" 8 "q div 8" column d] assms by fastforce
qed

lemma validity_index_less: "column < n \<Longrightarrow> r < 64 \<Longrightarrow> column * 8 + r div 8 < 8 * (n :: nat)"
  using mult_add_less [of column n "r div 8" 8] by (simp add: mult.commute)

subsection \<open>Adding a row\<close>

definition same_shape :: "spill_writer \<Rightarrow> spill_writer \<Rightarrow> bool" where
  "same_shape w w' \<longleftrightarrow> sw_nrows w' = sw_nrows w \<and> sw_hashes w' = sw_hashes w \<and>
     length (sw_values w') = length (sw_values w) \<and> length (sw_validity w') = length (sw_validity w)"

lemma put_column:
  assumes "length (sw_values w) = n * 64" "length (sw_validity w) = 8 * n" "column < n" "dest < 64"
  shows "same_shape w (put_column dest column v b w)"
    and "d < n \<Longrightarrow> r < 64 \<Longrightarrow> cell_value (sw_values (put_column dest column v b w)) d r =
      (if d = column \<and> r = dest then v else cell_value (sw_values w) d r)"
    and "d < n \<Longrightarrow> r < 64 \<Longrightarrow> cell_valid (sw_validity (put_column dest column v b w)) d r \<longleftrightarrow>
      cell_valid (sw_validity w) d r \<or> d = column \<and> r = dest \<and> b"
proof -
  show "same_shape w (put_column dest column v b w)"
    by (simp add: same_shape_def put_column_def Let_def)
  show "cell_value (sw_values (put_column dest column v b w)) d r =
      (if d = column \<and> r = dest then v else cell_value (sw_values w) d r)" if "d < n" "r < 64"
    using assms that value_index_less [of d n r] value_index_inj [of dest r column d]
    by (auto simp: put_column_def Let_def cell_value_def nth_list_update)
  show "cell_valid (sw_validity (put_column dest column v b w)) d r \<longleftrightarrow>
      cell_valid (sw_validity w) d r \<or> d = column \<and> r = dest \<and> b" if "d < n" "r < 64"
    using assms that validity_index_less [of column n dest] validity_index_inj [of dest r column d]
    by (auto simp: put_column_def Let_def cell_valid_def nth_list_update bit_or_iff bit_exp_iff)
qed

lemma put_columns:
  fixes w :: spill_writer and cell :: "nat \<Rightarrow> int4 \<times> bool" and dest k n :: nat
  assumes "length (sw_values w) = n * 64" "length (sw_validity w) = 8 * n" "dest < 64" "k \<le> n"
  defines "w' \<equiv> fold (\<lambda>column. put_column dest column (fst (cell column)) (snd (cell column))) [0..<k] w"
  shows "same_shape w w' \<and> (\<forall>d < n. \<forall>r < 64.
    cell_value (sw_values w') d r = (if d < k \<and> r = dest then fst (cell d) else cell_value (sw_values w) d r) \<and>
    (cell_valid (sw_validity w') d r \<longleftrightarrow> cell_valid (sw_validity w) d r \<or> d < k \<and> r = dest \<and> snd (cell d)))"
  using assms(4) unfolding w'_def
proof (induction k)
  case 0
  then show ?case by (simp add: same_shape_def)
next
  case (Suc k)
  let ?u = "fold (\<lambda>column. put_column dest column (fst (cell column)) (snd (cell column))) [0..<k] w"
  have IH: "same_shape w ?u" "\<And>d r. d < n \<Longrightarrow> r < 64 \<Longrightarrow>
      cell_value (sw_values ?u) d r = (if d < k \<and> r = dest then fst (cell d) else cell_value (sw_values w) d r)"
    "\<And>d r. d < n \<Longrightarrow> r < 64 \<Longrightarrow>
      cell_valid (sw_validity ?u) d r \<longleftrightarrow> cell_valid (sw_validity w) d r \<or> d < k \<and> r = dest \<and> snd (cell d)"
    using Suc by auto
  have len: "length (sw_values ?u) = n * 64" "length (sw_validity ?u) = 8 * n"
    using IH(1) assms(1,2) by (simp_all add: same_shape_def)
  have k: "k < n" using Suc.prems by simp
  note step = put_column [OF len k assms(3), where v = "fst (cell k)" and b = "snd (cell k)"]
  show ?case
    using IH step by (auto simp: same_shape_def less_Suc_eq)
qed

lemma put_row:
  assumes "writer_wf n w" "sw_nrows w < 64"
  shows "writer_wf n (put_row n h cell w)"
    and "writer_rows n (put_row n h cell w) = writer_rows n w @
      [(h, map (\<lambda>column. if snd (cell column) then Some (fst (cell column)) else None) [0..<n])]"
    and "sw_nrows (put_row n h cell w) = sw_nrows w + 1"
proof -
  let ?dest = "sw_nrows w"
  let ?w = "w\<lparr>sw_nrows := ?dest + 1, sw_hashes := (sw_hashes w)[?dest := h]\<rparr>"
  let ?u = "put_row n h cell w"
  have u: "?u = fold (\<lambda>column. put_column ?dest column (fst (cell column)) (snd (cell column))) [0..<n] ?w"
    by (simp add: put_row_def Let_def)
  have len: "length (sw_values ?w) = n * 64" "length (sw_validity ?w) = 8 * n" "length (sw_hashes w) = 64"
    and clear: "\<And>column r. column < n \<Longrightarrow> r < 64 \<Longrightarrow> ?dest \<le> r \<Longrightarrow> \<not> cell_valid (sw_validity w) column r"
    using assms(1) by (auto simp: writer_wf_def)
  note put = put_columns [OF len(1,2) assms(2) order_refl, of cell, folded u]
  show n: "sw_nrows ?u = ?dest + 1" using put by (simp add: same_shape_def)
  have hs: "sw_hashes ?u = (sw_hashes w)[?dest := h]" using put by (simp add: same_shape_def)
  show "writer_wf n ?u"
    using put len assms(2) clear by (auto simp: writer_wf_def same_shape_def)
  have old: "buf_row n (sw_hashes ?u) (sw_values ?u) (sw_validity ?u) r =
      buf_row n (sw_hashes w) (sw_values w) (sw_validity w) r" if "r < ?dest" for r
    using that put assms(2) by (auto simp: buf_row_def hs)
  have new: "buf_row n (sw_hashes ?u) (sw_values ?u) (sw_validity ?u) ?dest =
      (h, map (\<lambda>column. if snd (cell column) then Some (fst (cell column)) else None) [0..<n])"
    using put assms(2) clear len(3) by (auto simp: buf_row_def hs)
  show "writer_rows n ?u = writer_rows n w @
      [(h, map (\<lambda>column. if snd (cell column) then Some (fst (cell column)) else None) [0..<n])]"
    using old new by (simp add: writer_rows_def n)
qed

end
