(* ===== verification/Spill_Props.thy ===== *)
theory Spill_Props
  imports Spill_Buffers
begin

text \<open>
  The serial spill set: the invariant that relates tapes and pending writers to the
  rows of each partition, its preservation by every operation, decoding of blocks, and
  the properties of the spill.
\<close>

section \<open>Tapes\<close>

lemma tape_spec_create:
  "tape_spec T phase written rest \<Longrightarrow> phase (tape_create T) = Writing \<and> written (tape_create T) = []"
  by (simp add: tape_spec_def)

lemma tape_spec_write:
  "tape_spec T phase written rest \<Longrightarrow> phase t = Writing \<Longrightarrow>
     phase (tape_write T bs t) = Writing \<and> written (tape_write T bs t) = written t @ bs"
  by (simp add: tape_spec_def)

lemma tape_spec_finish:
  "tape_spec T phase written rest \<Longrightarrow> phase t = Writing \<Longrightarrow>
     phase (tape_freeze T t) = Frozen \<and> written (tape_freeze T t) = written t \<and>
     rest (tape_freeze T t) = written t \<and>
     phase (tape_rewind T t) = Reading \<and> rest (tape_rewind T t) = written t"
  by (simp add: tape_spec_def)

lemma tape_spec_rewind:
  "tape_spec T phase written rest \<Longrightarrow> phase t = Frozen \<Longrightarrow>
     phase (tape_rewind T t) = Frozen \<and> written (tape_rewind T t) = written t \<and>
     rest (tape_rewind T t) = written t"
  by (simp add: tape_spec_def)

lemma tape_spec_read:
  assumes "tape_spec T phase written rest" "phase t \<noteq> Writing" "tape_read T n t = (bs, t')"
  shows "bs = take n (rest t) \<and> rest t' = drop n (rest t) \<and> phase t' = phase t \<and>
    (phase t = Frozen \<longrightarrow> written t' = written t)"
  using assms unfolding tape_spec_def by (metis fst_conv snd_conv)

lemma tape_write_fold:
  assumes "tape_spec T phase written rest" "phase t = Writing"
  shows "phase (fold (\<lambda>x. tape_write T (f x)) xs t) = Writing \<and>
    written (fold (\<lambda>x. tape_write T (f x)) xs t) = written t @ concat (map f xs)"
  using assms(2)
proof (induction xs arbitrary: t)
  case (Cons x xs)
  then show ?case using tape_spec_write [OF assms(1) Cons.prems, of "f x"] by simp
qed simp

section \<open>Blocks on a tape\<close>

definition flush_bytes :: "nat \<Rightarrow> spill_writer \<Rightarrow> byte list" where
  "flush_bytes n w = spill_header (sw_nrows w) n @ bytes_of_words (take (sw_nrows w) (sw_hashes w)) @
     take (8 * n) (sw_validity w) @ concat (map (\<lambda>column. bytes_of_words (writer_column w column)) [0..<n])"

definition on_tape :: "nat \<Rightarrow> byte list \<Rightarrow> row list \<Rightarrow> bool" where
  "on_tape n bs rows \<longleftrightarrow> (\<exists>ws. (\<forall>w \<in> set ws. writer_wf n w \<and> sw_nrows w \<noteq> 0) \<and>
     bs = concat (map (flush_bytes n) ws) \<and> rows = concat (map (writer_rows n) ws))"

lemma on_tape_Nil [simp]: "on_tape n [] []"
  unfolding on_tape_def by (rule exI [of _ "[]"]) simp

lemma on_tape_append:
  assumes "on_tape n bs rows" "writer_wf n w" "sw_nrows w \<noteq> 0"
  shows "on_tape n (bs @ flush_bytes n w) (rows @ writer_rows n w)"
proof -
  obtain ws where "\<forall>w \<in> set ws. writer_wf n w \<and> sw_nrows w \<noteq> 0"
    "bs = concat (map (flush_bytes n) ws)" "rows = concat (map (writer_rows n) ws)"
    using assms(1) by (auto simp: on_tape_def)
  with assms(2,3) show ?thesis
    unfolding on_tape_def by (intro exI [of _ "ws @ [w]"]) auto
qed

section \<open>The invariant while writing\<close>

definition pending :: "nat \<Rightarrow> spill_writer option \<Rightarrow> row list" where
  "pending n w = (case w of None \<Rightarrow> [] | Some w \<Rightarrow> writer_rows n w)"

definition count_some :: "'a option list \<Rightarrow> nat" where
  "count_some xs = length (filter (\<lambda>x. x \<noteq> None) xs)"

lemma count_some_update:
  "i < length xs \<Longrightarrow> count_some (xs[i := v]) + (if xs ! i \<noteq> None then 1 else 0) =
     count_some xs + (if v \<noteq> None then 1 else 0)"
proof (induction xs arbitrary: i)
  case (Cons x xs)
  then show ?case
    by (cases i; cases "x = None"; simp add: count_some_def del: not_None_eq split del: if_split)
      (auto simp del: not_None_eq)
qed simp

lemma count_some_pos: "i < length xs \<Longrightarrow> xs ! i \<noteq> None \<Longrightarrow> 0 < count_some xs"
  unfolding count_some_def by (metis (mono_tags, lifting) filter_empty_conv length_greater_0_conv nth_mem)

lemma count_some_exists: "0 < count_some xs \<Longrightarrow> \<exists>i < length xs. xs ! i \<noteq> None"
  unfolding count_some_def by (metis (mono_tags, lifting) filter_False in_set_conv_nth length_0_conv less_not_refl)

text \<open>
  One partition: its rows are the rows of the blocks on the tape followed by the
  pending rows of its writer.
\<close>

definition part_ok :: "('t \<Rightarrow> tape_phase) \<Rightarrow> ('t \<Rightarrow> byte list) \<Rightarrow> nat \<Rightarrow> 't \<Rightarrow> spill_writer option \<Rightarrow>
    nat \<Rightarrow> row list \<Rightarrow> bool" where
  "part_ok phase written n tape w count rows \<longleftrightarrow> phase tape = Writing \<and> pred_option (writer_wf n) w \<and>
     count = length rows \<and> (\<exists>rs. on_tape n (written tape) rs \<and> rows = rs @ pending n w)"

definition spill_shape :: "'t spill_set \<Rightarrow> bool" where
  "spill_shape s \<longleftrightarrow> length (ss_tapes s) = ss_npartitions s \<and> length (ss_writers s) = ss_npartitions s \<and>
     length (ss_partition_rows s) = ss_npartitions s \<and> 0 < ss_npartitions s \<and> ss_ncolumns s < 65536 \<and>
     ss_active_writers s = count_some (ss_writers s) \<and> ss_active_writers s \<le> ss_max_writers s \<and>
     1 \<le> ss_max_writers s \<and> \<not> ss_finished s"

definition spills_at :: "('t \<Rightarrow> tape_phase) \<Rightarrow> ('t \<Rightarrow> byte list) \<Rightarrow> 't spill_set \<Rightarrow> nat \<Rightarrow> row list \<Rightarrow> bool" where
  "spills_at phase written s p rows \<longleftrightarrow>
     part_ok phase written (ss_ncolumns s) (ss_tapes s ! p) (ss_writers s ! p) (ss_partition_rows s ! p) rows"

text \<open>Between operations no writer is full.\<close>

definition no_full :: "'t spill_set \<Rightarrow> bool" where
  "no_full s \<longleftrightarrow> (\<forall>p < ss_npartitions s. \<forall>w. ss_writers s ! p = Some w \<longrightarrow> sw_nrows w < 64)"

definition spill_inv :: "('t \<Rightarrow> tape_phase) \<Rightarrow> ('t \<Rightarrow> byte list) \<Rightarrow> 't spill_set \<Rightarrow> (nat \<Rightarrow> row list) \<Rightarrow> bool" where
  "spill_inv phase written s R \<longleftrightarrow> spill_shape s \<and> (\<forall>p < ss_npartitions s. spills_at phase written s p (R p))"

text \<open>The configuration, which no operation on the rows changes.\<close>

definition same_config :: "'t spill_set \<Rightarrow> 't spill_set \<Rightarrow> bool" where
  "same_config s s' \<longleftrightarrow> ss_ncolumns s' = ss_ncolumns s \<and> ss_npartitions s' = ss_npartitions s \<and>
     ss_max_writers s' = ss_max_writers s \<and> ss_finished s' = ss_finished s \<and> ss_frozen s' = ss_frozen s"

lemma same_config_refl [simp]: "same_config s s"
  by (simp add: same_config_def)

lemma same_config_trans: "same_config s t \<Longrightarrow> same_config t u \<Longrightarrow> same_config s u"
  by (simp add: same_config_def)

lemma flush_part_ok:
  assumes T: "tape_spec T phase written rest"
    and ok: "part_ok phase written n tape (Some w) count rows" and "sw_nrows w \<noteq> 0"
    and tape': "phase tape' = Writing" "written tape' = written tape @ flush_bytes n w"
  shows "part_ok phase written n tape' (Some (w\<lparr>sw_nrows := 0, sw_validity := replicate (8 * n) 0\<rparr>)) count rows"
proof -
  obtain rs where rs: "on_tape n (written tape) rs" "rows = rs @ writer_rows n w" "writer_wf n w"
    using ok by (auto simp: part_ok_def pending_def)
  have "writer_wf n (w\<lparr>sw_nrows := 0, sw_validity := replicate (8 * n) 0\<rparr>)"
    using rs(3) by (auto simp: writer_wf_def cell_valid_def)
  moreover have "on_tape n (written tape') rows"
    using on_tape_append [OF rs(1,3) assms(3)] rs(2) tape'(2) by simp
  ultimately show ?thesis
    using ok tape'(1) by (auto simp: part_ok_def pending_def writer_rows_empty intro!: exI [of _ rows])
qed

lemma flush_writer_local:
  assumes T: "tape_spec T phase written rest" and p: "p < ss_npartitions s"
    and shape: "spill_shape s" and at: "spills_at phase written s p rows"
  shows "spill_shape (flush_writer T p s) \<and> spills_at phase written (flush_writer T p s) p rows \<and>
    same_config s (flush_writer T p s) \<and>
    ss_active_writers (flush_writer T p s) = ss_active_writers s \<and>
    ss_partition_rows (flush_writer T p s) = ss_partition_rows s \<and>
    (\<forall>q < ss_npartitions s. q \<noteq> p \<longrightarrow> ss_writers (flush_writer T p s) ! q = ss_writers s ! q \<and>
       ss_tapes (flush_writer T p s) ! q = ss_tapes s ! q) \<and>
    (ss_writers (flush_writer T p s) ! p = None \<longleftrightarrow> ss_writers s ! p = None) \<and>
    pending (ss_ncolumns s) (ss_writers (flush_writer T p s) ! p) = []"
proof (cases "ss_writers s ! p")
  case None
  then show ?thesis using shape at by (simp add: flush_writer_def pending_def)
next
  case (Some w)
  show ?thesis
  proof (cases "sw_nrows w = 0")
    case True
    then show ?thesis using shape at Some by (simp add: flush_writer_def pending_def writer_rows_empty)
  next
    case False
    let ?n = "ss_ncolumns s"
    let ?w' = "w\<lparr>sw_nrows := 0, sw_validity := replicate (8 * ?n) 0\<rparr>"
    define tape where "tape = ss_tapes s ! p"
    define tape1 where "tape1 = tape_write T (take (8 * ?n) (sw_validity w))
      (tape_write T (bytes_of_words (take (sw_nrows w) (sw_hashes w)))
        (tape_write T (spill_header (sw_nrows w) ?n) tape))"
    define tape' where "tape' = fold (\<lambda>column. tape_write T (bytes_of_words (writer_column w column))) [0..<?n] tape1"
    note len = shape [unfolded spill_shape_def]
    have ok: "part_ok phase written ?n tape (Some w) (ss_partition_rows s ! p) rows"
      using at Some by (simp add: spills_at_def tape_def)
    then have "phase tape = Writing" by (simp add: part_ok_def)
    then have tape1: "phase tape1 = Writing" "written tape1 = written tape @ spill_header (sw_nrows w) ?n @
        bytes_of_words (take (sw_nrows w) (sw_hashes w)) @ take (8 * ?n) (sw_validity w)"
      using tape_spec_write [OF T] by (simp_all add: tape1_def)
    have tape': "phase tape' = Writing" "written tape' = written tape @ flush_bytes ?n w"
      using tape_write_fold [OF T tape1(1), of "\<lambda>column. bytes_of_words (writer_column w column)"]
      by (simp_all add: tape'_def flush_bytes_def tape1(2))
    have fw: "flush_writer T p s = s\<lparr>ss_tapes := (ss_tapes s)[p := tape'],
        ss_stats := (ss_stats s)\<lparr>st_blocks_written := st_blocks_written (ss_stats s) + 1,
          st_bytes_written := st_bytes_written (ss_stats s) + block_bytes ?n (sw_nrows w)\<rparr>,
        ss_writers := (ss_writers s)[p := Some ?w']\<rparr>"
      using False by (simp add: flush_writer_def Some tape'_def tape1_def tape_def Let_def)
    have "count_some ((ss_writers s)[p := Some ?w']) = count_some (ss_writers s)"
      using count_some_update [of p "ss_writers s" "Some ?w'"] p len Some by simp
    then have "spill_shape (flush_writer T p s)"
      using shape by (simp add: spill_shape_def fw)
    moreover have "spills_at phase written (flush_writer T p s) p rows"
      using flush_part_ok [OF T ok False tape'] p len by (simp add: spills_at_def fw)
    ultimately show ?thesis
      using p len Some by (simp add: fw same_config_def pending_def writer_rows_empty)
  qed
qed

lemma spills_at_cong:
  "same_config s s' \<Longrightarrow> ss_tapes s' ! q = ss_tapes s ! q \<Longrightarrow> ss_writers s' ! q = ss_writers s ! q \<Longrightarrow>
     ss_partition_rows s' = ss_partition_rows s \<Longrightarrow> spills_at phase written s' q rows = spills_at phase written s q rows"
  by (simp add: spills_at_def same_config_def)

lemma flush_writer_cases:
  assumes T: "tape_spec T phase written rest" and p: "p < ss_npartitions s" and inv: "spill_inv phase written s R"
  shows "spill_inv phase written (flush_writer T p s) R \<and> same_config s (flush_writer T p s) \<and>
    ss_active_writers (flush_writer T p s) = ss_active_writers s \<and>
    (\<forall>q < ss_npartitions s. q \<noteq> p \<longrightarrow> ss_writers (flush_writer T p s) ! q = ss_writers s ! q) \<and>
    (ss_writers (flush_writer T p s) ! p = None \<longleftrightarrow> ss_writers s ! p = None) \<and>
    pending (ss_ncolumns s) (ss_writers (flush_writer T p s) ! p) = []"
proof -
  have shape: "spill_shape s" and at: "\<And>q. q < ss_npartitions s \<Longrightarrow> spills_at phase written s q (R q)"
    using inv by (auto simp: spill_inv_def)
  note f = flush_writer_local [OF T p shape at [OF p]]
  moreover have "spills_at phase written (flush_writer T p s) q (R q)" if "q < ss_npartitions s" for q
  proof (cases "q = p")
    case False
    with f that at [OF that] show ?thesis using spills_at_cong [of s "flush_writer T p s" q] by metis
  qed (use f in simp)
  ultimately show ?thesis by (simp add: spill_inv_def same_config_def)
qed

lemma free_writer_local:
  assumes p: "p < ss_npartitions s" and shape: "spill_shape s"
  shows "spill_shape (free_writer p s) \<and> same_config s (free_writer p s) \<and>
    ss_active_writers (free_writer p s) = ss_active_writers s - (if ss_writers s ! p = None then 0 else 1) \<and>
    ss_partition_rows (free_writer p s) = ss_partition_rows s \<and> ss_tapes (free_writer p s) = ss_tapes s \<and>
    (\<forall>q < ss_npartitions s. ss_writers (free_writer p s) ! q = (if q = p then None else ss_writers s ! q))"
proof (cases "ss_writers s ! p = None")
  case True
  then show ?thesis using shape by (simp add: free_writer_def)
next
  case False
  note len = shape [unfolded spill_shape_def]
  have "count_some ((ss_writers s)[p := None]) + 1 = count_some (ss_writers s)"
    using count_some_update [of p "ss_writers s" None] False p len by simp
  then have "count_some (ss_writers s) - 1 = count_some ((ss_writers s)[p := None])"
    "count_some ((ss_writers s)[p := None]) \<le> ss_max_writers s"
    using len by linarith+
  then have "spill_shape (free_writer p s)"
    using len False by (simp add: spill_shape_def free_writer_def del: not_None_eq)
  then show ?thesis
    using False p len by (auto simp: free_writer_def same_config_def)
qed

lemma free_writer_inv:
  assumes p: "p < ss_npartitions s" and inv: "spill_inv phase written s R"
    and e: "pending (ss_ncolumns s) (ss_writers s ! p) = []"
  shows "spill_inv phase written (free_writer p s) R \<and> same_config s (free_writer p s) \<and>
    ss_active_writers (free_writer p s) = ss_active_writers s - (if ss_writers s ! p = None then 0 else 1) \<and>
    (\<forall>q < ss_npartitions s. ss_writers (free_writer p s) ! q = (if q = p then None else ss_writers s ! q))"
proof -
  have shape: "spill_shape s" and at: "\<And>q. q < ss_npartitions s \<Longrightarrow> spills_at phase written s q (R q)"
    using inv by (auto simp: spill_inv_def)
  note f = free_writer_local [OF p shape]
  moreover have "spills_at phase written (free_writer p s) q (R q)" if "q < ss_npartitions s" for q
    using at [OF that] at [OF p] e f that
    by (cases "q = p") (auto simp: spills_at_def part_ok_def pending_def same_config_def)
  ultimately show ?thesis by (simp add: spill_inv_def same_config_def)
qed

lemma spill_inv_cursor [simp]: "spill_inv phase written (s\<lparr>ss_eviction_cursor := k\<rparr>) R = spill_inv phase written s R"
  by (simp add: spill_inv_def spill_shape_def spills_at_def)

lemma cursor_covers:
  assumes "q < (n :: nat)"
  shows "\<exists>offset < n. (c + offset) mod n = q"
proof -
  have "(c + (q + n * c - c) mod n) mod n = (c + (q + n * c - c)) mod n"
    by (simp add: mod_add_right_eq)
  also have "c + (q + n * c - c) = q + n * c"
    using assms by (cases n) auto
  also have "(q + n * c) mod n = q" using assms by simp
  finally show ?thesis
    using assms by (metis mod_less_divisor bot_nat_0.not_eq_extremum less_nat_zero_code)
qed

lemma evict_writer_inv:
  assumes T: "tape_spec T phase written rest" and inv: "spill_inv phase written s R"
    and full: "ss_active_writers s = ss_max_writers s" and nf: "no_full s"
  shows "spill_inv phase written (evict_writer T s) R \<and> same_config s (evict_writer T s) \<and>
    ss_active_writers (evict_writer T s) + 1 = ss_max_writers s \<and> no_full (evict_writer T s) \<and>
    (\<forall>q < ss_npartitions s. ss_writers s ! q = None \<longrightarrow> ss_writers (evict_writer T s) ! q = None)"
proof -
  have shape: "spill_shape s" using inv by (simp add: spill_inv_def)
  note len = shape [unfolded spill_shape_def]
  let ?v = "\<lambda>offset. (ss_eviction_cursor s + offset) mod ss_npartitions s"
  let ?P = "\<lambda>offset. ss_writers s ! ?v offset \<noteq> None"
  obtain q where "q < ss_npartitions s" "ss_writers s ! q \<noteq> None"
    using count_some_exists [of "ss_writers s"] len full by auto
  then obtain o1 where "o1 < ss_npartitions s" "?P o1"
    using cursor_covers by metis
  then obtain offset where find: "List.find ?P [0..<ss_npartitions s] = Some offset"
    by (cases "List.find ?P [0..<ss_npartitions s]") (auto simp: find_None_iff)
  then have P: "?P offset" by (auto simp: find_Some_iff)
  define v where "v = ?v offset"
  have v: "v < ss_npartitions s" using len by (simp add: v_def)
  define s1 where "s1 = flush_writer T v s"
  note f = flush_writer_cases [OF T v inv, folded s1_def]
  have np: "ss_npartitions s1 = ss_npartitions s" "ss_ncolumns s1 = ss_ncolumns s"
    using f by (auto simp: same_config_def)
  have g: "spill_inv phase written (free_writer v s1) R" "same_config s1 (free_writer v s1)"
    "ss_active_writers (free_writer v s1) = ss_active_writers s1 - 1"
    "\<And>q. q < ss_npartitions s \<Longrightarrow> ss_writers (free_writer v s1) ! q = (if q = v then None else ss_writers s1 ! q)"
    using free_writer_inv [of v s1 phase written R] f v np P by (auto simp: v_def)
  have ev: "evict_writer T s = (free_writer v s1)\<lparr>ss_eviction_cursor := (v + 1) mod ss_npartitions s\<rparr>"
    by (simp only: evict_writer_def find option.case Let_def v_def s1_def)
  have "same_config s (free_writer v s1)" using f g(2) same_config_trans by blast
  moreover have "ss_active_writers (free_writer v s1) + 1 = ss_max_writers s"
    using g(3) f full len by simp
  moreover have "no_full (free_writer v s1)"
    using nf f g(4) calculation(1) by (auto simp: no_full_def same_config_def split: if_splits)
  ultimately show ?thesis
    using g(1,4) f by (simp add: ev no_full_def same_config_def)
qed

lemma get_writer_inv:
  assumes T: "tape_spec T phase written rest" and inv: "spill_inv phase written s R"
    and nf: "no_full s" and p: "p < ss_npartitions s"
  shows "spill_inv phase written (get_writer T p s) R \<and> same_config s (get_writer T p s) \<and>
    no_full (get_writer T p s) \<and> ss_writers (get_writer T p s) ! p \<noteq> None"
proof (cases "ss_writers s ! p = None")
  case False
  then show ?thesis using inv nf by (simp add: get_writer_def del: not_None_eq)
next
  case True
  define s1 where "s1 = (if ss_active_writers s = ss_max_writers s then evict_writer T s else s)"
  have s1: "spill_inv phase written s1 R" "same_config s s1" "no_full s1" "ss_writers s1 ! p = None"
    "ss_active_writers s1 < ss_max_writers s1"
    using evict_writer_inv [OF T inv _ nf] inv nf p True
    by (auto simp: s1_def same_config_def spill_inv_def spill_shape_def)
  have shape: "spill_shape s1" and at: "\<And>q. q < ss_npartitions s1 \<Longrightarrow> spills_at phase written s1 q (R q)"
    using s1(1) by (auto simp: spill_inv_def)
  note len = shape [unfolded spill_shape_def]
  have p1: "p < ss_npartitions s1" using p s1(2) by (simp add: same_config_def)
  let ?w = "new_writer (ss_ncolumns s1)"
  have gw: "get_writer T p s = s1\<lparr>ss_writers := (ss_writers s1)[p := Some ?w],
      ss_active_writers := ss_active_writers s1 + 1\<rparr>"
    using True by (simp add: get_writer_def s1_def Let_def)
  have "count_some ((ss_writers s1)[p := Some ?w]) = count_some (ss_writers s1) + 1"
    using count_some_update [of p "ss_writers s1" "Some ?w"] s1(4) p1 len by simp
  then have "spill_shape (get_writer T p s)"
    using shape s1(5) by (simp add: spill_shape_def gw)
  moreover have "spills_at phase written (get_writer T p s) q (R q)" if "q < ss_npartitions s1" for q
    using at [OF that] at [OF p1] s1(4) p1 len
    by (cases "q = p") (auto simp: spills_at_def gw part_ok_def pending_def writer_rows_empty new_writer_def
        writer_wf_new [unfolded new_writer_def])
  moreover have "no_full (get_writer T p s)"
    using s1(3) p1 len by (auto simp: no_full_def gw nth_list_update new_writer_def split: if_splits)
  ultimately show ?thesis
    using s1(2) p1 len by (simp add: spill_inv_def gw same_config_def)
qed

definition cell_row :: "nat \<Rightarrow> uint32 \<Rightarrow> (nat \<Rightarrow> int4 \<times> bool) \<Rightarrow> row" where
  "cell_row n h cell = (h, map (\<lambda>column. if snd (cell column) then Some (fst (cell column)) else None) [0..<n])"

lemma spill_row_inv:
  assumes T: "tape_spec T phase written rest" and inv: "spill_inv phase written s R"
    and nf: "no_full s" and p: "p < ss_npartitions s" and w: "ss_writers s ! p \<noteq> None"
  shows "spill_inv phase written (spill_row T p h cell s) (R(p := R p @ [cell_row (ss_ncolumns s) h cell])) \<and>
    same_config s (spill_row T p h cell s) \<and> no_full (spill_row T p h cell s) \<and>
    ss_writers (spill_row T p h cell s) ! p \<noteq> None"
proof -
  have shape: "spill_shape s" and at: "\<And>q. q < ss_npartitions s \<Longrightarrow> spills_at phase written s q (R q)"
    using inv by (auto simp: spill_inv_def)
  note len = shape [unfolded spill_shape_def]
  obtain v where v: "ss_writers s ! p = Some v" using w by auto
  let ?n = "ss_ncolumns s"
  define v' where "v' = put_row ?n h cell v"
  have v1: "writer_wf ?n v" "sw_nrows v < 64"
    using at [OF p] v nf p by (auto simp: spills_at_def part_ok_def no_full_def)
  note put = put_row [OF v1, of h cell, folded v'_def]
  define s1 where "s1 = s\<lparr>ss_writers := (ss_writers s)[p := Some v'],
    ss_partition_rows := (ss_partition_rows s)[p := ss_partition_rows s ! p + 1],
    ss_stats := (ss_stats s)\<lparr>st_rows_written := st_rows_written (ss_stats s) + 1\<rparr>\<rparr>"
  let ?R = "R(p := R p @ [cell_row ?n h cell])"
  have "count_some ((ss_writers s)[p := Some v']) = count_some (ss_writers s)"
    using count_some_update [of p "ss_writers s" "Some v'"] v p len by simp
  then have "spill_shape s1" using shape by (simp add: spill_shape_def s1_def)
  moreover have "spills_at phase written s1 q (?R q)" if "q < ss_npartitions s" for q
    using at [OF that] v put p len
    by (cases "q = p") (auto simp: spills_at_def s1_def part_ok_def pending_def cell_row_def)
  moreover have "ss_npartitions s1 = ss_npartitions s" by (simp add: s1_def)
  ultimately have inv1: "spill_inv phase written s1 ?R"
    unfolding spill_inv_def by (simp only:) blast
  have cfg: "same_config s s1" "ss_writers s1 ! p = Some v'"
    "\<And>q. q < ss_npartitions s \<Longrightarrow> q \<noteq> p \<Longrightarrow> ss_writers s1 ! q = ss_writers s ! q"
    using p len by (simp_all add: s1_def same_config_def)
  have row: "spill_row T p h cell s = (if sw_nrows v' = 64 then flush_writer T p s1 else s1)"
    by (simp add: spill_row_def v v'_def s1_def Let_def)
  show ?thesis
  proof (cases "sw_nrows v' = 64")
    case False
    then have "sw_nrows v' < 64" using put(3) v1(2) by simp
    then have "no_full s1" using nf by (metis (no_types, lifting) no_full_def cfg same_config_def option.inject)
    with False inv1 cfg show ?thesis by (simp add: row)
  next
    case True
    have p1: "p < ss_npartitions s1" using p by (simp add: s1_def)
    note f = flush_writer_cases [OF T p1 inv1]
    have "no_full (flush_writer T p s1)"
      unfolding no_full_def
    proof (intro allI impI)
      fix q w assume q: "q < ss_npartitions (flush_writer T p s1)" "ss_writers (flush_writer T p s1) ! q = Some w"
      show "sw_nrows w < 64"
      proof (cases "q = p")
        case True
        then have "writer_rows (ss_ncolumns s1) w = []" using f q by (simp add: pending_def)
        then show ?thesis using length_writer_rows [of "ss_ncolumns s1" w] by simp
      next
        case False
        then show ?thesis using f q cfg nf by (auto simp: no_full_def same_config_def)
      qed
    qed
    with True f cfg inv1 same_config_trans show ?thesis
      by (auto simp: row)
  qed
qed

section \<open>Sequences of rows\<close>

lemma spill_rows_inv:
  assumes T: "tape_spec T phase written rest"
  shows "spill_inv phase written s R \<Longrightarrow> no_full s \<Longrightarrow> p < ss_npartitions s \<Longrightarrow> ss_writers s ! p \<noteq> None \<Longrightarrow>
    spill_inv phase written (fold (\<lambda>row. spill_row T p (h row) (cell row)) rows s)
      (R(p := R p @ map (\<lambda>row. cell_row (ss_ncolumns s) (h row) (cell row)) rows)) \<and>
    same_config s (fold (\<lambda>row. spill_row T p (h row) (cell row)) rows s) \<and>
    no_full (fold (\<lambda>row. spill_row T p (h row) (cell row)) rows s)"
proof (induction rows arbitrary: s R)
  case Nil
  then show ?case by simp
next
  case (Cons row rows)
  let ?s = "spill_row T p (h row) (cell row) s"
  let ?R = "R(p := R p @ [cell_row (ss_ncolumns s) (h row) (cell row)])"
  note step = spill_row_inv [OF T Cons.prems, of "h row" "cell row"]
  then have n: "ss_ncolumns ?s = ss_ncolumns s" "p < ss_npartitions ?s"
    using Cons.prems(3) by (auto simp: same_config_def)
  have IH: "spill_inv phase written (fold (\<lambda>row. spill_row T p (h row) (cell row)) rows ?s)
      (?R(p := ?R p @ map (\<lambda>row. cell_row (ss_ncolumns ?s) (h row) (cell row)) rows)) \<and>
    same_config ?s (fold (\<lambda>row. spill_row T p (h row) (cell row)) rows ?s) \<and>
    no_full (fold (\<lambda>row. spill_row T p (h row) (cell row)) rows ?s)"
    using Cons.IH [of ?s ?R] step n(2) by blast
  then show ?case
    using step same_config_trans [of s ?s] by (simp add: n fun_upd_def [symmetric])
qed

lemma spill_put_rows:
  assumes T: "tape_spec T phase written rest" and "spill_inv phase written s R" "no_full s" "p < ss_npartitions s"
  shows "spill_inv phase written (fold (\<lambda>row. spill_row T p (h row) (cell row)) rows (get_writer T p s))
      (R(p := R p @ map (\<lambda>row. cell_row (ss_ncolumns s) (h row) (cell row)) rows)) \<and>
    same_config s (fold (\<lambda>row. spill_row T p (h row) (cell row)) rows (get_writer T p s)) \<and>
    no_full (fold (\<lambda>row. spill_row T p (h row) (cell row)) rows (get_writer T p s))"
proof -
  note g = get_writer_inv [OF assms]
  then have "ss_ncolumns (get_writer T p s) = ss_ncolumns s" "p < ss_npartitions (get_writer T p s)"
    using assms(4) by (auto simp: same_config_def)
  then show ?thesis
    using spill_rows_inv [OF T, of "get_writer T p s" R p h cell rows] g
      same_config_trans [of s "get_writer T p s"] by simp
qed

text \<open>The two write operations as requests, and the rows each one stands for.\<close>

datatype spill_request =
    Spill_write int "int4_vector list option" "selection option" "uint32 list option"
  | Spill_write_dense int int "uint32 list option" "int4 list option" int "uint64 list option"

fun spill_request_run :: "'t tape_ops \<Rightarrow> spill_request \<Rightarrow> 't spill_set \<Rightarrow> 't spill_set result" where
  "spill_request_run T (Spill_write part columns selection hashes) s = spill_write T part columns selection hashes s"
| "spill_request_run T (Spill_write_dense part nrows hashes values stride validity) s =
     spill_write_dense T part nrows hashes values stride validity s"

fun request_rows :: "nat \<Rightarrow> nat \<Rightarrow> spill_request \<Rightarrow> row list" where
  "request_rows n p (Spill_write part columns selection hashes) =
     (if part = int p then
        map (\<lambda>row. (the hashes ! row,
              map (\<lambda>column. if int4_row_is_null (the columns ! column) row then None
                   else Some (int4_row_value (the columns ! column) row)) [0..<n]))
          (filter (bit (sel_words (the selection) ! 0)) [0..<nat (sel_nrows (the selection))])
      else [])"
| "request_rows n p (Spill_write_dense part nrows hashes values stride validity) =
     (if part = int p then
        map (\<lambda>row. (the hashes ! row,
              map (\<lambda>column. if bit (the validity ! column) row
                   then Some (the values ! (column * nat stride + row)) else None) [0..<n]))
          [0..<nat nrows]
      else [])"

lemma word_rows_below:
  assumes "0 \<le> k" "k \<le> 64"
  shows "word_rows (w AND (if k = 64 then - 1 else push_bit (nat k) 1 - 1)) = filter (bit w) [0..<nat k]"
proof (rule strict_sorted_unique)
  have "push_bit (nat k) 1 - 1 = (mask (nat k) :: uint64)"
    by (simp add: mask_eq_exp_minus_1 push_bit_eq_mult)
  then show "set (word_rows (w AND (if k = 64 then - 1 else push_bit (nat k) 1 - 1))) =
      set (filter (bit w) [0..<nat k])"
    using assms by (auto simp: bit_simps dest: word64_bit_lt)
  show "sorted_wrt (<) (filter (bit w) [0..<nat k])"
    by (simp add: sorted_wrt_filter)
qed (use sorted_word_rows in blast)

lemma spill_write_inv:
  assumes T: "tape_spec T phase written rest" and inv: "spill_inv phase written s R" "no_full s"
    and run: "spill_request_run T req s = Inr s'"
  shows "spill_inv phase written s' (\<lambda>p. R p @ request_rows (ss_ncolumns s) p req) \<and>
    same_config s s' \<and> no_full s'"
proof (cases req)
  case req: (Spill_write part columns selection hashes)
  then obtain cs sel hs where c: "columns = Some cs" "selection = Some sel" "hashes = Some hs"
    and g: "0 \<le> part" "nat part < ss_npartitions s" "0 \<le> sel_nrows sel" "sel_nrows sel \<le> 64"
    using run by (auto simp: spill_write_def validate_partition_def rbind_Inr_iff Let_def
        split: option.splits if_splits)
  let ?rows = "word_rows ((sel_words sel ! 0) AND
    (if sel_nrows sel = 64 then - 1 else push_bit (nat (sel_nrows sel)) 1 - 1))"
  note rows = word_rows_below [OF g(3,4), of "sel_words sel ! 0"]
  let ?cell = "\<lambda>row column.
    let isnull = int4_row_is_null (cs ! column) row
    in (if isnull then 0 else int4_row_value (cs ! column) row, \<not> isnull)"
  have new: "request_rows (ss_ncolumns s) p req =
      (if p = nat part then map (\<lambda>row. cell_row (ss_ncolumns s) (hs ! row) (?cell row)) ?rows else [])" for p
    using g(1) by (auto simp: req c rows cell_row_def Let_def)
  show ?thesis
  proof (cases "?rows = []")
    case True
    then have "s' = s"
      using run g by (simp add: req c spill_write_def validate_partition_def rbind_require Let_def split: if_splits)
    moreover have "request_rows (ss_ncolumns s) p req = []" for p
      unfolding new True by simp
    ultimately show ?thesis using inv by simp
  next
    case False
    then have "s' = fold (\<lambda>row. spill_row T (nat part) (hs ! row) (?cell row)) ?rows (get_writer T (nat part) s)"
      using run g by (simp add: req c spill_write_def validate_partition_def rbind_require Let_def split: if_splits)
    moreover have "(\<lambda>p. R p @ request_rows (ss_ncolumns s) p req) = R(nat part := R (nat part) @
        map (\<lambda>row. cell_row (ss_ncolumns s) (hs ! row) (?cell row)) ?rows)"
      by (auto simp: new fun_eq_iff)
    ultimately show ?thesis
      using spill_put_rows [OF T inv g(2), of "\<lambda>row. hs ! row" ?cell ?rows] by simp
  qed
next
  case req: (Spill_write_dense part nrows hashes vals stride validity)
  then obtain hs vs ms where c: "hashes = Some hs" "vals = Some vs" "validity = Some ms"
    and g: "0 \<le> part" "nat part < ss_npartitions s"
    using run by (auto simp: spill_write_dense_def validate_partition_def rbind_Inr_iff
        split: option.splits if_splits)
  let ?cell = "\<lambda>row column. (vs ! (column * nat stride + row), bit (ms ! column) row)"
  have "(\<lambda>p. R p @ request_rows (ss_ncolumns s) p req) = R(nat part := R (nat part) @
      map (\<lambda>row. cell_row (ss_ncolumns s) (hs ! row) (?cell row)) [0..<nat nrows])"
    using g(1) by (auto simp: req c cell_row_def fun_eq_iff)
  moreover have "s' = fold (\<lambda>row. spill_row T (nat part) (hs ! row) (?cell row)) [0..<nat nrows]
      (get_writer T (nat part) s)"
    using run g by (simp add: req c spill_write_dense_def validate_partition_def rbind_require split: if_splits)
  ultimately show ?thesis
    using spill_put_rows [OF T inv g(2), of "\<lambda>row. hs ! row" ?cell "[0..<nat nrows]"] by simp
qed

lemma spill_requests_inv:
  assumes T: "tape_spec T phase written rest"
  shows "spill_inv phase written s R \<Longrightarrow> no_full s \<Longrightarrow> rfold (spill_request_run T) reqs s = Inr s' \<Longrightarrow>
    spill_inv phase written s' (\<lambda>p. R p @ concat (map (request_rows (ss_ncolumns s) p) reqs)) \<and>
    same_config s s' \<and> no_full s'"
proof (induction reqs arbitrary: s R)
  case (Cons req reqs)
  then obtain s1 where s1: "spill_request_run T req s = Inr s1" "rfold (spill_request_run T) reqs s1 = Inr s'"
    by (auto simp: rbind_Inr_iff)
  note step = spill_write_inv [OF T Cons.prems(1,2) s1(1)]
  then have "ss_ncolumns s1 = ss_ncolumns s" by (simp add: same_config_def)
  then show ?case
    using Cons.IH [OF _ _ s1(2), of "\<lambda>p. R p @ request_rows (ss_ncolumns s) p req"] step same_config_trans [of s s1 s']
    by (simp add: append_assoc)
qed simp

lemma spill_create_inv:
  assumes T: "tape_spec T phase written rest"
    and c: "spill_create T ctx desc ncolumns npartitions limit = Inr s" and "ncolumns < 65536"
  shows "spill_inv phase written s (\<lambda>_. []) \<and> no_full s \<and> ss_ncolumns s = nat ncolumns \<and>
    ss_npartitions s = nat npartitions \<and>
    ss_max_writers s = min (nat npartitions) (max 1 (limit div writer_bytes (nat ncolumns))) \<and>
    0 < ncolumns \<and> 0 < npartitions"
proof -
  have s: "s = \<lparr>ss_ncolumns = nat ncolumns, ss_npartitions = nat npartitions,
      ss_tapes = replicate (nat npartitions) (tape_create T),
      ss_writers = replicate (nat npartitions) None,
      ss_partition_rows = replicate (nat npartitions) 0, ss_active_writers = 0,
      ss_max_writers = min (nat npartitions) (max 1 (limit div writer_bytes (nat ncolumns))),
      ss_eviction_cursor = 0, ss_finished = False, ss_frozen = False,
      ss_stats = \<lparr>st_rows_written = 0, st_blocks_written = 0, st_bytes_written = 0,
        st_rows_read = 0, st_blocks_read = 0, st_bytes_read = 0\<rparr>\<rparr>"
    and g: "0 < ncolumns" "0 < npartitions"
    using c by (auto simp: spill_create_def rbind_Inr_iff split: option.splits if_splits)
  show ?thesis
    using g assms(3) tape_spec_create [OF T] nat_less_iff [of ncolumns 65536] nat_le_iff
    by (simp add: s spill_inv_def spill_shape_def spills_at_def no_full_def part_ok_def pending_def
        count_some_def Suc_le_eq)
qed

section \<open>Finishing\<close>

text \<open>A finished partition: its tape is at the start of its blocks.\<close>

definition finished_at ::
  "('t \<Rightarrow> tape_phase) \<Rightarrow> ('t \<Rightarrow> byte list) \<Rightarrow> ('t \<Rightarrow> byte list) \<Rightarrow> bool \<Rightarrow> 't spill_set \<Rightarrow> nat \<Rightarrow> row list \<Rightarrow> bool" where
  "finished_at phase written rest frozen s p rows \<longleftrightarrow>
     ss_partition_rows s ! p = length rows \<and>
     (rows \<noteq> [] \<longrightarrow> on_tape (ss_ncolumns s) (rest (ss_tapes s ! p)) rows \<and>
        (if frozen then phase (ss_tapes s ! p) = Frozen \<and> written (ss_tapes s ! p) = rest (ss_tapes s ! p)
         else phase (ss_tapes s ! p) = Reading))"

lemma finished_at_cong:
  "same_config s s' \<Longrightarrow> ss_tapes s' ! q = ss_tapes s ! q \<Longrightarrow> ss_partition_rows s' = ss_partition_rows s \<Longrightarrow>
     finished_at phase written rest frozen s' q rows = finished_at phase written rest frozen s q rows"
  by (simp add: finished_at_def same_config_def)

lemma finish_partition_local:
  assumes T: "tape_spec T phase written rest" and p: "p < ss_npartitions s"
    and shape: "spill_shape s" and at: "spills_at phase written s p rows"
  shows "spill_shape (finish_partition T frozen p s) \<and> same_config s (finish_partition T frozen p s) \<and>
    finished_at phase written rest frozen (finish_partition T frozen p s) p rows \<and>
    ss_partition_rows (finish_partition T frozen p s) = ss_partition_rows s \<and>
    (\<forall>q < ss_npartitions s. q \<noteq> p \<longrightarrow> ss_writers (finish_partition T frozen p s) ! q = ss_writers s ! q \<and>
       ss_tapes (finish_partition T frozen p s) ! q = ss_tapes s ! q)"
proof -
  define s1 where "s1 = flush_writer T p s"
  define tape where "tape = (if frozen then tape_freeze T (ss_tapes s1 ! p) else tape_rewind T (ss_tapes s1 ! p))"
  define s2 where "s2 = (if ss_partition_rows s1 ! p \<noteq> 0 then s1\<lparr>ss_tapes := (ss_tapes s1)[p := tape]\<rparr> else s1)"
  have fp: "finish_partition T frozen p s = free_writer p s2"
    by (simp add: finish_partition_def s2_def s1_def tape_def Let_def)
  note f = flush_writer_local [OF T p shape at, folded s1_def]
  then have cfg: "ss_npartitions s1 = ss_npartitions s" "ss_ncolumns s1 = ss_ncolumns s"
    by (auto simp: same_config_def)
  have len: "length (ss_tapes s1) = ss_npartitions s" using f cfg by (simp add: spill_shape_def)
  have on: "phase (ss_tapes s1 ! p) = Writing" "on_tape (ss_ncolumns s) (written (ss_tapes s1 ! p)) rows"
    "ss_partition_rows s1 ! p = length rows"
    using f cfg by (auto simp: spills_at_def part_ok_def)
  have s2: "spill_shape s2" "same_config s1 s2" "ss_partition_rows s2 = ss_partition_rows s1"
    "ss_writers s2 = ss_writers s1" "p < ss_npartitions s2"
    "\<And>q. q \<noteq> p \<Longrightarrow> ss_tapes s2 ! q = ss_tapes s1 ! q"
    using f cfg p by (auto simp: s2_def spill_shape_def same_config_def)
  have fin: "finished_at phase written rest frozen s2 p rows"
    using tape_spec_finish [OF T on(1)] on p len cfg
    by (auto simp: finished_at_def s2_def tape_def)
  note g = free_writer_local [OF s2(5,1)]
  have "finished_at phase written rest frozen (free_writer p s2) p rows"
    using fin g by (simp add: finished_at_def same_config_def)
  moreover have "same_config s (free_writer p s2)"
    using f s2(2) g same_config_trans by blast
  ultimately show ?thesis
    using g f s2 cfg by (simp add: fp same_config_def)
qed

lemma finish_partitions:
  assumes T: "tape_spec T phase written rest" and inv: "spill_inv phase written s R" and "k \<le> ss_npartitions s"
  shows "spill_shape (fold (finish_partition T frozen) [0..<k] s) \<and>
    same_config s (fold (finish_partition T frozen) [0..<k] s) \<and>
    (\<forall>p < k. finished_at phase written rest frozen (fold (finish_partition T frozen) [0..<k] s) p (R p)) \<and>
    (\<forall>p < ss_npartitions s. k \<le> p \<longrightarrow> spills_at phase written (fold (finish_partition T frozen) [0..<k] s) p (R p))"
  using assms(3)
proof (induction k)
  case 0
  then show ?case using inv by (simp add: spill_inv_def)
next
  case (Suc k)
  let ?s = "fold (finish_partition T frozen) [0..<k] s"
  have IH: "spill_shape ?s" "same_config s ?s"
    "\<And>p. p < k \<Longrightarrow> finished_at phase written rest frozen ?s p (R p)"
    "\<And>p. p < ss_npartitions s \<Longrightarrow> k \<le> p \<Longrightarrow> spills_at phase written ?s p (R p)"
    using Suc by auto
  have k: "k < ss_npartitions ?s" "k < ss_npartitions s"
    using Suc.prems IH(2) by (auto simp: same_config_def)
  note f = finish_partition_local [OF T k(1) IH(1) IH(4) [OF k(2) order_refl], of frozen]
  let ?s' = "finish_partition T frozen k ?s"
  have np: "ss_npartitions ?s = ss_npartitions s" using IH(2) by (simp add: same_config_def)
  have frame: "ss_tapes ?s' ! q = ss_tapes ?s ! q" "ss_writers ?s' ! q = ss_writers ?s ! q"
    if "q < ss_npartitions s" "q \<noteq> k" for q
    using f that np by simp_all
  have "finished_at phase written rest frozen ?s' p (R p)" if "p < Suc k" for p
  proof (cases "p = k")
    case False
    then have p: "p < k" "p < ss_npartitions s" using that k by auto
    show ?thesis
      using finished_at_cong [of ?s ?s' p] f frame(1) [OF p(2) False] IH(3) [OF p(1)] by blast
  qed (use f in simp)
  moreover have "spills_at phase written ?s' p (R p)" if "p < ss_npartitions s" "Suc k \<le> p" for p
  proof -
    have p: "p \<noteq> k" "k \<le> p" using that by auto
    show ?thesis
      using spills_at_cong [of ?s ?s' p] f frame [OF that(1) p(1)] IH(4) [OF that(1) p(2)] by blast
  qed
  moreover have "same_config s ?s'" using same_config_trans [OF IH(2)] f by blast
  ultimately show ?case using f by simp
qed

definition spill_ready ::
  "('t \<Rightarrow> tape_phase) \<Rightarrow> ('t \<Rightarrow> byte list) \<Rightarrow> ('t \<Rightarrow> byte list) \<Rightarrow> 't spill_set \<Rightarrow> (nat \<Rightarrow> row list) \<Rightarrow> bool" where
  "spill_ready phase written rest s R \<longleftrightarrow> ss_finished s \<and> length (ss_tapes s) = ss_npartitions s \<and>
     ss_ncolumns s < 65536 \<and>
     (\<forall>p < ss_npartitions s. finished_at phase written rest (ss_frozen s) s p (R p))"

lemma spill_finish_ready:
  assumes "tape_spec T phase written rest" "spill_inv phase written s R" "spill_finish T frozen s = Inr s'"
  shows "spill_ready phase written rest s' R \<and> ss_frozen s' = frozen \<and>
    ss_ncolumns s' = ss_ncolumns s \<and> ss_npartitions s' = ss_npartitions s"
proof -
  have "s' = (fold (finish_partition T frozen) [0..<ss_npartitions s] s)\<lparr>ss_finished := True, ss_frozen := frozen\<rparr>"
    using assms(3) by (auto simp: spill_finish_def split: if_splits)
  then show ?thesis
    using finish_partitions [OF assms(1,2) order_refl, of frozen]
    by (auto simp: spill_ready_def finished_at_def same_config_def spill_shape_def)
qed

end
