(* ===== verification/Spill_Read.thy ===== *)
theory Spill_Read
  imports Spill_Props
begin

text \<open>
  Reading a spill set back: decoding of blocks, the loop that reads a partition to its
  end, the round trip through the tapes, and the checks on damaged blocks.
\<close>

section \<open>Decoding a block\<close>

definition reader_ok :: "nat \<Rightarrow> spill_reader \<Rightarrow> bool" where
  "reader_ok n r \<longleftrightarrow> length (rd_hashes r) = 64 \<and> length (rd_values r) = n * 64 \<and> length (rd_validity r) = 8 * n"

lemma bytes32_neq_Nil [simp]: "bytes32 w \<noteq> []"
  using length_bytes32 [of w] by force

lemma length_write_at: "k + length xs \<le> length ys \<Longrightarrow> length (write_at k xs ys) = length ys"
  by (simp add: write_at_def)

lemma nth_write_at:
  "k + length xs \<le> length ys \<Longrightarrow> i < length ys \<Longrightarrow>
     write_at k xs ys ! i = (if k \<le> i \<and> i < k + length xs then xs ! (i - k) else ys ! i)"
  by (auto simp: write_at_def nth_append)

lemma length_writer_column:
  "writer_wf n w \<Longrightarrow> column < n \<Longrightarrow> length (writer_column w column) = sw_nrows w"
proof -
  assume a: "writer_wf n w" "column < n"
  have "column * 64 + 63 < n * 64" using value_index_less [OF a(2), of 63] by simp
  with a(1) have "sw_nrows w \<le> length (sw_values w) - column * 64"
    unfolding writer_wf_def by linarith
  then show ?thesis by (simp add: writer_column_def)
qed

lemma nth_writer_column:
  assumes "writer_wf n w" "column < n" "i < sw_nrows w"
  shows "writer_column w column ! i = cell_value (sw_values w) column i"
proof -
  have "column * 64 \<le> length (sw_values w)"
    using assms(1) mult_le_mono1 [of column n 64] assms(2) by (simp add: writer_wf_def)
  then show ?thesis using assms(3) by (simp add: writer_column_def cell_value_def)
qed

lemma read_exact_ok:
  assumes T: "tape_spec T phase written rest" and t: "phase t \<noteq> Writing"
    and r: "rest t = bs @ left" "length bs = n"
  shows "\<exists>t'. read_exact T n t = Inr (bs, t') \<and> rest t' = left \<and> phase t' = phase t \<and>
    (phase t = Frozen \<longrightarrow> written t' = written t)"
proof -
  obtain bs' t' where read: "tape_read T n t = (bs', t')" by (metis surj_pair)
  show ?thesis
    using tape_spec_read [OF T t read] r read by (auto simp: read_exact_def)
qed

lemma read_columns:
  assumes T: "tape_spec T phase written rest" and w: "writer_wf n w"
  shows "k \<le> n \<Longrightarrow> phase t \<noteq> Writing \<Longrightarrow> length vs = n * 64 \<Longrightarrow>
    rest t = concat (map (\<lambda>column. bytes_of_words (writer_column w column)) [0..<k]) @ left \<Longrightarrow>
    \<exists>vs' t'. rfold (read_column T (sw_nrows w)) [0..<k] (vs, t) = Inr (vs', t') \<and>
      rest t' = left \<and> phase t' = phase t \<and> (phase t = Frozen \<longrightarrow> written t' = written t) \<and>
      length vs' = n * 64 \<and>
      (\<forall>column < k. \<forall>i < sw_nrows w. cell_value vs' column i = cell_value (sw_values w) column i)"
proof (induction k arbitrary: left)
  case 0
  then show ?case by auto
next
  case (Suc k)
  have k: "k < n" using Suc.prems(1) by simp
  have n: "sw_nrows w \<le> 64" using w by (simp add: writer_wf_def)
  obtain vs1 t1 where IH: "rfold (read_column T (sw_nrows w)) [0..<k] (vs, t) = Inr (vs1, t1)"
    "rest t1 = bytes_of_words (writer_column w k) @ left" "phase t1 = phase t"
    "phase t = Frozen \<longrightarrow> written t1 = written t" "length vs1 = n * 64"
    "\<forall>column < k. \<forall>i < sw_nrows w. cell_value vs1 column i = cell_value (sw_values w) column i"
    using Suc.IH [of "bytes_of_words (writer_column w k) @ left"] Suc.prems by auto
  have len: "length (writer_column w k) = sw_nrows w" by (rule length_writer_column [OF w k])
  obtain t2 where t2: "read_exact T (4 * sw_nrows w) t1 = Inr (bytes_of_words (writer_column w k), t2)"
    "rest t2 = left" "phase t2 = phase t" "phase t = Frozen \<longrightarrow> written t2 = written t"
    using read_exact_ok [OF T _ IH(2)] Suc.prems(2) IH(3,4) len by auto
  let ?vs = "write_at (k * 64) (writer_column w k) vs1"
  have fit: "k * 64 + length (writer_column w k) \<le> length vs1"
    using value_index_less [OF k, of 63] n by (simp add: IH(5) len)
  have "rfold (read_column T (sw_nrows w)) [0..<Suc k] (vs, t) = Inr (?vs, t2)"
    by (simp add: rfold_append IH(1) read_column_def t2(1))
  moreover have "cell_value ?vs column i = cell_value (sw_values w) column i"
    if "column < Suc k" "i < sw_nrows w" for column i
  proof -
    have i: "i < 64" "column < n" using that n k by auto
    have idx: "column * 64 + i < length vs1" using value_index_less [OF i(2,1)] by (simp add: IH(5))
    show ?thesis
    proof (cases "column = k")
      case True
      then show ?thesis
        using nth_writer_column [OF w k that(2)] that(2)
        by (simp add: cell_value_def nth_write_at [OF fit] idx [unfolded True] len)
    next
      case False
      then have "column * 64 + i < k * 64" using value_index_less [of column k i] that i by simp
      then show ?thesis
        using IH(6) that False by (simp add: cell_value_def nth_write_at [OF fit idx])
    qed
  qed
  ultimately show ?case
    using t2 by (auto simp: length_write_at [OF fit] IH(5))
qed

definition other_tapes :: "nat \<Rightarrow> 't spill_set \<Rightarrow> 't spill_set \<Rightarrow> bool" where
  "other_tapes p s s' \<longleftrightarrow> same_config s s' \<and> ss_partition_rows s' = ss_partition_rows s \<and>
     length (ss_tapes s') = length (ss_tapes s) \<and> (\<forall>q. q \<noteq> p \<longrightarrow> ss_tapes s' ! q = ss_tapes s ! q)"

lemma other_tapes_refl [simp]: "other_tapes p s s"
  by (simp add: other_tapes_def)

lemma other_tapes_trans: "other_tapes p s t \<Longrightarrow> other_tapes p t u \<Longrightarrow> other_tapes p s u"
  by (simp add: other_tapes_def same_config_def)

lemma word16_small: "k < 65536 \<Longrightarrow> unat (of_nat k :: 16 word) = k"
  by (simp add: unat_of_nat)

lemma reader_next_block:
  assumes T: "tape_spec T phase written rest" and w: "writer_wf n w" "sw_nrows w \<noteq> 0"
    and r: "reader_ok n r" "\<not> rd_eof r" "rd_partition r = p" "p < length (ss_tapes s)"
    and n: "ss_ncolumns s = n" "n < 65536"
    and t: "phase (ss_tapes s ! p) \<noteq> Writing" "rest (ss_tapes s ! p) = flush_bytes n w @ left"
  shows "\<exists>b r' s'. spill_reader_next T r s = Inr (Some b, r', s') \<and> block_rows b = writer_rows n w \<and>
    reader_ok n r' \<and> \<not> rd_eof r' \<and> rd_partition r' = p \<and> other_tapes p s s' \<and>
    rest (ss_tapes s' ! p) = left \<and> phase (ss_tapes s' ! p) = phase (ss_tapes s ! p) \<and>
    (phase (ss_tapes s ! p) = Frozen \<longrightarrow> written (ss_tapes s' ! p) = written (ss_tapes s ! p))"
proof -
  let ?t = "ss_tapes s ! p" and ?k = "sw_nrows w"
  let ?h = "bytes32 SPILL_MAGIC @ bytes16 (of_nat ?k) @ bytes16 (of_nat n)"
  have k: "?k \<le> 64" "length (sw_hashes w) = 64" "length (sw_validity w) = 8 * n"
    using w(1) by (auto simp: writer_wf_def)
  obtain hdr t1 where read: "tape_read T 8 ?t = (hdr, t1)" by (metis surj_pair)
  note h = tape_spec_read [OF T t(1) read]
  have hdr: "hdr = ?h" using h t(2) by (simp add: flush_bytes_def spill_header_def)
  let ?hs = "bytes_of_words (take ?k (sw_hashes w))"
  let ?cs = "concat (map (\<lambda>column. bytes_of_words (writer_column w column)) [0..<n])"
  have r1: "rest t1 = ?hs @ sw_validity w @ ?cs @ left" "phase t1 = phase ?t"
    "phase ?t = Frozen \<longrightarrow> written t1 = written ?t"
    using h t(2) k by (auto simp: flush_bytes_def spill_header_def)
  obtain t2 where t2: "read_exact T (4 * ?k) t1 = Inr (?hs, t2)" "rest t2 = sw_validity w @ ?cs @ left"
    "phase t2 = phase ?t" "phase ?t = Frozen \<longrightarrow> written t2 = written ?t"
    using read_exact_ok [OF T _ r1(1), of "4 * ?k"] r1 t(1) k by auto
  obtain t3 where t3: "read_exact T (8 * n) t2 = Inr (sw_validity w, t3)" "rest t3 = ?cs @ left"
    "phase t3 = phase ?t" "phase ?t = Frozen \<longrightarrow> written t3 = written ?t"
    using read_exact_ok [OF T _ t2(2), of "8 * n"] t2 t(1) k by auto
  obtain vs t4 where t4: "rfold (read_column T ?k) [0..<n] (rd_values r, t3) = Inr (vs, t4)"
    "rest t4 = left" "phase t4 = phase ?t" "phase ?t = Frozen \<longrightarrow> written t4 = written ?t"
    "length vs = n * 64"
    "\<forall>column < n. \<forall>i < ?k. cell_value vs column i = cell_value (sw_values w) column i"
    using read_columns [OF T w(1) order_refl, of t3 "rd_values r" left] t3 r(1) t(1)
    by (auto simp: reader_ok_def)
  define hashes where "hashes = write_at 0 (take ?k (sw_hashes w)) (rd_hashes r)"
  define b where "b = \<lparr>sb_nrows = ?k, sb_ncolumns = n,
    sb_selection = (if ?k = 64 then - 1 else push_bit ?k 1 - 1),
    sb_hashes = hashes, sb_values = vs, sb_validity = sw_validity w\<rparr>"
  define r' where "r' = r\<lparr>rd_hashes := hashes, rd_validity := sw_validity w, rd_values := vs\<rparr>"
  define s' where "s' = s\<lparr>ss_tapes := (ss_tapes s)[p := t4],
    ss_stats := (ss_stats s)\<lparr>st_rows_read := st_rows_read (ss_stats s) + ?k,
      st_blocks_read := st_blocks_read (ss_stats s) + 1,
      st_bytes_read := st_bytes_read (ss_stats s) + block_bytes n ?k\<rparr>\<rparr>"
  have small: "unat (of_nat ?k :: 16 word) = ?k" "unat (of_nat n :: 16 word) = n"
    using k n(2) by (simp_all add: word16_small)
  have "spill_reader_next T r s = Inr (Some b, r', s')"
    using r(2) w(2) k(1)
    by (simp add: spill_reader_next_def r(3) read hdr small n(1) t2(1) t3(1) t4(1) Let_def
        b_def r'_def s'_def hashes_def)
  moreover have fit: "0 + length (take ?k (sw_hashes w)) \<le> length (rd_hashes r)"
    using k r(1) by (simp add: reader_ok_def)
  have "block_rows b = writer_rows n w"
    using t4(6) k r(1)
    by (auto simp: block_rows_def writer_rows_def b_def buf_row_def hashes_def nth_write_at [OF fit] reader_ok_def)
  moreover have "reader_ok n r'"
    using r(1) t4(5) k(3) by (simp add: reader_ok_def r'_def hashes_def length_write_at [OF fit])
  ultimately show ?thesis
    using r(2,3,4) t4 by (auto simp: r'_def s'_def other_tapes_def same_config_def)
qed

lemma reader_next_end:
  assumes T: "tape_spec T phase written rest" and r: "rd_partition r = p" "p < length (ss_tapes s)" "\<not> rd_eof r"
    and t: "phase (ss_tapes s ! p) \<noteq> Writing" "rest (ss_tapes s ! p) = []"
  shows "\<exists>s'. spill_reader_next T r s = Inr (None, r\<lparr>rd_eof := True\<rparr>, s') \<and> other_tapes p s s' \<and>
    rest (ss_tapes s' ! p) = [] \<and> phase (ss_tapes s' ! p) = phase (ss_tapes s ! p) \<and>
    (phase (ss_tapes s ! p) = Frozen \<longrightarrow> written (ss_tapes s' ! p) = written (ss_tapes s ! p))"
proof -
  obtain hdr t1 where read: "tape_read T 8 (ss_tapes s ! p) = (hdr, t1)" by (metis surj_pair)
  note h = tape_spec_read [OF T t(1) read]
  have "spill_reader_next T r s = Inr (None, r\<lparr>rd_eof := True\<rparr>, s\<lparr>ss_tapes := (ss_tapes s)[p := t1]\<rparr>)"
    using h t(2) r by (simp add: spill_reader_next_def read)
  then show ?thesis using h t r by (simp add: other_tapes_def same_config_def)
qed

section \<open>Reading a partition to its end\<close>

text \<open>
  The loop of every caller, \<open>while (pg_batch_spill_reader_next(reader, &block))\<close>.  Fuel
  bounds the number of blocks.
\<close>

fun spill_read_all ::
  "'t tape_ops \<Rightarrow> nat \<Rightarrow> spill_reader \<Rightarrow> 't spill_set \<Rightarrow> (spill_block list \<times> spill_reader \<times> 't spill_set) option result" where
  "spill_read_all T 0 r s = Inr None"
| "spill_read_all T (Suc fuel) r s =
     rbind (spill_reader_next T r s) (\<lambda>(b, r, s).
     case b of
       None \<Rightarrow> Inr (Some ([], r, s))
     | Some b \<Rightarrow> rbind (spill_read_all T fuel r s) (\<lambda>res.
         Inr (map_option (\<lambda>(bs, r, s). (b # bs, r, s)) res)))"

lemma spill_read_all_blocks:
  assumes T: "tape_spec T phase written rest"
  shows "\<forall>w \<in> set ws. writer_wf n w \<and> sw_nrows w \<noteq> 0 \<Longrightarrow> reader_ok n r \<Longrightarrow> \<not> rd_eof r \<Longrightarrow>
    rd_partition r = p \<Longrightarrow> p < length (ss_tapes s) \<Longrightarrow> ss_ncolumns s = n \<Longrightarrow> n < 65536 \<Longrightarrow>
    phase (ss_tapes s ! p) \<noteq> Writing \<Longrightarrow> rest (ss_tapes s ! p) = concat (map (flush_bytes n) ws) \<Longrightarrow>
    length ws < fuel \<Longrightarrow>
    \<exists>bs r' s'. spill_read_all T fuel r s = Inr (Some (bs, r', s')) \<and>
      concat (map block_rows bs) = concat (map (writer_rows n) ws) \<and>
      reader_ok n r' \<and> rd_partition r' = p \<and> rd_eof r' \<and> other_tapes p s s' \<and> phase (ss_tapes s' ! p) = phase (ss_tapes s ! p) \<and>
      (phase (ss_tapes s ! p) = Frozen \<longrightarrow> written (ss_tapes s' ! p) = written (ss_tapes s ! p))"
proof (induction ws arbitrary: fuel r s)
  case Nil
  then obtain fuel' where f: "fuel = Suc fuel'" by (cases fuel) auto
  obtain s' where s': "spill_reader_next T r s = Inr (None, r\<lparr>rd_eof := True\<rparr>, s')" "other_tapes p s s'"
    "phase (ss_tapes s' ! p) = phase (ss_tapes s ! p)"
    "phase (ss_tapes s ! p) = Frozen \<longrightarrow> written (ss_tapes s' ! p) = written (ss_tapes s ! p)"
    using reader_next_end [OF T Nil.prems(4,5,3,8)] Nil.prems(9) by auto
  show ?case
    using s' Nil.prems(2,4) by (auto simp: f s'(1) reader_ok_def)
next
  case (Cons w ws)
  then obtain fuel' where f: "fuel = Suc fuel'" "length ws < fuel'" by (cases fuel) auto
  have w: "writer_wf n w" "sw_nrows w \<noteq> 0" using Cons.prems(1) by auto
  have rest: "rest (ss_tapes s ! p) = flush_bytes n w @ concat (map (flush_bytes n) ws)"
    using Cons.prems(9) by simp
  obtain b r1 s1 where b: "spill_reader_next T r s = Inr (Some b, r1, s1)" "block_rows b = writer_rows n w"
    "reader_ok n r1" "\<not> rd_eof r1" "rd_partition r1 = p" "other_tapes p s s1"
    "rest (ss_tapes s1 ! p) = concat (map (flush_bytes n) ws)" "phase (ss_tapes s1 ! p) = phase (ss_tapes s ! p)"
    "phase (ss_tapes s ! p) = Frozen \<longrightarrow> written (ss_tapes s1 ! p) = written (ss_tapes s ! p)"
    using reader_next_block [OF T w Cons.prems(2,3,4,5,6,7,8) rest] by blast
  have s1: "ss_ncolumns s1 = n" "p < length (ss_tapes s1)"
    using b(6) Cons.prems(5,6) by (auto simp: other_tapes_def same_config_def)
  obtain bs r2 s2 where IH: "spill_read_all T fuel' r1 s1 = Inr (Some (bs, r2, s2))"
    "concat (map block_rows bs) = concat (map (writer_rows n) ws)" "reader_ok n r2" "rd_partition r2 = p" "rd_eof r2"
    "other_tapes p s1 s2" "phase (ss_tapes s2 ! p) = phase (ss_tapes s1 ! p)"
    "phase (ss_tapes s1 ! p) = Frozen \<longrightarrow> written (ss_tapes s2 ! p) = written (ss_tapes s1 ! p)"
    using Cons.IH [OF _ b(3,4,5) s1(2,1) Cons.prems(7) _ b(7) f(2)] Cons.prems(1,8) b(8) by auto
  have "spill_read_all T fuel r s = Inr (Some (b # bs, r2, s2))"
    by (simp add: f(1) b(1) IH(1))
  moreover have "other_tapes p s s2" using b(6) IH(6) other_tapes_trans by blast
  ultimately show ?case
    using IH b by (auto intro!: exI [of _ "b # bs"])
qed

lemma on_tape_length:
  assumes "\<forall>w \<in> set ws. writer_wf n w \<and> sw_nrows w \<noteq> 0"
  shows "length ws \<le> length (concat (map (writer_rows n) ws))"
  using assms by (induction ws) (auto simp: Suc_le_eq intro: add_mono [of 1, simplified] trans_le_add2)

lemma spill_read_partition:
  assumes T: "tape_spec T phase written rest" and fin: "finished_at phase written rest frozen s p rows"
    and p: "p < length (ss_tapes s)" and n: "ss_ncolumns s < 65536"
    and r: "reader_ok (ss_ncolumns s) r" "rd_partition r = p" "rd_eof r \<longleftrightarrow> rows = []"
    and fuel: "length rows < fuel"
  shows "\<exists>bs r' s'. spill_read_all T fuel r s = Inr (Some (bs, r', s')) \<and>
    concat (map block_rows bs) = rows \<and> reader_ok (ss_ncolumns s) r' \<and> rd_partition r' = p \<and>
    other_tapes p s s' \<and> (frozen \<and> rows \<noteq> [] \<longrightarrow> phase (ss_tapes s' ! p) = Frozen \<and>
      on_tape (ss_ncolumns s) (written (ss_tapes s' ! p)) rows)"
proof (cases "rows = []")
  case True
  then have "rd_eof r" using r(3) by simp
  moreover obtain fuel' where "fuel = Suc fuel'" using fuel by (cases fuel) auto
  ultimately have "spill_read_all T fuel r s = Inr (Some ([], r, s))"
    by (simp add: spill_reader_next_def)
  then show ?thesis using True r by simp
next
  case False
  then have on: "on_tape (ss_ncolumns s) (rest (ss_tapes s ! p)) rows" "phase (ss_tapes s ! p) \<noteq> Writing"
    "frozen \<longrightarrow> phase (ss_tapes s ! p) = Frozen \<and> written (ss_tapes s ! p) = rest (ss_tapes s ! p)"
    using fin by (auto simp: finished_at_def split: if_splits)
  obtain ws where ws: "\<forall>w \<in> set ws. writer_wf (ss_ncolumns s) w \<and> sw_nrows w \<noteq> 0"
    "rest (ss_tapes s ! p) = concat (map (flush_bytes (ss_ncolumns s)) ws)"
    "rows = concat (map (writer_rows (ss_ncolumns s)) ws)"
    using on(1) by (auto simp: on_tape_def)
  have len: "length ws < fuel" using on_tape_length [OF ws(1)] ws(3) fuel by simp
  have "\<not> rd_eof r" using r(3) False by simp
  from spill_read_all_blocks [OF T ws(1) r(1) this r(2) p refl n on(2) ws(2) len]
  show ?thesis unfolding ws(3) [symmetric] using on(1,3) by (elim exE conjE) auto
qed

lemma spill_open_ready:
  assumes T: "tape_spec T phase written rest" and ready: "spill_ready phase written rest s R"
    and o: "spill_reader_open T part s = Inr (r, s')"
  shows "0 \<le> part \<and> nat part < ss_npartitions s \<and> finished_at phase written rest (ss_frozen s) s' (nat part) (R (nat part)) \<and>
    other_tapes (nat part) s s' \<and> reader_ok (ss_ncolumns s) r \<and> rd_partition r = nat part \<and>
    (rd_eof r \<longleftrightarrow> R (nat part) = [])"
proof -
  have p: "0 \<le> part" "nat part < ss_npartitions s"
    using o by (auto simp: spill_reader_open_def validate_partition_def rbind_require split: if_splits)
  let ?p = "nat part"
  let ?r = "\<lparr>rd_partition = ?p, rd_eof = (ss_partition_rows s ! ?p = 0), rd_hashes = replicate 64 0,
    rd_values = replicate (ss_ncolumns s * 64) 0, rd_validity = replicate (8 * ss_ncolumns s) 0\<rparr>"
  have len: "length (ss_tapes s) = ss_npartitions s"
    and fin: "finished_at phase written rest (ss_frozen s) s ?p (R ?p)" "ss_finished s"
    using ready p(2) by (auto simp: spill_ready_def)
  have rs: "r = ?r" "s' = (if ss_frozen s \<and> ss_partition_rows s ! ?p \<noteq> 0
      then s\<lparr>ss_tapes := (ss_tapes s)[?p := tape_rewind T (ss_tapes s ! ?p)]\<rparr> else s)"
    using o p fin(2)
    by (auto simp: spill_reader_open_def spill_partition_empty_def validate_partition_def rbind_require Let_def
        split: if_splits)
  have "finished_at phase written rest (ss_frozen s) s' ?p (R ?p)"
    using fin(1) p len tape_spec_rewind [OF T, of "ss_tapes s ! ?p"]
    by (auto simp: rs(2) finished_at_def)
  then show ?thesis
    using p fin(1) len by (auto simp: rs reader_ok_def other_tapes_def same_config_def finished_at_def)
qed

section \<open>The round trip\<close>

text \<open>Everything up to the first read, in one hypothesis.\<close>

definition spilled ::
  "'t tape_ops \<Rightarrow> int \<Rightarrow> int \<Rightarrow> nat \<Rightarrow> spill_request list \<Rightarrow> bool \<Rightarrow> int \<Rightarrow> (spill_reader \<times> 't spill_set) result" where
  "spilled T ncolumns npartitions limit reqs frozen part =
     rbind (spill_create T (Some ()) (Some (replicate (nat ncolumns) \<lparr>att_isdropped = False, att_typid = 23\<rparr>))
       ncolumns npartitions limit) (\<lambda>s.
     rbind (rfold (spill_request_run T) reqs s) (\<lambda>s.
     rbind (spill_finish T frozen s) (\<lambda>s.
     spill_reader_open T part s)))"

definition partition_request_rows :: "int \<Rightarrow> spill_request list \<Rightarrow> int \<Rightarrow> row list" where
  "partition_request_rows ncolumns reqs part = concat (map (request_rows (nat ncolumns) (nat part)) reqs)"

lemma spilled_finished:
  assumes T: "tape_spec T phase written rest" and n: "ncolumns < 65536"
    and s: "spilled T ncolumns npartitions limit reqs frozen part = Inr (r, s)"
  shows "finished_at phase written rest frozen s (nat part) (partition_request_rows ncolumns reqs part) \<and>
    nat part < length (ss_tapes s) \<and> ss_ncolumns s = nat ncolumns \<and> nat ncolumns < 65536 \<and>
    reader_ok (ss_ncolumns s) r \<and> rd_partition r = nat part \<and> ss_frozen s = frozen \<and>
    0 \<le> part \<and> nat part < ss_npartitions s \<and>
    (rd_eof r \<longleftrightarrow> partition_request_rows ncolumns reqs part = [])"
proof -
  obtain s0 s1 s2 where s0: "spill_create T (Some ())
        (Some (replicate (nat ncolumns) \<lparr>att_isdropped = False, att_typid = 23\<rparr>)) ncolumns npartitions limit = Inr s0"
    and s1: "rfold (spill_request_run T) reqs s0 = Inr s1" and s2: "spill_finish T frozen s1 = Inr s2"
    and o: "spill_reader_open T part s2 = Inr (r, s)"
    using s by (auto simp: spilled_def rbind_Inr_iff)
  note c = spill_create_inv [OF T s0 n]
  then have c0: "spill_inv phase written s0 (\<lambda>_. [])" "no_full s0" "ss_ncolumns s0 = nat ncolumns" "0 < ncolumns"
    by auto
  note w = spill_requests_inv [OF T c0(1,2) s1]
  let ?R = "\<lambda>p. [] @ concat (map (request_rows (ss_ncolumns s0) p) reqs)"
  have w1: "spill_inv phase written s1 ?R" "ss_ncolumns s1 = nat ncolumns"
    using w c0 by (auto simp: same_config_def)
  note f = spill_finish_ready [OF T w1(1) s2]
  then have ready: "spill_ready phase written rest s2 ?R" and f1: "ss_frozen s2 = frozen" "ss_ncolumns s2 = nat ncolumns"
    using w1 by auto
  note r = spill_open_ready [OF T ready o]
  have len: "length (ss_tapes s2) = ss_npartitions s2" using ready by (simp add: spill_ready_def)
  have "nat ncolumns < 65536" using n c0(4) by simp
  then show ?thesis
    using r f1 len c0(3) by (auto simp: partition_request_rows_def other_tapes_def same_config_def)
qed

text \<open>
  C6. The spill round trip: whatever writes a spill set accepted, and however small the
  memory for pending blocks, reading a partition to its end returns exactly the rows
  written to that partition, in order, with their hashes and their NULLs, and the
  partition's row count is their number.
\<close>

theorem spill_roundtrip:
  assumes "tape_spec T phase written rest" "ncolumns < 65536"
    "spilled T ncolumns npartitions limit reqs frozen part = Inr (r, s)"
    "length (partition_request_rows ncolumns reqs part) < fuel"
  shows "\<exists>blocks r' s'. spill_read_all T fuel r s = Inr (Some (blocks, r', s')) \<and>
    concat (map block_rows blocks) = partition_request_rows ncolumns reqs part \<and>
    spill_partition_rows s part = Inr (length (partition_request_rows ncolumns reqs part))"
proof -
  note s = spilled_finished [OF assms(1-3)]
  then have "spill_partition_rows s part = Inr (length (partition_request_rows ncolumns reqs part))"
    by (auto simp: spill_partition_rows_def validate_partition_def rbind_require finished_at_def)
  then show ?thesis
    using spill_read_partition [OF assms(1), of frozen s "nat part" _ r fuel] s assms(4) by fastforce
qed

text \<open>
  C21. A frozen spill set can be read again: after a complete read, rewinding the reader
  and reading returns the same rows; a spill set that is not frozen refuses to rewind.
\<close>

theorem spill_reread:
  assumes "tape_spec T phase written rest" "ncolumns < 65536"
    "spilled T ncolumns npartitions limit reqs frozen part = Inr (r, s)"
    "length (partition_request_rows ncolumns reqs part) < fuel"
    "spill_read_all T fuel r s = Inr (Some (blocks, r1, s1))"
  shows "if frozen
    then \<exists>blocks' r2 s2 r3 s3. spill_reader_rewind T r1 s1 = Inr (r2, s2) \<and>
      spill_read_all T fuel r2 s2 = Inr (Some (blocks', r3, s3)) \<and>
      concat (map block_rows blocks') = concat (map block_rows blocks)
    else spill_reader_rewind T r1 s1 = Inl (Elog ''cannot rewind a destructive pg_batch spill reader'')"
proof -
  let ?rows = "partition_request_rows ncolumns reqs part" and ?p = "nat part"
  note s = spilled_finished [OF assms(1-3)]
  have first: "concat (map block_rows blocks) = ?rows" "reader_ok (ss_ncolumns s) r1" "rd_partition r1 = ?p"
    "other_tapes ?p s s1" "frozen \<and> ?rows \<noteq> [] \<longrightarrow> phase (ss_tapes s1 ! ?p) = Frozen \<and>
      on_tape (ss_ncolumns s) (written (ss_tapes s1 ! ?p)) ?rows"
    using spill_read_partition [OF assms(1), of frozen s ?p ?rows r fuel] s assms(4,5) by auto
  show ?thesis
  proof (cases frozen)
    case False
    then show ?thesis using first(4) s
      by (simp add: spill_reader_rewind_def other_tapes_def same_config_def rbind_require)
  next
    case True
    define r2 where "r2 = r1\<lparr>rd_eof := (?rows = [])\<rparr>"
    define s2 where "s2 = (if ?rows \<noteq> [] then s1\<lparr>ss_tapes := (ss_tapes s1)[?p := tape_rewind T (ss_tapes s1 ! ?p)]\<rparr> else s1)"
    have p: "?p < length (ss_tapes s1)" "ss_partition_rows s1 ! ?p = length ?rows" "ss_frozen s1" "?p < ss_npartitions s1"
      "ss_ncolumns s1 = ss_ncolumns s" "0 \<le> part"
      using first(4) s True by (auto simp: other_tapes_def same_config_def finished_at_def)
    have rewind: "spill_reader_rewind T r1 s1 = Inr (r2, s2)"
      using p by (simp add: spill_reader_rewind_def spill_partition_empty_def validate_partition_def
          rbind_require first(3) r2_def s2_def Let_def)
    have "finished_at phase written rest True s2 ?p ?rows"
      using first(5) True p tape_spec_rewind [OF assms(1), of "ss_tapes s1 ! ?p"]
      by (auto simp: finished_at_def s2_def)
    moreover have "?p < length (ss_tapes s2)" "ss_ncolumns s2 = ss_ncolumns s"
      using p by (auto simp: s2_def)
    moreover have "reader_ok (ss_ncolumns s) r2" "rd_partition r2 = ?p" "rd_eof r2 \<longleftrightarrow> ?rows = []"
      using first(2,3) by (auto simp: r2_def reader_ok_def)
    ultimately obtain bs r3 s3 where "spill_read_all T fuel r2 s2 = Inr (Some (bs, r3, s3))"
      "concat (map block_rows bs) = ?rows"
      using spill_read_partition [OF assms(1), of True s2 ?p ?rows r2 fuel] s assms(4) by auto
    with True rewind first(1) show ?thesis by auto
  qed
qed

text \<open>
  C38. Pending writer blocks stay within the caller's buffer limit: after any accepted
  sequence of writes, the live writers are the ones counted, and their memory is at most
  the limit or, when the limit is smaller than one block, one block.
\<close>

theorem spill_buffer_limit:
  assumes "tape_spec T phase written rest" "ncolumns < 65536"
    "spill_create T ctx desc ncolumns npartitions limit = Inr s" "rfold (spill_request_run T) reqs s = Inr s'"
  shows "ss_active_writers s' = count_some (ss_writers s') \<and>
    count_some (ss_writers s') * writer_bytes (nat ncolumns) \<le> max limit (writer_bytes (nat ncolumns))"
proof -
  note c = spill_create_inv [OF assms(1,3,2)]
  then have w: "spill_inv phase written s' (\<lambda>p. [] @ concat (map (request_rows (ss_ncolumns s) p) reqs))" "same_config s s'"
    using spill_requests_inv [OF assms(1) _ _ assms(4)] by blast+
  then have "ss_active_writers s' = count_some (ss_writers s')" "count_some (ss_writers s') \<le> ss_max_writers s'"
    by (auto simp: spill_inv_def spill_shape_def)
  moreover have "ss_max_writers s' \<le> max 1 (limit div writer_bytes (nat ncolumns))"
    using c w(2) by (simp add: same_config_def)
  moreover have "max 1 (limit div b) * b \<le> max limit b" for b :: nat
    using div_times_less_eq_dividend [of limit b] by (cases "limit < b") (auto simp: max_def)
  ultimately show ?thesis
    by (meson le_trans mult_le_mono1)
qed

section \<open>Damaged blocks\<close>

lemma read_exact_cases:
  assumes T: "tape_spec T phase written rest" and t: "phase t \<noteq> Writing"
  shows "read_exact T n t = Inl (Elog ''unexpected end of pg_batch spill file'') \<or>
    (\<exists>bs t'. read_exact T n t = Inr (bs, t') \<and> length bs = n \<and> n \<le> length (rest t) \<and> bs = take n (rest t) \<and>
      rest t' = drop n (rest t) \<and> phase t' = phase t)"
proof -
  obtain bs' t' where read: "tape_read T n t = (bs', t')" by (metis surj_pair)
  show ?thesis
    using tape_spec_read [OF T t read] by (auto simp: read_exact_def read)
qed

lemma read_columns_cases:
  assumes T: "tape_spec T phase written rest"
  shows "phase t \<noteq> Writing \<Longrightarrow> nrows \<le> 64 \<Longrightarrow> length vs = n * 64 \<Longrightarrow> k \<le> n \<Longrightarrow>
    rfold (read_column T nrows) [0..<k] (vs, t) = Inl (Elog ''unexpected end of pg_batch spill file'') \<or>
    (\<exists>vs' t'. rfold (read_column T nrows) [0..<k] (vs, t) = Inr (vs', t') \<and> length vs' = n * 64 \<and>
      4 * k * nrows \<le> length (rest t) \<and> rest t' = drop (4 * k * nrows) (rest t) \<and> phase t' = phase t)"
proof (induction k)
  case (Suc k)
  show ?case
  proof (cases "rfold (read_column T nrows) [0..<k] (vs, t)")
    case (Inl e)
    then show ?thesis using Suc by (auto simp: rfold_append)
  next
    case (Inr a)
    then obtain vs1 t1 where IH: "rfold (read_column T nrows) [0..<k] (vs, t) = Inr (vs1, t1)" "length vs1 = n * 64"
      "4 * k * nrows \<le> length (rest t)" "rest t1 = drop (4 * k * nrows) (rest t)" "phase t1 = phase t"
      using Suc by auto
    have t1: "phase t1 \<noteq> Writing" using IH(5) Suc.prems(1) by simp
    have fit: "k * 64 + nrows \<le> length vs1"
      using value_index_less [of k n 63] Suc.prems(2,4) by (simp add: IH(2))
    have step: "rfold (read_column T nrows) [0..<Suc k] (vs, t) = read_column T nrows k (vs1, t1)"
      by (cases "read_column T nrows k (vs1, t1)") (simp_all add: rfold_append IH(1))
    consider "read_exact T (4 * nrows) t1 = Inl (Elog ''unexpected end of pg_batch spill file'')"
      | bs t2 where "read_exact T (4 * nrows) t1 = Inr (bs, t2)" "length bs = 4 * nrows"
        "4 * nrows \<le> length (rest t1)" "rest t2 = drop (4 * nrows) (rest t1)" "phase t2 = phase t1"
      using read_exact_cases [OF T t1, of "4 * nrows"] by blast
    then show ?thesis
    proof cases
      case 1
      then show ?thesis unfolding step by (simp add: read_column_def)
    next
      case 2
      have "length (words_of_bytes bs) = nrows" using 2(2) by (simp add: words_of_bytes_def)
      then have "length (write_at (k * 64) (words_of_bytes bs) vs1) = n * 64"
        using fit by (simp add: length_write_at IH(2))
      moreover have "4 * Suc k * nrows \<le> length (rest t)" "rest t2 = drop (4 * Suc k * nrows) (rest t)"
        using 2(3,4) IH(3,4) by (simp_all add: algebra_simps)
      ultimately show ?thesis using 2(1,5) IH(5) unfolding step by (simp add: read_column_def)
    qed
  qed
qed auto

text \<open>
  C26. Reading a block trusts nothing it finds on the tape: for any bytes the outcome is
  the end of the partition, exactly when none is left; or one of the two errors; or a
  block of between 1 and 64 rows of the set's columns, all of whose bytes were there and
  were consumed, and whose arrays have the size their indexes need.
\<close>

theorem spill_damaged_block:
  assumes "tape_spec T phase written rest" "rd_partition r < length (ss_tapes s)"
    "phase (ss_tapes s ! rd_partition r) \<noteq> Writing" "reader_ok (ss_ncolumns s) r" "\<not> rd_eof r"
  shows "case spill_reader_next T r s of
      Inl e \<Rightarrow> e = Elog ''invalid pg_batch spill block'' \<or> e = Elog ''unexpected end of pg_batch spill file''
    | Inr (None, r', s') \<Rightarrow> rest (ss_tapes s ! rd_partition r) = [] \<and> rd_eof r'
    | Inr (Some b, r', s') \<Rightarrow>
        0 < sb_nrows b \<and> sb_nrows b \<le> 64 \<and> sb_ncolumns b = ss_ncolumns s \<and>
        block_bytes (ss_ncolumns s) (sb_nrows b) \<le> length (rest (ss_tapes s ! rd_partition r)) \<and>
        rest (ss_tapes s' ! rd_partition r) =
          drop (block_bytes (ss_ncolumns s) (sb_nrows b)) (rest (ss_tapes s ! rd_partition r)) \<and>
        length (sb_hashes b) = 64 \<and> length (sb_values b) = sb_ncolumns b * 64 \<and>
        length (sb_validity b) = sb_ncolumns b * 8"
proof -
  let ?p = "rd_partition r" and ?n = "ss_ncolumns s"
  let ?t = "ss_tapes s ! ?p"
  obtain hdr t1 where read: "tape_read T 8 ?t = (hdr, t1)" by (metis surj_pair)
  note h = tape_spec_read [OF assms(1,3) read]
  let ?k = "unat (word16_of (take 2 (drop 4 hdr)))"
  show ?thesis
  proof (cases "hdr = [] \<or> length hdr \<noteq> 8 \<or> word32_of (take 4 hdr) \<noteq> SPILL_MAGIC \<or>
      unat (word16_of (drop 6 hdr)) \<noteq> ?n \<or> ?k = 0 \<or> ?k > 64")
    case True
    then show ?thesis
      using h assms(5) by (auto simp: spill_reader_next_def read Let_def)
  next
    case False
    then have k: "0 < ?k" "?k \<le> 64" and len: "8 \<le> length (rest ?t)" using h by auto
    have t1: "phase t1 \<noteq> Writing" using h assms(3) by simp
    note step = spill_reader_next_def [of T r s] read Let_def
    show ?thesis
    proof (cases "read_exact T (4 * ?k) t1")
      case (Inl e)
      then show ?thesis using False assms(5) read_exact_cases [OF assms(1) t1, of "4 * ?k"] by (auto simp: step)
    next
      case (Inr a)
      then obtain hs t2 where t2: "read_exact T (4 * ?k) t1 = Inr (hs, t2)" "length hs = 4 * ?k"
        "4 * ?k \<le> length (rest t1)" "rest t2 = drop (4 * ?k) (rest t1)" "phase t2 \<noteq> Writing"
        using read_exact_cases [OF assms(1) t1, of "4 * ?k"] t1 by auto
      show ?thesis
      proof (cases "read_exact T (8 * ?n) t2")
        case (Inl e)
        then show ?thesis using False assms(5) read_exact_cases [OF assms(1) t2(5), of "8 * ?n"]
          by (auto simp: step t2(1))
      next
        case (Inr a)
        then obtain bs t3 where t3: "read_exact T (8 * ?n) t2 = Inr (bs, t3)" "length bs = 8 * ?n"
          "8 * ?n \<le> length (rest t2)" "rest t3 = drop (8 * ?n) (rest t2)" "phase t3 \<noteq> Writing"
          using read_exact_cases [OF assms(1) t2(5), of "8 * ?n"] t2(5) by auto
        have fit: "0 + length (words_of_bytes hs) \<le> length (rd_hashes r)"
          using t2(2) k(2) assms(4) by (simp add: words_of_bytes_def reader_ok_def)
        have vs: "length (rd_values r) = ?n * 64" using assms(4) by (simp add: reader_ok_def)
        consider "rfold (read_column T ?k) [0..<?n] (rd_values r, t3) = Inl (Elog ''unexpected end of pg_batch spill file'')"
          | vs t4 where "rfold (read_column T ?k) [0..<?n] (rd_values r, t3) = Inr (vs, t4)"
            "length vs = ?n * 64" "4 * ?n * ?k \<le> length (rest t3)" "rest t4 = drop (4 * ?n * ?k) (rest t3)"
          using read_columns_cases [OF assms(1) t3(5) k(2) vs order_refl] by blast
        then show ?thesis
        proof cases
          case 1
          then show ?thesis using False assms(5) by (simp add: step t2(1) t3(1))
        next
          case 2
          have hs: "length (write_at 0 (words_of_bytes hs) (rd_hashes r)) = 64"
            using assms(4) length_write_at [OF fit] by (simp add: reader_ok_def)
          have "block_bytes ?n ?k \<le> length (rest ?t)" "rest t4 = drop (block_bytes ?n ?k) (rest ?t)"
            using h t2(3,4) t3(3,4) 2(3,4) len by (simp_all add: block_bytes_def add.commute add.left_commute)
          then show ?thesis
            using False assms(2,5) k 2(2) t3(2) hs by (simp add: step t2(1) t3(1) 2(1))
        qed
      qed
    qed
  qed
qed

section \<open>Witnesses\<close>

text \<open>A tape in memory: its phase, its bytes and the position of the next read.\<close>

definition memory_tape :: "(tape_phase \<times> byte list \<times> nat) tape_ops" where
  "memory_tape = \<lparr>tape_create = (Writing, [], 0),
     tape_write = (\<lambda>bs (ph, w, k). (ph, w @ bs, k)),
     tape_freeze = (\<lambda>(ph, w, k). (Frozen, w, 0)),
     tape_rewind = (\<lambda>(ph, w, k). (if ph = Writing then Reading else ph, w, 0)),
     tape_read = (\<lambda>n (ph, w, k). (take n (drop k w), (ph, w, k + n)))\<rparr>"

lemma memory_tape_spec: "tape_spec memory_tape fst (fst \<circ> snd) (\<lambda>(ph, w, k). drop k w)"
  by (auto simp: tape_spec_def memory_tape_def add.commute)

text \<open>
  One column, two partitions and memory for one pending block: writing to the two
  partitions in turn evicts the writer each time.
\<close>

definition sample_requests :: "spill_request list" where
  "sample_requests =
     [Spill_write_dense 0 1 (Some [7]) (Some [5]) 1 (Some [1]),
      Spill_write_dense 1 1 (Some [8]) (Some [6]) 1 (Some [1]),
      Spill_write_dense 0 2 (Some [9, 10]) (Some [0, 4]) 2 (Some [2])]"

lemma sample_rows:
  "partition_request_rows 1 sample_requests 0 = [(7, [Some 5]), (9, [None]), (10, [Some 4])]"
  by (simp add: partition_request_rows_def sample_requests_def upt_rec)

lemma sample_run:
  "\<exists>r s. spilled memory_tape 1 2 0 sample_requests frozen 0 = Inr (r, s)"
proof -
  have "case spilled memory_tape 1 2 0 sample_requests True 0 of Inr _ \<Rightarrow> True | Inl _ \<Rightarrow> False"
    "case spilled memory_tape 1 2 0 sample_requests False 0 of Inr _ \<Rightarrow> True | Inl _ \<Rightarrow> False"
    by code_simp+
  then show ?thesis by (cases frozen) (auto split: sum.splits)
qed

lemma spill_roundtrip_witness:
  "\<exists>r s blocks r' s'. spilled memory_tape 1 2 0 sample_requests False 0 = Inr (r, s) \<and>
     spill_read_all memory_tape 9 r s = Inr (Some (blocks, r', s')) \<and>
     concat (map block_rows blocks) = [(7, [Some 5]), (9, [None]), (10, [Some 4])] \<and>
     spill_partition_rows s 0 = Inr 3"
proof -
  obtain r s where s: "spilled memory_tape 1 2 0 sample_requests False 0 = Inr (r, s)"
    using sample_run by blast
  show ?thesis
    using spill_roundtrip [OF memory_tape_spec _ s, of 9] s by (auto simp: sample_rows)
qed

lemma spill_reread_witness:
  "\<exists>blocks blocks' r1 s1 r2 s2 r3 s3. spill_reader_rewind memory_tape r1 s1 = Inr (r2, s2) \<and>
     spill_read_all memory_tape 9 r2 s2 = Inr (Some (blocks', r3, s3)) \<and>
     concat (map block_rows blocks') = concat (map block_rows blocks)"
proof -
  obtain r s where s: "spilled memory_tape 1 2 0 sample_requests True 0 = Inr (r, s)"
    using sample_run by blast
  obtain blocks r1 s1 where "spill_read_all memory_tape 9 r s = Inr (Some (blocks, r1, s1))"
    using spill_read_partition [OF memory_tape_spec, of True s 0 "partition_request_rows 1 sample_requests 0" r 9]
      spilled_finished [OF memory_tape_spec _ s]
    by (fastforce simp: sample_rows)
  from spill_reread [OF memory_tape_spec _ s _ this] show ?thesis
    by (simp add: sample_rows) blast
qed

lemma spill_buffer_limit_witness:
  "\<exists>s s'. spill_create memory_tape (Some ()) (Some [\<lparr>att_isdropped = False, att_typid = 23\<rparr>]) 1 2 0 = Inr s \<and>
     rfold (spill_request_run memory_tape) sample_requests s = Inr s' \<and>
     count_some (ss_writers s') * 544 \<le> 544"
proof -
  obtain r s2 where "spilled memory_tape 1 2 0 sample_requests False 0 = Inr (r, s2)"
    using sample_run by blast
  then obtain s s' where s: "spill_create memory_tape (Some ()) (Some (replicate (nat 1) \<lparr>att_isdropped = False, att_typid = 23\<rparr>)) 1 2 0 = Inr s"
    "rfold (spill_request_run memory_tape) sample_requests s = Inr s'"
    by (auto simp: spilled_def rbind_Inr_iff)
  show ?thesis
    using spill_buffer_limit [OF memory_tape_spec _ s] s by (auto simp: writer_bytes_def)
qed

lemma spill_damaged_block_witness:
  "\<exists>e. spill_reader_next memory_tape
       \<lparr>rd_partition = 0, rd_eof = False, rd_hashes = replicate 64 0, rd_values = replicate 64 0,
         rd_validity = replicate 8 0\<rparr>
       \<lparr>ss_ncolumns = 1, ss_npartitions = 1, ss_tapes = [(Reading, [1, 2, 3], 0)], ss_writers = [None],
         ss_partition_rows = [5], ss_active_writers = 0, ss_max_writers = 1, ss_eviction_cursor = 0,
         ss_finished = True, ss_frozen = False,
         ss_stats = \<lparr>st_rows_written = 5, st_blocks_written = 1, st_bytes_written = 40, st_rows_read = 0,
           st_blocks_read = 0, st_bytes_read = 0\<rparr>\<rparr> = Inl e"
  (is "\<exists>e. spill_reader_next _ ?r ?s = Inl e")
proof -
  have "fst (ss_tapes ?s ! rd_partition ?r) \<noteq> Writing" "reader_ok (ss_ncolumns ?s) ?r" "\<not> rd_eof ?r"
    "rd_partition ?r < length (ss_tapes ?s)"
    by (simp_all add: reader_ok_def)
  from spill_damaged_block [OF memory_tape_spec this(4,1,2,3)] show ?thesis
    by (auto simp: block_bytes_def split: sum.splits option.splits)
qed

end
