(* ===== verification/Build_Store.thy ===== *)
theory Build_Store
  imports Hash Spill_Buffers
begin

text \<open>
  The build side of the hash join, \<open>nodes/hash_join.c\<close>: rows stored column by column
  with their hash, and the open-addressed table over them whose buckets hold the newest
  row of each key and whose links chain true duplicates.  Memory that C leaves
  uninitialised is filled with zeros here; a link is a row number plus one, or 0.

  The lookup and insertion loops run until they meet their bucket: they are partial
  functions, and that they end is part of what is proved.
\<close>

section \<open>The store\<close>

record build_store =
  bs_values :: "int4 list list"
  bs_validity :: "uint64 list list"
  bs_hashes :: "uint32 list"
  bs_nexts :: "nat list"
  bs_buckets :: "nat list"
  bs_ncolumns :: nat
  bs_nrows :: nat
  bs_capacity :: nat
  bs_nbuckets :: nat
  bs_hash_shift :: nat
  bs_has_duplicates :: bool

definition hash_join_reset_build_store :: "build_store \<Rightarrow> build_store" where
  "hash_join_reset_build_store s = s\<lparr>bs_values := replicate (bs_ncolumns s) [],
     bs_validity := replicate (bs_ncolumns s) [], bs_hashes := [], bs_nexts := [], bs_buckets := [],
     bs_nrows := 0, bs_capacity := 0, bs_nbuckets := 0, bs_has_duplicates := False\<rparr>"

definition extend :: "'a \<Rightarrow> nat \<Rightarrow> 'a list \<Rightarrow> 'a list" where
  "extend z n xs = xs @ replicate (n - length xs) z"

definition resize_build_store :: "nat \<Rightarrow> build_store \<Rightarrow> build_store result" where
  "resize_build_store new_capacity s =
     (let new_words = (new_capacity + 63) div 64
      in if new_capacity \<le> bs_capacity s
         then Inl (Elog ''pg_batch hash join build side is too large'')
         else Inr (s\<lparr>bs_hashes := extend 0 new_capacity (bs_hashes s),
                bs_nexts := extend 0 new_capacity (bs_nexts s),
                bs_values := map (extend 0 new_capacity) (bs_values s),
                bs_validity := map (extend 0 new_words) (bs_validity s),
                bs_capacity := new_capacity\<rparr>))"

text \<open>Doubling wraps around at 32 bits, which \<open>resize_build_store\<close> then refuses.\<close>

definition hash_join_grow_build_store :: "build_store \<Rightarrow> build_store result" where
  "hash_join_grow_build_store s =
     resize_build_store (if bs_capacity s = 0 then 1024 else bs_capacity s * 2 mod 2 ^ 32) s"

text \<open>Storing one row whose cells are values with a NULL flag.\<close>

definition store_row_cells :: "uint32 \<Rightarrow> (nat \<Rightarrow> int4 \<times> bool) \<Rightarrow> build_store \<Rightarrow> build_store" where
  "store_row_cells hash cell s =
     (let stored_row = bs_nrows s
      in s\<lparr>bs_nrows := stored_row + 1, bs_hashes := (bs_hashes s)[stored_row := hash],
           bs_values := map (\<lambda>column. (bs_values s ! column)[stored_row := fst (cell column)]) [0..<bs_ncolumns s],
           bs_validity := map (\<lambda>column.
               let words = bs_validity s ! column
               in if \<not> snd (cell column)
                  then words[stored_row div 64 := (words ! (stored_row div 64)) OR push_bit (stored_row mod 64) 1]
                  else words) [0..<bs_ncolumns s]\<rparr>)"

definition hash_join_input_value :: "int4_vector \<Rightarrow> nat \<Rightarrow> int4 \<times> bool" where
  "hash_join_input_value input row =
     (let isnull = int4_row_is_null input row
      in (if isnull then 0 else int4_row_value input row, isnull))"

definition append_build_row_hash ::
  "int4_vector list \<Rightarrow> nat \<Rightarrow> uint32 \<Rightarrow> build_store \<Rightarrow> build_store result" where
  "append_build_row_hash columns row hash s =
     rbind (if bs_nrows s = bs_capacity s then hash_join_grow_build_store s else Inr s) (\<lambda>s.
     Inr (store_row_cells hash (\<lambda>column. hash_join_input_value (columns ! column) row) s))"

lemma grow_capacity:
  "hash_join_grow_build_store s = Inr s' \<Longrightarrow> bs_capacity s < bs_capacity s' \<and> bs_nrows s' = bs_nrows s"
  by (auto simp: hash_join_grow_build_store_def resize_build_store_def Let_def split: if_splits)

function grow_for :: "nat \<Rightarrow> build_store \<Rightarrow> build_store result" where
  "grow_for nrows s =
     (if bs_capacity s - bs_nrows s < nrows
      then (case hash_join_grow_build_store s of Inl e \<Rightarrow> Inl e | Inr s \<Rightarrow> grow_for nrows s)
      else Inr s)"
  by auto
termination
  by (relation "measure (\<lambda>(nrows, s). bs_nrows s + nrows - bs_capacity s)") (auto dest: grow_capacity)

declare grow_for.simps [simp del]

definition hash_join_append_dense_build :: "spill_block \<Rightarrow> build_store \<Rightarrow> build_store result" where
  "hash_join_append_dense_build block s =
     (if sb_ncolumns block \<noteq> bs_ncolumns s then Inl (Elog ''invalid pg_batch parallel build block'')
      else rbind (grow_for (sb_nrows block) s) (\<lambda>s.
        Inr (fold (\<lambda>row. store_row_cells (sb_hashes block ! row)
            (\<lambda>column. (sb_values block ! (column * PG_BATCH_SPILL_BLOCK_ROWS + row),
               \<not> bit (sb_validity block ! (column * 8 + row div 8)) (row mod 8))))
          [0..<sb_nrows block] s)))"

definition build_value_valid :: "build_store \<Rightarrow> nat \<Rightarrow> nat \<Rightarrow> bool" where
  "build_value_valid s column row = bit (bs_validity s ! column ! (row div 64)) (row mod 64)"

definition build_value :: "build_store \<Rightarrow> nat \<Rightarrow> nat \<Rightarrow> int4 \<times> bool" where
  "build_value s column row =
     (let isnull = \<not> build_value_valid s column row
      in (if isnull then 0 else bs_values s ! column ! row, isnull))"

section \<open>The table\<close>

function bucket_count_from :: "nat \<Rightarrow> nat \<Rightarrow> nat" where
  "bucket_count_from nrows r =
     (if r \<noteq> 0 \<and> r < nrows * 2 \<and> r < 2 ^ 31 then bucket_count_from nrows (r * 2) else r)"
  by auto
termination
  by (relation "measure (\<lambda>(nrows, r). 2 ^ 31 - r)") auto

declare bucket_count_from.simps [simp del]

definition choose_bucket_count :: "nat \<Rightarrow> nat" where
  "choose_bucket_count nrows = bucket_count_from nrows 1024"

definition build_keys_equal :: "nat list \<Rightarrow> build_store \<Rightarrow> nat \<Rightarrow> nat \<Rightarrow> bool" where
  "build_keys_equal inner_keys s left right =
     list_all (\<lambda>key. bs_values s ! (inner_keys ! key) ! left = bs_values s ! (inner_keys ! key) ! right)
       [0..<length inner_keys - 1]"

text \<open>
  The search both loops share: the first bucket from \<open>bucket\<close> on that is empty or whose
  head row is the wanted one.
\<close>

partial_function (option) find_bucket :: "(nat \<Rightarrow> bool) \<Rightarrow> nat \<Rightarrow> nat list \<Rightarrow> nat \<Rightarrow> nat option" where
  "find_bucket matches nbuckets buckets bucket =
     (let head = buckets ! bucket
      in if head = 0 \<or> matches (head - 1) then Some bucket
         else find_bucket matches nbuckets buckets ((bucket + 1) AND (nbuckets - 1)))"

definition home_bucket :: "build_store \<Rightarrow> uint32 \<Rightarrow> nat" where
  "home_bucket s hash = unat (drop_bit (bs_hash_shift s) hash) AND (bs_nbuckets s - 1)"

definition insert_build_row :: "nat list \<Rightarrow> nat \<Rightarrow> build_store \<Rightarrow> build_store option" where
  "insert_build_row inner_keys row s =
     Option.bind
       (find_bucket (\<lambda>r. bs_hashes s ! r = bs_hashes s ! row \<and> build_keys_equal inner_keys s r row)
          (bs_nbuckets s) (bs_buckets s) (home_bucket s (bs_hashes s ! row)))
       (\<lambda>bucket.
          let head = bs_buckets s ! bucket
          in if head = 0
             then Some (s\<lparr>bs_nexts := (bs_nexts s)[row := 0], bs_buckets := (bs_buckets s)[bucket := row + 1]\<rparr>)
             else Some (s\<lparr>bs_nexts := (bs_nexts s)[row := head], bs_buckets := (bs_buckets s)[bucket := row + 1],
                    bs_has_duplicates := True\<rparr>))"

fun insert_build_rows :: "nat list \<Rightarrow> nat list \<Rightarrow> build_store \<Rightarrow> build_store option" where
  "insert_build_rows inner_keys [] s = Some s"
| "insert_build_rows inner_keys (row # rows) s =
     Option.bind (insert_build_row inner_keys row s) (insert_build_rows inner_keys rows)"

definition hash_join_finish_build_table :: "nat list \<Rightarrow> build_store \<Rightarrow> build_store option" where
  "hash_join_finish_build_table inner_keys s =
     (let nbuckets = choose_bucket_count (bs_nrows s)
      in insert_build_rows inner_keys [0..<bs_nrows s]
           (s\<lparr>bs_nbuckets := nbuckets, bs_buckets := replicate nbuckets 0\<rparr>))"

text \<open>The keys of a probe row, in key order; \<open>find_build_head\<close> returns a link.\<close>

definition find_build_head ::
  "nat list \<Rightarrow> nat list \<Rightarrow> int4_vector list \<Rightarrow> build_store \<Rightarrow> uint32 \<Rightarrow> nat \<Rightarrow> nat option" where
  "find_build_head inner_keys outer_keys probe_columns s hash probe_row =
     map_option ((!) (bs_buckets s))
       (find_bucket (\<lambda>r. bs_hashes s ! r = hash \<and>
            list_all (\<lambda>key. bs_values s ! (inner_keys ! key) ! r =
                fst (hash_join_input_value (probe_columns ! (outer_keys ! key)) probe_row))
              [0..<length inner_keys - 1])
          (bs_nbuckets s) (bs_buckets s) (home_bucket s hash))"

end
