(* ===== verification/Hash_Join.thy ===== *)
theory Hash_Join
  imports Build_Store
begin

text \<open>
  The hash join executor \<open>nodes/hash_join.c\<close>: building the table in memory and probing it
  batch by batch.  A batch of the probe side is its selection together with the int4
  vectors that \<open>pg_batch_column_get_int4\<close> binds for its columns.  Arrays that C keeps with
  a count beside them (the active lanes, the output pairs) are the lists of their first
  \<open>count\<close> entries.  The table is reached through \<open>join_index\<close>, as the code reaches the
  serial or the parallel one.

  Functions called through \<open>fmgr\<close> and the scalar condition evaluated by \<open>ExecQual\<close> are
  parameters; they are called on values only and are taken not to raise errors.
\<close>

record probe_batch =
  pb_selection :: selection
  pb_columns :: "int4_vector list"

record join_index =
  ji_find :: "int4_vector list \<Rightarrow> uint32 \<Rightarrow> nat \<Rightarrow> nat option"
  ji_next :: "int4_vector list \<Rightarrow> nat \<Rightarrow> nat \<Rightarrow> nat"
  ji_value :: "nat \<Rightarrow> nat \<Rightarrow> int4 \<times> bool"
  ji_unique :: bool

record batch_join_qual =
  jq_funcid :: nat
  jq_func :: "(int4 \<Rightarrow> int4 \<Rightarrow> bool option) option"
  jq_left_column :: nat
  jq_right_column :: nat

record join_plan =
  jp_murmurhash32 :: hash32
  jp_hash_combine :: hash_comb
  jp_nouter_columns :: nat
  jp_ninner_columns :: nat
  jp_outer_keys :: "nat list"
  jp_inner_keys :: "nat list"
  jp_max_rows :: int
  jp_quals :: "batch_join_qual list"
  jp_scalar_qual :: "(datum option list \<Rightarrow> bool) option"
  jp_qual_raw_columns :: "nat set"

abbreviation (input) PG_BATCH_SIZE :: nat where "PG_BATCH_SIZE \<equiv> 64"

definition nrows_mask :: "nat \<Rightarrow> uint64" where
  "nrows_mask nrows = drop_bit (PG_BATCH_SIZE - nrows) (- 1)"

section \<open>Building in memory\<close>

definition hash_input_batch ::
  "join_plan \<Rightarrow> nat list \<Rightarrow> probe_batch \<Rightarrow> uint64 \<times> uint32 list" where
  "hash_input_batch plan keys batch =
     (let (hashes, valid) = hash_int4 (jp_murmurhash32 plan) (jp_hash_combine plan)
            (map (\<lambda>key. pb_columns batch ! key) keys) (pb_selection batch)
            (replicate PG_BATCH_SIZE 0) ((pb_selection batch)\<lparr>sel_words := [0]\<rparr>)
      in (sel_words valid ! 0, hashes))"

function capacity_for :: "nat \<Rightarrow> nat \<Rightarrow> nat" where
  "capacity_for nrows capacity =
     (if capacity \<noteq> 0 \<and> capacity < nrows \<and> capacity \<le> (2 ^ 32 - 1) div 2
      then capacity_for nrows (capacity * 2) else capacity)"
  by auto
termination
  by (relation "measure (\<lambda>(nrows, capacity). 2 ^ 32 - capacity)") auto

declare capacity_for.simps [simp del]

definition hash_join_estimated_build_memory :: "nat \<Rightarrow> nat \<Rightarrow> nat" where
  "hash_join_estimated_build_memory nrows ncolumns =
     (let capacity = capacity_for nrows 1024
      in capacity * (4 * 2 + 4 * ncolumns) + (capacity + 63) div 64 * 8 * ncolumns + capacity * 4 * 2)"

definition append_build_rows :: "join_plan \<Rightarrow> probe_batch \<Rightarrow> build_store \<Rightarrow> build_store result" where
  "append_build_rows plan batch s =
     (let (hash_rows, hashes) = hash_input_batch plan (jp_inner_keys plan) batch
      in rfold (\<lambda>row. append_build_row_hash (pb_columns batch) row (hashes ! row)) (word_rows hash_rows) s)"

text \<open>
  \<open>None\<close> stands for the switch to spilling, when the estimated memory of the build rows
  exceeds the limit.
\<close>

fun build_batches :: "join_plan \<Rightarrow> nat \<Rightarrow> probe_batch list \<Rightarrow> build_store \<Rightarrow> build_store option result" where
  "build_batches plan memory_limit [] s = Inr (Some s)"
| "build_batches plan memory_limit (batch # batches) s =
     (if hash_join_estimated_build_memory (bs_nrows s + nat (selection_count (pb_selection batch))) (bs_ncolumns s)
           > memory_limit
      then Inr None
      else rbind (append_build_rows plan batch s) (build_batches plan memory_limit batches))"

definition build_hash_table ::
  "join_plan \<Rightarrow> nat \<Rightarrow> nat \<Rightarrow> probe_batch list \<Rightarrow> build_store \<Rightarrow> build_store option option result" where
  "build_hash_table plan estimated_rows memory_limit batches s =
     (let s = (hash_join_reset_build_store s)\<lparr>bs_hash_shift := 0\<rparr>;
          initial_capacity = capacity_for estimated_rows 1024
      in rbind (if hash_join_estimated_build_memory initial_capacity (bs_ncolumns s) \<le> memory_limit
                then resize_build_store initial_capacity s else Inr s) (\<lambda>s.
         rbind (build_batches plan memory_limit batches s) (\<lambda>built.
         Inr (case built of
                None \<Rightarrow> Some None
              | Some s \<Rightarrow> map_option Some (hash_join_finish_build_table (jp_inner_keys plan) s)))))"

definition serial_index :: "join_plan \<Rightarrow> build_store \<Rightarrow> join_index" where
  "serial_index plan s = \<lparr>
     ji_find = (\<lambda>columns hash row. find_build_head (jp_inner_keys plan) (jp_outer_keys plan) columns s hash row),
     ji_next = (\<lambda>columns build_row probe_row. bs_nexts s ! build_row),
     ji_value = (\<lambda>column row. build_value s column row),
     ji_unique = (\<not> bs_has_duplicates s)\<rparr>"

section \<open>Probing\<close>

record join_state =
  js_input :: "probe_batch list"
  js_probe :: "probe_batch option"
  js_probe_hash_rows :: uint64
  js_probe_hashes :: "uint32 list"
  js_next_probe_row :: int
  js_lanes :: "(nat \<times> nat) list"
  js_probe_done_pending :: bool
  js_output :: "(nat \<times> nat) list"
  js_output_qualified :: nat

definition fetch_probe_batch :: "join_plan \<Rightarrow> join_state \<Rightarrow> bool \<times> join_state" where
  "fetch_probe_batch plan st =
     (case js_input st of
        [] \<Rightarrow> (False, st)
      | batch # batches \<Rightarrow>
          (let (hash_rows, hashes) = hash_input_batch plan (jp_outer_keys plan) batch
           in (True, st\<lparr>js_input := batches, js_probe := Some batch, js_next_probe_row := - 1,
                 js_probe_hash_rows := hash_rows, js_probe_hashes := hashes\<rparr>)))"

definition finish_probe_batch :: "join_state \<Rightarrow> join_state" where
  "finish_probe_batch st = st\<lparr>js_probe := None\<rparr>"

definition load_probe_hash :: "join_state \<Rightarrow> nat \<Rightarrow> uint32 option" where
  "load_probe_hash st row =
     (if bit (js_probe_hash_rows st) row then Some (js_probe_hashes st ! row) else None)"

text \<open>The second exit test, a row that does not increase, is never taken on a well-formed selection.\<close>

function load_lanes ::
  "join_index \<Rightarrow> join_state \<Rightarrow> probe_batch \<Rightarrow> int \<Rightarrow> (nat \<times> nat) list \<Rightarrow> ((nat \<times> nat) list \<times> int) option" where
  "load_lanes ix st batch previous lanes =
     (let row = selection_next (pb_selection batch) previous
      in if \<not> length lanes < PG_BATCH_SIZE \<or> row < 0 \<or> row \<le> previous then Some (lanes, previous)
         else (case load_probe_hash st (nat row) of
                 None \<Rightarrow> load_lanes ix st batch row lanes
               | Some hash \<Rightarrow>
                   (case ji_find ix (pb_columns batch) hash (nat row) of
                      None \<Rightarrow> None
                    | Some link \<Rightarrow> load_lanes ix st batch row (lanes @ [(nat row, link)]))))"
  by auto
termination
  by (relation "measure (\<lambda>(ix, st, batch, previous, lanes). nat (sel_nrows (pb_selection batch) - previous))")
    (auto dest!: selection_next_lt simp: not_less)

declare load_lanes.simps [simp del]

definition load_probe_window :: "join_index \<Rightarrow> probe_batch \<Rightarrow> join_state \<Rightarrow> (bool \<times> join_state) option" where
  "load_probe_window ix batch st =
     map_option (\<lambda>(lanes, row). (lanes \<noteq> [], st\<lparr>js_lanes := lanes, js_next_probe_row := row\<rparr>))
       (load_lanes ix st batch (js_next_probe_row st) [])"

definition output_capacity :: "join_plan \<Rightarrow> nat" where
  "output_capacity plan = (if jp_max_rows plan > 0 then min (nat (jp_max_rows plan)) PG_BATCH_SIZE else PG_BATCH_SIZE)"

function unique_rows ::
  "join_index \<Rightarrow> join_state \<Rightarrow> probe_batch \<Rightarrow> nat \<Rightarrow> int \<Rightarrow> (nat \<times> nat) list \<Rightarrow> ((nat \<times> nat) list \<times> int) option" where
  "unique_rows ix st batch capacity previous out =
     (let row = selection_next (pb_selection batch) previous
      in if \<not> length out < capacity \<or> row < 0 \<or> row \<le> previous then Some (out, previous)
         else (case load_probe_hash st (nat row) of
                 None \<Rightarrow> unique_rows ix st batch capacity row out
               | Some hash \<Rightarrow>
                   (case ji_find ix (pb_columns batch) hash (nat row) of
                      None \<Rightarrow> None
                    | Some link \<Rightarrow> unique_rows ix st batch capacity row
                        (if link \<noteq> 0 then out @ [(nat row, link - 1)] else out))))"
  by auto
termination
  by (relation "measure (\<lambda>(ix, st, batch, capacity, previous, out). nat (sel_nrows (pb_selection batch) - previous))")
    (auto dest!: selection_next_lt simp: not_less)

declare unique_rows.simps [simp del]

definition probe_unique_rows ::
  "join_plan \<Rightarrow> join_index \<Rightarrow> probe_batch \<Rightarrow> join_state \<Rightarrow> (bool \<times> join_state) option" where
  "probe_unique_rows plan ix batch st =
     map_option (\<lambda>(out, row). (length out = output_capacity plan, st\<lparr>js_output := out, js_next_probe_row := row\<rparr>))
       (unique_rows ix st batch (output_capacity plan) (js_next_probe_row st) (js_output st))"

text \<open>One pass over the lanes: those passed over, those not reached, and the output.\<close>

fun round_lanes ::
  "join_index \<Rightarrow> int4_vector list \<Rightarrow> nat \<Rightarrow> (nat \<times> nat) list \<Rightarrow> (nat \<times> nat) list \<Rightarrow>
     (nat \<times> nat) list \<times> (nat \<times> nat) list \<times> (nat \<times> nat) list" where
  "round_lanes ix columns capacity [] out = ([], [], out)"
| "round_lanes ix columns capacity ((row, link) # lanes) out =
     (if link = 0 then
        (let (processed, rest, out) = round_lanes ix columns capacity lanes out
         in ((row, 0) # processed, rest, out))
      else
        (let out = out @ [(row, link - 1)];
             lane = (row, ji_next ix columns (link - 1) row)
         in if length out = capacity then ([lane], lanes, out)
            else
              (let (processed, rest, out) = round_lanes ix columns capacity lanes out
               in (lane # processed, rest, out))))"

definition probe_round :: "join_plan \<Rightarrow> join_index \<Rightarrow> probe_batch \<Rightarrow> join_state \<Rightarrow> join_state" where
  "probe_round plan ix batch st =
     (let (processed, rest, out) = round_lanes ix (pb_columns batch) (output_capacity plan) (js_lanes st) (js_output st);
          remaining = filter (\<lambda>lane. snd lane \<noteq> 0) processed
      in if rest = [] \<and> remaining = [] then st\<lparr>js_output := out, js_lanes := []\<rparr>
         else st\<lparr>js_output := out, js_lanes := remaining @ rest\<rparr>)"

section \<open>Conditions\<close>

text \<open>A column of a joined row: probe columns first, then build columns.\<close>

definition raw_value :: "join_plan \<Rightarrow> join_index \<Rightarrow> probe_batch \<Rightarrow> nat \<Rightarrow> nat \<times> nat \<Rightarrow> int4 \<times> bool" where
  "raw_value plan ix batch raw_column = (\<lambda>(probe_row, build_row).
     if raw_column < jp_nouter_columns plan
     then hash_join_input_value (pb_columns batch ! raw_column) probe_row
     else ji_value ix (raw_column - jp_nouter_columns plan) build_row)"

text \<open>The object identifiers of PostgreSQL's int4 comparisons.\<close>

definition eval_builtin_int4_qual :: "nat \<Rightarrow> int4 \<Rightarrow> int4 \<Rightarrow> bool result" where
  "eval_builtin_int4_qual funcid left right =
     (if funcid = 65 then Inr (left = right)
      else if funcid = 144 then Inr (left \<noteq> right)
      else if funcid = 66 then Inr (sint left < sint right)
      else if funcid = 149 then Inr (sint left \<le> sint right)
      else if funcid = 147 then Inr (sint left > sint right)
      else if funcid = 150 then Inr (sint left \<ge> sint right)
      else Inl (Elog ''pg_batch found an invalid built-in int4 condition''))"

definition qual_row ::
  "join_plan \<Rightarrow> join_index \<Rightarrow> probe_batch \<Rightarrow> (nat \<times> nat) list \<Rightarrow> batch_join_qual \<Rightarrow> nat \<Rightarrow> uint64 \<Rightarrow> uint64 result" where
  "qual_row plan ix batch out qual row active =
     (let (left, left_null) = raw_value plan ix batch (jq_left_column qual) (out ! row);
          (right, right_null) = raw_value plan ix batch (jq_right_column qual) (out ! row)
      in if left_null \<or> right_null then Inr (active AND NOT (push_bit row 1))
         else
           rbind (case jq_func qual of
                    None \<Rightarrow> eval_builtin_int4_qual (jq_funcid qual) left right
                  | Some f \<Rightarrow> Inr (f left right = Some True)) (\<lambda>passes.
           Inr (if \<not> passes then active AND NOT (push_bit row 1) else active)))"

definition apply_batch_quals ::
  "join_plan \<Rightarrow> join_index \<Rightarrow> probe_batch \<Rightarrow> (nat \<times> nat) list \<Rightarrow> uint64 \<Rightarrow> uint64 result" where
  "apply_batch_quals plan ix batch out active =
     rfold (\<lambda>qual active.
        if active = 0 then Inr active
        else rfold (qual_row plan ix batch out qual) (word_rows active) active)
       (jp_quals plan) active"

definition fill_raw_slot ::
  "join_plan \<Rightarrow> join_index \<Rightarrow> probe_batch \<Rightarrow> nat set \<Rightarrow> nat \<times> nat \<Rightarrow> datum option list" where
  "fill_raw_slot plan ix batch needed pair =
     map (\<lambda>column.
        if column \<in> needed then
          (let (v, isnull) = raw_value plan ix batch column pair
           in if isnull then None else Some (int32_get_datum v))
        else None) [0..<jp_nouter_columns plan + jp_ninner_columns plan]"

definition passes_scalar_qual :: "join_plan \<Rightarrow> join_index \<Rightarrow> probe_batch \<Rightarrow> nat \<times> nat \<Rightarrow> bool" where
  "passes_scalar_qual plan ix batch pair =
     (case jp_scalar_qual plan of
        None \<Rightarrow> True
      | Some qual \<Rightarrow> qual (fill_raw_slot plan ix batch (jp_qual_raw_columns plan) pair))"

definition qualify_output :: "join_plan \<Rightarrow> join_index \<Rightarrow> probe_batch \<Rightarrow> join_state \<Rightarrow> join_state result" where
  "qualify_output plan ix batch st =
     (let first = js_output_qualified st;
          out = js_output st;
          end_row = length out;
          before = (if first = 0 then 0 else nrows_mask first);
          active = nrows_mask end_row AND NOT before
      in if first = end_row then Inr st
         else if jp_quals plan = [] \<and> jp_scalar_qual plan = None then Inr (st\<lparr>js_output_qualified := end_row\<rparr>)
         else
           rbind (apply_batch_quals plan ix batch out active) (\<lambda>active.
           let active = fold (\<lambda>row active.
                 if \<not> passes_scalar_qual plan ix batch (out ! row) then active AND NOT (push_bit row 1)
                 else active) (word_rows active) active;
               out = take first out @ map ((!) out) (filter (bit active) [first..<end_row])
           in Inr (st\<lparr>js_output := out, js_output_qualified := length out\<rparr>)))"

section \<open>Producing output\<close>

text \<open>
  One iteration of the loop of \<open>produce_output\<close>: \<open>Some b\<close> returns \<open>b\<close>, \<open>None\<close> continues.  The
  outer option is the search that never ends, the sum an error.
\<close>

type_synonym step_result = "(bool option \<times> join_state) result"

definition output_full :: "join_plan \<Rightarrow> join_state \<Rightarrow> bool" where
  "output_full plan st \<longleftrightarrow> length (js_output st) = output_capacity plan"

definition flush_full :: "join_plan \<Rightarrow> join_index \<Rightarrow> probe_batch \<Rightarrow> join_state \<Rightarrow> step_result" where
  "flush_full plan ix batch st =
     rbind (qualify_output plan ix batch st) (\<lambda>st.
     if output_full plan st then Inr (Some True, st) else Inr (None, st))"

definition drain_output :: "join_plan \<Rightarrow> join_index \<Rightarrow> probe_batch \<Rightarrow> join_state \<Rightarrow> step_result" where
  "drain_output plan ix batch st =
     (if js_output st \<noteq> [] then
        rbind (qualify_output plan ix batch st) (\<lambda>st.
        if js_output st \<noteq> [] then Inr (Some True, st\<lparr>js_probe_done_pending := True\<rparr>)
        else Inr (None, finish_probe_batch st))
      else Inr (None, finish_probe_batch st))"

definition round_step :: "join_plan \<Rightarrow> join_index \<Rightarrow> probe_batch \<Rightarrow> join_state \<Rightarrow> step_result" where
  "round_step plan ix batch st =
     (let st = probe_round plan ix batch st
      in if output_full plan st then flush_full plan ix batch st else Inr (None, st))"

definition search_step :: "join_plan \<Rightarrow> join_index \<Rightarrow> probe_batch \<Rightarrow> join_state \<Rightarrow> step_result option" where
  "search_step plan ix batch st =
     (if ji_unique ix then
        map_option (\<lambda>(full, st). if full then flush_full plan ix batch st else drain_output plan ix batch st)
          (probe_unique_rows plan ix batch st)
      else
        map_option (\<lambda>(loaded, st). if loaded then Inr (None, st) else drain_output plan ix batch st)
          (load_probe_window ix batch st))"

definition produce_step :: "join_plan \<Rightarrow> join_index \<Rightarrow> join_state \<Rightarrow> step_result option" where
  "produce_step plan ix st =
     (let st = (if js_probe_done_pending st then (finish_probe_batch st)\<lparr>js_probe_done_pending := False\<rparr> else st)
      in if js_lanes st \<noteq> [] then Some (round_step plan ix (the (js_probe st)) st)
         else
           (let (found, st) = (if js_probe st = None then fetch_probe_batch plan st else (True, st))
            in if \<not> found then Some (Inr (Some (js_output st \<noteq> []), st))
               else search_step plan ix (the (js_probe st)) st))"

partial_function (option) produce_loop ::
  "join_plan \<Rightarrow> join_index \<Rightarrow> join_state \<Rightarrow> (bool \<times> join_state) result option" where
  "produce_loop plan ix st =
     Option.bind (produce_step plan ix st) (\<lambda>res.
       case res of
         Inl e \<Rightarrow> Some (Inl e)
       | Inr (Some b, st) \<Rightarrow> Some (Inr (b, st))
       | Inr (None, st) \<Rightarrow> produce_loop plan ix st)"

definition produce_output :: "join_plan \<Rightarrow> join_index \<Rightarrow> join_state \<Rightarrow> (bool \<times> join_state) result option" where
  "produce_output plan ix st = produce_loop plan ix (st\<lparr>js_output := [], js_output_qualified := 0\<rparr>)"

text \<open>
  A parent that asks for batches until none comes: every published batch with the probe
  batch its pairs refer to.
\<close>

partial_function (option) join_all ::
  "join_plan \<Rightarrow> join_index \<Rightarrow> join_state \<Rightarrow> (probe_batch \<times> (nat \<times> nat) list) list result option" where
  "join_all plan ix st =
     Option.bind (produce_output plan ix st) (\<lambda>res.
       case res of
         Inl e \<Rightarrow> Some (Inl e)
       | Inr (found, st) \<Rightarrow>
           if \<not> found then Some (Inr []) else Option.bind (join_all plan ix st) (\<lambda>outs.
             Some (rbind outs (\<lambda>outs. Inr ((the (js_probe st), js_output st) # outs)))))"

end
