(* ===== verification/Open_Addressing.thy ===== *)
theory Open_Addressing
  imports Build_Props
begin

text \<open>
  The open-addressed table of the build side.  A row has a tag (its hash and its key
  prefix); a bucket holds the link of the newest row of one tag; linear probing from the
  home bucket of a tag meets no empty bucket before the bucket of that tag.  Searching
  ends and finds the tag's bucket or an empty one, and inserting the rows in order keeps
  the invariant.
\<close>

section \<open>Chains of links\<close>

fun chain :: "nat list \<Rightarrow> nat \<Rightarrow> nat list" where
  "chain nexts 0 = []"
| "chain nexts (Suc r) = r # (if nexts ! r \<le> r then chain nexts (nexts ! r) else [])"

lemma chain_update: "link \<le> k \<Longrightarrow> chain (nexts[k := v]) link = chain nexts link"
proof (induction nexts link rule: chain.induct)
  case (2 nexts r)
  then show ?case by (cases "nexts ! r \<le> r") simp_all
qed simp

section \<open>Searching\<close>

lemma and_minus_1:
  fixes x nb :: nat
  assumes "nb = 2 ^ m"
  shows "x AND (nb - 1) = x mod nb"
proof -
  have "nb - 1 = mask m" by (simp add: assms mask_eq_exp_minus_1)
  then show ?thesis by (simp only: take_bit_eq_mask [symmetric] take_bit_eq_mod assms)
qed

lemma find_bucket_at:
  assumes nb: "nb = 2 ^ m"
  shows "\<forall>i < d. buckets ! ((b + i) mod nb) \<noteq> 0 \<and> \<not> P (buckets ! ((b + i) mod nb) - 1) \<Longrightarrow>
    buckets ! ((b + d) mod nb) = 0 \<or> P (buckets ! ((b + d) mod nb) - 1) \<Longrightarrow>
    find_bucket P nb buckets (b mod nb) = Some ((b + d) mod nb)"
proof (induction d arbitrary: b)
  case 0
  then show ?case by (subst find_bucket.simps) (simp add: Let_def)
next
  case (Suc d)
  have first: "buckets ! (b mod nb) \<noteq> 0" "\<not> P (buckets ! (b mod nb) - 1)"
    using Suc.prems(1) [rule_format, of 0] by simp_all
  have step: "(b mod nb + 1) AND (nb - 1) = Suc b mod nb"
    using and_minus_1 [OF nb, of "b mod nb + 1"] by (simp add: mod_Suc_eq)
  have "\<forall>i < d. buckets ! ((Suc b + i) mod nb) \<noteq> 0 \<and> \<not> P (buckets ! ((Suc b + i) mod nb) - 1)"
    using Suc.prems(1) by (metis Suc_less_eq add_Suc add_Suc_right)
  then have "find_bucket P nb buckets (Suc b mod nb) = Some ((Suc b + d) mod nb)"
    using Suc.IH [of "Suc b"] Suc.prems(2) by simp
  with first step show ?case by (subst find_bucket.simps) (simp add: Let_def)
qed

definition table_path :: "nat \<Rightarrow> nat list \<Rightarrow> nat \<Rightarrow> nat \<Rightarrow> bool" where
  "table_path nb buckets start b \<longleftrightarrow>
     (\<exists>d. b = (start + d) mod nb \<and> (\<forall>i < d. buckets ! ((start + i) mod nb) \<noteq> 0))"

definition table_inv :: "nat \<Rightarrow> (nat \<Rightarrow> 't) \<Rightarrow> ('t \<Rightarrow> nat) \<Rightarrow> nat list \<Rightarrow> nat list \<Rightarrow> nat \<Rightarrow> bool" where
  "table_inv nb tag home nexts buckets k \<longleftrightarrow> length buckets = nb \<and> k \<le> length nexts \<and>
     (\<forall>b < nb. buckets ! b \<le> k) \<and> (\<forall>r < k. nexts ! r \<le> r) \<and>
     (\<forall>b < nb. buckets ! b \<noteq> 0 \<longrightarrow>
        chain nexts (buckets ! b) = rev (filter (\<lambda>r. tag r = tag (buckets ! b - 1)) [0..<k]) \<and>
        table_path nb buckets (home (tag (buckets ! b - 1))) b) \<and>
     (\<forall>b < nb. \<forall>b' < nb. buckets ! b \<noteq> 0 \<longrightarrow> buckets ! b' \<noteq> 0 \<longrightarrow>
        tag (buckets ! b - 1) = tag (buckets ! b' - 1) \<longrightarrow> b = b') \<and>
     (\<forall>r < k. \<exists>b < nb. buckets ! b \<noteq> 0 \<and> tag (buckets ! b - 1) = tag r) \<and>
     card {b. b < nb \<and> buckets ! b \<noteq> 0} \<le> k"

lemma table_inv_empty: "0 < nb \<Longrightarrow> table_inv nb tag home nexts (replicate nb 0) 0"
  by (auto simp: table_inv_def)

lemma mod_distance:
  assumes "b < (nb :: nat)"
  shows "\<exists>d. (start + d) mod nb = b"
proof -
  have "(start + (nb * start + b - start)) mod nb = b"
  proof -
    have "start \<le> nb * start + b" using assms by (cases nb) auto
    then show ?thesis using assms by simp
  qed
  then show ?thesis by blast
qed

lemma table_find:
  assumes nb: "nb = 2 ^ m" and inv: "table_inv nb tag home nexts buckets k" and k: "k < nb"
  shows "\<exists>b < nb. find_bucket (\<lambda>r. tag r = t) nb buckets (home t mod nb) = Some b \<and>
    table_path nb buckets (home t) b \<and>
    (if \<exists>r < k. tag r = t then buckets ! b \<noteq> 0 \<and> tag (buckets ! b - 1) = t else buckets ! b = 0)"
proof -
  let ?B = "\<lambda>d. (home t + d) mod nb"
  let ?stop = "\<lambda>d. buckets ! ?B d = 0 \<or> tag (buckets ! ?B d - 1) = t"
  note inv' = inv [unfolded table_inv_def]
  have "\<exists>b < nb. buckets ! b = 0"
  proof (rule ccontr)
    assume "\<not> ?thesis"
    then have "{b. b < nb \<and> buckets ! b \<noteq> 0} = {..<nb}" by auto
    with inv' k show False by simp
  qed
  then obtain e where e: "?stop e" using mod_distance [of _ nb "home t"] by metis
  define d where "d = (LEAST d. ?stop d)"
  have d: "?stop d" and before: "\<And>i. i < d \<Longrightarrow> \<not> ?stop i"
    using LeastI [of ?stop, OF e] not_less_Least [of _ ?stop] by (auto simp: d_def)
  have found: "find_bucket (\<lambda>r. tag r = t) nb buckets (home t mod nb) = Some (?B d)"
    by (rule find_bucket_at [OF nb]) (use d before in auto)
  have B: "?B d < nb" using nb by simp
  have path: "table_path nb buckets (home t) (?B d)" using before by (auto simp: table_path_def)
  have "if \<exists>r < k. tag r = t then buckets ! ?B d \<noteq> 0 \<and> tag (buckets ! ?B d - 1) = t else buckets ! ?B d = 0"
  proof (cases "\<exists>r < k. tag r = t")
    case True
    then obtain b where b: "b < nb" "buckets ! b \<noteq> 0" "tag (buckets ! b - 1) = t" using inv' by metis
    then obtain d' where d': "b = ?B d'" "\<forall>i < d'. buckets ! ?B i \<noteq> 0"
      using inv' by (metis table_path_def)
    have "d \<le> d'"
    proof (rule ccontr)
      assume "\<not> d \<le> d'"
      then have "\<not> ?stop d'" using before by simp
      then show False using b d'(1) by simp
    qed
    then have "buckets ! ?B d \<noteq> 0" using d' b by (cases "d = d'") auto
    then show ?thesis using True d by auto
  next
    case False
    have "buckets ! ?B d - 1 < k" if "buckets ! ?B d \<noteq> 0" using that inv' B by (metis Suc_diff_1 Suc_le_lessD gr0I)
    then show ?thesis using False d by auto
  qed
  with found B path show ?thesis by blast
qed

lemma table_path_update:
  "table_path nb buckets s b \<Longrightarrow> v \<noteq> 0 \<Longrightarrow> table_path nb (buckets[b' := v]) s b"
  unfolding table_path_def by (metis nth_list_update_eq nth_list_update_neq list_update_beyond not_le)

lemma table_insert:
  assumes inv: "table_inv nb tag home nexts buckets k" and k: "k < length nexts"
    and b: "b < nb" "table_path nb buckets (home (tag k)) b"
    and hit: "if \<exists>r < k. tag r = tag k then buckets ! b \<noteq> 0 \<and> tag (buckets ! b - 1) = tag k else buckets ! b = 0"
  shows "table_inv nb tag home (nexts[k := buckets ! b]) (buckets[b := Suc k]) (Suc k)"
proof -
  note inv' = inv [unfolded table_inv_def]
  let ?bk = "buckets[b := Suc k]" and ?nx = "nexts[k := buckets ! b]"
  have len: "b < length buckets" using inv' b by simp
  have le: "buckets ! c \<le> k" if "c < nb" for c using inv' that by blast
  have own: "chain ?nx (Suc k) = rev (filter (\<lambda>r. tag r = tag k) [0..<Suc k])"
  proof (cases "\<exists>r < k. tag r = tag k")
    case True
    then have h: "buckets ! b \<noteq> 0" "tag (buckets ! b - 1) = tag k" using hit by auto
    then have "chain nexts (buckets ! b) = rev (filter (\<lambda>r. tag r = tag k) [0..<k])" using inv' b by metis
    then show ?thesis using le [OF b(1)] k by (simp add: chain_update)
  next
    case False
    then have "buckets ! b = 0" "filter (\<lambda>r. tag r = tag k) [0..<k] = []" using hit by auto
    then show ?thesis using k by simp
  qed
  have other: "tag (buckets ! c - 1) \<noteq> tag k" if "c < nb" "c \<noteq> b" "buckets ! c \<noteq> 0" for c
  proof
    assume eq: "tag (buckets ! c - 1) = tag k"
    have "buckets ! c - 1 < k" using le [OF that(1)] that(3) by linarith
    then have "\<exists>r < k. tag r = tag k" using eq by blast
    then have "buckets ! b \<noteq> 0" "tag (buckets ! b - 1) = tag k" using hit by auto
    then show False using inv' that b eq by metis
  qed
  have chains: "chain ?nx (?bk ! c) = rev (filter (\<lambda>r. tag r = tag (?bk ! c - 1)) [0..<Suc k]) \<and>
      table_path nb ?bk (home (tag (?bk ! c - 1))) c" if "c < nb" "?bk ! c \<noteq> 0" for c
  proof (cases "c = b")
    case True
    then show ?thesis using own len table_path_update [OF b(2)] by simp
  next
    case False
    then have c: "buckets ! c \<noteq> 0" using that by simp
    have "chain nexts (buckets ! c) = rev (filter (\<lambda>r. tag r = tag (buckets ! c - 1)) [0..<k])"
      "table_path nb buckets (home (tag (buckets ! c - 1))) c"
      using inv' that(1) c by blast+
    then show ?thesis
      using False le [OF that(1)] other [OF that(1) False c] table_path_update
      by (simp add: chain_update)
  qed
  have "card {c. c < nb \<and> ?bk ! c \<noteq> 0} \<le> card (insert b {c. c < nb \<and> buckets ! c \<noteq> 0})"
    by (rule card_mono) (use len in \<open>auto simp: nth_list_update\<close>)
  also have "\<dots> \<le> Suc k" using inv' card_insert_le_m1 by (simp add: card_insert_if)
  finally have card: "card {c. c < nb \<and> ?bk ! c \<noteq> 0} \<le> Suc k" .
  have uniq: "c = c'" if "c < nb" "c' < nb" "?bk ! c \<noteq> 0" "?bk ! c' \<noteq> 0" "tag (?bk ! c - 1) = tag (?bk ! c' - 1)" for c c'
    using that inv' len other by (cases "c = b"; cases "c' = b") (simp_all, metis+)
  have all: "\<exists>c < nb. ?bk ! c \<noteq> 0 \<and> tag (?bk ! c - 1) = tag r" if "r < Suc k" for r
  proof (cases "r = k \<or> tag r = tag k")
    case True
    then show ?thesis using b(1) len by (intro exI [of _ b]) auto
  next
    case False
    then have "r < k" using that by auto
    moreover have "\<forall>r < k. \<exists>b < nb. buckets ! b \<noteq> 0 \<and> tag (buckets ! b - 1) = tag r" using inv' by simp
    ultimately obtain c where c: "c < nb" "buckets ! c \<noteq> 0" "tag (buckets ! c - 1) = tag r" by blast
    have "c \<noteq> b"
    proof
      assume "c = b"
      then have b': "buckets ! b \<noteq> 0" "tag (buckets ! b - 1) = tag r" using c by simp_all
      show False
      proof (cases "\<exists>r < k. tag r = tag k")
        case True
        with hit have "tag (buckets ! b - 1) = tag k" by simp
        then show False using b'(2) False by simp
      next
        case False
        with hit b'(1) show False by simp
      qed
    qed
    then show ?thesis using c by (intro exI [of _ c]) simp
  qed
  show ?thesis
    unfolding table_inv_def
  proof (intro conjI)
    show "\<forall>r < Suc k. ?nx ! r \<le> r"
      using inv' le [OF b(1)] k by (auto simp: nth_list_update less_Suc_eq)
    show "\<forall>c < nb. ?bk ! c \<le> Suc k" using le len by (auto simp: nth_list_update le_SucI)
    show "\<forall>c < nb. ?bk ! c \<noteq> 0 \<longrightarrow>
        chain ?nx (?bk ! c) = rev (filter (\<lambda>r. tag r = tag (?bk ! c - 1)) [0..<Suc k]) \<and>
        table_path nb ?bk (home (tag (?bk ! c - 1))) c"
      using chains by blast
    show "\<forall>c < nb. \<forall>c' < nb. ?bk ! c \<noteq> 0 \<longrightarrow> ?bk ! c' \<noteq> 0 \<longrightarrow>
        tag (?bk ! c - 1) = tag (?bk ! c' - 1) \<longrightarrow> c = c'"
      using uniq by blast
    show "\<forall>r < Suc k. \<exists>c < nb. ?bk ! c \<noteq> 0 \<and> tag (?bk ! c - 1) = tag r" using all by blast
    show "card {c. c < nb \<and> ?bk ! c \<noteq> 0} \<le> Suc k" by (rule card)
  qed (use inv' k in simp_all)
qed

section \<open>The table of the build side\<close>

text \<open>The tag of a stored row: its hash and the values of all keys but the last.\<close>

definition row_tag :: "nat list \<Rightarrow> build_store \<Rightarrow> nat \<Rightarrow> uint32 \<times> int4 list" where
  "row_tag keys s r = (bs_hashes s ! r, map (\<lambda>key. bs_values s ! key ! r) (butlast keys))"

definition tag_home :: "nat \<Rightarrow> uint32 \<times> int4 list \<Rightarrow> nat" where
  "tag_home shift t = unat (drop_bit shift (fst t))"

definition table_ok :: "nat list \<Rightarrow> build_store \<Rightarrow> nat \<Rightarrow> bool" where
  "table_ok keys s k \<longleftrightarrow> table_inv (bs_nbuckets s) (row_tag keys s) (tag_home (bs_hash_shift s)) (bs_nexts s) (bs_buckets s) k \<and>
     (\<exists>m. bs_nbuckets s = 2 ^ m) \<and> bs_nrows s < bs_nbuckets s \<and>
     (bs_has_duplicates s \<longleftrightarrow> \<not> inj_on (row_tag keys s) {..<k})"

lemma all_keys_iff:
  "list_all (\<lambda>key. f (keys ! key) = g (keys ! key)) [0..<length keys - 1] \<longleftrightarrow> map f (butlast keys) = map g (butlast keys)"
  by (auto simp: list_all_iff butlast_conv_take set_conv_nth nth_equalityI list_eq_iff_nth_eq)

lemma build_keys_equal_iff:
  "bs_hashes s ! r = bs_hashes s ! r' \<and> build_keys_equal keys s r r' \<longleftrightarrow> row_tag keys s r = row_tag keys s r'"
  using all_keys_iff [of "\<lambda>key. bs_values s ! key ! r" keys "\<lambda>key. bs_values s ! key ! r'"]
  by (simp add: build_keys_equal_def row_tag_def)

lemma home_bucket_eq:
  "bs_nbuckets s = 2 ^ m \<Longrightarrow> home_bucket s h = tag_home (bs_hash_shift s) (h, ks) mod bs_nbuckets s"
  using and_minus_1 [of "bs_nbuckets s" m] by (simp add: home_bucket_def tag_home_def)

lemma bucket_count_from_pow:
  "\<exists>m. r = 2 ^ m \<Longrightarrow> r \<le> 2 ^ 31 \<Longrightarrow> nrows * 2 \<le> 2 ^ 31 \<Longrightarrow>
     (\<exists>m. bucket_count_from nrows r = 2 ^ m) \<and> nrows * 2 \<le> bucket_count_from nrows r \<and> r \<le> bucket_count_from nrows r"
proof (induction nrows r rule: bucket_count_from.induct)
  case (1 nrows r)
  show ?case
  proof (cases "r \<noteq> 0 \<and> r < nrows * 2 \<and> r < 2 ^ 31")
    case True
    obtain m where m: "r = 2 ^ m" using 1(2) by blast
    then have "m < 31"
      using True power_less_imp_less_exp [of "2 :: nat" m 31] by simp
    then have "r * 2 \<le> 2 ^ 31" using power_increasing [of "Suc m" 31 "2 :: nat"] m by (simp add: mult.commute)
    moreover have "\<exists>m. r * 2 = 2 ^ m" using m by (intro exI [of _ "Suc m"]) simp
    ultimately have "(\<exists>m. bucket_count_from nrows (r * 2) = 2 ^ m) \<and> nrows * 2 \<le> bucket_count_from nrows (r * 2) \<and>
        r * 2 \<le> bucket_count_from nrows (r * 2)"
      using 1(1) [OF True] 1(4) by blast
    then show ?thesis using True by (subst (1 2 3) bucket_count_from.simps) auto
  next
    case False
    then show ?thesis using 1(2,3,4) by (subst (1 2 3) bucket_count_from.simps) auto
  qed
qed

lemma choose_bucket_count:
  assumes "nrows \<le> 2 ^ 30"
  shows "(\<exists>m. choose_bucket_count nrows = 2 ^ m) \<and> nrows < choose_bucket_count nrows"
proof -
  have "\<exists>m. (1024 :: nat) = 2 ^ m" by (rule exI [of _ 10]) simp
  from bucket_count_from_pow [OF this, of nrows] assms show ?thesis
    unfolding choose_bucket_count_def by auto
qed

text \<open>Inserting changes only the links, the buckets and the duplicates flag.\<close>

definition table_update :: "build_store \<Rightarrow> build_store \<Rightarrow> bool" where
  "table_update s s' \<longleftrightarrow> bs_values s' = bs_values s \<and> bs_validity s' = bs_validity s \<and> bs_hashes s' = bs_hashes s \<and>
    bs_ncolumns s' = bs_ncolumns s \<and> bs_nrows s' = bs_nrows s \<and> bs_capacity s' = bs_capacity s \<and>
    bs_nbuckets s' = bs_nbuckets s \<and> bs_hash_shift s' = bs_hash_shift s \<and>
    length (bs_nexts s') = length (bs_nexts s)"

lemma table_update_refl [simp]: "table_update s s"
  by (simp add: table_update_def)

lemma table_update_trans: "table_update s t \<Longrightarrow> table_update t u \<Longrightarrow> table_update s u"
  by (simp add: table_update_def)

lemmas table_update_fields = table_update_def [THEN iffD1]

lemma insert_build_row_ok:
  assumes ok: "table_ok keys s k" and k: "k < bs_nrows s" and n: "bs_nrows s \<le> length (bs_nexts s)"
  shows "\<exists>s'. insert_build_row keys k s = Some s' \<and> table_ok keys s' (Suc k) \<and>
    table_update s s'"
proof -
  let ?tag = "row_tag keys s" and ?home = "tag_home (bs_hash_shift s)" and ?nb = "bs_nbuckets s"
  obtain m where m: "?nb = 2 ^ m" using ok by (auto simp: table_ok_def)
  have inv: "table_inv ?nb ?tag ?home (bs_nexts s) (bs_buckets s) k" and lt: "k < ?nb"
    and dup: "bs_has_duplicates s \<longleftrightarrow> \<not> inj_on ?tag {..<k}"
    using ok k by (auto simp: table_ok_def)
  obtain b where b: "b < ?nb" "find_bucket (\<lambda>r. ?tag r = ?tag k) ?nb (bs_buckets s) (?home (?tag k) mod ?nb) = Some b"
    "table_path ?nb (bs_buckets s) (?home (?tag k)) b"
    "if \<exists>r < k. ?tag r = ?tag k then bs_buckets s ! b \<noteq> 0 \<and> ?tag (bs_buckets s ! b - 1) = ?tag k else bs_buckets s ! b = 0"
    using table_find [OF m inv lt] by blast
  let ?nx = "(bs_nexts s)[k := bs_buckets s ! b]" and ?bk = "(bs_buckets s)[b := Suc k]"
  define s' where "s' = s\<lparr>bs_nexts := ?nx, bs_buckets := ?bk,
    bs_has_duplicates := (bs_has_duplicates s \<or> bs_buckets s ! b \<noteq> 0)\<rparr>"
  have home: "home_bucket s (bs_hashes s ! k) = ?home (?tag k) mod ?nb"
    using home_bucket_eq [OF m] by (simp add: row_tag_def)
  have ins: "insert_build_row keys k s = Some s'"
    using b(2) by (simp add: insert_build_row_def build_keys_equal_iff home Let_def s'_def)
  have "table_inv ?nb ?tag ?home ?nx ?bk (Suc k)"
    by (rule table_insert [OF inv _ b(1,3,4)]) (use k n in simp)
  moreover have "row_tag keys s' = ?tag" by (simp add: row_tag_def s'_def fun_eq_iff)
  moreover have "bs_buckets s ! b \<noteq> 0 \<longleftrightarrow> ?tag k \<in> ?tag ` {..<k}"
  proof -
    have "?tag k \<in> ?tag ` {..<k} \<longleftrightarrow> (\<exists>r < k. ?tag r = ?tag k)" by (metis imageE imageI lessThan_iff)
    then show ?thesis using b(4) by (cases "\<exists>r < k. ?tag r = ?tag k") simp_all
  qed
  ultimately have "table_ok keys s' (Suc k)"
    using ok dup by (auto simp: table_ok_def s'_def lessThan_Suc)
  moreover have "table_update s s'" by (simp add: table_update_def s'_def)
  ultimately show ?thesis using ins by blast
qed

lemma insert_build_rows_ok:
  "table_ok keys s k \<Longrightarrow> k + n = bs_nrows s \<Longrightarrow> bs_nrows s \<le> length (bs_nexts s) \<Longrightarrow>
     \<exists>s'. insert_build_rows keys [k..<k + n] s = Some s' \<and> table_ok keys s' (k + n) \<and> table_update s s'"
proof (induction n arbitrary: k s)
  case 0
  then show ?case by simp
next
  case (Suc n)
  obtain s1 where s1: "insert_build_row keys k s = Some s1" "table_ok keys s1 (Suc k)" "table_update s s1"
    using insert_build_row_ok [OF Suc.prems(1) _ Suc.prems(3)] Suc.prems(2) by auto
  obtain s2 where s2: "insert_build_rows keys [Suc k..<Suc k + n] s1 = Some s2" "table_ok keys s2 (Suc k + n)"
    "table_update s1 s2"
    using Suc.IH [OF s1(2)] Suc.prems(2,3) table_update_fields [OF s1(3)] by auto
  have "[k..<k + Suc n] = k # [Suc k..<Suc k + n]" by (simp add: upt_rec)
  then have "insert_build_rows keys [k..<k + Suc n] s = Some s2" using s1(1) s2(1) by simp
  then show ?case using s2(2) table_update_trans [OF s1(3) s2(3)] by auto
qed

lemma finish_build_table_len:
  assumes len: "bs_nrows s \<le> length (bs_nexts s)" and n: "bs_nrows s \<le> 2 ^ 30" and dup: "\<not> bs_has_duplicates s"
  shows "\<exists>s'. hash_join_finish_build_table keys s = Some s' \<and> table_ok keys s' (bs_nrows s') \<and>
    store_rows s' = store_rows s \<and>
    table_update (s\<lparr>bs_nbuckets := choose_bucket_count (bs_nrows s),
      bs_buckets := replicate (choose_bucket_count (bs_nrows s)) 0\<rparr>) s'"
proof -
  let ?nb = "choose_bucket_count (bs_nrows s)"
  let ?s = "s\<lparr>bs_nbuckets := ?nb, bs_buckets := replicate ?nb 0\<rparr>"
  have "table_inv ?nb (row_tag keys ?s) (tag_home (bs_hash_shift s)) (bs_nexts s) (replicate ?nb 0) 0"
    using choose_bucket_count [OF n] by (intro table_inv_empty) linarith
  then have "table_ok keys ?s 0" using choose_bucket_count [OF n] dup by (simp add: table_ok_def)
  then obtain s' where s': "insert_build_rows keys [0..<bs_nrows s] ?s = Some s'" "table_ok keys s' (bs_nrows s)"
    "table_update ?s s'"
    using insert_build_rows_ok [of keys ?s 0 "bs_nrows s"] len by auto
  note f = table_update_fields [OF s'(3), simplified]
  have "store_rows s' = store_rows s"
    by (rule store_rows_cong) (simp_all add: f build_value_valid_def)
  then show ?thesis using s' f by (simp add: hash_join_finish_build_table_def)
qed

lemma finish_build_table_ok:
  assumes wf: "store_wf s" and n: "bs_nrows s \<le> 2 ^ 30" and dup: "\<not> bs_has_duplicates s"
  shows "\<exists>s'. hash_join_finish_build_table keys s = Some s' \<and> table_ok keys s' (bs_nrows s') \<and> store_wf s' \<and>
    store_rows s' = store_rows s \<and> bs_nrows s' = bs_nrows s \<and> bs_ncolumns s' = bs_ncolumns s \<and>
    bs_values s' = bs_values s \<and> bs_validity s' = bs_validity s \<and> bs_hashes s' = bs_hashes s"
proof -
  have "bs_nrows s \<le> length (bs_nexts s)" using wf by (simp add: store_wf_def)
  from finish_build_table_len [OF this n dup, of keys] obtain s' where
    s': "hash_join_finish_build_table keys s = Some s'" "table_ok keys s' (bs_nrows s')" "store_rows s' = store_rows s"
    "table_update (s\<lparr>bs_nbuckets := choose_bucket_count (bs_nrows s),
      bs_buckets := replicate (choose_bucket_count (bs_nrows s)) 0\<rparr>) s'"
    by blast
  note f = table_update_fields [OF s'(4), simplified]
  have "store_wf s'"
    using wf f by (auto simp: store_wf_def build_value_valid_def)
  then show ?thesis using s' f by simp
qed

text \<open>What a lookup returns: the chain of exactly the rows with that tag, newest first.\<close>

lemma find_build_head_ok:
  assumes ok: "table_ok keys s (bs_nrows s)" and len: "length outer_keys = length keys"
    and prefix: "prefix = map (\<lambda>key. fst (hash_join_input_value (columns ! key) probe_row)) (butlast outer_keys)"
  shows "\<exists>link. find_build_head keys outer_keys columns s hash probe_row = Some link \<and> link \<le> bs_nrows s \<and>
    chain (bs_nexts s) link = rev (filter (\<lambda>r. row_tag keys s r = (hash, prefix)) [0..<bs_nrows s])"
proof -
  let ?nb = "bs_nbuckets s" and ?home = "tag_home (bs_hash_shift s)" and ?t = "(hash, prefix)"
  obtain m where m: "?nb = 2 ^ m" using ok by (auto simp: table_ok_def)
  have inv: "table_inv ?nb (row_tag keys s) ?home (bs_nexts s) (bs_buckets s) (bs_nrows s)" and lt: "bs_nrows s < ?nb"
    using ok by (auto simp: table_ok_def)
  obtain b where b: "b < ?nb" "find_bucket (\<lambda>r. row_tag keys s r = ?t) ?nb (bs_buckets s) (?home ?t mod ?nb) = Some b"
    "if \<exists>r < bs_nrows s. row_tag keys s r = ?t then bs_buckets s ! b \<noteq> 0 \<and> row_tag keys s (bs_buckets s ! b - 1) = ?t
     else bs_buckets s ! b = 0"
    using table_find [OF m inv lt, of ?t] by blast
  have matches: "bs_hashes s ! r = hash \<and> list_all (\<lambda>key. bs_values s ! (keys ! key) ! r =
      fst (hash_join_input_value (columns ! (outer_keys ! key)) probe_row)) [0..<length keys - 1] \<longleftrightarrow>
    row_tag keys s r = ?t" for r
    using len by (auto simp: row_tag_def prefix list_all_iff list_eq_iff_nth_eq nth_butlast)
  have "find_build_head keys outer_keys columns s hash probe_row = Some (bs_buckets s ! b)"
    by (simp only: find_build_head_def matches home_bucket_eq [OF m, of hash prefix] b(2) option.map)
  moreover have "chain (bs_nexts s) (bs_buckets s ! b) = rev (filter (\<lambda>r. row_tag keys s r = ?t) [0..<bs_nrows s])"
  proof (cases "\<exists>r < bs_nrows s. row_tag keys s r = ?t")
    case True
    then have "bs_buckets s ! b \<noteq> 0" "row_tag keys s (bs_buckets s ! b - 1) = ?t" using b(3) by simp_all
    moreover have "\<forall>b < ?nb. bs_buckets s ! b \<noteq> 0 \<longrightarrow> chain (bs_nexts s) (bs_buckets s ! b) =
        rev (filter (\<lambda>r. row_tag keys s r = row_tag keys s (bs_buckets s ! b - 1)) [0..<bs_nrows s])"
      using inv by (simp add: table_inv_def)
    ultimately show ?thesis using b(1) by simp
  next
    case False
    then show ?thesis using b(3) by simp
  qed
  ultimately show ?thesis using inv b(1) by (auto simp: table_inv_def)
qed

end
