(* ===== verification/Join_Probe.thy ===== *)
theory Join_Probe
  imports Hash_Join Open_Addressing "HOL-Library.Multiset"
begin

text \<open>
  Probing: qualification keeps exactly the output pairs that pass the conditions, and any
  index that keeps the promises of the locale \<open>join_candidates\<close> makes the output of the
  join the candidate pairs of every probe row that pass, each once.  The two indexes of
  the code, serial and parallel, are to be interpretations.
\<close>

section \<open>Qualification\<close>

definition qual_passes :: "join_plan \<Rightarrow> join_index \<Rightarrow> probe_batch \<Rightarrow> batch_join_qual \<Rightarrow> nat \<times> nat \<Rightarrow> bool" where
  "qual_passes plan ix batch qual pair =
     (let (left, left_null) = raw_value plan ix batch (jq_left_column qual) pair;
          (right, right_null) = raw_value plan ix batch (jq_right_column qual) pair
      in \<not> left_null \<and> \<not> right_null \<and>
         (case jq_func qual of
            None \<Rightarrow> eval_builtin_int4_qual (jq_funcid qual) left right = Inr True
          | Some f \<Rightarrow> f left right = Some True))"

definition pair_passes :: "join_plan \<Rightarrow> join_index \<Rightarrow> probe_batch \<Rightarrow> nat \<times> nat \<Rightarrow> bool" where
  "pair_passes plan ix batch pair \<longleftrightarrow>
     (\<forall>qual \<in> set (jp_quals plan). qual_passes plan ix batch qual pair) \<and> passes_scalar_qual plan ix batch pair"

definition quals_valid :: "join_plan \<Rightarrow> bool" where
  "quals_valid plan \<longleftrightarrow> (\<forall>qual \<in> set (jp_quals plan). jq_func qual = None \<longrightarrow>
     jq_funcid qual \<in> {65, 144, 66, 149, 147, 150})"

lemma qual_row_eq:
  assumes "jq_func qual = None \<longrightarrow> jq_funcid qual \<in> {65, 144, 66, 149, 147, 150}"
  shows "qual_row plan ix batch out qual row active =
    Inr (if \<not> qual_passes plan ix batch qual (out ! row) then active AND NOT (push_bit row 1) else active)"
  using assms
  by (auto simp: qual_row_def qual_passes_def eval_builtin_int4_qual_def Let_def split: prod.splits option.splits)

lemma rfold_Inr: "(\<And>x s. x \<in> set xs \<Longrightarrow> f x s = Inr (g x s)) \<Longrightarrow> rfold f xs s = Inr (fold g xs s)"
  by (induction xs arbitrary: s) simp_all

lemma bit_fold_clear:
  "\<forall>row \<in> set rows. row < 64 \<Longrightarrow>
   bit (fold (\<lambda>row active. if \<not> P row then active AND NOT (push_bit row 1) else active) rows (w :: uint64)) i \<longleftrightarrow>
     bit w i \<and> (i \<in> set rows \<longrightarrow> P i)"
proof (induction rows arbitrary: w)
  case (Cons row rows)
  then show ?case
    by (auto simp: bit_and_iff bit_not_iff bit_exp_iff possible_bit_word dest: word64_bit_lt)
qed simp

lemma bit_fold_clear_rows:
  "bit (fold (\<lambda>row active. if \<not> P row then active AND NOT (push_bit row 1) else active) (word_rows w) w) i \<longleftrightarrow>
     bit w i \<and> P i"
  using bit_fold_clear [of "word_rows w" P w i] word64_bit_lt by auto

lemma apply_batch_quals_bits:
  assumes "\<forall>qual \<in> set quals. jq_func qual = None \<longrightarrow> jq_funcid qual \<in> {65, 144, 66, 149, 147, 150}"
  shows "\<exists>w'. rfold (\<lambda>qual active. if active = 0 then Inr active
        else rfold (qual_row plan ix batch out qual) (word_rows active) active) quals w = Inr w' \<and>
    (\<forall>i. bit w' i \<longleftrightarrow> bit w i \<and> (\<forall>qual \<in> set quals. qual_passes plan ix batch qual (out ! i)))"
  using assms
proof (induction quals arbitrary: w)
  case (Cons qual quals)
  let ?w = "fold (\<lambda>row active. if \<not> qual_passes plan ix batch qual (out ! row) then active AND NOT (push_bit row 1)
    else active) (word_rows w) w"
  have "rfold (qual_row plan ix batch out qual) (word_rows w) w = Inr ?w"
    by (rule rfold_Inr) (use qual_row_eq Cons.prems in auto)
  then have step: "(if w = 0 then Inr w else rfold (qual_row plan ix batch out qual) (word_rows w) w) = Inr ?w"
    by auto
  have rest: "\<forall>qual \<in> set quals. jq_func qual = None \<longrightarrow> jq_funcid qual \<in> {65, 144, 66, 149, 147, 150}"
    using Cons.prems by simp
  obtain w' where w': "rfold (\<lambda>qual active. if active = 0 then Inr active
        else rfold (qual_row plan ix batch out qual) (word_rows active) active) quals ?w = Inr w'"
    "\<forall>i. bit w' i \<longleftrightarrow> bit ?w i \<and> (\<forall>qual \<in> set quals. qual_passes plan ix batch qual (out ! i))"
    using Cons.IH [OF rest, of ?w] by blast
  show ?case
  proof (intro exI conjI)
    show "rfold (\<lambda>qual active. if active = 0 then Inr active
        else rfold (qual_row plan ix batch out qual) (word_rows active) active) (qual # quals) w = Inr w'"
      unfolding rfold.simps step rbind_simps by (rule w'(1))
  qed (use w'(2) bit_fold_clear_rows [of "\<lambda>i. qual_passes plan ix batch qual (out ! i)" w] in auto)
qed auto

lemma bit_nrows_mask: "n \<le> 64 \<Longrightarrow> bit (nrows_mask n) i \<longleftrightarrow> i < n"
  by (auto simp: nrows_mask_def bit_mask_iff possible_bit_word)

lemma map_nth_filter:
  "map ((!) xs) (filter (\<lambda>i. P (xs ! i)) [k..<length xs]) = filter P (drop k xs)"
proof -
  have "map ((!) xs) [k..<length xs] = drop k xs"
    by (rule nth_equalityI) auto
  then show ?thesis by (metis filter_map comp_apply filter_cong)
qed

definition qualified_state :: "(nat \<times> nat \<Rightarrow> bool) \<Rightarrow> join_state \<Rightarrow> join_state" where
  "qualified_state P st =
     (let out = take (js_output_qualified st) (js_output st) @ filter P (drop (js_output_qualified st) (js_output st))
      in st\<lparr>js_output := out, js_output_qualified := length out\<rparr>)"

lemma qualify_output_eq:
  assumes valid: "quals_valid plan" and len: "js_output_qualified st \<le> length (js_output st)" "length (js_output st) \<le> 64"
  shows "qualify_output plan ix batch st = Inr (qualified_state (pair_passes plan ix batch) st)"
proof -
  let ?first = "js_output_qualified st" and ?out = "js_output st" and ?P = "pair_passes plan ix batch"
  let ?before = "if ?first = 0 then 0 else nrows_mask ?first"
  let ?w = "nrows_mask (length ?out) AND NOT ?before"
  consider "?first = length ?out" | "?first \<noteq> length ?out" "jp_quals plan = [] \<and> jp_scalar_qual plan = None"
    | "?first \<noteq> length ?out" "\<not> (jp_quals plan = [] \<and> jp_scalar_qual plan = None)" by blast
  then show ?thesis
  proof cases
    case 1
    then show ?thesis by (simp add: qualify_output_def qualified_state_def Let_def)
  next
    case 2
    then have "?P = (\<lambda>_. True)" by (simp add: pair_passes_def passes_scalar_qual_def fun_eq_iff)
    then show ?thesis using 2 len by (simp add: qualify_output_def qualified_state_def Let_def)
  next
    case 3
    obtain w1 where w1: "apply_batch_quals plan ix batch ?out ?w = Inr w1"
      "\<forall>i. bit w1 i \<longleftrightarrow> bit ?w i \<and> (\<forall>qual \<in> set (jp_quals plan). qual_passes plan ix batch qual (?out ! i))"
      using apply_batch_quals_bits [of "jp_quals plan" plan ix batch ?out ?w] valid
      unfolding apply_batch_quals_def quals_valid_def by blast
    let ?w2 = "fold (\<lambda>row active. if \<not> passes_scalar_qual plan ix batch (?out ! row) then active AND NOT (push_bit row 1)
      else active) (word_rows w1) w1"
    have w: "bit ?w i \<longleftrightarrow> ?first \<le> i \<and> i < length ?out" for i
      using len bit_nrows_mask [of ?first i] bit_nrows_mask [of "length ?out" i]
      by (cases "?first = 0") (auto simp: bit_and_iff bit_not_iff possible_bit_word)
    have "bit ?w2 i \<longleftrightarrow> ?P (?out ! i)" if "?first \<le> i" "i < length ?out" for i
      unfolding bit_fold_clear_rows using w1(2) w that by (auto simp: pair_passes_def)
    then have "filter (bit ?w2) [?first..<length ?out] = filter (\<lambda>i. ?P (?out ! i)) [?first..<length ?out]"
      by (intro filter_cong) auto
    then have kept: "map ((!) ?out) (filter (bit ?w2) [?first..<length ?out]) = filter ?P (drop ?first ?out)"
      by (simp only: map_nth_filter)
    have "length (filter (bit ?w2) [?first..<length ?out]) = length (filter ?P (drop ?first ?out))"
      using arg_cong [OF kept, of length] unfolding length_map .
    with kept show ?thesis
      using 3 w1(1) by (auto simp: qualify_output_def qualified_state_def Let_def)
  qed
qed

section \<open>Rows and pairs\<close>

text \<open>A link leads through the given rows and ends.\<close>

fun linked :: "(nat \<Rightarrow> nat) \<Rightarrow> nat \<Rightarrow> nat list \<Rightarrow> bool" where
  "linked nxt link [] \<longleftrightarrow> link = 0"
| "linked nxt link (r # rs) \<longleftrightarrow> link = Suc r \<and> linked nxt (nxt r) rs"

lemma linked_0 [simp]: "linked nxt 0 rs \<longleftrightarrow> rs = []"
  by (cases rs) auto

lemma linked_Suc: "linked nxt (Suc r) rs \<longleftrightarrow> (\<exists>rs'. rs = r # rs' \<and> linked nxt (nxt r) rs')"
  by (cases rs) auto

definition probe_keys :: "join_plan \<Rightarrow> probe_batch \<Rightarrow> int4_vector list" where
  "probe_keys plan batch = map (\<lambda>key. pb_columns batch ! key) (jp_outer_keys plan)"

type_synonym candidates = "int4_vector list \<Rightarrow> uint32 \<Rightarrow> nat \<Rightarrow> nat list"

definition probe_hash :: "join_plan \<Rightarrow> probe_batch \<Rightarrow> nat \<Rightarrow> uint32" where
  "probe_hash plan batch r = row_hash (jp_murmurhash32 plan) (jp_hash_combine plan) (key_values (probe_keys plan batch) r)"

definition row_pairs :: "join_plan \<Rightarrow> candidates \<Rightarrow> probe_batch \<Rightarrow> nat \<Rightarrow> (nat \<times> nat) list" where
  "row_pairs plan C batch r =
     (if keys_present (probe_keys plan batch) r then map (Pair r) (C (pb_columns batch) (probe_hash plan batch r) r)
      else [])"

definition rows_from :: "probe_batch \<Rightarrow> int \<Rightarrow> nat list" where
  "rows_from batch previous = filter (\<lambda>r. nat (previous + 1) \<le> r) (selected (pb_selection batch))"

definition rest_pairs :: "join_plan \<Rightarrow> candidates \<Rightarrow> probe_batch \<Rightarrow> int \<Rightarrow> (nat \<times> nat) list" where
  "rest_pairs plan C batch previous = concat (map (row_pairs plan C batch) (rows_from batch previous))"

definition rest_weight :: "join_plan \<Rightarrow> candidates \<Rightarrow> probe_batch \<Rightarrow> int \<Rightarrow> nat" where
  "rest_weight plan C batch previous =
     (\<Sum>r \<leftarrow> rows_from batch previous. 2 + length (row_pairs plan C batch r))"

definition probe_wf :: "join_plan \<Rightarrow> nat list \<Rightarrow> probe_batch \<Rightarrow> bool" where
  "probe_wf plan keys batch \<longleftrightarrow> sel_wf (pb_selection batch) \<and> 0 < sel_nrows (pb_selection batch) \<and>
     sel_nrows (pb_selection batch) \<le> 64 \<and> keys \<noteq> [] \<and>
     (\<forall>key \<in> set keys. vec_wf (pb_columns batch ! key) (nat (sel_nrows (pb_selection batch))))"

lemma rows_from_next:
  assumes "sel_wf (pb_selection batch)" "- 1 \<le> previous"
  defines "row \<equiv> selection_next (pb_selection batch) previous"
  shows "if row < 0 \<or> row \<le> previous then rows_from batch previous = []
    else rows_from batch previous = nat row # rows_from batch row"
proof -
  have w: "selection_walk (pb_selection batch) p = map int (rows_from batch p)" if "- 1 \<le> p" for p
    unfolding rows_from_def by (rule selection_walk_selected [OF assms(1) that])
  show ?thesis
  proof (cases "row < 0 \<or> row \<le> previous")
    case True
    then have "map int (rows_from batch previous) = []"
      using w [OF assms(2)] by (subst (asm) selection_walk.simps) (simp add: row_def Let_def)
    with True show ?thesis by simp
  next
    case False
    then have "map int (rows_from batch previous) = row # map int (rows_from batch row)"
      using w [OF assms(2)] w [of row] by (subst (asm) selection_walk.simps) (simp add: row_def Let_def)
    then have "rows_from batch previous = nat row # rows_from batch row"
      by (cases "rows_from batch previous") (auto simp: inj_map_eq_map [OF inj_onI])
    with False show ?thesis by simp
  qed
qed

lemma rows_from_all: "rows_from batch (- 1) = selected (pb_selection batch)"
  by (simp add: rows_from_def)

lemma hash_input_batch_ok:
  assumes wf: "probe_wf plan keys batch" and h: "hash_input_batch plan keys batch = (w, hs)"
  shows "\<forall>r. bit w r \<longleftrightarrow> r \<in> set (selected (pb_selection batch)) \<and>
      keys_present (map (\<lambda>key. pb_columns batch ! key) keys) r"
    and "\<forall>r. bit w r \<longrightarrow> hs ! r = row_hash (jp_murmurhash32 plan) (jp_hash_combine plan)
      (key_values (map (\<lambda>key. pb_columns batch ! key) keys) r)"
proof -
  let ?s = "pb_selection batch" and ?ks = "map (\<lambda>key. pb_columns batch ! key) keys"
  let ?v = "?s\<lparr>sel_words := [0]\<rparr>"
  have n: "sel_nwords ?s = 1"
    using wf sel_wf_nwords [of ?s] by (simp add: probe_wf_def) linarith
  have buf: "hash_buffers ?ks ?s (replicate 64 0) ?v"
    using wf n by (auto simp: hash_buffers_def probe_wf_def)
  let ?out = "hash_int4 (jp_murmurhash32 plan) (jp_hash_combine plan) ?ks ?s (replicate 64 0) ?v"
  have res: "hash_result (jp_murmurhash32 plan) (jp_hash_combine plan) ?ks ?s (replicate 64 0) ?out"
    by (rule hash_int4_result [OF buf])
  have w: "w = sel_words (snd ?out) ! 0" "hs = fst ?out"
    using h by (auto simp: hash_input_batch_def split: prod.splits)
  have nr: "sel_nrows (snd ?out) = sel_nrows ?s" "sel_nwords (snd ?out) = 1"
    by (simp_all add: hash_int4_def hash_two_keys_def Let_def n split: prod.splits)
  have wf': "sel_wf (snd ?out)" and sel: "selected (snd ?out) = filter (keys_present ?ks) (selected ?s)"
    and hash: "\<forall>r \<in> set (selected (snd ?out)). fst ?out ! r =
      row_hash (jp_murmurhash32 plan) (jp_hash_combine plan) (key_values ?ks r)"
    using res by (auto simp: hash_result_def)
  have bit: "bit w r \<longleftrightarrow> r \<in> set (selected (snd ?out))" for r
  proof
    assume b: "bit w r"
    then have "r < nat (sel_nrows (snd ?out))" using sel_wf_bit [OF wf', of 0 r] nr w by simp
    moreover have "r < 64" by (rule word64_bit_lt [OF b])
    ultimately show "r \<in> set (selected (snd ?out))" using b w by (simp add: set_selected sel_bit_def)
  next
    assume "r \<in> set (selected (snd ?out))"
    then have r: "sel_bit (snd ?out) r" "r < nat (sel_nrows (snd ?out))" by (auto simp: set_selected)
    then have "r < 64" using nr(1) wf unfolding probe_wf_def by linarith
    then show "bit w r" using r(1) w by (simp add: sel_bit_def)
  qed
  show "\<forall>r. bit w r \<longleftrightarrow> r \<in> set (selected ?s) \<and> keys_present ?ks r"
    using bit sel by simp
  show "\<forall>r. bit w r \<longrightarrow> hs ! r = row_hash (jp_murmurhash32 plan) (jp_hash_combine plan) (key_values ?ks r)"
    using bit hash w by simp
qed

definition sync :: "join_plan \<Rightarrow> join_state \<Rightarrow> probe_batch \<Rightarrow> bool" where
  "sync plan st batch \<longleftrightarrow> (\<forall>r \<in> set (selected (pb_selection batch)). load_probe_hash st r =
     (if keys_present (probe_keys plan batch) r then Some (probe_hash plan batch r) else None))"

type_synonym lane_rows = "nat list list"

definition lanes_linked :: "join_index \<Rightarrow> int4_vector list \<Rightarrow> (nat \<times> nat) list \<Rightarrow> lane_rows \<Rightarrow> bool" where
  "lanes_linked ix columns lanes lss \<longleftrightarrow>
     list_all2 (\<lambda>lane ls. linked (\<lambda>b. ji_next ix columns b (fst lane)) (snd lane) ls) lanes lss"

definition lane_pairs :: "(nat \<times> nat) list \<Rightarrow> lane_rows \<Rightarrow> (nat \<times> nat) list" where
  "lane_pairs lanes lss = concat (map2 (\<lambda>lane ls. map (Pair (fst lane)) ls) lanes lss)"

definition lane_weight :: "lane_rows \<Rightarrow> nat" where
  "lane_weight lss = (\<Sum>ls \<leftarrow> lss. 1 + length ls)"

lemma lane_simps [simp]:
  "lanes_linked ix columns [] lss \<longleftrightarrow> lss = []"
  "lanes_linked ix columns (lane # lanes) (ls # lss) \<longleftrightarrow>
     linked (\<lambda>b. ji_next ix columns b (fst lane)) (snd lane) ls \<and> lanes_linked ix columns lanes lss"
  "lane_pairs [] lss = []"
  "lane_pairs (lane # lanes) (ls # lss) = map (Pair (fst lane)) ls @ lane_pairs lanes lss"
  "lane_weight [] = 0"
  "lane_weight (ls # lss) = 1 + length ls + lane_weight lss"
  by (simp_all add: lanes_linked_def lane_pairs_def lane_weight_def)

lemma lanes_linked_Cons:
  "lanes_linked ix columns (lane # lanes) lss \<longleftrightarrow> (\<exists>ls lss'. lss = ls # lss' \<and>
     linked (\<lambda>b. ji_next ix columns b (fst lane)) (snd lane) ls \<and> lanes_linked ix columns lanes lss')"
  by (cases lss) (auto simp: lanes_linked_def)

lemma lanes_linked_snoc:
  assumes "lanes_linked ix columns lanes lss" "linked (\<lambda>b. ji_next ix columns b row) link ls"
  shows "lanes_linked ix columns (lanes @ [(row, link)]) (lss @ [ls])"
    and "lane_pairs (lanes @ [(row, link)]) (lss @ [ls]) = lane_pairs lanes lss @ map (Pair row) ls"
    and "lane_weight (lss @ [ls]) = lane_weight lss + 1 + length ls"
  using assms list_all2_lengthD [of _ lanes lss]
  by (auto simp: lanes_linked_def lane_pairs_def lane_weight_def list_all2_appendI dest: list_all2_lengthD)

section \<open>The interface of an index\<close>

text \<open>
  What probing needs of the table: for a state that satisfies \<open>inv\<close> the search ends at a
  link through exactly the candidate rows, and a table that claims to be unique has at
  most one candidate for every probe row.
\<close>

locale join_candidates =
  fixes index :: "'s \<Rightarrow> join_index"
    and inv :: "'s \<Rightarrow> bool"
    and candidates :: "'s \<Rightarrow> candidates"
  assumes find_law: "inv s \<Longrightarrow> \<exists>link. ji_find (index s) columns hash row = Some link \<and>
      linked (\<lambda>b. ji_next (index s) columns b row) link (candidates s columns hash row)"
    and unique_law: "inv s \<Longrightarrow> ji_unique (index s) \<Longrightarrow> length (candidates s columns hash row) \<le> 1"
begin

lemma load_lanes_ok:
  assumes inv: "inv s" and wf: "sel_wf (pb_selection batch)" and sync: "sync plan st batch"
  shows "- 1 \<le> previous \<Longrightarrow> lanes_linked (index s) (pb_columns batch) lanes lss \<Longrightarrow>
    \<exists>lanes' row lss'. load_lanes (index s) st batch previous lanes = Some (lanes', row) \<and> previous \<le> row \<and>
      lanes_linked (index s) (pb_columns batch) lanes' lss' \<and>
      lane_pairs lanes' lss' @ rest_pairs plan (candidates s) batch row =
        lane_pairs lanes lss @ rest_pairs plan (candidates s) batch previous \<and>
      lane_weight lss' + rest_weight plan (candidates s) batch row + length lanes' \<le>
        lane_weight lss + rest_weight plan (candidates s) batch previous + length lanes \<and>
      (length lanes' < 64 \<longrightarrow> rows_from batch row = [])"
proof (induction "rows_from batch previous" arbitrary: previous lanes lss)
  case Nil
  then have "load_lanes (index s) st batch previous lanes = Some (lanes, previous)"
    using rows_from_next [OF wf Nil(2)] by (subst load_lanes.simps) (auto simp: Let_def split: if_splits)
  then show ?case using Nil by (intro exI [of _ lanes] exI [of _ previous] exI [of _ lss]) simp
next
  case (Cons r rs)
  let ?row = "selection_next (pb_selection batch) previous"
  show ?case
  proof (cases "length lanes < 64")
    case False
    then have "load_lanes (index s) st batch previous lanes = Some (lanes, previous)"
      by (subst load_lanes.simps) (simp add: Let_def)
    then show ?thesis using Cons False by (intro exI [of _ lanes] exI [of _ previous] exI [of _ lss]) simp
  next
    case True
    have row: "\<not> (?row < 0 \<or> ?row \<le> previous)" "nat ?row = r" "rs = rows_from batch ?row"
      using rows_from_next [OF wf Cons(3)] Cons(2) by (auto split: if_splits)
    have rows: "rows_from batch previous = r # rows_from batch ?row" using Cons(2) row(3) by simp
    have r: "r \<in> set (selected (pb_selection batch))"
      using rows by (metis filter_is_subset list.set_intros(1) rows_from_def subsetD)
    have pairs: "rest_pairs plan (candidates s) batch previous =
        row_pairs plan (candidates s) batch r @ rest_pairs plan (candidates s) batch ?row"
      by (simp add: rest_pairs_def rows)
    have weight: "rest_weight plan (candidates s) batch previous =
        2 + length (row_pairs plan (candidates s) batch r) + rest_weight plan (candidates s) batch ?row"
      by (simp add: rest_weight_def rows)
    have ge: "- 1 \<le> ?row" "previous \<le> ?row" using row(1) by auto
    show ?thesis
    proof (cases "keys_present (probe_keys plan batch) r")
      case False
      then have none: "load_probe_hash st r = None" and empty: "row_pairs plan (candidates s) batch r = []"
        using sync r by (auto simp: sync_def row_pairs_def)
      have step: "load_lanes (index s) st batch previous lanes = load_lanes (index s) st batch ?row lanes"
        using True row none by (subst load_lanes.simps) (simp add: Let_def)
      obtain lanes' row' lss' where IH: "load_lanes (index s) st batch ?row lanes = Some (lanes', row')" "?row \<le> row'"
        "lanes_linked (index s) (pb_columns batch) lanes' lss'"
        "lane_pairs lanes' lss' @ rest_pairs plan (candidates s) batch row' =
          lane_pairs lanes lss @ rest_pairs plan (candidates s) batch ?row"
        "lane_weight lss' + rest_weight plan (candidates s) batch row' + length lanes' \<le>
          lane_weight lss + rest_weight plan (candidates s) batch ?row + length lanes"
        "length lanes' < 64 \<longrightarrow> rows_from batch row' = []"
        using Cons(1) [OF row(3) ge(1) Cons(4)] by blast
      show ?thesis
        using IH pairs empty weight ge(2)
        by (intro exI [of _ lanes'] exI [of _ row'] exI [of _ lss']) (simp add: step)
    next
      case keys: True
      let ?h = "probe_hash plan batch r" and ?C = "candidates s (pb_columns batch)"
      have some: "load_probe_hash st r = Some ?h" and p: "row_pairs plan (candidates s) batch r = map (Pair r) (?C ?h r)"
        using sync r keys by (auto simp: sync_def row_pairs_def)
      obtain link where link: "ji_find (index s) (pb_columns batch) ?h r = Some link"
        "linked (\<lambda>b. ji_next (index s) (pb_columns batch) b r) link (?C ?h r)"
        using find_law [OF inv] by blast
      let ?lanes = "lanes @ [(r, link)]" and ?lss = "lss @ [?C ?h r]"
      note snoc = lanes_linked_snoc [OF Cons(4) link(2)]
      have step: "load_lanes (index s) st batch previous lanes = load_lanes (index s) st batch ?row ?lanes"
        using True row some link(1) by (subst load_lanes.simps) (simp add: Let_def)
      obtain lanes' row' lss' where IH: "load_lanes (index s) st batch ?row ?lanes = Some (lanes', row')" "?row \<le> row'"
        "lanes_linked (index s) (pb_columns batch) lanes' lss'"
        "lane_pairs lanes' lss' @ rest_pairs plan (candidates s) batch row' =
          lane_pairs ?lanes ?lss @ rest_pairs plan (candidates s) batch ?row"
        "lane_weight lss' + rest_weight plan (candidates s) batch row' + length lanes' \<le>
          lane_weight ?lss + rest_weight plan (candidates s) batch ?row + length ?lanes"
        "length lanes' < 64 \<longrightarrow> rows_from batch row' = []"
        using Cons(1) [OF row(3) ge(1) snoc(1)] by blast
      have "lane_pairs ?lanes ?lss @ rest_pairs plan (candidates s) batch ?row =
          lane_pairs lanes lss @ rest_pairs plan (candidates s) batch previous"
        using snoc(2) pairs p by simp
      moreover have "lane_weight ?lss + rest_weight plan (candidates s) batch ?row + length ?lanes =
          lane_weight lss + rest_weight plan (candidates s) batch previous + length lanes"
        using snoc(3) weight p by simp
      ultimately show ?thesis
        using IH ge(2) by (intro exI [of _ lanes'] exI [of _ row'] exI [of _ lss']) (simp add: step)
    qed
  qed
qed

lemma unique_rows_ok:
  assumes inv: "inv s" and u: "ji_unique (index s)" and wf: "sel_wf (pb_selection batch)"
    and sync: "sync plan st batch"
  shows "- 1 \<le> previous \<Longrightarrow> length out \<le> capacity \<Longrightarrow>
    \<exists>new row. unique_rows (index s) st batch capacity previous out = Some (out @ new, row) \<and> previous \<le> row \<and>
      new @ rest_pairs plan (candidates s) batch row = rest_pairs plan (candidates s) batch previous \<and>
      rest_weight plan (candidates s) batch row + length new \<le> rest_weight plan (candidates s) batch previous \<and>
      length (out @ new) \<le> capacity \<and> (length (out @ new) < capacity \<longrightarrow> rows_from batch row = [])"
proof (induction "rows_from batch previous" arbitrary: previous out)
  case Nil
  then have "unique_rows (index s) st batch capacity previous out = Some (out, previous)"
    using rows_from_next [OF wf Nil(2)] by (subst unique_rows.simps) (auto simp: Let_def split: if_splits)
  then show ?case using Nil by (intro exI [of _ "[]"] exI [of _ previous]) simp
next
  case (Cons r rs)
  let ?row = "selection_next (pb_selection batch) previous"
  show ?case
  proof (cases "length out < capacity")
    case False
    then have "unique_rows (index s) st batch capacity previous out = Some (out, previous)"
      by (subst unique_rows.simps) (simp add: Let_def)
    then show ?thesis using Cons False by (intro exI [of _ "[]"] exI [of _ previous]) simp
  next
    case True
    have row: "\<not> (?row < 0 \<or> ?row \<le> previous)" "nat ?row = r" "rs = rows_from batch ?row"
      using rows_from_next [OF wf Cons(3)] Cons(2) by (auto split: if_splits)
    have rows: "rows_from batch previous = r # rows_from batch ?row" using Cons(2) row(3) by simp
    have r: "r \<in> set (selected (pb_selection batch))"
      using rows by (metis filter_is_subset list.set_intros(1) rows_from_def subsetD)
    have ge: "- 1 \<le> ?row" "previous \<le> ?row" using row(1) by auto
    have "\<exists>now. unique_rows (index s) st batch capacity previous out =
        unique_rows (index s) st batch capacity ?row (out @ now) \<and>
        now = row_pairs plan (candidates s) batch r \<and> length now \<le> 1"
    proof (cases "keys_present (probe_keys plan batch) r")
      case False
      then have "load_probe_hash st r = None" "row_pairs plan (candidates s) batch r = []"
        using sync r by (auto simp: sync_def row_pairs_def)
      then show ?thesis using True row by (subst unique_rows.simps) (simp add: Let_def)
    next
      case keys: True
      let ?h = "probe_hash plan batch r"
      let ?ls = "candidates s (pb_columns batch) ?h r"
      have some: "load_probe_hash st r = Some ?h" and p: "row_pairs plan (candidates s) batch r = map (Pair r) ?ls"
        using sync r keys by (auto simp: sync_def row_pairs_def)
      obtain link where link: "ji_find (index s) (pb_columns batch) ?h r = Some link"
        "linked (\<lambda>b. ji_next (index s) (pb_columns batch) b r) link ?ls"
        using find_law [OF inv] by blast
      have len: "length ?ls \<le> 1" by (rule unique_law [OF inv u])
      have out: "(if link \<noteq> 0 then out @ [(r, link - 1)] else out) = out @ map (Pair r) ?ls"
        using link(2) len by (cases ?ls) (auto simp: linked_Suc)
      have "unique_rows (index s) st batch capacity previous out = unique_rows (index s) st batch capacity ?row
          (if link \<noteq> 0 then out @ [(r, link - 1)] else out)"
        using True row some link(1) by (subst unique_rows.simps) (simp add: Let_def)
      then show ?thesis unfolding out using p len by auto
    qed
    then obtain now where step: "unique_rows (index s) st batch capacity previous out =
        unique_rows (index s) st batch capacity ?row (out @ now)"
      and now: "now = row_pairs plan (candidates s) batch r" "length now \<le> 1" by blast
    have "length (out @ now) \<le> capacity" using now(2) True by simp
    then obtain new row' where IH: "unique_rows (index s) st batch capacity ?row (out @ now) = Some ((out @ now) @ new, row')"
      "?row \<le> row'" "new @ rest_pairs plan (candidates s) batch row' = rest_pairs plan (candidates s) batch ?row"
      "rest_weight plan (candidates s) batch row' + length new \<le> rest_weight plan (candidates s) batch ?row"
      "length ((out @ now) @ new) \<le> capacity" "length ((out @ now) @ new) < capacity \<longrightarrow> rows_from batch row' = []"
      using Cons(1) [OF row(3) ge(1)] by blast
    have "(now @ new) @ rest_pairs plan (candidates s) batch row' = rest_pairs plan (candidates s) batch previous"
      using IH(3) now(1) by (simp add: rest_pairs_def rows)
    moreover have "rest_weight plan (candidates s) batch row' + length (now @ new) \<le>
        rest_weight plan (candidates s) batch previous"
      using IH(4) now by (simp add: rest_weight_def rows)
    ultimately show ?thesis
      using IH ge(2) by (intro exI [of _ "now @ new"] exI [of _ row']) (simp add: step)
  qed
qed

lemma round_lanes_ok:
  "lanes_linked ix columns lanes lss \<Longrightarrow> length out < capacity \<Longrightarrow>
   round_lanes ix columns capacity lanes out = (processed, rest, out') \<Longrightarrow>
    \<exists>lss' new. lanes_linked ix columns (filter (\<lambda>lane. snd lane \<noteq> 0) processed @ rest) lss' \<and> out' = out @ new \<and>
      mset (lane_pairs lanes lss) = mset new + mset (lane_pairs (filter (\<lambda>lane. snd lane \<noteq> 0) processed @ rest) lss') \<and>
      length out' \<le> capacity \<and> lane_weight lss' + (if lanes = [] then 0 else 1) \<le> lane_weight lss"
proof (induction ix columns capacity lanes out arbitrary: lss processed rest out' rule: round_lanes.induct)
  case (1 ix columns capacity out)
  then show ?case by auto
next
  case (2 ix columns capacity row link lanes out)
  obtain ls lss1 where lss: "lss = ls # lss1" "linked (\<lambda>b. ji_next ix columns b row) link ls"
    "lanes_linked ix columns lanes lss1"
    using 2(3) by (auto simp: lanes_linked_Cons)
  show ?case
  proof (cases "link = 0")
    case True
    obtain p' r' o' where rl: "round_lanes ix columns capacity lanes out = (p', r', o')" by (metis prod_cases3)
    then have eq: "processed = (row, 0) # p'" "rest = r'" "out' = o'" using 2(5) True by auto
    have "ls = []" using lss(2) True by simp
    with 2(1) [OF True lss(3) 2(4) rl] show ?thesis by (auto simp: eq lss(1))
  next
    case False
    then obtain b ls' where b: "link = Suc b" "ls = b # ls'" "linked (\<lambda>b. ji_next ix columns b row) (ji_next ix columns b row) ls'"
      using lss(2) by (cases link) (auto simp: linked_Suc)
    let ?out = "out @ [(row, link - 1)]" and ?lane = "(row, ji_next ix columns (link - 1) row)"
    show ?thesis
    proof (cases "length ?out = capacity")
      case True
      then have eq: "processed = [?lane]" "rest = lanes" "out' = ?out" using 2(5) False by auto
      show ?thesis
      proof (cases "ji_next ix columns b row = 0")
        case z: True
        then have "ls' = []" using b(3) by simp
        then show ?thesis
          using lss b z True by (intro exI [of _ lss1] exI [of _ "[(row, b)]"]) (simp add: eq)
      next
        case nz: False
        then show ?thesis
          using lss b True by (intro exI [of _ "ls' # lss1"] exI [of _ "[(row, b)]"]) (simp add: eq)
      qed
    next
      case lt: False
      obtain p' r' o' where rl: "round_lanes ix columns capacity lanes ?out = (p', r', o')" by (metis prod_cases3)
      then have eq: "processed = ?lane # p'" "rest = r'" "out' = o'" using 2(5) False lt by (auto simp: Let_def)
      have "length ?out < capacity" using 2(4) lt by simp
      from 2(2) [OF False refl refl lt lss(3) this rl]
      obtain lss' new where IH: "lanes_linked ix columns (filter (\<lambda>lane. snd lane \<noteq> 0) p' @ r') lss'" "o' = ?out @ new"
        "mset (lane_pairs lanes lss1) = mset new + mset (lane_pairs (filter (\<lambda>lane. snd lane \<noteq> 0) p' @ r') lss')"
        "length o' \<le> capacity" "lane_weight lss' + (if lanes = [] then 0 else 1) \<le> lane_weight lss1"
        by blast
      have le: "lane_weight lss' \<le> lane_weight lss1" using IH(5) by (simp split: if_splits)
      show ?thesis
      proof (cases "ji_next ix columns b row = 0")
        case z: True
        then have "ls' = []" using b(3) by simp
        then show ?thesis
          using lss b z IH le by (intro exI [of _ lss'] exI [of _ "(row, b) # new"]) (simp add: eq)
      next
        case nz: False
        then show ?thesis
          using lss b IH le by (intro exI [of _ "ls' # lss'"] exI [of _ "(row, b) # new"]) (simp add: eq)
      qed
    qed
  qed
qed

end

end
