(* ===== verification/Join_Loop.thy ===== *)
theory Join_Loop
  imports Join_Probe
begin

text \<open>
  The loops of the join: every iteration of \<open>produce_output\<close> keeps the pairs still to come
  and lowers a weight, so the join ends and its batches are, together, exactly the
  candidate pairs that pass.
\<close>

definition tag_pairs :: "probe_batch \<Rightarrow> (nat \<times> nat) list \<Rightarrow> (probe_batch \<times> nat \<times> nat) multiset" where
  "tag_pairs batch ps = image_mset (Pair batch) (mset ps)"

lemma tag_pairs_simps [simp]:
  "tag_pairs batch [] = {#}"
  "tag_pairs batch (ps @ qs) = tag_pairs batch ps + tag_pairs batch qs"
  by (simp_all add: tag_pairs_def)

definition all_pairs :: "join_plan \<Rightarrow> candidates \<Rightarrow> probe_batch list \<Rightarrow> (probe_batch \<times> nat \<times> nat) multiset" where
  "all_pairs plan C batches = (\<Sum>batch \<leftarrow> batches. tag_pairs batch (rest_pairs plan C batch (- 1)))"

definition todo :: "join_plan \<Rightarrow> candidates \<Rightarrow> join_state \<Rightarrow> lane_rows \<Rightarrow> (probe_batch \<times> nat \<times> nat) multiset" where
  "todo plan C st lss =
     (case js_probe st of
        None \<Rightarrow> {#}
      | Some batch \<Rightarrow> tag_pairs batch (lane_pairs (js_lanes st) lss @ rest_pairs plan C batch (js_next_probe_row st))) +
     all_pairs plan C (js_input st)"

definition out_pairs :: "join_state \<Rightarrow> (probe_batch \<times> nat \<times> nat) multiset" where
  "out_pairs st = (case js_probe st of None \<Rightarrow> {#} | Some batch \<Rightarrow> tag_pairs batch (js_output st))"

definition weight :: "join_plan \<Rightarrow> candidates \<Rightarrow> join_state \<Rightarrow> lane_rows \<Rightarrow> nat" where
  "weight plan C st lss = lane_weight lss +
     (case js_probe st of
        None \<Rightarrow> 0
      | Some batch \<Rightarrow> (if js_probe_done_pending st then 0 else 1) + rest_weight plan C batch (js_next_probe_row st)) +
     (\<Sum>batch \<leftarrow> js_input st. 2 + rest_weight plan C batch (- 1))"

definition passes :: "join_plan \<Rightarrow> join_index \<Rightarrow> probe_batch \<times> nat \<times> nat \<Rightarrow> bool" where
  "passes plan ix = (\<lambda>(batch, pair). pair_passes plan ix batch pair)"

definition loop_ok :: "join_plan \<Rightarrow> join_index \<Rightarrow> join_state \<Rightarrow> lane_rows \<Rightarrow> bool" where
  "loop_ok plan ix st lss \<longleftrightarrow>
     (\<forall>batch \<in> set (js_input st). probe_wf plan (jp_outer_keys plan) batch) \<and>
     js_output_qualified st \<le> length (js_output st) \<and>
     (case js_probe st of
        None \<Rightarrow> js_lanes st = [] \<and> lss = [] \<and> js_output st = [] \<and> \<not> js_probe_done_pending st
      | Some batch \<Rightarrow>
          probe_wf plan (jp_outer_keys plan) batch \<and> sync plan st batch \<and> - 1 \<le> js_next_probe_row st \<and>
          lanes_linked ix (pb_columns batch) (js_lanes st) lss \<and>
          (\<forall>pair \<in> set (take (js_output_qualified st) (js_output st)). pair_passes plan ix batch pair) \<and>
          (js_probe_done_pending st \<longrightarrow> js_lanes st = [] \<and> lss = [] \<and> rows_from batch (js_next_probe_row st) = [] \<and>
             js_output st = []))"

text \<open>What one iteration, and the whole loop, guarantee: \<open>Q\<close> are the pairs to come, \<open>W\<close> the weight.\<close>

definition step_post ::
  "join_plan \<Rightarrow> join_index \<Rightarrow> candidates \<Rightarrow> (probe_batch \<times> nat \<times> nat) multiset \<Rightarrow> nat \<Rightarrow>
     bool option \<Rightarrow> join_state \<Rightarrow> bool" where
  "step_post plan ix C Q W r st \<longleftrightarrow>
     (case r of
        None \<Rightarrow> \<exists>lss. loop_ok plan ix st lss \<and> length (js_output st) < output_capacity plan \<and>
          Q = filter_mset (passes plan ix) (todo plan C st lss + out_pairs st) \<and> weight plan C st lss < W
      | Some found \<Rightarrow>
          if found then
            \<exists>lss batch. js_probe st = Some batch \<and> js_output st \<noteq> [] \<and> length (js_output st) \<le> output_capacity plan \<and>
              loop_ok plan ix (st\<lparr>js_output := [], js_output_qualified := 0\<rparr>) lss \<and>
              Q = tag_pairs batch (js_output st) + filter_mset (passes plan ix) (todo plan C st lss) \<and>
              weight plan C st lss < W
          else Q = {#})"

lemma output_capacity: "0 < output_capacity plan \<and> output_capacity plan \<le> 64"
  by (auto simp: output_capacity_def)

lemma todo_update [simp]:
  "todo plan C (st\<lparr>js_output := out\<rparr>) lss = todo plan C st lss"
  "todo plan C (st\<lparr>js_output_qualified := k\<rparr>) lss = todo plan C st lss"
  "todo plan C (st\<lparr>js_probe_done_pending := d\<rparr>) lss = todo plan C st lss"
  by (simp_all add: todo_def split: option.split)

lemma weight_update [simp]:
  "weight plan C (st\<lparr>js_output := out\<rparr>) lss = weight plan C st lss"
  "weight plan C (st\<lparr>js_output_qualified := k\<rparr>) lss = weight plan C st lss"
  by (simp_all add: weight_def split: option.split)

lemma sync_update [simp]:
  "sync plan (st\<lparr>js_output := out\<rparr>) batch = sync plan st batch"
  "sync plan (st\<lparr>js_output_qualified := k\<rparr>) batch = sync plan st batch"
  "sync plan (st\<lparr>js_probe_done_pending := d\<rparr>) batch = sync plan st batch"
  "sync plan (st\<lparr>js_lanes := lanes\<rparr>) batch = sync plan st batch"
  "sync plan (st\<lparr>js_next_probe_row := row\<rparr>) batch = sync plan st batch"
  by (simp_all add: sync_def load_probe_hash_def)

lemma filter_tag_pairs: "filter_mset (passes plan ix) (tag_pairs batch ps) = tag_pairs batch (filter (pair_passes plan ix batch) ps)"
  by (induction ps) (auto simp: tag_pairs_def passes_def)

lemma qualified_output:
  assumes "\<forall>pair \<in> set (take (js_output_qualified st) (js_output st)). P pair"
  shows "js_output (qualified_state P st) = filter P (js_output st) \<and>
    js_output_qualified (qualified_state P st) = length (filter P (js_output st)) \<and>
    qualified_state P st = st\<lparr>js_output := filter P (js_output st), js_output_qualified := length (filter P (js_output st))\<rparr>"
proof -
  let ?k = "js_output_qualified st" and ?out = "js_output st"
  have "filter P ?out = filter P (take ?k ?out) @ filter P (drop ?k ?out)"
    by (metis append_take_drop_id filter_append)
  also have "filter P (take ?k ?out) = take ?k ?out" using assms by (simp add: filter_id_conv)
  finally have "take ?k ?out @ filter P (drop ?k ?out) = filter P ?out" by simp
  then show ?thesis by (simp add: qualified_state_def Let_def)
qed

lemma sum_list_mset_append: "all_pairs plan C (batch # batches) = tag_pairs batch (rest_pairs plan C batch (- 1)) + all_pairs plan C batches"
  by (simp add: all_pairs_def)

section \<open>One iteration\<close>

lemma flush_full_ok:
  assumes valid: "quals_valid plan" and ok: "loop_ok plan ix st lss" and b: "js_probe st = Some batch"
    and pend: "\<not> js_probe_done_pending st"
    and len: "length (js_output st) \<le> output_capacity plan" and w: "weight plan C st lss < W"
  shows "\<exists>r st'. flush_full plan ix batch st = Inr (r, st') \<and>
    step_post plan ix C (filter_mset (passes plan ix) (todo plan C st lss + out_pairs st)) W r st'"
proof -
  let ?P = "pair_passes plan ix batch"
  have pre: "\<forall>pair \<in> set (take (js_output_qualified st) (js_output st)). ?P pair" "js_output_qualified st \<le> length (js_output st)"
    using ok b by (auto simp: loop_ok_def)
  note q = qualified_output [OF pre(1)]
  let ?st = "qualified_state ?P st"
  have qo: "qualify_output plan ix batch st = Inr ?st"
    by (rule qualify_output_eq [OF valid pre(2)]) (use len output_capacity [of plan] in linarith)
  have probe: "js_probe ?st = Some batch" using q b by simp
  have le: "length (js_output ?st) \<le> output_capacity plan"
    using q len le_trans [OF length_filter_le] by simp
  have td: "todo plan C ?st lss = todo plan C st lss" "weight plan C ?st lss = weight plan C st lss"
    using q by simp_all
  have out: "filter_mset (passes plan ix) (out_pairs st) = tag_pairs batch (js_output ?st)"
    using b q by (simp add: out_pairs_def filter_tag_pairs)
  show ?thesis
  proof (cases "output_full plan ?st")
    case True
    have "flush_full plan ix batch st = Inr (Some True, ?st)"
      using True by (simp add: flush_full_def qo)
    moreover have "js_output ?st \<noteq> []" using True output_capacity [of plan] by (auto simp: output_full_def)
    moreover have "loop_ok plan ix (?st\<lparr>js_output := [], js_output_qualified := 0\<rparr>) lss"
      using ok b pend q by (simp add: loop_ok_def)
    ultimately show ?thesis
      using probe le td out w by (auto simp: step_post_def add.commute)
  next
    case False
    have "flush_full plan ix batch st = Inr (None, ?st)"
      using False by (simp add: flush_full_def qo)
    moreover have "loop_ok plan ix ?st lss"
      using ok b pend q by (auto simp: loop_ok_def)
    moreover have "filter_mset (passes plan ix) (out_pairs ?st) = tag_pairs batch (js_output ?st)"
      using probe q by (simp add: out_pairs_def filter_tag_pairs)
    moreover have "length (js_output ?st) < output_capacity plan" using False le by (simp add: output_full_def)
    ultimately show ?thesis
      using td out w by (auto simp: step_post_def)
  qed
qed

lemma drain_output_ok:
  assumes valid: "quals_valid plan" and ok: "loop_ok plan ix st []" and b: "js_probe st = Some batch"
    and pend: "\<not> js_probe_done_pending st" and lanes: "js_lanes st = []"
    and rest: "rows_from batch (js_next_probe_row st) = []"
    and len: "length (js_output st) \<le> output_capacity plan" and w: "weight plan C st [] \<le> W"
  shows "\<exists>r st'. drain_output plan ix batch st = Inr (r, st') \<and>
    step_post plan ix C (filter_mset (passes plan ix) (todo plan C st [] + out_pairs st)) W r st'"
proof -
  let ?P = "pair_passes plan ix batch"
  have pre: "\<forall>pair \<in> set (take (js_output_qualified st) (js_output st)). ?P pair" "js_output_qualified st \<le> length (js_output st)"
    using ok b by (auto simp: loop_ok_def)
  note q = qualified_output [OF pre(1)]
  let ?st = "qualified_state ?P st"
  have qo: "qualify_output plan ix batch st = Inr ?st"
    by (rule qualify_output_eq [OF valid pre(2)]) (use len output_capacity [of plan] in linarith)
  have todo0: "todo plan C st [] = all_pairs plan C (js_input st)"
    using b lanes rest by (simp add: todo_def rest_pairs_def)
  have out: "filter_mset (passes plan ix) (out_pairs st) = tag_pairs batch (filter ?P (js_output st))"
    using b by (simp add: out_pairs_def filter_tag_pairs)
  have Q: "filter_mset (passes plan ix) (todo plan C st [] + out_pairs st) =
      filter_mset (passes plan ix) (all_pairs plan C (js_input st)) + tag_pairs batch (filter ?P (js_output st))"
    by (simp only: filter_union_mset todo0 out)
  have fin: "step_post plan ix C (filter_mset (passes plan ix) (all_pairs plan C (js_input st))) W None
      (finish_probe_batch u)" if "js_input u = js_input st" "js_output u = []" "js_lanes u = []"
      "\<not> js_probe_done_pending u" "js_output_qualified u = 0" for u
  proof -
    have "loop_ok plan ix (finish_probe_batch u) []"
      using ok that by (simp add: loop_ok_def finish_probe_batch_def)
    moreover have "weight plan C (finish_probe_batch u) [] < W"
      using w that b pend by (simp add: weight_def finish_probe_batch_def)
    ultimately show ?thesis
      using that output_capacity [of plan]
      by (auto simp: step_post_def todo_def out_pairs_def finish_probe_batch_def intro!: exI [of _ "[]"])
  qed
  have "\<exists>r st'. drain_output plan ix batch st = Inr (r, st') \<and>
    step_post plan ix C (filter_mset (passes plan ix) (all_pairs plan C (js_input st)) +
      tag_pairs batch (filter ?P (js_output st))) W r st'"
  proof (cases "filter ?P (js_output st) = []")
    case True
    show ?thesis
    proof (cases "js_output st = []")
      case e: True
      then have "js_output_qualified st = 0" "out_pairs st = {#}" using pre(2) b by (simp_all add: out_pairs_def)
      then show ?thesis using fin [of st] e lanes pend by (simp add: drain_output_def)
    next
      case False
      then have "drain_output plan ix batch st = Inr (None, finish_probe_batch ?st)"
        using True q by (simp add: drain_output_def qo)
      then show ?thesis using fin [of ?st] True q lanes pend by simp
    qed
  next
    case False
    then have ne: "js_output st \<noteq> []" by auto
    let ?u = "?st\<lparr>js_probe_done_pending := True\<rparr>"
    have "drain_output plan ix batch st = Inr (Some True, ?u)"
      using ne False q by (simp add: drain_output_def qo)
    moreover have "loop_ok plan ix (?u\<lparr>js_output := [], js_output_qualified := 0\<rparr>) []"
      using ok b q lanes rest by (simp add: loop_ok_def)
    moreover have "weight plan C ?u [] < W"
      using w b pend q by (simp add: weight_def)
    moreover have "todo plan C ?u [] = todo plan C st []" using q by simp
    moreover have "length (filter ?P (js_output st)) \<le> output_capacity plan"
      using len le_trans [OF length_filter_le] by blast
    ultimately show ?thesis
      using False q b todo0 by (auto simp: step_post_def add.commute)
  qed
  then show ?thesis unfolding Q .
qed

lemma fetch_ok:
  assumes ok: "loop_ok plan ix st []" and none: "js_probe st = None" and input: "js_input st = batch # batches"
  shows "\<exists>st'. fetch_probe_batch plan st = (True, st') \<and> js_probe st' = Some batch \<and> loop_ok plan ix st' [] \<and>
    \<not> js_probe_done_pending st' \<and> js_lanes st' = [] \<and> js_output st' = [] \<and>
    todo plan C st' [] = todo plan C st [] \<and> weight plan C st' [] < weight plan C st []"
proof -
  obtain w hs where h: "hash_input_batch plan (jp_outer_keys plan) batch = (w, hs)" by (metis surj_pair)
  have wf: "probe_wf plan (jp_outer_keys plan) batch" using ok input by (simp add: loop_ok_def)
  note hash = hash_input_batch_ok [OF wf h]
  define st' where "st' = st\<lparr>js_input := batches, js_probe := Some batch, js_next_probe_row := - 1,
    js_probe_hash_rows := w, js_probe_hashes := hs\<rparr>"
  have f: "fetch_probe_batch plan st = (True, st')"
    using input h by (simp add: fetch_probe_batch_def st'_def)
  have "sync plan st' batch"
    using hash by (auto simp: sync_def load_probe_hash_def st'_def probe_keys_def probe_hash_def)
  then have "loop_ok plan ix st' []"
    using ok none input wf by (auto simp: loop_ok_def st'_def)
  moreover have "todo plan C st' [] = todo plan C st []"
    using ok none input by (simp add: todo_def st'_def sum_list_mset_append loop_ok_def)
  moreover have "weight plan C st' [] < weight plan C st []"
    using ok none input by (simp add: weight_def st'_def loop_ok_def)
  ultimately show ?thesis
    using f ok none by (simp add: st'_def loop_ok_def)
qed

context join_candidates begin

lemma round_step_ok:
  assumes inv: "inv s" and valid: "quals_valid plan" and ok: "loop_ok plan (index s) st lss"
    and b: "js_probe st = Some batch" and pend: "\<not> js_probe_done_pending st" and lanes: "js_lanes st \<noteq> []"
    and len: "length (js_output st) < output_capacity plan"
  defines "C \<equiv> candidates s"
  shows "\<exists>r st'. round_step plan (index s) batch st = Inr (r, st') \<and> step_post plan (index s) C
    (filter_mset (passes plan (index s)) (todo plan C st lss + out_pairs st)) (weight plan C st lss) r st'"
proof -
  let ?ix = "index s"
  have linked: "lanes_linked ?ix (pb_columns batch) (js_lanes st) lss" using ok b by (simp add: loop_ok_def)
  obtain p rest out where rl: "round_lanes ?ix (pb_columns batch) (output_capacity plan) (js_lanes st) (js_output st) = (p, rest, out)"
    by (metis prod_cases3)
  let ?lanes = "filter (\<lambda>lane. snd lane \<noteq> 0) p @ rest"
  obtain lss' new where r: "lanes_linked ?ix (pb_columns batch) ?lanes lss'" "out = js_output st @ new"
    "mset (lane_pairs (js_lanes st) lss) = mset new + mset (lane_pairs ?lanes lss')"
    "length out \<le> output_capacity plan" "lane_weight lss' < lane_weight lss"
    using round_lanes_ok [OF linked len rl] lanes by auto
  define st1 where "st1 = st\<lparr>js_output := out, js_lanes := ?lanes\<rparr>"
  have pr: "probe_round plan ?ix batch st = st1"
    by (auto simp: probe_round_def rl st1_def Let_def)
  have ok1: "loop_ok plan ?ix st1 lss'"
    using ok b pend r(1,2) by (simp add: loop_ok_def st1_def)
  have pairs: "todo plan C st1 lss' + out_pairs st1 = todo plan C st lss + out_pairs st"
    using b r(2,3) by (simp add: todo_def out_pairs_def st1_def tag_pairs_def)
  have w: "weight plan C st1 lss' < weight plan C st lss"
    using b r(5) by (simp add: weight_def st1_def)
  have st1: "js_probe st1 = Some batch" "\<not> js_probe_done_pending st1" "length (js_output st1) \<le> output_capacity plan"
    using b pend r(4) by (simp_all add: st1_def)
  show ?thesis
  proof (cases "output_full plan st1")
    case True
    then show ?thesis
      using flush_full_ok [OF valid ok1 st1 w] unfolding pairs by (simp add: round_step_def pr)
  next
    case False
    then have "length (js_output st1) < output_capacity plan" using st1(3) by (simp add: output_full_def)
    then have "step_post plan ?ix C (filter_mset (passes plan ?ix) (todo plan C st lss + out_pairs st))
        (weight plan C st lss) None st1"
      using ok1 w unfolding pairs [symmetric] by (auto simp: step_post_def)
    then show ?thesis using False by (simp add: round_step_def pr)
  qed
qed

lemma search_step_ok:
  assumes inv: "inv s" and valid: "quals_valid plan" and ok: "loop_ok plan (index s) st []"
    and b: "js_probe st = Some batch" and pend: "\<not> js_probe_done_pending st" and lanes: "js_lanes st = []"
    and len: "length (js_output st) < output_capacity plan"
  defines "C \<equiv> candidates s"
  shows "\<exists>r st'. search_step plan (index s) batch st = Some (Inr (r, st')) \<and> step_post plan (index s) C
    (filter_mset (passes plan (index s)) (todo plan C st [] + out_pairs st)) (weight plan C st []) r st'"
proof -
  let ?ix = "index s"
  have wf: "sel_wf (pb_selection batch)" and sync: "sync plan st batch" and ge: "- 1 \<le> js_next_probe_row st"
    using ok b by (auto simp: loop_ok_def probe_wf_def)
  show ?thesis
  proof (cases "ji_unique ?ix")
    case True
    obtain new row where u: "unique_rows ?ix st batch (output_capacity plan) (js_next_probe_row st) (js_output st) =
        Some (js_output st @ new, row)" "js_next_probe_row st \<le> row"
      "new @ rest_pairs plan C batch row = rest_pairs plan C batch (js_next_probe_row st)"
      "rest_weight plan C batch row + length new \<le> rest_weight plan C batch (js_next_probe_row st)"
      "length (js_output st @ new) \<le> output_capacity plan"
      "length (js_output st @ new) < output_capacity plan \<longrightarrow> rows_from batch row = []"
      using unique_rows_ok [OF inv True wf sync ge, of "js_output st" "output_capacity plan"] len
      unfolding C_def by auto
    define st1 where "st1 = st\<lparr>js_output := js_output st @ new, js_next_probe_row := row\<rparr>"
    have ok1: "loop_ok plan ?ix st1 []"
      using ok b pend lanes ge u(2) by (simp add: loop_ok_def st1_def)
    have pairs: "todo plan C st1 [] + out_pairs st1 = todo plan C st [] + out_pairs st"
      using b lanes by (simp add: todo_def out_pairs_def st1_def u(3) [symmetric])
    have w: "weight plan C st1 [] + length new \<le> weight plan C st []"
      using b u(4) by (simp add: weight_def st1_def)
    have st1: "js_probe st1 = Some batch" "\<not> js_probe_done_pending st1" "length (js_output st1) \<le> output_capacity plan"
      using b pend u(5) by (simp_all add: st1_def)
    have pu: "probe_unique_rows plan ?ix batch st = Some (output_full plan st1, st1)"
      by (simp add: probe_unique_rows_def u(1) output_full_def st1_def)
    show ?thesis
    proof (cases "output_full plan st1")
      case full: True
      then have "new \<noteq> []" using len by (auto simp: output_full_def st1_def)
      then have w1: "weight plan C st1 [] < weight plan C st []" using w by (cases new) auto
      show ?thesis
        using flush_full_ok [OF valid ok1 st1 w1] full True unfolding pairs by (auto simp: search_step_def pu)
    next
      case False
      then have e: "rows_from batch (js_next_probe_row st1) = []"
        using u(5,6) by (simp add: output_full_def st1_def)
      have w1: "js_lanes st1 = []" "weight plan C st1 [] \<le> weight plan C st []"
        using lanes w by (simp_all add: st1_def)
      show ?thesis
        using drain_output_ok [OF valid ok1 st1(1,2) w1(1) e st1(3) w1(2)] False True unfolding pairs
        by (auto simp: search_step_def pu)
    qed
  next
    case False
    obtain lanes' row lss' where l: "load_lanes ?ix st batch (js_next_probe_row st) [] = Some (lanes', row)"
      "js_next_probe_row st \<le> row" "lanes_linked ?ix (pb_columns batch) lanes' lss'"
      "lane_pairs lanes' lss' @ rest_pairs plan C batch row = rest_pairs plan C batch (js_next_probe_row st)"
      "lane_weight lss' + rest_weight plan C batch row + length lanes' \<le> rest_weight plan C batch (js_next_probe_row st)"
      "length lanes' < 64 \<longrightarrow> rows_from batch row = []"
      using load_lanes_ok [OF inv wf sync ge, of "[]" "[]"] unfolding C_def by auto
    define st1 where "st1 = st\<lparr>js_lanes := lanes', js_next_probe_row := row\<rparr>"
    have pw: "load_probe_window ?ix batch st = Some (lanes' \<noteq> [], st1)"
      by (simp add: load_probe_window_def l(1) st1_def)
    have ok1: "loop_ok plan ?ix st1 lss'"
      using ok b pend ge l(2,3) by (simp add: loop_ok_def st1_def)
    have pairs: "todo plan C st1 lss' + out_pairs st1 = todo plan C st [] + out_pairs st"
      using b lanes by (simp add: todo_def out_pairs_def st1_def l(4) [symmetric])
    have w: "weight plan C st1 lss' + length lanes' \<le> weight plan C st []"
      using b l(5) by (simp add: weight_def st1_def)
    have st1: "js_probe st1 = Some batch" "\<not> js_probe_done_pending st1" "length (js_output st1) \<le> output_capacity plan"
      using b pend len by (simp_all add: st1_def)
    show ?thesis
    proof (cases "lanes' = []")
      case True
      then have lss': "lss' = []" using l(3) by simp
      have e: "rows_from batch (js_next_probe_row st1) = []" "js_lanes st1 = []"
        using l(6) True by (simp_all add: st1_def)
      have w1: "weight plan C st1 [] \<le> weight plan C st []" using w lss' by simp
      show ?thesis
        using drain_output_ok [OF valid ok1 [unfolded lss'] st1(1,2) e(2,1) st1(3) w1] False True
        unfolding pairs [unfolded lss'] by (auto simp: search_step_def pw)
    next
      case ne: False
      then have "weight plan C st1 lss' < weight plan C st []" using w by (cases lanes') auto
      moreover have "length (js_output st1) < output_capacity plan" using len by (simp add: st1_def)
      ultimately have "step_post plan ?ix C (filter_mset (passes plan ?ix) (todo plan C st [] + out_pairs st))
          (weight plan C st []) None st1"
        using ok1 unfolding pairs [symmetric] by (auto simp: step_post_def)
      then show ?thesis using False ne by (simp add: search_step_def pw)
    qed
  qed
qed

lemma step_post_mono: "step_post plan ix C Q W r st \<Longrightarrow> W \<le> W' \<Longrightarrow> step_post plan ix C Q W' r st"
  unfolding step_post_def by (cases r) (auto split: if_splits; use less_le_trans in blast)+

lemma produce_step_ok:
  assumes inv: "inv s" and valid: "quals_valid plan" and ok: "loop_ok plan (index s) st lss"
    and len: "length (js_output st) < output_capacity plan"
  defines "C \<equiv> candidates s"
  shows "\<exists>r st'. produce_step plan (index s) st = Some (Inr (r, st')) \<and> step_post plan (index s) C
    (filter_mset (passes plan (index s)) (todo plan C st lss + out_pairs st)) (weight plan C st lss) r st'"
proof -
  let ?ix = "index s"
  define Q where "Q = filter_mset (passes plan ?ix) (todo plan C st lss + out_pairs st)"
  define st0 where "st0 = (if js_probe_done_pending st then (finish_probe_batch st)\<lparr>js_probe_done_pending := False\<rparr> else st)"
  have st0: "loop_ok plan ?ix st0 lss \<and> \<not> js_probe_done_pending st0 \<and>
    todo plan C st0 lss + out_pairs st0 = todo plan C st lss + out_pairs st \<and> weight plan C st0 lss \<le> weight plan C st lss \<and>
    length (js_output st0) < output_capacity plan"
  proof (cases "js_probe_done_pending st")
    case False
    then show ?thesis using ok len by (simp add: st0_def)
  next
    case True
    then obtain batch where b: "js_probe st = Some batch" using ok by (auto simp: loop_ok_def split: option.splits)
    then have e: "js_lanes st = []" "lss = []" "rows_from batch (js_next_probe_row st) = []" "js_output st = []"
      using ok True by (auto simp: loop_ok_def)
    have "loop_ok plan ?ix st0 lss" using ok True e by (simp add: loop_ok_def st0_def finish_probe_batch_def)
    moreover have "weight plan C st0 lss \<le> weight plan C st lss"
      using True b by (simp add: weight_def st0_def finish_probe_batch_def)
    ultimately show ?thesis
      using True b e len
      by (simp add: st0_def finish_probe_batch_def todo_def out_pairs_def rest_pairs_def)
  qed
  have step: "produce_step plan ?ix st = (if js_lanes st0 \<noteq> [] then Some (round_step plan ?ix (the (js_probe st0)) st0)
         else
           (let (found, st) = (if js_probe st0 = None then fetch_probe_batch plan st0 else (True, st0))
            in if \<not> found then Some (Inr (Some (js_output st \<noteq> []), st))
               else search_step plan ?ix (the (js_probe st)) st))"
    by (simp add: produce_step_def st0_def Let_def)
  have Q: "filter_mset (passes plan ?ix) (todo plan C st0 lss + out_pairs st0) = Q"
    unfolding Q_def using st0 by (simp only:)
  note mono = step_post_mono [of plan ?ix C Q "weight plan C st0 lss" _ _ "weight plan C st lss"]
  have "\<exists>r st'. produce_step plan ?ix st = Some (Inr (r, st')) \<and> step_post plan ?ix C Q (weight plan C st lss) r st'"
  proof (cases "js_lanes st0 = []")
    case False
    then obtain batch where b: "js_probe st0 = Some batch" using st0 by (auto simp: loop_ok_def split: option.splits)
    obtain r st' where "round_step plan ?ix batch st0 = Inr (r, st')"
      "step_post plan ?ix C Q (weight plan C st0 lss) r st'"
      using round_step_ok [OF inv valid _ b _ False] st0 unfolding Q [symmetric] C_def by blast
    then show ?thesis using False b st0 mono by (auto simp: step)
  next
    case True
    have lss: "lss = []" using True st0 by (auto simp: loop_ok_def split: option.splits)
    show ?thesis
    proof (cases "js_probe st0")
      case (Some batch)
      obtain r st' where "search_step plan ?ix batch st0 = Some (Inr (r, st'))"
        "step_post plan ?ix C Q (weight plan C st0 lss) r st'"
        using search_step_ok [OF inv valid _ Some _ True] st0 unfolding Q [symmetric] lss C_def by blast
      then show ?thesis using True Some st0 mono by (auto simp: step)
    next
      case None
      then have o: "js_output st0 = []" using st0 by (simp add: loop_ok_def)
      show ?thesis
      proof (cases "js_input st0")
        case Nil
        then have "produce_step plan ?ix st = Some (Inr (Some False, st0))"
          using True None o by (simp add: step fetch_probe_batch_def)
        moreover have "Q = {#}"
          unfolding Q [symmetric] using Nil None by (simp add: todo_def out_pairs_def all_pairs_def)
        ultimately show ?thesis by (simp add: step_post_def)
      next
        case (Cons batch batches)
        obtain st1 where f: "fetch_probe_batch plan st0 = (True, st1)" "js_probe st1 = Some batch" "loop_ok plan ?ix st1 []"
          "\<not> js_probe_done_pending st1" "js_lanes st1 = []" "js_output st1 = []"
          "todo plan C st1 [] = todo plan C st0 []" "weight plan C st1 [] < weight plan C st0 []"
          using fetch_ok [OF _ None Cons, of plan ?ix C] st0 lss by blast
        have len1: "length (js_output st1) < output_capacity plan" using f(6) output_capacity [of plan] by simp
        obtain r st' where s: "search_step plan ?ix batch st1 = Some (Inr (r, st'))"
          "step_post plan ?ix C (filter_mset (passes plan ?ix) (todo plan C st1 [] + out_pairs st1)) (weight plan C st1 []) r st'"
          using search_step_ok [OF inv valid f(3,2,4,5) len1] unfolding C_def by blast
        have "out_pairs st1 = {#}" "out_pairs st0 = {#}" using f(2,6) None by (simp_all add: out_pairs_def)
        then have Q1: "filter_mset (passes plan ?ix) (todo plan C st1 [] + out_pairs st1) = Q"
          unfolding Q [symmetric] lss f(7) by (simp only:)
        have "weight plan C st1 [] \<le> weight plan C st lss" using f(8) st0 lss by simp
        then have "step_post plan ?ix C Q (weight plan C st lss) r st'"
          using step_post_mono [OF s(2) [unfolded Q1]] by blast
        then show ?thesis using True None f(1,2) s(1) by (auto simp: step)
      qed
    qed
  qed
  then show ?thesis unfolding Q_def .
qed

end

end
