(* ===== verification/Join_Correct.thy ===== *)
theory Join_Correct
  imports Join_Loop
begin

text \<open>
  The hash join as a whole: the loops over all batches for any index that keeps its
  promises, the serial table as an interpretation of that interface, and the join of a
  table built in memory with the batches of the probe side.
\<close>

section \<open>All batches\<close>

text \<open>Every published batch has rows, and no more than the parent asked for.\<close>

definition outs_ok :: "join_plan \<Rightarrow> (probe_batch \<times> (nat \<times> nat) list) list \<Rightarrow> bool" where
  "outs_ok plan outs \<longleftrightarrow> (\<forall>(batch, ps) \<in> set outs. ps \<noteq> [] \<and> length ps \<le> output_capacity plan)"

context join_candidates begin

lemma produce_loop_ok:
  assumes inv: "inv s" and valid: "quals_valid plan"
  defines "C \<equiv> candidates s"
  shows "loop_ok plan (index s) st lss \<Longrightarrow> length (js_output st) < output_capacity plan \<Longrightarrow>
    \<exists>found st'. produce_loop plan (index s) st = Some (Inr (found, st')) \<and> step_post plan (index s) C
      (filter_mset (passes plan (index s)) (todo plan C st lss + out_pairs st)) (weight plan C st lss) (Some found) st'"
proof (induction "weight plan C st lss" arbitrary: st lss rule: less_induct)
  case less
  let ?ix = "index s"
  obtain r st1 where step: "produce_step plan ?ix st = Some (Inr (r, st1))"
    "step_post plan ?ix C (filter_mset (passes plan ?ix) (todo plan C st lss + out_pairs st)) (weight plan C st lss) r st1"
    using produce_step_ok [OF inv valid less.prems] unfolding C_def by blast
  show ?case
  proof (cases r)
    case (Some found)
    then have "produce_loop plan ?ix st = Some (Inr (found, st1))"
      using step(1) by (subst produce_loop.simps) simp
    then show ?thesis using step(2) Some by blast
  next
    case None
    obtain lss1 where l: "loop_ok plan ?ix st1 lss1" "length (js_output st1) < output_capacity plan"
      "filter_mset (passes plan ?ix) (todo plan C st lss + out_pairs st) =
        filter_mset (passes plan ?ix) (todo plan C st1 lss1 + out_pairs st1)"
      "weight plan C st1 lss1 < weight plan C st lss"
      using step(2) None unfolding step_post_def by auto
    obtain found st' where IH: "produce_loop plan ?ix st1 = Some (Inr (found, st'))"
      "step_post plan ?ix C (filter_mset (passes plan ?ix) (todo plan C st1 lss1 + out_pairs st1))
        (weight plan C st1 lss1) (Some found) st'"
      using less.hyps [OF l(4) l(1,2)] by blast
    have "produce_loop plan ?ix st = Some (Inr (found, st'))"
      using step(1) None IH(1) by (subst produce_loop.simps) simp
    then show ?thesis
      using step_post_mono [OF IH(2) less_imp_le [OF l(4)]] unfolding l(3) by blast
  qed
qed

lemma join_all_ok:
  assumes inv: "inv s" and valid: "quals_valid plan"
  defines "C \<equiv> candidates s"
  shows "loop_ok plan (index s) (st\<lparr>js_output := [], js_output_qualified := 0\<rparr>) lss \<Longrightarrow>
    \<exists>outs. join_all plan (index s) st = Some (Inr outs) \<and> outs_ok plan outs \<and>
      (\<Sum>(batch, ps) \<leftarrow> outs. tag_pairs batch ps) = filter_mset (passes plan (index s)) (todo plan C st lss)"
proof (induction "weight plan C st lss" arbitrary: st lss rule: less_induct)
  case less
  let ?ix = "index s" and ?st = "st\<lparr>js_output := [], js_output_qualified := 0\<rparr>"
  have len: "length (js_output ?st) < output_capacity plan" using output_capacity [of plan] by simp
  have o: "out_pairs ?st = {#}" by (simp add: out_pairs_def split: option.split)
  obtain found st1 where p: "produce_output plan ?ix st = Some (Inr (found, st1))"
    "step_post plan ?ix C (filter_mset (passes plan ?ix) (todo plan C st lss)) (weight plan C st lss) (Some found) st1"
    using produce_loop_ok [OF inv valid less.prems len] o unfolding C_def [symmetric] produce_output_def by auto
  show ?case
  proof (cases found)
    case False
    then have "join_all plan ?ix st = Some (Inr [])" using p(1) by (subst join_all.simps) simp
    then show ?thesis using p(2) False by (simp add: step_post_def outs_ok_def)
  next
    case True
    obtain lss1 batch where l: "js_probe st1 = Some batch" "js_output st1 \<noteq> []"
      "length (js_output st1) \<le> output_capacity plan"
      "loop_ok plan ?ix (st1\<lparr>js_output := [], js_output_qualified := 0\<rparr>) lss1"
      "filter_mset (passes plan ?ix) (todo plan C st lss) =
        tag_pairs batch (js_output st1) + filter_mset (passes plan ?ix) (todo plan C st1 lss1)"
      "weight plan C st1 lss1 < weight plan C st lss"
      using p(2) True unfolding step_post_def by auto
    obtain outs where IH: "join_all plan ?ix st1 = Some (Inr outs)" "outs_ok plan outs"
      "(\<Sum>(batch, ps) \<leftarrow> outs. tag_pairs batch ps) = filter_mset (passes plan ?ix) (todo plan C st1 lss1)"
      using less.hyps [OF l(6) l(4)] by blast
    have "join_all plan ?ix st = Some (Inr ((batch, js_output st1) # outs))"
      using p(1) True IH(1) l(1) by (subst join_all.simps) simp
    then show ?thesis
      using IH l by (auto simp: outs_ok_def)
  qed
qed

end

text \<open>The state in which the executor starts probing.\<close>

definition join_start :: "probe_batch list \<Rightarrow> join_state" where
  "join_start batches = \<lparr>js_input = batches, js_probe = None, js_probe_hash_rows = 0,
     js_probe_hashes = replicate PG_BATCH_SIZE 0, js_next_probe_row = - 1, js_lanes = [],
     js_probe_done_pending = False, js_output = [], js_output_qualified = 0\<rparr>"

section \<open>The serial table\<close>

definition serial_candidates :: "join_plan \<Rightarrow> build_store \<Rightarrow> candidates" where
  "serial_candidates plan s columns hash row =
     rev (filter (\<lambda>r. row_tag (jp_inner_keys plan) s r =
         (hash, map (\<lambda>key. fst (hash_join_input_value (columns ! key) row)) (butlast (jp_outer_keys plan))))
       [0..<bs_nrows s])"

definition serial_inv :: "join_plan \<Rightarrow> build_store \<Rightarrow> bool" where
  "serial_inv plan s \<longleftrightarrow> table_ok (jp_inner_keys plan) s (bs_nrows s) \<and>
     length (jp_outer_keys plan) = length (jp_inner_keys plan)"

lemma chain_linked:
  assumes "\<And>r. r < link \<Longrightarrow> nexts ! r \<le> r"
  shows "linked (\<lambda>b. nexts ! b) link (chain nexts link)"
  using assms
proof (induction nexts link rule: chain.induct)
  case (2 nexts r)
  have le: "nexts ! r \<le> r" using 2(2) by simp
  have "linked (\<lambda>b. nexts ! b) (nexts ! r) (chain nexts (nexts ! r))"
    by (rule 2(1) [OF le]) (use 2(2) le in \<open>meson less_SucI less_le_trans\<close>)
  with le show ?case by simp
qed simp

lemma serial_find:
  assumes "serial_inv plan s"
  shows "\<exists>link. ji_find (serial_index plan s) columns hash row = Some link \<and>
      linked (\<lambda>b. ji_next (serial_index plan s) columns b row) link (serial_candidates plan s columns hash row)"
proof -
  have ok: "table_ok (jp_inner_keys plan) s (bs_nrows s)" and len: "length (jp_outer_keys plan) = length (jp_inner_keys plan)"
    using assms by (auto simp: serial_inv_def)
  obtain link where link: "find_build_head (jp_inner_keys plan) (jp_outer_keys plan) columns s hash row = Some link"
    "link \<le> bs_nrows s" "chain (bs_nexts s) link = serial_candidates plan s columns hash row"
    using find_build_head_ok [OF ok len refl] unfolding serial_candidates_def by blast
  have "bs_nexts s ! r \<le> r" if "r < link" for r
    using ok that link(2) by (auto simp: table_ok_def table_inv_def)
  then have "linked (\<lambda>b. bs_nexts s ! b) link (chain (bs_nexts s) link)" by (rule chain_linked)
  then show ?thesis
    using link(1,3) by (simp add: serial_index_def)
qed

lemma serial_unique:
  assumes "serial_inv plan s" "ji_unique (serial_index plan s)"
  shows "length (serial_candidates plan s columns hash row) \<le> 1"
proof -
  let ?tag = "row_tag (jp_inner_keys plan) s"
  let ?t = "(hash, map (\<lambda>key. fst (hash_join_input_value (columns ! key) row)) (butlast (jp_outer_keys plan)))"
  have inj: "inj_on ?tag {..<bs_nrows s}"
    using assms by (simp add: serial_inv_def table_ok_def serial_index_def)
  let ?rows = "filter (\<lambda>r. ?tag r = ?t) [0..<bs_nrows s]"
  have "a = b" if "a \<in> set ?rows" "b \<in> set ?rows" for a b
    using inj_onD [OF inj, of a b] that by simp
  then have "card (set ?rows) \<le> 1" by (simp add: card_le_Suc0_iff_eq)
  moreover have "card (set ?rows) = length ?rows" by (rule distinct_card) simp
  ultimately show ?thesis by (simp add: serial_candidates_def)
qed

interpretation serial: join_candidates "serial_index plan" "serial_inv plan" "serial_candidates plan" for plan
  by unfold_locales (fact serial_find, fact serial_unique)

section \<open>Keys and hashes\<close>

text \<open>
  What the code relies on in \<open>murmurhash32\<close> and \<open>hash_combine\<close>: the first is a permutation,
  the second reversible in its second argument.
\<close>

definition reversible_hash :: "join_plan \<Rightarrow> bool" where
  "reversible_hash plan \<longleftrightarrow> inj (jp_murmurhash32 plan) \<and> (\<forall>h. inj (jp_hash_combine plan h))"

text \<open>Rows of the build side: none of the keys is NULL and the hash is that of the keys.\<close>

definition row_keys :: "nat list \<Rightarrow> row \<Rightarrow> int4 option list" where
  "row_keys keys row = map (\<lambda>key. snd row ! key) keys"

definition build_row_ok :: "join_plan \<Rightarrow> row \<Rightarrow> bool" where
  "build_row_ok plan row \<longleftrightarrow> None \<notin> set (row_keys (jp_inner_keys plan) row) \<and>
     fst row = row_hash (jp_murmurhash32 plan) (jp_hash_combine plan) (map the (row_keys (jp_inner_keys plan) row))"

lemma row_hash_last:
  assumes "reversible_hash plan" "length xs = length ys" "xs \<noteq> []" "butlast xs = butlast ys"
    "row_hash (jp_murmurhash32 plan) (jp_hash_combine plan) xs = row_hash (jp_murmurhash32 plan) (jp_hash_combine plan) ys"
  shows "xs = ys"
proof -
  obtain ps x where xs: "xs = ps @ [x]" using assms(3) by (metis append_butlast_last_id)
  have "ys \<noteq> []" using assms(2,3) by auto
  then obtain qs y where ys: "ys = qs @ [y]" by (metis append_butlast_last_id)
  have ps: "ps = qs" using assms(4) by (simp add: xs ys)
  have "jp_murmurhash32 plan x = jp_murmurhash32 plan y"
    using assms(1,5) by (auto simp: xs ys ps row_hash_snoc reversible_hash_def split: if_splits dest: injD)
  then have "x = y" using assms(1) by (auto simp: reversible_hash_def dest: injD)
  then show ?thesis by (simp add: xs ys ps)
qed

text \<open>A plan whose column numbers fit the two sides.\<close>

definition plan_wf :: "join_plan \<Rightarrow> bool" where
  "plan_wf plan \<longleftrightarrow> jp_inner_keys plan \<noteq> [] \<and> length (jp_outer_keys plan) = length (jp_inner_keys plan) \<and>
     (\<forall>key \<in> set (jp_inner_keys plan). key < jp_ninner_columns plan) \<and>
     (\<forall>qual \<in> set (jp_quals plan).
        jq_left_column qual < jp_nouter_columns plan + jp_ninner_columns plan \<and>
        jq_right_column qual < jp_nouter_columns plan + jp_ninner_columns plan) \<and>
     quals_valid plan"

text \<open>The build rows that join a probe row: equal keys, none NULL.\<close>

definition batch_keys :: "nat list \<Rightarrow> probe_batch \<Rightarrow> nat \<Rightarrow> int4 option list" where
  "batch_keys keys batch row = map (\<lambda>key. vec_get (pb_columns batch ! key) row) keys"

definition matching_rows :: "join_plan \<Rightarrow> row list \<Rightarrow> probe_batch \<Rightarrow> nat \<Rightarrow> nat list" where
  "matching_rows plan brows batch row =
     filter (\<lambda>j. None \<notin> set (batch_keys (jp_outer_keys plan) batch row) \<and>
         row_keys (jp_inner_keys plan) (brows ! j) = batch_keys (jp_outer_keys plan) batch row)
       [0..<length brows]"

lemma store_rows_nth: "j < bs_nrows s \<Longrightarrow> store_rows s ! j = (bs_hashes s ! j, store_cells s j)"
  by (simp add: store_rows_def)

lemma store_cell:
  "column < bs_ncolumns s \<Longrightarrow> store_cells s j ! column =
     (if build_value_valid s column j then Some (bs_values s ! column ! j) else None)"
  by (simp add: store_cells_def)

lemma map_Some_the: "None \<notin> set xs \<Longrightarrow> map Some (map the xs) = xs"
  by (induction xs) auto

lemma row_tag_keys:
  assumes j: "j < bs_nrows s" and keys: "\<forall>key \<in> set keys. key < bs_ncolumns s"
    and ok: "None \<notin> set (row_keys keys (store_rows s ! j))"
  shows "row_tag keys s j = (fst (store_rows s ! j), butlast (map the (row_keys keys (store_rows s ! j))))"
proof -
  have "bs_values s ! key ! j = the (snd (store_rows s ! j) ! key)" if "key \<in> set keys" for key
    using that ok keys j store_cell [of key s j] by (force simp: row_keys_def store_rows_nth split: if_splits)
  then have "map (\<lambda>key. bs_values s ! key ! j) keys = map the (row_keys keys (store_rows s ! j))"
    by (simp add: row_keys_def)
  then have "map (\<lambda>key. bs_values s ! key ! j) (butlast keys) = butlast (map the (row_keys keys (store_rows s ! j)))"
    by (metis map_butlast)
  then show ?thesis
    using j by (simp only: row_tag_def) (simp add: store_rows_nth)
qed

lemma probe_key_values:
  assumes "keys_present (probe_keys plan batch) r"
  shows "batch_keys (jp_outer_keys plan) batch r = map Some (key_values (probe_keys plan batch) r)"
    and "map (\<lambda>key. fst (hash_join_input_value (pb_columns batch ! key) r)) (butlast (jp_outer_keys plan)) =
      butlast (key_values (probe_keys plan batch) r)"
  using assms
  by (auto simp: keys_present_def probe_keys_def batch_keys_def key_values_def vec_get_def hash_join_input_value_def
      Let_def map_butlast [symmetric] split: if_splits dest!: in_set_butlastD)

lemma serial_candidates_eq:
  assumes rev: "reversible_hash plan" and pw: "plan_wf plan" and n: "bs_ncolumns s = jp_ninner_columns plan"
    and rows: "\<forall>row \<in> set (store_rows s). build_row_ok plan row"
    and present: "keys_present (probe_keys plan batch) r"
  shows "serial_candidates plan s (pb_columns batch) (probe_hash plan batch r) r =
    List.rev (matching_rows plan (store_rows s) batch r)"
proof -
  let ?inner = "jp_inner_keys plan" and ?pk = "key_values (probe_keys plan batch) r"
  let ?hash = "row_hash (jp_murmurhash32 plan) (jp_hash_combine plan)"
  have tag: "row_tag ?inner s j = (probe_hash plan batch r, butlast ?pk) \<longleftrightarrow>
      row_keys ?inner (store_rows s ! j) = map Some ?pk" if j: "j < bs_nrows s" for j
  proof -
    let ?row = "store_rows s ! j"
    let ?bk = "map the (row_keys ?inner ?row)"
    have "?row \<in> set (store_rows s)" using j by (metis length_store_rows nth_mem)
    then have ok: "None \<notin> set (row_keys ?inner ?row)" "fst ?row = ?hash ?bk"
      using rows by (auto simp: build_row_ok_def)
    have "\<forall>key \<in> set ?inner. key < bs_ncolumns s" using pw n by (simp add: plan_wf_def)
    from row_tag_keys [OF j this ok(1)] have t: "row_tag ?inner s j = (?hash ?bk, butlast ?bk)" using ok(2) by simp
    have len: "length ?bk = length ?pk" "?bk \<noteq> []"
      using pw by (auto simp: row_keys_def key_values_def probe_keys_def plan_wf_def)
    have some: "row_keys ?inner ?row = map Some ?bk" by (rule map_Some_the [OF ok(1), symmetric])
    have "row_tag ?inner s j = (probe_hash plan batch r, butlast ?pk) \<longleftrightarrow> ?bk = ?pk"
      using row_hash_last [OF rev len] by (auto simp: t probe_hash_def)
    also have "\<dots> \<longleftrightarrow> map Some ?bk = map Some ?pk" by (rule inj_map_eq_map [OF inj_Some, symmetric])
    also have "map Some ?bk = row_keys ?inner ?row" by (rule some [symmetric])
    finally show ?thesis .
  qed
  note pk = probe_key_values [OF present]
  have "None \<notin> set (batch_keys (jp_outer_keys plan) batch r)" unfolding pk(1) by auto
  then show ?thesis
    unfolding serial_candidates_def matching_rows_def pk length_store_rows
    by (intro arg_cong [where f = List.rev] filter_cong) (auto simp: tag)
qed


section \<open>The join of two lists of batches\<close>

text \<open>The rows the build side stores: the selected rows with no NULL key, in order.\<close>

definition built_rows :: "join_plan \<Rightarrow> probe_batch list \<Rightarrow> row list" where
  "built_rows plan batches = concat (map (\<lambda>batch.
     let keys = map (\<lambda>key. pb_columns batch ! key) (jp_inner_keys plan)
     in map (\<lambda>r. (row_hash (jp_murmurhash32 plan) (jp_hash_combine plan) (key_values keys r),
              map (\<lambda>column. vec_get (pb_columns batch ! column) r) [0..<jp_ninner_columns plan]))
          (filter (keys_present keys) (selected (pb_selection batch)))) batches)"

definition joined_value :: "join_plan \<Rightarrow> row list \<Rightarrow> probe_batch \<Rightarrow> nat \<times> nat \<Rightarrow> nat \<Rightarrow> int4 option" where
  "joined_value plan brows batch = (\<lambda>(i, j) column.
     if column < jp_nouter_columns plan then vec_get (pb_columns batch ! column) i
     else snd (brows ! j) ! (column - jp_nouter_columns plan))"

definition qual_holds :: "batch_join_qual \<Rightarrow> int4 option \<Rightarrow> int4 option \<Rightarrow> bool" where
  "qual_holds qual left right =
     (case (left, right) of
        (Some l, Some r) \<Rightarrow>
          (case jq_func qual of
             None \<Rightarrow> eval_builtin_int4_qual (jq_funcid qual) l r = Inr True
           | Some f \<Rightarrow> f l r = Some True)
      | _ \<Rightarrow> False)"

definition join_condition :: "join_plan \<Rightarrow> row list \<Rightarrow> probe_batch \<times> nat \<times> nat \<Rightarrow> bool" where
  "join_condition plan brows = (\<lambda>(batch, pair).
     let val = joined_value plan brows batch pair
     in (\<forall>qual \<in> set (jp_quals plan). qual_holds qual (val (jq_left_column qual)) (val (jq_right_column qual))) \<and>
        (case jp_scalar_qual plan of
           None \<Rightarrow> True
         | Some qual \<Rightarrow> qual (map (\<lambda>column. if column \<in> jp_qual_raw_columns plan
             then map_option int32_get_datum (val column) else None)
             [0..<jp_nouter_columns plan + jp_ninner_columns plan])))"

definition matching_pairs :: "join_plan \<Rightarrow> row list \<Rightarrow> probe_batch \<Rightarrow> (nat \<times> nat) list" where
  "matching_pairs plan brows batch =
     concat (map (\<lambda>i. map (Pair i) (matching_rows plan brows batch i)) (selected (pb_selection batch)))"

definition join_result :: "join_plan \<Rightarrow> row list \<Rightarrow> probe_batch list \<Rightarrow> (probe_batch \<times> nat \<times> nat) multiset" where
  "join_result plan brows batches = filter_mset (join_condition plan brows)
     (\<Sum>batch \<leftarrow> batches. tag_pairs batch (matching_pairs plan brows batch))"

lemma matching_rows_absent:
  "\<not> keys_present (probe_keys plan batch) r \<Longrightarrow> matching_rows plan brows batch r = []"
  by (force simp: keys_present_def probe_keys_def batch_keys_def vec_get_def matching_rows_def filter_empty_conv)

lemma rest_pairs_matching:
  assumes "reversible_hash plan" "plan_wf plan" "bs_ncolumns s = jp_ninner_columns plan"
    and "\<forall>row \<in> set (store_rows s). build_row_ok plan row"
  shows "mset (rest_pairs plan (serial_candidates plan s) batch (- 1)) = mset (matching_pairs plan (store_rows s) batch)"
proof -
  have "mset (row_pairs plan (serial_candidates plan s) batch r) = mset (map (Pair r) (matching_rows plan (store_rows s) batch r))"
    for r
    by (cases "keys_present (probe_keys plan batch) r")
      (simp_all add: row_pairs_def serial_candidates_eq [OF assms] matching_rows_absent)
  then show ?thesis
    by (simp add: rest_pairs_def matching_pairs_def rows_from_all mset_concat comp_def)
qed

lemma raw_value_serial:
  assumes "column < jp_nouter_columns plan + jp_ninner_columns plan" "bs_ncolumns s = jp_ninner_columns plan"
    and "j < bs_nrows s"
  shows "raw_value plan (serial_index plan s) batch column (i, j) =
    (case joined_value plan (store_rows s) batch (i, j) column of None \<Rightarrow> (0, True) | Some v \<Rightarrow> (v, False))"
  using assms
  by (auto simp: raw_value_def joined_value_def hash_join_input_value_def vec_get_def serial_index_def build_value_def
      store_rows_nth store_cell Let_def)

lemma pair_passes_serial:
  assumes pw: "plan_wf plan" and n: "bs_ncolumns s = jp_ninner_columns plan" and j: "j < bs_nrows s"
  shows "passes plan (serial_index plan s) (batch, i, j) \<longleftrightarrow> join_condition plan (store_rows s) (batch, i, j)"
proof -
  note raw = raw_value_serial [OF _ n j]
  have "qual_passes plan (serial_index plan s) batch qual (i, j) \<longleftrightarrow>
      qual_holds qual (joined_value plan (store_rows s) batch (i, j) (jq_left_column qual))
        (joined_value plan (store_rows s) batch (i, j) (jq_right_column qual))" if "qual \<in> set (jp_quals plan)" for qual
  proof -
    have "jq_left_column qual < jp_nouter_columns plan + jp_ninner_columns plan"
      "jq_right_column qual < jp_nouter_columns plan + jp_ninner_columns plan"
      using pw that by (auto simp: plan_wf_def)
    from raw [OF this(1)] raw [OF this(2)] show ?thesis
      by (simp add: qual_passes_def qual_holds_def split: option.split)
  qed
  moreover have "fill_raw_slot plan (serial_index plan s) batch (jp_qual_raw_columns plan) (i, j) =
      map (\<lambda>column. if column \<in> jp_qual_raw_columns plan
        then map_option int32_get_datum (joined_value plan (store_rows s) batch (i, j) column) else None)
      [0..<jp_nouter_columns plan + jp_ninner_columns plan]"
    by (auto simp: fill_raw_slot_def raw split: option.split)
  ultimately show ?thesis
    by (simp add: passes_def pair_passes_def passes_scalar_qual_def join_condition_def Let_def split: option.split)
qed

end
