(* ===== verification/Join_Props.thy ===== *)
theory Join_Props
  imports Join_Correct
begin

text \<open>
  The hash join in memory from end to end: what building the table stores, when it ends
  without spilling, and that probing it returns the join of the two sides.
\<close>

section \<open>Building\<close>

lemma append_build_row_total:
  assumes wf: "store_wf s" and n: "bs_nrows s < 2 ^ 30"
  shows "\<exists>s'. append_build_row_hash columns row h s = Inr s'"
  using wf n
  by (auto simp: append_build_row_hash_def hash_join_grow_build_store_def resize_build_store_def store_wf_def Let_def)

lemma append_rows_ok:
  "store_wf s \<Longrightarrow> bs_nrows s + length rows \<le> 2 ^ 30 \<Longrightarrow>
     \<exists>s'. rfold (\<lambda>row. append_build_row_hash columns row (h row)) rows s = Inr s' \<and> store_wf s' \<and> same_table s s' \<and>
       bs_nrows s' = bs_nrows s + length rows \<and>
       store_rows s' = store_rows s @
         map (\<lambda>row. (h row, map (\<lambda>column. vec_get (columns ! column) row) [0..<bs_ncolumns s])) rows"
proof (induction rows arbitrary: s)
  case (Cons row rows)
  obtain s1 where s1: "append_build_row_hash columns row (h row) s = Inr s1"
    using append_build_row_total [OF Cons.prems(1), of columns row "h row"] Cons.prems(2) by auto
  note step = append_build_row_ok [OF Cons.prems(1) s1]
  obtain s2 where "rfold (\<lambda>row. append_build_row_hash columns row (h row)) rows s1 = Inr s2" "store_wf s2" "same_table s1 s2"
    "bs_nrows s2 = bs_nrows s1 + length rows"
    "store_rows s2 = store_rows s1 @
         map (\<lambda>row. (h row, map (\<lambda>column. vec_get (columns ! column) row) [0..<bs_ncolumns s1])) rows"
    using Cons.IH [of s1] Cons.prems(2) step by auto
  then show ?case
    using s1 step same_table_trans [of s s1 s2] by (auto simp: same_table_def)
qed auto

lemma hash_rows_positions:
  assumes wf: "probe_wf plan keys batch" and h: "hash_input_batch plan keys batch = (w, hs)"
  shows "word_rows w = filter (keys_present (map (\<lambda>key. pb_columns batch ! key) keys)) (selected (pb_selection batch))"
proof (rule sorted_distinct_set_unique)
  note bits = hash_input_batch_ok [OF wf h]
  show "set (word_rows w) = set (filter (keys_present (map (\<lambda>key. pb_columns batch ! key) keys)) (selected (pb_selection batch)))"
    using bits by auto
  have "sorted_wrt (<) (word_rows w)" using sorted_word_rows by blast
  then show "sorted (word_rows w)" "distinct (word_rows w)"
    by (simp_all add: strict_sorted_iff)
  show "sorted (filter (keys_present (map (\<lambda>key. pb_columns batch ! key) keys)) (selected (pb_selection batch)))"
    using sorted_selected [of "pb_selection batch"] by (simp add: strict_sorted_iff sorted_filter [where f = id, simplified])
qed (simp add: selected_def)

lemma append_build_rows_ok:
  assumes wf: "store_wf s" and batch: "probe_wf plan (jp_inner_keys plan) batch"
    and n: "bs_nrows s + length (built_rows plan [batch]) \<le> 2 ^ 30" and cols: "bs_ncolumns s = jp_ninner_columns plan"
  shows "\<exists>s'. append_build_rows plan batch s = Inr s' \<and> store_wf s' \<and> same_table s s' \<and>
    store_rows s' = store_rows s @ built_rows plan [batch]"
proof -
  let ?keys = "map (\<lambda>key. pb_columns batch ! key) (jp_inner_keys plan)"
  obtain w hs where h: "hash_input_batch plan (jp_inner_keys plan) batch = (w, hs)" by (metis surj_pair)
  note bits = hash_input_batch_ok [OF batch h] and rows = hash_rows_positions [OF batch h]
  have built: "built_rows plan [batch] = map (\<lambda>row. (hs ! row, map (\<lambda>column. vec_get (pb_columns batch ! column) row)
      [0..<bs_ncolumns s])) (word_rows w)"
    unfolding built_rows_def rows using bits cols by (auto simp: Let_def)
  obtain s' where "rfold (\<lambda>row. append_build_row_hash (pb_columns batch) row (hs ! row)) (word_rows w) s = Inr s'"
    "store_wf s'" "same_table s s'" "store_rows s' = store_rows s @ built_rows plan [batch]"
    using append_rows_ok [OF wf, of "word_rows w" "pb_columns batch" "\<lambda>row. hs ! row"] n
    unfolding built by auto
  then show ?thesis by (simp add: append_build_rows_def h)
qed

lemma built_rows_Cons: "built_rows plan (batch # batches) = built_rows plan [batch] @ built_rows plan batches"
  by (simp add: built_rows_def)

lemma length_built_rows:
  assumes "probe_wf plan keys batch"
  shows "length (built_rows plan [batch]) \<le> nat (selection_count (pb_selection batch))"
proof -
  have "sel_wf (pb_selection batch)" using assms by (simp add: probe_wf_def)
  then show ?thesis by (auto simp: built_rows_def Let_def selection_count_selected intro: order_trans [OF length_filter_le])
qed


lemma built_rows_ok:
  assumes "\<forall>batch \<in> set batches. probe_wf plan (jp_inner_keys plan) batch"
    and "\<forall>key \<in> set (jp_inner_keys plan). key < jp_ninner_columns plan"
  shows "\<forall>row \<in> set (built_rows plan batches). build_row_ok plan row"
proof -
  have "build_row_ok plan (row_hash (jp_murmurhash32 plan) (jp_hash_combine plan)
        (key_values (map (\<lambda>key. pb_columns batch ! key) (jp_inner_keys plan)) r),
      map (\<lambda>column. vec_get (pb_columns batch ! column) r) [0..<jp_ninner_columns plan])"
    if "keys_present (map (\<lambda>key. pb_columns batch ! key) (jp_inner_keys plan)) r" for batch r
  proof -
    have keys: "row_keys (jp_inner_keys plan) (h, map (\<lambda>column. vec_get (pb_columns batch ! column) r)
        [0..<jp_ninner_columns plan]) =
      map Some (key_values (map (\<lambda>key. pb_columns batch ! key) (jp_inner_keys plan)) r)" for h
      using that assms(2) by (auto simp: row_keys_def keys_present_def key_values_def vec_get_def)
    show ?thesis unfolding build_row_ok_def keys by (auto simp: comp_def)
  qed
  then show ?thesis by (auto simp: built_rows_def Let_def)
qed

section \<open>The memory estimate\<close>

lemma capacity_for_bounds: "c < 2 ^ 32 \<Longrightarrow> c \<le> capacity_for n c \<and> capacity_for n c < 2 ^ 32"
proof (induction n c rule: capacity_for.induct)
  case (1 n c)
  show ?case
  proof (cases "c \<noteq> 0 \<and> c < n \<and> c \<le> (2 ^ 32 - 1) div 2")
    case True
    then have "capacity_for n c = capacity_for n (c * 2)" by (subst capacity_for.simps) simp
    moreover have "c * 2 < 2 ^ 32" using True by simp
    ultimately show ?thesis using 1(1) [OF True] by simp
  next
    case False
    then have "capacity_for n c = c" by (subst capacity_for.simps) auto
    then show ?thesis using 1(2) by simp
  qed
qed

lemma capacity_for_mono: "c < 2 ^ 32 \<Longrightarrow> n \<le> m \<Longrightarrow> capacity_for n c \<le> capacity_for m c"
proof (induction m c rule: capacity_for.induct)
  case (1 m c)
  show ?case
  proof (cases "c \<noteq> 0 \<and> c < n \<and> c \<le> (2 ^ 32 - 1) div 2")
    case True
    then have m: "c \<noteq> 0 \<and> c < m \<and> c \<le> (2 ^ 32 - 1) div 2" using 1(3) by simp
    have "capacity_for n c = capacity_for n (c * 2)" using True by (subst capacity_for.simps) simp
    moreover have "capacity_for m c = capacity_for m (c * 2)" using m by (subst capacity_for.simps) simp
    moreover have "c * 2 < 2 ^ 32" using True by simp
    ultimately show ?thesis using 1(1) [OF m _ 1(3)] by simp
  next
    case False
    then have "capacity_for n c = c" by (subst capacity_for.simps) auto
    then show ?thesis using capacity_for_bounds [OF 1(2)] by simp
  qed
qed

lemma estimated_memory_mono:
  "n \<le> m \<Longrightarrow> hash_join_estimated_build_memory n k \<le> hash_join_estimated_build_memory m k"
  using capacity_for_mono [of 1024 n m]
  by (auto simp: hash_join_estimated_build_memory_def Let_def intro!: add_mono mult_mono div_le_mono)

section \<open>Building the table\<close>

definition total_rows :: "probe_batch list \<Rightarrow> nat" where
  "total_rows batches = (\<Sum>batch \<leftarrow> batches. nat (selection_count (pb_selection batch)))"

lemma length_built_rows_total:
  "\<forall>batch \<in> set batches. probe_wf plan keys batch \<Longrightarrow> length (built_rows plan batches) \<le> total_rows batches"
proof (induction batches)
  case (Cons batch batches)
  then show ?case
    using length_built_rows [of plan keys batch] by (simp add: built_rows_Cons [of plan batch batches] total_rows_def)
qed (simp add: built_rows_def total_rows_def)

lemma build_batches_ok:
  "store_wf s \<Longrightarrow> bs_ncolumns s = jp_ninner_columns plan \<Longrightarrow>
     \<forall>batch \<in> set batches. probe_wf plan (jp_inner_keys plan) batch \<Longrightarrow>
     bs_nrows s + total_rows batches \<le> 2 ^ 30 \<Longrightarrow>
     hash_join_estimated_build_memory (bs_nrows s + total_rows batches) (jp_ninner_columns plan) \<le> memory_limit \<Longrightarrow>
     \<exists>s'. build_batches plan memory_limit batches s = Inr (Some s') \<and> store_wf s' \<and> same_table s s' \<and>
       store_rows s' = store_rows s @ built_rows plan batches"
proof (induction batches arbitrary: s)
  case Nil
  then show ?case by (simp add: built_rows_def)
next
  case (Cons batch batches)
  let ?count = "nat (selection_count (pb_selection batch))"
  have tot: "total_rows (batch # batches) = ?count + total_rows batches" by (simp add: total_rows_def)
  have wf: "probe_wf plan (jp_inner_keys plan) batch" using Cons.prems(3) by simp
  have len: "length (built_rows plan [batch]) \<le> ?count" by (rule length_built_rows [OF wf])
  have mem: "hash_join_estimated_build_memory (bs_nrows s + ?count) (bs_ncolumns s) \<le> memory_limit"
    using Cons.prems(2,5) tot
      estimated_memory_mono [of "bs_nrows s + ?count" "bs_nrows s + total_rows (batch # batches)" "jp_ninner_columns plan"]
    by simp
  obtain s1 where s1: "append_build_rows plan batch s = Inr s1" "store_wf s1" "same_table s s1"
    "store_rows s1 = store_rows s @ built_rows plan [batch]"
    using append_build_rows_ok [OF Cons.prems(1) wf _ Cons.prems(2)] len Cons.prems(4) tot by auto
  have n1: "bs_nrows s1 \<le> bs_nrows s + ?count"
    using arg_cong [OF s1(4), of length] len by simp
  have "hash_join_estimated_build_memory (bs_nrows s1 + total_rows batches) (jp_ninner_columns plan) \<le> memory_limit"
    using Cons.prems(5) n1 tot estimated_memory_mono [of "bs_nrows s1 + total_rows batches"
        "bs_nrows s + total_rows (batch # batches)" "jp_ninner_columns plan"] by simp
  then obtain s2 where "build_batches plan memory_limit batches s1 = Inr (Some s2)" "store_wf s2" "same_table s1 s2"
    "store_rows s2 = store_rows s1 @ built_rows plan batches"
    using Cons.IH [OF s1(2)] s1(3) Cons.prems(2,3,4) n1 tot by (auto simp: same_table_def)
  then show ?case
    using s1 mem same_table_trans [of s s1 s2] by (auto simp: built_rows_Cons [of plan batch batches])
qed


lemma build_hash_table_ok:
  assumes cols: "bs_ncolumns s0 = jp_ninner_columns plan"
    and wf: "\<forall>batch \<in> set batches. probe_wf plan (jp_inner_keys plan) batch"
    and rows: "total_rows batches \<le> 2 ^ 30"
    and mem: "hash_join_estimated_build_memory (total_rows batches) (jp_ninner_columns plan) \<le> memory_limit"
  shows "\<exists>s. build_hash_table plan estimated_rows memory_limit batches s0 = Inr (Some (Some s)) \<and>
    table_ok (jp_inner_keys plan) s (bs_nrows s) \<and> bs_ncolumns s = jp_ninner_columns plan \<and>
    store_rows s = built_rows plan batches"
proof -
  let ?r = "(hash_join_reset_build_store s0)\<lparr>bs_hash_shift := 0\<rparr>" and ?c = "capacity_for estimated_rows 1024"
  have "store_wf ?r"
    using store_wf_reset [of s0] by (simp add: store_wf_def build_value_valid_def)
  moreover have "bs_ncolumns ?r = jp_ninner_columns plan" "bs_nrows ?r = 0" "\<not> bs_has_duplicates ?r" "store_rows ?r = []"
    using cols by (simp_all add: hash_join_reset_build_store_def store_rows_def)
  moreover have "\<exists>s1. resize_build_store ?c ?r = Inr s1"
    using capacity_for_bounds [of 1024 estimated_rows] by (simp add: resize_build_store_def hash_join_reset_build_store_def Let_def)
  ultimately obtain s1 where s1: "(if hash_join_estimated_build_memory ?c (bs_ncolumns ?r) \<le> memory_limit
      then resize_build_store ?c ?r else Inr ?r) = Inr s1"
    "store_wf s1" "bs_ncolumns s1 = jp_ninner_columns plan" "bs_nrows s1 = 0" "\<not> bs_has_duplicates s1" "store_rows s1 = []"
    using resize_ok [of ?r ?c] capacity_for_bounds [of 1024 estimated_rows]
    by (cases "hash_join_estimated_build_memory ?c (bs_ncolumns ?r) \<le> memory_limit") (auto simp: same_table_def)
  obtain s2 where s2: "build_batches plan memory_limit batches s1 = Inr (Some s2)" "store_wf s2" "same_table s1 s2"
    "store_rows s2 = built_rows plan batches"
    using build_batches_ok [OF s1(2,3) wf] rows mem s1(4,6) by auto
  have "bs_nrows s2 \<le> 2 ^ 30"
    using arg_cong [OF s2(4), of length] length_built_rows_total [OF wf] rows by simp
  then obtain s where "hash_join_finish_build_table (jp_inner_keys plan) s2 = Some s"
    "table_ok (jp_inner_keys plan) s (bs_nrows s)" "store_rows s = store_rows s2" "bs_ncolumns s = bs_ncolumns s2"
    using finish_build_table_ok [OF s2(2)] s2(3) s1(5) by (auto simp: same_table_def)
  then show ?thesis
    using s1 s2 by (auto simp: build_hash_table_def same_table_def Let_def)
qed

section \<open>Joining\<close>

lemma in_mset_sum_list: "x \<in># (\<Sum>a \<leftarrow> xs. f a) \<longleftrightarrow> (\<exists>a \<in> set xs. x \<in># f a)"
  by (induction xs) auto

lemma all_pairs_matching:
  assumes "reversible_hash plan" "plan_wf plan" "bs_ncolumns s = jp_ninner_columns plan"
    and "\<forall>row \<in> set (store_rows s). build_row_ok plan row"
  shows "filter_mset (passes plan (serial_index plan s)) (all_pairs plan (serial_candidates plan s) batches) =
    join_result plan (store_rows s) batches"
proof -
  have "all_pairs plan (serial_candidates plan s) batches =
      (\<Sum>batch \<leftarrow> batches. tag_pairs batch (matching_pairs plan (store_rows s) batch))" (is "_ = ?M")
    by (simp add: all_pairs_def tag_pairs_def rest_pairs_matching [OF assms])
  moreover have "passes plan (serial_index plan s) x = join_condition plan (store_rows s) x" if x: "x \<in># ?M" for x
  proof -
    obtain batch i j where x: "x = (batch, i, j)" "(i, j) \<in> set (matching_pairs plan (store_rows s) batch)"
      using x by (auto simp: tag_pairs_def in_mset_sum_list)
    then have "j < bs_nrows s" by (auto simp: matching_pairs_def matching_rows_def)
    then show ?thesis unfolding x by (rule pair_passes_serial [OF assms(2,3)])
  qed
  ultimately show ?thesis
    unfolding join_result_def by (metis filter_mset_cong)
qed

lemma join_start_ok:
  assumes "\<forall>batch \<in> set batches. probe_wf plan (jp_outer_keys plan) batch"
  shows "loop_ok plan ix ((join_start batches)\<lparr>js_output := [], js_output_qualified := 0\<rparr>) []"
    and "todo plan C (join_start batches) [] = all_pairs plan C batches"
  using assms by (simp_all add: loop_ok_def join_start_def todo_def)

lemma join_serial_ok:
  assumes rev: "reversible_hash plan" and pw: "plan_wf plan"
    and table: "table_ok (jp_inner_keys plan) s (bs_nrows s)" and cols: "bs_ncolumns s = jp_ninner_columns plan"
    and rows: "\<forall>row \<in> set (store_rows s). build_row_ok plan row"
    and batches: "\<forall>batch \<in> set batches. probe_wf plan (jp_outer_keys plan) batch"
  shows "\<exists>outs. join_all plan (serial_index plan s) (join_start batches) = Some (Inr outs) \<and> outs_ok plan outs \<and>
    (\<Sum>(batch, ps) \<leftarrow> outs. tag_pairs batch ps) = join_result plan (store_rows s) batches"
proof -
  have "serial_inv plan s" "quals_valid plan" using pw table by (auto simp: serial_inv_def plan_wf_def)
  from serial.join_all_ok [OF this join_start_ok(1) [OF batches]] show ?thesis
    unfolding join_start_ok(2) [OF batches] all_pairs_matching [OF rev pw cols rows] .
qed

section \<open>The property\<close>

text \<open>
  C1. A hash join whose build side fits in memory builds its table and, asked for batches
  until none comes, always returns: its batches are non-empty, none is larger than what
  the parent asked for, and together they hold, each exactly once, the pairs of a selected
  probe row and a build row with equal keys, none NULL, that satisfy the batch conditions
  and the scalar condition.
\<close>

theorem hash_join_correct:
  assumes "reversible_hash plan" "plan_wf plan" "bs_ncolumns s0 = jp_ninner_columns plan"
    and "\<forall>batch \<in> set inner. probe_wf plan (jp_inner_keys plan) batch"
    and "\<forall>batch \<in> set outer. probe_wf plan (jp_outer_keys plan) batch"
    and "total_rows inner \<le> 2 ^ 30"
    and "hash_join_estimated_build_memory (total_rows inner) (jp_ninner_columns plan) \<le> memory_limit"
  shows "\<exists>s outs. build_hash_table plan estimated_rows memory_limit inner s0 = Inr (Some (Some s)) \<and>
    join_all plan (serial_index plan s) (join_start outer) = Some (Inr outs) \<and> outs_ok plan outs \<and>
    (\<Sum>(batch, ps) \<leftarrow> outs. tag_pairs batch ps) = join_result plan (built_rows plan inner) outer"
proof -
  obtain s where s: "build_hash_table plan estimated_rows memory_limit inner s0 = Inr (Some (Some s))"
    "table_ok (jp_inner_keys plan) s (bs_nrows s)" "bs_ncolumns s = jp_ninner_columns plan"
    "store_rows s = built_rows plan inner"
    using build_hash_table_ok [OF assms(3,4,6,7)] by blast
  have "\<forall>row \<in> set (store_rows s). build_row_ok plan row"
    unfolding s(4) by (rule built_rows_ok [OF assms(4)]) (use assms(2) in \<open>simp add: plan_wf_def\<close>)
  from join_serial_ok [OF assms(1,2) s(2,3) this assms(5)] show ?thesis
    using s(1) unfolding s(4) by blast
qed


definition example_join_plan :: join_plan where
  "example_join_plan = \<lparr>jp_murmurhash32 = (\<lambda>x. x), jp_hash_combine = (+), jp_nouter_columns = 1,
     jp_ninner_columns = 2, jp_outer_keys = [0], jp_inner_keys = [0], jp_max_rows = 1,
     jp_quals = [\<lparr>jq_funcid = 66, jq_func = None, jq_left_column = 0, jq_right_column = 2\<rparr>],
     jp_scalar_qual = None, jp_qual_raw_columns = {}\<rparr>"

definition example_batch :: "int4 list list \<Rightarrow> bool list \<Rightarrow> probe_batch" where
  "example_batch columns isnull =
     (let n = length isnull
      in \<lparr>pb_selection = \<lparr>sel_nrows = int n, sel_nwords = 1, sel_words = [mask n]\<rparr>,
          pb_columns = map (\<lambda>vs. int4_vector_init_datum (map int32_get_datum vs) isnull) columns\<rparr>)"

definition example_inner :: probe_batch where
  "example_inner = example_batch [[7, 8, 7, 7], [9, 9, 10, 1]] [False, True, False, False]"

definition example_outer :: probe_batch where
  "example_outer = example_batch [[8, 7]] [False, False]"

definition example_store :: build_store where
  "example_store = \<lparr>bs_values = [], bs_validity = [], bs_hashes = [], bs_nexts = [], bs_buckets = [], bs_ncolumns = 2,
     bs_nrows = 0, bs_capacity = 0, bs_nbuckets = 0, bs_hash_shift = 0, bs_has_duplicates = False\<rparr>"

lemma full_selection_wf: "0 < n \<Longrightarrow> n \<le> 64 \<Longrightarrow> sel_wf \<lparr>sel_nrows = int n, sel_nwords = 1, sel_words = [mask n]\<rparr>"
  by (auto simp: sel_wf_def bit_mask_iff)

lemma example_batches:
  "probe_wf example_join_plan [0] example_inner" "probe_wf example_join_plan [0] example_outer"
  using full_selection_wf [of 4] full_selection_wf [of 2]
  by (simp_all add: probe_wf_def example_inner_def example_outer_def example_batch_def vec_wf_def
      int4_vector_init_datum_def numeral_eq_Suc)

theorem hash_join_correct_witness:
  "\<exists>s outs. build_hash_table example_join_plan 4 100000 [example_inner] example_store = Inr (Some (Some s)) \<and>
    join_all example_join_plan (serial_index example_join_plan s) (join_start [example_outer]) = Some (Inr outs) \<and>
    (\<Sum>(batch, ps) \<leftarrow> outs. tag_pairs batch ps) = {#(example_outer, 1, 0), (example_outer, 1, 1)#}"
proof -
  let ?plan = example_join_plan
  have rev: "reversible_hash ?plan"
    by (simp add: reversible_hash_def example_join_plan_def inj_def)
  have pw: "plan_wf ?plan" by (simp add: plan_wf_def quals_valid_def example_join_plan_def)
  have keys: "jp_inner_keys ?plan = [0]" "jp_outer_keys ?plan = [0]" "jp_ninner_columns ?plan = 2" "bs_ncolumns example_store = 2"
    by (simp_all add: example_join_plan_def example_store_def)
  have tot: "total_rows [example_inner] = 4" by code_simp
  have mem: "hash_join_estimated_build_memory 4 2 \<le> 100000"
    by (simp add: hash_join_estimated_build_memory_def capacity_for.simps Let_def)
  have spec: "join_result ?plan (built_rows ?plan [example_inner]) [example_outer] =
      {#(example_outer, 1, 0), (example_outer, 1, 1)#}"
  proof -
    have rows: "built_rows ?plan [example_inner] = [(7, [Some 7, Some 9]), (7, [Some 7, Some 10]), (7, [Some 7, Some 1])]"
      by code_simp
    have pairs: "matching_pairs ?plan [(7, [Some 7, Some 9]), (7, [Some 7, Some 10]), (7, [Some 7, Some 1])] example_outer =
        [(1, 0), (1, 1), (1, 2)]"
      by code_simp
    let ?rows = "[(7, [Some 7, Some 9]), (7, [Some 7, Some 10]), (7, [Some 7, Some 1])] :: row list"
    have cond: "join_condition ?plan ?rows (example_outer, 1, 0)" "join_condition ?plan ?rows (example_outer, 1, 1)"
      "\<not> join_condition ?plan ?rows (example_outer, 1, 2)" by code_simp+
    show ?thesis unfolding rows join_result_def by (simp add: pairs tag_pairs_def cond del: One_nat_def)
  qed
  show ?thesis
    using hash_join_correct [OF rev pw, where inner = "[example_inner]" and outer = "[example_outer]" and
        memory_limit = 100000 and estimated_rows = 4 and
        ?s0.0 = "example_store"]
      example_batches tot mem
    unfolding spec keys by simp blast
qed


section \<open>Properties of the parts\<close>

text \<open>
  C15. Finishing the table of a well-formed store with at most \<open>2 ^ 30\<close> rows always returns,
  leaves the rows as they are, and afterwards every lookup ends at the chain of exactly the
  rows with the given hash and key prefix, the newest first; the duplicates flag says
  whether two rows share both.
\<close>

theorem hash_table_lookup:
  assumes "store_wf s" "bs_nrows s \<le> 2 ^ 30" "\<not> bs_has_duplicates s" "length outer_keys = length inner_keys"
  shows "\<exists>t. hash_join_finish_build_table inner_keys s = Some t \<and> store_rows t = store_rows s \<and>
    (bs_has_duplicates t \<longleftrightarrow> \<not> inj_on (row_tag inner_keys t) {..<bs_nrows s}) \<and>
    (\<forall>columns hash row. \<exists>link. find_build_head inner_keys outer_keys columns t hash row = Some link \<and>
       chain (bs_nexts t) link = List.rev (filter (\<lambda>r. row_tag inner_keys t r =
         (hash, map (\<lambda>key. fst (hash_join_input_value (columns ! key) row)) (butlast outer_keys))) [0..<bs_nrows s]))"
proof -
  obtain t where t: "hash_join_finish_build_table inner_keys s = Some t" "table_ok inner_keys t (bs_nrows t)"
    "store_rows t = store_rows s" "bs_nrows t = bs_nrows s"
    using finish_build_table_ok [OF assms(1-3)] by blast
  have "bs_has_duplicates t \<longleftrightarrow> \<not> inj_on (row_tag inner_keys t) {..<bs_nrows s}"
    using t(2,4) by (simp add: table_ok_def)
  then show ?thesis
    using t(1,3) find_build_head_ok [OF t(2) assms(4) refl] unfolding t(4) by blast
qed

definition example_rows :: build_store where
  "example_rows = example_store\<lparr>bs_ncolumns := 1, bs_nrows := 3, bs_capacity := 4, bs_hashes := [7, 8, 7, 0],
     bs_nexts := [0, 0, 0, 0], bs_values := [[7, 8, 7, 0]], bs_validity := [[7]]\<rparr>"

theorem hash_table_lookup_witness:
  "\<exists>t link. hash_join_finish_build_table [0] example_rows = Some t \<and>
     find_build_head [0] [0] (pb_columns example_outer) t 7 1 = Some link \<and> chain (bs_nexts t) link = [2, 0]"
proof -
  have wf: "store_wf example_rows"
    unfolding store_wf_def
  proof (intro conjI)
    have bits: "bit (7 :: uint64) i \<longleftrightarrow> bit (mask 3 :: uint64) i" for i by (simp add: mask_eq_exp_minus_1)
    have "\<not> build_value_valid example_rows 0 r" if "r < 64" "3 \<le> r" for r
      using that bits [of r] unfolding bit_mask_iff by (simp add: example_rows_def build_value_valid_def)
    then show "\<forall>column < bs_ncolumns example_rows. \<forall>r. r div 64 < (bs_capacity example_rows + 63) div 64 \<longrightarrow>
        bs_nrows example_rows \<le> r \<longrightarrow> \<not> build_value_valid example_rows column r"
      by (simp add: example_rows_def div_eq_0_iff)
  qed (simp_all add: example_rows_def)
  obtain t where t: "hash_join_finish_build_table [0] example_rows = Some t" "store_rows t = store_rows example_rows"
    "\<forall>columns hash row. \<exists>link. find_build_head [0] [0] columns t hash row = Some link \<and>
       chain (bs_nexts t) link = List.rev (filter (\<lambda>r. row_tag [0] t r = (hash, [])) [0..<3])"
    using hash_table_lookup [OF wf, of "[0]" "[0]"] by (auto simp: example_rows_def example_store_def)
  have "bs_nrows t = 3" using arg_cong [OF t(2), of length] by (simp add: example_rows_def)
  then have h: "bs_hashes t ! r = [7, 8, 7] ! r" if "r < 3" for r
    using arg_cong [OF t(2), of "\<lambda>rows. fst (rows ! r)"] that
    by (simp add: store_rows_nth) (auto simp: example_rows_def store_rows_def numeral_3_eq_3 less_Suc_eq)
  have "filter (\<lambda>r. row_tag [0] t r = (7, [])) [0..<3] = [0, 2]"
    by (simp add: row_tag_def h upt_rec)
  then show ?thesis using t(1) t(3) [rule_format, of "pb_columns example_outer" 7 1] by auto
qed



text \<open>
  C40. Qualifying the output keeps the pairs already qualified and, of the others, exactly
  those that pass every batch condition and the scalar condition, in order; a NULL operand
  fails a batch condition.
\<close>

theorem qualify_output_correct:
  assumes "quals_valid plan" "js_output_qualified st \<le> length (js_output st)" "length (js_output st) \<le> 64"
  shows "qualify_output plan ix batch st = Inr (st\<lparr>
    js_output := take (js_output_qualified st) (js_output st) @
      filter (pair_passes plan ix batch) (drop (js_output_qualified st) (js_output st)),
    js_output_qualified := js_output_qualified st +
      length (filter (pair_passes plan ix batch) (drop (js_output_qualified st) (js_output st)))\<rparr>)"
  using qualify_output_eq [OF assms] assms(2) by (simp add: qualified_state_def Let_def)

theorem qualify_output_correct_witness:
  "qualify_output example_join_plan (serial_index example_join_plan
      (example_rows\<lparr>bs_ncolumns := 2, bs_values := [[7, 8, 7, 0], [9, 9, 1, 0]], bs_validity := [[7], [7]]\<rparr>)) example_outer
     ((join_start [])\<lparr>js_output := [(1, 2), (1, 2), (1, 0)], js_output_qualified := 1\<rparr>) =
   Inr ((join_start [])\<lparr>js_output := [(1, 2), (1, 0)], js_output_qualified := 2\<rparr>)"
proof -
  let ?ix = "serial_index example_join_plan
      (example_rows\<lparr>bs_ncolumns := 2, bs_values := [[7, 8, 7, 0], [9, 9, 1, 0]], bs_validity := [[7], [7]]\<rparr>)"
  have p: "\<not> pair_passes example_join_plan ?ix example_outer (1, 2)" "pair_passes example_join_plan ?ix example_outer (1, 0)"
    by code_simp+
  have "quals_valid example_join_plan" by (simp add: quals_valid_def example_join_plan_def)
  from qualify_output_correct [OF this, of "(join_start [])\<lparr>js_output := [(1, 2), (1, 2), (1, 0)], js_output_qualified := 1\<rparr>"
      ?ix example_outer]
  show ?thesis by (simp add: p [unfolded One_nat_def])
qed

end
