(* ===== verification/Join_Spill.thy ===== *)
theory Join_Spill
  imports Hash_Join
begin

text \<open>
  The hash join when its build side does not fit in memory, first half of
  \<open>nodes/hash_join_spill.c\<close> and \<open>build_hash_table\<close> of \<open>nodes/hash_join.c\<close>: the choice of
  partitions, the filter on build keys, routing rows to resident or spilled partitions and
  moving resident partitions out when they outgrow their share of memory.

  A file is a partition of the spill set beside it, with the reader that is open on it.  A
  Bitmapset is the list of its members in increasing order.  The linked lists of rows per
  partition (\<open>spill_partition_heads\<close>, \<open>next_rows\<close>, \<open>used_partitions\<close>) are an association
  list in the order of first use.  Sizes and counters, \<open>size_t\<close> and \<open>uint64\<close> in C, are
  natural numbers.
\<close>

section \<open>State\<close>

type_synonym spill_file = "spill_reader option"

record 't spill_side =
  sd_set :: "'t spill_set"
  sd_files :: "spill_file option list"

record join_block =
  jb_ncolumns :: nat
  jb_capacity :: nat
  jb_nrows :: nat
  jb_hashes :: "uint32 list"
  jb_values :: "int4 list"
  jb_validity :: "byte list"

record 't repartition =
  re_build :: "'t spill_side"
  re_probe :: "'t spill_side"
  re_build_rows :: "nat list"
  re_npartitions :: nat
  re_current :: int
  re_hash_shift :: nat

text \<open>\<open>hs_active\<close> says which files are active: whether of the repartition, and the partition.\<close>

record 't hash_spill =
  hs_memory_limit :: nat
  hs_build :: build_store
  hs_npartitions :: nat
  hs_partition_shift :: nat
  hs_bloom :: "uint64 list option"
  hs_bloom_nbits :: nat
  hs_bloom_usable :: bool
  hs_resident :: "nat list"
  hs_resident_rows :: "nat list"
  hs_resident_memory_limit :: nat
  hs_build_side :: "'t spill_side"
  hs_probe_side :: "'t spill_side"
  hs_build_partition_rows :: "nat list"
  hs_build_chunk_rows :: nat
  hs_build_rows :: nat
  hs_resident_block :: join_block
  hs_build_block :: join_block
  hs_probe_block :: join_block
  hs_build_block_row :: nat
  hs_build_eof :: bool
  hs_build_more :: bool
  hs_current :: int
  hs_partition_active :: bool
  hs_active :: "(bool \<times> nat) option"
  hs_active_hash_shift :: nat
  hs_repartition :: "'t repartition option"

section \<open>The filter on build keys\<close>

definition bloom_position :: "nat \<Rightarrow> uint32 \<Rightarrow> nat" where
  "bloom_position nbits hash = unat ((ucast hash :: uint64) AND of_nat (nbits - 1))"

definition bloom_add :: "uint32 \<Rightarrow> 't hash_spill \<Rightarrow> 't hash_spill" where
  "bloom_add hash hs =
     (case hs_bloom hs of
        None \<Rightarrow> hs
      | Some words \<Rightarrow>
          (let first = bloom_position (hs_bloom_nbits hs) hash
           in hs\<lparr>hs_bloom := Some (words[first div 64 := (words ! (first div 64)) OR push_bit (first mod 64) 1])\<rparr>))"

definition bloom_may_contain :: "'t hash_spill \<Rightarrow> uint32 \<Rightarrow> bool" where
  "bloom_may_contain hs hash =
     (let first = bloom_position (hs_bloom_nbits hs) hash
      in (the (hs_bloom hs) ! (first div 64)) AND push_bit (first mod 64) 1 \<noteq> 0)"

section \<open>Blocks\<close>

definition hash_join_init_spill_block :: "nat \<Rightarrow> nat \<Rightarrow> bool \<Rightarrow> join_block" where
  "hash_join_init_spill_block ncolumns capacity allocate_data =
     \<lparr>jb_ncolumns = ncolumns, jb_capacity = capacity, jb_nrows = 0,
      jb_hashes = (if allocate_data then replicate capacity 0 else []),
      jb_values = (if allocate_data then replicate (ncolumns * capacity) 0 else []),
      jb_validity = (if allocate_data then replicate (ncolumns * ((capacity + 7) div 8)) 0 else [])\<rparr>"

definition hash_join_spill_value :: "join_block \<Rightarrow> nat \<Rightarrow> nat \<Rightarrow> int4" where
  "hash_join_spill_value block column row = jb_values block ! (column * jb_capacity block + row)"

definition hash_join_spill_value_valid :: "join_block \<Rightarrow> nat \<Rightarrow> nat \<Rightarrow> bool" where
  "hash_join_spill_value_valid block column row =
     (let stride = (jb_capacity block + 7) div 8
      in bit (jb_validity block ! (column * stride + row div 8)) (row mod 8))"

text \<open>The reader's block is borrowed until the next read.\<close>

definition hash_join_use_spill_block :: "spill_block \<Rightarrow> join_block \<Rightarrow> join_block result" where
  "hash_join_use_spill_block input block =
     (if sb_ncolumns input \<noteq> jb_ncolumns block \<or> jb_capacity block < PG_BATCH_SPILL_BLOCK_ROWS
      then Inl (Elog ''invalid pg_batch hash join spill block'')
      else Inr (block\<lparr>jb_hashes := sb_hashes input, jb_values := sb_values input,
             jb_validity := sb_validity input, jb_nrows := sb_nrows input\<rparr>))"

section \<open>Writing rows to files\<close>

definition open_file :: "nat \<Rightarrow> 't spill_side \<Rightarrow> 't spill_side" where
  "open_file p side =
     (if sd_files side ! p = None then side\<lparr>sd_files := (sd_files side)[p := Some None]\<rparr> else side)"

text \<open>The loop \<open>rows[count++] = row; if (count == PG_BATCH_SIZE) ...\<close> with its last, partial call.\<close>

fun flush_rows :: "('r list \<Rightarrow> 's \<Rightarrow> 's result) \<Rightarrow> 'r list \<Rightarrow> 'r list \<Rightarrow> 's \<Rightarrow> 's result" where
  "flush_rows write rows [] s = (if rows \<noteq> [] then write rows s else Inr s)"
| "flush_rows write rows (row # todo) s =
     (let rows = rows @ [row]
      in if length rows = PG_BATCH_SIZE then rbind (write rows s) (flush_rows write [] todo)
         else flush_rows write rows todo s)"

definition write_partition_rows ::
  "'t tape_ops \<Rightarrow> nat \<Rightarrow> int4_vector list \<Rightarrow> uint32 list \<Rightarrow> nat list \<Rightarrow> 't spill_side \<Rightarrow> 't spill_side result" where
  "write_partition_rows T p columns hashes rows side =
     (let selection = fold (\<lambda>row w. w OR push_bit row 1) rows 0
      in rbind (spill_write T (int p) (Some columns)
            (Some \<lparr>sel_nrows = int PG_BATCH_SIZE, sel_nwords = 1, sel_words = [selection]\<rparr>) (Some hashes) (sd_set side))
           (\<lambda>s. Inr (open_file p (side\<lparr>sd_set := s\<rparr>))))"

fun link_row :: "nat \<Rightarrow> 'r \<Rightarrow> (nat \<times> 'r list) list \<Rightarrow> (nat \<times> 'r list) list" where
  "link_row p row [] = [(p, [row])]"
| "link_row p row ((q, rows) # heads) =
     (if q = p then (q, rows @ [row]) # heads else (q, rows) # link_row p row heads)"

definition write_chains ::
  "'t tape_ops \<Rightarrow> int4_vector list \<Rightarrow> uint32 list \<Rightarrow> (nat \<times> nat list) list \<Rightarrow> 't spill_side \<Rightarrow> 't spill_side result" where
  "write_chains T columns hashes =
     rfold (\<lambda>(p, rows). flush_rows (write_partition_rows T p columns hashes) [] rows)"

section \<open>Routing a batch\<close>

definition hash_partition :: "nat \<Rightarrow> nat \<Rightarrow> uint32 \<Rightarrow> nat" where
  "hash_partition hash_shift npartitions hash = unat (drop_bit hash_shift hash AND of_nat (npartitions - 1))"

text \<open>
  \<open>hash_join_spill_input_batch\<close> for the build side: the rows of resident partitions are
  returned as a bitmap, the others written.
\<close>

definition hash_join_spill_build_batch ::
  "'t tape_ops \<Rightarrow> int4_vector list \<Rightarrow> uint32 list \<Rightarrow> uint64 \<Rightarrow> 't hash_spill \<Rightarrow> (uint64 \<times> 't hash_spill) result" where
  "hash_join_spill_build_batch T columns hashes hash_rows hs =
     (let hs = fold (\<lambda>row. bloom_add (hashes ! row)) (word_rows hash_rows) hs;
          (resident_rows, counts, heads) = fold (\<lambda>row (resident_rows, counts, heads).
              let p = hash_partition 0 (hs_npartitions hs) (hashes ! row)
              in if p \<in> set (hs_resident hs) then (resident_rows OR push_bit row 1, counts, heads)
                 else (resident_rows, counts[p := counts ! p + 1], link_row p row heads))
            (word_rows hash_rows) (0, hs_build_partition_rows hs, [])
      in rbind (write_chains T columns hashes heads (hs_build_side hs)) (\<lambda>side.
         Inr (resident_rows, hs\<lparr>hs_build_side := side, hs_build_partition_rows := counts\<rparr>)))"

definition buffer_resident_probe_row ::
  "int4_vector list \<Rightarrow> nat \<Rightarrow> uint32 \<Rightarrow> join_block \<Rightarrow> join_block result" where
  "buffer_resident_probe_row columns row hash block =
     (let output = jb_nrows block;
          stride = (jb_capacity block + 7) div 8
      in if output \<ge> jb_capacity block then Inl (Elog ''pg_batch resident probe buffer overflow'')
         else Inr (fold (\<lambda>column block.
               let (v, isnull) = hash_join_input_value (columns ! column) row;
                   block = block\<lparr>jb_values := (jb_values block)[column * jb_capacity block + output := v]\<rparr>;
                   k = column * stride + output div 8
               in if \<not> isnull
                  then block\<lparr>jb_validity := (jb_validity block)[k := (jb_validity block ! k) OR push_bit (output mod 8) 1]\<rparr>
                  else block)
             [0..<jb_ncolumns block]
             (block\<lparr>jb_nrows := output + 1, jb_hashes := (jb_hashes block)[output := hash]\<rparr>)))"

text \<open>
  The same function for the probe side.  \<open>keeps_probe_row\<close> is its first loop, which drops the
  rows that can have no match; resident rows are buffered.
\<close>

definition keeps_probe_row :: "'t hash_spill \<Rightarrow> uint32 \<Rightarrow> bool" where
  "keeps_probe_row hs hash =
     (if hs_bloom_usable hs \<and> \<not> bloom_may_contain hs hash then False
      else (let p = hash_partition 0 (hs_npartitions hs) hash
            in p \<in> set (hs_resident hs) \<or> sd_files (hs_build_side hs) ! p \<noteq> None))"

definition hash_join_spill_probe_batch ::
  "'t tape_ops \<Rightarrow> int4_vector list \<Rightarrow> uint32 list \<Rightarrow> uint64 \<Rightarrow> 't hash_spill \<Rightarrow> 't hash_spill result" where
  "hash_join_spill_probe_batch T columns hashes hash_rows hs =
     (let routed_rows = filter (\<lambda>row. keeps_probe_row hs (hashes ! row)) (word_rows hash_rows)
      in rbind (rfold (\<lambda>row (block, heads).
              let p = hash_partition 0 (hs_npartitions hs) (hashes ! row)
              in if p \<in> set (hs_resident hs)
                 then rbind (buffer_resident_probe_row columns row (hashes ! row) block) (\<lambda>block. Inr (block, heads))
                 else if sd_files (hs_build_side hs) ! p = None then Inr (block, heads)
                 else Inr (block, link_row p row heads))
            routed_rows (hs_resident_block hs, [])) (\<lambda>(block, heads).
         rbind (write_chains T columns hashes heads (hs_probe_side hs)) (\<lambda>side.
         Inr (hs\<lparr>hs_resident_block := block, hs_probe_side := side\<rparr>))))"

section \<open>Moving partitions out of the table\<close>

definition write_store_block ::
  "'t tape_ops \<Rightarrow> nat \<Rightarrow> build_store \<Rightarrow> nat list \<Rightarrow> 't spill_side \<Rightarrow> 't spill_side result" where
  "write_store_block T p store rows side =
     (let hashes = map ((!) (bs_hashes store)) rows;
          vals = concat (map (\<lambda>column. map ((!) (bs_values store ! column)) rows) [0..<bs_ncolumns store]);
          validity = map (\<lambda>column. fold (\<lambda>i w. if build_value_valid store column (rows ! i) then w OR push_bit i 1 else w)
              [0..<length rows] 0) [0..<bs_ncolumns store]
      in rbind (spill_write_dense T (int p) (int (length rows)) (Some hashes) (Some vals) (int (length rows)) (Some validity)
            (sd_set side)) (\<lambda>s. Inr (open_file p (side\<lparr>sd_set := s\<rparr>))))"

text \<open>One row moves to the place \<open>write\<close>; its links are not copied.\<close>

definition move_build_row :: "nat \<Rightarrow> nat \<Rightarrow> build_store \<Rightarrow> build_store" where
  "move_build_row write row store = store\<lparr>
     bs_hashes := (bs_hashes store)[write := bs_hashes store ! row],
     bs_values := map (\<lambda>column. (bs_values store ! column)[write := bs_values store ! column ! row]) [0..<bs_ncolumns store],
     bs_validity := map (\<lambda>column.
         let words = bs_validity store ! column
         in if build_value_valid store column row
            then words[write div 64 := (words ! (write div 64)) OR push_bit (write mod 64) 1]
            else words[write div 64 := (words ! (write div 64)) AND NOT (push_bit (write mod 64) 1)])
       [0..<bs_ncolumns store]\<rparr>"

definition compact_row ::
  "nat \<Rightarrow> nat list \<Rightarrow> nat \<Rightarrow> nat \<times> build_store \<times> nat list \<Rightarrow> nat \<times> build_store \<times> nat list" where
  "compact_row npartitions resident row = (\<lambda>(write, store, resident_rows).
     let p = hash_partition 0 npartitions (bs_hashes store ! row)
     in if p \<notin> set resident then (write, store, resident_rows)
        else (write + 1, if write \<noteq> row then move_build_row write row store else store,
              resident_rows[p := resident_rows ! p + 1]))"

definition hash_join_spill_build_store :: "'t tape_ops \<Rightarrow> 't hash_spill \<Rightarrow> 't hash_spill result" where
  "hash_join_spill_build_store T hs =
     (let store = hs_build hs;
          np = hs_npartitions hs
      in rbind (rfold (\<lambda>p (counts, side).
             let rows = filter (\<lambda>row. hash_partition 0 np (bs_hashes store ! row) = p) [0..<bs_nrows store]
             in rbind (flush_rows (write_store_block T p store) [] rows side) (\<lambda>side.
                Inr (counts[p := counts ! p + length rows], side)))
           (filter (\<lambda>p. p \<notin> set (hs_resident hs)) [0..<np]) (hs_build_partition_rows hs, hs_build_side hs))
         (\<lambda>(counts, side).
         let (write, store, resident_rows) =
               fold (compact_row np (hs_resident hs)) [0..<bs_nrows store] (0, store, replicate np 0)
         in Inr (hs\<lparr>hs_build := store\<lparr>bs_nrows := write\<rparr>, hs_resident_rows := resident_rows,
                 hs_build_side := side, hs_build_partition_rows := counts\<rparr>)))"

definition largest_resident :: "'t hash_spill \<Rightarrow> nat option" where
  "largest_resident hs =
     fst (fold (\<lambda>p (largest, largest_rows).
          if hs_resident_rows hs ! p > largest_rows then (Some p, hs_resident_rows hs ! p) else (largest, largest_rows))
        (hs_resident hs) (None, 0))"

lemma spill_build_store_resident:
  "hash_join_spill_build_store T hs = Inr hs' \<Longrightarrow> hs_resident hs' = hs_resident hs"
  by (cases "fold (compact_row (hs_npartitions hs) (hs_resident hs)) [0..<bs_nrows (hs_build hs)]
      (0, hs_build hs, replicate (hs_npartitions hs) 0)")
    (auto simp: hash_join_spill_build_store_def rbind_Inr_iff Let_def)

lemma largest_resident_member: "largest_resident hs = Some p \<Longrightarrow> p \<in> set (hs_resident hs)"
proof -
  have "fst (fold (\<lambda>p (largest, largest_rows). if R p > largest_rows then (Some p, R p) else (largest, largest_rows)) ps (l, n)) = Some p
      \<Longrightarrow> p \<in> set ps \<or> l = Some p" for R :: "nat \<Rightarrow> nat" and ps l n p
    by (induction ps arbitrary: l n) (auto split: if_splits)
  then show "largest_resident hs = Some p \<Longrightarrow> p \<in> set (hs_resident hs)"
    unfolding largest_resident_def by fastforce
qed

function limit_resident_build :: "'t tape_ops \<Rightarrow> 't hash_spill \<Rightarrow> 't hash_spill result" where
  "limit_resident_build T hs =
     (if hs_resident hs \<noteq> [] \<and>
         hash_join_estimated_build_memory (bs_nrows (hs_build hs)) (bs_ncolumns (hs_build hs)) > hs_resident_memory_limit hs
      then
        (case largest_resident hs of
           None \<Rightarrow> Inr hs
         | Some p \<Rightarrow>
             (case hash_join_spill_build_store T (hs\<lparr>hs_resident := filter ((\<noteq>) p) (hs_resident hs)\<rparr>) of
                Inl e \<Rightarrow> Inl e
              | Inr hs \<Rightarrow> limit_resident_build T hs))
      else Inr hs)"
  by auto
termination
proof (relation "measure (\<lambda>(T, hs). length (hs_resident hs))", goal_cases)
  case (2 T hs p hs')
  have "length (filter ((\<noteq>) p) (hs_resident hs)) < length (hs_resident hs)"
    by (rule length_filter_less [OF largest_resident_member [OF 2(2)]]) simp
  then show ?case using spill_build_store_resident [OF 2(3)] by simp
qed simp

declare limit_resident_build.simps [simp del]

section \<open>Switching to spilling\<close>

function partition_count_from :: "nat \<Rightarrow> nat \<Rightarrow> nat" where
  "partition_count_from required r =
     (if 0 < r \<and> r < required \<and> r < 1024 then partition_count_from required (r * 2) else r)"
  by auto
termination
  by (relation "measure (\<lambda>(required, r). 1024 - r)") auto

declare partition_count_from.simps [simp del]

definition next_partition_count :: "nat \<Rightarrow> nat" where
  "next_partition_count required = partition_count_from required 2"

fun partition_bits :: "nat \<Rightarrow> nat" where
  "partition_bits npartitions = (if npartitions > 1 then partition_bits (npartitions div 2) + 1 else 0)"

declare partition_bits.simps [simp del]

definition spill_tuple_desc :: "nat \<Rightarrow> attribute list" where
  "spill_tuple_desc ncolumns = replicate ncolumns \<lparr>att_isdropped = False, att_typid = 23\<rparr>"

definition spill_side_create :: "'t tape_ops \<Rightarrow> nat \<Rightarrow> nat \<Rightarrow> nat \<Rightarrow> 't spill_side result" where
  "spill_side_create T ncolumns npartitions buffer_limit =
     rbind (spill_create T (Some ()) (Some (spill_tuple_desc ncolumns)) (int ncolumns) (int npartitions) buffer_limit)
       (\<lambda>s. Inr \<lparr>sd_set = s, sd_files = replicate npartitions None\<rparr>)"

function bloom_bits_from :: "nat \<Rightarrow> nat \<Rightarrow> nat \<Rightarrow> nat" where
  "bloom_bits_from desired_bits max_bits nbits =
     (if 0 < nbits \<and> nbits < desired_bits \<and> nbits \<le> max_bits div 2
      then bloom_bits_from desired_bits max_bits (nbits * 2) else nbits)"
  by auto
termination
  by (relation "measure (\<lambda>(desired_bits, max_bits, nbits). desired_bits - nbits)") auto

declare bloom_bits_from.simps [simp del]

definition bloom_bits :: "nat \<Rightarrow> nat \<Rightarrow> nat" where
  "bloom_bits memory_limit estimated_rows =
     (let desired_bits = max 64 (estimated_rows * 8);
          max_bits = max 64 (memory_limit div 16 * 8);
          nbits = bloom_bits_from desired_bits max_bits 64
      in if nbits > max_bits then nbits div 2 else nbits)"

definition build_chunk_rows :: "nat \<Rightarrow> nat \<Rightarrow> nat" where
  "build_chunk_rows memory_limit ninner_columns =
     max 64 (min (2 ^ 32 - 1) (memory_limit div 2 div max 1 (hash_join_estimated_build_memory 1024 ninner_columns div 1024)))"

text \<open>The memory that the buffers of the partitions leave to resident rows.\<close>

definition resident_limit :: "nat \<Rightarrow> nat \<Rightarrow> nat \<Rightarrow> nat \<Rightarrow> nat" where
  "resident_limit memory_limit npartitions columns bloom_bytes =
     (let bytes = 4 * npartitions + 4 * npartitions * PG_BATCH_SIZE +
            (4 * PG_BATCH_SIZE + 8) * npartitions * columns
      in memory_limit - min memory_limit (min bytes (memory_limit div 4) + bloom_bytes))"

text \<open>\<open>(int)\<close> truncates the quotient to 32 bits.\<close>

definition resident_count :: "nat \<Rightarrow> nat \<Rightarrow> nat \<Rightarrow> nat" where
  "resident_count npartitions estimated_bytes resident_memory_limit =
     (let per_partition = max 1 (estimated_bytes div npartitions);
          nresident = min (int npartitions - 1) (to_int32 (int (resident_memory_limit div per_partition)))
      in if nresident = 0 then 1 else nat nresident)"

definition hash_join_begin_spill ::
  "'t tape_ops \<Rightarrow> join_plan \<Rightarrow> nat \<Rightarrow> nat \<Rightarrow> nat \<Rightarrow> nat \<Rightarrow> build_store \<Rightarrow> 't hash_spill result" where
  "hash_join_begin_spill T plan memory_limit planned_partitions estimated_bytes estimated_rows store =
     (let required = (estimated_bytes + memory_limit - 1) div memory_limit;
          npartitions = next_partition_count (max required planned_partitions);
          nbits = bloom_bits memory_limit estimated_rows;
          use_bloom = (estimated_rows > 0 \<and> nbits div estimated_rows \<ge> 2);
          resident_memory_limit = resident_limit memory_limit npartitions
            (max (jp_ninner_columns plan) (jp_nouter_columns plan)) (if use_bloom then nbits div 8 else 0)
      in rbind (spill_side_create T (jp_ninner_columns plan) npartitions (memory_limit div 4)) (\<lambda>build_side.
         rbind (spill_side_create T (jp_nouter_columns plan) npartitions (memory_limit div 4)) (\<lambda>probe_side.
         Inr (fold (\<lambda>row. bloom_add (bs_hashes store ! row)) [0..<bs_nrows store]
           \<lparr>hs_memory_limit = memory_limit, hs_build = store, hs_npartitions = npartitions,
            hs_partition_shift = partition_bits npartitions,
            hs_bloom = (if use_bloom then Some (replicate (nbits div 64) 0) else None),
            hs_bloom_nbits = (if use_bloom then nbits else 0), hs_bloom_usable = False,
            hs_resident = [0..<resident_count npartitions estimated_bytes resident_memory_limit],
            hs_resident_rows = replicate npartitions 0, hs_resident_memory_limit = resident_memory_limit,
            hs_build_side = build_side, hs_probe_side = probe_side,
            hs_build_partition_rows = replicate npartitions 0,
            hs_build_chunk_rows = build_chunk_rows memory_limit (jp_ninner_columns plan), hs_build_rows = 0,
            hs_resident_block = hash_join_init_spill_block (jp_nouter_columns plan) (PG_BATCH_SIZE * 2) True,
            hs_build_block = hash_join_init_spill_block (jp_ninner_columns plan) PG_BATCH_SIZE False,
            hs_probe_block = hash_join_init_spill_block (jp_nouter_columns plan) PG_BATCH_SIZE False,
            hs_build_block_row = 0, hs_build_eof = False, hs_build_more = False,
            hs_current = 0, hs_partition_active = False, hs_active = None, hs_active_hash_shift = 0,
            hs_repartition = None\<rparr>))))"

section \<open>Building\<close>

definition append_or_spill_build_batch ::
  "'t tape_ops \<Rightarrow> int4_vector list \<Rightarrow> uint32 list \<Rightarrow> uint64 \<Rightarrow> 't hash_spill \<Rightarrow> 't hash_spill result" where
  "append_or_spill_build_batch T columns hashes hash_rows hs =
     rbind (hash_join_spill_build_batch T columns hashes hash_rows hs) (\<lambda>(resident_rows, hs).
     rbind (rfold (\<lambda>row (store, counts).
          let p = hash_partition 0 (hs_npartitions hs) (hashes ! row)
          in rbind (append_build_row_hash columns row (hashes ! row) store) (\<lambda>store.
             Inr (store, counts[p := counts ! p + 1])))
        (word_rows resident_rows) (hs_build hs, hs_resident_rows hs)) (\<lambda>(store, counts).
     limit_resident_build T (hs\<lparr>hs_build := store, hs_resident_rows := counts,
       hs_build_rows := hs_build_rows hs + length (word_rows hash_rows)\<rparr>)))"

datatype 't join_build = In_memory build_store | Spilled "'t hash_spill"

definition build_batch ::
  "'t tape_ops \<Rightarrow> join_plan \<Rightarrow> nat \<Rightarrow> nat \<Rightarrow> probe_batch \<Rightarrow> 't join_build \<Rightarrow> 't join_build result" where
  "build_batch T plan memory_limit planned_partitions batch b =
     (let (hash_rows, hashes) = hash_input_batch plan (jp_inner_keys plan) batch;
          nrows = nat (selection_count (pb_selection batch));
          spill = (\<lambda>hs. rbind (append_or_spill_build_batch T (pb_columns batch) hashes hash_rows hs) (\<lambda>hs. Inr (Spilled hs)))
      in case b of
           Spilled hs \<Rightarrow> spill hs
         | In_memory store \<Rightarrow>
             (let estimated = hash_join_estimated_build_memory (bs_nrows store + nrows) (bs_ncolumns store)
              in if estimated > memory_limit then
                   rbind (hash_join_begin_spill T plan memory_limit planned_partitions estimated (bs_nrows store + nrows) store) (\<lambda>hs.
                   rbind (hash_join_spill_build_store T (hs\<lparr>hs_build_rows := hs_build_rows hs + bs_nrows store\<rparr>)) (\<lambda>hs.
                   rbind (limit_resident_build T hs) spill))
                 else
                   rbind (rfold (\<lambda>row. append_build_row_hash (pb_columns batch) row (hashes ! row)) (word_rows hash_rows) store)
                     (\<lambda>store. Inr (In_memory store))))"

text \<open>The end of \<open>build_hash_table\<close>; \<open>None\<close> is a search of the table that never ends.\<close>

definition finish_spilled_build ::
  "'t tape_ops \<Rightarrow> join_plan \<Rightarrow> 't hash_spill \<Rightarrow> 't hash_spill option result" where
  "finish_spilled_build T plan hs =
     (if hs_build_rows hs > 0 then
        (let hs = hs\<lparr>hs_resident := filter (\<lambda>p. hs_resident_rows hs ! p \<noteq> 0) (hs_resident hs)\<rparr>
         in rbind (spill_finish T False (sd_set (hs_build_side hs))) (\<lambda>s.
            let hs = hs\<lparr>hs_build_side := (hs_build_side hs)\<lparr>sd_set := s\<rparr>,
                  hs_bloom_usable := (hs_bloom hs \<noteq> None \<and> hs_bloom_nbits hs div hs_build_rows hs \<ge> 2)\<rparr>
            in Inr (if bs_nrows (hs_build hs) > 0
                 then map_option (\<lambda>store. hs\<lparr>hs_build := store\<rparr>)
                    (hash_join_finish_build_table (jp_inner_keys plan) ((hs_build hs)\<lparr>bs_hash_shift := 0\<rparr>))
                 else Some hs)))
      else Inr (Some (hs\<lparr>hs_current := - 1, hs_partition_active := False\<rparr>)))"

definition hash_join_build ::
  "'t tape_ops \<Rightarrow> join_plan \<Rightarrow> nat \<Rightarrow> nat \<Rightarrow> nat \<Rightarrow> probe_batch list \<Rightarrow> build_store \<Rightarrow> 't join_build option result" where
  "hash_join_build T plan memory_limit planned_partitions estimated_rows batches s =
     (let s = (hash_join_reset_build_store s)\<lparr>bs_hash_shift := 0\<rparr>;
          initial_capacity = capacity_for estimated_rows 1024
      in rbind (if planned_partitions = 1 \<and>
                   hash_join_estimated_build_memory initial_capacity (bs_ncolumns s) \<le> memory_limit
                then resize_build_store initial_capacity s else Inr s) (\<lambda>s.
         rbind (if planned_partitions > 1
                then rbind (hash_join_begin_spill T plan memory_limit planned_partitions
                       (memory_limit * planned_partitions) estimated_rows s) (\<lambda>hs. Inr (Spilled hs))
                else Inr (In_memory s)) (\<lambda>b.
         rbind (rfold (build_batch T plan memory_limit planned_partitions) batches b) (\<lambda>b.
         case b of
           In_memory store \<Rightarrow> Inr (map_option In_memory (hash_join_finish_build_table (jp_inner_keys plan) store))
         | Spilled hs \<Rightarrow> rbind (finish_spilled_build T plan hs) (\<lambda>hs. Inr (map_option Spilled hs))))))"

end
