(* ===== verification/Spill_Loop.thy ===== *)
theory Spill_Loop
  imports Spill_Read
begin

text \<open>
  The loop \<open>while (pg_batch_spill_reader_next(reader, &block)) ...\<close> of the nodes that read
  a partition, with a body that may leave the loop early, and what it does on a frozen
  spill set: it runs the body over blocks that hold the rows of the partition, and the
  partition can be opened and read again afterwards.
\<close>

section \<open>Writing bitmaps of rows\<close>

lemma spill_write_total:
  assumes "spill_shape s" "p < ss_npartitions s" "0 \<le> nrows" "nrows \<le> 64"
  shows "\<exists>s'. spill_write T (int p) (Some vectors) (Some \<lparr>sel_nrows = nrows, sel_nwords = 1, sel_words = [w]\<rparr>) (Some hashes) s = Inr s'"
  using assms by (simp add: spill_write_def validate_partition_def rbind_require spill_shape_def Let_def)

definition bitmap_rows :: "nat \<Rightarrow> int4_vector list \<Rightarrow> uint32 list \<Rightarrow> nat \<Rightarrow> uint64 \<Rightarrow> row list" where
  "bitmap_rows n vectors hashes nrows w =
     map (\<lambda>row. (hashes ! row, map (\<lambda>column. vec_get (vectors ! column) row) [0..<n])) (filter (bit w) [0..<nrows])"

lemma bitmap_rows_zero [simp]: "bitmap_rows n vectors hashes nrows 0 = []"
  by (simp add: bitmap_rows_def)

lemma selected_one_word:
  assumes "sel_wf s" "0 < sel_nrows s" "sel_nrows s \<le> 64"
  shows "sel_nwords s = 1 \<and> selected s = word_rows (sel_words s ! 0) \<and>
    selected s = filter (bit (sel_words s ! 0)) [0..<nat (sel_nrows s)]"
proof -
  have "(sel_nrows s + 63) div 64 = 1" using assms(2,3) by simp
  then have one: "sel_nwords s = 1" "length (sel_words s) = 1" using assms(1) by (simp_all add: sel_wf_def)
  then have below: "i < 64 \<Longrightarrow> bit (sel_words s ! 0) i \<Longrightarrow> int i < sel_nrows s" for i
    using assms(1) by (fastforce simp: sel_wf_def)
  have sel: "selected s = filter (bit (sel_words s ! 0)) [0..<nat (sel_nrows s)]"
    unfolding selected_def using assms(3) by (intro filter_cong) (auto simp: sel_bit_def)
  then have "i \<in> set (selected s) \<longleftrightarrow> bit (sel_words s ! 0) i" for i
    using below [of i] word64_bit_lt [of "sel_words s ! 0" i] by auto
  then have "set (selected s) = {i. bit (sel_words s ! 0) i}" by blast
  moreover have "sorted_wrt (<) (selected s)" by (simp add: selected_def sorted_wrt_filter)
  ultimately have "selected s = word_rows (sel_words s ! 0)"
    using sorted_word_rows strict_sorted_unique by metis
  with sel show ?thesis using one by simp
qed


section \<open>Sets of int4 columns\<close>

lemma int4_spill_create:
  assumes T: "tape_spec T phase written rest" and n: "0 < n" "n < 65536" "0 < np"
  defines "desc \<equiv> replicate n \<lparr>att_isdropped = False, att_typid = 23\<rparr>"
  shows "\<exists>s. spill_create T (Some ()) (Some desc) (int n) (int np) limit = Inr s \<and>
    spill_inv phase written s (\<lambda>_. []) \<and> no_full s \<and> ss_ncolumns s = n \<and> ss_npartitions s = np"
proof -
  have checks: "rfold (\<lambda>column _. if att_isdropped (desc ! column) \<or> att_typid (desc ! column) \<noteq> 23
      then Inl (Elog ''pg_batch spill column must be int4'') else Inr ()) cs () = Inr ()" if "set cs \<subseteq> {..<n}" for cs
    using that by (induction cs) (auto simp: desc_def)
  obtain s where s: "spill_create T (Some ()) (Some desc) (int n) (int np) limit = Inr s"
    using n checks [of "[0..<n]"] by (simp add: spill_create_def lessThan_atLeast0) (simp add: desc_def)
  from spill_create_inv [OF T s] n(2) show ?thesis using s by (intro exI [of _ s]) simp
qed

section \<open>The loop\<close>

text \<open>The body returns whether to go on.  \<open>None\<close> is the loop that does not end.\<close>

partial_function (option) spill_loop ::
  "'t tape_ops \<Rightarrow> (spill_block \<Rightarrow> 'a \<Rightarrow> (bool \<times> 'a) result) \<Rightarrow> spill_reader \<Rightarrow> 't spill_set \<Rightarrow> 'a \<Rightarrow>
     (bool \<times> 'a \<times> 't spill_set) result option" where
  "spill_loop T body r s acc =
     (case spill_reader_next T r s of
        Inl e \<Rightarrow> Some (Inl e)
      | Inr (b, r, s) \<Rightarrow>
          (case b of
             None \<Rightarrow> Some (Inr (True, acc, s))
           | Some block \<Rightarrow>
               (case body block acc of
                  Inl e \<Rightarrow> Some (Inl e)
                | Inr (continue, acc) \<Rightarrow>
                    if continue then spill_loop T body r s acc else Some (Inr (False, acc, s)))))"

fun run_blocks :: "(spill_block \<Rightarrow> 'a \<Rightarrow> (bool \<times> 'a) result) \<Rightarrow> spill_block list \<Rightarrow> 'a \<Rightarrow> (bool \<times> 'a) result" where
  "run_blocks body [] acc = Inr (True, acc)"
| "run_blocks body (b # bs) acc =
     rbind (body b acc) (\<lambda>(continue, acc). if continue then run_blocks body bs acc else Inr (False, acc))"

definition block_wf :: "nat \<Rightarrow> spill_block \<Rightarrow> bool" where
  "block_wf n b \<longleftrightarrow> sb_ncolumns b = n \<and> 0 < sb_nrows b \<and> sb_nrows b \<le> 64 \<and>
     sb_selection b = (if sb_nrows b = 64 then - 1 else push_bit (sb_nrows b) 1 - 1) \<and>
     length (sb_hashes b) = 64 \<and> length (sb_values b) = n * 64 \<and> length (sb_validity b) = 8 * n"

lemma reader_next_fields:
  assumes "spill_reader_next T r s = Inr (Some b, r', s')" "reader_ok (ss_ncolumns s) r'"
  shows "block_wf (ss_ncolumns s) b"
  using assms
  by (auto simp: spill_reader_next_def rbind_Inr_iff block_wf_def reader_ok_def Let_def split: if_splits prod.splits)

lemma block_selection_rows: "block_wf n b \<Longrightarrow> word_rows (sb_selection b) = [0..<sb_nrows b]"
  using word_rows_below [of "int (sb_nrows b)" "- 1"] by (auto simp: block_wf_def bit_simps filter_id_conv split: if_splits)

text \<open>A frozen partition with the given rows, wherever its tape stands.\<close>

definition stored_at ::
  "('t \<Rightarrow> tape_phase) \<Rightarrow> ('t \<Rightarrow> byte list) \<Rightarrow> 't spill_set \<Rightarrow> nat \<Rightarrow> row list \<Rightarrow> bool" where
  "stored_at phase written s p rows \<longleftrightarrow> ss_partition_rows s ! p = length rows \<and>
     (rows \<noteq> [] \<longrightarrow> phase (ss_tapes s ! p) = Frozen \<and> on_tape (ss_ncolumns s) (written (ss_tapes s ! p)) rows)"

definition spill_stored ::
  "('t \<Rightarrow> tape_phase) \<Rightarrow> ('t \<Rightarrow> byte list) \<Rightarrow> 't spill_set \<Rightarrow> (nat \<Rightarrow> row list) \<Rightarrow> bool" where
  "spill_stored phase written s R \<longleftrightarrow> ss_finished s \<and> ss_frozen s \<and> length (ss_tapes s) = ss_npartitions s \<and>
     ss_ncolumns s < 65536 \<and> (\<forall>p < ss_npartitions s. stored_at phase written s p (R p))"

lemma spill_finish_stored:
  assumes "tape_spec T phase written rest" "spill_inv phase written s R" "spill_finish T True s = Inr s'"
  shows "spill_stored phase written s' R \<and> ss_ncolumns s' = ss_ncolumns s \<and> ss_npartitions s' = ss_npartitions s"
  using spill_finish_ready [OF assms]
  by (auto simp: spill_ready_def spill_stored_def finished_at_def stored_at_def)

lemma spill_open_stored:
  assumes T: "tape_spec T phase written rest" and st: "spill_stored phase written s R" and p: "p < ss_npartitions s"
  shows "\<exists>r s'. spill_reader_open T (int p) s = Inr (r, s') \<and> spill_stored phase written s' R \<and>
    ss_ncolumns s' = ss_ncolumns s \<and> ss_npartitions s' = ss_npartitions s \<and>
    reader_ok (ss_ncolumns s) r \<and> rd_partition r = p \<and> (rd_eof r \<longleftrightarrow> R p = []) \<and>
    (R p \<noteq> [] \<longrightarrow> rest (ss_tapes s' ! p) = written (ss_tapes s' ! p))"
proof -
  have at: "stored_at phase written s p (R p)" and len: "length (ss_tapes s) = ss_npartitions s"
    and fin: "ss_finished s" "ss_frozen s"
    using st p by (auto simp: spill_stored_def)
  let ?r = "\<lparr>rd_partition = p, rd_eof = (ss_partition_rows s ! p = 0), rd_hashes = replicate 64 0,
    rd_values = replicate (ss_ncolumns s * 64) 0, rd_validity = replicate (8 * ss_ncolumns s) 0\<rparr>"
  let ?s = "if ss_partition_rows s ! p \<noteq> 0
      then s\<lparr>ss_tapes := (ss_tapes s)[p := tape_rewind T (ss_tapes s ! p)]\<rparr> else s"
  have "spill_reader_open T (int p) s = Inr (?r, ?s)"
    using p fin by (simp add: spill_reader_open_def spill_partition_empty_def validate_partition_def)
  moreover have "spill_stored phase written ?s R"
    unfolding spill_stored_def
  proof (intro conjI allI impI)
    fix q assume "q < ss_npartitions ?s"
    then have q: "q < ss_npartitions s" by (simp split: if_splits)
    then have "stored_at phase written s q (R q)" using st by (simp add: spill_stored_def)
    then show "stored_at phase written ?s q (R q)"
      using at len p q tape_spec_rewind [OF T, of "ss_tapes s ! p"]
      by (auto simp: stored_at_def nth_list_update)
  qed (use st in \<open>auto simp: spill_stored_def\<close>)
  moreover have "R p \<noteq> [] \<longrightarrow> rest (ss_tapes ?s ! p) = written (ss_tapes ?s ! p)"
    using at len p tape_spec_rewind [OF T, of "ss_tapes s ! p"] by (auto simp: stored_at_def)
  moreover have "reader_ok (ss_ncolumns s) ?r" by (simp add: reader_ok_def)
  ultimately show ?thesis using at by (intro exI [of _ ?r] exI [of _ ?s]) (auto simp: stored_at_def)
qed

lemma spill_loop_blocks:
  assumes T: "tape_spec T phase written rest"
  shows "\<forall>w \<in> set ws. writer_wf n w \<and> sw_nrows w \<noteq> 0 \<Longrightarrow> reader_ok n r \<Longrightarrow> \<not> rd_eof r \<Longrightarrow>
    rd_partition r = p \<Longrightarrow> p < length (ss_tapes s) \<Longrightarrow> ss_ncolumns s = n \<Longrightarrow> n < 65536 \<Longrightarrow>
    phase (ss_tapes s ! p) \<noteq> Writing \<Longrightarrow> rest (ss_tapes s ! p) = concat (map (flush_bytes n) ws) \<Longrightarrow>
    \<exists>bs s'. (\<forall>b \<in> set bs. block_wf n b) \<and> concat (map block_rows bs) = concat (map (writer_rows n) ws) \<and>
      spill_loop T body r s acc = Some (rbind (run_blocks body bs acc) (\<lambda>(continue, acc). Inr (continue, acc, s'))) \<and>
      other_tapes p s s' \<and> phase (ss_tapes s' ! p) = phase (ss_tapes s ! p) \<and>
      (phase (ss_tapes s ! p) = Frozen \<longrightarrow> written (ss_tapes s' ! p) = written (ss_tapes s ! p))"
proof (induction ws arbitrary: r s acc)
  case Nil
  obtain s' where s': "spill_reader_next T r s = Inr (None, r\<lparr>rd_eof := True\<rparr>, s')" "other_tapes p s s'"
    "phase (ss_tapes s' ! p) = phase (ss_tapes s ! p)"
    "phase (ss_tapes s ! p) = Frozen \<longrightarrow> written (ss_tapes s' ! p) = written (ss_tapes s ! p)"
    using reader_next_end [OF T Nil.prems(4,5,3)] Nil.prems(8,9) by auto
  then have "spill_loop T body r s acc = Some (Inr (True, acc, s'))" by (subst spill_loop.simps) simp
  then show ?case using s' by (intro exI [of _ "[]"] exI [of _ s']) simp
next
  case (Cons w ws)
  have w: "writer_wf n w" "sw_nrows w \<noteq> 0" using Cons.prems(1) by auto
  have rest: "rest (ss_tapes s ! p) = flush_bytes n w @ concat (map (flush_bytes n) ws)"
    using Cons.prems(9) by simp
  obtain b r1 s1 where b: "spill_reader_next T r s = Inr (Some b, r1, s1)" "block_rows b = writer_rows n w"
    "reader_ok n r1" "\<not> rd_eof r1" "rd_partition r1 = p" "other_tapes p s s1"
    "rest (ss_tapes s1 ! p) = concat (map (flush_bytes n) ws)" "phase (ss_tapes s1 ! p) = phase (ss_tapes s ! p)"
    "phase (ss_tapes s ! p) = Frozen \<longrightarrow> written (ss_tapes s1 ! p) = written (ss_tapes s ! p)"
    using reader_next_block [OF T w Cons.prems(2,3,4,5,6,7,8) rest] by blast
  have wf: "block_wf n b" using reader_next_fields [OF b(1)] b(3) Cons.prems(6) by simp
  have s1: "ss_ncolumns s1 = n" "p < length (ss_tapes s1)"
    using b(6) Cons.prems(5,6) by (auto simp: other_tapes_def same_config_def)
  have IH: "\<exists>bs s'. (\<forall>b \<in> set bs. block_wf n b) \<and> concat (map block_rows bs) = concat (map (writer_rows n) ws) \<and>
      spill_loop T body r1 s1 acc = Some (rbind (run_blocks body bs acc) (\<lambda>(continue, acc). Inr (continue, acc, s'))) \<and>
      other_tapes p s1 s' \<and> phase (ss_tapes s' ! p) = phase (ss_tapes s1 ! p) \<and>
      (phase (ss_tapes s1 ! p) = Frozen \<longrightarrow> written (ss_tapes s' ! p) = written (ss_tapes s1 ! p))" for acc
    using Cons.IH [OF _ b(3,4,5) s1(2,1) Cons.prems(7) _ b(7)] Cons.prems(1,8) b(8) by auto
  have step: "spill_loop T body r s acc = (case body b acc of
        Inl e \<Rightarrow> Some (Inl e)
      | Inr (continue, acc) \<Rightarrow> if continue then spill_loop T body r1 s1 acc else Some (Inr (False, acc, s1)))"
    by (subst spill_loop.simps) (simp add: b(1))
  show ?case
  proof (cases "\<exists>acc1. body b acc = Inr (True, acc1)")
    case True
    then obtain acc1 where go: "body b acc = Inr (True, acc1)" by blast
    obtain bs s' where IH: "\<forall>b \<in> set bs. block_wf n b" "concat (map block_rows bs) = concat (map (writer_rows n) ws)"
      "spill_loop T body r1 s1 acc1 = Some (rbind (run_blocks body bs acc1) (\<lambda>(continue, acc). Inr (continue, acc, s')))"
      "other_tapes p s1 s'" "phase (ss_tapes s' ! p) = phase (ss_tapes s1 ! p)"
      "phase (ss_tapes s1 ! p) = Frozen \<longrightarrow> written (ss_tapes s' ! p) = written (ss_tapes s1 ! p)"
      using IH by blast
    show ?thesis
      using IH wf b(2,6,8,9) other_tapes_trans [OF b(6) IH(4)]
      by (intro exI [of _ "b # bs"] exI [of _ s']) (simp add: step go)
  next
    case False
    obtain bs s' where IH: "\<forall>b \<in> set bs. block_wf n b" "concat (map block_rows bs) = concat (map (writer_rows n) ws)"
      using IH by blast
    show ?thesis
      using IH wf b(2,6,8,9) False
      by (intro exI [of _ "b # bs"] exI [of _ s1]) (auto simp: step split: sum.splits)
  qed
qed

lemma stored_other:
  assumes st: "spill_stored phase written s R" and o: "other_tapes p s s'"
    and t: "phase (ss_tapes s' ! p) = phase (ss_tapes s ! p)" "written (ss_tapes s' ! p) = written (ss_tapes s ! p)"
  shows "spill_stored phase written s' R"
proof -
  have "ss_tapes s' ! q = ss_tapes s ! q \<or> q = p" for q using o by (auto simp: other_tapes_def)
  then have "stored_at phase written s' q (R q) = stored_at phase written s q (R q)" for q
    using o t by (cases "q = p") (auto simp: stored_at_def other_tapes_def same_config_def)
  then show ?thesis using st o by (simp add: spill_stored_def other_tapes_def same_config_def)
qed

lemma spill_loop_stored:
  assumes T: "tape_spec T phase written rest" and st: "spill_stored phase written s R" and p: "p < ss_npartitions s"
    and r: "reader_ok (ss_ncolumns s) r" "rd_partition r = p" "rd_eof r \<longleftrightarrow> R p = []"
    and t: "R p \<noteq> [] \<longrightarrow> rest (ss_tapes s ! p) = written (ss_tapes s ! p)"
  shows "\<exists>bs s'. (\<forall>b \<in> set bs. block_wf (ss_ncolumns s) b) \<and> concat (map block_rows bs) = R p \<and>
      spill_loop T body r s acc = Some (rbind (run_blocks body bs acc) (\<lambda>(continue, acc). Inr (continue, acc, s'))) \<and>
      spill_stored phase written s' R \<and> same_config s s'"
proof (cases "R p = []")
  case True
  then have "spill_loop T body r s acc = Some (Inr (True, acc, s))"
    using r(3) by (subst spill_loop.simps) (simp add: spill_reader_next_def)
  then show ?thesis using st True by (intro exI [of _ "[]"] exI [of _ s]) simp
next
  case False
  have at: "stored_at phase written s p (R p)" using st p by (simp add: spill_stored_def)
  then have on: "on_tape (ss_ncolumns s) (rest (ss_tapes s ! p)) (R p)" "phase (ss_tapes s ! p) = Frozen"
    using False t by (auto simp: stored_at_def)
  obtain ws where ws: "\<forall>w \<in> set ws. writer_wf (ss_ncolumns s) w \<and> sw_nrows w \<noteq> 0"
    "rest (ss_tapes s ! p) = concat (map (flush_bytes (ss_ncolumns s)) ws)"
    "R p = concat (map (writer_rows (ss_ncolumns s)) ws)"
    using on(1) by (auto simp: on_tape_def)
  have len: "p < length (ss_tapes s)" "ss_ncolumns s < 65536" "\<not> rd_eof r"
    using st p r(3) False by (auto simp: spill_stored_def)
  have ph: "phase (ss_tapes s ! p) \<noteq> Writing" using on(2) by simp
  obtain bs s' where loop: "\<forall>b \<in> set bs. block_wf (ss_ncolumns s) b"
    "concat (map block_rows bs) = concat (map (writer_rows (ss_ncolumns s)) ws)"
    "spill_loop T body r s acc = Some (rbind (run_blocks body bs acc) (\<lambda>(continue, acc). Inr (continue, acc, s')))"
    "other_tapes p s s'" "phase (ss_tapes s' ! p) = Frozen" "written (ss_tapes s' ! p) = written (ss_tapes s ! p)"
    using spill_loop_blocks [OF T ws(1) r(1) len(3) r(2) len(1) refl len(2) ph ws(2), of body acc] on(2)
    by (elim exE conjE) simp
  have "spill_stored phase written s' R"
    by (rule stored_other [OF st loop(4)]) (use loop(5,6) on(2) in simp_all)
  moreover have "concat (map block_rows bs) = R p" using loop(2) unfolding ws(3) .
  moreover have "same_config s s'" using loop(4) by (simp add: other_tapes_def)
  ultimately show ?thesis using loop(1,3) by blast
qed

end
