(* ===== verification/Join_Partitions.thy ===== *)
theory Join_Partitions
  imports Join_Spill Spill_Loop
begin

text \<open>
  The hash join over spilled partitions, second half of \<open>nodes/hash_join_spill.c\<close>: loading the
  build rows of a partition in chunks that fit in memory, rescanning its probe rows for each,
  splitting a partition that would need many chunks by further bits of the hash, and the
  buffer of probe rows that join the resident partitions.

  A step that may search or read for ever has a value of type \<open>'a result option\<close>: \<open>None\<close> when
  it does not return, a sum when it does.
\<close>

definition obind :: "'a result option \<Rightarrow> ('a \<Rightarrow> 'b result option) \<Rightarrow> 'b result option" where
  "obind m f = Option.bind m (\<lambda>r. case r of Inl e \<Rightarrow> Some (Inl e) | Inr x \<Rightarrow> f x)"

lemma obind_simps [simp]:
  "obind (Some (Inr x)) f = f x"
  "obind (Some (Inl e)) f = Some (Inl e)"
  "obind None f = None"
  by (simp_all add: obind_def)

lemma obind_mono [partial_function_mono]:
  assumes "mono_option B" "\<And>x. mono_option (\<lambda>f. C x f)"
  shows "mono_option (\<lambda>f. obind (B f) (\<lambda>x. C x f))"
  unfolding obind_def
proof (rule bind_mono [OF assms(1)])
  show "mono_option (\<lambda>f. case r of Inl e \<Rightarrow> Some (Inl e) | Inr x \<Rightarrow> C x f)" for r
    by (cases r) (simp_all add: assms(2) option.const_mono)
qed

section \<open>Files\<close>

definition read_spill_block ::
  "'t tape_ops \<Rightarrow> nat \<Rightarrow> join_block \<Rightarrow> 't spill_side \<Rightarrow> (bool \<times> join_block \<times> 't spill_side) result" where
  "read_spill_block T p block side =
     rbind (case the (sd_files side ! p) of
              None \<Rightarrow> spill_reader_open T (int p) (sd_set side)
            | Some r \<Rightarrow> Inr (r, sd_set side)) (\<lambda>(r, s).
     rbind (spill_reader_next T r s) (\<lambda>(input, r, s).
     let side = side\<lparr>sd_set := s, sd_files := (sd_files side)[p := Some (Some r)]\<rparr>
     in case input of
          None \<Rightarrow> Inr (False, block, side)
        | Some input \<Rightarrow> rbind (hash_join_use_spill_block input block) (\<lambda>block. Inr (True, block, side))))"

definition rewind_spill_file :: "'t tape_ops \<Rightarrow> nat \<Rightarrow> 't spill_side \<Rightarrow> 't spill_side result" where
  "rewind_spill_file T p side =
     (case the (sd_files side ! p) of
        None \<Rightarrow> Inr side
      | Some r \<Rightarrow> rbind (spill_reader_rewind T r (sd_set side)) (\<lambda>(r, s).
          Inr (side\<lparr>sd_set := s, sd_files := (sd_files side)[p := Some (Some r)]\<rparr>)))"

definition close_reader :: "nat \<Rightarrow> 't spill_side \<Rightarrow> 't spill_side" where
  "close_reader p side = side\<lparr>sd_files := (sd_files side)[p := Some None]\<rparr>"

definition forget_file :: "nat \<Rightarrow> 't spill_side \<Rightarrow> 't spill_side" where
  "forget_file p side = side\<lparr>sd_files := (sd_files side)[p := None]\<rparr>"

text \<open>The files of the initial partitioning or of the repartition.\<close>

definition build_side_of :: "bool \<Rightarrow> 't hash_spill \<Rightarrow> 't spill_side" where
  "build_side_of again hs = (if again then re_build (the (hs_repartition hs)) else hs_build_side hs)"

definition probe_side_of :: "bool \<Rightarrow> 't hash_spill \<Rightarrow> 't spill_side" where
  "probe_side_of again hs = (if again then re_probe (the (hs_repartition hs)) else hs_probe_side hs)"

definition put_build_side :: "bool \<Rightarrow> 't spill_side \<Rightarrow> 't hash_spill \<Rightarrow> 't hash_spill" where
  "put_build_side again side hs =
     (if again then hs\<lparr>hs_repartition := Some ((the (hs_repartition hs))\<lparr>re_build := side\<rparr>)\<rparr>
      else hs\<lparr>hs_build_side := side\<rparr>)"

definition put_probe_side :: "bool \<Rightarrow> 't spill_side \<Rightarrow> 't hash_spill \<Rightarrow> 't hash_spill" where
  "put_probe_side again side hs =
     (if again then hs\<lparr>hs_repartition := Some ((the (hs_repartition hs))\<lparr>re_probe := side\<rparr>)\<rparr>
      else hs\<lparr>hs_probe_side := side\<rparr>)"

section \<open>Chunks of the build side\<close>

definition append_spill_build_row :: "join_block \<Rightarrow> nat \<Rightarrow> build_store \<Rightarrow> build_store result" where
  "append_spill_build_row block row store =
     rbind (if bs_nrows store = bs_capacity store then hash_join_grow_build_store store else Inr store) (\<lambda>store.
     Inr (store_row_cells (jb_hashes block ! row)
       (\<lambda>column. (hash_join_spill_value block column row, \<not> hash_join_spill_value_valid block column row)) store))"

definition append_chunk_rows ::
  "nat \<Rightarrow> join_block \<Rightarrow> nat \<Rightarrow> build_store \<Rightarrow> (nat \<times> build_store) result" where
  "append_chunk_rows chunk_rows block row store =
     (let k = min (jb_nrows block - row) (chunk_rows - bs_nrows store)
      in rbind (rfold (append_spill_build_row block) [row..<row + k] store) (\<lambda>store. Inr (row + k, store)))"

text \<open>The loop of \<open>load_build_chunk\<close>; the first component says that the file ended.\<close>

partial_function (option) load_rows ::
  "'t tape_ops \<Rightarrow> nat \<Rightarrow> nat \<Rightarrow> 't spill_side \<Rightarrow> join_block \<Rightarrow> nat \<Rightarrow> build_store \<Rightarrow>
     (bool \<times> 't spill_side \<times> join_block \<times> nat \<times> build_store) result option" where
  "load_rows T p chunk_rows side block row store =
     (if \<not> bs_nrows store < chunk_rows then Some (Inr (False, side, block, row, store))
      else
        obind (Some (if row \<ge> jb_nrows block then read_spill_block T p block side else Inr (True, block, side)))
          (\<lambda>(more, block', side).
           if \<not> more then Some (Inr (True, side, block', row, store))
           else obind (Some (append_chunk_rows chunk_rows block' (if row \<ge> jb_nrows block then 0 else row) store))
                  (\<lambda>(row, store). load_rows T p chunk_rows side block' row store)))"

definition load_build_chunk ::
  "'t tape_ops \<Rightarrow> join_plan \<Rightarrow> 't hash_spill \<Rightarrow> (bool \<times> 't hash_spill) result option" where
  "load_build_chunk T plan hs =
     (let (again, p) = the (hs_active hs);
          store = (hash_join_reset_build_store (hs_build hs))\<lparr>bs_hash_shift := hs_active_hash_shift hs\<rparr>
      in obind (load_rows T p (hs_build_chunk_rows hs) (build_side_of again hs) (hs_build_block hs)
             (hs_build_block_row hs) store) (\<lambda>(eof, side, block, row, store).
         let eof = (eof \<or> hs_build_eof hs);
             hs = (put_build_side again side hs)\<lparr>hs_build_block := block, hs_build_block_row := row, hs_build_eof := eof\<rparr>
         in if bs_nrows store = 0 then Some (Inr (False, hs\<lparr>hs_build := store, hs_build_more := False\<rparr>))
            else Option.bind (hash_join_finish_build_table (jp_inner_keys plan) store) (\<lambda>store.
              Some (Inr (True, hs\<lparr>hs_build := store, hs_build_more := (\<not> eof \<or> row < jb_nrows block)\<rparr>)))))"

section \<open>Starting a partition\<close>

definition finish_active_partition :: "'t hash_spill \<Rightarrow> 't hash_spill" where
  "finish_active_partition hs =
     (case hs_active hs of
        None \<Rightarrow> hs
      | Some (again, p) \<Rightarrow>
          (put_probe_side again (close_reader p (probe_side_of again hs))
            (put_build_side again (close_reader p (build_side_of again hs)) hs))\<lparr>hs_active := None\<rparr>)"

definition start_partition_files ::
  "'t tape_ops \<Rightarrow> join_plan \<Rightarrow> bool \<Rightarrow> nat \<Rightarrow> nat \<Rightarrow> 't hash_spill \<Rightarrow> (bool \<times> 't hash_spill) result option" where
  "start_partition_files T plan again p hash_shift hs =
     (let hs = hs\<lparr>hs_active := Some (again, p), hs_active_hash_shift := hash_shift\<rparr>
      in obind (Some (rewind_spill_file T p (build_side_of again hs))) (\<lambda>side.
         let hs = (put_build_side again side hs)\<lparr>hs_build_block := (hs_build_block hs)\<lparr>jb_nrows := 0\<rparr>,
               hs_build_block_row := 0, hs_build_eof := False\<rparr>
         in obind (load_build_chunk T plan hs) (\<lambda>(loaded, hs).
            if \<not> loaded then Some (Inr (False, hs))
            else obind (Some (rewind_spill_file T p (probe_side_of again hs))) (\<lambda>side.
              Some (Inr (True, (put_probe_side again side hs)\<lparr>hs_partition_active := True\<rparr>))))))"

section \<open>Splitting a partition\<close>

definition write_spill_rows ::
  "'t tape_ops \<Rightarrow> nat \<Rightarrow> join_block \<Rightarrow> nat list \<Rightarrow> 't spill_side \<Rightarrow> 't spill_side result" where
  "write_spill_rows T p block rows side =
     (let hashes = map ((!) (jb_hashes block)) rows;
          vals = concat (map (\<lambda>column. map (hash_join_spill_value block column) rows) [0..<jb_ncolumns block]);
          validity = map (\<lambda>column. fold (\<lambda>i w. if hash_join_spill_value_valid block column (rows ! i) then w OR push_bit i 1 else w)
              [0..<length rows] 0) [0..<jb_ncolumns block]
      in rbind (spill_write_dense T (int p) (int (length rows)) (Some hashes) (Some vals) (int (length rows)) (Some validity)
            (sd_set side)) (\<lambda>s. Inr (open_file p (side\<lparr>sd_set := s\<rparr>))))"

definition repartition_block ::
  "'t tape_ops \<Rightarrow> nat \<Rightarrow> nat \<Rightarrow> spill_file option list option \<Rightarrow> join_block \<Rightarrow> 't spill_side \<times> nat list option \<Rightarrow>
     ('t spill_side \<times> nat list option) result" where
  "repartition_block T hash_shift npartitions matching_build_files block =
     rfold (\<lambda>(p, rows) (side, build_rows).
         rbind (write_spill_rows T p block rows side) (\<lambda>side.
         Inr (side, map_option (\<lambda>counts. counts[p := counts ! p + length rows]) build_rows)))
       (fold (\<lambda>row heads.
            let p = hash_partition hash_shift npartitions (jb_hashes block ! row)
            in case matching_build_files of
                 Some files \<Rightarrow> if files ! p = None then heads else link_row p row heads
               | None \<Rightarrow> link_row p row heads)
          [0..<jb_nrows block] [])"

partial_function (option) repartition_loop ::
  "'t tape_ops \<Rightarrow> nat \<Rightarrow> nat \<Rightarrow> nat \<Rightarrow> spill_file option list option \<Rightarrow> join_block \<Rightarrow> 't spill_side \<Rightarrow>
     't spill_side \<times> nat list option \<Rightarrow> (join_block \<times> 't spill_side \<times> 't spill_side \<times> nat list option) result option" where
  "repartition_loop T p hash_shift npartitions matching block source dest =
     obind (Some (read_spill_block T p block source)) (\<lambda>(more, block, source).
     if \<not> more then Some (Inr (block, source, dest))
     else obind (Some (repartition_block T hash_shift npartitions matching block dest)) (\<lambda>dest.
       repartition_loop T p hash_shift npartitions matching block source dest))"

definition repartition_file ::
  "'t tape_ops \<Rightarrow> nat \<Rightarrow> nat \<Rightarrow> nat \<Rightarrow> spill_file option list option \<Rightarrow> join_block \<Rightarrow> 't spill_side \<Rightarrow>
     't spill_side \<times> nat list option \<Rightarrow> (join_block \<times> 't spill_side \<times> 't spill_side \<times> nat list option) result option" where
  "repartition_file T p hash_shift npartitions matching block source dest =
     obind (Some (rewind_spill_file T p source)) (\<lambda>source.
     repartition_loop T p hash_shift npartitions matching (block\<lparr>jb_nrows := 0\<rparr>) source dest)"

definition PG_BATCH_REPARTITION_MIN_PASSES :: nat where
  "PG_BATCH_REPARTITION_MIN_PASSES = 6"

definition finish_side :: "'t tape_ops \<Rightarrow> bool \<Rightarrow> 't spill_side \<Rightarrow> 't spill_side result" where
  "finish_side T frozen side = rbind (spill_finish T frozen (sd_set side)) (\<lambda>s. Inr (side\<lparr>sd_set := s\<rparr>))"

definition repartition_current_partition ::
  "'t tape_ops \<Rightarrow> 't hash_spill \<Rightarrow> (bool \<times> 't hash_spill) result option" where
  "repartition_current_partition T hs =
     (let p = nat (hs_current hs);
          rows = hs_build_partition_rows hs ! p;
          required = (rows + hs_build_chunk_rows hs - 1) div hs_build_chunk_rows hs;
          npartitions = next_partition_count required;
          shift = hs_partition_shift hs
      in if required < PG_BATCH_REPARTITION_MIN_PASSES then Some (Inr (False, hs))
         else
           obind (Some (spill_side_create T (jb_ncolumns (hs_build_block hs)) npartitions (hs_memory_limit hs div 4))) (\<lambda>rb.
           obind (Some (spill_side_create T (jb_ncolumns (hs_probe_block hs)) npartitions (hs_memory_limit hs div 4))) (\<lambda>rp.
           obind (repartition_file T p shift npartitions None (hs_build_block hs) (hs_build_side hs)
               (rb, Some (replicate npartitions 0))) (\<lambda>(build_block, build_side, rb, build_rows).
           obind (repartition_file T p shift npartitions (Some (sd_files rb)) (hs_probe_block hs) (hs_probe_side hs)
               (rp, None)) (\<lambda>(probe_block, probe_side, rp, _).
           obind (Some (finish_side T False rb)) (\<lambda>rb.
           obind (Some (finish_side T True rp)) (\<lambda>rp.
           Some (Inr (True, hs\<lparr>hs_build_block := build_block, hs_probe_block := probe_block,
             hs_build_side := forget_file p build_side, hs_probe_side := forget_file p probe_side,
             hs_repartition := Some \<lparr>re_build = rb, re_probe = rp, re_build_rows = the build_rows,
               re_npartitions = npartitions, re_current = - 1,
               re_hash_shift = shift + partition_bits npartitions\<rparr>\<rparr>)))))))))"

section \<open>The loop over partitions\<close>

definition finish_repartition :: "'t hash_spill \<Rightarrow> 't hash_spill" where
  "finish_repartition hs =
     (let re = the (hs_repartition hs)
      in if re_current re \<ge> 0 then hs\<lparr>hs_repartition := Some (re\<lparr>
             re_build := forget_file (nat (re_current re)) (re_build re),
             re_probe := forget_file (nat (re_current re)) (re_probe re)\<rparr>)\<rparr>
         else hs)"

partial_function (option) next_repartition ::
  "'t tape_ops \<Rightarrow> join_plan \<Rightarrow> 't hash_spill \<Rightarrow> (bool \<times> 't hash_spill) result option" where
  "next_repartition T plan hs =
     (let re = (the (hs_repartition hs))\<lparr>re_current := re_current (the (hs_repartition hs)) + 1\<rparr>;
          p = nat (re_current re);
          hs = hs\<lparr>hs_repartition := Some re\<rparr>
      in if \<not> re_current re < int (re_npartitions re) then Some (Inr (False, hs))
         else if sd_files (re_build re) ! p = None \<or> sd_files (re_probe re) ! p = None
         then next_repartition T plan (finish_repartition hs)
         else obind (start_partition_files T plan True p (re_hash_shift re) hs) (\<lambda>(started, hs).
           if started then Some (Inr (True, hs)) else next_repartition T plan hs))"

partial_function (option) next_initial ::
  "'t tape_ops \<Rightarrow> join_plan \<Rightarrow> 't hash_spill \<Rightarrow> (bool \<times> 't hash_spill) result option" where
  "next_initial T plan hs =
     (let hs = hs\<lparr>hs_current := hs_current hs + 1\<rparr>;
          p = nat (hs_current hs)
      in if \<not> hs_current hs < int (hs_npartitions hs) then Some (Inr (False, hs))
         else if sd_files (hs_build_side hs) ! p = None \<or> sd_files (hs_probe_side hs) ! p = None
         then next_initial T plan hs
         else
           obind (if hs_build_partition_rows hs ! p > hs_build_chunk_rows hs then repartition_current_partition T hs
                  else Some (Inr (False, hs))) (\<lambda>(split, hs).
           if split then Some (Inr (False, hs))
           else obind (start_partition_files T plan False p (hs_partition_shift hs) hs) (\<lambda>(started, hs).
             if started then Some (Inr (True, hs)) else next_initial T plan hs)))"

partial_function (option) next_partition_loop ::
  "'t tape_ops \<Rightarrow> join_plan \<Rightarrow> 't hash_spill \<Rightarrow> (bool \<times> 't hash_spill) result option" where
  "next_partition_loop T plan hs =
     obind (if hs_repartition hs = None then Some (Inr (False, hs))
            else obind (next_repartition T plan (finish_repartition hs)) (\<lambda>(found, hs).
              Some (Inr (found, if found then hs else hs\<lparr>hs_repartition := None\<rparr>)))) (\<lambda>(found, hs).
     if found then Some (Inr (True, hs))
     else obind (next_initial T plan hs) (\<lambda>(found, hs).
       if found then Some (Inr (True, hs))
       else if hs_repartition hs \<noteq> None then next_partition_loop T plan hs
       else Some (Inr (False, hs\<lparr>hs_partition_active := False\<rparr>))))"

definition start_next_partition ::
  "'t tape_ops \<Rightarrow> join_plan \<Rightarrow> 't hash_spill \<Rightarrow> (bool \<times> 't hash_spill) result option" where
  "start_next_partition T plan hs = next_partition_loop T plan (finish_active_partition hs)"

definition hash_join_finish_spilled_probe :: "'t tape_ops \<Rightarrow> 't hash_spill \<Rightarrow> 't hash_spill result" where
  "hash_join_finish_spilled_probe T hs =
     rbind (finish_side T True (hs_probe_side hs)) (\<lambda>side.
     Inr (hs\<lparr>hs_probe_side := side, hs_current := - 1, hs_partition_active := False\<rparr>))"

partial_function (option) hash_join_fetch_spilled_probe_batch ::
  "'t tape_ops \<Rightarrow> join_plan \<Rightarrow> 't hash_spill \<Rightarrow> (bool \<times> 't hash_spill) result option" where
  "hash_join_fetch_spilled_probe_batch T plan hs =
     obind (if hs_partition_active hs then Some (Inr (True, hs)) else start_next_partition T plan hs) (\<lambda>(found, hs).
     if \<not> found then Some (Inr (False, hs))
     else
       let (again, p) = the (hs_active hs)
       in obind (Some (read_spill_block T p (hs_probe_block hs) (probe_side_of again hs))) (\<lambda>(more, block, side).
          let hs = (put_probe_side again side hs)\<lparr>hs_probe_block := block\<rparr>
          in if more then Some (Inr (True, hs))
             else obind (if hs_build_more hs then load_build_chunk T plan hs else Some (Inr (False, hs))) (\<lambda>(loaded, hs).
               if loaded
               then obind (Some (rewind_spill_file T p (probe_side_of again hs))) (\<lambda>side.
                 hash_join_fetch_spilled_probe_batch T plan (put_probe_side again side hs))
               else hash_join_fetch_spilled_probe_batch T plan (hs\<lparr>hs_partition_active := False\<rparr>))))"

section \<open>Blocks as batches\<close>

text \<open>The batch of a block: its first rows are selected and every column is packed.\<close>

definition block_batch :: "nat \<Rightarrow> join_block \<Rightarrow> probe_batch" where
  "block_batch nrows block =
     \<lparr>pb_selection = \<lparr>sel_nrows = int nrows, sel_nwords = 1, sel_words = [nrows_mask nrows]\<rparr>,
      pb_columns = map (\<lambda>column. int4_vector_init_packed
          (drop (column * jb_capacity block) (jb_values block))
          (Some (drop (column * ((jb_capacity block + 7) div 8)) (jb_validity block))) 0) [0..<jb_ncolumns block]\<rparr>"

definition hash_join_publish_resident_probe :: "bool \<Rightarrow> 't hash_spill \<Rightarrow> probe_batch option" where
  "hash_join_publish_resident_probe final_batch hs =
     (let block = hs_resident_block hs;
          nrows = min (jb_nrows block) PG_BATCH_SIZE
      in if jb_nrows block < PG_BATCH_SIZE \<and> \<not> final_batch then None
         else if nrows = 0 then None else Some (block_batch nrows block))"

definition move_down :: "nat \<Rightarrow> nat \<Rightarrow> 'a list \<Rightarrow> 'a list" where
  "move_down consumed remaining xs = take remaining (drop consumed xs) @ drop remaining xs"

text \<open>\<open>consumed\<close> is the number of rows of the batch that was published.\<close>

definition hash_join_finish_resident_probe :: "nat \<Rightarrow> join_block \<Rightarrow> join_block" where
  "hash_join_finish_resident_probe consumed block =
     (let remaining = jb_nrows block - consumed;
          cap = jb_capacity block;
          stride = (cap + 7) div 8
      in if remaining > 0 then
           fold (\<lambda>column block.
               let validity = drop (column * stride) (jb_validity block);
                   tmp = fold (\<lambda>row tmp.
                       let source = consumed + row
                       in if bit (validity ! (source div 8)) (source mod 8)
                          then tmp[row div 8 := (tmp ! (row div 8)) OR push_bit (row mod 8) 1] else tmp)
                     [0..<remaining] (replicate ((PG_BATCH_SIZE + 7) div 8) 0)
               in block\<lparr>jb_values := take (column * cap) (jb_values block) @
                     move_down consumed remaining (take cap (drop (column * cap) (jb_values block))) @
                     drop (column * cap + cap) (jb_values block),
                   jb_validity := take (column * stride) (jb_validity block) @
                     tmp @ replicate (stride - length tmp) 0 @ drop (column * stride + stride) (jb_validity block)\<rparr>)
             [0..<jb_ncolumns block]
             (block\<lparr>jb_hashes := move_down consumed remaining (jb_hashes block), jb_nrows := remaining\<rparr>)
         else block\<lparr>jb_validity := replicate (jb_ncolumns block * stride) 0 @
                 drop (jb_ncolumns block * stride) (jb_validity block), jb_nrows := remaining\<rparr>)"

section \<open>Fetching probe batches\<close>

text \<open>
  \<open>fetch_probe_batch\<close> of \<open>nodes/hash_join.c\<close> once the build side has spilled.  The outer
  input is the list of its remaining batches; \<open>sp_from_resident\<close> says that the probe batch
  is the buffer of resident rows and not a block read from a file.
\<close>

record 't spilled_probe =
  sp_spill :: "'t hash_spill"
  sp_input :: "probe_batch list"
  sp_input_done :: bool
  sp_started :: bool
  sp_from_resident :: bool

definition publish_probe :: "'t spilled_probe \<Rightarrow> bool \<Rightarrow> 't hash_spill \<Rightarrow> 't spilled_probe option" where
  "publish_probe sp final_batch hs =
     (case hash_join_publish_resident_probe final_batch hs of
        None \<Rightarrow> None
      | Some _ \<Rightarrow> Some (sp\<lparr>sp_spill := hs, sp_from_resident := True\<rparr>))"

text \<open>The loop over the outer input; the flag of the result says that a resident batch was published.\<close>

fun read_probe_input ::
  "'t tape_ops \<Rightarrow> join_plan \<Rightarrow> 't spilled_probe \<Rightarrow> probe_batch list \<Rightarrow> 't hash_spill \<Rightarrow> (bool \<times> 't spilled_probe) result" where
  "read_probe_input T plan sp [] hs =
     (case publish_probe sp False hs of
        Some sp \<Rightarrow> Inr (True, sp\<lparr>sp_input := []\<rparr>)
      | None \<Rightarrow> rbind (hash_join_finish_spilled_probe T hs) (\<lambda>hs.
          Inr (False, sp\<lparr>sp_spill := hs, sp_input := [], sp_input_done := True\<rparr>)))"
| "read_probe_input T plan sp (batch # input) hs =
     (case publish_probe sp False hs of
        Some sp \<Rightarrow> Inr (True, sp\<lparr>sp_input := batch # input\<rparr>)
      | None \<Rightarrow>
          (let (hash_rows, hashes) = hash_input_batch plan (jp_outer_keys plan) batch
           in rbind (hash_join_spill_probe_batch T (pb_columns batch) hashes hash_rows hs) (read_probe_input T plan sp input)))"

definition fetch_restored ::
  "'t tape_ops \<Rightarrow> join_plan \<Rightarrow> 't spilled_probe \<Rightarrow> (bool \<times> 't spilled_probe) result option" where
  "fetch_restored T plan sp =
     obind (hash_join_fetch_spilled_probe_batch T plan (sp_spill sp)) (\<lambda>(found, hs).
     Some (Inr (found, sp\<lparr>sp_spill := hs\<rparr>)))"

definition fetch_probe_batch_spilled ::
  "'t tape_ops \<Rightarrow> join_plan \<Rightarrow> 't spilled_probe \<Rightarrow> (bool \<times> 't spilled_probe) result option" where
  "fetch_probe_batch_spilled T plan sp =
     (if hs_build_rows (sp_spill sp) = 0 then Some (Inr (False, sp))
      else if sp_started sp then fetch_restored T plan sp
      else
        obind (Some (if sp_input_done sp then Inr (False, sp)
                     else read_probe_input T plan sp (sp_input sp) (sp_spill sp))) (\<lambda>(published, sp).
        if published then Some (Inr (True, sp))
        else
          (case publish_probe sp True (sp_spill sp) of
             Some sp \<Rightarrow> Some (Inr (True, sp))
           | None \<Rightarrow>
               let hs = sp_spill sp
               in fetch_restored T plan (sp\<lparr>sp_spill := hs\<lparr>hs_build := hash_join_reset_build_store (hs_build hs)\<rparr>,
                    sp_started := True\<rparr>))))"

definition resident_batch_rows :: "join_block \<Rightarrow> nat" where
  "resident_batch_rows block = min (jb_nrows block) PG_BATCH_SIZE"

definition finish_probe_batch_spilled :: "'t spilled_probe \<Rightarrow> 't spilled_probe" where
  "finish_probe_batch_spilled sp =
     (if sp_from_resident sp then
        (let hs = sp_spill sp; block = hs_resident_block hs
         in sp\<lparr>sp_spill := hs\<lparr>hs_resident_block := hash_join_finish_resident_probe (resident_batch_rows block) block\<rparr>,
               sp_from_resident := False\<rparr>)
      else sp)"

end
