(* ===== verification/Join_Store.thy ===== *)
theory Join_Store
  imports Join_Spill Join_Props Spill_Loop
begin

text \<open>
  The build store while rows move out of it.  Compaction leaves the validity bits behind the
  last row as they were, so the store is no longer well formed in the sense of \<open>store_wf\<close>:
  \<open>store_shape\<close> is what remains.  Rows without NULL cells can still be appended; a NULL cell
  cannot, as \<open>stale_validity\<close> shows.
\<close>

definition store_shape :: "build_store \<Rightarrow> bool" where
  "store_shape s \<longleftrightarrow> length (bs_values s) = bs_ncolumns s \<and> length (bs_validity s) = bs_ncolumns s \<and>
     (\<forall>vs \<in> set (bs_values s). length vs = bs_capacity s) \<and>
     (\<forall>ws \<in> set (bs_validity s). length ws = (bs_capacity s + 63) div 64) \<and>
     length (bs_hashes s) = bs_capacity s \<and> length (bs_nexts s) = bs_capacity s \<and>
     bs_nrows s \<le> bs_capacity s \<and> bs_capacity s < 2 ^ 32"

lemma store_wf_shape: "store_wf s \<Longrightarrow> store_shape s"
  by (simp add: store_wf_def store_shape_def)

lemma store_shape_values: "store_shape s \<Longrightarrow> column < bs_ncolumns s \<Longrightarrow> length (bs_values s ! column) = bs_capacity s"
  by (simp add: store_shape_def)

lemma store_shape_validity:
  "store_shape s \<Longrightarrow> column < bs_ncolumns s \<Longrightarrow> length (bs_validity s ! column) = (bs_capacity s + 63) div 64"
  by (simp add: store_shape_def)

lemma shape_resize:
  assumes wf: "store_shape s" and r: "resize_build_store n s = Inr s'" and n: "n < 2 ^ 32"
  shows "store_shape s' \<and> store_rows s' = store_rows s \<and> same_table s s' \<and> bs_capacity s' = n \<and>
    bs_nrows s' = bs_nrows s \<and> bs_capacity s < n"
proof -
  have s': "s' = s\<lparr>bs_hashes := Build_Store.extend 0 n (bs_hashes s), bs_nexts := Build_Store.extend 0 n (bs_nexts s),
      bs_values := map (Build_Store.extend 0 n) (bs_values s),
      bs_validity := map (Build_Store.extend 0 ((n + 63) div 64)) (bs_validity s), bs_capacity := n\<rparr>"
    and c: "bs_capacity s < n"
    using r by (auto simp: resize_build_store_def Let_def split: if_splits)
  have words: "(bs_capacity s + 63) div 64 \<le> (n + 63) div 64" using c by (simp add: div_le_mono)
  note len = store_shape_values [OF wf] store_shape_validity [OF wf]
  have "store_shape s'"
    unfolding store_shape_def using wf c n words by (auto simp: s' store_shape_def length_extend)
  moreover have "store_rows s' = store_rows s"
  proof (rule store_rows_cong)
    fix column r assume cr: "column < bs_ncolumns s" "r < bs_nrows s"
    then have r: "r < bs_capacity s" using wf by (simp add: store_shape_def)
    show "bs_values s' ! column ! r = bs_values s ! column ! r"
      using wf cr r len(1) by (simp add: s' store_shape_def nth_extend)
    show "build_value_valid s' column r = build_value_valid s column r"
      using wf cr len word_index [OF r] by (simp add: build_value_valid_def s' nth_extend store_shape_def)
  qed (use wf in \<open>simp_all add: s' nth_extend store_shape_def\<close>)
  ultimately show ?thesis using c by (simp add: s' same_table_def)
qed

lemma shape_grow:
  assumes wf: "store_shape s" and n: "bs_nrows s < 2 ^ 30" and full: "bs_nrows s = bs_capacity s"
  shows "\<exists>s'. hash_join_grow_build_store s = Inr s' \<and> store_shape s' \<and> store_rows s' = store_rows s \<and> same_table s s' \<and>
    bs_nrows s' = bs_nrows s \<and> bs_nrows s' < bs_capacity s'"
proof -
  let ?n = "if bs_capacity s = 0 then 1024 else bs_capacity s * 2 mod 2 ^ 32"
  have lt: "bs_capacity s < ?n" "?n < 2 ^ 32" using n full by auto
  define m where "m = ?n"
  obtain s' where s': "resize_build_store m s = Inr s'"
    using lt(1) unfolding m_def [symmetric] by (simp add: resize_build_store_def Let_def)
  moreover have "hash_join_grow_build_store s = Inr s'"
    using s' by (simp only: hash_join_grow_build_store_def m_def)
  ultimately show ?thesis
    using shape_resize [OF wf s'] lt full unfolding m_def [symmetric] by simp
qed

text \<open>Storing a row whose cells may be NULL only where the validity bit is clear.\<close>

lemma shape_store_row:
  assumes wf: "store_shape s" and room: "bs_nrows s < bs_capacity s"
    and clear: "\<forall>column < bs_ncolumns s. snd (cell column) \<longrightarrow> \<not> build_value_valid s column (bs_nrows s)"
  shows "store_shape (store_row_cells h cell s) \<and>
    store_rows (store_row_cells h cell s) = store_rows s @ [(h, cell_options (bs_ncolumns s) cell)] \<and>
    same_table s (store_row_cells h cell s) \<and> bs_capacity (store_row_cells h cell s) = bs_capacity s \<and>
    bs_nrows (store_row_cells h cell s) = bs_nrows s + 1"
proof -
  let ?s = "store_row_cells h cell s" and ?r = "bs_nrows s"
  note len = store_shape_values [OF wf] store_shape_validity [OF wf]
  note step = store_row_cells_def [of h cell s] Let_def
  have idx: "?r div 64 < (bs_capacity s + 63) div 64" by (rule word_index [OF room])
  have valid: "build_value_valid ?s column r \<longleftrightarrow>
      (if r = ?r then \<not> snd (cell column) else build_value_valid s column r)"
    if "column < bs_ncolumns s" for column r
  proof -
    have "r div 64 = ?r div 64 \<and> r mod 64 = ?r mod 64 \<longleftrightarrow> r = ?r" by (metis mod_div_decomp)
    then show ?thesis
      using that len idx clear
      by (auto simp: build_value_valid_def step nth_list_update bit_or_iff bit_exp_iff)
  qed
  have "store_shape ?s"
    unfolding store_shape_def using wf room len by (auto simp: step store_shape_def)
  moreover have "store_rows ?s = store_rows s @ [(h, cell_options (bs_ncolumns s) cell)]"
  proof -
    have old: "(bs_hashes ?s ! r, store_cells ?s r) = (bs_hashes s ! r, store_cells s r)" if "r < ?r" for r
      using that valid len room wf by (auto simp: store_cells_def step store_shape_def)
    have new: "(bs_hashes ?s ! ?r, store_cells ?s ?r) = (h, cell_options (bs_ncolumns s) cell)"
      using valid len room wf by (auto simp: store_cells_def step store_shape_def cell_options_def)
    have n: "bs_nrows ?s = Suc ?r" by (simp add: step)
    show ?thesis unfolding store_rows_def n using old new by (simp del: Pair_inject)
  qed
  ultimately show ?thesis by (simp add: same_table_def step)
qed

lemma shape_finish_table:
  assumes "store_shape s" "bs_nrows s \<le> 2 ^ 30" "\<not> bs_has_duplicates s"
  shows "\<exists>s'. hash_join_finish_build_table keys s = Some s' \<and> table_ok keys s' (bs_nrows s') \<and>
    store_rows s' = store_rows s \<and> bs_nrows s' = bs_nrows s \<and> bs_ncolumns s' = bs_ncolumns s"
proof -
  have "bs_nrows s \<le> length (bs_nexts s)" using assms(1) by (simp add: store_shape_def)
  from finish_build_table_len [OF this assms(2,3), of keys] show ?thesis
    using table_update_fields by fastforce
qed

section \<open>Compaction\<close>

definition row_at :: "build_store \<Rightarrow> nat \<Rightarrow> row" where
  "row_at s r = (bs_hashes s ! r, store_cells s r)"

lemma store_rows_row_at: "store_rows s = map (row_at s) [0..<bs_nrows s]"
  by (simp add: store_rows_def row_at_def)

definition same_dims :: "build_store \<Rightarrow> build_store \<Rightarrow> bool" where
  "same_dims s s' \<longleftrightarrow> same_table s s' \<and> bs_capacity s' = bs_capacity s \<and> bs_nrows s' = bs_nrows s"

lemma same_dims_refl [simp]: "same_dims s s"
  by (simp add: same_dims_def)

lemma same_dims_trans: "same_dims s t \<Longrightarrow> same_dims t u \<Longrightarrow> same_dims s u"
  by (simp add: same_dims_def same_table_def)

lemma move_build_row_ok:
  assumes wf: "store_shape s" and w: "dest < bs_capacity s" and r: "row < bs_capacity s"
  shows "store_shape (move_build_row dest row s) \<and> same_dims s (move_build_row dest row s) \<and>
    (\<forall>q < bs_capacity s. row_at (move_build_row dest row s) q = row_at s (if q = dest then row else q))"
proof -
  let ?s = "move_build_row dest row s"
  note len = store_shape_values [OF wf] store_shape_validity [OF wf]
  note step = move_build_row_def [of dest row s] Let_def
  have dims: "bs_ncolumns ?s = bs_ncolumns s" "same_dims s ?s" by (simp_all add: step same_dims_def same_table_def)
  have valid: "build_value_valid ?s column q \<longleftrightarrow> build_value_valid s column (if q = dest then row else q)"
    if c: "column < bs_ncolumns s" for column q
  proof -
    have eq: "q div 64 = dest div 64 \<and> q mod 64 = dest mod 64 \<longleftrightarrow> q = dest" by (metis mod_div_decomp)
    have idx: "dest div 64 < length (bs_validity s ! column)" using word_index [OF w] len(2) [OF c] by simp
    show ?thesis
      using c idx eq
      by (auto simp: build_value_valid_def step nth_list_update bit_or_iff bit_and_iff bit_not_iff bit_exp_iff)
  qed
  have "row_at ?s q = row_at s (if q = dest then row else q)" if q: "q < bs_capacity s" for q
  proof -
    have "bs_hashes ?s ! q = bs_hashes s ! (if q = dest then row else q)"
      using wf w by (simp add: step store_shape_def)
    moreover have "bs_values ?s ! column ! q = bs_values s ! column ! (if q = dest then row else q)"
      if "column < bs_ncolumns s" for column
      using that len(1) [OF that] w by (simp add: step)
    ultimately show ?thesis by (cases "q = dest") (simp_all add: row_at_def store_cells_def dims valid)
  qed
  moreover have "store_shape ?s" using wf len by (auto simp: step store_shape_def)
  ultimately show ?thesis using dims by blast
qed

definition row_partition :: "nat \<Rightarrow> row \<Rightarrow> nat" where
  "row_partition npartitions row = hash_partition 0 npartitions (fst row)"

lemma compact_rows_ok:
  fixes np :: nat
  assumes wf: "store_shape s0" and len: "\<forall>p \<in> set resident. p < length zeros"
    and z: "\<forall>p < length zeros. zeros ! p = 0"
  defines "stays \<equiv> \<lambda>r. row_partition np (row_at s0 r) \<in> set resident"
  shows "k \<le> bs_nrows s0 \<Longrightarrow> \<exists>s rr. fold (compact_row np resident) [0..<k] (0, s0, zeros) = (length (filter stays [0..<k]), s, rr) \<and>
    store_shape s \<and> same_dims s0 s \<and>
    map (row_at s) [0..<length (filter stays [0..<k])] = map (row_at s0) (filter stays [0..<k]) \<and>
    (\<forall>q. k \<le> q \<longrightarrow> q < bs_capacity s0 \<longrightarrow> row_at s q = row_at s0 q) \<and> length rr = length zeros \<and>
    (\<forall>p < length zeros. rr ! p = length (filter (\<lambda>r. stays r \<and> row_partition np (row_at s0 r) = p) [0..<k]))"
proof (induction k)
  case 0
  then show ?case using wf z by simp
next
  case (Suc k)
  let ?w = "length (filter stays [0..<k])"
  obtain s rr where IH: "fold (compact_row np resident) [0..<k] (0, s0, zeros) = (?w, s, rr)" "store_shape s" "same_dims s0 s"
    "map (row_at s) [0..<?w] = map (row_at s0) (filter stays [0..<k])"
    "\<forall>q. k \<le> q \<longrightarrow> q < bs_capacity s0 \<longrightarrow> row_at s q = row_at s0 q" "length rr = length zeros"
    "\<forall>p < length zeros. rr ! p = length (filter (\<lambda>r. stays r \<and> row_partition np (row_at s0 r) = p) [0..<k])"
    using Suc by auto
  have cap: "bs_nrows s0 \<le> bs_capacity s0" "bs_capacity s = bs_capacity s0"
    using wf IH(3) by (simp_all add: store_shape_def same_dims_def)
  then have k: "k < bs_capacity s" using Suc.prems by simp
  have wk: "?w \<le> k" using length_filter_le [of stays "[0..<k]"] by simp
  have at: "row_at s k = row_at s0 k" using IH(5) k cap by simp
  have part: "hash_partition 0 np (bs_hashes s ! k) = row_partition np (row_at s0 k)"
    using arg_cong [OF at, of fst] by (simp add: row_partition_def row_at_def)
  show ?case
  proof (cases "stays k")
    case False
    then have "compact_row np resident k (?w, s, rr) = (?w, s, rr)" by (simp add: compact_row_def part stays_def Let_def)
    then show ?thesis using IH False by auto
  next
    case True
    define s1 where "s1 = (if ?w \<noteq> k then move_build_row ?w k s else s)"
    define p where "p = row_partition np (row_at s0 k)"
    have "compact_row np resident k (?w, s, rr) = (?w + 1, s1, rr[p := rr ! p + 1])"
      using True by (simp add: compact_row_def part stays_def Let_def s1_def p_def)
    moreover have s1: "store_shape s1" "same_dims s s1" "\<forall>q < bs_capacity s. row_at s1 q = row_at s (if q = ?w then k else q)"
      using move_build_row_ok [OF IH(2) _ k, of ?w] wk k IH(2) by (auto simp: s1_def)
    moreover have "map (row_at s1) [0..<?w + 1] = map (row_at s0) (filter stays [0..<Suc k])"
    proof -
      have "map (row_at s1) [0..<?w] = map (row_at s) [0..<?w]" using s1(3) wk k by (intro map_cong) auto
      moreover have "row_at s1 ?w = row_at s0 k" using s1(3) wk k at by simp
      ultimately show ?thesis using IH(4) True by simp
    qed
    moreover have "\<forall>q. Suc k \<le> q \<longrightarrow> q < bs_capacity s0 \<longrightarrow> row_at s1 q = row_at s0 q"
      using s1(3) IH(5) wk cap by auto
    moreover have "p < length zeros" using True len by (simp add: stays_def p_def)
    ultimately show ?thesis
      using IH(1,3,6,7) True same_dims_trans [OF IH(3) s1(2)] by (auto simp: nth_list_update p_def)
  qed
qed

lemma map_filter_upt: "map f (filter (\<lambda>r. P (f r)) xs) = filter P (map f xs)"
  by (induction xs) auto

lemma compact_ok:
  assumes wf: "store_shape s0" and res: "\<forall>p \<in> set resident. p < np"
  shows "\<exists>w s rr. fold (compact_row np resident) [0..<bs_nrows s0] (0, s0, replicate np 0) = (w, s, rr) \<and>
    store_shape (s\<lparr>bs_nrows := w\<rparr>) \<and> same_table s0 (s\<lparr>bs_nrows := w\<rparr>) \<and> w \<le> bs_nrows s0 \<and>
    store_rows (s\<lparr>bs_nrows := w\<rparr>) = filter (\<lambda>row. row_partition np row \<in> set resident) (store_rows s0) \<and>
    length rr = np \<and>
    (\<forall>p \<in> set resident. rr ! p = length (filter (\<lambda>row. row_partition np row = p) (store_rows s0)))"
proof -
  let ?stays = "\<lambda>r. row_partition np (row_at s0 r) \<in> set resident" and ?zeros = "replicate np 0 :: nat list"
  let ?w = "length (filter ?stays [0..<bs_nrows s0])"
  have "\<forall>p \<in> set resident. p < length ?zeros" "\<forall>p < length ?zeros. ?zeros ! p = 0" using res by simp_all
  from compact_rows_ok [OF wf this order_refl, of np] obtain s rr where
    f: "fold (compact_row np resident) [0..<bs_nrows s0] (0, s0, ?zeros) = (?w, s, rr)" "store_shape s" "same_dims s0 s"
    "map (row_at s) [0..<?w] = map (row_at s0) (filter ?stays [0..<bs_nrows s0])" "length rr = np"
    "\<forall>p < np. rr ! p = length (filter (\<lambda>r. ?stays r \<and> row_partition np (row_at s0 r) = p) [0..<bs_nrows s0])"
    by auto
  have w: "?w \<le> bs_nrows s0" using length_filter_le [of ?stays "[0..<bs_nrows s0]"] by simp
  let ?s = "s\<lparr>bs_nrows := ?w\<rparr>"
  have at: "row_at ?s = row_at s" by (simp add: row_at_def store_cells_def build_value_valid_def fun_eq_iff)
  have "store_rows ?s = filter (\<lambda>row. row_partition np row \<in> set resident) (store_rows s0)"
    unfolding store_rows_row_at at using f(4) by (simp add: map_filter_upt [of "row_at s0" "\<lambda>row. row_partition np row \<in> set resident"])
  moreover have "store_shape ?s" using f(2,3) w wf by (auto simp: store_shape_def same_dims_def)
  moreover have "same_table s0 ?s" using f(3) by (simp add: same_dims_def same_table_def)
  moreover have "rr ! p = length (filter (\<lambda>row. row_partition np row = p) (store_rows s0))" if p: "p \<in> set resident" for p
  proof -
    have "rr ! p = length (filter (\<lambda>r. row_partition np (row_at s0 r) = p) [0..<bs_nrows s0])"
      using f(6) res p by (auto intro!: arg_cong [where f = length] filter_cong)
    then show ?thesis by (simp add: store_rows_row_at filter_map comp_def)
  qed
  ultimately show ?thesis using f(1,5) w by blast
qed

end
