(* ===== verification/Join_Files.thy ===== *)
theory Join_Files
  imports Join_Partitions Join_Store
begin

text \<open>
  Writing the rows of a hash join to its spill files: whichever loop writes them, a partition
  receives its rows in order, and a file exists exactly when its partition has rows.
\<close>

section \<open>A side that is being written\<close>

definition side_ok ::
  "('t \<Rightarrow> tape_phase) \<Rightarrow> ('t \<Rightarrow> byte list) \<Rightarrow> nat \<Rightarrow> nat \<Rightarrow> 't spill_side \<Rightarrow> (nat \<Rightarrow> row list) \<Rightarrow> bool" where
  "side_ok phase written n np side R \<longleftrightarrow> spill_inv phase written (sd_set side) R \<and> no_full (sd_set side) \<and>
     ss_ncolumns (sd_set side) = n \<and> ss_npartitions (sd_set side) = np \<and>
     sd_files side = map (\<lambda>p. if R p = [] then None else Some None) [0..<np]"

lemma side_ok_cong: "(\<And>p. p < np \<Longrightarrow> R p = R' p) \<Longrightarrow> side_ok phase written n np side R = side_ok phase written n np side R'"
  by (auto simp: side_ok_def spill_inv_def)

lemma side_ok_create:
  assumes "tape_spec T phase written rest" "0 < n" "n < 65536" "0 < np"
  shows "\<exists>side. spill_side_create T n np limit = Inr side \<and> side_ok phase written n np side (\<lambda>_. [])"
  using int4_spill_create [OF assms, of limit]
  by (auto simp: spill_side_create_def spill_tuple_desc_def side_ok_def map_replicate_const)

lemma side_write:
  assumes T: "tape_spec T phase written rest" and ok: "side_ok phase written n np side R" and p: "p < np"
    and run: "spill_request_run T req (sd_set side) = Inr s"
    and rows: "\<And>q. request_rows n q req = (if q = p then rows else [])" and ne: "rows \<noteq> []"
  shows "side_ok phase written n np (open_file p (side\<lparr>sd_set := s\<rparr>)) (R(p := R p @ rows))"
proof -
  note w = spill_write_inv [OF T _ _ run, of R]
  have "(\<lambda>q. R q @ request_rows n q req) = R(p := R p @ rows)" by (auto simp: rows)
  then have "spill_inv phase written s (R(p := R p @ rows))" "same_config (sd_set side) s" "no_full s"
    using w ok by (auto simp: side_ok_def)
  moreover have "sd_files (open_file p (side\<lparr>sd_set := s\<rparr>)) =
      map (\<lambda>q. if (R(p := R p @ rows)) q = [] then None else Some None) [0..<np]"
    using ok p ne by (auto simp: side_ok_def open_file_def intro!: nth_equalityI)
  ultimately show ?thesis
    using ok by (auto simp: side_ok_def same_config_def open_file_def)
qed

section \<open>Dense blocks\<close>

lemma length_concat_columns: "(\<And>c. c < n \<Longrightarrow> length (f c) = m) \<Longrightarrow> length (concat (map f [0..<n])) = n * m"
  by (induction n) auto

lemma nth_concat_columns:
  assumes "column < n" "i < m" "\<And>c. c < n \<Longrightarrow> length (f c) = m"
  shows "concat (map f [0..<n]) ! (column * m + i) = f column ! i"
  using assms
proof (induction n)
  case (Suc n)
  have len: "length (concat (map f [0..<n])) = n * m"
    by (rule length_concat_columns) (simp add: Suc.prems(3))
  show ?case
  proof (cases "column < n")
    case True
    then have "column * m + i < n * m" using mult_add_less [OF True Suc.prems(2)] by simp
    then show ?thesis using Suc True len by (simp add: nth_append)
  next
    case False
    then have "column = n" using Suc.prems(1) by simp
    then show ?thesis using len by (simp add: nth_append)
  qed
qed simp

text \<open>The arrays that the callers of \<open>pg_batch_spill_write_dense\<close> gather for some rows.\<close>

definition gathered_write ::
  "'t tape_ops \<Rightarrow> nat \<Rightarrow> nat \<Rightarrow> ('r \<Rightarrow> uint32) \<Rightarrow> (nat \<Rightarrow> 'r \<Rightarrow> int4) \<Rightarrow> (nat \<Rightarrow> 'r \<Rightarrow> bool) \<Rightarrow> 'r list \<Rightarrow>
     't spill_set \<Rightarrow> 't spill_set result" where
  "gathered_write T n p hash val valid rs =
     spill_write_dense T (int p) (int (length rs)) (Some (map hash rs))
       (Some (concat (map (\<lambda>column. map (val column) rs) [0..<n]))) (int (length rs))
       (Some (map (\<lambda>column. fold (\<lambda>i w. if valid column (rs ! i) then w OR push_bit i 1 else w) [0..<length rs] 0) [0..<n]))"

definition gathered_row :: "nat \<Rightarrow> ('r \<Rightarrow> uint32) \<Rightarrow> (nat \<Rightarrow> 'r \<Rightarrow> int4) \<Rightarrow> (nat \<Rightarrow> 'r \<Rightarrow> bool) \<Rightarrow> 'r \<Rightarrow> row" where
  "gathered_row n hash val valid r = (hash r, map (\<lambda>column. if valid column r then Some (val column r) else None) [0..<n])"

lemma gathered_write_ok:
  assumes T: "tape_spec T phase written rest" and ok: "side_ok phase written n np side R" and p: "p < np"
    and rs: "rs \<noteq> []" "length rs \<le> 64"
  shows "\<exists>s. gathered_write T n p hash val valid rs (sd_set side) = Inr s \<and>
    side_ok phase written n np (open_file p (side\<lparr>sd_set := s\<rparr>)) (R(p := R p @ map (gathered_row n hash val valid) rs))"
proof -
  let ?m = "length rs"
  let ?req = "Spill_write_dense (int p) (int ?m) (Some (map hash rs))
       (Some (concat (map (\<lambda>column. map (val column) rs) [0..<n]))) (int ?m)
       (Some (map (\<lambda>column. fold (\<lambda>i w. if valid column (rs ! i) then w OR push_bit i 1 else w) [0..<?m] 0) [0..<n]))"
  have "\<exists>s. spill_request_run T ?req (sd_set side) = Inr s"
    using ok p rs by (simp add: spill_write_dense_def validate_partition_def side_ok_def spill_inv_def spill_shape_def rbind_require)
  then obtain s where s: "spill_request_run T ?req (sd_set side) = Inr s" by blast
  have cell: "concat (map (\<lambda>column. map (val column) rs) [0..<n]) ! (column * ?m + i) = val column (rs ! i)"
    if "column < n" "i < ?m" for column i
    using nth_concat_columns [OF that, of "\<lambda>column. map (val column) rs"] that by simp
  have bits: "bit (fold (\<lambda>i w. if valid column (rs ! i) then w OR push_bit i 1 else w) [0..<?m] (0 :: uint64)) i \<longleftrightarrow>
      valid column (rs ! i)" if "i < ?m" for column i
    using that rs(2) by (subst bit_fold_or) auto
  have "map (\<lambda>i. (map hash rs ! i, map (\<lambda>column. if bit (map (\<lambda>column. fold (\<lambda>i w. if valid column (rs ! i)
        then w OR push_bit i 1 else w) [0..<?m] (0 :: uint64)) [0..<n] ! column) i
      then Some (concat (map (\<lambda>column. map (val column) rs) [0..<n]) ! (column * ?m + i)) else None) [0..<n])) [0..<?m] =
    map (gathered_row n hash val valid) rs"
    by (rule nth_equalityI) (simp_all add: gathered_row_def cell bits)
  then have "request_rows n q ?req = (if q = p then map (gathered_row n hash val valid) rs else [])" for q
    unfolding request_rows.simps option.sel nat_int by simp
  from side_write [OF T ok p s this] rs(1) show ?thesis using s by (auto simp: gathered_write_def)
qed

section \<open>Buffering rows before a write\<close>

lemma flush_rows_invariant:
  assumes step: "\<And>old rs s. P old s \<Longrightarrow> rs \<noteq> [] \<Longrightarrow> length rs \<le> 64 \<Longrightarrow> \<exists>s'. w rs s = Inr s' \<and> P (old @ rs) s'"
  shows "P old s \<Longrightarrow> length rows < 64 \<Longrightarrow> \<exists>s'. flush_rows w rows later s = Inr s' \<and> P (old @ rows @ later) s'"
proof (induction later arbitrary: old rows s)
  case Nil
  then show ?case using step [OF Nil(1), of rows] by (cases "rows = []") auto
next
  case (Cons row later)
  show ?case
  proof (cases "length (rows @ [row]) = 64")
    case True
    then obtain s1 where "w (rows @ [row]) s = Inr s1" "P (old @ rows @ [row]) s1"
      using step [OF Cons.prems(1), of "rows @ [row]"] by auto
    then show ?thesis using Cons.IH [of "old @ rows @ [row]" s1 "[]"] True by simp
  next
    case False
    then show ?thesis using Cons.IH [OF Cons.prems(1), of "rows @ [row]"] Cons.prems(2) by simp
  qed
qed

text \<open>The linked lists: one per partition in use, each with its rows in order.\<close>

lemma link_row_map:
  assumes "distinct ps"
  shows "link_row p row (map (\<lambda>q. (q, F q)) ps) =
    (if p \<in> set ps then map (\<lambda>q. (q, if q = p then F q @ [row] else F q)) ps
     else map (\<lambda>q. (q, F q)) ps @ [(p, [row])])"
  using assms by (induction ps) auto

lemma link_rows:
  "\<exists>ps. distinct ps \<and> set ps = f ` set rows \<and>
     fold (\<lambda>row. link_row (f row) row) rows [] = map (\<lambda>p. (p, filter (\<lambda>row. f row = p) rows)) ps"
proof (induction rows rule: rev_induct)
  case (snoc row rows)
  then obtain ps where ps: "distinct ps" "set ps = f ` set rows"
    "fold (\<lambda>row. link_row (f row) row) rows [] = map (\<lambda>p. (p, filter (\<lambda>row. f row = p) rows)) ps" by blast
  have fold: "fold (\<lambda>row. link_row (f row) row) (rows @ [row]) [] =
      link_row (f row) row (map (\<lambda>p. (p, filter (\<lambda>row. f row = p) rows)) ps)" by (simp add: ps(3))
  show ?case
  proof (cases "f row \<in> set ps")
    case True
    then show ?thesis
      unfolding fold link_row_map [OF ps(1)] using ps(1,2) by (intro exI [of _ ps]) auto
  next
    case False
    then have "filter (\<lambda>r. f r = f row) rows = []" using ps(2) by (auto simp: filter_empty_conv image_iff)
    moreover from False have "map (\<lambda>p. (p, filter (\<lambda>r. f r = p) (rows @ [row]))) ps =
        map (\<lambda>p. (p, filter (\<lambda>r. f r = p) rows)) ps"
      by (intro map_cong) auto
    ultimately show ?thesis
      unfolding fold link_row_map [OF ps(1)] using ps(1,2) False
      by (intro exI [of _ "ps @ [f row]"]) auto
  qed
qed simp

section \<open>Rows of a batch\<close>

definition batch_row :: "nat \<Rightarrow> int4_vector list \<Rightarrow> uint32 list \<Rightarrow> nat \<Rightarrow> row" where
  "batch_row n columns hashes row = (hashes ! row, map (\<lambda>column. vec_get (columns ! column) row) [0..<n])"

lemma write_partition_rows_ok:
  assumes T: "tape_spec T phase written rest" and ok: "side_ok phase written n np side R" and p: "p < np"
    and rs: "rs \<noteq> []" "sorted_wrt (<) rs" "\<forall>r \<in> set rs. r < 64"
  shows "\<exists>side'. write_partition_rows T p columns hashes rs side = Inr side' \<and>
    side_ok phase written n np side' (R(p := R p @ map (batch_row n columns hashes) rs))"
proof -
  let ?w = "fold (\<lambda>row w. w OR push_bit row 1) rs 0 :: uint64"
  let ?req = "Spill_write (int p) (Some columns) (Some \<lparr>sel_nrows = 64, sel_nwords = 1, sel_words = [?w]\<rparr>) (Some hashes)"
  obtain s where s: "spill_request_run T ?req (sd_set side) = Inr s"
    using spill_write_total [of "sd_set side" p 64 T columns ?w hashes] ok p by (auto simp: side_ok_def spill_inv_def)
  have bits: "bit ?w i \<longleftrightarrow> i \<in> set rs" for i
    using bit_fold_or [where P = "\<lambda>_. True" and xs = rs and ?r0.0 = "0 :: uint64" and i = i] rs(3) by simp
  have "filter (bit ?w) [0..<64] = rs"
  proof (rule strict_sorted_unique)
    show "set (filter (bit ?w) [0..<64]) = set rs" using rs(3) unfolding set_filter bits by auto
  qed (use rs in \<open>simp_all add: sorted_wrt_filter\<close>)
  then have "request_rows n q ?req = (if q = p then map (batch_row n columns hashes) rs else [])" for q
    by (simp add: batch_row_def vec_get_def)
  from side_write [OF T ok p s this] rs(1) show ?thesis
    using s by (simp add: write_partition_rows_def Let_def)
qed

lemma flush_rows_short:
  "length rows < 64 \<Longrightarrow> length rows + length later \<le> 64 \<Longrightarrow>
     flush_rows w rows later s = (if rows @ later \<noteq> [] then w (rows @ later) s else Inr s)"
proof (induction later arbitrary: rows)
  case (Cons row later)
  show ?case
  proof (cases "length (rows @ [row]) = 64")
    case True
    then have "later = []" using Cons.prems(2) by simp
    then show ?thesis using True by (cases "w (rows @ [row]) s") simp_all
  next
    case False
    then show ?thesis using Cons.IH [of "rows @ [row]"] Cons.prems by simp
  qed
qed simp

lemma sorted_rows_length:
  assumes "sorted_wrt (<) rs" "\<forall>r \<in> set rs. r < (64 :: nat)"
  shows "length rs \<le> 64"
proof -
  have "distinct rs" using assms(1) by (simp add: strict_sorted_iff)
  then have "length rs = card (set rs)" by (simp add: distinct_card)
  also have "\<dots> \<le> card {..<64 :: nat}" by (rule card_mono) (use assms(2) in auto)
  finally show ?thesis by simp
qed

lemma write_chains_ok:
  assumes T: "tape_spec T phase written rest"
  shows "side_ok phase written n np side R \<Longrightarrow> distinct ps \<Longrightarrow>
    \<forall>p \<in> set ps. p < np \<and> F p \<noteq> [] \<and> sorted_wrt (<) (F p) \<and> (\<forall>r \<in> set (F p). r < 64) \<Longrightarrow>
    \<exists>side'. write_chains T columns hashes (map (\<lambda>p. (p, F p)) ps) side = Inr side' \<and>
      side_ok phase written n np side' (\<lambda>q. R q @ (if q \<in> set ps then map (batch_row n columns hashes) (F q) else []))"
proof (induction ps arbitrary: side R)
  case Nil
  then show ?case by (simp add: write_chains_def)
next
  case (Cons p ps)
  have p: "p < np" "F p \<noteq> []" "sorted_wrt (<) (F p)" "\<forall>r \<in> set (F p). r < 64" "p \<notin> set ps"
    using Cons.prems(2,3) by auto
  let ?new = "map (batch_row n columns hashes) (F p)"
  obtain side1 where s1: "write_partition_rows T p columns hashes (F p) side = Inr side1"
    "side_ok phase written n np side1 (R(p := R p @ ?new))"
    using write_partition_rows_ok [OF T Cons.prems(1) p(1,2,3,4)] by blast
  have "flush_rows (write_partition_rows T p columns hashes) [] (F p) side = Inr side1"
    using s1(1) p(2) sorted_rows_length [OF p(3,4)] by (simp add: flush_rows_short)
  then have step: "write_chains T columns hashes (map (\<lambda>p. (p, F p)) (p # ps)) side =
      write_chains T columns hashes (map (\<lambda>p. (p, F p)) ps) side1"
    by (simp add: write_chains_def)
  have "(\<lambda>q. (R(p := R p @ ?new)) q @ (if q \<in> set ps then map (batch_row n columns hashes) (F q) else [])) =
      (\<lambda>q. R q @ (if q \<in> set (p # ps) then map (batch_row n columns hashes) (F q) else []))"
    using p(5) by (auto simp: fun_eq_iff)
  then show ?case
    using Cons.IH [OF s1(2)] Cons.prems(2,3) unfolding step by simp
qed

text \<open>Linking the rows of a batch and writing them sends every row to its partition.\<close>

lemma write_linked_rows:
  assumes T: "tape_spec T phase written rest" and ok: "side_ok phase written n np side R"
    and rows: "sorted_wrt (<) rows" "\<forall>r \<in> set rows. r < 64 \<and> f r < np"
  shows "\<exists>side'. write_chains T columns hashes (fold (\<lambda>row. link_row (f row) row) rows []) side = Inr side' \<and>
    side_ok phase written n np side' (\<lambda>q. R q @ map (batch_row n columns hashes) (filter (\<lambda>row. f row = q) rows))"
proof -
  obtain ps where ps: "distinct ps" "set ps = f ` set rows"
    "fold (\<lambda>row. link_row (f row) row) rows [] = map (\<lambda>p. (p, filter (\<lambda>row. f row = p) rows)) ps"
    using link_rows by blast
  have "\<forall>p \<in> set ps. p < np \<and> filter (\<lambda>row. f row = p) rows \<noteq> [] \<and> sorted_wrt (<) (filter (\<lambda>row. f row = p) rows) \<and>
      (\<forall>r \<in> set (filter (\<lambda>row. f row = p) rows). r < 64)"
    using rows ps(2) by (auto simp: filter_empty_conv sorted_wrt_filter)
  from write_chains_ok [OF T ok ps(1) this, of columns hashes] obtain side' where
    side': "write_chains T columns hashes (fold (\<lambda>row. link_row (f row) row) rows []) side = Inr side'"
    "side_ok phase written n np side' (\<lambda>q. R q @ (if q \<in> set ps then map (batch_row n columns hashes)
        (filter (\<lambda>row. f row = q) rows) else []))"
    unfolding ps(3) by blast
  have "filter (\<lambda>row. f row = q) rows = []" if "q \<notin> set ps" for q using that ps(2) by (auto simp: filter_empty_conv)
  then have "(\<lambda>q. R q @ (if q \<in> set ps then map (batch_row n columns hashes) (filter (\<lambda>row. f row = q) rows) else [])) =
      (\<lambda>q. R q @ map (batch_row n columns hashes) (filter (\<lambda>row. f row = q) rows))"
    by (auto simp: fun_eq_iff)
  with side' show ?thesis by auto
qed

section \<open>Rows of the store\<close>

lemma write_store_block_ok:
  assumes T: "tape_spec T phase written rest" and ok: "side_ok phase written n np side R" and p: "p < np"
    and n: "bs_ncolumns store = n" and rs: "rs \<noteq> []" "length rs \<le> 64"
  shows "\<exists>side'. write_store_block T p store rs side = Inr side' \<and>
    side_ok phase written n np side' (R(p := R p @ map (row_at store) rs))"
proof -
  have "write_store_block T p store rs side = rbind (gathered_write T n p ((!) (bs_hashes store))
      (\<lambda>column r. bs_values store ! column ! r) (build_value_valid store) rs (sd_set side))
      (\<lambda>s. Inr (open_file p (side\<lparr>sd_set := s\<rparr>)))"
    by (simp add: write_store_block_def gathered_write_def n Let_def)
  moreover have "gathered_row n ((!) (bs_hashes store)) (\<lambda>column r. bs_values store ! column ! r) (build_value_valid store) =
      row_at store"
    by (simp add: gathered_row_def row_at_def store_cells_def n fun_eq_iff)
  ultimately show ?thesis
    using gathered_write_ok [OF T ok p rs, of "(!) (bs_hashes store)" "\<lambda>column r. bs_values store ! column ! r"
      "build_value_valid store"] by auto
qed

lemma flush_store_rows:
  assumes T: "tape_spec T phase written rest" and ok: "side_ok phase written n np side R" and p: "p < np"
    and n: "bs_ncolumns store = n"
  shows "\<exists>side'. flush_rows (write_store_block T p store) [] rs side = Inr side' \<and>
    side_ok phase written n np side' (R(p := R p @ map (row_at store) rs))"
proof -
  have "\<exists>side'. flush_rows (write_store_block T p store) [] rs side = Inr side' \<and>
      side_ok phase written n np side' (R(p := R p @ map (row_at store) ([] @ [] @ rs)))"
  proof (rule flush_rows_invariant [where P = "\<lambda>old side. side_ok phase written n np side (R(p := R p @ map (row_at store) old))"])
    fix old rs :: "nat list" and side assume a: "side_ok phase written n np side (R(p := R p @ map (row_at store) old))" "rs \<noteq> []" "length rs \<le> 64"
    from write_store_block_ok [OF T a(1) p n a(2,3)]
    show "\<exists>side'. write_store_block T p store rs side = Inr side' \<and>
        side_ok phase written n np side' (R(p := R p @ map (row_at store) (old @ rs)))" by simp
  qed (use ok in simp_all)
  then show ?thesis by simp
qed

end
