(* ===== verification/Join_Spill_Build.thy ===== *)
theory Join_Spill_Build
  imports Join_Files
begin

text \<open>
  Building with spilling: at every moment each build row is either in the store, when its
  partition is resident, or in the file of its partition, and the filter knows its hash.
\<close>

section \<open>Partitions of hashes\<close>

lemma word_and_exp_mask: "k \<le> 32 \<Longrightarrow> (w :: uint32) AND of_nat (2 ^ k - 1) = take_bit k w"
proof -
  have "of_nat (2 ^ k - 1) = (mask k :: uint32)" by (simp add: mask_eq_exp_minus_1 of_nat_diff)
  then show ?thesis by (simp add: take_bit_eq_mask)
qed

lemma hash_partition_eq: "k \<le> 32 \<Longrightarrow> hash_partition s (2 ^ k) h = take_bit k (unat (drop_bit s h))"
  unfolding hash_partition_def by (simp only: word_and_exp_mask unsigned_take_bit_eq)

lemma hash_partition_less: "k \<le> 32 \<Longrightarrow> hash_partition s (2 ^ k) h < 2 ^ k"
  by (simp only: hash_partition_eq take_bit_nat_less_exp)

lemma row_partition_less: "k \<le> 32 \<Longrightarrow> row_partition (2 ^ k) row < 2 ^ k"
  by (simp only: row_partition_def hash_partition_less)

section \<open>Moving partitions out of the store\<close>

lemma row_at_partition: "hash_partition 0 np (bs_hashes store ! r) = row_partition np (row_at store r)"
  by (simp add: row_partition_def row_at_def)

lemma spill_partitions_ok:
  assumes T: "tape_spec T phase written rest" and n: "bs_ncolumns store = n"
  shows "side_ok phase written n np side R \<Longrightarrow> distinct ps \<Longrightarrow> \<forall>p \<in> set ps. p < np \<Longrightarrow> length counts = np \<Longrightarrow>
    \<forall>p < np. counts ! p = length (R p) \<Longrightarrow>
    \<exists>counts' side'. rfold (\<lambda>p (counts, side).
         let rows = filter (\<lambda>row. hash_partition 0 np (bs_hashes store ! row) = p) [0..<bs_nrows store]
         in rbind (flush_rows (write_store_block T p store) [] rows side) (\<lambda>side.
            Inr (counts[p := counts ! p + length rows], side))) ps (counts, side) = Inr (counts', side') \<and>
      side_ok phase written n np side'
        (\<lambda>p. R p @ (if p \<in> set ps then filter (\<lambda>row. row_partition np row = p) (store_rows store) else [])) \<and>
      length counts' = np \<and>
      (\<forall>p < np. counts' ! p = length (R p) +
         (if p \<in> set ps then length (filter (\<lambda>row. row_partition np row = p) (store_rows store)) else 0))"
proof (induction ps arbitrary: side R counts)
  case Nil
  then show ?case by simp
next
  case (Cons p ps)
  let ?rows = "filter (\<lambda>row. hash_partition 0 np (bs_hashes store ! row) = p) [0..<bs_nrows store]"
  let ?new = "filter (\<lambda>row. row_partition np row = p) (store_rows store)"
  have p: "p < np" "p \<notin> set ps" using Cons.prems(2,3) by auto
  have rows: "map (row_at store) ?rows = ?new"
    unfolding store_rows_row_at row_at_partition
    by (rule map_filter_upt [of "row_at store" "\<lambda>row. row_partition np row = p"])
  then have len: "length ?rows = length ?new" by (metis length_map)
  obtain side1 where s1: "flush_rows (write_store_block T p store) [] ?rows side = Inr side1"
    "side_ok phase written n np side1 (R(p := R p @ ?new))"
    using flush_store_rows [OF T Cons.prems(1) p(1) n, of ?rows] unfolding rows by blast
  let ?counts = "counts[p := counts ! p + length ?new]"
  have c: "length ?counts = np" "\<forall>q < np. ?counts ! q = length ((R(p := R p @ ?new)) q)"
    using Cons.prems(4,5) p by (auto simp: nth_list_update)
  obtain counts' side' where IH: "rfold (\<lambda>p (counts, side).
         let rows = filter (\<lambda>row. hash_partition 0 np (bs_hashes store ! row) = p) [0..<bs_nrows store]
         in rbind (flush_rows (write_store_block T p store) [] rows side) (\<lambda>side.
            Inr (counts[p := counts ! p + length rows], side))) ps (?counts, side1) = Inr (counts', side')"
    "side_ok phase written n np side' (\<lambda>q. (R(p := R p @ ?new)) q @
        (if q \<in> set ps then filter (\<lambda>row. row_partition np row = q) (store_rows store) else []))"
    "length counts' = np"
    "\<forall>q < np. counts' ! q = length ((R(p := R p @ ?new)) q) +
       (if q \<in> set ps then length (filter (\<lambda>row. row_partition np row = q) (store_rows store)) else 0)"
    using Cons.IH [OF s1(2) _ _ c] Cons.prems(2,3) by auto
  have eq: "(\<lambda>q. (R(p := R p @ ?new)) q @
        (if q \<in> set ps then filter (\<lambda>row. row_partition np row = q) (store_rows store) else [])) =
      (\<lambda>q. R q @ (if q \<in> set (p # ps) then filter (\<lambda>row. row_partition np row = q) (store_rows store) else []))"
    using p(2) by (auto simp: fun_eq_iff)
  show ?case
    using IH s1(1) p(2) unfolding eq by (auto simp: len Let_def)
qed

definition stay_rows :: "nat \<Rightarrow> nat list \<Rightarrow> row list \<Rightarrow> row list" where
  "stay_rows np resident rows = filter (\<lambda>row. row_partition np row \<in> set resident) rows"

definition leave_rows :: "nat \<Rightarrow> nat list \<Rightarrow> row list \<Rightarrow> nat \<Rightarrow> row list" where
  "leave_rows np resident rows p =
     (if p \<in> set resident then [] else filter (\<lambda>row. row_partition np row = p) rows)"

lemma spill_build_store_ok:
  assumes T: "tape_spec T phase written rest" and wf: "store_shape (hs_build hs)"
    and side: "side_ok phase written (bs_ncolumns (hs_build hs)) (hs_npartitions hs) (hs_build_side hs) R"
    and res: "\<forall>p \<in> set (hs_resident hs). p < hs_npartitions hs"
    and counts: "length (hs_build_partition_rows hs) = hs_npartitions hs"
      "\<forall>p < hs_npartitions hs. hs_build_partition_rows hs ! p = length (R p)"
  shows "\<exists>s rr side' counts'. hash_join_spill_build_store T hs = Inr (hs\<lparr>hs_build := s, hs_resident_rows := rr,
      hs_build_side := side', hs_build_partition_rows := counts'\<rparr>) \<and>
    store_shape s \<and> same_table (hs_build hs) s \<and> bs_nrows s \<le> bs_nrows (hs_build hs) \<and>
    store_rows s = stay_rows (hs_npartitions hs) (hs_resident hs) (store_rows (hs_build hs)) \<and>
    side_ok phase written (bs_ncolumns (hs_build hs)) (hs_npartitions hs) side'
      (\<lambda>p. R p @ leave_rows (hs_npartitions hs) (hs_resident hs) (store_rows (hs_build hs)) p) \<and>
    length counts' = hs_npartitions hs \<and>
    (\<forall>p < hs_npartitions hs. counts' ! p =
       length (R p @ leave_rows (hs_npartitions hs) (hs_resident hs) (store_rows (hs_build hs)) p)) \<and>
    length rr = hs_npartitions hs \<and>
    (\<forall>p \<in> set (hs_resident hs). rr ! p = length (filter (\<lambda>row. row_partition (hs_npartitions hs) row = p) (store_rows (hs_build hs))))"
proof -
  let ?store = "hs_build hs" and ?np = "hs_npartitions hs" and ?res = "hs_resident hs"
  let ?ps = "filter (\<lambda>p. p \<notin> set ?res) [0..<?np]"
  have ps: "distinct ?ps" "\<forall>p \<in> set ?ps. p < ?np" by simp_all
  obtain counts' side' where w: "rfold (\<lambda>p (counts, side).
         let rows = filter (\<lambda>row. hash_partition 0 ?np (bs_hashes ?store ! row) = p) [0..<bs_nrows ?store]
         in rbind (flush_rows (write_store_block T p ?store) [] rows side) (\<lambda>side.
            Inr (counts[p := counts ! p + length rows], side))) ?ps (hs_build_partition_rows hs, hs_build_side hs) = Inr (counts', side')"
    "side_ok phase written (bs_ncolumns ?store) ?np side'
        (\<lambda>p. R p @ (if p \<in> set ?ps then filter (\<lambda>row. row_partition ?np row = p) (store_rows ?store) else []))"
    "length counts' = ?np"
    "\<forall>p < ?np. counts' ! p = length (R p) +
         (if p \<in> set ?ps then length (filter (\<lambda>row. row_partition ?np row = p) (store_rows ?store)) else 0)"
    using spill_partitions_ok [OF T refl side ps counts] by blast
  obtain dest s rr where c: "fold (compact_row ?np ?res) [0..<bs_nrows ?store] (0, ?store, replicate ?np 0) = (dest, s, rr)"
    "store_shape (s\<lparr>bs_nrows := dest\<rparr>)" "same_table ?store (s\<lparr>bs_nrows := dest\<rparr>)" "dest \<le> bs_nrows ?store"
    "store_rows (s\<lparr>bs_nrows := dest\<rparr>) = filter (\<lambda>row. row_partition ?np row \<in> set ?res) (store_rows ?store)"
    "length rr = ?np"
    "\<forall>p \<in> set ?res. rr ! p = length (filter (\<lambda>row. row_partition ?np row = p) (store_rows ?store))"
    using compact_ok [OF wf res] by blast
  have "side_ok phase written (bs_ncolumns ?store) ?np side' (\<lambda>p. R p @ leave_rows ?np ?res (store_rows ?store) p)"
    by (rule iffD1 [OF side_ok_cong w(2)]) (auto simp: leave_rows_def)
  moreover have "\<forall>p < ?np. counts' ! p = length (R p @ leave_rows ?np ?res (store_rows ?store) p)"
    using w(4) by (auto simp: leave_rows_def)
  moreover have "hash_join_spill_build_store T hs = Inr (hs\<lparr>hs_build := s\<lparr>bs_nrows := dest\<rparr>, hs_resident_rows := rr,
      hs_build_side := side', hs_build_partition_rows := counts'\<rparr>)"
    using w(1) c(1) by (simp add: hash_join_spill_build_store_def Let_def)
  moreover have "bs_nrows (s\<lparr>bs_nrows := dest\<rparr>) \<le> bs_nrows ?store" using c(4) by simp
  ultimately show ?thesis
    using c(2,3,5-7) w(3) unfolding stay_rows_def by blast
qed

section \<open>The invariant\<close>

text \<open>What does not change while the join builds.\<close>

definition spill_static ::
  "('t \<Rightarrow> tape_phase) \<Rightarrow> ('t \<Rightarrow> byte list) \<Rightarrow> join_plan \<Rightarrow> 't hash_spill \<Rightarrow> bool" where
  "spill_static phase written plan hs \<longleftrightarrow>
     (\<exists>k. 1 \<le> k \<and> k \<le> 10 \<and> hs_npartitions hs = 2 ^ k \<and> hs_partition_shift hs = k) \<and>
     side_ok phase written (jp_nouter_columns plan) (hs_npartitions hs) (hs_probe_side hs) (\<lambda>_. []) \<and>
     64 \<le> hs_build_chunk_rows hs \<and> hs_build_chunk_rows hs < 2 ^ 32 \<and>
     hs_resident_block hs = hash_join_init_spill_block (jp_nouter_columns plan) (PG_BATCH_SIZE * 2) True \<and>
     hs_build_block hs = hash_join_init_spill_block (jp_ninner_columns plan) PG_BATCH_SIZE False \<and>
     hs_probe_block hs = hash_join_init_spill_block (jp_nouter_columns plan) PG_BATCH_SIZE False \<and>
     hs_active hs = None \<and> hs_repartition hs = None \<and> \<not> hs_partition_active hs \<and>
     (hs_bloom hs \<noteq> None \<longrightarrow> hs_bloom_nbits hs = 64 * length (the (hs_bloom hs)) \<and> (\<exists>j \<le> 63. hs_bloom_nbits hs = 2 ^ j))"

definition bloom_knows :: "'t hash_spill \<Rightarrow> row list \<Rightarrow> bool" where
  "bloom_knows hs rows \<longleftrightarrow> (hs_bloom hs \<noteq> None \<longrightarrow> (\<forall>row \<in> set rows. bloom_may_contain hs (fst row)))"

text \<open>Every row is in the store or in the file of its partition.\<close>

definition rows_placed ::
  "('t \<Rightarrow> tape_phase) \<Rightarrow> ('t \<Rightarrow> byte list) \<Rightarrow> join_plan \<Rightarrow> row list \<Rightarrow> 't hash_spill \<Rightarrow> bool" where
  "rows_placed phase written plan rows hs \<longleftrightarrow>
     store_shape (hs_build hs) \<and> bs_ncolumns (hs_build hs) = jp_ninner_columns plan \<and> \<not> bs_has_duplicates (hs_build hs) \<and>
     (\<forall>p \<in> set (hs_resident hs). p < hs_npartitions hs) \<and>
     mset (store_rows (hs_build hs)) = mset (stay_rows (hs_npartitions hs) (hs_resident hs) rows) \<and>
     (\<exists>R. side_ok phase written (jp_ninner_columns plan) (hs_npartitions hs) (hs_build_side hs) R \<and>
        (\<forall>p < hs_npartitions hs. mset (R p) = mset (leave_rows (hs_npartitions hs) (hs_resident hs) rows p) \<and>
           hs_build_partition_rows hs ! p = length (R p))) \<and>
     length (hs_build_partition_rows hs) = hs_npartitions hs"

definition building ::
  "('t \<Rightarrow> tape_phase) \<Rightarrow> ('t \<Rightarrow> byte list) \<Rightarrow> join_plan \<Rightarrow> row list \<Rightarrow> 't hash_spill \<Rightarrow> bool" where
  "building phase written plan rows hs \<longleftrightarrow> spill_static phase written plan hs \<and> bloom_knows hs rows \<and>
     rows_placed phase written plan rows hs \<and> length (hs_resident_rows hs) = hs_npartitions hs \<and>
     (\<forall>p \<in> set (hs_resident hs). hs_resident_rows hs ! p =
        length (filter (\<lambda>row. row_partition (hs_npartitions hs) row = p) rows)) \<and>
     hs_build_rows hs = length rows"

lemma spill_static_update [simp]:
  "spill_static phase written plan (hs\<lparr>hs_build := a\<rparr>) = spill_static phase written plan hs"
  "spill_static phase written plan (hs\<lparr>hs_resident := b\<rparr>) = spill_static phase written plan hs"
  "spill_static phase written plan (hs\<lparr>hs_resident_rows := c\<rparr>) = spill_static phase written plan hs"
  "spill_static phase written plan (hs\<lparr>hs_build_side := d\<rparr>) = spill_static phase written plan hs"
  "spill_static phase written plan (hs\<lparr>hs_build_partition_rows := e\<rparr>) = spill_static phase written plan hs"
  "spill_static phase written plan (hs\<lparr>hs_build_rows := f\<rparr>) = spill_static phase written plan hs"
  "spill_static phase written plan (hs\<lparr>hs_bloom_usable := g\<rparr>) = spill_static phase written plan hs"
  by (simp_all add: spill_static_def)

lemma bloom_may_contain_update [simp]:
  "bloom_may_contain (hs\<lparr>hs_build := a\<rparr>) = bloom_may_contain hs"
  "bloom_may_contain (hs\<lparr>hs_resident := b\<rparr>) = bloom_may_contain hs"
  "bloom_may_contain (hs\<lparr>hs_resident_rows := c\<rparr>) = bloom_may_contain hs"
  "bloom_may_contain (hs\<lparr>hs_build_side := d\<rparr>) = bloom_may_contain hs"
  "bloom_may_contain (hs\<lparr>hs_build_partition_rows := e\<rparr>) = bloom_may_contain hs"
  "bloom_may_contain (hs\<lparr>hs_build_rows := f\<rparr>) = bloom_may_contain hs"
  "bloom_may_contain (hs\<lparr>hs_bloom_usable := g\<rparr>) = bloom_may_contain hs"
  by (simp_all add: bloom_may_contain_def fun_eq_iff)

lemma mset_filter_stay:
  "mset xs = mset (stay_rows np res rows) \<Longrightarrow> p \<in> set res \<Longrightarrow>
     mset (filter (\<lambda>row. row_partition np row = p) xs) = mset (filter (\<lambda>row. row_partition np row = p) rows)"
proof -
  assume a: "mset xs = mset (stay_rows np res rows)" "p \<in> set res"
  have "mset (filter (\<lambda>row. row_partition np row = p) xs) = mset (filter (\<lambda>row. row_partition np row = p) (stay_rows np res rows))"
    using a(1) by (simp only: mset_filter)
  also have "filter (\<lambda>row. row_partition np row = p) (stay_rows np res rows) = filter (\<lambda>row. row_partition np row = p) rows"
    using a(2) by (auto simp: stay_rows_def intro!: filter_cong)
  finally show ?thesis .
qed

lemma filter_stay_other:
  "mset xs = mset (stay_rows np res rows) \<Longrightarrow> p \<notin> set res \<Longrightarrow> filter (\<lambda>row. row_partition np row = p) xs = []"
  by (drule mset_eq_setD) (auto simp: filter_empty_conv stay_rows_def)

lemma mset_stay_subset:
  assumes "mset xs = mset (stay_rows np res rows)" "set res' \<subseteq> set res"
  shows "mset (stay_rows np res' xs) = mset (stay_rows np res' rows)"
proof -
  have "mset (stay_rows np res' xs) = mset (stay_rows np res' (stay_rows np res rows))"
    using assms(1) by (simp only: stay_rows_def mset_filter)
  also have "stay_rows np res' (stay_rows np res rows) = stay_rows np res' rows"
    using assms(2) by (auto simp: stay_rows_def intro!: filter_cong)
  finally show ?thesis .
qed

text \<open>Fewer resident partitions: the rows that leave the store are added to their files.\<close>

lemma spill_build_store_building:
  assumes T: "tape_spec T phase written rest" and static: "spill_static phase written plan hs" and bloom: "bloom_knows hs rows"
    and n: "hs_build_rows hs = length rows" and res: "set res' \<subseteq> set (hs_resident hs)"
    and placed: "rows_placed phase written plan rows hs"
  shows "\<exists>hs'. hash_join_spill_build_store T (hs\<lparr>hs_resident := res'\<rparr>) = Inr hs' \<and> building phase written plan rows hs' \<and>
    hs_resident hs' = res' \<and> bs_nrows (hs_build hs') \<le> bs_nrows (hs_build hs)"
proof -
  let ?hs = "hs\<lparr>hs_resident := res'\<rparr>" and ?np = "hs_npartitions hs" and ?store = "hs_build hs"
  obtain R where shape: "store_shape ?store" "bs_ncolumns ?store = jp_ninner_columns plan" "\<not> bs_has_duplicates ?store"
    and lt: "\<forall>p \<in> set (hs_resident hs). p < ?np"
    and rows: "mset (store_rows ?store) = mset (stay_rows ?np (hs_resident hs) rows)"
    and R: "side_ok phase written (jp_ninner_columns plan) ?np (hs_build_side hs) R"
      "\<forall>p < ?np. mset (R p) = mset (leave_rows ?np (hs_resident hs) rows p)"
      "\<forall>p < ?np. hs_build_partition_rows hs ! p = length (R p)"
    and len: "length (hs_build_partition_rows hs) = ?np"
    using placed unfolding rows_placed_def by blast
  have pre: "store_shape (hs_build ?hs)" "side_ok phase written (bs_ncolumns (hs_build ?hs)) (hs_npartitions ?hs) (hs_build_side ?hs) R"
    "\<forall>p \<in> set (hs_resident ?hs). p < hs_npartitions ?hs" "length (hs_build_partition_rows ?hs) = hs_npartitions ?hs"
    "\<forall>p < hs_npartitions ?hs. hs_build_partition_rows ?hs ! p = length (R p)"
    using shape R lt len res by auto
  obtain s rr side' counts' where s: "hash_join_spill_build_store T ?hs = Inr (?hs\<lparr>hs_build := s, hs_resident_rows := rr,
      hs_build_side := side', hs_build_partition_rows := counts'\<rparr>)"
    "store_shape s" "same_table ?store s" "bs_nrows s \<le> bs_nrows ?store" "store_rows s = stay_rows ?np res' (store_rows ?store)"
    "side_ok phase written (jp_ninner_columns plan) ?np side' (\<lambda>p. R p @ leave_rows ?np res' (store_rows ?store) p)"
    "length counts' = ?np"
    "\<forall>p < ?np. counts' ! p = length (R p @ leave_rows ?np res' (store_rows ?store) p)" "length rr = ?np"
    "\<forall>p \<in> set res'. rr ! p = length (filter (\<lambda>row. row_partition ?np row = p) (store_rows ?store))"
    using spill_build_store_ok [OF T pre] shape(2) by auto
  have files: "mset (R p @ leave_rows ?np res' (store_rows ?store) p) = mset (leave_rows ?np res' rows p)" if "p < ?np" for p
  proof (cases "p \<in> set (hs_resident hs)")
    case True
    then show ?thesis using R(2) that mset_filter_stay [OF rows True] by (simp add: leave_rows_def)
  next
    case False
    then have "p \<notin> set res'" using res by blast
    with False show ?thesis using R(2) that filter_stay_other [OF rows False] by (simp add: leave_rows_def)
  qed
  have len': "length (filter (\<lambda>row. row_partition ?np row = p) (store_rows ?store)) =
      length (filter (\<lambda>row. row_partition ?np row = p) rows)" if "p \<in> set res'" for p
    by (rule mset_eq_length [OF mset_filter_stay [OF rows subsetD [OF res that]]])
  have "bs_ncolumns s = jp_ninner_columns plan" "\<not> bs_has_duplicates s"
    using s(3) shape by (simp_all add: same_table_def)
  moreover have "mset (store_rows s) = mset (stay_rows ?np res' rows)"
    unfolding s(5) by (rule mset_stay_subset [OF rows res])
  moreover have "\<forall>p \<in> set res'. p < ?np" using lt res by blast
  moreover define hs' where "hs' = ?hs\<lparr>hs_build := s, hs_resident_rows := rr, hs_build_side := side',
    hs_build_partition_rows := counts'\<rparr>"
  moreover have "\<exists>R. side_ok phase written (jp_ninner_columns plan) ?np side' R \<and>
      (\<forall>p < ?np. mset (R p) = mset (leave_rows ?np res' rows p) \<and> counts' ! p = length (R p))"
    by (rule exI [of _ "\<lambda>p. R p @ leave_rows ?np res' (store_rows ?store) p"], rule conjI [OF s(6)])
      (use s(8) files in blast)
  ultimately have "rows_placed phase written plan rows hs'"
    unfolding rows_placed_def hs'_def using s(2,7) by (intro conjI) simp_all
  then have "building phase written plan rows hs'"
    unfolding building_def using static bloom n s(9,10) len' by (simp add: hs'_def bloom_knows_def)
  then show ?thesis using s(1,4) by (auto simp: hs'_def)
qed

lemma limit_resident_build_ok:
  assumes T: "tape_spec T phase written rest"
  shows "building phase written plan rows hs \<Longrightarrow>
    \<exists>hs'. limit_resident_build T hs = Inr hs' \<and> building phase written plan rows hs' \<and>
      bs_nrows (hs_build hs') \<le> bs_nrows (hs_build hs)"
proof (induction "length (hs_resident hs)" arbitrary: hs rule: less_induct)
  case less
  show ?case
  proof (cases "hs_resident hs \<noteq> [] \<and> largest_resident hs \<noteq> None \<and>
      hash_join_estimated_build_memory (bs_nrows (hs_build hs)) (bs_ncolumns (hs_build hs)) > hs_resident_memory_limit hs")
    case False
    then have "limit_resident_build T hs = Inr hs"
      by (subst limit_resident_build.simps) (auto split: option.split)
    then show ?thesis using less.prems by simp
  next
    case True
    then obtain p where p: "largest_resident hs = Some p" by blast
    let ?res = "filter ((\<noteq>) p) (hs_resident hs)"
    obtain hs1 where hs1: "hash_join_spill_build_store T (hs\<lparr>hs_resident := ?res\<rparr>) = Inr hs1"
      "building phase written plan rows hs1" "hs_resident hs1 = ?res" "bs_nrows (hs_build hs1) \<le> bs_nrows (hs_build hs)"
      using spill_build_store_building [OF T, where hs = hs and rows = rows and plan = plan and res' = ?res] less.prems
      by (auto simp: building_def)
    have "length (hs_resident hs1) < length (hs_resident hs)"
      unfolding hs1(3) by (rule length_filter_less [OF largest_resident_member [OF p]]) simp
    from less.hyps [OF this hs1(2)] obtain hs2 where "limit_resident_build T hs1 = Inr hs2"
      "building phase written plan rows hs2" "bs_nrows (hs_build hs2) \<le> bs_nrows (hs_build hs1)" by blast
    moreover have "limit_resident_build T hs = limit_resident_build T hs1"
      using True p hs1(1) by (subst limit_resident_build.simps) simp
    ultimately show ?thesis using hs1(4) by auto
  qed
qed

end
