(* ===== verification/Join_Build_Props.thy ===== *)
theory Join_Build_Props
  imports Join_Spill_Build
begin

text \<open>
  Building with spilling, batch by batch: routing, appending resident rows, and the loop of
  \<open>build_hash_table\<close>.
\<close>

section \<open>The filter\<close>

lemma bloom_position_less:
  assumes "nbits = 2 ^ j" "j \<le> 63"
  shows "bloom_position nbits h < nbits"
proof -
  have "of_nat (nbits - 1) = (mask j :: uint64)" by (simp add: assms(1) mask_eq_exp_minus_1 of_nat_diff)
  then have "bloom_position nbits h = take_bit j (unat (ucast h :: uint64))"
    unfolding bloom_position_def by (simp only: take_bit_eq_mask [symmetric] unsigned_take_bit_eq)
  then show ?thesis by (simp add: assms(1))
qed

lemma bloom_add_ok:
  assumes static: "spill_static phase written plan hs"
  shows "\<exists>b. bloom_add h hs = hs\<lparr>hs_bloom := b\<rparr> \<and> spill_static phase written plan (hs\<lparr>hs_bloom := b\<rparr>) \<and>
    (b = None \<longleftrightarrow> hs_bloom hs = None) \<and>
    (b \<noteq> None \<longrightarrow> bloom_may_contain (hs\<lparr>hs_bloom := b\<rparr>) h \<and>
       (\<forall>h'. bloom_may_contain hs h' \<longrightarrow> bloom_may_contain (hs\<lparr>hs_bloom := b\<rparr>) h'))"
proof (cases "hs_bloom hs")
  case None
  then have "bloom_add h hs = hs\<lparr>hs_bloom := None\<rparr>" by (simp add: bloom_add_def)
  then show ?thesis using None static by (intro exI [of _ None]) (auto simp: spill_static_def)
next
  case (Some ws)
  let ?nbits = "hs_bloom_nbits hs"
  let ?pos = "bloom_position ?nbits"
  let ?b = "ws[?pos h div 64 := (ws ! (?pos h div 64)) OR push_bit (?pos h mod 64) 1]"
  have dims: "?nbits = 64 * length ws" "\<exists>j \<le> 63. ?nbits = 2 ^ j" using static Some by (auto simp: spill_static_def)
  then have lt: "?pos h' div 64 < length ws" for h'
    using bloom_position_less [of ?nbits _ h'] by (metis less_mult_imp_div_less mult.commute)
  have may: "bloom_may_contain (hs\<lparr>hs_bloom := Some vs\<rparr>) h' \<longleftrightarrow> bit (vs ! (?pos h' div 64)) (?pos h' mod 64)" for vs h'
    by (simp add: bloom_may_contain_def Let_def)
  have old: "bloom_may_contain hs h' \<longleftrightarrow> bit (ws ! (?pos h' div 64)) (?pos h' mod 64)" for h'
    by (simp add: bloom_may_contain_def Some Let_def)
  have "bit (?b ! (?pos h' div 64)) (?pos h' mod 64)" if "bit (ws ! (?pos h' div 64)) (?pos h' mod 64) \<or> h' = h" for h'
    using that lt [of h'] lt [of h] by (auto simp: nth_list_update bit_or_iff bit_exp_iff)
  then show ?thesis
    using static Some dims
    by (intro exI [of _ "Some ?b"]) (auto simp: bloom_add_def Let_def may old spill_static_def)
qed

lemma bloom_adds_ok:
  "spill_static phase written plan hs \<Longrightarrow> bloom_knows hs rows \<Longrightarrow>
     \<exists>b. fold (\<lambda>x. bloom_add (h x)) xs hs = hs\<lparr>hs_bloom := b\<rparr> \<and> spill_static phase written plan (hs\<lparr>hs_bloom := b\<rparr>) \<and>
       (b = None \<longleftrightarrow> hs_bloom hs = None) \<and>
       bloom_knows (hs\<lparr>hs_bloom := b\<rparr>) (rows @ map (\<lambda>x. (h x, cells x)) xs)"
proof (induction xs arbitrary: hs rows)
  case Nil
  then show ?case by (intro exI [of _ "hs_bloom hs"]) simp
next
  case (Cons x xs)
  obtain b where b: "bloom_add (h x) hs = hs\<lparr>hs_bloom := b\<rparr>" "spill_static phase written plan (hs\<lparr>hs_bloom := b\<rparr>)"
    "b = None \<longleftrightarrow> hs_bloom hs = None"
    "b \<noteq> None \<longrightarrow> bloom_may_contain (hs\<lparr>hs_bloom := b\<rparr>) (h x) \<and>
       (\<forall>h'. bloom_may_contain hs h' \<longrightarrow> bloom_may_contain (hs\<lparr>hs_bloom := b\<rparr>) h')"
    using bloom_add_ok [OF Cons.prems(1), of "h x"] by (elim exE conjE)
  have "bloom_knows (hs\<lparr>hs_bloom := b\<rparr>) (rows @ [(h x, cells x)])"
    using b(3,4) Cons.prems(2) by (auto simp: bloom_knows_def)
  from Cons.IH [OF b(2) this] show ?case using b(1,3) by auto
qed

section \<open>Routing a build batch\<close>

lemma route_fold:
  "fold (\<lambda>row (resident_rows, counts, heads).
       let p = f row
       in if p \<in> S then (resident_rows OR push_bit row 1, counts, heads)
          else (resident_rows, counts[p := counts ! p + 1], link_row p row heads)) rows (w, counts, heads) =
   (fold (\<lambda>row w. w OR push_bit row 1) (filter (\<lambda>row. f row \<in> S) rows) w,
    fold (\<lambda>row counts. counts[f row := counts ! f row + (1 :: nat)]) (filter (\<lambda>row. f row \<notin> S) rows) counts,
    fold (\<lambda>row. link_row (f row) row) (filter (\<lambda>row. f row \<notin> S) rows) heads)"
  by (induction rows arbitrary: w counts heads) (simp_all add: Let_def)

lemma count_fold:
  "p < length counts \<Longrightarrow> fold (\<lambda>row counts. counts[f row := Suc (counts ! f row)]) rows counts ! p =
     counts ! p + length (filter (\<lambda>row. f row = p) rows)"
  by (induction rows arbitrary: counts) (auto simp: nth_list_update)

lemma length_count_fold [simp]:
  "length (fold (\<lambda>row counts. counts[f row := g counts row]) rows counts) = length counts"
  by (induction rows arbitrary: counts) simp_all

lemma word_rows_fold_or:
  assumes "sorted_wrt (<) rs" "\<forall>r \<in> set rs. r < 64"
  shows "word_rows (fold (\<lambda>row w. w OR push_bit row 1) rs (0 :: uint64)) = rs"
proof (rule strict_sorted_unique)
  have "bit (fold (\<lambda>row w. w OR push_bit row 1) rs (0 :: uint64)) i \<longleftrightarrow> i \<in> set rs" for i
    using bit_fold_or [where P = "\<lambda>_. True" and xs = rs and ?r0.0 = "0 :: uint64" and i = i] assms(2) by simp
  then show "set (word_rows (fold (\<lambda>row w. w OR push_bit row 1) rs (0 :: uint64))) = set rs"
    by (auto simp del: push_bit_eq_mult push_bit_of_1)
qed (use assms(1) sorted_word_rows in simp_all)

lemma fst_batch_row [simp]: "fst (batch_row n columns hashes row) = hashes ! row"
  by (simp add: batch_row_def)

section \<open>Appending resident rows\<close>

lemma shape_append_cells:
  assumes wf: "store_shape s" and n: "bs_nrows s < 2 ^ 30"
    and cells: "None \<notin> set (cell_options (bs_ncolumns s) cell)"
  shows "\<exists>s'. rbind (if bs_nrows s = bs_capacity s then hash_join_grow_build_store s else Inr s)
      (\<lambda>s. Inr (store_row_cells h cell s)) = Inr s' \<and> store_shape s' \<and> same_table s s' \<and>
    bs_nrows s' = bs_nrows s + 1 \<and> store_rows s' = store_rows s @ [(h, cell_options (bs_ncolumns s) cell)]"
proof -
  obtain s1 where s1: "(if bs_nrows s = bs_capacity s then hash_join_grow_build_store s else Inr s) = Inr s1"
    "store_shape s1" "store_rows s1 = store_rows s" "same_table s s1" "bs_nrows s1 = bs_nrows s" "bs_nrows s1 < bs_capacity s1"
  proof (cases "bs_nrows s = bs_capacity s")
    case True
    then show ?thesis using shape_grow [OF wf n True] that by auto
  next
    case False
    then show ?thesis using wf that [of s] by (simp add: store_shape_def)
  qed
  have "\<forall>column < bs_ncolumns s1. snd (cell column) \<longrightarrow> \<not> build_value_valid s1 column (bs_nrows s1)"
    using cells s1(4) by (force simp: cell_options_def same_table_def)
  from shape_store_row [OF s1(2,6) this, of h] show ?thesis
    using s1 same_table_trans [OF s1(4)] by (simp add: same_table_def)
qed

lemma append_row_ok:
  assumes "store_shape s" "bs_nrows s < 2 ^ 30" "bs_ncolumns s = n" "None \<notin> set (snd (batch_row n columns hashes row))"
  shows "\<exists>s'. append_build_row_hash columns row (hashes ! row) s = Inr s' \<and> store_shape s' \<and> same_table s s' \<and>
    bs_nrows s' = bs_nrows s + 1 \<and> store_rows s' = store_rows s @ [batch_row n columns hashes row]"
  using shape_append_cells [OF assms(1,2), of "\<lambda>column. hash_join_input_value (columns ! column) row" "hashes ! row"] assms(3,4)
  by (simp add: append_build_row_hash_def input_cells batch_row_def)

lemma append_resident_ok:
  "store_shape s \<Longrightarrow> bs_nrows s + length rs \<le> 2 ^ 30 \<Longrightarrow> bs_ncolumns s = n \<Longrightarrow>
     \<forall>row \<in> set rs. None \<notin> set (snd (batch_row n columns hashes row)) \<Longrightarrow>
   \<exists>s'. rfold (\<lambda>row (store, counts).
        let p = hash_partition 0 np (hashes ! row)
        in rbind (append_build_row_hash columns row (hashes ! row) store) (\<lambda>store.
           Inr (store, counts[p := counts ! p + 1]))) rs (s, counts) =
      Inr (s', fold (\<lambda>row counts. counts[hash_partition 0 np (hashes ! row) :=
        counts ! hash_partition 0 np (hashes ! row) + (1 :: nat)]) rs counts) \<and>
     store_shape s' \<and> same_table s s' \<and> store_rows s' = store_rows s @ map (batch_row n columns hashes) rs"
proof (induction rs arbitrary: s counts)
  case (Cons row rs)
  have "bs_nrows s < 2 ^ 30" "None \<notin> set (snd (batch_row n columns hashes row))" using Cons.prems(2,4) by simp_all
  from append_row_ok [OF Cons.prems(1) this(1) Cons.prems(3) this(2)] obtain s1 where
    s1: "append_build_row_hash columns row (hashes ! row) s = Inr s1" "store_shape s1" "same_table s s1"
    "bs_nrows s1 = bs_nrows s + 1" "store_rows s1 = store_rows s @ [batch_row n columns hashes row]" by blast
  let ?p = "hash_partition 0 np (hashes ! row)"
  have "bs_nrows s1 + length rs \<le> 2 ^ 30" "bs_ncolumns s1 = n" using s1(3,4) Cons.prems(2,3) by (simp_all add: same_table_def)
  from Cons.IH [OF s1(2) this, of "counts[?p := counts ! ?p + 1]"] Cons.prems(4) show ?case
    using s1 same_table_trans [OF s1(3)] by (auto simp: Let_def)
qed simp

section \<open>One batch\<close>

definition full_rows :: "row list \<Rightarrow> bool" where
  "full_rows rows \<longleftrightarrow> (\<forall>row \<in> set rows. None \<notin> set (snd row))"

lemma append_or_spill_ok:
  fixes columns :: "int4_vector list" and hashes :: "uint32 list" and hash_rows :: uint64
  assumes T: "tape_spec T phase written rest" and b: "building phase written plan rows hs"
  defines "new \<equiv> map (batch_row (jp_ninner_columns plan) columns hashes) (word_rows hash_rows)"
  assumes full: "full_rows new" and size: "length rows + length new \<le> 2 ^ 30"
  shows "\<exists>hs'. append_or_spill_build_batch T columns hashes hash_rows hs = Inr hs' \<and> building phase written plan (rows @ new) hs'"
proof -
  let ?n = "jp_ninner_columns plan" and ?rs = "word_rows hash_rows" and ?np = "hs_npartitions hs" and ?res = "set (hs_resident hs)"
  let ?f = "\<lambda>row. hash_partition 0 ?np (hashes ! row)" and ?row = "batch_row ?n columns hashes"
  have static: "spill_static phase written plan hs" and bloom: "bloom_knows hs rows" and placed: "rows_placed phase written plan rows hs"
    using b by (simp_all add: building_def)
  obtain k where k: "k \<le> 10" "?np = 2 ^ k" using static by (auto simp: spill_static_def)
  have f: "row_partition ?np (?row r) = ?f r" for r by (simp add: row_partition_def)
  have lt: "?f r < ?np" for r using hash_partition_less [of k 0] k by simp
  have sorted: "sorted_wrt (<) (filter P ?rs)" "\<forall>r \<in> set (filter P ?rs). r < 64" for P
    by (auto simp: sorted_wrt_filter sorted_word_rows dest: word64_bit_lt)
  obtain bl where bl: "fold (\<lambda>row. bloom_add (hashes ! row)) ?rs hs = hs\<lparr>hs_bloom := bl\<rparr>"
    "spill_static phase written plan (hs\<lparr>hs_bloom := bl\<rparr>)"
    "bloom_knows (hs\<lparr>hs_bloom := bl\<rparr>) (rows @ map (\<lambda>row. (hashes ! row, snd (?row row))) ?rs)"
    using bloom_adds_ok [OF static bloom, of "\<lambda>row. hashes ! row" ?rs "\<lambda>row. snd (?row row)"] by (elim exE conjE)
  let ?hs = "hs\<lparr>hs_bloom := bl\<rparr>"
  have new_eq: "map (\<lambda>row. (hashes ! row, snd (?row row))) ?rs = new" by (simp add: new_def batch_row_def)
  obtain R where shape: "store_shape (hs_build hs)" "bs_ncolumns (hs_build hs) = ?n" "\<not> bs_has_duplicates (hs_build hs)"
    and ltr: "\<forall>p \<in> ?res. p < ?np"
    and store: "mset (store_rows (hs_build hs)) = mset (stay_rows ?np (hs_resident hs) rows)"
    and R: "side_ok phase written ?n ?np (hs_build_side hs) R"
      "\<forall>p < ?np. mset (R p) = mset (leave_rows ?np (hs_resident hs) rows p)"
      "\<forall>p < ?np. hs_build_partition_rows hs ! p = length (R p)"
    and len: "length (hs_build_partition_rows hs) = ?np"
    using placed unfolding rows_placed_def by blast
  let ?out = "filter (\<lambda>row. ?f row \<notin> ?res) ?rs" and ?in = "filter (\<lambda>row. ?f row \<in> ?res) ?rs"
  obtain side' where side': "write_chains T columns hashes (fold (\<lambda>row. link_row (?f row) row) ?out []) (hs_build_side hs) = Inr side'"
    "side_ok phase written ?n ?np side' (\<lambda>q. R q @ map ?row (filter (\<lambda>row. ?f row = q) ?out))"
    using write_linked_rows [OF T R(1) sorted(1), of "\<lambda>row. ?f row \<notin> ?res" ?f columns hashes] sorted(2) lt by auto
  define counts where "counts = fold (\<lambda>row counts. counts[?f row := counts ! ?f row + 1]) ?out (hs_build_partition_rows hs)"
  define w where "w = fold (\<lambda>row w. w OR push_bit row 1) ?in (0 :: uint64)"
  have route: "hash_join_spill_build_batch T columns hashes hash_rows hs =
      Inr (w, ?hs\<lparr>hs_build_side := side', hs_build_partition_rows := counts\<rparr>)"
    using side'(1) unfolding hash_join_spill_build_batch_def bl(1) Let_def
    by (simp add: route_fold [unfolded Let_def] w_def counts_def cong: if_cong
        del: push_bit_of_1 push_bit_eq_mult One_nat_def)
  have wr: "word_rows w = ?in" unfolding w_def by (rule word_rows_fold_or [OF sorted])
  have nrows: "bs_nrows (hs_build hs) \<le> length rows"
    using mset_eq_length [OF store] by (simp add: stay_rows_def)
  have "length ?in \<le> length new" by (simp add: new_def)
  then have fit: "bs_nrows (hs_build hs) + length ?in \<le> 2 ^ 30" using nrows size by linarith
  have full_in: "\<forall>row \<in> set ?in. None \<notin> set (snd (?row row))"
    using full by (auto simp: full_rows_def new_def simp del: set_word_rows)
  from append_resident_ok [OF shape(1) fit shape(2) full_in, of ?np "hs_resident_rows hs"] obtain s' where
    s': "rfold (\<lambda>row (store, counts).
        let p = ?f row
        in rbind (append_build_row_hash columns row (hashes ! row) store) (\<lambda>store.
           Inr (store, counts[p := counts ! p + 1]))) ?in (hs_build hs, hs_resident_rows hs) =
      Inr (s', fold (\<lambda>row counts. counts[?f row := counts ! ?f row + (1 :: nat)]) ?in (hs_resident_rows hs))"
    "store_shape s'" "same_table (hs_build hs) s'" "store_rows s' = store_rows (hs_build hs) @ map ?row ?in" by blast
  define rr where "rr = fold (\<lambda>row counts. counts[?f row := counts ! ?f row + (1 :: nat)]) ?in (hs_resident_rows hs)"
  define hs1 where "hs1 = hs\<lparr>hs_bloom := bl, hs_build_side := side', hs_build_partition_rows := counts,
    hs_build := s', hs_resident_rows := rr, hs_build_rows := length rows + length new\<rparr>"
  have step: "append_or_spill_build_batch T columns hashes hash_rows hs = limit_resident_build T hs1"
    using b s'(1) by (simp add: append_or_spill_build_batch_def route wr hs1_def rr_def building_def new_def)
  have files: "mset (R p @ map ?row (filter (\<lambda>row. ?f row = p) ?out)) = mset (leave_rows ?np (hs_resident hs) (rows @ new) p)"
    if "p < ?np" for p
  proof -
    have "map ?row (filter (\<lambda>row. ?f row = p) ?out) = leave_rows ?np (hs_resident hs) new p"
      by (auto simp: leave_rows_def new_def filter_map f comp_def filter_empty_conv intro!: arg_cong [where f = "map ?row"] filter_cong)
    then show ?thesis using R(2) that by (simp add: leave_rows_def)
  qed
  have cnt: "counts ! p = length (R p @ map ?row (filter (\<lambda>row. ?f row = p) ?out))" if "p < ?np" for p
    using R(3) that len by (simp add: counts_def count_fold)
  have ex: "\<exists>R. side_ok phase written ?n ?np side' R \<and>
      (\<forall>p < ?np. mset (R p) = mset (leave_rows ?np (hs_resident hs) (rows @ new) p) \<and> counts ! p = length (R p))"
    by (rule exI [of _ "\<lambda>q. R q @ map ?row (filter (\<lambda>row. ?f row = q) ?out)"], rule conjI [OF side'(2)]) (use files cnt in blast)
  have stay: "mset (store_rows s') = mset (stay_rows ?np (hs_resident hs) (rows @ new))"
    using store s'(4) by (simp add: stay_rows_def new_def filter_map comp_def f)
  have "rows_placed phase written plan (rows @ new) hs1"
    unfolding rows_placed_def hs1_def using s'(2,3) shape ltr ex stay len by (intro conjI) (simp_all add: same_table_def counts_def)
  moreover have "spill_static phase written plan hs1" "bloom_knows hs1 (rows @ new)"
    using bl(2,3) unfolding new_eq hs1_def by (simp_all add: bloom_knows_def)
  moreover have "rr ! p = length (filter (\<lambda>row. row_partition ?np row = p) (rows @ new))" if p: "p \<in> ?res" for p
  proof -
    have "filter (\<lambda>row. ?f row = p) ?in = filter (\<lambda>row. ?f row = p) ?rs" using p by (auto intro!: filter_cong)
    moreover have "p < length (hs_resident_rows hs)" using b ltr p by (simp add: building_def)
    ultimately show ?thesis
      using b p by (simp add: rr_def count_fold building_def new_def filter_map comp_def f)
  qed
  ultimately have "building phase written plan (rows @ new) hs1"
    using b by (simp add: building_def hs1_def rr_def)
  from limit_resident_build_ok [OF T this] show ?thesis unfolding step by blast
qed

section \<open>Switching to spilling\<close>

lemma partition_count_from_power:
  "r = 2 ^ j \<Longrightarrow> 1 \<le> j \<Longrightarrow> j \<le> 10 \<Longrightarrow> \<exists>k. 1 \<le> k \<and> k \<le> 10 \<and> partition_count_from required r = 2 ^ k"
proof (induction required r arbitrary: j rule: partition_count_from.induct)
  case (1 required r)
  show ?case
  proof (cases "0 < r \<and> r < required \<and> r < 1024")
    case True
    have "(2 :: nat) ^ j < 2 ^ 10" using True 1(2) by simp
    then have "j < 10" by (simp only: power_strict_increasing_iff)
    then show ?thesis
      using 1(1) [OF True, of "Suc j"] 1(2) True by (subst partition_count_from.simps) (simp add: mult.commute)
  next
    case False
    then have "partition_count_from required r = r" by (subst partition_count_from.simps) auto
    then show ?thesis using 1 by blast
  qed
qed

lemma next_partition_count_power: "\<exists>k. 1 \<le> k \<and> k \<le> 10 \<and> next_partition_count required = 2 ^ k"
  using partition_count_from_power [of 2 1 required] by (simp add: next_partition_count_def)

lemma partition_bits_power: "partition_bits (2 ^ k) = k"
proof (induction k)
  case 0
  then show ?case by (subst partition_bits.simps) simp
next
  case (Suc k)
  have "1 < (2 :: nat) ^ Suc k" by (rule one_less_power) simp_all
  with Suc show ?case by (subst partition_bits.simps) simp
qed

lemma bloom_bits_from_power:
  "nbits = 2 ^ j \<Longrightarrow> 6 \<le> j \<Longrightarrow> nbits \<le> max_bits \<Longrightarrow>
     \<exists>k \<ge> 6. bloom_bits_from desired max_bits nbits = 2 ^ k \<and> 2 ^ k \<le> max_bits"
proof (induction desired max_bits nbits arbitrary: j rule: bloom_bits_from.induct)
  case (1 desired max_bits nbits)
  show ?case
  proof (cases "0 < nbits \<and> nbits < desired \<and> nbits \<le> max_bits div 2")
    case True
    have "nbits * 2 \<le> max_bits" using True by linarith
    then show ?thesis
      using 1(1) [OF True, of "Suc j"] 1(2,3) True by (subst bloom_bits_from.simps) (simp add: mult.commute)
  next
    case False
    then have "bloom_bits_from desired max_bits nbits = nbits" by (subst bloom_bits_from.simps) auto
    then show ?thesis using 1(2-4) by auto
  qed
qed

lemma bloom_bits_power:
  assumes "memory_limit < 2 ^ 62"
  shows "\<exists>k. 6 \<le> k \<and> k \<le> 63 \<and> bloom_bits memory_limit estimated_rows = 2 ^ k"
proof -
  let ?max = "max 64 (memory_limit div 16 * 8)"
  obtain k where k: "6 \<le> k" "bloom_bits_from (max 64 (estimated_rows * 8)) ?max 64 = 2 ^ k" "2 ^ k \<le> ?max"
    using bloom_bits_from_power [of 64 6 ?max] by auto
  have "?max < 2 ^ 63" using assms by simp
  then have "(2 :: nat) ^ k < 2 ^ 63" using k(3) by linarith
  then have "k < 63" by (simp only: power_strict_increasing_iff)
  then show ?thesis using k by (auto simp: bloom_bits_def Let_def)
qed

lemma resident_count_less: "2 \<le> np \<Longrightarrow> resident_count np bytes limit < np"
  by (auto simp: resident_count_def Let_def)

lemma build_chunk_rows_bounds: "64 \<le> build_chunk_rows limit n \<and> build_chunk_rows limit n < 2 ^ 32"
  by (simp add: build_chunk_rows_def)

text \<open>The columns that both sides of a join have.\<close>

definition columns_fit :: "join_plan \<Rightarrow> bool" where
  "columns_fit plan \<longleftrightarrow> 0 < jp_ninner_columns plan \<and> jp_ninner_columns plan < 65536 \<and>
     0 < jp_nouter_columns plan \<and> jp_nouter_columns plan < 65536"

lemma begin_spill_ok:
  assumes T: "tape_spec T phase written rest"
    and fit: "columns_fit plan"
    and limit: "memory_limit < 2 ^ 62"
    and store: "store_shape store" "bs_ncolumns store = jp_ninner_columns plan" "\<not> bs_has_duplicates store"
  shows "\<exists>hs. hash_join_begin_spill T plan memory_limit planned bytes est store = Inr hs \<and>
    spill_static phase written plan hs \<and> bloom_knows hs (store_rows store) \<and>
    rows_placed phase written plan (store_rows store) (hs\<lparr>hs_resident := [0..<hs_npartitions hs]\<rparr>) \<and>
    set (hs_resident hs) \<subseteq> set [0..<hs_npartitions hs] \<and> hs_build_rows hs = 0 \<and> hs_build hs = store \<and>
    hs_resident_rows hs = replicate (hs_npartitions hs) 0"
proof -
  have cols: "0 < jp_ninner_columns plan" "jp_ninner_columns plan < 65536" "0 < jp_nouter_columns plan"
    "jp_nouter_columns plan < 65536"
    using fit by (simp_all add: columns_fit_def)
  define np where "np = next_partition_count (max ((bytes + memory_limit - 1) div memory_limit) planned)"
  obtain k where k: "1 \<le> k" "k \<le> 10" "np = 2 ^ k" using next_partition_count_power unfolding np_def by blast
  have np: "2 \<le> np" using k(1) power_increasing [OF k(1), of "2 :: nat"] by (simp add: k(3))
  obtain bside where bside: "spill_side_create T (jp_ninner_columns plan) np (memory_limit div 4) = Inr bside"
    "side_ok phase written (jp_ninner_columns plan) np bside (\<lambda>_. [])"
    using side_ok_create [OF T cols(1,2), of np "memory_limit div 4"] np by auto
  obtain pside where pside: "spill_side_create T (jp_nouter_columns plan) np (memory_limit div 4) = Inr pside"
    "side_ok phase written (jp_nouter_columns plan) np pside (\<lambda>_. [])"
    using side_ok_create [OF T cols(3,4), of np "memory_limit div 4"] np by auto
  define nbits where "nbits = bloom_bits memory_limit est"
  define use where "use = (est > 0 \<and> nbits div est \<ge> 2)"
  obtain j where j: "6 \<le> j" "j \<le> 63" "nbits = 2 ^ j" using bloom_bits_power [OF limit] unfolding nbits_def by blast
  have "(64 :: nat) dvd 2 ^ j" using le_imp_power_dvd [OF j(1), of "2 :: nat"] by simp
  then have words: "64 * (nbits div 64) = nbits" by (simp add: j(3))
  define rlimit where "rlimit = resident_limit memory_limit np (max (jp_ninner_columns plan) (jp_nouter_columns plan))
      (if use then nbits div 8 else 0)"
  define hs0 where "hs0 = \<lparr>hs_memory_limit = memory_limit, hs_build = store, hs_npartitions = np,
      hs_partition_shift = partition_bits np,
      hs_bloom = (if use then Some (replicate (nbits div 64) 0) else None),
      hs_bloom_nbits = (if use then nbits else 0), hs_bloom_usable = False,
      hs_resident = [0..<resident_count np bytes rlimit],
      hs_resident_rows = replicate np 0, hs_resident_memory_limit = rlimit,
      hs_build_side = bside, hs_probe_side = pside,
      hs_build_partition_rows = replicate np 0,
      hs_build_chunk_rows = build_chunk_rows memory_limit (jp_ninner_columns plan), hs_build_rows = 0,
      hs_resident_block = hash_join_init_spill_block (jp_nouter_columns plan) (PG_BATCH_SIZE * 2) True,
      hs_build_block = hash_join_init_spill_block (jp_ninner_columns plan) PG_BATCH_SIZE False,
      hs_probe_block = hash_join_init_spill_block (jp_nouter_columns plan) PG_BATCH_SIZE False,
      hs_build_block_row = 0, hs_build_eof = False, hs_build_more = False,
      hs_current = 0, hs_partition_active = False, hs_active = None, hs_active_hash_shift = 0,
      hs_repartition = None\<rparr>"
  have run: "hash_join_begin_spill T plan memory_limit planned bytes est store =
      Inr (fold (\<lambda>row. bloom_add (bs_hashes store ! row)) [0..<bs_nrows store] hs0)"
    unfolding hash_join_begin_spill_def Let_def np_def [symmetric] nbits_def [symmetric] use_def [symmetric]
      rlimit_def [symmetric] bside(1) pside(1) rbind_simps hs0_def ..
  have "spill_static phase written plan hs0"
    using k j words pside(2) build_chunk_rows_bounds
    by (auto simp: spill_static_def hs0_def partition_bits_power)
  note static = this
  have "bloom_knows hs0 []" by (simp add: bloom_knows_def)
  from bloom_adds_ok [OF static this, of "\<lambda>row. bs_hashes store ! row" "[0..<bs_nrows store]" "store_cells store"]
  obtain b where b: "fold (\<lambda>row. bloom_add (bs_hashes store ! row)) [0..<bs_nrows store] hs0 = hs0\<lparr>hs_bloom := b\<rparr>"
    "spill_static phase written plan (hs0\<lparr>hs_bloom := b\<rparr>)"
    "bloom_knows (hs0\<lparr>hs_bloom := b\<rparr>) ([] @ map (\<lambda>row. (bs_hashes store ! row, store_cells store row)) [0..<bs_nrows store])"
    by (elim exE conjE)
  let ?hs = "hs0\<lparr>hs_bloom := b\<rparr>"
  have part: "row_partition np row < np" for row using row_partition_less [of k row] k by simp
  have all: "stay_rows np [0..<np] rows = rows" "leave_rows np [0..<np] rows p = []" if "p < np" for rows p
    using part that by (simp_all add: stay_rows_def leave_rows_def)
  have dims: "hs_npartitions hs0 = np" "hs_build hs0 = store" "hs_build_side hs0 = bside"
    "hs_build_partition_rows hs0 = replicate np 0" by (simp_all add: hs0_def)
  have "rows_placed phase written plan (store_rows store) (?hs\<lparr>hs_resident := [0..<np]\<rparr>)"
    unfolding rows_placed_def using store bside(2) np all [of 0] by (auto simp: dims all(2) intro!: exI [where x = "\<lambda>_. []"])
  moreover have "hs_resident ?hs = [0..<resident_count np bytes rlimit]" by (simp add: hs0_def)
  then have "set (hs_resident ?hs) \<subseteq> set [0..<np]" using resident_count_less [OF np, of bytes rlimit] by auto
  moreover have "bloom_knows ?hs (store_rows store)" using b(3) by (simp add: store_rows_def)
  ultimately show ?thesis
    using run b(2) unfolding b(1) by (intro exI [of _ ?hs]) (simp add: dims hs0_def)
qed

section \<open>The build loop\<close>

lemma built_rows_batch:
  assumes batch: "probe_wf plan (jp_inner_keys plan) batch" and h: "hash_input_batch plan (jp_inner_keys plan) batch = (w, hs)"
  shows "built_rows plan [batch] = map (batch_row (jp_ninner_columns plan) (pb_columns batch) hs) (word_rows w)"
proof -
  note bits = hash_input_batch_ok [OF batch h] and rows = hash_rows_positions [OF batch h]
  show ?thesis unfolding built_rows_def rows batch_row_def using bits by (auto simp: Let_def)
qed

definition build_ok ::
  "('t \<Rightarrow> tape_phase) \<Rightarrow> ('t \<Rightarrow> byte list) \<Rightarrow> join_plan \<Rightarrow> row list \<Rightarrow> 't join_build \<Rightarrow> bool" where
  "build_ok phase written plan rows b \<longleftrightarrow>
     (case b of
        In_memory store \<Rightarrow> store_wf store \<and> bs_ncolumns store = jp_ninner_columns plan \<and> \<not> bs_has_duplicates store \<and>
          store_rows store = rows
      | Spilled hs \<Rightarrow> building phase written plan rows hs)"

lemma resident_same: "hs\<lparr>hs_resident := hs_resident hs\<rparr> = hs"
  by (cases hs) simp

lemma switch_ok:
  assumes T: "tape_spec T phase written rest" and cols: "columns_fit plan" and limit: "memory_limit < 2 ^ 62"
    and store: "store_shape store" "bs_ncolumns store = jp_ninner_columns plan" "\<not> bs_has_duplicates store"
  shows "\<exists>hs1 hs2. hash_join_begin_spill T plan memory_limit planned bytes est store = Inr hs1 \<and>
    hash_join_spill_build_store T (hs1\<lparr>hs_build_rows := hs_build_rows hs1 + bs_nrows store\<rparr>) = Inr hs2 \<and>
    building phase written plan (store_rows store) hs2"
proof -
  obtain hs where hs: "hash_join_begin_spill T plan memory_limit planned bytes est store = Inr hs"
    "spill_static phase written plan hs" "bloom_knows hs (store_rows store)"
    "rows_placed phase written plan (store_rows store) (hs\<lparr>hs_resident := [0..<hs_npartitions hs]\<rparr>)"
    "set (hs_resident hs) \<subseteq> set [0..<hs_npartitions hs]" "hs_build_rows hs = 0"
    using begin_spill_ok [OF T cols limit store, of planned bytes est] by (elim exE conjE)
  let ?hs = "hs\<lparr>hs_build_rows := bs_nrows store\<rparr>"
  let ?all = "?hs\<lparr>hs_resident := [0..<hs_npartitions hs]\<rparr>"
  have "spill_static phase written plan ?all" "bloom_knows ?all (store_rows store)" "hs_build_rows ?all = length (store_rows store)"
    using hs(2,3) by (simp_all add: bloom_knows_def)
  moreover have "rows_placed phase written plan (store_rows store) ?all" using hs(4) by (simp add: rows_placed_def)
  moreover have "set (hs_resident hs) \<subseteq> set (hs_resident ?all)" using hs(5) by simp
  moreover have "?all\<lparr>hs_resident := hs_resident hs\<rparr> = ?hs" using resident_same [of ?hs] by simp
  ultimately show ?thesis
    using spill_build_store_building [OF T, where hs = ?all and rows = "store_rows store" and plan = plan and res' = "hs_resident hs"]
      hs(1,6) by auto
qed

lemma build_batch_ok:
  assumes T: "tape_spec T phase written rest" and cols: "columns_fit plan" and limit: "memory_limit < 2 ^ 62"
    and batch: "probe_wf plan (jp_inner_keys plan) batch" and full: "full_rows (built_rows plan [batch])"
    and size: "length rows + length (built_rows plan [batch]) \<le> 2 ^ 30" and ok: "build_ok phase written plan rows b"
  shows "\<exists>b'. build_batch T plan memory_limit planned batch b = Inr b' \<and>
    build_ok phase written plan (rows @ built_rows plan [batch]) b'"
proof -
  obtain w h where h: "hash_input_batch plan (jp_inner_keys plan) batch = (w, h)" by (metis surj_pair)
  note new = built_rows_batch [OF batch h]
  have spill: "\<exists>hs'. append_or_spill_build_batch T (pb_columns batch) h w hs = Inr hs' \<and>
      building phase written plan (rows @ built_rows plan [batch]) hs'" if "building phase written plan rows hs" for hs
    using append_or_spill_ok [OF T that, of "pb_columns batch" h w] full size unfolding new by blast
  show ?thesis
  proof (cases b)
    case (Spilled hs)
    then show ?thesis using spill [of hs] ok by (auto simp: build_batch_def h build_ok_def Let_def)
  next
    case (In_memory store)
    have store: "store_wf store" "bs_ncolumns store = jp_ninner_columns plan" "\<not> bs_has_duplicates store" "store_rows store = rows"
      using ok In_memory by (simp_all add: build_ok_def)
    let ?est = "hash_join_estimated_build_memory (bs_nrows store + nat (selection_count (pb_selection batch))) (bs_ncolumns store)"
    show ?thesis
    proof (cases "?est > memory_limit")
      case True
      obtain hs1 hs2 where sw: "hash_join_begin_spill T plan memory_limit planned ?est
          (bs_nrows store + nat (selection_count (pb_selection batch))) store = Inr hs1"
        "hash_join_spill_build_store T (hs1\<lparr>hs_build_rows := hs_build_rows hs1 + bs_nrows store\<rparr>) = Inr hs2"
        "building phase written plan rows hs2"
        using switch_ok [OF T cols limit store_wf_shape [OF store(1)] store(2,3), of planned ?est
            "bs_nrows store + nat (selection_count (pb_selection batch))"] store(4) by blast
      obtain hs3 where hs3: "limit_resident_build T hs2 = Inr hs3" "building phase written plan rows hs3"
        using limit_resident_build_ok [OF T sw(3)] by blast
      show ?thesis
        using spill [OF hs3(2)] True sw(1,2) hs3(1) by (auto simp: build_batch_def h In_memory build_ok_def Let_def)
    next
      case False
      have "bs_nrows store + length (word_rows w) \<le> 2 ^ 30"
        using size arg_cong [OF store(4), of length] unfolding new by simp
      from append_rows_ok [OF store(1) this, of "pb_columns batch" "\<lambda>row. h ! row"] obtain s' where
        "rfold (\<lambda>row. append_build_row_hash (pb_columns batch) row (h ! row)) (word_rows w) store = Inr s'"
        "store_wf s'" "same_table store s'"
        "store_rows s' = store_rows store @ built_rows plan [batch]"
        unfolding new batch_row_def [abs_def] store(2) by blast
      then show ?thesis using False store by (auto simp: build_batch_def h In_memory build_ok_def same_table_def Let_def)
    qed
  qed
qed

lemma full_rows_append [simp]: "full_rows (xs @ ys) \<longleftrightarrow> full_rows xs \<and> full_rows ys"
  by (auto simp: full_rows_def)

lemma build_all_ok:
  assumes T: "tape_spec T phase written rest" and cols: "columns_fit plan" and limit: "memory_limit < 2 ^ 62"
  shows "\<forall>batch \<in> set batches. probe_wf plan (jp_inner_keys plan) batch \<Longrightarrow> full_rows (built_rows plan batches) \<Longrightarrow>
    length rows + length (built_rows plan batches) \<le> 2 ^ 30 \<Longrightarrow> build_ok phase written plan rows b \<Longrightarrow>
    \<exists>b'. rfold (build_batch T plan memory_limit planned) batches b = Inr b' \<and>
      build_ok phase written plan (rows @ built_rows plan batches) b'"
proof (induction batches arbitrary: rows b)
  case Nil
  then show ?case by (simp add: built_rows_def)
next
  case (Cons batch batches)
  note split = built_rows_Cons [of plan batch batches]
  obtain b1 where b1: "build_batch T plan memory_limit planned batch b = Inr b1"
    "build_ok phase written plan (rows @ built_rows plan [batch]) b1"
    using build_batch_ok [OF T cols limit _ _ _ Cons.prems(4), of batch planned] Cons.prems(1-3) unfolding split by auto
  then show ?case
    using Cons.IH [OF _ _ _ b1(2)] Cons.prems(1-3) unfolding split by auto
qed

section \<open>The end of the build\<close>

text \<open>
  What probing finds: the rows of the resident partitions in the table, all others on
  readable files, exactly those files present whose partition has rows.
\<close>

definition build_files_ok ::
  "('t \<Rightarrow> tape_phase) \<Rightarrow> ('t \<Rightarrow> byte list) \<Rightarrow> ('t \<Rightarrow> byte list) \<Rightarrow> nat \<Rightarrow> nat \<Rightarrow> 't spill_side \<Rightarrow> (nat \<Rightarrow> row list) \<Rightarrow> bool" where
  "build_files_ok phase written rest n np side R \<longleftrightarrow> spill_ready phase written rest (sd_set side) R \<and>
     \<not> ss_frozen (sd_set side) \<and> ss_ncolumns (sd_set side) = n \<and> ss_npartitions (sd_set side) = np \<and>
     sd_files side = map (\<lambda>p. if R p = [] then None else Some None) [0..<np]"

definition built_spilled ::
  "('t \<Rightarrow> tape_phase) \<Rightarrow> ('t \<Rightarrow> byte list) \<Rightarrow> ('t \<Rightarrow> byte list) \<Rightarrow> join_plan \<Rightarrow> row list \<Rightarrow> 't hash_spill \<Rightarrow> bool" where
  "built_spilled phase written rest plan rows hs \<longleftrightarrow>
     (\<forall>p \<in> set (hs_resident hs). p < hs_npartitions hs \<and> (\<exists>row \<in> set rows. row_partition (hs_npartitions hs) row = p)) \<and>
     bs_ncolumns (hs_build hs) = jp_ninner_columns plan \<and>
     (hs_bloom_usable hs \<longrightarrow> (\<forall>row \<in> set rows. bloom_may_contain hs (fst row))) \<and>
     mset (store_rows (hs_build hs)) = mset (stay_rows (hs_npartitions hs) (hs_resident hs) rows) \<and>
     (bs_nrows (hs_build hs) > 0 \<longrightarrow> table_ok (jp_inner_keys plan) (hs_build hs) (bs_nrows (hs_build hs))) \<and>
     (\<exists>R. build_files_ok phase written rest (jp_ninner_columns plan) (hs_npartitions hs) (hs_build_side hs) R \<and>
        (\<forall>p < hs_npartitions hs. mset (R p) = mset (leave_rows (hs_npartitions hs) (hs_resident hs) rows p) \<and>
           hs_build_partition_rows hs ! p = length (R p)))"

lemma finish_spilled_build_ok:
  assumes T: "tape_spec T phase written rest" and b: "building phase written plan rows hs"
    and size: "length rows \<le> 2 ^ 30" and ne: "rows \<noteq> []"
  shows "\<exists>hs'. finish_spilled_build T plan hs = Inr (Some hs') \<and> spill_static phase written plan hs' \<and>
    hs_build_rows hs' = length rows \<and> built_spilled phase written rest plan rows hs'"
proof -
  let ?np = "hs_npartitions hs" and ?n = "jp_ninner_columns plan" and ?store = "hs_build hs"
  have static: "spill_static phase written plan hs" and bloom: "bloom_knows hs rows"
    and nrows: "hs_build_rows hs = length rows"
    and rr: "\<forall>p \<in> set (hs_resident hs). hs_resident_rows hs ! p = length (filter (\<lambda>row. row_partition ?np row = p) rows)"
    using b by (simp_all add: building_def)
  obtain R where shape: "store_shape ?store" "bs_ncolumns ?store = ?n" "\<not> bs_has_duplicates ?store"
    and lt: "\<forall>p \<in> set (hs_resident hs). p < ?np"
    and store: "mset (store_rows ?store) = mset (stay_rows ?np (hs_resident hs) rows)"
    and R: "side_ok phase written ?n ?np (hs_build_side hs) R"
      "\<forall>p < ?np. mset (R p) = mset (leave_rows ?np (hs_resident hs) rows p) \<and> hs_build_partition_rows hs ! p = length (R p)"
    using b unfolding building_def rows_placed_def by blast
  define res where "res = filter (\<lambda>p. hs_resident_rows hs ! p \<noteq> 0) (hs_resident hs)"
  have gone: "filter (\<lambda>row. row_partition ?np row = p) rows = []" if "p \<in> set (hs_resident hs)" "p \<notin> set res" for p
    using that rr by (simp add: res_def)
  have stay: "stay_rows ?np res rows = stay_rows ?np (hs_resident hs) rows"
  proof -
    have "row_partition ?np row \<in> set res \<longleftrightarrow> row_partition ?np row \<in> set (hs_resident hs)" if "row \<in> set rows" for row
      using gone [of "row_partition ?np row"] that by (auto simp: res_def filter_empty_conv)
    then show ?thesis by (auto simp: stay_rows_def intro: filter_cong)
  qed
  have leave: "leave_rows ?np res rows p = leave_rows ?np (hs_resident hs) rows p" for p
    using gone [of p] by (auto simp: leave_rows_def res_def)
  obtain s where s: "spill_finish T False (sd_set (hs_build_side hs)) = Inr s"
    using R(1) by (auto simp: side_ok_def spill_inv_def spill_shape_def spill_finish_def)
  have ready: "build_files_ok phase written rest ?n ?np ((hs_build_side hs)\<lparr>sd_set := s\<rparr>) R"
    using spill_finish_ready [OF T _ s] R(1) by (auto simp: side_ok_def build_files_ok_def)
  define hs1 where "hs1 = hs\<lparr>hs_resident := res, hs_build_side := (hs_build_side hs)\<lparr>sd_set := s\<rparr>,
      hs_bloom_usable := (hs_bloom hs \<noteq> None \<and> hs_bloom_nbits hs div hs_build_rows hs \<ge> 2)\<rparr>"
  have run: "finish_spilled_build T plan hs = Inr (if bs_nrows ?store > 0
        then map_option (\<lambda>store. hs1\<lparr>hs_build := store\<rparr>)
           (hash_join_finish_build_table (jp_inner_keys plan) (?store\<lparr>bs_hash_shift := 0\<rparr>)) else Some hs1)"
    using ne s nrows by (simp add: finish_spilled_build_def hs1_def res_def Let_def)
  have hs1: "spill_static phase written plan hs1" "hs_build_rows hs1 = length rows" "hs_npartitions hs1 = ?np"
    "hs_resident hs1 = res" "hs_build hs1 = ?store" "hs_build_partition_rows hs1 = hs_build_partition_rows hs"
    using static nrows by (simp_all add: hs1_def)
  have files: "\<exists>R. build_files_ok phase written rest ?n ?np (hs_build_side hs1) R \<and>
        (\<forall>p < ?np. mset (R p) = mset (leave_rows ?np res rows p) \<and> hs_build_partition_rows hs ! p = length (R p))"
    by (rule exI [of _ R]) (use ready R(2) in \<open>simp add: hs1_def leave\<close>)
  have known: "hs_bloom_usable hs1 \<longrightarrow> (\<forall>row \<in> set rows. bloom_may_contain hs1 (fst row))"
    using bloom by (simp add: hs1_def bloom_knows_def)
  have used: "\<forall>p \<in> set res. p < ?np \<and> (\<exists>row \<in> set rows. row_partition ?np row = p)"
    using lt rr by (auto simp: res_def filter_empty_conv)
  have done': "built_spilled phase written rest plan rows (hs1\<lparr>hs_build := t\<rparr>)"
    if "store_rows t = store_rows ?store" "bs_ncolumns t = ?n"
      "bs_nrows t > 0 \<longrightarrow> table_ok (jp_inner_keys plan) t (bs_nrows t)" for t
    using that files known used store stay unfolding built_spilled_def by (simp add: hs1)
  show ?thesis
  proof (cases "bs_nrows ?store > 0")
    case False
    have "hs1\<lparr>hs_build := ?store\<rparr> = hs1" using hs1(5) by (cases hs1) simp
    then show ?thesis using False run done' [of ?store] shape(2) hs1(1,2) by auto
  next
    case True
    have "bs_nrows ?store \<le> length rows" using mset_eq_length [OF store] by (simp add: stay_rows_def)
    moreover have "store_shape (?store\<lparr>bs_hash_shift := 0\<rparr>)" using shape(1) by (simp add: store_shape_def)
    ultimately obtain t where t: "hash_join_finish_build_table (jp_inner_keys plan) (?store\<lparr>bs_hash_shift := 0\<rparr>) = Some t"
      "table_ok (jp_inner_keys plan) t (bs_nrows t)" "store_rows t = store_rows (?store\<lparr>bs_hash_shift := 0\<rparr>)"
      "bs_ncolumns t = ?n"
      using shape_finish_table [of "?store\<lparr>bs_hash_shift := 0\<rparr>" "jp_inner_keys plan"] shape size by auto
    have "store_rows (?store\<lparr>bs_hash_shift := 0\<rparr>) = store_rows ?store"
      by (rule store_rows_cong) (simp_all add: build_value_valid_def)
    then show ?thesis using run True t done' [of t] hs1 by auto
  qed
qed

end
