(* ===== verification/Join_Spill_Props.thy ===== *)
theory Join_Spill_Props
  imports Join_Build_Props
begin

text \<open>
  What building with spilling promises, and the one thing it does not keep: validity bits
  of rows that moved away.
\<close>

lemma start_spilled_ok:
  assumes T: "tape_spec T phase written rest" and cols: "columns_fit plan" and limit: "memory_limit < 2 ^ 62"
    and store: "store_shape store" "bs_ncolumns store = jp_ninner_columns plan" "\<not> bs_has_duplicates store" "store_rows store = []"
  shows "\<exists>hs. hash_join_begin_spill T plan memory_limit planned bytes est store = Inr hs \<and> building phase written plan [] hs"
proof -
  obtain hs where hs: "hash_join_begin_spill T plan memory_limit planned bytes est store = Inr hs"
    "spill_static phase written plan hs" "bloom_knows hs (store_rows store)"
    "rows_placed phase written plan (store_rows store) (hs\<lparr>hs_resident := [0..<hs_npartitions hs]\<rparr>)"
    "set (hs_resident hs) \<subseteq> set [0..<hs_npartitions hs]" "hs_build_rows hs = 0" "hs_build hs = store"
    "hs_resident_rows hs = replicate (hs_npartitions hs) 0"
    using begin_spill_ok [OF T cols limit store(1-3), of planned bytes est] by (elim exE conjE)
  have "rows_placed phase written plan [] hs"
    using hs(4,5) unfolding store(4) rows_placed_def by (auto simp: stay_rows_def leave_rows_def)
  then have "building phase written plan [] hs"
    using hs(2,3,5,6,8) unfolding store(4) building_def by auto
  then show ?thesis using hs(1) by blast
qed

lemma hash_join_build_ok:
  assumes "tape_spec T phase written rest" "columns_fit plan" "memory_limit < 2 ^ 62"
    and "bs_ncolumns s0 = jp_ninner_columns plan"
    and "\<forall>batch \<in> set inner. probe_wf plan (jp_inner_keys plan) batch" "total_rows inner \<le> 2 ^ 30"
    and "full_rows (built_rows plan inner)"
  shows "\<exists>b. hash_join_build T plan memory_limit planned_partitions estimated_rows inner s0 = Inr (Some b) \<and>
    (case b of
       In_memory s \<Rightarrow> table_ok (jp_inner_keys plan) s (bs_nrows s) \<and> store_rows s = built_rows plan inner
     | Spilled hs \<Rightarrow> hs_build_rows hs = length (built_rows plan inner) \<and> spill_static phase written plan hs \<and>
         (built_rows plan inner \<noteq> [] \<longrightarrow> built_spilled phase written rest plan (built_rows plan inner) hs))"
proof -
  let ?r = "(hash_join_reset_build_store s0)\<lparr>bs_hash_shift := 0\<rparr>" and ?c = "capacity_for estimated_rows 1024"
  let ?rows = "built_rows plan inner"
  have r: "store_wf ?r" "bs_ncolumns ?r = jp_ninner_columns plan" "\<not> bs_has_duplicates ?r" "store_rows ?r = []"
    using store_wf_reset [of s0] assms(4)
    by (simp_all add: store_wf_def build_value_valid_def hash_join_reset_build_store_def store_rows_def)
  have "\<exists>s1. resize_build_store ?c ?r = Inr s1"
    using capacity_for_bounds [of 1024 estimated_rows] by (simp add: resize_build_store_def hash_join_reset_build_store_def Let_def)
  then obtain s1 where s1: "(if planned_partitions = 1 \<and> hash_join_estimated_build_memory ?c (bs_ncolumns ?r) \<le> memory_limit
      then resize_build_store ?c ?r else Inr ?r) = Inr s1"
    "store_wf s1" "bs_ncolumns s1 = jp_ninner_columns plan" "\<not> bs_has_duplicates s1" "store_rows s1 = []"
    using r resize_ok [OF r(1), of ?c] capacity_for_bounds [of 1024 estimated_rows]
    by (cases "planned_partitions = 1 \<and> hash_join_estimated_build_memory ?c (bs_ncolumns ?r) \<le> memory_limit")
      (auto simp: same_table_def)
  define start where "start = (if planned_partitions > 1
      then rbind (hash_join_begin_spill T plan memory_limit planned_partitions (memory_limit * planned_partitions) estimated_rows s1)
        (\<lambda>hs. Inr (Spilled hs)) else Inr (In_memory s1))"
  obtain b0 where b0: "start = Inr b0" "build_ok phase written plan [] b0"
    using start_spilled_ok [OF assms(1-3) store_wf_shape [OF s1(2)] s1(3-5), of planned_partitions
        "memory_limit * planned_partitions" estimated_rows] s1
    by (cases "planned_partitions > 1") (auto simp: start_def build_ok_def)
  have size: "length ?rows \<le> 2 ^ 30" using length_built_rows_total [OF assms(5)] assms(6) by simp
  obtain b1 where b1: "rfold (build_batch T plan memory_limit planned_partitions) inner b0 = Inr b1"
    "build_ok phase written plan ?rows b1"
    using build_all_ok [OF assms(1-3,5,7) _ b0(2), of planned_partitions] size by auto
  have run: "hash_join_build T plan memory_limit planned_partitions estimated_rows inner s0 =
      (case b1 of
         In_memory store \<Rightarrow> Inr (map_option In_memory (hash_join_finish_build_table (jp_inner_keys plan) store))
       | Spilled hs \<Rightarrow> rbind (finish_spilled_build T plan hs) (\<lambda>hs. Inr (map_option Spilled hs)))"
    unfolding hash_join_build_def Let_def s1(1) rbind_simps start_def [symmetric] b0(1) b1(1) ..
  show ?thesis
  proof (cases b1)
    case (In_memory s)
    then have s: "store_wf s" "\<not> bs_has_duplicates s" "store_rows s = ?rows" using b1(2) by (simp_all add: build_ok_def)
    have "bs_nrows s \<le> 2 ^ 30" using arg_cong [OF s(3), of length] size by (simp add: store_rows_def)
    from finish_build_table_ok [OF s(1) this s(2), of "jp_inner_keys plan"] obtain s' where
      "hash_join_finish_build_table (jp_inner_keys plan) s = Some s'" "table_ok (jp_inner_keys plan) s' (bs_nrows s')"
      "store_rows s' = store_rows s" by blast
    then show ?thesis using s(3) unfolding run In_memory by simp
  next
    case (Spilled hs)
    then have b: "building phase written plan ?rows hs" using b1(2) by (simp add: build_ok_def)
    show ?thesis
    proof (cases "?rows = []")
      case True
      then show ?thesis using b Spilled unfolding run by (auto simp: building_def finish_spilled_build_def spill_static_def)
    next
      case False
      then show ?thesis using finish_spilled_build_ok [OF assms(1) b size False] Spilled unfolding run by auto
    qed
  qed
qed

text \<open>
  C2. For build rows without NULL in any stored column (\<open>full_rows\<close>), building the hash
  table of a join never fails or hangs, whatever its memory limit: when the rows fit they
  are all in the finished table, in order; otherwise every build row is, exactly once,
  either in the finished table, if its partition is resident, or on the file of its
  partition, which can be read; no file is empty, the row counts are right, and the filter
  on build keys, when it is used, knows all of them.  The restriction is needed: after a
  compaction the code can read a NULL stored later as a value (\<open>stale_validity\<close>).
\<close>

theorem spilled_build_correct:
  assumes "tape_spec T phase written rest" "columns_fit plan" "memory_limit < 2 ^ 62"
    and "bs_ncolumns s0 = jp_ninner_columns plan"
    and "\<forall>batch \<in> set inner. probe_wf plan (jp_inner_keys plan) batch" "total_rows inner \<le> 2 ^ 30"
    and "full_rows (built_rows plan inner)"
  shows "\<exists>b. hash_join_build T plan memory_limit planned_partitions estimated_rows inner s0 = Inr (Some b) \<and>
    (case b of
       In_memory s \<Rightarrow> table_ok (jp_inner_keys plan) s (bs_nrows s) \<and> store_rows s = built_rows plan inner
     | Spilled hs \<Rightarrow> hs_build_rows hs = length (built_rows plan inner) \<and>
         (built_rows plan inner \<noteq> [] \<longrightarrow> built_spilled phase written rest plan (built_rows plan inner) hs))"
  using hash_join_build_ok [OF assms, of planned_partitions estimated_rows]
  by (elim ex_forward) (auto split: join_build.splits)

definition example_full_inner :: probe_batch where
  "example_full_inner = example_batch [[7, 8, 7, 7], [9, 9, 10, 1]] [False, False, False, False]"

text \<open>A table takes at least 16 KiB, so a smaller limit always spills.\<close>

lemma estimated_at_least: "16384 \<le> hash_join_estimated_build_memory nrows ncolumns"
proof -
  have "1024 * 16 \<le> capacity_for nrows 1024 * 8 + capacity_for nrows 1024 * 8"
    using capacity_for_bounds [of 1024 nrows] by simp
  then show ?thesis by (simp add: hash_join_estimated_build_memory_def Let_def distrib_left)
qed

lemma small_limit_spills:
  assumes "memory_limit < 16384"
  shows "build_batch T plan memory_limit planned batch b \<noteq> Inr (In_memory s)"
proof -
  have "memory_limit < hash_join_estimated_build_memory nrows ncolumns" for nrows ncolumns
    using assms estimated_at_least [of nrows ncolumns] by linarith
  then show ?thesis by (cases b) (auto simp: build_batch_def rbind_Inr_iff Let_def split: prod.splits)
qed

lemma example_full_ok:
  "\<forall>batch \<in> set [example_full_inner]. probe_wf example_join_plan (jp_inner_keys example_join_plan) batch"
  "total_rows [example_full_inner] \<le> 2 ^ 30" "full_rows (built_rows example_join_plan [example_full_inner])"
  "length (built_rows example_join_plan [example_full_inner]) = 4"
  "columns_fit example_join_plan" "bs_ncolumns example_store = jp_ninner_columns example_join_plan"
proof -
  have keys: "jp_inner_keys example_join_plan = [0]" by (simp add: example_join_plan_def)
  show "\<forall>batch \<in> set [example_full_inner]. probe_wf example_join_plan (jp_inner_keys example_join_plan) batch"
    unfolding keys using full_selection_wf [of 4]
    by (simp add: probe_wf_def example_full_inner_def example_batch_def vec_wf_def int4_vector_init_datum_def numeral_eq_Suc)
  have "total_rows [example_full_inner] = 4" by code_simp
  then show "total_rows [example_full_inner] \<le> 2 ^ 30" by simp
  show "full_rows (built_rows example_join_plan [example_full_inner])" unfolding full_rows_def by code_simp
  show "length (built_rows example_join_plan [example_full_inner]) = 4" by code_simp
  show "columns_fit example_join_plan" "bs_ncolumns example_store = jp_ninner_columns example_join_plan"
    by (simp_all add: columns_fit_def example_join_plan_def example_store_def)
qed

text \<open>The limit of 100 bytes is exceeded by the first batch.\<close>

lemma never_in_memory:
  assumes "limit < 16384" "planned = 1"
  shows "hash_join_build T plan limit planned estimated [batch] s0 \<noteq> Inr (Some (In_memory s))"
  using assms by (auto simp: hash_join_build_def rbind_Inr_iff Let_def small_limit_spills split: join_build.split_asm)

lemma example_spills:
  "\<exists>hs. hash_join_build memory_tape example_join_plan 100 1 4 [example_full_inner] example_store = Inr (Some (Spilled hs))"
proof -
  obtain b where "hash_join_build memory_tape example_join_plan 100 1 4 [example_full_inner] example_store = Inr (Some b)"
    using hash_join_build_ok [OF memory_tape_spec example_full_ok(5) _ example_full_ok(6,1-3), of 100 1 4] by auto
  then show ?thesis
    using never_in_memory [of 100 1 memory_tape example_join_plan 4 example_full_inner example_store]
    by (cases b) auto
qed

theorem spilled_build_correct_witness:
  "\<exists>hs. hash_join_build memory_tape example_join_plan 100 1 4 [example_full_inner] example_store = Inr (Some (Spilled hs)) \<and>
     hs_build_rows hs = 4"
  using spilled_build_correct [OF memory_tape_spec example_full_ok(5) _ example_full_ok(6,1-3), of 100 1 4]
    example_spills example_full_ok(4) by auto

section \<open>Validity bits of rows that moved away\<close>

text \<open>
  Two partitions of which only the second is resident; two rows of one column, the first of
  them in the other partition, so that compaction moves the second row to the front.
\<close>

definition example_spilling :: "(tape_phase \<times> byte list \<times> nat) hash_spill" where
  "example_spilling = \<lparr>hs_memory_limit = 100,
     hs_build = example_store\<lparr>bs_ncolumns := 1, bs_nrows := 2, bs_capacity := 4, bs_values := [[5, 6, 0, 0]],
       bs_validity := [[3]], bs_hashes := [0, 1, 0, 0], bs_nexts := [0, 0, 0, 0]\<rparr>,
     hs_npartitions = 2, hs_partition_shift = 1, hs_bloom = None, hs_bloom_nbits = 0, hs_bloom_usable = False,
     hs_resident = [1], hs_resident_rows = [1, 1], hs_resident_memory_limit = 0,
     hs_build_side = (case spill_side_create memory_tape 1 2 0 of Inr side \<Rightarrow> side), 
     hs_probe_side = (case spill_side_create memory_tape 1 2 0 of Inr side \<Rightarrow> side),
     hs_build_partition_rows = [0, 0], hs_build_chunk_rows = 64, hs_build_rows = 2,
     hs_resident_block = hash_join_init_spill_block 1 (PG_BATCH_SIZE * 2) True,
     hs_build_block = hash_join_init_spill_block 1 PG_BATCH_SIZE False,
     hs_probe_block = hash_join_init_spill_block 1 PG_BATCH_SIZE False,
     hs_build_block_row = 0, hs_build_eof = False, hs_build_more = False,
     hs_current = 0, hs_partition_active = False, hs_active = None, hs_active_hash_shift = 0, hs_repartition = None\<rparr>"

definition null_column :: int4_vector where
  "null_column = int4_vector_init_datum [0] [True]"

lemma stale_validity:
  "(case hash_join_spill_build_store memory_tape example_spilling of
      Inl _ \<Rightarrow> False
    | Inr hs \<Rightarrow> store_rows (hs_build hs) = [(1, [Some 6])] \<and>
       (case append_build_row_hash [null_column] 0 1 (hs_build hs) of
          Inl _ \<Rightarrow> False
        | Inr s \<Rightarrow> store_rows s = [(1, [Some 6]), (1, [Some 0])])) \<and>
   hash_join_input_value null_column 0 = (0, True)"
  by code_simp

end
