(* ===== verification/Join_Reading.thy ===== *)
theory Join_Reading
  imports Join_Build_Props
begin

text \<open>
  Reading the files of a spilled hash join: what each call of the readers returns depends
  only on the rows that the file still holds, and leaves the other files alone.
\<close>

section \<open>Where a file stands\<close>

text \<open>The files of a finished side, \<open>n\<close> columns and \<open>np\<close> partitions.\<close>

definition side_shape :: "nat \<Rightarrow> nat \<Rightarrow> bool \<Rightarrow> 't spill_side \<Rightarrow> bool" where
  "side_shape n np frozen side \<longleftrightarrow> ss_finished (sd_set side) \<and> ss_frozen (sd_set side) = frozen \<and>
     ss_ncolumns (sd_set side) = n \<and> n < 65536 \<and> ss_npartitions (sd_set side) = np \<and>
     length (ss_tapes (sd_set side)) = np \<and> length (sd_files side) = np"

text \<open>Before anything is read: an empty partition has no file.\<close>

definition untouched ::
  "('t \<Rightarrow> tape_phase) \<Rightarrow> ('t \<Rightarrow> byte list) \<Rightarrow> ('t \<Rightarrow> byte list) \<Rightarrow> 't spill_side \<Rightarrow> nat \<Rightarrow> row list \<Rightarrow> bool" where
  "untouched phase written rest side p rows \<longleftrightarrow>
     sd_files side ! p = (if rows = [] then None else Some None) \<and>
     finished_at phase written rest (ss_frozen (sd_set side)) (sd_set side) p rows"

text \<open>A reader from which \<open>rows\<close> remain to be read, and a file that does.\<close>

definition reads ::
  "('t \<Rightarrow> tape_phase) \<Rightarrow> ('t \<Rightarrow> byte list) \<Rightarrow> 't spill_set \<Rightarrow> nat \<Rightarrow> spill_reader \<Rightarrow> row list \<Rightarrow> bool" where
  "reads phase rest s p r rows \<longleftrightarrow> reader_ok (ss_ncolumns s) r \<and> rd_partition r = p \<and>
     (if rd_eof r then rows = [] else phase (ss_tapes s ! p) \<noteq> Writing \<and> on_tape (ss_ncolumns s) (rest (ss_tapes s ! p)) rows)"

definition unread ::
  "('t \<Rightarrow> tape_phase) \<Rightarrow> ('t \<Rightarrow> byte list) \<Rightarrow> ('t \<Rightarrow> byte list) \<Rightarrow> 't spill_side \<Rightarrow> nat \<Rightarrow> row list \<Rightarrow> bool" where
  "unread phase written rest side p rows \<longleftrightarrow>
     (case sd_files side ! p of
        None \<Rightarrow> False
      | Some None \<Rightarrow> finished_at phase written rest (ss_frozen (sd_set side)) (sd_set side) p rows
      | Some (Some r) \<Rightarrow> reads phase rest (sd_set side) p r rows)"

text \<open>Only the file of one partition changed.\<close>

definition side_moved :: "nat \<Rightarrow> 't spill_side \<Rightarrow> 't spill_side \<Rightarrow> bool" where
  "side_moved p side side' \<longleftrightarrow> other_tapes p (sd_set side) (sd_set side') \<and>
     length (sd_files side') = length (sd_files side) \<and> (\<forall>q. q \<noteq> p \<longrightarrow> sd_files side' ! q = sd_files side ! q)"

lemma side_moved_refl [simp]: "side_moved p side side"
  by (simp add: side_moved_def)

lemma side_moved_trans: "side_moved p a b \<Longrightarrow> side_moved p b c \<Longrightarrow> side_moved p a c"
  using other_tapes_trans [of p "sd_set a" "sd_set b" "sd_set c"] by (simp add: side_moved_def)

lemma side_moved_shape: "side_moved p side side' \<Longrightarrow> side_shape n np frozen side' = side_shape n np frozen side"
  by (auto simp: side_moved_def side_shape_def other_tapes_def same_config_def)

lemma side_moved_untouched:
  assumes "side_moved p side side'" "q \<noteq> p"
  shows "untouched phase written rest side' q rows = untouched phase written rest side q rows"
proof -
  have "finished_at phase written rest f (sd_set side') q rows = finished_at phase written rest f (sd_set side) q rows" for f
    by (rule finished_at_cong) (use assms in \<open>simp_all add: side_moved_def other_tapes_def\<close>)
  then show ?thesis using assms by (simp add: side_moved_def untouched_def other_tapes_def same_config_def)
qed

lemma side_moved_update:
  "other_tapes p (sd_set side) s \<Longrightarrow> side_moved p side (side\<lparr>sd_set := s, sd_files := (sd_files side)[p := f]\<rparr>)"
  by (simp add: side_moved_def)

lemma untouched_unread: "untouched phase written rest side p rows \<Longrightarrow> rows \<noteq> [] \<Longrightarrow> unread phase written rest side p rows"
  by (simp add: untouched_def unread_def)

section \<open>Readers\<close>

lemma open_at:
  assumes T: "tape_spec T phase written rest" and s: "ss_finished s" "p < ss_npartitions s" "length (ss_tapes s) = ss_npartitions s"
    and at: "finished_at phase written rest (ss_frozen s) s p rows"
  shows "\<exists>r s'. spill_reader_open T (int p) s = Inr (r, s') \<and> reads phase rest s' p r rows \<and> other_tapes p s s' \<and>
    (ss_frozen s \<longrightarrow> stored_at phase written s p all \<longrightarrow> stored_at phase written s' p all)"
proof -
  let ?r = "\<lparr>rd_partition = p, rd_eof = (ss_partition_rows s ! p = 0), rd_hashes = replicate 64 0,
    rd_values = replicate (ss_ncolumns s * 64) 0, rd_validity = replicate (8 * ss_ncolumns s) 0\<rparr>"
  let ?s = "if ss_frozen s \<and> ss_partition_rows s ! p \<noteq> 0
      then s\<lparr>ss_tapes := (ss_tapes s)[p := tape_rewind T (ss_tapes s ! p)]\<rparr> else s"
  have "spill_reader_open T (int p) s = Inr (?r, ?s)"
    using s by (simp add: spill_reader_open_def spill_partition_empty_def validate_partition_def Let_def)
  moreover have "reader_ok (ss_ncolumns ?s) ?r" by (simp add: reader_ok_def)
  moreover have "other_tapes p s ?s" by (simp add: other_tapes_def same_config_def)
  moreover have "reads phase rest ?s p ?r rows \<and> (ss_frozen s \<longrightarrow> stored_at phase written s p all \<longrightarrow> stored_at phase written ?s p all)"
    using at s tape_spec_rewind [OF T, of "ss_tapes s ! p"]
    by (auto simp: reads_def finished_at_def stored_at_def reader_ok_def split: if_splits)
  ultimately show ?thesis by blast
qed

lemma next_at:
  assumes T: "tape_spec T phase written rest" and r: "reads phase rest s p r rows"
    and s: "p < length (ss_tapes s)" "ss_ncolumns s < 65536"
  shows "\<exists>b r' s'. spill_reader_next T r s = Inr (b, r', s') \<and> other_tapes p s s' \<and>
    (stored_at phase written s p all \<longrightarrow> stored_at phase written s' p all) \<and>
    (case b of
       None \<Rightarrow> rows = [] \<and> reads phase rest s' p r' []
     | Some b \<Rightarrow> block_wf (ss_ncolumns s) b \<and> (\<exists>later. rows = block_rows b @ later \<and> reads phase rest s' p r' later))"
proof (cases "rd_eof r")
  case True
  then have "spill_reader_next T r s = Inr (None, r, s)" by (simp add: spill_reader_next_def)
  then show ?thesis using r True by (auto simp: reads_def)
next
  case False
  let ?n = "ss_ncolumns s"
  have t: "reader_ok ?n r" "rd_partition r = p" "phase (ss_tapes s ! p) \<noteq> Writing" "on_tape ?n (rest (ss_tapes s ! p)) rows"
    using r False by (auto simp: reads_def)
  obtain ws where ws: "\<forall>w \<in> set ws. writer_wf ?n w \<and> sw_nrows w \<noteq> 0" "rest (ss_tapes s ! p) = concat (map (flush_bytes ?n) ws)"
    "rows = concat (map (writer_rows ?n) ws)"
    using t(4) by (auto simp: on_tape_def)
  have keep: "stored_at phase written s p all \<longrightarrow> stored_at phase written s' p all"
    if "other_tapes p s s'" "phase (ss_tapes s' ! p) = phase (ss_tapes s ! p)"
      "phase (ss_tapes s ! p) = Frozen \<longrightarrow> written (ss_tapes s' ! p) = written (ss_tapes s ! p)" for s'
    using that by (auto simp: stored_at_def other_tapes_def same_config_def)
  show ?thesis
  proof (cases ws)
    case Nil
    obtain s' where s': "spill_reader_next T r s = Inr (None, r\<lparr>rd_eof := True\<rparr>, s')" "other_tapes p s s'"
      "phase (ss_tapes s' ! p) = phase (ss_tapes s ! p)"
      "phase (ss_tapes s ! p) = Frozen \<longrightarrow> written (ss_tapes s' ! p) = written (ss_tapes s ! p)"
      using reader_next_end [OF T t(2) s(1) False t(3)] ws(2) Nil by auto
    have "reads phase rest s' p (r\<lparr>rd_eof := True\<rparr>) []"
      using t(1,2) s'(2) by (simp add: reads_def reader_ok_def other_tapes_def same_config_def)
    then show ?thesis using s' keep [OF s'(2-4)] ws(3) Nil by (intro exI conjI) auto
  next
    case (Cons w ws')
    then have w: "writer_wf ?n w" "sw_nrows w \<noteq> 0" "rest (ss_tapes s ! p) = flush_bytes ?n w @ concat (map (flush_bytes ?n) ws')"
      using ws by auto
    obtain b r' s' where b: "spill_reader_next T r s = Inr (Some b, r', s')" "block_rows b = writer_rows ?n w"
      "reader_ok ?n r'" "\<not> rd_eof r'" "rd_partition r' = p" "other_tapes p s s'"
      "rest (ss_tapes s' ! p) = concat (map (flush_bytes ?n) ws')" "phase (ss_tapes s' ! p) = phase (ss_tapes s ! p)"
      "phase (ss_tapes s ! p) = Frozen \<longrightarrow> written (ss_tapes s' ! p) = written (ss_tapes s ! p)"
      using reader_next_block [OF T w(1,2) t(1) False t(2) s(1) refl s(2) t(3) w(3)] by blast
    have "on_tape ?n (concat (map (flush_bytes ?n) ws')) (concat (map (writer_rows ?n) ws'))"
      using ws(1) Cons by (auto simp: on_tape_def)
    then have "reads phase rest s' p r' (concat (map (writer_rows ?n) ws'))"
      using b t(3) by (simp add: reads_def other_tapes_def same_config_def)
    moreover have "block_wf ?n b" using reader_next_fields [OF b(1) b(3)] .
    moreover have "rows = block_rows b @ concat (map (writer_rows ?n) ws')" using ws(3) Cons b(2) by simp
    ultimately show ?thesis using b(1,6) keep [OF b(6,8,9)] by (intro exI conjI) auto
  qed
qed

section \<open>Blocks of the join\<close>

definition join_block_rows :: "join_block \<Rightarrow> row list" where
  "join_block_rows block = map (\<lambda>row. (jb_hashes block ! row,
       map (\<lambda>column. if hash_join_spill_value_valid block column row then Some (hash_join_spill_value block column row) else None)
         [0..<jb_ncolumns block])) [0..<jb_nrows block]"

definition join_block_wf :: "nat \<Rightarrow> join_block \<Rightarrow> bool" where
  "join_block_wf n block \<longleftrightarrow> jb_ncolumns block = n \<and> jb_capacity block = 64 \<and> jb_nrows block \<le> 64"

lemma length_join_block_rows [simp]: "length (join_block_rows block) = jb_nrows block"
  by (simp add: join_block_rows_def)

lemma use_block_ok:
  assumes "block_wf n b" "join_block_wf n block"
  shows "\<exists>block'. hash_join_use_spill_block b block = Inr block' \<and> join_block_wf n block' \<and>
    join_block_rows block' = block_rows b \<and> 0 < jb_nrows block'"
  using assms
  by (auto simp: hash_join_use_spill_block_def join_block_wf_def block_wf_def join_block_rows_def block_rows_def buf_row_def
      cell_valid_def cell_value_def hash_join_spill_value_valid_def hash_join_spill_value_def)

text \<open>One step of reading a file.\<close>

lemma read_block_ok:
  assumes T: "tape_spec T phase written rest" and shape: "side_shape n np frozen side" and p: "p < np"
    and u: "unread phase written rest side p rows" and block: "join_block_wf n block"
  shows "\<exists>more block' side'. read_spill_block T p block side = Inr (more, block', side') \<and> side_moved p side side' \<and>
    (frozen \<longrightarrow> stored_at phase written (sd_set side) p all \<longrightarrow> stored_at phase written (sd_set side') p all) \<and>
    join_block_wf n block' \<and> sd_files side' ! p \<noteq> Some None \<and>
    (if more then \<exists>later. rows = join_block_rows block' @ later \<and> 0 < jb_nrows block' \<and> unread phase written rest side' p later
     else rows = [] \<and> block' = block \<and> unread phase written rest side' p [])"
proof -
  let ?s = "sd_set side"
  have s: "ss_finished ?s" "p < ss_npartitions ?s" "length (ss_tapes ?s) = ss_npartitions ?s" "ss_ncolumns ?s = n" "n < 65536"
    "ss_frozen ?s = frozen" "p < length (sd_files side)"
    using shape p by (simp_all add: side_shape_def)
  have "\<exists>r s1. (case the (sd_files side ! p) of None \<Rightarrow> spill_reader_open T (int p) ?s | Some r \<Rightarrow> Inr (r, ?s)) = Inr (r, s1) \<and>
      reads phase rest s1 p r rows \<and> other_tapes p ?s s1 \<and>
      (frozen \<longrightarrow> stored_at phase written ?s p all \<longrightarrow> stored_at phase written s1 p all)"
  proof (cases "the (sd_files side ! p)")
    case None
    then have "finished_at phase written rest (ss_frozen ?s) ?s p rows" using u by (auto simp: unread_def split: option.splits)
    from open_at [OF T s(1-3) this, of all] show ?thesis using None s(6) by simp
  next
    case (Some r)
    then have "reads phase rest ?s p r rows" using u by (auto simp: unread_def split: option.splits)
    then show ?thesis using Some by auto
  qed
  then obtain r s1 where o: "(case the (sd_files side ! p) of None \<Rightarrow> spill_reader_open T (int p) ?s | Some r \<Rightarrow> Inr (r, ?s)) = Inr (r, s1)"
    "reads phase rest s1 p r rows" "other_tapes p ?s s1"
    "frozen \<longrightarrow> stored_at phase written ?s p all \<longrightarrow> stored_at phase written s1 p all" by (elim exE conjE)
  have s1: "p < length (ss_tapes s1)" "ss_ncolumns s1 < 65536" "ss_ncolumns s1 = n"
    using o(3) s by (auto simp: other_tapes_def same_config_def)
  obtain b r' s2 where b: "spill_reader_next T r s1 = Inr (b, r', s2)" "other_tapes p s1 s2"
    "stored_at phase written s1 p all \<longrightarrow> stored_at phase written s2 p all"
    "case b of None \<Rightarrow> rows = [] \<and> reads phase rest s2 p r' []
     | Some b \<Rightarrow> block_wf n b \<and> (\<exists>later. rows = block_rows b @ later \<and> reads phase rest s2 p r' later)"
    using next_at [OF T o(2) s1(1,2), of all] unfolding s1(3) by (elim exE conjE)
  let ?side = "side\<lparr>sd_set := s2, sd_files := (sd_files side)[p := Some (Some r')]\<rparr>"
  have moved: "side_moved p side ?side" by (rule side_moved_update [OF other_tapes_trans [OF o(3) b(2)]])
  have open_file: "sd_files ?side ! p \<noteq> Some None" using s(7) by simp
  have un: "unread phase written rest ?side p later = reads phase rest s2 p r' later" for later
    using s(7) by (simp add: unread_def)
  show ?thesis
  proof (cases b)
    case None
    then show ?thesis
      using o(1,4) b moved open_file block by (intro exI [of _ False] exI [of _ block] exI [of _ ?side]) (simp add: read_spill_block_def un Let_def)
  next
    case (Some blk)
    obtain block' where "hash_join_use_spill_block blk block = Inr block'" "join_block_wf n block'"
      "join_block_rows block' = block_rows blk" "0 < jb_nrows block'"
      using use_block_ok [of n blk block] b(4) block Some by auto
    then show ?thesis
      using o(1,4) b moved open_file Some by (intro exI [of _ True] exI [of _ block'] exI [of _ ?side]) (auto simp: read_spill_block_def un Let_def)
  qed
qed

text \<open>Rewinding a frozen file makes all its rows readable again.\<close>

lemma rewind_ok:
  assumes T: "tape_spec T phase written rest" and shape: "side_shape n np True side" and p: "p < np"
    and u: "unread phase written rest side p rows" and all: "stored_at phase written (sd_set side) p all"
    and fresh: "sd_files side ! p = Some None \<Longrightarrow> rows = all"
  shows "\<exists>side'. rewind_spill_file T p side = Inr side' \<and> side_moved p side side' \<and> unread phase written rest side' p all \<and>
    stored_at phase written (sd_set side') p all"
proof (cases "the (sd_files side ! p)")
  case None
  then have "sd_files side ! p = Some None" using u by (auto simp: unread_def split: option.splits)
  then show ?thesis using u all fresh by (simp add: rewind_spill_file_def)
next
  case (Some r)
  let ?s = "sd_set side"
  have r: "reads phase rest ?s p r rows" using u Some by (auto simp: unread_def split: option.splits)
  have s: "p < ss_npartitions ?s" "length (ss_tapes ?s) = ss_npartitions ?s" "ss_frozen ?s" "p < length (sd_files side)"
    using shape p by (simp_all add: side_shape_def)
  let ?t = "if all = [] then ?s else ?s\<lparr>ss_tapes := (ss_tapes ?s)[p := tape_rewind T (ss_tapes ?s ! p)]\<rparr>"
  have run: "rewind_spill_file T p side = Inr (side\<lparr>sd_set := ?t, sd_files := (sd_files side)[p := Some (Some (r\<lparr>rd_eof := (all = [])\<rparr>))]\<rparr>)"
    using Some s all r
    by (simp add: rewind_spill_file_def spill_reader_rewind_def spill_partition_empty_def validate_partition_def stored_at_def reads_def Let_def)
  have "other_tapes p ?s ?t" by (simp add: other_tapes_def same_config_def)
  then have "side_moved p side (side\<lparr>sd_set := ?t, sd_files := (sd_files side)[p := Some (Some (r\<lparr>rd_eof := (all = [])\<rparr>))]\<rparr>)"
    by (rule side_moved_update)
  moreover have "reads phase rest ?t p (r\<lparr>rd_eof := (all = [])\<rparr>) all" "stored_at phase written ?t p all"
    using r all s tape_spec_rewind [OF T, of "ss_tapes ?s ! p"] by (auto simp: reads_def stored_at_def reader_ok_def)
  ultimately show ?thesis using run s(4) by (intro exI conjI) (auto simp: unread_def)
qed

end
