(* ===== verification/Join_Chunks.thy ===== *)
theory Join_Chunks
  imports Join_Reading
begin

text \<open>
  Loading the build rows of a partition in chunks: every call of \<open>load_build_chunk\<close> moves the
  next rows of the file into a finished table, until none are left.
\<close>

section \<open>Rows of a block\<close>

lemma wf_append_cells:
  assumes wf: "store_wf s" and n: "bs_nrows s < 2 ^ 30"
  shows "\<exists>s'. rbind (if bs_nrows s = bs_capacity s then hash_join_grow_build_store s else Inr s)
      (\<lambda>s. Inr (store_row_cells h cell s)) = Inr s' \<and> store_wf s' \<and> same_table s s' \<and>
    bs_nrows s' = bs_nrows s + 1 \<and> store_rows s' = store_rows s @ [(h, cell_options (bs_ncolumns s) cell)]"
proof -
  have "\<exists>s1. (if bs_nrows s = bs_capacity s then hash_join_grow_build_store s else Inr s) = Inr s1"
    using n by (auto simp: hash_join_grow_build_store_def resize_build_store_def Let_def)
  then obtain s1 where s1: "(if bs_nrows s = bs_capacity s then hash_join_grow_build_store s else Inr s) = Inr s1" by blast
  have g: "store_wf s1 \<and> store_rows s1 = store_rows s \<and> same_table s s1 \<and> bs_nrows s1 = bs_nrows s \<and> bs_nrows s1 < bs_capacity s1"
    using s1 grow_ok [OF wf, of s1] wf by (cases "bs_nrows s = bs_capacity s") (auto simp: store_wf_def)
  have "bs_ncolumns s1 = bs_ncolumns s" using g by (simp add: same_table_def)
  then show ?thesis
    using store_row_cells_ok [of s1 h cell] g same_table_trans [of s s1] unfolding s1 by auto
qed

lemma append_spill_rows_ok:
  "store_wf s \<Longrightarrow> bs_ncolumns s = jb_ncolumns block \<Longrightarrow> row + k \<le> jb_nrows block \<Longrightarrow> bs_nrows s + k \<le> 2 ^ 30 \<Longrightarrow>
   \<exists>s'. rfold (append_spill_build_row block) [row..<row + k] s = Inr s' \<and> store_wf s' \<and> same_table s s' \<and>
     store_rows s' = store_rows s @ take k (drop row (join_block_rows block))"
proof (induction k arbitrary: row s)
  case (Suc k)
  let ?cell = "\<lambda>column. (hash_join_spill_value block column row, \<not> hash_join_spill_value_valid block column row)"
  have row: "row < jb_nrows block" and n: "bs_nrows s < 2 ^ 30" using Suc.prems(3,4) by simp_all
  have cells: "(jb_hashes block ! row, cell_options (bs_ncolumns s) ?cell) = join_block_rows block ! row"
    using row Suc.prems(2) by (auto simp: join_block_rows_def cell_options_def)
  obtain s1 where s1: "append_spill_build_row block row s = Inr s1" "store_wf s1" "same_table s s1" "bs_nrows s1 = bs_nrows s + 1"
    "store_rows s1 = store_rows s @ [join_block_rows block ! row]"
    using wf_append_cells [OF Suc.prems(1) n, of "jb_hashes block ! row" ?cell]
    unfolding cells append_spill_build_row_def by blast
  have "bs_ncolumns s1 = jb_ncolumns block" "Suc row + k \<le> jb_nrows block" "bs_nrows s1 + k \<le> 2 ^ 30"
    using s1(3,4) Suc.prems(2,3,4) by (simp_all add: same_table_def)
  from Suc.IH [OF s1(2) this] obtain s' where s': "rfold (append_spill_build_row block) [Suc row..<Suc row + k] s1 = Inr s'"
    "store_wf s'" "same_table s1 s'" "store_rows s' = store_rows s1 @ take k (drop (Suc row) (join_block_rows block))"
    by blast
  have "take (Suc k) (drop row (join_block_rows block)) = join_block_rows block ! row # take k (drop (Suc row) (join_block_rows block))"
    using row by (simp add: Cons_nth_drop_Suc [symmetric])
  moreover have "[row..<row + Suc k] = row # [Suc row..<Suc row + k]" by (simp add: upt_rec)
  ultimately show ?case using s' s1 same_table_trans [OF s1(3) s'(3)] by simp
qed simp

section \<open>The loop\<close>

lemma load_rows_unfold:
  "bs_nrows store < chunk_rows \<Longrightarrow>
   (if row \<ge> jb_nrows block then read_spill_block T p block side else Inr (True, block, side)) = Inr (True, block1, side1) \<Longrightarrow>
   append_chunk_rows chunk_rows block1 (if row \<ge> jb_nrows block then 0 else row) store = Inr (row1, store1) \<Longrightarrow>
   load_rows T p chunk_rows side block row store = load_rows T p chunk_rows side1 block1 row1 store1"
  by (subst load_rows.simps) simp

lemma load_rows_ok:
  assumes T: "tape_spec T phase written rest" and p: "p < np"
  shows "side_shape n np frozen side \<Longrightarrow> unread phase written rest side p rows \<Longrightarrow> join_block_wf n block \<Longrightarrow>
    store_wf s \<Longrightarrow> bs_ncolumns s = n \<Longrightarrow> ahead = drop row (join_block_rows block) @ rows \<Longrightarrow>
    bs_nrows s + length ahead \<le> 2 ^ 30 \<Longrightarrow>
    \<exists>eof side' block' row' rows' s'. load_rows T p chunk side block row s = Some (Inr (eof, side', block', row', s')) \<and>
      side_moved p side side' \<and> unread phase written rest side' p rows' \<and> join_block_wf n block' \<and> store_wf s' \<and> same_table s s' \<and>
      store_rows s' = store_rows s @ take (chunk - bs_nrows s) ahead \<and>
      drop row' (join_block_rows block') @ rows' = drop (chunk - bs_nrows s) ahead \<and> (eof \<longrightarrow> rows' = []) \<and>
      length rows' \<le> length rows"
proof (induction "length ahead" arbitrary: side rows block row s ahead rule: less_induct)
  case less
  note prems = less.prems
  show ?case
  proof (cases "bs_nrows s < chunk")
    case False
    then have "load_rows T p chunk side block row s = Some (Inr (False, side, block, row, s))"
      by (subst load_rows.simps) simp
    then show ?thesis using prems(1-6) False
      by (intro exI [of _ False] exI [of _ side] exI [of _ block] exI [of _ row] exI [of _ rows] exI [of _ s]) simp
  next
    case True
    let ?read = "if row \<ge> jb_nrows block then read_spill_block T p block side else Inr (True, block, side)"
    obtain more block1 side1 where read: "?read = Inr (more, block1, side1)" "side_moved p side side1" "join_block_wf n block1"
      "if more then \<exists>later. ahead = drop (if row \<ge> jb_nrows block then 0 else row) (join_block_rows block1) @ later \<and>
          (if row \<ge> jb_nrows block then 0 else row) < jb_nrows block1 \<and> length later \<le> length rows \<and>
          unread phase written rest side1 p later
       else ahead = [] \<and> rows = [] \<and> block1 = block \<and> row \<ge> jb_nrows block \<and> unread phase written rest side1 p []"
    proof (cases "row \<ge> jb_nrows block")
      case True
      then have "ahead = rows" using prems(6) by simp
      obtain more' block' side' where r: "read_spill_block T p block side = Inr (more', block', side')" "side_moved p side side'"
        "join_block_wf n block'"
        "if more' then \<exists>later. rows = join_block_rows block' @ later \<and> 0 < jb_nrows block' \<and> unread phase written rest side' p later
         else rows = [] \<and> block' = block \<and> unread phase written rest side' p []"
        using read_block_ok [OF T prems(1) p prems(2,3), of "[]"] by (elim exE conjE)
      show ?thesis
        by (rule that [of more' block' side']) (use r True \<open>ahead = rows\<close> in \<open>auto split: if_splits\<close>)
    next
      case False
      then show ?thesis using prems that [of True block side] by auto
    qed
    show ?thesis
    proof (cases more)
      case False
      then have "load_rows T p chunk side block row s = Some (Inr (True, side1, block, row, s))"
        using read(1,4) True by (subst load_rows.simps) auto
      then show ?thesis
        using read prems(3,4,6) False by (intro exI [of _ True] exI [of _ side1] exI [of _ block] exI [of _ row] exI [of _ "[]"] exI [of _ s]) auto
    next
      case more: True
      define r1 where "r1 = (if row \<ge> jb_nrows block then 0 else row)"
      obtain later where l: "ahead = drop r1 (join_block_rows block1) @ later" "r1 < jb_nrows block1"
        "unread phase written rest side1 p later" "length later \<le> length rows"
        using read(4) more unfolding r1_def by auto
      define k where "k = min (jb_nrows block1 - r1) (chunk - bs_nrows s)"
      have k: "0 < k" "r1 + k \<le> jb_nrows block1" "k \<le> length ahead" "bs_nrows s + k \<le> 2 ^ 30" "k \<le> chunk - bs_nrows s"
        using True l(1,2) prems(7) by (auto simp: k_def)
      have nc: "bs_ncolumns s = jb_ncolumns block1" using prems(5) read(3) by (simp add: join_block_wf_def)
      obtain s1 where s1: "rfold (append_spill_build_row block1) [r1..<r1 + k] s = Inr s1" "store_wf s1" "same_table s s1"
        "store_rows s1 = store_rows s @ take k (drop r1 (join_block_rows block1))"
        using append_spill_rows_ok [OF prems(4) nc k(2,4)] by blast
      have "append_chunk_rows chunk block1 r1 s = Inr (r1 + k, s1)"
        using s1(1) by (simp add: append_chunk_rows_def k_def [symmetric] Let_def)
      then have step: "load_rows T p chunk side block row s = load_rows T p chunk side1 block1 (r1 + k) s1"
        using load_rows_unfold [OF True read(1) [unfolded eqTrueI [OF more]]] unfolding r1_def by blast
      have pend: "drop (r1 + k) (join_block_rows block1) @ later = drop k ahead" "take k ahead = take k (drop r1 (join_block_rows block1))"
        using l(1) k(2) by (simp_all add: add.commute)
      have n1: "bs_nrows s1 = bs_nrows s + k" using arg_cong [OF s1(4), of length] k(2) by simp
      have shape1: "side_shape n np frozen side1" using prems(1) side_moved_shape [OF read(2)] by simp
      have "length (drop k ahead) < length ahead" "bs_ncolumns s1 = n" "bs_nrows s1 + length (drop k ahead) \<le> 2 ^ 30"
        using k n1 s1(3) prems(5,7) by (auto simp: same_table_def)
      from less.hyps [OF this(1) shape1 l(3) read(3) s1(2) this(2) pend(1) [symmetric] this(3)]
      obtain eof side' block' row' rows' s' where IH: "load_rows T p chunk side1 block1 (r1 + k) s1 = Some (Inr (eof, side', block', row', s'))"
        "side_moved p side1 side'" "unread phase written rest side' p rows'" "join_block_wf n block'" "store_wf s'" "same_table s1 s'"
        "store_rows s' = store_rows s1 @ take (chunk - bs_nrows s1) (drop k ahead)"
        "drop row' (join_block_rows block') @ rows' = drop (chunk - bs_nrows s1) (drop k ahead)" "eof \<longrightarrow> rows' = []"
        "length rows' \<le> length later"
        by (elim exE conjE)
      have left: "chunk - bs_nrows s1 + k = chunk - bs_nrows s" using n1 k(5) by simp
      have "store_rows s' = store_rows s @ take (chunk - bs_nrows s) ahead"
        using IH(7) s1(4) unfolding pend(2) [symmetric] left [symmetric] by (simp add: take_add add.commute)
      moreover have "drop row' (join_block_rows block') @ rows' = drop (chunk - bs_nrows s) ahead"
        using IH(8) unfolding left [symmetric] by simp
      ultimately show ?thesis
        unfolding step using IH le_trans [OF IH(10) l(4)] side_moved_trans [OF read(2) IH(2)] same_table_trans [OF s1(3) IH(6)] by blast
    qed
  qed
qed

end
