(* ===== verification/Join_Rounds.thy ===== *)
theory Join_Rounds
  imports Join_Chunks
begin

text \<open>
  One partition of a spilled hash join: every chunk of its build rows meets all of its probe
  rows, block by block.
\<close>

section \<open>Sides of the active partition\<close>

lemma side_of_put [simp]:
  "build_side_of again (put_build_side again side hs) = side"
  "probe_side_of again (put_probe_side again side hs) = side"
  "probe_side_of again (put_build_side again' side hs) = probe_side_of again hs"
  "build_side_of again (put_probe_side again' side hs) = build_side_of again hs"
  "build_side_of (\<not> again) (put_build_side again side hs) = build_side_of (\<not> again) hs"
  "probe_side_of (\<not> again) (put_probe_side again side hs) = probe_side_of (\<not> again) hs"
  by (auto simp: build_side_of_def probe_side_of_def put_build_side_def put_probe_side_def)

lemma side_of_update [simp]:
  "build_side_of again (hs\<lparr>hs_build := a\<rparr>) = build_side_of again hs" "probe_side_of again (hs\<lparr>hs_build := a\<rparr>) = probe_side_of again hs"
  "build_side_of again (hs\<lparr>hs_build_block := b\<rparr>) = build_side_of again hs" "probe_side_of again (hs\<lparr>hs_build_block := b\<rparr>) = probe_side_of again hs"
  "build_side_of again (hs\<lparr>hs_probe_block := b\<rparr>) = build_side_of again hs" "probe_side_of again (hs\<lparr>hs_probe_block := b\<rparr>) = probe_side_of again hs"
  "build_side_of again (hs\<lparr>hs_build_block_row := c\<rparr>) = build_side_of again hs" "probe_side_of again (hs\<lparr>hs_build_block_row := c\<rparr>) = probe_side_of again hs"
  "build_side_of again (hs\<lparr>hs_build_eof := d\<rparr>) = build_side_of again hs" "probe_side_of again (hs\<lparr>hs_build_eof := d\<rparr>) = probe_side_of again hs"
  "build_side_of again (hs\<lparr>hs_build_more := d\<rparr>) = build_side_of again hs" "probe_side_of again (hs\<lparr>hs_build_more := d\<rparr>) = probe_side_of again hs"
  "build_side_of again (hs\<lparr>hs_partition_active := d\<rparr>) = build_side_of again hs" "probe_side_of again (hs\<lparr>hs_partition_active := d\<rparr>) = probe_side_of again hs"
  "build_side_of again (hs\<lparr>hs_active := e\<rparr>) = build_side_of again hs" "probe_side_of again (hs\<lparr>hs_active := e\<rparr>) = probe_side_of again hs"
  "build_side_of again (hs\<lparr>hs_active_hash_shift := c\<rparr>) = build_side_of again hs" "probe_side_of again (hs\<lparr>hs_active_hash_shift := c\<rparr>) = probe_side_of again hs"
  "build_side_of again (hs\<lparr>hs_current := f\<rparr>) = build_side_of again hs" "probe_side_of again (hs\<lparr>hs_current := f\<rparr>) = probe_side_of again hs"
  by (simp_all add: build_side_of_def probe_side_of_def)

lemma put_side_fields [simp]:
  "hs_build (put_build_side again side hs) = hs_build hs" "hs_build (put_probe_side again side hs) = hs_build hs"
  "hs_build_block (put_build_side again side hs) = hs_build_block hs" "hs_build_block (put_probe_side again side hs) = hs_build_block hs"
  "hs_probe_block (put_build_side again side hs) = hs_probe_block hs" "hs_probe_block (put_probe_side again side hs) = hs_probe_block hs"
  "hs_build_block_row (put_build_side again side hs) = hs_build_block_row hs" "hs_build_block_row (put_probe_side again side hs) = hs_build_block_row hs"
  "hs_build_eof (put_build_side again side hs) = hs_build_eof hs" "hs_build_eof (put_probe_side again side hs) = hs_build_eof hs"
  "hs_build_more (put_build_side again side hs) = hs_build_more hs" "hs_build_more (put_probe_side again side hs) = hs_build_more hs"
  "hs_build_chunk_rows (put_build_side again side hs) = hs_build_chunk_rows hs" "hs_build_chunk_rows (put_probe_side again side hs) = hs_build_chunk_rows hs"
  "hs_active (put_build_side again side hs) = hs_active hs" "hs_active (put_probe_side again side hs) = hs_active hs"
  "hs_partition_active (put_build_side again side hs) = hs_partition_active hs" "hs_partition_active (put_probe_side again side hs) = hs_partition_active hs"
  by (simp_all add: put_build_side_def put_probe_side_def)

text \<open>What the work on a partition leaves alone.\<close>

definition hs_base :: "'t hash_spill \<Rightarrow> _" where
  "hs_base hs = (hs_memory_limit hs, hs_npartitions hs, hs_partition_shift hs, hs_build_partition_rows hs,
     hs_build_chunk_rows hs, hs_current hs)"

definition hs_static :: "'t hash_spill \<Rightarrow> _" where
  "hs_static hs = (hs_base hs, map_option (\<lambda>re. (re_npartitions re, re_current re, re_hash_shift re)) (hs_repartition hs))"

lemma hs_static_update [simp]:
  "hs_static (hs\<lparr>hs_build := a\<rparr>) = hs_static hs" "hs_static (hs\<lparr>hs_build_block := b\<rparr>) = hs_static hs"
  "hs_static (hs\<lparr>hs_probe_block := b\<rparr>) = hs_static hs" "hs_static (hs\<lparr>hs_build_block_row := c\<rparr>) = hs_static hs"
  "hs_static (hs\<lparr>hs_build_eof := d\<rparr>) = hs_static hs" "hs_static (hs\<lparr>hs_build_more := d\<rparr>) = hs_static hs"
  "hs_static (hs\<lparr>hs_partition_active := d\<rparr>) = hs_static hs" "hs_static (hs\<lparr>hs_active := e\<rparr>) = hs_static hs"
  "hs_static (hs\<lparr>hs_active_hash_shift := c\<rparr>) = hs_static hs"
  by (simp_all add: hs_static_def hs_base_def)

lemma hs_static_put [simp]:
  "again \<longrightarrow> hs_repartition hs \<noteq> None \<Longrightarrow> hs_static (put_build_side again side hs) = hs_static hs"
  "again \<longrightarrow> hs_repartition hs \<noteq> None \<Longrightarrow> hs_static (put_probe_side again side hs) = hs_static hs"
  by (auto simp: hs_static_def hs_base_def put_build_side_def put_probe_side_def)

definition partition_moved :: "bool \<Rightarrow> nat \<Rightarrow> 't hash_spill \<Rightarrow> 't hash_spill \<Rightarrow> bool" where
  "partition_moved again p hs hs' \<longleftrightarrow> hs_static hs' = hs_static hs \<and>
     side_moved p (build_side_of again hs) (build_side_of again hs') \<and>
     side_moved p (probe_side_of again hs) (probe_side_of again hs') \<and>
     build_side_of (\<not> again) hs' = build_side_of (\<not> again) hs \<and> probe_side_of (\<not> again) hs' = probe_side_of (\<not> again) hs"

lemma partition_moved_refl [simp]: "partition_moved again p hs hs"
  by (simp add: partition_moved_def)

lemma partition_moved_trans:
  assumes "partition_moved again p a b" "partition_moved again p b c"
  shows "partition_moved again p a c"
  using assms side_moved_trans [of p "build_side_of again a" "build_side_of again b" "build_side_of again c"]
    side_moved_trans [of p "probe_side_of again a" "probe_side_of again b" "probe_side_of again c"]
  by (simp add: partition_moved_def)

lemma static_repartition: "hs_static hs' = hs_static hs \<Longrightarrow> hs_repartition hs' = None \<longleftrightarrow> hs_repartition hs = None"
  by (auto simp: hs_static_def hs_base_def)

section \<open>Loading a chunk\<close>

definition build_at ::
  "('t \<Rightarrow> tape_phase) \<Rightarrow> ('t \<Rightarrow> byte list) \<Rightarrow> ('t \<Rightarrow> byte list) \<Rightarrow> nat \<Rightarrow> nat \<Rightarrow> bool \<Rightarrow> nat \<Rightarrow> 't hash_spill \<Rightarrow> row list \<Rightarrow> bool" where
  "build_at phase written rest n np again p hs ahead \<longleftrightarrow> side_shape n np False (build_side_of again hs) \<and>
     join_block_wf n (hs_build_block hs) \<and> bs_ncolumns (hs_build hs) = n \<and>
     (\<exists>rows. unread phase written rest (build_side_of again hs) p rows \<and>
        ahead = drop (hs_build_block_row hs) (join_block_rows (hs_build_block hs)) @ rows \<and> (hs_build_eof hs \<longrightarrow> rows = []))"

lemma load_build_chunk_ok:
  assumes T: "tape_spec T phase written rest" and p: "p < np"
    and b: "build_at phase written rest n np again p hs ahead" and a: "hs_active hs = Some (again, p)"
    and re: "again \<longrightarrow> hs_repartition hs \<noteq> None"
    and chunk: "0 < hs_build_chunk_rows hs" and size: "length ahead \<le> 2 ^ 30"
  shows "\<exists>hs'. load_build_chunk T plan hs = Some (Inr (ahead \<noteq> [], hs')) \<and> partition_moved again p hs hs' \<and>
    build_at phase written rest n np again p hs' (drop (hs_build_chunk_rows hs) ahead) \<and>
    probe_side_of again hs' = probe_side_of again hs \<and> hs_probe_block hs' = hs_probe_block hs \<and>
    hs_active hs' = hs_active hs \<and> hs_partition_active hs' = hs_partition_active hs \<and>
    (\<not> hs_build_more hs' \<longrightarrow> drop (hs_build_chunk_rows hs) ahead = []) \<and>
    (ahead \<noteq> [] \<longrightarrow> table_ok (jp_inner_keys plan) (hs_build hs') (bs_nrows (hs_build hs')) \<and>
       store_rows (hs_build hs') = take (hs_build_chunk_rows hs) ahead)"
proof -
  let ?side = "build_side_of again hs" and ?chunk = "hs_build_chunk_rows hs"
  let ?s = "(hash_join_reset_build_store (hs_build hs))\<lparr>bs_hash_shift := hs_active_hash_shift hs\<rparr>"
  obtain rows where u: "unread phase written rest ?side p rows"
    "ahead = drop (hs_build_block_row hs) (join_block_rows (hs_build_block hs)) @ rows" "hs_build_eof hs \<longrightarrow> rows = []"
    using b by (auto simp: build_at_def)
  have shape: "side_shape n np False ?side" and block: "join_block_wf n (hs_build_block hs)" using b by (simp_all add: build_at_def)
  have wf: "store_wf ?s" using store_wf_reset [of "hs_build hs"] by (simp add: store_wf_def build_value_valid_def)
  have cols: "bs_ncolumns ?s = n" using b by (simp add: build_at_def hash_join_reset_build_store_def)
  have s: "bs_nrows ?s = 0" "store_rows ?s = []" "\<not> bs_has_duplicates ?s"
    by (simp_all add: hash_join_reset_build_store_def store_rows_def)
  have "bs_nrows ?s + length ahead \<le> 2 ^ 30" using size s(1) by simp
  from load_rows_ok [OF T p shape u(1) block wf cols u(2) this, where chunk = ?chunk]
  obtain eof side' block' row' rows' s' where l:
    "load_rows T p ?chunk ?side (hs_build_block hs) (hs_build_block_row hs) ?s = Some (Inr (eof, side', block', row', s'))"
    "side_moved p ?side side'" "unread phase written rest side' p rows'" "join_block_wf n block'" "store_wf s'" "same_table ?s s'"
    "store_rows s' = take ?chunk ahead" "drop row' (join_block_rows block') @ rows' = drop ?chunk ahead" "eof \<longrightarrow> rows' = []" "length rows' \<le> length rows"
    unfolding s(1,2) diff_zero append_Nil by (elim exE conjE)
  let ?eof = "eof \<or> hs_build_eof hs"
  define hs1 where "hs1 = (put_build_side again side' hs)\<lparr>hs_build_block := block', hs_build_block_row := row', hs_build_eof := ?eof\<rparr>"
  have n: "bs_nrows s' = length (take ?chunk ahead)" using l(7) by (metis length_store_rows)
  have nc: "bs_ncolumns s' = n" "\<not> bs_has_duplicates s'" using l(6) b s(3) by (simp_all add: same_table_def build_at_def hash_join_reset_build_store_def)
  have eof: "?eof \<longrightarrow> rows' = []" using l(9,10) u(3) by auto
  have moved: "partition_moved again p hs (hs1\<lparr>hs_build := t, hs_build_more := m\<rparr>)" for t m
    using l(2) re by (simp add: hs1_def partition_moved_def)
  have at: "build_at phase written rest n np again p (hs1\<lparr>hs_build := t, hs_build_more := m\<rparr>) (drop ?chunk ahead)" if "bs_ncolumns t = n" for t m
    unfolding build_at_def using that l(3,4,8) eof shape side_moved_shape [OF l(2)] by (auto simp: hs1_def)
  have run: "load_build_chunk T plan hs = (if bs_nrows s' = 0 then Some (Inr (False, hs1\<lparr>hs_build := s', hs_build_more := False\<rparr>))
      else Option.bind (hash_join_finish_build_table (jp_inner_keys plan) s') (\<lambda>store.
        Some (Inr (True, hs1\<lparr>hs_build := store, hs_build_more := (\<not> ?eof \<or> row' < jb_nrows block')\<rparr>))))"
    unfolding load_build_chunk_def a option.sel Let_def prod.case l(1) obind_simps hs1_def by simp
  show ?thesis
  proof (cases "ahead = []")
    case True
    then have "load_build_chunk T plan hs = Some (Inr (False, hs1\<lparr>hs_build := s', hs_build_more := False\<rparr>))"
      unfolding run n by simp
    then show ?thesis
      using True moved [where t = s' and m = False] at [OF nc(1), where m = False]
      by (intro exI [of _ "hs1\<lparr>hs_build := s', hs_build_more := False\<rparr>"] conjI) (simp_all add: hs1_def)
  next
    case False
    then have pos: "bs_nrows s' \<noteq> 0" using chunk n by simp
    have "bs_nrows s' \<le> 2 ^ 30" using n size by simp
    from finish_build_table_ok [OF l(5) this nc(2), of "jp_inner_keys plan"] obtain t where
      t: "hash_join_finish_build_table (jp_inner_keys plan) s' = Some t" "table_ok (jp_inner_keys plan) t (bs_nrows t)"
      "store_rows t = store_rows s'" "bs_ncolumns t = bs_ncolumns s'" by blast
    let ?more = "\<not> ?eof \<or> row' < jb_nrows block'"
    have "drop ?chunk ahead = []" if "\<not> ?more" using that l(8) eof by auto
    moreover have "load_build_chunk T plan hs = Some (Inr (True, hs1\<lparr>hs_build := t, hs_build_more := ?more\<rparr>))"
      unfolding run using pos t(1) by simp
    ultimately show ?thesis
      using False moved [where t = t and m = ?more] at [where t = t and m = ?more] t(2-4) nc(1) l(7)
      by (intro exI [of _ "hs1\<lparr>hs_build := t, hs_build_more := ?more\<rparr>"] conjI) (simp_all add: hs1_def)
  qed
qed

section \<open>The batches that a caller sees\<close>

text \<open>Fetching until no batch is left, each with the table it is to be joined with.\<close>

partial_function (option) spilled_batches ::
  "'t tape_ops \<Rightarrow> join_plan \<Rightarrow> 't hash_spill \<Rightarrow> (build_store \<times> join_block) list result option" where
  "spilled_batches T plan hs =
     obind (hash_join_fetch_spilled_probe_batch T plan hs) (\<lambda>(found, hs).
     if \<not> found then Some (Inr [])
     else obind (spilled_batches T plan hs) (\<lambda>rest. Some (Inr ((hs_build hs, hs_probe_block hs) # rest))))"

text \<open>The pairs of rows with equal hashes, which a batch and its table contribute.\<close>

definition hash_pairs :: "row list \<Rightarrow> row list \<Rightarrow> (row \<times> row) multiset" where
  "hash_pairs xs ys = filter_mset (\<lambda>(x, y). fst x = fst y) (mset (List.product xs ys))"

definition presented :: "(build_store \<times> join_block) list \<Rightarrow> (row \<times> row) multiset" where
  "presented ps = (\<Sum>(store, block) \<leftarrow> ps. hash_pairs (store_rows store) (join_block_rows block))"

definition presents :: "join_plan \<Rightarrow> build_store \<times> join_block \<Rightarrow> bool" where
  "presents plan = (\<lambda>(store, block). table_ok (jp_inner_keys plan) store (bs_nrows store) \<and>
     bs_ncolumns store = jp_ninner_columns plan \<and> join_block_wf (jp_nouter_columns plan) block)"

lemma hash_pairs_Nil [simp]: "hash_pairs [] ys = {#}" "hash_pairs xs [] = {#}"
  by (simp_all add: hash_pairs_def)

lemma hash_pairs_append_left: "hash_pairs (xs @ xs') ys = hash_pairs xs ys + hash_pairs xs' ys"
  by (induction xs) (simp_all add: hash_pairs_def)

lemma hash_pairs_Cons_right: "hash_pairs xs (y # ys) = hash_pairs xs [y] + hash_pairs xs ys"
  by (induction xs) (simp_all add: hash_pairs_def)

lemma hash_pairs_append_right: "hash_pairs xs (ys @ ys') = hash_pairs xs ys + hash_pairs xs ys'"
proof (induction ys)
  case (Cons y ys)
  then show ?case using hash_pairs_Cons_right [of xs y ys] hash_pairs_Cons_right [of xs y "ys @ ys'"] by simp
qed simp

lemma presented_simps [simp]:
  "presented [] = {#}" "presented (ps @ qs) = presented ps + presented qs"
  "presented ((store, block) # ps) = hash_pairs (store_rows store) (join_block_rows block) + presented ps"
  by (simp_all add: presented_def)

text \<open>From \<open>hs\<close> the caller first sees \<open>ps\<close> and then what it would see from \<open>hs'\<close>.\<close>

definition emits :: "'t tape_ops \<Rightarrow> join_plan \<Rightarrow> 't hash_spill \<Rightarrow> (build_store \<times> join_block) list \<Rightarrow> 't hash_spill \<Rightarrow> bool" where
  "emits T plan hs ps hs' \<longleftrightarrow>
     spilled_batches T plan hs = obind (spilled_batches T plan hs') (\<lambda>rest. Some (Inr (ps @ rest)))"

lemma obind_return: "obind m (\<lambda>x. Some (Inr x)) = m"
  by (auto simp: obind_def split: sum.splits intro: option.exhaust [of m] elim!: option.exhaust)

lemma emits_refl [simp]: "emits T plan hs [] hs"
  by (simp add: emits_def obind_return)

lemma obind_obind: "obind (obind m f) g = obind m (\<lambda>x. obind (f x) g)"
  by (cases m) (auto simp: obind_def split: sum.splits)

lemma emits_trans: "emits T plan a ps b \<Longrightarrow> emits T plan b qs c \<Longrightarrow> emits T plan a (ps @ qs) c"
  by (simp add: emits_def obind_obind)

lemma emits_fetch:
  "hash_join_fetch_spilled_probe_batch T plan hs = hash_join_fetch_spilled_probe_batch T plan hs' \<Longrightarrow> emits T plan hs [] hs'"
  unfolding emits_def append_Nil obind_return by (simp add: spilled_batches.simps [of T plan])

lemma emits_batch:
  "hash_join_fetch_spilled_probe_batch T plan hs = Some (Inr (True, hs')) \<Longrightarrow>
     emits T plan hs [(hs_build hs', hs_probe_block hs')] hs'"
  unfolding emits_def by (subst spilled_batches.simps) simp

section \<open>An active partition\<close>

definition active_inv ::
  "('t \<Rightarrow> tape_phase) \<Rightarrow> ('t \<Rightarrow> byte list) \<Rightarrow> ('t \<Rightarrow> byte list) \<Rightarrow> join_plan \<Rightarrow> nat \<Rightarrow> bool \<Rightarrow> nat \<Rightarrow> 't hash_spill \<Rightarrow>
     row list \<Rightarrow> row list \<Rightarrow> row list \<Rightarrow> row list \<Rightarrow> bool" where
  "active_inv phase written rest plan np again p hs chunk ahead all left \<longleftrightarrow>
     hs_partition_active hs \<and> hs_active hs = Some (again, p) \<and> p < np \<and> (again \<longrightarrow> hs_repartition hs \<noteq> None) \<and>
     0 < hs_build_chunk_rows hs \<and> length ahead \<le> 2 ^ 30 \<and>
     build_at phase written rest (jp_ninner_columns plan) np again p hs ahead \<and> (\<not> hs_build_more hs \<longrightarrow> ahead = []) \<and>
     table_ok (jp_inner_keys plan) (hs_build hs) (bs_nrows (hs_build hs)) \<and> store_rows (hs_build hs) = chunk \<and>
     side_shape (jp_nouter_columns plan) np True (probe_side_of again hs) \<and>
     unread phase written rest (probe_side_of again hs) p left \<and> stored_at phase written (sd_set (probe_side_of again hs)) p all \<and>
     (sd_files (probe_side_of again hs) ! p = Some None \<longrightarrow> left = all) \<and>
     join_block_wf (jp_nouter_columns plan) (hs_probe_block hs)"

text \<open>The code after an active partition was found.\<close>

lemma fetch_active:
  assumes "hs_partition_active hs" "hs_active hs = Some (again, p)"
  shows "hash_join_fetch_spilled_probe_batch T plan hs =
    obind (Some (read_spill_block T p (hs_probe_block hs) (probe_side_of again hs))) (\<lambda>(more, block, side).
          let hs = (put_probe_side again side hs)\<lparr>hs_probe_block := block\<rparr>
          in if more then Some (Inr (True, hs))
             else obind (if hs_build_more hs then load_build_chunk T plan hs else Some (Inr (False, hs))) (\<lambda>(loaded, hs).
               if loaded
               then obind (Some (rewind_spill_file T p (probe_side_of again hs))) (\<lambda>side.
                 hash_join_fetch_spilled_probe_batch T plan (put_probe_side again side hs))
               else hash_join_fetch_spilled_probe_batch T plan (hs\<lparr>hs_partition_active := False\<rparr>)))"
  using assms by (subst hash_join_fetch_spilled_probe_batch.simps) simp

lemma active_read:
  assumes T: "tape_spec T phase written rest" and inv: "active_inv phase written rest plan np again p hs chunk ahead all left"
  shows "\<exists>more block side'. read_spill_block T p (hs_probe_block hs) (probe_side_of again hs) = Inr (more, block, side') \<and>
    (let hs' = (put_probe_side again side' hs)\<lparr>hs_probe_block := block\<rparr>
     in partition_moved again p hs hs' \<and>
       (if more then \<exists>later. left = join_block_rows block @ later \<and> length later < length left \<and>
          active_inv phase written rest plan np again p hs' chunk ahead all later
        else left = [] \<and> active_inv phase written rest plan np again p hs' chunk ahead all []))"
proof -
  let ?side = "probe_side_of again hs"
  have p: "p < np" and shape: "side_shape (jp_nouter_columns plan) np True ?side" and re: "again \<longrightarrow> hs_repartition hs \<noteq> None"
    and u: "unread phase written rest ?side p left" and block: "join_block_wf (jp_nouter_columns plan) (hs_probe_block hs)"
    and all: "stored_at phase written (sd_set ?side) p all"
    using inv by (simp_all add: active_inv_def)
  obtain more block' side' where r: "read_spill_block T p (hs_probe_block hs) ?side = Inr (more, block', side')" "side_moved p ?side side'"
    "True \<longrightarrow> stored_at phase written (sd_set ?side) p all \<longrightarrow> stored_at phase written (sd_set side') p all"
    "join_block_wf (jp_nouter_columns plan) block'" "sd_files side' ! p \<noteq> Some None"
    "if more then \<exists>later. left = join_block_rows block' @ later \<and> 0 < jb_nrows block' \<and> unread phase written rest side' p later
     else left = [] \<and> block' = hs_probe_block hs \<and> unread phase written rest side' p []"
    using read_block_ok [OF T shape p u block, of all] by (elim exE conjE)
  let ?hs = "(put_probe_side again side' hs)\<lparr>hs_probe_block := block'\<rparr>"
  have "partition_moved again p hs ?hs" using r(2) re by (simp add: partition_moved_def)
  moreover have inv': "active_inv phase written rest plan np again p ?hs chunk ahead all later" if "unread phase written rest side' p later" for later
    using inv r(3-5) that side_moved_shape [OF r(2)] re
    by (simp add: active_inv_def build_at_def) (simp add: put_probe_side_def)
  ultimately show ?thesis
    using r(1,6) by (intro exI [of _ more] exI [of _ block'] exI [of _ side']) (auto simp: Let_def)
qed

lemma active_blocks:
  assumes T: "tape_spec T phase written rest"
  shows "active_inv phase written rest plan np again p hs chunk ahead all left \<Longrightarrow>
    \<exists>ps hs'. emits T plan hs ps hs' \<and> partition_moved again p hs hs' \<and> presented ps = hash_pairs chunk left \<and>
      (\<forall>x \<in> set ps. presents plan x) \<and> active_inv phase written rest plan np again p hs' chunk ahead all []"
proof (induction "length left" arbitrary: hs left rule: less_induct)
  case less
  obtain more block side' where r: "read_spill_block T p (hs_probe_block hs) (probe_side_of again hs) = Inr (more, block, side')"
    "let hs' = (put_probe_side again side' hs)\<lparr>hs_probe_block := block\<rparr>
     in partition_moved again p hs hs' \<and>
       (if more then \<exists>later. left = join_block_rows block @ later \<and> length later < length left \<and>
          active_inv phase written rest plan np again p hs' chunk ahead all later
        else left = [] \<and> active_inv phase written rest plan np again p hs' chunk ahead all [])"
    using active_read [OF T less.prems] by (elim exE conjE)
  show ?case
  proof (cases more)
    case False
    then show ?thesis using less.prems r(2) by (intro exI [of _ "[]"] exI [of _ hs]) (simp add: Let_def)
  next
    case True
    define hs1 where "hs1 = (put_probe_side again side' hs)\<lparr>hs_probe_block := block\<rparr>"
    obtain later where l: "left = join_block_rows block @ later" "length later < length left"
      "active_inv phase written rest plan np again p hs1 chunk ahead all later" "partition_moved again p hs hs1"
      using r(2) True unfolding hs1_def by (auto simp: Let_def)
    have "hs_partition_active hs" "hs_active hs = Some (again, p)" using less.prems by (simp_all add: active_inv_def)
    from fetch_active [OF this, of T plan]
    have "hash_join_fetch_spilled_probe_batch T plan hs = Some (Inr (True, hs1))" using r(1) True by (simp add: hs1_def Let_def)
    from emits_batch [OF this] have e: "emits T plan hs [(hs_build hs1, block)] hs1" by (simp add: hs1_def)
    obtain ps hs' where IH: "emits T plan hs1 ps hs'" "partition_moved again p hs1 hs'" "presented ps = hash_pairs chunk later"
      "\<forall>x \<in> set ps. presents plan x" "active_inv phase written rest plan np again p hs' chunk ahead all []"
      using less.hyps [OF l(2,3)] by blast
    have "presents plan (hs_build hs1, block)" "store_rows (hs_build hs1) = chunk"
      using l(3) by (simp_all add: presents_def active_inv_def build_at_def hs1_def)
    then show ?thesis
      using emits_trans [OF e IH(1)] partition_moved_trans [OF l(4) IH(2)] IH(3-5)
      by (intro exI [of _ "(hs_build hs1, block) # ps"] exI [of _ hs']) (simp add: l(1) hash_pairs_append_right)
  qed
qed

section \<open>Between partitions\<close>

definition idle :: "join_plan \<Rightarrow> 't hash_spill \<Rightarrow> bool" where
  "idle plan hs \<longleftrightarrow> \<not> hs_partition_active hs \<and> hs_active hs = None \<and> 0 < hs_build_chunk_rows hs \<and>
     bs_ncolumns (hs_build hs) = jp_ninner_columns plan \<and>
     join_block_wf (jp_ninner_columns plan) (hs_build_block hs) \<and> join_block_wf (jp_nouter_columns plan) (hs_probe_block hs)"

lemma finish_active_None [simp]: "hs_active hs = None \<Longrightarrow> finish_active_partition hs = hs"
  by (simp add: finish_active_partition_def)

lemma fetch_finish_active:
  assumes "\<not> hs_partition_active hs"
  shows "hash_join_fetch_spilled_probe_batch T plan hs = hash_join_fetch_spilled_probe_batch T plan (finish_active_partition hs)"
proof -
  have "\<not> hs_partition_active (finish_active_partition hs)" "hs_active (finish_active_partition hs) = None"
    using assms by (auto simp: finish_active_partition_def split: option.splits prod.splits)
  then show ?thesis
    using assms by (simp add: hash_join_fetch_spilled_probe_batch.simps [of T plan] start_next_partition_def)
qed

lemma close_reader_moved: "side_moved p side (close_reader p side)"
  by (simp add: close_reader_def side_moved_def)

lemma leave_active:
  assumes a: "hs_active hs = Some (again, p)" and re: "again \<longrightarrow> hs_repartition hs \<noteq> None" and c: "0 < hs_build_chunk_rows hs"
    and b: "bs_ncolumns (hs_build hs) = jp_ninner_columns plan"
      "join_block_wf (jp_ninner_columns plan) (hs_build_block hs)" "join_block_wf (jp_nouter_columns plan) (hs_probe_block hs)"
  shows "\<exists>hs'. emits T plan (hs\<lparr>hs_partition_active := False\<rparr>) [] hs' \<and> partition_moved again p hs hs' \<and> idle plan hs'"
proof (intro exI conjI)
  let ?hs = "hs\<lparr>hs_partition_active := False\<rparr>"
  let ?hs' = "finish_active_partition ?hs"
  show "emits T plan ?hs [] ?hs'" by (rule emits_fetch [OF fetch_finish_active]) simp
  have eq: "?hs' = (put_probe_side again (close_reader p (probe_side_of again hs))
      (put_build_side again (close_reader p (build_side_of again hs)) ?hs))\<lparr>hs_active := None\<rparr>"
    using a by (simp add: finish_active_partition_def)
  have re': "again \<longrightarrow> hs_repartition (put_build_side again s ?hs) \<noteq> None" for s using re by (auto simp: put_build_side_def)
  show "partition_moved again p hs ?hs'"
    using re re' by (simp add: eq partition_moved_def close_reader_moved)
  show "idle plan ?hs'" using b c by (simp add: eq idle_def)
qed

lemma active_chunks:
  assumes T: "tape_spec T phase written rest"
  shows "active_inv phase written rest plan np again p hs chunk ahead all left \<Longrightarrow>
    \<exists>ps hs'. emits T plan hs ps hs' \<and> partition_moved again p hs hs' \<and> idle plan hs' \<and>
      presented ps = hash_pairs chunk left + hash_pairs ahead all \<and> (\<forall>x \<in> set ps. presents plan x)"
proof (induction "length ahead" arbitrary: hs chunk ahead left rule: less_induct)
  case less
  obtain ps hs1 where b: "emits T plan hs ps hs1" "partition_moved again p hs hs1" "presented ps = hash_pairs chunk left"
    "\<forall>x \<in> set ps. presents plan x" "active_inv phase written rest plan np again p hs1 chunk ahead all []"
    using active_blocks [OF T less.prems] by blast
  obtain more block side' where r: "read_spill_block T p (hs_probe_block hs1) (probe_side_of again hs1) = Inr (more, block, side')"
    "let hs' = (put_probe_side again side' hs1)\<lparr>hs_probe_block := block\<rparr>
     in partition_moved again p hs1 hs' \<and>
       (if more then \<exists>later. [] = join_block_rows block @ later \<and> length later < length ([] :: row list) \<and>
          active_inv phase written rest plan np again p hs' chunk ahead all later
        else [] = ([] :: row list) \<and> active_inv phase written rest plan np again p hs' chunk ahead all [])"
    using active_read [OF T b(5)] by (elim exE conjE)
  define hs2 where "hs2 = (put_probe_side again side' hs1)\<lparr>hs_probe_block := block\<rparr>"
  have e: "\<not> more" "partition_moved again p hs1 hs2" "active_inv phase written rest plan np again p hs2 chunk ahead all []"
    using r(2) unfolding hs2_def [symmetric] by (auto simp: Let_def split: if_splits)
  have m2: "partition_moved again p hs hs2" by (rule partition_moved_trans [OF b(2) e(2)])
  have "hs_partition_active hs1" "hs_active hs1 = Some (again, p)" using b(5) by (simp_all add: active_inv_def)
  from fetch_active [OF this, of T plan]
  have fetch: "hash_join_fetch_spilled_probe_batch T plan hs1 =
      obind (if hs_build_more hs2 then load_build_chunk T plan hs2 else Some (Inr (False, hs2))) (\<lambda>(loaded, hs).
         if loaded then obind (Some (rewind_spill_file T p (probe_side_of again hs))) (\<lambda>side.
             hash_join_fetch_spilled_probe_batch T plan (put_probe_side again side hs))
         else hash_join_fetch_spilled_probe_batch T plan (hs\<lparr>hs_partition_active := False\<rparr>))"
    using r(1) e(1) by (simp add: hs2_def Let_def)
  have nc: "0 < hs_build_chunk_rows hs2" "join_block_wf (jp_nouter_columns plan) (hs_probe_block hs2)"
    "build_at phase written rest (jp_ninner_columns plan) np again p hs2 ahead" "hs_active hs2 = Some (again, p)"
    "again \<longrightarrow> hs_repartition hs2 \<noteq> None"
    using e(3) by (simp_all add: active_inv_def)
  have stop: ?case if f: "hash_join_fetch_spilled_probe_batch T plan hs1 = hash_join_fetch_spilled_probe_batch T plan (h\<lparr>hs_partition_active := False\<rparr>)"
    and h: "partition_moved again p hs2 h" "hs_active h = Some (again, p)" "hs_probe_block h = hs_probe_block hs2"
      "build_at phase written rest (jp_ninner_columns plan) np again p h ahead'" and ahead: "ahead = []" for h ahead'
  proof -
    have "again \<longrightarrow> hs_repartition h \<noteq> None" "0 < hs_build_chunk_rows h"
      using h(1) nc(1,5) static_repartition [of h hs2] by (auto simp: partition_moved_def hs_static_def hs_base_def)
    with leave_active [OF h(2), of plan T] h(3,4) nc(2) obtain hs' where
      l: "emits T plan (h\<lparr>hs_partition_active := False\<rparr>) [] hs'" "partition_moved again p h hs'" "idle plan hs'"
      by (auto simp: build_at_def)
    show ?thesis
      using emits_trans [OF b(1) emits_trans [OF emits_fetch [OF f] l(1)]]
        partition_moved_trans [OF m2 partition_moved_trans [OF h(1) l(2)]] l(3) b(3,4) ahead
      by (intro exI [of _ ps] exI [of _ hs']) simp
  qed
  show ?case
  proof (cases "hs_build_more hs2")
    case False
    then have "ahead = []" using e(3) by (simp add: active_inv_def)
    with stop [of hs2, OF _ partition_moved_refl nc(4) refl nc(3)] show ?thesis using fetch False by simp
  next
    case True
    have inv: "p < np" "length ahead \<le> 2 ^ 30" using e(3) by (simp_all add: active_inv_def)
    let ?chunk = "hs_build_chunk_rows hs2"
    obtain hs3 where l: "load_build_chunk T plan hs2 = Some (Inr (ahead \<noteq> [], hs3))" "partition_moved again p hs2 hs3"
      "build_at phase written rest (jp_ninner_columns plan) np again p hs3 (drop ?chunk ahead)"
      "probe_side_of again hs3 = probe_side_of again hs2" "hs_probe_block hs3 = hs_probe_block hs2"
      "hs_active hs3 = hs_active hs2" "hs_partition_active hs3 = hs_partition_active hs2"
      "\<not> hs_build_more hs3 \<longrightarrow> drop ?chunk ahead = []"
      "ahead \<noteq> [] \<longrightarrow> table_ok (jp_inner_keys plan) (hs_build hs3) (bs_nrows (hs_build hs3)) \<and>
         store_rows (hs_build hs3) = take ?chunk ahead"
      using load_build_chunk_ok [OF T inv(1) nc(3,4,5,1) inv(2), of plan] by blast
    have a3: "hs_active hs3 = Some (again, p)" using l(6) nc(4) by simp
    show ?thesis
    proof (cases "ahead = []")
      case True
      with stop [of hs3, OF _ l(2) a3 l(5,3)] show ?thesis using fetch \<open>hs_build_more hs2\<close> l(1) by simp
    next
      case False
      let ?side = "probe_side_of again hs3"
      have u: "side_shape (jp_nouter_columns plan) np True ?side" "unread phase written rest ?side p []"
        "stored_at phase written (sd_set ?side) p all" "sd_files ?side ! p = Some None \<longrightarrow> [] = all"
        using e(3) by (simp_all add: active_inv_def l(4))
      obtain side3 where s3: "rewind_spill_file T p ?side = Inr side3" "side_moved p ?side side3"
        "unread phase written rest side3 p all" "stored_at phase written (sd_set side3) p all"
        using rewind_ok [OF T u(1) inv(1) u(2,3)] u(4) by blast
      define hs4 where "hs4 = put_probe_side again side3 hs3"
      have re3: "again \<longrightarrow> hs_repartition hs3 \<noteq> None" and c3: "hs_build_chunk_rows hs3 = ?chunk"
        using l(2) nc(5) static_repartition [of hs3 hs2] by (auto simp: partition_moved_def hs_static_def hs_base_def)
      have m4: "partition_moved again p hs3 hs4" using s3(2) re3 by (simp add: hs4_def partition_moved_def)
      have re4: "again \<longrightarrow> hs_repartition hs4 \<noteq> None"
        using m4 re3 static_repartition [of hs4 hs3] by (auto simp: partition_moved_def)
      have inv4: "active_inv phase written rest plan np again p hs4 (take ?chunk ahead) (drop ?chunk ahead) all all"
        unfolding active_inv_def
      proof (intro conjI)
        show "build_at phase written rest (jp_ninner_columns plan) np again p hs4 (drop ?chunk ahead)"
          using l(3) by (simp add: build_at_def hs4_def)
        show "side_shape (jp_nouter_columns plan) np True (probe_side_of again hs4)"
          using u(1) side_moved_shape [OF s3(2)] by (simp add: hs4_def)
      qed (use l a3 s3 re4 c3 nc(1,2) inv e(3) False in \<open>simp_all add: hs4_def active_inv_def\<close>)
      have f: "hash_join_fetch_spilled_probe_batch T plan hs1 = hash_join_fetch_spilled_probe_batch T plan hs4"
        using fetch \<open>hs_build_more hs2\<close> l(1) s3(1) False by (simp add: hs4_def)
      have "length (drop ?chunk ahead) < length ahead" using nc(1) False by simp
      from less.hyps [OF this inv4] obtain qs hs' where IH: "emits T plan hs4 qs hs'" "partition_moved again p hs4 hs'" "idle plan hs'"
        "presented qs = hash_pairs (take ?chunk ahead) all + hash_pairs (drop ?chunk ahead) all" "\<forall>x \<in> set qs. presents plan x"
        by blast
      have "hash_pairs ahead all = hash_pairs (take ?chunk ahead) all + hash_pairs (drop ?chunk ahead) all"
        by (simp flip: hash_pairs_append_left)
      then show ?thesis
        using emits_trans [OF b(1) emits_trans [OF emits_fetch [OF f] IH(1)]] IH(3-5) b(3,4)
          partition_moved_trans [OF m2 partition_moved_trans [OF l(2) partition_moved_trans [OF m4 IH(2)]]]
        by (intro exI [of _ "ps @ qs"] exI [of _ hs']) auto
    qed
  qed
qed

end
