(* ===== verification/Join_Repartition.thy ===== *)
theory Join_Repartition
  imports Join_Rounds
begin

text \<open>
  Starting a partition of a spilled hash join, and splitting one that is too large: the
  parts hold its rows by further bits of their hashes, on files of their own.
\<close>

section \<open>Starting a partition\<close>

lemma finished_stored: "finished_at phase written rest True s p rows \<Longrightarrow> stored_at phase written s p rows"
  by (auto simp: finished_at_def stored_at_def)

lemma rewind_untouched: "sd_files side ! p = Some None \<Longrightarrow> rewind_spill_file T p side = Inr side"
  by (simp add: rewind_spill_file_def)

lemma start_partition_ok:
  assumes T: "tape_spec T phase written rest" and idle: "idle plan hs" and p: "p < np"
    and re: "again \<longrightarrow> hs_repartition hs \<noteq> None"
    and build: "side_shape (jp_ninner_columns plan) np False (build_side_of again hs)"
      "untouched phase written rest (build_side_of again hs) p B" "B \<noteq> []" "length B \<le> 2 ^ 30"
    and probe: "side_shape (jp_nouter_columns plan) np True (probe_side_of again hs)"
      "untouched phase written rest (probe_side_of again hs) p P" "P \<noteq> []"
  shows "\<exists>hs'. start_partition_files T plan again p shift hs = Some (Inr (True, hs')) \<and> partition_moved again p hs hs' \<and>
    active_inv phase written rest plan np again p hs' (take (hs_build_chunk_rows hs) B) (drop (hs_build_chunk_rows hs) B) P P"
proof -
  let ?chunk = "hs_build_chunk_rows hs" and ?b = "build_side_of again hs" and ?p = "probe_side_of again hs"
  have files: "sd_files ?b ! p = Some None" "sd_files ?p ! p = Some None" using build(2,3) probe(2,3) by (simp_all add: untouched_def)
  define hs0 where "hs0 = hs\<lparr>hs_active := Some (again, p), hs_active_hash_shift := shift\<rparr>"
  define hs1 where "hs1 = (put_build_side again ?b hs0)\<lparr>hs_build_block := (hs_build_block hs)\<lparr>jb_nrows := 0\<rparr>,
      hs_build_block_row := 0, hs_build_eof := False\<rparr>"
  have sides: "build_side_of again hs1 = ?b" "probe_side_of again hs1 = ?p" by (simp_all add: hs1_def hs0_def)
  have re0: "again \<longrightarrow> hs_repartition hs0 \<noteq> None" using re by (simp add: hs0_def)
  have m1: "partition_moved again p hs hs1"
    using re0 by (simp add: partition_moved_def sides) (simp add: hs1_def hs0_def)
  have re1: "again \<longrightarrow> hs_repartition hs1 \<noteq> None"
    using m1 re static_repartition [of hs1 hs] by (auto simp: partition_moved_def)
  have u: "unread phase written rest ?b p B" "unread phase written rest ?p p P"
    using build(2,3) probe(2,3) by (auto intro: untouched_unread)
  have at: "build_at phase written rest (jp_ninner_columns plan) np again p hs1 B"
    using build(1) u(1) idle by (simp add: build_at_def sides) (auto simp: hs1_def hs0_def idle_def join_block_wf_def join_block_rows_def)
  have f1: "hs_active hs1 = Some (again, p)" "hs_build_chunk_rows hs1 = ?chunk" "0 < ?chunk" "hs_probe_block hs1 = hs_probe_block hs"
    using idle by (simp_all add: hs1_def hs0_def idle_def)
  obtain hs2 where l: "load_build_chunk T plan hs1 = Some (Inr (True, hs2))" "partition_moved again p hs1 hs2"
    "build_at phase written rest (jp_ninner_columns plan) np again p hs2 (drop ?chunk B)"
    "probe_side_of again hs2 = ?p" "hs_probe_block hs2 = hs_probe_block hs" "hs_active hs2 = Some (again, p)"
    "\<not> hs_build_more hs2 \<longrightarrow> drop ?chunk B = []"
    "table_ok (jp_inner_keys plan) (hs_build hs2) (bs_nrows (hs_build hs2))" "store_rows (hs_build hs2) = take ?chunk B"
    using load_build_chunk_ok [OF T p at f1(1) re1 _ build(4), of plan] f1 build(3) by (auto simp: sides)
  define hs3 where "hs3 = (put_probe_side again ?p hs2)\<lparr>hs_partition_active := True\<rparr>"
  have re2: "again \<longrightarrow> hs_repartition hs2 \<noteq> None"
    using l(2) re1 static_repartition [of hs2 hs1] by (auto simp: partition_moved_def)
  have m3: "partition_moved again p hs2 hs3" using re2 l(4) by (simp add: partition_moved_def hs3_def)
  have m: "partition_moved again p hs hs3"
    by (rule partition_moved_trans [OF m1 partition_moved_trans [OF l(2) m3]])
  have re3: "again \<longrightarrow> hs_repartition hs3 \<noteq> None" "hs_build_chunk_rows hs3 = ?chunk"
    using m re static_repartition [of hs3 hs] by (auto simp: partition_moved_def hs_static_def hs_base_def)
  have "start_partition_files T plan again p shift hs = Some (Inr (True, hs3))"
    unfolding start_partition_files_def Let_def hs0_def [symmetric]
    using rewind_untouched [OF files(1), of T] rewind_untouched [OF files(2), of T] l(1,4)
    by (simp add: hs0_def [symmetric] hs3_def) (simp add: hs1_def hs0_def)
  moreover have "active_inv phase written rest plan np again p hs3 (take ?chunk B) (drop ?chunk B) P P"
    unfolding active_inv_def
  proof (intro conjI)
    show "build_at phase written rest (jp_ninner_columns plan) np again p hs3 (drop ?chunk B)"
      using l(3) by (simp add: build_at_def hs3_def)
    show "stored_at phase written (sd_set (probe_side_of again hs3)) p P"
      using probe(1,2) finished_stored [of phase written rest "sd_set ?p" p P] by (simp add: hs3_def untouched_def side_shape_def)
  qed (use l u p probe re3 f1 build(4) idle in \<open>simp_all add: hs3_def idle_def\<close>)
  ultimately show ?thesis using m by blast
qed

section \<open>Splitting a file\<close>

definition part_of :: "nat \<Rightarrow> nat \<Rightarrow> row \<Rightarrow> nat" where
  "part_of shift np row = hash_partition shift np (fst row)"

lemma write_spill_rows_ok:
  assumes T: "tape_spec T phase written rest" and ok: "side_ok phase written n np side R" and p: "p < np"
    and n: "jb_ncolumns block = n" and rs: "rs \<noteq> []" "length rs \<le> 64" "\<forall>r \<in> set rs. r < jb_nrows block"
  shows "\<exists>side'. write_spill_rows T p block rs side = Inr side' \<and>
    side_ok phase written n np side' (R(p := R p @ map ((!) (join_block_rows block)) rs))"
proof -
  have "write_spill_rows T p block rs side = rbind (gathered_write T n p ((!) (jb_hashes block))
      (hash_join_spill_value block) (hash_join_spill_value_valid block) rs (sd_set side))
      (\<lambda>s. Inr (open_file p (side\<lparr>sd_set := s\<rparr>)))"
    by (simp add: write_spill_rows_def gathered_write_def n Let_def)
  moreover have rows: "map (gathered_row n ((!) (jb_hashes block)) (hash_join_spill_value block) (hash_join_spill_value_valid block)) rs =
      map ((!) (join_block_rows block)) rs"
    using rs(3) by (intro map_cong) (simp_all add: gathered_row_def join_block_rows_def n)
  ultimately show ?thesis
    using gathered_write_ok [OF T ok p rs(1,2), of "(!) (jb_hashes block)" "hash_join_spill_value block" "hash_join_spill_value_valid block"]
    unfolding rows by auto
qed

text \<open>The rows that go to each part; \<open>matching\<close> are the files that a probe row must find.\<close>

definition kept :: "spill_file option list option \<Rightarrow> nat \<Rightarrow> bool" where
  "kept matching p \<longleftrightarrow> (case matching of Some files \<Rightarrow> files ! p \<noteq> None | None \<Rightarrow> True)"

lemma write_parts_ok:
  assumes T: "tape_spec T phase written rest" and n: "jb_ncolumns block = n"
  shows "side_ok phase written n np side R \<Longrightarrow> distinct ps \<Longrightarrow>
    \<forall>p \<in> set ps. p < np \<and> F p \<noteq> [] \<and> length (F p) \<le> 64 \<and> (\<forall>r \<in> set (F p). r < jb_nrows block) \<Longrightarrow>
    \<exists>side' counts'. rfold (\<lambda>(p, rows) (side, build_rows).
         rbind (write_spill_rows T p block rows side) (\<lambda>side.
         Inr (side, map_option (\<lambda>counts. counts[p := counts ! p + length rows]) build_rows))) (map (\<lambda>p. (p, F p)) ps) (side, counts) =
        Inr (side', counts') \<and>
      side_ok phase written n np side' (\<lambda>q. R q @ (if q \<in> set ps then map ((!) (join_block_rows block)) (F q) else []))"
proof (induction ps arbitrary: side R counts)
  case Nil
  then show ?case by simp
next
  case (Cons p ps)
  have p: "p < np" "F p \<noteq> []" "length (F p) \<le> 64" "\<forall>r \<in> set (F p). r < jb_nrows block" "p \<notin> set ps"
    using Cons.prems(2,3) by auto
  let ?new = "map ((!) (join_block_rows block)) (F p)"
  obtain side1 where s1: "write_spill_rows T p block (F p) side = Inr side1" "side_ok phase written n np side1 (R(p := R p @ ?new))"
    using write_spill_rows_ok [OF T Cons.prems(1) p(1) n p(2-4)] by blast
  let ?counts = "map_option (\<lambda>counts. counts[p := counts ! p + length (F p)]) counts"
  obtain side' counts' where IH: "rfold (\<lambda>(p, rows) (side, build_rows).
         rbind (write_spill_rows T p block rows side) (\<lambda>side.
         Inr (side, map_option (\<lambda>counts. counts[p := counts ! p + length rows]) build_rows))) (map (\<lambda>p. (p, F p)) ps) (side1, ?counts) =
        Inr (side', counts')"
    "side_ok phase written n np side' (\<lambda>q. (R(p := R p @ ?new)) q @ (if q \<in> set ps then map ((!) (join_block_rows block)) (F q) else []))"
    using Cons.IH [OF s1(2), of ?counts] Cons.prems(2,3) by auto
  have "(\<lambda>q. (R(p := R p @ ?new)) q @ (if q \<in> set ps then map ((!) (join_block_rows block)) (F q) else [])) =
      (\<lambda>q. R q @ (if q \<in> set (p # ps) then map ((!) (join_block_rows block)) (F q) else []))"
    using p(5) by (auto simp: fun_eq_iff)
  with IH s1(1) show ?case by auto
qed

lemma repartition_join_block_ok:
  assumes T: "tape_spec T phase written rest" and ok: "side_ok phase written n (2 ^ k) side R" and k: "k \<le> 32"
    and block: "join_block_wf n block"
  shows "\<exists>side' counts'. repartition_block T shift (2 ^ k) matching block (side, counts) = Inr (side', counts') \<and>
    side_ok phase written n (2 ^ k) side' (\<lambda>q. R q @ (if kept matching q then filter (\<lambda>row. part_of shift (2 ^ k) row = q) (join_block_rows block) else []))"
proof -
  let ?f = "\<lambda>row. hash_partition shift (2 ^ k) (jb_hashes block ! row)" and ?m = "jb_nrows block"
  define rows where "rows = filter (\<lambda>row. kept matching (?f row)) [0..<?m]"
  have "fold (\<lambda>row heads.
            let p = ?f row
            in case matching of
                 Some files \<Rightarrow> if files ! p = None then heads else link_row p row heads
               | None \<Rightarrow> link_row p row heads) xs heads =
      fold (\<lambda>row. link_row (?f row) row) (filter (\<lambda>row. kept matching (?f row)) xs) heads" for xs heads
    by (induction xs arbitrary: heads) (auto simp: kept_def Let_def split: option.splits)
  note heads = this
  obtain ps where ps: "distinct ps" "set ps = ?f ` set rows"
    "fold (\<lambda>row. link_row (?f row) row) rows [] = map (\<lambda>p. (p, filter (\<lambda>row. ?f row = p) rows)) ps"
    using link_rows by blast
  have len: "length (filter (\<lambda>row. ?f row = p) rows) \<le> 64" for p
  proof -
    have "length (filter (\<lambda>row. ?f row = p) rows) \<le> length rows" by (rule length_filter_le)
    moreover have "length rows \<le> length [0..<?m]" unfolding rows_def by (rule length_filter_le)
    moreover have "?m \<le> 64" using block by (simp add: join_block_wf_def)
    ultimately show ?thesis unfolding length_upt by linarith
  qed
  have "\<forall>p \<in> set ps. p < 2 ^ k \<and> filter (\<lambda>row. ?f row = p) rows \<noteq> [] \<and> length (filter (\<lambda>row. ?f row = p) rows) \<le> 64 \<and>
      (\<forall>r \<in> set (filter (\<lambda>row. ?f row = p) rows). r < ?m)"
    using ps(2) len hash_partition_less [OF k] by (auto simp: filter_empty_conv rows_def)
  moreover have n: "jb_ncolumns block = n" using block by (simp add: join_block_wf_def)
  ultimately obtain side' counts' where w: "repartition_block T shift (2 ^ k) matching block (side, counts) = Inr (side', counts')"
    "side_ok phase written n (2 ^ k) side' (\<lambda>q. R q @ (if q \<in> set ps then map ((!) (join_block_rows block)) (filter (\<lambda>row. ?f row = q) rows) else []))"
    using write_parts_ok [OF T n ok ps(1), of "\<lambda>p. filter (\<lambda>row. ?f row = p) rows" counts]
    unfolding repartition_block_def heads rows_def [symmetric] ps(3) by blast
  have "(if q \<in> set ps then map ((!) (join_block_rows block)) (filter (\<lambda>row. ?f row = q) rows) else []) =
      (if kept matching q then filter (\<lambda>row. part_of shift (2 ^ k) row = q) (join_block_rows block) else [])" for q
  proof -
    have "filter (\<lambda>row. part_of shift (2 ^ k) row = q) (join_block_rows block) =
        map ((!) (join_block_rows block)) (filter (\<lambda>row. ?f row = q) [0..<?m])"
    proof -
      have "join_block_rows block = map ((!) (join_block_rows block)) [0..<?m]"
        using map_nth [of "join_block_rows block"] by simp
      then have "filter (\<lambda>row. part_of shift (2 ^ k) row = q) (join_block_rows block) =
          filter (\<lambda>row. part_of shift (2 ^ k) row = q) (map ((!) (join_block_rows block)) [0..<?m])" by simp
      also have "\<dots> = map ((!) (join_block_rows block)) (filter (\<lambda>row. ?f row = q) [0..<?m])"
        unfolding filter_map comp_def
        by (intro arg_cong [where f = "map _"] filter_cong refl) (simp add: part_of_def join_block_rows_def)
      finally show ?thesis .
    qed
    moreover have "filter (\<lambda>row. ?f row = q) rows = (if kept matching q then filter (\<lambda>row. ?f row = q) [0..<?m] else [])"
      by (auto simp: rows_def filter_empty_conv intro: filter_cong)
    moreover have "q \<notin> set ps \<Longrightarrow> filter (\<lambda>row. ?f row = q) rows = []" using ps(2) by (auto simp: filter_empty_conv)
    ultimately show ?thesis by auto
  qed
  with w show ?thesis by auto
qed

lemma repartition_loop_ok:
  assumes T: "tape_spec T phase written rest" and p: "p < np" and k: "k \<le> 32"
  shows "side_shape n np frozen source \<Longrightarrow> unread phase written rest source p rows \<Longrightarrow> join_block_wf n block \<Longrightarrow>
    side_ok phase written n (2 ^ k) side R \<Longrightarrow>
    \<exists>block' source' side' counts'. repartition_loop T p shift (2 ^ k) matching block source (side, counts) =
        Some (Inr (block', source', side', counts')) \<and>
      side_moved p source source' \<and> join_block_wf n block' \<and>
      side_ok phase written n (2 ^ k) side' (\<lambda>q. R q @ (if kept matching q then filter (\<lambda>row. part_of shift (2 ^ k) row = q) rows else []))"
proof (induction "length rows" arbitrary: source rows block side R counts rule: less_induct)
  case less
  note prems = less.prems
  obtain more block1 source1 where r: "read_spill_block T p block source = Inr (more, block1, source1)" "side_moved p source source1"
    "join_block_wf n block1"
    "if more then \<exists>later. rows = join_block_rows block1 @ later \<and> 0 < jb_nrows block1 \<and> unread phase written rest source1 p later
     else rows = [] \<and> block1 = block \<and> unread phase written rest source1 p []"
    using read_block_ok [OF T prems(1) p prems(2,3), of "[]"] by (elim exE conjE)
  show ?case
  proof (cases more)
    case False
    then have "repartition_loop T p shift (2 ^ k) matching block source (side, counts) = Some (Inr (block1, source1, side, counts))"
      using r(1) by (subst repartition_loop.simps) simp
    then show ?thesis using r(2-4) prems(4) False by (simp cong: if_cong)
  next
    case True
    then obtain later where l: "rows = join_block_rows block1 @ later" "length later < length rows" "unread phase written rest source1 p later"
      using r(4) by auto
    obtain side1 counts1 where w: "repartition_block T shift (2 ^ k) matching block1 (side, counts) = Inr (side1, counts1)"
      "side_ok phase written n (2 ^ k) side1
         (\<lambda>q. R q @ (if kept matching q then filter (\<lambda>row. part_of shift (2 ^ k) row = q) (join_block_rows block1) else []))"
      using repartition_join_block_ok [OF T prems(4) k r(3), of shift matching counts] by blast
    have shape1: "side_shape n np frozen source1" using prems(1) side_moved_shape [OF r(2)] by simp
    obtain block' source' side' counts' where IH: "repartition_loop T p shift (2 ^ k) matching block1 source1 (side1, counts1) =
        Some (Inr (block', source', side', counts'))"
      "side_moved p source1 source'" "join_block_wf n block'"
      "side_ok phase written n (2 ^ k) side'
         (\<lambda>q. (R q @ (if kept matching q then filter (\<lambda>row. part_of shift (2 ^ k) row = q) (join_block_rows block1) else [])) @
              (if kept matching q then filter (\<lambda>row. part_of shift (2 ^ k) row = q) later else []))"
      using less.hyps [OF l(2) shape1 l(3) r(3) w(2), of counts1] by blast
    have "repartition_loop T p shift (2 ^ k) matching block source (side, counts) = Some (Inr (block', source', side', counts'))"
      using r(1) True w(1) IH(1) by (subst repartition_loop.simps) simp
    moreover have "(\<lambda>q. (R q @ (if kept matching q then filter (\<lambda>row. part_of shift (2 ^ k) row = q) (join_block_rows block1) else [])) @
        (if kept matching q then filter (\<lambda>row. part_of shift (2 ^ k) row = q) later else [])) =
      (\<lambda>q. R q @ (if kept matching q then filter (\<lambda>row. part_of shift (2 ^ k) row = q) rows else []))"
      by (auto simp: l(1) fun_eq_iff)
    ultimately show ?thesis using IH(2-4) side_moved_trans [OF r(2)] by auto
  qed
qed

lemma repartition_file_ok:
  assumes T: "tape_spec T phase written rest" and p: "p < np" and k: "k \<le> 32"
    and source: "side_shape n np frozen source" "untouched phase written rest source p rows" "rows \<noteq> []"
    and block: "join_block_wf n block" and ok: "side_ok phase written n (2 ^ k) side (\<lambda>_. [])"
  shows "\<exists>block' source' side' counts'. repartition_file T p shift (2 ^ k) matching block source (side, counts) =
      Some (Inr (block', source', side', counts')) \<and>
    side_moved p source source' \<and> join_block_wf n block' \<and>
    side_ok phase written n (2 ^ k) side' (\<lambda>q. if kept matching q then filter (\<lambda>row. part_of shift (2 ^ k) row = q) rows else [])"
proof -
  have "sd_files source ! p = Some None" using source(2,3) by (simp add: untouched_def)
  from rewind_untouched [OF this, of T] have "repartition_file T p shift (2 ^ k) matching block source (side, counts) =
      repartition_loop T p shift (2 ^ k) matching (block\<lparr>jb_nrows := 0\<rparr>) source (side, counts)"
    by (simp add: repartition_file_def)
  moreover have "join_block_wf n (block\<lparr>jb_nrows := 0\<rparr>)" using block by (simp add: join_block_wf_def)
  ultimately show ?thesis
    using repartition_loop_ok [OF T p k source(1) untouched_unread [OF source(2,3)] _ ok] by simp
qed

text \<open>A finished side is ready to be read.\<close>

definition files_from ::
  "('t \<Rightarrow> tape_phase) \<Rightarrow> ('t \<Rightarrow> byte list) \<Rightarrow> ('t \<Rightarrow> byte list) \<Rightarrow> nat \<Rightarrow> nat \<Rightarrow> bool \<Rightarrow> 't spill_side \<Rightarrow> nat \<Rightarrow> (nat \<Rightarrow> row list) \<Rightarrow> bool" where
  "files_from phase written rest n np frozen side c R \<longleftrightarrow> side_shape n np frozen side \<and>
     (\<forall>q. c \<le> q \<longrightarrow> q < np \<longrightarrow> untouched phase written rest side q (R q))"

lemma files_from_moved:
  "files_from phase written rest n np frozen side c R \<Longrightarrow> side_moved p side side' \<Longrightarrow> p < d \<Longrightarrow> c \<le> d \<Longrightarrow>
     files_from phase written rest n np frozen side' d R"
  using side_moved_untouched [of p side side'] side_moved_shape [of p side side'] by (fastforce simp: files_from_def)

lemma files_from_le: "files_from phase written rest n np frozen side c R \<Longrightarrow> c \<le> d \<Longrightarrow> files_from phase written rest n np frozen side d R"
  by (simp add: files_from_def)

lemma finish_side_ok:
  assumes T: "tape_spec T phase written rest" and ok: "side_ok phase written n np side R"
  shows "\<exists>side'. finish_side T frozen side = Inr side' \<and> files_from phase written rest n np frozen side' 0 R"
proof -
  have inv: "spill_inv phase written (sd_set side) R" using ok by (simp add: side_ok_def)
  obtain s where s: "spill_finish T frozen (sd_set side) = Inr s"
    using ok by (auto simp: side_ok_def spill_inv_def spill_shape_def spill_finish_def)
  have "files_from phase written rest n np frozen (side\<lparr>sd_set := s\<rparr>) 0 R"
    using spill_finish_ready [OF T inv s] ok
    by (auto simp: side_ok_def files_from_def side_shape_def untouched_def spill_ready_def)
  then show ?thesis using s by (auto simp: finish_side_def)
qed

section \<open>Pairs of the parts\<close>

lemma product_filter:
  "mset (List.product (filter P xs) (filter Q ys)) = filter_mset (\<lambda>(x, y). P x \<and> Q y) (mset (List.product xs ys))"
proof (induction xs)
  case (Cons x xs)
  have "mset (map (Pair x) (filter Q ys)) = filter_mset (\<lambda>(x, y). P x \<and> Q y) (mset (map (Pair x) ys))" if "P x"
    using that by (induction ys) auto
  moreover have "filter_mset (\<lambda>(x, y). P x \<and> Q y) (mset (map (Pair x) ys)) = {#}" if "\<not> P x"
    using that by (induction ys) auto
  ultimately show ?case using Cons by simp
qed simp

lemma hash_pairs_filter:
  "hash_pairs (filter P xs) (filter Q ys) = filter_mset (\<lambda>(x, y). P x \<and> Q y) (hash_pairs xs ys)"
  by (simp add: hash_pairs_def product_filter filter_filter_mset conj_commute case_prod_unfold)

lemma hash_pairs_same: "(x, y) \<in># hash_pairs xs ys \<Longrightarrow> fst x = fst y \<and> x \<in> set xs \<and> y \<in> set ys"
  by (auto simp: hash_pairs_def)

lemma sum_filter_mset: "(\<Sum>q < (m :: nat). filter_mset (\<lambda>z. g z = q) M) = filter_mset (\<lambda>z. g z < m) M"
proof (induction m)
  case (Suc m)
  have "filter_mset (\<lambda>z. g z < Suc m) M = filter_mset (\<lambda>z. g z < m) M + filter_mset (\<lambda>z. g z = m) M"
    by (rule multiset_eqI) (auto simp: less_Suc_eq)
  then show ?case using Suc by simp
qed simp

text \<open>Splitting both sides by a function of the hash loses no pair.\<close>

lemma hash_pairs_split:
  assumes "\<And>h. f h < (m :: nat)"
  shows "(\<Sum>q < m. hash_pairs (filter (\<lambda>x. f (fst x) = q) xs) (filter (\<lambda>y. f (fst y) = q) ys)) = hash_pairs xs ys"
proof -
  have "filter_mset (\<lambda>(x, y). f (fst x) = q \<and> f (fst y) = q) (hash_pairs xs ys) =
      filter_mset (\<lambda>z. f (fst (fst z)) = q) (hash_pairs xs ys)" for q
    by (intro filter_mset_cong refl) (auto dest: hash_pairs_same)
  then have "(\<Sum>q < m. hash_pairs (filter (\<lambda>x. f (fst x) = q) xs) (filter (\<lambda>y. f (fst y) = q) ys)) =
      filter_mset (\<lambda>z. f (fst (fst z)) < m) (hash_pairs xs ys)"
    by (simp add: hash_pairs_filter sum_filter_mset)
  also have "\<dots> = hash_pairs xs ys" by (simp add: assms)
  finally show ?thesis .
qed

section \<open>Splitting a partition\<close>

text \<open>The parts of a partition with build rows \<open>B\<close> and probe rows \<open>P\<close>, none of them read yet.\<close>

definition parts_from ::
  "('t \<Rightarrow> tape_phase) \<Rightarrow> ('t \<Rightarrow> byte list) \<Rightarrow> ('t \<Rightarrow> byte list) \<Rightarrow> join_plan \<Rightarrow> 't repartition \<Rightarrow> nat \<Rightarrow>
     (nat \<Rightarrow> row list) \<Rightarrow> (nat \<Rightarrow> row list) \<Rightarrow> bool" where
  "parts_from phase written rest plan re c RB RP \<longleftrightarrow>
     files_from phase written rest (jp_ninner_columns plan) (re_npartitions re) False (re_build re) c RB \<and>
     files_from phase written rest (jp_nouter_columns plan) (re_npartitions re) True (re_probe re) c RP \<and>
     (\<forall>q. length (RB q) \<le> 2 ^ 30)"

lemma repartition_current_ok:
  assumes T: "tape_spec T phase written rest" and fit: "columns_fit plan" and idle: "idle plan hs"
    and p: "nat (hs_current hs) = p" "p < np"
    and build: "side_shape (jp_ninner_columns plan) np False (hs_build_side hs)"
      "untouched phase written rest (hs_build_side hs) p B" "B \<noteq> []" "length B \<le> 2 ^ 30"
    and probe: "side_shape (jp_nouter_columns plan) np True (hs_probe_side hs)"
      "untouched phase written rest (hs_probe_side hs) p P" "P \<noteq> []"
  shows "\<exists>split hs'. repartition_current_partition T hs = Some (Inr (split, hs')) \<and>
    (if split then idle plan hs' \<and> hs_base hs' = hs_base hs \<and> side_moved p (hs_build_side hs) (hs_build_side hs') \<and>
       side_moved p (hs_probe_side hs) (hs_probe_side hs') \<and>
       (\<exists>re RB RP. hs_repartition hs' = Some re \<and> re_current re = - 1 \<and> parts_from phase written rest plan re 0 RB RP \<and>
          (\<Sum>q < re_npartitions re. hash_pairs (RB q) (RP q)) = hash_pairs B P)
     else hs' = hs)"
proof -
  let ?required = "(hs_build_partition_rows hs ! p + hs_build_chunk_rows hs - 1) div hs_build_chunk_rows hs"
  let ?m = "next_partition_count ?required" and ?shift = "hs_partition_shift hs" and ?limit = "hs_memory_limit hs div 4"
  let ?n = "jp_ninner_columns plan" and ?o = "jp_nouter_columns plan"
  obtain k where k: "k \<le> 10" "?m = 2 ^ k" using next_partition_count_power [of ?required] by blast
  have k32: "k \<le> 32" and m: "0 < ?m" using k by simp_all
  have blocks: "join_block_wf ?n (hs_build_block hs)" "join_block_wf ?o (hs_probe_block hs)" using idle by (simp_all add: idle_def)
  then have cols: "jb_ncolumns (hs_build_block hs) = ?n" "jb_ncolumns (hs_probe_block hs) = ?o" by (simp_all add: join_block_wf_def)
  have fit': "0 < ?n" "?n < 65536" "0 < ?o" "?o < 65536" using fit by (simp_all add: columns_fit_def)
  show ?thesis
  proof (cases "?required < PG_BATCH_REPARTITION_MIN_PASSES")
    case True
    then have "repartition_current_partition T hs = Some (Inr (False, hs))"
      by (simp add: repartition_current_partition_def p(1) Let_def)
    then show ?thesis by (intro exI [of _ False] exI [of _ hs]) simp
  next
    case False
    obtain rb where rb: "spill_side_create T ?n ?m ?limit = Inr rb" "side_ok phase written ?n (2 ^ k) rb (\<lambda>_. [])"
      using side_ok_create [OF T fit'(1,2) m, of ?limit] k(2) by auto
    obtain rp where rp: "spill_side_create T ?o ?m ?limit = Inr rp" "side_ok phase written ?o (2 ^ k) rp (\<lambda>_. [])"
      using side_ok_create [OF T fit'(3,4) m, of ?limit] k(2) by auto
    let ?part = "\<lambda>q. filter (\<lambda>row. part_of ?shift (2 ^ k) row = q)"
    obtain block1 build1 rb1 counts1 where b1: "repartition_file T p ?shift (2 ^ k) None (hs_build_block hs) (hs_build_side hs)
        (rb, Some (replicate ?m 0)) = Some (Inr (block1, build1, rb1, counts1))" "side_moved p (hs_build_side hs) build1"
      "join_block_wf ?n block1" "side_ok phase written ?n (2 ^ k) rb1 (\<lambda>q. ?part q B)"
      using repartition_file_ok [OF T p(2) k32 build(1-3) blocks(1) rb(2), of ?shift None "Some (replicate ?m 0)"]
      by (auto simp: kept_def)
    obtain block2 probe1 rp1 counts2 where p1: "repartition_file T p ?shift (2 ^ k) (Some (sd_files rb1)) (hs_probe_block hs) (hs_probe_side hs)
        (rp, None) = Some (Inr (block2, probe1, rp1, counts2))" "side_moved p (hs_probe_side hs) probe1"
      "join_block_wf ?o block2"
      "side_ok phase written ?o (2 ^ k) rp1 (\<lambda>q. if kept (Some (sd_files rb1)) q then ?part q P else [])"
      using repartition_file_ok [OF T p(2) k32 probe(1-3) blocks(2) rp(2), of ?shift "Some (sd_files rb1)" None] by blast
    let ?RP = "\<lambda>q. if kept (Some (sd_files rb1)) q then ?part q P else []"
    obtain rb2 where rb2: "finish_side T False rb1 = Inr rb2" "files_from phase written rest ?n (2 ^ k) False rb2 0 (\<lambda>q. ?part q B)"
      using finish_side_ok [OF T b1(4), of False] by blast
    obtain rp2 where rp2: "finish_side T True rp1 = Inr rp2" "files_from phase written rest ?o (2 ^ k) True rp2 0 ?RP"
      using finish_side_ok [OF T p1(4), of True] by blast
    define re where "re = \<lparr>re_build = rb2, re_probe = rp2, re_build_rows = the counts1, re_npartitions = 2 ^ k, re_current = - 1,
      re_hash_shift = ?shift + partition_bits (2 ^ k)\<rparr>"
    define hs1 where "hs1 = hs\<lparr>hs_build_block := block1, hs_probe_block := block2, hs_build_side := forget_file p build1,
      hs_probe_side := forget_file p probe1, hs_repartition := Some re\<rparr>"
    have run: "repartition_current_partition T hs = Some (Inr (True, hs1))"
      unfolding repartition_current_partition_def Let_def p(1) if_not_P [OF False] cols rb(1) [unfolded k(2)] rp(1) [unfolded k(2)]
        obind_simps k(2) b1(1) [unfolded k(2)] p1(1) prod.case rb2(1) rp2(1)
      by (simp add: hs1_def re_def)
    have kept: "kept (Some (sd_files rb1)) q \<longleftrightarrow> ?part q B \<noteq> []" if "q < 2 ^ k" for q
      using b1(4) that by (simp add: kept_def side_ok_def)
    have "hash_pairs (?part q B) (?RP q) = hash_pairs (?part q B) (?part q P)" if "q < 2 ^ k" for q
      using kept [OF that] by auto
    then have pairs: "(\<Sum>q < 2 ^ k. hash_pairs (?part q B) (?RP q)) = hash_pairs B P"
      using hash_pairs_split [of "hash_partition ?shift (2 ^ k)" "2 ^ k" B P] hash_partition_less [OF k32]
      by (simp add: part_of_def)
    have "length (?part q B) \<le> 2 ^ 30" for q using length_filter_le [of _ B] build(4) order_trans by blast
    then have parts: "parts_from phase written rest plan re 0 (\<lambda>q. ?part q B) ?RP"
      using rb2(2) rp2(2) by (simp add: parts_from_def re_def)
    have forget: "side_moved p side (forget_file p side)" for side :: "'a spill_side" by (simp add: forget_file_def side_moved_def)
    have "idle plan hs1" using idle b1(3) p1(3) by (simp add: idle_def hs1_def)
    moreover have "hs_base hs1 = hs_base hs" by (simp add: hs1_def hs_base_def)
    moreover have "side_moved p (hs_build_side hs) (hs_build_side hs1)" "side_moved p (hs_probe_side hs) (hs_probe_side hs1)"
      using side_moved_trans [OF b1(2) forget] side_moved_trans [OF p1(2) forget] by (simp_all add: hs1_def)
    moreover have "\<exists>re RB RP. hs_repartition hs1 = Some re \<and> re_current re = - 1 \<and> parts_from phase written rest plan re 0 RB RP \<and>
        (\<Sum>q < re_npartitions re. hash_pairs (RB q) (RP q)) = hash_pairs B P"
      using parts pairs by (intro exI [of _ re] exI [of _ "\<lambda>q. ?part q B"] exI [of _ ?RP]) (simp add: hs1_def re_def)
    ultimately show ?thesis using run by (intro exI [of _ True] exI [of _ hs1]) simp
  qed
qed

end
