(* ===== verification/Join_Partition_Loop.thy ===== *)
theory Join_Partition_Loop
  imports Join_Repartition
begin

text \<open>
  The loop over the partitions of a spilled hash join ends, and the batches it hands out
  contain every pair of rows with equal hashes exactly once, whether a partition fits, is read
  in chunks or is split.
\<close>

section \<open>Steps of the loop\<close>

lemma emits_start:
  assumes "idle plan hs" "start_next_partition T plan hs = Some (Inr (True, hs'))" "hs_partition_active hs'"
  shows "emits T plan hs [] hs'"
  using assms by (intro emits_fetch) (simp add: hash_join_fetch_spilled_probe_batch.simps [of T plan] idle_def)

lemma emits_same_start:
  assumes "idle plan hs" "idle plan hs'" "next_partition_loop T plan hs = next_partition_loop T plan hs'"
  shows "emits T plan hs [] hs'"
  using assms
  by (intro emits_fetch) (simp add: hash_join_fetch_spilled_probe_batch.simps [of T plan] idle_def start_next_partition_def)

lemma start_next_idle: "idle plan hs \<Longrightarrow> start_next_partition T plan hs = next_partition_loop T plan hs"
  by (simp add: start_next_partition_def idle_def)

lemma emits_batches:
  "emits T plan hs ps hs' \<Longrightarrow> spilled_batches T plan hs' = Some (Inr rest) \<Longrightarrow> spilled_batches T plan hs = Some (Inr (ps @ rest))"
  by (simp add: emits_def)

section \<open>The parts of a split partition\<close>

definition next_part :: "'t repartition \<Rightarrow> 't repartition" where
  "next_part re = (if re_current re \<ge> 0 then re\<lparr>re_build := forget_file (nat (re_current re)) (re_build re),
       re_probe := forget_file (nat (re_current re)) (re_probe re)\<rparr> else re)\<lparr>re_current := re_current re + 1\<rparr>"

lemma next_part_fields [simp]:
  "re_current (next_part re) = re_current re + 1" "re_npartitions (next_part re) = re_npartitions re"
  "re_hash_shift (next_part re) = re_hash_shift re"
  by (simp_all add: next_part_def)

lemma finish_repartition_some:
  "hs_repartition hs = Some re \<Longrightarrow> \<exists>fin. finish_repartition hs = hs\<lparr>hs_repartition := Some fin\<rparr> \<and>
     fin\<lparr>re_current := re_current fin + 1\<rparr> = next_part re"
  by (intro exI [of _ "if re_current re \<ge> 0 then re\<lparr>re_build := forget_file (nat (re_current re)) (re_build re),
       re_probe := forget_file (nat (re_current re)) (re_probe re)\<rparr> else re"])
    (cases hs, simp add: finish_repartition_def next_part_def)

lemma next_repartition_step:
  assumes re: "hs_repartition hs = Some re"
  defines "hs1 \<equiv> hs\<lparr>hs_repartition := Some (next_part re)\<rparr>" and "p \<equiv> nat (re_current re + 1)"
  shows "next_repartition T plan (finish_repartition hs) =
    (if \<not> re_current re + 1 < int (re_npartitions re) then Some (Inr (False, hs1))
     else if sd_files (re_build (next_part re)) ! p = None \<or> sd_files (re_probe (next_part re)) ! p = None
     then next_repartition T plan (finish_repartition hs1)
     else obind (start_partition_files T plan True p (re_hash_shift re) hs1) (\<lambda>(started, hs).
       if started then Some (Inr (True, hs)) else next_repartition T plan hs))"
proof -
  obtain fin where fin: "finish_repartition hs = hs\<lparr>hs_repartition := Some fin\<rparr>" "fin\<lparr>re_current := re_current fin + 1\<rparr> = next_part re"
    using finish_repartition_some [OF re] by blast
  show ?thesis
    unfolding fin(1) by (subst next_repartition.simps) (simp add: fin(2) hs1_def p_def Let_def cong: if_cong)
qed

lemma next_part_parts:
  assumes parts: "parts_from phase written rest plan re (nat (re_current re + 1)) RB RP" and c: "- 1 \<le> re_current re"
  shows "parts_from phase written rest plan (next_part re) (nat (re_current re + 1)) RB RP"
proof (cases "re_current re \<ge> 0")
  case False
  then show ?thesis using parts by (simp add: parts_from_def next_part_def)
next
  case True
  have forget: "side_moved (nat (re_current re)) side (forget_file (nat (re_current re)) side)" for side :: "'a spill_side"
    by (simp add: forget_file_def side_moved_def)
  have "nat (re_current re) < nat (re_current re + 1)" using True by simp
  then show ?thesis
    using parts files_from_moved [OF _ forget _ order_refl] True unfolding parts_from_def by (simp add: next_part_def)
qed

lemma sub_partitions:
  assumes T: "tape_spec T phase written rest"
  shows "idle plan hs \<Longrightarrow> hs_repartition hs = Some re \<Longrightarrow> - 1 \<le> re_current re \<Longrightarrow> c = nat (re_current re + 1) \<Longrightarrow>
    parts_from phase written rest plan re c RB RP \<Longrightarrow>
    \<exists>ps hs'. emits T plan hs ps hs' \<and> idle plan hs' \<and> hs_repartition hs' = None \<and> hs_base hs' = hs_base hs \<and>
      hs_build_side hs' = hs_build_side hs \<and> hs_probe_side hs' = hs_probe_side hs \<and>
      presented ps = (\<Sum>q \<in> {c..<re_npartitions re}. hash_pairs (RB q) (RP q)) \<and> (\<forall>x \<in> set ps. presents plan x)"
proof (induction "re_npartitions re - c" arbitrary: hs re c rule: less_induct)
  case less
  note idle = less.prems(1) and re = less.prems(2) and cur = less.prems(3) and c = less.prems(4)
  let ?np = "re_npartitions re"
  define hs1 where "hs1 = hs\<lparr>hs_repartition := Some (next_part re)\<rparr>"
  have idle1: "idle plan hs1" and base1: "hs_base hs1 = hs_base hs" using idle by (simp_all add: idle_def hs1_def hs_base_def)
  have sides1: "hs_build_side hs1 = hs_build_side hs" "hs_probe_side hs1 = hs_probe_side hs" "hs_repartition hs1 = Some (next_part re)"
    by (simp_all add: hs1_def)
  note step = next_repartition_step [OF re, of T plan, folded hs1_def c]
  have loop: "next_partition_loop T plan h = obind (obind (next_repartition T plan (finish_repartition h)) (\<lambda>(found, hs).
        Some (Inr (found, if found then hs else hs\<lparr>hs_repartition := None\<rparr>)))) (\<lambda>(found, hs).
     if found then Some (Inr (True, hs))
     else obind (next_initial T plan hs) (\<lambda>(found, hs).
       if found then Some (Inr (True, hs))
       else if hs_repartition hs \<noteq> None then next_partition_loop T plan hs
       else Some (Inr (False, hs\<lparr>hs_partition_active := False\<rparr>))))" if "hs_repartition h \<noteq> None" for h
    by (subst next_partition_loop.simps) (simp only: that if_False)
  have parts: "parts_from phase written rest plan (next_part re) c RB RP" using next_part_parts [of phase written rest plan re RB RP] less.prems(3,5) c by simp
  have cint: "int c = re_current re + 1" using c cur by simp
  show ?case
  proof (cases "c < ?np")
    case False
    let ?hs' = "hs\<lparr>hs_repartition := None\<rparr>"
    have "next_repartition T plan (finish_repartition hs) = Some (Inr (False, hs1))" using step False cint by simp
    then have "next_partition_loop T plan hs = next_partition_loop T plan ?hs'"
      using loop [of hs] re by (subst (2) next_partition_loop.simps) (simp add: hs1_def)
    moreover have "idle plan ?hs'" using idle by (simp add: idle_def)
    ultimately have "emits T plan hs [] ?hs'" by (intro emits_same_start [OF idle])
    then show ?thesis using \<open>idle plan ?hs'\<close> False by (intro exI [of _ "[]"] exI [of _ ?hs']) (simp add: hs_base_def)
  next
    case True
    have untouched: "untouched phase written rest (re_build (next_part re)) c (RB c)" "untouched phase written rest (re_probe (next_part re)) c (RP c)"
      using parts True by (simp_all add: parts_from_def files_from_def)
    have shape: "side_shape (jp_ninner_columns plan) ?np False (re_build (next_part re))"
      "side_shape (jp_nouter_columns plan) ?np True (re_probe (next_part re))"
      using parts by (simp_all add: parts_from_def files_from_def)
    have sum: "(\<Sum>q \<in> {c..<?np}. hash_pairs (RB q) (RP q)) = hash_pairs (RB c) (RP c) + (\<Sum>q \<in> {Suc c..<?np}. hash_pairs (RB q) (RP q))"
      using True by (simp add: sum.atLeast_Suc_lessThan)
    have less': "?np - Suc c < ?np - c" using True by simp
    show ?thesis
    proof (cases "RB c = [] \<or> RP c = []")
      case missing: True
      then have "next_repartition T plan (finish_repartition hs) = next_repartition T plan (finish_repartition hs1)"
        using step untouched True cint by (auto simp: untouched_def)
      then have "next_partition_loop T plan hs = next_partition_loop T plan hs1"
        using loop [of hs] loop [of hs1] re sides1(3) by simp
      then have e: "emits T plan hs [] hs1" by (rule emits_same_start [OF idle idle1])
      have parts': "parts_from phase written rest plan (next_part re) (Suc c) RB RP"
        using parts files_from_le [of phase written rest _ _ _ _ c _ "Suc c"] unfolding parts_from_def by auto
      have "Suc c = nat (re_current (next_part re) + 1)" "- 1 \<le> re_current (next_part re)" using cint by simp_all
      with less.hyps [of "next_part re" "Suc c" hs1] less' idle1 sides1(3) parts'
      obtain ps hs' where IH: "emits T plan hs1 ps hs'" "idle plan hs'" "hs_repartition hs' = None" "hs_base hs' = hs_base hs1"
        "hs_build_side hs' = hs_build_side hs1" "hs_probe_side hs' = hs_probe_side hs1"
        "presented ps = (\<Sum>q \<in> {Suc c..<?np}. hash_pairs (RB q) (RP q))" "\<forall>x \<in> set ps. presents plan x"
        by auto
      then show ?thesis
        using emits_trans [OF e IH(1)] missing sum base1 sides1 by (intro exI [of _ ps] exI [of _ hs']) auto
    next
      case False
      have again: "build_side_of True hs1 = re_build (next_part re)" "probe_side_of True hs1 = re_probe (next_part re)"
        "True \<longrightarrow> hs_repartition hs1 \<noteq> None"
        by (simp_all add: build_side_of_def probe_side_of_def hs1_def)
      have len: "length (RB c) \<le> 2 ^ 30" using parts by (simp add: parts_from_def)
      obtain hs2 where s: "start_partition_files T plan True c (re_hash_shift re) hs1 = Some (Inr (True, hs2))" "partition_moved True c hs1 hs2"
        "active_inv phase written rest plan ?np True c hs2 (take (hs_build_chunk_rows hs1) (RB c)) (drop (hs_build_chunk_rows hs1) (RB c)) (RP c) (RP c)"
        using start_partition_ok [OF T idle1 True again(3), of "RB c" "RP c" "re_hash_shift re"] shape untouched False len
        unfolding again(1,2) by blast
      have "next_repartition T plan (finish_repartition hs) = Some (Inr (True, hs2))"
        using step untouched False True cint s(1) by (simp add: untouched_def)
      then have "next_partition_loop T plan hs = Some (Inr (True, hs2))" using loop [of hs] re by simp
      then have e: "emits T plan hs [] hs2"
        using emits_start [OF idle, of T hs2] start_next_idle [OF idle, of T] s(3) by (simp add: active_inv_def)
      obtain ps hs3 where a: "emits T plan hs2 ps hs3" "partition_moved True c hs2 hs3" "idle plan hs3"
        "presented ps = hash_pairs (RB c) (RP c)" "\<forall>x \<in> set ps. presents plan x"
        using active_chunks [OF T s(3)] by (auto simp flip: hash_pairs_append_left)
      have m: "partition_moved True c hs1 hs3" by (rule partition_moved_trans [OF s(2) a(2)])
      then obtain re3 where re3: "hs_repartition hs3 = Some re3" "re_npartitions re3 = ?np" "re_current re3 = re_current re + 1"
        "hs_base hs3 = hs_base hs1" "hs_build_side hs3 = hs_build_side hs1" "hs_probe_side hs3 = hs_probe_side hs1"
        "side_moved c (re_build (next_part re)) (re_build re3)" "side_moved c (re_probe (next_part re)) (re_probe re3)"
        by (auto simp: partition_moved_def hs_static_def build_side_of_def probe_side_of_def sides1(3))
      have parts3: "parts_from phase written rest plan re3 (Suc c) RB RP"
        using parts re3(2) files_from_moved [OF _ re3(7), of phase written rest _ _ _ c RB "Suc c"]
          files_from_moved [OF _ re3(8), of phase written rest _ _ _ c RP "Suc c"]
        by (simp add: parts_from_def)
      have "Suc c = nat (re_current re3 + 1)" "- 1 \<le> re_current re3" using cint re3(3) by simp_all
      with less.hyps [of re3 "Suc c" hs3] less' a(3) re3(1,2) parts3
      obtain qs hs' where IH: "emits T plan hs3 qs hs'" "idle plan hs'" "hs_repartition hs' = None" "hs_base hs' = hs_base hs3"
        "hs_build_side hs' = hs_build_side hs3" "hs_probe_side hs' = hs_probe_side hs3"
        "presented qs = (\<Sum>q \<in> {Suc c..<?np}. hash_pairs (RB q) (RP q))" "\<forall>x \<in> set qs. presents plan x"
        by auto
      have "emits T plan hs (ps @ qs) hs'" using emits_trans [OF e emits_trans [OF a(1) IH(1)]] by simp
      then show ?thesis
        using IH a(4,5) sum re3(4-6) base1 sides1 by (intro exI [of _ "ps @ qs"] exI [of _ hs']) auto
    qed
  qed
qed

section \<open>The initial partitions\<close>

lemma loop_without_parts:
  "hs_repartition hs = None \<Longrightarrow> next_partition_loop T plan hs = obind (next_initial T plan hs) (\<lambda>(found, hs).
       if found then Some (Inr (True, hs))
       else if hs_repartition hs \<noteq> None then next_partition_loop T plan hs
       else Some (Inr (False, hs\<lparr>hs_partition_active := False\<rparr>)))"
  by (subst next_partition_loop.simps) simp

lemma next_initial_step:
  fixes hs :: "'t hash_spill"
  defines "hs1 \<equiv> hs\<lparr>hs_current := hs_current hs + 1\<rparr>" and "p \<equiv> nat (hs_current hs + 1)"
  shows "next_initial T plan hs =
    (if \<not> hs_current hs + 1 < int (hs_npartitions hs) then Some (Inr (False, hs1))
     else if sd_files (hs_build_side hs) ! p = None \<or> sd_files (hs_probe_side hs) ! p = None then next_initial T plan hs1
     else obind (if hs_build_partition_rows hs ! p > hs_build_chunk_rows hs then repartition_current_partition T hs1
            else Some (Inr (False, hs1))) (\<lambda>(split, hs).
         if split then Some (Inr (False, hs))
         else obind (start_partition_files T plan False p (hs_partition_shift hs) hs) (\<lambda>(started, hs).
           if started then Some (Inr (True, hs)) else next_initial T plan hs)))"
  unfolding hs1_def p_def by (subst next_initial.simps) (simp add: Let_def cong: if_cong)

text \<open>The partitions from \<open>c\<close> on, none of them read yet.\<close>

definition partitions_from ::
  "('t \<Rightarrow> tape_phase) \<Rightarrow> ('t \<Rightarrow> byte list) \<Rightarrow> ('t \<Rightarrow> byte list) \<Rightarrow> join_plan \<Rightarrow> 't hash_spill \<Rightarrow> nat \<Rightarrow>
     (nat \<Rightarrow> row list) \<Rightarrow> (nat \<Rightarrow> row list) \<Rightarrow> bool" where
  "partitions_from phase written rest plan hs c RB RP \<longleftrightarrow>
     files_from phase written rest (jp_ninner_columns plan) (hs_npartitions hs) False (hs_build_side hs) c RB \<and>
     files_from phase written rest (jp_nouter_columns plan) (hs_npartitions hs) True (hs_probe_side hs) c RP \<and>
     (\<forall>q. length (RB q) \<le> 2 ^ 30)"

lemma partitions_from_moved:
  assumes "partitions_from phase written rest plan hs c RB RP" "hs_npartitions hs' = hs_npartitions hs"
    "side_moved c (hs_build_side hs) (hs_build_side hs')" "side_moved c (hs_probe_side hs) (hs_probe_side hs')"
  shows "partitions_from phase written rest plan hs' (Suc c) RB RP"
  using assms files_from_moved [OF _ assms(3), of phase written rest _ _ _ c RB "Suc c"]
    files_from_moved [OF _ assms(4), of phase written rest _ _ _ c RP "Suc c"]
  by (simp add: partitions_from_def)

lemma initial_partitions:
  assumes T: "tape_spec T phase written rest" and fit: "columns_fit plan"
  shows "idle plan hs \<Longrightarrow> hs_repartition hs = None \<Longrightarrow> - 1 \<le> hs_current hs \<Longrightarrow> c = nat (hs_current hs + 1) \<Longrightarrow>
    partitions_from phase written rest plan hs c RB RP \<Longrightarrow>
    \<exists>ps. spilled_batches T plan hs = Some (Inr ps) \<and>
      presented ps = (\<Sum>q \<in> {c..<hs_npartitions hs}. hash_pairs (RB q) (RP q)) \<and> (\<forall>x \<in> set ps. presents plan x)"
proof (induction "hs_npartitions hs - c" arbitrary: hs c rule: less_induct)
  case less
  note idle = less.prems(1) and none = less.prems(2) and cur = less.prems(3) and c = less.prems(4)
  let ?np = "hs_npartitions hs"
  define hs1 where "hs1 = hs\<lparr>hs_current := hs_current hs + 1\<rparr>"
  have idle1: "idle plan hs1" and none1: "hs_repartition hs1 = None" using idle none by (simp_all add: idle_def hs1_def)
  have f1: "hs_npartitions hs1 = ?np" "hs_current hs1 = hs_current hs + 1" "hs_build_side hs1 = hs_build_side hs"
    "hs_probe_side hs1 = hs_probe_side hs" "hs_partition_shift hs1 = hs_partition_shift hs" by (simp_all add: hs1_def)
  have cint: "int c = hs_current hs + 1" using c cur by simp
  note step = next_initial_step [of T plan hs, folded hs1_def c]
  show ?case
  proof (cases "c < ?np")
    case False
    have "next_initial T plan hs = Some (Inr (False, hs1))" using step False cint by simp
    then have "hash_join_fetch_spilled_probe_batch T plan hs = Some (Inr (False, hs1\<lparr>hs_partition_active := False\<rparr>))"
      using idle start_next_idle [OF idle, of T] loop_without_parts [OF none, of T plan] none1
      by (simp add: hash_join_fetch_spilled_probe_batch.simps [of T plan hs] idle_def)
    then have "spilled_batches T plan hs = Some (Inr [])" by (subst spilled_batches.simps) simp
    then show ?thesis using False by simp
  next
    case True
    have untouched: "untouched phase written rest (hs_build_side hs) c (RB c)" "untouched phase written rest (hs_probe_side hs) c (RP c)"
      and shape: "side_shape (jp_ninner_columns plan) ?np False (hs_build_side hs)"
      "side_shape (jp_nouter_columns plan) ?np True (hs_probe_side hs)" and len: "length (RB c) \<le> 2 ^ 30"
      using less.prems(5) True by (simp_all add: partitions_from_def files_from_def)
    have sum: "(\<Sum>q \<in> {c..<?np}. hash_pairs (RB q) (RP q)) = hash_pairs (RB c) (RP c) + (\<Sum>q \<in> {Suc c..<?np}. hash_pairs (RB q) (RP q))"
      using True by (simp add: sum.atLeast_Suc_lessThan)
    text \<open>Whatever was done with this partition, the loop goes on with the next.\<close>
    have go_on: ?thesis
      if e: "emits T plan hs ps h" "presented ps = hash_pairs (RB c) (RP c)" "\<forall>x \<in> set ps. presents plan x"
        and h: "idle plan h" "hs_repartition h = None" "hs_base h = hs_base hs1"
        "partitions_from phase written rest plan h (Suc c) RB RP" for ps h
    proof -
      have b: "hs_npartitions h = ?np" "hs_current h = hs_current hs + 1" using h(3) by (simp_all add: hs_base_def f1)
      have "?np - Suc c < ?np - c" "- 1 \<le> hs_current h" "Suc c = nat (hs_current h + 1)" using True cint b(2) by simp_all
      then obtain qs where qs: "spilled_batches T plan h = Some (Inr qs)"
        "presented qs = (\<Sum>q \<in> {Suc c..<?np}. hash_pairs (RB q) (RP q))" "\<forall>x \<in> set qs. presents plan x"
        using less.hyps [of h "Suc c"] h(1,2,4) unfolding b(1) by blast
      show ?thesis
        using emits_batches [OF e(1) qs(1)] e(2,3) qs(2,3) sum by auto
    qed
    show ?thesis
    proof (cases "RB c = [] \<or> RP c = []")
      case missing: True
      then have "next_initial T plan hs = next_initial T plan hs1" using step untouched True cint by (auto simp: untouched_def)
      then have "next_partition_loop T plan hs = next_partition_loop T plan hs1"
        using loop_without_parts [OF none, of T plan] loop_without_parts [OF none1, of T plan] by simp
      then have "emits T plan hs [] hs1" by (rule emits_same_start [OF idle idle1])
      moreover have "partitions_from phase written rest plan hs1 (Suc c) RB RP"
        using partitions_from_moved [OF less.prems(5), of hs1] f1 by simp
      ultimately show ?thesis using go_on [of "[]" hs1] idle1 none1 missing by auto
    next
      case False
      have p: "nat (hs_current hs1) = c" using f1(2) c by simp
      let ?decide = "if hs_build_partition_rows hs ! c > hs_build_chunk_rows hs then repartition_current_partition T hs1
          else Some (Inr (False, hs1))"
      obtain split hs2 where d: "?decide = Some (Inr (split, hs2))"
        "if split then idle plan hs2 \<and> hs_base hs2 = hs_base hs1 \<and> side_moved c (hs_build_side hs1) (hs_build_side hs2) \<and>
           side_moved c (hs_probe_side hs1) (hs_probe_side hs2) \<and>
           (\<exists>re RB' RP'. hs_repartition hs2 = Some re \<and> re_current re = - 1 \<and> parts_from phase written rest plan re 0 RB' RP' \<and>
              (\<Sum>q < re_npartitions re. hash_pairs (RB' q) (RP' q)) = hash_pairs (RB c) (RP c))
         else hs2 = hs1"
      proof (cases "hs_build_partition_rows hs ! c > hs_build_chunk_rows hs")
        case True
        from repartition_current_ok [OF T fit idle1 p \<open>c < ?np\<close>, unfolded f1, OF shape(1) untouched(1) _ len shape(2) untouched(2)] False
        obtain split hs2 where "repartition_current_partition T hs1 = Some (Inr (split, hs2))"
          "if split then idle plan hs2 \<and> hs_base hs2 = hs_base hs1 \<and> side_moved c (hs_build_side hs) (hs_build_side hs2) \<and>
             side_moved c (hs_probe_side hs) (hs_probe_side hs2) \<and>
             (\<exists>re RB' RP'. hs_repartition hs2 = Some re \<and> re_current re = - 1 \<and> parts_from phase written rest plan re 0 RB' RP' \<and>
                (\<Sum>q < re_npartitions re. hash_pairs (RB' q) (RP' q)) = hash_pairs (RB c) (RP c))
           else hs2 = hs1" by blast
        then show ?thesis using that [of split hs2] True unfolding f1 by simp
      next
        case False
        then show ?thesis using that [of False hs1] by simp
      qed
      show ?thesis
      proof (cases split)
        case True
        then obtain re RB' RP' where s: "idle plan hs2" "hs_base hs2 = hs_base hs1" "side_moved c (hs_build_side hs) (hs_build_side hs2)"
          "side_moved c (hs_probe_side hs) (hs_probe_side hs2)" "hs_repartition hs2 = Some re" "re_current re = - 1"
          "parts_from phase written rest plan re 0 RB' RP'"
          "(\<Sum>q < re_npartitions re. hash_pairs (RB' q) (RP' q)) = hash_pairs (RB c) (RP c)"
          using d(2) f1 by auto
        have "next_initial T plan hs = Some (Inr (False, hs2))"
          using step untouched False \<open>c < ?np\<close> cint d(1) True by (simp add: untouched_def)
        then have "next_partition_loop T plan hs = next_partition_loop T plan hs2"
          using loop_without_parts [OF none, of T plan] s(5) by simp
        then have e: "emits T plan hs [] hs2" by (rule emits_same_start [OF idle s(1)])
        obtain ps hs3 where q: "emits T plan hs2 ps hs3" "idle plan hs3" "hs_repartition hs3 = None" "hs_base hs3 = hs_base hs2"
          "hs_build_side hs3 = hs_build_side hs2" "hs_probe_side hs3 = hs_probe_side hs2"
          "presented ps = (\<Sum>q \<in> {0..<re_npartitions re}. hash_pairs (RB' q) (RP' q))" "\<forall>x \<in> set ps. presents plan x"
          using sub_partitions [OF T s(1,5), of 0 RB' RP'] s(6,7) by auto
        have "hs_npartitions hs3 = hs_npartitions hs" using q(4) s(2) f1(1) by (simp add: hs_base_def)
        with partitions_from_moved [OF less.prems(5), of hs3] s(3,4) q(5,6)
        have "partitions_from phase written rest plan hs3 (Suc c) RB RP" by simp
        with go_on [OF emits_trans [OF e q(1)]] q s(2,8) show ?thesis by (simp add: atLeast0LessThan)
      next
        case whole: False
        then have hs2: "hs2 = hs1" using d(2) by simp
        have again: "build_side_of False hs1 = hs_build_side hs" "probe_side_of False hs1 = hs_probe_side hs"
          by (simp_all add: build_side_of_def probe_side_of_def f1)
        obtain hs3 where s: "start_partition_files T plan False c (hs_partition_shift hs) hs1 = Some (Inr (True, hs3))"
          "partition_moved False c hs1 hs3"
          "active_inv phase written rest plan ?np False c hs3 (take (hs_build_chunk_rows hs1) (RB c)) (drop (hs_build_chunk_rows hs1) (RB c)) (RP c) (RP c)"
          using start_partition_ok [OF T idle1 True, of False "RB c" "RP c" "hs_partition_shift hs"] shape untouched False len
          unfolding again by auto
        have "next_initial T plan hs = Some (Inr (True, hs3))"
          using step untouched False True cint d(1) whole s(1) hs2 by (simp add: untouched_def f1)
        then have "next_partition_loop T plan hs = Some (Inr (True, hs3))" using loop_without_parts [OF none, of T plan] by simp
        then have e: "emits T plan hs [] hs3"
          using emits_start [OF idle, of T hs3] start_next_idle [OF idle, of T] s(3) by (simp add: active_inv_def)
        obtain ps hs4 where a: "emits T plan hs3 ps hs4" "partition_moved False c hs3 hs4" "idle plan hs4"
          "presented ps = hash_pairs (RB c) (RP c)" "\<forall>x \<in> set ps. presents plan x"
          using active_chunks [OF T s(3)] by (auto simp flip: hash_pairs_append_left)
        have m: "partition_moved False c hs1 hs4" by (rule partition_moved_trans [OF s(2) a(2)])
        then have h: "hs_base hs4 = hs_base hs1" "hs_repartition hs4 = None" "side_moved c (hs_build_side hs) (hs_build_side hs4)"
          "side_moved c (hs_probe_side hs) (hs_probe_side hs4)"
          using none1 static_repartition [of hs4 hs1] by (auto simp: partition_moved_def hs_static_def build_side_of_def probe_side_of_def f1)
        have "hs_npartitions hs4 = hs_npartitions hs" using h(1) f1(1) by (simp add: hs_base_def)
        with partitions_from_moved [OF less.prems(5), of hs4] h(3,4)
        have "partitions_from phase written rest plan hs4 (Suc c) RB RP" by simp
        with go_on [OF emits_trans [OF e a(1)]] a(3-5) h(1,2) show ?thesis by simp
      qed
    qed
  qed
qed

end
