(* ===== verification/Join_Resident.thy ===== *)
theory Join_Resident
  imports Join_Reading
begin

text \<open>
  The buffer of probe rows whose partition is resident: rows are appended at its end, the
  first 64 become a batch, and finishing that batch moves the others to the front.
\<close>

section \<open>Cells\<close>

definition block_cell :: "join_block \<Rightarrow> nat \<Rightarrow> nat \<Rightarrow> int4 option" where
  "block_cell block column row =
     (if hash_join_spill_value_valid block column row then Some (hash_join_spill_value block column row) else None)"

lemma block_cell_update [simp]:
  "block_cell (block\<lparr>jb_nrows := m\<rparr>) = block_cell block" "block_cell (block\<lparr>jb_hashes := h\<rparr>) = block_cell block"
  "block_cell (block\<lparr>jb_nrows := m, jb_hashes := h\<rparr>) = block_cell block"
  by (simp_all add: fun_eq_iff block_cell_def hash_join_spill_value_valid_def hash_join_spill_value_def)

text \<open>The buffer is allocated, and the rows behind its end are not valid.\<close>

definition resident_ok :: "nat \<Rightarrow> join_block \<Rightarrow> bool" where
  "resident_ok n block \<longleftrightarrow> jb_ncolumns block = n \<and> jb_capacity block = 128 \<and> jb_nrows block \<le> 128 \<and>
     length (jb_hashes block) = 128 \<and> length (jb_values block) = n * 128 \<and> length (jb_validity block) = n * 16 \<and>
     (\<forall>column < n. \<forall>row < 128. jb_nrows block \<le> row \<longrightarrow> block_cell block column row = None)"

lemma resident_ok_init: "resident_ok n (hash_join_init_spill_block n (PG_BATCH_SIZE * 2) True)"
proof -
  have "column * 16 + row div 8 < n * 16" if "column < n" "row < 128" for column row :: nat
    using mult_add_less [of column n "row div 8" 16] that by simp
  then show ?thesis
    by (simp add: resident_ok_def hash_join_init_spill_block_def block_cell_def hash_join_spill_value_valid_def Let_def)
qed

lemma join_block_cells:
  "join_block_rows block = map (\<lambda>row. (jb_hashes block ! row, map (\<lambda>column. block_cell block column row) [0..<jb_ncolumns block]))
     [0..<jb_nrows block]"
  by (simp add: join_block_rows_def block_cell_def)

lemma init_block_rows [simp]: "join_block_rows (hash_join_init_spill_block n m a) = []"
  by (simp add: join_block_rows_def hash_join_init_spill_block_def)

lemma block_cell_index:
  "\<lbrakk>row < m; row' < (m :: nat)\<rbrakk> \<Longrightarrow> column * m + row = column' * m + row' \<longleftrightarrow> column = column' \<and> row = row'"
  by (metis div_mult_self3 mod_mult_self3 mod_less div_less add.right_neutral less_nat_zero_code neq0_conv)

lemma same_bit: "row div 8 = row' div 8 \<and> row mod 8 = row' mod 8 \<longleftrightarrow> row = (row' :: nat)"
  by (metis div_mult_mod_eq)

section \<open>Appending a row\<close>

definition put_cell :: "int4_vector list \<Rightarrow> nat \<Rightarrow> nat \<Rightarrow> nat \<Rightarrow> join_block \<Rightarrow> join_block" where
  "put_cell columns row output column block =
     (let (v, isnull) = hash_join_input_value (columns ! column) row;
          block = block\<lparr>jb_values := (jb_values block)[column * jb_capacity block + output := v]\<rparr>;
          k = column * 16 + output div 8
      in if \<not> isnull
         then block\<lparr>jb_validity := (jb_validity block)[k := (jb_validity block ! k) OR push_bit (output mod 8) 1]\<rparr>
         else block)"

definition same_block :: "join_block \<Rightarrow> join_block \<Rightarrow> bool" where
  "same_block block block' \<longleftrightarrow> jb_ncolumns block' = jb_ncolumns block \<and> jb_capacity block' = jb_capacity block \<and>
     jb_nrows block' = jb_nrows block \<and> jb_hashes block' = jb_hashes block \<and>
     length (jb_values block') = length (jb_values block) \<and> length (jb_validity block') = length (jb_validity block)"

definition block_shape :: "nat \<Rightarrow> join_block \<Rightarrow> bool" where
  "block_shape n block \<longleftrightarrow> jb_capacity block = 128 \<and> length (jb_values block) = n * 128 \<and> length (jb_validity block) = n * 16"

lemma same_block_shape: "same_block block block' \<Longrightarrow> block_shape n block \<Longrightarrow> block_shape n block'"
  by (simp add: same_block_def block_shape_def)

lemma put_cell_ok:
  assumes shape: "block_shape n block" and c: "column < n" and o: "output < 128"
    and free: "block_cell block column output = None"
  shows "same_block block (put_cell columns row output column block)"
    and "\<lbrakk>c' < n; r' < 128\<rbrakk> \<Longrightarrow> block_cell (put_cell columns row output column block) c' r' =
      (if c' = column \<and> r' = output then vec_get (columns ! column) row else block_cell block c' r')"
proof -
  have cap: "jb_capacity block = 128" using shape by (simp add: block_shape_def)
  have ov: "column * 128 + output < length (jb_values block)" "column * 16 + output div 8 < length (jb_validity block)"
    using shape mult_add_less [OF c o] mult_add_less [OF c, of "output div 8" 16] o
    by (simp_all add: block_shape_def)
  show "same_block block (put_cell columns row output column block)"
    by (simp add: put_cell_def same_block_def Let_def split: prod.splits)
  assume c': "c' < n" "r' < 128"
  have vi: "column * 128 + output = c' * 128 + r' \<longleftrightarrow> column = c' \<and> output = r'"
    using o c'(2) by (simp add: block_cell_index)
  have bi: "column * 16 + output div 8 = c' * 16 + r' div 8 \<longleftrightarrow> column = c' \<and> output div 8 = r' div 8"
    using o c'(2) by (simp add: block_cell_index)
  have sb: "output div 8 = r' div 8 \<Longrightarrow> output mod 8 = r' mod 8 \<longleftrightarrow> output = r'" using same_bit [of "output" r'] by blast
  have free': "\<not> bit (jb_validity block ! (column * 16 + output div 8)) (output mod 8)"
    using free cap by (simp add: block_cell_def hash_join_spill_value_valid_def Let_def split: if_splits)
  obtain v isnull where v: "hash_join_input_value (columns ! column) row = (v, isnull)" by (cases "hash_join_input_value (columns ! column) row")
  have get: "vec_get (columns ! column) row = (if isnull then None else Some v)"
    using v by (auto simp: hash_join_input_value_def vec_get_def Let_def split: if_splits)
  have "hash_join_spill_value_valid (put_cell columns row output column block) c' r' \<longleftrightarrow>
      (if c' = column \<and> r' = output then \<not> isnull else hash_join_spill_value_valid block c' r')"
    using ov(2) vi bi sb free' by (auto simp: put_cell_def v cap hash_join_spill_value_valid_def Let_def nth_list_update bit_simps
        simp del: push_bit_of_1 push_bit_eq_mult)
  moreover have "hash_join_spill_value (put_cell columns row output column block) c' r' =
      (if c' = column \<and> r' = output then v else hash_join_spill_value block c' r')"
    using ov(1) vi by (auto simp: put_cell_def v cap hash_join_spill_value_def Let_def nth_list_update)
  ultimately show "block_cell (put_cell columns row output column block) c' r' =
      (if c' = column \<and> r' = output then vec_get (columns ! column) row else block_cell block c' r')"
    by (auto simp: block_cell_def get)
qed

lemma put_cells_ok:
  assumes shape: "block_shape n block" and o: "output < 128" and free: "\<forall>column < n. block_cell block column output = None"
  shows "k \<le> n \<Longrightarrow> same_block block (fold (put_cell columns row output) [0..<k] block) \<and>
    (\<forall>c' < n. \<forall>r' < 128. block_cell (fold (put_cell columns row output) [0..<k] block) c' r' =
      (if c' < k \<and> r' = output then vec_get (columns ! c') row else block_cell block c' r'))"
proof (induction k)
  case 0
  then show ?case by (simp add: same_block_def)
next
  case (Suc k)
  let ?b = "fold (put_cell columns row output) [0..<k] block"
  have ih: "same_block block ?b" "\<And>c' r'. \<lbrakk>c' < n; r' < 128\<rbrakk> \<Longrightarrow> block_cell ?b c' r' =
      (if c' < k \<and> r' = output then vec_get (columns ! c') row else block_cell block c' r')"
    using Suc by auto
  have "block_cell ?b k output = None" using ih(2) [of k "output"] o free Suc.prems by simp
  have "k < n" using Suc.prems by simp
  note step = put_cell_ok [where row = row and columns = columns, OF same_block_shape [OF ih(1) shape] \<open>k < n\<close> o \<open>block_cell ?b k output = None\<close>]
  have "same_block block (put_cell columns row output k ?b)"
    using ih(1) step(1) by (simp add: same_block_def)
  moreover have "block_cell (put_cell columns row output k ?b) c' r' =
      (if c' < Suc k \<and> r' = output then vec_get (columns ! c') row else block_cell block c' r')" if "c' < n" "r' < 128" for c' r'
    using step(2) [OF that] ih(2) [OF that] by (auto simp: less_Suc_eq)
  ultimately show ?case by simp
qed

lemma buffer_row_ok:
  assumes ok: "resident_ok n block" and room: "jb_nrows block < 128"
  shows "\<exists>block'. buffer_resident_probe_row columns row (hashes ! row) block = Inr block' \<and> resident_ok n block' \<and>
    join_block_rows block' = join_block_rows block @ [batch_row n columns hashes row]"
proof -
  let ?o = "jb_nrows block"
  let ?b = "block\<lparr>jb_nrows := ?o + 1, jb_hashes := (jb_hashes block)[?o := hashes ! row]\<rparr>"
  let ?b' = "fold (put_cell columns row ?o) [0..<n] ?b"
  note f = ok [unfolded resident_ok_def]
  have run: "buffer_resident_probe_row columns row (hashes ! row) block = Inr ?b'"
    using f room by (simp add: buffer_resident_probe_row_def put_cell_def [abs_def] Let_def)
  have "block_shape n ?b" using f by (simp add: block_shape_def)
  moreover have "\<forall>column < n. block_cell ?b column ?o = None" using f room by simp
  ultimately have b': "same_block ?b ?b'" "\<And>c' r'. \<lbrakk>c' < n; r' < 128\<rbrakk> \<Longrightarrow> block_cell ?b' c' r' =
      (if r' = ?o then vec_get (columns ! c') row else block_cell block c' r')"
    using put_cells_ok [of n ?b ?o n columns row] room by auto
  have "resident_ok n ?b'"
    using f b' room by (simp add: resident_ok_def same_block_def)
  moreover have "join_block_rows ?b' = join_block_rows block @ [batch_row n columns hashes row]"
  proof -
    have h: "jb_ncolumns ?b' = n" "jb_ncolumns block = n" "jb_nrows ?b' = Suc ?o" "jb_hashes ?b' = (jb_hashes block)[?o := hashes ! row]"
      using f b'(1) by (simp_all add: same_block_def)
    have old: "map (\<lambda>column. block_cell ?b' column r) [0..<n] = map (\<lambda>column. block_cell block column r) [0..<n]" if "r < ?o" for r
      using that b'(2) [of _ r] room by simp
    have new: "map (\<lambda>column. block_cell ?b' column ?o) [0..<n] = map (\<lambda>column. vec_get (columns ! column) row) [0..<n]"
      using b'(2) [of _ ?o] room by simp
    have "length (jb_hashes block) = 128" using f by simp
    then show ?thesis
      unfolding join_block_cells h(1,2,3,4) using old new room by (simp add: batch_row_def)
  qed
  ultimately show ?thesis using run by blast
qed

section \<open>Moving rows to the front\<close>

lemma nth_splice:
  assumes "length mid = m" "length V = n * m" "c < n" "c' < n" "r < (m :: nat)"
  shows "(take (c * m) V @ mid @ drop (c * m + m) V) ! (c' * m + r) = (if c' = c then mid ! r else V ! (c' * m + r))"
proof -
  have cm: "c * m + m \<le> n * m" using mult_le_mono1 [of "Suc c" n m] assms(3) by simp
  consider "c' < c" | "c' = c" | "c < c'" by linarith
  then show ?thesis
  proof cases
    case 1
    then have "c' * m + r < c * m" using mult_add_less [OF 1 assms(5)] by simp
    then show ?thesis using 1 cm assms(2) by (simp add: nth_append)
  next
    case 2
    then show ?thesis using cm assms by (simp add: nth_append)
  next
    case 3
    then have "c * m + m \<le> c' * m" using mult_le_mono1 [of "Suc c" c' m] by simp
    then have "\<not> c' * m + r < c * m" "\<not> c' * m + r - c * m < m" by linarith+
    then show ?thesis using 3 cm assms \<open>c * m + m \<le> c' * m\<close> by (simp add: nth_append)
  qed
qed

lemma packed_bits:
  fixes P :: "nat \<Rightarrow> bool"
  assumes "k \<le> 8 * m"
  defines "t \<equiv> fold (\<lambda>row tmp. if P row then tmp[row div 8 := (tmp ! (row div 8)) OR push_bit (row mod 8) 1] else tmp) [0..<k]
      (replicate m (0 :: byte))"
  shows "length t = m" "r < 8 * m \<Longrightarrow> bit (t ! (r div 8)) (r mod 8) \<longleftrightarrow> r < k \<and> P r"
proof -
  let ?f = "\<lambda>row tmp :: byte list. if P row then tmp[row div 8 := (tmp ! (row div 8)) OR push_bit (row mod 8) 1] else tmp"
  have "k \<le> 8 * m \<Longrightarrow> length (fold ?f [0..<k] (replicate m 0)) = m \<and>
      (\<forall>r < 8 * m. bit (fold ?f [0..<k] (replicate m 0) ! (r div 8)) (r mod 8) \<longleftrightarrow> r < k \<and> P r)" for k
  proof (induction k)
    case 0
    have "r div 8 < m" if "r < 8 * m" for r using that by (simp add: less_mult_imp_div_less mult.commute)
    then show ?case by simp
  next
    case (Suc k)
    let ?t = "fold ?f [0..<k] (replicate m 0)"
    have ih: "length ?t = m" "\<And>r. r < 8 * m \<Longrightarrow> bit (?t ! (r div 8)) (r mod 8) \<longleftrightarrow> r < k \<and> P r"
      using Suc by auto
    have k: "k div 8 < m" using Suc.prems by (simp add: less_mult_imp_div_less mult.commute)
    have same: "k div 8 = r div 8 \<Longrightarrow> k mod 8 = r mod 8 \<longleftrightarrow> k = r" for r using same_bit [of k r] by blast
    have "bit (?f k ?t ! (r div 8)) (r mod 8) \<longleftrightarrow> r < Suc k \<and> P r" if r: "r < 8 * m" for r
      using ih(2) [OF r] ih(1) k same [of r]
      by (cases "k div 8 = r div 8")
        (auto simp: nth_list_update bit_simps less_Suc_eq simp del: push_bit_of_1 push_bit_eq_mult)
    moreover have "length (?f k ?t) = m" using ih(1) by simp
    ultimately show ?case by simp
  qed
  from this [OF assms(1)] show "length t = m" "r < 8 * m \<Longrightarrow> bit (t ! (r div 8)) (r mod 8) \<longleftrightarrow> r < k \<and> P r"
    unfolding t_def by auto
qed

definition move_column :: "nat \<Rightarrow> nat \<Rightarrow> nat \<Rightarrow> join_block \<Rightarrow> join_block" where
  "move_column consumed remaining column block =
     (let validity = drop (column * 16) (jb_validity block);
          tmp = fold (\<lambda>row tmp.
              if bit (validity ! ((consumed + row) div 8)) ((consumed + row) mod 8)
              then tmp[row div 8 := (tmp ! (row div 8)) OR push_bit (row mod 8) 1] else tmp)
            [0..<remaining] (replicate 8 0)
      in block\<lparr>jb_values := take (column * 128) (jb_values block) @
            move_down consumed remaining (take 128 (drop (column * 128) (jb_values block))) @
            drop (column * 128 + 128) (jb_values block),
          jb_validity := take (column * 16) (jb_validity block) @
            tmp @ replicate (16 - length tmp) 0 @ drop (column * 16 + 16) (jb_validity block)\<rparr>)"

lemma move_down_nth:
  "\<lbrakk>consumed + remaining \<le> length xs; r < remaining\<rbrakk> \<Longrightarrow> move_down consumed remaining xs ! r = xs ! (consumed + r)"
  "consumed + remaining \<le> length xs \<Longrightarrow> length (move_down consumed remaining xs) = length xs"
  by (simp_all add: move_down_def nth_append)

lemma move_column_ok:
  assumes shape: "block_shape n block" and c: "column < n" and k: "consumed + remaining \<le> 128" "remaining \<le> 64"
  shows "same_block block (move_column consumed remaining column block)"
    and "\<lbrakk>c' < n; r' < 128\<rbrakk> \<Longrightarrow> block_cell (move_column consumed remaining column block) c' r' =
      (if c' = column then if r' < remaining then block_cell block c' (consumed + r') else None else block_cell block c' r')"
proof -
  let ?P = "\<lambda>row. bit (drop (column * 16) (jb_validity block) ! ((consumed + row) div 8)) ((consumed + row) mod 8)"
  let ?tmp = "fold (\<lambda>row tmp. if ?P row then tmp[row div 8 := (tmp ! (row div 8)) OR push_bit (row mod 8) 1] else tmp)
      [0..<remaining] (replicate 8 (0 :: byte))"
  let ?mid = "move_down consumed remaining (take 128 (drop (column * 128) (jb_values block)))"
  let ?b = "move_column consumed remaining column block"
  note s = shape [unfolded block_shape_def]
  have c16: "column * 16 + 16 \<le> n * 16" "column * 128 + 128 \<le> n * 128"
    using mult_le_mono1 [of "Suc column" n 16] mult_le_mono1 [of "Suc column" n 128] c by simp_all
  note t = packed_bits [where k = remaining and m = 8 and P = ?P]
  have lens: "length ?tmp = 8" "length ?mid = 128" "length (?tmp @ replicate 8 0) = 16"
    using t(1) k c16 s by (simp_all add: move_down_nth)
  have b: "?b = block\<lparr>jb_values := take (column * 128) (jb_values block) @ ?mid @ drop (column * 128 + 128) (jb_values block),
      jb_validity := take (column * 16) (jb_validity block) @ (?tmp @ replicate 8 0) @ drop (column * 16 + 16) (jb_validity block)\<rparr>"
    unfolding move_column_def Let_def lens(1) by simp
  show "same_block block ?b" unfolding b same_block_def using lens c16 s by simp
  assume c': "c' < n" "r' < 128"
  have r8: "r' div 8 < 16" using c'(2) by simp
  have "jb_validity ?b ! (c' * 16 + r' div 8) = (if c' = column then (?tmp @ replicate 8 0) ! (r' div 8) else jb_validity block ! (c' * 16 + r' div 8))"
    unfolding b using nth_splice [OF lens(3) _ c c'(1) r8, of "jb_validity block"] s by simp
  moreover have "bit ((?tmp @ replicate 8 0) ! (r' div 8)) (r' mod 8) \<longleftrightarrow> r' < remaining \<and> ?P r'"
  proof (cases "r' < 64")
    case True
    then have "r' div 8 < 8" by simp
    then show ?thesis using True t(2) [of r'] k(2) lens(1) by (simp add: nth_append)
  next
    case False
    then have "8 \<le> r' div 8" "\<not> r' < remaining" using k(2) by simp_all
    then show ?thesis using r8 lens(1) by (simp add: nth_append)
  qed
  moreover have "?P r' \<longleftrightarrow> bit (jb_validity block ! (column * 16 + (consumed + r') div 8)) ((consumed + r') mod 8)"
    using c16 s by simp
  ultimately have valid: "hash_join_spill_value_valid ?b c' r' \<longleftrightarrow>
      (if c' = column then r' < remaining \<and> hash_join_spill_value_valid block c' (consumed + r') else hash_join_spill_value_valid block c' r')"
    using s by (simp add: hash_join_spill_value_valid_def b Let_def)
  have "jb_values ?b ! (c' * 128 + r') = (if c' = column then ?mid ! r' else jb_values block ! (c' * 128 + r'))"
    unfolding b using nth_splice [OF lens(2) _ c c'] s by simp
  moreover have "?mid ! r' = jb_values block ! (column * 128 + (consumed + r'))" if "r' < remaining"
  proof -
    have "?mid ! r' = take 128 (drop (column * 128) (jb_values block)) ! (consumed + r')"
      using that k c16 s by (intro move_down_nth) simp_all
    then show ?thesis using that k c16 s by simp
  qed
  moreover have "jb_capacity ?b = 128" "jb_capacity block = 128" using s by (simp_all add: b)
  ultimately show "block_cell ?b c' r' =
      (if c' = column then if r' < remaining then block_cell block c' (consumed + r') else None else block_cell block c' r')"
    using valid by (auto simp: block_cell_def hash_join_spill_value_def)
qed

lemma move_columns_ok:
  assumes shape: "block_shape n block" and k: "consumed + remaining \<le> 128" "remaining \<le> 64"
  shows "m \<le> n \<Longrightarrow> same_block block (fold (move_column consumed remaining) [0..<m] block) \<and>
    (\<forall>c' < n. \<forall>r' < 128. block_cell (fold (move_column consumed remaining) [0..<m] block) c' r' =
      (if c' < m then if r' < remaining then block_cell block c' (consumed + r') else None else block_cell block c' r'))"
proof (induction m)
  case 0
  then show ?case by (simp add: same_block_def)
next
  case (Suc m)
  let ?b = "fold (move_column consumed remaining) [0..<m] block"
  have ih: "same_block block ?b" "\<And>c' r'. \<lbrakk>c' < n; r' < 128\<rbrakk> \<Longrightarrow> block_cell ?b c' r' =
      (if c' < m then if r' < remaining then block_cell block c' (consumed + r') else None else block_cell block c' r')"
    using Suc by auto
  have m: "m < n" using Suc.prems by simp
  note step = move_column_ok [OF same_block_shape [OF ih(1) shape] m k]
  have "same_block block (move_column consumed remaining m ?b)"
    using ih(1) step(1) by (simp add: same_block_def)
  moreover have "block_cell (move_column consumed remaining m ?b) c' r' =
      (if c' < Suc m then if r' < remaining then block_cell block c' (consumed + r') else None else block_cell block c' r')"
    if "c' < n" "r' < 128" for c' r'
    using step(2) [OF that] ih(2) [OF that] ih(2) [OF that(1), of "consumed + r'"] k(1) by (auto simp: less_Suc_eq)
  ultimately show ?case by simp
qed

lemma finish_resident_ok:
  assumes ok: "resident_ok n block" and few: "jb_nrows block \<le> 128"
  shows "resident_ok n (hash_join_finish_resident_probe (resident_batch_rows block) block)"
    "join_block_rows (hash_join_finish_resident_probe (resident_batch_rows block) block) =
      drop (resident_batch_rows block) (join_block_rows block)"
proof -
  let ?k = "resident_batch_rows block" and ?m = "jb_nrows block - resident_batch_rows block"
  let ?b' = "hash_join_finish_resident_probe ?k block"
  note f = ok [unfolded resident_ok_def]
  have k: "?k \<le> jb_nrows block" "?m \<le> 64" "?k + ?m = jb_nrows block" using few by (simp_all add: resident_batch_rows_def)
  have "resident_ok n ?b' \<and> join_block_rows ?b' = drop ?k (join_block_rows block)"
  proof (cases "0 < ?m")
    case True
    let ?b = "block\<lparr>jb_hashes := move_down ?k ?m (jb_hashes block), jb_nrows := ?m\<rparr>"
    have b': "?b' = fold (move_column ?k ?m) [0..<n] ?b"
      using True f by (simp add: hash_join_finish_resident_probe_def move_column_def [abs_def] Let_def)
    have cell: "block_cell ?b = block_cell block"
      by (simp add: fun_eq_iff block_cell_def hash_join_spill_value_valid_def hash_join_spill_value_def)
    have "block_shape n ?b" using f by (simp add: block_shape_def)
    then have m: "same_block ?b ?b'" "\<And>c' r'. \<lbrakk>c' < n; r' < 128\<rbrakk> \<Longrightarrow> block_cell ?b' c' r' =
        (if r' < ?m then block_cell block c' (?k + r') else None)"
      using move_columns_ok [of n ?b ?k ?m n] k few unfolding b' by (auto simp: cell)
    have h: "jb_ncolumns ?b' = n" "jb_nrows ?b' = ?m" "jb_hashes ?b' = move_down ?k ?m (jb_hashes block)"
      using m(1) f by (simp_all add: same_block_def)
    have hl: "length (jb_hashes block) = 128" using f by simp
    have "resident_ok n ?b'"
      using f m h k few by (simp add: resident_ok_def same_block_def move_down_nth)
    moreover have "join_block_rows ?b' = drop ?k (join_block_rows block)"
    proof (rule nth_equalityI)
      fix i assume "i < length (join_block_rows ?b')"
      then have i: "i < ?m" by (simp add: h)
      have nc: "jb_ncolumns block = n" using f by simp
      have "?k + i < jb_nrows block" using i by simp
      have "jb_hashes ?b' ! i = jb_hashes block ! (?k + i)"
        unfolding h(3) using i k few hl by (intro move_down_nth) simp_all
      moreover have "map (\<lambda>column. block_cell ?b' column i) [0..<n] = map (\<lambda>column. block_cell block column (?k + i)) [0..<n]"
        using m(2) i k few by simp
      ultimately show "join_block_rows ?b' ! i = drop ?k (join_block_rows block) ! i"
        unfolding join_block_cells h(1,2) nc using i \<open>?k + i < jb_nrows block\<close> by simp
    qed (simp add: h)
    ultimately show ?thesis by simp
  next
    case False
    then have m: "?m = 0" by simp
    have bits: "column * 16 + row div 8 < n * 16" if "column < n" "row < 128" for column row :: nat
      using mult_add_less [of column n "row div 8" 16] that by simp
    have b': "?b' = block\<lparr>jb_validity := replicate (n * 16) 0 @ drop (n * 16) (jb_validity block), jb_nrows := 0\<rparr>"
      using m f by (simp add: hash_join_finish_resident_probe_def Let_def)
    have "block_cell ?b' column row = None" if "column < n" "row < 128" for column row
      using bits [OF that] f by (simp add: b' block_cell_def hash_join_spill_value_valid_def Let_def nth_append)
    then have "resident_ok n ?b'" using f by (simp add: resident_ok_def b')
    moreover have "join_block_rows ?b' = []" by (simp add: b' join_block_rows_def)
    ultimately show ?thesis using m by simp
  qed
  then show "resident_ok n ?b'" "join_block_rows ?b' = drop ?k (join_block_rows block)" by simp_all
qed

end
