(* ===== verification/Join_Probe_Spill.thy ===== *)
theory Join_Probe_Spill
  imports Join_Partition_Loop Join_Resident
begin

text \<open>
  The probe side of a spilled hash join: every outer row that can have a match goes either
  to the buffer of resident rows or to the file of its partition; the buffer is handed out
  while the outer input is read, the files afterwards.
\<close>

section \<open>Routing a batch\<close>

text \<open>The outer rows with all keys present: hash and column values.\<close>

definition outer_rows :: "join_plan \<Rightarrow> probe_batch list \<Rightarrow> row list" where
  "outer_rows plan batches = concat (map (\<lambda>batch.
     let keys = map (\<lambda>key. pb_columns batch ! key) (jp_outer_keys plan)
     in map (\<lambda>r. (row_hash (jp_murmurhash32 plan) (jp_hash_combine plan) (key_values keys r),
              map (\<lambda>column. vec_get (pb_columns batch ! column) r) [0..<jp_nouter_columns plan]))
          (filter (keys_present keys) (selected (pb_selection batch)))) batches)"

lemma outer_rows_Cons: "outer_rows plan (batch # batches) = outer_rows plan [batch] @ outer_rows plan batches"
  by (simp add: outer_rows_def)

lemma outer_rows_Nil [simp]: "outer_rows plan [] = []"
  by (simp add: outer_rows_def)

lemma outer_rows_batch:
  assumes batch: "probe_wf plan (jp_outer_keys plan) batch" and h: "hash_input_batch plan (jp_outer_keys plan) batch = (w, hs)"
  shows "outer_rows plan [batch] = map (batch_row (jp_nouter_columns plan) (pb_columns batch) hs) (word_rows w)"
proof -
  note bits = hash_input_batch_ok [OF batch h] and rows = hash_rows_positions [OF batch h]
  show ?thesis unfolding outer_rows_def rows batch_row_def using bits by (auto simp: Let_def)
qed

text \<open>The first loop of \<open>hash_join_spill_input_batch\<close> on the rows it keeps.\<close>

lemma route_rows_ok:
  fixes part :: "nat \<Rightarrow> nat"
  shows "resident_ok n block \<Longrightarrow> jb_nrows block + length rows \<le> 128 \<Longrightarrow>
    \<forall>row \<in> set rows. part row \<in> set resident \<or> files ! part row \<noteq> None \<Longrightarrow>
    \<exists>block'. rfold (\<lambda>row (block, heads).
        let p = part row
        in if p \<in> set resident
           then rbind (buffer_resident_probe_row columns row (hashes ! row) block) (\<lambda>block. Inr (block, heads))
           else if files ! p = None then Inr (block, heads)
           else Inr (block, link_row p row heads)) rows (block, heads) =
      Inr (block', fold (\<lambda>row. link_row (part row) row) (filter (\<lambda>row. part row \<notin> set resident) rows) heads) \<and>
      resident_ok n block' \<and>
      join_block_rows block' = join_block_rows block @ map (batch_row n columns hashes) (filter (\<lambda>row. part row \<in> set resident) rows)"
proof (induction rows arbitrary: block heads)
  case Nil
  then show ?case by simp
next
  case (Cons row rows)
  show ?case
  proof (cases "part row \<in> set resident")
    case True
    have "jb_nrows block < 128" using Cons.prems(2) by simp
    from buffer_row_ok [OF Cons.prems(1) this] obtain block1 where
      b: "buffer_resident_probe_row columns row (hashes ! row) block = Inr block1" "resident_ok n block1"
      "join_block_rows block1 = join_block_rows block @ [batch_row n columns hashes row]" by blast
    have "jb_nrows block1 = Suc (jb_nrows block)" using arg_cong [OF b(3), of length] by simp
    with Cons.IH [OF b(2), of heads] Cons.prems(2,3) b True show ?thesis by (simp add: Let_def)
  next
    case False
    with Cons.prems(3) obtain y where "files ! part row = Some y" by auto
    with Cons.IH [OF Cons.prems(1), of "link_row (part row) row heads"] Cons.prems(2,3) False show ?thesis
      by (simp add: Let_def)
  qed
qed

text \<open>
  What the probe side holds after the outer rows \<open>rows\<close>: the buffer the resident rows from
  the number \<open>taken\<close> on, the file of a partition its rows.
\<close>

definition partition_rows :: "'t hash_spill \<Rightarrow> row list \<Rightarrow> nat \<Rightarrow> row list" where
  "partition_rows hs rows p = filter (\<lambda>row. keeps_probe_row hs (fst row) \<and> row_partition (hs_npartitions hs) row \<notin> set (hs_resident hs) \<and>
     row_partition (hs_npartitions hs) row = p) rows"

definition buffer_rows :: "'t hash_spill \<Rightarrow> row list \<Rightarrow> row list" where
  "buffer_rows hs rows = filter (\<lambda>row. keeps_probe_row hs (fst row) \<and> row_partition (hs_npartitions hs) row \<in> set (hs_resident hs)) rows"

definition probe_at :: "'t hash_spill \<Rightarrow> join_block \<Rightarrow> 't spill_side \<Rightarrow> 't hash_spill" where
  "probe_at hs block side = hs\<lparr>hs_resident_block := block, hs_probe_side := side\<rparr>"

lemma probe_at_fields [simp]:
  "hs_resident_block (probe_at hs block side) = block" "hs_probe_side (probe_at hs block side) = side"
  "hs_npartitions (probe_at hs block side) = hs_npartitions hs" "hs_resident (probe_at hs block side) = hs_resident hs"
  "hs_build_side (probe_at hs block side) = hs_build_side hs" "hs_build_rows (probe_at hs block side) = hs_build_rows hs"
  "hs_build (probe_at hs block side) = hs_build hs"
  "keeps_probe_row (probe_at hs block side) = keeps_probe_row hs"
  "(probe_at hs block side)\<lparr>hs_probe_side := side'\<rparr> = probe_at hs block side'"
  "(probe_at hs block side)\<lparr>hs_resident_block := block'\<rparr> = probe_at hs block' side"
  by (simp_all add: probe_at_def keeps_probe_row_def fun_eq_iff bloom_may_contain_def)

lemma route_batch_ok:
  assumes T: "tape_spec T phase written rest" and np: "hs_npartitions hs = 2 ^ k" "k \<le> 32"
    and batch: "probe_wf plan (jp_outer_keys plan) batch" "hash_input_batch plan (jp_outer_keys plan) batch = (w, hashes)"
    and block: "resident_ok (jp_nouter_columns plan) block" "jb_nrows block < 64"
    and side: "side_ok phase written (jp_nouter_columns plan) (hs_npartitions hs) side (partition_rows hs rows)"
  shows "\<exists>block' side'. hash_join_spill_probe_batch T (pb_columns batch) hashes w (probe_at hs block side) = Inr (probe_at hs block' side') \<and>
    resident_ok (jp_nouter_columns plan) block' \<and>
    join_block_rows block' = join_block_rows block @ buffer_rows hs (outer_rows plan [batch]) \<and>
    side_ok phase written (jp_nouter_columns plan) (hs_npartitions hs) side' (partition_rows hs (rows @ outer_rows plan [batch]))"
proof -
  let ?n = "jp_nouter_columns plan" and ?np = "hs_npartitions hs" and ?res = "hs_resident hs"
  let ?part = "\<lambda>row. hash_partition 0 ?np (hashes ! row)" and ?row = "batch_row ?n (pb_columns batch) hashes"
  let ?routed = "filter (\<lambda>row. keeps_probe_row hs (hashes ! row)) (word_rows w)"
  have out: "outer_rows plan [batch] = map ?row (word_rows w)" by (rule outer_rows_batch [OF batch])
  have fst: "fst (?row row) = hashes ! row" "row_partition ?np (?row row) = ?part row" for row
    by (simp_all add: batch_row_def row_partition_def)
  have sorted: "sorted_wrt (<) (word_rows w)" "\<forall>r \<in> set (word_rows w). r < 64"
    using sorted_word_rows [of w] bit_imp_le_length [of w] by auto
  have len: "length ?routed \<le> 64"
    using sorted_rows_length [OF sorted] length_filter_le [of "\<lambda>row. keeps_probe_row hs (hashes ! row)" "word_rows w"] by linarith
  have fit: "jb_nrows block + length ?routed \<le> 128" using len block(2) by simp
  have files: "\<forall>row \<in> set ?routed. ?part row \<in> set ?res \<or> sd_files (hs_build_side hs) ! ?part row \<noteq> None"
    by (auto simp: keeps_probe_row_def Let_def split: if_splits)
  obtain block' where b: "rfold (\<lambda>row (block, heads).
        let p = ?part row
        in if p \<in> set ?res
           then rbind (buffer_resident_probe_row (pb_columns batch) row (hashes ! row) block) (\<lambda>block. Inr (block, heads))
           else if sd_files (hs_build_side hs) ! p = None then Inr (block, heads)
           else Inr (block, link_row p row heads)) ?routed (block, []) =
      Inr (block', fold (\<lambda>row. link_row (?part row) row) (filter (\<lambda>row. ?part row \<notin> set ?res) ?routed) [])"
    "resident_ok ?n block'"
    "join_block_rows block' = join_block_rows block @ map ?row (filter (\<lambda>row. ?part row \<in> set ?res) ?routed)"
    using route_rows_ok [OF block(1) fit files, of "pb_columns batch" hashes "[]"] by blast
  let ?leave = "filter (\<lambda>row. ?part row \<notin> set ?res) ?routed"
  have leave: "sorted_wrt (<) ?leave" "\<forall>r \<in> set ?leave. r < 64 \<and> ?part r < ?np"
    using sorted hash_partition_less [OF np(2)] by (auto simp: sorted_wrt_filter np(1))
  obtain side' where s: "write_chains T (pb_columns batch) hashes (fold (\<lambda>row. link_row (?part row) row) ?leave []) side = Inr side'"
    "side_ok phase written ?n ?np side' (\<lambda>q. partition_rows hs rows q @ map ?row (filter (\<lambda>row. ?part row = q) ?leave))"
    using write_linked_rows [OF T side leave, of "pb_columns batch" hashes] by blast
  have "(\<lambda>q. partition_rows hs rows q @ map ?row (filter (\<lambda>row. ?part row = q) ?leave)) =
      partition_rows hs (rows @ outer_rows plan [batch])"
    by (auto simp: partition_rows_def out filter_map comp_def fst fun_eq_iff intro!: arg_cong [where f = "map _"] filter_cong)
  moreover have "map ?row (filter (\<lambda>row. ?part row \<in> set ?res) ?routed) = buffer_rows hs (outer_rows plan [batch])"
    by (auto simp: buffer_rows_def out filter_map comp_def fst intro!: arg_cong [where f = "map _"] filter_cong)
  ultimately show ?thesis
    using b s by (intro exI [of _ block'] exI [of _ side']) (simp add: hash_join_spill_probe_batch_def Let_def cong: if_cong)
qed

section \<open>The number of build rows\<close>

text \<open>\<open>fetch_probe_batch\<close> looks at \<open>build_rows\<close> on every call; the loop over the files leaves it alone.\<close>

lemma obind_Inr_iff: "obind m f = Some (Inr y) \<longleftrightarrow> (\<exists>x. m = Some (Inr x) \<and> f x = Some (Inr y))"
  by (cases m; cases "the m") (auto simp: obind_def)

lemma build_rows_put [simp]:
  "hs_build_rows (put_build_side again side hs) = hs_build_rows hs" "hs_build_rows (put_probe_side again side hs) = hs_build_rows hs"
  by (simp_all add: put_build_side_def put_probe_side_def)

lemma build_rows_finish [simp]:
  "hs_build_rows (finish_active_partition hs) = hs_build_rows hs" "hs_build_rows (finish_repartition hs) = hs_build_rows hs"
  by (auto simp: finish_active_partition_def finish_repartition_def Let_def split: option.splits prod.splits)

definition keeps_rows :: "nat \<Rightarrow> (bool \<times> 't hash_spill) result option \<Rightarrow> bool" where
  "keeps_rows n m \<longleftrightarrow> (\<forall>b hs. m = Some (Inr (b, hs)) \<longrightarrow> hs_build_rows hs = n)"

lemma keeps_return: "hs_build_rows hs = n \<Longrightarrow> keeps_rows n (Some (Inr (b, hs)))"
  by (simp add: keeps_rows_def)

lemma keeps_bind:
  "\<lbrakk>keeps_rows k m; k = n; \<And>x. hs_build_rows (snd x) = n \<Longrightarrow> keeps_rows n (f x)\<rbrakk> \<Longrightarrow> keeps_rows n (obind m f)"
  by (auto simp: keeps_rows_def obind_Inr_iff)

lemma keeps_other: "(\<And>x. keeps_rows n (f x)) \<Longrightarrow> keeps_rows n (obind m f)"
  by (auto simp: keeps_rows_def obind_Inr_iff)

lemma keeps_option: "(\<And>x. keeps_rows n (f x)) \<Longrightarrow> keeps_rows n (Option.bind m f)"
  by (auto simp: keeps_rows_def bind_eq_Some_conv)

lemma keeps_if: "\<lbrakk>c \<Longrightarrow> keeps_rows n x; \<not> c \<Longrightarrow> keeps_rows n y\<rbrakk> \<Longrightarrow> keeps_rows n (if c then x else y)"
  by simp

lemma keeps_load: "keeps_rows (hs_build_rows hs) (load_build_chunk T plan hs)"
  by (simp add: load_build_chunk_def case_prod_unfold Let_def)
    (intro keeps_other keeps_if keeps_option keeps_return; simp)

lemma keeps_start: "keeps_rows (hs_build_rows hs) (start_partition_files T plan again p s hs)"
  unfolding start_partition_files_def Let_def case_prod_unfold
  by (intro keeps_other keeps_bind [OF keeps_load] keeps_if keeps_return; simp)

lemma keeps_repartition: "keeps_rows (hs_build_rows hs) (repartition_current_partition T hs)"
  unfolding repartition_current_partition_def Let_def case_prod_unfold
  by (intro keeps_other keeps_if keeps_return; simp)

lemma keeps_load': "hs_build_rows hs = n \<Longrightarrow> keeps_rows n (load_build_chunk T plan hs)"
  using keeps_load by blast

lemma keeps_None [simp]: "keeps_rows n None"
  by (simp add: keeps_rows_def)

lemma keeps_admissible [simp]: "option.admissible (\<lambda>f. \<forall>x. keeps_rows (g x) (f (c, x)))"
proof -
  have eq: "(\<forall>x. keeps_rows (g x) (f (c, x))) \<longleftrightarrow>
      (\<forall>z y. f z = Some y \<longrightarrow> fst z = c \<longrightarrow> (\<forall>b hs. y = Inr (b, hs) \<longrightarrow> hs_build_rows hs = g (snd z)))" for f
    by (auto simp: keeps_rows_def)
  show ?thesis unfolding eq by (rule option_admissible)
qed

lemma keeps_next_repartition: "keeps_rows (hs_build_rows hs) (next_repartition T plan hs)"
proof (induction arbitrary: hs rule: next_repartition.fixp_induct)
  case (3 f)
  then have IH: "hs_build_rows h = n \<Longrightarrow> keeps_rows n (f T plan h)" for h n by blast
  show ?case
    unfolding Let_def case_prod_unfold
    by (intro keeps_bind [OF keeps_start] keeps_if keeps_return IH; simp)
qed simp_all

lemma keeps_next_initial: "keeps_rows (hs_build_rows hs) (next_initial T plan hs)"
proof (induction arbitrary: hs rule: next_initial.fixp_induct)
  case (3 f)
  then have IH: "hs_build_rows h = n \<Longrightarrow> keeps_rows n (f T plan h)" for h n by blast
  show ?case
    unfolding Let_def case_prod_unfold
    by (intro keeps_bind [OF keeps_start] keeps_bind [OF keeps_if [OF keeps_repartition keeps_return]] keeps_if keeps_return IH; simp)
qed simp_all

lemma keeps_loop: "keeps_rows (hs_build_rows hs) (next_partition_loop T plan hs)"
proof (induction arbitrary: hs rule: next_partition_loop.fixp_induct)
  case (3 f)
  then have IH: "hs_build_rows h = n \<Longrightarrow> keeps_rows n (f T plan h)" for h n by blast
  show ?case
    unfolding Let_def case_prod_unfold
    by (intro keeps_bind [OF keeps_next_initial] keeps_bind [OF keeps_next_repartition] keeps_bind [where m = "if c then m1 else m2" for c m1 m2] keeps_if keeps_return IH; simp)
qed simp_all

lemma keeps_fetch: "keeps_rows (hs_build_rows hs) (hash_join_fetch_spilled_probe_batch T plan hs)"
proof (induction arbitrary: hs rule: hash_join_fetch_spilled_probe_batch.fixp_induct)
  case (3 f)
  then have IH: "hs_build_rows h = n \<Longrightarrow> keeps_rows n (f T plan h)" for h n by blast
  show ?case
    unfolding Let_def case_prod_unfold start_next_partition_def
    by (intro keeps_bind [OF keeps_if [OF keeps_return keeps_loop]] keeps_other [where m = "Some m" for m] keeps_bind [where m = "if c then m1 else m2" for c m1 m2] keeps_load' keeps_if keeps_return IH; simp)
qed simp_all

lemma build_rows_fetch:
  "hash_join_fetch_spilled_probe_batch T plan hs = Some (Inr (b, hs')) \<Longrightarrow> hs_build_rows hs' = hs_build_rows hs"
  using keeps_fetch [of hs T plan] by (simp add: keeps_rows_def)

end
