(* ===== verification/Join_Probe_Loop.thy ===== *)
theory Join_Probe_Loop
  imports Join_Probe_Spill
begin

text \<open>
  The probe side of a spilled hash join as a whole: the outer input is read and routed, the
  buffer of resident rows handed out whenever it holds a batch, then the rest of it, and at
  last the partitions on file.
\<close>

section \<open>What the caller sees\<close>

text \<open>
  A batch is shown with the table of the moment: the rows of a block read from a file, or the
  first rows of the buffer.
\<close>

definition probe_block_of :: "'t spilled_probe \<Rightarrow> join_block" where
  "probe_block_of sp =
     (if sp_from_resident sp
      then (hs_resident_block (sp_spill sp))\<lparr>jb_nrows := resident_batch_rows (hs_resident_block (sp_spill sp))\<rparr>
      else hs_probe_block (sp_spill sp))"

partial_function (option) spilled_join_batches ::
  "'t tape_ops \<Rightarrow> join_plan \<Rightarrow> 't spilled_probe \<Rightarrow> (build_store \<times> join_block) list result option" where
  "spilled_join_batches T plan sp =
     obind (fetch_probe_batch_spilled T plan sp) (\<lambda>(found, sp).
     if \<not> found then Some (Inr [])
     else obind (spilled_join_batches T plan (finish_probe_batch_spilled sp)) (\<lambda>rest.
       Some (Inr ((hs_build (sp_spill sp), probe_block_of sp) # rest))))"

definition batch_ready :: "join_plan \<Rightarrow> build_store \<times> join_block \<Rightarrow> bool" where
  "batch_ready plan = (\<lambda>(store, block). table_ok (jp_inner_keys plan) store (bs_nrows store) \<and>
     bs_ncolumns store = jp_ninner_columns plan \<and> jb_ncolumns block = jp_nouter_columns plan \<and> jb_nrows block \<le> 64)"

lemma presents_ready: "presents plan x \<Longrightarrow> batch_ready plan x"
  by (auto simp: presents_def batch_ready_def join_block_wf_def split: prod.splits)

section \<open>The states of the probe side\<close>

definition reading :: "probe_batch list \<Rightarrow> 't hash_spill \<Rightarrow> 't spilled_probe" where
  "reading input hs = \<lparr>sp_spill = hs, sp_input = input, sp_input_done = False, sp_started = False, sp_from_resident = False\<rparr>"

definition drained :: "'t hash_spill \<Rightarrow> 't spilled_probe" where
  "drained hs = \<lparr>sp_spill = hs, sp_input = [], sp_input_done = True, sp_started = False, sp_from_resident = False\<rparr>"

definition restoring :: "'t hash_spill \<Rightarrow> 't spilled_probe" where
  "restoring hs = \<lparr>sp_spill = hs, sp_input = [], sp_input_done = True, sp_started = True, sp_from_resident = False\<rparr>"

lemma state_fields [simp]:
  "sp_spill (reading input hs) = hs" "sp_input (reading input hs) = input" "\<not> sp_input_done (reading input hs)"
  "\<not> sp_started (reading input hs)" "sp_spill (drained hs) = hs" "sp_input_done (drained hs)" "\<not> sp_started (drained hs)"
  "sp_spill (restoring hs) = hs" "sp_started (restoring hs)" "\<not> sp_from_resident (restoring hs)"
  "finish_probe_batch_spilled (restoring hs) = restoring hs" "probe_block_of (restoring hs) = hs_probe_block hs"
  by (simp_all add: reading_def drained_def restoring_def finish_probe_batch_spilled_def probe_block_of_def)

lemma publish_iff:
  "publish_probe sp final_batch hs =
     (if 64 \<le> jb_nrows (hs_resident_block hs) \<or> final_batch \<and> jb_nrows (hs_resident_block hs) \<noteq> 0
      then Some (sp\<lparr>sp_spill := hs, sp_from_resident := True\<rparr>) else None)"
  by (auto simp: publish_probe_def hash_join_publish_resident_probe_def Let_def min_def)

text \<open>What is shown after a batch of the buffer.\<close>

definition after_resident :: "'t hash_spill \<Rightarrow> 't hash_spill" where
  "after_resident hs = hs\<lparr>hs_resident_block :=
     hash_join_finish_resident_probe (resident_batch_rows (hs_resident_block hs)) (hs_resident_block hs)\<rparr>"

definition resident_view :: "'t hash_spill \<Rightarrow> build_store \<times> join_block" where
  "resident_view hs = (hs_build hs, (hs_resident_block hs)\<lparr>jb_nrows := resident_batch_rows (hs_resident_block hs)\<rparr>)"

lemma shows_resident:
  assumes "fetch_probe_batch_spilled T plan sp = Some (Inr (True, sp\<lparr>sp_from_resident := True\<rparr>))"
  shows "spilled_join_batches T plan sp = obind (spilled_join_batches T plan (sp\<lparr>sp_spill := after_resident (sp_spill sp), sp_from_resident := False\<rparr>))
    (\<lambda>rest. Some (Inr (resident_view (sp_spill sp) # rest)))"
  using assms by (subst spilled_join_batches.simps)
    (simp add: finish_probe_batch_spilled_def probe_block_of_def after_resident_def resident_view_def Let_def)

lemma shows_same:
  "fetch_probe_batch_spilled T plan sp = fetch_probe_batch_spilled T plan sp' \<Longrightarrow>
     spilled_join_batches T plan sp = spilled_join_batches T plan sp'"
  by (simp add: spilled_join_batches.simps [of T plan])

section \<open>Steps\<close>

lemma read_input_fields:
  "read_probe_input T plan (sp\<lparr>sp_spill := hs', sp_input := input'\<rparr>) input = read_probe_input T plan sp input"
proof (induction "input")
  case Nil
  then show ?case by (simp add: publish_iff fun_eq_iff cong: if_cong)
next
  case (Cons batch "input")
  then show ?case by (intro ext) (simp add: publish_iff case_prod_unfold Let_def)
qed

lemma reading_publishes:
  assumes "hs_build_rows hs \<noteq> 0" "64 \<le> jb_nrows (hs_resident_block hs)"
  shows "spilled_join_batches T plan (reading input hs) =
    obind (spilled_join_batches T plan (reading input (after_resident hs))) (\<lambda>rest. Some (Inr (resident_view hs # rest)))"
proof -
  have "fetch_probe_batch_spilled T plan (reading input hs) = Some (Inr (True, (reading input hs)\<lparr>sp_from_resident := True\<rparr>))"
    using assms by (cases "input") (simp_all add: fetch_probe_batch_spilled_def publish_iff)
  from shows_resident [OF this] show ?thesis by (simp add: reading_def)
qed

lemma reading_routes:
  assumes "hs_build_rows hs \<noteq> 0" "jb_nrows (hs_resident_block hs) < 64"
    and h: "hash_input_batch plan (jp_outer_keys plan) batch = (w, hashes)"
      "hash_join_spill_probe_batch T (pb_columns batch) hashes w hs = Inr hs'" "hs_build_rows hs' = hs_build_rows hs"
  shows "spilled_join_batches T plan (reading (batch # input) hs) = spilled_join_batches T plan (reading input hs')"
proof (rule shows_same)
  have "read_probe_input T plan (reading (batch # input) hs) (batch # input) hs = read_probe_input T plan (reading input hs') input hs'"
    using assms read_input_fields [where sp = "reading (batch # input) hs" and hs' = hs' and input' = "input" and T = T and plan = plan and input = "input"]
    by (simp add: publish_iff) (simp add: reading_def)
  then show "fetch_probe_batch_spilled T plan (reading (batch # input) hs) = fetch_probe_batch_spilled T plan (reading input hs')"
    using assms by (simp add: fetch_probe_batch_spilled_def cong: if_cong)
qed

lemma reading_ends:
  assumes "hs_build_rows hs \<noteq> 0" "jb_nrows (hs_resident_block hs) < 64"
    and h: "hash_join_finish_spilled_probe T hs = Inr hs'" "hs_build_rows hs' = hs_build_rows hs"
  shows "spilled_join_batches T plan (reading [] hs) = spilled_join_batches T plan (drained hs')"
proof (rule shows_same)
  have "read_probe_input T plan (reading [] hs) [] hs = Inr (False, drained hs')"
    using assms by (simp add: publish_iff) (simp add: reading_def drained_def)
  then show "fetch_probe_batch_spilled T plan (reading [] hs) = fetch_probe_batch_spilled T plan (drained hs')"
    using assms by (simp add: fetch_probe_batch_spilled_def)
qed

definition reset_build :: "'t hash_spill \<Rightarrow> 't hash_spill" where
  "reset_build hs = hs\<lparr>hs_build := hash_join_reset_build_store (hs_build hs)\<rparr>"

lemma drained_empty:
  assumes "hs_build_rows hs \<noteq> 0" "jb_nrows (hs_resident_block hs) = 0"
  shows "spilled_join_batches T plan (drained hs) = spilled_join_batches T plan (restoring (reset_build hs))"
proof (rule shows_same)
  have "(drained hs)\<lparr>sp_spill := reset_build hs, sp_started := True\<rparr> = restoring (reset_build hs)"
    by (simp add: drained_def restoring_def)
  then show "fetch_probe_batch_spilled T plan (drained hs) = fetch_probe_batch_spilled T plan (restoring (reset_build hs))"
    using assms by (simp add: fetch_probe_batch_spilled_def publish_iff reset_build_def Let_def)
qed

lemma drained_publishes:
  assumes "hs_build_rows hs \<noteq> 0" "jb_nrows (hs_resident_block hs) \<noteq> 0"
  shows "spilled_join_batches T plan (drained hs) =
    obind (spilled_join_batches T plan (drained (after_resident hs))) (\<lambda>rest. Some (Inr (resident_view hs # rest)))"
proof -
  have "fetch_probe_batch_spilled T plan (drained hs) = Some (Inr (True, (drained hs)\<lparr>sp_from_resident := True\<rparr>))"
    using assms by (simp add: fetch_probe_batch_spilled_def publish_iff)
  from shows_resident [OF this] show ?thesis by (simp add: drained_def)
qed

text \<open>Once the input is read, the batches are those of the partitions.\<close>

lemma restoring_batches:
  "spilled_batches T plan hs = Some (Inr ps) \<Longrightarrow> hs_build_rows hs \<noteq> 0 \<Longrightarrow>
    spilled_join_batches T plan (restoring hs) = Some (Inr ps)"
proof (induction ps arbitrary: hs)
  case Nil
  from Nil(1) obtain hs' where "hash_join_fetch_spilled_probe_batch T plan hs = Some (Inr (False, hs'))"
    by (subst (asm) spilled_batches.simps) (auto simp: obind_Inr_iff split: if_splits)
  then show ?case using Nil(2)
    by (subst spilled_join_batches.simps) (simp add: fetch_probe_batch_spilled_def fetch_restored_def)
next
  case (Cons x ps)
  from Cons.prems(1) obtain hs' where f: "hash_join_fetch_spilled_probe_batch T plan hs = Some (Inr (True, hs'))"
    "spilled_batches T plan hs' = Some (Inr ps)" "x = (hs_build hs', hs_probe_block hs')"
    by (subst (asm) spilled_batches.simps) (auto simp: obind_Inr_iff split: if_splits)
  have "hs_build_rows hs' \<noteq> 0" using build_rows_fetch [OF f(1)] Cons.prems(2) by simp
  moreover have "fetch_probe_batch_spilled T plan (restoring hs) = Some (Inr (True, restoring hs'))"
    using f(1) Cons.prems(2) by (simp add: fetch_probe_batch_spilled_def fetch_restored_def) (simp add: restoring_def)
  ultimately show ?case
    using Cons.IH [OF f(2)] f(3) by (subst spilled_join_batches.simps) simp
qed

section \<open>The end of the input\<close>

lemma join_block_rows_prefix:
  "k \<le> jb_nrows block \<Longrightarrow> join_block_rows (block\<lparr>jb_nrows := k\<rparr>) = take k (join_block_rows block)"
  by (simp add: join_block_cells take_map)

lemma resident_view_ok:
  assumes "resident_ok (jp_nouter_columns plan) (hs_resident_block hs)"
    and "table_ok (jp_inner_keys plan) (hs_build hs) (bs_nrows (hs_build hs))" "bs_ncolumns (hs_build hs) = jp_ninner_columns plan"
  shows "batch_ready plan (resident_view hs)"
    "presented (resident_view hs # ps) = hash_pairs (store_rows (hs_build hs))
       (take (resident_batch_rows (hs_resident_block hs)) (join_block_rows (hs_resident_block hs))) + presented ps"
  using assms join_block_rows_prefix [of "resident_batch_rows (hs_resident_block hs)" "hs_resident_block hs"]
  by (simp_all add: batch_ready_def resident_view_def resident_ok_def resident_batch_rows_def)

lemma after_resident_ok:
  assumes "resident_ok n (hs_resident_block hs)"
  shows "resident_ok n (hs_resident_block (after_resident hs))"
    "join_block_rows (hs_resident_block (after_resident hs)) =
       drop (resident_batch_rows (hs_resident_block hs)) (join_block_rows (hs_resident_block hs))"
  using finish_resident_ok [OF assms] assms by (simp_all add: after_resident_def resident_ok_def)

lemma block_rows_empty: "jb_nrows block = 0 \<longleftrightarrow> join_block_rows block = []"
  using length_join_block_rows [of block] by (metis length_0_conv)

lemma hash_pairs_take_drop: "hash_pairs xs (take k ys) + (hash_pairs xs (drop k ys) + M) = hash_pairs xs ys + M"
  using hash_pairs_append_right [of xs "take k ys" "drop k ys"] by (simp add: add.assoc)

definition batches_ok :: "join_plan \<Rightarrow> (build_store \<times> join_block) list result option \<Rightarrow> (row \<times> row) multiset \<Rightarrow> bool" where
  "batches_ok plan m M \<longleftrightarrow> (\<exists>ps. m = Some (Inr ps) \<and> presented ps = M \<and> (\<forall>x \<in> set ps. batch_ready plan x))"

lemma batches_ok_view:
  assumes "resident_ok (jp_nouter_columns plan) (hs_resident_block hs)"
    and "table_ok (jp_inner_keys plan) (hs_build hs) (bs_nrows (hs_build hs))" "bs_ncolumns (hs_build hs) = jp_ninner_columns plan"
    and "batches_ok plan m (hash_pairs (store_rows (hs_build hs)) (join_block_rows (hs_resident_block (after_resident hs))) + M)"
  shows "batches_ok plan (obind m (\<lambda>rest. Some (Inr (resident_view hs # rest))))
    (hash_pairs (store_rows (hs_build hs)) (join_block_rows (hs_resident_block hs)) + M)"
proof -
  from assms(4) obtain ps where ps: "m = Some (Inr ps)" "\<forall>x \<in> set ps. batch_ready plan x"
    "presented ps = hash_pairs (store_rows (hs_build hs)) (join_block_rows (hs_resident_block (after_resident hs))) + M"
    unfolding batches_ok_def by blast
  show ?thesis
    unfolding batches_ok_def
  proof (intro exI [of _ "resident_view hs # ps"] conjI)
    show "presented (resident_view hs # ps) = hash_pairs (store_rows (hs_build hs)) (join_block_rows (hs_resident_block hs)) + M"
      unfolding resident_view_ok(2) [OF assms(1-3)] ps(3) after_resident_ok(2) [OF assms(1)] by (rule hash_pairs_take_drop)
  qed (use ps resident_view_ok(1) [OF assms(1-3)] in auto)
qed

lemma drained_ok:
  assumes rows: "hs_build_rows hs \<noteq> 0"
    and block: "resident_ok (jp_nouter_columns plan) (hs_resident_block hs)" "jb_nrows (hs_resident_block hs) < 64"
    and table: "jb_nrows (hs_resident_block hs) \<noteq> 0 \<longrightarrow> table_ok (jp_inner_keys plan) (hs_build hs) (bs_nrows (hs_build hs))"
      "bs_ncolumns (hs_build hs) = jp_ninner_columns plan"
    and files: "\<And>b. batches_ok plan (spilled_batches T plan (reset_build (hs\<lparr>hs_resident_block := b\<rparr>))) M"
  shows "batches_ok plan (spilled_join_batches T plan (drained hs))
    (hash_pairs (store_rows (hs_build hs)) (join_block_rows (hs_resident_block hs)) + M)"
proof -
  have rest: "batches_ok plan (spilled_join_batches T plan (drained h)) M"
    if "h = hs\<lparr>hs_resident_block := b\<rparr>" "jb_nrows b = 0" for h b
  proof -
    from files [of b, folded that(1)] obtain ps where ps: "spilled_batches T plan (reset_build h) = Some (Inr ps)" "presented ps = M" "\<forall>x \<in> set ps. batch_ready plan x"
      unfolding batches_ok_def by blast
    have "hs_build_rows (reset_build h) \<noteq> 0" using rows by (simp add: that reset_build_def)
    with restoring_batches [OF ps(1)] drained_empty [of h T plan] ps rows show ?thesis
      by (auto simp: batches_ok_def that)
  qed
  show ?thesis
  proof (cases "jb_nrows (hs_resident_block hs) = 0")
    case True
    then have "join_block_rows (hs_resident_block hs) = []" by (simp add: block_rows_empty)
    then show ?thesis using rest [of hs "hs_resident_block hs"] True by simp
  next
    case False
    have all: "resident_batch_rows (hs_resident_block hs) = jb_nrows (hs_resident_block hs)"
      using block(2) by (simp add: resident_batch_rows_def)
    have empty: "join_block_rows (hs_resident_block (after_resident hs)) = []"
      unfolding after_resident_ok(2) [OF block(1)] all by simp
    then have "batches_ok plan (spilled_join_batches T plan (drained (after_resident hs)))
        (hash_pairs (store_rows (hs_build hs)) (join_block_rows (hs_resident_block (after_resident hs))) + M)"
      using rest [of "after_resident hs" "hs_resident_block (after_resident hs)"]
      by (simp add: after_resident_def block_rows_empty)
    from batches_ok_view [OF block(1) _ table(2) this] False table(1) drained_publishes [OF rows False, of T plan]
    show ?thesis by simp
  qed
qed

lemma finish_probe_ok:
  assumes T: "tape_spec T phase written rest" and fit: "columns_fit plan" and idle: "idle plan hs" "hs_repartition hs = None"
    and build: "files_from phase written rest (jp_ninner_columns plan) (hs_npartitions hs) False (hs_build_side hs) 0 RB" "\<forall>q. length (RB q) \<le> 2 ^ 30"
    and side: "side_ok phase written (jp_nouter_columns plan) (hs_npartitions hs) side RP"
  shows "\<exists>side'. hash_join_finish_spilled_probe T (probe_at hs block side) =
      Inr ((probe_at hs block side')\<lparr>hs_current := - 1, hs_partition_active := False\<rparr>) \<and>
    (\<forall>b. batches_ok plan (spilled_batches T plan
        (reset_build ((probe_at hs b side')\<lparr>hs_current := - 1, hs_partition_active := False\<rparr>)))
      (\<Sum>q < hs_npartitions hs. hash_pairs (RB q) (RP q)))"
proof -
  obtain side' where s: "finish_side T True side = Inr side'"
    "files_from phase written rest (jp_nouter_columns plan) (hs_npartitions hs) True side' 0 RP"
    using finish_side_ok [OF T side, of True] by blast
  have "batches_ok plan (spilled_batches T plan (reset_build ((probe_at hs b side')\<lparr>hs_current := - 1, hs_partition_active := False\<rparr>)))
      (\<Sum>q < hs_npartitions hs. hash_pairs (RB q) (RP q))" for b
  proof -
    let ?h = "reset_build ((probe_at hs b side')\<lparr>hs_current := - 1, hs_partition_active := False\<rparr>)"
    have h: "idle plan ?h" "hs_repartition ?h = None" "hs_current ?h = - 1" "hs_npartitions ?h = hs_npartitions hs"
      using idle by (simp_all add: idle_def reset_build_def hash_join_reset_build_store_def probe_at_def)
    have "partitions_from phase written rest plan ?h 0 RB RP"
      using build s(2) by (simp add: partitions_from_def reset_build_def probe_at_def)
    with initial_partitions [OF T fit h(1,2), of 0 RB RP] h(3,4) show ?thesis
      by (auto simp: batches_ok_def atLeast0LessThan intro: presents_ready)
  qed
  then show ?thesis using s(1) by (intro exI [of _ side']) (simp add: hash_join_finish_spilled_probe_def)
qed

section \<open>The whole input\<close>

lemma probe_at_more [simp]:
  "hs_build_rows (probe_at hs block side\<lparr>hs_current := c, hs_partition_active := a\<rparr>) = hs_build_rows hs"
  "hs_build (probe_at hs block side\<lparr>hs_current := c, hs_partition_active := a\<rparr>) = hs_build hs"
  "hs_resident_block (probe_at hs block side\<lparr>hs_current := c, hs_partition_active := a\<rparr>) = block"
  "(probe_at hs block side\<lparr>hs_current := c, hs_partition_active := a\<rparr>)\<lparr>hs_resident_block := b\<rparr> =
    probe_at hs b side\<lparr>hs_current := c, hs_partition_active := a\<rparr>"
  by (simp_all add: probe_at_def)

lemma reading_ok:
  assumes T: "tape_spec T phase written rest" and fit: "columns_fit plan" and idle: "idle plan hs" "hs_repartition hs = None"
    and rows: "hs_build_rows hs \<noteq> 0" and np: "hs_npartitions hs = 2 ^ k" "k \<le> 32"
    and table: "hs_resident hs \<noteq> [] \<longrightarrow> table_ok (jp_inner_keys plan) (hs_build hs) (bs_nrows (hs_build hs))"
    and build: "files_from phase written rest (jp_ninner_columns plan) (hs_npartitions hs) False (hs_build_side hs) 0 RB" "\<forall>q. length (RB q) \<le> 2 ^ 30"
  shows "\<forall>batch \<in> set input. probe_wf plan (jp_outer_keys plan) batch \<Longrightarrow>
    resident_ok (jp_nouter_columns plan) block \<Longrightarrow> (jb_nrows block \<noteq> 0 \<longrightarrow> hs_resident hs \<noteq> []) \<Longrightarrow>
    side_ok phase written (jp_nouter_columns plan) (hs_npartitions hs) side (partition_rows hs seen) \<Longrightarrow>
    batches_ok plan (spilled_join_batches T plan (reading input (probe_at hs block side)))
      (hash_pairs (store_rows (hs_build hs)) (join_block_rows block @ buffer_rows hs (outer_rows plan input)) +
       (\<Sum>q < hs_npartitions hs. hash_pairs (RB q) (partition_rows hs (seen @ outer_rows plan input) q)))"
proof (induction "(length input, jb_nrows block)" arbitrary: "input" block side seen rule: wf_induct_rule [OF wf_lex_prod [OF wf_less_than wf_less_than]])
  case less: 1
  note block = less.prems(2) and side = less.prems(4)
  let ?h = "probe_at hs block side"
  have ncols: "bs_ncolumns (hs_build hs) = jp_ninner_columns plan" using idle(1) by (simp add: idle_def)
  have rows': "hs_build_rows ?h \<noteq> 0" using rows by simp
  show ?case
  proof (cases "jb_nrows block < 64")
    case False
    let ?block = "hs_resident_block (after_resident ?h)"
    have after: "after_resident ?h = probe_at hs ?block side" by (simp add: after_resident_def)
    have b: "resident_ok (jp_nouter_columns plan) ?block" "join_block_rows ?block = drop 64 (join_block_rows block)"
      using after_resident_ok [of "jp_nouter_columns plan" ?h] block False by (simp_all add: resident_batch_rows_def min_def)
    have "jb_nrows ?block < jb_nrows block" using arg_cong [OF b(2), of length] False by simp
    then have IH: "batches_ok plan (spilled_join_batches T plan (reading input (probe_at hs ?block side)))
      (hash_pairs (store_rows (hs_build hs)) (join_block_rows ?block @ buffer_rows hs (outer_rows plan input)) +
       (\<Sum>q < hs_npartitions hs. hash_pairs (RB q) (partition_rows hs (seen @ outer_rows plan input) q)))"
      using less.prems False by (intro less.hyps [OF _ _ b(1)]) auto
    have "table_ok (jp_inner_keys plan) (hs_build hs) (bs_nrows (hs_build hs))" using table less.prems(3) False by simp
    with batches_ok_view [of plan ?h] block ncols IH reading_publishes [OF rows', of T plan "input"] False after
    show ?thesis by (simp add: hash_pairs_append_right add.assoc)
  next
    case few: True
    show ?thesis
    proof (cases "input")
      case Nil
      obtain side' where s: "hash_join_finish_spilled_probe T ?h =
          Inr ((probe_at hs block side')\<lparr>hs_current := - 1, hs_partition_active := False\<rparr>)"
        "\<And>b. batches_ok plan (spilled_batches T plan
            (reset_build ((probe_at hs b side')\<lparr>hs_current := - 1, hs_partition_active := False\<rparr>)))
          (\<Sum>q < hs_npartitions hs. hash_pairs (RB q) (partition_rows hs seen q))"
        using finish_probe_ok [OF T fit idle build side, of block] by blast
      have "batches_ok plan (spilled_join_batches T plan (drained ((probe_at hs block side')\<lparr>hs_current := - 1, hs_partition_active := False\<rparr>)))
          (hash_pairs (store_rows (hs_build hs)) (join_block_rows block) + (\<Sum>q < hs_npartitions hs. hash_pairs (RB q) (partition_rows hs seen q)))"
        using drained_ok [of "(probe_at hs block side')\<lparr>hs_current := - 1, hs_partition_active := False\<rparr>" plan T] rows block few ncols table less.prems(3) s(2)
        by simp
      then show ?thesis using reading_ends [OF rows' _ s(1), of plan] few Nil by (simp add: buffer_rows_def)
    next
      case (Cons batch rest')
      obtain w hashes where h: "hash_input_batch plan (jp_outer_keys plan) batch = (w, hashes)" by (metis surj_pair)
      have wf: "probe_wf plan (jp_outer_keys plan) batch" using less.prems(1) Cons by simp
      obtain block' side' where r: "hash_join_spill_probe_batch T (pb_columns batch) hashes w ?h = Inr (probe_at hs block' side')"
        "resident_ok (jp_nouter_columns plan) block'" "join_block_rows block' = join_block_rows block @ buffer_rows hs (outer_rows plan [batch])"
        "side_ok phase written (jp_nouter_columns plan) (hs_npartitions hs) side' (partition_rows hs (seen @ outer_rows plan [batch]))"
        using route_batch_ok [OF T np wf h block few side] by blast
      have "jb_nrows block' \<noteq> 0 \<longrightarrow> hs_resident hs \<noteq> []"
        using less.prems(3) r(3) by (auto simp: block_rows_empty buffer_rows_def)
      then have "batches_ok plan (spilled_join_batches T plan (reading rest' (probe_at hs block' side')))
        (hash_pairs (store_rows (hs_build hs)) (join_block_rows block' @ buffer_rows hs (outer_rows plan rest')) +
         (\<Sum>q < hs_npartitions hs. hash_pairs (RB q) (partition_rows hs ((seen @ outer_rows plan [batch]) @ outer_rows plan rest') q)))"
        using less.prems(1) Cons by (intro less.hyps [OF _ _ r(2) _ r(4)]) auto
      then show ?thesis
        using reading_routes [OF rows' _ h r(1), of rest'] few Cons r(3)
        by (simp add: outer_rows_Cons [of plan batch rest'] buffer_rows_def)
    qed
  qed
qed

end
