(* ===== verification/Join_Spilled_Props.thy ===== *)
theory Join_Spilled_Props
  imports Join_Spill_Props Join_Probe_Loop
begin

text \<open>
  What a spilled hash join promises: whatever went to files and came back, the batches of its
  probe side meet the rows of its build side exactly as if everything had been in memory.
\<close>

section \<open>Pairs of the two sides\<close>

lemma product_mset: "mset (List.product xs ys) = (\<Sum>x \<in># mset xs. image_mset (Pair x) (mset ys))"
  by (induction xs) simp_all

lemma hash_pairs_mset: "mset xs = mset xs' \<Longrightarrow> mset ys = mset ys' \<Longrightarrow> hash_pairs xs ys = hash_pairs xs' ys'"
  by (simp add: hash_pairs_def product_mset)

text \<open>A row that has a partner is not dropped by the filter on build keys.\<close>

lemma pair_kept:
  assumes b: "built_spilled phase written rest plan rows hs" and np: "hs_npartitions hs = 2 ^ k" "k \<le> 32" and x: "x \<in> set rows"
  shows "keeps_probe_row hs (fst x)"
proof -
  let ?p = "row_partition (hs_npartitions hs) x"
  have p: "?p < hs_npartitions hs" using row_partition_less [OF np(2)] by (simp add: np(1))
  obtain R where R: "build_files_ok phase written rest (jp_ninner_columns plan) (hs_npartitions hs) (hs_build_side hs) R"
    "mset (R ?p) = mset (leave_rows (hs_npartitions hs) (hs_resident hs) rows ?p)"
    using b p by (auto simp: built_spilled_def)
  have "sd_files (hs_build_side hs) ! ?p \<noteq> None" if "?p \<notin> set (hs_resident hs)"
  proof -
    have "x \<in> set (leave_rows (hs_npartitions hs) (hs_resident hs) rows ?p)" using x that by (simp add: leave_rows_def)
    then have "R ?p \<noteq> []" using R(2) by (metis mset_eq_setD empty_iff list.set(1))
    then show ?thesis using R(1) p by (simp add: build_files_ok_def)
  qed
  then show ?thesis
    using b x unfolding keeps_probe_row_def Let_def row_partition_def built_spilled_def by auto
qed

lemma pairs_by_place:
  assumes b: "built_spilled phase written rest plan rows hs" and np: "hs_npartitions hs = 2 ^ k" "k \<le> 32"
  defines "n \<equiv> hs_npartitions hs" and "res \<equiv> hs_resident hs"
  shows "hash_pairs (stay_rows n res rows) (buffer_rows hs ys) + (\<Sum>q < n. hash_pairs (leave_rows n res rows q) (partition_rows hs ys q)) =
    hash_pairs rows ys"
proof -
  let ?M = "hash_pairs rows ys" and ?part = "\<lambda>z :: row \<times> row. row_partition n (fst z)"
  have z: "keeps_probe_row hs (fst (snd z)) \<and> row_partition n (snd z) = ?part z" if "z \<in># ?M" for z
    using that pair_kept [OF b np, of "fst z"] hash_pairs_same [of "fst z" "snd z" rows ys] by (simp add: row_partition_def)
  have stay: "hash_pairs (stay_rows n res rows) (buffer_rows hs ys) = filter_mset (\<lambda>z. ?part z \<in> set res) ?M"
    unfolding stay_rows_def buffer_rows_def n_def [symmetric] res_def [symmetric] hash_pairs_filter
    by (rule filter_mset_cong [OF refl]) (use z in auto)
  have leave: "hash_pairs (leave_rows n res rows q) (partition_rows hs ys q) =
      filter_mset (\<lambda>z. ?part z = q) (filter_mset (\<lambda>z. ?part z \<notin> set res) ?M)" for q
  proof -
    have "leave_rows n res rows q = filter (\<lambda>row. q \<notin> set res \<and> row_partition n row = q) rows" by (simp add: leave_rows_def)
    then show ?thesis
      unfolding partition_rows_def n_def [symmetric] res_def [symmetric] filter_filter_mset
      by (simp only: hash_pairs_filter) (rule filter_mset_cong [OF refl], use z in auto)
  qed
  have lt: "?part z < n" for z using row_partition_less [OF np(2)] by (simp add: n_def np(1))
  have "(\<Sum>q < n. hash_pairs (leave_rows n res rows q) (partition_rows hs ys q)) = filter_mset (\<lambda>z. ?part z \<notin> set res) ?M"
    unfolding leave sum_filter_mset by (simp add: lt)
  then show ?thesis unfolding stay using multiset_partition [of ?M "\<lambda>z. ?part z \<in> set res"] by simp
qed

section \<open>The probe side after the build\<close>

lemma built_files_from:
  assumes "build_files_ok phase written rest n np side R"
  shows "files_from phase written rest n np False side 0 (\<lambda>q. if q < np then R q else [])"
  using assms by (auto simp: build_files_ok_def files_from_def side_shape_def untouched_def spill_ready_def)

lemma hash_pairs_count: "(\<Sum>q < (m :: nat). hash_pairs (if q < m then R q else []) (P q)) = (\<Sum>q < m. hash_pairs (R q) (P q))"
  by (rule sum.cong) simp_all

lemma spilled_probe_ok:
  assumes T: "tape_spec T phase written rest" and fit: "columns_fit plan"
    and static: "spill_static phase written plan hs" and b: "built_spilled phase written rest plan rows hs"
    and count: "hs_build_rows hs = length rows" "rows \<noteq> []" "length rows \<le> 2 ^ 30"
    and outer: "\<forall>batch \<in> set outer. probe_wf plan (jp_outer_keys plan) batch"
  shows "batches_ok plan (spilled_join_batches T plan (reading outer hs)) (hash_pairs rows (outer_rows plan outer))"
proof -
  let ?n = "hs_npartitions hs" and ?res = "hs_resident hs" and ?out = "outer_rows plan outer"
  obtain k where k: "?n = 2 ^ k" "k \<le> 32" using static by (auto simp: spill_static_def)
  have idle: "idle plan hs" "hs_repartition hs = None"
    using static b by (auto simp: idle_def spill_static_def built_spilled_def join_block_wf_def hash_join_init_spill_block_def)
  obtain R where R: "build_files_ok phase written rest (jp_ninner_columns plan) ?n (hs_build_side hs) R"
    "\<And>p. p < ?n \<Longrightarrow> mset (R p) = mset (leave_rows ?n ?res rows p)"
    using b by (auto simp: built_spilled_def)
  let ?R = "\<lambda>q. if q < ?n then R q else []"
  have len: "length (?R q) \<le> 2 ^ 30" for q
  proof (cases "q < ?n")
    case True
    have "length (R q) = length (leave_rows ?n ?res rows q)" using R(2) [OF True] by (rule mset_eq_length)
    also have "\<dots> \<le> length rows" by (simp add: leave_rows_def)
    finally show ?thesis using count(3) True by simp
  qed simp
  have store: "mset (store_rows (hs_build hs)) = mset (stay_rows ?n ?res rows)"
    and filled: "bs_nrows (hs_build hs) > 0 \<longrightarrow> table_ok (jp_inner_keys plan) (hs_build hs) (bs_nrows (hs_build hs))"
    and used: "\<forall>p \<in> set ?res. \<exists>row \<in> set rows. row_partition ?n row = p"
    using b by (auto simp: built_spilled_def)
  have table: "?res \<noteq> [] \<longrightarrow> table_ok (jp_inner_keys plan) (hs_build hs) (bs_nrows (hs_build hs))"
  proof
    assume "?res \<noteq> []"
    then have "hd ?res \<in> set ?res" by simp
    with used obtain row where "row \<in> set rows" "row_partition ?n row \<in> set ?res" by auto
    then have "stay_rows ?n ?res rows \<noteq> []" by (auto simp: stay_rows_def filter_empty_conv)
    then show "table_ok (jp_inner_keys plan) (hs_build hs) (bs_nrows (hs_build hs))"
      using mset_eq_length [OF store] filled by simp
  qed
  have start: "probe_at hs (hs_resident_block hs) (hs_probe_side hs) = hs" by (cases hs) (simp add: probe_at_def)
  have none: "partition_rows hs [] = (\<lambda>_. [])" by (simp add: partition_rows_def fun_eq_iff)
  have init: "resident_ok (jp_nouter_columns plan) (hs_resident_block hs)" "join_block_rows (hs_resident_block hs) = []"
    "side_ok phase written (jp_nouter_columns plan) ?n (hs_probe_side hs) (partition_rows hs [])"
    using static resident_ok_init [of "jp_nouter_columns plan"] unfolding none spill_static_def by (elim exE conjE, simp)+
  have empty: "jb_nrows (hs_resident_block hs) \<noteq> 0 \<longrightarrow> ?res \<noteq> []" using init(2) by (simp add: block_rows_empty)
  have "hs_build_rows hs \<noteq> 0" using count by simp
  from reading_ok [OF T fit idle this k table built_files_from [OF R(1)] _ outer init(1) empty init(3)] len
  have "batches_ok plan (spilled_join_batches T plan (reading outer hs))
      (hash_pairs (store_rows (hs_build hs)) (buffer_rows hs ?out) + (\<Sum>q < ?n. hash_pairs (?R q) (partition_rows hs ?out q)))"
    unfolding start init(2) by simp
  moreover have "hash_pairs (store_rows (hs_build hs)) (buffer_rows hs ?out) = hash_pairs (stay_rows ?n ?res rows) (buffer_rows hs ?out)"
    by (rule hash_pairs_mset [OF store refl])
  moreover have "(\<Sum>q < ?n. hash_pairs (?R q) (partition_rows hs ?out q)) = (\<Sum>q < ?n. hash_pairs (leave_rows ?n ?res rows q) (partition_rows hs ?out q))"
    by (rule sum.cong [OF refl], rule hash_pairs_mset) (simp_all add: R(2))
  ultimately show ?thesis using pairs_by_place [OF b k, of ?out] by simp
qed

section \<open>Equal keys\<close>

text \<open>Whether an inner and an outer row agree on all keys of the join.\<close>

definition keys_agree :: "join_plan \<Rightarrow> row \<times> row \<Rightarrow> bool" where
  "keys_agree plan = (\<lambda>(x, y). map ((!) (snd x)) (jp_inner_keys plan) = map ((!) (snd y)) (jp_outer_keys plan))"

definition keyed_row :: "join_plan \<Rightarrow> nat list \<Rightarrow> row \<Rightarrow> bool" where
  "keyed_row plan keys row \<longleftrightarrow> (\<exists>vs. map ((!) (snd row)) keys = map Some vs \<and>
     fst row = row_hash (jp_murmurhash32 plan) (jp_hash_combine plan) vs)"

lemma keyed_cells:
  assumes "keys_present (map (\<lambda>key. columns ! key) keys) r" "\<forall>key \<in> set keys. key < n"
  shows "keyed_row plan keys (row_hash (jp_murmurhash32 plan) (jp_hash_combine plan) (key_values (map (\<lambda>key. columns ! key) keys) r),
    map (\<lambda>column. vec_get (columns ! column) r) [0..<n])"
  unfolding keyed_row_def
  using assms by (intro exI [of _ "key_values (map (\<lambda>key. columns ! key) keys) r"])
    (auto simp: key_values_def keys_present_def vec_get_def split: if_splits)

lemma built_rows_keyed:
  "\<forall>key \<in> set (jp_inner_keys plan). key < jp_ninner_columns plan \<Longrightarrow> row \<in> set (built_rows plan inner) \<Longrightarrow>
     keyed_row plan (jp_inner_keys plan) row"
  by (auto simp: built_rows_def Let_def intro!: keyed_cells)

lemma outer_rows_keyed:
  "\<forall>key \<in> set (jp_outer_keys plan). key < jp_nouter_columns plan \<Longrightarrow> row \<in> set (outer_rows plan outer) \<Longrightarrow>
     keyed_row plan (jp_outer_keys plan) row"
  by (auto simp: outer_rows_def Let_def intro!: keyed_cells)

lemma keyed_agree:
  "keyed_row plan (jp_inner_keys plan) x \<Longrightarrow> keyed_row plan (jp_outer_keys plan) y \<Longrightarrow> keys_agree plan (x, y) \<Longrightarrow> fst x = fst y"
  by (auto simp: keyed_row_def keys_agree_def inj_map_eq_map inj_Some)

lemma filter_agree:
  assumes "\<forall>key \<in> set (jp_inner_keys plan). key < jp_ninner_columns plan" "\<forall>key \<in> set (jp_outer_keys plan). key < jp_nouter_columns plan"
  shows "filter_mset (keys_agree plan) (hash_pairs (built_rows plan inner) (outer_rows plan outer)) =
    filter_mset (keys_agree plan) (mset (List.product (built_rows plan inner) (outer_rows plan outer)))"
  unfolding hash_pairs_def filter_filter_mset
  by (rule filter_mset_cong [OF refl])
    (auto dest!: built_rows_keyed [OF assms(1)] outer_rows_keyed [OF assms(2)] dest: keyed_agree)

section \<open>The property\<close>

text \<open>
  C3. A hash join whose build side spilled, its build rows without NULL, always comes to the
  end of its outer input and of its files, without an error.  Every batch it hands out, from
  the buffer of resident rows or from a file, has at most 64 rows and comes with a complete
  hash table; taken together, each build row meets each probe row of equal hash exactly once,
  in whatever chunk, partition or part of a partition the two ended up, and so the pairs with
  equal keys are exactly those of the two inputs.
\<close>

theorem spilled_join_correct:
  assumes "tape_spec T phase written rest" "columns_fit plan" "memory_limit < 2 ^ 62"
    and "bs_ncolumns s0 = jp_ninner_columns plan"
    and "\<forall>batch \<in> set inner. probe_wf plan (jp_inner_keys plan) batch" "total_rows inner \<le> 2 ^ 30"
    and "full_rows (built_rows plan inner)"
    and "\<forall>batch \<in> set outer. probe_wf plan (jp_outer_keys plan) batch"
    and "\<forall>key \<in> set (jp_inner_keys plan). key < jp_ninner_columns plan"
    and "\<forall>key \<in> set (jp_outer_keys plan). key < jp_nouter_columns plan"
    and "hash_join_build T plan memory_limit planned_partitions estimated_rows inner s0 = Inr (Some (Spilled hs))"
  shows "\<exists>ps. spilled_join_batches T plan (reading outer hs) = Some (Inr ps) \<and> (\<forall>x \<in> set ps. batch_ready plan x) \<and>
    presented ps = hash_pairs (built_rows plan inner) (outer_rows plan outer) \<and>
    filter_mset (keys_agree plan) (presented ps) =
      filter_mset (keys_agree plan) (mset (List.product (built_rows plan inner) (outer_rows plan outer)))"
proof -
  let ?rows = "built_rows plan inner"
  have built: "hs_build_rows hs = length ?rows" "spill_static phase written plan hs"
    "?rows \<noteq> [] \<longrightarrow> built_spilled phase written rest plan ?rows hs"
    using hash_join_build_ok [OF assms(1-7), of planned_partitions estimated_rows] assms(11) by auto
  have "batches_ok plan (spilled_join_batches T plan (reading outer hs)) (hash_pairs ?rows (outer_rows plan outer))"
  proof (cases "?rows = []")
    case True
    then have "spilled_join_batches T plan (reading outer hs) = Some (Inr [])"
      using built(1) by (subst spilled_join_batches.simps) (simp add: fetch_probe_batch_spilled_def)
    then show ?thesis using True by (simp add: batches_ok_def)
  next
    case False
    have "length ?rows \<le> 2 ^ 30" using length_built_rows_total [OF assms(5)] assms(6) by simp
    then show ?thesis using spilled_probe_ok [OF assms(1,2) built(2) _ built(1) False _ assms(8)] built(3) False by simp
  qed
  then show ?thesis using filter_agree [OF assms(9,10), of inner outer] unfolding batches_ok_def by auto
qed

text \<open>Again a limit of 100 bytes: the build spills, and four pairs come out.\<close>

theorem spilled_join_correct_witness:
  "\<exists>hs ps. hash_join_build memory_tape example_join_plan 100 1 4 [example_full_inner] example_store = Inr (Some (Spilled hs)) \<and>
     spilled_join_batches memory_tape example_join_plan (reading [example_outer] hs) = Some (Inr ps) \<and>
     size (filter_mset (keys_agree example_join_plan) (presented ps)) = 4"
proof -
  let ?plan = example_join_plan
  have wf: "probe_wf ?plan [0] example_full_inner"
    using full_selection_wf [of 4]
    by (simp add: probe_wf_def example_full_inner_def example_batch_def vec_wf_def int4_vector_init_datum_def numeral_eq_Suc)
  have keys: "jp_inner_keys ?plan = [0]" "jp_outer_keys ?plan = [0]" by (simp_all add: example_join_plan_def)
  have full: "full_rows (built_rows ?plan [example_full_inner])" "total_rows [example_full_inner] = 4"
    unfolding full_rows_def by code_simp+
  have fit: "columns_fit ?plan" "bs_ncolumns example_store = jp_ninner_columns ?plan" "0 < jp_ninner_columns ?plan" "0 < jp_nouter_columns ?plan"
    by (simp_all add: columns_fit_def example_join_plan_def example_store_def)
  obtain hs where hs: "hash_join_build memory_tape ?plan 100 1 4 [example_full_inner] example_store = Inr (Some (Spilled hs))"
    using example_spills by blast
  from spilled_join_correct [OF memory_tape_spec fit(1) _ fit(2) _ _ full(1) _ _ _ hs, of "[example_outer]"]
  obtain ps where "spilled_join_batches memory_tape ?plan (reading [example_outer] hs) = Some (Inr ps)"
    "filter_mset (keys_agree ?plan) (presented ps) = filter_mset (keys_agree ?plan)
       (mset (List.product (built_rows ?plan [example_full_inner]) (outer_rows ?plan [example_outer])))"
    using wf example_batches fit full(2) unfolding keys by auto
  moreover have "size (filter_mset (keys_agree ?plan)
       (mset (List.product (built_rows ?plan [example_full_inner]) (outer_rows ?plan [example_outer])))) = 4"
    by code_simp
  ultimately show ?thesis using hs by auto
qed

end
