(* ===== verification/Aggregate.thy ===== *)
theory Aggregate
  imports Hash_Join Reduce Spill_Loop
begin

text \<open>
  The aggregate node \<open>nodes/aggregate.c\<close>: plain aggregation by the reduction kernel, and
  grouped aggregation with a bounded table of groups whose overflow goes to spill
  partitions that are aggregated, or split further, after the input.

  The batches of the child are a list; a group table of \<open>dynahash\<close> is the list of its
  entries in the order of insertion, so the order in which a scan of the table returns
  them is not PostgreSQL's.  Spill sets are kept in a list and referred to by position.
  \<open>murmurhash32\<close> is a parameter.
\<close>

datatype agg_kind = AGG_GROUP_KEY | AGG_COUNT_STAR | AGG_COUNT_COLUMN | AGG_SUM_INT4 | AGG_MIN_INT4 | AGG_MAX_INT4

record agg_spec =
  ag_kind :: agg_kind
  ag_input :: int

record agg_input =
  ai_column :: nat
  ai_flags :: uint32
  ai_value :: int4_reduction

record group_key =
  gk_value :: int4
  gk_isnull :: bool

record group_entry =
  ge_key :: group_key
  ge_count_star :: "64 word"
  ge_values :: "int4_reduction list"

record spill_work =
  wk_set :: nat
  wk_partition :: nat
  wk_hash_shift :: nat

record 't agg_state =
  as_child :: "probe_batch list"
  as_aggs :: "agg_spec list"
  as_inputs :: "agg_input list"
  as_count_star :: "64 word"
  as_has_count_star :: bool
  as_grouped :: bool
  as_group_input :: nat
  as_main_groups :: "group_entry list"
  as_group_seq :: "group_entry list"
  as_group_limit :: nat
  as_spill_buffer_limit :: nat
  as_input_done :: bool
  as_spilling :: bool
  as_initial_spill :: "nat option"
  as_spill_sets :: "'t spill_set list"
  as_spill_work :: "spill_work list"
  as_hashes :: "uint32 list"
  as_spill_rows :: nat
  as_spill_partitions :: nat
  as_spill_repartitions :: nat
  as_emitted :: bool
  as_input_batches :: nat
  as_input_rows :: nat

section \<open>Preparing\<close>

definition reset_aggregate_values :: "'t agg_state \<Rightarrow> 't agg_state" where
  "reset_aggregate_values st = st\<lparr>as_count_star := 0,
     as_inputs := map (\<lambda>i. i\<lparr>ai_value := reduction_zero\<rparr>) (as_inputs st),
     as_emitted := False, as_input_done := False\<rparr>"

text \<open>The two kinds without a flag do not reach this function.\<close>

fun aggregate_flag :: "agg_kind \<Rightarrow> uint32" where
  "aggregate_flag AGG_COUNT_COLUMN = REDUCE_COUNT"
| "aggregate_flag AGG_SUM_INT4 = REDUCE_SUM"
| "aggregate_flag AGG_MIN_INT4 = REDUCE_MIN"
| "aggregate_flag AGG_MAX_INT4 = REDUCE_MAX"
| "aggregate_flag _ = 0"

text \<open>The input with the given column: found, or added.\<close>

definition intern_input :: "nat \<Rightarrow> agg_input list \<Rightarrow> nat \<times> agg_input list" where
  "intern_input column inputs =
     (case List.find (\<lambda>i. ai_column (inputs ! i) = column) [0..<length inputs] of
        Some i \<Rightarrow> (i, inputs)
      | None \<Rightarrow> (length inputs, inputs @ [\<lparr>ai_column = column, ai_flags = 0, ai_value = reduction_zero\<rparr>]))"

definition begin_aggregate :: "agg_kind \<times> int \<Rightarrow> 't agg_state \<Rightarrow> 't agg_state result" where
  "begin_aggregate = (\<lambda>(kind, column) st.
     if kind = AGG_COUNT_STAR
     then Inr (st\<lparr>as_aggs := as_aggs st @ [\<lparr>ag_kind = kind, ag_input = - 1\<rparr>], as_has_count_star := True\<rparr>)
     else if column < 0 then Inl (Elog ''pg_batch aggregate input is missing from child slot'')
     else
       (let (i, inputs) = intern_input (nat column) (as_inputs st);
            st = st\<lparr>as_aggs := as_aggs st @ [\<lparr>ag_kind = kind, ag_input = int i\<rparr>], as_inputs := inputs\<rparr>
        in if kind = AGG_GROUP_KEY then
             if as_grouped st \<and> as_group_input st \<noteq> i
             then Inl (Elog ''pg_batch aggregate has more than one group key'')
             else if \<not> as_grouped st then Inr (st\<lparr>as_grouped := True, as_group_input := i\<rparr>)
             else Inr st
           else Inr (st\<lparr>as_inputs := inputs[i := (inputs ! i)\<lparr>ai_flags := ai_flags (inputs ! i) OR aggregate_flag kind\<rparr>]\<rparr>)))"

text \<open>
  \<open>sizeof(PgBatchInt4Reduction)\<close> is 32 and \<open>offsetof(GroupEntry, values)\<close> is 16;
  \<open>hash_memory\<close> is \<open>get_hash_memory_limit()\<close>.
\<close>

definition agg_begin :: "nat \<Rightarrow> probe_batch list \<Rightarrow> (agg_kind \<times> int) list \<Rightarrow> 't agg_state result" where
  "agg_begin hash_memory child specs =
     rbind (rfold begin_aggregate specs
       \<lparr>as_child = child, as_aggs = [], as_inputs = [], as_count_star = 0, as_has_count_star = False,
        as_grouped = False, as_group_input = 0, as_main_groups = [], as_group_seq = [], as_group_limit = 0,
        as_spill_buffer_limit = 0, as_input_done = False, as_spilling = False, as_initial_spill = None,
        as_spill_sets = [], as_spill_work = [], as_hashes = replicate PG_BATCH_SIZE 0, as_spill_rows = 0,
        as_spill_partitions = 0, as_spill_repartitions = 0, as_emitted = False, as_input_batches = 0,
        as_input_rows = 0\<rparr>) (\<lambda>st.
     Inr (reset_aggregate_values
       (if as_grouped st
        then st\<lparr>as_group_limit := max 1 (hash_memory div (16 + 32 * length (as_inputs st) + 64)),
                as_spill_buffer_limit := max 1024 (hash_memory div 2)\<rparr>
        else st)))"

section \<open>Plain aggregation\<close>

definition add_int64_checked :: "64 word \<Rightarrow> int \<Rightarrow> 64 word result" where
  "add_int64_checked target addend =
     (let x = sint target + addend
      in if - (2 ^ 63) \<le> x \<and> x < 2 ^ 63 then Inr (word_of_int x)
         else Inl (Ereport ERRCODE_NUMERIC_VALUE_OUT_OF_RANGE ''bigint out of range''))"

definition merge_reduction :: "uint32 \<Rightarrow> int4_reduction \<Rightarrow> int4_reduction \<Rightarrow> int4_reduction result" where
  "merge_reduction flags partial v =
     rbind (if has_flag flags REDUCE_COUNT
            then rbind (add_int64_checked (red_count v) (sint (red_count partial))) (\<lambda>c. Inr (v\<lparr>red_count := c\<rparr>))
            else Inr v) (\<lambda>v.
     if \<not> red_has_value partial then Inr v
     else
       rbind (if has_flag flags REDUCE_SUM
              then rbind (add_int64_checked (red_sum v) (sint (red_sum partial))) (\<lambda>s. Inr (v\<lparr>red_sum := s\<rparr>))
              else Inr v) (\<lambda>v.
       if \<not> red_has_value v then
         (let v = (if has_flag flags REDUCE_MIN then v\<lparr>red_min := red_min partial\<rparr> else v);
              v = (if has_flag flags REDUCE_MAX then v\<lparr>red_max := red_max partial\<rparr> else v)
          in Inr (v\<lparr>red_has_value := True\<rparr>))
       else
         (let v = (if has_flag flags REDUCE_MIN \<and> sint (red_min partial) < sint (red_min v)
                   then v\<lparr>red_min := red_min partial\<rparr> else v);
              v = (if has_flag flags REDUCE_MAX \<and> sint (red_max partial) > sint (red_max v)
                   then v\<lparr>red_max := red_max partial\<rparr> else v)
          in Inr v)))"

definition advance_input :: "probe_batch \<Rightarrow> agg_input \<Rightarrow> agg_input result" where
  "advance_input batch input =
     rbind (merge_reduction (ai_flags input)
        (reduce_int4 (pb_columns batch ! ai_column input) (pb_selection batch) (ai_flags input)) (ai_value input)) (\<lambda>v.
     Inr (input\<lparr>ai_value := v\<rparr>))"

fun rmap :: "('a \<Rightarrow> 'b result) \<Rightarrow> 'a list \<Rightarrow> 'b list result" where
  "rmap f [] = Inr []"
| "rmap f (x # xs) = rbind (f x) (\<lambda>y. rbind (rmap f xs) (\<lambda>ys. Inr (y # ys)))"

definition advance_aggregates :: "probe_batch \<Rightarrow> int \<Rightarrow> 't agg_state \<Rightarrow> 't agg_state result" where
  "advance_aggregates batch nselected st =
     rbind (if as_has_count_star st then add_int64_checked (as_count_star st) nselected else Inr (as_count_star st)) (\<lambda>c.
     rbind (rmap (advance_input batch) (as_inputs st)) (\<lambda>inputs.
     Inr (st\<lparr>as_count_star := c, as_inputs := inputs\<rparr>)))"

text \<open>A result column is a \<open>Datum\<close> and its NULL flag.\<close>

definition plain_result :: "'t agg_state \<Rightarrow> agg_spec \<Rightarrow> datum \<times> bool" where
  "plain_result st agg =
     (let v = ai_value (as_inputs st ! nat (ag_input agg))
      in if ag_kind agg \<noteq> AGG_COUNT_STAR \<and> ag_kind agg \<noteq> AGG_COUNT_COLUMN \<and> \<not> red_has_value v then (0, True)
         else
           (case ag_kind agg of
              AGG_COUNT_STAR \<Rightarrow> as_count_star st
            | AGG_COUNT_COLUMN \<Rightarrow> red_count v
            | AGG_SUM_INT4 \<Rightarrow> red_sum v
            | AGG_MIN_INT4 \<Rightarrow> int32_get_datum (red_min v)
            | AGG_MAX_INT4 \<Rightarrow> int32_get_datum (red_max v)
            | AGG_GROUP_KEY \<Rightarrow> 0, False))"

definition plain_batch :: "probe_batch \<Rightarrow> 't agg_state \<Rightarrow> 't agg_state result" where
  "plain_batch batch st =
     (let nselected = selection_count (pb_selection batch)
      in advance_aggregates batch nselected (st\<lparr>as_child := tl (as_child st), as_input_batches := as_input_batches st + 1,
           as_input_rows := as_input_rows st + nat nselected\<rparr>))"

definition agg_exec_plain :: "'t agg_state \<Rightarrow> ((datum \<times> bool) list option \<times> 't agg_state) result" where
  "agg_exec_plain st =
     (if as_emitted st then Inr (None, st)
      else
        rbind (rfold plain_batch (as_child st) st) (\<lambda>st.
        Inr (Some (map (plain_result st) (as_aggs st)), st\<lparr>as_emitted := True\<rparr>)))"

section \<open>Groups\<close>

definition find_group ::
  "nat \<Rightarrow> group_entry list \<Rightarrow> group_key \<Rightarrow> bool \<Rightarrow> nat option \<times> group_entry list" where
  "find_group ninputs groups key allow_insert =
     (case List.find (\<lambda>i. ge_key (groups ! i) = key) [0..<length groups] of
        Some i \<Rightarrow> (Some i, groups)
      | None \<Rightarrow>
          if allow_insert
          then (Some (length groups),
                groups @ [\<lparr>ge_key = key, ge_count_star = 0, ge_values = replicate ninputs reduction_zero\<rparr>])
          else (None, groups))"

definition advance_value :: "uint32 \<Rightarrow> int4 \<Rightarrow> int4_reduction \<Rightarrow> int4_reduction result" where
  "advance_value flags x v =
     rbind (if has_flag flags REDUCE_COUNT
            then rbind (add_int64_checked (red_count v) 1) (\<lambda>c. Inr (v\<lparr>red_count := c\<rparr>)) else Inr v) (\<lambda>v.
     rbind (if has_flag flags REDUCE_SUM
            then rbind (add_int64_checked (red_sum v) (sint x)) (\<lambda>s. Inr (v\<lparr>red_sum := s\<rparr>)) else Inr v) (\<lambda>v.
     if \<not> red_has_value v then Inr (v\<lparr>red_min := x, red_max := x, red_has_value := True\<rparr>)
     else
       (let v = (if has_flag flags REDUCE_MIN \<and> sint x < sint (red_min v) then v\<lparr>red_min := x\<rparr> else v);
            v = (if has_flag flags REDUCE_MAX \<and> sint x > sint (red_max v) then v\<lparr>red_max := x\<rparr> else v)
        in Inr v)))"

definition advance_group_entry ::
  "bool \<Rightarrow> agg_input list \<Rightarrow> int4_vector list \<Rightarrow> nat \<Rightarrow> group_entry \<Rightarrow> group_entry result" where
  "advance_group_entry has_count_star inputs vectors row e =
     rbind (if has_count_star then add_int64_checked (ge_count_star e) 1 else Inr (ge_count_star e)) (\<lambda>c.
     rbind (rmap (\<lambda>inputno.
         let flags = ai_flags (inputs ! inputno); v = ge_values e ! inputno
         in if flags = 0 \<or> int4_row_is_null (vectors ! inputno) row then Inr v
            else advance_value flags (int4_row_value (vectors ! inputno) row) v) [0..<length inputs]) (\<lambda>vs.
     Inr (e\<lparr>ge_count_star := c, ge_values := vs\<rparr>)))"

definition load_group_vectors :: "agg_input list \<Rightarrow> probe_batch \<Rightarrow> int4_vector list" where
  "load_group_vectors inputs batch = map (\<lambda>input. pb_columns batch ! ai_column input) inputs"

definition group_hash :: "hash32 \<Rightarrow> int4_vector \<Rightarrow> nat \<Rightarrow> uint32 \<times> group_key" where
  "group_hash mur key row =
     (let isnull = int4_row_is_null key row
      in if isnull then (mur 0x9e3779b9, \<lparr>gk_value = 0, gk_isnull = True\<rparr>)
         else (mur (int4_row_value key row), \<lparr>gk_value = int4_row_value key row, gk_isnull = False\<rparr>))"

definition spill_desc :: "nat \<Rightarrow> attribute list" where
  "spill_desc ninputs = replicate ninputs \<lparr>att_isdropped = False, att_typid = 23\<rparr>"

definition ensure_initial_spill :: "'t tape_ops \<Rightarrow> 't agg_state \<Rightarrow> 't agg_state result" where
  "ensure_initial_spill T st =
     (if as_initial_spill st \<noteq> None then Inr st
      else
        rbind (spill_create T (Some ()) (Some (spill_desc (length (as_inputs st)))) (int (length (as_inputs st))) 32
          (as_spill_buffer_limit st)) (\<lambda>s.
        Inr (st\<lparr>as_initial_spill := Some (length (as_spill_sets st)), as_spill_sets := as_spill_sets st @ [s],
                as_spill_partitions := 32\<rparr>)))"

definition advance_group_row ::
  "hash32 \<Rightarrow> int4_vector list \<Rightarrow> nat \<Rightarrow> 't agg_state \<times> uint64 list \<Rightarrow> ('t agg_state \<times> uint64 list) result" where
  "advance_group_row mur vectors row = (\<lambda>(st, partition_rows).
     (let (hash, key) = group_hash mur (vectors ! as_group_input st) row;
          st = st\<lparr>as_hashes := (as_hashes st)[row := hash]\<rparr>;
          (entry, groups) = find_group (length (as_inputs st)) (as_main_groups st) key False;
          (entry, groups) =
            (if entry = None \<and> \<not> as_spilling st \<and> length groups < as_group_limit st
             then find_group (length (as_inputs st)) groups key True else (entry, groups))
      in case entry of
           Some i \<Rightarrow>
             rbind (advance_group_entry (as_has_count_star st) (as_inputs st) vectors row (groups ! i)) (\<lambda>e.
             Inr (st\<lparr>as_main_groups := groups[i := e]\<rparr>, partition_rows))
         | None \<Rightarrow>
             (let p = unat (hash AND 31)
              in Inr (st\<lparr>as_spilling := True, as_spill_rows := as_spill_rows st + 1\<rparr>,
                   partition_rows[p := (partition_rows ! p) OR push_bit row 1]))))"

definition write_partitions ::
  "'t tape_ops \<Rightarrow> int4_vector list \<Rightarrow> int \<Rightarrow> uint32 list \<Rightarrow> uint64 list \<Rightarrow> nat \<Rightarrow> 't spill_set \<Rightarrow> 't spill_set result" where
  "write_partitions T vectors nrows hashes partition_rows npartitions s =
     rfold (\<lambda>p s.
        if partition_rows ! p \<noteq> 0
        then spill_write T (int p) (Some vectors)
               (Some \<lparr>sel_nrows = nrows, sel_nwords = 1, sel_words = [partition_rows ! p]\<rparr>) (Some hashes) s
        else Inr s) [0..<npartitions] s"

definition advance_grouped_batch :: "'t tape_ops \<Rightarrow> hash32 \<Rightarrow> probe_batch \<Rightarrow> 't agg_state \<Rightarrow> 't agg_state result" where
  "advance_grouped_batch T mur batch st =
     (let sel = pb_selection batch
      in if sel_nwords sel \<noteq> 1 \<or> sel_nrows sel > int PG_BATCH_SIZE
         then Inl (Elog ''pg_batch grouped aggregate requires batches of at most 64 rows'')
         else
           (let vectors = load_group_vectors (as_inputs st) batch
            in rbind (rfold (advance_group_row mur vectors) (word_rows (sel_words sel ! 0)) (st, replicate 32 0))
                 (\<lambda>(st, partition_rows).
               if \<not> as_spilling st then Inr st
               else
                 rbind (ensure_initial_spill T st) (\<lambda>st.
                 let k = the (as_initial_spill st)
                 in rbind (write_partitions T vectors (sel_nrows sel) (as_hashes st) partition_rows 32
                             (as_spill_sets st ! k)) (\<lambda>s.
                    Inr (st\<lparr>as_spill_sets := (as_spill_sets st)[k := s]\<rparr>))))))"


section \<open>Spilled groups\<close>

definition spill_block_vectors :: "nat \<Rightarrow> spill_block \<Rightarrow> int4_vector list" where
  "spill_block_vectors ninputs block =
     map (\<lambda>column. int4_vector_init_packed (drop (column * PG_BATCH_SPILL_BLOCK_ROWS) (sb_values block))
            (Some (drop (column * 8) (sb_validity block))) 0) [0..<ninputs]"

text \<open>Loading stops, with \<open>False\<close>, at a new group that does not fit.\<close>

definition load_spill_row ::
  "hash32 \<Rightarrow> 't agg_state \<Rightarrow> int4_vector list \<Rightarrow> nat \<Rightarrow> bool \<times> group_entry list \<Rightarrow> (bool \<times> group_entry list) result" where
  "load_spill_row mur st vectors row = (\<lambda>(going, groups).
     if \<not> going then Inr (False, groups)
     else
       (let (hash, key) = group_hash mur (vectors ! as_group_input st) row;
            (entry, groups) = find_group (length (as_inputs st)) groups key False
        in if entry = None \<and> length groups \<ge> as_group_limit st then Inr (False, groups)
           else
             (let (entry, groups) =
                    (if entry = None then find_group (length (as_inputs st)) groups key True else (entry, groups));
                  i = the entry
              in rbind (advance_group_entry (as_has_count_star st) (as_inputs st) vectors row (groups ! i)) (\<lambda>e.
                 Inr (True, groups[i := e])))))"

definition load_spill_block ::
  "hash32 \<Rightarrow> 't agg_state \<Rightarrow> spill_block \<Rightarrow> group_entry list \<Rightarrow> (bool \<times> group_entry list) result" where
  "load_spill_block mur st block groups =
     rfold (load_spill_row mur st (spill_block_vectors (length (as_inputs st)) block))
       (word_rows (sb_selection block)) (True, groups)"

definition load_spill_groups ::
  "'t tape_ops \<Rightarrow> hash32 \<Rightarrow> 't agg_state \<Rightarrow> spill_work \<Rightarrow> (bool \<times> group_entry list \<times> 't spill_set) result option" where
  "load_spill_groups T mur st work =
     (case spill_reader_open T (int (wk_partition work)) (as_spill_sets st ! wk_set work) of
        Inl e \<Rightarrow> Some (Inl e)
      | Inr (reader, s) \<Rightarrow> spill_loop T (load_spill_block mur st) reader s [])"

definition append_spill_work :: "nat \<Rightarrow> nat \<Rightarrow> nat \<Rightarrow> 't agg_state \<Rightarrow> 't agg_state" where
  "append_spill_work set_no part hash_shift st =
     st\<lparr>as_spill_work := as_spill_work st @ [\<lparr>wk_set = set_no, wk_partition = part, wk_hash_shift = hash_shift\<rparr>]\<rparr>"

text \<open>The rows of a block, as one bitmap per partition.\<close>

definition partition_block :: "nat \<Rightarrow> nat \<Rightarrow> spill_block \<Rightarrow> uint64 list" where
  "partition_block hash_shift npartitions block =
     fold (\<lambda>row partition_rows.
        let p = unat (drop_bit hash_shift (sb_hashes block ! row) AND (of_nat npartitions - 1))
        in partition_rows[p := (partition_rows ! p) OR push_bit row 1])
       (word_rows (sb_selection block)) (replicate 32 0)"

definition repartition_block ::
  "'t tape_ops \<Rightarrow> nat \<Rightarrow> nat \<Rightarrow> nat \<Rightarrow> spill_block \<Rightarrow> 't spill_set \<Rightarrow> (bool \<times> 't spill_set) result" where
  "repartition_block T ninputs hash_shift npartitions block child =
     rbind (write_partitions T (spill_block_vectors ninputs block) (int (sb_nrows block)) (sb_hashes block)
       (partition_block hash_shift npartitions block) npartitions child) (\<lambda>child. Inr (True, child))"

definition append_child_work :: "nat \<Rightarrow> 't spill_set \<Rightarrow> nat \<Rightarrow> nat \<Rightarrow> 't agg_state \<Rightarrow> 't agg_state result" where
  "append_child_work set_no s hash_shift npartitions st =
     rfold (\<lambda>part st.
        rbind (spill_partition_empty s (int part)) (\<lambda>empty.
        Inr (if \<not> empty then append_spill_work set_no part hash_shift st else st))) [0..<npartitions] st"

definition repartition_spill :: "'t tape_ops \<Rightarrow> spill_work \<Rightarrow> 't agg_state \<Rightarrow> 't agg_state result option" where
  "repartition_spill T work st =
     (if wk_hash_shift work \<ge> 32
      then Some (Inl (Ereport ERRCODE_PROGRAM_LIMIT_EXCEEDED ''pg_batch aggregate cannot repartition a skewed group set''))
      else
        (let hash_bits = min 5 (32 - wk_hash_shift work);
             npartitions = 2 ^ hash_bits;
             ninputs = length (as_inputs st)
         in case rbind (spill_create T (Some ()) (Some (spill_desc ninputs)) (int ninputs) (int npartitions)
                      (as_spill_buffer_limit st)) (\<lambda>child.
                 rbind (spill_reader_open T (int (wk_partition work)) (as_spill_sets st ! wk_set work)) (\<lambda>(reader, s).
                 Inr (child, reader, s))) of
              Inl e \<Rightarrow> Some (Inl e)
            | Inr (child, reader, s) \<Rightarrow>
                map_option (\<lambda>res.
                    rbind res (\<lambda>(_, child, s).
                    rbind (spill_finish T True child) (\<lambda>child.
                    append_child_work (length (as_spill_sets st)) child (wk_hash_shift work + hash_bits) npartitions
                      (st\<lparr>as_spill_sets := (as_spill_sets st)[wk_set work := s] @ [child],
                          as_spill_repartitions := as_spill_repartitions st + 1,
                          as_spill_partitions := as_spill_partitions st + npartitions\<rparr>))))
                  (spill_loop T (repartition_block T ninputs (wk_hash_shift work) npartitions) reader s child)))"

text \<open>One turn of \<open>prepare_next_spill_partition\<close>: \<open>True\<close> when a partition is ready to be returned.\<close>

definition next_spill_work :: "'t tape_ops \<Rightarrow> hash32 \<Rightarrow> spill_work \<Rightarrow> 't agg_state \<Rightarrow> (bool \<times> 't agg_state) result option" where
  "next_spill_work T mur work st =
     Option.bind (load_spill_groups T mur st work) (\<lambda>res.
       case res of
         Inl e \<Rightarrow> Some (Inl e)
       | Inr (loaded, groups, s) \<Rightarrow>
           (let st = st\<lparr>as_spill_sets := (as_spill_sets st)[wk_set work := s]\<rparr>
            in if loaded then Some (Inr (True, st\<lparr>as_group_seq := groups\<rparr>))
               else map_option (\<lambda>res. rbind res (\<lambda>st. Inr (False, st))) (repartition_spill T work st)))"

partial_function (option) prepare_next_spill_partition ::
  "'t tape_ops \<Rightarrow> hash32 \<Rightarrow> 't agg_state \<Rightarrow> (bool \<times> 't agg_state) result option" where
  "prepare_next_spill_partition T mur st =
     (case as_spill_work st of
        [] \<Rightarrow> Some (Inr (False, st))
      | work # works \<Rightarrow>
          Option.bind (next_spill_work T mur work (st\<lparr>as_spill_work := works\<rparr>)) (\<lambda>res.
            case res of
              Inl e \<Rightarrow> Some (Inl e)
            | Inr (ready, st) \<Rightarrow> if ready then Some (Inr (True, st)) else prepare_next_spill_partition T mur st))"

definition finish_group_input :: "'t tape_ops \<Rightarrow> 't agg_state \<Rightarrow> 't agg_state result" where
  "finish_group_input T st =
     (let st = st\<lparr>as_input_done := True\<rparr>
      in rbind (case as_initial_spill st of
                  None \<Rightarrow> Inr st
                | Some k \<Rightarrow>
                    rbind (spill_finish T True (as_spill_sets st ! k)) (\<lambda>s.
                    append_child_work k s 5 32 (st\<lparr>as_spill_sets := (as_spill_sets st)[k := s]\<rparr>))) (\<lambda>st.
         Inr (st\<lparr>as_group_seq := as_main_groups st\<rparr>)))"

definition group_result :: "group_entry \<Rightarrow> agg_spec \<Rightarrow> datum \<times> bool" where
  "group_result e agg =
     (let v = ge_values e ! nat (ag_input agg)
      in case ag_kind agg of
           AGG_GROUP_KEY \<Rightarrow> (int32_get_datum (gk_value (ge_key e)), gk_isnull (ge_key e))
         | AGG_COUNT_STAR \<Rightarrow> (ge_count_star e, False)
         | AGG_COUNT_COLUMN \<Rightarrow> (red_count v, False)
         | AGG_SUM_INT4 \<Rightarrow> (red_sum v, \<not> red_has_value v)
         | AGG_MIN_INT4 \<Rightarrow> (int32_get_datum (red_min v), \<not> red_has_value v)
         | AGG_MAX_INT4 \<Rightarrow> (int32_get_datum (red_max v), \<not> red_has_value v))"

definition store_group_result :: "'t agg_state \<Rightarrow> group_entry \<Rightarrow> (datum \<times> bool) list" where
  "store_group_result st e = map (group_result e) (as_aggs st)"

definition grouped_batch :: "'t tape_ops \<Rightarrow> hash32 \<Rightarrow> probe_batch \<Rightarrow> 't agg_state \<Rightarrow> 't agg_state result" where
  "grouped_batch T mur batch st =
     advance_grouped_batch T mur batch (st\<lparr>as_child := tl (as_child st), as_input_batches := as_input_batches st + 1,
       as_input_rows := as_input_rows st + nat (selection_count (pb_selection batch))\<rparr>)"

partial_function (option) emit_group ::
  "'t tape_ops \<Rightarrow> hash32 \<Rightarrow> 't agg_state \<Rightarrow> ((datum \<times> bool) list option \<times> 't agg_state) result option" where
  "emit_group T mur st =
     (case as_group_seq st of
        e # es \<Rightarrow> Some (Inr (Some (store_group_result st e), st\<lparr>as_group_seq := es\<rparr>))
      | [] \<Rightarrow>
          Option.bind (prepare_next_spill_partition T mur st) (\<lambda>res.
            case res of
              Inl e \<Rightarrow> Some (Inl e)
            | Inr (found, st) \<Rightarrow> if \<not> found then Some (Inr (None, st)) else emit_group T mur st))"

definition agg_exec_grouped ::
  "'t tape_ops \<Rightarrow> hash32 \<Rightarrow> 't agg_state \<Rightarrow> ((datum \<times> bool) list option \<times> 't agg_state) result option" where
  "agg_exec_grouped T mur st =
     (case (if \<not> as_input_done st
            then rbind (rfold (grouped_batch T mur) (as_child st) st) (finish_group_input T) else Inr st) of
        Inl e \<Rightarrow> Some (Inl e)
      | Inr st \<Rightarrow> emit_group T mur st)"

definition agg_exec ::
  "'t tape_ops \<Rightarrow> hash32 \<Rightarrow> 't agg_state \<Rightarrow> ((datum \<times> bool) list option \<times> 't agg_state) result option" where
  "agg_exec T mur st = (if as_grouped st then agg_exec_grouped T mur st else Some (agg_exec_plain st))"

definition destroy_spills :: "'t agg_state \<Rightarrow> 't agg_state" where
  "destroy_spills st = st\<lparr>as_spill_sets := [], as_spill_work := [], as_initial_spill := None\<rparr>"

definition agg_rescan :: "probe_batch list \<Rightarrow> 't agg_state \<Rightarrow> 't agg_state" where
  "agg_rescan child st =
     (let st = st\<lparr>as_child := child\<rparr>;
          st = (if as_grouped st
                then (destroy_spills st)\<lparr>as_main_groups := [], as_group_seq := [], as_spilling := False, as_spill_rows := 0,
                       as_spill_partitions := 0, as_spill_repartitions := 0\<rparr>
                else st)
      in reset_aggregate_values st)"

text \<open>A parent that asks for rows until none comes.\<close>

partial_function (option) agg_all :: "'t tape_ops \<Rightarrow> hash32 \<Rightarrow> 't agg_state \<Rightarrow> ((datum \<times> bool) list list \<times> 't agg_state) result option" where
  "agg_all T mur st =
     Option.bind (agg_exec T mur st) (\<lambda>res.
       case res of
         Inl e \<Rightarrow> Some (Inl e)
       | Inr (r, st) \<Rightarrow>
           (case r of
              None \<Rightarrow> Some (Inr ([], st))
            | Some row \<Rightarrow> Option.bind (agg_all T mur st) (\<lambda>rows.
                Some (rbind rows (\<lambda>(rows, st). Inr (row # rows, st))))))"

end
