(* ===== verification/Aggregate_Values.thy ===== *)
theory Aggregate_Values
  imports Aggregate
begin

text \<open>
  What a running aggregate stands for: the reduction of the values seen so far.  Merging
  the result of the reduction kernel and advancing by one value keep it, as long as fewer
  than \<open>2 ^ 32\<close> values were seen, so that no sum overflows.
\<close>

section \<open>Reductions\<close>

definition summarizes :: "uint32 \<Rightarrow> int4 list \<Rightarrow> int4_reduction \<Rightarrow> bool" where
  "summarizes flags vs r \<longleftrightarrow>
     (flags \<noteq> 0 \<longrightarrow> red_has_value r = (vs \<noteq> [])) \<and>
     (has_flag flags REDUCE_COUNT \<longrightarrow> sint (red_count r) = int (length vs)) \<and>
     (has_flag flags REDUCE_SUM \<longrightarrow> sint (red_sum r) = sum_list (map sint vs)) \<and>
     (has_flag flags REDUCE_MIN \<longrightarrow> vs \<noteq> [] \<longrightarrow> sint (red_min r) = Min (sint ` set vs)) \<and>
     (has_flag flags REDUCE_MAX \<longrightarrow> vs \<noteq> [] \<longrightarrow> sint (red_max r) = Max (sint ` set vs))"

lemma summarizes_zero [simp]: "summarizes flags [] reduction_zero"
  by (simp add: summarizes_def reduction_zero_def)

lemma has_flag_nonzero: "has_flag flags f \<Longrightarrow> flags \<noteq> 0"
  by (auto simp: has_flag_def)

lemma sint_word_of_int_64: "- (2 ^ 63) \<le> x \<Longrightarrow> x < 2 ^ 63 \<Longrightarrow> sint (word_of_int x :: 64 word) = x"
  by (simp add: sint_sbintrunc' signed_take_bit_int_eq_self)

lemma add_int64_checked_ok:
  "- (2 ^ 63) \<le> sint t + x \<Longrightarrow> sint t + x < 2 ^ 63 \<Longrightarrow>
     \<exists>w. add_int64_checked t x = Inr w \<and> sint w = sint t + x"
  by (simp add: add_int64_checked_def sint_word_of_int_64 del: of_int_add)

lemma sum_sint_range:
  assumes "length (vs :: int4 list) < 2 ^ 32"
  shows "- (2 ^ 63) \<le> sum_list (map sint vs) \<and> sum_list (map sint vs) < 2 ^ 63"
proof -
  have "int (length vs) \<le> 4294967295" using assms by simp
  then show ?thesis using sum_list_sint_bounds [of vs] by simp
qed

lemma add_count_ok:
  assumes "sint t = int a" "int (a + b) < 2 ^ 63"
  shows "\<exists>w. add_int64_checked t (int b) = Inr w \<and> sint w = int (a + b)"
  using add_int64_checked_ok [of t "int b"] assms by auto

lemma add_sum_ok:
  assumes "sint t = sum_list (map sint vs)" "length (vs @ ws) < 2 ^ 32"
  shows "\<exists>w. add_int64_checked t (sum_list (map sint ws)) = Inr w \<and> sint w = sum_list (map sint (vs @ (ws :: int4 list)))"
  using add_int64_checked_ok [of t "sum_list (map sint ws)"] assms sum_sint_range [of "vs @ ws"] by auto

lemma count_step:
  assumes "c \<longrightarrow> sint (red_count v) = int a" "c \<longrightarrow> y = int b" "a + b < 2 ^ 32"
  shows "\<exists>v'. (if c then rbind (add_int64_checked (red_count v) y) (\<lambda>w. Inr (v\<lparr>red_count := w\<rparr>)) else Inr v) = Inr v' \<and>
    (c \<longrightarrow> sint (red_count v') = int (a + b)) \<and> red_sum v' = red_sum v \<and> red_min v' = red_min v \<and>
    red_max v' = red_max v \<and> red_has_value v' = red_has_value v"
proof (cases c)
  case True
  have "int (a + b) < 2 ^ 63" using assms(3) by simp
  then obtain w where w: "add_int64_checked (red_count v) y = Inr w" "sint w = int (a + b)"
    using add_count_ok [of "red_count v" a b] assms(1,2) True by auto
  show ?thesis using True w by (intro exI [of _ "v\<lparr>red_count := w\<rparr>"]) simp
qed simp

lemma sum_step:
  assumes "c \<longrightarrow> sint (red_sum v) = sum_list (map sint vs)" "c \<longrightarrow> y = sum_list (map sint ws)"
    "length (vs @ (ws :: int4 list)) < 2 ^ 32"
  shows "\<exists>v'. (if c then rbind (add_int64_checked (red_sum v) y) (\<lambda>w. Inr (v\<lparr>red_sum := w\<rparr>)) else Inr v) = Inr v' \<and>
    (c \<longrightarrow> sint (red_sum v') = sum_list (map sint (vs @ ws))) \<and> red_count v' = red_count v \<and> red_min v' = red_min v \<and>
    red_max v' = red_max v \<and> red_has_value v' = red_has_value v"
proof (cases c)
  case True
  then obtain w where w: "add_int64_checked (red_sum v) y = Inr w" "sint w = sum_list (map sint (vs @ ws))"
    using add_sum_ok [of "red_sum v" vs ws] assms by auto
  show ?thesis using True w by (intro exI [of _ "v\<lparr>red_sum := w\<rparr>"]) simp
qed simp

lemma Min_append: "vs \<noteq> [] \<Longrightarrow> ws \<noteq> [] \<Longrightarrow> Min (f ` set (vs @ ws)) = min (Min (f ` set vs)) (Min (f ` set ws))"
  by (simp add: image_Un Min_Un)

lemma Max_append: "vs \<noteq> [] \<Longrightarrow> ws \<noteq> [] \<Longrightarrow> Max (f ` set (vs @ ws)) = max (Max (f ` set vs)) (Max (f ` set ws))"
  by (simp add: image_Un Max_Un)

text \<open>The comparison both functions end with, for a reduction that has a value.\<close>

lemma minmax_step:
  "\<exists>v'. (let v = (if c \<and> sint x < sint (red_min v) then v\<lparr>red_min := x\<rparr> else v);
              v = (if d \<and> sint y > sint (red_max v) then v\<lparr>red_max := y\<rparr> else v)
          in Inr v :: int4_reduction result) = Inr v' \<and>
    red_count v' = red_count v \<and> red_sum v' = red_sum v \<and> red_has_value v' = red_has_value v \<and>
    (c \<longrightarrow> sint (red_min v') = min (sint (red_min v)) (sint x)) \<and>
    (d \<longrightarrow> sint (red_max v') = max (sint (red_max v)) (sint y))"
  by (simp add: Let_def min_def max_def)

lemma summarizesD:
  assumes "summarizes flags vs r"
  shows "has_flag flags REDUCE_COUNT \<longrightarrow> sint (red_count r) = int (length vs)"
    "has_flag flags REDUCE_SUM \<longrightarrow> sint (red_sum r) = sum_list (map sint vs)"
    "flags \<noteq> 0 \<longrightarrow> red_has_value r = (vs \<noteq> [])"
    "has_flag flags REDUCE_MIN \<longrightarrow> vs \<noteq> [] \<longrightarrow> sint (red_min r) = Min (sint ` set vs)"
    "has_flag flags REDUCE_MAX \<longrightarrow> vs \<noteq> [] \<longrightarrow> sint (red_max r) = Max (sint ` set vs)"
  using assms by (simp_all add: summarizes_def)

lemma summarizesI:
  assumes "flags \<noteq> 0 \<longrightarrow> red_has_value r = (vs \<noteq> [])"
    and "has_flag flags REDUCE_COUNT \<longrightarrow> sint (red_count r) = int (length vs)"
    and "has_flag flags REDUCE_SUM \<longrightarrow> sint (red_sum r) = sum_list (map sint vs)"
    and "has_flag flags REDUCE_MIN \<longrightarrow> vs \<noteq> [] \<longrightarrow> sint (red_min r) = Min (sint ` set vs)"
    and "has_flag flags REDUCE_MAX \<longrightarrow> vs \<noteq> [] \<longrightarrow> sint (red_max r) = Max (sint ` set vs)"
  shows "summarizes flags vs r"
  using assms unfolding summarizes_def by blast

lemma merge_reduction_ok:
  assumes s: "summarizes flags vs v" and p: "summarizes flags ws p" "red_has_value p \<longleftrightarrow> ws \<noteq> []"
    and len: "length (vs @ ws) < 2 ^ 32"
  shows "\<exists>v'. merge_reduction flags p v = Inr v' \<and> summarizes flags (vs @ ws) v'"
proof -
  note sv = summarizesD [OF s] and sp = summarizesD [OF p(1)]
  have len': "length vs + length ws < 2 ^ 32" using len by simp
  obtain v1 where v1: "(if has_flag flags REDUCE_COUNT
            then rbind (add_int64_checked (red_count v) (sint (red_count p))) (\<lambda>c. Inr (v\<lparr>red_count := c\<rparr>))
            else Inr v) = Inr v1" "has_flag flags REDUCE_COUNT \<longrightarrow> sint (red_count v1) = int (length vs + length ws)"
    "red_sum v1 = red_sum v" "red_min v1 = red_min v" "red_max v1 = red_max v" "red_has_value v1 = red_has_value v"
    using count_step [OF sv(1) sp(1) len'] by blast
  show ?thesis
  proof (cases "ws = []")
    case True
    then have "merge_reduction flags p v = Inr v1" using v1(1) p(2) by (simp add: merge_reduction_def)
    moreover have "summarizes flags (vs @ ws) v1" using sv v1 True by (intro summarizesI) simp_all
    ultimately show ?thesis by blast
  next
    case False
    have sv1: "has_flag flags REDUCE_SUM \<longrightarrow> sint (red_sum v1) = sum_list (map sint vs)" using sv(2) v1(3) by simp
    obtain v2 where v2: "(if has_flag flags REDUCE_SUM
              then rbind (add_int64_checked (red_sum v1) (sint (red_sum p))) (\<lambda>s. Inr (v1\<lparr>red_sum := s\<rparr>))
              else Inr v1) = Inr v2"
      "has_flag flags REDUCE_SUM \<longrightarrow> sint (red_sum v2) = sum_list (map sint (vs @ ws))"
      "red_count v2 = red_count v1" "red_min v2 = red_min v1" "red_max v2 = red_max v1" "red_has_value v2 = red_has_value v1"
      using sum_step [OF sv1 sp(2) len] by blast
    have m: "merge_reduction flags p v = (if \<not> red_has_value v2 then
         (let v = (if has_flag flags REDUCE_MIN then v2\<lparr>red_min := red_min p\<rparr> else v2);
              v = (if has_flag flags REDUCE_MAX then v\<lparr>red_max := red_max p\<rparr> else v)
          in Inr (v\<lparr>red_has_value := True\<rparr>))
       else
         (let v = (if has_flag flags REDUCE_MIN \<and> sint (red_min p) < sint (red_min v2)
                   then v2\<lparr>red_min := red_min p\<rparr> else v2);
              v = (if has_flag flags REDUCE_MAX \<and> sint (red_max p) > sint (red_max v)
                   then v\<lparr>red_max := red_max p\<rparr> else v)
          in Inr v))"
      using False p(2) by (simp add: merge_reduction_def v1(1) v2(1))
    have hv: "red_has_value v2 = red_has_value v" using v1(6) v2(6) by simp
    show ?thesis
    proof (cases "red_has_value v")
      case h: False
      then have "flags \<noteq> 0 \<longrightarrow> vs = []" using sv(3) by simp
      then have e: "has_flag flags f \<longrightarrow> vs = []" for f using has_flag_nonzero by blast
      show ?thesis
        unfolding m using h hv v1(2) v2 sp(4,5) False e
        by (auto simp: Let_def intro!: summarizesI)
    next
      case h: True
      then have ne: "flags \<noteq> 0 \<longrightarrow> vs \<noteq> []" using sv(3) by simp
      obtain v3 where v3: "merge_reduction flags p v = Inr v3" "red_count v3 = red_count v2" "red_sum v3 = red_sum v2"
        "red_has_value v3 = red_has_value v2"
        "has_flag flags REDUCE_MIN \<longrightarrow> sint (red_min v3) = min (sint (red_min v2)) (sint (red_min p))"
        "has_flag flags REDUCE_MAX \<longrightarrow> sint (red_max v3) = max (sint (red_max v2)) (sint (red_max p))"
        using minmax_step [of "has_flag flags REDUCE_MIN" "red_min p" v2 "has_flag flags REDUCE_MAX" "red_max p"] m h hv
        by auto
      have "summarizes flags (vs @ ws) v3"
      proof (rule summarizesI)
        show "has_flag flags REDUCE_MIN \<longrightarrow> vs @ ws \<noteq> [] \<longrightarrow> sint (red_min v3) = Min (sint ` set (vs @ ws))"
          using v3(5) sv(4) sp(4) ne False v1(4) v2(4) has_flag_nonzero Min_append [of vs ws sint] by metis
        show "has_flag flags REDUCE_MAX \<longrightarrow> vs @ ws \<noteq> [] \<longrightarrow> sint (red_max v3) = Max (sint ` set (vs @ ws))"
          using v3(6) sv(5) sp(5) ne False v1(5) v2(5) has_flag_nonzero Max_append [of vs ws sint] by metis
      qed (use v3 v2 v1 h hv False in simp_all)
      then show ?thesis using v3(1) by blast
    qed
  qed
qed

lemma advance_value_ok:
  assumes s: "summarizes flags vs v" and f: "flags \<noteq> 0" and len: "length vs + 1 < 2 ^ 32"
  shows "\<exists>v'. advance_value flags x v = Inr v' \<and> summarizes flags (vs @ [x]) v'"
proof -
  note sv = summarizesD [OF s]
  obtain v1 where v1: "(if has_flag flags REDUCE_COUNT
            then rbind (add_int64_checked (red_count v) 1) (\<lambda>c. Inr (v\<lparr>red_count := c\<rparr>)) else Inr v) = Inr v1"
    "has_flag flags REDUCE_COUNT \<longrightarrow> sint (red_count v1) = int (length vs + 1)"
    "red_sum v1 = red_sum v" "red_min v1 = red_min v" "red_max v1 = red_max v" "red_has_value v1 = red_has_value v"
    using count_step [OF sv(1) _ len, of 1] by auto
  have sv1: "has_flag flags REDUCE_SUM \<longrightarrow> sint (red_sum v1) = sum_list (map sint vs)" using sv(2) v1(3) by simp
  have "length (vs @ [x]) < 2 ^ 32" "sint x = sum_list (map sint [x])" using len by simp_all
  then obtain v2 where v2: "(if has_flag flags REDUCE_SUM
            then rbind (add_int64_checked (red_sum v1) (sint x)) (\<lambda>s. Inr (v1\<lparr>red_sum := s\<rparr>)) else Inr v1) = Inr v2"
    "has_flag flags REDUCE_SUM \<longrightarrow> sint (red_sum v2) = sum_list (map sint (vs @ [x]))"
    "red_count v2 = red_count v1" "red_min v2 = red_min v1" "red_max v2 = red_max v1" "red_has_value v2 = red_has_value v1"
    using sum_step [OF sv1, of "sint x" "[x]"] by blast
  have m: "advance_value flags x v = (if \<not> red_has_value v2 then Inr (v2\<lparr>red_min := x, red_max := x, red_has_value := True\<rparr>)
     else
       (let v = (if has_flag flags REDUCE_MIN \<and> sint x < sint (red_min v2) then v2\<lparr>red_min := x\<rparr> else v2);
            v = (if has_flag flags REDUCE_MAX \<and> sint x > sint (red_max v) then v\<lparr>red_max := x\<rparr> else v)
        in Inr v))"
    by (simp add: advance_value_def v1(1) v2(1))
  have hv: "red_has_value v2 = (vs \<noteq> [])" using v1(6) v2(6) sv(3) f by simp
  show ?thesis
  proof (cases "vs = []")
    case True
    have "summarizes flags (vs @ [x]) (v2\<lparr>red_min := x, red_max := x, red_has_value := True\<rparr>)"
      using True v1(2) v2 by (intro summarizesI) simp_all
    then show ?thesis using m hv True by simp
  next
    case False
    obtain v3 where v3: "advance_value flags x v = Inr v3" "red_count v3 = red_count v2" "red_sum v3 = red_sum v2"
      "red_has_value v3 = red_has_value v2"
      "has_flag flags REDUCE_MIN \<longrightarrow> sint (red_min v3) = min (sint (red_min v2)) (sint x)"
      "has_flag flags REDUCE_MAX \<longrightarrow> sint (red_max v3) = max (sint (red_max v2)) (sint x)"
      using minmax_step [of "has_flag flags REDUCE_MIN" x v2 "has_flag flags REDUCE_MAX" x] m hv False by auto
    have mm: "Min (sint ` set (vs @ [x])) = min (Min (sint ` set vs)) (sint x)"
      "Max (sint ` set (vs @ [x])) = max (Max (sint ` set vs)) (sint x)"
      using Min_append [OF False, of "[x]" sint] Max_append [OF False, of "[x]" sint] by simp_all
    have "summarizes flags (vs @ [x]) v3"
    proof (rule summarizesI)
      show "has_flag flags REDUCE_MIN \<longrightarrow> vs @ [x] \<noteq> [] \<longrightarrow> sint (red_min v3) = Min (sint ` set (vs @ [x]))"
        unfolding mm using v3(5) sv(4) False v1(4) v2(4) by simp
      show "has_flag flags REDUCE_MAX \<longrightarrow> vs @ [x] \<noteq> [] \<longrightarrow> sint (red_max v3) = Max (sint ` set (vs @ [x]))"
        unfolding mm using v3(6) sv(5) False v1(5) v2(5) by simp
    qed (use v3 v2 v1 hv False in simp_all)
    then show ?thesis using v3(1) by blast
  qed
qed

lemma reduce_summarizes:
  assumes "sel_wf s" "vec_wf column (nat (sel_nrows s))" "sel_nrows s < 2 ^ 31"
  shows "summarizes flags (selected_values column s) (reduce_int4 column s flags)"
    and "red_has_value (reduce_int4 column s flags) \<longleftrightarrow> selected_values column s \<noteq> []"
proof -
  let ?vs = "selected_values column s"
  have len: "length ?vs < 2 ^ 31" using length_selected_values [of column s] assms(3) by simp
  have r: "reduce_int4 column s flags = fold (reduce_step flags) ?vs reduction_zero"
    by (rule reduce_int4_values [OF assms(1,2)])
  show "red_has_value (reduce_int4 column s flags) \<longleftrightarrow> ?vs \<noteq> []"
    unfolding r by (simp add: red_has_value_fold reduction_zero_def)
  have "sint (of_nat (length ?vs) :: 64 word) = int (length ?vs)"
    using len sint_word_of_int_64 [of "int (length ?vs)"] by simp
  then show "summarizes flags ?vs (reduce_int4 column s flags)"
    unfolding r summarizes_def using len
    by (auto simp: red_has_value_fold red_count_step red_sum_step red_min_step red_max_step
        foldl_min_hd foldl_max_hd sint_sum_list reduction_zero_def)
qed

end
