(* ===== verification/Aggregate_Plain.thy ===== *)
theory Aggregate_Plain
  imports Aggregate_Values
begin

text \<open>
  Setting up the aggregates of a plan, and plain aggregation: one row with the value of
  every aggregate over all selected rows of the input.
\<close>

section \<open>What an aggregate returns\<close>

definition visible :: "datum \<times> bool \<Rightarrow> datum option" where
  "visible = (\<lambda>(d, isnull). if isnull then None else Some d)"

text \<open>
  The value of an aggregate over \<open>n\<close> rows of a group with the given key whose non-NULL
  input values are \<open>vs\<close>.
\<close>

fun agg_datum :: "agg_kind \<Rightarrow> int4 list \<Rightarrow> nat \<Rightarrow> int4 option \<Rightarrow> datum option" where
  "agg_datum AGG_GROUP_KEY vs n key = map_option int32_get_datum key"
| "agg_datum AGG_COUNT_STAR vs n key = Some (of_nat n)"
| "agg_datum AGG_COUNT_COLUMN vs n key = Some (of_nat (length vs))"
| "agg_datum AGG_SUM_INT4 vs n key = (if vs = [] then None else Some (word_of_int (sum_list (map sint vs))))"
| "agg_datum AGG_MIN_INT4 vs n key = (if vs = [] then None else Some (word_of_int (Min (sint ` set vs))))"
| "agg_datum AGG_MAX_INT4 vs n key = (if vs = [] then None else Some (word_of_int (Max (sint ` set vs))))"

lemma word_of_sint: "sint (w :: 64 word) = x \<Longrightarrow> w = word_of_int x"
  by auto

lemma int32_get_datum_sint: "int32_get_datum v = word_of_int (sint v)"
  by (simp add: int32_get_datum_def)

section \<open>Setting up\<close>

definition agg_ok :: "'t agg_state \<Rightarrow> agg_kind \<times> int \<Rightarrow> agg_spec \<Rightarrow> bool" where
  "agg_ok st = (\<lambda>(kind, column) agg. ag_kind agg = kind \<and>
     (kind = AGG_COUNT_STAR \<longrightarrow> as_has_count_star st) \<and>
     (kind \<noteq> AGG_COUNT_STAR \<longrightarrow> 0 \<le> column \<and> 0 \<le> ag_input agg \<and> nat (ag_input agg) < length (as_inputs st) \<and>
        ai_column (as_inputs st ! nat (ag_input agg)) = nat column \<and>
        (if kind = AGG_GROUP_KEY then as_grouped st \<and> as_group_input st = nat (ag_input agg)
         else has_flag (ai_flags (as_inputs st ! nat (ag_input agg))) (aggregate_flag kind))))"

definition input_from :: "(agg_kind \<times> int) list \<Rightarrow> agg_input \<Rightarrow> bool" where
  "input_from specs input \<longleftrightarrow> ai_value input = reduction_zero \<and>
     (\<exists>kind column. (kind, column) \<in> set specs \<and> kind \<noteq> AGG_COUNT_STAR \<and> 0 \<le> column \<and> ai_column input = nat column)"

lemma input_from_flags [simp]: "input_from specs (input\<lparr>ai_flags := flags\<rparr>) = input_from specs input"
  by (simp add: input_from_def)

definition aggs_ok :: "'t agg_state \<Rightarrow> (agg_kind \<times> int) list \<Rightarrow> bool" where
  "aggs_ok st specs \<longleftrightarrow> list_all2 (agg_ok st) specs (as_aggs st) \<and>
     (\<forall>input \<in> set (as_inputs st). input_from specs input) \<and> length (as_inputs st) \<le> length specs \<and>
     (as_grouped st \<longleftrightarrow> (\<exists>column. (AGG_GROUP_KEY, column) \<in> set specs))"

text \<open>What later aggregates leave of the earlier ones.\<close>

definition extends :: "'t agg_state \<Rightarrow> 't agg_state \<Rightarrow> bool" where
  "extends st st' \<longleftrightarrow> length (as_inputs st) \<le> length (as_inputs st') \<and>
     (\<forall>i < length (as_inputs st). ai_column (as_inputs st' ! i) = ai_column (as_inputs st ! i) \<and>
        (\<forall>f. has_flag (ai_flags (as_inputs st ! i)) f \<longrightarrow> has_flag (ai_flags (as_inputs st' ! i)) f)) \<and>
     (as_has_count_star st \<longrightarrow> as_has_count_star st') \<and>
     (as_grouped st \<longrightarrow> as_grouped st' \<and> as_group_input st' = as_group_input st)"

lemma has_flag_or: "has_flag (f OR g) x \<longleftrightarrow> has_flag f x \<or> has_flag g x"
  unfolding has_flag_def by (simp add: bit.conj_disj_distrib2 or_eq_0_iff)

lemma has_flag_self: "kind \<notin> {AGG_COUNT_STAR, AGG_GROUP_KEY} \<Longrightarrow> has_flag (aggregate_flag kind) (aggregate_flag kind)"
  by (cases kind) (simp_all add: has_flag_def reduce_flag_defs)

lemma agg_ok_extends: "agg_ok st spec agg \<Longrightarrow> extends st st' \<Longrightarrow> agg_ok st' spec agg"
  by (auto simp: agg_ok_def extends_def split: if_splits)

lemma intern_input:
  assumes "intern_input column inputs = (i, inputs')"
  shows "i < length inputs' \<and> ai_column (inputs' ! i) = column \<and>
    (inputs' = inputs \<or> inputs' = inputs @ [\<lparr>ai_column = column, ai_flags = 0, ai_value = reduction_zero\<rparr>])"
  using assms by (auto simp: intern_input_def find_Some_iff split: option.splits)

lemma begin_aggregate_ok:
  assumes ok: "aggs_ok st specs" and b: "begin_aggregate spec st = Inr st'"
  shows "aggs_ok st' (specs @ [spec])"
proof -
  obtain kind column where spec: "spec = (kind, column)" by (cases spec)
  have old: "list_all2 (agg_ok st) specs (as_aggs st)" using ok by (simp add: aggs_ok_def)
  have grow: "\<forall>input \<in> set (as_inputs st). input_from (specs @ [spec]) input"
    using ok unfolding aggs_ok_def input_from_def set_append by blast
  have "\<exists>agg. as_aggs st' = as_aggs st @ [agg] \<and> agg_ok st' spec agg \<and> extends st st' \<and>
    (as_grouped st' \<longleftrightarrow> as_grouped st \<or> kind = AGG_GROUP_KEY) \<and> length (as_inputs st') \<le> Suc (length (as_inputs st)) \<and>
    (\<forall>input \<in> set (as_inputs st'). input_from (specs @ [spec]) input)"
  proof (cases "kind = AGG_COUNT_STAR")
    case True
    then have "st' = st\<lparr>as_aggs := as_aggs st @ [\<lparr>ag_kind = kind, ag_input = - 1\<rparr>], as_has_count_star := True\<rparr>"
      using b by (simp add: begin_aggregate_def spec)
    then show ?thesis
      using True ok grow by (intro exI [of _ "\<lparr>ag_kind = kind, ag_input = - 1\<rparr>"])
        (auto simp: agg_ok_def extends_def aggs_ok_def spec split: prod.splits)
  next
    case False
    obtain i inputs where int: "intern_input (nat column) (as_inputs st) = (i, inputs)" by (metis surj_pair)
    note i = intern_input [OF int]
    have pos: "0 \<le> column" using b False by (simp add: begin_aggregate_def spec split: if_splits)
    let ?agg = "\<lparr>ag_kind = kind, ag_input = int i\<rparr>"
    define inputs' where "inputs' = (if kind = AGG_GROUP_KEY then inputs else
      inputs[i := (inputs ! i)\<lparr>ai_flags := ai_flags (inputs ! i) OR aggregate_flag kind\<rparr>])"
    have st': "as_aggs st' = as_aggs st @ [?agg]" "as_inputs st' = inputs'" "as_has_count_star st' = as_has_count_star st"
      "as_grouped st' \<longleftrightarrow> as_grouped st \<or> kind = AGG_GROUP_KEY"
      "kind = AGG_GROUP_KEY \<longrightarrow> as_group_input st' = i" "as_grouped st \<longrightarrow> as_group_input st' = as_group_input st"
      using b False pos int by (auto simp: begin_aggregate_def spec inputs'_def Let_def split: if_splits)
    have col: "ai_column (inputs' ! j) = ai_column (inputs ! j)" if "j < length inputs" for j
      using that i by (auto simp: inputs'_def nth_list_update)
    have flags: "has_flag (ai_flags (inputs ! j)) f \<longrightarrow> has_flag (ai_flags (inputs' ! j)) f" if "j < length inputs" for j f
      using that i by (auto simp: inputs'_def nth_list_update has_flag_or)
    have len: "length inputs' = length inputs" by (simp add: inputs'_def)
    have "extends st st'"
      using i col flags st' by (auto simp: extends_def len nth_append)
    moreover have "agg_ok st' spec ?agg"
      using False pos i st' col [of i] len has_flag_self [of kind]
      by (auto simp: agg_ok_def spec inputs'_def has_flag_or)
    moreover have added: "\<forall>input \<in> set inputs. input_from (specs @ [spec]) input"
    proof -
      have "input_from (specs @ [spec]) \<lparr>ai_column = nat column, ai_flags = 0, ai_value = reduction_zero\<rparr>"
        using False pos by (auto simp: input_from_def spec)
      then show ?thesis using i grow by auto
    qed
    moreover have "\<forall>input \<in> set inputs'. input_from (specs @ [spec]) input"
    proof
      fix input assume "input \<in> set inputs'"
      then have "input \<in> set inputs \<or> input = (inputs ! i)\<lparr>ai_flags := ai_flags (inputs ! i) OR aggregate_flag kind\<rparr>"
        by (auto simp: inputs'_def split: if_splits dest!: set_update_subset_insert [THEN subsetD])
      moreover have "input_from (specs @ [spec]) (inputs ! i)" using added i by simp
      ultimately show "input_from (specs @ [spec]) input" using added by auto
    qed
    moreover have "length inputs' \<le> Suc (length (as_inputs st))" using i len by auto
    ultimately show ?thesis using st' by (intro exI [of _ ?agg]) simp
  qed
  then obtain agg where agg: "as_aggs st' = as_aggs st @ [agg]" "agg_ok st' spec agg" "extends st st'"
    "as_grouped st' \<longleftrightarrow> as_grouped st \<or> kind = AGG_GROUP_KEY" "length (as_inputs st') \<le> Suc (length (as_inputs st))"
    "\<forall>input \<in> set (as_inputs st'). input_from (specs @ [spec]) input"
    by blast
  have "list_all2 (agg_ok st') specs (as_aggs st)"
    by (rule list_all2_mono [OF old]) (rule agg_ok_extends [OF _ agg(3)])
  then show ?thesis
    using agg ok unfolding aggs_ok_def by (auto simp: spec intro: list_all2_appendI)
qed

definition agg_start :: "probe_batch list \<Rightarrow> 't agg_state" where
  "agg_start child =
       \<lparr>as_child = child, as_aggs = [], as_inputs = [], as_count_star = 0, as_has_count_star = False,
        as_grouped = False, as_group_input = 0, as_main_groups = [], as_group_seq = [], as_group_limit = 0,
        as_spill_buffer_limit = 0, as_input_done = False, as_spilling = False, as_initial_spill = None,
        as_spill_sets = [], as_spill_work = [], as_hashes = replicate PG_BATCH_SIZE 0, as_spill_rows = 0,
        as_spill_partitions = 0, as_spill_repartitions = 0, as_emitted = False, as_input_batches = 0,
        as_input_rows = 0\<rparr>"

text \<open>The parts of the state the setup does not touch.\<close>

definition fresh :: "probe_batch list \<Rightarrow> 't agg_state \<Rightarrow> bool" where
  "fresh child st \<longleftrightarrow> as_child st = child \<and> as_main_groups st = [] \<and> as_group_seq st = [] \<and> \<not> as_input_done st \<and>
     \<not> as_spilling st \<and> as_initial_spill st = None \<and> as_spill_sets st = [] \<and> as_spill_work st = [] \<and>
     length (as_hashes st) = 64 \<and> \<not> as_emitted st \<and> as_count_star st = 0"

lemma begin_aggregates_ok:
  "aggs_ok st specs0 \<Longrightarrow> fresh child st \<Longrightarrow> rfold begin_aggregate specs st = Inr st' \<Longrightarrow>
     aggs_ok st' (specs0 @ specs) \<and> fresh child st'"
proof (induction specs arbitrary: st specs0)
  case (Cons spec specs)
  obtain st1 where st1: "begin_aggregate spec st = Inr st1" "rfold begin_aggregate specs st1 = Inr st'"
    using Cons.prems(3) by (auto simp: rbind_Inr_iff)
  have "fresh child st1"
    using st1(1) Cons.prems(2) by (auto simp: begin_aggregate_def fresh_def Let_def split: if_splits prod.splits)
  from Cons.IH [OF begin_aggregate_ok [OF Cons.prems(1) st1(1)] this st1(2)] show ?case by simp
qed simp

lemma agg_begin_ok:
  assumes "agg_begin hash_memory child specs = Inr st"
  shows "aggs_ok st specs \<and> fresh child st"
proof -
  obtain st1 where st1: "rfold begin_aggregate specs (agg_start child) = Inr st1"
    and st: "st = reset_aggregate_values (if as_grouped st1
        then st1\<lparr>as_group_limit := max 1 (hash_memory div (16 + 32 * length (as_inputs st1) + 64)),
                as_spill_buffer_limit := max 1024 (hash_memory div 2)\<rparr> else st1)"
    using assms by (auto simp: agg_begin_def agg_start_def rbind_Inr_iff)
  have "aggs_ok (agg_start child) []" "fresh child (agg_start child)"
    by (simp_all add: aggs_ok_def fresh_def agg_start_def)
  from begin_aggregates_ok [OF this st1] have ok: "aggs_ok st1 specs" "fresh child st1" by simp_all
  have inputs: "as_inputs st = as_inputs st1"
    using ok(1) by (auto simp: st reset_aggregate_values_def aggs_ok_def input_from_def intro!: map_idI)
  moreover have "agg_ok st = agg_ok st1"
    by (intro ext) (auto simp: agg_ok_def inputs st reset_aggregate_values_def)
  ultimately show ?thesis
    using ok by (simp add: aggs_ok_def fresh_def st reset_aggregate_values_def)
qed


section \<open>Plain aggregation\<close>

text \<open>The non-NULL values of a column over the selected rows of all batches.\<close>

definition column_values :: "probe_batch list \<Rightarrow> nat \<Rightarrow> int4 list" where
  "column_values batches column = concat (map (\<lambda>batch. selected_values (pb_columns batch ! column) (pb_selection batch)) batches)"

definition selected_rows :: "probe_batch list \<Rightarrow> nat" where
  "selected_rows batches = (\<Sum>batch \<leftarrow> batches. length (selected (pb_selection batch)))"

definition agg_batch_ok :: "(agg_kind \<times> int) list \<Rightarrow> probe_batch \<Rightarrow> bool" where
  "agg_batch_ok specs batch \<longleftrightarrow> sel_wf (pb_selection batch) \<and> sel_nrows (pb_selection batch) < 2 ^ 31 \<and>
     (\<forall>(kind, column) \<in> set specs. 0 \<le> column \<longrightarrow>
        vec_wf (pb_columns batch ! nat column) (nat (sel_nrows (pb_selection batch))))"

definition plain_inv :: "probe_batch list \<Rightarrow> 't agg_state \<Rightarrow> 't agg_state \<Rightarrow> bool" where
  "plain_inv batches st0 st \<longleftrightarrow> as_aggs st = as_aggs st0 \<and> as_has_count_star st = as_has_count_star st0 \<and>
     as_grouped st = as_grouped st0 \<and> as_emitted st = as_emitted st0 \<and>
     length (as_inputs st) = length (as_inputs st0) \<and>
     (\<forall>i < length (as_inputs st0). ai_column (as_inputs st ! i) = ai_column (as_inputs st0 ! i) \<and>
        ai_flags (as_inputs st ! i) = ai_flags (as_inputs st0 ! i) \<and>
        summarizes (ai_flags (as_inputs st0 ! i)) (column_values batches (ai_column (as_inputs st0 ! i)))
          (ai_value (as_inputs st ! i))) \<and>
     (as_has_count_star st0 \<longrightarrow> sint (as_count_star st) = int (selected_rows batches))"

lemma rmap_ok:
  "(\<And>i. i < length xs \<Longrightarrow> \<exists>y. f (xs ! i) = Inr y \<and> P i y) \<Longrightarrow>
     \<exists>ys. rmap f xs = Inr ys \<and> length ys = length xs \<and> (\<forall>i < length xs. P i (ys ! i))"
proof (induction xs arbitrary: P)
  case (Cons x xs)
  obtain y where y: "f x = Inr y" "P 0 y" using Cons.prems [of 0] by auto
  have "\<exists>y. f (xs ! i) = Inr y \<and> P (Suc i) y" if "i < length xs" for i
    using Cons.prems [of "Suc i"] that by simp
  from Cons.IH [OF this] obtain ys where ys: "rmap f xs = Inr ys" "length ys = length xs" "\<forall>i < length xs. P (Suc i) (ys ! i)"
    by blast
  show ?case
    using y ys by (intro exI [of _ "y # ys"]) (auto simp: nth_Cons' less_Suc_eq_0_disj)
qed simp

lemma length_column_values: "length (column_values batches column) \<le> selected_rows batches"
proof (induction batches)
  case (Cons batch batches)
  have "length (selected_values c s) \<le> length (selected s)" for c s
    by (simp add: selected_values_def List.map_filter_def)
  then show ?case using Cons by (simp add: column_values_def selected_rows_def add_mono)
qed (simp add: column_values_def selected_rows_def)

lemma plain_batch_ok:
  assumes inv: "plain_inv batches st0 st" and b: "agg_batch_ok specs batch"
    and cols: "\<forall>input \<in> set (as_inputs st0). input_from specs input"
    and len: "selected_rows (batches @ [batch]) < 2 ^ 32"
  shows "\<exists>st'. plain_batch batch st = Inr st' \<and> plain_inv (batches @ [batch]) st0 st'"
proof -
  let ?sel = "pb_selection batch"
  have wf: "sel_wf ?sel" "sel_nrows ?sel < 2 ^ 31" using b by (auto simp: agg_batch_ok_def)
  have n: "length (as_inputs st) = length (as_inputs st0)" using inv by (simp add: plain_inv_def)
  have cnt: "selection_count ?sel = int (length (selected ?sel))" by (rule selection_count_selected [OF wf(1)])
  obtain c where c: "(if as_has_count_star st then add_int64_checked (as_count_star st) (selection_count ?sel)
      else Inr (as_count_star st)) = Inr c"
    "as_has_count_star st0 \<longrightarrow> sint c = int (selected_rows (batches @ [batch]))"
  proof (cases "as_has_count_star st")
    case True
    then have "sint (as_count_star st) = int (selected_rows batches)" using inv by (simp add: plain_inv_def)
    moreover have sum: "selected_rows (batches @ [batch]) = selected_rows batches + length (selected ?sel)"
      by (simp add: selected_rows_def)
    ultimately obtain w where "add_int64_checked (as_count_star st) (selection_count ?sel) = Inr w"
      "sint w = int (selected_rows (batches @ [batch]))"
      using add_count_ok [of "as_count_star st" "selected_rows batches" "length (selected ?sel)"] len cnt by auto
    then show ?thesis using that [of w] True by simp
  next
    case False
    then show ?thesis using that [of "as_count_star st"] inv by (simp add: plain_inv_def)
  qed
  have step: "\<exists>input. advance_input batch (as_inputs st ! i) = Inr input \<and>
      ai_column input = ai_column (as_inputs st0 ! i) \<and> ai_flags input = ai_flags (as_inputs st0 ! i) \<and>
      summarizes (ai_flags (as_inputs st0 ! i)) (column_values (batches @ [batch]) (ai_column (as_inputs st0 ! i))) (ai_value input)"
    if i: "i < length (as_inputs st)" for i
  proof -
    let ?inp = "as_inputs st ! i" and ?start = "as_inputs st0 ! i"
    have f: "ai_column ?inp = ai_column ?start" "ai_flags ?inp = ai_flags ?start"
      "summarizes (ai_flags ?start) (column_values batches (ai_column ?start)) (ai_value ?inp)"
      by (use inv i n in \<open>simp_all add: plain_inv_def\<close>)
    have mem: "?start \<in> set (as_inputs st0)" using i n by simp
    obtain kind column where kc: "(kind, column) \<in> set specs" "0 \<le> column" "ai_column ?start = nat column"
      using cols mem by (auto simp: input_from_def)
    have "\<forall>(kind, column) \<in> set specs. 0 \<le> column \<longrightarrow> vec_wf (pb_columns batch ! nat column) (nat (sel_nrows ?sel))"
      using b by (simp add: agg_batch_ok_def)
    from bspec [OF this kc(1)] have "vec_wf (pb_columns batch ! ai_column ?start) (nat (sel_nrows ?sel))"
      using kc(2,3) by simp
    note red = reduce_summarizes [OF wf(1) this wf(2), of "ai_flags ?start"]
    have cv: "column_values (batches @ [batch]) (ai_column ?start) =
        column_values batches (ai_column ?start) @ selected_values (pb_columns batch ! ai_column ?start) ?sel"
      by (simp add: column_values_def)
    then have "length (column_values batches (ai_column ?start) @ selected_values (pb_columns batch ! ai_column ?start) ?sel) < 2 ^ 32"
      using length_column_values [of "batches @ [batch]" "ai_column ?start"] len by simp
    from merge_reduction_ok [OF f(3) red this] obtain v where
      "merge_reduction (ai_flags ?start) (reduce_int4 (pb_columns batch ! ai_column ?start) ?sel (ai_flags ?start)) (ai_value ?inp) = Inr v"
      "summarizes (ai_flags ?start) (column_values (batches @ [batch]) (ai_column ?start)) v"
      unfolding cv by blast
    then show ?thesis using f(1,2) by (intro exI [of _ "?inp\<lparr>ai_value := v\<rparr>"]) (simp add: advance_input_def)
  qed
  obtain inputs where inputs: "rmap (advance_input batch) (as_inputs st) = Inr inputs" "length inputs = length (as_inputs st)"
    "\<forall>i < length (as_inputs st). ai_column (inputs ! i) = ai_column (as_inputs st0 ! i) \<and>
      ai_flags (inputs ! i) = ai_flags (as_inputs st0 ! i) \<and>
      summarizes (ai_flags (as_inputs st0 ! i)) (column_values (batches @ [batch]) (ai_column (as_inputs st0 ! i))) (ai_value (inputs ! i))"
    using rmap_ok [of "as_inputs st" "advance_input batch" "\<lambda>i input. ai_column input = ai_column (as_inputs st0 ! i) \<and>
      ai_flags input = ai_flags (as_inputs st0 ! i) \<and>
      summarizes (ai_flags (as_inputs st0 ! i)) (column_values (batches @ [batch]) (ai_column (as_inputs st0 ! i))) (ai_value input)"]
      step by blast
  let ?st = "st\<lparr>as_child := tl (as_child st), as_input_batches := as_input_batches st + 1,
     as_input_rows := as_input_rows st + nat (selection_count ?sel), as_count_star := c, as_inputs := inputs\<rparr>"
  have "plain_batch batch st = Inr ?st"
    using c(1) inputs(1) by (cases "as_has_count_star st") (simp_all add: plain_batch_def advance_aggregates_def Let_def)
  moreover have "plain_inv (batches @ [batch]) st0 ?st"
    using c(2) inputs(2,3) inv n by (simp add: plain_inv_def)
  ultimately show ?thesis by blast
qed

lemma plain_batches_ok:
  assumes cols: "\<forall>input \<in> set (as_inputs st0). input_from specs input"
  shows "plain_inv done_batches st0 st \<Longrightarrow> \<forall>batch \<in> set batches. agg_batch_ok specs batch \<Longrightarrow>
    selected_rows (done_batches @ batches) < 2 ^ 32 \<Longrightarrow>
    \<exists>st'. rfold plain_batch batches st = Inr st' \<and> plain_inv (done_batches @ batches) st0 st'"
proof (induction batches arbitrary: done_batches st)
  case (Cons batch batches)
  have "selected_rows (done_batches @ [batch]) < 2 ^ 32" using Cons.prems(3) by (simp add: selected_rows_def)
  then obtain st1 where st1: "plain_batch batch st = Inr st1" "plain_inv (done_batches @ [batch]) st0 st1"
    using plain_batch_ok [OF Cons.prems(1) _ cols] Cons.prems(2) by auto
  from Cons.IH [OF st1(2)] Cons.prems(2,3) show ?case using st1(1) by simp
qed simp

lemma reduction_result:
  assumes s: "summarizes flags vs v" and f: "has_flag flags (aggregate_flag kind)"
    and kind: "kind \<noteq> AGG_COUNT_STAR" "kind \<noteq> AGG_GROUP_KEY"
  shows "(if kind \<noteq> AGG_COUNT_COLUMN \<and> \<not> red_has_value v then None
     else Some (case kind of AGG_COUNT_COLUMN \<Rightarrow> red_count v | AGG_SUM_INT4 \<Rightarrow> red_sum v
       | AGG_MIN_INT4 \<Rightarrow> int32_get_datum (red_min v) | AGG_MAX_INT4 \<Rightarrow> int32_get_datum (red_max v) | _ \<Rightarrow> 0)) =
    agg_datum kind vs n key"
  using summarizesD [OF s] f kind has_flag_nonzero [OF f]
  by (cases kind) (auto simp: int32_get_datum_sint dest!: word_of_sint)

lemma plain_result_ok:
  assumes inv: "plain_inv batches st0 st" and ok: "agg_ok st0 (kind, column) agg" and kind: "kind \<noteq> AGG_GROUP_KEY"
  shows "visible (plain_result st agg) = agg_datum kind (column_values batches (nat column)) (selected_rows batches) None"
proof (cases "kind = AGG_COUNT_STAR")
  case True
  then have "sint (as_count_star st) = int (selected_rows batches)" "ag_kind agg = AGG_COUNT_STAR"
    using inv ok by (auto simp: agg_ok_def plain_inv_def)
  then show ?thesis
    using True word_of_sint [of "as_count_star st" "int (selected_rows batches)"]
    by (simp add: plain_result_def visible_def Let_def)
next
  case False
  let ?i = "nat (ag_input agg)"
  have a: "ag_kind agg = kind" "?i < length (as_inputs st0)" "ai_column (as_inputs st0 ! ?i) = nat column"
    "has_flag (ai_flags (as_inputs st0 ! ?i)) (aggregate_flag kind)"
    using ok False kind by (auto simp: agg_ok_def)
  have "summarizes (ai_flags (as_inputs st0 ! ?i)) (column_values batches (nat column)) (ai_value (as_inputs st ! ?i))"
    using inv a(2,3) by (auto simp: plain_inv_def)
  from reduction_result [OF this a(4) False kind, of "selected_rows batches" None] show ?thesis
    using a(1) False by (auto simp: plain_result_def visible_def Let_def split: agg_kind.splits if_splits)
qed

text \<open>
  C23. Plain aggregation over any list of batches with fewer than \<open>2 ^ 32\<close> selected rows never
  fails and returns exactly one row: for every aggregate of the plan its value over the
  selected rows of all batches, NULL for a sum, minimum or maximum of no values, and the
  sum is exact.
\<close>

theorem plain_aggregate_correct:
  fixes T :: "'t tape_ops"
  assumes "agg_begin hash_memory batches specs = Inr st"
    and "\<forall>column. (AGG_GROUP_KEY, column) \<notin> set specs"
    and "\<forall>batch \<in> set batches. agg_batch_ok specs batch" and "selected_rows batches < 2 ^ 32"
  shows "\<exists>row st'. agg_exec T mur st = Some (Inr (Some row, st')) \<and>
    map visible row = map (\<lambda>(kind, column). agg_datum kind (column_values batches (nat column)) (selected_rows batches) None) specs \<and>
    agg_exec T mur st' = Some (Inr (None, st'))"
proof -
  have ok: "aggs_ok st specs" "fresh batches st" using agg_begin_ok [OF assms(1)] by simp_all
  have g: "\<not> as_grouped st" using ok(1) assms(2) by (simp add: aggs_ok_def)
  have cols: "\<forall>input \<in> set (as_inputs st). input_from specs input" using ok(1) by (simp add: aggs_ok_def)
  have "plain_inv [] st st"
    using ok by (auto simp: plain_inv_def column_values_def selected_rows_def fresh_def aggs_ok_def input_from_def)
  from plain_batches_ok [OF cols this assms(3)] assms(4) obtain st1 where st1: "rfold plain_batch batches st = Inr st1"
    "plain_inv batches st st1" by auto
  have exec: "agg_exec T mur st = Some (Inr (Some (map (plain_result st1) (as_aggs st1)), st1\<lparr>as_emitted := True\<rparr>))"
    using ok(2) g st1(1) by (simp add: agg_exec_def agg_exec_plain_def fresh_def)
  have aggs: "list_all2 (agg_ok st) specs (as_aggs st1)"
    using ok(1) st1(2) by (simp add: aggs_ok_def plain_inv_def)
  have "map (\<lambda>agg. visible (plain_result st1 agg)) (as_aggs st1) =
      map (\<lambda>(kind, column). agg_datum kind (column_values batches (nat column)) (selected_rows batches) None) specs"
  proof (rule nth_equalityI)
    fix i assume "i < length (map (\<lambda>agg. visible (plain_result st1 agg)) (as_aggs st1))"
    then have i: "i < length specs" "i < length (as_aggs st1)" "agg_ok st (specs ! i) (as_aggs st1 ! i)"
      using aggs by (auto simp: list_all2_conv_all_nth)
    obtain kind column where s: "specs ! i = (kind, column)" by (cases "specs ! i")
    then have "kind \<noteq> AGG_GROUP_KEY" using assms(2) i(1) by (metis nth_mem)
    then show "map (\<lambda>agg. visible (plain_result st1 agg)) (as_aggs st1) ! i =
      map (\<lambda>(kind, column). agg_datum kind (column_values batches (nat column)) (selected_rows batches) None) specs ! i"
      using plain_result_ok [OF st1(2)] i s by simp
  qed (use aggs in \<open>simp add: list_all2_lengthD\<close>)
  moreover have "\<not> as_grouped st1" using st1(2) g by (simp add: plain_inv_def)
  ultimately show ?thesis using exec by (simp add: comp_def agg_exec_def agg_exec_plain_def)
qed


definition example_agg_batch :: probe_batch where
  "example_agg_batch = \<lparr>pb_selection = \<lparr>sel_nrows = 3, sel_nwords = 1, sel_words = [mask 3]\<rparr>,
     pb_columns = [int4_vector_init_datum (map int32_get_datum [7, - 2, 7]) [False, False, False],
       int4_vector_init_datum (map int32_get_datum [5, 6, - 9]) [False, True, False]]\<rparr>"

theorem plain_aggregate_correct_witness:
  "\<exists>st. (agg_begin 100000 [example_agg_batch, example_agg_batch]
      [(AGG_COUNT_STAR, - 1), (AGG_SUM_INT4, 1), (AGG_MIN_INT4, 0)] :: unit agg_state result) = Inr st \<and>
    (\<forall>T mur. \<exists>row st'. agg_exec T mur st = Some (Inr (Some row, st')) \<and>
       map visible row = [Some 6, Some (- 8), Some (- 2)])"
proof -
  let ?specs = "[(AGG_COUNT_STAR, - 1), (AGG_SUM_INT4, 1), (AGG_MIN_INT4, 0)]" and ?batches = "[example_agg_batch, example_agg_batch]"
  obtain st where st: "(agg_begin 100000 ?batches ?specs :: unit agg_state result) = Inr st"
    by (simp add: agg_begin_def begin_aggregate_def intern_input_def rbind_def Let_def)
  have wf: "sel_wf (pb_selection example_agg_batch)"
    by (auto simp: sel_wf_def example_agg_batch_def bit_mask_iff)
  have ok: "agg_batch_ok ?specs example_agg_batch"
    using wf by (simp add: agg_batch_ok_def example_agg_batch_def vec_wf_def int4_vector_init_datum_def numeral_eq_Suc)
  have rows: "selected_rows ?batches = 6" by code_simp
  have vals: "column_values ?batches 1 = [5, - 9, 5, - 9]" "column_values ?batches 0 = [7, - 2, 7, 7, - 2, 7]"
    by code_simp+
  have spec: "map (\<lambda>(kind, column). agg_datum kind (column_values ?batches (nat column)) (selected_rows ?batches) None) ?specs =
      [Some 6, Some (- 8), Some (- 2)]"
    by (simp add: rows vals [unfolded One_nat_def])
  have "\<exists>row st'. agg_exec T mur st = Some (Inr (Some row, st')) \<and>
    map visible row = map (\<lambda>(kind, column). agg_datum kind (column_values ?batches (nat column)) (selected_rows ?batches) None) ?specs \<and>
    agg_exec T mur st' = Some (Inr (None, st'))" for T mur
    by (rule plain_aggregate_correct [OF st]) (use ok rows in auto)
  then have "\<forall>T mur. \<exists>row st'. agg_exec T mur st = Some (Inr (Some row, st')) \<and>
      map visible row = [Some 6, Some (- 8), Some (- 2)]"
    unfolding spec by meson
  with st show ?thesis by (intro exI conjI)
qed

end
