(* ===== verification/Aggregate_Groups.thy ===== *)
theory Aggregate_Groups
  imports Aggregate_Plain
begin

text \<open>
  The group table of the aggregate node: what its entries say about the rows seen so far,
  one step of the table, and the loops over the rows of a batch.
\<close>

section \<open>Keys\<close>

definition gkey :: "int4 option \<Rightarrow> group_key" where
  "gkey x = (case x of None \<Rightarrow> \<lparr>gk_value = 0, gk_isnull = True\<rparr> | Some v \<Rightarrow> \<lparr>gk_value = v, gk_isnull = False\<rparr>)"

definition key_of :: "group_key \<Rightarrow> int4 option" where
  "key_of k = (if gk_isnull k then None else Some (gk_value k))"

lemma key_of_gkey [simp]: "key_of (gkey x) = x"
  by (simp add: key_of_def gkey_def split: option.splits)

lemma gkey_eq [simp]: "gkey x = gkey y \<longleftrightarrow> x = y"
  by (metis key_of_gkey)

definition ghash :: "hash32 \<Rightarrow> int4 option \<Rightarrow> uint32" where
  "ghash mur x = (case x of None \<Rightarrow> mur 0x9e3779b9 | Some v \<Rightarrow> mur v)"

lemma group_hash_eq: "group_hash mur column row = (ghash mur (vec_get column row), gkey (vec_get column row))"
  by (simp add: group_hash_def ghash_def gkey_def vec_get_def Let_def)

text \<open>At most two keys have the same hash: NULL and the value whose hash is that of NULL.\<close>

lemma ghash_two:
  assumes "inj mur" "\<forall>x \<in> A. ghash mur x = h"
  shows "card A \<le> 2 \<and> finite A"
proof -
  have "x \<in> {None, Some (inv mur h)}" if "x \<in> A" for x
    using bspec [OF assms(2) that] assms(1) by (auto simp: ghash_def split: option.splits)
  then have "A \<subseteq> {None, Some (inv mur h)}" by blast
  moreover have "card {None, Some (inv mur h)} = 2" by simp
  ultimately show ?thesis by (metis card_mono finite.emptyI finite.insertI finite_subset)
qed

section \<open>Entries\<close>

text \<open>A row of the node is its hash and the value of every input.\<close>

definition row_key :: "nat \<Rightarrow> row \<Rightarrow> group_key" where
  "row_key gi r = gkey (snd r ! gi)"

definition input_values :: "nat \<Rightarrow> row list \<Rightarrow> int4 list" where
  "input_values i rows = List.map_filter (\<lambda>r. snd r ! i) rows"

definition entry_ok :: "bool \<Rightarrow> agg_input list \<Rightarrow> row list \<Rightarrow> group_entry \<Rightarrow> bool" where
  "entry_ok hcs inputs rows e \<longleftrightarrow> (hcs \<longrightarrow> sint (ge_count_star e) = int (length rows)) \<and>
     length (ge_values e) = length inputs \<and>
     (\<forall>i < length inputs. summarizes (ai_flags (inputs ! i)) (input_values i rows) (ge_values e ! i))"

definition row_at :: "int4_vector list \<Rightarrow> nat \<Rightarrow> row \<Rightarrow> bool" where
  "row_at vectors row r \<longleftrightarrow> length (snd r) = length vectors \<and> (\<forall>i < length vectors. vec_get (vectors ! i) row = snd r ! i)"

lemma summarizes_no_flags: "summarizes 0 vs v"
  by (simp add: summarizes_def has_flag_def)

lemma input_values_append:
  "input_values i (rows @ [r]) = input_values i rows @ (case snd r ! i of None \<Rightarrow> [] | Some v \<Rightarrow> [v])"
  by (simp add: input_values_def List.map_filter_def split: option.splits)

lemma length_input_values: "length (input_values i rows) \<le> length rows"
  by (simp add: input_values_def List.map_filter_def)

lemma advance_group_entry_ok:
  assumes e: "entry_ok hcs inputs rows e" and r: "row_at vectors row r" "length vectors = length inputs"
    and len: "length rows + 1 < 2 ^ 32"
  shows "\<exists>e'. advance_group_entry hcs inputs vectors row e = Inr e' \<and> entry_ok hcs inputs (rows @ [r]) e' \<and> ge_key e' = ge_key e"
proof -
  let ?f = "\<lambda>inputno. let flags = ai_flags (inputs ! inputno); v = ge_values e ! inputno
         in if flags = 0 \<or> int4_row_is_null (vectors ! inputno) row then Inr v
            else advance_value flags (int4_row_value (vectors ! inputno) row) v"
  have step: "\<exists>v. ?f ([0..<length inputs] ! i) = Inr v \<and>
      summarizes (ai_flags (inputs ! i)) (input_values i (rows @ [r])) v" if "i < length [0..<length inputs]" for i
  proof -
    have i: "i < length inputs" using that by simp
    let ?flags = "ai_flags (inputs ! i)"
    have s: "summarizes ?flags (input_values i rows) (ge_values e ! i)" using e i by (simp add: entry_ok_def)
    have cell: "snd r ! i = vec_get (vectors ! i) row" using r i by (simp add: row_at_def)
    show ?thesis
    proof (cases "?flags = 0 \<or> int4_row_is_null (vectors ! i) row")
      case True
      then have "summarizes ?flags (input_values i (rows @ [r])) (ge_values e ! i)"
        using s cell by (auto simp: input_values_append summarizes_no_flags vec_get_def)
      then show ?thesis using True i by (auto simp: Let_def)
    next
      case False
      have "length (input_values i rows) + 1 < 2 ^ 32" using len length_input_values [of i rows] by linarith
      from advance_value_ok [OF s _ this, of "int4_row_value (vectors ! i) row"] False obtain v where
        "advance_value ?flags (int4_row_value (vectors ! i) row) (ge_values e ! i) = Inr v"
        "summarizes ?flags (input_values i rows @ [int4_row_value (vectors ! i) row]) v" by auto
      moreover have "input_values i (rows @ [r]) = input_values i rows @ [int4_row_value (vectors ! i) row]"
        using cell False by (simp add: input_values_append vec_get_def)
      ultimately show ?thesis using False i by (simp add: Let_def)
    qed
  qed
  obtain vs where vs: "rmap ?f [0..<length inputs] = Inr vs" "length vs = length inputs"
    "\<forall>i < length inputs. summarizes (ai_flags (inputs ! i)) (input_values i (rows @ [r])) (vs ! i)"
    using rmap_ok [of "[0..<length inputs]" ?f "\<lambda>i v. summarizes (ai_flags (inputs ! i)) (input_values i (rows @ [r])) v"] step
    by auto
  obtain c where c: "(if hcs then add_int64_checked (ge_count_star e) 1 else Inr (ge_count_star e)) = Inr c"
    "hcs \<longrightarrow> sint c = int (length rows + 1)"
    using add_count_ok [of "ge_count_star e" "length rows" 1] e len by (cases hcs) (auto simp: entry_ok_def)
  have "advance_group_entry hcs inputs vectors row e = Inr (e\<lparr>ge_count_star := c, ge_values := vs\<rparr>)"
    unfolding advance_group_entry_def c(1) vs(1) by simp
  then show ?thesis using vs c(2) by (simp add: entry_ok_def)
qed

section \<open>The table\<close>

definition group_rows :: "nat \<Rightarrow> row list \<Rightarrow> group_key \<Rightarrow> row list" where
  "group_rows gi rows k = filter (\<lambda>r. row_key gi r = k) rows"

definition groups_ok :: "nat \<Rightarrow> bool \<Rightarrow> agg_input list \<Rightarrow> row list \<Rightarrow> group_entry list \<Rightarrow> bool" where
  "groups_ok gi hcs inputs rows groups \<longleftrightarrow> distinct (map ge_key groups) \<and> ge_key ` set groups \<subseteq> row_key gi ` set rows \<and>
     (\<forall>e \<in> set groups. entry_ok hcs inputs (group_rows gi rows (ge_key e)) e)"

lemma groups_ok_Nil [simp]: "groups_ok gi hcs inputs rows []"
  by (simp add: groups_ok_def)

lemma group_rows_append:
  "group_rows gi (rows @ [r]) k = (if row_key gi r = k then group_rows gi rows k @ [r] else group_rows gi rows k)"
  by (simp add: group_rows_def)

lemma length_group_rows: "length (group_rows gi rows k) \<le> length rows"
  by (simp add: group_rows_def)

lemma groups_ok_other:
  "groups_ok gi hcs inputs rows groups \<Longrightarrow> row_key gi r \<notin> ge_key ` set groups \<Longrightarrow> groups_ok gi hcs inputs (rows @ [r]) groups"
  by (auto simp: groups_ok_def group_rows_append)

lemma groups_ok_update:
  assumes ok: "groups_ok gi hcs inputs rows groups" and i: "i < length groups" "ge_key (groups ! i) = row_key gi r"
    and e: "entry_ok hcs inputs (group_rows gi rows (row_key gi r) @ [r]) e" "ge_key e = row_key gi r"
  shows "groups_ok gi hcs inputs (rows @ [r]) (groups[i := e]) \<and> map ge_key (groups[i := e]) = map ge_key groups"
proof -
  have d: "distinct (map ge_key groups)" using ok by (simp add: groups_ok_def)
  have keys: "map ge_key (groups[i := e]) = map ge_key groups"
    using i e(2) list_update_id [of "map ge_key groups" i] by (simp add: map_update)
  have "entry_ok hcs inputs (group_rows gi (rows @ [r]) (ge_key x)) x" if x: "x \<in> set (groups[i := e])" for x
  proof -
    obtain j where j: "j < length groups" "x = groups[i := e] ! j"
      using x unfolding in_set_conv_nth by auto
    show ?thesis
    proof (cases "j = i")
      case True
      then show ?thesis using j i e by (simp add: group_rows_append)
    next
      case False
      then have "ge_key (groups ! j) \<noteq> row_key gi r"
        using d i j(1) nth_eq_iff_index_eq [OF d, of i j] by simp
      then show ?thesis using False j ok by (auto simp: group_rows_append groups_ok_def)
    qed
  qed
  moreover have "ge_key ` set (groups[i := e]) = ge_key ` set groups" by (metis keys list.set_map)
  ultimately show ?thesis using ok keys by (auto simp: groups_ok_def)
qed

lemma find_group_None:
  "k \<notin> ge_key ` set groups \<Longrightarrow> List.find (\<lambda>i. ge_key (groups ! i) = k) [0..<length groups] = None"
  by (auto simp: find_None_iff)

lemma find_group_Some:
  "k \<in> ge_key ` set groups \<Longrightarrow>
     \<exists>i < length groups. ge_key (groups ! i) = k \<and> List.find (\<lambda>i. ge_key (groups ! i) = k) [0..<length groups] = Some i"
proof -
  assume k: "k \<in> ge_key ` set groups"
  let ?find = "List.find (\<lambda>i. ge_key (groups ! i) = k) [0..<length groups]"
  have "?find \<noteq> None" using k by (auto simp: find_None_iff in_set_conv_nth)
  then obtain i where i: "?find = Some i" by blast
  then have "i < length groups \<and> ge_key (groups ! i) = k" by (auto simp: find_Some_iff)
  with i show ?thesis by blast
qed

text \<open>A row of a group that is in the table.\<close>

lemma group_known:
  assumes ok: "groups_ok gi hcs inputs rows groups" and r: "row_at vectors row r" "length vectors = length inputs"
    and len: "length rows + 1 < 2 ^ 32" and k: "row_key gi r \<in> ge_key ` set groups"
  shows "\<exists>i e. find_group n groups (row_key gi r) ins = (Some i, groups) \<and> i < length groups \<and>
    advance_group_entry hcs inputs vectors row (groups ! i) = Inr e \<and>
    groups_ok gi hcs inputs (rows @ [r]) (groups[i := e]) \<and> map ge_key (groups[i := e]) = map ge_key groups"
proof -
  obtain i where i: "i < length groups" "ge_key (groups ! i) = row_key gi r"
    "List.find (\<lambda>i. ge_key (groups ! i) = row_key gi r) [0..<length groups] = Some i"
    using find_group_Some [OF k] by blast
  have "entry_ok hcs inputs (group_rows gi rows (row_key gi r)) (groups ! i)"
    using ok i(1) unfolding groups_ok_def by (metis i(2) nth_mem)
  from advance_group_entry_ok [OF this r] length_group_rows [of gi rows] len obtain e where
    e: "advance_group_entry hcs inputs vectors row (groups ! i) = Inr e"
    "entry_ok hcs inputs (group_rows gi rows (row_key gi r) @ [r]) e" "ge_key e = ge_key (groups ! i)"
    by (meson add_le_mono1 le_less_trans)
  from groups_ok_update [OF ok i(1,2) e(2)] e(1,3) i show ?thesis
    by (intro exI [of _ i] exI [of _ e]) (simp add: find_group_def)
qed

text \<open>A row of a group of which no row was seen before.\<close>

lemma group_new:
  assumes ok: "groups_ok gi hcs inputs rows groups" and r: "row_at vectors row r" "length vectors = length inputs"
    and k: "row_key gi r \<notin> row_key gi ` set rows"
  shows "\<exists>groups1 e. find_group (length inputs) groups (row_key gi r) True = (Some (length groups), groups1) \<and>
    advance_group_entry hcs inputs vectors row (groups1 ! length groups) = Inr e \<and> length groups1 = Suc (length groups) \<and>
    groups_ok gi hcs inputs (rows @ [r]) (groups1[length groups := e]) \<and>
    map ge_key (groups1[length groups := e]) = map ge_key groups @ [row_key gi r]"
proof -
  have out: "row_key gi r \<notin> ge_key ` set groups" using ok k by (auto simp: groups_ok_def)
  let ?e = "\<lparr>ge_key = row_key gi r, ge_count_star = 0, ge_values = replicate (length inputs) reduction_zero\<rparr>"
  let ?groups = "groups @ [?e]"
  have find: "find_group (length inputs) groups (row_key gi r) True = (Some (length groups), ?groups)"
    by (simp add: find_group_def find_group_None [OF out])
  have "entry_ok hcs inputs [] ?e" by (simp add: entry_ok_def input_values_def map_filter_simps)
  from advance_group_entry_ok [OF this r] obtain e where
    e: "advance_group_entry hcs inputs vectors row ?e = Inr e" "entry_ok hcs inputs [r] e" "ge_key e = row_key gi r" by auto
  have none: "group_rows gi rows (row_key gi r) = []"
    using k unfolding group_rows_def filter_empty_conv image_iff by metis
  have "groups_ok gi hcs inputs (rows @ [r]) (groups @ [e])"
    using groups_ok_other [OF ok out] e(2,3) out none by (auto simp: groups_ok_def group_rows_append)
  then show ?thesis using find e by (intro exI [of _ ?groups] exI [of _ e]) (simp add: list_update_append)
qed

lemma group_missing:
  "row_key gi r \<notin> ge_key ` set groups \<Longrightarrow> find_group n groups (row_key gi r) False = (None, groups)"
  by (simp add: find_group_def find_group_None)

lemma length_groups_card: "groups_ok gi hcs inputs rows groups \<Longrightarrow> length groups \<le> card (row_key gi ` set rows)"
  by (metis (no_types, lifting) List.finite_set card_mono distinct_card finite_imageI groups_ok_def length_map list.set_map)


section \<open>The rows of a batch\<close>

definition vector_row :: "hash32 \<Rightarrow> nat \<Rightarrow> int4_vector list \<Rightarrow> nat \<Rightarrow> row" where
  "vector_row mur gi vectors row = (ghash mur (vec_get (vectors ! gi) row), map (\<lambda>v. vec_get v row) vectors)"

lemma row_at_vector_row [simp]: "row_at vectors row (vector_row mur gi vectors row)"
  by (simp add: row_at_def vector_row_def)

lemma group_hash_vector_row:
  "gi < length vectors \<Longrightarrow> group_hash mur (vectors ! gi) row =
     (fst (vector_row mur gi vectors row), row_key gi (vector_row mur gi vectors row))"
  by (simp add: group_hash_eq vector_row_def row_key_def)

definition in_table :: "group_entry list \<Rightarrow> nat \<Rightarrow> row \<Rightarrow> bool" where
  "in_table groups gi r \<longleftrightarrow> row_key gi r \<in> ge_key ` set groups"

definition hash_part :: "row \<Rightarrow> nat" where
  "hash_part r = unat (fst r AND 31)"

lemma hash_part_less: "hash_part r < 32"
proof -
  have "fst r AND 31 = take_bit 5 (fst r)" by (simp add: take_bit_eq_mask mask_eq_exp_minus_1)
  then show ?thesis
    unfolding hash_part_def using take_bit_nat_less_exp [of 5 "unat (fst r)"] by (simp add: unsigned_take_bit_eq)
qed

text \<open>
  The loop over the selected rows: the table is right for all rows so far, the bitmaps
  hold the rows of this batch that are in no group of the table, and the table only
  grows until the first row is left out.
\<close>

definition row_inv ::
  "hash32 \<Rightarrow> int4_vector list \<Rightarrow> row list \<Rightarrow> 't agg_state \<Rightarrow> nat list \<Rightarrow> 't agg_state \<times> uint64 list \<Rightarrow> bool" where
  "row_inv mur vectors seen st0 rs = (\<lambda>(st, parts).
     let gi = as_group_input st0; row = vector_row mur gi vectors; all = seen @ map row rs; groups = as_main_groups st
     in st = st0\<lparr>as_hashes := as_hashes st, as_main_groups := groups, as_spilling := as_spilling st,
                as_spill_rows := as_spill_rows st\<rparr> \<and>
        groups_ok gi (as_has_count_star st0) (as_inputs st0) all groups \<and>
        length (as_hashes st) = 64 \<and> (\<forall>i \<in> set rs. as_hashes st ! i = fst (row i)) \<and>
        length parts = 32 \<and>
        (\<forall>p < 32. \<forall>i. bit (parts ! p) i \<longleftrightarrow> i \<in> set rs \<and> \<not> in_table groups gi (row i) \<and> hash_part (row i) = p) \<and>
        (\<not> as_spilling st \<longrightarrow> (\<forall>r \<in> set all. in_table groups gi r)) \<and>
        (as_spilling st0 \<longrightarrow> as_spilling st \<and> map ge_key groups = map ge_key (as_main_groups st0)) \<and>
        ge_key ` set (as_main_groups st0) \<subseteq> ge_key ` set groups)"

lemma advance_group_row_ok:
  assumes inv: "row_inv mur vectors seen st0 rs (st, parts)" and row: "row < 64"
    and gi: "as_group_input st0 < length vectors" "length vectors = length (as_inputs st0)"
    and len: "length seen + length rs + 1 < 2 ^ 32"
  shows "\<exists>x. advance_group_row mur vectors row (st, parts) = Inr x \<and> row_inv mur vectors seen st0 (rs @ [row]) x"
proof -
  define r where "r = vector_row mur (as_group_input st0) vectors row"
  define all where "all = seen @ map (vector_row mur (as_group_input st0) vectors) rs"
  let ?gi = "as_group_input st0" and ?hcs = "as_has_count_star st0" and ?inputs = "as_inputs st0"
  let ?groups = "as_main_groups st"
  define st1 where "st1 = st\<lparr>as_hashes := (as_hashes st)[row := fst r]\<rparr>"
  have st: "st = st0\<lparr>as_hashes := as_hashes st, as_main_groups := ?groups, as_spilling := as_spilling st,
      as_spill_rows := as_spill_rows st\<rparr>"
    and ok: "groups_ok ?gi ?hcs ?inputs all ?groups"
    and hashes: "length (as_hashes st) = 64" "\<forall>i \<in> set rs. as_hashes st ! i = fst (vector_row mur ?gi vectors i)"
    and parts: "length parts = 32" "\<forall>p < 32. \<forall>i. bit (parts ! p) i \<longleftrightarrow> i \<in> set rs \<and>
        \<not> in_table ?groups ?gi (vector_row mur ?gi vectors i) \<and> hash_part (vector_row mur ?gi vectors i) = p"
    and resident: "\<not> as_spilling st \<longrightarrow> (\<forall>r \<in> set all. in_table ?groups ?gi r)"
    and frozen: "as_spilling st0 \<longrightarrow> as_spilling st \<and> map ge_key ?groups = map ge_key (as_main_groups st0)"
    and grows: "ge_key ` set (as_main_groups st0) \<subseteq> ge_key ` set ?groups"
    using inv by (auto simp: row_inv_def Let_def all_def)
  have cfg: "as_group_input st = ?gi" "as_has_count_star st = ?hcs" "as_inputs st = ?inputs"
    by (subst st, simp)+
  have hash: "group_hash mur (vectors ! ?gi) row = (fst r, row_key ?gi r)"
    using group_hash_vector_row [OF gi(1)] by (simp add: r_def)
  have at: "row_at vectors row r" by (simp add: r_def)
  have len1: "length all + 1 < 2 ^ 32" using len by (simp add: all_def)
  have hashes1: "length (as_hashes st1) = 64" "\<forall>i \<in> set (rs @ [row]). as_hashes st1 ! i = fst (vector_row mur ?gi vectors i)"
    using hashes row by (auto simp: st1_def nth_list_update r_def)
  have all1: "seen @ map (vector_row mur ?gi vectors) (rs @ [row]) = all @ [r]" by (simp add: all_def r_def)
  have sp: "as_spilling st1 = as_spilling st" "as_spill_rows st1 = as_spill_rows st" by (simp_all add: st1_def)
  have st1: "st1 = st0\<lparr>as_hashes := as_hashes st1, as_main_groups := ?groups, as_spilling := as_spilling st,
      as_spill_rows := as_spill_rows st\<rparr>"
    unfolding st1_def by (subst st, simp)
  have frame: "st1\<lparr>as_main_groups := X\<rparr> = st0\<lparr>as_hashes := as_hashes st1, as_main_groups := X,
      as_spilling := as_spilling st, as_spill_rows := as_spill_rows st\<rparr>"
    "st1\<lparr>as_spilling := b, as_spill_rows := n\<rparr> = st0\<lparr>as_hashes := as_hashes st1, as_main_groups := ?groups,
      as_spilling := b, as_spill_rows := n\<rparr>" for X b n
    using arg_cong [OF st1, of "\<lambda>st. st\<lparr>as_main_groups := X\<rparr>"] arg_cong [OF st1, of "\<lambda>st. st\<lparr>as_spilling := b, as_spill_rows := n\<rparr>"]
    by simp_all
  note step = advance_group_row_def cfg hash Let_def
  show ?thesis
  proof (cases "in_table ?groups ?gi r")
    case True
    then have k: "row_key ?gi r \<in> ge_key ` set ?groups" by (simp add: in_table_def)
    obtain i e where e: "find_group (length ?inputs) ?groups (row_key ?gi r) False = (Some i, ?groups)"
      "advance_group_entry ?hcs ?inputs vectors row (?groups ! i) = Inr e"
      "groups_ok ?gi ?hcs ?inputs (all @ [r]) (?groups[i := e])" "map ge_key (?groups[i := e]) = map ge_key ?groups"
      using group_known [OF ok at gi(2) len1 k] by blast
    have keys: "ge_key ` set (?groups[i := e]) = ge_key ` set ?groups" by (metis e(4) list.set_map)
    then have tab: "in_table (?groups[i := e]) = in_table ?groups" by (simp add: in_table_def fun_eq_iff)
    have "advance_group_row mur vectors row (st, parts) = Inr (st1\<lparr>as_main_groups := ?groups[i := e]\<rparr>, parts)"
      by (simp add: step e st1_def)
    moreover have "row_inv mur vectors seen st0 (rs @ [row]) (st1\<lparr>as_main_groups := ?groups[i := e]\<rparr>, parts)"
      unfolding row_inv_def Let_def all1 prod.case
      unfolding frame using e(3,4) hashes1 parts resident frozen grows tab keys True
      by (auto simp: r_def all_def)
    ultimately show ?thesis by blast
  next
    case out: False
    then have k: "row_key ?gi r \<notin> ge_key ` set ?groups" by (simp add: in_table_def)
    note miss = group_missing [OF k, of "length ?inputs"]
    show ?thesis
    proof (cases "\<not> as_spilling st \<and> length ?groups < as_group_limit st")
      case True
      then have res: "\<forall>r \<in> set all. in_table ?groups ?gi r" using resident by simp
      then have new: "row_key ?gi r \<notin> row_key ?gi ` set all" using k by (auto simp: in_table_def)
      obtain groups1 e where e: "find_group (length ?inputs) ?groups (row_key ?gi r) True = (Some (length ?groups), groups1)"
        "advance_group_entry ?hcs ?inputs vectors row (groups1 ! length ?groups) = Inr e"
        "groups_ok ?gi ?hcs ?inputs (all @ [r]) (groups1[length ?groups := e])"
        "map ge_key (groups1[length ?groups := e]) = map ge_key ?groups @ [row_key ?gi r]"
        using group_new [OF ok at gi(2) new] by blast
      let ?new = "groups1[length ?groups := e]"
      have keys: "ge_key ` set ?new = insert (row_key ?gi r) (ge_key ` set ?groups)"
        using arg_cong [OF e(4), of set] by simp
      have none: "\<not> bit (parts ! p) i" if "p < 32" for p i
        using parts(2) that res by (auto simp: all_def)
      have "advance_group_row mur vectors row (st, parts) = Inr (st1\<lparr>as_main_groups := ?new\<rparr>, parts)"
        using True by (simp add: step miss e st1_def)
      moreover have "row_inv mur vectors seen st0 (rs @ [row]) (st1\<lparr>as_main_groups := ?new\<rparr>, parts)"
        unfolding row_inv_def Let_def all1 prod.case
        unfolding frame using e(3) hashes1 parts(1) none res frozen grows True keys
        by (auto simp: r_def all_def in_table_def)
      ultimately show ?thesis by blast
    next
      case False
      let ?p = "hash_part r"
      let ?parts = "parts[?p := (parts ! ?p) OR push_bit row 1]"
      have "advance_group_row mur vectors row (st, parts) =
          Inr (st1\<lparr>as_spilling := True, as_spill_rows := as_spill_rows st + 1\<rparr>, ?parts)"
        using False by (auto simp: step miss st1_def hash_part_def)
      moreover have "groups_ok ?gi ?hcs ?inputs (all @ [r]) ?groups" by (rule groups_ok_other [OF ok k])
      moreover have "bit (?parts ! p) i \<longleftrightarrow> i \<in> set (rs @ [row]) \<and>
          \<not> in_table ?groups ?gi (vector_row mur ?gi vectors i) \<and> hash_part (vector_row mur ?gi vectors i) = p" if "p < 32" for p i
        using parts that out row hash_part_less [of r]
        by (auto simp: nth_list_update r_def bit_simps)
      ultimately show ?thesis
        using hashes1 parts(1) frozen grows
        by (intro exI [of _ "(st1\<lparr>as_spilling := True, as_spill_rows := as_spill_rows st + 1\<rparr>, ?parts)"])
          (simp add: row_inv_def Let_def frame all_def r_def)
    qed
  qed
qed

lemma advance_group_rows_ok:
  assumes gi: "as_group_input st0 < length vectors" "length vectors = length (as_inputs st0)"
  shows "row_inv mur vectors seen st0 rs x \<Longrightarrow> \<forall>row \<in> set more_rs. row < 64 \<Longrightarrow>
    length seen + length (rs @ more_rs) < 2 ^ 32 \<Longrightarrow>
    \<exists>y. rfold (advance_group_row mur vectors) more_rs x = Inr y \<and> row_inv mur vectors seen st0 (rs @ more_rs) y"
proof (induction more_rs arbitrary: rs x)
  case (Cons row more_rs)
  obtain st parts where x: "x = (st, parts)" by (cases x)
  obtain y where y: "advance_group_row mur vectors row x = Inr y" "row_inv mur vectors seen st0 (rs @ [row]) y"
    using advance_group_row_ok [OF Cons.prems(1) [unfolded x] _ gi, of row] Cons.prems(2,3) unfolding x by auto
  from Cons.IH [OF y(2)] Cons.prems(2,3) show ?case using y(1) by simp
qed simp

end
