(* ===== verification/Aggregate_Input.thy ===== *)
theory Aggregate_Input
  imports Aggregate_Groups
begin

text \<open>
  Grouped aggregation over the batches of the input: the rows that are in no group of the
  table are in the partitions of the initial spill set.
\<close>

section \<open>Writing bitmaps of rows to partitions\<close>

lemma rfold_snoc: "rfold f (xs @ [x]) s = rbind (rfold f xs s) (f x)"
  by (induction xs arbitrary: s) (auto simp: rbind_def split: sum.splits)

lemma write_partitions_ok:
  assumes T: "tape_spec T phase written rest" and inv: "spill_inv phase written s R" "no_full s"
    and n: "np \<le> ss_npartitions s" "0 \<le> nrows" "nrows \<le> 64"
  shows "\<exists>s'. write_partitions T vectors nrows hashes parts np s = Inr s' \<and>
    spill_inv phase written s' (\<lambda>p. R p @ (if p < np then bitmap_rows (ss_ncolumns s) vectors hashes (nat nrows) (parts ! p) else [])) \<and>
    same_config s s' \<and> no_full s'"
  using n(1)
proof (induction np)
  case 0
  then show ?case using inv by (simp add: write_partitions_def)
next
  case (Suc np)
  let ?R = "\<lambda>np p. R p @ (if p < np then bitmap_rows (ss_ncolumns s) vectors hashes (nat nrows) (parts ! p) else [])"
  obtain s1 where s1: "write_partitions T vectors nrows hashes parts np s = Inr s1"
    "spill_inv phase written s1 (?R np)" "same_config s s1" "no_full s1"
    using Suc by auto
  have cfg: "ss_npartitions s1 = ss_npartitions s" "ss_ncolumns s1 = ss_ncolumns s"
    using s1(3) by (simp_all add: same_config_def)
  have unfold: "write_partitions T vectors nrows hashes parts (Suc np) s =
      (if parts ! np \<noteq> 0 then spill_write T (int np) (Some vectors)
         (Some \<lparr>sel_nrows = nrows, sel_nwords = 1, sel_words = [parts ! np]\<rparr>) (Some hashes) s1 else Inr s1)"
    using s1(1) by (simp add: write_partitions_def rfold_snoc)
  show ?case
  proof (cases "parts ! np = 0")
    case True
    then have "?R (Suc np) = ?R np" by (auto simp: fun_eq_iff less_Suc_eq)
    then show ?thesis using unfold True s1 by auto
  next
    case False
    let ?req = "Spill_write (int np) (Some vectors) (Some \<lparr>sel_nrows = nrows, sel_nwords = 1, sel_words = [parts ! np]\<rparr>) (Some hashes)"
    obtain s2 where s2: "spill_request_run T ?req s1 = Inr s2"
      using spill_write_total [of s1 np nrows T vectors "parts ! np" hashes] s1(2) Suc.prems n(2,3) cfg
      by (auto simp: spill_inv_def)
    have "request_rows (ss_ncolumns s1) p ?req =
        (if p = np then bitmap_rows (ss_ncolumns s) vectors hashes (nat nrows) (parts ! np) else [])" for p
      by (simp add: bitmap_rows_def vec_get_def cfg)
    then have "(\<lambda>p. ?R np p @ request_rows (ss_ncolumns s1) p ?req) = ?R (Suc np)"
      by (auto simp: fun_eq_iff less_Suc_eq)
    then show ?thesis
      using spill_write_inv [OF T s1(2,4) s2] s2 False unfold same_config_trans [OF s1(3)] by auto
  qed
qed

section \<open>The state after some batches\<close>

definition same_setup :: "'t agg_state \<Rightarrow> 't agg_state \<Rightarrow> bool" where
  "same_setup st0 st \<longleftrightarrow> as_aggs st = as_aggs st0 \<and> as_inputs st = as_inputs st0 \<and>
     as_has_count_star st = as_has_count_star st0 \<and> as_grouped st = as_grouped st0 \<and>
     as_group_input st = as_group_input st0 \<and> as_group_limit st = as_group_limit st0 \<and>
     as_spill_buffer_limit st = as_spill_buffer_limit st0"

text \<open>The rows a partition of the initial spill set holds.\<close>

definition spilled_rows :: "group_entry list \<Rightarrow> nat \<Rightarrow> row list \<Rightarrow> nat \<Rightarrow> row list" where
  "spilled_rows groups gi rows p = filter (\<lambda>r. \<not> in_table groups gi r \<and> hash_part r = p) rows"

definition initial_ok ::
  "('t \<Rightarrow> tape_phase) \<Rightarrow> ('t \<Rightarrow> byte list) \<Rightarrow> nat \<Rightarrow> (nat \<Rightarrow> row list) \<Rightarrow> 't agg_state \<Rightarrow> bool" where
  "initial_ok phase written n R st \<longleftrightarrow>
     (case as_initial_spill st of
        None \<Rightarrow> \<not> as_spilling st \<and> as_spill_sets st = []
      | Some k \<Rightarrow> k = 0 \<and> as_spilling st \<and> (\<exists>s. as_spill_sets st = [s] \<and> spill_inv phase written s R \<and> no_full s \<and>
          ss_ncolumns s = n \<and> ss_npartitions s = 32))"

lemma initial_ok_cong:
  "as_initial_spill st' = as_initial_spill st \<Longrightarrow> as_spilling st' = as_spilling st \<Longrightarrow> as_spill_sets st' = as_spill_sets st \<Longrightarrow>
     initial_ok phase written n R st' = initial_ok phase written n R st"
  by (simp add: initial_ok_def cong: option.case_cong)

definition grouped_inv ::
  "('t \<Rightarrow> tape_phase) \<Rightarrow> ('t \<Rightarrow> byte list) \<Rightarrow> 't agg_state \<Rightarrow> row list \<Rightarrow> 't agg_state \<Rightarrow> bool" where
  "grouped_inv phase written st0 rows st \<longleftrightarrow> same_setup st0 st \<and>
     groups_ok (as_group_input st0) (as_has_count_star st0) (as_inputs st0) rows (as_main_groups st) \<and>
     (\<not> as_spilling st \<longrightarrow> (\<forall>r \<in> set rows. in_table (as_main_groups st) (as_group_input st0) r)) \<and>
     length (as_hashes st) = 64 \<and> as_spill_work st = [] \<and>
     initial_ok phase written (length (as_inputs st0)) (spilled_rows (as_main_groups st) (as_group_input st0) rows) st"

lemma spill_desc_create:
  assumes "tape_spec T phase written rest" "0 < n" "n < 65536" "0 < np"
  shows "\<exists>s. spill_create T (Some ()) (Some (spill_desc n)) (int n) (int np) limit = Inr s \<and>
    spill_inv phase written s (\<lambda>_. []) \<and> no_full s \<and> ss_ncolumns s = n \<and> ss_npartitions s = np"
  unfolding spill_desc_def by (rule int4_spill_create [OF assms])

lemma ensure_initial_spill_ok:
  assumes T: "tape_spec T phase written rest" and n: "0 < length (as_inputs st)" "length (as_inputs st) < 65536"
    and ini: "as_initial_spill st = None" "as_spill_sets st = []"
  shows "\<exists>s. ensure_initial_spill T st = Inr (st\<lparr>as_initial_spill := Some 0, as_spill_sets := [s], as_spill_partitions := 32\<rparr>) \<and>
    spill_inv phase written s (\<lambda>_. []) \<and> no_full s \<and> ss_ncolumns s = length (as_inputs st) \<and> ss_npartitions s = 32"
  using spill_desc_create [OF T n, of 32 "as_spill_buffer_limit st"] ini by (auto simp: ensure_initial_spill_def)

lemma groups_ok_keys: "groups_ok gi hcs inputs rows groups \<Longrightarrow> in_table groups gi r \<Longrightarrow> row_key gi r \<in> row_key gi ` set rows"
  by (auto simp: groups_ok_def in_table_def)

lemma row_inv_start:
  assumes "grouped_inv phase written st0 rows st" "same_setup st0 st"
  shows "row_inv mur vectors rows st [] (st, replicate 32 0)"
  using assms by (auto simp: row_inv_def grouped_inv_def same_setup_def Let_def)

text \<open>What the loop over the rows leaves for the partitions.\<close>

lemma bitmap_rows_spilled:
  assumes inv: "row_inv mur vectors rows st (selected sel) (st1, parts)" and p: "p < 32"
    and n: "length vectors = n" "nat (sel_nrows sel) = nrows"
  shows "bitmap_rows n vectors (as_hashes st1) nrows (parts ! p) =
    spilled_rows (as_main_groups st1) (as_group_input st) (map (vector_row mur (as_group_input st) vectors) (selected sel)) p"
proof -
  let ?row = "vector_row mur (as_group_input st) vectors"
  have bits: "bit (parts ! p) i \<longleftrightarrow> i \<in> set (selected sel) \<and>
      \<not> in_table (as_main_groups st1) (as_group_input st) (?row i) \<and> hash_part (?row i) = p" for i
    using inv p by (simp add: row_inv_def Let_def)
  have hashes: "\<forall>i \<in> set (selected sel). as_hashes st1 ! i = fst (?row i)"
    using inv by (simp add: row_inv_def Let_def)
  have rows: "filter (bit (parts ! p)) [0..<nrows] =
      filter (\<lambda>i. \<not> in_table (as_main_groups st1) (as_group_input st) (?row i) \<and> hash_part (?row i) = p) (selected sel)"
    unfolding selected_def filter_filter using n(2) bits by (intro filter_cong) (auto simp: selected_def)
  have "(as_hashes st1 ! i, map (\<lambda>column. vec_get (vectors ! column) i) [0..<n]) = ?row i" if "i \<in> set (selected sel)" for i
    using hashes that n(1) by (auto simp: vector_row_def intro!: nth_equalityI)
  then show ?thesis
    unfolding bitmap_rows_def rows spilled_rows_def filter_map comp_def by (intro map_cong) auto
qed

lemma spilled_rows_append: "spilled_rows groups gi (rows @ rows') p = spilled_rows groups gi rows p @ spilled_rows groups gi rows' p"
  by (simp add: spilled_rows_def)

lemma spilled_rows_cong:
  "ge_key ` set groups = ge_key ` set groups' \<Longrightarrow> spilled_rows groups = spilled_rows groups'"
  by (simp add: spilled_rows_def in_table_def fun_eq_iff)

lemma spilled_rows_none: "\<forall>r \<in> set rows. in_table groups gi r \<Longrightarrow> spilled_rows groups gi rows p = []"
  by (simp add: spilled_rows_def filter_empty_conv)

definition batch_rows :: "hash32 \<Rightarrow> 't agg_state \<Rightarrow> probe_batch \<Rightarrow> row list" where
  "batch_rows mur st batch =
     map (vector_row mur (as_group_input st) (load_group_vectors (as_inputs st) batch)) (selected (pb_selection batch))"

lemma ensure_initial:
  assumes T: "tape_spec T phase written rest" and n: "0 < length (as_inputs st1)" "length (as_inputs st1) < 65536"
    and ini: "initial_ok phase written (length (as_inputs st1)) R st"
    and R: "as_initial_spill st = None \<longrightarrow> R = (\<lambda>_. [])"
    and same: "as_initial_spill st1 = as_initial_spill st" "as_spill_sets st1 = as_spill_sets st"
  shows "\<exists>s parts. ensure_initial_spill T st1 =
      Inr (st1\<lparr>as_initial_spill := Some 0, as_spill_sets := [s], as_spill_partitions := parts\<rparr>) \<and>
    spill_inv phase written s R \<and> no_full s \<and> ss_ncolumns s = length (as_inputs st1) \<and> ss_npartitions s = 32"
proof (cases "as_initial_spill st")
  case None
  then have "as_initial_spill st1 = None" "as_spill_sets st1 = []" using ini same by (simp_all add: initial_ok_def)
  from ensure_initial_spill_ok [OF T n this] show ?thesis using R None by blast
next
  case (Some k)
  then obtain s where s: "k = 0" "as_spill_sets st = [s]" "spill_inv phase written s R" "no_full s"
    "ss_ncolumns s = length (as_inputs st1)" "ss_npartitions s = 32"
    using ini by (auto simp: initial_ok_def)
  have "st1 = st1\<lparr>as_initial_spill := Some 0, as_spill_sets := [s], as_spill_partitions := as_spill_partitions st1\<rparr>"
    using Some s(1,2) same by simp
  then have "ensure_initial_spill T st1 =
      Inr (st1\<lparr>as_initial_spill := Some 0, as_spill_sets := [s], as_spill_partitions := as_spill_partitions st1\<rparr>)"
    using Some same by (simp add: ensure_initial_spill_def)
  with s show ?thesis by blast
qed

lemma advance_grouped_batch_ok:
  assumes T: "tape_spec T phase written rest" and inv: "grouped_inv phase written st0 rows st"
    and n: "as_group_input st0 < length (as_inputs st0)" "length (as_inputs st0) < 65536"
    and b: "sel_wf (pb_selection batch)" "0 < sel_nrows (pb_selection batch)" "sel_nrows (pb_selection batch) \<le> 64"
    and len: "length rows + length (selected (pb_selection batch)) < 2 ^ 32"
  shows "\<exists>st'. advance_grouped_batch T mur batch st = Inr st' \<and> grouped_inv phase written st0 (rows @ batch_rows mur st0 batch) st'"
proof -
  let ?sel = "pb_selection batch" and ?gi = "as_group_input st0"
  define vectors where "vectors = load_group_vectors (as_inputs st0) batch"
  let ?row = "vector_row mur ?gi vectors"
  note one = selected_one_word [OF b]
  have set: "same_setup st0 st" using inv by (simp add: grouped_inv_def)
  then have cfg: "as_group_input st = ?gi" "as_inputs st = as_inputs st0" "as_has_count_star st = as_has_count_star st0"
    by (simp_all add: same_setup_def)
  have vlen: "length vectors = length (as_inputs st0)" by (simp add: vectors_def load_group_vectors_def)
  have small: "\<forall>row \<in> set (word_rows (sel_words ?sel ! 0)). row < 64" by (auto dest: word64_bit_lt)
  obtain st1 parts where loop: "rfold (advance_group_row mur vectors) (word_rows (sel_words ?sel ! 0)) (st, replicate 32 0) =
      Inr (st1, parts)" "row_inv mur vectors rows st (selected ?sel) (st1, parts)"
    using advance_group_rows_ok [OF _ _ row_inv_start [OF inv set] small, of vectors mur] n vlen cfg len one by auto
  define groups where "groups = as_main_groups st1"
  define all where "all = rows @ batch_rows mur st0 batch"
  have all: "rows @ map ?row (selected ?sel) = all" by (simp add: all_def batch_rows_def vectors_def)
  have st1: "st1 = st\<lparr>as_hashes := as_hashes st1, as_main_groups := groups, as_spilling := as_spilling st1,
      as_spill_rows := as_spill_rows st1\<rparr>"
    and ok: "groups_ok ?gi (as_has_count_star st0) (as_inputs st0) all groups" and h: "length (as_hashes st1) = 64"
    and res: "\<not> as_spilling st1 \<longrightarrow> (\<forall>r \<in> set all. in_table groups ?gi r)"
    and frozen: "as_spilling st \<longrightarrow> as_spilling st1 \<and> map ge_key groups = map ge_key (as_main_groups st)"
    and grows: "ge_key ` set (as_main_groups st) \<subseteq> ge_key ` set groups"
    using loop(2) unfolding row_inv_def Let_def cfg all prod.case groups_def by blast+
  have frame: "as_initial_spill st1 = as_initial_spill st" "as_spill_sets st1 = as_spill_sets st"
    "as_spill_work st1 = as_spill_work st" "same_setup st0 st1"
    using set by (subst st1, simp add: same_setup_def)+
  have ini: "initial_ok phase written (length (as_inputs st0)) (spilled_rows (as_main_groups st) ?gi rows) st"
    and res0: "\<not> as_spilling st \<longrightarrow> (\<forall>r \<in> set rows. in_table (as_main_groups st) ?gi r)" and work: "as_spill_work st = []"
    using inv by (simp_all add: grouped_inv_def)
  have before: "spilled_rows (as_main_groups st) ?gi rows = spilled_rows groups ?gi rows"
  proof (cases "as_spilling st")
    case True
    then have "ge_key ` set groups = ge_key ` set (as_main_groups st)" using frozen by (metis list.set_map)
    from spilled_rows_cong [OF this] show ?thesis by simp
  next
    case False
    then have "\<forall>r \<in> set rows. in_table (as_main_groups st) ?gi r \<and> in_table groups ?gi r"
      using res0 grows by (auto simp: in_table_def)
    then show ?thesis by (simp add: fun_eq_iff spilled_rows_none)
  qed
  have batch: "advance_grouped_batch T mur batch st =
      (if \<not> as_spilling st1 then Inr st1
       else rbind (ensure_initial_spill T st1) (\<lambda>st.
         rbind (write_partitions T vectors (sel_nrows ?sel) (as_hashes st) parts 32 (as_spill_sets st ! the (as_initial_spill st)))
           (\<lambda>s. Inr (st\<lparr>as_spill_sets := (as_spill_sets st)[the (as_initial_spill st) := s]\<rparr>))))"
    using b(3) one loop(1) by (simp add: advance_grouped_batch_def Let_def cfg vectors_def)
  show ?thesis
  proof (cases "as_spilling st1")
    case False
    then have "as_initial_spill st = None \<and> as_spill_sets st = []"
      using ini frozen by (auto simp: initial_ok_def split: option.splits)
    then have "grouped_inv phase written st0 all st1"
      using ok h res work frame False by (simp add: grouped_inv_def initial_ok_def groups_def)
    then show ?thesis using batch False by (simp add: all_def)
  next
    case True
    have inputs: "as_inputs st1 = as_inputs st0" using frame(4) by (simp add: same_setup_def)
    have n1: "0 < length (as_inputs st1)" "length (as_inputs st1) < 65536" using n by (auto simp: inputs)
    have ini1: "initial_ok phase written (length (as_inputs st1)) (spilled_rows groups ?gi rows) st"
      using ini before by (simp add: inputs)
    have "as_initial_spill st = None \<longrightarrow> spilled_rows groups ?gi rows = (\<lambda>_. [])"
      using ini res0 spilled_rows_none [of rows "as_main_groups st" ?gi]
      by (auto simp: initial_ok_def before [symmetric] fun_eq_iff)
    then obtain s ps where s: "ensure_initial_spill T st1 =
        Inr (st1\<lparr>as_initial_spill := Some 0, as_spill_sets := [s], as_spill_partitions := ps\<rparr>)"
      "spill_inv phase written s (spilled_rows groups ?gi rows)" "no_full s" "ss_ncolumns s = length (as_inputs st0)"
      "ss_npartitions s = 32"
      using ensure_initial [OF T n1 ini1 _ frame(1,2)] by (auto simp: inputs)
    from write_partitions_ok [OF T s(2,3), of 32 "sel_nrows ?sel" vectors "as_hashes st1" parts] s(5) b(2,3)
    obtain s' where s': "write_partitions T vectors (sel_nrows ?sel) (as_hashes st1) parts 32 s = Inr s'"
      "spill_inv phase written s' (\<lambda>p. spilled_rows groups ?gi rows p @
         (if p < 32 then bitmap_rows (ss_ncolumns s) vectors (as_hashes st1) (nat (sel_nrows ?sel)) (parts ! p) else []))"
      "same_config s s'" "no_full s'" by auto
    have "spilled_rows groups ?gi rows p @ (if p < 32 then bitmap_rows (ss_ncolumns s) vectors (as_hashes st1) (nat (sel_nrows ?sel)) (parts ! p) else []) =
        spilled_rows groups ?gi all p" if "p < 32" for p
      using bitmap_rows_spilled [OF loop(2) that vlen refl] that s(4)
      by (simp add: all [symmetric] spilled_rows_append cfg groups_def)
    then have inv': "spill_inv phase written s' (spilled_rows groups ?gi all)"
      using s'(2,3) s(5) by (simp add: spill_inv_def same_config_def)
    let ?st = "st1\<lparr>as_initial_spill := Some 0, as_spill_partitions := ps, as_spill_sets := [s']\<rparr>"
    have "advance_grouped_batch T mur batch st = Inr ?st" using batch True s(1) s'(1) by simp
    moreover have "grouped_inv phase written st0 all ?st"
      using ok h work frame True inv' s'(3,4) s(4,5)
      by (simp add: grouped_inv_def initial_ok_def groups_def same_setup_def same_config_def)
    ultimately show ?thesis by (auto simp: all_def)
  qed
qed

lemma grouped_batches_ok:
  assumes T: "tape_spec T phase written rest"
    and n: "as_group_input st0 < length (as_inputs st0)" "length (as_inputs st0) < 65536"
  shows "grouped_inv phase written st0 rows st \<Longrightarrow>
    \<forall>b \<in> set batches. sel_wf (pb_selection b) \<and> 0 < sel_nrows (pb_selection b) \<and> sel_nrows (pb_selection b) \<le> 64 \<Longrightarrow>
    length rows + selected_rows batches < 2 ^ 32 \<Longrightarrow>
    \<exists>st'. rfold (grouped_batch T mur) batches st = Inr st' \<and>
      grouped_inv phase written st0 (rows @ concat (map (batch_rows mur st0) batches)) st'"
proof (induction batches arbitrary: rows st)
  case (Cons b batches)
  let ?st = "st\<lparr>as_child := tl (as_child st), as_input_batches := as_input_batches st + 1,
       as_input_rows := as_input_rows st + nat (selection_count (pb_selection b))\<rparr>"
  have "grouped_inv phase written st0 rows ?st"
    using Cons.prems(1) initial_ok_cong [of ?st st phase written] by (simp add: grouped_inv_def same_setup_def)
  then obtain st1 where st1: "advance_grouped_batch T mur b ?st = Inr st1"
    "grouped_inv phase written st0 (rows @ batch_rows mur st0 b) st1"
    using advance_grouped_batch_ok [OF T _ n, of rows ?st b mur] Cons.prems(2,3) by (auto simp: selected_rows_def)
  have "length (rows @ batch_rows mur st0 b) + selected_rows batches < 2 ^ 32"
    using Cons.prems(3) by (simp add: selected_rows_def batch_rows_def)
  from Cons.IH [OF st1(2) _ this] Cons.prems(2) show ?case using st1(1) by (simp add: grouped_batch_def)
qed simp

end
