(* ===== verification/Aggregate_Work.thy ===== *)
theory Aggregate_Work
  imports Aggregate_Input
begin

text \<open>
  The partitions that wait: loading a partition into a table, and splitting it by the next
  bits of the hash.
\<close>

section \<open>The blocks of a partition\<close>

lemma block_vectors_row:
  assumes b: "block_wf n b" and row: "row < sb_nrows b"
  shows "row_at (spill_block_vectors n b) row (block_rows b ! row)"
proof -
  have len: "sb_ncolumns b = n" "sb_nrows b \<le> 64" "length (sb_values b) = n * 64" "length (sb_validity b) = 8 * n"
    using b by (simp_all add: block_wf_def)
  have "vec_get (spill_block_vectors n b ! c) row =
      (if cell_valid (sb_validity b) c row then Some (cell_value (sb_values b) c row) else None)" if c: "c < n" for c
  proof -
    have "c * 8 + row div 8 < 8 * n" using validity_index_less [OF c] row len(2) by simp
    moreover have "c * 64 + row < n * 64" using value_index_less [OF c] row len(2) by simp
    moreover have "to_int32 (int row) = int row" using row len(2) by (simp add: to_int32_id)
    moreover have "nat (int row div 8) = row div 8" "nat (int row mod 8) = row mod 8" by (simp_all add: nat_div_distrib nat_mod_distrib)
    ultimately show ?thesis
      using c len(3,4) by (simp add: vec_get_def spill_block_vectors_def int4_vector_init_packed_def int4_row_is_null_def
          int4_row_value_def cell_valid_def cell_value_def and_exp_eq_0_iff_not_bit Let_def)
  qed
  then show ?thesis
    using row len(1) by (auto simp: row_at_def block_rows_def buf_row_def spill_block_vectors_def)
qed

lemma length_block_vectors [simp]: "length (spill_block_vectors n b) = n"
  by (simp add: spill_block_vectors_def)

lemma length_block_rows [simp]: "length (block_rows b) = sb_nrows b"
  by (simp add: block_rows_def)

section \<open>Loading\<close>

definition load_inv :: "'t agg_state \<Rightarrow> row list \<Rightarrow> bool \<times> group_entry list \<Rightarrow> bool" where
  "load_inv st rows = (\<lambda>(going, groups).
     if going then groups_ok (as_group_input st) (as_has_count_star st) (as_inputs st) rows groups \<and>
       (\<forall>r \<in> set rows. in_table groups (as_group_input st) r)
     else as_group_limit st < card (row_key (as_group_input st) ` set rows))"

lemma group_hash_row_at:
  "row_at vectors row r \<Longrightarrow> gi < length vectors \<Longrightarrow> snd (group_hash mur (vectors ! gi) row) = row_key gi r"
  by (simp add: group_hash_eq row_at_def row_key_def)

lemma load_inv_stopped:
  assumes "load_inv st rows (False, groups)"
  shows "load_inv st (rows @ rows') (False, groups)"
proof -
  have "card (row_key (as_group_input st) ` set rows) \<le> card (row_key (as_group_input st) ` set (rows @ rows'))"
    by (intro card_mono) auto
  then show ?thesis using assms by (simp add: load_inv_def)
qed

lemma load_spill_row_ok:
  assumes inv: "load_inv st rows x" and r: "row_at vectors row r"
    and n: "as_group_input st < length (as_inputs st)" "length vectors = length (as_inputs st)"
    and len: "length rows + 1 < 2 ^ 32"
  shows "\<exists>y. load_spill_row mur st vectors row x = Inr y \<and> load_inv st (rows @ [r]) y"
proof (cases x)
  case (Pair going groups)
  let ?gi = "as_group_input st" and ?hcs = "as_has_count_star st" and ?inputs = "as_inputs st"
  obtain h where h: "group_hash mur (vectors ! ?gi) row = (h, row_key ?gi r)"
    using group_hash_row_at [OF r, of ?gi mur] n by (metis prod.collapse)
  note step = load_spill_row_def Pair h Let_def
  show ?thesis
  proof (cases going)
    case False
    then show ?thesis using inv load_inv_stopped [of st rows groups "[r]"] by (simp add: step)
  next
    case True
    then have ok: "groups_ok ?gi ?hcs ?inputs rows groups" and all: "\<forall>r \<in> set rows. in_table groups ?gi r"
      using inv by (simp_all add: load_inv_def Pair)
    show ?thesis
    proof (cases "in_table groups ?gi r")
      case k: True
      then obtain i e where e: "find_group (length ?inputs) groups (row_key ?gi r) False = (Some i, groups)"
        "advance_group_entry ?hcs ?inputs vectors row (groups ! i) = Inr e"
        "groups_ok ?gi ?hcs ?inputs (rows @ [r]) (groups[i := e])" "map ge_key (groups[i := e]) = map ge_key groups"
        using group_known [OF ok r n(2) len k [unfolded in_table_def]] by blast
      have "ge_key ` set (groups[i := e]) = ge_key ` set groups" by (metis e(4) list.set_map)
      then have "load_inv st (rows @ [r]) (True, groups[i := e])"
        using e(3) all k by (auto simp: load_inv_def in_table_def)
      then show ?thesis using True e by (simp add: step)
    next
      case out: False
      then have k: "row_key ?gi r \<notin> ge_key ` set groups" by (simp add: in_table_def)
      note miss = group_missing [OF k, of "length ?inputs"]
      have keys: "row_key ?gi ` set rows = ge_key ` set groups"
        using ok all by (auto simp: groups_ok_def in_table_def)
      show ?thesis
      proof (cases "length groups \<ge> as_group_limit st")
        case full: True
        have "length groups = card (ge_key ` set groups)"
          using ok by (metis distinct_card groups_ok_def length_map list.set_map)
        then have "load_inv st (rows @ [r]) (False, groups)"
          using full k keys by (simp add: load_inv_def)
        then show ?thesis using True miss full by (simp add: step)
      next
        case False
        obtain groups1 e where e: "find_group (length ?inputs) groups (row_key ?gi r) True = (Some (length groups), groups1)"
          "advance_group_entry ?hcs ?inputs vectors row (groups1 ! length groups) = Inr e"
          "groups_ok ?gi ?hcs ?inputs (rows @ [r]) (groups1[length groups := e])"
          "map ge_key (groups1[length groups := e]) = map ge_key groups @ [row_key ?gi r]"
          using group_new [OF ok r n(2)] k keys by auto
        have "ge_key ` set (groups1[length groups := e]) = insert (row_key ?gi r) (ge_key ` set groups)"
          using arg_cong [OF e(4), of set] by simp
        then have "load_inv st (rows @ [r]) (True, groups1[length groups := e])"
          using e(3) all by (auto simp: load_inv_def in_table_def)
        then show ?thesis using True miss False e by (simp add: step)
      qed
    qed
  qed
qed

lemma load_spill_rows_ok:
  assumes n: "as_group_input st < length (as_inputs st)" "length vectors = length (as_inputs st)"
  shows "load_inv st rows x \<Longrightarrow> \<forall>i \<in> set is. row_at vectors i (f i) \<Longrightarrow> length rows + length is < 2 ^ 32 \<Longrightarrow>
    \<exists>y. rfold (load_spill_row mur st vectors) is x = Inr y \<and> load_inv st (rows @ map f is) y"
proof (induction "is" arbitrary: rows x)
  case (Cons i "is")
  obtain y where y: "load_spill_row mur st vectors i x = Inr y" "load_inv st (rows @ [f i]) y"
    using load_spill_row_ok [OF Cons.prems(1) _ n, of i "f i" mur] Cons.prems(2,3) by auto
  from Cons.IH [OF y(2)] Cons.prems(2,3) show ?case using y(1) by simp
qed simp

lemma load_spill_block_ok:
  assumes inv: "load_inv st rows (True, groups)" and b: "block_wf (length (as_inputs st)) b"
    and n: "as_group_input st < length (as_inputs st)" and len: "length rows + length (block_rows b) < 2 ^ 32"
  shows "\<exists>y. load_spill_block mur st b groups = Inr y \<and> load_inv st (rows @ block_rows b) y"
proof -
  have "map ((!) (block_rows b)) [0..<sb_nrows b] = block_rows b" by (metis length_block_rows map_nth)
  then show ?thesis
    using load_spill_rows_ok [OF n length_block_vectors inv, of "[0..<sb_nrows b]" b "\<lambda>i. block_rows b ! i" mur] len
      block_vectors_row [OF b]
    by (simp add: load_spill_block_def block_selection_rows [OF b])
qed

lemma load_blocks_ok:
  assumes n: "as_group_input st < length (as_inputs st)"
  shows "load_inv st rows (True, groups) \<Longrightarrow> \<forall>b \<in> set bs. block_wf (length (as_inputs st)) b \<Longrightarrow>
    length rows + length (concat (map block_rows bs)) < 2 ^ 32 \<Longrightarrow>
    \<exists>y. run_blocks (load_spill_block mur st) bs groups = Inr y \<and> load_inv st (rows @ concat (map block_rows bs)) y"
proof (induction bs arbitrary: rows groups)
  case (Cons b bs)
  obtain going groups1 where y: "load_spill_block mur st b groups = Inr (going, groups1)"
    "load_inv st (rows @ block_rows b) (going, groups1)"
    using load_spill_block_ok [OF Cons.prems(1) _ n, of b mur] Cons.prems(2,3) by auto
  show ?case
  proof (cases going)
    case True
    with Cons.IH [of "rows @ block_rows b" groups1] Cons.prems(2,3) y show ?thesis by (simp add: add.assoc)
  next
    case False
    then have "load_inv st ((rows @ block_rows b) @ concat (map block_rows bs)) (False, groups1)"
      using y(2) load_inv_stopped [of st "rows @ block_rows b" groups1] by simp
    then show ?thesis using y(1) False by simp
  qed
qed simp


section \<open>Splitting\<close>

definition split_part :: "nat \<Rightarrow> nat \<Rightarrow> row \<Rightarrow> nat" where
  "split_part shift bits r = unat (take_bit bits (drop_bit shift (fst r)))"

lemma split_part_less: "split_part shift bits r < 2 ^ bits"
  unfolding split_part_def by (simp add: unsigned_take_bit_eq take_bit_nat_less_exp)

lemma split_part_mask: "bits \<le> 5 \<Longrightarrow> unat (drop_bit shift h AND (of_nat (2 ^ bits) - 1)) = split_part shift bits (h, cs)"
  by (simp add: split_part_def take_bit_eq_mask mask_eq_exp_minus_1)

lemma partition_bits:
  assumes "bits \<le> 5" "\<forall>i \<in> set is. i < 64"
  shows "length (fold (\<lambda>row parts. let p = unat (drop_bit shift (hs ! row) AND (of_nat (2 ^ bits) - 1))
        in parts[p := (parts ! p) OR push_bit row 1]) is (ps :: uint64 list)) = length ps \<and>
    (length ps = 32 \<longrightarrow> (\<forall>p < 32. \<forall>i. bit (fold (\<lambda>row parts. let p = unat (drop_bit shift (hs ! row) AND (of_nat (2 ^ bits) - 1))
        in parts[p := (parts ! p) OR push_bit row 1]) is ps ! p) i \<longleftrightarrow>
       bit (ps ! p) i \<or> i \<in> set is \<and> split_part shift bits (hs ! i, []) = p))"
  using assms(2)
proof (induction "is" arbitrary: ps)
  case (Cons k "is")
  let ?p = "split_part shift bits (hs ! k, [])"
  have p: "unat (drop_bit shift (hs ! k) AND (of_nat (2 ^ bits) - 1)) = ?p" by (rule split_part_mask [OF assms(1)])
  have "?p < 2 ^ bits" by (rule split_part_less)
  also have "(2 :: nat) ^ bits \<le> 2 ^ 5" using assms(1) by (intro power_increasing) auto
  finally have "?p < 32" by simp
  then have upd: "bit ((ps[?p := (ps ! ?p) OR push_bit k 1]) ! p) i \<longleftrightarrow> bit (ps ! p) i \<or> i = k \<and> ?p = p" if "length ps = 32" for p i
    using that Cons.prems by (auto simp: nth_list_update bit_simps)
  show ?case
    using Cons.IH [of "ps[?p := (ps ! ?p) OR push_bit k 1]"] Cons.prems
    by (auto simp: Let_def p upd simp del: push_bit_of_1 of_nat_power)
qed simp

lemma bitmap_rows_block:
  assumes b: "block_wf n b" and bits: "bits \<le> 5" and p: "p < 2 ^ bits"
  shows "bitmap_rows n (spill_block_vectors n b) (sb_hashes b) (sb_nrows b) (partition_block shift (2 ^ bits) b ! p) =
    filter (\<lambda>r. split_part shift bits r = p) (block_rows b)"
proof -
  have nrows: "sb_nrows b \<le> 64" and nc: "sb_ncolumns b = n" using b by (simp_all add: block_wf_def)
  have "(2 :: nat) ^ bits \<le> 2 ^ 5" using bits by (intro power_increasing) auto
  with p have p32: "p < 32" by simp
  have bit: "bit (partition_block shift (2 ^ bits) b ! p) i \<longleftrightarrow> i < sb_nrows b \<and> split_part shift bits (sb_hashes b ! i, []) = p" for i
    using partition_bits [OF bits, of "[0..<sb_nrows b]" shift "sb_hashes b" "replicate 32 0"] nrows p32
    by (simp add: partition_block_def block_selection_rows [OF b])
  have row: "(sb_hashes b ! i, map (\<lambda>column. vec_get (spill_block_vectors n b ! column) i) [0..<n]) = block_rows b ! i"
    if i: "i < sb_nrows b" for i
    using block_vectors_row [OF b i] i nc
    by (auto simp: row_at_def block_rows_def buf_row_def intro!: nth_equalityI)
  have fst: "fst (block_rows b ! i) = sb_hashes b ! i" if "i < sb_nrows b" for i
    using that by (simp add: block_rows_def buf_row_def)
  have "filter (\<lambda>r. split_part shift bits r = p) (block_rows b) =
      map ((!) (block_rows b)) (filter (\<lambda>i. split_part shift bits (block_rows b ! i) = p) [0..<sb_nrows b])"
    by (subst map_nth [of "block_rows b", symmetric], subst filter_map) (simp add: comp_def)
  moreover have "filter (bit (partition_block shift (2 ^ bits) b ! p)) [0..<sb_nrows b] =
      filter (\<lambda>i. split_part shift bits (block_rows b ! i) = p) [0..<sb_nrows b]"
    using bit fst by (intro filter_cong) (auto simp: split_part_def)
  ultimately show ?thesis unfolding bitmap_rows_def using row by auto
qed

lemma repartition_block_ok:
  assumes T: "tape_spec T phase written rest" and inv: "spill_inv phase written s (\<lambda>p. filter (\<lambda>r. split_part shift bits r = p) rows)"
    and nf: "no_full s" and s: "ss_npartitions s = 2 ^ bits" "ss_ncolumns s = n"
    and b: "block_wf n b" and bits: "bits \<le> 5"
  shows "\<exists>s'. repartition_block T n shift (2 ^ bits) b s = Inr (True, s') \<and>
    spill_inv phase written s' (\<lambda>p. filter (\<lambda>r. split_part shift bits r = p) (rows @ block_rows b)) \<and>
    same_config s s' \<and> no_full s'"
proof -
  have nrows: "sb_nrows b \<le> 64" using b by (simp add: block_wf_def)
  from write_partitions_ok [OF T inv nf, of "2 ^ bits" "int (sb_nrows b)" "spill_block_vectors n b" "sb_hashes b"
      "partition_block shift (2 ^ bits) b", unfolded nat_int s] nrows
  obtain s' where s': "write_partitions T (spill_block_vectors n b) (int (sb_nrows b)) (sb_hashes b)
      (partition_block shift (2 ^ bits) b) (2 ^ bits) s = Inr s'"
    "spill_inv phase written s' (\<lambda>p. filter (\<lambda>r. split_part shift bits r = p) rows @
       (if p < 2 ^ bits then bitmap_rows n (spill_block_vectors n b) (sb_hashes b) (sb_nrows b)
          (partition_block shift (2 ^ bits) b ! p) else []))" "same_config s s'" "no_full s'" by auto
  have "spill_inv phase written s' (\<lambda>p. filter (\<lambda>r. split_part shift bits r = p) (rows @ block_rows b))"
    using s'(2,3) s(1) bitmap_rows_block [OF b bits] by (simp add: spill_inv_def same_config_def)
  then show ?thesis using s' by (simp add: repartition_block_def)
qed

lemma repartition_blocks_ok:
  assumes T: "tape_spec T phase written rest" and bits: "bits \<le> 5"
  shows "spill_inv phase written s (\<lambda>p. filter (\<lambda>r. split_part shift bits r = p) rows) \<Longrightarrow> no_full s \<Longrightarrow>
    ss_npartitions s = 2 ^ bits \<Longrightarrow> ss_ncolumns s = n \<Longrightarrow> \<forall>b \<in> set bs. block_wf n b \<Longrightarrow>
    \<exists>s'. run_blocks (repartition_block T n shift (2 ^ bits)) bs s = Inr (True, s') \<and>
      spill_inv phase written s' (\<lambda>p. filter (\<lambda>r. split_part shift bits r = p) (rows @ concat (map block_rows bs))) \<and>
      same_config s s'"
proof (induction bs arbitrary: s rows)
  case (Cons b bs)
  obtain s1 where s1: "repartition_block T n shift (2 ^ bits) b s = Inr (True, s1)"
    "spill_inv phase written s1 (\<lambda>p. filter (\<lambda>r. split_part shift bits r = p) (rows @ block_rows b))"
    "same_config s s1" "no_full s1"
    using repartition_block_ok [OF T Cons.prems(1-4) _ bits] Cons.prems(5) by auto
  from Cons.IH [OF s1(2,4)] Cons.prems(3-5) s1(3) obtain s2 where
    "run_blocks (repartition_block T n shift (2 ^ bits)) bs s1 = Inr (True, s2)"
    "spill_inv phase written s2 (\<lambda>p. filter (\<lambda>r. split_part shift bits r = p) ((rows @ block_rows b) @ concat (map block_rows bs)))"
    "same_config s1 s2" by (auto simp: same_config_def)
  then show ?case using s1(1,3) same_config_trans by (auto simp: append_assoc)
qed simp


section \<open>The list of work\<close>

definition sets_ok ::
  "('t \<Rightarrow> tape_phase) \<Rightarrow> ('t \<Rightarrow> byte list) \<Rightarrow> nat \<Rightarrow> 't spill_set list \<Rightarrow> (nat \<Rightarrow> row list) list \<Rightarrow> bool" where
  "sets_ok phase written n sets Rs \<longleftrightarrow> list_all2 (\<lambda>s R. spill_stored phase written s R \<and> ss_ncolumns s = n) sets Rs"

definition holds_work :: "'t spill_set list \<Rightarrow> (nat \<Rightarrow> row list) list \<Rightarrow> spill_work \<Rightarrow> row list \<times> nat \<Rightarrow> bool" where
  "holds_work sets Rs w = (\<lambda>(rows, shift). wk_set w < length sets \<and>
     wk_partition w < ss_npartitions (sets ! wk_set w) \<and> (Rs ! wk_set w) (wk_partition w) = rows \<and> wk_hash_shift w = shift)"

definition works_hold ::
  "('t \<Rightarrow> tape_phase) \<Rightarrow> ('t \<Rightarrow> byte list) \<Rightarrow> 't agg_state \<Rightarrow> (row list \<times> nat) list \<Rightarrow> bool" where
  "works_hold phase written st L \<longleftrightarrow> (\<exists>Rs. sets_ok phase written (length (as_inputs st)) (as_spill_sets st) Rs \<and>
     list_all2 (holds_work (as_spill_sets st) Rs) (as_spill_work st) L)"

lemma sets_ok_nth:
  "sets_ok phase written n sets Rs \<Longrightarrow> k < length sets \<Longrightarrow> spill_stored phase written (sets ! k) (Rs ! k) \<and> ss_ncolumns (sets ! k) = n"
  by (simp add: sets_ok_def list_all2_conv_all_nth)

lemma sets_ok_update:
  assumes "sets_ok phase written n sets Rs" "k < length sets" "spill_stored phase written s (Rs ! k)" "ss_ncolumns s = n"
  shows "sets_ok phase written n (sets[k := s]) Rs"
  using assms list_all2_update_cong [of _ sets Rs s "Rs ! k" k] by (simp add: sets_ok_def)

lemma holds_work_mono:
  assumes "holds_work sets Rs w x" "length sets \<le> length sets'" "length Rs = length sets"
    "\<forall>k < length sets. ss_npartitions (sets' ! k) = ss_npartitions (sets ! k)"
  shows "holds_work sets' (Rs @ Rs') w x"
  using assms by (auto simp: holds_work_def nth_append split: prod.splits)

lemma holds_works_mono:
  "list_all2 (holds_work sets Rs) ws L \<Longrightarrow> length sets \<le> length sets' \<Longrightarrow> length Rs = length sets \<Longrightarrow>
     \<forall>k < length sets. ss_npartitions (sets' ! k) = ss_npartitions (sets ! k) \<Longrightarrow> list_all2 (holds_work sets' (Rs @ Rs')) ws L"
  by (erule list_all2_mono) (rule holds_work_mono)

text \<open>Opening a partition that waits and reading it.\<close>

lemma open_work:
  assumes T: "tape_spec T phase written rest" and ok: "sets_ok phase written n sets Rs" and w: "holds_work sets Rs w (rows, shift)"
  shows "\<exists>r s bs s'. spill_reader_open T (int (wk_partition w)) (sets ! wk_set w) = Inr (r, s) \<and>
    (\<forall>b \<in> set bs. block_wf n b) \<and> concat (map block_rows bs) = rows \<and>
    spill_loop T body r s acc = Some (rbind (run_blocks body bs acc) (\<lambda>(continue, acc). Inr (continue, acc, s'))) \<and>
    sets_ok phase written n (sets[wk_set w := s']) Rs \<and> ss_npartitions s' = ss_npartitions (sets ! wk_set w)"
proof -
  let ?k = "wk_set w" and ?p = "wk_partition w"
  have k: "?k < length sets" "?p < ss_npartitions (sets ! ?k)" "(Rs ! ?k) ?p = rows" using w by (simp_all add: holds_work_def)
  note st = sets_ok_nth [OF ok k(1)]
  obtain r s where r: "spill_reader_open T (int ?p) (sets ! ?k) = Inr (r, s)" "spill_stored phase written s (Rs ! ?k)"
    "ss_ncolumns s = n" "ss_npartitions s = ss_npartitions (sets ! ?k)"
    "reader_ok n r" "rd_partition r = ?p" "rd_eof r \<longleftrightarrow> (Rs ! ?k) ?p = []"
    "(Rs ! ?k) ?p \<noteq> [] \<longrightarrow> rest (ss_tapes s ! ?p) = written (ss_tapes s ! ?p)"
    using spill_open_stored [OF T conjunct1 [OF st] k(2)] st by auto
  have p: "?p < ss_npartitions s" "reader_ok (ss_ncolumns s) r" using k(2) r(3,4,5) by simp_all
  from spill_loop_stored [OF T r(2) p(1,2) r(6,7,8), of body acc] obtain bs s' where
    l: "\<forall>b \<in> set bs. block_wf n b" "concat (map block_rows bs) = rows"
    "spill_loop T body r s acc = Some (rbind (run_blocks body bs acc) (\<lambda>(continue, acc). Inr (continue, acc, s')))"
    "spill_stored phase written s' (Rs ! ?k)" "same_config s s'"
    unfolding k(3) r(3) by blast
  have cfg: "ss_ncolumns s' = n" "ss_npartitions s' = ss_npartitions (sets ! ?k)" using l(5) r(3,4) by (simp_all add: same_config_def)
  show ?thesis
    using l(1-3) r(1) cfg(2) sets_ok_update [OF ok k(1) l(4) cfg(1)] by blast
qed

lemma load_spill_groups_ok:
  assumes T: "tape_spec T phase written rest" and ok: "sets_ok phase written (length (as_inputs st)) (as_spill_sets st) Rs"
    and w: "holds_work (as_spill_sets st) Rs w (rows, shift)"
    and n: "as_group_input st < length (as_inputs st)" and len: "length rows < 2 ^ 32"
  shows "\<exists>going groups s. load_spill_groups T mur st w = Some (Inr (going, groups, s)) \<and> load_inv st rows (going, groups) \<and>
    sets_ok phase written (length (as_inputs st)) ((as_spill_sets st)[wk_set w := s]) Rs \<and>
    ss_npartitions s = ss_npartitions (as_spill_sets st ! wk_set w)"
proof -
  obtain r s bs s' where r: "spill_reader_open T (int (wk_partition w)) (as_spill_sets st ! wk_set w) = Inr (r, s)"
    "\<forall>b \<in> set bs. block_wf (length (as_inputs st)) b" "concat (map block_rows bs) = rows"
    "spill_loop T (load_spill_block mur st) r s [] =
       Some (rbind (run_blocks (load_spill_block mur st) bs []) (\<lambda>(continue, acc). Inr (continue, acc, s')))"
    "sets_ok phase written (length (as_inputs st)) ((as_spill_sets st)[wk_set w := s']) Rs"
    "ss_npartitions s' = ss_npartitions (as_spill_sets st ! wk_set w)"
    using open_work [OF T ok w, of "load_spill_block mur st" "[]"] by (elim exE conjE)
  have "load_inv st [] (True, [])" by (simp add: load_inv_def)
  from load_blocks_ok [OF n this r(2), of mur] r(3) len obtain going groups where
    "run_blocks (load_spill_block mur st) bs [] = Inr (going, groups)" "load_inv st rows (going, groups)" by auto
  then show ?thesis using r by (auto simp: load_spill_groups_def)
qed


lemma append_child_work_eq:
  "np \<le> ss_npartitions s \<Longrightarrow> append_child_work k s shift np st =
     Inr (st\<lparr>as_spill_work := as_spill_work st @ map (\<lambda>p. \<lparr>wk_set = k, wk_partition = p, wk_hash_shift = shift\<rparr>)
       (filter (\<lambda>p. ss_partition_rows s ! p \<noteq> 0) [0..<np])\<rparr>)"
proof (induction np)
  case (Suc np)
  then show ?case
    by (simp add: append_child_work_def rfold_snoc spill_partition_empty_def validate_partition_def rbind_require append_spill_work_def)
qed (simp add: append_child_work_def)

lemma stored_partition_rows:
  "spill_stored phase written s R \<Longrightarrow> p < ss_npartitions s \<Longrightarrow> ss_partition_rows s ! p \<noteq> 0 \<longleftrightarrow> R p \<noteq> []"
  by (simp add: spill_stored_def stored_at_def)

text \<open>The work a finished set adds to the list.\<close>

definition set_work :: "(nat \<Rightarrow> row list) \<Rightarrow> nat \<Rightarrow> nat \<Rightarrow> (row list \<times> nat) list" where
  "set_work R shift np = map (\<lambda>p. (R p, shift)) (filter (\<lambda>p. R p \<noteq> []) [0..<np])"

lemma append_child_work_ok:
  assumes ok: "sets_ok phase written (length (as_inputs st)) (as_spill_sets st) Rs"
    and k: "k < length (as_spill_sets st)" "np \<le> ss_npartitions (as_spill_sets st ! k)"
    and L: "list_all2 (holds_work (as_spill_sets st) Rs) (as_spill_work st) L"
  shows "\<exists>works. append_child_work k (as_spill_sets st ! k) shift np st = Inr (st\<lparr>as_spill_work := works\<rparr>) \<and>
    works_hold phase written (st\<lparr>as_spill_work := works\<rparr>) (L @ set_work (Rs ! k) shift np)"
proof -
  let ?new = "map (\<lambda>p. \<lparr>wk_set = k, wk_partition = p, wk_hash_shift = shift\<rparr>) (filter (\<lambda>p. (Rs ! k) p \<noteq> []) [0..<np])"
  have st: "spill_stored phase written (as_spill_sets st ! k) (Rs ! k)" using sets_ok_nth [OF ok k(1)] by simp
  have "filter (\<lambda>p. ss_partition_rows (as_spill_sets st ! k) ! p \<noteq> 0) [0..<np] = filter (\<lambda>p. (Rs ! k) p \<noteq> []) [0..<np]"
    using stored_partition_rows [OF st] k(2) by (intro filter_cong) auto
  then have "append_child_work k (as_spill_sets st ! k) shift np st = Inr (st\<lparr>as_spill_work := as_spill_work st @ ?new\<rparr>)"
    by (simp only: append_child_work_eq [OF k(2)])
  moreover have "list_all2 (holds_work (as_spill_sets st) Rs) ?new (set_work (Rs ! k) shift np)"
    using k by (auto simp: set_work_def list_all2_conv_all_nth holds_work_def dest!: nth_mem)
  ultimately show ?thesis
    using ok L by (intro exI [of _ "as_spill_work st @ ?new"]) (auto simp: works_hold_def intro!: exI [of _ Rs] list_all2_appendI)
qed

lemma spill_finish_total: "spill_inv phase written s R \<Longrightarrow> \<exists>s'. spill_finish T True s = Inr s'"
  by (simp add: spill_finish_def spill_inv_def spill_shape_def)

lemma repartition_spill_ok:
  assumes T: "tape_spec T phase written rest" and ok: "sets_ok phase written (length (as_inputs st)) (as_spill_sets st) Rs"
    and w: "holds_work (as_spill_sets st) Rs w (rows, shift)" and L: "list_all2 (holds_work (as_spill_sets st) Rs) (as_spill_work st) L"
    and n: "0 < length (as_inputs st)" "length (as_inputs st) < 65536" and shift: "shift < 32" and bits: "bits = min 5 (32 - shift)"
  shows "\<exists>st'. repartition_spill T w st = Some (Inr st') \<and> same_setup st st' \<and> as_group_seq st' = as_group_seq st \<and>
    as_input_done st' = as_input_done st \<and>
    works_hold phase written st' (L @ set_work (\<lambda>p. filter (\<lambda>r. split_part shift bits r = p) rows) (shift + bits) (2 ^ bits))"
proof -
  let ?n = "length (as_inputs st)" and ?R = "\<lambda>rows p. filter (\<lambda>r. split_part shift bits r = p) rows"
  let ?sets = "as_spill_sets st"
  have b5: "bits \<le> 5" using bits by simp
  obtain child where c: "spill_create T (Some ()) (Some (spill_desc ?n)) (int ?n) (int (2 ^ bits)) (as_spill_buffer_limit st) = Inr child"
    "spill_inv phase written child (\<lambda>_. [])" "no_full child" "ss_ncolumns child = ?n" "ss_npartitions child = 2 ^ bits"
    using spill_desc_create [OF T n, of "2 ^ bits" "as_spill_buffer_limit st"] by auto
  obtain r s bs s' where r: "spill_reader_open T (int (wk_partition w)) (?sets ! wk_set w) = Inr (r, s)"
    "\<forall>b \<in> set bs. block_wf ?n b" "concat (map block_rows bs) = rows"
    "spill_loop T (repartition_block T ?n shift (2 ^ bits)) r s child =
       Some (rbind (run_blocks (repartition_block T ?n shift (2 ^ bits)) bs child) (\<lambda>(continue, acc). Inr (continue, acc, s')))"
    "sets_ok phase written ?n (?sets[wk_set w := s']) Rs" "ss_npartitions s' = ss_npartitions (?sets ! wk_set w)"
    using open_work [OF T ok w, of "repartition_block T ?n shift (2 ^ bits)" child] by (elim exE conjE)
  have "spill_inv phase written child (?R [])" using c(2) by simp
  from repartition_blocks_ok [OF T b5 this c(3,5,4) r(2)] r(3) obtain child1 where
    c1: "run_blocks (repartition_block T ?n shift (2 ^ bits)) bs child = Inr (True, child1)"
    "spill_inv phase written child1 (?R rows)" "same_config child child1" by auto
  obtain child2 where c2: "spill_finish T True child1 = Inr child2" using spill_finish_total [OF c1(2)] by blast
  have st2: "spill_stored phase written child2 (?R rows)" "ss_ncolumns child2 = ?n" "ss_npartitions child2 = 2 ^ bits"
    using spill_finish_stored [OF T c1(2) c2] c1(3) c(4,5) by (simp_all add: same_config_def)
  define st1 where "st1 = st\<lparr>as_spill_sets := ?sets[wk_set w := s'] @ [child2], as_spill_repartitions := as_spill_repartitions st + 1,
     as_spill_partitions := as_spill_partitions st + 2 ^ bits\<rparr>"
  have len: "length Rs = length ?sets" using ok by (simp add: sets_ok_def list_all2_lengthD)
  have ok1: "sets_ok phase written ?n (as_spill_sets st1) (Rs @ [?R rows])"
    using r(5) st2(1,2) by (simp add: st1_def sets_ok_def list_all2_appendI)
  have L1: "list_all2 (holds_work (as_spill_sets st1) (Rs @ [?R rows])) (as_spill_work st) L"
    by (rule holds_works_mono [OF L _ len]) (use r(6) w in \<open>auto simp: st1_def nth_append nth_list_update holds_work_def\<close>)
  have last: "as_spill_sets st1 ! length ?sets = child2" "(Rs @ [?R rows]) ! length ?sets = ?R rows"
    using len by (simp_all add: st1_def nth_append)
  obtain works where works: "append_child_work (length ?sets) child2 (shift + bits) (2 ^ bits) st1 = Inr (st1\<lparr>as_spill_work := works\<rparr>)"
    "works_hold phase written (st1\<lparr>as_spill_work := works\<rparr>) (L @ set_work (?R rows) (shift + bits) (2 ^ bits))"
    using append_child_work_ok [of phase written st1 "Rs @ [?R rows]" "length ?sets" "2 ^ bits" L "shift + bits"] ok1 L1 last st2(3)
    by (auto simp: st1_def)
  have sh: "wk_hash_shift w = shift" using w by (simp add: holds_work_def)
  have "repartition_spill T w st = Some (Inr (st1\<lparr>as_spill_work := works\<rparr>))"
    using shift c(1) r(1,4) c1(1) c2 works(1)
    by (simp add: repartition_spill_def sh Let_def bits [symmetric] st1_def)
  then show ?thesis using works(2) by (auto simp: st1_def same_setup_def)
qed

end
