(* ===== verification/Aggregate_Emit.thy ===== *)
theory Aggregate_Emit
  imports Aggregate_Work "HOL-Library.Multiset"
begin

text \<open>
  Returning the groups: first those of the table, then those of the partitions, each of
  which is loaded or split until it fits.
\<close>

section \<open>The groups of a list of rows\<close>

definition groups_of :: "nat \<Rightarrow> row list \<Rightarrow> (group_key \<times> row list) multiset" where
  "groups_of gi rows = image_mset (\<lambda>k. (k, group_rows gi rows k)) (mset_set (row_key gi ` set rows))"

lemma groups_of_Nil [simp]: "groups_of gi [] = {#}"
  by (simp add: groups_of_def)

text \<open>Rows can be split by anything the key determines.\<close>

definition decided_by_key :: "nat \<Rightarrow> row list \<Rightarrow> (row \<Rightarrow> 'a) \<Rightarrow> bool" where
  "decided_by_key gi rows f \<longleftrightarrow> (\<forall>r \<in> set rows. \<forall>r' \<in> set rows. row_key gi r = row_key gi r' \<longrightarrow> f r = f r')"

lemma decided_by_keyD: "decided_by_key gi rows f \<Longrightarrow> r \<in> set rows \<Longrightarrow> r' \<in> set rows \<Longrightarrow> row_key gi r = row_key gi r' \<Longrightarrow> f r = f r'"
  unfolding decided_by_key_def by blast

lemma decided_by_key_comp:
  assumes d: "decided_by_key gi rows f"
  shows "decided_by_key gi (filter Q rows) (\<lambda>r. g (f r))"
  unfolding decided_by_key_def
proof (intro ballI impI)
  fix r r' assume "r \<in> set (filter Q rows)" "r' \<in> set (filter Q rows)" "row_key gi r = row_key gi r'"
  then have "f r = f r'" by (intro decided_by_keyD [OF d]) simp_all
  then show "g (f r) = g (f r')" by simp
qed

lemma group_rows_filter:
  assumes d: "decided_by_key gi rows P" and k: "k \<in> row_key gi ` set (filter P rows)"
  shows "group_rows gi (filter P rows) k = group_rows gi rows k"
proof -
  obtain r0 where r0: "r0 \<in> set rows" "P r0" "row_key gi r0 = k" using k by (auto simp del: split_paired_Ex)
  have "P r \<and> row_key gi r = k \<longleftrightarrow> row_key gi r = k" if "r \<in> set rows" for r
    using decided_by_keyD [OF d that r0(1)] r0(2,3) by auto
  then show ?thesis unfolding group_rows_def filter_filter by (intro filter_cong refl)
qed

lemma groups_of_filter:
  assumes d: "decided_by_key gi rows P"
  shows "groups_of gi rows = groups_of gi (filter P rows) + groups_of gi (filter (\<lambda>r. \<not> P r) rows)"
proof -
  let ?A = "row_key gi ` set (filter P rows)" and ?B = "row_key gi ` set (filter (\<lambda>r. \<not> P r) rows)"
  have d': "decided_by_key gi rows (\<lambda>r. \<not> P r)"
    using d unfolding decided_by_key_def by blast
  have "set rows = set (filter P rows) \<union> set (filter (\<lambda>r. \<not> P r) rows)" by auto
  then have "row_key gi ` set rows = ?A \<union> ?B" by (metis image_Un)
  moreover have "?A \<inter> ?B = {}"
  proof (rule equals0I)
    fix k assume "k \<in> ?A \<inter> ?B"
    then have "k \<in> ?A" "k \<in> ?B" by simp_all
    then obtain r r' where r: "r \<in> set (filter P rows)" "k = row_key gi r" "r' \<in> set (filter (\<lambda>r. \<not> P r) rows)" "k = row_key gi r'"
      by (elim imageE)
    then show False using decided_by_keyD [OF d, of r r'] by simp
  qed
  ultimately have keys: "mset_set (row_key gi ` set rows) = mset_set ?A + mset_set ?B"
    by (simp add: mset_set_Union)
  have A: "image_mset (\<lambda>k. (k, group_rows gi rows k)) (mset_set ?A) = groups_of gi (filter P rows)"
    unfolding groups_of_def using group_rows_filter [OF d] by (intro image_mset_cong) (simp del: set_filter)
  have B: "image_mset (\<lambda>k. (k, group_rows gi rows k)) (mset_set ?B) = groups_of gi (filter (\<lambda>r. \<not> P r) rows)"
    unfolding groups_of_def using group_rows_filter [OF d'] by (intro image_mset_cong) (simp del: set_filter)
  show ?thesis unfolding groups_of_def [of gi rows] keys image_mset_union A B ..
qed

lemma groups_of_split:
  assumes det: "decided_by_key gi rows (f :: row \<Rightarrow> nat)"
  shows "groups_of gi (filter (\<lambda>r. f r < n) rows) = (\<Sum>p<n. groups_of gi (filter (\<lambda>r. f r = p) rows))"
proof (induction n)
  case (Suc n)
  note groups_of_filter [OF decided_by_key_comp [OF det, of "\<lambda>r. f r < Suc n" "\<lambda>x. x < n"]]
  moreover have "filter (\<lambda>r. f r < n) (filter (\<lambda>r. f r < Suc n) rows) = filter (\<lambda>r. f r < n) rows"
    unfolding filter_filter by (rule filter_cong) auto
  moreover have "filter (\<lambda>r. \<not> f r < n) (filter (\<lambda>r. f r < Suc n) rows) = filter (\<lambda>r. f r = n) rows"
    unfolding filter_filter by (rule filter_cong) auto
  ultimately show ?case using Suc by simp
qed simp

definition work_groups :: "nat \<Rightarrow> (row list \<times> nat) list \<Rightarrow> (group_key \<times> row list) multiset" where
  "work_groups gi L = (\<Sum>(rows, shift) \<leftarrow> L. groups_of gi rows)"

definition work_measure :: "(row list \<times> nat) list \<Rightarrow> nat" where
  "work_measure L = (\<Sum>(rows, shift) \<leftarrow> L. length rows * (33 - shift))"

lemma sum_filter_upt:
  "(\<And>p. p < n \<Longrightarrow> \<not> Q p \<Longrightarrow> f p = (0 :: 'a :: comm_monoid_add)) \<Longrightarrow> sum_list (map f (filter Q [0..<n])) = (\<Sum>p<n. f p)"
  by (induction n) auto

lemma work_groups_append: "work_groups gi (L @ L') = work_groups gi L + work_groups gi L'"
  by (simp add: work_groups_def)

lemma work_measure_append: "work_measure (L @ L') = work_measure L + work_measure L'"
  by (simp add: work_measure_def)

lemma work_groups_set_work: "work_groups gi (set_work R shift n) = (\<Sum>p<n. groups_of gi (R p))"
proof -
  have "work_groups gi (set_work R shift n) = sum_list (map (\<lambda>p. groups_of gi (R p)) (filter (\<lambda>p. R p \<noteq> []) [0..<n]))"
    by (simp add: work_groups_def set_work_def comp_def)
  then show ?thesis using sum_filter_upt [of n "\<lambda>p. R p \<noteq> []" "\<lambda>p. groups_of gi (R p)"] by simp
qed

lemma work_measure_set_work: "work_measure (set_work R shift n) = (\<Sum>p<n. length (R p)) * (33 - shift)"
proof -
  have "work_measure (set_work R shift n) = sum_list (map (\<lambda>p. length (R p) * (33 - shift)) (filter (\<lambda>p. R p \<noteq> []) [0..<n]))"
    by (simp add: work_measure_def set_work_def comp_def)
  then show ?thesis
    using sum_filter_upt [of n "\<lambda>p. R p \<noteq> []" "\<lambda>p. length (R p) * (33 - shift)"] by (simp add: sum_distrib_right)
qed

lemma sum_length_filter:
  "(\<Sum>p<n. length (filter (\<lambda>r. f r = p) rows)) = length (filter (\<lambda>r. f r < (n :: nat)) rows)"
proof (induction n)
  case (Suc n)
  have "length (filter (\<lambda>r. f r < Suc n) rows) = length (filter (\<lambda>r. f r < n) rows) + length (filter (\<lambda>r. f r = n) rows)"
    by (induction rows) auto
  then show ?case using Suc by simp
qed simp

section \<open>Waiting rows\<close>

text \<open>The rows of a partition: their hash is that of their key, and they agree on the bits already used.\<close>

definition waiting_ok :: "hash32 \<Rightarrow> nat \<Rightarrow> row list \<times> nat \<Rightarrow> bool" where
  "waiting_ok mur gi = (\<lambda>(rows, shift). rows \<noteq> [] \<and> length rows < 2 ^ 32 \<and> shift \<le> 32 \<and>
     (\<forall>r \<in> set rows. fst r = ghash mur (snd r ! gi)) \<and> (\<exists>h. \<forall>r \<in> set rows. take_bit shift (fst r) = h))"

lemma take_bit_split:
  assumes "take_bit a x = take_bit a y" "take_bit b (drop_bit a x) = take_bit b (drop_bit a (y :: 32 word))"
  shows "take_bit (a + b) x = take_bit (a + b) y"
proof (rule bit_eqI)
  fix i
  show "bit (take_bit (a + b) x) i \<longleftrightarrow> bit (take_bit (a + b) y) i"
  proof (cases "i < a")
    case True
    then show ?thesis using arg_cong [OF assms(1), of "\<lambda>w. bit w i"] by (simp add: bit_take_bit_iff)
  next
    case False
    then show ?thesis
      using arg_cong [OF assms(2), of "\<lambda>w. bit w (i - a)"] by (auto simp: bit_take_bit_iff bit_drop_bit_eq)
  qed
qed

lemma waiting_keys:
  assumes "inj mur" "waiting_ok mur gi (rows, shift)" "32 \<le> shift"
  shows "card (row_key gi ` set rows) \<le> 2"
proof -
  obtain h where h: "\<forall>r \<in> set rows. take_bit shift (fst r) = h" using assms(2) unfolding waiting_ok_def by blast
  have "fst r = h" if "r \<in> set rows" for r
    using bspec [OF h that] assms(3) by (simp add: take_bit_word_eq_self)
  then have "\<forall>x \<in> (\<lambda>r. snd r ! gi) ` set rows. ghash mur x = h" using assms(2) by (auto simp: waiting_ok_def)
  from ghash_two [OF assms(1) this] have "card ((\<lambda>r. snd r ! gi) ` set rows) \<le> 2" by simp
  moreover have "row_key gi ` set rows = gkey ` (\<lambda>r. snd r ! gi) ` set rows" by (auto simp: row_key_def)
  ultimately show ?thesis by (metis (no_types, lifting) List.finite_set card_image_le finite_imageI le_trans)
qed

lemma split_part_key:
  assumes "waiting_ok mur gi (rows, shift)"
  shows "decided_by_key gi rows (split_part a b)"
proof -
  have h: "fst r = ghash mur (snd r ! gi)" if "r \<in> set rows" for r using assms that by (simp add: waiting_ok_def)
  show ?thesis
    unfolding decided_by_key_def by (intro ballI impI) (simp add: split_part_def h row_key_def)
qed

lemma waiting_split:
  assumes w: "waiting_ok mur gi (rows, shift)" and shift: "shift < 32" and bits: "bits = min 5 (32 - shift)"
  shows "\<forall>x \<in> set (set_work (\<lambda>p. filter (\<lambda>r. split_part shift bits r = p) rows) (shift + bits) (2 ^ bits)). waiting_ok mur gi x"
proof
  fix x assume "x \<in> set (set_work (\<lambda>p. filter (\<lambda>r. split_part shift bits r = p) rows) (shift + bits) (2 ^ bits))"
  then obtain p where x: "x = (filter (\<lambda>r. split_part shift bits r = p) rows, shift + bits)"
    "filter (\<lambda>r. split_part shift bits r = p) rows \<noteq> []"
    by (auto simp: set_work_def)
  obtain h where h: "\<forall>r \<in> set rows. take_bit shift (fst r) = h" using w unfolding waiting_ok_def by blast
  obtain r0 where r0: "r0 \<in> set rows" "split_part shift bits r0 = p" using x(2) by (auto simp: filter_empty_conv)
  have "take_bit (shift + bits) (fst r) = take_bit (shift + bits) (fst r0)" if "r \<in> set rows" "split_part shift bits r = p" for r
  proof -
    have "take_bit bits (drop_bit shift (fst r)) = take_bit bits (drop_bit shift (fst r0))"
      using that(2) r0(2) unfolding split_part_def word_unat_eq_iff by simp
    then show ?thesis using take_bit_split [of shift "fst r" "fst r0" bits] h that(1) r0(1) by simp
  qed
  then have "\<forall>r \<in> set (filter (\<lambda>r. split_part shift bits r = p) rows). take_bit (shift + bits) (fst r) = take_bit (shift + bits) (fst r0)"
    by simp
  moreover have "length (filter (\<lambda>r. split_part shift bits r = p) rows) < 2 ^ 32"
    using w unfolding waiting_ok_def prod.case by (intro le_less_trans [OF length_filter_le]) simp
  ultimately show "waiting_ok mur gi x"
    using w x bits shift unfolding waiting_ok_def x(1) prod.case by (intro conjI exI) auto
qed

lemma split_measure:
  assumes w: "waiting_ok mur gi (rows, shift)" and shift: "shift < 32" and bits: "bits = min 5 (32 - shift)"
  shows "work_measure (set_work (\<lambda>p. filter (\<lambda>r. split_part shift bits r = p) rows) (shift + bits) (2 ^ bits)) < length rows * (33 - shift)"
proof -
  have "work_measure (set_work (\<lambda>p. filter (\<lambda>r. split_part shift bits r = p) rows) (shift + bits) (2 ^ bits)) = length rows * (33 - (shift + bits))"
    by (simp add: work_measure_set_work sum_length_filter split_part_less)
  moreover have "33 - (shift + bits) < 33 - shift" "0 < length rows" using w shift bits by (auto simp: waiting_ok_def)
  ultimately show ?thesis by simp
qed

lemma split_groups:
  assumes w: "waiting_ok mur gi (rows, shift)"
  shows "work_groups gi (set_work (\<lambda>p. filter (\<lambda>r. split_part shift bits r = p) rows) sh (2 ^ bits)) = groups_of gi rows"
  using groups_of_split [OF split_part_key [OF w, of shift bits], of "2 ^ bits"] by (simp add: work_groups_set_work split_part_less)


section \<open>The next partition\<close>

definition emit_inv ::
  "('t \<Rightarrow> tape_phase) \<Rightarrow> ('t \<Rightarrow> byte list) \<Rightarrow> hash32 \<Rightarrow> 't agg_state \<Rightarrow> 't agg_state \<Rightarrow> (row list \<times> nat) list \<Rightarrow> bool" where
  "emit_inv phase written mur st0 st L \<longleftrightarrow> same_setup st0 st \<and> as_input_done st \<and> works_hold phase written st L \<and>
     (\<forall>x \<in> set L. waiting_ok mur (as_group_input st0) x)"

text \<open>A table that has every group of the rows.\<close>

definition table_of :: "'t agg_state \<Rightarrow> row list \<Rightarrow> group_entry list \<Rightarrow> bool" where
  "table_of st rows groups \<longleftrightarrow> groups_ok (as_group_input st) (as_has_count_star st) (as_inputs st) rows groups \<and>
     (\<forall>r \<in> set rows. in_table groups (as_group_input st) r)"

lemma same_setup_refl [simp]: "same_setup st st"
  by (simp add: same_setup_def)

lemma same_setup_trans: "same_setup st st' \<Longrightarrow> same_setup st' st'' \<Longrightarrow> same_setup st st''"
  by (simp add: same_setup_def)

lemma works_hold_Cons:
  assumes "works_hold phase written st ((rows, shift) # L)"
  shows "\<exists>Rs w ws. as_spill_work st = w # ws \<and> sets_ok phase written (length (as_inputs st)) (as_spill_sets st) Rs \<and>
    holds_work (as_spill_sets st) Rs w (rows, shift) \<and> list_all2 (holds_work (as_spill_sets st) Rs) ws L"
  using assms unfolding works_hold_def list_all2_Cons2 by blast

text \<open>One turn: the partition at the head of the list is loaded, or replaced by its parts.\<close>

lemma next_spill_work_ok:
  assumes T: "tape_spec T phase written rest" and mur: "inj mur" and inv: "emit_inv phase written mur st0 st ((rows, shift) # L)"
    and n: "as_group_input st0 < length (as_inputs st0)" "length (as_inputs st0) < 65536" "2 \<le> as_group_limit st0"
  shows "\<exists>w ws ready st' L'. as_spill_work st = w # ws \<and>
    next_spill_work T mur w (st\<lparr>as_spill_work := ws\<rparr>) = Some (Inr (ready, st')) \<and> emit_inv phase written mur st0 st' L' \<and>
    work_measure L' < work_measure ((rows, shift) # L) \<and>
    (if ready then table_of st0 rows (as_group_seq st') \<and> L' = L
     else as_group_seq st' = as_group_seq st \<and>
       work_groups (as_group_input st0) L' = work_groups (as_group_input st0) ((rows, shift) # L))"
proof -
  let ?gi = "as_group_input st0"
  have set: "same_setup st0 st" and inp: "as_input_done st" and wait: "waiting_ok mur ?gi (rows, shift)" "\<forall>x \<in> set L. waiting_ok mur ?gi x"
    using inv by (simp_all add: emit_inv_def)
  have cfg: "as_inputs st = as_inputs st0" "as_group_input st = ?gi" "as_group_limit st = as_group_limit st0"
    using set by (simp_all add: same_setup_def)
  obtain Rs w ws where w: "as_spill_work st = w # ws" "sets_ok phase written (length (as_inputs st)) (as_spill_sets st) Rs"
    "holds_work (as_spill_sets st) Rs w (rows, shift)" "list_all2 (holds_work (as_spill_sets st) Rs) ws L"
    using inv works_hold_Cons unfolding emit_inv_def by blast
  define st1 where "st1 = st\<lparr>as_spill_work := ws\<rparr>"
  have f1: "as_inputs st1 = as_inputs st0" "as_spill_sets st1 = as_spill_sets st" "as_group_input st1 = ?gi"
    "as_group_limit st1 = as_group_limit st0" "same_setup st0 st1"
    using cfg set by (simp_all add: st1_def same_setup_def)
  have ok1: "sets_ok phase written (length (as_inputs st1)) (as_spill_sets st1) Rs" using w(2) f1 cfg by simp
  have w1: "holds_work (as_spill_sets st1) Rs w (rows, shift)" using w(3) f1 by simp
  have n1: "as_group_input st1 < length (as_inputs st1)" using n(1) f1 by simp
  have len: "length rows < 2 ^ 32" using wait(1) by (simp add: waiting_ok_def)
  obtain going groups s where load: "load_spill_groups T mur st1 w = Some (Inr (going, groups, s))"
    "load_inv st1 rows (going, groups)"
    "sets_ok phase written (length (as_inputs st1)) ((as_spill_sets st1)[wk_set w := s]) Rs"
    "ss_npartitions s = ss_npartitions (as_spill_sets st1 ! wk_set w)"
    using load_spill_groups_ok [OF T ok1 w1 n1 len] by blast
  define st2 where "st2 = st1\<lparr>as_spill_sets := (as_spill_sets st1)[wk_set w := s]\<rparr>"
  have lenR: "length Rs = length (as_spill_sets st)" using w(2) by (simp add: sets_ok_def list_all2_lengthD)
  have np: "\<forall>k < length (as_spill_sets st). ss_npartitions (as_spill_sets st2 ! k) = ss_npartitions (as_spill_sets st ! k)"
    using load(4) w(3) f1(2) by (auto simp: st2_def nth_list_update holds_work_def)
  have ws2: "list_all2 (holds_work (as_spill_sets st2) Rs) ws L" and w2: "holds_work (as_spill_sets st2) Rs w (rows, shift)"
    using holds_works_mono [OF w(4) _ lenR np, of "[]"] holds_work_mono [OF w(3) _ lenR np, of "[]"] f1(2) by (simp_all add: st2_def)
  have f2: "same_setup st0 st2" "as_input_done st2" "as_group_seq st2 = as_group_seq st" "as_spill_work st2 = ws"
    "as_inputs st2 = as_inputs st0"
    using f1 inp by (simp_all add: st2_def st1_def same_setup_def)
  have ok2: "sets_ok phase written (length (as_inputs st2)) (as_spill_sets st2) Rs" using load(3) f1 f2 by (simp add: st2_def)
  have pos: "0 < length rows * (33 - shift)" using wait(1) by (simp add: waiting_ok_def)
  have next_eq: "next_spill_work T mur w st1 = (if going then Some (Inr (True, st2\<lparr>as_group_seq := groups\<rparr>))
      else map_option (\<lambda>res. rbind res (\<lambda>st. Inr (False, st))) (repartition_spill T w st2))"
    by (simp add: next_spill_work_def load(1) st2_def Let_def)
  show ?thesis
  proof (cases going)
    case True
    have "table_of st0 rows groups"
      using load(2) True f1(1,3,5) by (simp add: table_of_def load_inv_def same_setup_def)
    moreover have "emit_inv phase written mur st0 (st2\<lparr>as_group_seq := groups\<rparr>) L"
      using f2 ok2 ws2 wait(2) by (auto simp: emit_inv_def works_hold_def same_setup_def)
    ultimately show ?thesis
      using True next_eq w(1) pos unfolding st1_def
      by (intro exI [of _ w] exI [of _ ws] exI [of _ True] exI [of _ "st2\<lparr>as_group_seq := groups\<rparr>"] exI [of _ L])
        (simp add: work_measure_def)
  next
    case False
    have big: "2 < card (row_key ?gi ` set rows)" using load(2) False f1(3,4) n(3) by (simp add: load_inv_def)
    then have shift: "shift < 32" using waiting_keys [OF mur wait(1)] by linarith
    let ?bits = "min 5 (32 - shift)"
    let ?new = "set_work (\<lambda>p. filter (\<lambda>r. split_part shift ?bits r = p) rows) (shift + ?bits) (2 ^ ?bits)"
    have pos2: "0 < length (as_inputs st2)" "length (as_inputs st2) < 65536" using n f2(5) by auto
    obtain st3 where st3: "repartition_spill T w st2 = Some (Inr st3)" "same_setup st2 st3" "as_group_seq st3 = as_group_seq st2"
      "as_input_done st3 = as_input_done st2" "works_hold phase written st3 (L @ ?new)"
      using repartition_spill_ok [OF T ok2 w2 ws2 [folded f2(4)] pos2 shift refl] by blast
    have "emit_inv phase written mur st0 st3 (L @ ?new)"
      using st3 f2 wait(2) waiting_split [OF wait(1) shift refl] same_setup_trans [OF f2(1) st3(2)] by (auto simp: emit_inv_def)
    moreover have "work_measure (L @ ?new) < work_measure ((rows, shift) # L)"
      using split_measure [OF wait(1) shift refl] by (simp add: work_measure_append) (simp add: work_measure_def)
    moreover have "work_groups ?gi (L @ ?new) = work_groups ?gi ((rows, shift) # L)"
      using split_groups [OF wait(1)] by (simp add: work_groups_append) (simp add: work_groups_def)
    ultimately show ?thesis
      using False next_eq w(1) st3(1,3) f2(3) unfolding st1_def
      by (intro exI [of _ w] exI [of _ ws] exI [of _ False] exI [of _ st3] exI [of _ "L @ ?new"]) simp
  qed
qed


lemma works_hold_Nil: "works_hold phase written st [] \<Longrightarrow> as_spill_work st = []"
  by (auto simp: works_hold_def)

text \<open>The loop over the list of work returns, and finds a partition while one waits.\<close>

lemma prepare_next_ok:
  assumes T: "tape_spec T phase written rest" and mur: "inj mur"
    and n: "as_group_input st0 < length (as_inputs st0)" "length (as_inputs st0) < 65536" "2 \<le> as_group_limit st0"
  shows "emit_inv phase written mur st0 st L \<Longrightarrow>
    \<exists>ready st' L'. prepare_next_spill_partition T mur st = Some (Inr (ready, st')) \<and> emit_inv phase written mur st0 st' L' \<and>
      (if ready then \<exists>rows. rows \<noteq> [] \<and> table_of st0 rows (as_group_seq st') \<and> work_measure L' < work_measure L \<and>
           work_groups (as_group_input st0) L = groups_of (as_group_input st0) rows + work_groups (as_group_input st0) L'
       else work_groups (as_group_input st0) L = {#})"
proof (induction "work_measure L" arbitrary: st L rule: less_induct)
  case less
  let ?gi = "as_group_input st0"
  show ?case
  proof (cases L)
    case Nil
    then have "as_spill_work st = []" using less.prems works_hold_Nil by (auto simp: emit_inv_def)
    then have "prepare_next_spill_partition T mur st = Some (Inr (False, st))"
      by (subst prepare_next_spill_partition.simps) simp
    then show ?thesis using less.prems Nil by (intro exI [of _ False] exI [of _ st] exI [of _ L]) (simp add: work_groups_def)
  next
    case (Cons x L0)
    obtain rows shift where x: "x = (rows, shift)" by (cases x)
    obtain w ws ready st1 L1 where w: "as_spill_work st = w # ws"
      "next_spill_work T mur w (st\<lparr>as_spill_work := ws\<rparr>) = Some (Inr (ready, st1))"
      "emit_inv phase written mur st0 st1 L1" "work_measure L1 < work_measure L"
      "if ready then table_of st0 rows (as_group_seq st1) \<and> L1 = L0
       else as_group_seq st1 = as_group_seq st \<and> work_groups ?gi L1 = work_groups ?gi L"
      using next_spill_work_ok [OF T mur less.prems [unfolded Cons x] n] unfolding Cons x by (elim exE conjE)
    have step: "prepare_next_spill_partition T mur st =
        (if ready then Some (Inr (True, st1)) else prepare_next_spill_partition T mur st1)"
      by (subst prepare_next_spill_partition.simps) (simp add: w(1,2))
    show ?thesis
    proof (cases ready)
      case True
      have "rows \<noteq> []" using less.prems by (simp add: emit_inv_def Cons x waiting_ok_def)
      moreover have "work_groups ?gi L = groups_of ?gi rows + work_groups ?gi L1"
        using w(5) True by (simp add: work_groups_def Cons x)
      ultimately show ?thesis
        using True step w(3,4,5) by (intro exI [of _ True] exI [of _ st1] exI [of _ L1]) auto
    next
      case False
      then have same: "work_groups ?gi L1 = work_groups ?gi L" using w(5) by simp
      obtain ready' st' L' where IH: "prepare_next_spill_partition T mur st1 = Some (Inr (ready', st'))"
        "emit_inv phase written mur st0 st' L'"
        "if ready' then \<exists>rows. rows \<noteq> [] \<and> table_of st0 rows (as_group_seq st') \<and> work_measure L' < work_measure L1 \<and>
           work_groups ?gi L1 = groups_of ?gi rows + work_groups ?gi L'
         else work_groups ?gi L1 = {#}"
        using less.hyps [OF w(4,3)] by (elim exE conjE)
      show ?thesis
        using IH False step w(4) same
        by (intro exI [of _ ready'] exI [of _ st'] exI [of _ L']) (auto split: if_splits)
    qed
  qed
qed

section \<open>All groups\<close>

text \<open>The row an aggregate list returns for a group.\<close>

definition group_out :: "agg_spec list \<Rightarrow> group_key \<Rightarrow> row list \<Rightarrow> datum option list" where
  "group_out aggs k rows =
     map (\<lambda>agg. agg_datum (ag_kind agg) (input_values (nat (ag_input agg)) rows) (length rows) (key_of k)) aggs"

definition aggs_wf :: "'t agg_state \<Rightarrow> bool" where
  "aggs_wf st \<longleftrightarrow> (\<forall>agg \<in> set (as_aggs st).
     (ag_kind agg = AGG_COUNT_STAR \<longrightarrow> as_has_count_star st) \<and>
     (ag_kind agg \<noteq> AGG_COUNT_STAR \<and> ag_kind agg \<noteq> AGG_GROUP_KEY \<longrightarrow> nat (ag_input agg) < length (as_inputs st) \<and>
        has_flag (ai_flags (as_inputs st ! nat (ag_input agg))) (aggregate_flag (ag_kind agg))))"

lemma group_result_ok:
  assumes e: "entry_ok (as_has_count_star st) (as_inputs st) rows e" and wf: "aggs_wf st" and agg: "agg \<in> set (as_aggs st)"
  shows "visible (group_result e agg) = agg_datum (ag_kind agg) (input_values (nat (ag_input agg)) rows) (length rows) (key_of (ge_key e))"
proof (cases "ag_kind agg \<in> {AGG_COUNT_STAR, AGG_GROUP_KEY}")
  case True
  have "ag_kind agg = AGG_COUNT_STAR \<Longrightarrow> sint (ge_count_star e) = int (length rows)"
    using e wf agg by (auto simp: entry_ok_def aggs_wf_def)
  then show ?thesis
    using True word_of_sint [of "ge_count_star e" "int (length rows)"]
    by (auto simp: group_result_def visible_def Let_def key_of_def)
next
  case False
  let ?i = "nat (ag_input agg)"
  have i: "?i < length (as_inputs st)" "has_flag (ai_flags (as_inputs st ! ?i)) (aggregate_flag (ag_kind agg))"
    using wf agg False by (auto simp: aggs_wf_def)
  have "summarizes (ai_flags (as_inputs st ! ?i)) (input_values ?i rows) (ge_values e ! ?i)" using e i(1) by (simp add: entry_ok_def)
  from reduction_result [OF this i(2), of "length rows" "key_of (ge_key e)"] False show ?thesis
    by (auto simp: group_result_def visible_def Let_def split: agg_kind.splits if_splits)
qed

definition shown :: "'t agg_state \<Rightarrow> group_entry list \<Rightarrow> datum option list multiset" where
  "shown st groups = image_mset (\<lambda>e. map visible (store_group_result st e)) (mset groups)"

definition group_results :: "'t agg_state \<Rightarrow> (group_key \<times> row list) multiset \<Rightarrow> datum option list multiset" where
  "group_results st M = image_mset (\<lambda>(k, rows). group_out (as_aggs st) k rows) M"

lemma table_keys: "table_of st rows groups \<Longrightarrow> mset (map ge_key groups) = mset_set (row_key (as_group_input st) ` set rows)"
proof -
  assume t: "table_of st rows groups"
  have "distinct (map ge_key groups)" using t by (simp add: table_of_def groups_ok_def)
  moreover have "set (map ge_key groups) = row_key (as_group_input st) ` set rows"
    using t unfolding table_of_def groups_ok_def in_table_def by (auto simp del: split_paired_Ex)
  ultimately show ?thesis by (metis mset_set_set)
qed

lemma table_shown:
  assumes t: "table_of st rows groups" and wf: "aggs_wf st"
  shows "shown st groups = group_results st (groups_of (as_group_input st) rows)"
proof -
  let ?gi = "as_group_input st"
  have "map visible (store_group_result st e) = group_out (as_aggs st) (ge_key e) (group_rows ?gi rows (ge_key e))" if "e \<in> set groups" for e
  proof -
    have "entry_ok (as_has_count_star st) (as_inputs st) (group_rows ?gi rows (ge_key e)) e"
      using t that by (simp add: table_of_def groups_ok_def)
    from group_result_ok [OF this wf] show ?thesis by (simp add: store_group_result_def group_out_def)
  qed
  then have "shown st groups = image_mset (\<lambda>e. group_out (as_aggs st) (ge_key e) (group_rows ?gi rows (ge_key e))) (mset groups)"
    unfolding shown_def by (intro image_mset_cong) simp
  also have "\<dots> = image_mset (\<lambda>k. group_out (as_aggs st) k (group_rows ?gi rows k)) (mset (map ge_key groups))"
    by (simp add: image_mset.compositionality comp_def)
  finally show ?thesis by (simp only: table_keys [OF t]) (simp add: group_results_def groups_of_def image_mset.compositionality comp_def)
qed

lemma shown_setup: "same_setup st st' \<Longrightarrow> shown st' = shown st"
  by (simp add: shown_def store_group_result_def fun_eq_iff same_setup_def)

lemma emit_inv_seq: "emit_inv phase written mur st0 st L \<Longrightarrow> emit_inv phase written mur st0 (st\<lparr>as_group_seq := es\<rparr>) L"
  by (auto simp: emit_inv_def works_hold_def same_setup_def)

lemma agg_all_emit:
  assumes T: "tape_spec T phase written rest" and mur: "inj mur" and g: "as_grouped st0" and wf: "aggs_wf st0"
    and n: "as_group_input st0 < length (as_inputs st0)" "length (as_inputs st0) < 65536" "2 \<le> as_group_limit st0"
  shows "emit_inv phase written mur st0 st L \<Longrightarrow>
    \<exists>rows st'. agg_all T mur st = Some (Inr (rows, st')) \<and>
      mset (map (map visible) rows) = shown st0 (as_group_seq st) + group_results st0 (work_groups (as_group_input st0) L)"
proof (induction "work_measure L" arbitrary: st L rule: less_induct)
  case less
  let ?gi = "as_group_input st0"
  show ?case
    using less.prems
  proof (induction "as_group_seq st" arbitrary: st)
    case (Cons e es)
    have set: "as_input_done st" "as_grouped st" "store_group_result st e = store_group_result st0 e"
      using Cons.prems g by (simp_all add: emit_inv_def same_setup_def store_group_result_def)
    let ?st = "st\<lparr>as_group_seq := es\<rparr>"
    have seq: "as_group_seq st = e # es" using Cons.hyps(2) by simp
    have exec: "agg_exec T mur st = Some (Inr (Some (store_group_result st0 e), ?st))"
      using set seq by (simp add: agg_exec_def agg_exec_grouped_def) (subst emit_group.simps, simp add: seq)
    obtain rows st' where "agg_all T mur ?st = Some (Inr (rows, st'))"
      "mset (map (map visible) rows) = shown st0 es + group_results st0 (work_groups ?gi L)"
      using Cons.hyps(1) [of ?st] emit_inv_seq [OF Cons.prems] by auto
    then show ?case
      by (intro exI [of _ "store_group_result st0 e # rows"] exI [of _ st'], subst agg_all.simps)
        (simp add: exec seq shown_def)
  next
    case Nil
    have set: "as_input_done st" "as_grouped st" using Nil.prems g by (simp_all add: emit_inv_def same_setup_def)
    have seq: "as_group_seq st = []" using Nil.hyps by simp
    obtain ready st1 L1 where p: "prepare_next_spill_partition T mur st = Some (Inr (ready, st1))" "emit_inv phase written mur st0 st1 L1"
      "if ready then \<exists>rows. rows \<noteq> [] \<and> table_of st0 rows (as_group_seq st1) \<and> work_measure L1 < work_measure L \<and>
           work_groups ?gi L = groups_of ?gi rows + work_groups ?gi L1
       else work_groups ?gi L = {#}"
      using prepare_next_ok [OF T mur n Nil.prems] by (elim exE conjE)
    have "emit_group T mur st = (if \<not> ready then Some (Inr (None, st1)) else emit_group T mur st1)"
      by (subst emit_group.simps) (simp add: seq p(1))
    then have exec: "agg_exec T mur st = (if \<not> ready then Some (Inr (None, st1)) else emit_group T mur st1)"
      using set by (simp add: agg_exec_def agg_exec_grouped_def)
    show ?case
    proof (cases ready)
      case False
      then have "agg_all T mur st = Some (Inr ([], st1))" using exec by (subst agg_all.simps) simp
      then show ?thesis using p(3) False by (simp add: seq shown_def group_results_def)
    next
      case True
      then obtain rows where rows: "rows \<noteq> []" "table_of st0 rows (as_group_seq st1)" "work_measure L1 < work_measure L"
        "work_groups ?gi L = groups_of ?gi rows + work_groups ?gi L1"
        using p(3) by auto
      have set1: "as_input_done st1" "as_grouped st1" using p(2) g by (simp_all add: emit_inv_def same_setup_def)
      have "agg_exec T mur st1 = emit_group T mur st1" using set1 by (simp add: agg_exec_def agg_exec_grouped_def)
      then have "agg_all T mur st = agg_all T mur st1" using exec True by (subst (1 2) agg_all.simps) simp
      moreover obtain out st' where "agg_all T mur st1 = Some (Inr (out, st'))"
        "mset (map (map visible) out) = shown st0 (as_group_seq st1) + group_results st0 (work_groups ?gi L1)"
        using less.hyps [OF rows(3) p(2)] by blast
      ultimately show ?thesis
        using rows(4) table_shown [OF rows(2) wf] by (simp add: seq shown_def group_results_def)
    qed
  qed
qed

end
