(* ===== verification/Aggregate_Props.thy ===== *)
theory Aggregate_Props
  imports Aggregate_Emit
begin

text \<open>
  Grouped aggregation as a whole: the rows it returns are the groups of the input.
\<close>

section \<open>The end of the input\<close>

definition row_hashed :: "hash32 \<Rightarrow> nat \<Rightarrow> row \<Rightarrow> bool" where
  "row_hashed mur gi r \<longleftrightarrow> fst r = ghash mur (snd r ! gi)"

lemma hash_part_take_bit: "hash_part r = hash_part r' \<Longrightarrow> take_bit 5 (fst r) = take_bit 5 (fst r')"
proof -
  have "fst r AND 31 = take_bit 5 (fst r)" for r :: row by (simp add: take_bit_eq_mask mask_eq_exp_minus_1)
  then show "hash_part r = hash_part r' \<Longrightarrow> take_bit 5 (fst r) = take_bit 5 (fst r')"
    unfolding hash_part_def word_unat_eq_iff by simp
qed

lemma spilled_waiting:
  assumes "\<forall>r \<in> set rows. row_hashed mur gi r" "length rows < 2 ^ 32"
  shows "\<forall>x \<in> set (set_work (spilled_rows groups gi rows) 5 32). waiting_ok mur gi x"
proof
  fix x assume "x \<in> set (set_work (spilled_rows groups gi rows) 5 32)"
  then obtain p where x: "x = (spilled_rows groups gi rows p, 5)" "spilled_rows groups gi rows p \<noteq> []"
    by (auto simp: set_work_def)
  obtain r0 where r0: "r0 \<in> set (spilled_rows groups gi rows p)" using x(2) by (meson list.set_sel(1))
  have "take_bit 5 (fst r) = take_bit 5 (fst r0)" if "r \<in> set (spilled_rows groups gi rows p)" for r
    using hash_part_take_bit [of r r0] that r0 by (simp add: spilled_rows_def)
  moreover have "\<forall>r \<in> set (spilled_rows groups gi rows p). fst r = ghash mur (snd r ! gi)"
    using assms(1) by (simp add: spilled_rows_def row_hashed_def)
  moreover have "length (spilled_rows groups gi rows p) < 2 ^ 32"
    unfolding spilled_rows_def by (rule le_less_trans [OF length_filter_le assms(2)])
  ultimately show "waiting_ok mur gi x" using x unfolding waiting_ok_def by auto
qed

lemma decided_by_hash:
  assumes "\<forall>r \<in> set rows. row_hashed mur gi r"
  shows "decided_by_key gi rows hash_part"
  unfolding decided_by_key_def
proof (intro ballI impI)
  fix r r' assume "r \<in> set rows" "r' \<in> set rows" "row_key gi r = row_key gi r'"
  then show "hash_part r = hash_part r'" using assms by (simp add: hash_part_def row_hashed_def row_key_def)
qed

lemma decided_in_table: "decided_by_key gi rows (in_table groups gi)"
  by (simp add: decided_by_key_def in_table_def)

text \<open>The rows are those of the table and those of the partitions.\<close>

lemma groups_of_table_and_spill:
  assumes h: "\<forall>r \<in> set rows. row_hashed mur gi r"
  shows "groups_of gi rows = groups_of gi (filter (in_table groups gi) rows) + work_groups gi (set_work (spilled_rows groups gi rows) 5 32)"
proof -
  let ?out = "filter (\<lambda>r. \<not> in_table groups gi r) rows"
  have "\<forall>r \<in> set ?out. row_hashed mur gi r" using h by simp
  from groups_of_split [OF decided_by_hash [OF this], of 32]
  have "groups_of gi ?out = (\<Sum>p<32. groups_of gi (filter (\<lambda>r. hash_part r = p) ?out))" by (simp add: hash_part_less)
  also have "\<dots> = work_groups gi (set_work (spilled_rows groups gi rows) 5 32)"
    unfolding work_groups_set_work spilled_rows_def filter_filter by (simp add: conj_commute)
  finally show ?thesis using groups_of_filter [OF decided_in_table] by metis
qed

lemma table_of_main:
  assumes ok: "groups_ok (as_group_input st) (as_has_count_star st) (as_inputs st) rows groups"
  shows "table_of st (filter (in_table groups (as_group_input st)) rows) groups"
proof -
  let ?gi = "as_group_input st"
  have "group_rows ?gi (filter (in_table groups ?gi) rows) (ge_key e) = group_rows ?gi rows (ge_key e)" if "e \<in> set groups" for e
    unfolding group_rows_def filter_filter using that by (intro filter_cong) (auto simp: in_table_def)
  moreover have "ge_key ` set groups \<subseteq> row_key ?gi ` set (filter (in_table groups ?gi) rows)"
  proof
    fix k assume k: "k \<in> ge_key ` set groups"
    then obtain r where "r \<in> set rows" "k = row_key ?gi r" using ok unfolding groups_ok_def by blast
    then show "k \<in> row_key ?gi ` set (filter (in_table groups ?gi) rows)" using k by (simp add: in_table_def)
  qed
  ultimately show ?thesis using ok by (simp add: table_of_def groups_ok_def)
qed

lemma finish_group_input_ok:
  assumes T: "tape_spec T phase written rest" and inv: "grouped_inv phase written st0 rows st"
    and h: "\<forall>r \<in> set rows. row_hashed mur (as_group_input st0) r" "length rows < 2 ^ 32"
  shows "\<exists>st' L. finish_group_input T st = Inr st' \<and> emit_inv phase written mur st0 st' L \<and> as_group_seq st' = as_main_groups st \<and>
    work_groups (as_group_input st0) L =
      work_groups (as_group_input st0) (set_work (spilled_rows (as_main_groups st) (as_group_input st0) rows) 5 32)"
proof -
  let ?gi = "as_group_input st0" and ?main = "as_main_groups st"
  define st1 where "st1 = st\<lparr>as_input_done := True\<rparr>"
  have set: "same_setup st0 st" and res: "\<not> as_spilling st \<longrightarrow> (\<forall>r \<in> set rows. in_table ?main ?gi r)" and work: "as_spill_work st = []"
    and ini: "initial_ok phase written (length (as_inputs st0)) (spilled_rows ?main ?gi rows) st"
    using inv by (simp_all add: grouped_inv_def)
  have inputs: "as_inputs st = as_inputs st0" using set by (simp add: same_setup_def)
  show ?thesis
  proof (cases "as_initial_spill st")
    case None
    then have sp: "\<not> as_spilling st" "as_spill_sets st = []" using ini by (simp_all add: initial_ok_def)
    have "finish_group_input T st = Inr (st1\<lparr>as_group_seq := ?main\<rparr>)"
      using None by (simp add: finish_group_input_def st1_def Let_def)
    moreover have "emit_inv phase written mur st0 (st1\<lparr>as_group_seq := ?main\<rparr>) []"
      using set sp work by (simp add: emit_inv_def works_hold_def st1_def same_setup_def sets_ok_def)
    moreover have "set_work (spilled_rows ?main ?gi rows) 5 32 = []"
      using res sp(1) spilled_rows_none [of rows ?main ?gi] by (simp add: set_work_def)
    ultimately show ?thesis by (intro exI [of _ "st1\<lparr>as_group_seq := ?main\<rparr>"] exI [of _ "[]"]) simp
  next
    case (Some k)
    then obtain s where s: "k = 0" "as_spill_sets st = [s]" "spill_inv phase written s (spilled_rows ?main ?gi rows)"
      "ss_ncolumns s = length (as_inputs st0)" "ss_npartitions s = 32"
      using ini by (auto simp: initial_ok_def)
    obtain s' where s': "spill_finish T True s = Inr s'" using spill_finish_total [OF s(3)] by blast
    have st': "spill_stored phase written s' (spilled_rows ?main ?gi rows)" "ss_ncolumns s' = length (as_inputs st0)" "ss_npartitions s' = 32"
      using spill_finish_stored [OF T s(3) s'] s(4,5) by simp_all
    define st2 where "st2 = st1\<lparr>as_spill_sets := [s']\<rparr>"
    have f2: "as_spill_sets st2 = [s']" "as_inputs st2 = as_inputs st0" "as_spill_work st2 = []" "same_setup st0 st2" "as_input_done st2"
      "as_main_groups st2 = ?main"
      using set work inputs by (simp_all add: st2_def st1_def same_setup_def)
    have "sets_ok phase written (length (as_inputs st2)) (as_spill_sets st2) [spilled_rows ?main ?gi rows]"
      using st' f2 by (simp add: sets_ok_def)
    from append_child_work_ok [OF this, of 0 32 "[]" 5] f2(1,3) st'(3) obtain works where
      works: "append_child_work 0 s' 5 32 st2 = Inr (st2\<lparr>as_spill_work := works\<rparr>)"
      "works_hold phase written (st2\<lparr>as_spill_work := works\<rparr>) (set_work (spilled_rows ?main ?gi rows) 5 32)" by auto
    let ?st = "st2\<lparr>as_spill_work := works, as_group_seq := ?main\<rparr>"
    have "finish_group_input T st = Inr ?st"
      using Some s(1,2) s' works(1) f2(6) by (simp add: finish_group_input_def Let_def st2_def st1_def)
    moreover have "emit_inv phase written mur st0 (st2\<lparr>as_spill_work := works\<rparr>) (set_work (spilled_rows ?main ?gi rows) 5 32)"
      using works(2) f2(4,5) spilled_waiting [OF h] by (simp add: emit_inv_def same_setup_def)
    from emit_inv_seq [OF this, of ?main]
    have "emit_inv phase written mur st0 ?st (set_work (spilled_rows ?main ?gi rows) 5 32)" .
    ultimately show ?thesis by (intro exI [of _ ?st]) auto
  qed
qed

section \<open>The result\<close>

text \<open>The selected rows of the input, each a value per column.\<close>

definition input_table :: "probe_batch list \<Rightarrow> (nat \<Rightarrow> int4 option) list" where
  "input_table batches =
     concat (map (\<lambda>b. map (\<lambda>i column. vec_get (pb_columns b ! column) i) (selected (pb_selection b))) batches)"

text \<open>\<open>GROUP BY\<close>: for every value of the key column the aggregates of its rows.\<close>

definition grouped_result :: "(agg_kind \<times> int) list \<Rightarrow> nat \<Rightarrow> (nat \<Rightarrow> int4 option) list \<Rightarrow> datum option list multiset" where
  "grouped_result specs key table =
     image_mset (\<lambda>k. let rows = filter (\<lambda>r. r key = k) table
         in map (\<lambda>(kind, column). agg_datum kind (List.map_filter (\<lambda>r. r (nat column)) rows) (length rows) k) specs)
       (mset (remdups (map (\<lambda>r. r key) table)))"

definition input_row :: "hash32 \<Rightarrow> agg_input list \<Rightarrow> nat \<Rightarrow> (nat \<Rightarrow> int4 option) \<Rightarrow> row" where
  "input_row mur inputs key r = (ghash mur (r key), map (\<lambda>input. r (ai_column input)) inputs)"

lemma batch_rows_table:
  assumes "as_group_input st < length (as_inputs st)" "key = ai_column (as_inputs st ! as_group_input st)"
  shows "concat (map (batch_rows mur st) batches) = map (input_row mur (as_inputs st) key) (input_table batches)"
  using assms
  by (induction batches) (simp_all add: batch_rows_def input_table_def input_row_def vector_row_def load_group_vectors_def comp_def)

lemma input_values_table:
  "i < length inputs \<Longrightarrow> input_values i (map (input_row mur inputs key) rows) = List.map_filter (\<lambda>r. r (ai_column (inputs ! i))) rows"
  by (simp add: input_values_def input_row_def List.map_filter_def comp_def filter_map)

lemma grouped_result_table:
  assumes ok: "list_all2 (agg_ok st) specs (as_aggs st)" and gi: "as_group_input st < length (as_inputs st)"
    and key: "key = ai_column (as_inputs st ! as_group_input st)"
  shows "group_results st (groups_of (as_group_input st) (map (input_row mur (as_inputs st) key) table)) = grouped_result specs key table"
proof -
  let ?gi = "as_group_input st" and ?row = "input_row mur (as_inputs st) key"
  have k: "row_key ?gi (?row r) = gkey (r key)" for r using gi key by (simp add: row_key_def input_row_def)
  have rows: "group_rows ?gi (map ?row table) (gkey x) = map ?row (filter (\<lambda>r. r key = x) table)" for x
    by (simp add: group_rows_def filter_map comp_def k)
  have out: "group_out (as_aggs st) (gkey x) (map ?row g) =
      map (\<lambda>(kind, column). agg_datum kind (List.map_filter (\<lambda>r. r (nat column)) g) (length g) x) specs" for x g
    unfolding group_out_def
  proof (rule nth_equalityI)
    fix i assume "i < length (map (\<lambda>agg. agg_datum (ag_kind agg) (input_values (nat (ag_input agg)) (map ?row g)) (length (map ?row g)) (key_of (gkey x))) (as_aggs st))"
    then have i: "i < length specs" "i < length (as_aggs st)" "agg_ok st (specs ! i) (as_aggs st ! i)"
      using ok by (auto simp: list_all2_conv_all_nth)
    obtain kind column where s: "specs ! i = (kind, column)" by (cases "specs ! i")
    have agg: "ag_kind (as_aggs st ! i) = kind" using i(3) by (simp add: agg_ok_def s)
    have "agg_datum kind (input_values (nat (ag_input (as_aggs st ! i))) (map ?row g)) (length g) x =
        agg_datum kind (List.map_filter (\<lambda>r. r (nat column)) g) (length g) x"
    proof (cases "kind \<in> {AGG_COUNT_STAR, AGG_GROUP_KEY}")
      case False
      then have "nat (ag_input (as_aggs st ! i)) < length (as_inputs st)"
        "ai_column (as_inputs st ! nat (ag_input (as_aggs st ! i))) = nat column"
        using i(3) by (auto simp: agg_ok_def s)
      then show ?thesis by (simp add: input_values_table)
    qed auto
    then show "map (\<lambda>agg. agg_datum (ag_kind agg) (input_values (nat (ag_input agg)) (map ?row g)) (length (map ?row g)) (key_of (gkey x))) (as_aggs st) ! i =
        map (\<lambda>(kind, column). agg_datum kind (List.map_filter (\<lambda>r. r (nat column)) g) (length g) x) specs ! i"
      using i(1,2) by (simp add: s agg)
  qed (use ok in \<open>simp add: list_all2_lengthD\<close>)
  have "row_key ?gi ` set (map ?row table) = gkey ` set (map (\<lambda>r. r key) table)" by (simp add: image_image k)
  moreover have "inj_on gkey A" for A by (simp add: inj_on_def)
  ultimately have "mset_set (row_key ?gi ` set (map ?row table)) = image_mset gkey (mset (remdups (map (\<lambda>r. r key) table)))"
    by (metis image_mset_mset_set mset_set_set distinct_remdups set_remdups)
  then show ?thesis
    by (simp add: group_results_def groups_of_def image_mset.compositionality comp_def rows out grouped_result_def Let_def)
qed


lemma agg_begin_wf:
  assumes "aggs_ok st specs"
  shows "aggs_wf st"
proof -
  have "(ag_kind agg = AGG_COUNT_STAR \<longrightarrow> as_has_count_star st) \<and>
     (ag_kind agg \<noteq> AGG_COUNT_STAR \<and> ag_kind agg \<noteq> AGG_GROUP_KEY \<longrightarrow> nat (ag_input agg) < length (as_inputs st) \<and>
        has_flag (ai_flags (as_inputs st ! nat (ag_input agg))) (aggregate_flag (ag_kind agg)))" if a: "agg \<in> set (as_aggs st)" for agg
  proof -
    obtain i where "i < length (as_aggs st)" "as_aggs st ! i = agg" using a by (auto simp: in_set_conv_nth)
    then have "agg_ok st (specs ! i) agg" using assms by (auto simp: aggs_ok_def list_all2_conv_all_nth)
    then show ?thesis by (auto simp: agg_ok_def split: prod.splits if_splits)
  qed
  then show ?thesis by (simp add: aggs_wf_def)
qed

definition group_batch_ok :: "probe_batch \<Rightarrow> bool" where
  "group_batch_ok batch \<longleftrightarrow> sel_wf (pb_selection batch) \<and> 0 < sel_nrows (pb_selection batch) \<and> sel_nrows (pb_selection batch) \<le> 64"

lemma length_input_table: "length (input_table batches) = selected_rows batches"
  by (induction batches) (simp_all add: input_table_def selected_rows_def)

text \<open>
  C4. Grouped aggregation is \<open>GROUP BY\<close>: for a hash without collisions, a memory limit that
  leaves room for at least two groups, and fewer than \<open>2 ^ 32\<close> rows in batches of at most
  64, the node always returns one row for every value of the key column, NULL included,
  with the aggregates of its rows, however many groups do not fit into memory and however
  often their partitions are split.
\<close>

theorem grouped_aggregate_correct:
  fixes T :: "'t tape_ops"
  assumes "tape_spec T phase written rest" "inj mur"
    and "agg_begin hash_memory batches specs = Inr (st :: 't agg_state)" "(AGG_GROUP_KEY, key) \<in> set specs"
    and "2 \<le> as_group_limit st" "length specs < 65536"
    and "\<forall>batch \<in> set batches. group_batch_ok batch" "selected_rows batches < 2 ^ 32"
  shows "\<exists>rows st'. agg_all T mur st = Some (Inr (rows, st')) \<and>
    mset (map (map visible) rows) = grouped_result specs (nat key) (input_table batches)"
proof -
  let ?gi = "as_group_input st"
  have ok: "aggs_ok st specs" "fresh batches st" using agg_begin_ok [OF assms(3)] by simp_all
  have aggs: "list_all2 (agg_ok st) specs (as_aggs st)" using ok(1) by (simp add: aggs_ok_def)
  obtain i where i: "i < length specs" "specs ! i = (AGG_GROUP_KEY, key)" using assms(4) by (auto simp: in_set_conv_nth)
  then have "agg_ok st (AGG_GROUP_KEY, key) (as_aggs st ! i)" using aggs by (metis list_all2_nthD)
  then have g: "as_grouped st" "?gi < length (as_inputs st)" "nat key = ai_column (as_inputs st ! ?gi)"
    by (auto simp: agg_ok_def)
  have n: "length (as_inputs st) < 65536" using ok(1) assms(6) by (simp add: aggs_ok_def)
  have "grouped_inv phase written st [] st"
    using ok(2) by (simp add: grouped_inv_def fresh_def initial_ok_def)
  from grouped_batches_ok [OF assms(1) g(2) n this, of batches mur] assms(7,8) obtain st1 where
    st1: "rfold (grouped_batch T mur) batches st = Inr st1"
    "grouped_inv phase written st (concat (map (batch_rows mur st) batches)) st1"
    by (auto simp: group_batch_ok_def)
  define rows where "rows = map (input_row mur (as_inputs st) (nat key)) (input_table batches)"
  have inv: "grouped_inv phase written st rows st1"
    using st1(2) batch_rows_table [OF g(2,3)] by (simp add: rows_def)
  have hashed: "\<forall>r \<in> set rows. row_hashed mur ?gi r"
    using g(2,3) by (auto simp: rows_def row_hashed_def input_row_def)
  have len: "length rows < 2 ^ 32" using assms(8) by (simp add: rows_def length_input_table)
  obtain st2 L where st2: "finish_group_input T st1 = Inr st2" "emit_inv phase written mur st st2 L"
    "as_group_seq st2 = as_main_groups st1"
    "work_groups ?gi L = work_groups ?gi (set_work (spilled_rows (as_main_groups st1) ?gi rows) 5 32)"
    using finish_group_input_ok [OF assms(1) inv hashed len] by blast
  obtain out st' where out: "agg_all T mur st2 = Some (Inr (out, st'))"
    "mset (map (map visible) out) = shown st (as_group_seq st2) + group_results st (work_groups ?gi L)"
    using agg_all_emit [OF assms(1,2) g(1) agg_begin_wf [OF ok(1)] g(2) n assms(5) st2(2)] by blast
  have "agg_exec T mur st = emit_group T mur st2"
    using ok(2) g(1) st1(1) st2(1) by (simp add: agg_exec_def agg_exec_grouped_def fresh_def)
  moreover have "agg_exec T mur st2 = emit_group T mur st2"
    using st2(2) g(1) by (simp add: agg_exec_def agg_exec_grouped_def emit_inv_def same_setup_def)
  ultimately have same: "agg_all T mur st = agg_all T mur st2" by (subst (1 2) agg_all.simps) simp
  have "groups_ok ?gi (as_has_count_star st) (as_inputs st) rows (as_main_groups st1)"
    using inv by (simp add: grouped_inv_def)
  from table_shown [OF table_of_main [OF this] agg_begin_wf [OF ok(1)]]
  have "mset (map (map visible) out) = group_results st (groups_of ?gi rows)"
    unfolding out(2) st2(3,4) groups_of_table_and_spill [OF hashed, of "as_main_groups st1"]
    by (simp add: group_results_def)
  then show ?thesis
    using out(1) same grouped_result_table [OF aggs g(2,3)] by (simp add: rows_def)
qed


definition example_group_batch :: probe_batch where
  "example_group_batch = \<lparr>pb_selection = \<lparr>sel_nrows = 4, sel_nwords = 1, sel_words = [mask 4]\<rparr>,
     pb_columns = [int4_vector_init_datum (map int32_get_datum [7, - 2, 7, 0]) [False, False, False, True],
       int4_vector_init_datum (map int32_get_datum [5, 6, - 9, 4]) [False, True, False, False]]\<rparr>"

text \<open>Three groups and room for two.\<close>

theorem grouped_aggregate_correct_witness:
  "\<exists>st rows st'. (agg_begin 288 [example_group_batch, example_group_batch] [(AGG_GROUP_KEY, 0), (AGG_SUM_INT4, 1), (AGG_COUNT_STAR, - 1)]
      :: (tape_phase \<times> byte list \<times> nat) agg_state result) = Inr st \<and> as_group_limit st = 2 \<and>
    agg_all memory_tape id st = Some (Inr (rows, st')) \<and>
    mset (map (map visible) rows) = {#[Some 7, Some (- 8), Some 4], [Some (- 2), None, Some 2], [None, Some 8, Some 2]#}"
proof -
  let ?specs = "[(AGG_GROUP_KEY, 0), (AGG_SUM_INT4, 1), (AGG_COUNT_STAR, - 1)]"
  let ?batches = "[example_group_batch, example_group_batch]"
  obtain st where st: "(agg_begin 288 ?batches ?specs :: (tape_phase \<times> byte list \<times> nat) agg_state result) = Inr st" "as_group_limit st = 2"
    by (simp add: agg_begin_def begin_aggregate_def intern_input_def rbind_def Let_def reset_aggregate_values_def)
  have "sel_wf (pb_selection example_group_batch)"
    by (auto simp: sel_wf_def example_group_batch_def bit_mask_iff)
  then have ok: "\<forall>batch \<in> set ?batches. group_batch_ok batch"
    by (simp add: group_batch_ok_def) (simp add: example_group_batch_def)
  have "selected_rows ?batches = 8" by code_simp
  then have rows: "selected_rows ?batches < 2 ^ 32" by simp
  have keys: "remdups (map (\<lambda>r. r 0) (input_table ?batches)) = [Some (- 2), Some 7, None]" by code_simp
  have spec: "map (\<lambda>k. let rows = filter (\<lambda>r. r 0 = k) (input_table ?batches)
      in map (\<lambda>(kind, column). agg_datum kind (List.map_filter (\<lambda>r. r (nat column)) rows) (length rows) k) ?specs)
      [Some (- 2), Some 7, None] =
      [[Some (- 2), None, Some 2], [Some 7, Some (- 8), Some 4], [None, Some 8, Some 2]]"
    by code_simp
  have "grouped_result ?specs (nat 0) (input_table ?batches) =
      {#[Some 7, Some (- 8), Some 4], [Some (- 2), None, Some 2], [None, Some 8, Some 2]#}"
    unfolding grouped_result_def nat_zero_as_int [symmetric] keys mset_map [symmetric] spec by simp
  then show ?thesis
    using grouped_aggregate_correct [OF memory_tape_spec inj_on_id st(1), of 0] st ok rows by auto
qed

end
