(* ===== verification/Compressed.thy ===== *)
theory Compressed
  imports Spill_Buffers Expr
begin

text \<open>
  The compressed table access method, \<open>examples/compressed_tam/compressed.c\<close>: a snapshot
  of an int4 table as batches of at most 64 rows, each column stored plain or as a base and
  deltas of 8 or 16 bits, with the minimum, maximum and a few distinct values kept per
  group of batches; and the scan over it, which skips groups, splits batches to the
  requested number of rows, and filters.

  A stored batch is its header and a zeroed block of memory that the columns are written
  to.  Sizes are those of a 64-bit machine.
\<close>

abbreviation (input) PG_BATCH_SIZE64 :: nat where "PG_BATCH_SIZE64 \<equiv> 64"
abbreviation (input) PG_BATCH_DISTINCT_VALUES :: nat where "PG_BATCH_DISTINCT_VALUES \<equiv> 16"

datatype compression = PG_BATCH_COMPRESS_PLAIN | PG_BATCH_COMPRESS_DELTA8 | PG_BATCH_COMPRESS_DELTA16

record compressed_column =
  cc_encoding :: compression
  cc_validity :: "byte list"
  cc_null_count :: nat
  cc_base :: int4
  cc_data_offset :: nat

record compressed_batch =
  cb_nrows :: nat
  cb_bytes :: nat
  cb_columns :: "compressed_column list"
  cb_memory :: "byte list"

record group_column =
  gc_has_nonnull :: bool
  gc_distinct_overflow :: bool
  gc_minimum :: int4
  gc_maximum :: int4
  gc_distinct :: "int4 list"

record storage_group =
  sg_first_batch :: nat
  sg_nbatches :: nat
  sg_columns :: "group_column list"

record compressed_relation =
  cr_relid :: uint32
  cr_ncolumns :: nat
  cr_group_batches :: nat
  cr_bytes :: nat
  cr_refcount :: nat
  cr_batches :: "compressed_batch list"
  cr_groups :: "storage_group list"

section \<open>Compression\<close>

definition arrow_set_valid :: "nat \<Rightarrow> byte list \<Rightarrow> byte list" where
  "arrow_set_valid row validity = validity[row div 8 := (validity ! (row div 8)) OR push_bit (row mod 8) 1]"

text \<open>A NULL repeats the value before it.\<close>

definition normalized :: "int4 list \<Rightarrow> uint64 \<Rightarrow> nat \<Rightarrow> int4 list" where
  "normalized values nonnull_rows nrows =
     snd (fold (\<lambda>row (last, out).
         let last = (if bit nonnull_rows row then values ! row else last)
         in (last, out @ [last])) [0..<nrows] (0, []))"

definition deltas_fit :: "int \<Rightarrow> int \<Rightarrow> int4 list \<Rightarrow> bool" where
  "deltas_fit lo hi vs =
     list_all (\<lambda>row. let delta = sint (vs ! row) - sint (vs ! (row - 1)) in \<not> (delta < lo \<or> delta > hi)) [1..<length vs]"

definition choose_compression :: "int4 list \<Rightarrow> uint64 \<Rightarrow> nat \<Rightarrow> compression \<times> int4 \<times> nat" where
  "choose_compression values nonnull_rows nrows =
     (let vs = normalized values nonnull_rows nrows; base = vs ! 0
      in if deltas_fit (- 128) 127 vs then (PG_BATCH_COMPRESS_DELTA8, base, nrows - 1)
         else if deltas_fit (- 32768) 32767 vs then (PG_BATCH_COMPRESS_DELTA16, base, 2 * (nrows - 1))
         else (PG_BATCH_COMPRESS_PLAIN, base, 4 * nrows))"

definition write_validity :: "uint64 \<Rightarrow> nat \<Rightarrow> compressed_column \<Rightarrow> compressed_column" where
  "write_validity nonnull_rows nrows stored =
     fold (\<lambda>row stored.
        if bit nonnull_rows row then stored\<lparr>cc_validity := arrow_set_valid row (cc_validity stored)\<rparr>
        else stored\<lparr>cc_null_count := cc_null_count stored + 1\<rparr>) [0..<nrows] stored"

definition write_delta :: "compressed_column \<Rightarrow> int4 list \<Rightarrow> uint64 \<Rightarrow> nat \<Rightarrow> int4 \<times> byte list \<Rightarrow> int4 \<times> byte list" where
  "write_delta stored values nonnull_rows row = (\<lambda>(last, memory).
     let val = (if bit nonnull_rows row then values ! row else last);
         delta = sint val - sint last
     in (val,
         if cc_encoding stored = PG_BATCH_COMPRESS_DELTA8
         then memory[cc_data_offset stored + (row - 1) := word_of_int delta]
         else write_at (cc_data_offset stored + 2 * (row - 1)) (bytes16 (word_of_int delta)) memory))"

definition write_column ::
  "int4 list \<Rightarrow> uint64 \<Rightarrow> nat \<Rightarrow> compressed_column \<Rightarrow> byte list \<Rightarrow> compressed_column \<times> byte list" where
  "write_column values nonnull_rows nrows stored memory =
     (let stored = write_validity nonnull_rows nrows stored
      in if cc_encoding stored = PG_BATCH_COMPRESS_PLAIN
         then (stored, write_at (cc_data_offset stored) (bytes_of_words (take nrows values)) memory)
         else (stored, snd (fold (write_delta stored values nonnull_rows) [1..<nrows] (cc_base stored, memory))))"

definition maxalign :: "nat \<Rightarrow> nat" where
  "maxalign n = (n + 7) div 8 * 8"

text \<open>\<open>sizeof(CompressedColumn)\<close> is 24 and \<open>offsetof(CompressedBatch, columns)\<close> is 16.\<close>

definition batch_header_size :: "nat \<Rightarrow> nat" where
  "batch_header_size ncolumns = 16 + 24 * ncolumns"

definition column_slice :: "int4 list \<Rightarrow> nat \<Rightarrow> int4 list" where
  "column_slice values column = take PG_BATCH_SIZE64 (drop (column * PG_BATCH_SIZE64) values)"

definition store_column ::
  "int4 list \<Rightarrow> uint64 list \<Rightarrow> nat \<Rightarrow> nat \<Rightarrow> nat \<times> compressed_column list \<times> byte list \<Rightarrow>
     nat \<times> compressed_column list \<times> byte list" where
  "store_column values nonnull_rows nrows column = (\<lambda>(offset, columns, memory).
     let (encoding, base, data_size) = choose_compression (column_slice values column) (nonnull_rows ! column) nrows;
         (stored, memory) = write_column (column_slice values column) (nonnull_rows ! column) nrows
            \<lparr>cc_encoding = encoding, cc_validity = replicate 8 0, cc_null_count = 0, cc_base = base, cc_data_offset = offset\<rparr> memory
     in (offset + maxalign data_size, columns @ [stored], memory))"

definition build_compressed_batch :: "int4 list \<Rightarrow> uint64 list \<Rightarrow> nat \<Rightarrow> nat \<Rightarrow> compressed_batch" where
  "build_compressed_batch values nonnull_rows ncolumns nrows =
     (let header_size = maxalign (batch_header_size ncolumns);
          bytes = fold (\<lambda>column bytes. bytes + maxalign (snd (snd (choose_compression (column_slice values column)
            (nonnull_rows ! column) nrows)))) [0..<ncolumns] header_size;
          (_, columns, memory) = fold (store_column values nonnull_rows nrows) [0..<ncolumns] (header_size, [], replicate bytes 0)
      in \<lparr>cb_nrows = nrows, cb_bytes = bytes, cb_columns = columns, cb_memory = memory\<rparr>)"

text \<open>The values a column decodes to.\<close>

definition read_delta :: "compressed_column \<Rightarrow> byte list \<Rightarrow> nat \<Rightarrow> int4" where
  "read_delta stored memory row =
     (if cc_encoding stored = PG_BATCH_COMPRESS_DELTA8
      then word_of_int (sint (memory ! (cc_data_offset stored + (row - 1))))
      else word_of_int (sint (word16_of (take 2 (drop (cc_data_offset stored + 2 * (row - 1)) memory)))))"

definition column_values_of :: "compressed_batch \<Rightarrow> compressed_column \<Rightarrow> int4 list" where
  "column_values_of batch stored =
     (if cc_encoding stored = PG_BATCH_COMPRESS_PLAIN
      then words_of_bytes (take (4 * cb_nrows batch) (drop (cc_data_offset stored) (cb_memory batch)))
      else fold (\<lambda>row decoded. decoded @ [decoded ! (row - 1) + read_delta stored (cb_memory batch) row])
             [1..<cb_nrows batch] [cc_base stored])"

section \<open>Groups\<close>

text \<open>\<open>sizeof(GroupColumn)\<close> is 76 and \<open>offsetof(StorageGroup, columns)\<close> is 8.\<close>

definition append_group :: "compressed_relation \<Rightarrow> compressed_relation" where
  "append_group compressed =
     compressed\<lparr>cr_groups := cr_groups compressed @
         [\<lparr>sg_first_batch = length (cr_batches compressed), sg_nbatches = 0,
           sg_columns = replicate (cr_ncolumns compressed) \<lparr>gc_has_nonnull = False, gc_distinct_overflow = False,
             gc_minimum = 0, gc_maximum = 0, gc_distinct = []\<rparr>\<rparr>],
       cr_bytes := cr_bytes compressed + (8 + 76 * cr_ncolumns compressed)\<rparr>"

definition update_group_value :: "int4 \<Rightarrow> group_column \<Rightarrow> group_column" where
  "update_group_value val meta =
     (let meta = (if \<not> gc_has_nonnull meta
                  then meta\<lparr>gc_has_nonnull := True, gc_minimum := val, gc_maximum := val\<rparr>
                  else meta\<lparr>gc_minimum := (if sint (gc_minimum meta) < sint val then gc_minimum meta else val),
                            gc_maximum := (if sint (gc_maximum meta) > sint val then gc_maximum meta else val)\<rparr>)
      in if gc_distinct_overflow meta then meta
         else
           (let known = list_ex (\<lambda>d. d = val) (gc_distinct meta)
            in if \<not> known \<and> length (gc_distinct meta) < PG_BATCH_DISTINCT_VALUES
               then meta\<lparr>gc_distinct := gc_distinct meta @ [val]\<rparr>
               else if \<not> known then meta\<lparr>gc_distinct_overflow := True\<rparr> else meta))"

definition update_group_column :: "int4 list \<Rightarrow> uint64 list \<Rightarrow> nat \<Rightarrow> nat \<Rightarrow> group_column \<Rightarrow> group_column" where
  "update_group_column values nonnull_rows nrows column meta =
     fold (\<lambda>row meta.
        if \<not> bit (nonnull_rows ! column) row then meta
        else update_group_value (values ! (column * PG_BATCH_SIZE64 + row)) meta) [0..<nrows] meta"

definition update_group :: "int4 list \<Rightarrow> uint64 list \<Rightarrow> nat \<Rightarrow> nat \<Rightarrow> storage_group \<Rightarrow> storage_group" where
  "update_group values nonnull_rows ncolumns nrows grp =
     grp\<lparr>sg_columns := fold (\<lambda>column cs. cs[column := update_group_column values nonnull_rows nrows column (cs ! column)])
         [0..<ncolumns] (sg_columns grp),
       sg_nbatches := sg_nbatches grp + 1\<rparr>"

definition append_compressed_batch :: "int4 list \<Rightarrow> uint64 list \<Rightarrow> nat \<Rightarrow> compressed_relation \<Rightarrow> compressed_relation" where
  "append_compressed_batch values nonnull_rows nrows compressed =
     (let batch = build_compressed_batch values nonnull_rows (cr_ncolumns compressed) nrows;
          compressed = (if cr_groups compressed = [] \<or> sg_nbatches (last (cr_groups compressed)) = cr_group_batches compressed
                        then append_group compressed else compressed);
          g = length (cr_groups compressed) - 1
      in compressed\<lparr>cr_batches := cr_batches compressed @ [batch], cr_bytes := cr_bytes compressed + cb_bytes batch,
           cr_groups := (cr_groups compressed)[g := update_group values nonnull_rows (cr_ncolumns compressed) nrows
             (cr_groups compressed ! g)]\<rparr>)"

section \<open>Building a snapshot\<close>

text \<open>The rows of a table scan: for each column a nullable \<open>Datum\<close>.\<close>

definition store_value ::
  "(datum \<times> bool) list \<Rightarrow> nat \<Rightarrow> nat \<Rightarrow> int4 list \<times> uint64 list \<Rightarrow> int4 list \<times> uint64 list" where
  "store_value slot batch_row column = (\<lambda>(values, nonnull_rows).
     if \<not> snd (slot ! column)
     then (values[column * PG_BATCH_SIZE64 + batch_row := datum_get_int32 (fst (slot ! column))],
           nonnull_rows[column := (nonnull_rows ! column) OR push_bit batch_row 1])
     else (values[column * PG_BATCH_SIZE64 + batch_row := 0], nonnull_rows))"

definition compress_row ::
  "nat \<Rightarrow> (datum \<times> bool) list \<Rightarrow> compressed_relation \<times> int4 list \<times> uint64 list \<times> nat \<Rightarrow>
     compressed_relation \<times> int4 list \<times> uint64 list \<times> nat" where
  "compress_row natts slot = (\<lambda>(compressed, values, nonnull_rows, batch_row).
     let (values, nonnull_rows) = fold (store_value slot batch_row) [0..<natts] (values, nonnull_rows);
         batch_row = batch_row + 1
     in if batch_row = PG_BATCH_SIZE64
        then (append_compressed_batch values nonnull_rows batch_row compressed, values, replicate natts 0, 0)
        else (compressed, values, nonnull_rows, batch_row))"

definition compress_rows :: "uint32 \<Rightarrow> nat \<Rightarrow> nat \<Rightarrow> (datum \<times> bool) list list \<Rightarrow> compressed_relation" where
  "compress_rows relid natts group_rows slots =
     (let (compressed, values, nonnull_rows, batch_row) =
            fold (compress_row natts) slots
              (\<lparr>cr_relid = relid, cr_ncolumns = natts, cr_group_batches = group_rows div PG_BATCH_SIZE64, cr_bytes = 0,
                cr_refcount = 0, cr_batches = [], cr_groups = []\<rparr>,
               replicate (natts * PG_BATCH_SIZE64) 0, replicate natts 0, 0)
      in if batch_row > 0 then append_compressed_batch values nonnull_rows batch_row compressed else compressed)"

text \<open>A relation as the access method sees it.\<close>

record tam_relation =
  tr_relid :: uint32
  tr_is_table :: bool
  tr_uses_tableam :: bool
  tr_attrs :: "(bool \<times> bool \<times> uint32) list"

definition relation_supported :: "tam_relation \<Rightarrow> bool \<Rightarrow> bool result" where
  "relation_supported rel report_error =
     (if \<not> tr_is_table rel \<or> \<not> tr_uses_tableam rel then
        (if report_error
         then Inl (Ereport ERRCODE_FEATURE_NOT_SUPPORTED ''pg_batch_compress supports only pg_batch_compressed tables'')
         else Inr False)
      else if tr_attrs rel = [] then
        (if report_error then Inl (Ereport ERRCODE_FEATURE_NOT_SUPPORTED ''pg_batch_compress requires at least one column'')
         else Inr False)
      else if list_ex (\<lambda>(isdropped, hasmissing, typid). isdropped \<or> hasmissing \<or> typid \<noteq> INT4OID) (tr_attrs rel) then
        (if report_error
         then Inl (Ereport ERRCODE_FEATURE_NOT_SUPPORTED
           ''pg_batch_compress supports only int4 columns without dropped or missing values'')
         else Inr False)
      else Inr True)"

text \<open>The linked list of snapshots.  Replacing keeps the position; a new one goes to the front.\<close>

definition install_compressed_relation ::
  "compressed_relation \<Rightarrow> compressed_relation list \<Rightarrow> compressed_relation list result" where
  "install_compressed_relation compressed relations =
     (case List.find (\<lambda>i. cr_relid (relations ! i) = cr_relid compressed) [0..<length relations] of
        Some i \<Rightarrow>
          if cr_refcount (relations ! i) \<noteq> 0
          then Inl (Ereport ERRCODE_OBJECT_IN_USE ''cannot replace pg_batch compressed snapshot while it is in use'')
          else Inr (relations[i := compressed])
      | None \<Rightarrow> Inr (compressed # relations))"

definition pg_batch_compress ::
  "tam_relation \<Rightarrow> int \<Rightarrow> (datum \<times> bool) list list \<Rightarrow> compressed_relation list \<Rightarrow> (nat \<times> compressed_relation list) result" where
  "pg_batch_compress rel group_rows slots relations =
     rbind (relation_supported rel True) (\<lambda>_.
     if group_rows < int PG_BATCH_SIZE64 \<or> group_rows mod int PG_BATCH_SIZE64 \<noteq> 0
     then Inl (Ereport ERRCODE_INVALID_PARAMETER_VALUE ''storage group size must be a positive multiple of 64'')
     else
       (let compressed = compress_rows (tr_relid rel) (length (tr_attrs rel)) (nat group_rows) slots
        in rbind (install_compressed_relation compressed relations) (\<lambda>relations.
           Inr (cr_bytes compressed, relations))))"

definition find_compressed_relation :: "tam_relation \<Rightarrow> compressed_relation list \<Rightarrow> nat option" where
  "find_compressed_relation rel relations =
     (if relation_supported rel False \<noteq> Inr True then None
      else List.find (\<lambda>i. cr_relid (relations ! i) = tr_relid rel \<and> cr_ncolumns (relations ! i) = length (tr_attrs rel))
             [0..<length relations])"

definition compressed_acquire :: "tam_relation \<Rightarrow> compressed_relation list \<Rightarrow> nat option \<times> compressed_relation list" where
  "compressed_acquire rel relations =
     (case find_compressed_relation rel relations of
        None \<Rightarrow> (None, relations)
      | Some i \<Rightarrow> (Some i, relations[i := (relations ! i)\<lparr>cr_refcount := cr_refcount (relations ! i) + 1\<rparr>]))"

definition compressed_available :: "tam_relation \<Rightarrow> compressed_relation list \<Rightarrow> bool" where
  "compressed_available rel relations \<longleftrightarrow> find_compressed_relation rel relations \<noteq> None"

definition compressed_release :: "nat \<Rightarrow> compressed_relation list \<Rightarrow> compressed_relation list" where
  "compressed_release i relations = relations[i := (relations ! i)\<lparr>cr_refcount := cr_refcount (relations ! i) - 1\<rparr>]"

text \<open>Unloading the module frees every snapshot.\<close>

definition compressed_fini :: "compressed_relation list \<Rightarrow> compressed_relation list" where
  "compressed_fini relations = []"

end
