(* ===== verification/Compressed_Scan.thy ===== *)
theory Compressed_Scan
  imports Compressed Expr
begin

text \<open>
  The scan over a compressed snapshot (\<open>compressed.c\<close>): pruning of groups, the active
  batch and its lazily decoded Arrow columns, the callbacks it offers to consumers, the
  filter, and the loop that produces the next batch.

  The private data of an active batch points to the scan, so the scan is the private
  data of the batch in this model; the selection word of the active batch is the word of
  the batch's selection.
\<close>

datatype source_scan_mode = PG_BATCH_TAM_BATCH | PG_BATCH_TAM_PRUNE | PG_BATCH_TAM_FILTER

text \<open>A qual of the source; \<open>sq_scalar\<close> is a nullable datum.\<close>

record 'c source_qual =
  sq_expr :: "'c batch_expr option"
  sq_column_mask :: "nat set"
  sq_column :: int
  sq_prunable :: bool
  sq_attnum :: int
  sq_op :: int4_op
  sq_scalar_expr :: "node option"
  sq_scalar :: "datum option"

record compressed_stats =
  st_groups_examined :: nat
  st_groups_skipped_minmax :: nat
  st_groups_skipped_membership :: nat
  st_rows_removed_by_source_filter :: nat
  st_encoded_bytes_touched :: nat
  st_arrow_filter_columns :: nat
  st_arrow_project_columns :: nat
  st_arrow_decoded_values :: nat
  st_filter_datums :: nat
  st_project_datums :: nat

record arrow_column =
  ac_length :: int
  ac_null_count :: int
  ac_offset :: nat
  ac_validity :: "byte list option"
  ac_values :: "int4 list"

record datum_column =
  dc_arrays :: "(datum list \<times> bool list) option"
  dc_valid_rows :: uint64

text \<open>An Arrow column without its release callback is not prepared.\<close>

record active_batch =
  ab_batch :: compressed_batch
  ab_start :: nat
  ab_arrow_columns :: "arrow_column option list"
  ab_datum_columns :: "datum_column list"

record 'c compressed_scan =
  cs_relation :: compressed_relation
  cs_max_rows :: int
  cs_source_attnums :: "int list"
  cs_ncolumns :: nat
  cs_econtext :: 'c
  cs_quals :: "'c source_qual list"
  cs_mode :: source_scan_mode
  cs_group_index :: nat
  cs_batch_index :: nat
  cs_batch_row :: nat
  cs_group_ready :: bool
  cs_prune_quals_ready :: bool
  cs_active :: "active_batch option"
  cs_stats :: compressed_stats

section \<open>Pruning\<close>

datatype group_match = PG_BATCH_GROUP_MATCH | PG_BATCH_GROUP_SKIP_MINMAX | PG_BATCH_GROUP_SKIP_MEMBERSHIP

definition group_contains :: "group_column \<Rightarrow> int4 \<Rightarrow> bool" where
  "group_contains column v = list_ex (\<lambda>d. d = v) (gc_distinct column)"

fun range_matches :: "int4_op \<Rightarrow> group_column \<Rightarrow> int4 \<Rightarrow> bool" where
  "range_matches PG_BATCH_INT4_EQ column scalar =
     (sint scalar \<ge> sint (gc_minimum column) \<and> sint scalar \<le> sint (gc_maximum column))"
| "range_matches PG_BATCH_INT4_NE column scalar = (gc_minimum column \<noteq> scalar \<or> gc_maximum column \<noteq> scalar)"
| "range_matches PG_BATCH_INT4_LT column scalar = (sint (gc_minimum column) < sint scalar)"
| "range_matches PG_BATCH_INT4_LE column scalar = (sint (gc_minimum column) \<le> sint scalar)"
| "range_matches PG_BATCH_INT4_GT column scalar = (sint (gc_maximum column) > sint scalar)"
| "range_matches PG_BATCH_INT4_GE column scalar = (sint (gc_maximum column) \<ge> sint scalar)"

fun group_may_match :: "'c source_qual list \<Rightarrow> storage_group \<Rightarrow> group_match" where
  "group_may_match [] grp = PG_BATCH_GROUP_MATCH"
| "group_may_match (qual # quals) grp =
     (if \<not> sq_prunable qual then group_may_match quals grp
      else case sq_scalar qual of
        None \<Rightarrow> PG_BATCH_GROUP_SKIP_MINMAX
      | Some d \<Rightarrow>
          (let column = sg_columns grp ! nat (sq_attnum qual - 1); scalar = datum_get_int32 d
           in if \<not> gc_has_nonnull column then PG_BATCH_GROUP_SKIP_MINMAX
              else if \<not> range_matches (sq_op qual) column scalar then PG_BATCH_GROUP_SKIP_MINMAX
              else if sq_op qual = PG_BATCH_INT4_EQ \<and> \<not> gc_distinct_overflow column \<and> \<not> group_contains column scalar
              then PG_BATCH_GROUP_SKIP_MEMBERSHIP
              else group_may_match quals grp))"

section \<open>Columns of the active batch\<close>

text \<open>\<open>column_values\<close> counts the values it decodes.\<close>

definition count_decoded :: "compressed_column \<Rightarrow> compressed_batch \<Rightarrow> compressed_stats \<Rightarrow> compressed_stats" where
  "count_decoded stored batch st =
     (if cc_encoding stored = PG_BATCH_COMPRESS_PLAIN then st
      else st\<lparr>st_arrow_decoded_values := st_arrow_decoded_values st + cb_nrows batch\<rparr>)"

definition count_arrow :: "column_phase \<Rightarrow> compressed_stats \<Rightarrow> compressed_stats" where
  "count_arrow phase st =
     (if phase = PG_BATCH_COLUMN_FILTER then st\<lparr>st_arrow_filter_columns := st_arrow_filter_columns st + 1\<rparr>
      else st\<lparr>st_arrow_project_columns := st_arrow_project_columns st + 1\<rparr>)"

definition prepare_column :: "int \<Rightarrow> int \<Rightarrow> column_phase \<Rightarrow> 'c compressed_scan \<Rightarrow> 'c compressed_scan result" where
  "prepare_column nrows column phase scan =
     (if column < 0 \<or> column \<ge> int (cs_ncolumns scan) then Inl (Elog ''pg_batch column %d is out of range'')
      else case cs_active scan of
        None \<Rightarrow> Inl (Elog ''access through a null pointer'')
      | Some active \<Rightarrow>
          if ab_arrow_columns active ! nat column \<noteq> None then Inr scan
          else
            (let stored = cb_columns (ab_batch active) ! nat (cs_source_attnums scan ! nat column - 1);
                 arrow = \<lparr>ac_length = nrows, ac_null_count = (if cc_null_count stored = 0 then 0 else - 1),
                   ac_offset = ab_start active,
                   ac_validity = (if cc_null_count stored = 0 then None else Some (cc_validity stored)),
                   ac_values = column_values_of (ab_batch active) stored\<rparr>
             in Inr (scan\<lparr>cs_active := Some (active\<lparr>ab_arrow_columns := (ab_arrow_columns active)[nat column := Some arrow]\<rparr>),
                  cs_stats := count_arrow phase (count_decoded stored (ab_batch active) (cs_stats scan))\<rparr>)))"

definition prepare_columns ::
  "'c compressed_scan \<Rightarrow> selection \<Rightarrow> nat set \<Rightarrow> selection \<Rightarrow> column_phase \<Rightarrow> 'c compressed_scan result" where
  "prepare_columns scan s columns rows phase =
     (if columns = {} \<or> sel_words rows ! 0 = 0 then Inr scan
      else rfold (\<lambda>column. prepare_column (sel_nrows s) (int column) phase) (sorted_list_of_set columns) scan)"

definition get_arrow_column :: "int \<Rightarrow> 'c compressed_scan \<Rightarrow> arrow_column result" where
  "get_arrow_column column scan =
     (if column < 0 \<or> column \<ge> int (cs_ncolumns scan) then Inl (Elog ''pg_batch column %d is out of range'')
      else case Option.bind (cs_active scan) (\<lambda>active. ab_arrow_columns active ! nat column) of
        None \<Rightarrow> Inl (Elog ''pg_batch column %d has not been prepared'')
      | Some arrow \<Rightarrow> Inr arrow)"

definition get_int4_column :: "'c compressed_scan \<Rightarrow> int \<Rightarrow> int4_vector \<Rightarrow> ('c compressed_scan \<times> bool \<times> int4_vector) result" where
  "get_int4_column scan column result =
     rbind (get_arrow_column column scan) (\<lambda>arrow.
     Inr (scan, True, int4_vector_init_packed (ac_values arrow)
       (if ac_null_count arrow = 0 then None else ac_validity arrow) (int (ac_offset arrow))))"

definition arrow_row_is_valid :: "arrow_column \<Rightarrow> nat \<Rightarrow> bool" where
  "arrow_row_is_valid arrow row =
     (case ac_validity arrow of None \<Rightarrow> True
      | Some validity \<Rightarrow> (let position = ac_offset arrow + row
          in (validity ! (position div 8)) AND push_bit (position mod 8) 1 \<noteq> 0))"

definition fill_datum :: "arrow_column \<Rightarrow> nat \<Rightarrow> datum list \<times> bool list \<Rightarrow> datum list \<times> bool list" where
  "fill_datum arrow row = (\<lambda>(values, isnull).
     let null = \<not> arrow_row_is_valid arrow row
     in (values[row := (if null then 0 else int32_get_datum (ac_values arrow ! (ac_offset arrow + row)))], isnull[row := null]))"

definition get_datum_column ::
  "'c compressed_scan \<Rightarrow> selection \<Rightarrow> int \<Rightarrow> selection \<Rightarrow> column_phase \<Rightarrow> datum_vector \<Rightarrow>
     ('c compressed_scan \<times> datum_vector) result" where
  "get_datum_column scan s column rows phase result =
     rbind (check_datum_vector (Some result)) (\<lambda>_.
     if column < 0 \<or> column \<ge> int (cs_ncolumns scan) then Inl (Elog ''pg_batch column %d is out of range'')
     else rbind (prepare_column (sel_nrows s) column phase scan) (\<lambda>scan.
     rbind (get_arrow_column column scan) (\<lambda>arrow.
     case cs_active scan of
       None \<Rightarrow> Inl (Elog ''access through a null pointer'')
     | Some active \<Rightarrow>
         (let datum = ab_datum_columns active ! nat column;
              arrays = (case dc_arrays datum of
                  None \<Rightarrow> (replicate (nat (sel_nrows s)) 0, replicate (nat (sel_nrows s)) False) | Some a \<Rightarrow> a);
              missing = (sel_words rows ! 0) AND NOT (dc_valid_rows datum);
              filled = fold (fill_datum arrow) (word_rows missing) arrays;
              datum = \<lparr>dc_arrays = Some filled, dc_valid_rows = dc_valid_rows datum OR missing\<rparr>;
              n = length (word_rows missing);
              st = cs_stats scan;
              st = (if phase = PG_BATCH_COLUMN_FILTER then st\<lparr>st_filter_datums := st_filter_datums st + n\<rparr>
                    else st\<lparr>st_project_datums := st_project_datums st + n\<rparr>)
          in Inr (scan\<lparr>cs_active := Some (active\<lparr>ab_datum_columns := (ab_datum_columns active)[nat column := datum]\<rparr>),
                       cs_stats := st\<rparr>,
                  result\<lparr>dv_values := Some (fst filled), dv_isnull := Some (snd filled), dv_nrows := sel_nrows s\<rparr>)))))"

text \<open>
  The Arrow interface hands out \<open>get_arrow_column\<close>'s view.  Seen as an int4 interface, as
  the type of native interfaces has it here, its callback must not be called.
\<close>

definition compressed_int4 :: "'c compressed_scan native_interface" where
  "compressed_int4 = \<lparr>ni_abi_version = 1, ni_struct_size = 24, ni_get_column = get_int4_column\<rparr>"

definition compressed_arrow :: "'c compressed_scan native_interface" where
  "compressed_arrow = \<lparr>ni_abi_version = 1, ni_struct_size = 24,
     ni_get_column = (\<lambda>_ _ _. Inl (Elog ''call through a pointer of another type''))\<rparr>"

definition compressed_native_interface :: "native_type \<Rightarrow> 'c compressed_scan native_interface option" where
  "compressed_native_interface type =
     (if nt_abi_version type = 1 \<and> nt_name type = ''pg_batch.int4_vector.v1'' then Some compressed_int4
      else if nt_abi_version type = 1 \<and> nt_name type = ''pg_batch.arrow.c_data'' then Some compressed_arrow
      else None)"

definition release_batch :: "'c compressed_scan \<Rightarrow> 'c compressed_scan" where
  "release_batch scan = scan\<lparr>cs_active := None\<rparr>"

text \<open>The address of the table is arbitrary.\<close>

definition compressed_ops :: "'c compressed_scan batch_ops" where
  "compressed_ops = \<lparr>ops_addr = 1, ops_abi_version = 1, ops_struct_size = struct_sizeof PgBatchOps_layout,
     ops_get_datum_column = Some get_datum_column, ops_prepare_columns = Some prepare_columns,
     ops_get_native_interface = Some compressed_native_interface, ops_release = Some release_batch\<rparr>"

section \<open>The scan\<close>

definition load_batch :: "compressed_batch \<Rightarrow> nat \<Rightarrow> nat \<Rightarrow> 'c compressed_scan \<Rightarrow> 'c compressed_scan batch" where
  "load_batch batch start nrows scan =
     \<lparr>b_abi_version = 1, b_struct_size = struct_sizeof PgBatch_layout,
      b_selection = \<lparr>sel_nrows = int nrows, sel_nwords = 1, sel_words = [drop_bit (PG_BATCH_SIZE64 - nrows) (- 1)]\<rparr>,
      b_table_oid = cr_relid (cs_relation scan), b_ops = Some compressed_ops,
      b_private = scan\<lparr>cs_active := Some \<lparr>ab_batch = batch, ab_start = start,
        ab_arrow_columns = replicate (cs_ncolumns scan) None,
        ab_datum_columns = replicate (cs_ncolumns scan) \<lparr>dc_arrays = None, dc_valid_rows = 0\<rparr>\<rparr>\<rparr>,
      b_generation = 0\<rparr>"

text \<open>One qual of \<open>filter_batch\<close>; the loop ends when no row is left.\<close>

definition filter_qual ::
  "simd_target \<Rightarrow> (node \<Rightarrow> 'c \<Rightarrow> datum option result) \<Rightarrow> nat \<Rightarrow> 'c compressed_scan native_cache \<Rightarrow> 'c compressed_scan batch \<Rightarrow>
     'c compressed_scan batch result \<times> 'c compressed_scan native_cache" where
  "filter_qual target ev q c b =
     (if sel_words (b_selection b) ! 0 = 0 then (Inr b, c)
      else
        (let scan = b_private b; qual = cs_quals scan ! q
         in case sq_expr qual of
              None \<Rightarrow> (Inr b, c)
            | Some e \<Rightarrow>
                (case prepare_columns scan (b_selection b) (sq_column_mask qual) (b_selection b) PG_BATCH_COLUMN_FILTER of
                   Inl err \<Rightarrow> (Inl err, c)
                 | Inr scan \<Rightarrow>
                     (case expr_apply_filter target ev c True (b\<lparr>b_private := scan\<rparr>)
                         (expr_bind (Some (cs_econtext scan)) PG_BATCH_COLUMN_FILTER True e) of
                        (Inl err, c) \<Rightarrow> (Inl err, c)
                      | (Inr (b, e), c) \<Rightarrow>
                          (Inr (b\<lparr>b_private := (b_private b)\<lparr>cs_quals := (cs_quals (b_private b))[q := qual\<lparr>sq_expr := Some e\<rparr>]\<rparr>\<rparr>), c)))))"

fun filter_quals ::
  "simd_target \<Rightarrow> (node \<Rightarrow> 'c \<Rightarrow> datum option result) \<Rightarrow> nat list \<Rightarrow> 'c compressed_scan native_cache \<Rightarrow> 'c compressed_scan batch \<Rightarrow>
     'c compressed_scan batch result \<times> 'c compressed_scan native_cache" where
  "filter_quals target ev [] c b = (Inr b, c)"
| "filter_quals target ev (q # qs) c b =
     (case filter_qual target ev q c b of
        (Inl err, c) \<Rightarrow> (Inl err, c)
      | (Inr b, c) \<Rightarrow> filter_quals target ev qs c b)"

definition filter_batch ::
  "simd_target \<Rightarrow> (node \<Rightarrow> 'c \<Rightarrow> datum option result) \<Rightarrow> 'c compressed_scan native_cache \<Rightarrow> 'c compressed_scan batch \<Rightarrow>
     'c compressed_scan batch result \<times> 'c compressed_scan native_cache" where
  "filter_batch target ev c b =
     (let initial = sel_words (b_selection b) ! 0
      in case filter_quals target ev [0..<length (cs_quals (b_private b))] c b of
           (Inl err, c) \<Rightarrow> (Inl err, c)
         | (Inr b, c) \<Rightarrow>
             (let scan = b_private b; st = cs_stats scan
              in (Inr (b\<lparr>b_private := scan\<lparr>cs_stats := st\<lparr>st_rows_removed_by_source_filter :=
                    st_rows_removed_by_source_filter st + (pg_popcount64 initial - pg_popcount64 (sel_words (b_selection b) ! 0))\<rparr>\<rparr>\<rparr>), c)))"

definition prepare_prune_quals :: "(node \<Rightarrow> 'c \<Rightarrow> datum option result) \<Rightarrow> 'c compressed_scan \<Rightarrow> 'c compressed_scan result" where
  "prepare_prune_quals ev scan =
     rbind (rfold (\<lambda>q quals.
         case sq_scalar_expr (quals ! q) of
           None \<Rightarrow> Inr quals
         | Some scalar \<Rightarrow> rbind (ev scalar (cs_econtext scan)) (\<lambda>d. Inr (quals[q := (quals ! q)\<lparr>sq_scalar := d\<rparr>])))
       [0..<length (cs_quals scan)] (cs_quals scan)) (\<lambda>quals.
     Inr (scan\<lparr>cs_quals := quals, cs_prune_quals_ready := True\<rparr>))"

definition enter_group :: "storage_group \<Rightarrow> 'c compressed_scan \<Rightarrow> 'c compressed_scan" where
  "enter_group grp scan =
     (if cs_group_ready scan then scan
      else
        (let (match, st) = (if cs_mode scan \<noteq> PG_BATCH_TAM_BATCH
               then (group_may_match (cs_quals scan) grp,
                     (cs_stats scan)\<lparr>st_groups_examined := st_groups_examined (cs_stats scan) + 1\<rparr>)
               else (PG_BATCH_GROUP_MATCH, cs_stats scan));
             scan = scan\<lparr>cs_group_ready := True, cs_stats := st\<rparr>
         in if match = PG_BATCH_GROUP_MATCH then scan
            else scan\<lparr>cs_stats := (if match = PG_BATCH_GROUP_SKIP_MINMAX
                   then st\<lparr>st_groups_skipped_minmax := st_groups_skipped_minmax st + 1\<rparr>
                   else st\<lparr>st_groups_skipped_membership := st_groups_skipped_membership st + 1\<rparr>),
                 cs_batch_index := sg_first_batch grp + sg_nbatches grp, cs_batch_row := 0\<rparr>))"

definition batch_limit :: "'c compressed_scan \<Rightarrow> nat" where
  "batch_limit scan = (if cs_max_rows scan > 0 then min (nat (cs_max_rows scan)) PG_BATCH_SIZE64 else PG_BATCH_SIZE64)"

text \<open>The next piece of the current stored batch, and the position after it.\<close>

definition take_batch :: "'c compressed_scan \<Rightarrow> 'c compressed_scan batch" where
  "take_batch scan =
     (let stored = cr_batches (cs_relation scan) ! cs_batch_index scan;
          start = cs_batch_row scan;
          nrows = min (batch_limit scan) (cb_nrows stored - start);
          b = load_batch stored start nrows scan;
          scan = b_private b;
          st = cs_stats scan;
          scan = (if start = 0 then scan\<lparr>cs_stats := st\<lparr>st_encoded_bytes_touched := st_encoded_bytes_touched st + cb_bytes stored\<rparr>\<rparr>
                  else scan);
          scan = scan\<lparr>cs_batch_row := start + nrows\<rparr>;
          scan = (if cs_batch_row scan = cb_nrows stored
                  then scan\<lparr>cs_batch_index := cs_batch_index scan + 1, cs_batch_row := 0\<rparr> else scan)
      in b\<lparr>b_private := scan\<rparr>)"

text \<open>
  The batch that is published comes with the scan as its private data; \<open>None\<close> when the
  scan is at its end.
\<close>

partial_function (option) scan_loop ::
  "simd_target \<Rightarrow> (node \<Rightarrow> 'c \<Rightarrow> datum option result) \<Rightarrow> 'c compressed_scan native_cache \<Rightarrow> 'c compressed_scan \<Rightarrow>
     (('c compressed_scan batch option \<times> 'c compressed_scan) result \<times> 'c compressed_scan native_cache) option" where
  "scan_loop target ev c scan =
     (if \<not> cs_group_index scan < length (cr_groups (cs_relation scan)) then Some (Inr (None, scan), c)
      else
        (let grp = cr_groups (cs_relation scan) ! cs_group_index scan;
             scan = enter_group grp scan
         in if cs_batch_index scan < sg_first_batch grp + sg_nbatches grp
            then
              (let b = take_batch scan
               in case (if cs_mode scan = PG_BATCH_TAM_FILTER then filter_batch target ev c b else (Inr b, c)) of
                    (Inl err, c) \<Rightarrow> Some (Inl err, c)
                  | (Inr b, c) \<Rightarrow>
                      if sel_words (b_selection b) ! 0 = 0 then scan_loop target ev c (release_batch (b_private b))
                      else Some (Inr (Some b, b_private b), c))
            else scan_loop target ev c (scan\<lparr>cs_group_index := cs_group_index scan + 1, cs_group_ready := False\<rparr>)))"

definition scan_next ::
  "simd_target \<Rightarrow> (node \<Rightarrow> 'c \<Rightarrow> datum option result) \<Rightarrow> 'c compressed_scan native_cache \<Rightarrow> 'c compressed_scan \<Rightarrow>
     (('c compressed_scan batch option \<times> 'c compressed_scan) result \<times> 'c compressed_scan native_cache) option" where
  "scan_next target ev c scan =
     (case (if \<not> cs_prune_quals_ready scan then prepare_prune_quals ev scan else Inr scan) of
        Inl err \<Rightarrow> Some (Inl err, c)
      | Inr scan \<Rightarrow> scan_loop target ev c scan)"

text \<open>A consumer that asks for batches until none comes, and releases each.\<close>

partial_function (option) scan_all ::
  "simd_target \<Rightarrow> (node \<Rightarrow> 'c \<Rightarrow> datum option result) \<Rightarrow> 'c compressed_scan native_cache \<Rightarrow> 'c compressed_scan \<Rightarrow>
     'c compressed_scan batch list result option" where
  "scan_all target ev c scan =
     Option.bind (scan_next target ev c scan) (\<lambda>(res, c).
       case res of
         Inl err \<Rightarrow> Some (Inl err)
       | Inr (None, scan) \<Rightarrow> Some (Inr [])
       | Inr (Some b, scan) \<Rightarrow>
           Option.bind (scan_all target ev c (release_batch scan)) (\<lambda>bs. Some (rbind bs (\<lambda>bs. Inr (b # bs)))))"

text \<open>\<open>rescan\<close> of \<open>source.c\<close>.\<close>

definition rescan :: "'c compressed_scan \<Rightarrow> 'c compressed_scan" where
  "rescan scan = scan\<lparr>cs_group_index := 0, cs_batch_index := 0, cs_batch_row := 0, cs_group_ready := False,
     cs_prune_quals_ready := False\<rparr>"

end
