(* ===== verification/Compressed_Source.thy ===== *)
theory Compressed_Source
  imports Compressed_Scan Node_Plans
begin

text \<open>
  The compressed tables as a batch source, \<open>examples/compressed_tam/source.c\<close>: which
  restrictions the source takes over (\<open>plan_scan\<close>), the plan data that carries them to
  execution, and the start of a scan (\<open>begin_scan\<close>).
\<close>

section \<open>Planning\<close>

datatype qual_support = PG_BATCH_QUAL_UNSUPPORTED | PG_BATCH_QUAL_PRUNE_ONLY | PG_BATCH_QUAL_EXACT

text \<open>Enumerations are stored as integers.\<close>

fun op_code :: "int4_op \<Rightarrow> int" where
  "op_code PG_BATCH_INT4_EQ = 0"
| "op_code PG_BATCH_INT4_NE = 1"
| "op_code PG_BATCH_INT4_LT = 2"
| "op_code PG_BATCH_INT4_LE = 3"
| "op_code PG_BATCH_INT4_GT = 4"
| "op_code PG_BATCH_INT4_GE = 5"

definition op_of_code :: "int \<Rightarrow> int4_op" where
  "op_of_code n = (if n = 0 then PG_BATCH_INT4_EQ else if n = 1 then PG_BATCH_INT4_NE else if n = 2 then PG_BATCH_INT4_LT
     else if n = 3 then PG_BATCH_INT4_LE else if n = 4 then PG_BATCH_INT4_GT else PG_BATCH_INT4_GE)"

fun mode_code :: "source_scan_mode \<Rightarrow> int" where
  "mode_code PG_BATCH_TAM_BATCH = 0"
| "mode_code PG_BATCH_TAM_PRUNE = 1"
| "mode_code PG_BATCH_TAM_FILTER = 2"

definition mode_of_code :: "int \<Rightarrow> source_scan_mode" where
  "mode_of_code n = (if n = 0 then PG_BATCH_TAM_BATCH else if n = 1 then PG_BATCH_TAM_PRUNE else PG_BATCH_TAM_FILTER)"

record qual_plan =
  qp_filter_expr :: int
  qp_attribute :: int
  qp_operator :: int
  qp_scalar_expr :: int
  qp_prunable :: int

definition make_qual_plan :: "qual_plan \<Rightarrow> pnode result" where
  "make_qual_plan q =
     rbind (plan_writer_create ''PgBatchCompressedSourceQual'' 1) (\<lambda>w.
     rbind (plan_write_int ''filter_expr'' (qp_filter_expr q) w) (\<lambda>w.
     rbind (plan_write_int ''attribute'' (qp_attribute q) w) (\<lambda>w.
     rbind (plan_write_int ''operator'' (qp_operator q) w) (\<lambda>w.
     rbind (plan_write_int ''scalar_expr'' (qp_scalar_expr q) w) (\<lambda>w.
     rbind (plan_write_int ''prunable'' (qp_prunable q) w) (\<lambda>w.
     rbind (plan_writer_finish w) (\<lambda>(w, d). Inr d)))))))"

definition supports_relation :: "bool \<Rightarrow> tam_relation \<Rightarrow> compressed_relation list \<Rightarrow> bool" where
  "supports_relation enable rel relations \<longleftrightarrow> enable \<and> tr_uses_tableam rel \<and> compressed_available rel relations"

definition plan_request_layout :: struct_layout where
  "plan_request_layout = [(''struct_size'', 8, 8), (''root'', 8, 8), (''rel'', 8, 8), (''relation'', 8, 8), (''clauses'', 8, 8),
     (''restrictinfos'', 8, 8), (''filter_attnums'', 8, 8), (''project_attnums'', 8, 8)]"

definition plan_result_layout :: struct_layout where
  "plan_result_layout = [(''struct_size'', 8, 8), (''nquals'', 4, 4), (''qual_support'', 8, 8), (''source_exprs'', 8, 8),
     (''source_private'', 8, 8)]"

definition exec_request_layout :: struct_layout where
  "exec_request_layout = [(''struct_size'', 8, 8), (''relation'', 8, 8), (''parent'', 8, 8), (''source_private'', 8, 8),
     (''source_exprs'', 8, 8), (''query_context'', 8, 8), (''slot_request'', 8, 8), (''source_attnums'', 8, 8),
     (''nsource_columns'', 4, 4)]"

text \<open>
  One restriction.  Whether it is \<open>restriction_is_securely_promotable\<close> is PostgreSQL's
  answer for its \<open>RestrictInfo\<close>.
\<close>

record plan_state =
  pls_specs :: "pnode list"
  pls_exprs :: "node list"
  pls_exprno :: int
  pls_support :: "qual_support list"

definition plan_clause :: "source_scan_mode \<Rightarrow> nat \<Rightarrow> node \<times> bool \<Rightarrow> plan_state \<Rightarrow> plan_state result" where
  "plan_clause mode relid = (\<lambda>(clause, promotable) st.
     if \<not> promotable then Inr (st\<lparr>pls_support := pls_support st @ [PG_BATCH_QUAL_UNSUPPORTED]\<rparr>)
     else
       (let direct = match_int4_comparison clause relid;
            exact = (mode = PG_BATCH_TAM_FILTER \<and> supports_filter clause relid)
        in if direct = None \<and> \<not> exact then Inr (st\<lparr>pls_support := pls_support st @ [PG_BATCH_QUAL_UNSUPPORTED]\<rparr>)
           else
             (let (filter_exprno, st) = (if exact
                    then (pls_exprno st, st\<lparr>pls_exprno := pls_exprno st + 1, pls_exprs := pls_exprs st @ [clause]\<rparr>)
                    else (- 1, st));
                  (attnum, op, scalar_exprno, st) = (case direct of
                    Some (attnum, op, scalar) \<Rightarrow>
                      (attnum, op, pls_exprno st, st\<lparr>pls_exprno := pls_exprno st + 1, pls_exprs := pls_exprs st @ [scalar]\<rparr>)
                  | None \<Rightarrow> (0, PG_BATCH_INT4_EQ, - 1, st))
              in rbind (make_qual_plan \<lparr>qp_filter_expr = filter_exprno, qp_attribute = attnum, qp_operator = op_code op,
                     qp_scalar_expr = scalar_exprno, qp_prunable = (if direct \<noteq> None then 1 else 0)\<rparr>) (\<lambda>spec.
                 Inr (st\<lparr>pls_specs := pls_specs st @ [spec],
                   pls_support := pls_support st @ [if exact then PG_BATCH_QUAL_EXACT else PG_BATCH_QUAL_PRUNE_ONLY]\<rparr>)))))"

definition make_source_plan :: "int \<times> pnode list \<Rightarrow> pnode result" where
  "make_source_plan = (\<lambda>(mode, specs).
     rbind (plan_writer_create ''PgBatchCompressedSource'' 1) (\<lambda>w.
     rbind (plan_write_int ''mode'' mode w) (\<lambda>w.
     rbind (plan_write_list ''quals'' (mk_list specs) w) (\<lambda>w.
     rbind (plan_writer_finish w) (\<lambda>(w, d). Inr d)))))"

record source_plan_result =
  spr_qual_support :: "qual_support list"
  spr_source_exprs :: "node list"
  spr_source_private :: pnode

definition plan_scan :: "nat \<Rightarrow> nat \<Rightarrow> source_scan_mode \<Rightarrow> nat \<Rightarrow> node list \<Rightarrow> bool list \<Rightarrow> source_plan_result result" where
  "plan_scan request_size result_size mode relid clauses restrictinfos =
     (if request_size < abi_size_through plan_request_layout ''project_attnums'' \<or>
         result_size < abi_size_through plan_result_layout ''source_private''
      then Inl (Elog ''pg_batch TAM received an incompatible planning request'')
      else
        rbind (if mode = PG_BATCH_TAM_BATCH
               then Inr \<lparr>pls_specs = [], pls_exprs = [], pls_exprno = 0,
                         pls_support = replicate (length clauses) PG_BATCH_QUAL_UNSUPPORTED\<rparr>
               else if length clauses \<noteq> length restrictinfos
               then Inl (Elog ''pg_batch TAM received misaligned restrictions'')
               else rfold (plan_clause mode relid) (zip clauses restrictinfos)
                 \<lparr>pls_specs = [], pls_exprs = [], pls_exprno = 0, pls_support = []\<rparr>) (\<lambda>st.
        rbind (make_source_plan (mode_code mode, pls_specs st)) (\<lambda>d.
        Inr \<lparr>spr_qual_support = pls_support st, spr_source_exprs = pls_exprs st, spr_source_private = d\<rparr>)))"

section \<open>Execution\<close>

text \<open>\<open>INDEX_VAR\<close> is -3.\<close>

definition resolve_source_var :: "int list \<Rightarrow> nat \<Rightarrow> var_node \<Rightarrow> int" where
  "resolve_source_var source_attnums nsource_columns v =
     (if varno v = - 3 \<and> varattno v \<le> int nsource_columns then varattno v - 1
      else case List.find (\<lambda>column. source_attnums ! column = varattno v) [0..<nsource_columns] of
        Some column \<Rightarrow> int column | None \<Rightarrow> - 1)"

definition read_source_plan :: "pnode \<Rightarrow> (int \<times> pnode list) result" where
  "read_source_plan source_private =
     rbind (plan_reader_create source_private ''PgBatchCompressedSource'' 1) (\<lambda>r.
     rbind (plan_read_int ''mode'' r) (\<lambda>(mode, r).
     rbind (plan_read_list ''quals'' r) (\<lambda>(specs, r).
     rbind (plan_reader_finish r) (\<lambda>_. Inr (mode, list_elems specs)))))"

definition read_qual_plan :: "pnode \<Rightarrow> qual_plan result" where
  "read_qual_plan spec =
     rbind (plan_reader_create spec ''PgBatchCompressedSourceQual'' 1) (\<lambda>r.
     rbind (plan_read_int ''filter_expr'' r) (\<lambda>(filter_exprno, r).
     rbind (plan_read_int ''attribute'' r) (\<lambda>(attnum, r).
     rbind (plan_read_int ''operator'' r) (\<lambda>(op, r).
     rbind (plan_read_int ''scalar_expr'' r) (\<lambda>(scalar_exprno, r).
     rbind (plan_read_int ''prunable'' r) (\<lambda>(prunable, r).
     rbind (plan_reader_finish r) (\<lambda>_.
     Inr \<lparr>qp_filter_expr = filter_exprno, qp_attribute = attnum, qp_operator = op, qp_scalar_expr = scalar_exprno,
          qp_prunable = prunable\<rparr>)))))))"

record 'c exec_request =
  er_struct_size :: nat
  er_relation :: tam_relation
  er_source_private :: pnode
  er_source_exprs :: "node list"
  er_max_rows :: int
  er_source_attnums :: "int list"
  er_nsource_columns :: nat
  er_econtext :: 'c

text \<open>A fresh \<open>SourceQual\<close> is zeroed; \<open>bms_make_singleton\<close> refuses a negative member.\<close>

definition begin_qual :: "'c exec_request \<Rightarrow> pnode \<Rightarrow> 'c source_qual result" where
  "begin_qual request spec =
     rbind (read_qual_plan spec) (\<lambda>q.
     rbind (if qp_filter_expr q \<ge> 0
            then rbind (compile_expression (er_source_exprs request ! nat (qp_filter_expr q)) True
                   (resolve_source_var (er_source_attnums request) (er_nsource_columns request))) (\<lambda>e.
                 if ex_column e < 0 then Inl (Elog ''negative bitmapset member not allowed'')
                 else Inr (Some e, ex_column e, {nat (ex_column e)}))
            else Inr (None, 0, {})) (\<lambda>(expr, column, mask).
     Inr \<lparr>sq_expr = expr, sq_column_mask = mask, sq_column = column, sq_prunable = (qp_prunable q \<noteq> 0),
          sq_attnum = qp_attribute q, sq_op = op_of_code (qp_operator q),
          sq_scalar_expr = (if qp_scalar_expr q \<ge> 0 then Some (er_source_exprs request ! nat (qp_scalar_expr q)) else None),
          sq_scalar = Some 0\<rparr>))"

text \<open>
  The snapshot stays as it is while its reference is held; the scan keeps it by value, and
  its place in the list for the release.  An error after the acquisition releases the
  reference when the scan's memory context is reset.
\<close>

definition begin_scan :: "'c exec_request \<Rightarrow> compressed_relation list \<Rightarrow> ('c compressed_scan \<times> nat \<times> compressed_relation list) result" where
  "begin_scan request relations =
     (if er_struct_size request < abi_size_through exec_request_layout ''nsource_columns''
      then Inl (Elog ''pg_batch TAM received an incompatible execution request'')
      else
        rbind (read_source_plan (er_source_private request)) (\<lambda>(scan_mode, specs).
        case compressed_acquire (er_relation request) relations of
          (None, relations) \<Rightarrow> Inl (Ereport ERRCODE_OBJECT_NOT_IN_PREREQUISITE_STATE ''compressed snapshot is not available for relation'')
        | (Some i, relations) \<Rightarrow>
            rbind (rfold (\<lambda>spec quals. rbind (begin_qual request spec) (\<lambda>q. Inr (quals @ [q]))) specs []) (\<lambda>quals.
            Inr (\<lparr>cs_relation = relations ! i, cs_max_rows = er_max_rows request, cs_source_attnums = er_source_attnums request,
                  cs_ncolumns = er_nsource_columns request, cs_econtext = er_econtext request, cs_quals = quals,
                  cs_mode = mode_of_code scan_mode, cs_group_index = 0, cs_batch_index = 0, cs_batch_row = 0,
                  cs_group_ready = False, cs_prune_quals_ready = False, cs_active = None,
                  cs_stats = \<lparr>st_groups_examined = 0, st_groups_skipped_minmax = 0, st_groups_skipped_membership = 0,
                    st_rows_removed_by_source_filter = 0, st_encoded_bytes_touched = 0, st_arrow_filter_columns = 0,
                    st_arrow_project_columns = 0, st_arrow_decoded_values = 0, st_filter_datums = 0, st_project_datums = 0\<rparr>\<rparr>,
                 i, relations))))"

text \<open>\<open>end_scan\<close> runs the cleanup, which gives the reference back.\<close>

definition end_scan :: "nat \<Rightarrow> compressed_relation list \<Rightarrow> compressed_relation list" where
  "end_scan i relations = compressed_release i relations"

section \<open>The plan data as codecs\<close>

abbreviation qual_plan_fields :: "qual_plan \<Rightarrow> (string \<times> pnode) list" where
  "qual_plan_fields q \<equiv> [(''filter_expr'', PInteger (qp_filter_expr q)), (''attribute'', PInteger (qp_attribute q)),
     (''operator'', PInteger (qp_operator q)), (''scalar_expr'', PInteger (qp_scalar_expr q)), (''prunable'', PInteger (qp_prunable q))]"

interpretation source_qual: plan_codec "''PgBatchCompressedSourceQual''" qual_plan_fields "\<lambda>_. True" make_qual_plan read_qual_plan
proof
  show "make_qual_plan x = Inr (PList [PString ''PgBatchCompressedSourceQual'', PInteger PG_BATCH_PLAN_DATA_VERSION,
      mk_list (fields_of (qual_plan_fields x))])" for x
    by (simp add: make_qual_plan_def write_plan_data)
  show "read_qual_plan (PList [PString ''PgBatchCompressedSourceQual'', PInteger PG_BATCH_PLAN_DATA_VERSION,
      mk_list (fields_of (qual_plan_fields x))]) = Inr x" for x
    by (simp add: read_qual_plan_def decode_simps del: fields_of_simps)
  show "\<exists>flds. d = PList [PString ''PgBatchCompressedSourceQual'', PInteger PG_BATCH_PLAN_DATA_VERSION, flds]"
    if "read_qual_plan d = Inr x" for d x
    using that unfolding read_qual_plan_def by (rule rbind_reader_kind)
qed

abbreviation source_plan_fields :: "int \<times> pnode list \<Rightarrow> (string \<times> pnode) list" where
  "source_plan_fields x \<equiv> [(''mode'', PInteger (fst x)), (''quals'', mk_list (snd x))]"

interpretation source_plan: plan_codec "''PgBatchCompressedSource''" source_plan_fields "\<lambda>_. True" make_source_plan read_source_plan
proof
  show "make_source_plan x = Inr (PList [PString ''PgBatchCompressedSource'', PInteger PG_BATCH_PLAN_DATA_VERSION,
      mk_list (fields_of (source_plan_fields x))])" for x
    by (simp add: make_source_plan_def write_plan_data split: prod.splits)
  show "read_source_plan (PList [PString ''PgBatchCompressedSource'', PInteger PG_BATCH_PLAN_DATA_VERSION,
      mk_list (fields_of (source_plan_fields x))]) = Inr x" for x
    by (simp add: read_source_plan_def decode_simps del: fields_of_simps)
  show "\<exists>flds. d = PList [PString ''PgBatchCompressedSource'', PInteger PG_BATCH_PLAN_DATA_VERSION, flds]"
    if "read_source_plan d = Inr x" for d x
    using that unfolding read_source_plan_def by (rule rbind_reader_kind)
qed

end
