(* ===== verification/Compressed_Store.thy ===== *)
theory Compressed_Store
  imports Compressed Spill_Read
begin

text \<open>
  Storing a batch: what the columns of a stored batch decode to.
\<close>

section \<open>Normalized values\<close>

fun norm_at :: "int4 list \<Rightarrow> uint64 \<Rightarrow> nat \<Rightarrow> int4" where
  "norm_at vs nn 0 = (if bit nn 0 then vs ! 0 else 0)"
| "norm_at vs nn (Suc i) = (if bit nn (Suc i) then vs ! Suc i else norm_at vs nn i)"

lemma norm_at_bit: "bit nn i \<Longrightarrow> norm_at vs nn i = vs ! i"
  by (cases i) simp_all

lemma normalized_eq: "normalized vs nn n = map (norm_at vs nn) [0..<n]"
proof -
  have "fold (\<lambda>row (last, out). let last = (if bit nn row then vs ! row else last) in (last, out @ [last])) [0..<n] (0, []) =
      (if n = 0 then 0 else norm_at vs nn (n - 1), map (norm_at vs nn) [0..<n])"
  proof (induction n)
    case (Suc n)
    then show ?case by (cases n) (simp_all add: Let_def)
  qed simp
  then show ?thesis by (simp add: normalized_def)
qed

lemma deltas_fit_iff:
  "deltas_fit lo hi (map f [0..<n]) \<longleftrightarrow> (\<forall>row. 1 \<le> row \<longrightarrow> row < n \<longrightarrow> lo \<le> sint (f row) - sint (f (row - 1)) \<and> sint (f row) - sint (f (row - 1)) \<le> hi)"
proof -
  have nth: "map f [0..<n] ! row = f row" if "row < n" for row
    using that by simp
  have "(\<not> (sint (map f [0..<n] ! row) - sint (map f [0..<n] ! (row - 1)) < lo \<or>
        sint (map f [0..<n] ! row) - sint (map f [0..<n] ! (row - 1)) > hi)) =
      (\<not> (sint (f row) - sint (f (row - 1)) < lo \<or> sint (f row) - sint (f (row - 1)) > hi))" if "row \<in> {1..<n}" for row
  proof -
    have "row < n" "row - 1 < n" using that by auto
    then show ?thesis by (simp only: nth)
  qed
  then have "deltas_fit lo hi (map f [0..<n]) \<longleftrightarrow>
      (\<forall>row \<in> {1..<n}. \<not> (sint (f row) - sint (f (row - 1)) < lo \<or> sint (f row) - sint (f (row - 1)) > hi))"
    unfolding deltas_fit_def list_all_iff Let_def length_map length_upt set_upt diff_zero by (intro ball_cong refl)
  then show ?thesis by (simp add: Ball_def not_less) blast
qed

section \<open>Validity\<close>

lemma bit_set_valid:
  assumes "length v = 8" "row < 64" "r < 64"
  shows "bit (arrow_set_valid row v ! (r div 8)) (r mod 8) \<longleftrightarrow> r = row \<or> bit (v ! (r div 8)) (r mod 8)"
proof -
  have "row div 8 < 8" "r div 8 < 8" using assms by auto
  moreover have "r div 8 = row div 8 \<and> r mod 8 = row mod 8 \<longleftrightarrow> r = row" by (metis div_mult_mod_eq)
  ultimately show ?thesis
    using assms by (auto simp: arrow_set_valid_def nth_list_update bit_simps)
qed

lemma write_validity_ok:
  assumes "length (cc_validity c) = 8" "n \<le> 64" "\<And>r. r < 64 \<Longrightarrow> \<not> bit (cc_validity c ! (r div 8)) (r mod 8)" "cc_null_count c = 0"
  shows "length (cc_validity (write_validity nn n c)) = 8 \<and>
    (\<forall>r < 64. bit (cc_validity (write_validity nn n c) ! (r div 8)) (r mod 8) \<longleftrightarrow> r < n \<and> bit nn r) \<and>
    (cc_null_count (write_validity nn n c) = 0 \<longleftrightarrow> (\<forall>r < n. bit nn r)) \<and>
    cc_encoding (write_validity nn n c) = cc_encoding c \<and> cc_base (write_validity nn n c) = cc_base c \<and>
    cc_data_offset (write_validity nn n c) = cc_data_offset c"
  using assms(2)
proof (induction n)
  case 0
  then show ?case using assms by (simp add: write_validity_def)
next
  case (Suc n)
  let ?c = "write_validity nn n c"
  have step: "write_validity nn (Suc n) c = (if bit nn n then ?c\<lparr>cc_validity := arrow_set_valid n (cc_validity ?c)\<rparr>
      else ?c\<lparr>cc_null_count := cc_null_count ?c + 1\<rparr>)"
    by (simp add: write_validity_def)
  have IH: "length (cc_validity ?c) = 8" "\<forall>r < 64. bit (cc_validity ?c ! (r div 8)) (r mod 8) \<longleftrightarrow> r < n \<and> bit nn r"
    "cc_null_count ?c = 0 \<longleftrightarrow> (\<forall>r < n. bit nn r)" "cc_encoding ?c = cc_encoding c" "cc_base ?c = cc_base c"
    "cc_data_offset ?c = cc_data_offset c"
    using Suc by simp_all
  have "length (arrow_set_valid n (cc_validity ?c)) = 8" using IH(1) by (simp add: arrow_set_valid_def)
  moreover have "\<forall>r < 64. bit (arrow_set_valid n (cc_validity ?c) ! (r div 8)) (r mod 8) \<longleftrightarrow> r < Suc n \<and> bit nn r" if "bit nn n"
    using bit_set_valid [OF IH(1), of n] IH(2) Suc.prems that by (auto simp: less_Suc_eq)
  ultimately show ?case
    using IH by (auto simp: step less_Suc_eq)
qed

section \<open>Deltas\<close>

definition data_size :: "compression \<Rightarrow> nat \<Rightarrow> nat" where
  "data_size enc n = (case enc of PG_BATCH_COMPRESS_DELTA8 \<Rightarrow> n - 1 | PG_BATCH_COMPRESS_DELTA16 \<Rightarrow> 2 * (n - 1)
     | PG_BATCH_COMPRESS_PLAIN \<Rightarrow> 4 * n)"

text \<open>What is written outside the data of a column stays.\<close>

definition same_outside :: "nat \<Rightarrow> nat \<Rightarrow> byte list \<Rightarrow> byte list \<Rightarrow> bool" where
  "same_outside a b m m' \<longleftrightarrow> length m' = length m \<and> (\<forall>i < length m. i < a \<or> b \<le> i \<longrightarrow> m' ! i = m ! i)"

lemma take_2_nth: "Suc k < length m \<Longrightarrow> take 2 (drop k m) = [m ! k, m ! Suc k]"
  by (simp add: take_Suc_conv_app_nth numeral_2_eq_2)

lemma write_delta_step:
  assumes "cc_encoding c \<noteq> PG_BATCH_COMPRESS_PLAIN" "1 \<le> row" "cc_data_offset c + data_size (cc_encoding c) (Suc row) \<le> length m"
    and "write_delta c vs nn row (l, m) = (v, m')"
  shows "v = (if bit nn row then vs ! row else l) \<and>
    same_outside (cc_data_offset c + data_size (cc_encoding c) row) (cc_data_offset c + data_size (cc_encoding c) (Suc row)) m m' \<and>
    (if cc_encoding c = PG_BATCH_COMPRESS_DELTA8 then m' ! (cc_data_offset c + (row - 1)) = word_of_int (sint v - sint l)
     else take 2 (drop (cc_data_offset c + 2 * (row - 1)) m') = bytes16 (word_of_int (sint v - sint l)))"
proof -
  let ?o = "cc_data_offset c"
  have v: "v = (if bit nn row then vs ! row else l)" using assms(4) by (auto simp: write_delta_def Let_def)
  show ?thesis
  proof (cases "cc_encoding c = PG_BATCH_COMPRESS_DELTA8")
    case True
    then have "m' = m[?o + (row - 1) := word_of_int (sint v - sint l)]"
      using assms(4) v by (auto simp: write_delta_def Let_def)
    then show ?thesis using v True assms(2,3) by (auto simp: same_outside_def data_size_def nth_list_update)
  next
    case False
    let ?k = "?o + 2 * (row - 1)" and ?b = "bytes16 (word_of_int (sint v - sint l))"
    have m': "m' = write_at ?k ?b m" using assms(4) v False by (auto simp: write_delta_def Let_def)
    have size: "data_size (cc_encoding c) row = 2 * (row - 1)" "data_size (cc_encoding c) (Suc row) = 2 * row"
      using False assms(1) by (cases "cc_encoding c"; simp add: data_size_def)+
    have fit: "?k + length ?b \<le> length m" using assms(2,3) by (simp add: size)
    have "take 2 (drop ?k m') = ?b" using fit by (simp add: m' write_at_def)
    moreover have "same_outside (?o + 2 * (row - 1)) (?o + 2 * row) m m'"
      using fit assms(2) length_write_at [OF fit] nth_write_at [OF fit] by (auto simp: same_outside_def m')
    ultimately show ?thesis using v False by (simp add: size)
  qed
qed

text \<open>The data of a column holds the deltas of the rows below \<open>n\<close>.\<close>

definition holds_deltas :: "compressed_column \<Rightarrow> (nat \<Rightarrow> int4) \<Rightarrow> nat \<Rightarrow> byte list \<Rightarrow> bool" where
  "holds_deltas c f n m \<longleftrightarrow> (\<forall>row. 1 \<le> row \<longrightarrow> row < n \<longrightarrow>
     (if cc_encoding c = PG_BATCH_COMPRESS_DELTA8 then m ! (cc_data_offset c + (row - 1)) = word_of_int (sint (f row) - sint (f (row - 1)))
      else take 2 (drop (cc_data_offset c + 2 * (row - 1)) m) = bytes16 (word_of_int (sint (f row) - sint (f (row - 1))))))"

lemma same_outside_trans: "same_outside a b m m' \<Longrightarrow> same_outside a b m' m'' \<Longrightarrow> same_outside a b m m''"
  by (simp add: same_outside_def)

lemma same_outside_mono: "same_outside a b m m' \<Longrightarrow> a' \<le> a \<Longrightarrow> b \<le> b' \<Longrightarrow> same_outside a' b' m m'"
  by (auto simp: same_outside_def)

lemma same_outside_take2:
  "same_outside a b m m' \<Longrightarrow> Suc k < length m \<Longrightarrow> Suc k < a \<or> b \<le> k \<Longrightarrow> take 2 (drop k m') = take 2 (drop k m)"
  by (auto simp: same_outside_def take_2_nth)

lemma holds_deltas_frame:
  assumes h: "holds_deltas c f n m" and o: "same_outside a b m m'" and enc: "cc_encoding c \<noteq> PG_BATCH_COMPRESS_PLAIN"
    and fit: "cc_data_offset c + data_size (cc_encoding c) n \<le> length m"
    and out: "cc_data_offset c + data_size (cc_encoding c) n \<le> a \<or> b \<le> cc_data_offset c"
  shows "holds_deltas c f n m'"
  unfolding holds_deltas_def
proof (intro allI impI)
  fix row assume row: "1 \<le> row" "row < n"
  let ?o = "cc_data_offset c"
  show "if cc_encoding c = PG_BATCH_COMPRESS_DELTA8 then m' ! (?o + (row - 1)) = word_of_int (sint (f row) - sint (f (row - 1)))
      else take 2 (drop (?o + 2 * (row - 1)) m') = bytes16 (word_of_int (sint (f row) - sint (f (row - 1))))"
  proof (cases "cc_encoding c = PG_BATCH_COMPRESS_DELTA8")
    case True
    then have "m' ! (?o + (row - 1)) = m ! (?o + (row - 1))"
      using row fit out o by (auto simp: data_size_def same_outside_def)
    then show ?thesis using h row True by (simp add: holds_deltas_def)
  next
    case False
    then have size: "data_size (cc_encoding c) n = 2 * (n - 1)" using enc by (cases "cc_encoding c") (simp_all add: data_size_def)
    have "take 2 (drop (?o + 2 * (row - 1)) m') = take 2 (drop (?o + 2 * (row - 1)) m)"
      by (rule same_outside_take2 [OF o]) (use row fit out in \<open>auto simp: size\<close>)
    then show ?thesis using h row False by (simp add: holds_deltas_def)
  qed
qed

lemma write_deltas:
  assumes enc: "cc_encoding c \<noteq> PG_BATCH_COMPRESS_PLAIN" and base: "cc_base c = norm_at vs nn 0"
    and fit: "cc_data_offset c + data_size (cc_encoding c) n \<le> length m" and n: "0 < n"
  shows "fst (fold (write_delta c vs nn) [1..<n] (cc_base c, m)) = norm_at vs nn (n - 1) \<and>
    same_outside (cc_data_offset c) (cc_data_offset c + data_size (cc_encoding c) n) m (snd (fold (write_delta c vs nn) [1..<n] (cc_base c, m))) \<and>
    holds_deltas c (norm_at vs nn) n (snd (fold (write_delta c vs nn) [1..<n] (cc_base c, m)))"
  using n fit
proof (induction n rule: nat_induct_non_zero)
  case 1
  then show ?case using base by (simp add: same_outside_def holds_deltas_def)
next
  case (Suc n)
  let ?f = "fold (write_delta c vs nn)" and ?o = "cc_data_offset c" and ?size = "data_size (cc_encoding c)"
  obtain l m1 where m1: "?f [1..<n] (cc_base c, m) = (l, m1)" by (cases "?f [1..<n] (cc_base c, m)")
  obtain v m2 where m2: "write_delta c vs nn n (l, m1) = (v, m2)" by (cases "write_delta c vs nn n (l, m1)")
  have mono: "?size n \<le> ?size (Suc n)" by (simp add: data_size_def split: compression.splits)
  have IH: "l = norm_at vs nn (n - 1)" "same_outside ?o (?o + ?size n) m m1" "holds_deltas c (norm_at vs nn) n m1"
    using Suc.IH Suc.prems mono m1 by simp_all
  have len: "length m1 = length m" using IH(2) by (simp add: same_outside_def)
  have step: "v = (if bit nn n then vs ! n else l)" "same_outside (?o + ?size n) (?o + ?size (Suc n)) m1 m2"
    "if cc_encoding c = PG_BATCH_COMPRESS_DELTA8 then m2 ! (?o + (n - 1)) = word_of_int (sint v - sint l)
     else take 2 (drop (?o + 2 * (n - 1)) m2) = bytes16 (word_of_int (sint v - sint l))"
    using write_delta_step [OF enc _ _ m2] Suc.hyps Suc.prems len by auto
  have v: "v = norm_at vs nn n" using step(1) IH(1) Suc.hyps by (cases n) simp_all
  have "holds_deltas c (norm_at vs nn) n m2"
    by (rule holds_deltas_frame [OF IH(3) step(2) enc]) (use Suc.prems mono len in simp_all)
  then have "holds_deltas c (norm_at vs nn) (Suc n) m2"
    using step(3) IH(1) v by (auto simp: holds_deltas_def less_Suc_eq)
  moreover have "same_outside ?o (?o + ?size (Suc n)) m m2"
    by (rule same_outside_trans [OF same_outside_mono [OF IH(2)] same_outside_mono [OF step(2)]]) (use mono in simp_all)
  moreover have "?f [1..<Suc n] (cc_base c, m) = (v, m2)" using m1 m2 Suc.hyps by simp
  ultimately show ?case using v by simp
qed

section \<open>Decoding\<close>

text \<open>The deltas of an encoding fit its width.\<close>

definition encoding_fits :: "compression \<Rightarrow> (nat \<Rightarrow> int4) \<Rightarrow> nat \<Rightarrow> bool" where
  "encoding_fits enc f n \<longleftrightarrow> (case enc of
     PG_BATCH_COMPRESS_PLAIN \<Rightarrow> True
   | PG_BATCH_COMPRESS_DELTA8 \<Rightarrow> deltas_fit (- 128) 127 (map f [0..<n])
   | PG_BATCH_COMPRESS_DELTA16 \<Rightarrow> deltas_fit (- 32768) 32767 (map f [0..<n]))"

lemma choose_compression_ok:
  assumes "choose_compression vs nn n = (enc, base, sz)" "0 < n"
  shows "sz = data_size enc n \<and> base = norm_at vs nn 0 \<and> encoding_fits enc (norm_at vs nn) n"
  using assms by (auto simp: choose_compression_def Let_def normalized_eq data_size_def encoding_fits_def split: if_splits)

lemma sint_word8: "- 128 \<le> d \<Longrightarrow> d \<le> 127 \<Longrightarrow> sint (word_of_int d :: 8 word) = d"
  by (simp add: signed_of_int signed_take_bit_int_eq_self)

lemma sint_word16: "- 32768 \<le> d \<Longrightarrow> d \<le> 32767 \<Longrightarrow> sint (word_of_int d :: 16 word) = d"
  by (simp add: signed_of_int signed_take_bit_int_eq_self)

lemma read_delta_eq:
  assumes "holds_deltas c f n m" "cc_encoding c \<noteq> PG_BATCH_COMPRESS_PLAIN" "encoding_fits (cc_encoding c) f n" "1 \<le> row" "row < n"
  shows "f (row - 1) + read_delta c m row = f row"
proof -
  define d where "d = sint (f row) - sint (f (row - 1))"
  have "read_delta c m row = word_of_int d"
  proof (cases "cc_encoding c = PG_BATCH_COMPRESS_DELTA8")
    case True
    then have "- 128 \<le> d" "d \<le> 127" using assms(3-5) by (simp_all add: d_def encoding_fits_def deltas_fit_iff)
    moreover have "m ! (cc_data_offset c + (row - 1)) = word_of_int d"
      using assms(1,4,5) True unfolding holds_deltas_def d_def by (simp only: if_True)
    ultimately show ?thesis using True by (simp only: read_delta_def sint_word8 simp_thms if_True)
  next
    case False
    then have "cc_encoding c = PG_BATCH_COMPRESS_DELTA16" using assms(2) by (cases "cc_encoding c") simp_all
    then have "- 32768 \<le> d" "d \<le> 32767" using assms(3-5) by (simp_all add: d_def encoding_fits_def deltas_fit_iff)
    moreover have "take 2 (drop (cc_data_offset c + 2 * (row - 1)) m) = bytes16 (word_of_int d)"
      using assms(1,4,5) False unfolding holds_deltas_def d_def by (simp only: if_False)
    ultimately show ?thesis using False by (simp only: read_delta_def word16_of_bytes16 sint_word16 if_False)
  qed
  then show ?thesis by (simp add: d_def)
qed

lemma decode_deltas:
  assumes "cc_encoding c \<noteq> PG_BATCH_COMPRESS_PLAIN" "holds_deltas c f n m" "encoding_fits (cc_encoding c) f n" "cc_base c = f 0"
    and "0 < k" "k \<le> n"
  shows "fold (\<lambda>row decoded. decoded @ [decoded ! (row - 1) + read_delta c m row]) [1..<k] [cc_base c] = map f [0..<k]"
  using assms(5,6)
proof (induction k rule: nat_induct_non_zero)
  case 1
  then show ?case using assms(4) by simp
next
  case (Suc k)
  have "f (k - 1) + read_delta c m k = f k"
    by (rule read_delta_eq [OF assms(2,1,3)]) (use Suc in simp_all)
  then show ?case using Suc by simp
qed

text \<open>What a column of a stored batch reads as, at a row.\<close>

definition stored_cell :: "compressed_batch \<Rightarrow> compressed_column \<Rightarrow> nat \<Rightarrow> int4 option" where
  "stored_cell batch stored row =
     (if bit (cc_validity stored ! (row div 8)) (row mod 8) then Some (column_values_of batch stored ! row) else None)"

definition column_end :: "nat \<Rightarrow> compressed_column \<Rightarrow> nat" where
  "column_end n c = cc_data_offset c + data_size (cc_encoding c) n"

definition stored_ok :: "nat \<Rightarrow> compressed_column \<Rightarrow> (nat \<Rightarrow> int4 option) \<Rightarrow> byte list \<Rightarrow> bool" where
  "stored_ok n c f m \<longleftrightarrow> column_end n c \<le> length m \<and> length (cc_validity c) = 8 \<and>
     (cc_null_count c = 0 \<longleftrightarrow> (\<forall>r < n. f r \<noteq> None)) \<and>
     (\<forall>b. cb_nrows b = n \<longrightarrow> cb_memory b = m \<longrightarrow> length (column_values_of b c) = n \<and> (\<forall>r < n. stored_cell b c r = f r))"

lemma write_column_ok:
  assumes choose: "choose_compression vs nn n = (enc, base, sz)" and n: "0 < n" "n \<le> 64" "n \<le> length vs"
    and c: "c = \<lparr>cc_encoding = enc, cc_validity = replicate 8 0, cc_null_count = 0, cc_base = base, cc_data_offset = off\<rparr>"
    and fit: "off + sz \<le> length m"
    and w: "write_column vs nn n c m = (c', m')"
  shows "stored_ok n c' (\<lambda>r. if bit nn r then Some (vs ! r) else None) m' \<and> same_outside off (off + sz) m m' \<and>
    cc_data_offset c' = off \<and> column_end n c' = off + sz"
proof -
  have ch: "sz = data_size enc n" "base = norm_at vs nn 0" "encoding_fits enc (norm_at vs nn) n"
    using choose_compression_ok [OF choose n(1)] by simp_all
  have c': "c' = write_validity nn n c" using w by (auto simp: write_column_def Let_def split: if_splits)
  have zero: "\<not> bit (cc_validity c ! (r div 8)) (r mod 8)" if "r < 64" for r
    using that by (simp add: c nth_replicate less_mult_imp_div_less)
  have v: "length (cc_validity c') = 8"
    "\<forall>r < 64. bit (cc_validity c' ! (r div 8)) (r mod 8) \<longleftrightarrow> r < n \<and> bit nn r"
    "cc_null_count c' = 0 \<longleftrightarrow> (\<forall>r < n. bit nn r)"
    "cc_encoding c' = enc" "cc_base c' = base" "cc_data_offset c' = off"
    using write_validity_ok [of c n nn] n(2) zero by (simp_all add: c' c)
  have end': "column_end n c' = off + sz" by (simp add: column_end_def v ch)
  have vals: "same_outside off (off + sz) m m' \<and> (\<forall>b. cb_nrows b = n \<longrightarrow> cb_memory b = m' \<longrightarrow>
      length (column_values_of b c') = n \<and> (\<forall>r < n. bit nn r \<longrightarrow> column_values_of b c' ! r = vs ! r))"
  proof (cases "enc = PG_BATCH_COMPRESS_PLAIN")
    case True
    let ?bs = "bytes_of_words (take n vs)"
    have m': "m' = write_at off ?bs m" using w True v(4,6) by (simp add: write_column_def Let_def c' split: if_splits)
    have sz: "sz = length ?bs" using True n(3) by (simp add: ch data_size_def)
    have "same_outside off (off + sz) m m'"
      using fit sz nth_write_at [of off ?bs m] length_write_at [of off ?bs m] by (auto simp: m' same_outside_def)
    moreover have "take (4 * n) (drop off m') = ?bs"
      using fit sz n(3) by (simp add: m' write_at_def)
    then have "column_values_of b c' = take n vs" if "cb_nrows b = n" "cb_memory b = m'" for b
      using that True v(4,6) by (simp add: column_values_of_def)
    ultimately show ?thesis using n(3) by simp
  next
    case False
    have m': "m' = snd (fold (write_delta c' vs nn) [1..<n] (cc_base c', m))"
      using w False v(4) by (auto simp: write_column_def Let_def c' split: if_splits)
    have d: "same_outside off (off + sz) m m'" "holds_deltas c' (norm_at vs nn) n m'"
      using write_deltas [of c' vs nn n m] False v fit n(1) ch by (simp_all add: m')
    have "column_values_of b c' = map (norm_at vs nn) [0..<n]" if "cb_nrows b = n" "cb_memory b = m'" for b
      using decode_deltas [of c' "norm_at vs nn" n m' n] False v d(2) ch n(1) that by (simp add: column_values_of_def)
    then show ?thesis using d(1) by (simp add: norm_at_bit)
  qed
  have len: "length m' = length m" using vals by (simp add: same_outside_def)
  show ?thesis
    using vals v n(2) end' fit len by (auto simp: stored_ok_def stored_cell_def)
qed

section \<open>A batch\<close>

lemma same_outside_slice:
  assumes "same_outside a b m m'" "k + l \<le> length m" "k + l \<le> a \<or> b \<le> k"
  shows "take l (drop k m') = take l (drop k m)"
  using assms by (auto simp: same_outside_def intro!: nth_equalityI)

lemma read_delta_frame:
  assumes "same_outside a b m m'" "column_end n c \<le> length m" "column_end n c \<le> a \<or> b \<le> cc_data_offset c"
    and "cc_encoding c \<noteq> PG_BATCH_COMPRESS_PLAIN" "1 \<le> row" "row < n"
  shows "read_delta c m' row = read_delta c m row"
proof (cases "cc_encoding c = PG_BATCH_COMPRESS_DELTA8")
  case True
  then have "m' ! (cc_data_offset c + (row - 1)) = m ! (cc_data_offset c + (row - 1))"
    using assms by (auto simp: same_outside_def column_end_def data_size_def)
  then show ?thesis using True by (simp only: read_delta_def if_True simp_thms)
next
  case False
  then have size: "data_size (cc_encoding c) n = 2 * (n - 1)" using assms(4) by (cases "cc_encoding c") (simp_all add: data_size_def)
  have "take 2 (drop (cc_data_offset c + 2 * (row - 1)) m') = take 2 (drop (cc_data_offset c + 2 * (row - 1)) m)"
    by (rule same_outside_slice [OF assms(1)]) (use assms in \<open>auto simp: column_end_def size\<close>)
  then show ?thesis using False by (simp only: read_delta_def if_False)
qed

lemma stored_ok_frame:
  assumes ok: "stored_ok n c f m" and o: "same_outside a b m m'"
    and out: "column_end n c \<le> a \<or> b \<le> cc_data_offset c"
  shows "stored_ok n c f m'"
proof -
  have fit: "column_end n c \<le> length m" using ok by (simp add: stored_ok_def)
  have "column_values_of b c = column_values_of (b\<lparr>cb_memory := m\<rparr>) c" if "cb_nrows b = n" "cb_memory b = m'" for b
  proof (cases "cc_encoding c = PG_BATCH_COMPRESS_PLAIN")
    case True
    have "take (4 * n) (drop (cc_data_offset c) m') = take (4 * n) (drop (cc_data_offset c) m)"
      by (rule same_outside_slice [OF o]) (use True fit out in \<open>auto simp: column_end_def data_size_def\<close>)
    then show ?thesis using True that by (simp add: column_values_of_def)
  next
    case False
    then have "read_delta c m' row = read_delta c m row" if "row \<in> set [1..<n]" for row
      using read_delta_frame [OF o fit out False, of row] that by simp
    then have "fold (\<lambda>row decoded. decoded @ [decoded ! (row - 1) + read_delta c m' row]) [1..<n] [cc_base c] =
        fold (\<lambda>row decoded. decoded @ [decoded ! (row - 1) + read_delta c m row]) [1..<n] [cc_base c]"
      by (intro fold_cong refl) simp_all
    then show ?thesis using False that by (simp add: column_values_of_def)
  qed
  then have "stored_cell b c = stored_cell (b\<lparr>cb_memory := m\<rparr>) c \<and> length (column_values_of b c) = length (column_values_of (b\<lparr>cb_memory := m\<rparr>) c)"
    if "cb_nrows b = n" "cb_memory b = m'" for b
    using that by (simp add: stored_cell_def fun_eq_iff)
  then have "length (column_values_of b c) = n \<and> (\<forall>r < n. stored_cell b c r = f r)"
    if "cb_nrows b = n" "cb_memory b = m'" for b
    using ok that unfolding stored_ok_def
    by (elim conjE allE [where x = "b\<lparr>cb_memory := m\<rparr>"]) simp
  moreover have "length m' = length m" using o by (simp add: same_outside_def)
  ultimately show ?thesis using ok by (simp add: stored_ok_def)
qed

lemma maxalign_ge: "n \<le> maxalign n"
  by (simp add: maxalign_def)

text \<open>The input of a batch, at a column and a row.\<close>

definition input_cell :: "int4 list \<Rightarrow> uint64 list \<Rightarrow> nat \<Rightarrow> nat \<Rightarrow> int4 option" where
  "input_cell vs nn column row = (if bit (nn ! column) row then Some (vs ! (column * PG_BATCH_SIZE64 + row)) else None)"

definition column_bytes :: "int4 list \<Rightarrow> uint64 list \<Rightarrow> nat \<Rightarrow> nat \<Rightarrow> nat" where
  "column_bytes vs nn n column = maxalign (snd (snd (choose_compression (column_slice vs column) (nn ! column) n)))"

lemma column_slice_ok:
  assumes "length vs = ncols * 64" "column < ncols"
  shows "length (column_slice vs column) = 64 \<and> (\<forall>row < 64. column_slice vs column ! row = vs ! (column * 64 + row))"
proof -
  have "(column + 1) * 64 \<le> ncols * 64" using assms(2) by (intro mult_le_mono1) simp
  then show ?thesis using assms(1) by (simp add: column_slice_def)
qed

lemma store_columns:
  assumes len: "length vs = ncols * 64" and n: "0 < n" "n \<le> 64" and k: "k \<le> ncols"
    and fit: "off + (\<Sum>column < k. column_bytes vs nn n column) \<le> length m"
    and f: "fold (store_column vs nn n) [0..<k] (off, [], m) = (off', cs, m')"
  shows "off' = off + (\<Sum>column < k. column_bytes vs nn n column) \<and> length cs = k \<and> length m' = length m \<and>
    (\<forall>j < k. stored_ok n (cs ! j) (input_cell vs nn j) m' \<and> column_end n (cs ! j) \<le> off')"
  using k fit f
proof (induction k arbitrary: off' cs m')
  case 0
  then show ?case by simp
next
  case (Suc k)
  let ?S = "\<lambda>k. \<Sum>column < k. column_bytes vs nn n column" and ?v = "column_slice vs k"
  obtain o1 cs1 m1 where f1: "fold (store_column vs nn n) [0..<k] (off, [], m) = (o1, cs1, m1)"
    by (cases "fold (store_column vs nn n) [0..<k] (off, [], m)")
  have IH: "o1 = off + ?S k" "length cs1 = k" "length m1 = length m"
    "\<forall>j < k. stored_ok n (cs1 ! j) (input_cell vs nn j) m1 \<and> column_end n (cs1 ! j) \<le> o1"
    using Suc.IH [OF _ _ f1] Suc.prems(1,2) by auto
  obtain enc base sz where ch: "choose_compression ?v (nn ! k) n = (enc, base, sz)"
    by (cases "choose_compression ?v (nn ! k) n")
  obtain c m2 where w: "write_column ?v (nn ! k) n
      \<lparr>cc_encoding = enc, cc_validity = replicate 8 0, cc_null_count = 0, cc_base = base, cc_data_offset = o1\<rparr> m1 = (c, m2)"
    (is "?w = _") by (cases ?w)
  have step: "off' = o1 + maxalign sz" "cs = cs1 @ [c]" "m' = m2"
    using Suc.prems(3) by (simp_all add: f1) (simp_all add: store_column_def ch w)
  have slice: "length ?v = 64" "\<forall>row < 64. ?v ! row = vs ! (k * 64 + row)"
    using column_slice_ok [OF len, of k] Suc.prems(1) by simp_all
  have bytes: "column_bytes vs nn n k = maxalign sz" by (simp add: column_bytes_def ch)
  have room: "o1 + sz \<le> length m1" using Suc.prems(2) IH(1,3) bytes maxalign_ge [of sz] by simp
  have c: "stored_ok n c (\<lambda>r. if bit (nn ! k) r then Some (?v ! r) else None) m2" "same_outside o1 (o1 + sz) m1 m2"
    "column_end n c = o1 + sz"
    using write_column_ok [OF ch n _ refl room w] n slice(1) by simp_all
  have "stored_ok n c (input_cell vs nn k) m2"
    using c(1) slice(2) n(2) by (auto simp: stored_ok_def input_cell_def)
  moreover have "stored_ok n (cs1 ! j) (input_cell vs nn j) m2 \<and> column_end n (cs1 ! j) \<le> off'" if "j < k" for j
    using stored_ok_frame [OF _ c(2), of n "cs1 ! j"] IH(4) that step(1) by (meson trans_le_add1)
  ultimately have "\<forall>j < Suc k. stored_ok n (cs ! j) (input_cell vs nn j) m' \<and> column_end n (cs ! j) \<le> off'"
    using IH(2) step c(3) maxalign_ge [of sz] by (auto simp: less_Suc_eq nth_append)
  moreover have "off' = off + ?S (Suc k)" "length cs = Suc k" using step IH bytes by simp_all
  moreover have "length m' = length m" using step(3) IH(3) c(2) by (simp add: same_outside_def)
  ultimately show ?case by blast
qed

lemma fold_bytes: "fold (\<lambda>column bytes. bytes + (f column :: nat)) [0..<k] h = h + (\<Sum>column < k. f column)"
  by (induction k) simp_all

text \<open>The contract of a stored batch.\<close>

definition batch_holds :: "compressed_batch \<Rightarrow> nat \<Rightarrow> nat \<Rightarrow> (nat \<Rightarrow> nat \<Rightarrow> int4 option) \<Rightarrow> bool" where
  "batch_holds b ncols n f \<longleftrightarrow> cb_nrows b = n \<and> length (cb_memory b) = cb_bytes b \<and> length (cb_columns b) = ncols \<and>
     (\<forall>column < ncols. stored_ok n (cb_columns b ! column) (f column) (cb_memory b))"

lemma build_compressed_batch_ok:
  assumes "length vs = ncols * 64" "0 < n" "n \<le> 64"
  shows "batch_holds (build_compressed_batch vs nn ncols n) ncols n (input_cell vs nn)"
proof -
  let ?h = "maxalign (batch_header_size ncols)" and ?S = "\<Sum>column < ncols. column_bytes vs nn n column"
  obtain off cs m where f: "fold (store_column vs nn n) [0..<ncols] (?h, [], replicate (?h + ?S) 0) = (off, cs, m)"
    by (cases "fold (store_column vs nn n) [0..<ncols] (?h, [], replicate (?h + ?S) 0)")
  have "build_compressed_batch vs nn ncols n = \<lparr>cb_nrows = n, cb_bytes = ?h + ?S, cb_columns = cs, cb_memory = m\<rparr>"
    using f by (simp add: build_compressed_batch_def fold_bytes column_bytes_def [symmetric])
  then show ?thesis
    using store_columns [OF assms order.refl _ f] by (simp add: batch_holds_def)
qed

end
