(* ===== verification/Compressed_Snapshot.thy ===== *)
theory Compressed_Snapshot
  imports Compressed_Store
begin

text \<open>
  A compressed snapshot: the batches hold the rows of the table in order, the groups tile
  the batches, and the metadata of a group summarises the values of its rows.
\<close>

type_synonym int4_row = "int4 option list"

section \<open>Group metadata\<close>

definition summarises :: "group_column \<Rightarrow> int4 list \<Rightarrow> bool" where
  "summarises meta vs \<longleftrightarrow> (gc_has_nonnull meta \<longleftrightarrow> vs \<noteq> []) \<and>
     (\<forall>v \<in> set vs. sint (gc_minimum meta) \<le> sint v \<and> sint v \<le> sint (gc_maximum meta)) \<and>
     (vs \<noteq> [] \<longrightarrow> gc_minimum meta \<in> set vs \<and> gc_maximum meta \<in> set vs) \<and>
     distinct (gc_distinct meta) \<and> length (gc_distinct meta) \<le> PG_BATCH_DISTINCT_VALUES \<and> set (gc_distinct meta) \<subseteq> set vs \<and>
     (if gc_distinct_overflow meta then PG_BATCH_DISTINCT_VALUES < card (set vs) else set (gc_distinct meta) = set vs)"

lemma summarises_empty:
  "summarises \<lparr>gc_has_nonnull = False, gc_distinct_overflow = False, gc_minimum = 0, gc_maximum = 0, gc_distinct = []\<rparr> []"
  by (simp add: summarises_def)

lemma summarises_value:
  assumes "summarises meta vs"
  shows "summarises (update_group_value v meta) (vs @ [v])"
proof -
  define m1 where "m1 = (if \<not> gc_has_nonnull meta then meta\<lparr>gc_has_nonnull := True, gc_minimum := v, gc_maximum := v\<rparr>
      else meta\<lparr>gc_minimum := (if sint (gc_minimum meta) < sint v then gc_minimum meta else v),
                gc_maximum := (if sint (gc_maximum meta) > sint v then gc_maximum meta else v)\<rparr>)"
  have bounds: "gc_has_nonnull m1" "\<forall>w \<in> set (vs @ [v]). sint (gc_minimum m1) \<le> sint w \<and> sint w \<le> sint (gc_maximum m1)"
    "gc_minimum m1 \<in> set (vs @ [v]) \<and> gc_maximum m1 \<in> set (vs @ [v])"
    using assms by (auto simp: m1_def summarises_def)
  have rest: "gc_distinct m1 = gc_distinct meta" "gc_distinct_overflow m1 = gc_distinct_overflow meta"
    by (simp_all add: m1_def)
  have d: "distinct (gc_distinct meta)" "length (gc_distinct meta) \<le> 16" "set (gc_distinct meta) \<subseteq> set vs"
    "if gc_distinct_overflow meta then 16 < card (set vs) else set (gc_distinct meta) = set vs"
    using assms by (simp_all add: summarises_def)
  have step: "update_group_value v meta = (if gc_distinct_overflow meta then m1
      else if v \<notin> set (gc_distinct meta) \<and> length (gc_distinct meta) < 16 then m1\<lparr>gc_distinct := gc_distinct meta @ [v]\<rparr>
      else if v \<notin> set (gc_distinct meta) then m1\<lparr>gc_distinct_overflow := True\<rparr> else m1)"
    by (simp add: update_group_value_def Let_def m1_def [symmetric] rest list_ex_iff)
  consider "gc_distinct_overflow meta" | "\<not> gc_distinct_overflow meta" "v \<in> set vs"
    | "\<not> gc_distinct_overflow meta" "v \<notin> set vs" "length (gc_distinct meta) < 16"
    | "\<not> gc_distinct_overflow meta" "v \<notin> set vs" "length (gc_distinct meta) = 16"
    using d(2) by linarith
  then show ?thesis
  proof cases
    case 1
    moreover have "card (set vs) \<le> card (set (vs @ [v]))" by (rule card_mono) auto
    ultimately show ?thesis using bounds rest d by (auto simp: step summarises_def)
  next
    case 2
    then show ?thesis using bounds rest d by (auto simp: step summarises_def insert_absorb)
  next
    case 3
    then show ?thesis using bounds rest d by (auto simp: step summarises_def)
  next
    case 4
    then have "card (set vs) = 16" using d distinct_card [OF d(1)] by simp
    then have "card (set (vs @ [v])) = 17" using 4(2) by simp
    then show ?thesis using 4 bounds rest d by (auto simp: step summarises_def)
  qed
qed

definition column_nonnull :: "nat \<Rightarrow> int4_row list \<Rightarrow> int4 list" where
  "column_nonnull column rows = List.map_filter (\<lambda>row. row ! column) rows"

lemma column_nonnull_append [simp]: "column_nonnull c (xs @ ys) = column_nonnull c xs @ column_nonnull c ys"
  by (simp add: column_nonnull_def List.map_filter_def)

definition input_rows :: "int4 list \<Rightarrow> uint64 list \<Rightarrow> nat \<Rightarrow> nat \<Rightarrow> int4_row list" where
  "input_rows vs nn ncols n = map (\<lambda>row. map (\<lambda>column. input_cell vs nn column row) [0..<ncols]) [0..<n]"

lemma input_rows_Suc: "input_rows vs nn ncols (Suc n) = input_rows vs nn ncols n @ [map (\<lambda>column. input_cell vs nn column n) [0..<ncols]]"
  by (simp add: input_rows_def)

lemma length_input_rows [simp]: "length (input_rows vs nn ncols n) = n"
  by (simp add: input_rows_def)

lemma summarises_column:
  assumes "summarises meta ws" "column < ncols"
  shows "summarises (update_group_column vs nn n column meta) (ws @ column_nonnull column (input_rows vs nn ncols n))"
proof (induction n)
  case 0
  then show ?case using assms(1) by (simp add: update_group_column_def input_rows_def column_nonnull_def List.map_filter_def)
next
  case (Suc n)
  have "column_nonnull column [map (\<lambda>column. input_cell vs nn column n) [0..<ncols]] =
      (if bit (nn ! column) n then [vs ! (column * 64 + n)] else [])"
    using assms(2) by (simp add: column_nonnull_def List.map_filter_def input_cell_def)
  moreover have "update_group_column vs nn (Suc n) column meta =
      (if \<not> bit (nn ! column) n then update_group_column vs nn n column meta
       else update_group_value (vs ! (column * 64 + n)) (update_group_column vs nn n column meta))"
    by (simp add: update_group_column_def)
  ultimately show ?case
    using Suc.IH summarises_value [OF Suc.IH] by (simp add: input_rows_Suc)
qed

lemma fold_update_each:
  "k \<le> length cs \<Longrightarrow> length (fold (\<lambda>column cs. cs[column := f column (cs ! column)]) [0..<k] cs) = length cs \<and>
    (\<forall>c < length cs. fold (\<lambda>column cs. cs[column := f column (cs ! column)]) [0..<k] cs ! c = (if c < k then f c (cs ! c) else cs ! c))"
  by (induction k) (auto simp: nth_list_update less_Suc_eq)

section \<open>The relation\<close>

text \<open>The groups cover the batches from \<open>s\<close> on, one after the other.\<close>

fun tiles :: "nat \<Rightarrow> storage_group list \<Rightarrow> nat \<Rightarrow> bool" where
  "tiles s [] k \<longleftrightarrow> s = k"
| "tiles s (g # gs) k \<longleftrightarrow> sg_first_batch g = s \<and> tiles (s + sg_nbatches g) gs k"

lemma tiles_append: "tiles s (gs @ hs) k \<longleftrightarrow> (\<exists>m. tiles s gs m \<and> tiles m hs k)"
  by (induction gs arbitrary: s) auto

lemma tiles_le: "tiles s gs k \<Longrightarrow> s \<le> k"
  by (induction gs arbitrary: s) (auto dest: le_trans [OF le_add1])

definition group_ok :: "nat \<Rightarrow> int4_row list list \<Rightarrow> storage_group \<Rightarrow> bool" where
  "group_ok ncols chunks g \<longleftrightarrow> length (sg_columns g) = ncols \<and>
     (\<forall>column < ncols. summarises (sg_columns g ! column)
        (column_nonnull column (concat (take (sg_nbatches g) (drop (sg_first_batch g) chunks)))))"

definition batch_rows_ok :: "nat \<Rightarrow> int4_row list \<Rightarrow> compressed_batch \<Rightarrow> bool" where
  "batch_rows_ok ncols rows b \<longleftrightarrow> rows \<noteq> [] \<and> length rows \<le> PG_BATCH_SIZE64 \<and> (\<forall>row \<in> set rows. length row = ncols) \<and>
     batch_holds b ncols (length rows) (\<lambda>column row. rows ! row ! column)"

definition relation_holds :: "compressed_relation \<Rightarrow> int4_row list list \<Rightarrow> bool" where
  "relation_holds rel chunks \<longleftrightarrow>
     list_all2 (batch_rows_ok (cr_ncolumns rel)) chunks (cr_batches rel) \<and> tiles 0 (cr_groups rel) (length (cr_batches rel)) \<and>
     (\<forall>g \<in> set (cr_groups rel). group_ok (cr_ncolumns rel) chunks g \<and> sg_nbatches g \<le> cr_group_batches rel)"

lemma batch_rows_ok_input:
  assumes "length vs = ncols * 64" "0 < n" "n \<le> 64"
  shows "batch_rows_ok ncols (input_rows vs nn ncols n) (build_compressed_batch vs nn ncols n)"
proof -
  have cell: "input_rows vs nn ncols n ! row ! column = input_cell vs nn column row" if "row < n" "column < ncols" for row column
    using that by (simp add: input_rows_def)
  have "stored_ok n c (\<lambda>row. input_rows vs nn ncols n ! row ! column) m" if "stored_ok n c (input_cell vs nn column) m" "column < ncols" for c m column
    using that cell by (simp add: stored_ok_def)
  then have "batch_holds (build_compressed_batch vs nn ncols n) ncols n (\<lambda>column row. input_rows vs nn ncols n ! row ! column)"
    using build_compressed_batch_ok [OF assms, of nn] unfolding batch_holds_def by blast
  moreover have "input_rows vs nn ncols n \<noteq> []" "\<forall>row \<in> set (input_rows vs nn ncols n). length row = ncols"
    using assms(2) by (auto simp: input_rows_def)
  ultimately show ?thesis using assms(3) by (simp add: batch_rows_ok_def)
qed

lemma group_ok_more:
  assumes "group_ok ncols chunks g" "sg_first_batch g + sg_nbatches g \<le> length chunks"
  shows "group_ok ncols (chunks @ more_chunks) g"
  using assms by (simp add: group_ok_def)

lemma tiles_in:
  assumes "tiles s gs k" "g \<in> set gs"
  shows "s \<le> sg_first_batch g \<and> sg_first_batch g + sg_nbatches g \<le> k"
  using assms
proof (induction gs arbitrary: s)
  case (Cons h gs)
  then show ?case using tiles_le [of "s + sg_nbatches h" gs k] by fastforce
qed simp

section \<open>Appending a batch\<close>

lemma append_group_holds:
  assumes "relation_holds rel chunks"
  shows "relation_holds (append_group rel) chunks"
proof -
  have "summarises (replicate (cr_ncolumns rel) \<lparr>gc_has_nonnull = False, gc_distinct_overflow = False, gc_minimum = 0,
      gc_maximum = 0, gc_distinct = []\<rparr> ! column) (column_nonnull column [])" if "column < cr_ncolumns rel" for column
    using summarises_empty that by (simp add: column_nonnull_def List.map_filter_def)
  then show ?thesis
    using assms by (auto simp: relation_holds_def append_group_def tiles_append group_ok_def)
qed

lemma group_ok_update:
  assumes g: "group_ok ncols chunks g" and whole: "sg_first_batch g + sg_nbatches g = length chunks"
  shows "group_ok ncols (chunks @ [input_rows vs nn ncols n]) (update_group vs nn ncols n g)"
proof -
  let ?cs = "sg_columns g"
  have len: "length ?cs = ncols" using g by (simp add: group_ok_def)
  note each = fold_update_each [of ncols ?cs "update_group_column vs nn n"]
  have "summarises (update_group_column vs nn n column (?cs ! column))
      (column_nonnull column (concat (take (sg_nbatches g) (drop (sg_first_batch g) chunks))) @
       column_nonnull column (input_rows vs nn ncols n))" if "column < ncols" for column
    by (rule summarises_column [OF _ that]) (use g that in \<open>simp add: group_ok_def\<close>)
  then show ?thesis
    using each len whole [symmetric] by (simp add: group_ok_def update_group_def)
qed

lemma append_compressed_batch_holds:
  assumes r: "relation_holds rel chunks" and gb: "0 < cr_group_batches rel"
    and vs: "length vs = cr_ncolumns rel * 64" and n: "0 < n" "n \<le> 64"
  shows "relation_holds (append_compressed_batch vs nn n rel) (chunks @ [input_rows vs nn (cr_ncolumns rel) n]) \<and>
    cr_ncolumns (append_compressed_batch vs nn n rel) = cr_ncolumns rel \<and>
    cr_group_batches (append_compressed_batch vs nn n rel) = cr_group_batches rel"
proof -
  define rel1 where "rel1 = (if cr_groups rel = [] \<or> sg_nbatches (last (cr_groups rel)) = cr_group_batches rel
      then append_group rel else rel)"
  have r1: "relation_holds rel1 chunks" using r append_group_holds by (simp add: rel1_def)
  have same: "cr_ncolumns rel1 = cr_ncolumns rel" "cr_group_batches rel1 = cr_group_batches rel" "cr_batches rel1 = cr_batches rel"
    by (simp_all add: rel1_def append_group_def)
  have ne: "cr_groups rel1 \<noteq> []" by (auto simp: rel1_def append_group_def)
  have space: "sg_nbatches (last (cr_groups rel1)) < cr_group_batches rel"
  proof (cases "cr_groups rel = [] \<or> sg_nbatches (last (cr_groups rel)) = cr_group_batches rel")
    case True
    then show ?thesis using gb by (simp add: rel1_def append_group_def)
  next
    case False
    then have "sg_nbatches (last (cr_groups rel)) \<le> cr_group_batches rel" using r by (simp add: relation_holds_def)
    then show ?thesis using False by (simp add: rel1_def)
  qed
  obtain gs g where gs: "cr_groups rel1 = gs @ [g]" using ne by (metis append_butlast_last_id)
  have t: "tiles 0 gs (sg_first_batch g)" "sg_first_batch g + sg_nbatches g = length (cr_batches rel)"
    using r1 by (auto simp: relation_holds_def gs tiles_append same)
  have len: "length chunks = length (cr_batches rel)" using r by (auto simp: relation_holds_def dest: list_all2_lengthD)
  let ?rows = "input_rows vs nn (cr_ncolumns rel) n" and ?g = "update_group vs nn (cr_ncolumns rel) n g"
  have res: "append_compressed_batch vs nn n rel = rel1\<lparr>cr_batches := cr_batches rel @ [build_compressed_batch vs nn (cr_ncolumns rel) n],
      cr_bytes := cr_bytes rel1 + cb_bytes (build_compressed_batch vs nn (cr_ncolumns rel) n), cr_groups := gs @ [?g]\<rparr>"
    unfolding append_compressed_batch_def Let_def rel1_def [symmetric] by (simp add: gs same)
  have g: "group_ok (cr_ncolumns rel) (chunks @ [?rows]) ?g"
    by (rule group_ok_update) (use r1 t(2) len in \<open>simp_all add: relation_holds_def gs same\<close>)
  have old: "group_ok (cr_ncolumns rel) (chunks @ [?rows]) h \<and> sg_nbatches h \<le> cr_group_batches rel" if "h \<in> set gs" for h
    using r1 that tiles_in [OF t(1) that] t(2) len by (auto simp: relation_holds_def gs same intro: group_ok_more)
  have "list_all2 (batch_rows_ok (cr_ncolumns rel)) (chunks @ [?rows]) (cr_batches rel @ [build_compressed_batch vs nn (cr_ncolumns rel) n])"
    using r batch_rows_ok_input [OF vs n] by (simp add: relation_holds_def list_all2_appendI)
  moreover have "tiles 0 (gs @ [?g]) (Suc (length (cr_batches rel)))"
    using t by (auto simp: tiles_append update_group_def)
  ultimately show ?thesis
    using g old space by (auto simp: res relation_holds_def same gs update_group_def)
qed

section \<open>Compressing a table\<close>

definition table_row :: "nat \<Rightarrow> (datum \<times> bool) list \<Rightarrow> int4_row" where
  "table_row natts slot = map (\<lambda>column. if snd (slot ! column) then None else Some (datum_get_int32 (fst (slot ! column)))) [0..<natts]"

text \<open>The rows that wait for their batch to fill.\<close>

definition pending_ok :: "nat \<Rightarrow> int4 list \<Rightarrow> uint64 list \<Rightarrow> nat \<Rightarrow> bool" where
  "pending_ok natts vs nn k \<longleftrightarrow> length vs = natts * 64 \<and> length nn = natts \<and> (\<forall>column < natts. \<forall>r \<ge> k. \<not> bit (nn ! column) r)"

lemma cell_index:
  assumes "row < (64::nat)" "row' < 64"
  shows "column * 64 + row = column' * 64 + row' \<longleftrightarrow> column = column' \<and> row = row'"
proof
  assume eq: "column * 64 + row = column' * 64 + row'"
  have "(column * 64 + row) div 64 = column" "(column' * 64 + row') div 64 = column'" using assms by simp_all
  then show "column = column' \<and> row = row'" using eq by simp
qed simp

lemma store_values:
  assumes "length vs = natts * 64" "length nn = natts" "\<forall>column < natts. \<not> bit (nn ! column) k" "k < 64" "j \<le> natts"
    and "fold (store_value slot k) [0..<j] (vs, nn) = (vs', nn')"
  shows "length vs' = length vs \<and> length nn' = length nn \<and>
    (\<forall>column < natts. \<forall>r < 64. r \<noteq> k \<longrightarrow> input_cell vs' nn' column r = input_cell vs nn column r) \<and>
    (\<forall>column < natts. \<forall>r. r \<noteq> k \<longrightarrow> bit (nn' ! column) r = bit (nn ! column) r) \<and>
    (\<forall>column < natts. if column < j
       then input_cell vs' nn' column k = (if snd (slot ! column) then None else Some (datum_get_int32 (fst (slot ! column))))
       else \<not> bit (nn' ! column) k)"
  using assms(5,6)
proof (induction j arbitrary: vs' nn')
  case 0
  then show ?case using assms(3) by simp
next
  case (Suc j)
  obtain vs1 nn1 where f1: "fold (store_value slot k) [0..<j] (vs, nn) = (vs1, nn1)"
    by (cases "fold (store_value slot k) [0..<j] (vs, nn)")
  have IH: "length vs1 = length vs" "length nn1 = length nn"
    "\<forall>column < natts. \<forall>r < 64. r \<noteq> k \<longrightarrow> input_cell vs1 nn1 column r = input_cell vs nn column r"
    "\<forall>column < natts. \<forall>r. r \<noteq> k \<longrightarrow> bit (nn1 ! column) r = bit (nn ! column) r"
    "\<forall>column < natts. if column < j
       then input_cell vs1 nn1 column k = (if snd (slot ! column) then None else Some (datum_get_int32 (fst (slot ! column))))
       else \<not> bit (nn1 ! column) k"
    using Suc.IH [OF _ f1] Suc.prems(1) by auto
  have st: "store_value slot k j (vs1, nn1) = (vs', nn')" using Suc.prems(2) f1 by simp
  have lt: "j * 64 + k < length vs1"
  proof -
    have "(j + 1) * 64 \<le> natts * 64" using Suc.prems(1) by (intro mult_le_mono1) simp
    then show ?thesis using IH(1) assms(1,4) by simp
  qed
  have vs': "vs' ! (column * 64 + r) = (if column = j \<and> r = k then (if snd (slot ! j) then 0 else datum_get_int32 (fst (slot ! j)))
      else vs1 ! (column * 64 + r))" if "r < 64" for column r
    using st lt cell_index [OF assms(4) that, of j column] by (auto simp: store_value_def nth_list_update split: if_splits)
  have nn': "bit (nn' ! column) r \<longleftrightarrow> bit (nn1 ! column) r \<or> (column = j \<and> r = k \<and> \<not> snd (slot ! j))" if "column < natts" for column r
    using st that IH(2) assms(2,4) Suc.prems(1)
    by (auto simp: store_value_def nth_list_update bit_simps split: if_splits)
  have len: "length vs' = length vs1" "length nn' = length nn1" using st by (auto simp: store_value_def split: if_splits)
  have bits: "bit (nn' ! column) r = bit (nn ! column) r" if "column < natts" "r \<noteq> k" for column r
    using nn' IH(4) that by simp
  have others: "input_cell vs' nn' column r = input_cell vs1 nn1 column r" if "column < natts" "r < 64" "column \<noteq> j \<or> r \<noteq> k" for column r
    using that vs' nn' by (auto simp: input_cell_def)
  have "\<not> bit (nn1 ! j) k" using IH(5) Suc.prems(1) by (metis Suc_le_lessD less_irrefl)
  then have this_one: "input_cell vs' nn' j k = (if snd (slot ! j) then None else Some (datum_get_int32 (fst (slot ! j))))"
    using vs' [OF assms(4), of j] nn' [of j k] Suc.prems(1) by (simp add: input_cell_def)
  have "if column < Suc j
       then input_cell vs' nn' column k = (if snd (slot ! column) then None else Some (datum_get_int32 (fst (slot ! column))))
       else \<not> bit (nn' ! column) k" if "column < natts" for column
  proof (cases "column = j")
    case True
    then show ?thesis using this_one by simp
  next
    case False
    then have "bit (nn' ! column) k = bit (nn1 ! column) k" "column < Suc j \<longleftrightarrow> column < j" using nn' that by auto
    then show ?thesis using IH(5) that others [OF that assms(4)] False by (simp split: if_splits)
  qed
  then show ?case using len IH bits others by simp
qed

lemma store_row:
  assumes ok: "pending_ok natts vs nn k" and k: "k < 64" and f: "fold (store_value slot k) [0..<natts] (vs, nn) = (vs', nn')"
  shows "pending_ok natts vs' nn' (Suc k) \<and> input_rows vs' nn' natts (Suc k) = input_rows vs nn natts k @ [table_row natts slot]"
proof -
  have s: "length vs' = length vs" "length nn' = length nn"
    "\<forall>column < natts. \<forall>r < 64. r \<noteq> k \<longrightarrow> input_cell vs' nn' column r = input_cell vs nn column r"
    "\<forall>column < natts. \<forall>r. r \<noteq> k \<longrightarrow> bit (nn' ! column) r = bit (nn ! column) r"
    "\<forall>column < natts. input_cell vs' nn' column k = (if snd (slot ! column) then None else Some (datum_get_int32 (fst (slot ! column))))"
    using store_values [OF _ _ _ k order.refl f] ok by (auto simp: pending_ok_def)
  have "input_rows vs' nn' natts k = input_rows vs nn natts k"
    unfolding input_rows_def using s(3) k by simp
  moreover have "map (\<lambda>column. input_cell vs' nn' column k) [0..<natts] = table_row natts slot"
    using s(5) by (simp add: table_row_def)
  ultimately show ?thesis using s(1,2,4) ok by (auto simp: pending_ok_def input_rows_Suc)
qed

text \<open>The state of the table scan after the given rows.\<close>

definition compressing :: "nat \<Rightarrow> nat \<Rightarrow> int4_row list \<Rightarrow> compressed_relation \<times> int4 list \<times> uint64 list \<times> nat \<Rightarrow> bool" where
  "compressing natts gb rows = (\<lambda>(rel, vs, nn, k). k < 64 \<and> cr_ncolumns rel = natts \<and> cr_group_batches rel = gb \<and>
     pending_ok natts vs nn k \<and>
     (\<exists>chunks. relation_holds rel chunks \<and> concat chunks @ input_rows vs nn natts k = rows))"

lemma compressing_row:
  assumes c: "compressing natts gb rows st" and gb: "0 < gb"
  shows "compressing natts gb (rows @ [table_row natts slot]) (compress_row natts slot st)"
proof -
  obtain rel vs nn k where st: "st = (rel, vs, nn, k)" by (cases st)
  obtain vs' nn' where f: "fold (store_value slot k) [0..<natts] (vs, nn) = (vs', nn')"
    by (cases "fold (store_value slot k) [0..<natts] (vs, nn)")
  obtain chunks where i: "k < 64" "cr_ncolumns rel = natts" "cr_group_batches rel = gb" "pending_ok natts vs nn k"
    "relation_holds rel chunks" "concat chunks @ input_rows vs nn natts k = rows"
    using c by (auto simp: compressing_def st)
  have s: "pending_ok natts vs' nn' (Suc k)" "input_rows vs' nn' natts (Suc k) = input_rows vs nn natts k @ [table_row natts slot]"
    using store_row [OF i(4,1) f] by simp_all
  show ?thesis
  proof (cases "Suc k = 64")
    case True
    let ?rel = "append_compressed_batch vs' nn' 64 rel"
    have a: "relation_holds ?rel (chunks @ [input_rows vs' nn' natts 64])" "cr_ncolumns ?rel = natts" "cr_group_batches ?rel = gb"
      using append_compressed_batch_holds [OF i(5), of vs' 64 nn'] i(2,3) gb s(1) by (simp_all add: pending_ok_def)
    moreover have "concat (chunks @ [input_rows vs' nn' natts 64]) @ input_rows vs' (replicate natts 0) natts 0 = rows @ [table_row natts slot]"
      using s(2) True i(6) [symmetric] by (simp add: input_rows_def [of _ _ _ 0])
    moreover have "pending_ok natts vs' (replicate natts 0) 0" using s(1) by (simp add: pending_ok_def)
    moreover have "compress_row natts slot st = (?rel, vs', replicate natts 0, 0)" using True f by (simp add: st compress_row_def)
    ultimately show ?thesis by (auto simp: compressing_def)
  next
    case False
    then have "compress_row natts slot st = (rel, vs', nn', Suc k)" using f by (simp add: st compress_row_def)
    moreover have "Suc k < 64" using False i(1) by simp
    ultimately show ?thesis using i s by (auto simp: compressing_def)
  qed
qed

lemma compressing_rows:
  assumes "compressing natts gb rows st" "0 < gb"
  shows "compressing natts gb (rows @ map (table_row natts) slots) (fold (compress_row natts) slots st)"
  using assms
proof (induction slots arbitrary: rows st)
  case (Cons slot slots)
  show ?case using Cons.IH [OF compressing_row [OF Cons.prems] Cons.prems(2), of slot] by simp
qed simp

lemma compress_rows_holds:
  assumes "64 \<le> group_rows"
  obtains chunks where "relation_holds (compress_rows relid natts group_rows slots) chunks" "concat chunks = map (table_row natts) slots"
    "cr_ncolumns (compress_rows relid natts group_rows slots) = natts"
proof -
  let ?gb = "group_rows div 64"
  let ?rel = "\<lparr>cr_relid = relid, cr_ncolumns = natts, cr_group_batches = ?gb, cr_bytes = 0, cr_refcount = 0, cr_batches = [], cr_groups = []\<rparr>"
  have gb: "0 < ?gb" using assms by (simp add: div_greater_zero_iff)
  have rel0: "relation_holds ?rel []" by (simp add: relation_holds_def)
  have c0: "compressing natts ?gb [] (?rel, replicate (natts * 64) 0, replicate natts 0, 0)"
    using rel0 by (auto simp: compressing_def pending_ok_def input_rows_def)
  obtain rel vs nn k where f: "fold (compress_row natts) slots (?rel, replicate (natts * 64) 0, replicate natts 0, 0) = (rel, vs, nn, k)"
    by (cases "fold (compress_row natts) slots (?rel, replicate (natts * 64) 0, replicate natts 0, 0)")
  obtain chunks where c: "k < 64" "cr_ncolumns rel = natts" "cr_group_batches rel = ?gb" "pending_ok natts vs nn k"
    "relation_holds rel chunks" "concat chunks @ input_rows vs nn natts k = map (table_row natts) slots"
    using compressing_rows [OF c0 gb, of slots] by (auto simp: compressing_def f)
  show thesis
  proof (cases "k = 0")
    case True
    then show thesis using that [of chunks] c f by (simp add: compress_rows_def input_rows_def)
  next
    case False
    have a: "relation_holds (append_compressed_batch vs nn k rel) (chunks @ [input_rows vs nn natts k])"
      "cr_ncolumns (append_compressed_batch vs nn k rel) = natts"
      using append_compressed_batch_holds [OF c(5), of vs k nn] c gb False by (simp_all add: pending_ok_def)
    then show thesis using that [of "chunks @ [input_rows vs nn natts k]"] c(6) f False by (simp add: compress_rows_def)
  qed
qed

lemma append_batch_fields:
  "cr_relid (append_compressed_batch vs nn n rel) = cr_relid rel" "cr_refcount (append_compressed_batch vs nn n rel) = cr_refcount rel"
  "cr_ncolumns (append_compressed_batch vs nn n rel) = cr_ncolumns rel"
  by (simp_all add: append_compressed_batch_def append_group_def Let_def)

lemma compress_rows_fields:
  "cr_relid (compress_rows relid natts group_rows slots) = relid" "cr_refcount (compress_rows relid natts group_rows slots) = 0"
  "cr_ncolumns (compress_rows relid natts group_rows slots) = natts"
proof -
  have keep: "cr_relid (fst (fold (compress_row natts) slots st)) = cr_relid (fst st) \<and> cr_refcount (fst (fold (compress_row natts) slots st)) = cr_refcount (fst st) \<and>
      cr_ncolumns (fst (fold (compress_row natts) slots st)) = cr_ncolumns (fst st)" for st
  proof (induction slots arbitrary: st)
    case (Cons slot slots)
    have "cr_relid (fst (compress_row natts slot st)) = cr_relid (fst st) \<and> cr_refcount (fst (compress_row natts slot st)) = cr_refcount (fst st) \<and>
        cr_ncolumns (fst (compress_row natts slot st)) = cr_ncolumns (fst st)"
      by (cases st) (simp add: compress_row_def Let_def append_batch_fields split: prod.splits)
    then show ?case using Cons.IH [of "compress_row natts slot st"] by simp
  qed simp
  let ?st = "(\<lparr>cr_relid = relid, cr_ncolumns = natts, cr_group_batches = group_rows div 64, cr_bytes = 0, cr_refcount = 0, cr_batches = [], cr_groups = []\<rparr>,
      replicate (natts * 64) (0 :: int4), replicate natts (0 :: uint64), 0 :: nat)"
  obtain rel vs nn k where f: "fold (compress_row natts) slots ?st = (rel, vs, nn, k)" by (cases "fold (compress_row natts) slots ?st")
  have "cr_relid rel = relid" "cr_refcount rel = 0" "cr_ncolumns rel = natts" using keep [of ?st] f by simp_all
  then show "cr_relid (compress_rows relid natts group_rows slots) = relid" "cr_refcount (compress_rows relid natts group_rows slots) = 0"
    "cr_ncolumns (compress_rows relid natts group_rows slots) = natts"
    using f by (simp_all add: compress_rows_def append_batch_fields)
qed

section \<open>Reading a snapshot back\<close>

definition stored_rows :: "compressed_batch \<Rightarrow> int4_row list" where
  "stored_rows b = map (\<lambda>row. map (\<lambda>c. stored_cell b c row) (cb_columns b)) [0..<cb_nrows b]"

lemma stored_rows_eq: "batch_rows_ok ncols rows b \<Longrightarrow> stored_rows b = rows"
  by (auto simp: stored_rows_def batch_rows_ok_def batch_holds_def stored_ok_def intro!: nth_equalityI)

lemma relation_rows:
  assumes "relation_holds rel chunks"
  shows "map stored_rows (cr_batches rel) = chunks"
proof -
  have "list_all2 (\<lambda>rows b. stored_rows b = rows) chunks (cr_batches rel)"
    using assms by (auto simp: relation_holds_def elim: list_all2_mono stored_rows_eq)
  then show ?thesis by (auto simp: list_all2_conv_all_nth intro: nth_equalityI)
qed

lemma compress_rows_stored:
  assumes "64 \<le> group_rows"
  shows "concat (map stored_rows (cr_batches (compress_rows relid natts group_rows slots))) = map (table_row natts) slots"
proof -
  obtain chunks where "relation_holds (compress_rows relid natts group_rows slots) chunks" "concat chunks = map (table_row natts) slots"
    using compress_rows_holds [OF assms] by blast
  then show ?thesis by (simp add: relation_rows)
qed

end
