(* ===== verification/Compressed_Prune.thy ===== *)
theory Compressed_Prune
  imports Compressed_Scan Compressed_Snapshot
begin

text \<open>
  Pruning is sound: a group that is skipped has no row on which every prunable qual is
  true.
\<close>

text \<open>A prunable qual on a row of the table.\<close>

definition prune_true :: "'c source_qual \<Rightarrow> int4_row \<Rightarrow> bool" where
  "prune_true qual row \<longleftrightarrow>
     (case (sq_scalar qual, row ! nat (sq_attnum qual - 1)) of
        (Some d, Some v) \<Rightarrow> int4_compare v (datum_get_int32 d) (sq_op qual)
      | _ \<Rightarrow> False)"

definition attnum_ok :: "nat \<Rightarrow> int \<Rightarrow> bool" where
  "attnum_ok ncols attnum \<longleftrightarrow> 1 \<le> attnum \<and> attnum \<le> int ncols"

lemma range_matches_if_compare:
  assumes "summarises meta vs" "v \<in> set vs" "int4_compare v k op"
  shows "gc_has_nonnull meta" "range_matches op meta k"
    "op = PG_BATCH_INT4_EQ \<Longrightarrow> \<not> gc_distinct_overflow meta \<Longrightarrow> group_contains meta k"
proof -
  have b: "sint (gc_minimum meta) \<le> sint v" "sint v \<le> sint (gc_maximum meta)" "vs \<noteq> []"
    "\<not> gc_distinct_overflow meta \<Longrightarrow> set (gc_distinct meta) = set vs"
    using assms(1,2) by (auto simp: summarises_def split: if_splits)
  show "gc_has_nonnull meta" using assms(1) b(3) by (simp add: summarises_def)
  show "range_matches op meta k"
    using assms(3) b(1,2) by (cases op) (auto simp: sint_int4_eq_iff)
  show "group_contains meta k" if "op = PG_BATCH_INT4_EQ" "\<not> gc_distinct_overflow meta"
    using assms(2,3) b(4) that by (auto simp: group_contains_def list_ex_iff)
qed

lemma column_nonnull_iff: "v \<in> set (column_nonnull column rows) \<longleftrightarrow> (\<exists>row \<in> set rows. row ! column = Some v)"
  by (force simp: column_nonnull_def List.map_filter_def)

lemma group_may_match_sound:
  assumes "group_ok ncols chunks g" "\<forall>q \<in> set quals. sq_prunable q \<longrightarrow> attnum_ok ncols (sq_attnum q)"
    and "row \<in> set (concat (take (sg_nbatches g) (drop (sg_first_batch g) chunks)))"
    and "\<forall>q \<in> set quals. sq_prunable q \<longrightarrow> prune_true q row"
  shows "group_may_match quals g = PG_BATCH_GROUP_MATCH"
  using assms(2,4)
proof (induction quals)
  case (Cons q quals)
  show ?case
  proof (cases "sq_prunable q")
    case False
    then show ?thesis using Cons by simp
  next
    case True
    let ?c = "nat (sq_attnum q - 1)"
    have c: "?c < ncols" using Cons.prems(1) True by (auto simp: attnum_ok_def)
    have t: "prune_true q row" using Cons.prems(2) True by simp
    obtain d v where dv: "sq_scalar q = Some d" "row ! ?c = Some v" "int4_compare v (datum_get_int32 d) (sq_op q)"
      using t by (auto simp: prune_true_def split: option.splits)
    have "v \<in> set (column_nonnull ?c (concat (take (sg_nbatches g) (drop (sg_first_batch g) chunks))))"
      using assms(3) dv(2) column_nonnull_iff by blast
    moreover have "summarises (sg_columns g ! ?c) (column_nonnull ?c (concat (take (sg_nbatches g) (drop (sg_first_batch g) chunks))))"
      using assms(1) c by (simp add: group_ok_def)
    ultimately have "gc_has_nonnull (sg_columns g ! ?c)" "range_matches (sq_op q) (sg_columns g ! ?c) (datum_get_int32 d)"
      "sq_op q = PG_BATCH_INT4_EQ \<Longrightarrow> \<not> gc_distinct_overflow (sg_columns g ! ?c) \<Longrightarrow> group_contains (sg_columns g ! ?c) (datum_get_int32 d)"
      using range_matches_if_compare dv(3) by blast+
    moreover have "group_may_match quals g = PG_BATCH_GROUP_MATCH" using Cons by simp
    ultimately show ?thesis using True dv(1) by (auto simp: Let_def)
  qed
qed simp

end
