(* ===== verification/Compressed_Read.thy ===== *)
theory Compressed_Read
  imports Compressed_Prune Expr_Run
begin

text \<open>
  Reading the columns of an active batch: through the int4 interface and as datums, the
  values are those of the rows of the stored batch.
\<close>

section \<open>Views\<close>

definition arrow_ok :: "int4_row list \<Rightarrow> nat \<Rightarrow> arrow_column \<Rightarrow> bool" where
  "arrow_ok rows k a \<longleftrightarrow> ac_offset a + length rows \<le> length (ac_values a) \<and> length (ac_values a) \<le> 64 \<and>
     (ac_validity a = None \<longleftrightarrow> ac_null_count a = 0) \<and> (\<forall>v. ac_validity a = Some v \<longrightarrow> length v = 8) \<and>
     (\<forall>r < length rows. (if arrow_row_is_valid a r then Some (ac_values a ! (ac_offset a + r)) else None) = rows ! r ! k)"

definition datum_ok :: "int4_row list \<Rightarrow> nat \<Rightarrow> datum_column \<Rightarrow> bool" where
  "datum_ok rows k dc \<longleftrightarrow>
     (case dc_arrays dc of
        None \<Rightarrow> dc_valid_rows dc = 0
      | Some (vs, ns) \<Rightarrow> length vs = length rows \<and> length ns = length rows \<and>
          (\<forall>r < length rows. bit (dc_valid_rows dc) r \<longrightarrow>
             (case rows ! r ! k of None \<Rightarrow> ns ! r | Some v \<Rightarrow> \<not> ns ! r \<and> vs ! r = int32_get_datum v)))"

definition source_column :: "'c compressed_scan \<Rightarrow> nat \<Rightarrow> nat" where
  "source_column scan column = nat (cs_source_attnums scan ! column - 1)"

definition attnums_ok :: "nat \<Rightarrow> 'c compressed_scan \<Rightarrow> bool" where
  "attnums_ok ncols scan \<longleftrightarrow> cs_ncolumns scan \<le> length (cs_source_attnums scan) \<and>
     (\<forall>column < cs_ncolumns scan. attnum_ok ncols (cs_source_attnums scan ! column))"

definition view_ok :: "nat \<Rightarrow> int4_row list \<Rightarrow> 'c compressed_scan \<Rightarrow> bool" where
  "view_ok ncols rows scan \<longleftrightarrow> attnums_ok ncols scan \<and>
     (\<exists>active all. cs_active scan = Some active \<and> batch_rows_ok ncols all (ab_batch active) \<and>
        rows = take (length rows) (drop (ab_start active) all) \<and> rows \<noteq> [] \<and>
        length (ab_arrow_columns active) = cs_ncolumns scan \<and> length (ab_datum_columns active) = cs_ncolumns scan \<and>
        (\<forall>column < cs_ncolumns scan. \<forall>a. ab_arrow_columns active ! column = Some a \<longrightarrow> arrow_ok rows (source_column scan column) a) \<and>
        (\<forall>column < cs_ncolumns scan. datum_ok rows (source_column scan column) (ab_datum_columns active ! column)))"

definition batch_view :: "nat \<Rightarrow> int4_row list \<Rightarrow> 'c compressed_scan batch \<Rightarrow> bool" where
  "batch_view ncols rows b \<longleftrightarrow> b_ops b = Some compressed_ops \<and> sel_wf (b_selection b) \<and>
     sel_nrows (b_selection b) = int (length rows) \<and> view_ok ncols rows (b_private b)"

text \<open>What reading a column may change of the scan.\<close>

definition same_scan :: "'c compressed_scan \<Rightarrow> 'c compressed_scan \<Rightarrow> bool" where
  "same_scan scan scan' \<longleftrightarrow> (\<exists>active st. scan' = scan\<lparr>cs_active := active, cs_stats := st\<rparr>)"

lemma same_scan_refl: "same_scan scan scan"
  unfolding same_scan_def by (intro exI [of _ "cs_active scan"] exI [of _ "cs_stats scan"]) simp

lemma same_scan_trans: "same_scan a b \<Longrightarrow> same_scan b c \<Longrightarrow> same_scan a c"
  unfolding same_scan_def by (elim exE) (simp, blast)

section \<open>Preparing a column\<close>

lemma stored_arrow_ok:
  assumes b: "batch_rows_ok ncols all batch" and k: "k < ncols" and rows: "rows = take (length rows) (drop start all)" "rows \<noteq> []"
  shows "arrow_ok rows k \<lparr>ac_length = n, ac_null_count = (if cc_null_count (cb_columns batch ! k) = 0 then 0 else - 1), ac_offset = start,
     ac_validity = (if cc_null_count (cb_columns batch ! k) = 0 then None else Some (cc_validity (cb_columns batch ! k))),
     ac_values = column_values_of batch (cb_columns batch ! k)\<rparr>" (is "arrow_ok rows k ?arrow")
proof -
  define a where "a = ?arrow"
  let ?c = "cb_columns batch ! k"
  have all: "length all \<le> 64" "cb_nrows batch = length all" using b by (simp_all add: batch_rows_ok_def batch_holds_def)
  have "stored_ok (length all) ?c (\<lambda>row. all ! row ! k) (cb_memory batch)" using b k by (simp add: batch_rows_ok_def batch_holds_def)
  then have s: "length (cc_validity ?c) = 8" "cc_null_count ?c = 0 \<longleftrightarrow> (\<forall>r < length all. all ! r ! k \<noteq> None)"
    "length (column_values_of batch ?c) = length all" "\<forall>r < length all. stored_cell batch ?c r = all ! r ! k"
    using all(2) unfolding stored_ok_def by blast+
  have fit: "start + length rows \<le> length all"
    using arg_cong [OF rows(1), of length] rows(2) by (cases rows) auto
  have nth: "rows ! r = all ! (start + r)" if "r < length rows" for r
    using arg_cong [OF rows(1), of "\<lambda>xs. xs ! r"] that fit by simp
  have "(if arrow_row_is_valid a r then Some (column_values_of batch ?c ! (start + r)) else None) = rows ! r ! k" if r: "r < length rows" for r
  proof -
    have "stored_cell batch ?c (start + r) = rows ! r ! k" using s(4) fit r nth by simp
    moreover have "arrow_row_is_valid a r \<longleftrightarrow> bit (cc_validity ?c ! ((start + r) div 8)) ((start + r) mod 8)"
    proof (cases "cc_null_count ?c = 0")
      case True
      then have "stored_cell batch ?c (start + r) \<noteq> None" using s(2,4) fit r by simp
      then show ?thesis using True by (simp add: a_def arrow_row_is_valid_def stored_cell_def split: if_splits)
    qed (simp add: a_def arrow_row_is_valid_def Let_def)
    ultimately show ?thesis by (simp add: stored_cell_def)
  qed
  moreover have "ac_values a = column_values_of batch ?c" "ac_offset a = start" "ac_validity a = None \<longleftrightarrow> ac_null_count a = 0"
    "\<forall>v. ac_validity a = Some v \<longrightarrow> length v = 8"
    using s(1) by (auto simp: a_def)
  ultimately have "arrow_ok rows k a" using s(3) fit all(1) unfolding arrow_ok_def by (simp only: simp_thms) blast
  then show ?thesis by (simp only: a_def)
qed

lemma prepare_column_ok:
  assumes v: "view_ok ncols rows scan" and c: "column < cs_ncolumns scan"
  obtains scan' where "prepare_column n (int column) phase scan = Inr scan'" "view_ok ncols rows scan'" "same_scan scan scan'"
    "\<exists>a. get_arrow_column (int column) scan' = Inr a \<and> arrow_ok rows (source_column scan column) a"
    "\<exists>a. get_arrow_column (int column) scan = Inr a \<Longrightarrow> scan' = scan"
proof -
  obtain active all where a: "attnums_ok ncols scan" "cs_active scan = Some active" "batch_rows_ok ncols all (ab_batch active)"
    "rows = take (length rows) (drop (ab_start active) all)" "rows \<noteq> []"
    "length (ab_arrow_columns active) = cs_ncolumns scan" "length (ab_datum_columns active) = cs_ncolumns scan"
    "\<forall>column < cs_ncolumns scan. \<forall>a. ab_arrow_columns active ! column = Some a \<longrightarrow> arrow_ok rows (source_column scan column) a"
    "\<forall>column < cs_ncolumns scan. datum_ok rows (source_column scan column) (ab_datum_columns active ! column)"
    using v by (auto simp: view_ok_def)
  show thesis
  proof (cases "ab_arrow_columns active ! column")
    case (Some arr)
    then have "prepare_column n (int column) phase scan = Inr scan" "get_arrow_column (int column) scan = Inr arr"
      using c a(2) by (simp_all add: prepare_column_def get_arrow_column_def)
    then show thesis using that [of scan] v same_scan_refl a(8) c Some by blast
  next
    case None
    let ?k = "source_column scan column" and ?batch = "ab_batch active"
    let ?s = "cb_columns ?batch ! ?k"
    let ?a = "\<lparr>ac_length = n, ac_null_count = (if cc_null_count ?s = 0 then 0 else - 1), ac_offset = ab_start active,
       ac_validity = (if cc_null_count ?s = 0 then None else Some (cc_validity ?s)), ac_values = column_values_of ?batch ?s\<rparr>"
    define scan' where "scan' = scan\<lparr>cs_active := Some (active\<lparr>ab_arrow_columns := (ab_arrow_columns active)[column := Some ?a]\<rparr>),
        cs_stats := count_arrow phase (count_decoded ?s ?batch (cs_stats scan))\<rparr>"
    have k: "?k < ncols" using a(1) c by (fastforce simp: attnums_ok_def attnum_ok_def source_column_def)
    have p: "prepare_column n (int column) phase scan = Inr scan'"
      using c a(2) None by (simp add: prepare_column_def scan'_def Let_def source_column_def)
    have ok: "arrow_ok rows ?k ?a" by (rule stored_arrow_ok [OF a(3) k a(4,5)])
    have fields: "cs_ncolumns scan' = cs_ncolumns scan" "source_column scan' = source_column scan" "attnums_ok ncols scan'"
      using a(1) by (simp_all add: scan'_def source_column_def attnums_ok_def fun_eq_iff)
    have "view_ok ncols rows scan'"
      unfolding view_ok_def fields(1,2)
      using a fields(3) ok c by (auto simp: scan'_def nth_list_update)
    moreover have "get_arrow_column (int column) scan' = Inr ?a" using c a(2,6) by (simp add: get_arrow_column_def scan'_def)
    moreover have "\<not> (\<exists>a. get_arrow_column (int column) scan = Inr a)" using c a(2) None by (simp add: get_arrow_column_def)
    moreover have "same_scan scan scan'" unfolding same_scan_def scan'_def by blast
    ultimately show thesis using that [OF p] ok by blast
  qed
qed

section \<open>The int4 interface\<close>

lemma arrow_vector_ok:
  assumes "arrow_ok rows k a"
  defines "v \<equiv> int4_vector_init_packed (ac_values a) (if ac_null_count a = 0 then None else ac_validity a) (int (ac_offset a))"
  shows "vec_wf v (length rows) \<and> (\<forall>r < length rows. vec_get v r = rows ! r ! k)"
proof -
  have a: "ac_offset a + length rows \<le> length (ac_values a)" "length (ac_values a) \<le> 64" "ac_validity a = None \<longleftrightarrow> ac_null_count a = 0"
    "\<forall>v. ac_validity a = Some v \<longrightarrow> length v = 8"
    "\<forall>r < length rows. (if arrow_row_is_valid a r then Some (ac_values a ! (ac_offset a + r)) else None) = rows ! r ! k"
    using assms(1) by (simp_all add: arrow_ok_def)
  have data: "vec_data v = INT4_PACKED (ac_values a) (ac_validity a) (int (ac_offset a))"
    using a(3) by (cases "ac_null_count a = 0") (simp_all add: v_def int4_vector_init_packed_def)
  have wf: "vec_wf v (length rows)" using a(1,2,4) by (auto simp: vec_wf_def data split: option.splits)
  have "int4_row_is_null v r \<longleftrightarrow> \<not> arrow_row_is_valid a r" if "r < length rows" for r
  proof (cases "ac_validity a")
    case None
    then show ?thesis by (simp add: int4_row_is_null_def data arrow_row_is_valid_def)
  next
    case (Some va)
    show ?thesis
      using packed_row_is_null [OF data [unfolded Some] wf that] by (simp add: arrow_row_is_valid_def Some Let_def)
  qed
  moreover have "int4_row_value v r = ac_values a ! (ac_offset a + r)" for r
    by (simp add: int4_row_value_def data nat_int_add)
  ultimately have "vec_get v r = rows ! r ! k" if "r < length rows" for r
    using a(5) that by (auto simp: vec_get_def)
  then show ?thesis using wf by blast
qed

lemma compressed_sizes [simp]:
  "abi_has_field (ops_struct_size compressed_ops) PgBatchOps_layout ''prepare_columns''"
  "abi_has_field (ops_struct_size compressed_ops) PgBatchOps_layout ''get_native_interface''"
proof -
  have "struct_sizeof PgBatchOps_layout = 48" "abi_size_through PgBatchOps_layout ''get_native_interface'' = 40"
    "abi_size_through PgBatchOps_layout ''prepare_columns'' = 32" by code_simp+
  then show "abi_has_field (ops_struct_size compressed_ops) PgBatchOps_layout ''prepare_columns''"
    "abi_has_field (ops_struct_size compressed_ops) PgBatchOps_layout ''get_native_interface''"
    by (simp_all add: abi_has_field_def compressed_ops_def)
qed

lemma compressed_ops_fields [simp]:
  "ops_prepare_columns compressed_ops = Some prepare_columns" "ops_get_datum_column compressed_ops = Some get_datum_column"
  "ops_get_native_interface compressed_ops = Some compressed_native_interface"
  by (simp_all add: compressed_ops_def)

text \<open>The cache of native interfaces, as other sources leave it.\<close>

definition cache_ok :: "(nat \<Rightarrow> 'c compressed_scan batch_ops) \<Rightarrow> 'c compressed_scan native_cache \<Rightarrow> bool" where
  "cache_ok tables c \<longleftrightarrow> stable_tables tables \<and> cache_sound tables c \<and> tables (ops_addr (compressed_ops :: 'c compressed_scan batch_ops)) = compressed_ops"

lemma native_int4:
  assumes "cache_ok tables c" "b_ops b = Some compressed_ops"
  obtains c' where "get_native_interface c b int4_vector_type = (Inr (Some compressed_int4), c')" "cache_ok tables c'"
proof -
  have f: "fresh_native_interface b int4_vector_type = Inr (Some compressed_int4)"
    using assms(2) by (simp add: fresh_native_interface_def get_native_interface_def)
      (simp add: compressed_native_interface_def int4_vector_type_def Let_def compressed_int4_def)
  have "fst (get_native_interface c b int4_vector_type) = fresh_native_interface b int4_vector_type \<and>
      cache_sound tables (snd (get_native_interface c b int4_vector_type))"
    by (rule get_native_interface_sound) (use assms in \<open>auto simp: cache_ok_def\<close>)
  then show thesis
    using that [of "snd (get_native_interface c b int4_vector_type)"] f assms(1)
    by (simp add: cache_ok_def prod_eq_iff)
qed

lemma int4_access:
  assumes v: "batch_view ncols rows b" and c: "column < cs_ncolumns (b_private b)" and words: "sel_words (b_selection b) ! 0 \<noteq> 0"
    and cache: "cache_ok tables c"
  obtains access access' input c' where
    "column_access_init (Some b) {column} (Some (b_selection b)) phase = Inr access"
    "column_get_int4 c access (int column) = (Inr (access', input), c')"
    "batch_view ncols rows (acc_batch access')" "same_scan (b_private b) (b_private (acc_batch access'))"
    "b_selection (acc_batch access') = b_selection b" "vec_wf input (length rows)"
    "\<forall>r < length rows. vec_get input r = rows ! r ! source_column (b_private b) column" "cache_ok tables c'"
proof -
  have b: "b_ops b = Some compressed_ops" "sel_wf (b_selection b)" "sel_nrows (b_selection b) = int (length rows)"
    "view_ok ncols rows (b_private b)" using v by (simp_all add: batch_view_def)
  obtain scan' a where s: "prepare_column (sel_nrows (b_selection b)) (int column) phase (b_private b) = Inr scan'"
    "view_ok ncols rows scan'" "same_scan (b_private b) scan'"
    "get_arrow_column (int column) scan' = Inr a" "arrow_ok rows (source_column (b_private b) column) a"
    using prepare_column_ok [OF b(4) c, of "sel_nrows (b_selection b)" phase] by metis
  let ?b = "b\<lparr>b_private := scan'\<rparr>"
  let ?acc = "\<lparr>acc_batch = ?b, acc_columns = {column}, acc_rows = b_selection b, acc_phase = phase\<rparr>"
  have "batch_prepare_columns b {column} (b_selection b) phase = Inr ?b"
    using b(1) s(1) words by (simp add: batch_prepare_columns_def prepare_columns_def)
  then have init: "column_access_init (Some b) {column} (Some (b_selection b)) phase = Inr ?acc"
    using b(1) by (simp add: column_access_init_def)
  obtain c' where n: "get_native_interface c ?b int4_vector_type = (Inr (Some compressed_int4), c')" "cache_ok tables c'"
    using native_int4 [OF cache, of ?b] b(1) by auto
  let ?v = "int4_vector_init_packed (ac_values a) (if ac_null_count a = 0 then None else ac_validity a) (int (ac_offset a))"
  have "abi_size_through PgBatchInt4Vector_layout ''data'' \<le> struct_sizeof PgBatchInt4Vector_layout" by code_simp
  then have get: "column_get_int4 c ?acc (int column) = (Inr (?acc, ?v), c')"
    using n(1) s(4)
    by (simp add: column_get_int4_def bms_is_member_def compressed_int4_def get_int4_column_def Let_def
        int4_vector_init_packed_def)
  show thesis
    by (rule that [OF init get])
      (use b s n(2) arrow_vector_ok [OF s(5)] in \<open>simp_all add: batch_view_def\<close>)
qed

section \<open>Datums\<close>

definition datum_cell :: "int4 option \<Rightarrow> datum \<Rightarrow> bool \<Rightarrow> bool" where
  "datum_cell cell d isnull \<longleftrightarrow> (case cell of None \<Rightarrow> isnull | Some v \<Rightarrow> \<not> isnull \<and> d = int32_get_datum v)"

lemma fill_datums:
  assumes a: "arrow_ok rows k a" and "\<forall>r \<in> set rs. r < length rows" "length vs = length rows" "length ns = length rows"
    and f: "fold (fill_datum a) rs (vs, ns) = (vs', ns')"
  shows "length vs' = length rows \<and> length ns' = length rows \<and>
    (\<forall>r < length rows. if r \<in> set rs then datum_cell (rows ! r ! k) (vs' ! r) (ns' ! r) else vs' ! r = vs ! r \<and> ns' ! r = ns ! r)"
  using assms(2-)
proof (induction rs arbitrary: vs ns)
  case (Cons x rs)
  obtain vs1 ns1 where s: "fill_datum a x (vs, ns) = (vs1, ns1)" by (cases "fill_datum a x (vs, ns)")
  have x: "x < length rows" using Cons.prems(1) by simp
  have len: "length vs1 = length rows" "length ns1 = length rows" using s Cons.prems(2,3) by (auto simp: fill_datum_def Let_def)
  have rows_x: "(if arrow_row_is_valid a x then Some (ac_values a ! (ac_offset a + x)) else None) = rows ! x ! k"
    using a x by (simp add: arrow_ok_def)
  have cell: "datum_cell (rows ! x ! k) (vs1 ! x) (ns1 ! x)"
    using s x Cons.prems(2,3) unfolding rows_x [symmetric] by (auto simp: fill_datum_def Let_def datum_cell_def)
  have others: "vs1 ! r = vs ! r \<and> ns1 ! r = ns ! r" if "r \<noteq> x" for r
    using s that by (auto simp: fill_datum_def Let_def)
  have IH: "length vs' = length rows" "length ns' = length rows"
    "\<forall>r < length rows. if r \<in> set rs then datum_cell (rows ! r ! k) (vs' ! r) (ns' ! r) else vs' ! r = vs1 ! r \<and> ns' ! r = ns1 ! r"
    using Cons.IH [OF _ len] Cons.prems(1,4) s by auto
  have "if r \<in> set (x # rs) then datum_cell (rows ! r ! k) (vs' ! r) (ns' ! r) else vs' ! r = vs ! r \<and> ns' ! r = ns ! r"
    if "r < length rows" for r
    using IH(3) that cell others by (cases "r = x") (auto split: if_splits)
  then show ?case using IH(1,2) by blast
qed simp

lemma get_datum_column_ok:
  assumes v: "view_ok ncols rows scan" and c: "column < cs_ncolumns scan" and s: "sel_nrows s = int (length rows)"
    and sel: "\<And>r. bit (sel_words sel ! 0) r \<Longrightarrow> r < length rows"
    and dv: "abi_size_through PgBatchDatumVector_layout ''nrows'' \<le> dv_struct_size dv"
  obtains scan' vs ns where
    "get_datum_column scan s (int column) sel phase dv =
       Inr (scan', dv\<lparr>dv_values := Some vs, dv_isnull := Some ns, dv_nrows := sel_nrows s\<rparr>)"
    "view_ok ncols rows scan'" "same_scan scan scan'" "length vs = length rows" "length ns = length rows"
    "\<And>r. bit (sel_words sel ! 0) r \<Longrightarrow> datum_cell (rows ! r ! source_column scan column) (vs ! r) (ns ! r)"
proof -
  let ?k = "source_column scan column"
  obtain scan1 a where p: "prepare_column (sel_nrows s) (int column) phase scan = Inr scan1" "view_ok ncols rows scan1" "same_scan scan scan1"
    "get_arrow_column (int column) scan1 = Inr a" "arrow_ok rows ?k a"
    using prepare_column_ok [OF v c, of "sel_nrows s" phase] by metis
  have same1: "cs_ncolumns scan1 = cs_ncolumns scan" "source_column scan1 = source_column scan"
    using p(3) by (auto simp: same_scan_def source_column_def)
  obtain active all where act: "attnums_ok ncols scan1" "cs_active scan1 = Some active" "batch_rows_ok ncols all (ab_batch active)"
    "rows = take (length rows) (drop (ab_start active) all)" "rows \<noteq> []"
    "length (ab_arrow_columns active) = cs_ncolumns scan" "length (ab_datum_columns active) = cs_ncolumns scan"
    "\<forall>column < cs_ncolumns scan. \<forall>a. ab_arrow_columns active ! column = Some a \<longrightarrow> arrow_ok rows (source_column scan column) a"
    "\<forall>column < cs_ncolumns scan. datum_ok rows (source_column scan column) (ab_datum_columns active ! column)"
    using p(2) unfolding view_ok_def same1 by blast
  define dc where "dc = ab_datum_columns active ! column"
  define missing where "missing = (sel_words sel ! 0) AND NOT (dc_valid_rows dc)"
  obtain vs0 ns0 where arrays: "(case dc_arrays dc of None \<Rightarrow> (replicate (nat (sel_nrows s)) 0, replicate (nat (sel_nrows s)) False)
      | Some a \<Rightarrow> a) = (vs0, ns0)" (is "?arrays = _") by (cases ?arrays)
  obtain vs ns where f: "fold (fill_datum a) (word_rows missing) (vs0, ns0) = (vs, ns)"
    by (cases "fold (fill_datum a) (word_rows missing) (vs0, ns0)")
  have dc: "datum_ok rows ?k dc" using act(9) c by (simp add: dc_def)
  have len0: "length vs0 = length rows" "length ns0 = length rows"
    using arrays dc s by (auto simp: datum_ok_def split: option.splits)
  have set_missing: "set (word_rows missing) = {r. bit (sel_words sel ! 0) r \<and> \<not> bit (dc_valid_rows dc) r}"
    using sorted_word_rows [of missing] by (auto simp: missing_def bit_simps dest: word64_bit_lt)
  have lt: "\<forall>r \<in> set (word_rows missing). r < length rows" using sel unfolding set_missing by blast
  have fill: "length vs = length rows" "length ns = length rows"
    "\<forall>r < length rows. if r \<in> set (word_rows missing) then datum_cell (rows ! r ! ?k) (vs ! r) (ns ! r) else vs ! r = vs0 ! r \<and> ns ! r = ns0 ! r"
    using fill_datums [OF p(5) _ len0 f] lt by blast+
  have old: "datum_cell (rows ! r ! ?k) (vs0 ! r) (ns0 ! r)" if "r < length rows" "bit (dc_valid_rows dc) r" for r
    using dc that arrays unfolding datum_ok_def datum_cell_def by (cases "dc_arrays dc") (auto split: option.splits)
  have cells: "datum_cell (rows ! r ! ?k) (vs ! r) (ns ! r)" if "r < length rows" "bit (dc_valid_rows dc OR missing) r" for r
    using fill(3) old set_missing that by (cases "r \<in> set (word_rows missing)") (auto simp: bit_simps missing_def)
  let ?dc = "\<lparr>dc_arrays = Some (vs, ns), dc_valid_rows = dc_valid_rows dc OR missing\<rparr>"
  define scan' where "scan' = scan1\<lparr>cs_active := Some (active\<lparr>ab_datum_columns := (ab_datum_columns active)[column := ?dc]\<rparr>),
      cs_stats := (if phase = PG_BATCH_COLUMN_FILTER
        then (cs_stats scan1)\<lparr>st_filter_datums := st_filter_datums (cs_stats scan1) + length (word_rows missing)\<rparr>
        else (cs_stats scan1)\<lparr>st_project_datums := st_project_datums (cs_stats scan1) + length (word_rows missing)\<rparr>)\<rparr>"
  have res: "get_datum_column scan s (int column) sel phase dv =
      Inr (scan', dv\<lparr>dv_values := Some vs, dv_isnull := Some ns, dv_nrows := sel_nrows s\<rparr>)"
    using c dv p(1,4) act(2) arrays f
    by (simp add: get_datum_column_def check_datum_vector_def Let_def dc_def [symmetric] missing_def [symmetric] scan'_def)
  have ok: "datum_ok rows ?k ?dc"
    using fill(1,2) cells by (auto simp: datum_ok_def datum_cell_def split: option.splits)
  have fields: "cs_ncolumns scan' = cs_ncolumns scan" "source_column scan' = source_column scan" "attnums_ok ncols scan'"
    using act(1) same1 by (simp_all add: scan'_def source_column_def attnums_ok_def fun_eq_iff)
  have "view_ok ncols rows scan'"
    unfolding view_ok_def fields(1,2) using act fields(3) ok c by (auto simp: scan'_def nth_list_update)
  moreover have "same_scan scan1 scan'" unfolding same_scan_def scan'_def by blast
  ultimately show thesis
    using that [OF res _ same_scan_trans [OF p(3)] fill(1,2)] cells sel by (simp add: bit_simps missing_def) (metis word64_bit_lt)
qed

end
