(* ===== verification/Expr_Reuse.thy ===== *)
theory Expr_Reuse
  imports Expr_Run
begin

text \<open>
  A compiled column expression used for one batch after the other: evaluation keeps the
  compiled fields and the buffers' sizes, and touches the batch only through the access
  to its column.
\<close>

lemma arithmetic_scalar_covers:
  assumes "int4_arithmetic_scalar input s op k on_left vs va = Inr out" "packed_covers (vs, va) m"
  shows "packed_covers out m"
proof -
  have row: "packed_covers p' m" if "packed_covers p m" "arithmetic_row input op k on_left r p = Inr p'" for r p p'
    using that by (cases p) (auto simp: arithmetic_row_def packed_covers_def Let_def rbind_Inr_iff split: if_splits)
  show ?thesis
  proof (rule rfold_invariant [where I = "\<lambda>p. packed_covers p m", OF assms(1) [unfolded int4_arithmetic_scalar_def Let_def]])
    show "packed_covers (vs, replicate (nat ((sel_nrows s + 7) div 8)) 0 @ drop (nat ((sel_nrows s + 7) div 8)) va) m"
      using assms(2) by (auto simp: packed_covers_def)
  next
    fix w p p'
    assume "packed_covers p m" "rfold (\<lambda>bitno. arithmetic_row input op k on_left (w * 64 + bitno))
        (word_rows ((sel_words s ! w) AND word_mask (sel_nrows s) w)) p = Inr p'"
    then show "packed_covers p' m"
      using rfold_invariant [where I = "\<lambda>p. packed_covers p m"] row by blast
  qed
qed

definition compiled_same :: "'c batch_expr \<Rightarrow> 'c batch_expr \<Rightarrow> bool" where
  "compiled_same e0 e \<longleftrightarrow> ex_column e = ex_column e0 \<and> ex_column_mask e = ex_column_mask e0 \<and>
     ex_scalar_value e = ex_scalar_value e0 \<and> ex_steps e = ex_steps e0 \<and> ex_comparison e = ex_comparison e0 \<and>
     ex_comparison_scalar e = ex_comparison_scalar e0 \<and> ex_is_filter e = ex_is_filter e0"

lemma compiled_same_refl: "compiled_same e e"
  by (simp add: compiled_same_def)

lemma compiled_same_trans: "compiled_same a b \<Longrightarrow> compiled_same b c \<Longrightarrow> compiled_same a c"
  by (simp add: compiled_same_def)

lemma expr_ready_bind:
  "expr_wf e \<Longrightarrow> compiled_same e0 e \<Longrightarrow> expr_ready e0 econtext phase (expr_bind (Some econtext) phase True e)"
  by (simp add: expr_ready_def expr_bind_def compiled_same_def expr_wf_def buffer_covers_def)

text \<open>The compiled fields and the buffers stay.\<close>

definition eval_keeps :: "'c batch_expr \<Rightarrow> 'c batch_expr \<Rightarrow> bool" where
  "eval_keeps e e' \<longleftrightarrow> compiled_same e e' \<and> (expr_wf e \<longrightarrow> expr_wf e')"

lemma eval_keeps_refl: "eval_keeps e e"
  by (simp add: eval_keeps_def compiled_same_refl)

lemma eval_keeps_trans: "eval_keeps a b \<Longrightarrow> eval_keeps b c \<Longrightarrow> eval_keeps a c"
  by (auto simp: eval_keeps_def intro: compiled_same_trans)

lemma ensure_capacity_keeps: "eval_keeps e (ensure_capacity nrows e)"
proof -
  have "expr_wf (ensure_capacity nrows e)" if wf: "expr_wf e"
  proof (cases "nrows \<le> ex_capacity e")
    case True
    then show ?thesis using wf by (simp add: ensure_capacity_def)
  next
    case False
    then have "ex_capacity (ensure_capacity nrows e) = nrows" "0 \<le> nrows" using wf by (simp_all add: ensure_capacity_def Let_def expr_wf_def)
    moreover have "length (ex_values (ensure_capacity nrows e)) = 2" "length (ex_validity (ensure_capacity nrows e)) = 2"
      using wf False by (auto simp: ensure_capacity_def Let_def expr_wf_def)
    ultimately show ?thesis using ensure_capacity_covers [OF wf] by (simp add: expr_wf_def)
  qed
  moreover have "compiled_same e (ensure_capacity nrows e)"
    by (simp add: compiled_same_def ensure_capacity_def Let_def)
  ultimately show ?thesis by (simp add: eval_keeps_def)
qed

lemma step_output_covers:
  assumes "step_output ev b econtext step input (vs, va) = Inr out" "packed_covers (vs, va) m"
  shows "packed_covers out m"
  using assms
  by (auto simp: step_output_def rbind_Inr_iff clear_validity_def Let_def packed_covers_def [of "(_, _ @ _)"]
      dest: arithmetic_scalar_covers split: option.splits)
    (auto simp: packed_covers_def)

lemma run_step_keeps:
  assumes "run_step ev b econtext step (e, input, buf) = Inr (e', v, buf')"
  shows "eval_keeps e e'"
proof -
  obtain vs va where o: "step_output ev b econtext step input (ex_values e ! buf, ex_validity e ! buf) = Inr (vs, va)"
    "e' = e\<lparr>ex_values := (ex_values e)[buf := vs], ex_validity := (ex_validity e)[buf := va]\<rparr>"
    using assms by (auto simp: run_step_output rbind_Inr_iff Let_def)
  have "buffer_covers e' m i" if "buffer_covers e m i" for m i
    using that step_output_covers [OF o(1), of m] by (cases "i = buf") (auto simp: buffer_covers_def o(2))
  then show ?thesis by (auto simp: eval_keeps_def compiled_same_def expr_wf_def o(2))
qed

lemma run_steps_keeps:
  assumes "rfold (run_step ev b econtext) steps (e, input, buf) = Inr (e', v, buf')"
  shows "eval_keeps e e'"
proof -
  have "case (e', v, buf') of (e', _) \<Rightarrow> eval_keeps e e'"
    by (rule rfold_invariant [OF assms]) (auto simp: eval_keeps_refl intro: eval_keeps_trans dest: run_step_keeps)
  then show ?thesis by simp
qed

lemma expr_get_int4_keeps:
  assumes "expr_get_int4 ev c b e = (Inr (b', e', v), c')" "ex_scalar_value e = None" "\<not> ex_result_ready e"
  shows "eval_keeps e e' \<and> (\<exists>access access' input. column_access_init (Some b) (ex_column_mask e) (Some (b_selection b)) (ex_phase e) = Inr access \<and>
    column_get_int4 c access (ex_column e) = (Inr (access', input), c') \<and> b' = acc_batch access')"
proof -
  obtain access access' input e2 econtext buf where a:
    "column_access_init (Some b) (ex_column_mask e) (Some (b_selection b)) (ex_phase e) = Inr access"
    "column_get_int4 c access (ex_column e) = (Inr (access', input), c')" "b' = acc_batch access'"
    and r: "rfold (run_step ev b' econtext) (ex_steps e) (if ex_steps e \<noteq> [] then ensure_capacity (sel_nrows (b_selection b')) e else e, input, 0) =
      Inr (e2, v, buf)" "e' = e2\<lparr>ex_result := v, ex_result_ready := True\<rparr>"
    using assms by (auto simp: expr_get_int4_def Let_def rbind_Inr_iff split: option.splits sum.splits prod.splits if_splits)
  define e1 where "e1 = (if ex_steps e \<noteq> [] then ensure_capacity (sel_nrows (b_selection b')) e else e)"
  have "eval_keeps e e1" by (simp add: e1_def eval_keeps_refl ensure_capacity_keeps)
  moreover have "eval_keeps e1 e2" using r(1) unfolding e1_def [symmetric] by (rule run_steps_keeps)
  moreover have "eval_keeps e2 e'" by (simp add: r(2) eval_keeps_def compiled_same_def expr_wf_def buffer_covers_def)
  ultimately have "eval_keeps e e'" using eval_keeps_trans by blast
  then show ?thesis using a by blast
qed

lemma expr_apply_filter_keeps:
  assumes "expr_apply_filter target ev c simd b e = (Inr (b', e'), c')" "ex_scalar_value e = None" "\<not> ex_result_ready e" "batch_has_rows b"
  shows "eval_keeps e e' \<and> (\<exists>access access' input s. column_access_init (Some b) (ex_column_mask e) (Some (b_selection b)) (ex_phase e) = Inr access \<and>
    column_get_int4 c access (ex_column e) = (Inr (access', input), c') \<and> b' = (acc_batch access')\<lparr>b_selection := s\<rparr>)"
proof -
  obtain b1 v where g: "expr_get_int4 ev c b e = (Inr (b1, e', v), c')" "\<exists>s. b' = b1\<lparr>b_selection := s\<rparr>"
    using assms(1,4) by (auto simp: expr_apply_filter_def Let_def rbind_Inr_iff split: option.splits sum.splits prod.splits if_splits)
  then show ?thesis using expr_get_int4_keeps [OF g(1) assms(2,3)] by blast
qed

end
