(* ===== verification/Compressed_Filter.thy ===== *)
theory Compressed_Filter
  imports Compressed_Read Expr_Reuse
begin

text \<open>
  Filtering an active batch: the compiled quals, one after the other, leave selected the
  rows on which each is true.
\<close>

lemma compile_filter_column:
  assumes "compile_expression n True resolve = Inr e0" "executor_ok ev"
  shows "0 \<le> ex_column e0" "ex_scalar_value e0 = None" "ex_column_mask e0 = {nat (ex_column e0)}"
proof -
  from assms(1) obtain value_arg comparison f t args e1 where
    an: "analyze_filter 0 n = Some (value_arg, comparison)" "strip_relabel n = OpExpr f t args" and
    comp: "compile_value resolve (args ! value_arg) ((expr_empty True)\<lparr>ex_comparison := comparison,
       ex_comparison_scalar := Some (args ! (1 - value_arg))\<rparr>) = Inr e1" and e0: "e0 = finish_compile e1"
    by (rule compile_filter_fields)
  note args = analyze_filter_args [OF an]
  have "0 \<le> ex_column e1 \<and> ex_scalar_value e1 = None"
    using comp args(4) assms(2) by (elim compile_value_fields [where ev = ev]) (auto simp: expr_empty_def)
  then show "0 \<le> ex_column e0" "ex_scalar_value e0 = None" "ex_column_mask e0 = {nat (ex_column e0)}"
    by (simp_all add: e0 finish_compile_def)
qed

section \<open>Quals\<close>

text \<open>A qual of the scan and the clause it was compiled from.\<close>

definition qual_ok :: "(var_node \<Rightarrow> int) \<Rightarrow> nat \<Rightarrow> node \<Rightarrow> 'c source_qual \<Rightarrow> bool" where
  "qual_ok resolve ncolumns clause qual \<longleftrightarrow>
     (case sq_expr qual of None \<Rightarrow> True
      | Some e \<Rightarrow> \<exists>e0. compile_expression clause True resolve = Inr (e0 :: 'c batch_expr) \<and> expr_wf e \<and> compiled_same e0 e \<and>
          sq_column_mask qual = {nat (ex_column e0)} \<and> ex_column e0 < int ncolumns)"

definition clause_qual ::
  "(node \<Rightarrow> datum option result) \<Rightarrow> (var_node \<Rightarrow> int) \<Rightarrow> 'c compressed_scan \<Rightarrow> node \<Rightarrow> int4_row \<Rightarrow> bool option result" where
  "clause_qual ev resolve scan clause row = row_qual ev (\<lambda>v. row ! source_column scan (nat (resolve v))) clause"

text \<open>What the filter may change of the scan: the active batch, the statistics, the state of the expressions.\<close>

definition qual_shape :: "'c source_qual \<Rightarrow> bool \<times> 'c source_qual" where
  "qual_shape qual = (sq_expr qual = None, qual\<lparr>sq_expr := None\<rparr>)"

definition same_position :: "'c compressed_scan \<Rightarrow> 'c compressed_scan \<Rightarrow> bool" where
  "same_position scan scan' \<longleftrightarrow> (\<exists>active st quals. scan' = scan\<lparr>cs_active := active, cs_stats := st, cs_quals := quals\<rparr> \<and>
     map qual_shape quals = map qual_shape (cs_quals scan))"

lemma same_position_scan:
  assumes "same_scan scan scan'"
  shows "same_position scan scan'"
proof -
  obtain active st where "scan' = scan\<lparr>cs_active := active, cs_stats := st\<rparr>" using assms by (auto simp: same_scan_def)
  then have "scan' = scan\<lparr>cs_active := active, cs_stats := st, cs_quals := cs_quals scan\<rparr>" by simp
  then show ?thesis unfolding same_position_def by blast
qed

lemma same_position_refl: "same_position scan scan"
  by (rule same_position_scan [OF same_scan_refl])

lemma same_position_trans:
  assumes "same_position a b" "same_position b c"
  shows "same_position a c"
proof -
  obtain x y z where 1: "b = a\<lparr>cs_active := x, cs_stats := y, cs_quals := z\<rparr>" "map qual_shape z = map qual_shape (cs_quals a)"
    using assms(1) by (auto simp: same_position_def)
  obtain x' y' z' where 2: "c = b\<lparr>cs_active := x', cs_stats := y', cs_quals := z'\<rparr>" "map qual_shape z' = map qual_shape (cs_quals b)"
    using assms(2) by (auto simp: same_position_def)
  have "c = a\<lparr>cs_active := x', cs_stats := y', cs_quals := z'\<rparr>" "map qual_shape z' = map qual_shape (cs_quals a)"
    using 1 2 by simp_all
  then show ?thesis unfolding same_position_def by blast
qed

lemma same_position_fields:
  assumes "same_position scan scan'"
  shows "cs_relation scan' = cs_relation scan" "cs_max_rows scan' = cs_max_rows scan" "cs_ncolumns scan' = cs_ncolumns scan"
    "cs_source_attnums scan' = cs_source_attnums scan" "cs_econtext scan' = cs_econtext scan" "cs_mode scan' = cs_mode scan"
    "cs_group_index scan' = cs_group_index scan" "cs_batch_index scan' = cs_batch_index scan" "cs_batch_row scan' = cs_batch_row scan"
    "cs_group_ready scan' = cs_group_ready scan" "cs_prune_quals_ready scan' = cs_prune_quals_ready scan"
    "source_column scan' = source_column scan" "map qual_shape (cs_quals scan') = map qual_shape (cs_quals scan)"
    "length (cs_quals scan') = length (cs_quals scan)"
  using assms by (auto simp: same_position_def source_column_def fun_eq_iff dest: map_eq_imp_length_eq)

lemma view_ok_quals: "view_ok ncols rows (scan\<lparr>cs_quals := quals\<rparr>) = view_ok ncols rows scan"
  by (simp add: view_ok_def attnums_ok_def source_column_def)

section \<open>One qual\<close>

definition quals_ok :: "(var_node \<Rightarrow> int) \<Rightarrow> node list \<Rightarrow> 'c compressed_scan \<Rightarrow> bool" where
  "quals_ok resolve clauses scan \<longleftrightarrow> list_all2 (qual_ok resolve (cs_ncolumns scan)) clauses (cs_quals scan)"

text \<open>The clauses among the quals \<open>qs\<close> that have an expression.\<close>

definition filtered_by :: "'c compressed_scan \<Rightarrow> node list \<Rightarrow> nat list \<Rightarrow> node list" where
  "filtered_by scan clauses qs = map ((!) clauses) (filter (\<lambda>q. sq_expr (cs_quals scan ! q) \<noteq> None) qs)"

definition filtered ::
  "(node \<Rightarrow> datum option result) \<Rightarrow> (nat \<Rightarrow> 'c compressed_scan batch_ops) \<Rightarrow> (var_node \<Rightarrow> int) \<Rightarrow> node list \<Rightarrow> nat \<Rightarrow> int4_row list \<Rightarrow>
     node list \<Rightarrow> 'c compressed_scan batch \<Rightarrow> 'c compressed_scan batch result \<times> 'c compressed_scan native_cache \<Rightarrow> bool" where
  "filtered ev tables resolve clauses ncols rows ns b out \<longleftrightarrow>
     (let qual = (\<lambda>n r. clause_qual ev resolve (b_private b) n (rows ! r))
      in case out of
        (Inl _, c') \<Rightarrow> \<exists>n \<in> set ns. \<exists>r \<in> set (selected (b_selection b)). \<exists>err. qual n r = Inl err
      | (Inr b', c') \<Rightarrow> cache_ok tables c' \<and> batch_view ncols rows b' \<and> quals_ok resolve clauses (b_private b') \<and>
          same_position (b_private b) (b_private b') \<and>
          selected (b_selection b') = filter (\<lambda>r. \<forall>n \<in> set ns. qual n r = Inr (Some True)) (selected (b_selection b)))"

lemma filtered_none:
  "cache_ok tables c \<Longrightarrow> batch_view ncols rows b \<Longrightarrow> quals_ok resolve clauses (b_private b) \<Longrightarrow>
    ns = [] \<or> selected (b_selection b) = [] \<Longrightarrow> filtered ev tables resolve clauses ncols rows ns b (Inr b, c)"
  by (auto simp: filtered_def Let_def same_position_refl)

lemma view_rows_64: "view_ok ncols rows scan \<Longrightarrow> length rows \<le> 64"
proof -
  assume "view_ok ncols rows scan"
  then obtain active :: active_batch and all where a: "batch_rows_ok ncols all (ab_batch active)" "rows = take (length rows) (drop (ab_start active) all)"
    unfolding view_ok_def by blast
  have "length rows \<le> length all" using arg_cong [OF a(2), of length] by simp
  then show "length rows \<le> 64" using a(1) by (simp add: batch_rows_ok_def)
qed

lemma one_word:
  assumes "sel_wf s" "sel_nrows s = int n" "0 < n" "n \<le> 64"
  shows "sel_nwords s = 1" "length (sel_words s) = 1" "sel_words s ! 0 = 0 \<longleftrightarrow> selected s = []"
proof -
  have "(int n + 63) div 64 = 1" using assms(3,4) by linarith
  then show w: "sel_nwords s = 1" using sel_wf_nwords [OF assms(1)] assms(2) by simp
  then show "length (sel_words s) = 1" using sel_wf_length [OF assms(1)] by simp
  show "sel_words s ! 0 = 0 \<longleftrightarrow> selected s = []"
    unfolding selected_concat_words [OF assms(1)] w by simp
qed

lemma replace_qual:
  assumes "same_position scan scan'" "cs_quals scan' = cs_quals scan" "q < length (cs_quals scan)" "qual = cs_quals scan ! q" "sq_expr qual \<noteq> None"
  shows "same_position scan (scan'\<lparr>cs_quals := (cs_quals scan')[q := qual\<lparr>sq_expr := Some e\<rparr>]\<rparr>)"
proof -
  let ?quals = "(cs_quals scan)[q := qual\<lparr>sq_expr := Some e\<rparr>]"
  have "qual_shape (qual\<lparr>sq_expr := Some e\<rparr>) = qual_shape (cs_quals scan ! q)" using assms(4,5) by (simp add: qual_shape_def)
  then have shape: "map qual_shape ?quals = map qual_shape (cs_quals scan)"
    using assms(3) by (simp add: map_update list_update_same_conv)
  obtain active st quals where "scan' = scan\<lparr>cs_active := active, cs_stats := st, cs_quals := quals\<rparr>"
    using assms(1) by (auto simp: same_position_def)
  then have "scan'\<lparr>cs_quals := ?quals\<rparr> = scan\<lparr>cs_active := active, cs_stats := st, cs_quals := ?quals\<rparr>" by simp
  then show ?thesis unfolding same_position_def assms(2) using shape by blast
qed

lemma filter_qual_ok:
  assumes v: "batch_view ncols rows b" and q: "q < length clauses" and ok: "quals_ok resolve clauses (b_private b)"
    and cache: "cache_ok tables c" and ev: "executor_ok (\<lambda>n. ev n (cs_econtext (b_private b)))"
  shows "filtered (\<lambda>n. ev n (cs_econtext (b_private b))) tables resolve clauses ncols rows (filtered_by (b_private b) clauses [q]) b
    (filter_qual target ev q c b)"
proof (cases "sel_words (b_selection b) ! 0 = 0 \<or> sq_expr (cs_quals (b_private b) ! q) = None")
  case True
  have b: "sel_wf (b_selection b)" "sel_nrows (b_selection b) = int (length rows)" "view_ok ncols rows (b_private b)"
    using v by (simp_all add: batch_view_def)
  have "0 < length rows" using b(3) by (auto simp: view_ok_def)
  then have "selected (b_selection b) = [] \<or> filtered_by (b_private b) clauses [q] = []"
    using True one_word(3) [OF b(1,2) _ view_rows_64 [OF b(3)]] by (auto simp: filtered_by_def)
  moreover have "filter_qual target ev q c b = (Inr b, c)" using True by (auto simp: filter_qual_def Let_def)
  ultimately show ?thesis using filtered_none [OF cache v ok] by auto
next
  case False
  let ?scan = "b_private b" and ?s = "b_selection b" and ?ctx = "cs_econtext (b_private b)" and ?ev = "\<lambda>n. ev n (cs_econtext (b_private b))"
  define qual where "qual = cs_quals ?scan ! q"
  define n where "n = clauses ! q"
  have words: "sel_words ?s ! 0 \<noteq> 0" using False by simp
  have b: "b_ops b = Some compressed_ops" "sel_wf ?s" "sel_nrows ?s = int (length rows)" "view_ok ncols rows ?scan"
    using v by (simp_all add: batch_view_def)
  have qlen: "q < length (cs_quals ?scan)" using q ok by (auto simp: quals_ok_def dest: list_all2_lengthD)
  have qok: "qual_ok resolve (cs_ncolumns ?scan) n qual"
    using ok q by (simp add: quals_ok_def n_def qual_def list_all2_conv_all_nth)
  obtain e e0 where e: "sq_expr qual = Some e" "compile_expression n True resolve = Inr e0" "expr_wf e" "compiled_same e0 e"
    "sq_column_mask qual = {nat (ex_column e0)}" "ex_column e0 < int (cs_ncolumns ?scan)"
    using qok False by (auto simp: qual_ok_def qual_def)
  note col = compile_filter_column [OF e(2) ev]
  define k where "k = nat (ex_column e0)"
  have k: "k < cs_ncolumns ?scan" "ex_column e0 = int k" using col(1) e(6) by (simp_all add: k_def)
  obtain scan1 where p: "prepare_column (sel_nrows ?s) (int k) PG_BATCH_COLUMN_FILTER ?scan = Inr scan1" "view_ok ncols rows scan1" "same_scan ?scan scan1"
    using prepare_column_ok [OF b(4) k(1), of "sel_nrows ?s" PG_BATCH_COLUMN_FILTER] by metis
  define b1 where "b1 = b\<lparr>b_private := scan1\<rparr>"
  define e1 where "e1 = expr_bind (Some ?ctx) PG_BATCH_COLUMN_FILTER True e"
  have pos1: "same_position ?scan scan1" using p(3) by (rule same_position_scan)
  note f1 = same_position_fields [OF pos1]
  have v1: "batch_view ncols rows b1" using b p(2) by (simp add: b1_def batch_view_def)
  have sel1: "b_selection b1 = ?s" "b_private b1 = scan1" by (simp_all add: b1_def)
  have prep: "prepare_columns ?scan ?s (sq_column_mask qual) ?s PG_BATCH_COLUMN_FILTER = Inr scan1"
    using p(1) words e(5) by (simp add: prepare_columns_def k_def [symmetric])
  have run: "filter_qual target ev q c b = (case expr_apply_filter target ev c True b1 e1 of
      (Inl err, c) \<Rightarrow> (Inl err, c)
    | (Inr (b, e), c) \<Rightarrow> (Inr (b\<lparr>b_private := (b_private b)\<lparr>cs_quals := (cs_quals (b_private b))[q := qual\<lparr>sq_expr := Some e\<rparr>]\<rparr>\<rparr>), c))"
    using words e(1) prep f1(5) unfolding qual_def by (simp add: filter_qual_def Let_def b1_def e1_def)
  have ready: "expr_ready e0 ?ctx PG_BATCH_COLUMN_FILTER e1" unfolding e1_def by (rule expr_ready_bind [OF e(3,4)])
  have access: "\<exists>access access' input c'. column_access_init (Some b1) {k} (Some (b_selection b1)) PG_BATCH_COLUMN_FILTER = Inr access \<and>
      column_get_int4 c access (int k) = (Inr (access', input), c') \<and> batch_view ncols rows (acc_batch access') \<and>
      same_scan scan1 (b_private (acc_batch access')) \<and> b_selection (acc_batch access') = ?s \<and> vec_wf input (length rows) \<and>
      (\<forall>r < length rows. vec_get input r = rows ! r ! source_column ?scan k) \<and> cache_ok tables c'"
  proof -
    have "k < cs_ncolumns (b_private b1)" "sel_words (b_selection b1) ! 0 \<noteq> 0" using k(1) words f1(3) by (simp_all add: sel1)
    then obtain access access' input c' where
      "column_access_init (Some b1) {k} (Some (b_selection b1)) PG_BATCH_COLUMN_FILTER = Inr access"
      "column_get_int4 c access (int k) = (Inr (access', input), c')"
      "batch_view ncols rows (acc_batch access')" "same_scan (b_private b1) (b_private (acc_batch access'))"
      "b_selection (acc_batch access') = b_selection b1" "vec_wf input (length rows)"
      "\<forall>r < length rows. vec_get input r = rows ! r ! source_column (b_private b1) k" "cache_ok tables c'"
      by (rule int4_access [OF v1 _ _ cache, of k PG_BATCH_COLUMN_FILTER])
    then show ?thesis unfolding sel1 f1(12) by blast
  qed
  have len: "length rows \<le> 64" by (rule view_rows_64 [OF b(4)])
  have bounds: "row_bounds b1" using b(2,3) len by (simp add: row_bounds_def b1_def)
  have readable: "column_readable c b1 PG_BATCH_COLUMN_FILTER (ex_column e0) (\<lambda>r. rows ! r ! source_column ?scan (nat (ex_column e0)))"
    using access unfolding column_readable_def k(2) nat_int sel1 b(3) by fastforce
  have spec: "filter_spec (\<lambda>r. clause_qual ?ev resolve ?scan n (rows ! r)) b1 (fst (expr_apply_filter target ev c True b1 e1))"
    unfolding clause_qual_def
    by (rule apply_filter_compiled [where ev = ev and econtext = ?ctx and cols = "\<lambda>i r. rows ! r ! source_column ?scan (nat i)", OF e(2) ev bounds ready readable])
  have ns: "filtered_by ?scan clauses [q] = [n]" using e(1) by (simp add: filtered_by_def qual_def n_def)
  show ?thesis
  proof (cases "expr_apply_filter target ev c True b1 e1")
    case (Pair out c')
    show ?thesis
    proof (cases out)
      case (Inl err)
      then show ?thesis using spec Pair by (simp add: run ns filtered_def filter_spec_def sel1)
    next
      case (Inr o')
      obtain b2 e2 where o': "o' = (b2, e2)" by (cases o')
      have has: "batch_has_rows b1" using words one_word(1) [OF b(2,3) _ len] b(4) by (auto simp: batch_has_rows_def Let_def sel1 view_ok_def)
      have fresh: "ex_scalar_value e1 = None" "\<not> ex_result_ready e1" using ready col(2) by (simp_all add: expr_ready_def)
      have kept: "eval_keeps e1 e2" "\<exists>access access' input s. column_access_init (Some b1) (ex_column_mask e1) (Some (b_selection b1)) (ex_phase e1) = Inr access \<and>
          column_get_int4 c access (ex_column e1) = (Inr (access', input), c') \<and> b2 = (acc_batch access')\<lparr>b_selection := s\<rparr>"
        using expr_apply_filter_keeps [OF Pair [unfolded Inr o'] fresh has] by blast+
      have e1: "ex_column_mask e1 = {k}" "ex_phase e1 = PG_BATCH_COLUMN_FILTER" "ex_column e1 = int k"
        using ready col(3) k(2) by (simp_all add: expr_ready_def)
      obtain acc s where b2: "b2 = acc\<lparr>b_selection := s\<rparr>" and acc: "batch_view ncols rows acc" "same_scan scan1 (b_private acc)" "cache_ok tables c'"
      proof -
        obtain access access' input s where 1: "column_access_init (Some b1) {k} (Some (b_selection b1)) PG_BATCH_COLUMN_FILTER = Inr access"
          "column_get_int4 c access (int k) = (Inr (access', input), c')" "b2 = (acc_batch access')\<lparr>b_selection := s\<rparr>"
          using kept(2) unfolding e1 by blast
        then have "batch_view ncols rows (acc_batch access')" "same_scan scan1 (b_private (acc_batch access'))" "cache_ok tables c'"
          using access by auto
        then show thesis using that 1(3) by blast
      qed
      have fs: "sel_wf s" "sel_nrows s = int (length rows)"
        "selected s = filter (\<lambda>r. clause_qual ?ev resolve ?scan n (rows ! r) = Inr (Some True)) (selected ?s)"
        using spec Pair Inr o' b(3) by (simp_all add: filter_spec_def b2 sel1)
      define b3 where "b3 = b2\<lparr>b_private := (b_private b2)\<lparr>cs_quals := (cs_quals (b_private b2))[q := qual\<lparr>sq_expr := Some e2\<rparr>]\<rparr>\<rparr>"
      have res: "filter_qual target ev q c b = (Inr b3, c')" using Pair Inr o' by (simp add: run b3_def)
      have view: "batch_view ncols rows b3" using acc(1) fs(1,2) by (simp add: b3_def b2 batch_view_def view_ok_quals)
      have pos2: "same_position ?scan (b_private b2)"
        using same_position_trans [OF pos1 same_position_scan [OF acc(2)]] by (simp add: b2)
      have e2: "expr_wf e2" "compiled_same e0 e2"
        using kept(1) ready e(4) by (auto simp: eval_keeps_def expr_ready_def compiled_same_def)
      have same_quals: "cs_quals (b_private b2) = cs_quals ?scan"
        using acc(2) p(3) by (auto simp: same_scan_def b2)
      have pos: "same_position ?scan (b_private b3)"
        using replace_qual [OF pos2 same_quals qlen qual_def, of e2] e(1) by (simp add: b3_def)
      have "quals_ok resolve clauses (b_private b3)"
      proof -
        have "qual_ok resolve (cs_ncolumns ?scan) n (qual\<lparr>sq_expr := Some e2\<rparr>)" using e(2,5,6) e2 by (simp add: qual_ok_def)
        then show ?thesis
          using ok q same_position_fields(3) [OF pos]
          by (simp add: quals_ok_def b3_def same_quals list_all2_conv_all_nth nth_list_update n_def)
      qed
      then show ?thesis using acc(3) view pos fs(3) by (simp add: res ns filtered_def b3_def b2)
    qed
  qed
qed

section \<open>All quals\<close>

lemma filtered_by_same:
  assumes "same_position scan scan'" "\<forall>q \<in> set qs. q < length (cs_quals scan)"
  shows "filtered_by scan' clauses qs = filtered_by scan clauses qs"
proof -
  have "sq_expr (cs_quals scan' ! q) = None \<longleftrightarrow> sq_expr (cs_quals scan ! q) = None" if "q \<in> set qs" for q
  proof -
    note f = same_position_fields(13,14) [OF assms(1)]
    have q: "q < length (cs_quals scan)" using assms(2) that by blast
    have "qual_shape (cs_quals scan' ! q) = qual_shape (cs_quals scan ! q)"
      using arg_cong [OF f(1), of "\<lambda>xs. xs ! q"] q f(2) by simp
    then show ?thesis by (simp add: qual_shape_def)
  qed
  then show ?thesis unfolding filtered_by_def by (metis (mono_tags, lifting) filter_cong)
qed

lemma filter_quals_ok:
  assumes "batch_view ncols rows b" "\<forall>q \<in> set qs. q < length clauses" "quals_ok resolve clauses (b_private b)"
    and "cache_ok tables c" "executor_ok (\<lambda>n. ev n (cs_econtext (b_private b)))"
  shows "filtered (\<lambda>n. ev n (cs_econtext (b_private b))) tables resolve clauses ncols rows (filtered_by (b_private b) clauses qs) b
    (filter_quals target ev qs c b)"
  using assms
proof (induction qs arbitrary: c b)
  case Nil
  then show ?case by (simp add: filtered_by_def filtered_none)
next
  case (Cons q qs)
  let ?ev = "\<lambda>n. ev n (cs_econtext (b_private b))"
  have split: "filtered_by (b_private b) clauses (q # qs) = filtered_by (b_private b) clauses [q] @ filtered_by (b_private b) clauses qs"
    by (simp add: filtered_by_def)
  have one: "filtered ?ev tables resolve clauses ncols rows (filtered_by (b_private b) clauses [q]) b (filter_qual target ev q c b)"
    by (rule filter_qual_ok) (use Cons.prems in simp_all)
  obtain out c1 where o: "filter_qual target ev q c b = (out, c1)" by (cases "filter_qual target ev q c b")
  show ?case
  proof (cases out)
    case (Inl err)
    then have "filter_quals target ev (q # qs) c b = (Inl err, c1)" using o by simp
    then show ?thesis using one Inl o unfolding filtered_def Let_def split by auto
  next
    case (Inr b1)
    have b1: "cache_ok tables c1" "batch_view ncols rows b1" "quals_ok resolve clauses (b_private b1)" "same_position (b_private b) (b_private b1)"
      "selected (b_selection b1) = filter (\<lambda>r. \<forall>n \<in> set (filtered_by (b_private b) clauses [q]).
         clause_qual ?ev resolve (b_private b) n (rows ! r) = Inr (Some True)) (selected (b_selection b))"
      using one Inr o by (simp_all add: filtered_def Let_def)
    note f = same_position_fields [OF b1(4)]
    have "length clauses = length (cs_quals (b_private b))" using Cons.prems(3) by (auto simp: quals_ok_def dest: list_all2_lengthD)
    then have by1: "filtered_by (b_private b1) clauses qs = filtered_by (b_private b) clauses qs"
      using filtered_by_same [OF b1(4)] Cons.prems(2) by simp
    have cq: "clause_qual ev' resolve (b_private b1) = clause_qual ev' resolve (b_private b)" for ev'
      by (simp add: clause_qual_def fun_eq_iff f)
    have rest: "filtered ?ev tables resolve clauses ncols rows (filtered_by (b_private b) clauses qs) b1 (filter_quals target ev qs c1 b1)"
      using Cons.IH [OF b1(2) _ b1(3,1)] Cons.prems(2,5) by (simp add: f by1)
    have run: "filter_quals target ev (q # qs) c b = filter_quals target ev qs c1 b1" using o Inr by simp
    obtain out2 c2 where o2: "filter_quals target ev qs c1 b1 = (out2, c2)" by (cases "filter_quals target ev qs c1 b1")
    show ?thesis
    proof (cases out2)
      case (Inl err)
      then obtain n r err' where "n \<in> set (filtered_by (b_private b) clauses qs)" "r \<in> set (selected (b_selection b1))"
        "clause_qual ?ev resolve (b_private b) n (rows ! r) = Inl err'"
        using rest o2 by (auto simp: filtered_def Let_def cq)
      moreover have "r \<in> set (selected (b_selection b))" using calculation(2) b1(5) by simp
      ultimately show ?thesis unfolding run o2 Inl filtered_def Let_def split by auto
    next
      case (Inr b2)
      then have "cache_ok tables c2" "batch_view ncols rows b2" "quals_ok resolve clauses (b_private b2)" "same_position (b_private b1) (b_private b2)"
        "selected (b_selection b2) = filter (\<lambda>r. \<forall>n \<in> set (filtered_by (b_private b) clauses qs).
          clause_qual ?ev resolve (b_private b) n (rows ! r) = Inr (Some True)) (selected (b_selection b1))"
        using rest o2 by (simp_all add: filtered_def Let_def cq)
      then show ?thesis
        using b1(5) same_position_trans [OF b1(4)]
        unfolding run o2 Inr filtered_def Let_def split by (auto intro!: filter_cong)
    qed
  qed
qed

lemma filter_batch_ok:
  assumes "batch_view ncols rows b" "quals_ok resolve clauses (b_private b)"
    and "cache_ok tables c" "executor_ok (\<lambda>n. ev n (cs_econtext (b_private b)))"
  shows "filtered (\<lambda>n. ev n (cs_econtext (b_private b))) tables resolve clauses ncols rows
    (filtered_by (b_private b) clauses [0..<length clauses]) b (filter_batch target ev c b)"
proof -
  have len: "length clauses = length (cs_quals (b_private b))" using assms(2) by (auto simp: quals_ok_def dest: list_all2_lengthD)
  have all: "filtered (\<lambda>n. ev n (cs_econtext (b_private b))) tables resolve clauses ncols rows
    (filtered_by (b_private b) clauses [0..<length clauses]) b (filter_quals target ev [0..<length (cs_quals (b_private b))] c b)"
    unfolding len by (rule filter_quals_ok) (use assms in \<open>simp_all add: len\<close>)
  obtain out c1 where o: "filter_quals target ev [0..<length (cs_quals (b_private b))] c b = (out, c1)"
    by (cases "filter_quals target ev [0..<length (cs_quals (b_private b))] c b")
  show ?thesis
  proof (cases out)
    case (Inl err)
    then show ?thesis using all o by (simp add: filter_batch_def filtered_def Let_def)
  next
    case (Inr b1)
    then obtain st where run: "filter_batch target ev c b = (Inr (b1\<lparr>b_private := (b_private b1)\<lparr>cs_stats := st\<rparr>\<rparr>), c1)"
      using o by (simp add: filter_batch_def Let_def)
    have view: "view_ok ncols rows (scan\<lparr>cs_stats := st\<rparr>) = view_ok ncols rows scan" for scan :: "'a compressed_scan"
      by (simp add: view_ok_def attnums_ok_def source_column_def)
    have "same_scan scan (scan\<lparr>cs_stats := st\<rparr>)" for scan :: "'a compressed_scan"
      unfolding same_scan_def by (intro exI [of _ "cs_active scan"] exI [of _ st]) simp
    then have "same_position (b_private b1) ((b_private b1)\<lparr>cs_stats := st\<rparr>)" by (intro same_position_scan)
    then show ?thesis
      using all o Inr by (auto simp: run filtered_def Let_def batch_view_def view quals_ok_def intro: same_position_trans)
  qed
qed

end
