(* ===== verification/Compressed_Loop.thy ===== *)
theory Compressed_Loop
  imports Compressed_Filter
begin

text \<open>
  The position of a scan and what is left to produce; each call of \<open>scan_next\<close> skips
  only rows that are not wanted and delivers the next rows.
\<close>

section \<open>Position\<close>

definition position_ok :: "int4_row list list \<Rightarrow> 'c compressed_scan \<Rightarrow> bool" where
  "position_ok chunks scan \<longleftrightarrow>
     (let gs = cr_groups (cs_relation scan); gi = cs_group_index scan; bi = cs_batch_index scan; br = cs_batch_row scan
      in if gi < length gs
         then sg_first_batch (gs ! gi) \<le> bi \<and> bi \<le> sg_first_batch (gs ! gi) + sg_nbatches (gs ! gi) \<and>
           (\<not> cs_group_ready scan \<longrightarrow> bi = sg_first_batch (gs ! gi) \<and> br = 0) \<and>
           (if bi < sg_first_batch (gs ! gi) + sg_nbatches (gs ! gi) then br < length (chunks ! bi) else br = 0)
         else gi = length gs \<and> bi = length chunks \<and> br = 0)"

definition scan_ok :: "(var_node \<Rightarrow> int) \<Rightarrow> node list \<Rightarrow> int4_row list list \<Rightarrow> 'c compressed_scan \<Rightarrow> bool" where
  "scan_ok resolve clauses chunks scan \<longleftrightarrow> relation_holds (cs_relation scan) chunks \<and>
     attnums_ok (cr_ncolumns (cs_relation scan)) scan \<and> quals_ok resolve clauses scan \<and>
     (\<forall>q \<in> set (cs_quals scan). sq_prunable q \<longrightarrow> attnum_ok (cr_ncolumns (cs_relation scan)) (sq_attnum q)) \<and>
     position_ok chunks scan"

text \<open>The rows not yet delivered nor skipped.\<close>

definition rest :: "int4_row list list \<Rightarrow> 'c compressed_scan \<Rightarrow> int4_row list" where
  "rest chunks scan = drop (cs_batch_row scan) (concat (drop (cs_batch_index scan) chunks))"

text \<open>What stays the same during a scan.\<close>

definition static :: "'c compressed_scan \<Rightarrow> compressed_relation \<times> int \<times> int list \<times> nat \<times> 'c \<times> source_scan_mode \<times> bool \<times> (bool \<times> 'c source_qual) list" where
  "static scan = (cs_relation scan, cs_max_rows scan, cs_source_attnums scan, cs_ncolumns scan, cs_econtext scan, cs_mode scan,
     cs_prune_quals_ready scan, map qual_shape (cs_quals scan))"

definition passes :: "(node \<Rightarrow> datum option result) \<Rightarrow> (var_node \<Rightarrow> int) \<Rightarrow> node list \<Rightarrow> 'c compressed_scan \<Rightarrow> int4_row \<Rightarrow> bool" where
  "passes ev resolve clauses scan row \<longleftrightarrow>
     (\<forall>n \<in> set (filtered_by scan clauses [0..<length clauses]). clause_qual ev resolve scan n row = Inr (Some True))"

definition wanted :: "(node \<Rightarrow> datum option result) \<Rightarrow> (var_node \<Rightarrow> int) \<Rightarrow> node list \<Rightarrow> 'c compressed_scan \<Rightarrow> int4_row \<Rightarrow> bool" where
  "wanted ev resolve clauses scan row \<longleftrightarrow>
     (\<forall>q \<in> set (cs_quals scan). sq_prunable q \<longrightarrow> prune_true q row) \<and> passes ev resolve clauses scan row"

lemma static_quals:
  assumes "static scan' = static scan"
  shows "length (cs_quals scan') = length (cs_quals scan)"
    "\<And>q. q < length (cs_quals scan) \<Longrightarrow> qual_shape (cs_quals scan' ! q) = qual_shape (cs_quals scan ! q)"
proof -
  have m: "map qual_shape (cs_quals scan') = map qual_shape (cs_quals scan)" using assms by (simp add: static_def)
  then show l: "length (cs_quals scan') = length (cs_quals scan)" by (rule map_eq_imp_length_eq)
  show "qual_shape (cs_quals scan' ! q) = qual_shape (cs_quals scan ! q)" if "q < length (cs_quals scan)" for q
    using arg_cong [OF m, of "\<lambda>xs. xs ! q"] that l by simp
qed

lemma qual_shape_prune: "qual_shape q' = qual_shape q \<Longrightarrow> (sq_prunable q' \<longleftrightarrow> sq_prunable q) \<and> sq_attnum q' = sq_attnum q \<and>
    prune_true q' row = prune_true q row"
proof -
  assume "qual_shape q' = qual_shape q"
  then have "q'\<lparr>sq_expr := None\<rparr> = q\<lparr>sq_expr := None\<rparr>" by (simp add: qual_shape_def)
  then have "sq_prunable (q'\<lparr>sq_expr := None\<rparr>) = sq_prunable (q\<lparr>sq_expr := None\<rparr>)"
    "sq_attnum (q'\<lparr>sq_expr := None\<rparr>) = sq_attnum (q\<lparr>sq_expr := None\<rparr>)"
    "sq_op (q'\<lparr>sq_expr := None\<rparr>) = sq_op (q\<lparr>sq_expr := None\<rparr>)" "sq_scalar (q'\<lparr>sq_expr := None\<rparr>) = sq_scalar (q\<lparr>sq_expr := None\<rparr>)"
    by simp_all
  then show ?thesis by (simp add: prune_true_def cong: option.case_cong)
qed

lemma quals_all_static:
  assumes "static scan' = static scan" "\<And>q q'. qual_shape q' = qual_shape q \<Longrightarrow> P q' = P q"
  shows "(\<forall>q \<in> set (cs_quals scan'). P q) = (\<forall>q \<in> set (cs_quals scan). P q)"
proof -
  note s = static_quals [OF assms(1)]
  have "P (cs_quals scan' ! i) = P (cs_quals scan ! i)" if "i < length (cs_quals scan)" for i
    by (rule assms(2) [OF s(2) [OF that]])
  then show ?thesis unfolding all_set_conv_all_nth s(1) by simp
qed

lemma filtered_by_static:
  assumes "static scan' = static scan" "length clauses = length (cs_quals scan)"
  shows "filtered_by scan' clauses [0..<length clauses] = filtered_by scan clauses [0..<length clauses]"
proof -
  have "(sq_expr (cs_quals scan' ! q) \<noteq> None) = (sq_expr (cs_quals scan ! q) \<noteq> None)" if "q \<in> set [0..<length clauses]" for q
    using static_quals(2) [OF assms(1), of q] that assms(2) by (simp add: qual_shape_def)
  then show ?thesis unfolding filtered_by_def by (metis (mono_tags, lifting) filter_cong)
qed

lemma wanted_static:
  assumes "static scan' = static scan" "length clauses = length (cs_quals scan)"
  shows "passes ev resolve clauses scan' = passes ev resolve clauses scan" "wanted ev resolve clauses scan' = wanted ev resolve clauses scan"
proof -
  have "source_column scan' = source_column scan" using assms(1) by (auto simp: static_def source_column_def fun_eq_iff)
  then show p: "passes ev resolve clauses scan' = passes ev resolve clauses scan"
    using filtered_by_static [OF assms] by (simp add: passes_def clause_qual_def fun_eq_iff)
  have "(\<forall>q \<in> set (cs_quals scan'). sq_prunable q \<longrightarrow> prune_true q row) = (\<forall>q \<in> set (cs_quals scan). sq_prunable q \<longrightarrow> prune_true q row)" for row
    by (rule quals_all_static [OF assms(1)]) (metis qual_shape_prune)
  then show "wanted ev resolve clauses scan' = wanted ev resolve clauses scan"
    by (simp add: wanted_def p fun_eq_iff)
qed

lemma scan_ok_clauses: "scan_ok resolve clauses chunks scan \<Longrightarrow> length clauses = length (cs_quals scan)"
  by (auto simp: scan_ok_def quals_ok_def dest: list_all2_lengthD)

lemma static_position: "same_position scan scan' \<Longrightarrow> static scan' = static scan"
  by (simp add: static_def same_position_fields)

section \<open>Groups and batches\<close>

lemma tiles_next:
  assumes "tiles s gs k" "i < length gs"
  shows "sg_first_batch (gs ! i) + sg_nbatches (gs ! i) = (if Suc i < length gs then sg_first_batch (gs ! Suc i) else k)"
  using assms
proof (induction gs arbitrary: s i)
  case (Cons g gs)
  show ?case
  proof (cases i)
    case 0
    then show ?thesis using Cons.prems by (cases gs) auto
  next
    case (Suc j)
    then show ?thesis using Cons.IH [of "s + sg_nbatches g" j] Cons.prems by simp
  qed
qed simp

lemma chunk_facts:
  assumes "relation_holds rel chunks" "i < length (cr_batches rel)"
  shows "batch_rows_ok (cr_ncolumns rel) (chunks ! i) (cr_batches rel ! i)" "i < length chunks" "cb_nrows (cr_batches rel ! i) = length (chunks ! i)"
proof -
  show b: "batch_rows_ok (cr_ncolumns rel) (chunks ! i) (cr_batches rel ! i)"
    using assms by (auto simp: relation_holds_def list_all2_conv_all_nth)
  show "i < length chunks" using assms by (auto simp: relation_holds_def list_all2_conv_all_nth)
  show "cb_nrows (cr_batches rel ! i) = length (chunks ! i)" using b by (simp add: batch_rows_ok_def batch_holds_def)
qed

lemma next_group:
  assumes ok: "scan_ok resolve clauses chunks scan" and gi: "cs_group_index scan < length (cr_groups (cs_relation scan))"
    and done_group: "\<not> cs_batch_index scan < sg_first_batch (cr_groups (cs_relation scan) ! cs_group_index scan) +
      sg_nbatches (cr_groups (cs_relation scan) ! cs_group_index scan)"
  shows "scan_ok resolve clauses chunks (scan\<lparr>cs_group_index := cs_group_index scan + 1, cs_group_ready := False\<rparr>)"
proof -
  let ?gs = "cr_groups (cs_relation scan)" and ?gi = "cs_group_index scan"
  have rel: "relation_holds (cs_relation scan) chunks" using ok by (simp add: scan_ok_def)
  have t: "tiles 0 ?gs (length chunks)" using rel by (auto simp: relation_holds_def dest: list_all2_lengthD)
  have p: "cs_batch_index scan = sg_first_batch (?gs ! ?gi) + sg_nbatches (?gs ! ?gi)" "cs_batch_row scan = 0"
    using ok gi done_group by (auto simp: scan_ok_def position_ok_def Let_def)
  have bi: "cs_batch_index scan = (if Suc ?gi < length ?gs then sg_first_batch (?gs ! Suc ?gi) else length chunks)"
    using tiles_next [OF t gi] p(1) by simp
  have "0 < length (chunks ! cs_batch_index scan)" if "cs_batch_index scan < length (cr_batches (cs_relation scan))"
    using chunk_facts(1) [OF rel that] by (simp add: batch_rows_ok_def)
  moreover have "cs_batch_index scan < length (cr_batches (cs_relation scan))" if "Suc ?gi < length ?gs" "0 < sg_nbatches (?gs ! Suc ?gi)"
  proof -
    have "tiles 0 ?gs (length (cr_batches (cs_relation scan)))" using rel by (simp add: relation_holds_def)
    then have "sg_first_batch (?gs ! Suc ?gi) + sg_nbatches (?gs ! Suc ?gi) \<le> length (cr_batches (cs_relation scan))"
      using tiles_in nth_mem that(1) by blast
    then show ?thesis using that bi by simp
  qed
  ultimately have "position_ok chunks (scan\<lparr>cs_group_index := ?gi + 1, cs_group_ready := False\<rparr>)"
    using p(2) bi gi by (auto simp: position_ok_def Let_def)
  then show ?thesis using ok by (simp add: scan_ok_def attnums_ok_def quals_ok_def)
qed

lemma enter_group_ok:
  assumes ok: "scan_ok resolve clauses chunks scan" and gi: "cs_group_index scan < length (cr_groups (cs_relation scan))"
    and g: "g = cr_groups (cs_relation scan) ! cs_group_index scan"
  obtains pre where "scan_ok resolve clauses chunks (enter_group g scan)" "rest chunks scan = pre @ rest chunks (enter_group g scan)"
    "\<forall>row \<in> set pre. \<not> wanted ev resolve clauses scan row" "cs_mode scan = PG_BATCH_TAM_BATCH \<Longrightarrow> pre = []"
    "static (enter_group g scan) = static scan" "cs_group_index (enter_group g scan) = cs_group_index scan" "cs_group_ready (enter_group g scan)"
proof (cases "cs_group_ready scan \<or> cs_mode scan = PG_BATCH_TAM_BATCH \<or> group_may_match (cs_quals scan) g = PG_BATCH_GROUP_MATCH")
  case True
  define st where "st = cs_stats (enter_group g scan)"
  have e: "enter_group g scan = scan\<lparr>cs_group_ready := True, cs_stats := st\<rparr>"
    by (rule compressed_scan.equality) (use True in \<open>auto simp: st_def enter_group_def Let_def\<close>)
  have "scan_ok resolve clauses chunks (enter_group g scan)"
    using ok gi by (auto simp: e scan_ok_def position_ok_def attnums_ok_def quals_ok_def Let_def)
  then show thesis by (rule that [of "[]"]) (simp_all add: e rest_def static_def)
next
  case False
  define pre where "pre = concat (take (sg_nbatches g) (drop (sg_first_batch g) chunks))"
  obtain st where e: "enter_group g scan = scan\<lparr>cs_group_ready := True, cs_stats := st,
      cs_batch_index := sg_first_batch g + sg_nbatches g, cs_batch_row := 0\<rparr>"
    using False by (auto simp: enter_group_def Let_def)
  have pos: "cs_batch_index scan = sg_first_batch g" "cs_batch_row scan = 0"
    using ok gi False by (auto simp: scan_ok_def position_ok_def Let_def g)
  have rel: "relation_holds (cs_relation scan) chunks" and prunable: "\<forall>q \<in> set (cs_quals scan). sq_prunable q \<longrightarrow> attnum_ok (cr_ncolumns (cs_relation scan)) (sq_attnum q)"
    using ok by (simp_all add: scan_ok_def)
  have grp: "group_ok (cr_ncolumns (cs_relation scan)) chunks g" using rel gi by (simp add: relation_holds_def g)
  have "\<not> wanted ev resolve clauses scan row" if "row \<in> set pre" for row
    using group_may_match_sound [OF grp prunable that [unfolded pre_def]] False by (auto simp: wanted_def)
  moreover have "rest chunks scan = pre @ rest chunks (enter_group g scan)"
  proof -
    have "concat (drop (sg_first_batch g) chunks) =
        concat (take (sg_nbatches g) (drop (sg_first_batch g) chunks)) @ concat (drop (sg_nbatches g) (drop (sg_first_batch g) chunks))"
      by (metis append_take_drop_id concat_append)
    then show ?thesis by (simp add: rest_def e pos pre_def add.commute)
  qed
  moreover have "scan_ok resolve clauses chunks (enter_group g scan)"
    using ok gi unfolding e by (auto simp: scan_ok_def position_ok_def attnums_ok_def quals_ok_def Let_def g [symmetric])
  ultimately show thesis using that [of pre] False by (simp add: e static_def)
qed

lemma bit_all_rows: "n \<le> 64 \<Longrightarrow> bit (drop_bit (64 - n) (- 1) :: uint64) i \<longleftrightarrow> i < n"
  by (auto simp: bit_simps)

lemma loaded_selection:
  assumes "0 < n" "n \<le> 64"
  defines "s \<equiv> \<lparr>sel_nrows = int n, sel_nwords = 1, sel_words = [drop_bit (64 - n) (- 1)]\<rparr>"
  shows "sel_wf s" "selected s = [0..<n]"
proof -
  have "(int n + 63) div 64 = 1" using assms(1,2) by linarith
  then show "sel_wf s" using bit_all_rows [OF assms(2)] by (simp add: sel_wf_def s_def)
  have "sel_bit s r" if "r < n" for r using that assms(2) bit_all_rows [OF assms(2)] by (simp add: sel_bit_def s_def)
  then show "selected s = [0..<n]" by (simp add: selected_def s_def)
qed

lemma take_batch_ok:
  assumes ok: "scan_ok resolve clauses chunks scan" and gi: "cs_group_index scan < length (cr_groups (cs_relation scan))"
    and ready: "cs_group_ready scan" and g: "g = cr_groups (cs_relation scan) ! cs_group_index scan"
    and bi: "cs_batch_index scan < sg_first_batch g + sg_nbatches g"
  obtains rows where "batch_view (cr_ncolumns (cs_relation scan)) rows (take_batch scan)" "rows \<noteq> []" "length rows \<le> batch_limit scan"
    "selected (b_selection (take_batch scan)) = [0..<length rows]" "rest chunks scan = rows @ rest chunks (b_private (take_batch scan))"
    "scan_ok resolve clauses chunks (b_private (take_batch scan))" "static (b_private (take_batch scan)) = static scan"
    "cs_group_index (b_private (take_batch scan)) = cs_group_index scan"
proof -
  let ?bi = "cs_batch_index scan" and ?br = "cs_batch_row scan" and ?rel = "cs_relation scan"
  have rel: "relation_holds ?rel chunks" using ok by (simp add: scan_ok_def)
  have t: "tiles 0 (cr_groups ?rel) (length (cr_batches ?rel))" using rel by (simp add: relation_holds_def)
  have "sg_first_batch g + sg_nbatches g \<le> length (cr_batches ?rel)" using tiles_in [OF t] gi g by simp
  then have lt: "?bi < length (cr_batches ?rel)" using bi by simp
  note ch = chunk_facts [OF rel lt]
  define all where "all = chunks ! ?bi"
  define n where "n = min (batch_limit scan) (length all - ?br)"
  define rows where "rows = take n (drop ?br all)"
  have pos: "sg_first_batch g \<le> ?bi" "?br < length all"
    using ok gi bi by (auto simp: scan_ok_def position_ok_def Let_def g all_def split: if_splits)
  have all64: "length all \<le> 64" using ch(1) by (simp add: all_def batch_rows_ok_def)
  have n: "0 < n" "n \<le> 64" "?br + n \<le> length all" "n \<le> batch_limit scan" using pos(2) all64 by (auto simp: n_def batch_limit_def)
  have len: "length rows = n" using n(3) by (simp add: rows_def)
  define scan' where "scan' = b_private (take_batch scan)"
  have b: "take_batch scan = (load_batch (cr_batches ?rel ! ?bi) ?br n scan)\<lparr>b_private := scan'\<rparr>"
    by (simp add: scan'_def take_batch_def Let_def ch(3) n_def all_def)
  define st where "st = cs_stats scan'"
  have scan': "scan' = (b_private (load_batch (cr_batches ?rel ! ?bi) ?br n scan))\<lparr>cs_stats := st,
      cs_batch_index := (if ?br + n = length all then ?bi + 1 else ?bi), cs_batch_row := (if ?br + n = length all then 0 else ?br + n)\<rparr>"
    by (rule compressed_scan.equality)
      (auto simp: st_def scan'_def take_batch_def Let_def load_batch_def ch(3) all_def n_def)
  have sel: "sel_wf (b_selection (take_batch scan))" "selected (b_selection (take_batch scan)) = [0..<length rows]"
    "sel_nrows (b_selection (take_batch scan)) = int (length rows)"
    using loaded_selection [OF n(1,2)] by (simp_all add: b load_batch_def len)
  have att: "attnums_ok (cr_ncolumns ?rel) scan" using ok by (simp add: scan_ok_def)
  let ?active = "\<lparr>ab_batch = cr_batches ?rel ! ?bi, ab_start = ?br, ab_arrow_columns = replicate (cs_ncolumns scan) None,
      ab_datum_columns = replicate (cs_ncolumns scan) \<lparr>dc_arrays = None, dc_valid_rows = 0\<rparr>\<rparr>"
  have fields: "cs_ncolumns scan' = cs_ncolumns scan" "cs_active scan' = Some ?active" "attnums_ok (cr_ncolumns ?rel) scan'"
    using att by (simp_all add: scan' load_batch_def attnums_ok_def)
  have "view_ok (cr_ncolumns ?rel) rows scan'"
    unfolding view_ok_def fields(1)
    by (intro conjI fields(3) exI [of _ ?active] exI [of _ all])
      (use fields(2) ch(1) len n(1) in \<open>auto simp: all_def [symmetric] rows_def datum_ok_def\<close>)
  then have view: "batch_view (cr_ncolumns ?rel) rows (take_batch scan)"
    using sel(1,3) by (simp add: batch_view_def b load_batch_def)
  have split: "drop ?bi chunks = all # drop (Suc ?bi) chunks" using ch(2) by (simp add: all_def Cons_nth_drop_Suc)
  have rest: "rest chunks scan = rows @ rest chunks scan'"
  proof -
    have 1: "rest chunks scan = drop ?br all @ concat (drop (Suc ?bi) chunks)" using pos(2) by (simp add: rest_def split)
    have 2: "drop ?br all = rows @ drop (?br + n) all" unfolding rows_def by (metis append_take_drop_id drop_drop add.commute)
    show ?thesis
    proof (cases "?br + n = length all")
      case True
      then show ?thesis using 1 2 by (simp add: rest_def scan')
    next
      case False
      then have "rest chunks scan' = drop (?br + n) all @ concat (drop (Suc ?bi) chunks)" using n(3) by (simp add: rest_def scan' split load_batch_def)
      then show ?thesis using 1 2 by simp
    qed
  qed
  have next_chunk: "0 < length (chunks ! Suc ?bi)" if "Suc ?bi < sg_first_batch g + sg_nbatches g"
  proof -
    have "Suc ?bi < length (cr_batches ?rel)" using that tiles_in [OF t] gi g by (meson less_le_trans nth_mem)
    then show ?thesis using chunk_facts(1) [OF rel] by (simp add: batch_rows_ok_def)
  qed
  have "position_ok chunks scan'"
    using ok gi ready bi pos n(3) next_chunk
    by (auto simp: position_ok_def Let_def scan' load_batch_def g all_def)
  then have ok': "scan_ok resolve clauses chunks scan'"
    using ok by (simp add: scan_ok_def scan' load_batch_def attnums_ok_def quals_ok_def)
  show thesis
    by (rule that [OF view _ _ sel(2)]) (use len n rest ok' in \<open>auto simp: scan'_def [symmetric]\<close>, simp_all add: scan' static_def load_batch_def)
qed

section \<open>The next batch\<close>

definition delivered_by :: "'c compressed_scan \<Rightarrow> (int4_row \<Rightarrow> bool) \<Rightarrow> int4_row list \<Rightarrow> nat list" where
  "delivered_by scan pass rows = (if cs_mode scan = PG_BATCH_TAM_FILTER then filter (\<lambda>r. pass (rows ! r)) [0..<length rows] else [0..<length rows])"

definition found_ok ::
  "(node \<Rightarrow> datum option result) \<Rightarrow> (var_node \<Rightarrow> int) \<Rightarrow> node list \<Rightarrow> int4_row list list \<Rightarrow> 'c compressed_scan \<Rightarrow> 'c compressed_scan \<Rightarrow>
     'c compressed_scan batch \<Rightarrow> bool" where
  "found_ok ev resolve clauses chunks scan scan' b \<longleftrightarrow> scan' = b_private b \<and>
     (\<exists>pre rows. rest chunks scan = pre @ rows @ rest chunks scan' \<and> (\<forall>row \<in> set pre. \<not> wanted ev resolve clauses scan row) \<and>
        (cs_mode scan = PG_BATCH_TAM_BATCH \<longrightarrow> pre = []) \<and> batch_view (cr_ncolumns (cs_relation scan)) rows b \<and>
        length rows \<le> batch_limit scan \<and> selected (b_selection b) \<noteq> [] \<and>
        selected (b_selection b) = delivered_by scan (passes ev resolve clauses scan) rows)"

definition next_ok ::
  "(node \<Rightarrow> datum option result) \<Rightarrow> (nat \<Rightarrow> 'c compressed_scan batch_ops) \<Rightarrow> (var_node \<Rightarrow> int) \<Rightarrow> node list \<Rightarrow> int4_row list list \<Rightarrow> 'c compressed_scan \<Rightarrow>
     ('c compressed_scan batch option \<times> 'c compressed_scan) result \<times> 'c compressed_scan native_cache \<Rightarrow> bool" where
  "next_ok ev tables resolve clauses chunks scan out \<longleftrightarrow>
     (case out of
        (Inl _, c') \<Rightarrow> cs_mode scan = PG_BATCH_TAM_FILTER \<and>
          (\<exists>n \<in> set (filtered_by scan clauses [0..<length clauses]). \<exists>row \<in> set (rest chunks scan). \<exists>err. clause_qual ev resolve scan n row = Inl err)
      | (Inr (found, scan'), c') \<Rightarrow> cache_ok tables c' \<and> scan_ok resolve clauses chunks scan' \<and> static scan' = static scan \<and>
          (case found of
             None \<Rightarrow> rest chunks scan' = [] \<and> (\<forall>row \<in> set (rest chunks scan). \<not> wanted ev resolve clauses scan row) \<and>
               (cs_mode scan = PG_BATCH_TAM_BATCH \<longrightarrow> rest chunks scan = [])
           | Some b \<Rightarrow> found_ok ev resolve clauses chunks scan scan' b))"

lemma found_okI:
  "scan' = b_private b \<Longrightarrow> rest chunks scan = pre @ rows @ rest chunks scan' \<Longrightarrow> \<forall>row \<in> set pre. \<not> wanted ev resolve clauses scan row \<Longrightarrow>
   cs_mode scan = PG_BATCH_TAM_BATCH \<longrightarrow> pre = [] \<Longrightarrow> batch_view (cr_ncolumns (cs_relation scan)) rows b \<Longrightarrow>
   length rows \<le> batch_limit scan \<Longrightarrow> selected (b_selection b) \<noteq> [] \<Longrightarrow>
   selected (b_selection b) = delivered_by scan (passes ev resolve clauses scan) rows \<Longrightarrow> found_ok ev resolve clauses chunks scan scan' b"
  unfolding found_ok_def by blast

lemma found_okE:
  assumes "found_ok ev resolve clauses chunks scan scan' b"
  obtains pre rows where "scan' = b_private b" "rest chunks scan = pre @ rows @ rest chunks scan'" "\<forall>row \<in> set pre. \<not> wanted ev resolve clauses scan row"
    "cs_mode scan = PG_BATCH_TAM_BATCH \<longrightarrow> pre = []" "batch_view (cr_ncolumns (cs_relation scan)) rows b"
    "length rows \<le> batch_limit scan" "selected (b_selection b) \<noteq> []"
    "selected (b_selection b) = delivered_by scan (passes ev resolve clauses scan) rows"
  using assms unfolding found_ok_def by blast

lemma static_limit: "static scan' = static scan \<Longrightarrow> batch_limit scan' = batch_limit scan \<and> cs_mode scan' = cs_mode scan \<and> cs_relation scan' = cs_relation scan \<and>
    cs_econtext scan' = cs_econtext scan \<and> clause_qual ev resolve scan' = clause_qual ev resolve scan"
  by (simp add: static_def batch_limit_def clause_qual_def source_column_def fun_eq_iff)

lemma next_ok_skip:
  assumes st: "static scan1 = static scan" and len: "length clauses = length (cs_quals scan)"
    and pre: "rest chunks scan = pre @ rest chunks scan1" "\<forall>row \<in> set pre. \<not> wanted ev resolve clauses scan row"
      "cs_mode scan = PG_BATCH_TAM_BATCH \<longrightarrow> pre = []"
    and n: "next_ok ev tables resolve clauses chunks scan1 out"
  shows "next_ok ev tables resolve clauses chunks scan out"
proof -
  note s = static_limit [OF st] wanted_static [OF st len] filtered_by_static [OF st len]
  have same: "delivered_by scan1 = delivered_by scan" by (simp add: delivered_by_def fun_eq_iff s)
  obtain res c' where o: "out = (res, c')" by (cases out)
  show ?thesis
  proof (cases res)
    case (Inl err)
    then show ?thesis using n pre(1) by (auto simp: next_ok_def o s)
  next
    case (Inr p)
    obtain found scan' where p: "p = (found, scan')" by (cases p)
    have base: "cache_ok tables c'" "scan_ok resolve clauses chunks scan'" "static scan' = static scan"
      using n st by (simp_all add: next_ok_def o Inr p)
    show ?thesis
    proof (cases found)
      case None
      then show ?thesis using n base pre by (auto simp: next_ok_def o Inr p s)
    next
      case (Some b)
      have f1: "found_ok ev resolve clauses chunks scan1 scan' b" using n by (simp add: next_ok_def o Inr p Some)
      obtain pre' rows where r: "scan' = b_private b" "rest chunks scan1 = pre' @ rows @ rest chunks scan'"
        "\<forall>row \<in> set pre'. \<not> wanted ev resolve clauses scan row" "cs_mode scan = PG_BATCH_TAM_BATCH \<longrightarrow> pre' = []"
        "batch_view (cr_ncolumns (cs_relation scan)) rows b" "length rows \<le> batch_limit scan" "selected (b_selection b) \<noteq> []"
        "selected (b_selection b) = delivered_by scan (passes ev resolve clauses scan) rows"
        by (rule found_okE [OF f1]) (simp add: s same)
      have "rest chunks scan = (pre @ pre') @ rows @ rest chunks scan'" using pre(1) r(2) by simp
      moreover have "\<forall>row \<in> set (pre @ pre'). \<not> wanted ev resolve clauses scan row" using pre(2) r(3) by auto
      moreover have "cs_mode scan = PG_BATCH_TAM_BATCH \<longrightarrow> pre @ pre' = []" using pre(3) r(4) by simp
      ultimately have "found_ok ev resolve clauses chunks scan scan' b" by (rule found_okI [OF r(1)]) (rule r(5-8))+
      then show ?thesis using base by (simp add: next_ok_def o Inr p Some)
    qed
  qed
qed

lemma release_ok: "scan_ok resolve clauses chunks (release_batch scan) = scan_ok resolve clauses chunks scan"
    "rest chunks (release_batch scan) = rest chunks scan" "static (release_batch scan) = static scan"
    "cs_group_index (release_batch scan) = cs_group_index scan"
  by (simp_all add: release_batch_def scan_ok_def position_ok_def attnums_ok_def quals_ok_def rest_def static_def)

lemma delivered_rows:
  assumes "selected s = [0..<length rows]"
  shows "filter (\<lambda>r. P (rows ! r)) (selected s) = [] \<longleftrightarrow> (\<forall>row \<in> set rows. \<not> P row)"
  by (auto simp: assms filter_empty_conv all_set_conv_all_nth)

lemma taken_ok:
  assumes ok: "scan_ok resolve clauses chunks scan" and gi: "cs_group_index scan < length (cr_groups (cs_relation scan))"
    and ready: "cs_group_ready scan" and g: "g = cr_groups (cs_relation scan) ! cs_group_index scan"
    and bi: "cs_batch_index scan < sg_first_batch g + sg_nbatches g"
    and cache: "cache_ok tables c" and ev: "executor_ok (\<lambda>n. ev n (cs_econtext scan))"
    and f: "(if cs_mode scan = PG_BATCH_TAM_FILTER then filter_batch target ev c (take_batch scan) else (Inr (take_batch scan), c)) = (res, c')"
  shows "case res of
      Inl err \<Rightarrow> next_ok (\<lambda>n. ev n (cs_econtext scan)) tables resolve clauses chunks scan (Inl err, c')
    | Inr b \<Rightarrow> cache_ok tables c' \<and> scan_ok resolve clauses chunks (b_private b) \<and> static (b_private b) = static scan \<and>
        cs_group_index (b_private b) = cs_group_index scan \<and>
        (\<exists>rows. rest chunks scan = rows @ rest chunks (b_private b) \<and> rows \<noteq> [] \<and> batch_view (cr_ncolumns (cs_relation scan)) rows b \<and>
          length rows \<le> batch_limit scan \<and>
          selected (b_selection b) = delivered_by scan (passes (\<lambda>n. ev n (cs_econtext scan)) resolve clauses scan) rows)"
proof -
  let ?ev = "\<lambda>n. ev n (cs_econtext scan)" and ?b = "take_batch scan"
  obtain rows where t: "batch_view (cr_ncolumns (cs_relation scan)) rows ?b" "rows \<noteq> []" "length rows \<le> batch_limit scan"
    "selected (b_selection ?b) = [0..<length rows]" "rest chunks scan = rows @ rest chunks (b_private ?b)"
    "scan_ok resolve clauses chunks (b_private ?b)" "static (b_private ?b) = static scan" "cs_group_index (b_private ?b) = cs_group_index scan"
    by (rule take_batch_ok [OF ok gi ready g bi])
  show ?thesis
  proof (cases "cs_mode scan = PG_BATCH_TAM_FILTER")
    case False
    then have "res = Inr ?b" "c' = c" using f by simp_all
    then show ?thesis using t cache False by (auto simp: delivered_by_def)
  next
    case True
    note s = static_limit [OF t(7)] wanted_static [OF t(7) scan_ok_clauses [OF ok]] filtered_by_static [OF t(7) scan_ok_clauses [OF ok]]
    have quals: "quals_ok resolve clauses (b_private ?b)" using t(6) by (simp add: scan_ok_def)
    have fb: "filtered ?ev tables resolve clauses (cr_ncolumns (cs_relation scan)) rows (filtered_by scan clauses [0..<length clauses]) ?b (res, c')"
      using filter_batch_ok [OF t(1) quals cache, of ev target] ev f True by (simp add: s)
    show ?thesis
    proof (cases res)
      case (Inl err)
      then obtain n r err' where nr: "n \<in> set (filtered_by scan clauses [0..<length clauses])" "r < length rows" "clause_qual ?ev resolve scan n (rows ! r) = Inl err'"
        using fb t(4) by (auto simp: filtered_def Let_def s)
      then have "rows ! r \<in> set (rest chunks scan)" using t(5) by simp
      then show ?thesis using nr True Inl by (auto simp: next_ok_def)
    next
      case (Inr b)
      have b: "cache_ok tables c'" "batch_view (cr_ncolumns (cs_relation scan)) rows b" "quals_ok resolve clauses (b_private b)"
        "same_position (b_private ?b) (b_private b)"
        "selected (b_selection b) = filter (\<lambda>r. passes ?ev resolve clauses scan (rows ! r)) [0..<length rows]"
        using fb Inr t(4) by (simp_all add: filtered_def Let_def s passes_def)
      note p = same_position_fields [OF b(4)]
      have prunable: "\<forall>q \<in> set (cs_quals (b_private b)). sq_prunable q \<longrightarrow> attnum_ok (cr_ncolumns (cs_relation scan)) (sq_attnum q)"
      proof -
        have "(\<forall>q \<in> set (cs_quals (b_private b)). sq_prunable q \<longrightarrow> attnum_ok (cr_ncolumns (cs_relation scan)) (sq_attnum q)) =
            (\<forall>q \<in> set (cs_quals (b_private ?b)). sq_prunable q \<longrightarrow> attnum_ok (cr_ncolumns (cs_relation scan)) (sq_attnum q))"
          by (rule quals_all_static [OF static_position [OF b(4)]]) (metis qual_shape_prune)
        then show ?thesis using t(6) s(1) by (simp add: scan_ok_def)
      qed
      have "scan_ok resolve clauses chunks (b_private b)"
      proof -
        have "position_ok chunks (b_private b) = position_ok chunks (b_private ?b)" "cs_relation (b_private b) = cs_relation scan"
          "attnums_ok (cr_ncolumns (cs_relation scan)) (b_private b) = attnums_ok (cr_ncolumns (cs_relation scan)) (b_private ?b)"
          using s(1) by (simp_all add: position_ok_def attnums_ok_def p)
        then show ?thesis using t(6) b(3) prunable s(1) unfolding scan_ok_def by simp
      qed
      moreover have "rest chunks (b_private b) = rest chunks (b_private ?b)" by (simp add: rest_def p)
      moreover have "static (b_private b) = static scan" using static_position [OF b(4)] t(7) by simp
      ultimately show ?thesis using b t p Inr True by (auto simp: delivered_by_def)
    qed
  qed
qed

lemma scan_loop_ok:
  assumes "scan_ok resolve clauses chunks scan" "cache_ok tables c" "executor_ok (\<lambda>n. ev n (cs_econtext scan))"
  shows "\<exists>out. scan_loop target ev c scan = Some out \<and> next_ok (\<lambda>n. ev n (cs_econtext scan)) tables resolve clauses chunks scan out"
  using assms
proof (induction "length (rest chunks scan) + (length (cr_groups (cs_relation scan)) - cs_group_index scan)" arbitrary: scan c rule: less_induct)
  case less
  let ?ev = "\<lambda>n. ev n (cs_econtext scan)" and ?gs = "cr_groups (cs_relation scan)" and ?gi = "cs_group_index scan"
  note len = scan_ok_clauses [OF less.prems(1)]
  show ?case
  proof (cases "?gi < length ?gs")
    case False
    then have pos: "cs_batch_index scan = length chunks" "cs_batch_row scan = 0"
      using less.prems(1) by (simp_all add: scan_ok_def position_ok_def Let_def)
    have "scan_loop target ev c scan = Some (Inr (None, scan), c)" using False by (simp add: scan_loop.simps)
    then show ?thesis using less.prems by (simp add: next_ok_def rest_def pos)
  next
    case True
    define g where "g = ?gs ! ?gi"
    define scan1 where "scan1 = enter_group g scan"
    obtain pre where e: "scan_ok resolve clauses chunks scan1" "rest chunks scan = pre @ rest chunks scan1"
      "\<forall>row \<in> set pre. \<not> wanted ?ev resolve clauses scan row" "cs_mode scan = PG_BATCH_TAM_BATCH \<Longrightarrow> pre = []"
      "static scan1 = static scan" "cs_group_index scan1 = ?gi" "cs_group_ready scan1"
      unfolding scan1_def using enter_group_ok [OF less.prems(1) True g_def, of ?ev] by blast
    note s1 = static_limit [OF e(5)]
    have skip: "next_ok ?ev tables resolve clauses chunks scan out" if "next_ok ?ev tables resolve clauses chunks scan1 out" for out
      by (rule next_ok_skip [OF e(5) len e(2,3) _ that]) (use e(4) in blast)
    have gi1: "cs_group_index scan1 < length (cr_groups (cs_relation scan1))" "g = cr_groups (cs_relation scan1) ! cs_group_index scan1"
      using True e(6) s1 by (simp_all add: g_def)
    show ?thesis
    proof (cases "cs_batch_index scan1 < sg_first_batch g + sg_nbatches g")
      case False
      define scan2 where "scan2 = scan1\<lparr>cs_group_index := cs_group_index scan1 + 1, cs_group_ready := False\<rparr>"
      have ok2: "scan_ok resolve clauses chunks scan2"
        unfolding scan2_def by (rule next_group [OF e(1) gi1(1)]) (use False gi1(2) in simp)
      have same2: "rest chunks scan2 = rest chunks scan1" "static scan2 = static scan1" "cs_econtext scan2 = cs_econtext scan" "cs_relation scan2 = cs_relation scan"
        "cs_group_index scan2 = ?gi + 1"
        using s1 e(6) by (simp_all add: scan2_def rest_def static_def)
      have "scan_loop target ev c scan = scan_loop target ev c scan2"
        using True False by (subst scan_loop.simps) (simp add: Let_def g_def [symmetric] scan1_def [symmetric] scan2_def)
      moreover have "\<exists>out. scan_loop target ev c scan2 = Some out \<and> next_ok ?ev tables resolve clauses chunks scan2 out"
        using less.hyps [of scan2 c] ok2 less.prems(2,3) same2 True e(2) by simp
      moreover have "next_ok ?ev tables resolve clauses chunks scan1 out" if "next_ok ?ev tables resolve clauses chunks scan2 out" for out
        by (rule next_ok_skip [OF same2(2) scan_ok_clauses [OF e(1)], of chunks "[]"]) (use same2(1) that in simp_all)
      ultimately show ?thesis using skip by auto
    next
      case batch: True
      obtain res c' where f: "(if cs_mode scan1 = PG_BATCH_TAM_FILTER then filter_batch target ev c (take_batch scan1) else (Inr (take_batch scan1), c)) = (res, c')"
        (is "?f = _") by (cases ?f)
      have ev1: "executor_ok (\<lambda>n. ev n (cs_econtext scan1))" using less.prems(3) s1 by simp
      note taken = taken_ok [OF e(1) gi1(1) e(7) gi1(2) batch less.prems(2) ev1 f]
      have run: "scan_loop target ev c scan = (case res of Inl err \<Rightarrow> Some (Inl err, c')
          | Inr b \<Rightarrow> if sel_words (b_selection b) ! 0 = 0 then scan_loop target ev c' (release_batch (b_private b)) else Some (Inr (Some b, b_private b), c'))"
        using True batch f by (subst scan_loop.simps) (simp add: Let_def g_def [symmetric] scan1_def [symmetric] split: sum.splits)
      show ?thesis
      proof (cases res)
        case (Inl err)
        then show ?thesis using taken run skip s1 by simp
      next
        case (Inr b)
        obtain rows where b: "cache_ok tables c'" "scan_ok resolve clauses chunks (b_private b)" "static (b_private b) = static scan1"
          "cs_group_index (b_private b) = cs_group_index scan1" "rest chunks scan1 = rows @ rest chunks (b_private b)" "rows \<noteq> []"
          "batch_view (cr_ncolumns (cs_relation scan1)) rows b" "length rows \<le> batch_limit scan1"
          "selected (b_selection b) = delivered_by scan1 (passes ?ev resolve clauses scan1) rows"
          using taken Inr s1 by auto
        have empty: "sel_words (b_selection b) ! 0 = 0 \<longleftrightarrow> selected (b_selection b) = []"
        proof (rule one_word(3))
          show "sel_wf (b_selection b)" "sel_nrows (b_selection b) = int (length rows)" using b(7) by (simp_all add: batch_view_def)
          show "0 < length rows" "length rows \<le> 64" using b(6,7) view_rows_64 by (auto simp: batch_view_def)
        qed
        show ?thesis
        proof (cases "selected (b_selection b) = []")
          case False
          then have "scan_loop target ev c scan = Some (Inr (Some b, b_private b), c')" using run Inr empty by simp
          moreover have "next_ok ?ev tables resolve clauses chunks scan1 (Inr (Some b, b_private b), c')"
          proof -
            have "found_ok ?ev resolve clauses chunks scan1 (b_private b) b"
              by (rule found_okI [of _ _ _ _ "[]" rows]) (use b False in simp_all)
            then show ?thesis using b(1-3) by (simp add: next_ok_def)
          qed
          ultimately show ?thesis using skip by blast
        next
          case none: True
          define scan2 where "scan2 = release_batch (b_private b)"
          have r: "scan_ok resolve clauses chunks scan2" "rest chunks scan2 = rest chunks (b_private b)" "static scan2 = static scan1"
            "cs_group_index scan2 = ?gi" using b(2,3,4) e(6) by (simp_all add: scan2_def release_ok)
          note s2 = static_limit [OF r(3)]
          have filter_mode: "cs_mode scan1 = PG_BATCH_TAM_FILTER" using none b(6,9) by (auto simp: delivered_by_def split: if_splits)
          have "\<forall>row \<in> set rows. \<not> passes ?ev resolve clauses scan1 row"
            using none b(9) filter_mode by (auto simp: delivered_by_def filter_empty_conv all_set_conv_all_nth)
          then have unwanted: "\<forall>row \<in> set rows. \<not> wanted ?ev resolve clauses scan1 row" by (simp add: wanted_def)
          have "scan_loop target ev c scan = scan_loop target ev c' scan2" using run Inr empty none by (simp add: scan2_def)
          moreover have "\<exists>out. scan_loop target ev c' scan2 = Some out \<and> next_ok ?ev tables resolve clauses chunks scan2 out"
            using less.hyps [of scan2 c'] r b(1,5,6) less.prems(3) s1 s2 e(2) by simp
          moreover have "next_ok ?ev tables resolve clauses chunks scan1 out" if "next_ok ?ev tables resolve clauses chunks scan2 out" for out
            by (rule next_ok_skip [OF r(3) scan_ok_clauses [OF e(1)], of chunks rows]) (use b(5) r(2) unwanted filter_mode that in simp_all)
          ultimately show ?thesis using skip by auto
        qed
      qed
    qed
  qed
qed

end
