(* ===== verification/Compressed_All.thy ===== *)
theory Compressed_All
  imports Compressed_Loop
begin

text \<open>
  A whole scan: its batches deliver, in the order of the table, every row that is wanted.
\<close>

text \<open>The rows a batch delivers, decoded from the stored batch it is a view of.\<close>

definition batch_tuples :: "'c compressed_scan batch \<Rightarrow> int4_row list" where
  "batch_tuples b =
     (case cs_active (b_private b) of
        None \<Rightarrow> []
      | Some active \<Rightarrow> map (\<lambda>r. stored_rows (ab_batch active) ! (ab_start active + r)) (selected (b_selection b)))"

lemma batch_tuples_eq:
  assumes "batch_view ncols rows b"
  shows "batch_tuples b = map ((!) rows) (selected (b_selection b))"
proof -
  obtain active :: active_batch and all where a: "cs_active (b_private b) = Some active" "batch_rows_ok ncols all (ab_batch active)"
    "rows = take (length rows) (drop (ab_start active) all)" "rows \<noteq> []"
    using assms unfolding batch_view_def view_ok_def by blast
  have fit: "ab_start active + length rows \<le> length all"
    using arg_cong [OF a(3), of length] a(4) by (cases rows) auto
  have "stored_rows (ab_batch active) ! (ab_start active + r) = rows ! r" if "r < length rows" for r
    using arg_cong [OF a(3), of "\<lambda>xs. xs ! r"] that fit by (simp add: stored_rows_eq [OF a(2)])
  moreover have "r < length rows" if "r \<in> set (selected (b_selection b))" for r
    using assms that by (simp add: batch_view_def set_selected)
  ultimately show ?thesis by (simp add: batch_tuples_def a(1))
qed

lemma batch_tuples_delivered:
  assumes "batch_view ncols rows b" "selected (b_selection b) = delivered_by scan P rows"
  shows "batch_tuples b = (if cs_mode scan = PG_BATCH_TAM_FILTER then filter P rows else rows)"
proof -
  have "map ((!) rows) (filter (\<lambda>r. P (rows ! r)) [0..<length rows]) = filter P rows"
    by (metis (mono_tags, lifting) filter_map map_nth filter_cong comp_def)
  then show ?thesis by (simp add: batch_tuples_eq [OF assms(1)] assms(2) delivered_by_def map_nth)
qed

definition all_ok ::
  "(node \<Rightarrow> datum option result) \<Rightarrow> (var_node \<Rightarrow> int) \<Rightarrow> node list \<Rightarrow> int4_row list \<Rightarrow> 'c compressed_scan \<Rightarrow> 'c compressed_scan batch list result \<Rightarrow> bool" where
  "all_ok ev resolve clauses rows scan out \<longleftrightarrow>
     (case out of
        Inl _ \<Rightarrow> cs_mode scan = PG_BATCH_TAM_FILTER \<and>
          (\<exists>n \<in> set (filtered_by scan clauses [0..<length clauses]). \<exists>row \<in> set rows. \<exists>err. clause_qual ev resolve scan n row = Inl err)
      | Inr bs \<Rightarrow>
          filter (wanted ev resolve clauses scan) (concat (map batch_tuples bs)) = filter (wanted ev resolve clauses scan) rows \<and>
          (cs_mode scan = PG_BATCH_TAM_FILTER \<longrightarrow> (\<forall>row \<in> set (concat (map batch_tuples bs)). passes ev resolve clauses scan row)) \<and>
          (cs_mode scan = PG_BATCH_TAM_BATCH \<longrightarrow> concat (map batch_tuples bs) = rows) \<and>
          (\<forall>b \<in> set bs. batch_tuples b \<noteq> [] \<and> length (batch_tuples b) \<le> batch_limit scan))"

lemma all_ok_static:
  assumes "static scan1 = static scan" "length clauses = length (cs_quals scan)"
  shows "all_ok ev resolve clauses rows scan1 out = all_ok ev resolve clauses rows scan out"
  by (simp only: all_ok_def static_limit [OF assms(1)] wanted_static [OF assms] filtered_by_static [OF assms])

lemma filter_none: "\<forall>x \<in> set xs. \<not> P x \<Longrightarrow> filter P xs = []"
  by simp

lemma scan_all_ok:
  assumes "scan_ok resolve clauses chunks scan" "cache_ok tables c" "executor_ok (\<lambda>n. ev n (cs_econtext scan))" "cs_prune_quals_ready scan"
  shows "\<exists>out. scan_all target ev c scan = Some out \<and> all_ok (\<lambda>n. ev n (cs_econtext scan)) resolve clauses (rest chunks scan) scan out"
  using assms
proof (induction "length (rest chunks scan)" arbitrary: scan c rule: less_induct)
  case less
  let ?ev = "\<lambda>n. ev n (cs_econtext scan)"
  note len = scan_ok_clauses [OF less.prems(1)]
  obtain res c' where l: "scan_loop target ev c scan = Some (res, c')" "next_ok ?ev tables resolve clauses chunks scan (res, c')"
    using scan_loop_ok [where ev = ev and target = target, OF less.prems(1-3)] by (metis surj_pair)
  have nxt: "scan_next target ev c scan = Some (res, c')" using l(1) less.prems(4) by (simp add: scan_next_def)
  show ?case
  proof (cases res)
    case (Inl err)
    then have "scan_all target ev c scan = Some (Inl err)" using nxt by (simp add: scan_all.simps)
    then show ?thesis using l(2) Inl by (simp add: next_ok_def all_ok_def)
  next
    case (Inr p)
    obtain found scan' where p: "p = (found, scan')" by (cases p)
    show ?thesis
    proof (cases found)
      case None
      then have "scan_all target ev c scan = Some (Inr [])" using nxt Inr p by (simp add: scan_all.simps)
      moreover have "filter (wanted ?ev resolve clauses scan) (rest chunks scan) = []" "cs_mode scan = PG_BATCH_TAM_BATCH \<longrightarrow> rest chunks scan = []"
        using l(2) Inr p None by (simp_all add: next_ok_def)
      ultimately show ?thesis by (simp add: all_ok_def)
    next
      case (Some b)
      have n: "cache_ok tables c'" "scan_ok resolve clauses chunks scan'" "static scan' = static scan" "found_ok ?ev resolve clauses chunks scan scan' b"
        using l(2) Inr p Some by (simp_all add: next_ok_def)
      obtain pre rows where f: "scan' = b_private b" "rest chunks scan = pre @ rows @ rest chunks scan'" "\<forall>row \<in> set pre. \<not> wanted ?ev resolve clauses scan row"
        "cs_mode scan = PG_BATCH_TAM_BATCH \<longrightarrow> pre = []" "batch_view (cr_ncolumns (cs_relation scan)) rows b"
        "length rows \<le> batch_limit scan" "selected (b_selection b) \<noteq> []"
        "selected (b_selection b) = delivered_by scan (passes ?ev resolve clauses scan) rows"
        by (rule found_okE [OF n(4)])
      let ?scan2 = "release_batch scan'" and ?w = "wanted ?ev resolve clauses scan" and ?p = "passes ?ev resolve clauses scan"
      have st2: "static ?scan2 = static scan" using n(3) by (simp add: release_ok)
      note s2 = static_limit [OF st2]
      have ready2: "cs_prune_quals_ready ?scan2" using st2 less.prems(4) by (simp add: static_def)
      have tuples: "batch_tuples b = (if cs_mode scan = PG_BATCH_TAM_FILTER then filter ?p rows else rows)"
        by (rule batch_tuples_delivered [OF f(5,8)])
      have "rows \<noteq> []" using f(5) by (auto simp: batch_view_def view_ok_def)
      then have shorter: "length (rest chunks ?scan2) < length (rest chunks scan)" using f(2) by (simp add: release_ok)
      obtain out where o: "scan_all target ev c' ?scan2 = Some out" "all_ok ?ev resolve clauses (rest chunks scan') scan out"
        using less.hyps [OF shorter, of c'] n(1,2) less.prems(3) ready2 s2 all_ok_static [OF st2 len] by (auto simp: release_ok)
      have run: "scan_all target ev c scan = Some (rbind out (\<lambda>bs. Inr (b # bs)))"
        using nxt Inr p Some o(1) by (subst scan_all.simps) simp
      have "batch_tuples b \<noteq> []" using f(7) by (simp add: batch_tuples_eq [OF f(5)])
      moreover have "length (batch_tuples b) \<le> batch_limit scan"
        using le_trans [OF length_filter_le f(6)] f(6) by (simp add: tuples)
      ultimately have limit: "batch_tuples b \<noteq> []" "length (batch_tuples b) \<le> batch_limit scan" by blast+
      have first: "filter ?w (batch_tuples b) = filter ?w (pre @ rows)"
      proof -
        have "filter ?w (filter ?p rows) = filter ?w rows" by (auto simp: wanted_def intro!: filter_cong)
        then show ?thesis using f(3) by (simp add: tuples)
      qed
      show ?thesis
      proof (cases out)
        case (Inl err)
        then show ?thesis using o(2) run f(2) by (auto simp: all_ok_def)
      next
        case (Inr bs)
        have bs: "filter ?w (concat (map batch_tuples bs)) = filter ?w (rest chunks scan')"
          "cs_mode scan = PG_BATCH_TAM_FILTER \<longrightarrow> (\<forall>row \<in> set (concat (map batch_tuples bs)). ?p row)"
          "cs_mode scan = PG_BATCH_TAM_BATCH \<longrightarrow> concat (map batch_tuples bs) = rest chunks scan'"
          "\<forall>b \<in> set bs. batch_tuples b \<noteq> [] \<and> length (batch_tuples b) \<le> batch_limit scan"
          using o(2) Inr by (simp_all add: all_ok_def)
        have "filter ?w (concat (map batch_tuples (b # bs))) = filter ?w (rest chunks scan)" using first bs(1) f(2) by simp
        moreover have "cs_mode scan = PG_BATCH_TAM_FILTER \<longrightarrow> (\<forall>row \<in> set (concat (map batch_tuples (b # bs))). ?p row)"
          using bs(2) by (auto simp: tuples)
        moreover have "cs_mode scan = PG_BATCH_TAM_BATCH \<longrightarrow> concat (map batch_tuples (b # bs)) = rest chunks scan"
          using bs(3) f(2,4) by (simp add: tuples)
        ultimately have "all_ok ?ev resolve clauses (rest chunks scan) scan (Inr (b # bs))" using bs(4) limit by (simp add: all_ok_def)
        then show ?thesis using run Inr by simp
      qed
    qed
  qed
qed

end
