(* ===== verification/Expr_Vars.thy ===== *)
theory Expr_Vars
  imports Expr_Reuse
begin

text \<open>
  Expressions after \<open>setrefs\<close>: PostgreSQL replaces the column references of a planned
  expression by references to the columns of the scan.  The rest of the tree stays, so
  the restricted grammar, the values and the compilation carry over.
\<close>

fun rename_vars :: "(var_node \<Rightarrow> var_node) \<Rightarrow> node \<Rightarrow> node" where
  "rename_vars \<rho> (Var v) = Var (\<rho> v)"
| "rename_vars \<rho> (RelabelType n) = RelabelType (rename_vars \<rho> n)"
| "rename_vars \<rho> (OpExpr f t args) = OpExpr f t (map (rename_vars \<rho>) args)"
| "rename_vars \<rho> n = n"

fun node_vars :: "node \<Rightarrow> var_node set" where
  "node_vars (Var v) = {v}"
| "node_vars (RelabelType n) = node_vars n"
| "node_vars (OpExpr f t args) = (\<Union>a \<in> set args. node_vars a)"
| "node_vars n = {}"

lemma strip_rename: "strip_relabel (rename_vars \<rho> n) = rename_vars \<rho> (strip_relabel n)"
  by (induction n) auto

lemma node_vars_strip: "node_vars (strip_relabel n) = node_vars n"
  by (induction n) auto

lemma row_value_rename:
  "row_value ev col (rename_vars \<rho> n) = row_value ev (\<lambda>v. col (\<rho> v)) n"
  "row_args ev col (map (rename_vars \<rho>) ns) = row_args ev (\<lambda>v. col (\<rho> v)) ns"
  by (induction ev "\<lambda>v. col (\<rho> v)" n and ev "\<lambda>v. col (\<rho> v)" ns rule: row_value_row_args.induct) simp_all

lemma row_value_cong:
  "\<forall>v \<in> node_vars n. col v = col' v \<Longrightarrow> row_value ev col n = row_value ev col' n"
  "\<forall>n \<in> set ns. \<forall>v \<in> node_vars n. col v = col' v \<Longrightarrow> row_args ev col ns = row_args ev col' ns"
  by (induction ev col n and ev col ns rule: row_value_row_args.induct) auto

lemma row_qual_rename: "row_qual ev col (rename_vars \<rho> n) = row_qual ev (\<lambda>v. col (\<rho> v)) n"
  by (auto simp: row_qual_def strip_rename row_value_rename split: node.splits list.splits)

lemma row_qual_cong:
  assumes "\<forall>v \<in> node_vars n. col v = col' v"
  shows "row_qual ev col n = row_qual ev col' n"
proof -
  have "row_value ev col a = row_value ev col' a" if "strip_relabel n = OpExpr f t args" "a \<in> set args" for f t args a
  proof (rule row_value_cong(1), rule ballI)
    fix v assume "v \<in> node_vars a"
    then have "v \<in> node_vars (strip_relabel n)" using that by auto
    then show "col v = col' v" using assms by (simp add: node_vars_strip)
  qed
  then show ?thesis unfolding row_qual_def by (auto split: node.splits list.splits)
qed

lemma analyze_rename:
  "\<forall>v \<in> node_vars n. valid_var v relid \<longrightarrow> valid_var (\<rho> v) 0 \<Longrightarrow> analyze_value relid n = Some k \<Longrightarrow>
     analyze_value 0 (rename_vars \<rho> n) = Some k"
  "\<forall>n \<in> set ns. \<forall>v \<in> node_vars n. valid_var v relid \<longrightarrow> valid_var (\<rho> v) 0 \<Longrightarrow> analyze_args relid ns vars = Some k' \<Longrightarrow>
     analyze_args 0 (map (rename_vars \<rho>) ns) vars = Some k'"
proof (induction relid n and relid ns vars arbitrary: k and k' rule: analyze_value_analyze_args.induct)
  case (8 relid arg args vars)
  then obtain j where j: "analyze_value relid arg = Some j" "\<not> vars + j > 1" "analyze_args relid args (vars + j) = Some k'"
    by (auto split: option.splits if_splits)
  have "analyze_value 0 (rename_vars \<rho> arg) = Some j" using 8 j(1) by simp
  moreover have "analyze_args 0 (map (rename_vars \<rho>) args) (vars + j) = Some k'" using 8 j by simp
  ultimately show ?case using j(2) by simp
qed (auto split: if_splits)

lemma rename_scalar:
  "analyze_value relid n = Some 0 \<Longrightarrow> rename_vars \<rho> n = n"
  "analyze_args relid ns 0 = Some 0 \<Longrightarrow> map (rename_vars \<rho>) ns = ns"
proof (induction relid n and relid ns "0 :: nat" rule: analyze_value_analyze_args.induct)
  case (8 relid arg args)
  then obtain j where j: "analyze_value relid arg = Some j" "analyze_args relid args j = Some 0"
    by (auto split: option.splits if_splits)
  then have "j = 0" using analyze_args_ge [OF j(2)] by simp
  then show ?case using 8 j by simp
qed (auto split: if_splits)

lemma analyze_filter_rename:
  assumes "\<forall>v \<in> node_vars n. valid_var v relid \<longrightarrow> valid_var (\<rho> v) 0" "analyze_filter relid n = Some x"
  shows "analyze_filter 0 (rename_vars \<rho> n) = Some x"
proof -
  obtain f t a b where n: "strip_relabel n = OpExpr f t [a, b]"
    using assms(2) by (auto simp: analyze_filter_def split: node.splits list.splits)
  have vars: "node_vars a \<subseteq> node_vars n" "node_vars b \<subseteq> node_vars n"
    using n node_vars_strip [of n] by auto
  obtain i j where ij: "analyze_value relid a = Some i" "analyze_value relid b = Some j"
    using assms(2) n by (auto simp: analyze_filter_def split: option.splits if_splits)
  have "analyze_value 0 (rename_vars \<rho> a) = Some i" "analyze_value 0 (rename_vars \<rho> b) = Some j"
    using assms(1) vars ij by (auto intro!: analyze_rename(1))
  then show ?thesis using assms(2) n ij by (simp add: analyze_filter_def strip_rename split: if_splits)
qed

lemma rename_id: "rename_vars id n = n"
  by (induction n) (simp_all add: list.map_ident_strong)

lemma analyze_filter_0: "analyze_filter relid n = Some x \<Longrightarrow> analyze_filter 0 n = Some x"
  using analyze_filter_rename [of n relid id x] by (simp add: rename_id valid_var_def)

section \<open>Compilation succeeds\<close>

lemma append_step_fields [simp]:
  "ex_column (append_step op sc l e) = ex_column e" "ex_capacity (append_step op sc l e) = ex_capacity e"
  "ex_values (append_step op sc l e) = ex_values e" "ex_validity (append_step op sc l e) = ex_validity e"
  by (simp_all add: append_step_def)

lemma arithmetic_op_length:
  assumes "arithmetic_op_of f (length args) = Some op"
  obtains (one) a where "args = [a]" | (two) a b where "args = [a, b]"
proof -
  have "length args = 1 \<or> length args = 2" using assms by (auto simp: arithmetic_op_of_def split: if_splits option.splits)
  then show thesis using one two by (auto simp: length_Suc_conv numeral_2_eq_2)
qed

lemma compile_value_total:
  assumes "analyze_value 0 n = Some 1" "\<forall>v \<in> node_vars n. 0 \<le> resolve v \<and> resolve v < N"
  shows "\<exists>e'. compile_value resolve n e = Inr e' \<and> 0 \<le> ex_column e' \<and> ex_column e' < N"
  using assms
proof (induction n)
  case (OpExpr f t args)
  obtain op where op: "arithmetic_op_of f (length args) = Some op" "analyze_args 0 args 0 = Some 1"
    using OpExpr.prems(1) by (auto split: if_splits)
  have an: "analyze_value 0 (OpExpr f t args) = Some 1" by (rule OpExpr.prems(1))
  from op(1) show ?case
  proof (cases rule: arithmetic_op_length)
    case (one a)
    then have "analyze_value 0 a = Some 1" using op(2) by (auto split: option.splits if_splits)
    then obtain e1 where e1: "compile_value resolve a e = Inr e1" "0 \<le> ex_column e1" "ex_column e1 < N"
      using OpExpr.IH [of a] OpExpr.prems(2) one by auto
    have "compile_value resolve (OpExpr f t args) e = Inr (append_step op None False e1)"
      using an op(1) e1(1) unfolding one by (simp del: analyze_value.simps)
    then show ?thesis using e1 by simp
  next
    case (two a b)
    obtain i j where ij: "analyze_value 0 a = Some i" "analyze_value 0 b = Some j" "i + j = 1"
      using op(2) two by (auto split: option.splits if_splits)
    show ?thesis
    proof (cases "i = 1")
      case True
      then obtain e1 where e1: "compile_value resolve a e = Inr e1" "0 \<le> ex_column e1" "ex_column e1 < N"
        using OpExpr.IH [of a] OpExpr.prems(2) two ij(1) by auto
      have "compile_value resolve (OpExpr f t args) e = Inr (append_step op (Some b) False e1)"
        using an op(1) e1(1) ij(1) True unfolding two by (simp del: analyze_value.simps)
      then show ?thesis using e1 by simp
    next
      case False
      then obtain e1 where e1: "compile_value resolve b e = Inr e1" "0 \<le> ex_column e1" "ex_column e1 < N"
        using OpExpr.IH [of b] OpExpr.prems(2) two ij(2,3) by auto
      have "compile_value resolve (OpExpr f t args) e = Inr (append_step op (Some a) True e1)"
        using an op(1) e1(1) ij(1) False unfolding two by (simp del: analyze_value.simps)
      then show ?thesis using e1 by simp
    qed
  qed
qed (auto split: if_splits)

lemma compile_filter_total:
  assumes "analyze_filter 0 n = Some x" "\<forall>v \<in> node_vars n. 0 \<le> resolve v \<and> resolve v < N"
  shows "\<exists>e :: 'c batch_expr. compile_expression n True resolve = Inr e \<and> 0 \<le> ex_column e \<and> ex_column e < N"
proof -
  obtain value_arg comparison where x: "x = (value_arg, comparison)" by (cases x)
  obtain f t args where n: "strip_relabel n = OpExpr f t args"
    using assms(1) by (auto simp: analyze_filter_def split: node.splits)
  note args = analyze_filter_args [OF assms(1) [unfolded x] n]
  have "args ! value_arg \<in> set args" using args(1,2) by (metis One_nat_def Suc_le_lessD le_Suc_eq length_Cons less_Suc_eq_le list.size(3) nth_mem)
  then have vars: "node_vars (args ! value_arg) \<subseteq> node_vars n" using n node_vars_strip [of n] by auto
  obtain e' :: "'c batch_expr" where "compile_value resolve (args ! value_arg) ((expr_empty True)\<lparr>ex_comparison := comparison,
      ex_comparison_scalar := Some (args ! (1 - value_arg))\<rparr>) = Inr e'" "0 \<le> ex_column e'" "ex_column e' < N"
    using compile_value_total [OF args(4)] assms(2) vars by blast
  then have "compile_expression n True resolve = Inr (finish_compile e')" "ex_column (finish_compile e') = ex_column e'"
    using assms(1) x n by (simp_all add: compile_expression_def finish_compile_def)
  then show ?thesis using \<open>0 \<le> ex_column e'\<close> \<open>ex_column e' < N\<close> by simp
qed

lemma compile_value_wf:
  "compile_value resolve n e = Inr e' \<Longrightarrow>
    ex_capacity e' = ex_capacity e \<and> ex_values e' = ex_values e \<and> ex_validity e' = ex_validity e"
proof (induction n arbitrary: e')
  case (OpExpr f t args)
  show ?case
  proof (cases "analyze_value 0 (OpExpr f t args) = Some 0")
    case True
    then show ?thesis using OpExpr.prems by (auto simp del: analyze_value.simps)
  next
    case False
    then obtain k op where k: "analyze_value 0 (OpExpr f t args) = Some k" "k \<noteq> 0" "arithmetic_op_of f (length args) = Some op"
      using OpExpr.prems by (auto simp del: analyze_value.simps split: option.splits)
    from k(3) show ?thesis
    proof (cases rule: arithmetic_op_length)
      case (one a)
      then show ?thesis using OpExpr.prems OpExpr.IH [of a] k by (auto simp: rbind_Inr_iff simp del: analyze_value.simps)
    next
      case (two a b)
      then show ?thesis using OpExpr.prems OpExpr.IH [of a] OpExpr.IH [of b] k
        by (auto simp: rbind_Inr_iff simp del: analyze_value.simps split: if_splits)
    qed
  qed
qed (auto simp: Let_def split: if_splits)

lemma compile_expression_wf: "compile_expression n True resolve = Inr e \<Longrightarrow> expr_wf e"
proof (erule compile_filter_fields)
  fix value_arg comparison f t args e1
  assume "compile_value resolve (args ! value_arg) ((expr_empty True)\<lparr>ex_comparison := comparison,
      ex_comparison_scalar := Some (args ! (1 - value_arg))\<rparr>) = Inr e1" and e: "e = finish_compile e1"
  then have "ex_capacity e1 = 0 \<and> ex_values e1 = [[], []] \<and> ex_validity e1 = [[], []]"
    using compile_value_wf by (fastforce simp: expr_empty_def)
  then show "expr_wf e" by (auto simp: e finish_compile_def expr_wf_def buffer_covers_def packed_covers_def nth_Cons split: nat.splits)
qed

section \<open>Direct comparisons\<close>

text \<open>A comparison of a column with a scalar is true only on rows whose value stands in that relation to the scalar's.\<close>

lemma match_int4_comparison_sound:
  assumes m: "match_int4_comparison n relid = Some (attnum, op, scalar)" and ev: "executor_ok ev"
    and t: "row_qual ev col n = Inr (Some True)"
  obtains v x d where "v \<in> node_vars n" "valid_var v relid" "varattno v = attnum" "col v = Some x" "ev scalar = Inr (Some d)"
    "int4_compare x (datum_get_int32 d) op" "analyze_value relid scalar = Some 0"
proof -
  obtain value_arg f tt args v where a: "analyze_filter relid (strip_relabel n) = Some (value_arg, op)" "strip_relabel n = OpExpr f tt args"
    "strip_relabel (args ! value_arg) = Var v" "attnum = varattno v" "scalar = strip_relabel (args ! (1 - value_arg))"
    "analyze_value relid scalar = Some 0"
    using m by (auto simp: match_int4_comparison_def Let_def split: option.splits node.splits if_splits)
  have strip2: "strip_relabel (strip_relabel n) = strip_relabel n" by (induction n) auto
  have an: "analyze_filter relid n = Some (value_arg, op)" using a(1) strip2 by (simp add: analyze_filter_def)
  note an0 = analyze_filter_0 [OF an]
  note args = analyze_filter_args [OF an0 a(2)]
  have val: "row_value ev col (args ! value_arg) = Inr (col v)"
    using row_value_strip [of ev col "args ! value_arg"] a(3) by simp
  have sc0: "analyze_value 0 scalar = Some 0" using analyze_strip [of 0 "args ! (1 - value_arg)"] args(5) a(5) by simp
  then have sc: "row_value ev col (args ! (1 - value_arg)) = int4_datum (ev scalar)"
    using ev row_value_strip [of ev col "args ! (1 - value_arg)"] by (simp add: executor_ok_def a(5))
  have "rbind (int4_datum (ev scalar)) (\<lambda>y. Inr (case (col v, y) of (Some x, Some y) \<Rightarrow> Some (int4_compare x y op) | _ \<Rightarrow> None)) = Inr (Some True)"
    using row_qual_comparison [OF an0 a(2), of ev col] t by (auto simp: agree_def val sc [unfolded One_nat_def])
  then obtain x d where xd: "col v = Some x" "ev scalar = Inr (Some d)" "int4_compare x (datum_get_int32 d) op"
    by (cases "ev scalar"; cases "col v") (auto simp: int4_datum_def split: option.splits)
  have mem: "args ! value_arg \<in> set args" using args(1,2) by (metis One_nat_def Suc_le_lessD le_Suc_eq length_Cons less_Suc_eq_le list.size(3) nth_mem)
  have v: "v \<in> node_vars n" using node_vars_strip [of n] node_vars_strip [of "args ! value_arg"] a(2,3) mem by auto
  have "valid_var v relid"
  proof -
    obtain i where "analyze_value relid (args ! value_arg) = Some i"
      using an a(2) args(1,2) by (auto simp: analyze_filter_def less_Suc_eq le_Suc_eq split: list.splits option.splits if_splits)
    then show ?thesis using analyze_strip [of relid "args ! value_arg"] a(3) by (simp split: if_splits)
  qed
  then show thesis using that [of v x d] v xd a(4,6) by simp
qed

end
