(* ===== verification/Compressed_Plan.thy ===== *)
theory Compressed_Plan
  imports Compressed_Source Compressed_All Expr_Vars
begin

text \<open>
  From planning to execution: the quals of a scan that \<open>begin_scan\<close> starts are those of
  the clauses \<open>plan_scan\<close> took over.
\<close>

section \<open>Planned quals\<close>

definition exact_clause :: "source_scan_mode \<Rightarrow> nat \<Rightarrow> node \<Rightarrow> bool" where
  "exact_clause mode relid clause \<longleftrightarrow> mode = PG_BATCH_TAM_FILTER \<and> supports_filter clause relid"

definition taken_over :: "source_scan_mode \<Rightarrow> nat \<Rightarrow> node \<times> bool \<Rightarrow> bool" where
  "taken_over mode relid = (\<lambda>(clause, promotable). mode \<noteq> PG_BATCH_TAM_BATCH \<and> promotable \<and>
     (match_int4_comparison clause relid \<noteq> None \<or> exact_clause mode relid clause))"

text \<open>A plan datum for a clause, with the expressions at the numbers it names.\<close>

definition qual_plan_ok :: "source_scan_mode \<Rightarrow> nat \<Rightarrow> node list \<Rightarrow> node \<Rightarrow> qual_plan \<Rightarrow> bool" where
  "qual_plan_ok mode relid exprs clause q \<longleftrightarrow>
     (case match_int4_comparison clause relid of
        None \<Rightarrow> qp_prunable q = 0 \<and> qp_scalar_expr q = - 1
      | Some (attnum, op, scalar) \<Rightarrow> qp_prunable q = 1 \<and> qp_attribute q = attnum \<and> qp_operator q = op_code op \<and>
          0 \<le> qp_scalar_expr q \<and> nat (qp_scalar_expr q) < length exprs \<and> exprs ! nat (qp_scalar_expr q) = scalar) \<and>
     (if exact_clause mode relid clause
      then 0 \<le> qp_filter_expr q \<and> nat (qp_filter_expr q) < length exprs \<and> exprs ! nat (qp_filter_expr q) = clause
      else qp_filter_expr q = - 1)"

lemma qual_plan_ok_append: "qual_plan_ok mode relid exprs clause q \<Longrightarrow> qual_plan_ok mode relid (exprs @ es) clause q"
  by (auto simp: qual_plan_ok_def nth_append split: option.splits if_splits)

definition spec_ok :: "source_scan_mode \<Rightarrow> nat \<Rightarrow> node list \<Rightarrow> node \<Rightarrow> pnode \<Rightarrow> bool" where
  "spec_ok mode relid exprs clause spec \<longleftrightarrow> (\<exists>q. make_qual_plan q = Inr spec \<and> qual_plan_ok mode relid exprs clause q)"

definition planned_support :: "source_scan_mode \<Rightarrow> nat \<Rightarrow> node \<times> bool \<Rightarrow> qual_support" where
  "planned_support mode relid c = (if \<not> taken_over mode relid c then PG_BATCH_QUAL_UNSUPPORTED
     else if exact_clause mode relid (fst c) then PG_BATCH_QUAL_EXACT else PG_BATCH_QUAL_PRUNE_ONLY)"

definition planned :: "source_scan_mode \<Rightarrow> nat \<Rightarrow> (node \<times> bool) list \<Rightarrow> plan_state \<Rightarrow> bool" where
  "planned mode relid cs st \<longleftrightarrow> pls_exprno st = int (length (pls_exprs st)) \<and> pls_support st = map (planned_support mode relid) cs \<and>
     list_all2 (spec_ok mode relid (pls_exprs st)) (map fst (filter (taken_over mode relid) cs)) (pls_specs st)"

lemma make_qual_plan_total: "\<exists>spec. make_qual_plan q = Inr spec"
  using source_qual.roundtrip [of q] by blast

lemma spec_ok_append: "spec_ok mode relid exprs clause spec \<Longrightarrow> spec_ok mode relid (exprs @ es) clause spec"
  by (auto simp: spec_ok_def intro: qual_plan_ok_append)

lemma plan_clause_ok:
  assumes p: "planned mode relid cs st" and mode: "mode \<noteq> PG_BATCH_TAM_BATCH"
  shows "\<exists>st'. plan_clause mode relid c st = Inr st' \<and> planned mode relid (cs @ [c]) st'"
proof -
  obtain clause promotable where c: "c = (clause, promotable)" by (cases c)
  let ?m = "match_int4_comparison clause relid" and ?x = "exact_clause mode relid clause"
  show ?thesis
  proof (cases "taken_over mode relid c")
    case False
    then have "plan_clause mode relid c st = Inr (st\<lparr>pls_support := pls_support st @ [PG_BATCH_QUAL_UNSUPPORTED]\<rparr>)"
      using mode by (auto simp: plan_clause_def c taken_over_def exact_clause_def Let_def)
    then show ?thesis using p False by (simp add: planned_def planned_support_def)
  next
    case True
    define e1 where "e1 = pls_exprs st @ (if ?x then [clause] else [])"
    define e2 where "e2 = e1 @ (case ?m of Some (attnum, op, scalar) \<Rightarrow> [scalar] | None \<Rightarrow> [])"
    define q where "q = \<lparr>qp_filter_expr = (if ?x then int (length (pls_exprs st)) else - 1),
        qp_attribute = (case ?m of Some (attnum, op, scalar) \<Rightarrow> attnum | None \<Rightarrow> 0),
        qp_operator = (case ?m of Some (attnum, op, scalar) \<Rightarrow> op_code op | None \<Rightarrow> 0),
        qp_scalar_expr = (case ?m of Some (attnum, op, scalar) \<Rightarrow> int (length e1) | None \<Rightarrow> - 1),
        qp_prunable = (if ?m \<noteq> None then 1 else 0)\<rparr>"
    obtain spec where spec: "make_qual_plan q = Inr spec" using make_qual_plan_total by blast
    define st' where "st' = st\<lparr>pls_specs := pls_specs st @ [spec], pls_exprs := e2, pls_exprno := int (length e2),
        pls_support := pls_support st @ [if ?x then PG_BATCH_QUAL_EXACT else PG_BATCH_QUAL_PRUNE_ONLY]\<rparr>"
    have no: "pls_exprno st = int (length (pls_exprs st))" using p by (simp add: planned_def)
    have "plan_clause mode relid c st = Inr st'"
      using True spec no
      by (auto simp: plan_clause_def c taken_over_def exact_clause_def [symmetric] st'_def q_def e1_def e2_def Let_def
          split: option.splits prod.splits)
    moreover have "qual_plan_ok mode relid e2 clause q"
      by (auto simp: qual_plan_ok_def q_def e1_def e2_def nth_append split: option.splits)
    then have "spec_ok mode relid e2 clause spec" using spec by (auto simp: spec_ok_def)
    moreover have "list_all2 (spec_ok mode relid e2) (map fst (filter (taken_over mode relid) cs)) (pls_specs st)"
      using p unfolding planned_def e2_def e1_def by (auto intro!: spec_ok_append elim!: list_all2_mono)
    ultimately show ?thesis
      using p True by (auto simp: planned_def st'_def planned_support_def c list_all2_appendI)
  qed
qed

lemma plan_clauses_ok:
  assumes "planned mode relid cs0 st" "mode \<noteq> PG_BATCH_TAM_BATCH"
  shows "\<exists>st'. rfold (plan_clause mode relid) cs st = Inr st' \<and> planned mode relid (cs0 @ cs) st'"
  using assms
proof (induction cs arbitrary: cs0 st)
  case (Cons c cs)
  then obtain st1 where "plan_clause mode relid c st = Inr st1" "planned mode relid (cs0 @ [c]) st1"
    using plan_clause_ok by blast
  then show ?case using Cons.IH [of "cs0 @ [c]" st1] Cons.prems(2) by simp
qed simp

lemma plan_scan_ok:
  assumes "plan_scan request_size result_size mode relid clauses infos = Inr plan" "length infos = length clauses"
  obtains specs where "make_source_plan (mode_code mode, specs) = Inr (spr_source_private plan)"
    "list_all2 (spec_ok mode relid (spr_source_exprs plan)) (map fst (filter (taken_over mode relid) (zip clauses infos))) specs"
    "spr_qual_support plan = map (planned_support mode relid) (zip clauses infos)"
proof (cases "mode = PG_BATCH_TAM_BATCH")
  case True
  then have none: "filter (taken_over mode relid) (zip clauses infos) = []" by (auto simp: taken_over_def)
  have sup: "map (planned_support mode relid) (zip clauses infos) = replicate (length clauses) PG_BATCH_QUAL_UNSUPPORTED"
    using True assms(2) by (auto simp: planned_support_def taken_over_def intro!: nth_equalityI)
  show thesis using that [of "[]"] assms(1) True none sup
    by (auto simp: plan_scan_def rbind_Inr_iff split: if_splits)
next
  case False
  have "planned mode relid [] \<lparr>pls_specs = [], pls_exprs = [], pls_exprno = 0, pls_support = []\<rparr>" by (simp add: planned_def)
  then obtain st where st: "rfold (plan_clause mode relid) (zip clauses infos) \<lparr>pls_specs = [], pls_exprs = [], pls_exprno = 0, pls_support = []\<rparr> = Inr st"
    "planned mode relid (zip clauses infos) st"
    using plan_clauses_ok [OF _ False, of relid "[]"] by fastforce
  show thesis using that [of "pls_specs st"] assms False st
    by (auto simp: plan_scan_def rbind_Inr_iff planned_def split: if_splits)
qed

section \<open>Starting a scan\<close>

lemma analyze_vars_valid:
  "analyze_value relid n = Some k \<Longrightarrow> \<forall>v \<in> node_vars n. valid_var v relid"
  "analyze_args relid ns vars = Some k' \<Longrightarrow> \<forall>n \<in> set ns. \<forall>v \<in> node_vars n. valid_var v relid"
  by (induction relid n and relid ns vars arbitrary: k and k' rule: analyze_value_analyze_args.induct)
    (auto split: if_splits option.splits)

lemma filter_vars_valid:
  assumes "analyze_filter relid n = Some x"
  shows "\<forall>v \<in> node_vars n. valid_var v relid"
proof -
  obtain f t a b i j where n: "strip_relabel n = OpExpr f t [a, b]" "analyze_value relid a = Some i" "analyze_value relid b = Some j"
    using assms by (auto simp: analyze_filter_def split: node.splits list.splits option.splits if_splits)
  then have "\<forall>v \<in> node_vars (strip_relabel n). valid_var v relid" using analyze_vars_valid(1) by auto
  then show ?thesis by (simp add: node_vars_strip)
qed

lemma match_filter:
  assumes "match_int4_comparison n relid = Some (attnum, op, scalar)"
  obtains x v where "analyze_filter relid n = Some x" "v \<in> node_vars n" "varattno v = attnum" "analyze_value relid scalar = Some 0"
proof -
  obtain value_arg f tt args v where a: "analyze_filter relid (strip_relabel n) = Some (value_arg, op)" "strip_relabel n = OpExpr f tt args"
    "strip_relabel (args ! value_arg) = Var v" "attnum = varattno v" "analyze_value relid scalar = Some 0"
    using assms by (auto simp: match_int4_comparison_def Let_def split: option.splits node.splits if_splits)
  have strip2: "strip_relabel (strip_relabel n) = strip_relabel n" by (induction n) auto
  have an: "analyze_filter relid n = Some (value_arg, op)" using a(1) strip2 by (simp add: analyze_filter_def)
  note args = analyze_filter_args [OF analyze_filter_0 [OF an] a(2)]
  have "args ! value_arg \<in> set args" using args(1,2) by (metis One_nat_def Suc_le_lessD le_Suc_eq length_Cons less_Suc_eq_le list.size(3) nth_mem)
  then have "v \<in> node_vars n" using node_vars_strip [of n] node_vars_strip [of "args ! value_arg"] a(2,3) by auto
  then show thesis using that an a(4,5) by blast
qed

text \<open>
  What is assumed of \<open>setrefs\<close>: a reference to an attribute of the relation becomes a
  reference that resolves to a column of the scan with that attribute.
\<close>

definition setrefs_ok :: "(var_node \<Rightarrow> var_node) \<Rightarrow> nat \<Rightarrow> int list \<Rightarrow> nat \<Rightarrow> node list \<Rightarrow> bool" where
  "setrefs_ok \<rho> relid attnums n clauses \<longleftrightarrow>
     (\<forall>clause \<in> set clauses. \<forall>v \<in> node_vars clause. valid_var v relid \<longrightarrow> valid_var (\<rho> v) 0 \<and>
        0 \<le> resolve_source_var attnums n (\<rho> v) \<and> resolve_source_var attnums n (\<rho> v) < int n \<and>
        attnums ! nat (resolve_source_var attnums n (\<rho> v)) = varattno v)"

definition qual_for :: "source_scan_mode \<Rightarrow> nat \<Rightarrow> (var_node \<Rightarrow> var_node) \<Rightarrow> (var_node \<Rightarrow> int) \<Rightarrow> nat \<Rightarrow> node \<Rightarrow> 'c source_qual \<Rightarrow> bool" where
  "qual_for mode relid \<rho> resolve n clause q \<longleftrightarrow> qual_ok resolve n (rename_vars \<rho> clause) q \<and>
     (sq_expr q \<noteq> None \<longleftrightarrow> exact_clause mode relid clause) \<and>
     (case match_int4_comparison clause relid of
        None \<Rightarrow> \<not> sq_prunable q \<and> sq_scalar_expr q = None
      | Some (attnum, op, scalar) \<Rightarrow> sq_prunable q \<and> sq_attnum q = attnum \<and> sq_op q = op \<and> sq_scalar_expr q = Some scalar)"

lemma op_of_code_op_code [simp]: "op_of_code (op_code op) = op"
  by (cases op) (simp_all add: op_of_code_def)

lemma mode_of_code_mode_code [simp]: "mode_of_code (mode_code mode) = mode"
  by (cases mode) (simp_all add: mode_of_code_def)

lemma exact_compiles:
  assumes "exact_clause mode relid clause" "setrefs_ok \<rho> relid attnums n clauses" "clause \<in> set clauses"
  shows "\<exists>e :: 'c batch_expr. compile_expression (rename_vars \<rho> clause) True (resolve_source_var attnums n) = Inr e \<and>
    0 \<le> ex_column e \<and> ex_column e < int n"
proof -
  obtain x where x: "analyze_filter relid clause = Some x" using assms(1) by (auto simp: exact_clause_def supports_filter_def)
  note valid = filter_vars_valid [OF x]
  have vars: "node_vars (rename_vars \<rho> m) = \<rho> ` node_vars m" for m by (induction m) auto
  have refs: "\<forall>v \<in> node_vars clause. valid_var (\<rho> v) 0 \<and> 0 \<le> resolve_source_var attnums n (\<rho> v) \<and> resolve_source_var attnums n (\<rho> v) < int n"
    using assms(2,3) valid by (auto simp: setrefs_ok_def)
  have "analyze_filter 0 (rename_vars \<rho> clause) = Some x" by (rule analyze_filter_rename [OF _ x]) (use refs in blast)
  then show ?thesis by (rule compile_filter_total) (use refs vars in auto)
qed

lemma begin_qual_ok:
  assumes spec: "spec_ok mode relid exprs clause spec" and e: "er_source_exprs request = map (rename_vars \<rho>) exprs"
    and refs: "setrefs_ok \<rho> relid (er_source_attnums request) (er_nsource_columns request) clauses" "clause \<in> set clauses"
  shows "\<exists>q. begin_qual request spec = Inr q \<and>
    qual_for mode relid \<rho> (resolve_source_var (er_source_attnums request) (er_nsource_columns request)) (er_nsource_columns request) clause q"
proof -
  let ?r = "resolve_source_var (er_source_attnums request) (er_nsource_columns request)" and ?n = "er_nsource_columns request"
  obtain p where p: "make_qual_plan p = Inr spec" "qual_plan_ok mode relid exprs clause p" using spec by (auto simp: spec_ok_def)
  have read: "read_qual_plan spec = Inr p" using source_qual.roundtrip [of p] p(1) by auto
  have scalar: "rename_vars \<rho> s = s" if "match_int4_comparison clause relid = Some (a, op, s)" for a op s
    using that by (elim match_filter) (rule rename_scalar(1))
  define sc where "sc = (if qp_scalar_expr p \<ge> 0 then Some (er_source_exprs request ! nat (qp_scalar_expr p)) else None)"
  have sc: "case match_int4_comparison clause relid of None \<Rightarrow> qp_prunable p = 0 \<and> sc = None
      | Some (a, op, s) \<Rightarrow> qp_prunable p = 1 \<and> qp_attribute p = a \<and> op_of_code (qp_operator p) = op \<and> sc = Some s"
    using p(2) scalar by (auto simp: qual_plan_ok_def sc_def e split: option.splits)
  show ?thesis
  proof (cases "exact_clause mode relid clause")
    case True
    then have f: "0 \<le> qp_filter_expr p" "er_source_exprs request ! nat (qp_filter_expr p) = rename_vars \<rho> clause"
      using p(2) by (auto simp: qual_plan_ok_def e)
    obtain x :: "'a batch_expr" where x: "compile_expression (rename_vars \<rho> clause) True ?r = Inr x" "0 \<le> ex_column x" "ex_column x < int ?n"
      using exact_compiles [OF True refs] by blast
    let ?q = "\<lparr>sq_expr = Some x, sq_column_mask = {nat (ex_column x)}, sq_column = ex_column x, sq_prunable = (qp_prunable p \<noteq> 0),
        sq_attnum = qp_attribute p, sq_op = op_of_code (qp_operator p), sq_scalar_expr = sc, sq_scalar = Some 0\<rparr>"
    have "begin_qual request spec = Inr ?q" using read f x by (simp add: begin_qual_def sc_def)
    moreover have "qual_ok ?r ?n (rename_vars \<rho> clause) ?q"
      using x by (simp add: qual_ok_def compile_expression_wf compiled_same_refl)
    ultimately show ?thesis using sc True by (auto simp: qual_for_def split: option.splits)
  next
    case False
    then have f: "\<not> 0 \<le> qp_filter_expr p" using p(2) by (auto simp: qual_plan_ok_def)
    let ?q = "\<lparr>sq_expr = None :: 'a batch_expr option, sq_column_mask = {}, sq_column = 0, sq_prunable = (qp_prunable p \<noteq> 0),
        sq_attnum = qp_attribute p, sq_op = op_of_code (qp_operator p), sq_scalar_expr = sc, sq_scalar = Some 0\<rparr>"
    have "begin_qual request spec = Inr ?q" using read f by (simp add: begin_qual_def sc_def)
    then show ?thesis using sc False by (auto simp: qual_for_def qual_ok_def split: option.splits)
  qed
qed

lemma begin_quals_ok:
  assumes "list_all2 (spec_ok mode relid exprs) cs specs" "er_source_exprs request = map (rename_vars \<rho>) exprs"
    and "setrefs_ok \<rho> relid (er_source_attnums request) (er_nsource_columns request) clauses" "set cs \<subseteq> set clauses"
  shows "\<exists>quals. rfold (\<lambda>spec quals. rbind (begin_qual request spec) (\<lambda>q. Inr (quals @ [q]))) specs quals0 = Inr (quals0 @ quals) \<and>
    list_all2 (qual_for mode relid \<rho> (resolve_source_var (er_source_attnums request) (er_nsource_columns request)) (er_nsource_columns request)) cs quals"
  using assms(1,4)
proof (induction cs specs arbitrary: quals0 rule: list_all2_induct)
  case Nil
  then show ?case by simp
next
  case (Cons c cs spec specs)
  obtain q where q: "begin_qual request spec = Inr q"
    "qual_for mode relid \<rho> (resolve_source_var (er_source_attnums request) (er_nsource_columns request)) (er_nsource_columns request) c q"
    using begin_qual_ok [OF Cons.hyps(1) assms(2,3)] Cons.prems by auto
  obtain quals where "rfold (\<lambda>spec quals. rbind (begin_qual request spec) (\<lambda>q. Inr (quals @ [q]))) specs (quals0 @ [q]) = Inr ((quals0 @ [q]) @ quals)"
    "list_all2 (qual_for mode relid \<rho> (resolve_source_var (er_source_attnums request) (er_nsource_columns request)) (er_nsource_columns request)) cs quals"
    using Cons.IH [of "quals0 @ [q]"] Cons.prems by auto
  then show ?case using q by (intro exI [of _ "q # quals"]) simp
qed

end
