(* ===== verification/Compressed_Props.thy ===== *)
theory Compressed_Props
  imports Compressed_Plan Expr_Props
begin

text \<open>
  The properties of the compressed tables: the snapshot holds the rows of the table,
  skipping a group loses no row, and a scan from planning to the last batch returns the
  rows the query asks for.
\<close>

section \<open>The values of the scalars\<close>

definition scalar_ready :: "(node \<Rightarrow> datum option result) \<Rightarrow> 'c source_qual \<Rightarrow> 'c source_qual \<Rightarrow> bool" where
  "scalar_ready ev q q' \<longleftrightarrow> q' = q\<lparr>sq_scalar := sq_scalar q'\<rparr> \<and> (\<forall>scalar. sq_scalar_expr q = Some scalar \<longrightarrow> ev scalar = Inr (sq_scalar q'))"

lemma prepare_quals:
  fixes ev :: "node \<Rightarrow> datum option result" and quals :: "'c source_qual list"
  assumes "k \<le> length quals"
  shows "case rfold (\<lambda>q quals.
       case sq_scalar_expr (quals ! q) of
         None \<Rightarrow> Inr quals
       | Some scalar \<Rightarrow> rbind (ev scalar) (\<lambda>d. Inr (quals[q := (quals ! q)\<lparr>sq_scalar := d\<rparr>]))) [0..<k] quals of
     Inl err \<Rightarrow> \<exists>q \<in> set quals. \<exists>scalar err. sq_scalar_expr q = Some scalar \<and> ev scalar = Inl err
   | Inr quals' \<Rightarrow> length quals' = length quals \<and> (\<forall>i < length quals. if i < k then scalar_ready ev (quals ! i) (quals' ! i) else quals' ! i = quals ! i)"
    (is "case rfold ?f [0..<k] quals of Inl err \<Rightarrow> ?bad | Inr quals' \<Rightarrow> ?good k quals'")
  using assms
proof (induction k)
  case (Suc k)
  have split: "rfold ?f [0..<Suc k] quals = rbind (rfold ?f [0..<k] quals) (?f k)"
  proof (cases "rfold ?f [0..<k] quals")
    case (Inr quals1)
    have "rfold ?f [k] quals1 = ?f k quals1" by (cases "?f k quals1") (simp_all del: option.case_eq_if)
    then show ?thesis using Inr by (simp add: rfold_append)
  qed (simp add: rfold_append)
  show ?case
  proof (cases "rfold ?f [0..<k] quals")
    case (Inl err)
    then show ?thesis using Suc.IH Suc.prems unfolding split Inl by simp
  next
    case (Inr quals1)
    have IH: "length quals1 = length quals" "\<forall>i < length quals. if i < k then scalar_ready ev (quals ! i) (quals1 ! i) else quals1 ! i = quals ! i"
      using Suc Inr by simp_all
    have k: "quals1 ! k = quals ! k" using IH(2) Suc.prems by auto
    show ?thesis
    proof (cases "sq_scalar_expr (quals ! k)")
      case None
      have "scalar_ready ev (quals ! k) (quals1 ! k)" by (simp add: scalar_ready_def k None)
      then have "?good (Suc k) quals1" using IH by (auto simp: less_Suc_eq)
      then show ?thesis unfolding split Inr by (simp add: k None)
    next
      case (Some scalar)
      show ?thesis
      proof (cases "ev scalar")
        case (Inl err)
        then have ?bad using Some Suc.prems by (intro bexI [of _ "quals ! k"]) auto
        then show ?thesis using Inl Some unfolding split Inr by (simp add: k)
      next
        case val: (Inr d)
        have "scalar_ready ev (quals ! k) ((quals ! k)\<lparr>sq_scalar := d\<rparr>)" using Some val by (simp add: scalar_ready_def)
        then have "?good (Suc k) (quals1[k := (quals ! k)\<lparr>sq_scalar := d\<rparr>])"
          using IH Suc.prems by (auto simp: nth_list_update less_Suc_eq)
        moreover have "?f k quals1 = Inr (quals1[k := (quals ! k)\<lparr>sq_scalar := d\<rparr>])" using Some val by (simp add: k)
        ultimately show ?thesis unfolding split Inr rbind_simps(2) by (simp only: sum.case) blast
      qed
    qed
  qed
qed simp

lemma prepare_prune_quals_ok:
  "case prepare_prune_quals ev scan of
     Inl err \<Rightarrow> \<exists>q \<in> set (cs_quals scan). \<exists>scalar err. sq_scalar_expr q = Some scalar \<and> ev scalar (cs_econtext scan) = Inl err
   | Inr scan' \<Rightarrow> \<exists>quals'. scan' = scan\<lparr>cs_quals := quals', cs_prune_quals_ready := True\<rparr> \<and>
       list_all2 (scalar_ready (\<lambda>n. ev n (cs_econtext scan))) (cs_quals scan) quals'"
  using prepare_quals [of "length (cs_quals scan)" "cs_quals scan" "\<lambda>n. ev n (cs_econtext scan)"]
  unfolding prepare_prune_quals_def
  by (auto simp: rbind_def list_all2_conv_all_nth split: sum.splits)

section \<open>The quals of a started scan\<close>

definition table_qual :: "(node \<Rightarrow> datum option result) \<Rightarrow> node \<Rightarrow> int4_row \<Rightarrow> bool option result" where
  "table_qual ev clause row = row_qual ev (\<lambda>v. row ! nat (varattno v - 1)) clause"

lemma clause_qual_table:
  assumes "exact_clause mode relid clause" "clause \<in> set clauses" "setrefs_ok \<rho> relid (cs_source_attnums scan) n clauses"
  shows "clause_qual ev (resolve_source_var (cs_source_attnums scan) n) scan (rename_vars \<rho> clause) row = table_qual ev clause row"
proof -
  obtain x where x: "analyze_filter relid clause = Some x" using assms(1) by (auto simp: exact_clause_def supports_filter_def)
  have "row ! source_column scan (nat (resolve_source_var (cs_source_attnums scan) n (\<rho> v))) = row ! nat (varattno v - 1)"
    if "v \<in> node_vars clause" for v
    using assms(2,3) filter_vars_valid [OF x] that by (auto simp: setrefs_ok_def source_column_def)
  then show ?thesis unfolding clause_qual_def table_qual_def row_qual_rename by (intro row_qual_cong) simp
qed

lemma prune_true_table:
  assumes q: "qual_for mode relid \<rho> resolve n clause q" "scalar_ready ev q q'" and ev: "executor_ok ev"
    and t: "table_qual ev clause row = Inr (Some True)" and p: "sq_prunable q'"
  shows "prune_true q' row"
proof -
  have q': "q' = q\<lparr>sq_scalar := sq_scalar q'\<rparr>" using q(2) by (simp add: scalar_ready_def)
  have same: "sq_prunable q' = sq_prunable q" "sq_attnum q' = sq_attnum q" "sq_op q' = sq_op q" by (subst q', simp)+
  then obtain attnum op scalar where m: "match_int4_comparison clause relid = Some (attnum, op, scalar)"
    "sq_attnum q = attnum" "sq_op q = op" "sq_scalar_expr q = Some scalar"
    using q(1) p by (auto simp: qual_for_def split: option.splits)
  obtain v :: var_node and x d where v: "varattno v = attnum" "row ! nat (varattno v - 1) = Some x" "ev scalar = Inr (Some d)"
    "int4_compare x (datum_get_int32 d) op"
    using match_int4_comparison_sound [OF m(1) ev t [unfolded table_qual_def]] by metis
  have "sq_scalar q' = Some d" using q(2) m(4) v(3) by (simp add: scalar_ready_def)
  then show ?thesis using v same m by (simp add: prune_true_def)
qed

lemma qual_for_ready:
  assumes "qual_for mode relid \<rho> resolve n clause q" "scalar_ready ev q q'"
  shows "qual_ok resolve n (rename_vars \<rho> clause) q'" "sq_expr q' \<noteq> None \<longleftrightarrow> exact_clause mode relid clause"
    "sq_prunable q' \<Longrightarrow> \<exists>v \<in> node_vars clause. valid_var v relid \<and> sq_attnum q' = varattno v"
proof -
  have q': "q' = q\<lparr>sq_scalar := sq_scalar q'\<rparr>" using assms(2) by (simp add: scalar_ready_def)
  have same: "sq_expr q' = sq_expr q" "sq_column_mask q' = sq_column_mask q" "sq_prunable q' = sq_prunable q" "sq_attnum q' = sq_attnum q"
    by (subst q', simp)+
  show "qual_ok resolve n (rename_vars \<rho> clause) q'" "sq_expr q' \<noteq> None \<longleftrightarrow> exact_clause mode relid clause"
    using assms(1) by (simp_all add: qual_for_def qual_ok_def same cong: option.case_cong)
  assume "sq_prunable q'"
  then obtain attnum op scalar where m: "match_int4_comparison clause relid = Some (attnum, op, scalar)" "sq_attnum q' = attnum"
    using assms(1) same by (auto simp: qual_for_def split: option.splits)
  from m(1) show "\<exists>v \<in> node_vars clause. valid_var v relid \<and> sq_attnum q' = varattno v"
    by (rule match_filter) (use filter_vars_valid m(2) in blast)
qed

lemma start_position:
  assumes "relation_holds (cs_relation scan) chunks" "cs_group_index scan = 0" "cs_batch_index scan = 0" "cs_batch_row scan = 0"
  shows "position_ok chunks scan"
proof -
  let ?gs = "cr_groups (cs_relation scan)"
  have t: "tiles 0 ?gs (length (cr_batches (cs_relation scan)))" using assms(1) by (simp add: relation_holds_def)
  show ?thesis
  proof (cases ?gs)
    case Nil
    then have "chunks = []" using t assms(1) by (auto simp: relation_holds_def)
    then show ?thesis using Nil assms by (simp add: position_ok_def)
  next
    case (Cons g gs)
    have "0 < length (chunks ! 0)" if "0 < sg_nbatches g"
    proof -
      have "0 < length (cr_batches (cs_relation scan))" using t tiles_in [OF t, of g] that Cons by auto
      then show ?thesis using chunk_facts(1) [OF assms(1)] by (simp add: batch_rows_ok_def)
    qed
    then show ?thesis using t Cons assms by (auto simp: position_ok_def Let_def)
  qed
qed

text \<open>A scan after its scalars are known, with the clauses it has taken over.\<close>

lemma started_scan_ok:
  assumes rel: "relation_holds (cs_relation scan) chunks" and start: "cs_group_index scan = 0" "cs_batch_index scan = 0" "cs_batch_row scan = 0"
    and att: "attnums_ok (cr_ncolumns (cs_relation scan)) scan"
    and quals: "list_all2 (qual_for mode relid \<rho> (resolve_source_var (cs_source_attnums scan) (cs_ncolumns scan)) (cs_ncolumns scan)) cs (cs_quals scan)"
    and ready: "list_all2 (scalar_ready ev) (cs_quals scan) quals'"
    and refs: "setrefs_ok \<rho> relid (cs_source_attnums scan) (cs_ncolumns scan) clauses" "set cs \<subseteq> set clauses"
  shows "scan_ok (resolve_source_var (cs_source_attnums scan) (cs_ncolumns scan)) (map (rename_vars \<rho>) cs) chunks
    (scan\<lparr>cs_quals := quals', cs_prune_quals_ready := True\<rparr>)"
proof -
  let ?r = "resolve_source_var (cs_source_attnums scan) (cs_ncolumns scan)"
  have each: "qual_for mode relid \<rho> ?r (cs_ncolumns scan) (cs ! i) (cs_quals scan ! i)" "scalar_ready ev (cs_quals scan ! i) (quals' ! i)" if "i < length cs" for i
    using quals ready that by (auto simp: list_all2_conv_all_nth)
  have len: "length cs = length (cs_quals scan)" "length quals' = length cs" 
    using list_all2_lengthD [OF quals] list_all2_lengthD [OF ready] by simp_all
  have "list_all2 (qual_ok ?r (cs_ncolumns scan)) (map (rename_vars \<rho>) cs) quals'"
    using qual_for_ready(1) [OF each] len by (simp add: list_all2_conv_all_nth)
  moreover have "attnum_ok (cr_ncolumns (cs_relation scan)) (sq_attnum q)" if q: "q \<in> set quals'" "sq_prunable q" for q
  proof -
    obtain i where i: "i < length cs" "q = quals' ! i" using q(1) len by (auto simp: in_set_conv_nth)
    obtain v where v: "v \<in> node_vars (cs ! i)" "valid_var v relid" "sq_attnum q = varattno v"
      using qual_for_ready(3) [OF each [OF i(1)]] q(2) i(2) by blast
    have "cs ! i \<in> set clauses" using i(1) refs(2) by auto
    then have "0 \<le> ?r (\<rho> v)" "?r (\<rho> v) < int (cs_ncolumns scan)" "cs_source_attnums scan ! nat (?r (\<rho> v)) = varattno v"
      using refs(1) v(1,2) unfolding setrefs_ok_def by blast+
    then show ?thesis using att v(3) unfolding attnums_ok_def by (metis nat_less_iff)
  qed
  moreover have "position_ok chunks (scan\<lparr>cs_quals := quals', cs_prune_quals_ready := True\<rparr>)"
    by (rule start_position) (use rel start in simp_all)
  ultimately show ?thesis using rel att by (simp add: scan_ok_def quals_ok_def attnums_ok_def)
qed

section \<open>From planning to the last batch\<close>

lemma begin_scan_ok:
  assumes plan: "plan_scan request_size result_size mode relid clauses infos = Inr plan" "length infos = length clauses"
    and request: "abi_size_through exec_request_layout ''nsource_columns'' \<le> er_struct_size request"
      "er_source_private request = spr_source_private plan" "er_source_exprs request = map (rename_vars \<rho>) (spr_source_exprs plan)"
    and refs: "setrefs_ok \<rho> relid (er_source_attnums request) (er_nsource_columns request) clauses"
    and found: "find_compressed_relation (er_relation request) relations = Some i"
  obtains scan relations' where "begin_scan request relations = Inr (scan, i, relations')"
    "cs_relation scan = relations' ! i" "relations' = relations[i := (relations ! i)\<lparr>cr_refcount := cr_refcount (relations ! i) + 1\<rparr>]"
    "cs_source_attnums scan = er_source_attnums request" "cs_ncolumns scan = er_nsource_columns request" "cs_econtext scan = er_econtext request"
    "cs_mode scan = mode" "cs_group_index scan = 0" "cs_batch_index scan = 0" "cs_batch_row scan = 0" "\<not> cs_prune_quals_ready scan"
    "list_all2 (qual_for mode relid \<rho> (resolve_source_var (er_source_attnums request) (er_nsource_columns request)) (er_nsource_columns request))
       (map fst (filter (taken_over mode relid) (zip clauses infos))) (cs_quals scan)"
proof -
  let ?cs = "map fst (filter (taken_over mode relid) (zip clauses infos))"
  obtain specs where specs: "make_source_plan (mode_code mode, specs) = Inr (spr_source_private plan)"
    "list_all2 (spec_ok mode relid (spr_source_exprs plan)) ?cs specs"
    by (rule plan_scan_ok [OF plan])
  have read: "read_source_plan (er_source_private request) = Inr (mode_code mode, specs)"
    using source_plan.roundtrip [of "(mode_code mode, specs)"] specs(1) request(2) by auto
  have sub: "set ?cs \<subseteq> set clauses" by (auto dest: set_zip_leftD)
  obtain quals where quals: "rfold (\<lambda>spec quals. rbind (begin_qual request spec) (\<lambda>q. Inr (quals @ [q]))) specs [] = Inr quals"
    "list_all2 (qual_for mode relid \<rho> (resolve_source_var (er_source_attnums request) (er_nsource_columns request)) (er_nsource_columns request)) ?cs quals"
    using begin_quals_ok [OF specs(2) request(3) refs sub, of "[]"] by auto
  show thesis
    using that found quals read request(1) by (simp add: begin_scan_def compressed_acquire_def)
qed

lemma relation_holds_refcount: "relation_holds (r\<lparr>cr_refcount := k\<rparr>) chunks = relation_holds r chunks"
  by (simp add: relation_holds_def)

lemma scan_all_prepared:
  assumes "\<not> cs_prune_quals_ready scan" "prepare_prune_quals ev scan = Inr scan'" "cs_prune_quals_ready scan'"
  shows "scan_all target ev c scan = scan_all target ev c scan'"
proof -
  have "scan_next target ev c scan = scan_next target ev c scan'" using assms by (simp add: scan_next_def)
  then show ?thesis using scan_all.simps [of target ev c scan] scan_all.simps [of target ev c scan'] by simp
qed

definition source_result ::
  "(node \<Rightarrow> datum option result) \<Rightarrow> source_scan_mode \<Rightarrow> nat \<Rightarrow> node list \<Rightarrow> qual_support list \<Rightarrow> int4_row list \<Rightarrow> 'c compressed_scan batch list result \<Rightarrow> bool" where
  "source_result ev mode relid clauses support table out \<longleftrightarrow>
     (let holds = (\<lambda>row. \<forall>clause \<in> set clauses. table_qual ev clause row = Inr (Some True))
      in case out of
           Inl _ \<Rightarrow> \<exists>clause \<in> set clauses. (\<exists>row \<in> set table. \<exists>err. table_qual ev clause row = Inl err) \<or>
             (\<exists>attnum op scalar err. match_int4_comparison clause relid = Some (attnum, op, scalar) \<and> ev scalar = Inl err)
         | Inr bs \<Rightarrow> filter holds (concat (map batch_tuples bs)) = filter holds table \<and>
             (mode = PG_BATCH_TAM_BATCH \<longrightarrow> concat (map batch_tuples bs) = table) \<and>
             (\<forall>(clause, s) \<in> set (zip clauses support). s = PG_BATCH_QUAL_EXACT \<longrightarrow>
                (\<forall>row \<in> set (concat (map batch_tuples bs)). table_qual ev clause row = Inr (Some True))))"

lemma exact_support:
  assumes "(clause, PG_BATCH_QUAL_EXACT) \<in> set (zip clauses (map (planned_support mode relid) (zip clauses infos)))" "length infos = length clauses"
  shows "exact_clause mode relid clause" "clause \<in> set (map fst (filter (taken_over mode relid) (zip clauses infos)))" "mode = PG_BATCH_TAM_FILTER"
proof -
  obtain k where k: "k < length clauses" "clause = clauses ! k" "planned_support mode relid (clauses ! k, infos ! k) = PG_BATCH_QUAL_EXACT"
    using assms by (auto simp: in_set_conv_nth)
  then have t: "taken_over mode relid (clauses ! k, infos ! k)" "exact_clause mode relid (clauses ! k)"
    by (auto simp: planned_support_def split: if_splits)
  have "(clauses ! k, infos ! k) \<in> set (zip clauses infos)" using k(1) assms(2) by (metis length_zip min.idem nth_mem nth_zip)
  then show "clause \<in> set (map fst (filter (taken_over mode relid) (zip clauses infos)))" using t(1) k(2) by force
  show "exact_clause mode relid clause" "mode = PG_BATCH_TAM_FILTER" using t(2) k(2) by (auto simp: exact_clause_def)
qed

lemma source_result_ok:
  assumes quals: "list_all2 (qual_for mode relid \<rho> (resolve_source_var (cs_source_attnums scan) (cs_ncolumns scan)) (cs_ncolumns scan)) cs (cs_quals scan)"
    and ready: "list_all2 (scalar_ready ev) (cs_quals scan) (cs_quals scan')"
    and same: "cs_source_attnums scan' = cs_source_attnums scan" "cs_mode scan' = mode"
    and refs: "setrefs_ok \<rho> relid (cs_source_attnums scan) (cs_ncolumns scan) clauses" "set cs \<subseteq> set clauses"
    and ev: "executor_ok ev"
    and cs: "cs = map fst (filter (taken_over mode relid) (zip clauses infos))" "length infos = length clauses"
    and all: "all_ok ev (resolve_source_var (cs_source_attnums scan) (cs_ncolumns scan)) (map (rename_vars \<rho>) cs) table scan' out"
  shows "source_result ev mode relid clauses (map (planned_support mode relid) (zip clauses infos)) table out"
proof -
  let ?r = "resolve_source_var (cs_source_attnums scan) (cs_ncolumns scan)" and ?ns = "map (rename_vars \<rho>) cs"
  let ?holds = "\<lambda>row. \<forall>clause \<in> set clauses. table_qual ev clause row = Inr (Some True)"
  have each: "qual_for mode relid \<rho> ?r (cs_ncolumns scan) (cs ! k) (cs_quals scan ! k)" "scalar_ready ev (cs_quals scan ! k) (cs_quals scan' ! k)" if "k < length cs" for k
    using quals ready that by (auto simp: list_all2_conv_all_nth)
  have len: "length (cs_quals scan') = length cs" using list_all2_lengthD [OF quals] list_all2_lengthD [OF ready] by simp
  have fb: "set (filtered_by scan' ?ns [0..<length ?ns]) = rename_vars \<rho> ` {clause \<in> set cs. exact_clause mode relid clause}"
  proof -
    have "sq_expr (cs_quals scan' ! k) \<noteq> None \<longleftrightarrow> exact_clause mode relid (cs ! k)" if "k < length cs" for k
      using qual_for_ready(2) [OF each [OF that]] .
    then show ?thesis by (fastforce simp: filtered_by_def in_set_conv_nth image_iff)
  qed
  have cq: "clause_qual ev ?r scan' (rename_vars \<rho> clause) row = table_qual ev clause row" if "clause \<in> set cs" "exact_clause mode relid clause" for clause row
    using clause_qual_table [of mode relid clause clauses \<rho> scan' "cs_ncolumns scan" ev row] that refs same by auto
  have passes: "passes ev ?r ?ns scan' row \<longleftrightarrow> (\<forall>clause \<in> set cs. exact_clause mode relid clause \<longrightarrow> table_qual ev clause row = Inr (Some True))" for row
    unfolding passes_def fb using cq by auto
  have wanted: "wanted ev ?r ?ns scan' row" if "?holds row" for row
  proof -
    have "prune_true q row" if q: "q \<in> set (cs_quals scan')" "sq_prunable q" for q
    proof -
      obtain k where k: "k < length cs" "q = cs_quals scan' ! k" using q(1) len by (auto simp: in_set_conv_nth)
      then have "table_qual ev (cs ! k) row = Inr (Some True)" using \<open>?holds row\<close> refs(2) by (meson nth_mem subsetD)
      then show ?thesis using prune_true_table [OF each [OF k(1)] ev] q(2) k(2) by blast
    qed
    then show ?thesis using that refs(2) by (auto simp: wanted_def passes)
  qed
  show ?thesis
  proof (cases out)
    case (Inl err)
    then obtain n row err' where n: "n \<in> set (filtered_by scan' ?ns [0..<length ?ns])" "row \<in> set table" "clause_qual ev ?r scan' n row = Inl err'"
      using all unfolding all_ok_def by auto
    then obtain clause where c: "clause \<in> set cs" "exact_clause mode relid clause" "n = rename_vars \<rho> clause" unfolding fb by blast
    then have "table_qual ev clause row = Inl err'" "clause \<in> set clauses" using cq [OF c(1,2), of row] n(3) refs(2) by auto
    then show ?thesis using n(2) unfolding source_result_def Let_def Inl by (simp only: sum.case) blast
  next
    case (Inr bs)
    let ?out = "concat (map batch_tuples bs)" and ?w = "wanted ev ?r ?ns scan'"
    have a: "filter ?w ?out = filter ?w table" "mode = PG_BATCH_TAM_FILTER \<longrightarrow> (\<forall>row \<in> set ?out. passes ev ?r ?ns scan' row)"
      "mode = PG_BATCH_TAM_BATCH \<longrightarrow> ?out = table"
      using all Inr same(2) by (simp_all add: all_ok_def)
    have "filter ?holds xs = filter ?holds (filter ?w xs)" for xs
      unfolding filter_filter by (rule filter_cong) (use wanted in blast)+
    from this [of ?out] this [of table] have "filter ?holds ?out = filter ?holds table" unfolding a(1) by (rule trans [OF _ sym])
    moreover have "table_qual ev clause row = Inr (Some True)"
      if "(clause, s) \<in> set (zip clauses (map (planned_support mode relid) (zip clauses infos)))" "s = PG_BATCH_QUAL_EXACT" "row \<in> set ?out" for clause s row
      using exact_support [OF that(1) [unfolded that(2)] cs(2)] a(2) that(3) passes unfolding cs(1) by blast
    ultimately show ?thesis using a(3) unfolding source_result_def Let_def Inr by auto
  qed
qed

text \<open>
  C5. Planning, starting and running a scan of a compressed table: the scan starts, and it
  ends.  In the order of the table it delivers every row on which all the clauses of the
  query are true, and of the other rows only some that the source left to the executor: no
  row on which a clause it has promised to apply exactly is not true, and in batch mode
  exactly the rows of the table.  It fails only if a clause or the scalar of a comparison
  fails.
\<close>

theorem compressed_source_correct:
  assumes plan: "plan_scan request_size result_size mode relid clauses infos = Inr plan" "length infos = length clauses"
    and request: "abi_size_through exec_request_layout ''nsource_columns'' \<le> er_struct_size request"
      "er_source_private request = spr_source_private plan" "er_source_exprs request = map (rename_vars \<rho>) (spr_source_exprs plan)"
    and refs: "setrefs_ok \<rho> relid (er_source_attnums request) (er_nsource_columns request) clauses"
    and columns: "er_nsource_columns request \<le> length (er_source_attnums request)"
      "\<forall>column < er_nsource_columns request. attnum_ok natts (er_source_attnums request ! column)"
    and snapshot: "find_compressed_relation (er_relation request) relations = Some i"
      "(relations ! i)\<lparr>cr_refcount := 0\<rparr> = compress_rows oid natts group_rows slots" "64 \<le> group_rows"
    and ev: "executor_ok (\<lambda>n. ev n (er_econtext request))" and cache: "cache_ok tables c"
  shows "\<exists>scan relations' out. begin_scan request relations = Inr (scan, i, relations') \<and> scan_all target ev c scan = Some out \<and>
    source_result (\<lambda>n. ev n (er_econtext request)) mode relid clauses (spr_qual_support plan) (map (table_row natts) slots) out"
proof -
  let ?ev = "\<lambda>n. ev n (er_econtext request)" and ?table = "map (table_row natts) slots"
  let ?cs = "map fst (filter (taken_over mode relid) (zip clauses infos))"
  let ?r = "resolve_source_var (er_source_attnums request) (er_nsource_columns request)"
  have sub: "set ?cs \<subseteq> set clauses" by (auto dest: set_zip_leftD)
  obtain scan relations' where b: "begin_scan request relations = Inr (scan, i, relations')"
    "cs_relation scan = relations' ! i" "relations' = relations[i := (relations ! i)\<lparr>cr_refcount := cr_refcount (relations ! i) + 1\<rparr>]"
    "cs_source_attnums scan = er_source_attnums request" "cs_ncolumns scan = er_nsource_columns request" "cs_econtext scan = er_econtext request"
    "cs_mode scan = mode" "cs_group_index scan = 0" "cs_batch_index scan = 0" "cs_batch_row scan = 0" "\<not> cs_prune_quals_ready scan"
    "list_all2 (qual_for mode relid \<rho> ?r (er_nsource_columns request)) ?cs (cs_quals scan)"
    by (rule begin_scan_ok [OF plan request refs snapshot(1)])
  have support: "spr_qual_support plan = map (planned_support mode relid) (zip clauses infos)"
    by (rule plan_scan_ok [OF plan])
  obtain chunks where chunks: "relation_holds (compress_rows oid natts group_rows slots) chunks" "concat chunks = ?table"
    "cr_ncolumns (compress_rows oid natts group_rows slots) = natts"
    using compress_rows_holds [OF snapshot(3)] by blast
  have "i < length relations" using snapshot(1) by (auto simp: find_compressed_relation_def find_Some_iff split: if_splits)
  then have rel: "cs_relation scan = (compress_rows oid natts group_rows slots)\<lparr>cr_refcount := cr_refcount (relations ! i) + 1\<rparr>"
    using arg_cong [OF snapshot(2), of "\<lambda>r. r\<lparr>cr_refcount := cr_refcount (relations ! i) + 1\<rparr>"] b(2,3) by simp
  have holds: "relation_holds (cs_relation scan) chunks" "cr_ncolumns (cs_relation scan) = natts"
    using chunks by (simp_all add: rel relation_holds_refcount)
  show ?thesis
  proof (cases "prepare_prune_quals ev scan")
    case (Inl err)
    then have run: "scan_all target ev c scan = Some (Inl err)" using b(11) by (simp add: scan_all.simps scan_next_def)
    obtain q scalar err' where q: "q \<in> set (cs_quals scan)" "sq_scalar_expr q = Some scalar" "?ev scalar = Inl err'"
      using prepare_prune_quals_ok [where ev = ev and scan = scan] Inl b(6) by auto
    then obtain k where k: "k < length ?cs" "qual_for mode relid \<rho> ?r (er_nsource_columns request) (?cs ! k) q"
      using b(12) unfolding list_all2_conv_all_nth in_set_conv_nth by metis
    then obtain attnum op where "match_int4_comparison (?cs ! k) relid = Some (attnum, op, scalar)"
      using q(2) unfolding qual_for_def by (auto split: option.splits)
    then have "source_result ?ev mode relid clauses (spr_qual_support plan) ?table (Inl err :: 'a compressed_scan batch list result)"
      unfolding source_result_def Let_def sum.case
      by (intro bexI [of _ "?cs ! k"] disjI2) (use q(3) k(1) sub nth_mem in blast)+
    then show ?thesis using b(1) run by blast
  next
    case (Inr scan')
    obtain quals' where s: "scan' = scan\<lparr>cs_quals := quals', cs_prune_quals_ready := True\<rparr>" "list_all2 (scalar_ready ?ev) (cs_quals scan) quals'"
      using prepare_prune_quals_ok [where ev = ev and scan = scan] Inr b(6) by auto
    have att: "attnums_ok (cr_ncolumns (cs_relation scan)) scan" using columns holds(2) b(4,5) by (simp add: attnums_ok_def)
    have ok: "scan_ok ?r (map (rename_vars \<rho>) ?cs) chunks scan'"
      using started_scan_ok [OF holds(1) b(8-10) att, of mode relid \<rho> ?cs ?ev quals' clauses] b(4,5,12) s(2) refs sub by (simp add: s(1))
    obtain out where out: "scan_all target ev c scan' = Some out" "all_ok ?ev ?r (map (rename_vars \<rho>) ?cs) (rest chunks scan') scan' out"
      using scan_all_ok [where ev = ev and target = target, OF ok cache] ev b(6) by (auto simp: s(1))
    have "rest chunks scan' = ?table" using b(9,10) chunks(2) by (simp add: rest_def s(1))
    then have "source_result ?ev mode relid clauses (map (planned_support mode relid) (zip clauses infos)) ?table out"
      using source_result_ok [of mode relid \<rho> scan ?cs ?ev scan' clauses infos ?table out] b(4,5,7,12) s refs sub ev plan(2) out(2) by simp
    then show ?thesis using b(1,11) scan_all_prepared [OF _ Inr, of target c] out(1) support by (auto simp: s(1))
  qed
qed

text \<open>A table of one column, and the query \<open>x > 8\<close>.\<close>

definition example_slots :: "(datum \<times> bool) list list" where
  "example_slots = [[(5, False)], [(10, False)], [(0, True)]]"

definition example_clause :: node where
  "example_clause = OpExpr 147 16 [Var \<lparr>vartype = 23, varattno = 1, varlevelsup = 0, varreturning_default = True, varno = 1\<rparr>, Const 23 (Some 8)]"

definition example_plan :: source_plan_result where
  "example_plan = (case plan_scan 64 40 PG_BATCH_TAM_FILTER 1 [example_clause] [True] of Inr plan \<Rightarrow> plan
     | Inl _ \<Rightarrow> \<lparr>spr_qual_support = [], spr_source_exprs = [], spr_source_private = PList []\<rparr>)"

definition example_request :: "unit exec_request" where
  "example_request = \<lparr>er_struct_size = 68, er_relation = \<lparr>tr_relid = 7, tr_is_table = True, tr_uses_tableam = True, tr_attrs = [(False, False, 23)]\<rparr>,
     er_source_private = spr_source_private example_plan, er_source_exprs = spr_source_exprs example_plan, er_max_rows = 0,
     er_source_attnums = [1], er_nsource_columns = 1, er_econtext = ()\<rparr>"

theorem compressed_source_correct_witness:
  "\<exists>scan i relations' bs. begin_scan example_request [compress_rows 7 1 64 example_slots] = Inr (scan, i, relations') \<and>
     scan_all USE_NEON (\<lambda>n (_ :: unit). tree_executor example_leaf n) \<lparr>nc_entries = [], nc_last = None\<rparr> scan = Some (Inr bs) \<and>
     concat (map batch_tuples bs) = [[Some 10]]"
proof -
  let ?ev = "\<lambda>n. tree_executor example_leaf n" and ?rels = "[compress_rows 7 1 64 example_slots]"
  have plan: "plan_scan 64 40 PG_BATCH_TAM_FILTER 1 [example_clause] [True] = Inr example_plan" by code_simp
  have sup: "spr_qual_support example_plan = [PG_BATCH_QUAL_EXACT]" by code_simp
  have size: "abi_size_through exec_request_layout ''nsource_columns'' = 68" by code_simp
  have rename: "map (rename_vars id) xs = xs" for xs by (simp add: rename_id list.map_ident_strong)
  have refs: "setrefs_ok id 1 [1] 1 [example_clause]"
    by (simp add: setrefs_ok_def example_clause_def resolve_source_var_def valid_var_def)
  have found: "find_compressed_relation (er_relation example_request) ?rels = Some 0"
    by (simp add: find_compressed_relation_def relation_supported_def example_request_def compress_rows_fields INT4OID_def)
  have zero: "compress_rows 7 1 64 example_slots\<lparr>cr_refcount := 0\<rparr> = compress_rows 7 1 64 example_slots"
    by (metis compress_rows_fields(2) compressed_relation.surjective compressed_relation.update_convs(5))
  have cache: "cache_ok (\<lambda>_. compressed_ops) \<lparr>nc_entries = [], nc_last = None\<rparr>"
    by (auto simp: cache_ok_def stable_tables_def cache_sound_def native_callback_def compressed_native_interface_def)
  have table: "map (table_row 1) example_slots = [[Some 5], [Some 10], [None]]" by code_simp
  have quals: "table_qual ?ev example_clause [Some 5] = Inr (Some False)" "table_qual ?ev example_clause [Some 10] = Inr (Some True)"
    "table_qual ?ev example_clause [None] = Inr None" by code_simp+
  have match: "match_int4_comparison example_clause 1 = Some (1, PG_BATCH_INT4_GT, Const 23 (Some 8))" "?ev (Const 23 (Some 8)) = Inr (Some 8)" by code_simp+
  have request: "er_source_private example_request = spr_source_private example_plan"
    "er_source_exprs example_request = map (rename_vars id) (spr_source_exprs example_plan)" "er_struct_size example_request = 68"
    "er_source_attnums example_request = [1]" "er_nsource_columns example_request = 1" "er_econtext example_request = ()"
    by (simp_all add: example_request_def rename)
  have "\<exists>scan relations' out. begin_scan example_request ?rels = Inr (scan, 0, relations') \<and>
    scan_all USE_NEON (\<lambda>n (_ :: unit). ?ev n) \<lparr>nc_entries = [], nc_last = None\<rparr> scan = Some out \<and>
    source_result ?ev PG_BATCH_TAM_FILTER 1 [example_clause] (spr_qual_support example_plan) (map (table_row 1) example_slots) out"
    by (rule compressed_source_correct [where ev = "\<lambda>n (_ :: unit). tree_executor example_leaf n" and \<rho> = id and oid = 7 and group_rows = 64,
          OF plan _ _ request(1,2) _ _ _ found _ _ _ cache])
      (use zero refs in \<open>simp_all add: request size attnum_ok_def executor_ok_tree\<close>)
  then obtain scan relations' out where r: "begin_scan example_request ?rels = Inr (scan, 0, relations')"
    "scan_all USE_NEON (\<lambda>n (_ :: unit). ?ev n) \<lparr>nc_entries = [], nc_last = None\<rparr> scan = Some out"
    "source_result ?ev PG_BATCH_TAM_FILTER 1 [example_clause] [PG_BATCH_QUAL_EXACT] [[Some 5], [Some 10], [None]] out"
    unfolding sup table by blast
  obtain bs where bs: "out = Inr bs" using r(3) quals match by (cases out) (auto simp: source_result_def)
  have f: "filter (\<lambda>row. table_qual ?ev example_clause row = Inr (Some True)) (concat (map batch_tuples bs)) = [[Some 10]]"
    and t: "\<forall>row \<in> set (concat (map batch_tuples bs)). table_qual ?ev example_clause row = Inr (Some True)"
    using r(3) quals unfolding bs source_result_def Let_def by simp_all
  have "concat (map batch_tuples bs) = [[Some 10]]" by (rule trans [OF filter_True [OF t, symmetric] f])
  then show ?thesis using r(1,2) bs by blast
qed

section \<open>Taking a snapshot\<close>

lemma find_first:
  assumes "i < length xs" "P (xs ! i)" "\<And>j. j < i \<Longrightarrow> \<not> P (xs ! j)"
  shows "List.find (\<lambda>i. P (xs ! i)) [0..<length xs] = Some i"
  using assms by (auto simp: find_Some_iff intro!: exI [of _ i])

lemma install_compressed_relation_ok:
  "case install_compressed_relation compressed relations of
     Inl _ \<Rightarrow> \<exists>r \<in> set relations. cr_relid r = cr_relid compressed \<and> cr_refcount r \<noteq> 0
   | Inr relations' \<Rightarrow> \<exists>i < length relations'. relations' ! i = compressed \<and> (\<forall>j < i. cr_relid (relations' ! j) \<noteq> cr_relid compressed)"
proof (cases "List.find (\<lambda>i. cr_relid (relations ! i) = cr_relid compressed) [0..<length relations]")
  case None
  then show ?thesis by (auto simp: install_compressed_relation_def)
next
  case (Some i)
  then have i: "i < length relations" "cr_relid (relations ! i) = cr_relid compressed" "\<forall>j < i. cr_relid (relations ! j) \<noteq> cr_relid compressed"
    by (auto simp: find_Some_iff)
  show ?thesis
  proof (cases "cr_refcount (relations ! i) = 0")
    case True
    then show ?thesis using Some i by (auto simp: install_compressed_relation_def intro!: exI [of _ i])
  next
    case False
    then show ?thesis using Some i nth_mem by (auto simp: install_compressed_relation_def)
  qed
qed

lemma relation_supported_cases:
  "(relation_supported rel True = Inr True \<and> relation_supported rel False = Inr True) \<or>
   ((\<exists>err. relation_supported rel True = Inl err) \<and> relation_supported rel False = Inr False)"
  by (simp add: relation_supported_def)

text \<open>
  C16. Compressing a table either fails, because the relation is not a supported one, the size
  of a storage group is no positive multiple of 64, or an older snapshot of the table is
  being scanned; or a scan of the table finds the new snapshot, which nobody uses yet, and
  decoding its batches one after the other gives the rows of the table in their order.
\<close>

theorem pg_batch_compress_roundtrip:
  "case pg_batch_compress rel group_rows slots relations of
     Inl _ \<Rightarrow> relation_supported rel False = Inr False \<or> group_rows < 64 \<or> group_rows mod 64 \<noteq> 0 \<or>
       (\<exists>r \<in> set relations. cr_relid r = tr_relid rel \<and> cr_refcount r \<noteq> 0)
   | Inr (bytes, relations') \<Rightarrow> \<exists>i. find_compressed_relation rel relations' = Some i \<and> cr_refcount (relations' ! i) = 0 \<and>
       bytes = cr_bytes (relations' ! i) \<and>
       concat (map stored_rows (cr_batches (relations' ! i))) = map (table_row (length (tr_attrs rel))) slots"
proof -
  let ?natts = "length (tr_attrs rel)"
  let ?new = "compress_rows (tr_relid rel) ?natts (nat group_rows) slots"
  consider (unsupported) err where "relation_supported rel True = Inl err" "relation_supported rel False = Inr False"
    | (rows) "relation_supported rel True = Inr True" "group_rows < 64 \<or> group_rows mod 64 \<noteq> 0"
    | (taken) "relation_supported rel True = Inr True" "relation_supported rel False = Inr True" "\<not> (group_rows < 64 \<or> group_rows mod 64 \<noteq> 0)"
    using relation_supported_cases [of rel] by (metis (no_types))
  then show ?thesis
  proof cases
    case taken
    then have run: "pg_batch_compress rel group_rows slots relations =
        rbind (install_compressed_relation ?new relations) (\<lambda>relations. Inr (cr_bytes ?new, relations))"
      unfolding pg_batch_compress_def by (simp add: Let_def)
    note installed = install_compressed_relation_ok [where compressed = ?new and relations = relations, unfolded compress_rows_fields]
    show ?thesis
    proof (cases "install_compressed_relation ?new relations")
      case (Inl err)
      then show ?thesis using run installed by auto
    next
      case (Inr relations')
      then obtain i where i: "i < length relations'" "relations' ! i = ?new" "\<forall>j < i. cr_relid (relations' ! j) \<noteq> tr_relid rel"
        using installed by auto
      then have "find_compressed_relation rel relations' = Some i"
        using taken(2) find_first [where i = i and xs = relations' and P = "\<lambda>r. cr_relid r = tr_relid rel \<and> cr_ncolumns r = ?natts"]
        by (simp add: find_compressed_relation_def compress_rows_fields)
      moreover have "64 \<le> nat group_rows" using taken(3) by linarith
      ultimately show ?thesis using run Inr i(2) compress_rows_stored by (simp add: compress_rows_fields)
    qed
  qed (auto simp: pg_batch_compress_def)
qed

theorem pg_batch_compress_roundtrip_witness:
  "\<exists>bytes relations' i. pg_batch_compress (er_relation example_request) 64 example_slots [] = Inr (bytes, relations') \<and>
     find_compressed_relation (er_relation example_request) relations' = Some i \<and>
     concat (map stored_rows (cr_batches (relations' ! i))) = [[Some 5], [Some 10], [None]]"
proof -
  let ?rel = "er_relation example_request"
  have sup: "relation_supported ?rel False \<noteq> Inr False" by code_simp
  have table: "map (table_row (length (tr_attrs ?rel))) example_slots = [[Some 5], [Some 10], [None]]" by code_simp
  show ?thesis
    using pg_batch_compress_roundtrip [where rel = ?rel and group_rows = 64 and slots = example_slots and relations = "[]"] sup
    unfolding table by (cases "pg_batch_compress ?rel 64 example_slots []") auto
qed

text \<open>
  C17. The column ranges never hide a row: if the snapshot's storage group would be skipped for
  the prunable comparisons of a scan, then each of the rows of the table stored in that group
  makes one of these comparisons false or null.
\<close>

theorem group_pruning_sound:
  assumes "64 \<le> group_rows" "g \<in> set (cr_groups (compress_rows relid natts group_rows slots))"
    and "\<forall>q \<in> set quals. sq_prunable q \<longrightarrow> attnum_ok natts (sq_attnum q)"
    and "group_may_match quals g \<noteq> PG_BATCH_GROUP_MATCH"
    and "row \<in> set (concat (map stored_rows (take (sg_nbatches g) (drop (sg_first_batch g) (cr_batches (compress_rows relid natts group_rows slots))))))"
  shows "\<exists>q \<in> set quals. sq_prunable q \<and> \<not> prune_true q row"
proof -
  let ?r = "compress_rows relid natts group_rows slots"
  obtain chunks where c: "relation_holds ?r chunks" using compress_rows_holds [OF assms(1)] by blast
  then have ok: "group_ok natts chunks g" using assms(2) by (simp add: relation_holds_def compress_rows_fields)
  have "row \<in> set (concat (take (sg_nbatches g) (drop (sg_first_batch g) chunks)))"
    using assms(5) unfolding relation_rows [OF c, symmetric] take_map drop_map .
  then show ?thesis using group_may_match_sound [OF ok assms(3)] assms(4) by blast
qed

definition example_qual :: "unit source_qual" where
  "example_qual = \<lparr>sq_expr = None, sq_column_mask = {}, sq_column = 0, sq_prunable = True, sq_attnum = 1, sq_op = PG_BATCH_INT4_GT, sq_scalar_expr = None, sq_scalar = Some 20\<rparr>"

theorem group_pruning_sound_witness:
  "\<exists>g. cr_groups (compress_rows 7 1 64 example_slots) = [g] \<and> group_may_match [example_qual] g \<noteq> PG_BATCH_GROUP_MATCH \<and> \<not> prune_true example_qual [Some 10]"
proof -
  let ?r = "compress_rows 7 1 64 example_slots"
  obtain g where g: "cr_groups ?r = [g]" "g = cr_groups ?r ! 0"
  proof -
    have "length (cr_groups ?r) = 1" by code_simp
    then show thesis using that by (metis One_nat_def length_0_conv length_Suc_conv nth_Cons_0)
  qed
  have m: "group_may_match [example_qual] g \<noteq> PG_BATCH_GROUP_MATCH" unfolding g(2) by code_simp
  have "[Some 10] \<in> set (concat (map stored_rows (take (sg_nbatches g) (drop (sg_first_batch g) (cr_batches ?r)))))" unfolding g(2) by code_simp
  then have "\<exists>q \<in> set [example_qual]. sq_prunable q \<and> \<not> prune_true q [Some 10]"
    by (intro group_pruning_sound [of 64 g 7 1 example_slots]) (use g(1) m in \<open>simp_all add: example_qual_def attnum_ok_def\<close>)
  then show ?thesis using g(1) m by simp
qed

end
