(* ===== verification/Unary.thy ===== *)
theory Unary
  imports Bridge Expr
begin

text \<open>
  Nodes with one child that only narrow the selection of its batches: the child's results
  (\<open>runtime/input.c\<close>), the scalar view of a batch (\<open>runtime/output.c\<close>), the executor shared by
  these nodes (\<open>runtime/unary.c\<close>), and the two nodes built on it, LIMIT
  (\<open>examples/limit_node/executor.c\<close>) and the filter (\<open>nodes/filter.c\<close>).

  The child is the list of the batches it still returns.  Of the binding of the active batch
  the model keeps whether the batch has been finished, which a parent that was handed the
  batch does itself.  The child's slot is filled by its own \<open>select_row\<close>, the argument
  \<open>select\<close>.
\<close>

section \<open>Reading one row of a batch\<close>

type_synonym slot_values = "(datum \<times> bool) list"

definition row_selection :: "selection \<Rightarrow> int \<Rightarrow> selection" where
  "row_selection s row =
     (let word = nat (row div 64); b = push_bit (nat (row mod 64)) 1
      in \<lparr>sel_nrows = sel_nrows s, sel_nwords = sel_nwords s,
          sel_words = (if sel_nwords s = 1 then [b] else (replicate (nat (sel_nwords s)) 0)[word := b])\<rparr>)"

definition row_values :: "int list \<Rightarrow> 'p batch \<Rightarrow> int \<Rightarrow> ('p batch \<times> slot_values) result" where
  "row_values columns b row =
     rfold (\<lambda>column (b, out).
       rbind (batch_get_datum_column b column (row_selection (b_selection b) row) PG_BATCH_COLUMN_PROJECT) (\<lambda>(b, vector).
         case (dv_values vector, dv_isnull vector) of
           (Some vs, Some ns) \<Rightarrow> Inr (b, out @ [(vs ! nat row, ns ! nat row)])
         | _ \<Rightarrow> Inl (Elog ''access through a null pointer''))) columns (b, [])"

text \<open>\<open>output.c\<close>: the slot of a batch shows one row, at first the first selected one.\<close>

definition virtual_select_row :: "int list \<Rightarrow> 'p batch \<Rightarrow> int \<Rightarrow> ('p batch \<times> slot_values) result" where
  "virtual_select_row batch_columns b row = row_values batch_columns b row"

definition virtual_accept_batch :: "int list \<Rightarrow> 'p batch \<Rightarrow> ('p batch \<times> slot_values) result" where
  "virtual_accept_batch batch_columns b =
     (let row = selection_next (b_selection b) (- 1)
      in if row < 0 then Inl (Elog ''pg_batch source published an empty selection'')
         else virtual_select_row batch_columns b row)"

section \<open>The input\<close>

record 'p batch_input =
  in_child :: "'p batch list"
  in_active :: "'p batch option"
  in_finished :: bool

definition input_next :: "'p batch_input \<Rightarrow> ('p batch option \<times> 'p batch_input) result" where
  "input_next inp =
     (if in_active inp \<noteq> None \<and> \<not> in_finished inp
      then Inl (Elog ''pg_batch input requested a new batch before finishing the previous one'')
      else case in_child inp of
        [] \<Rightarrow> Inr (None, inp\<lparr>in_active := None\<rparr>)
      | b # bs \<Rightarrow> Inr (Some b, \<lparr>in_child = bs, in_active = Some b, in_finished = False\<rparr>))"

definition input_finish :: "'p batch_input \<Rightarrow> 'p batch_input result" where
  "input_finish inp =
     (case in_active inp of
        None \<Rightarrow> Inl (Elog ''pg_batch input has no active batch'')
      | Some _ \<Rightarrow> Inr (inp\<lparr>in_active := None, in_finished := True\<rparr>))"

definition input_select_row ::
  "('p batch \<Rightarrow> int \<Rightarrow> ('p batch \<times> slot_values) result) \<Rightarrow> int \<Rightarrow> 'p batch_input \<Rightarrow> ('p batch_input \<times> slot_values) result" where
  "input_select_row select row inp =
     (case in_active inp of
        None \<Rightarrow> Inl (Elog ''pg_batch input has no active batch'')
      | Some b \<Rightarrow> rbind (select b row) (\<lambda>(b, slot). Inr (inp\<lparr>in_active := Some b\<rparr>, slot)))"

definition input_copy_row ::
  "('p batch \<Rightarrow> int \<Rightarrow> ('p batch \<times> slot_values) result) \<Rightarrow> int list \<Rightarrow> int \<Rightarrow> 'p batch_input \<Rightarrow> ('p batch_input \<times> slot_values) result" where
  "input_copy_row select batch_columns row inp =
     rbind (input_select_row select row inp) (\<lambda>(inp, _).
     case in_active inp of
       None \<Rightarrow> Inl (Elog ''pg_batch input has no active batch'')
     | Some b \<Rightarrow> rbind (row_values batch_columns b row) (\<lambda>(b, slot). Inr (inp\<lparr>in_active := Some b\<rparr>, slot)))"

definition input_rescan :: "'p batch list \<Rightarrow> 'p batch_input" where
  "input_rescan child = \<lparr>in_child = child, in_active = None, in_finished = False\<rparr>"

section \<open>The unary executor\<close>

datatype row_mode = PG_BATCH_UNARY_INPUT_ROW | PG_BATCH_UNARY_COPY_ROW

record ('p, 's) unary =
  un_input :: "'p batch_input"
  un_private :: 's
  un_ncolumns :: int
  un_child_ncolumns :: int
  un_request :: request_spec
  un_child_request :: request_spec
  un_filter_columns :: "nat set"
  un_project_columns :: "nat set"
  un_max_rows :: int
  un_batch_columns :: "int list"
  un_row_mode :: row_mode
  un_active :: bool
  un_next_row :: int
  un_request_forwarded :: bool
  un_stopped :: bool
  un_input_batches :: nat
  un_input_rows :: int
  un_output_rows :: int

definition unary_stop :: "('p, 's) unary \<Rightarrow> ('p, 's) unary" where
  "unary_stop un = un\<lparr>un_stopped := True\<rparr>"

text \<open>The smaller of two row limits, where 0 means no limit.\<close>

definition combine_max_rows :: "int \<Rightarrow> int \<Rightarrow> int" where
  "combine_max_rows max_rows other = (if other > 0 then (if max_rows = 0 then other else min max_rows other) else max_rows)"

definition forward_request :: "('p, 's) unary \<Rightarrow> ('p, 's) unary result" where
  "forward_request un =
     (let child = un_child_request un; own = un_request un
      in if un_child_ncolumns un \<noteq> un_ncolumns un then Inl (Elog ''pg_batch cannot unary through %d columns as %d columns'')
         else Inr (un\<lparr>un_child_request := \<lparr>rs_struct_size = 32,
             rs_filter_columns = rs_filter_columns child \<union> un_filter_columns un \<union> rs_filter_columns own,
             rs_project_columns = rs_project_columns child \<union> un_project_columns un \<union> rs_project_columns own,
             rs_output_mode = PG_BATCH_OUTPUT_BATCH,
             rs_max_rows = combine_max_rows (combine_max_rows (rs_max_rows child) (un_max_rows un)) (rs_max_rows own)\<rparr>,
           un_request_forwarded := True\<rparr>))"

text \<open>
  The callback \<open>process\<close> narrows the selection of a batch, counts the rows it leaves, and says
  whether it has called \<open>pg_batch_unary_stop\<close>.
\<close>

type_synonym ('p, 's) process = "'s \<Rightarrow> 'p batch \<Rightarrow> int \<Rightarrow> ('s \<times> 'p batch \<times> int \<times> bool) result"

definition take_input :: "('p, 's) process option \<Rightarrow> 'p batch \<Rightarrow> ('p, 's) unary \<Rightarrow> ('p batch \<times> int \<times> ('p, 's) unary) result" where
  "take_input process b un =
     (let rows = batch_row_count b;
          un = un\<lparr>un_input_batches := un_input_batches un + 1, un_input_rows := un_input_rows un + rows\<rparr>
      in case process of
           None \<Rightarrow> Inr (b, rows, un)
         | Some f \<Rightarrow>
             rbind (f (un_private un) b rows) (\<lambda>(st, b, rows, stop).
             Inr (b, rows, (if stop then unary_stop else id)
               (un\<lparr>un_private := st, un_input := (un_input un)\<lparr>in_active := Some b\<rparr>\<rparr>))))"

definition deliver_batch :: "'p batch \<Rightarrow> int \<Rightarrow> ('p, 's) unary \<Rightarrow> ('p, 's) unary result" where
  "deliver_batch b rows un =
     rbind (if rs_output_mode (un_request un) = PG_BATCH_OUTPUT_ROWS
            then rbind (materialize_columns (Some b) (rs_project_columns (un_child_request un)) (Some (b_selection b)) PG_BATCH_COLUMN_PROJECT)
                   (\<lambda>access. Inr (acc_batch access))
            else Inr b) (\<lambda>b.
     Inr (un\<lparr>un_output_rows := un_output_rows un + rows, un_active := True,
            un_input := (un_input un)\<lparr>in_active := Some b\<rparr>, un_next_row := selection_next (b_selection b) (- 1)\<rparr>))"

lemma take_input_child: "take_input process b un = Inr (b', rows, un') \<Longrightarrow> in_child (un_input un') = in_child (un_input un)"
  by (auto simp: take_input_def unary_stop_def Let_def rbind_Inr_iff split: option.splits)

lemma input_finish_child: "input_finish inp = Inr inp' \<Longrightarrow> in_child inp' = in_child inp"
  by (auto simp: input_finish_def split: option.splits)

function fetch_batch :: "('p, 's) process option \<Rightarrow> ('p, 's) unary \<Rightarrow> (bool \<times> ('p, 's) unary) result" where
  "fetch_batch process un =
     (if un_stopped un then Inr (False, un)
      else case input_next (un_input un) of
        Inl err \<Rightarrow> Inl err
      | Inr (None, inp) \<Rightarrow> Inr (False, un\<lparr>un_input := inp\<rparr>)
      | Inr (Some b, inp) \<Rightarrow>
          (case take_input process b (un\<lparr>un_input := inp\<rparr>) of
             Inl err \<Rightarrow> Inl err
           | Inr (b, rows, un') \<Rightarrow>
               if rows = 0
               then (case input_finish (un_input un') of
                       Inl err \<Rightarrow> Inl err
                     | Inr inp' \<Rightarrow> fetch_batch process (un'\<lparr>un_input := inp'\<rparr>))
               else rbind (deliver_batch b rows un') (\<lambda>un. Inr (True, un))))"
  by pat_completeness auto
termination
  by (relation "measure (\<lambda>(process, un). length (in_child (un_input un)))")
    (auto simp: input_next_def input_finish_child dest!: take_input_child split: if_splits list.splits)

declare fetch_batch.simps [simp del]

text \<open>
  In batch mode the slot of the child is handed on, and its batch with it.  In row mode the
  rows of a batch come one by one; \<open>project\<close> stands for the projection of the node, which is the
  identity if it has none.
\<close>

definition exec_batch ::
  "('p batch \<Rightarrow> int \<Rightarrow> ('p batch \<times> slot_values) result) \<Rightarrow> ('p, 's) process option \<Rightarrow> ('p, 's) unary \<Rightarrow>
     ('p batch option \<times> ('p, 's) unary) result" where
  "exec_batch select process un =
     rbind (fetch_batch process (un\<lparr>un_active := False\<rparr>)) (\<lambda>(found, un).
     if \<not> found then Inr (None, un)
     else rbind (input_select_row select (un_next_row un) (un_input un)) (\<lambda>(inp, _).
       Inr (in_active inp, un\<lparr>un_input := inp\<rparr>)))"

definition next_output_row ::
  "('p batch \<Rightarrow> int \<Rightarrow> ('p batch \<times> slot_values) result) \<Rightarrow> (slot_values \<Rightarrow> slot_values result) \<Rightarrow> ('p, 's) unary \<Rightarrow>
     (slot_values option \<times> ('p, 's) unary) result" where
  "next_output_row select project un =
     (let row = un_next_row un;
          following = (case in_active (un_input un) of None \<Rightarrow> - 1 | Some b \<Rightarrow> selection_next (b_selection b) row);
          un = un\<lparr>un_next_row := following\<rparr>
      in case un_row_mode un of
           PG_BATCH_UNARY_COPY_ROW \<Rightarrow>
             rbind (input_copy_row select (un_batch_columns un) row (un_input un)) (\<lambda>(inp, slot).
             Inr (Some slot, un\<lparr>un_input := inp\<rparr>))
         | PG_BATCH_UNARY_INPUT_ROW \<Rightarrow>
             rbind (input_select_row select row (un_input un)) (\<lambda>(inp, slot).
             rbind (project slot) (\<lambda>slot. Inr (Some slot, un\<lparr>un_input := inp\<rparr>))))"

partial_function (option) exec_row ::
  "('p batch \<Rightarrow> int \<Rightarrow> ('p batch \<times> slot_values) result) \<Rightarrow> (slot_values \<Rightarrow> slot_values result) \<Rightarrow> ('p, 's) process option \<Rightarrow>
     ('p, 's) unary \<Rightarrow> (slot_values option \<times> ('p, 's) unary) result option" where
  "exec_row select project process un =
     (case (if un_active un then Inr (True, un) else fetch_batch process un) of
        Inl err \<Rightarrow> Some (Inl err)
      | Inr (found, un) \<Rightarrow>
          if \<not> found then Some (Inr (None, un))
          else if un_next_row un < 0
          then (case input_finish (un_input un) of
                  Inl err \<Rightarrow> Some (Inl err)
                | Inr inp \<Rightarrow> exec_row select project process (un\<lparr>un_input := inp, un_active := False\<rparr>))
          else Some (next_output_row select project un))"

datatype 'p unary_output = Row slot_values | Batch "'p batch"

definition unary_exec ::
  "('p batch \<Rightarrow> int \<Rightarrow> ('p batch \<times> slot_values) result) \<Rightarrow> (slot_values \<Rightarrow> slot_values result) \<Rightarrow> ('p, 's) process option \<Rightarrow>
     ('p, 's) unary \<Rightarrow> ('p unary_output option \<times> ('p, 's) unary) result option" where
  "unary_exec select project process un =
     (case (if un_request_forwarded un then Inr un else forward_request un) of
        Inl err \<Rightarrow> Some (Inl err)
      | Inr un \<Rightarrow>
          if rs_output_mode (un_request un) = PG_BATCH_OUTPUT_BATCH
          then Some (rbind (exec_batch select process un) (\<lambda>(b, un). Inr (map_option Batch b, un)))
          else Option.bind (exec_row select project process un) (\<lambda>res.
            Some (rbind res (\<lambda>(slot, un). Inr (map_option Row slot, un)))))"

definition unary_rescan :: "'p batch list \<Rightarrow> ('p, 's) unary \<Rightarrow> ('p, 's) unary" where
  "unary_rescan child un = un\<lparr>un_input := input_rescan child, un_active := False, un_next_row := - 1, un_stopped := False,
     un_input_batches := 0, un_input_rows := 0, un_output_rows := 0\<rparr>"

text \<open>
  \<open>pg_batch_unary_create\<close> for a node whose scan slot has \<open>natts\<close> attributes, over a child with
  the given request, number of columns and batches; the parent's request arrives before the
  first execution.
\<close>

definition unary_create ::
  "layout \<Rightarrow> nat \<Rightarrow> row_mode \<Rightarrow> nat set \<Rightarrow> nat set \<Rightarrow> int \<Rightarrow> 's \<Rightarrow> request_spec \<Rightarrow> request_spec \<Rightarrow> int \<Rightarrow> 'p batch list \<Rightarrow>
     ('p, 's) unary result" where
  "unary_create layout natts mode filter_columns project_columns max_rows st request child_request child_ncolumns child =
     (if max_rows < 0 then Inl (Elog ''invalid pg_batch unary configuration'')
      else if mode = PG_BATCH_UNARY_COPY_ROW \<and> lay_ntargets layout \<noteq> int natts
      then Inl (Elog ''pg_batch copied row layout does not match its scan slot'')
      else
        (let columns = (if mode = PG_BATCH_UNARY_COPY_ROW then map (layout_column layout) [0..<nat (lay_ntargets layout)] else [])
         in if list_ex (\<lambda>c. c < 0) columns then Inl (Elog ''pg_batch copied target %d has no batch column'')
            else Inr \<lparr>un_input = input_rescan child, un_private = st, un_ncolumns = lay_ncolumns layout,
              un_child_ncolumns = child_ncolumns, un_request = request, un_child_request = child_request,
              un_filter_columns = filter_columns, un_project_columns = project_columns, un_max_rows = max_rows,
              un_batch_columns = columns, un_row_mode = mode, un_active = False, un_next_row = - 1, un_request_forwarded = False,
              un_stopped = False, un_input_batches = 0, un_input_rows = 0, un_output_rows = 0\<rparr>))"

text \<open>A parent that takes every result; it finishes a batch that it was handed.\<close>

definition parent_finish :: "'p unary_output \<Rightarrow> ('p, 's) unary \<Rightarrow> ('p, 's) unary" where
  "parent_finish out un =
     (case out of Row _ \<Rightarrow> un | Batch _ \<Rightarrow> un\<lparr>un_input := (un_input un)\<lparr>in_finished := True\<rparr>\<rparr>)"

partial_function (option) run_node ::
  "(('p, 's) unary \<Rightarrow> ('p unary_output option \<times> ('p, 's) unary) result option) \<Rightarrow> ('p, 's) unary \<Rightarrow>
     ('p unary_output list \<times> ('p, 's) unary) result option" where
  "run_node exec un =
     Option.bind (exec un) (\<lambda>res.
       case res of
         Inl err \<Rightarrow> Some (Inl err)
       | Inr (None, un) \<Rightarrow> Some (Inr ([], un))
       | Inr (Some out, un) \<Rightarrow>
           Option.bind (run_node exec (parent_finish out un)) (\<lambda>res. Some (rbind res (\<lambda>(outs, un). Inr (out # outs, un)))))"

section \<open>The filter node\<close>

text \<open>
  \<open>ExecQual\<close> of PostgreSQL on the slot of a row is the argument \<open>qual\<close>; no quals at all is
  \<open>None\<close>.  As in \<open>selection_walk\<close>, a row number that does not increase ends the loop.
\<close>

function filter_rows ::
  "('p batch \<Rightarrow> int \<Rightarrow> ('p batch \<times> slot_values) result) \<Rightarrow> (slot_values \<Rightarrow> bool result) \<Rightarrow> int \<Rightarrow> 'p batch \<Rightarrow> 'p batch result" where
  "filter_rows select qual previous b =
     (let row = selection_next (b_selection b) previous
      in if row < 0 \<or> row \<le> previous then Inr b
         else case select b row of
           Inl err \<Rightarrow> Inl err
         | Inr (b', slot) \<Rightarrow>
             (case qual slot of
                Inl err \<Rightarrow> Inl err
              | Inr keep \<Rightarrow> filter_rows select qual row
                  (b'\<lparr>b_selection := (if keep then b_selection b else selection_clear (b_selection b) row)\<rparr>)))"
  by pat_completeness auto
termination
  by (relation "measure (\<lambda>(select, qual, previous, b). nat (sel_nrows (b_selection b) - previous))")
    (auto dest!: selection_next_lt simp: not_less)

declare filter_rows.simps [simp del]

definition node_filter_batch ::
  "('p batch \<Rightarrow> int \<Rightarrow> ('p batch \<times> slot_values) result) \<Rightarrow> (slot_values \<Rightarrow> bool result) option \<Rightarrow> ('p, unit) process" where
  "node_filter_batch select qual st b input_rows =
     (case qual of
        None \<Rightarrow> Inr (st, b, input_rows, False)
      | Some q \<Rightarrow> rbind (filter_rows select q (- 1) b) (\<lambda>b. Inr (st, b, batch_row_count b, False)))"

text \<open>
  The plan data of the filter gives its layout and the columns it needs; \<open>OUTER_VAR\<close> is -2.
\<close>

definition filter_target :: "node \<Rightarrow> int" where
  "filter_target expr = (case strip_relabel expr of Var v \<Rightarrow> if varno v = - 2 then varattno v - 1 else - 1 | _ \<Rightarrow> - 1)"

definition intlist_to_bitmap :: "int list \<Rightarrow> nat set result" where
  "intlist_to_bitmap items =
     rfold (\<lambda>item result. if item < 0 then Inl (Elog ''negative bitmapset member not allowed'') else Inr (insert (nat item) result)) items {}"

definition filter_begin ::
  "int list \<Rightarrow> int \<Rightarrow> int list \<Rightarrow> node list \<Rightarrow> nat \<Rightarrow> request_spec \<Rightarrow> request_spec \<Rightarrow> int \<Rightarrow> 'p batch list \<Rightarrow> ('p, unit) unary result" where
  "filter_begin source_attnums nfilter project_columns targetlist natts request child_request child_ncolumns child =
     rbind (intlist_to_bitmap project_columns) (\<lambda>project_columns.
     unary_create \<lparr>lay_struct_size = struct_sizeof PgBatchLayout_layout, lay_ncolumns = int (length source_attnums),
         lay_ntargets = int (length targetlist), lay_target_columns = Some (map filter_target targetlist)\<rparr>
       natts PG_BATCH_UNARY_INPUT_ROW (if nfilter > 0 then {..<nat nfilter} else {}) project_columns 0 () request child_request
       child_ncolumns child)"

definition filter_exec ::
  "('p batch \<Rightarrow> int \<Rightarrow> ('p batch \<times> slot_values) result) \<Rightarrow> (slot_values \<Rightarrow> slot_values result) \<Rightarrow> (slot_values \<Rightarrow> bool result) option \<Rightarrow>
     ('p, unit) unary \<Rightarrow> ('p unary_output option \<times> ('p, unit) unary) result option" where
  "filter_exec select project qual un = unary_exec select project (Some (node_filter_batch select qual)) un"

section \<open>LIMIT and OFFSET\<close>

record limit_state =
  li_offset_expr :: "node option"
  li_count_expr :: "node option"
  li_offset_remaining :: int
  li_count_remaining :: int
  li_no_count :: bool
  li_limits_ready :: bool

function trim_rows :: "limit_state \<Rightarrow> selection \<Rightarrow> int \<Rightarrow> int \<Rightarrow> limit_state \<times> selection \<times> int" where
  "trim_rows st s previous remaining =
     (let row = selection_next s previous
      in if row < 0 \<or> row \<le> previous then (st, s, remaining)
         else if li_offset_remaining st > 0
         then trim_rows (st\<lparr>li_offset_remaining := li_offset_remaining st - 1\<rparr>) (selection_clear s row) row remaining
         else if \<not> li_no_count st \<and> li_count_remaining st = 0 then trim_rows st (selection_clear s row) row remaining
         else if \<not> li_no_count st
         then trim_rows (st\<lparr>li_count_remaining := li_count_remaining st - 1\<rparr>) s row (remaining + 1)
         else trim_rows st s row (remaining + 1))"
  by pat_completeness auto
termination
  by (relation "measure (\<lambda>(st, s, previous, remaining). nat (sel_nrows s - previous))")
    (auto dest!: selection_next_lt simp: not_less)

declare trim_rows.simps [simp del]

definition trim_batch :: "('p, limit_state) process" where
  "trim_batch st b input_rows =
     (let (st, s, remaining) = trim_rows st (b_selection b) (- 1) 0
      in Inr (st, b\<lparr>b_selection := s\<rparr>, remaining, \<not> li_no_count st \<and> li_count_remaining st = 0))"

text \<open>
  \<open>ev\<close> is PostgreSQL's evaluation of an expression.  The second result is the bound given to
  the child with \<open>ExecSetTupleBound\<close>, where -1 is no bound.
\<close>

definition eval_limit :: "(node \<Rightarrow> datum option result) \<Rightarrow> node option \<Rightarrow> pg_error \<Rightarrow> int option result" where
  "eval_limit ev expr negative =
     (case expr of
        None \<Rightarrow> Inr None
      | Some e \<Rightarrow> rbind (ev e) (\<lambda>d.
          case d of None \<Rightarrow> Inr None
          | Some v \<Rightarrow> if sint v < 0 then Inl negative else Inr (Some (sint v))))"

definition compute_limits ::
  "(node \<Rightarrow> datum option result) \<Rightarrow> ('p, limit_state) unary \<Rightarrow> (('p, limit_state) unary \<times> int) result" where
  "compute_limits ev un =
     (let st = un_private un
      in rbind (eval_limit ev (li_offset_expr st)
             (Ereport ERRCODE_INVALID_ROW_COUNT_IN_RESULT_OFFSET_CLAUSE ''OFFSET must not be negative'')) (\<lambda>offset.
         rbind (eval_limit ev (li_count_expr st)
             (Ereport ERRCODE_INVALID_ROW_COUNT_IN_LIMIT_CLAUSE ''LIMIT must not be negative'')) (\<lambda>count.
         let st = st\<lparr>li_offset_remaining := (case offset of None \<Rightarrow> 0 | Some n \<Rightarrow> n), li_no_count := (count = None),
                     li_count_remaining := (case count of None \<Rightarrow> 0 | Some n \<Rightarrow> n), li_limits_ready := True\<rparr>;
             un = un\<lparr>un_private := st\<rparr>;
             un = (if \<not> li_no_count st \<and> li_count_remaining st = 0 then unary_stop un else un);
             bound = (if li_no_count st \<or> li_count_remaining st > 2 ^ 63 - 1 - li_offset_remaining st then - 1
                      else li_offset_remaining st + li_count_remaining st)
         in Inr (un, bound))))"

definition limit_begin ::
  "bool \<Rightarrow> layout \<Rightarrow> nat \<Rightarrow> node option \<Rightarrow> node option \<Rightarrow> request_spec \<Rightarrow> request_spec \<Rightarrow> int \<Rightarrow> 'p batch list \<Rightarrow>
     ('p, limit_state) unary result" where
  "limit_begin backward_or_mark layout natts offset_expr count_expr request child_request child_ncolumns child =
     (if backward_or_mark then Inl (Ereport ERRCODE_FEATURE_NOT_SUPPORTED ''pg_batch_limit supports only forward scans'')
      else
        (let columns = map (layout_column layout) [0..<nat (lay_ntargets layout)]
         in if list_ex (\<lambda>c. c < 0) columns then Inl (Elog ''negative bitmapset member not allowed'')
            else unary_create layout natts PG_BATCH_UNARY_COPY_ROW {} (set (map nat columns)) 0
              \<lparr>li_offset_expr = offset_expr, li_count_expr = count_expr, li_offset_remaining = 0, li_count_remaining = 0,
               li_no_count = False, li_limits_ready = False\<rparr> request child_request child_ncolumns child))"

definition limit_exec ::
  "(node \<Rightarrow> datum option result) \<Rightarrow> ('p batch \<Rightarrow> int \<Rightarrow> ('p batch \<times> slot_values) result) \<Rightarrow> ('p, limit_state) unary \<Rightarrow>
     ('p unary_output option \<times> ('p, limit_state) unary) result option" where
  "limit_exec ev select un =
     (case (if li_limits_ready (un_private un) then Inr un else rbind (compute_limits ev un) (\<lambda>(un, _). Inr un)) of
        Inl err \<Rightarrow> Some (Inl err)
      | Inr un \<Rightarrow> unary_exec select Inr (Some trim_batch) un)"

definition limit_rescan :: "'p batch list \<Rightarrow> ('p, limit_state) unary \<Rightarrow> ('p, limit_state) unary" where
  "limit_rescan child un = (unary_rescan child un)\<lparr>un_private := (un_private un)\<lparr>li_limits_ready := False\<rparr>\<rparr>"

end
