(* ===== verification/Unary_Correct.thy ===== *)
theory Unary_Correct
  imports Unary
begin

text \<open>
  The unary executor over any source of datums and any process that works on a stream of
  rows: both ways of delivering results give the rows the process lets through, complete and
  in their order, and the run ends.
\<close>

section \<open>Sources of datums\<close>

definition slot_cells :: "slot_values \<Rightarrow> datum option list" where
  "slot_cells slot = map (\<lambda>(v, null). if null then None else Some v) slot"

definition source_row :: "('p batch \<Rightarrow> nat \<Rightarrow> nat \<Rightarrow> datum option) \<Rightarrow> nat \<Rightarrow> 'p batch \<Rightarrow> nat \<Rightarrow> datum option list" where
  "source_row cell ncolumns b row = map (\<lambda>column. cell b column row) [0..<ncolumns]"

definition source_rows :: "('p batch \<Rightarrow> nat \<Rightarrow> nat \<Rightarrow> datum option) \<Rightarrow> nat \<Rightarrow> 'p batch \<Rightarrow> datum option list list" where
  "source_rows cell ncolumns b = map (source_row cell ncolumns b) (selected (b_selection b))"

lemma row_selection_nrows [simp]: "sel_nrows (row_selection s row) = sel_nrows s"
  by (simp add: row_selection_def Let_def)

lemma row_selection_bit:
  assumes "sel_wf s" "r < nat (sel_nrows s)"
  shows "sel_bit (row_selection s (int r)) r"
proof -
  have k: "r div 64 < nat (sel_nwords s)" by (rule sel_wf_word_lt [OF assms])
  show ?thesis
  proof (cases "sel_nwords s = 1")
    case True
    then have "r div 64 = 0" using k by simp
    then show ?thesis using True by (simp add: row_selection_def Let_def sel_bit_def bit_simps)
  next
    case False
    then show ?thesis using k by (simp add: row_selection_def Let_def sel_bit_def bit_simps)
  qed
qed

locale datum_source =
  fixes good :: "'p batch \<Rightarrow> bool" and cell :: "'p batch \<Rightarrow> nat \<Rightarrow> nat \<Rightarrow> datum option" and ncolumns :: nat
  assumes wf: "good b \<Longrightarrow> sel_wf (b_selection b)"
    and ops: "good b \<Longrightarrow> b_ops b \<noteq> None"
    and shrink: "good b \<Longrightarrow> sel_wf s \<Longrightarrow> sel_nrows s = sel_nrows (b_selection b) \<Longrightarrow> good (b\<lparr>b_selection := s\<rparr>)"
    and cell_selection: "cell (b\<lparr>b_selection := s\<rparr>) = cell b"
    and get: "good b \<Longrightarrow> column < ncolumns \<Longrightarrow> sel_nrows rows = sel_nrows (b_selection b) \<Longrightarrow>
      \<exists>b' dv vs ns. batch_get_datum_column b (int column) rows phase = Inr (b', dv) \<and> dv_values dv = Some vs \<and> dv_isnull dv = Some ns \<and>
        good b' \<and> b_selection b' = b_selection b \<and> cell b' = cell b \<and>
        (\<forall>row. sel_bit rows row \<and> row < nat (sel_nrows rows) \<longrightarrow> (if ns ! row then None else Some (vs ! row)) = cell b column row)"
    and prepare: "good b \<Longrightarrow> columns \<subseteq> {..<ncolumns} \<Longrightarrow> sel_nrows rows = sel_nrows (b_selection b) \<Longrightarrow>
      \<exists>b'. batch_prepare_columns b columns rows phase = Inr b' \<and> good b' \<and> b_selection b' = b_selection b \<and> cell b' = cell b"
begin

lemma source_rows_eq: "b_selection b' = b_selection b \<Longrightarrow> cell b' = cell b \<Longrightarrow> source_rows cell ncolumns b' = source_rows cell ncolumns b"
  by (simp add: source_rows_def source_row_def)

lemma row_values_ok:
  assumes "good b" "r < nat (sel_nrows (b_selection b))" "\<forall>c \<in> set columns. 0 \<le> c \<and> c < int ncolumns"
  shows "\<exists>b' out. row_values columns b (int r) = Inr (b', out) \<and> good b' \<and> b_selection b' = b_selection b \<and> cell b' = cell b \<and>
    slot_cells out = map (\<lambda>c. cell b (nat c) r) columns"
proof -
  let ?f = "\<lambda>column (b, out).
       rbind (batch_get_datum_column b column (row_selection (b_selection b) (int r)) PG_BATCH_COLUMN_PROJECT) (\<lambda>(b, vector).
         case (dv_values vector, dv_isnull vector) of
           (Some vs, Some ns) \<Rightarrow> Inr (b, out @ [(vs ! nat (int r), ns ! nat (int r))])
         | _ \<Rightarrow> Inl (Elog ''access through a null pointer''))"
  have "\<exists>b' out'. rfold ?f columns (b, out) = Inr (b', out') \<and> good b' \<and> b_selection b' = b_selection b \<and> cell b' = cell b \<and>
      slot_cells out' = slot_cells out @ map (\<lambda>c. cell b (nat c) r) columns" for out
    using assms
  proof (induction columns arbitrary: b out)
    case (Cons c columns)
    have c: "nat c < ncolumns" "int (nat c) = c" using Cons.prems(3) by auto
    have bit: "sel_bit (row_selection (b_selection b) (int r)) r" by (rule row_selection_bit [OF wf [OF Cons.prems(1)] Cons.prems(2)])
    obtain b1 dv vs ns where g: "batch_get_datum_column b c (row_selection (b_selection b) (int r)) PG_BATCH_COLUMN_PROJECT = Inr (b1, dv)"
      "dv_values dv = Some vs" "dv_isnull dv = Some ns" "good b1" "b_selection b1 = b_selection b" "cell b1 = cell b"
      "(if ns ! r then None else Some (vs ! r)) = cell b (nat c) r"
      using get [OF Cons.prems(1) c(1), of "row_selection (b_selection b) (int r)" PG_BATCH_COLUMN_PROJECT] bit Cons.prems(2)
      unfolding c(2) row_selection_nrows by blast
    obtain b' out' where IH: "rfold ?f columns (b1, out @ [(vs ! r, ns ! r)]) = Inr (b', out')" "good b'" "b_selection b' = b_selection b"
      "cell b' = cell b" "slot_cells out' = slot_cells (out @ [(vs ! r, ns ! r)]) @ map (\<lambda>c. cell b (nat c) r) columns"
      using Cons.IH [OF g(4), of "out @ [(vs ! r, ns ! r)]"] Cons.prems g(5,6) by auto
    have "slot_cells (out @ [(vs ! r, ns ! r)]) = slot_cells out @ [cell b (nat c) r]" by (simp add: slot_cells_def g(7))
    then show ?case using IH g(1-3) by simp
  qed (simp add: slot_cells_def)
  from this [of "[]"] show ?thesis by (simp add: row_values_def slot_cells_def)
qed

lemma materialize_ok:
  assumes "good b" "columns \<subseteq> {..<ncolumns}"
  shows "\<exists>access. materialize_columns (Some b) columns (Some (b_selection b)) phase = Inr access \<and> good (acc_batch access) \<and>
    b_selection (acc_batch access) = b_selection b \<and> cell (acc_batch access) = cell b"
proof -
  let ?f = "\<lambda>column access. rbind (column_get_datum access (int column)) (\<lambda>(access', _). Inr access')"
  have fold: "\<exists>access'. rfold ?f cs access = Inr access' \<and> good (acc_batch access') \<and> b_selection (acc_batch access') = b_selection b \<and>
      cell (acc_batch access') = cell b"
    if "set cs \<subseteq> columns" "good (acc_batch access)" "b_selection (acc_batch access) = b_selection b" "cell (acc_batch access) = cell b"
      "acc_columns access = columns" "acc_rows access = b_selection b" for cs access
    using that
  proof (induction cs arbitrary: access)
    case (Cons c cs)
    then obtain b1 dv where g: "batch_get_datum_column (acc_batch access) (int c) (acc_rows access) (acc_phase access) = Inr (b1, dv)"
      "good b1" "b_selection b1 = b_selection b" "cell b1 = cell b"
      using get [of "acc_batch access" c "acc_rows access" "acc_phase access"] assms(2) by auto
    then have "column_get_datum access (int c) = Inr (access\<lparr>acc_batch := b1\<rparr>, dv)"
      using Cons.prems(1,5) by (simp add: column_get_datum_def bms_is_member_def require_def)
    then show ?case using Cons.IH [of "access\<lparr>acc_batch := b1\<rparr>"] Cons.prems g by simp
  qed simp
  obtain b1 where p: "batch_prepare_columns b columns (b_selection b) phase = Inr b1" "good b1" "b_selection b1 = b_selection b" "cell b1 = cell b"
    using prepare [OF assms, of "b_selection b" phase] by auto
  have "finite columns" using assms(2) finite_subset by blast
  then have "set (sorted_list_of_set columns) \<subseteq> columns" by simp
  from fold [OF this, of "\<lparr>acc_batch = b1, acc_columns = columns, acc_rows = b_selection b, acc_phase = phase\<rparr>"] show ?thesis
    using p ops [OF assms(1)] by (simp add: materialize_columns_def column_access_init_def)
qed

end

section \<open>Processes over a stream of rows\<close>

definition static_part :: "('p, 's) unary \<Rightarrow> request_spec \<times> request_spec \<times> int list \<times> row_mode \<times> bool" where
  "static_part un = (un_request un, un_child_request un, un_batch_columns un, un_row_mode un, un_request_forwarded un)"

locale unary_process = datum_source good cell ncolumns
  for good :: "'p batch \<Rightarrow> bool" and cell ncolumns +
  fixes process :: "('p, 's) process" and inv :: "'s \<Rightarrow> bool" and spec :: "'s \<Rightarrow> datum option list list \<Rightarrow> datum option list list"
  assumes step: "inv st \<Longrightarrow> good b \<Longrightarrow>
      \<exists>st' b' stop. process st b (batch_row_count b) = Inr (st', b', int (length (selected (b_selection b'))), stop) \<and> good b' \<and> inv st' \<and>
        (\<forall>rest. spec st (source_rows cell ncolumns b @ rest) = source_rows cell ncolumns b' @ spec st' rest) \<and>
        (stop \<longrightarrow> (\<forall>rest. spec st' rest = []))"
    and spec_Nil: "inv st \<Longrightarrow> spec st [] = []"
begin

definition to_come :: "('p, 's) unary \<Rightarrow> datum option list list" where
  "to_come un = spec (un_private un) (concat (map (source_rows cell ncolumns) (in_child (un_input un))))"

definition unary_ok :: "('p, 's) unary \<Rightarrow> bool" where
  "unary_ok un \<longleftrightarrow> inv (un_private un) \<and> (\<forall>b \<in> set (in_child (un_input un)). good b) \<and>
     (un_stopped un \<longrightarrow> (\<forall>rest. spec (un_private un) rest = [])) \<and> rs_project_columns (un_child_request un) \<subseteq> {..<ncolumns}"

text \<open>A delivered batch.\<close>

definition delivered :: "('p, 's) unary \<Rightarrow> 'p batch \<Rightarrow> ('p, 's) unary \<Rightarrow> bool" where
  "delivered un b un' \<longleftrightarrow> in_active (un_input un') = Some b \<and> good b \<and> selected (b_selection b) \<noteq> [] \<and> unary_ok un' \<and>
     to_come un = source_rows cell ncolumns b @ to_come un' \<and> un_active un' \<and> un_next_row un' = selection_next (b_selection b) (- 1) \<and>
     static_part un' = static_part un \<and> length (in_child (un_input un')) < length (in_child (un_input un))"

lemma take_input_ok:
  assumes ok: "unary_ok un" "\<not> un_stopped un" and child: "in_child (un_input un) = b # bs" and good_b: "good b"
  obtains b' un' where "take_input (Some process) b (un\<lparr>un_input := \<lparr>in_child = bs, in_active = Some b, in_finished = False\<rparr>\<rparr>) =
      Inr (b', int (length (selected (b_selection b'))), un')"
    "good b'" "unary_ok un'" "to_come un = source_rows cell ncolumns b' @ to_come un'" "static_part un' = static_part un"
    "un_input un' = \<lparr>in_child = bs, in_active = Some b', in_finished = False\<rparr>"
proof -
  obtain st' b' stop where p: "process (un_private un) b (batch_row_count b) = Inr (st', b', int (length (selected (b_selection b'))), stop)"
    "good b'" "inv st'" "\<forall>rest. spec (un_private un) (source_rows cell ncolumns b @ rest) = source_rows cell ncolumns b' @ spec st' rest"
    "stop \<longrightarrow> (\<forall>rest. spec st' rest = [])"
    using step [of "un_private un" b] ok(1) good_b by (auto simp: unary_ok_def)
  define new where "new = (if stop then unary_stop else id) (un\<lparr>un_input_batches := un_input_batches un + 1,
      un_input_rows := un_input_rows un + batch_row_count b, un_private := st',
      un_input := \<lparr>in_child = bs, in_active = Some b', in_finished = False\<rparr>\<rparr>)"
  have fields: "un_private new = st'" "un_input new = \<lparr>in_child = bs, in_active = Some b', in_finished = False\<rparr>"
    "un_stopped new \<longleftrightarrow> stop" "static_part new = static_part un" "un_child_request new = un_child_request un"
    using ok(2) by (auto simp: new_def unary_stop_def static_part_def)
  have "take_input (Some process) b (un\<lparr>un_input := \<lparr>in_child = bs, in_active = Some b, in_finished = False\<rparr>\<rparr>) =
      Inr (b', int (length (selected (b_selection b'))), new)"
    using p(1) by (simp add: take_input_def Let_def new_def)
  then show thesis
    by (rule that) (use p ok(1) child fields in \<open>simp_all add: unary_ok_def to_come_def\<close>)
qed

lemma fetch_delivers:
  assumes "unary_ok un" "in_active (un_input un) \<noteq> None \<longrightarrow> in_finished (un_input un)"
  shows "(\<exists>un'. fetch_batch (Some process) un = Inr (False, un') \<and> to_come un = []) \<or>
    (\<exists>un' b. fetch_batch (Some process) un = Inr (True, un') \<and> delivered un b un')"
  using assms
proof (induction "length (in_child (un_input un))" arbitrary: un rule: less_induct)
  case less
  consider (stopped) "un_stopped un" | (empty) "\<not> un_stopped un" "in_child (un_input un) = []"
    | (batch) b bs where "\<not> un_stopped un" "in_child (un_input un) = b # bs" by (meson neq_Nil_conv)
  then show ?case
  proof cases
    case stopped
    then show ?thesis using less.prems(1) by (simp add: fetch_batch.simps to_come_def unary_ok_def)
  next
    case empty
    then have "fetch_batch (Some process) un = Inr (False, un\<lparr>un_input := (un_input un)\<lparr>in_active := None\<rparr>\<rparr>)"
      using less.prems(2) by (auto simp: fetch_batch.simps [of _ un] input_next_def)
    moreover have "to_come un = []" using empty less.prems(1) spec_Nil by (simp add: to_come_def unary_ok_def)
    ultimately show ?thesis by blast
  next
    case batch
    have "good b" using batch(2) less.prems(1) by (simp add: unary_ok_def)
    obtain b' un' where t: "take_input (Some process) b (un\<lparr>un_input := \<lparr>in_child = bs, in_active = Some b, in_finished = False\<rparr>\<rparr>) =
        Inr (b', int (length (selected (b_selection b'))), un')"
      "good b'" "unary_ok un'" "to_come un = source_rows cell ncolumns b' @ to_come un'" "static_part un' = static_part un"
      "un_input un' = \<lparr>in_child = bs, in_active = Some b', in_finished = False\<rparr>"
      by (rule take_input_ok [OF less.prems(1) batch \<open>good b\<close>])
    have "input_next (un_input un) = Inr (Some b, \<lparr>in_child = bs, in_active = Some b, in_finished = False\<rparr>)"
      using batch(2) less.prems(2) by (auto simp: input_next_def)
    note unfold = fetch_batch.simps [of "Some process" un, unfolded this, simplified batch(1) t(1)]
    show ?thesis
    proof (cases "selected (b_selection b') = []")
      case True
      let ?next = "un'\<lparr>un_input := \<lparr>in_child = bs, in_active = None, in_finished = True\<rparr>\<rparr>"
      have run: "fetch_batch (Some process) un = fetch_batch (Some process) ?next"
        using unfold True t(1,6) by (simp add: input_finish_def)
      have eq: "to_come un = to_come ?next" using t(4,6) True by (simp add: to_come_def source_rows_def)
      have "unary_ok ?next" using t(3,6) by (simp add: unary_ok_def)
      then have IH: "(\<exists>un'. fetch_batch (Some process) ?next = Inr (False, un') \<and> to_come ?next = []) \<or>
          (\<exists>un' b. fetch_batch (Some process) ?next = Inr (True, un') \<and> delivered ?next b un')"
        using less.hyps [of ?next] batch(2) by simp
      have "delivered un b un1" if "delivered ?next b un1" for b un1
        using that eq t(5) batch(2) by (simp add: delivered_def static_part_def)
      then show ?thesis using IH unfolding run eq by blast
    next
      case False
      have project: "rs_project_columns (un_child_request un') \<subseteq> {..<ncolumns}" using t(3) by (simp add: unary_ok_def)
      obtain b1 where d: "deliver_batch b' (int (length (selected (b_selection b')))) un' =
          Inr (un'\<lparr>un_output_rows := un_output_rows un' + int (length (selected (b_selection b'))), un_active := True,
            un_input := (un_input un')\<lparr>in_active := Some b1\<rparr>, un_next_row := selection_next (b_selection b1) (- 1)\<rparr>)"
        "good b1" "b_selection b1 = b_selection b'" "cell b1 = cell b'"
      proof (cases "rs_output_mode (un_request un') = PG_BATCH_OUTPUT_ROWS")
        case True
        then show thesis using that materialize_ok [OF t(2) project, of PG_BATCH_COLUMN_PROJECT] by (auto simp: deliver_batch_def)
      next
        case False
        then show thesis using that [of b'] t(2) by (simp add: deliver_batch_def)
      qed
      let ?un = "un'\<lparr>un_output_rows := un_output_rows un' + int (length (selected (b_selection b'))), un_active := True,
            un_input := (un_input un')\<lparr>in_active := Some b1\<rparr>, un_next_row := selection_next (b_selection b1) (- 1)\<rparr>"
      have "fetch_batch (Some process) un = Inr (True, ?un)" using unfold t(1) False d(1) by simp
      moreover have "delivered un b1 ?un"
        unfolding delivered_def using False d(2-4) t batch(2) source_rows_eq [OF d(3,4)]
        by (simp add: unary_ok_def to_come_def static_part_def)
      ultimately show ?thesis by blast
    qed
  qed
qed

end

section \<open>The rows of a batch one by one\<close>

definition pending_rows :: "selection \<Rightarrow> int \<Rightarrow> int list" where
  "pending_rows s row = (if row < 0 then [] else row # selection_walk s row)"

lemma walk_pending:
  assumes "sel_wf s" "- 1 \<le> previous"
  shows "selection_walk s previous = pending_rows s (selection_next s previous)"
proof -
  have "selection_next s previous < 0 \<or> previous < selection_next s previous"
  proof (cases "selection_next s previous < 0")
    case False
    then have "nat (previous + 1) \<le> nat (selection_next s previous)" using selection_next_spec [OF assms] by (simp add: next_spec_def)
    then show ?thesis using False assms(2) by linarith
  qed simp
  then show ?thesis by (subst selection_walk.simps) (auto simp: pending_rows_def Let_def)
qed

lemma pending_first:
  assumes "sel_wf s"
  shows "pending_rows s (selection_next s (- 1)) = map int (selected s)"
  using walk_pending [OF assms, of "- 1"] selection_walk_selected [OF assms, of "- 1"] by simp

lemma pending_step:
  assumes "sel_wf s" "0 \<le> row"
  shows "pending_rows s row = row # pending_rows s (selection_next s row)"
  using walk_pending [OF assms(1), of row] assms(2) by (simp add: pending_rows_def)

context unary_process
begin

definition shown_columns :: "int list \<Rightarrow> ('p, 's) unary \<Rightarrow> int list" where
  "shown_columns slot_columns un = (case un_row_mode un of PG_BATCH_UNARY_COPY_ROW \<Rightarrow> un_batch_columns un | PG_BATCH_UNARY_INPUT_ROW \<Rightarrow> slot_columns)"

definition columns_ok :: "int list \<Rightarrow> bool" where
  "columns_ok columns \<longleftrightarrow> (\<forall>c \<in> set columns. 0 \<le> c \<and> c < int ncolumns)"

lemma select_ok:
  assumes "good b" "r \<in> set (selected (b_selection b))" "columns_ok columns"
  obtains b' slot where "virtual_select_row columns b (int r) = Inr (b', slot)" "good b'" "b_selection b' = b_selection b" "cell b' = cell b"
    "slot_cells slot = map (\<lambda>c. source_row cell ncolumns b r ! nat c) columns"
proof -
  have "r < nat (sel_nrows (b_selection b))" using assms(2) by (simp add: set_selected)
  from row_values_ok [OF assms(1) this assms(3) [unfolded columns_ok_def]] obtain b' out where
    "row_values columns b (int r) = Inr (b', out)" "good b'" "b_selection b' = b_selection b" "cell b' = cell b"
    "slot_cells out = map (\<lambda>c. cell b (nat c) r) columns" by blast
  moreover have "map (\<lambda>c. cell b (nat c) r) columns = map (\<lambda>c. source_row cell ncolumns b r ! nat c) columns"
    using assms(3) by (intro map_cong) (auto simp: source_row_def columns_ok_def nat_less_iff)
  ultimately show thesis using that by (simp add: virtual_select_row_def)
qed

lemma exec_batch_ok:
  assumes "unary_ok un" "in_active (un_input un) \<noteq> None \<longrightarrow> in_finished (un_input un)" "columns_ok columns"
  shows "(\<exists>un'. exec_batch (virtual_select_row columns) (Some process) un = Inr (None, un') \<and> to_come un = []) \<or>
    (\<exists>b un'. exec_batch (virtual_select_row columns) (Some process) un = Inr (Some b, un') \<and> good b \<and> unary_ok un' \<and>
      to_come un = source_rows cell ncolumns b @ to_come un' \<and> static_part un' = static_part un \<and>
      length (in_child (un_input un')) < length (in_child (un_input un)))"
proof -
  let ?un = "un\<lparr>un_active := False\<rparr>"
  have same: "to_come ?un = to_come un" "unary_ok ?un" "in_active (un_input ?un) \<noteq> None \<longrightarrow> in_finished (un_input ?un)"
    using assms(1,2) by (simp_all add: to_come_def unary_ok_def)
  consider un' where "fetch_batch (Some process) ?un = Inr (False, un')" "to_come un = []"
    | un' b where "fetch_batch (Some process) ?un = Inr (True, un')" "delivered ?un b un'"
    using fetch_delivers [OF same(2,3)] same(1) by auto
  then show ?thesis
  proof cases
    case 1
    then show ?thesis by (simp add: exec_batch_def)
  next
    case 2
    then have d: "in_active (un_input un') = Some b" "good b" "selected (b_selection b) \<noteq> []" "unary_ok un'"
      "to_come un = source_rows cell ncolumns b @ to_come un'" "un_next_row un' = selection_next (b_selection b) (- 1)"
      "static_part un' = static_part un" "length (in_child (un_input un')) < length (in_child (un_input un))"
      by (simp_all add: delivered_def same(1) static_part_def)
    obtain r rs where r: "selected (b_selection b) = r # rs" using d(3) by (meson neq_Nil_conv)
    then have first: "un_next_row un' = int r" using pending_first [OF wf [OF d(2)]] d(6) by (auto simp: pending_rows_def split: if_splits)
    obtain b' slot where sel: "virtual_select_row columns b (int r) = Inr (b', slot)" "good b'" "b_selection b' = b_selection b" "cell b' = cell b"
      by (rule select_ok [OF d(2) _ assms(3), of r]) (use r in simp)
    let ?new = "un'\<lparr>un_input := (un_input un')\<lparr>in_active := Some b'\<rparr>\<rparr>"
    have "exec_batch (virtual_select_row columns) (Some process) un = Inr (Some b', ?new)"
      using 2(1) d(1) first sel(1) by (simp add: exec_batch_def input_select_row_def)
    moreover have "unary_ok ?new" "to_come ?new = to_come un'" "static_part ?new = static_part un'"
      using d(4) by (simp_all add: unary_ok_def to_come_def static_part_def)
    ultimately show ?thesis using d sel(2) source_rows_eq [OF sel(3,4)] by auto
  qed
qed

text \<open>A node's own executor, once its state is set up, is the unary one.\<close>

definition agrees :: "(('p, 's) unary \<Rightarrow> ('p unary_output option \<times> ('p, 's) unary) result option) \<Rightarrow> int list \<Rightarrow> bool" where
  "agrees exec columns \<longleftrightarrow> (\<forall>un. inv (un_private un) \<longrightarrow> exec un = unary_exec (virtual_select_row columns) Inr (Some process) un)"

lemma run_batches:
  assumes "unary_ok un" "in_active (un_input un) \<noteq> None \<longrightarrow> in_finished (un_input un)" "columns_ok columns"
    "un_request_forwarded un" "rs_output_mode (un_request un) = PG_BATCH_OUTPUT_BATCH" and agree: "agrees exec columns"
  shows "\<exists>bs un'. run_node exec un = Some (Inr (map Batch bs, un')) \<and>
    concat (map (source_rows cell ncolumns) bs) = to_come un \<and> list_all good bs"
  using assms(1-5)
proof (induction "length (in_child (un_input un))" arbitrary: un rule: less_induct)
  case less
  have "inv (un_private un)" using less.prems(1) by (simp add: unary_ok_def)
  then have exec: "exec un = Some (rbind (exec_batch (virtual_select_row columns) (Some process) un) (\<lambda>(b, un). Inr (map_option Batch b, un)))"
    using less.prems(4,5) agree by (simp add: unary_exec_def agrees_def)
  consider un' where "exec_batch (virtual_select_row columns) (Some process) un = Inr (None, un')" "to_come un = []"
    | b un' where "exec_batch (virtual_select_row columns) (Some process) un = Inr (Some b, un')" "good b" "unary_ok un'"
      "to_come un = source_rows cell ncolumns b @ to_come un'" "static_part un' = static_part un"
      "length (in_child (un_input un')) < length (in_child (un_input un))"
    using exec_batch_ok [OF less.prems(1-3)] by blast
  then show ?case
  proof cases
    case 1
    then show ?thesis using exec by (intro exI [of _ "[]"]) (simp add: run_node.simps)
  next
    case 2
    let ?next = "parent_finish (Batch b) un'"
    have ok: "unary_ok ?next" "in_active (un_input ?next) \<noteq> None \<longrightarrow> in_finished (un_input ?next)" "un_request_forwarded ?next"
      "rs_output_mode (un_request ?next) = PG_BATCH_OUTPUT_BATCH" "to_come ?next = to_come un'"
      "length (in_child (un_input ?next)) < length (in_child (un_input un))"
      using 2 less.prems(4,5) by (auto simp: parent_finish_def unary_ok_def to_come_def static_part_def)
    obtain bs un1 where IH: "run_node exec ?next = Some (Inr (map Batch bs, un1))"
      "concat (map (source_rows cell ncolumns) bs) = to_come un'" "list_all good bs"
      using less.hyps [OF ok(6,1,2) less.prems(3) ok(3,4)] ok(5) by auto
    have "run_node exec un = Some (Inr (map Batch (b # bs), un1))"
      by (subst run_node.simps) (simp add: exec 2(1) IH(1))
    then show ?thesis using IH(2,3) 2(2,4) by (intro exI [of _ "b # bs"] exI [of _ un1]) simp
  qed
qed

definition row_ok :: "('p, 's) unary \<Rightarrow> bool" where
  "row_ok un \<longleftrightarrow> unary_ok un \<and>
     (if un_active un
      then \<exists>b. in_active (un_input un) = Some b \<and> good b \<and> set (pending_rows (b_selection b) (un_next_row un)) \<subseteq> int ` set (selected (b_selection b))
      else in_active (un_input un) \<noteq> None \<longrightarrow> in_finished (un_input un))"

definition left :: "('p, 's) unary \<Rightarrow> datum option list list" where
  "left un = (if un_active un
      then (case in_active (un_input un) of None \<Rightarrow> []
            | Some b \<Rightarrow> map (\<lambda>row. source_row cell ncolumns b (nat row)) (pending_rows (b_selection b) (un_next_row un)))
      else []) @ to_come un"

text \<open>A result of \<open>exec_row\<close>: the next row, and the rest for later.\<close>

definition row_result :: "int list \<Rightarrow> ('p, 's) unary \<Rightarrow> slot_values option \<times> ('p, 's) unary \<Rightarrow> bool" where
  "row_result columns un res \<longleftrightarrow>
     (case res of
        (None, un') \<Rightarrow> left un = []
      | (Some slot, un') \<Rightarrow> row_ok un' \<and> static_part un' = static_part un \<and>
          (\<exists>row. left un = row # left un' \<and> slot_cells slot = map (\<lambda>c. row ! nat c) (shown_columns columns un)))"

lemma shown_columns_static: "static_part un' = static_part un \<Longrightarrow> shown_columns columns un' = shown_columns columns un"
  by (simp add: static_part_def shown_columns_def split: row_mode.splits)

lemma row_result_cong:
  assumes "left un' = left un" "static_part un' = static_part un" "row_result columns un' res"
  shows "row_result columns un res"
  using assms(3) unfolding row_result_def assms(1,2) shown_columns_static [OF assms(2)] .

lemma next_output_row_ok:
  assumes ok: "row_ok un" "un_active un" "\<not> un_next_row un < 0" and cols: "columns_ok columns" "columns_ok (un_batch_columns un)"
  shows "\<exists>res. next_output_row (virtual_select_row columns) Inr un = Inr res \<and> row_result columns un res"
proof -
  obtain b where b: "in_active (un_input un) = Some b" "good b" "set (pending_rows (b_selection b) (un_next_row un)) \<subseteq> int ` set (selected (b_selection b))"
    using ok(1,2) by (auto simp: row_ok_def)
  have u: "unary_ok un" using ok(1) by (simp add: row_ok_def)
  define r where "r = nat (un_next_row un)"
  let ?following = "selection_next (b_selection b) (un_next_row un)"
  have row: "un_next_row un = int r" using ok(3) by (simp add: r_def)
  have pend: "pending_rows (b_selection b) (un_next_row un) = un_next_row un # pending_rows (b_selection b) ?following"
    using pending_step [OF wf [OF b(2)]] ok(3) by simp
  have r: "r \<in> set (selected (b_selection b))" using b(3) pend row by auto
  have result: "row_result columns un (Some slot, un\<lparr>un_next_row := ?following, un_input := (un_input un)\<lparr>in_active := Some b'\<rparr>\<rparr>)"
    if "good b'" "b_selection b' = b_selection b" "cell b' = cell b"
      "slot_cells slot = map (\<lambda>c. source_row cell ncolumns b r ! nat c) (shown_columns columns un)" for b' slot
  proof -
    have "left un = source_row cell ncolumns b r # left (un\<lparr>un_next_row := ?following, un_input := (un_input un)\<lparr>in_active := Some b'\<rparr>\<rparr>)"
      using ok(2) b(1) that(2,3) pend by (simp add: left_def to_come_def source_row_def r_def)
    moreover have "row_ok (un\<lparr>un_next_row := ?following, un_input := (un_input un)\<lparr>in_active := Some b'\<rparr>\<rparr>)"
      using ok(2) u b(3) that(1,2) pend by (simp add: row_ok_def unary_ok_def)
    ultimately show ?thesis using that(4) by (auto simp: row_result_def static_part_def)
  qed
  obtain b1 slot1 where s1: "virtual_select_row columns b (int r) = Inr (b1, slot1)" "good b1" "b_selection b1 = b_selection b" "cell b1 = cell b"
    "slot_cells slot1 = map (\<lambda>c. source_row cell ncolumns b r ! nat c) columns"
    by (rule select_ok [OF b(2) r cols(1)])
  show ?thesis
  proof (cases "un_row_mode un")
    case PG_BATCH_UNARY_INPUT_ROW
    then show ?thesis using result [OF s1(2-4), of slot1] s1(1,5) b(1) row
      by (simp add: next_output_row_def input_select_row_def shown_columns_def Let_def)
  next
    case PG_BATCH_UNARY_COPY_ROW
    obtain b2 slot2 where s2: "virtual_select_row (un_batch_columns un) b1 (int r) = Inr (b2, slot2)" "good b2"
      "b_selection b2 = b_selection b1" "cell b2 = cell b1" "slot_cells slot2 = map (\<lambda>c. source_row cell ncolumns b1 r ! nat c) (un_batch_columns un)"
      by (rule select_ok [OF s1(2) r [folded s1(3)] cols(2)])
    have "source_row cell ncolumns b1 r = source_row cell ncolumns b r" using s1(4) by (simp add: source_row_def)
    then show ?thesis using PG_BATCH_UNARY_COPY_ROW result [OF s2(2), of slot2] s1(1,3,4) s2(1,3-5) b(1) row
      by (simp add: next_output_row_def input_copy_row_def input_select_row_def virtual_select_row_def shown_columns_def Let_def)
  qed
qed

lemma exec_row_ok:
  assumes ok: "row_ok un" and cols: "columns_ok columns" "columns_ok (un_batch_columns un)"
  shows "\<exists>res. exec_row (virtual_select_row columns) Inr (Some process) un = Some (Inr res) \<and> row_result columns un res"
proof -
  have inactive: "\<exists>res. exec_row (virtual_select_row columns) Inr (Some process) un = Some (Inr res) \<and> row_result columns un res"
    if un: "row_ok un" "\<not> un_active un" "columns_ok (un_batch_columns un)" for un
  proof -
    have "unary_ok un" "in_active (un_input un) \<noteq> None \<longrightarrow> in_finished (un_input un)" using un(1,2) by (simp_all add: row_ok_def)
    from fetch_delivers [OF this] consider un' where "fetch_batch (Some process) un = Inr (False, un')" "to_come un = []"
      | un' b where "fetch_batch (Some process) un = Inr (True, un')" "delivered un b un'" by blast
    then show ?thesis
    proof cases
      case 1
      then show ?thesis using un(2) by (simp add: exec_row.simps row_result_def left_def)
    next
      case 2
      have b: "in_active (un_input un') = Some b" "good b" "selected (b_selection b) \<noteq> []" "unary_ok un'" "un_active un'"
        "to_come un = source_rows cell ncolumns b @ to_come un'" "un_next_row un' = selection_next (b_selection b) (- 1)" "static_part un' = static_part un"
        using 2(2) by (simp_all add: delivered_def)
      have pend: "pending_rows (b_selection b) (un_next_row un') = map int (selected (b_selection b))" using pending_first [OF wf [OF b(2)]] b(7) by simp
      then have "\<not> un_next_row un' < 0" using b(3) by (auto simp: pending_rows_def)
      moreover have "row_ok un'" using b(1,2,4,5) pend by (simp add: row_ok_def)
      moreover have same: "left un' = left un" using b(1,5,6) pend un(2) by (simp add: left_def source_rows_def)
      moreover have "un_batch_columns un' = un_batch_columns un" using b(8) by (simp add: static_part_def)
      ultimately obtain res where "next_output_row (virtual_select_row columns) Inr un' = Inr res" "row_result columns un' res"
        using next_output_row_ok [of un' columns] b(5) un(3) cols(1) by auto
      moreover have "exec_row (virtual_select_row columns) Inr (Some process) un = Some (next_output_row (virtual_select_row columns) Inr un')"
        using un(2) 2(1) \<open>\<not> un_next_row un' < 0\<close> by (simp add: exec_row.simps)
      ultimately show ?thesis using row_result_cong [OF same b(8)] by auto
    qed
  qed
  show ?thesis
  proof (cases "un_active un")
    case False
    then show ?thesis using inactive ok cols by blast
  next
    case active: True
    obtain b where b: "in_active (un_input un) = Some b" "good b" "unary_ok un" using ok active by (auto simp: row_ok_def)
    show ?thesis
    proof (cases "un_next_row un < 0")
      case False
      then show ?thesis using next_output_row_ok [OF ok active False cols] active by (simp add: exec_row.simps)
    next
      case True
      let ?un = "un\<lparr>un_input := (un_input un)\<lparr>in_active := None, in_finished := True\<rparr>, un_active := False\<rparr>"
      have "exec_row (virtual_select_row columns) Inr (Some process) un = exec_row (virtual_select_row columns) Inr (Some process) ?un"
        using active True b(1) by (subst exec_row.simps) (simp add: input_finish_def)
      moreover have "row_ok ?un" using b(3) by (simp add: row_ok_def unary_ok_def)
      moreover have "left ?un = left un" using active True b(1) by (simp add: left_def pending_rows_def to_come_def)
      moreover have "static_part ?un = static_part un" by (simp add: static_part_def)
      ultimately show ?thesis using inactive [of ?un] cols(2) row_result_cong [of ?un un columns] by auto
    qed
  qed
qed

lemma run_rows:
  assumes "row_ok un" "columns_ok columns" "columns_ok (un_batch_columns un)"
    "un_request_forwarded un" "rs_output_mode (un_request un) \<noteq> PG_BATCH_OUTPUT_BATCH" and agree: "agrees exec columns"
  shows "\<exists>slots un'. run_node exec un = Some (Inr (map Row slots, un')) \<and>
    map slot_cells slots = map (\<lambda>row. map (\<lambda>c. row ! nat c) (shown_columns columns un)) (left un)"
  using assms(1-5)
proof (induction "length (left un)" arbitrary: un rule: less_induct)
  case less
  have "inv (un_private un)" using less.prems(1) by (simp add: row_ok_def unary_ok_def)
  obtain res where res: "exec_row (virtual_select_row columns) Inr (Some process) un = Some (Inr res)" "row_result columns un res"
    using exec_row_ok [OF less.prems(1-3)] by blast
  have exec: "exec un = Some (Inr (map_option Row (fst res), snd res))"
    using less.prems(4,5) res(1) agree \<open>inv (un_private un)\<close> by (simp add: unary_exec_def agrees_def split_beta)
  show ?case
  proof (cases "fst res")
    case None
    then have "left un = []" using res(2) by (cases res) (simp add: row_result_def)
    then show ?thesis using exec None by (intro exI [of _ "[]"]) (simp add: run_node.simps)
  next
    case (Some slot)
    let ?un = "snd res"
    obtain row where r: "row_ok ?un" "static_part ?un = static_part un" "left un = row # left ?un"
      "slot_cells slot = map (\<lambda>c. row ! nat c) (shown_columns columns un)"
      using res(2) Some by (cases res) (auto simp: row_result_def)
    have same: "un_batch_columns ?un = un_batch_columns un" "shown_columns columns ?un = shown_columns columns un"
      "un_request_forwarded ?un" "rs_output_mode (un_request ?un) \<noteq> PG_BATCH_OUTPUT_BATCH"
      using r(2) less.prems(4,5) shown_columns_static [OF r(2)] by (simp_all add: static_part_def)
    obtain slots un' where IH: "run_node exec ?un = Some (Inr (map Row slots, un'))"
      "map slot_cells slots = map (\<lambda>row. map (\<lambda>c. row ! nat c) (shown_columns columns un)) (left ?un)"
      using less.hyps [of ?un] r(1,3) less.prems(2,3) same by auto
    have "run_node exec un = Some (Inr (map Row (slot # slots), un'))"
      by (subst run_node.simps) (simp add: exec Some IH(1) parent_finish_def)
    then show ?thesis using IH(2) r(3,4) by (intro exI [of _ "slot # slots"] exI [of _ un']) simp
  qed
qed

text \<open>
  A fresh node: its first execution forwards the request and goes on as every other one.
\<close>

lemma run_fresh:
  assumes st: "inv (un_private un)" and child: "\<forall>b \<in> set child. good b" and fresh: "un_input un = input_rescan child" "\<not> un_active un"
      "un_stopped un \<longrightarrow> (\<forall>rest. spec (un_private un) rest = [])" "\<not> un_request_forwarded un" "un_child_ncolumns un = un_ncolumns un"
    and project: "rs_project_columns (un_child_request un) \<union> un_project_columns un \<union> rs_project_columns (un_request un) \<subseteq> {..<ncolumns}"
    and cols: "columns_ok columns" "columns_ok (un_batch_columns un)" and agree: "agrees exec columns"
  shows "\<exists>outs un'. run_node exec un = Some (Inr (outs, un')) \<and>
    (if rs_output_mode (un_request un) = PG_BATCH_OUTPUT_BATCH
     then \<exists>bs. outs = map Batch bs \<and> concat (map (source_rows cell ncolumns) bs) = spec (un_private un) (concat (map (source_rows cell ncolumns) child)) \<and> list_all good bs
     else \<exists>slots. outs = map Row slots \<and> map slot_cells slots =
       map (\<lambda>row. map (\<lambda>c. row ! nat c) (shown_columns columns un)) (spec (un_private un) (concat (map (source_rows cell ncolumns) child))))"
proof -
  obtain un1 where un1: "forward_request un = Inr un1" "un_request_forwarded un1" "un_private un1 = un_private un" "un_input un1 = un_input un"
    "un_active un1 = un_active un" "un_stopped un1 = un_stopped un" "un_request un1 = un_request un" "un_batch_columns un1 = un_batch_columns un"
    "un_row_mode un1 = un_row_mode un"
    "rs_project_columns (un_child_request un1) = rs_project_columns (un_child_request un) \<union> un_project_columns un \<union> rs_project_columns (un_request un)"
    using fresh(5) by (simp add: forward_request_def Let_def)
  have "exec un = exec un1" using agree st un1(1-3) fresh(4) by (simp add: agrees_def unary_exec_def)
  then have run: "run_node exec un = run_node exec un1" by (simp add: run_node.simps)
  have ok: "unary_ok un1" "row_ok un1" using st child fresh project un1 by (simp_all add: unary_ok_def row_ok_def input_rescan_def)
  have come: "to_come un1 = spec (un_private un) (concat (map (source_rows cell ncolumns) child))" "left un1 = to_come un1"
    "shown_columns columns un1 = shown_columns columns un"
    using fresh(1,2) un1 by (simp_all add: to_come_def left_def input_rescan_def shown_columns_def split: row_mode.splits)
  show ?thesis
  proof (cases "rs_output_mode (un_request un) = PG_BATCH_OUTPUT_BATCH")
    case True
    have "in_active (un_input un1) \<noteq> None \<longrightarrow> in_finished (un_input un1)" using fresh(1) un1(4) by (simp add: input_rescan_def)
    from run_batches [OF ok(1) this cols(1) un1(2) _ agree] show ?thesis using True un1(7) come(1) unfolding run by auto
  next
    case False
    from run_rows [OF ok(2) cols(1) _ un1(2) _ agree] show ?thesis using False un1(7,8) come cols(2) unfolding run by auto
  qed
qed

end

end
