(* ===== verification/Builder.thy ===== *)
theory Builder
  imports Bridge
begin

text \<open>
  The batch builder (\<open>runtime/builder.c\<close>) and the node that packs the rows of a scalar child
  into batches (\<open>nodes/pack.c\<close>).

  A slot is the list of its attributes, each a value and a null flag.  A value that is not
  passed by value is copied with PostgreSQL's \<open>datumCopy\<close>, the argument \<open>copy\<close>.  The batch is
  part of the builder and its private data is the builder.  No allocation exceeds one
  gigabyte, so the offsets of values fit an \<open>int\<close>.
\<close>

type_synonym slot = "(datum \<times> bool) list"

record attribute =
  att_byval :: bool
  att_len :: int

section \<open>The builder\<close>

record builder_config =
  bc_struct_size :: nat
  bc_parent_context :: bool
  bc_tuple_desc :: "attribute list option"
  bc_ncolumns :: int
  bc_capacity :: int

definition PgBatchBuilderConfig_layout :: struct_layout where
  "PgBatchBuilderConfig_layout = [(''struct_size'', 8, 8), (''parent_context'', 8, 8), (''tuple_desc'', 8, 8),
     (''ncolumns'', 4, 4), (''capacity'', 4, 4)]"

record builder =
  bu_selection :: selection
  bu_table_oid :: uint32
  bu_tuple_desc :: "attribute list"
  bu_values :: "datum list"
  bu_isnull :: "bool list"
  bu_words :: "uint64 list"
  bu_ncolumns :: nat
  bu_capacity :: nat
  bu_nrows :: nat
  bu_has_byref :: bool
  bu_sealed :: bool

definition builder_get_column ::
  "builder \<Rightarrow> selection \<Rightarrow> int \<Rightarrow> selection \<Rightarrow> column_phase \<Rightarrow> datum_vector \<Rightarrow> (builder \<times> datum_vector) result" where
  "builder_get_column b s column rows phase result =
     rbind (check_datum_vector (Some result)) (\<lambda>_.
     if column < 0 \<or> column \<ge> int (bu_ncolumns b) then Inl (Elog ''pg_batch builder column is out of range'')
     else Inr (b, result\<lparr>dv_values := Some (drop (nat column * bu_capacity b) (bu_values b)),
                        dv_isnull := Some (drop (nat column * bu_capacity b) (bu_isnull b)), dv_nrows := sel_nrows s\<rparr>))"

text \<open>The address of the table is arbitrary.\<close>

definition builder_ops :: "builder batch_ops" where
  "builder_ops = \<lparr>ops_addr = 2, ops_abi_version = 1, ops_struct_size = struct_sizeof PgBatchOps_layout,
     ops_get_datum_column = Some builder_get_column, ops_prepare_columns = None, ops_get_native_interface = None, ops_release = None\<rparr>"

definition builder_batch :: "builder \<Rightarrow> builder batch" where
  "builder_batch b = \<lparr>b_abi_version = 1, b_struct_size = struct_sizeof PgBatch_layout, b_selection = bu_selection b,
     b_table_oid = bu_table_oid b, b_ops = Some builder_ops, b_private = b, b_generation = 0\<rparr>"

definition words_for_rows :: "nat \<Rightarrow> nat" where
  "words_for_rows nrows = nrows div 64 + (if nrows mod 64 \<noteq> 0 then 1 else 0)"

definition builder_reset :: "builder \<Rightarrow> builder" where
  "builder_reset b = b\<lparr>bu_nrows := 0, bu_sealed := False,
     bu_selection := (bu_selection b)\<lparr>sel_nrows := 0, sel_nwords := 0\<rparr>, bu_table_oid := 0\<rparr>"

text \<open>Fresh memory is zero here; nothing is read before it is written.\<close>

definition builder_create :: "builder_config option \<Rightarrow> builder result" where
  "builder_create config =
     (case config of
        None \<Rightarrow> Inl (Elog ''pg_batch builder requires a memory context and tuple descriptor'')
      | Some c \<Rightarrow>
          (case bc_tuple_desc c of
             None \<Rightarrow> Inl (Elog ''pg_batch builder requires a memory context and tuple descriptor'')
           | Some desc \<Rightarrow>
               if bc_struct_size c < abi_size_through PgBatchBuilderConfig_layout ''capacity'' \<or> \<not> bc_parent_context c
               then Inl (Elog ''pg_batch builder requires a memory context and tuple descriptor'')
               else if bc_ncolumns c \<le> 0 \<or> bc_ncolumns c > int (length desc)
               then Inl (Elog ''invalid pg_batch builder column count'')
               else if bc_capacity c \<le> 0 then Inl (Elog ''invalid pg_batch builder capacity'')
               else
                 (let ncolumns = nat (bc_ncolumns c); capacity = nat (bc_capacity c); nvalues = ncolumns * capacity
                  in Inr (builder_reset \<lparr>bu_selection = \<lparr>sel_nrows = 0, sel_nwords = 0, sel_words = []\<rparr>, bu_table_oid = 0,
                       bu_tuple_desc = desc, bu_values = replicate nvalues 0, bu_isnull = replicate nvalues False,
                       bu_words = replicate (words_for_rows capacity) 0, bu_ncolumns = ncolumns, bu_capacity = capacity,
                       bu_nrows = 0, bu_has_byref = list_ex (\<lambda>column. \<not> att_byval (desc ! column)) [0..<ncolumns],
                       bu_sealed = False\<rparr>))))"

definition builder_is_full :: "builder \<Rightarrow> bool" where
  "builder_is_full b \<longleftrightarrow> bu_sealed b \<or> bu_nrows b = bu_capacity b"

definition put_value :: "nat \<Rightarrow> bool \<Rightarrow> datum \<Rightarrow> builder \<Rightarrow> builder" where
  "put_value offset null v b =
     b\<lparr>bu_isnull := (bu_isnull b)[offset := null], bu_values := (bu_values b)[offset := (if null then 0 else v)]\<rparr>"

definition builder_append_slot :: "(int \<Rightarrow> datum \<Rightarrow> datum) \<Rightarrow> slot \<Rightarrow> builder \<Rightarrow> builder result" where
  "builder_append_slot copy slot b =
     (let row = bu_nrows b
      in if bu_sealed b then Inl (Elog ''cannot append to a sealed pg_batch builder'')
         else if row \<ge> bu_capacity b then Inl (Elog ''pg_batch builder is full'')
         else if length slot < bu_ncolumns b then Inl (Elog ''pg_batch builder input has too few columns'')
         else if bu_ncolumns b = 1 \<and> \<not> bu_has_byref b
         then Inr ((put_value row (snd (slot ! 0)) (fst (slot ! 0)) b)\<lparr>bu_nrows := row + 1\<rparr>)
         else if \<not> bu_has_byref b
         then Inr ((fold (\<lambda>column b. put_value (column * bu_capacity b + row) (snd (slot ! column)) (fst (slot ! column)) b)
                [0..<bu_ncolumns b] b)\<lparr>bu_nrows := row + 1\<rparr>)
         else Inr ((fold (\<lambda>column b.
                  let attr = bu_tuple_desc b ! column; v = fst (slot ! column)
                  in put_value (column * bu_capacity b + row) (snd (slot ! column))
                       (if att_byval attr then v else copy (att_len attr) v) b)
                [0..<bu_ncolumns b] b)\<lparr>bu_nrows := row + 1\<rparr>))"

definition builder_finish :: "uint32 \<Rightarrow> builder \<Rightarrow> builder batch option \<times> builder" where
  "builder_finish table_oid b =
     (if bu_sealed b then (if bu_nrows b = 0 then None else Some (builder_batch b), b)
      else
        (let b = b\<lparr>bu_sealed := True\<rparr>
         in if bu_nrows b = 0 then (None, b)
            else
              (let nwords = words_for_rows (bu_nrows b);
                   words = fold (\<lambda>word ws. let remaining = int (bu_nrows b) - int word * 64
                       in ws[word := (if remaining \<ge> 64 then - 1 else drop_bit (nat (64 - remaining)) (- 1))])
                     [0..<nwords] (bu_words b);
                   b = b\<lparr>bu_words := words, bu_table_oid := table_oid,
                         bu_selection := \<lparr>sel_nrows = int (bu_nrows b), sel_nwords = int nwords, sel_words = take nwords words\<rparr>\<rparr>
               in (Some (builder_batch b), b))))"

section \<open>The pack node\<close>

text \<open>
  The child is the list of the slots it still returns.  Of the output binding the model keeps
  the request and whether the consumer has finished the published batch.
\<close>

record pack_state =
  pk_child :: "slot list"
  pk_builder :: builder
  pk_output_mode :: int
  pk_max_rows :: int
  pk_published :: bool
  pk_finished :: bool
  pk_packed_batches :: nat
  pk_packed_rows :: nat

definition pack_begin :: "attribute list \<Rightarrow> nat \<Rightarrow> int \<Rightarrow> int \<Rightarrow> slot list \<Rightarrow> pack_state result" where
  "pack_begin desc natts output_mode max_rows child =
     rbind (builder_create (Some \<lparr>bc_struct_size = struct_sizeof PgBatchBuilderConfig_layout, bc_parent_context = True,
         bc_tuple_desc = Some desc, bc_ncolumns = int natts, bc_capacity = 64\<rparr>)) (\<lambda>b.
     Inr \<lparr>pk_child = child, pk_builder = b, pk_output_mode = output_mode, pk_max_rows = max_rows, pk_published = False,
          pk_finished = False, pk_packed_batches = 0, pk_packed_rows = 0\<rparr>)"

definition pack_limit :: "int \<Rightarrow> nat" where
  "pack_limit max_rows = (if max_rows > 0 then min (nat max_rows) 64 else 64)"

fun fill_rows :: "(int \<Rightarrow> datum \<Rightarrow> datum) \<Rightarrow> nat \<Rightarrow> nat \<Rightarrow> slot list \<Rightarrow> builder \<Rightarrow> (slot list \<times> builder) result" where
  "fill_rows copy limit nrows [] b = Inr ([], b)"
| "fill_rows copy limit nrows (slot # child) b =
     (if nrows < limit \<and> \<not> builder_is_full b
      then rbind (builder_append_slot copy slot b) (fill_rows copy limit (nrows + 1) child)
      else Inr (slot # child, b))"

definition fill_batch :: "(int \<Rightarrow> datum \<Rightarrow> datum) \<Rightarrow> pack_state \<Rightarrow> (builder batch option \<times> pack_state) result" where
  "fill_batch copy st =
     rbind (fill_rows copy (pack_limit (pk_max_rows st)) 0 (pk_child st) (builder_reset (pk_builder st))) (\<lambda>(child, b).
     let (batch, b) = builder_finish 0 b in Inr (batch, st\<lparr>pk_child := child, pk_builder := b\<rparr>))"

definition pack_exec :: "(int \<Rightarrow> datum \<Rightarrow> datum) \<Rightarrow> pack_state \<Rightarrow> (builder batch option \<times> pack_state) result" where
  "pack_exec copy st =
     (if pk_output_mode st = PG_BATCH_OUTPUT_ROWS then Inl (Elog ''pg_batch pack requires a batch-aware parent'')
      else if pk_published st \<and> \<not> pk_finished st
      then Inl (Elog ''pg_batch parent requested a new packed batch too early'')
      else
        rbind (fill_batch copy (st\<lparr>pk_published := False\<rparr>)) (\<lambda>(batch, st).
        case batch of
          None \<Rightarrow> Inr (None, st)
        | Some b \<Rightarrow>
            Inr (Some b, st\<lparr>pk_published := True, pk_finished := False, pk_packed_batches := pk_packed_batches st + 1,
                 pk_packed_rows := pk_packed_rows st + nat (sel_nrows (b_selection b))\<rparr>)))"

definition pack_rescan :: "slot list \<Rightarrow> pack_state \<Rightarrow> pack_state" where
  "pack_rescan child st = st\<lparr>pk_child := child, pk_builder := builder_reset (pk_builder st), pk_published := False,
     pk_packed_batches := 0, pk_packed_rows := 0\<rparr>"

definition pack_end :: "pack_state \<Rightarrow> pack_state" where
  "pack_end st = st\<lparr>pk_builder := builder_reset (pk_builder st), pk_published := False\<rparr>"

text \<open>A consumer that takes every batch and finishes it.\<close>

partial_function (option) pack_all ::
  "(int \<Rightarrow> datum \<Rightarrow> datum) \<Rightarrow> pack_state \<Rightarrow> (builder batch list \<times> pack_state) result option" where
  "pack_all copy st =
     (case pack_exec copy st of
        Inl err \<Rightarrow> Some (Inl err)
      | Inr (None, st) \<Rightarrow> Some (Inr ([], st))
      | Inr (Some b, st) \<Rightarrow>
          Option.bind (pack_all copy (st\<lparr>pk_finished := True\<rparr>)) (\<lambda>res. Some (rbind res (\<lambda>(bs, st). Inr (b # bs, st)))))"

end
