(* ===== verification/Pack_Props.thy ===== *)
theory Pack_Props
  imports Builder Bridge_Props
begin

text \<open>
  The rows of a scalar child come out of the pack node as batches that the bridge accepts,
  complete and in their order.
\<close>

section \<open>Cells of the builder\<close>

lemma cell_eq_iff:
  assumes "r < cap" "r' < cap"
  shows "c * cap + r = c' * cap + r' \<longleftrightarrow> c = c' \<and> r = (r' :: nat)"
proof
  assume eq: "c * cap + r = c' * cap + r'"
  have "(c * cap + r) div cap = c" "(c' * cap + r') div cap = c'" using assms by simp_all
  with eq have "c = c'" by simp
  with eq show "c = c' \<and> r = r'" by simp
qed simp

lemma cell_in_range: "c < n \<Longrightarrow> r < cap \<Longrightarrow> c * cap + r < n * (cap :: nat)"
proof -
  assume "c < n" "r < cap"
  then have "c * cap + r < Suc c * cap" "Suc c * cap \<le> n * cap" by (simp, intro mult_le_mono1, simp)
  then show ?thesis by linarith
qed

lemma column_update_length [simp]: "length (fold (\<lambda>c xs. xs[c * cap + row := g c]) cs xs) = length xs"
  by (induction cs arbitrary: xs) simp_all

lemma column_update_nth:
  assumes "row < cap" "r < cap" "c < n" "length xs = n * cap" "k \<le> n"
  shows "fold (\<lambda>c xs. xs[c * cap + row := g c]) [0..<k] xs ! (c * cap + r) = (if r = row \<and> c < k then g c else xs ! (c * cap + r))"
  using assms(5)
proof (induction k)
  case (Suc k)
  have "k * cap + row < length xs" using cell_in_range [of k n row cap] Suc.prems assms(1,4) by simp
  then show ?case
    using Suc cell_eq_iff [OF assms(2,1), of c k] by (auto simp: nth_list_update less_Suc_eq)
qed simp

lemma put_fold:
  "fold (\<lambda>c b. put_value (c * bu_capacity b + row) (nl c) (w (bu_tuple_desc b) c) b) [0..<k] b =
     b\<lparr>bu_isnull := fold (\<lambda>c xs. xs[c * bu_capacity b + row := nl c]) [0..<k] (bu_isnull b),
       bu_values := fold (\<lambda>c xs. xs[c * bu_capacity b + row := (if nl c then 0 else w (bu_tuple_desc b) c)]) [0..<k] (bu_values b)\<rparr>"
  by (induction k) (simp_all add: put_value_def)

section \<open>The rows of a builder\<close>

definition packed_cell :: "(int \<Rightarrow> datum \<Rightarrow> datum) \<Rightarrow> attribute \<Rightarrow> datum \<times> bool \<Rightarrow> datum option" where
  "packed_cell copy attr cell = (if snd cell then None else Some (if att_byval attr then fst cell else copy (att_len attr) (fst cell)))"

definition packed_row :: "(int \<Rightarrow> datum \<Rightarrow> datum) \<Rightarrow> attribute list \<Rightarrow> nat \<Rightarrow> slot \<Rightarrow> datum option list" where
  "packed_row copy desc n slot = map (\<lambda>c. packed_cell copy (desc ! c) (slot ! c)) [0..<n]"

definition builder_holds :: "datum option list list \<Rightarrow> builder \<Rightarrow> bool" where
  "builder_holds rows b \<longleftrightarrow>
     bu_nrows b = length rows \<and> length rows \<le> bu_capacity b \<and> 0 < bu_capacity b \<and>
     length (bu_values b) = bu_ncolumns b * bu_capacity b \<and> length (bu_isnull b) = bu_ncolumns b * bu_capacity b \<and>
     length (bu_words b) = words_for_rows (bu_capacity b) \<and>
     (bu_has_byref b \<longleftrightarrow> (\<exists>c < bu_ncolumns b. \<not> att_byval (bu_tuple_desc b ! c))) \<and>
     (\<forall>r < length rows. \<forall>c < bu_ncolumns b.
        bu_isnull b ! (c * bu_capacity b + r) = (rows ! r ! c = None) \<and>
        (rows ! r ! c \<noteq> None \<longrightarrow> bu_values b ! (c * bu_capacity b + r) = the (rows ! r ! c)))"

definition same_builder :: "builder \<Rightarrow> builder \<Rightarrow> bool" where
  "same_builder b b' \<longleftrightarrow> bu_tuple_desc b' = bu_tuple_desc b \<and> bu_ncolumns b' = bu_ncolumns b \<and> bu_capacity b' = bu_capacity b"

definition stored_value :: "(int \<Rightarrow> datum \<Rightarrow> datum) \<Rightarrow> slot \<Rightarrow> attribute list \<Rightarrow> nat \<Rightarrow> datum" where
  "stored_value copy slot desc c = (if att_byval (desc ! c) then fst (slot ! c) else copy (att_len (desc ! c)) (fst (slot ! c)))"

lemma append_slot_stores:
  assumes "builder_holds rows b" "\<not> builder_is_full b" "bu_ncolumns b \<le> length slot" "0 < bu_ncolumns b"
  shows "builder_append_slot copy slot b = Inr (b\<lparr>
    bu_isnull := fold (\<lambda>c xs. xs[c * bu_capacity b + bu_nrows b := snd (slot ! c)]) [0..<bu_ncolumns b] (bu_isnull b),
    bu_values := fold (\<lambda>c xs. xs[c * bu_capacity b + bu_nrows b := (if snd (slot ! c) then 0 else stored_value copy slot (bu_tuple_desc b) c)])
      [0..<bu_ncolumns b] (bu_values b),
    bu_nrows := bu_nrows b + 1\<rparr>)"
proof -
  note third = put_fold [where nl = "\<lambda>c. snd (slot ! c)" and w = "stored_value copy slot" and k = "bu_ncolumns b" and b = b and row = "bu_nrows b"]
  note second = put_fold [where nl = "\<lambda>c. snd (slot ! c)" and w = "\<lambda>_ c. fst (slot ! c)" and k = "bu_ncolumns b" and b = b and row = "bu_nrows b"]
  have plain: "fold (\<lambda>c xs. xs[c * bu_capacity b + bu_nrows b := (if snd (slot ! c) then 0 else fst (slot ! c))]) [0..<bu_ncolumns b] xs =
      fold (\<lambda>c xs. xs[c * bu_capacity b + bu_nrows b := (if snd (slot ! c) then 0 else stored_value copy slot (bu_tuple_desc b) c)]) [0..<bu_ncolumns b] xs"
    if "\<not> bu_has_byref b" for xs
    using that assms(1) by (intro fold_cong) (auto simp: builder_holds_def stored_value_def)
  have open_: "\<not> bu_sealed b" "\<not> bu_capacity b \<le> bu_nrows b" "\<not> length slot < bu_ncolumns b"
    using assms(1-3) by (auto simp: builder_is_full_def builder_holds_def)
  consider "bu_has_byref b" | "\<not> bu_has_byref b" "bu_ncolumns b = 1" | "\<not> bu_has_byref b" "bu_ncolumns b \<noteq> 1" by blast
  then show ?thesis
  proof cases
    case 1
    then show ?thesis using open_ third by (simp add: builder_append_slot_def Let_def stored_value_def)
  next
    case 2
    then show ?thesis using open_ plain [OF 2(1)] by (simp add: builder_append_slot_def Let_def put_value_def)
  next
    case 3
    then show ?thesis using open_ second plain [OF 3(1)] by (simp add: builder_append_slot_def Let_def)
  qed
qed

lemma append_slot_ok:
  assumes b: "builder_holds rows b" "\<not> builder_is_full b" "bu_ncolumns b \<le> length slot" "0 < bu_ncolumns b"
  obtains b' where "builder_append_slot copy slot b = Inr b'" "builder_holds (rows @ [packed_row copy (bu_tuple_desc b) (bu_ncolumns b) slot]) b'"
    "same_builder b b'" "bu_sealed b' = bu_sealed b"
proof
  let ?n = "bu_ncolumns b" and ?cap = "bu_capacity b" and ?row = "bu_nrows b"
  let ?isnull = "fold (\<lambda>c xs. xs[c * ?cap + ?row := snd (slot ! c)]) [0..<?n] (bu_isnull b)"
  let ?vals = "fold (\<lambda>c xs. xs[c * ?cap + ?row := (if snd (slot ! c) then 0 else stored_value copy slot (bu_tuple_desc b) c)]) [0..<?n] (bu_values b)"
  let ?b = "b\<lparr>bu_isnull := ?isnull, bu_values := ?vals, bu_nrows := ?row + 1\<rparr>"
  let ?new = "packed_row copy (bu_tuple_desc b) ?n slot"
  show "builder_append_slot copy slot b = Inr ?b" by (rule append_slot_stores [OF assms])
  show "same_builder b ?b" "bu_sealed ?b = bu_sealed b" by (simp_all add: same_builder_def)
  have room: "?row < ?cap" using b(1,2) by (auto simp: builder_holds_def builder_is_full_def)
  have len: "length (bu_isnull b) = ?n * ?cap" "length (bu_values b) = ?n * ?cap" "?row = length rows"
    using b(1) by (simp_all add: builder_holds_def)
  have cells: "?isnull ! (c * ?cap + r) = ((rows @ [?new]) ! r ! c = None) \<and>
      ((rows @ [?new]) ! r ! c \<noteq> None \<longrightarrow> ?vals ! (c * ?cap + r) = the ((rows @ [?new]) ! r ! c))"
    if "r < length (rows @ [?new])" "c < ?n" for r c
  proof -
    have r: "r < ?cap" using that room len(3) by simp
    note upd = column_update_nth [OF room r that(2) len(1) order_refl, where g = "\<lambda>c. snd (slot ! c)"]
      column_update_nth [OF room r that(2) len(2) order_refl, where g = "\<lambda>c. if snd (slot ! c) then 0 else stored_value copy slot (bu_tuple_desc b) c"]
    show ?thesis
    proof (cases "r = ?row")
      case True
      then show ?thesis using that(2) len(3) unfolding upd by (simp add: nth_append packed_row_def packed_cell_def stored_value_def)
    next
      case False
      then have "r < length rows" using that(1) len(3) by simp
      then show ?thesis using False b(1) that(2) unfolding upd by (simp add: nth_append builder_holds_def)
    qed
  qed
  show "builder_holds (rows @ [?new]) ?b"
    unfolding builder_holds_def
  proof (intro conjI allI impI)
    fix r c assume "r < length (rows @ [?new])" "c < bu_ncolumns ?b"
    then show "bu_isnull ?b ! (c * bu_capacity ?b + r) = ((rows @ [?new]) ! r ! c = None)"
      "(rows @ [?new]) ! r ! c \<noteq> None \<Longrightarrow> bu_values ?b ! (c * bu_capacity ?b + r) = the ((rows @ [?new]) ! r ! c)"
      using cells by simp_all
  qed (use b(1) room len in \<open>simp_all add: builder_holds_def\<close>)
qed

section \<open>Sealing\<close>

lemma words_for_rows_eq: "int (words_for_rows n) = (int n + 63) div 64"
proof -
  define q r where "q = n div 64" and "r = n mod 64"
  then have n: "n = q * 64 + r" "r < 64" by (simp_all add: div_mult_mod_eq)
  have "(r + 63) div 64 = (if r \<noteq> 0 then 1 else 0)" using n(2) by (auto intro: div_nat_eqI)
  then have "(n + 63) div 64 = q + (if r \<noteq> 0 then 1 else 0)" unfolding n(1) by (simp add: add.assoc)
  then have "words_for_rows n = (n + 63) div 64" using n by (simp add: words_for_rows_def)
  then show ?thesis by (simp add: zdiv_int)
qed

lemma words_for_rows_mono: "m \<le> n \<Longrightarrow> words_for_rows m \<le> words_for_rows n"
proof -
  assume "m \<le> n"
  then have "int (words_for_rows m) \<le> int (words_for_rows n)" unfolding words_for_rows_eq by (intro zdiv_mono1) simp_all
  then show ?thesis by simp
qed

lemma full_word_bit:
  assumes "i < 64"
  shows "bit (if int n - int k * 64 \<ge> 64 then - 1 else drop_bit (nat (64 - (int n - int k * 64))) (- 1) :: uint64) i \<longleftrightarrow> 64 * k + i < n"
proof (cases "int n - int k * 64 \<ge> 64")
  case True
  then show ?thesis using assms by (simp add: bit_minus_1_iff)
next
  case False
  have "bit (drop_bit m (- 1 :: uint64)) i \<longleftrightarrow> m + i < 64" for m by (auto simp: bit_mask_iff)
  moreover have "nat (64 - (int n - int k * 64)) + i < 64 \<longleftrightarrow> 64 * k + i < n" using False assms by linarith
  ultimately show ?thesis using False by simp
qed

lemma all_rows_selection:
  assumes words: "\<And>k. k < words_for_rows n \<Longrightarrow> ws ! k = (if int n - int k * 64 \<ge> 64 then - 1 else drop_bit (nat (64 - (int n - int k * 64))) (- 1))"
    and len: "words_for_rows n \<le> length ws"
  defines "s \<equiv> \<lparr>sel_nrows = int n, sel_nwords = int (words_for_rows n), sel_words = take (words_for_rows n) ws\<rparr>"
  shows "sel_wf s" "selected s = [0..<n]"
proof -
  have bit: "bit (sel_words s ! k) i \<longleftrightarrow> 64 * k + i < n" if "k < words_for_rows n" "i < 64" for k i
    using words [OF that(1)] full_word_bit [OF that(2), of n k] that(1) by (simp add: s_def)
  have "nat ((int n + 63) div 64) = words_for_rows n" by (metis nat_int words_for_rows_eq)
  then show "sel_wf s" using bit len by (auto simp: sel_wf_def s_def words_for_rows_eq)
  have "sel_bit s r" if "r < n" for r
  proof -
    have "int (r div 64) < int (words_for_rows n)" unfolding words_for_rows_eq zdiv_int using that by simp
    then show ?thesis using bit [of "r div 64" "r mod 64"] that by (simp add: sel_bit_def)
  qed
  then show "selected s = [0..<n]" by (simp add: selected_def s_def)
qed

lemma finish_ok:
  assumes b: "builder_holds rows b" "\<not> bu_sealed b" "rows \<noteq> []"
  obtains b' where "builder_finish oid b = (Some (builder_batch b'), b')" "builder_holds rows b'" "same_builder b b'"
    "sel_wf (bu_selection b')" "selected (bu_selection b') = [0..<length rows]" "sel_nrows (bu_selection b') = int (length rows)"
proof
  let ?n = "length rows"
  let ?f = "\<lambda>k. if int ?n - int k * 64 \<ge> 64 then - 1 else drop_bit (nat (64 - (int ?n - int k * 64))) (- 1) :: uint64"
  let ?ws = "fold (\<lambda>k ws. ws[k := ?f k]) [0..<words_for_rows ?n] (bu_words b)"
  let ?s = "\<lparr>sel_nrows = int ?n, sel_nwords = int (words_for_rows ?n), sel_words = take (words_for_rows ?n) ?ws\<rparr>"
  let ?b = "b\<lparr>bu_sealed := True, bu_words := ?ws, bu_table_oid := oid, bu_selection := ?s\<rparr>"
  have n: "bu_nrows b = ?n" "words_for_rows ?n \<le> length (bu_words b)"
    using b(1) words_for_rows_mono by (simp_all add: builder_holds_def)
  show "builder_finish oid b = (Some (builder_batch ?b), ?b)"
    using b(2,3) n(1) by (simp add: builder_finish_def Let_def)
  note ws = fold_update_nth [where f = "\<lambda>k _. ?f k", OF n(2)]
  have each: "?ws ! k = ?f k" if "k < words_for_rows ?n" for k using ws(2) [of k] that n(2) by simp
  have "words_for_rows ?n \<le> length ?ws" using ws(1) n(2) by simp
  note s = all_rows_selection [where ws = ?ws and n = ?n, OF each this]
  have sel: "bu_selection ?b = ?s" by simp
  show "sel_wf (bu_selection ?b)" "selected (bu_selection ?b) = [0..<?n]" unfolding sel using s by blast+
  show "builder_holds rows ?b" using b(1) ws(1) by (simp add: builder_holds_def)
qed (simp_all add: same_builder_def)

section \<open>Reading the batch\<close>

definition read_cell :: "'p batch \<Rightarrow> nat \<Rightarrow> nat \<Rightarrow> datum option option" where
  "read_cell b column row =
     (case batch_get_datum_column b (int column) (b_selection b) PG_BATCH_COLUMN_PROJECT of
        Inr (_, dv) \<Rightarrow> (case (dv_values dv, dv_isnull dv) of
            (Some vs, Some ns) \<Rightarrow> Some (if ns ! row then None else Some (vs ! row)) | _ \<Rightarrow> None)
      | Inl _ \<Rightarrow> None)"

text \<open>The selected rows of a batch, read column by column.\<close>

definition read_rows :: "nat \<Rightarrow> 'p batch \<Rightarrow> datum option option list list" where
  "read_rows ncolumns b = map (\<lambda>row. map (\<lambda>column. read_cell b column row) [0..<ncolumns]) (selected (b_selection b))"

lemma read_builder_rows:
  assumes "builder_holds rows b" "selected (bu_selection b) = [0..<length rows]" "\<forall>row \<in> set rows. length row = bu_ncolumns b"
  shows "read_rows (bu_ncolumns b) (builder_batch b) = map (map Some) rows"
proof (rule nth_equalityI)
  show "length (read_rows (bu_ncolumns b) (builder_batch b)) = length (map (map Some) rows)"
    using assms(2) by (simp add: read_rows_def builder_batch_def)
  have size: "abi_size_through PgBatchDatumVector_layout ''nrows'' \<le> struct_sizeof PgBatchDatumVector_layout" by code_simp
  fix r assume "r < length (read_rows (bu_ncolumns b) (builder_batch b))"
  then have r: "r < length rows" using assms(2) by (simp add: read_rows_def builder_batch_def)
  have cell: "read_cell (builder_batch b) c r = Some (rows ! r ! c)" if "c < bu_ncolumns b" for c
  proof -
    have in_: "c * bu_capacity b \<le> length (bu_values b)" "c * bu_capacity b \<le> length (bu_isnull b)"
      using assms(1) that by (simp_all add: builder_holds_def)
    have rc: "read_cell (builder_batch b) c r =
        Some (if bu_isnull b ! (c * bu_capacity b + r) then None else Some (bu_values b ! (c * bu_capacity b + r)))"
      using that size in_ by (simp add: read_cell_def batch_get_datum_column_def builder_batch_def builder_ops_def
        builder_get_column_def check_datum_vector_def rbind_require require_def)
    have "\<forall>r < length rows. \<forall>c < bu_ncolumns b.
        bu_isnull b ! (c * bu_capacity b + r) = (rows ! r ! c = None) \<and>
        (rows ! r ! c \<noteq> None \<longrightarrow> bu_values b ! (c * bu_capacity b + r) = the (rows ! r ! c))"
      using assms(1) unfolding builder_holds_def by (elim conjE)
    from this [rule_format, OF r that] show ?thesis unfolding rc by (cases "rows ! r ! c") simp_all
  qed
  have "selected (b_selection (builder_batch b)) = [0..<length rows]" using assms(2) by (simp add: builder_batch_def)
  then have "read_rows (bu_ncolumns b) (builder_batch b) ! r = map (\<lambda>c. read_cell (builder_batch b) c r) [0..<bu_ncolumns b]"
    using r by (simp add: read_rows_def)
  also have "\<dots> = map (\<lambda>c. Some (rows ! r ! c)) [0..<length (rows ! r)]" using assms(3) r cell by (intro map_cong) simp_all
  also have "\<dots> = map Some (map ((!) (rows ! r)) [0..<length (rows ! r)])" by simp
  also have "\<dots> = map (map Some) rows ! r" unfolding map_nth using r by simp
  finally show "read_rows (bu_ncolumns b) (builder_batch b) ! r = map (map Some) rows ! r" .
qed

section \<open>The pack node\<close>

lemma fill_rows_ok:
  assumes "builder_holds rows b" "\<not> bu_sealed b" "0 < bu_ncolumns b" "\<forall>slot \<in> set child. bu_ncolumns b \<le> length slot"
    and "length rows \<le> limit" "limit \<le> bu_capacity b"
  shows "\<exists>taken rest b'. child = taken @ rest \<and> fill_rows copy limit (length rows) child b = Inr (rest, b') \<and>
    builder_holds (rows @ map (packed_row copy (bu_tuple_desc b) (bu_ncolumns b)) taken) b' \<and> same_builder b b' \<and> \<not> bu_sealed b' \<and>
    length rows + length taken \<le> limit \<and> (rest \<noteq> [] \<longrightarrow> length rows + length taken = limit)"
  using assms
proof (induction child arbitrary: rows b)
  case Nil
  then show ?case by (intro exI [of _ "[]"] exI [of _ b]) (simp add: same_builder_def)
next
  case (Cons slot child)
  have n: "bu_nrows b = length rows" using Cons.prems(1) by (simp add: builder_holds_def)
  show ?case
  proof (cases "length rows < limit")
    case True
    then have open_: "\<not> builder_is_full b" using Cons.prems(2,6) n by (simp add: builder_is_full_def)
    obtain b1 where b1: "builder_append_slot copy slot b = Inr b1" "builder_holds (rows @ [packed_row copy (bu_tuple_desc b) (bu_ncolumns b) slot]) b1"
      "same_builder b b1" "bu_sealed b1 = bu_sealed b"
      by (rule append_slot_ok [OF Cons.prems(1) open_ _ Cons.prems(3)]) (use Cons.prems(4) in auto)
    obtain taken rest b' where IH: "child = taken @ rest" "fill_rows copy limit (Suc (length rows)) child b1 = Inr (rest, b')"
      "builder_holds ((rows @ [packed_row copy (bu_tuple_desc b) (bu_ncolumns b) slot]) @ map (packed_row copy (bu_tuple_desc b) (bu_ncolumns b)) taken) b'"
      "same_builder b1 b'" "\<not> bu_sealed b'" "Suc (length rows) + length taken \<le> limit" "rest \<noteq> [] \<longrightarrow> Suc (length rows) + length taken = limit"
      using Cons.IH [OF b1(2)] b1(3,4) Cons.prems True by (auto simp: same_builder_def)
    show ?thesis
      by (rule exI [of _ "slot # taken"], rule exI [of _ rest], rule exI [of _ b'])
        (use IH b1 True open_ in \<open>simp add: same_builder_def\<close>)
  next
    case False
    then show ?thesis using Cons.prems
      by (intro exI [of _ "[]"] exI [of _ "slot # child"] exI [of _ b]) (simp add: same_builder_def)
  qed
qed

definition pack_ok :: "attribute list \<Rightarrow> nat \<Rightarrow> pack_state \<Rightarrow> bool" where
  "pack_ok desc n st \<longleftrightarrow> builder_holds [] (builder_reset (pk_builder st)) \<and> bu_tuple_desc (pk_builder st) = desc \<and>
     bu_ncolumns (pk_builder st) = n \<and> 0 < n \<and> bu_capacity (pk_builder st) = 64 \<and> (\<forall>slot \<in> set (pk_child st). n \<le> length slot)"

lemma holds_reset: "builder_holds rows b \<Longrightarrow> builder_holds [] (builder_reset b)"
  by (simp add: builder_holds_def builder_reset_def)

lemma pack_limit_bounds: "0 < pack_limit m" "pack_limit m \<le> 64" "0 < m \<Longrightarrow> int (pack_limit m) \<le> m"
  by (auto simp: pack_limit_def)

definition pack_batch_ok :: "nat \<Rightarrow> int \<Rightarrow> builder batch \<Rightarrow> bool" where
  "pack_batch_ok n max_rows b \<longleftrightarrow> sel_wf (b_selection b) \<and> 0 < sel_nrows (b_selection b) \<and>
     sel_nrows (b_selection b) \<le> int (pack_limit max_rows) \<and> length (selected (b_selection b)) = nat (sel_nrows (b_selection b)) \<and>
     (\<exists>d. b = builder_batch d \<and> bu_ncolumns d = n \<and> length (bu_values d) = n * bu_capacity d \<and> length (bu_isnull d) = n * bu_capacity d)"

lemma fill_batch_ok:
  assumes "pack_ok desc n st"
  obtains (empty) st' where "pk_child st = []" "fill_batch copy st = Inr (None, st')"
      "st' = st\<lparr>pk_builder := pk_builder st'\<rparr>"
    | (filled) taken rest b st' where "pk_child st = taken @ rest" "taken \<noteq> []" "fill_batch copy st = Inr (Some b, st')"
      "st' = st\<lparr>pk_child := rest, pk_builder := pk_builder st'\<rparr>" "pack_ok desc n st'" "pack_batch_ok n (pk_max_rows st) b"
      "read_rows n b = map (map Some \<circ> packed_row copy desc n) taken" "nat (sel_nrows (b_selection b)) = length taken"
proof -
  let ?b0 = "builder_reset (pk_builder st)" and ?limit = "pack_limit (pk_max_rows st)"
  have b0: "builder_holds [] ?b0" "bu_tuple_desc ?b0 = desc" "bu_ncolumns ?b0 = n" "\<not> bu_sealed ?b0" "bu_capacity ?b0 = 64" "0 < n"
    using assms by (simp_all add: pack_ok_def builder_reset_def)
  have "\<forall>slot \<in> set (pk_child st). bu_ncolumns ?b0 \<le> length slot" "?limit \<le> bu_capacity ?b0"
    using assms b0(3,5) pack_limit_bounds(2) by (simp_all add: pack_ok_def)
  note fill_rows_ok [OF b0(1,4) _ this(1) _ this(2), of copy, unfolded b0(2,3)]
  then obtain taken rest b1 where f: "pk_child st = taken @ rest" "fill_rows copy ?limit 0 (pk_child st) ?b0 = Inr (rest, b1)"
    "builder_holds (map (packed_row copy desc n) taken) b1" "same_builder ?b0 b1" "\<not> bu_sealed b1" "length taken \<le> ?limit"
    "rest \<noteq> [] \<longrightarrow> length taken = ?limit"
    using b0(6) unfolding append_Nil list.size add_0 by blast
  show thesis
  proof (cases "taken = []")
    case True
    then have "rest = []" using f(7) pack_limit_bounds(1) [of "pk_max_rows st"] by auto
    then have "fill_batch copy st = Inr (None, st\<lparr>pk_child := [], pk_builder := b1\<lparr>bu_sealed := True\<rparr>\<rparr>)"
      using f True by (simp add: fill_batch_def builder_finish_def builder_holds_def)
    then show thesis using f(1) True \<open>rest = []\<close> by (intro empty [of "st\<lparr>pk_builder := b1\<lparr>bu_sealed := True\<rparr>\<rparr>"]) simp_all
  next
    case False
    let ?rows = "map (packed_row copy desc n) taken"
    obtain b where b: "builder_finish 0 b1 = (Some (builder_batch b), b)" "builder_holds ?rows b" "same_builder b1 b"
      "sel_wf (bu_selection b)" "selected (bu_selection b) = [0..<length ?rows]" "sel_nrows (bu_selection b) = int (length ?rows)"
      by (rule finish_ok [OF f(3,5)]) (use False in auto)
    have nb: "bu_ncolumns b = n" using b(3) f(4) b0 by (simp add: same_builder_def)
    have "\<forall>row \<in> set ?rows. length row = bu_ncolumns b" by (auto simp: packed_row_def nb)
    from read_builder_rows [OF b(2,5) this] have "read_rows n (builder_batch b) = map (map Some) ?rows" unfolding nb .
    moreover have "pack_ok desc n (st\<lparr>pk_child := rest, pk_builder := b\<rparr>)"
      using assms f(1,4) b(2,3) b0 holds_reset by (auto simp: pack_ok_def same_builder_def)
    moreover have "pack_batch_ok n (pk_max_rows st) (builder_batch b)"
      using b(2,4-6) f(6) False nb by (auto simp: pack_batch_ok_def builder_batch_def builder_holds_def)
    ultimately show thesis
      using f(1,2) b(1,6) False by (intro filled [of taken rest "builder_batch b" "st\<lparr>pk_child := rest, pk_builder := b\<rparr>"])
        (simp_all add: fill_batch_def builder_batch_def)
  qed
qed

lemma pack_all_ok:
  assumes "pack_ok desc n st" "pk_output_mode st \<noteq> PG_BATCH_OUTPUT_ROWS" "pk_published st \<longrightarrow> pk_finished st"
  shows "\<exists>bs st'. pack_all copy st = Some (Inr (bs, st')) \<and> (\<forall>b \<in> set bs. pack_batch_ok n (pk_max_rows st) b) \<and>
    concat (map (read_rows n) bs) = map (map Some \<circ> packed_row copy desc n) (pk_child st) \<and>
    pk_packed_rows st' = pk_packed_rows st + length (pk_child st) \<and> pk_packed_batches st' = pk_packed_batches st + length bs"
  using assms
proof (induction "length (pk_child st)" arbitrary: st rule: less_induct)
  case less
  let ?st = "st\<lparr>pk_published := False\<rparr>"
  have ok: "pack_ok desc n ?st" using less.prems(1) by (simp add: pack_ok_def)
  have exec: "pack_exec copy st = rbind (fill_batch copy ?st) (\<lambda>(batch, st). case batch of None \<Rightarrow> Inr (None, st)
      | Some b \<Rightarrow> Inr (Some b, st\<lparr>pk_published := True, pk_finished := False, pk_packed_batches := pk_packed_batches st + 1,
          pk_packed_rows := pk_packed_rows st + nat (sel_nrows (b_selection b))\<rparr>))"
    using less.prems(2,3) by (auto simp: pack_exec_def)
  show ?case
  proof (rule fill_batch_ok [OF ok, of copy])
    fix st' assume d: "pk_child ?st = []" "fill_batch copy ?st = Inr (None, st')" "st' = ?st\<lparr>pk_builder := pk_builder st'\<rparr>"
    have "pack_all copy st = Some (Inr ([], st'))" using exec d(2) by (simp add: pack_all.simps)
    moreover have "pk_packed_rows st' = pk_packed_rows st" "pk_packed_batches st' = pk_packed_batches st" by (subst d(3), simp)+
    ultimately show ?thesis using d(1) by simp
  next
    fix taken rest b st1
    assume m: "pk_child ?st = taken @ rest" "taken \<noteq> []" "fill_batch copy ?st = Inr (Some b, st1)"
      "st1 = ?st\<lparr>pk_child := rest, pk_builder := pk_builder st1\<rparr>" "pack_ok desc n st1" "pack_batch_ok n (pk_max_rows ?st) b"
      "read_rows n b = map (map Some \<circ> packed_row copy desc n) taken" "nat (sel_nrows (b_selection b)) = length taken"
    let ?next = "st1\<lparr>pk_published := True, pk_packed_batches := pk_packed_batches st1 + 1,
        pk_packed_rows := pk_packed_rows st1 + length taken, pk_finished := True\<rparr>"
    have keep: "pk_packed_rows st1 = pk_packed_rows st" "pk_packed_batches st1 = pk_packed_batches st" "pk_child st1 = rest"
      "pk_max_rows st1 = pk_max_rows st" "pk_output_mode st1 = pk_output_mode st" by (subst m(4), simp)+
    have all: "pack_all copy st = Option.bind (pack_all copy ?next) (\<lambda>res. Some (rbind res (\<lambda>(bs, st). Inr (b # bs, st))))"
      using exec m(3,8) by (simp add: pack_all.simps [of copy st])
    have "pack_ok desc n ?next" using m(5) by (simp add: pack_ok_def)
    moreover have "length (pk_child ?next) < length (pk_child st)" using m(1,2) keep(3) by simp
    ultimately obtain bs st' where IH: "pack_all copy ?next = Some (Inr (bs, st'))" "\<forall>b \<in> set bs. pack_batch_ok n (pk_max_rows st) b"
      "concat (map (read_rows n) bs) = map (map Some \<circ> packed_row copy desc n) rest"
      "pk_packed_rows st' = pk_packed_rows st + length taken + length rest" "pk_packed_batches st' = pk_packed_batches st + 1 + length bs"
      using less.hyps [of ?next] keep less.prems(2) by auto
    show ?thesis using IH m(1,6,7) all by (intro exI [of _ "b # bs"] exI [of _ st']) simp
  qed
qed

lemma pack_begin_ok:
  assumes "0 < natts" "natts \<le> length desc" "\<forall>slot \<in> set child. natts \<le> length slot"
  obtains st where "pack_begin desc natts output_mode max_rows child = Inr st" "pack_ok desc natts st" "pk_child st = child"
    "pk_output_mode st = output_mode" "pk_max_rows st = max_rows" "\<not> pk_published st" "pk_packed_rows st = 0" "pk_packed_batches st = 0"
proof -
  have size: "abi_size_through PgBatchBuilderConfig_layout ''capacity'' \<le> struct_sizeof PgBatchBuilderConfig_layout" by code_simp
  have "list_ex (\<lambda>c. \<not> att_byval (desc ! c)) [0..<natts] \<longleftrightarrow> (\<exists>c < natts. \<not> att_byval (desc ! c))" by (auto simp: list_ex_iff Bex_def)
  then show thesis using that assms size
    by (simp add: pack_begin_def builder_create_def pack_ok_def builder_holds_def builder_reset_def Let_def)
qed

lemma packed_batch_published:
  assumes "pack_batch_ok n max_rows b" "rs_max_rows (bd_request bd) = max_rows"
  shows "publish_check bd b = Inr ()"
proof -
  obtain d where d: "b = builder_batch d" "sel_wf (bu_selection d)" "0 < sel_nrows (bu_selection d)"
    "sel_nrows (bu_selection d) \<le> int (pack_limit max_rows)"
    using assms(1) by (auto simp: pack_batch_ok_def builder_batch_def)
  have size: "64 \<le> struct_sizeof PgBatch_layout" by code_simp
  have "sel_nrows (bu_selection d) \<le> max_rows" if "\<not> max_rows \<le> 0" using d(4) pack_limit_bounds(3) [of max_rows] that by linarith
  then show ?thesis
    using d(1-3) assms(2) size publish_check_iff [of b bd]
    by (auto simp: builder_batch_def sel_wf_length)
qed

text \<open>
  C19. A pack node over any child with enough columns starts, and asked for batches until it
  has none it ends without an error.  Reading the batches it publishes, column by column, gives
  the rows of the child in their order, NULLs included, with the values that are not passed by
  value copied; each batch passes the bridge's checks, has at least one row and all its rows
  selected, and at most 64 rows and as many as the parent asked for; the counters agree.
\<close>

theorem pack_node_correct:
  assumes "0 < natts" "natts \<le> length desc" "\<forall>slot \<in> set child. natts \<le> length slot" "output_mode \<noteq> PG_BATCH_OUTPUT_ROWS"
    and "rs_max_rows (bd_request bd) = max_rows"
  shows "\<exists>st bs st'. pack_begin desc natts output_mode max_rows child = Inr st \<and> pack_all copy st = Some (Inr (bs, st')) \<and>
    concat (map (read_rows natts) bs) = map (map Some \<circ> packed_row copy desc natts) child \<and>
    list_all (\<lambda>b. publish_check bd b = Inr () \<and> selected (b_selection b) \<noteq> [] \<and>
      length (selected (b_selection b)) = nat (sel_nrows (b_selection b)) \<and> sel_nrows (b_selection b) \<le> 64) bs \<and>
    pk_packed_rows st' = length child \<and> pk_packed_batches st' = length bs"
proof -
  obtain st where st: "pack_begin desc natts output_mode max_rows child = Inr st" "pack_ok desc natts st" "pk_child st = child"
    "pk_output_mode st = output_mode" "pk_max_rows st = max_rows" "\<not> pk_published st" "pk_packed_rows st = 0" "pk_packed_batches st = 0"
    by (rule pack_begin_ok [OF assms(1-3)])
  obtain bs st' where r: "pack_all copy st = Some (Inr (bs, st'))" "\<forall>b \<in> set bs. pack_batch_ok natts max_rows b"
    "concat (map (read_rows natts) bs) = map (map Some \<circ> packed_row copy desc natts) child"
    "pk_packed_rows st' = length child" "pk_packed_batches st' = length bs"
    using pack_all_ok [OF st(2), of copy] assms(4) st by auto
  have "publish_check bd b = Inr () \<and> selected (b_selection b) \<noteq> [] \<and>
      length (selected (b_selection b)) = nat (sel_nrows (b_selection b)) \<and> sel_nrows (b_selection b) \<le> 64" if "b \<in> set bs" for b
  proof -
    have ok: "pack_batch_ok natts max_rows b" using r(2) that by blast
    then have "length (selected (b_selection b)) = nat (sel_nrows (b_selection b))" "0 < sel_nrows (b_selection b)"
      "sel_nrows (b_selection b) \<le> int (pack_limit max_rows)" by (simp_all add: pack_batch_ok_def)
    moreover from this have "selected (b_selection b) \<noteq> []" by auto
    ultimately show ?thesis using packed_batch_published [OF ok assms(5)] pack_limit_bounds(2) [of max_rows] by simp
  qed
  then show ?thesis using st(1) r by (auto simp: list_all_iff)
qed

definition example_desc :: "attribute list" where
  "example_desc = [\<lparr>att_byval = True, att_len = 4\<rparr>, \<lparr>att_byval = False, att_len = - 1\<rparr>]"

definition example_child :: "slot list" where
  "example_child = [[(5, False), (0, True)], [(0, True), (9, False)], [(7, False), (8, False)]]"

definition example_pack_binding :: "(builder, unit) binding" where
  "example_pack_binding = \<lparr>bd_slot = 3, bd_request = \<lparr>rs_struct_size = 32, rs_filter_columns = {}, rs_project_columns = {}, rs_output_mode = 1, rs_max_rows = 2\<rparr>,
     bd_layout = \<lparr>lay_struct_size = 24, lay_ncolumns = 2, lay_ntargets = 2, lay_target_columns = None\<rparr>,
     bd_consumer_ops = \<lparr>co_abi_version = 1, co_struct_size = 32, co_accept_batch = None, co_select_row = None\<rparr>, bd_consumer_state = (),
     bd_source_name = None, bd_source_state = None, bd_batch = None, bd_validated_ops = None, bd_request_sealed = False, bd_finished = False\<rparr>"

theorem pack_node_correct_witness:
  "\<exists>st bs st'. pack_begin example_desc 2 PG_BATCH_OUTPUT_BATCH 2 example_child = Inr st \<and> pack_all (\<lambda>_ d. d + 1000) st = Some (Inr (bs, st')) \<and>
     concat (map (read_rows 2) bs) = [[Some (Some 5), Some None], [Some None, Some (Some 1009)], [Some (Some 7), Some (Some 1008)]] \<and>
     pk_packed_rows st' = 3"
proof -
  have rows: "map (map Some \<circ> packed_row (\<lambda>_ d. d + 1000) example_desc 2) example_child =
      [[Some (Some 5), Some None], [Some None, Some (Some 1009)], [Some (Some 7), Some (Some 1008)]]" by code_simp
  have "length example_child = 3" "length example_desc = 2" "\<forall>slot \<in> set example_child. 2 \<le> length slot" by code_simp+
  then show ?thesis
    using pack_node_correct [where natts = 2 and desc = example_desc and child = example_child and output_mode = 1 and max_rows = 2
        and bd = example_pack_binding and copy = "\<lambda>_ d. d + 1000"]
    unfolding rows by (auto simp: example_pack_binding_def)
qed

end
