(* ===== verification/Unary_Props.thy ===== *)
theory Unary_Props
  imports Unary_Correct Pack_Props
begin

text \<open>
  LIMIT and the filter are processes over the stream of rows, and the batches of the builder
  are a source of datums; together: what these nodes return over a packed child.
\<close>

section \<open>Walking a selection\<close>

definition rows_before :: "selection \<Rightarrow> int \<Rightarrow> nat list" where
  "rows_before s previous = filter (\<lambda>r. r < nat (previous + 1)) (selected s)"

definition rows_after :: "selection \<Rightarrow> int \<Rightarrow> nat list" where
  "rows_after s previous = filter (\<lambda>r. nat (previous + 1) \<le> r) (selected s)"

lemma sorted_split: "sorted_wrt (<) xs \<Longrightarrow> filter (\<lambda>r. r < k) xs @ filter (\<lambda>r. k \<le> r) xs = (xs :: nat list)"
proof (induction xs)
  case (Cons x xs)
  show ?case
  proof (cases "x < k")
    case False
    then have "filter (\<lambda>r. r < k) xs = []" "filter (\<lambda>r. k \<le> r) xs = xs" using Cons.prems by (auto simp: filter_empty_conv filter_id_conv)
    then show ?thesis using False by simp
  qed (use Cons in simp)
qed simp

lemma selected_split: "selected s = rows_before s previous @ rows_after s previous"
  by (simp add: rows_before_def rows_after_def sorted_split [OF sorted_selected])

lemma walk_step:
  assumes "sel_wf s" "- 1 \<le> previous"
  shows "rows_after s previous = [] \<Longrightarrow> selection_next s previous < 0"
    and "rows_after s previous = r # rs \<Longrightarrow> selection_next s previous = int r \<and> previous < int r \<and> rows_after s (int r) = rs \<and>
      rows_before s (int r) = rows_before s previous @ [r] \<and> r < nat (sel_nrows s)"
proof -
  have walk: "map int (rows_after s previous) = pending_rows s (selection_next s previous)"
    using selection_walk_selected [OF assms] walk_pending [OF assms] by (simp add: rows_after_def)
  then show "rows_after s previous = [] \<Longrightarrow> selection_next s previous < 0" by (auto simp: pending_rows_def split: if_splits)
  assume rs: "rows_after s previous = r # rs"
  then have nx: "selection_next s previous = int r" "map int rs = selection_walk s (int r)"
    using walk by (auto simp: pending_rows_def split: if_splits)
  have "r \<in> set (rows_after s previous)" using rs by simp
  then have r: "nat (previous + 1) \<le> r" "r < nat (sel_nrows s)" by (auto simp: rows_after_def set_selected)
  have after: "rows_after s (int r) = rs"
    using nx(2) selection_walk_selected [OF assms(1), of "int r"] by (simp add: rows_after_def inj_map_eq_map)
  have "rows_before s (int r) @ rs = rows_before s previous @ r # rs"
    using selected_split [of s "int r"] selected_split [of s previous] after rs by simp
  then have "rows_before s (int r) = rows_before s previous @ [r]" by simp
  then show "selection_next s previous = int r \<and> previous < int r \<and> rows_after s (int r) = rs \<and>
      rows_before s (int r) = rows_before s previous @ [r] \<and> r < nat (sel_nrows s)"
    using nx(1) after r assms(2) by simp
qed

lemma clear_step:
  assumes "sel_wf s" "- 1 \<le> previous" "rows_after s previous = r # rs"
  shows "sel_wf (selection_clear s (int r))" "rows_after (selection_clear s (int r)) (int r) = rs"
    "rows_before (selection_clear s (int r)) (int r) = rows_before s previous"
proof -
  note step = walk_step(2) [OF assms]
  then have clear: "sel_wf (selection_clear s (int r))" "selected (selection_clear s (int r)) = filter (\<lambda>q. q \<noteq> r) (selected s)"
    using selection_clear_selected [OF assms(1)] by simp_all
  show "sel_wf (selection_clear s (int r))" by (fact clear(1))
  have "filter (\<lambda>q. nat (int r + 1) \<le> q) (filter (\<lambda>q. q \<noteq> r) (selected s)) = filter (\<lambda>q. nat (int r + 1) \<le> q) (selected s)"
    unfolding filter_filter by (rule filter_cong) auto
  then show after: "rows_after (selection_clear s (int r)) (int r) = rs" using step by (simp add: rows_after_def clear(2))
  have "distinct (rows_before s previous @ r # rs)" using selected_split [of s previous] assms(3) by (metis distinct_selected)
  moreover have "filter (\<lambda>q. q \<noteq> r) xs = xs" if "r \<notin> set xs" for xs using that by (intro filter_True) auto
  ultimately have "filter (\<lambda>q. q \<noteq> r) (rows_before s previous @ r # rs) = rows_before s previous @ rs" by simp
  then have "rows_before (selection_clear s (int r)) (int r) @ rs = rows_before s previous @ rs"
    using selected_split [of "selection_clear s (int r)" "int r"] selected_split [of s previous] assms(3) after clear(2) by simp
  then show "rows_before (selection_clear s (int r)) (int r) = rows_before s previous" by simp
qed

section \<open>LIMIT\<close>

definition limit_spec :: "limit_state \<Rightarrow> 'a list \<Rightarrow> 'a list" where
  "limit_spec st rows = (let rows = drop (nat (li_offset_remaining st)) rows
     in if li_no_count st then rows else take (nat (li_count_remaining st)) rows)"

definition limit_inv :: "limit_state \<Rightarrow> bool" where
  "limit_inv st \<longleftrightarrow> 0 \<le> li_offset_remaining st \<and> 0 \<le> li_count_remaining st \<and> li_limits_ready st"

definition limit_advance :: "nat \<Rightarrow> limit_state \<Rightarrow> limit_state" where
  "limit_advance n st =
     st\<lparr>li_offset_remaining := max 0 (li_offset_remaining st - int n),
        li_count_remaining := (if li_no_count st then li_count_remaining st
          else max 0 (li_count_remaining st - max 0 (int n - li_offset_remaining st)))\<rparr>"

lemma limit_spec_append:
  assumes "limit_inv st"
  shows "limit_spec st (xs @ ys) = limit_spec st xs @ limit_spec (limit_advance (length xs) st) ys"
proof -
  have "nat (li_count_remaining st) - (length xs - nat (li_offset_remaining st)) =
      nat (max 0 (li_count_remaining st - max 0 (int (length xs) - li_offset_remaining st)))"
    "nat (li_offset_remaining st) - length xs = nat (max 0 (li_offset_remaining st - int (length xs)))"
    using assms by (auto simp: limit_inv_def max_def)
  then show ?thesis by (simp add: limit_spec_def limit_advance_def Let_def)
qed

lemma limit_advance_inv: "limit_inv st \<Longrightarrow> limit_inv (limit_advance n st)"
  by (simp add: limit_inv_def limit_advance_def)

lemma limit_spec_map: "limit_spec st (map f xs) = map f (limit_spec st xs)"
  by (simp add: limit_spec_def Let_def drop_map take_map)

lemma trim_rows_ok:
  assumes "sel_wf s" "- 1 \<le> previous" "limit_inv st"
  shows "\<exists>s'. trim_rows st s previous remaining =
      (limit_advance (length (rows_after s previous)) st, s', remaining + int (length (limit_spec st (rows_after s previous)))) \<and>
    sel_wf s' \<and> sel_nrows s' = sel_nrows s \<and> selected s' = rows_before s previous @ limit_spec st (rows_after s previous)"
  using assms
proof (induction "rows_after s previous" arbitrary: st s previous remaining)
  case Nil
  have "selection_next s previous < 0" using walk_step(1) [OF Nil.prems(1,2)] Nil.hyps by simp
  moreover have "limit_advance 0 st = st" using Nil.prems(3) by (auto simp: limit_advance_def limit_inv_def)
  ultimately show ?case using Nil selected_split [of s previous]
    by (subst trim_rows.simps) (simp add: Let_def limit_spec_def)
next
  case (Cons r rs)
  note step = walk_step(2) [OF Cons.prems(1,2) Cons.hyps(2) [symmetric]]
  note clear = clear_step [OF Cons.prems(1,2) Cons.hyps(2) [symmetric]]
  have r: "\<not> int r < 0" "\<not> int r \<le> previous" using step by simp_all
  consider (offset) "li_offset_remaining st > 0" | (ended) "li_offset_remaining st = 0" "\<not> li_no_count st" "li_count_remaining st = 0"
    | (count) "li_offset_remaining st = 0" "\<not> li_no_count st" "li_count_remaining st > 0" | (all) "li_offset_remaining st = 0" "li_no_count st"
    using Cons.prems(3) by (force simp: limit_inv_def)
  then show ?case
  proof cases
    case offset
    let ?st = "st\<lparr>li_offset_remaining := li_offset_remaining st - 1\<rparr>"
    have "trim_rows st s previous remaining = trim_rows ?st (selection_clear s (int r)) (int r) remaining"
      using offset step r by (subst trim_rows.simps) (simp add: Let_def)
    moreover have "limit_inv ?st" using Cons.prems(3) offset by (simp add: limit_inv_def)
    moreover have "limit_spec st (r # rs) = limit_spec ?st rs" "limit_advance (length (r # rs)) st = limit_advance (length rs) ?st"
      using offset by (auto simp: limit_spec_def limit_advance_def Let_def drop_Cons' nat_diff_distrib)
    ultimately show ?thesis
      using Cons.hyps(1) [of "selection_clear s (int r)" "int r" ?st remaining] clear unfolding Cons.hyps(2) [symmetric] by simp
  next
    case ended
    have "trim_rows st s previous remaining = trim_rows st (selection_clear s (int r)) (int r) remaining"
      using ended step r by (subst trim_rows.simps) (simp add: Let_def)
    moreover have "limit_spec st (r # rs) = limit_spec st rs" "limit_advance (length (r # rs)) st = limit_advance (length rs) st"
      using ended by (auto simp: limit_spec_def limit_advance_def Let_def)
    ultimately show ?thesis
      using Cons.hyps(1) [of "selection_clear s (int r)" "int r" st remaining] clear Cons.prems(3) unfolding Cons.hyps(2) [symmetric] by simp
  next
    case count
    let ?st = "st\<lparr>li_count_remaining := li_count_remaining st - 1\<rparr>"
    have "trim_rows st s previous remaining = trim_rows ?st s (int r) (remaining + 1)"
      using count step r by (subst trim_rows.simps) (simp add: Let_def)
    moreover have "limit_inv ?st" using Cons.prems(3) count by (simp add: limit_inv_def)
    moreover have "limit_spec st (r # rs) = r # limit_spec ?st rs" "limit_advance (length (r # rs)) st = limit_advance (length rs) ?st"
      using count by (auto simp: limit_spec_def limit_advance_def Let_def take_Cons' nat_diff_distrib)
    ultimately show ?thesis
      using Cons.hyps(1) [of s "int r" ?st "remaining + 1"] step Cons.prems(1) unfolding Cons.hyps(2) [symmetric] by auto
  next
    case all
    have "trim_rows st s previous remaining = trim_rows st s (int r) (remaining + 1)"
      using all step r by (subst trim_rows.simps) (simp add: Let_def)
    moreover have "limit_spec st (r # rs) = r # limit_spec st rs" "limit_advance (length (r # rs)) st = limit_advance (length rs) st"
      using all by (auto simp: limit_spec_def limit_advance_def Let_def)
    ultimately show ?thesis
      using Cons.hyps(1) [of s "int r" st "remaining + 1"] step Cons.prems(1,3) unfolding Cons.hyps(2) [symmetric] by auto
  qed
qed

text \<open>The node that shows all columns in their order, in plain terms.\<close>

context unary_process
begin

lemma run_source:
  assumes "inv (un_private un)" "\<forall>b \<in> set child. good b" "un_input un = input_rescan child" "\<not> un_active un"
      "un_stopped un \<longrightarrow> (\<forall>rest. spec (un_private un) rest = [])" "\<not> un_request_forwarded un" "un_child_ncolumns un = un_ncolumns un"
      "rs_project_columns (un_child_request un) \<union> un_project_columns un \<union> rs_project_columns (un_request un) \<subseteq> {..<ncolumns}"
      "un_batch_columns un = (case un_row_mode un of PG_BATCH_UNARY_COPY_ROW \<Rightarrow> map int [0..<ncolumns] | PG_BATCH_UNARY_INPUT_ROW \<Rightarrow> [])"
    and "\<forall>un. inv (un_private un) \<longrightarrow> exec un = unary_exec (virtual_select_row (map int [0..<ncolumns])) Inr (Some process) un"
  shows "\<exists>outs un'. run_node exec un = Some (Inr (outs, un')) \<and>
    (if rs_output_mode (un_request un) = PG_BATCH_OUTPUT_BATCH
     then \<exists>bs. outs = map Batch bs \<and> concat (map (source_rows cell ncolumns) bs) = spec (un_private un) (concat (map (source_rows cell ncolumns) child)) \<and> list_all good bs
     else \<exists>slots. outs = map Row slots \<and> map slot_cells slots =
       map (\<lambda>row. map (\<lambda>c. row ! nat c) (map int [0..<ncolumns])) (spec (un_private un) (concat (map (source_rows cell ncolumns) child))))"
proof -
  let ?columns = "map int [0..<ncolumns]"
  have cols: "columns_ok ?columns" "columns_ok (un_batch_columns un)"
    unfolding assms(9) by (auto simp: columns_ok_def split: row_mode.splits)
  have shown: "shown_columns ?columns un = ?columns"
    using assms(9) by (simp add: shown_columns_def split: row_mode.splits)
  have "agrees exec ?columns" using assms(10) by (simp add: agrees_def)
  from run_fresh [OF assms(1-8) cols this] show ?thesis unfolding shown .
qed

end

context datum_source
begin

lemma all_rows: "rows_after s (- 1) = selected s" "rows_before s (- 1) = []"
  by (simp_all add: rows_after_def rows_before_def)

lemma trim_step:
  assumes "limit_inv st" "good b"
  shows "\<exists>st' b' stop. trim_batch st b (batch_row_count b) = Inr (st', b', int (length (selected (b_selection b'))), stop) \<and> good b' \<and>
    limit_inv st' \<and> (\<forall>rest. limit_spec st (source_rows cell ncolumns b @ rest) = source_rows cell ncolumns b' @ limit_spec st' rest) \<and>
    (stop \<longrightarrow> (\<forall>rest :: datum option list list. limit_spec st' rest = []))"
proof -
  let ?st = "limit_advance (length (selected (b_selection b))) st"
  obtain s' where s: "trim_rows st (b_selection b) (- 1) 0 = (?st, s', int (length (limit_spec st (selected (b_selection b)))))"
    "sel_wf s'" "sel_nrows s' = sel_nrows (b_selection b)" "selected s' = limit_spec st (selected (b_selection b))"
    using trim_rows_ok [OF wf [OF assms(2)] _ assms(1), of "- 1" 0] by (auto simp: all_rows)
  let ?b = "b\<lparr>b_selection := s'\<rparr>"
  have rows: "source_rows cell ncolumns ?b = limit_spec st (source_rows cell ncolumns b)"
    using s(4) by (simp add: source_rows_def source_row_def cell_selection limit_spec_map)
  have "trim_batch st b (batch_row_count b) = Inr (?st, ?b, int (length (selected (b_selection ?b))), \<not> li_no_count ?st \<and> li_count_remaining ?st = 0)"
    using s(1,4) by (simp add: trim_batch_def)
  moreover have "good ?b" using shrink [OF assms(2) s(2,3)] .
  moreover have "limit_spec st (source_rows cell ncolumns b @ rest) = source_rows cell ncolumns ?b @ limit_spec ?st rest" for rest
    unfolding rows limit_spec_append [OF assms(1)] by (simp add: source_rows_def)
  moreover have "limit_spec ?st rest = []" if "\<not> li_no_count ?st \<and> li_count_remaining ?st = 0" for rest :: "datum option list list"
    using that by (simp add: limit_spec_def)
  ultimately show ?thesis using limit_advance_inv [OF assms(1)] by blast
qed

text \<open>The filter, with a condition that does not fail.\<close>

lemma filter_rows_ok:
  assumes "good b" "- 1 \<le> previous"
  shows "\<exists>b'. filter_rows (virtual_select_row (map int [0..<ncolumns])) (\<lambda>slot. Inr (q (slot_cells slot))) previous b = Inr b' \<and> good b' \<and>
    cell b' = cell b \<and> selected (b_selection b') = rows_before (b_selection b) previous @
      filter (\<lambda>r. q (source_row cell ncolumns b r)) (rows_after (b_selection b) previous)"
  using assms
proof (induction "rows_after (b_selection b) previous" arbitrary: b previous)
  case Nil
  have "selection_next (b_selection b) previous < 0" using walk_step(1) [OF wf [OF Nil.prems(1)] Nil.prems(2)] Nil.hyps by simp
  then show ?case using Nil selected_split [of "b_selection b" previous] by (subst filter_rows.simps) (simp add: Let_def)
next
  case (Cons r rs)
  let ?s = "b_selection b" and ?columns = "map int [0..<ncolumns]"
  note wf_b = wf [OF Cons.prems(1)]
  note step = walk_step(2) [OF wf_b Cons.prems(2) Cons.hyps(2) [symmetric]]
  note clear = clear_step [OF wf_b Cons.prems(2) Cons.hyps(2) [symmetric]]
  obtain b1 slot where v: "virtual_select_row ?columns b (int r) = Inr (b1, slot)" "good b1" "b_selection b1 = ?s" "cell b1 = cell b"
    "slot_cells slot = map (\<lambda>c. cell b (nat c) r) ?columns"
    using row_values_ok [OF Cons.prems(1), of r ?columns] step by (auto simp: virtual_select_row_def)
  have slot: "slot_cells slot = source_row cell ncolumns b r" using v(5) by (simp add: source_row_def)
  let ?keep = "q (source_row cell ncolumns b r)"
  let ?b = "b1\<lparr>b_selection := (if ?keep then ?s else selection_clear ?s (int r))\<rparr>"
  have run: "filter_rows (virtual_select_row ?columns) (\<lambda>slot. Inr (q (slot_cells slot))) previous b =
      filter_rows (virtual_select_row ?columns) (\<lambda>slot. Inr (q (slot_cells slot))) (int r) ?b"
    using step v(1) slot by (subst filter_rows.simps) (simp add: Let_def)
  have good_b: "good ?b" using shrink [OF v(2)] wf_b clear(1) v(3) by (cases ?keep) simp_all
  have same: "cell ?b = cell b" "source_row cell ncolumns ?b = source_row cell ncolumns b" using v(4) cell_selection by (simp_all add: source_row_def fun_eq_iff)
  have sel: "rows_after (b_selection ?b) (int r) = rs" "rows_before (b_selection ?b) (int r) = rows_before ?s previous @ (if ?keep then [r] else [])"
    using step clear by (cases ?keep; simp)+
  obtain b' where IH: "filter_rows (virtual_select_row ?columns) (\<lambda>slot. Inr (q (slot_cells slot))) (int r) ?b = Inr b'" "good b'" "cell b' = cell ?b"
    "selected (b_selection b') = rows_before (b_selection ?b) (int r) @ filter (\<lambda>r. q (source_row cell ncolumns ?b r)) (rows_after (b_selection ?b) (int r))"
    using Cons.hyps(1) [OF sel(1) [symmetric] good_b] by auto
  have "rows_before ?s previous @ (if ?keep then [r] else []) @ filter (\<lambda>r. q (source_row cell ncolumns b r)) rs =
      rows_before ?s previous @ filter (\<lambda>r. q (source_row cell ncolumns b r)) (rows_after ?s previous)"
    unfolding Cons.hyps(2) [symmetric] by simp
  then have "selected (b_selection b') = rows_before ?s previous @ filter (\<lambda>r. q (source_row cell ncolumns b r)) (rows_after ?s previous)"
    using IH(4) unfolding sel same(2) append_assoc by simp
  then show ?case unfolding run using IH(1,2) IH(3) [unfolded same(1)] by blast
qed

lemma filter_step:
  assumes "good b"
  shows "\<exists>st' b' stop. node_filter_batch (virtual_select_row (map int [0..<ncolumns])) (Some (\<lambda>slot. Inr (q (slot_cells slot)))) st b (batch_row_count b) =
      Inr (st', b', int (length (selected (b_selection b'))), stop) \<and> good b' \<and>
    (\<forall>rest. filter q (source_rows cell ncolumns b @ rest) = source_rows cell ncolumns b' @ filter q rest) \<and>
    (stop \<longrightarrow> (\<forall>rest. filter q rest = []))"
proof -
  obtain b' where b: "filter_rows (virtual_select_row (map int [0..<ncolumns])) (\<lambda>slot. Inr (q (slot_cells slot))) (- 1) b = Inr b'" "good b'"
    "cell b' = cell b" "selected (b_selection b') = filter (\<lambda>r. q (source_row cell ncolumns b r)) (selected (b_selection b))"
    using filter_rows_ok [OF assms, of "- 1" q] by (auto simp: all_rows)
  have "source_rows cell ncolumns b' = filter q (source_rows cell ncolumns b)"
    using b(3,4) by (simp add: source_rows_def source_row_def filter_map o_def)
  moreover have "batch_row_count b' = int (length (selected (b_selection b')))"
    by (simp add: batch_row_count_def selection_count_selected [OF wf [OF b(2)]])
  ultimately show ?thesis using b(1,2) by (auto simp: node_filter_batch_def)
qed

end

sublocale datum_source \<subseteq> limit: unary_process good cell ncolumns trim_batch limit_inv limit_spec
  by unfold_locales (fact trim_step, simp add: limit_spec_def)

sublocale datum_source \<subseteq> narrow: unary_process good cell ncolumns
    "node_filter_batch (virtual_select_row (map int [0..<ncolumns])) (Some (\<lambda>slot. Inr (q (slot_cells slot))))" "\<lambda>_. True" "\<lambda>_. filter q"
  for q
  by unfold_locales (use filter_step in simp_all)

section \<open>The batches of the builder as a source\<close>

definition builder_cell :: "builder batch \<Rightarrow> nat \<Rightarrow> nat \<Rightarrow> datum option" where
  "builder_cell b column row =
     (let d = b_private b; i = column * bu_capacity d + row in if bu_isnull d ! i then None else Some (bu_values d ! i))"

definition builder_good :: "nat \<Rightarrow> builder batch \<Rightarrow> bool" where
  "builder_good n b \<longleftrightarrow> sel_wf (b_selection b) \<and> b_ops b = Some builder_ops \<and> bu_ncolumns (b_private b) = n \<and>
     length (bu_values (b_private b)) = n * bu_capacity (b_private b) \<and> length (bu_isnull (b_private b)) = n * bu_capacity (b_private b)"

interpretation packed: datum_source "builder_good n" builder_cell n for n
proof
  fix b :: "builder batch" and column :: nat and rows :: selection and phase :: column_phase
  assume b: "builder_good n b" "column < n"
  have size: "abi_size_through PgBatchDatumVector_layout ''nrows'' \<le> struct_sizeof PgBatchDatumVector_layout" by code_simp
  let ?d = "b_private b"
  let ?vs = "drop (column * bu_capacity ?d) (bu_values ?d)" and ?ns = "drop (column * bu_capacity ?d) (bu_isnull ?d)"
  assume nrows: "sel_nrows rows = sel_nrows (b_selection b)"
  have "batch_get_datum_column b (int column) rows phase = Inr (b, \<lparr>dv_struct_size = struct_sizeof PgBatchDatumVector_layout,
      dv_values = Some ?vs, dv_isnull = Some ?ns, dv_nrows = sel_nrows (b_selection b)\<rparr>)"
    using b size nrows by (simp add: batch_get_datum_column_def builder_good_def builder_ops_def builder_get_column_def
        check_datum_vector_def require_def)
  moreover have "(if ?ns ! row then None else Some (?vs ! row)) = builder_cell b column row" for row
    using b by (simp add: builder_cell_def builder_good_def Let_def)
  ultimately show "\<exists>b' dv vs ns. batch_get_datum_column b (int column) rows phase = Inr (b', dv) \<and> dv_values dv = Some vs \<and> dv_isnull dv = Some ns \<and>
      builder_good n b' \<and> b_selection b' = b_selection b \<and> builder_cell b' = builder_cell b \<and>
      (\<forall>row. sel_bit rows row \<and> row < nat (sel_nrows rows) \<longrightarrow> (if ns ! row then None else Some (vs ! row)) = builder_cell b column row)"
    using b(1) by auto
qed (auto simp: builder_good_def builder_cell_def fun_eq_iff batch_prepare_columns_def builder_ops_def)

definition node_rows :: "nat \<Rightarrow> builder unary_output \<Rightarrow> datum option option list list" where
  "node_rows n out = (case out of Row slot \<Rightarrow> [map Some (slot_cells slot)] | Batch b \<Rightarrow> read_rows n b)"

lemma read_good_rows:
  assumes "builder_good n b"
  shows "read_rows n b = map (map Some) (source_rows builder_cell n b)"
proof -
  have "read_cell b column row = Some (builder_cell b column row)" if row: "row \<in> set (selected (b_selection b))" and column: "column < n" for column row
  proof -
    obtain b' dv vs ns where g: "batch_get_datum_column b (int column) (b_selection b) PG_BATCH_COLUMN_PROJECT = Inr (b', dv)"
      "dv_values dv = Some vs" "dv_isnull dv = Some ns" "(if ns ! row then None else Some (vs ! row)) = builder_cell b column row"
      using packed.get [OF assms column, of "b_selection b" PG_BATCH_COLUMN_PROJECT] row by (auto simp: set_selected)
    then show ?thesis by (simp add: read_cell_def)
  qed
  then show ?thesis by (simp add: read_rows_def source_rows_def source_row_def)
qed

lemma read_good_batches:
  "\<forall>b \<in> set bs. builder_good n b \<Longrightarrow> concat (map (read_rows n) bs) = map (map Some) (concat (map (source_rows builder_cell n) bs))"
  by (induction bs) (simp_all add: read_good_rows)

text \<open>What the pack node hands to its parent.\<close>

lemma packed_child:
  assumes "0 < natts" "natts \<le> length desc" "\<forall>slot \<in> set table. natts \<le> length slot"
    and "pack_begin desc natts PG_BATCH_OUTPUT_BATCH max_rows table = Inr st" "pack_all copy st = Some (Inr (bs, st'))"
  shows "\<forall>b \<in> set bs. builder_good natts b" "concat (map (source_rows builder_cell natts) bs) = map (packed_row copy desc natts) table"
proof -
  obtain st1 where st1: "pack_begin desc natts PG_BATCH_OUTPUT_BATCH max_rows table = Inr st1" "pack_ok desc natts st1" "pk_child st1 = table"
    "pk_output_mode st1 = PG_BATCH_OUTPUT_BATCH" "\<not> pk_published st1"
    by (rule pack_begin_ok [OF assms(1-3)])
  then have st: "pack_ok desc natts st" "pk_child st = table" "pk_output_mode st = PG_BATCH_OUTPUT_BATCH" "\<not> pk_published st"
    using assms(4) by simp_all
  have r: "\<forall>b \<in> set bs. pack_batch_ok natts (pk_max_rows st) b"
    "concat (map (read_rows natts) bs) = map (map Some \<circ> packed_row copy desc natts) table"
    using pack_all_ok [OF st(1), of copy] assms(5) st by auto
  show good: "\<forall>b \<in> set bs. builder_good natts b"
  proof
    fix b assume "b \<in> set bs"
    then have "pack_batch_ok natts (pk_max_rows st) b" using r(1) by blast
    then show "builder_good natts b" by (auto simp: pack_batch_ok_def builder_good_def builder_batch_def)
  qed
  have "map (map Some) (concat (map (source_rows builder_cell natts) bs)) = map (map Some) (map (packed_row copy desc natts) table)"
    using r(2) unfolding read_good_batches [OF good] by simp
  moreover have "inj (map (map (Some :: datum option \<Rightarrow> datum option option)))" by (intro inj_mapI) simp
  ultimately show "concat (map (source_rows builder_cell natts) bs) = map (packed_row copy desc natts) table"
    by (simp only: inj_eq)
qed

lemma map_nth_ints: "length row = n \<Longrightarrow> map (\<lambda>c. row ! nat c) (map int [0..<n]) = row"
  using map_nth [of row] by (simp add: o_def)

lemma spec_rows_length:
  assumes "concat (map (source_rows builder_cell n) bs) = rows"
  shows "\<forall>row \<in> set rows. length row = n"
  unfolding assms [symmetric] by (auto simp: source_rows_def source_row_def)

lemma node_rows_of:
  assumes "if batch then \<exists>bs. outs = map Batch bs \<and> concat (map (source_rows builder_cell n) bs) = rows \<and> list_all (builder_good n) bs
      else \<exists>slots. outs = map Row slots \<and> map slot_cells slots = map (\<lambda>row. map (\<lambda>c. row ! nat c) (map int [0..<n])) rows"
    and "\<forall>row \<in> set rows. length row = n"
  shows "concat (map (node_rows n) outs) = map (map Some) rows"
proof (cases batch)
  case True
  then obtain bs where bs: "outs = map Batch bs" "concat (map (source_rows builder_cell n) bs) = rows" "list_all (builder_good n) bs"
    using assms(1) by auto
  have "concat (map (node_rows n) outs) = concat (map (read_rows n) bs)" unfolding bs(1) by (simp add: node_rows_def o_def)
  then show ?thesis using read_good_batches [of bs n] bs(2,3) by (simp add: list_all_iff)
next
  case False
  then obtain slots where slots: "outs = map Row slots" "map slot_cells slots = map (\<lambda>row. map (\<lambda>c. row ! nat c) (map int [0..<n])) rows"
    using assms(1) by auto
  have "map (\<lambda>c. row ! nat c) (map int [0..<n]) = row" if "row \<in> set rows" for row
    by (rule map_nth_ints) (use assms(2) that in simp)
  then have "map (\<lambda>row. map (\<lambda>c. row ! nat c) (map int [0..<n])) rows = rows" by (rule map_idI)
  then have "map slot_cells slots = rows" using slots(2) by simp
  moreover have "concat (map (node_rows n) outs) = map (map Some) (map slot_cells slots)"
    unfolding slots(1) by (induction slots) (simp_all add: node_rows_def)
  ultimately show ?thesis by simp
qed

section \<open>The nodes over a packed child\<close>

definition identity_layout :: "nat \<Rightarrow> layout" where
  "identity_layout n = \<lparr>lay_struct_size = struct_sizeof PgBatchLayout_layout, lay_ncolumns = int n, lay_ntargets = int n, lay_target_columns = None\<rparr>"

lemma limit_begin_dense:
  "limit_begin False (identity_layout n) n offset_expr count_expr request child_request (int n) bs =
     Inr \<lparr>un_input = input_rescan bs, un_private = \<lparr>li_offset_expr = offset_expr, li_count_expr = count_expr, li_offset_remaining = 0,
         li_count_remaining = 0, li_no_count = False, li_limits_ready = False\<rparr>,
       un_ncolumns = int n, un_child_ncolumns = int n, un_request = request, un_child_request = child_request,
       un_filter_columns = {}, un_project_columns = {..<n}, un_max_rows = 0,
       un_batch_columns = map int [0..<n], un_row_mode = PG_BATCH_UNARY_COPY_ROW, un_active = False, un_next_row = - 1,
       un_request_forwarded = False, un_stopped = False, un_input_batches = 0, un_input_rows = 0, un_output_rows = 0\<rparr>"
proof -
  have "nat ` int ` {0..<n} = {..<n}" by (auto simp: image_iff)
  then show ?thesis
    by (simp add: lessThan_atLeast0 limit_begin_def unary_create_def identity_layout_def layout_column_def list_ex_iff Let_def o_def)
qed

lemma eval_limit_nonneg: "eval_limit ev expr e = Inr (Some n) \<Longrightarrow> 0 \<le> n"
  by (auto simp: eval_limit_def rbind_Inr_iff split: option.splits if_splits)

lemma limit_run:
  assumes child: "\<forall>b \<in> set bs. builder_good n b" "concat (map (source_rows builder_cell n) bs) = rows"
    and start: "limit_begin False (identity_layout n) n offset_expr count_expr request child_request (int n) bs = Inr un"
    and project: "rs_project_columns request \<union> rs_project_columns child_request \<subseteq> {..<n}"
    and ev: "eval_limit ev offset_expr e1 = Inr skip" "eval_limit ev count_expr e2 = Inr count"
    and e: "e1 = Ereport ERRCODE_INVALID_ROW_COUNT_IN_RESULT_OFFSET_CLAUSE ''OFFSET must not be negative''"
      "e2 = Ereport ERRCODE_INVALID_ROW_COUNT_IN_LIMIT_CLAUSE ''LIMIT must not be negative''"
  shows "\<exists>outs un'. run_node (limit_exec ev (virtual_select_row (map int [0..<n]))) un = Some (Inr (outs, un')) \<and>
    concat (map (node_rows n) outs) = map (map Some) (let rest = drop (nat (case skip of None \<Rightarrow> 0 | Some k \<Rightarrow> k)) rows
      in case count of None \<Rightarrow> rest | Some k \<Rightarrow> take (nat k) rest)"
proof -
  let ?exec = "limit_exec ev (virtual_select_row (map int [0..<n]))"
  let ?st = "\<lparr>li_offset_expr = offset_expr, li_count_expr = count_expr, li_offset_remaining = (case skip of None \<Rightarrow> 0 | Some k \<Rightarrow> k),
      li_count_remaining = (case count of None \<Rightarrow> 0 | Some k \<Rightarrow> k), li_no_count = (count = None), li_limits_ready = True\<rparr>"
  let ?rest = "drop (nat (case skip of None \<Rightarrow> 0 | Some k \<Rightarrow> k)) rows"
  note un = start [unfolded limit_begin_dense, THEN Inr_inject, symmetric]
  obtain un1 bound where un1: "compute_limits ev un = Inr (un1, bound)" "un_private un1 = ?st" "un_stopped un1 \<longleftrightarrow> count = Some 0"
    "un_input un1 = input_rescan bs" "\<not> un_active un1" "\<not> un_request_forwarded un1" "un_child_ncolumns un1 = un_ncolumns un1"
    "un_child_request un1 = child_request" "un_project_columns un1 = {..<n}" "un_request un1 = request"
    "un_batch_columns un1 = map int [0..<n]" "un_row_mode un1 = PG_BATCH_UNARY_COPY_ROW"
    using ev e unfolding un by (auto simp: compute_limits_def unary_stop_def Let_def split: option.splits)
  have st: "limit_inv ?st" using eval_limit_nonneg ev by (auto simp: limit_inv_def split: option.splits)
  have spec: "limit_spec ?st rows = (case count of None \<Rightarrow> ?rest | Some k \<Rightarrow> take (nat k) ?rest)"
    by (simp add: limit_spec_def Let_def split: option.splits)
  have "?exec un = ?exec un1" using un1(1,2) unfolding un by (simp add: limit_exec_def)
  then have run: "run_node ?exec un = run_node ?exec un1" by (simp add: run_node.simps)
  have agree: "\<forall>un. limit_inv (un_private un) \<longrightarrow> ?exec un = unary_exec (virtual_select_row (map int [0..<n])) Inr (Some trim_batch) un"
    by (simp add: limit_exec_def limit_inv_def)
  have stop: "un_stopped un1 \<longrightarrow> (\<forall>rest :: datum option list list. limit_spec (un_private un1) rest = [])"
    using un1(2,3) by (simp add: limit_spec_def)
  have "\<exists>outs un'. run_node ?exec un1 = Some (Inr (outs, un')) \<and>
    (if rs_output_mode (un_request un1) = PG_BATCH_OUTPUT_BATCH
     then \<exists>bs'. outs = map Batch bs' \<and> concat (map (source_rows builder_cell n) bs') =
       limit_spec (un_private un1) (concat (map (source_rows builder_cell n) bs)) \<and> list_all (builder_good n) bs'
     else \<exists>slots. outs = map Row slots \<and> map slot_cells slots =
       map (\<lambda>row. map (\<lambda>c. row ! nat c) (map int [0..<n])) (limit_spec (un_private un1) (concat (map (source_rows builder_cell n) bs))))"
    by (rule packed.limit.run_source [OF _ child(1) un1(4,5) stop un1(6,7) _ _ agree])
      (use st project un1 in \<open>simp_all add: un1(2)\<close>)
  then obtain outs un' where r: "run_node ?exec un1 = Some (Inr (outs, un'))"
    "if rs_output_mode (un_request un1) = PG_BATCH_OUTPUT_BATCH
     then \<exists>bs. outs = map Batch bs \<and> concat (map (source_rows builder_cell n) bs) = limit_spec ?st rows \<and> list_all (builder_good n) bs
     else \<exists>slots. outs = map Row slots \<and> map slot_cells slots = map (\<lambda>row. map (\<lambda>c. row ! nat c) (map int [0..<n])) (limit_spec ?st rows)"
    unfolding un1(2) child(2) by blast
  have "set (limit_spec ?st rows) \<subseteq> set rows"
    by (auto simp: limit_spec_def Let_def dest: in_set_takeD in_set_dropD)
  then have "\<forall>row \<in> set (limit_spec ?st rows). length row = n" using spec_rows_length [OF child(2)] by blast
  from node_rows_of [OF r(2) this] r(1) show ?thesis unfolding run spec [symmetric] by (auto simp: spec Let_def)
qed

lemma intlist_to_bitmap_set:
  assumes "intlist_to_bitmap items = Inr s"
  shows "s = nat ` set items \<and> (\<forall>item \<in> set items. 0 \<le> item)"
proof -
  have "s = acc \<union> nat ` set items \<and> (\<forall>item \<in> set items. 0 \<le> item)"
    if "rfold (\<lambda>item result. if item < 0 then Inl (Elog ''negative bitmapset member not allowed'') else Inr (insert (nat item) result)) items acc = Inr s" for acc
    using that by (induction items arbitrary: acc) (force split: if_splits)+
  from this [of "{}"] show ?thesis using assms by (simp add: intlist_to_bitmap_def)
qed

lemma filter_run:
  assumes child: "\<forall>b \<in> set bs. builder_good n b" "concat (map (source_rows builder_cell n) bs) = rows"
    and start: "filter_begin source_attnums nfilter project_columns targetlist natts request child_request (int n) bs = Inr un" "length source_attnums = n"
    and project: "rs_project_columns request \<union> rs_project_columns child_request \<subseteq> {..<n}" "\<forall>c \<in> set project_columns. c < int n"
  shows "\<exists>outs un'. run_node (filter_exec (virtual_select_row (map int [0..<n])) Inr (Some (\<lambda>slot. Inr (q (slot_cells slot))))) un = Some (Inr (outs, un')) \<and>
    concat (map (node_rows n) outs) = map (map Some) (filter q rows)"
proof -
  let ?exec = "filter_exec (virtual_select_row (map int [0..<n])) Inr (Some (\<lambda>slot. Inr (q (slot_cells slot))))"
  obtain cs where cs: "intlist_to_bitmap project_columns = Inr cs" using start(1) by (auto simp: filter_begin_def rbind_Inr_iff)
  have un: "un_input un = input_rescan bs" "\<not> un_active un" "\<not> un_stopped un" "\<not> un_request_forwarded un" "un_child_ncolumns un = un_ncolumns un"
    "un_child_request un = child_request" "un_project_columns un = cs" "un_request un = request" "un_batch_columns un = []"
    "un_row_mode un = PG_BATCH_UNARY_INPUT_ROW"
    using start cs by (auto simp: filter_begin_def unary_create_def)
  have "cs \<subseteq> {..<n}" using intlist_to_bitmap_set [OF cs] project(2) by (auto simp: nat_less_iff)
  then have columns: "rs_project_columns (un_child_request un) \<union> un_project_columns un \<union> rs_project_columns (un_request un) \<subseteq> {..<n}"
    using project(1) un by simp
  have "\<exists>outs un'. run_node ?exec un = Some (Inr (outs, un')) \<and>
    (if rs_output_mode (un_request un) = PG_BATCH_OUTPUT_BATCH
     then \<exists>bs'. outs = map Batch bs' \<and> concat (map (source_rows builder_cell n) bs') = filter q (concat (map (source_rows builder_cell n) bs)) \<and> list_all (builder_good n) bs'
     else \<exists>slots. outs = map Row slots \<and> map slot_cells slots =
       map (\<lambda>row. map (\<lambda>c. row ! nat c) (map int [0..<n])) (filter q (concat (map (source_rows builder_cell n) bs))))"
    by (rule packed.narrow.run_source [OF _ child(1) un(1,2) _ un(4,5) columns]) (use un in \<open>simp_all add: filter_exec_def\<close>)
  then obtain outs un' where r: "run_node ?exec un = Some (Inr (outs, un'))"
    "if rs_output_mode (un_request un) = PG_BATCH_OUTPUT_BATCH
     then \<exists>bs. outs = map Batch bs \<and> concat (map (source_rows builder_cell n) bs) = filter q rows \<and> list_all (builder_good n) bs
     else \<exists>slots. outs = map Row slots \<and> map slot_cells slots = map (\<lambda>row. map (\<lambda>c. row ! nat c) (map int [0..<n])) (filter q rows)"
    unfolding child(2) by blast
  have "\<forall>row \<in> set (filter q rows). length row = n" using spec_rows_length [OF child(2)] by simp
  from node_rows_of [OF r(2) this] r(1) show ?thesis by blast
qed

section \<open>Properties\<close>

text \<open>
  C18. A LIMIT node over a packed child, run to its end whether its parent takes rows or whole
  batches: it returns, in their order, the rows of the child that are left when the first
  OFFSET ones are dropped and of the rest no more than LIMIT are taken, where a missing or
  NULL bound is none; if evaluating a bound fails or gives a negative number, it fails.
\<close>

theorem limit_node_correct:
  assumes "0 < natts" "natts \<le> length desc" "\<forall>slot \<in> set table. natts \<le> length slot"
    and "pack_begin desc natts PG_BATCH_OUTPUT_BATCH max_rows table = Inr st" "pack_all copy st = Some (Inr (bs, st'))"
    and "limit_begin False (identity_layout natts) natts offset_expr count_expr request child_request (int natts) bs = Inr un"
    and "rs_project_columns request \<union> rs_project_columns child_request \<subseteq> {..<natts}"
  shows "case (eval_limit ev offset_expr (Ereport ERRCODE_INVALID_ROW_COUNT_IN_RESULT_OFFSET_CLAUSE ''OFFSET must not be negative''),
        eval_limit ev count_expr (Ereport ERRCODE_INVALID_ROW_COUNT_IN_LIMIT_CLAUSE ''LIMIT must not be negative'')) of
      (Inr skip, Inr count) \<Rightarrow>
        \<exists>outs un'. run_node (limit_exec ev (virtual_select_row (map int [0..<natts]))) un = Some (Inr (outs, un')) \<and>
          concat (map (node_rows natts) outs) = map (map Some)
            (let rest = drop (nat (case skip of None \<Rightarrow> 0 | Some k \<Rightarrow> k)) (map (packed_row copy desc natts) table)
             in case count of None \<Rightarrow> rest | Some k \<Rightarrow> take (nat k) rest)
    | _ \<Rightarrow> \<exists>err. run_node (limit_exec ev (virtual_select_row (map int [0..<natts]))) un = Some (Inl err)"
    (is "case (?skip, ?count) of (Inr skip, Inr count) \<Rightarrow> _ skip count | _ \<Rightarrow> ?fails")
proof -
  note child = packed_child [OF assms(1-5)]
  have fails: ?fails if "(\<exists>err. ?skip = Inl err) \<or> (\<exists>skip err. ?skip = Inr skip \<and> ?count = Inl err)"
  proof -
    have "\<exists>err. compute_limits ev un = Inl err" "\<not> li_limits_ready (un_private un)"
      using that assms(6) by (auto simp: compute_limits_def limit_begin_dense)
    then show ?thesis by (auto simp: run_node.simps limit_exec_def)
  qed
  show ?thesis
  proof (cases "(\<exists>err. ?skip = Inl err) \<or> (\<exists>skip err. ?skip = Inr skip \<and> ?count = Inl err)")
    case True
    then show ?thesis using fails [OF True] by (auto split: sum.splits)
  next
    case False
    then obtain skip count where "?skip = Inr skip" "?count = Inr count" by (metis sum.exhaust)
    then show ?thesis using limit_run [OF child assms(6,7) _ _ refl refl] by simp
  qed
qed

text \<open>
  C20. A filter node over a packed child, run to its end whether its parent takes rows or whole
  batches, with a condition that does not fail: it returns, in their order, exactly the rows
  of the child that satisfy the condition.
\<close>

theorem filter_node_correct:
  assumes "0 < natts" "natts \<le> length desc" "\<forall>slot \<in> set table. natts \<le> length slot"
    and "pack_begin desc natts PG_BATCH_OUTPUT_BATCH max_rows table = Inr st" "pack_all copy st = Some (Inr (bs, st'))"
    and "filter_begin source_attnums nfilter project_columns targetlist m request child_request (int natts) bs = Inr un" "length source_attnums = natts"
    and "rs_project_columns request \<union> rs_project_columns child_request \<subseteq> {..<natts}" "\<forall>c \<in> set project_columns. c < int natts"
  shows "\<exists>outs un'. run_node (filter_exec (virtual_select_row (map int [0..<natts])) Inr (Some (\<lambda>slot. Inr (q (slot_cells slot))))) un = Some (Inr (outs, un')) \<and>
    concat (map (node_rows natts) outs) = map (map Some) (filter q (map (packed_row copy desc natts) table))"
  using filter_run [OF packed_child [OF assms(1-5)] assms(6-9)] .

definition example_spec :: "int \<Rightarrow> request_spec" where
  "example_spec mode = \<lparr>rs_struct_size = 32, rs_filter_columns = {}, rs_project_columns = {}, rs_output_mode = mode, rs_max_rows = 0\<rparr>"

definition example_bound :: "node \<Rightarrow> datum option result" where
  "example_bound e = (case e of Const _ d \<Rightarrow> Inr d | _ \<Rightarrow> Inl (Elog ''unknown expression''))"

lemma example_packed:
  obtains st bs st' where "pack_begin example_desc 2 PG_BATCH_OUTPUT_BATCH 2 example_child = Inr st" "pack_all (\<lambda>_ d. d + 1000) st = Some (Inr (bs, st'))"
proof -
  have facts: "(0 :: nat) < 2" "2 \<le> length example_desc" "\<forall>slot \<in> set example_child. 2 \<le> length slot" by code_simp+
  obtain st where st: "pack_begin example_desc 2 PG_BATCH_OUTPUT_BATCH 2 example_child = Inr st" "pack_ok example_desc 2 st"
    "pk_output_mode st = PG_BATCH_OUTPUT_BATCH" "\<not> pk_published st"
    by (rule pack_begin_ok [where output_mode = PG_BATCH_OUTPUT_BATCH and max_rows = 2, OF facts])
  then show thesis using that pack_all_ok [OF st(2), of "\<lambda>_ d. d + 1000"] by auto
qed

lemma example_packed_facts:
  "(0 :: nat) < 2" "2 \<le> length example_desc" "\<forall>slot \<in> set example_child. 2 \<le> length slot"
  "map (packed_row (\<lambda>_ d. d + 1000) example_desc 2) example_child = [[Some 5, None], [None, Some 1009], [Some 7, Some 1008]]"
  by code_simp+

theorem limit_node_correct_witness:
  "\<exists>bs un outs un'. limit_begin False (identity_layout 2) 2 (Some (Const 20 (Some 1))) (Some (Const 20 (Some 1))) (example_spec 0) (example_spec 1) 2 bs = Inr un \<and>
     run_node (limit_exec example_bound (virtual_select_row (map int [0..<2]))) un = Some (Inr (outs, un')) \<and>
     concat (map (node_rows 2) outs) = [[Some None, Some (Some 1009)]]"
proof -
  obtain st bs st' where p: "pack_begin example_desc 2 PG_BATCH_OUTPUT_BATCH 2 example_child = Inr st" "pack_all (\<lambda>_ d. d + 1000) st = Some (Inr (bs, st'))"
    by (rule example_packed)
  obtain un where un: "limit_begin False (identity_layout 2) 2 (Some (Const 20 (Some 1))) (Some (Const 20 (Some 1))) (example_spec 0) (example_spec 1) (int 2) bs = Inr un"
    using limit_begin_dense by blast
  have bound: "eval_limit example_bound (Some (Const 20 (Some 1))) e = Inr (Some 1)" for e
    by (simp add: eval_limit_def example_bound_def)
  have "rs_project_columns (example_spec 0) \<union> rs_project_columns (example_spec 1) \<subseteq> {..<2}" by (simp add: example_spec_def)
  from limit_node_correct [OF example_packed_facts(1-3) p un this, of example_bound] show ?thesis
    using un unfolding bound example_packed_facts(4) by auto
qed

theorem filter_node_correct_witness:
  "\<exists>bs un outs un'. filter_begin [1, 2] 0 [0, 1] [] 0 (example_spec 1) (example_spec 1) 2 bs = Inr un \<and>
     run_node (filter_exec (virtual_select_row (map int [0..<2])) Inr (Some (\<lambda>slot. Inr (hd (slot_cells slot) \<noteq> None)))) un = Some (Inr (outs, un')) \<and>
     concat (map (node_rows 2) outs) = [[Some (Some 5), Some None], [Some (Some 7), Some (Some 1008)]]"
proof -
  obtain st bs st' where p: "pack_begin example_desc 2 PG_BATCH_OUTPUT_BATCH 2 example_child = Inr st" "pack_all (\<lambda>_ d. d + 1000) st = Some (Inr (bs, st'))"
    by (rule example_packed)
  obtain un where un: "filter_begin [1, 2] 0 [0, 1] [] 0 (example_spec 1) (example_spec 1) (int 2) bs = Inr un"
    by (simp add: filter_begin_def intlist_to_bitmap_def unary_create_def)
  have "rs_project_columns (example_spec 1) \<union> rs_project_columns (example_spec 1) \<subseteq> {..<2}" by (simp add: example_spec_def)
  from filter_node_correct [OF example_packed_facts(1-3) p un _ this, of "\<lambda>row. hd row \<noteq> None"] show ?thesis
    using un unfolding example_packed_facts(4) by auto
qed

end
