(* ===== verification/Spec2Isabelle.thy ===== *)
theory Spec2Isabelle
  imports Hash Expr_Props Bridge_Props Node_Plans Spill_Read Join_Props Join_Spilled_Props Aggregate_Props Compressed_Props Unary_Props
begin

text \<open>
  This library models \<open>pg_batch\<close>, a PostgreSQL extension that lets plan nodes exchange rows in
  batches of columns instead of one tuple at a time, and proves what its parts promise.  Paths
  below are relative to the root of the source tree (\<open>src/\<close>).

  \<^bold>\<open>The program.\<close>  A \<^emph>\<open>source\<close> (a table access method, a foreign data wrapper) publishes
  batches through the \<^emph>\<open>bridge\<close> (\<open>bridge/bridge.c\<close>) at a tuple slot; the parent node asks for
  columns through the callbacks of the batch and narrows its selection bitmap, then finishes
  the batch so that the source may reuse it.  The \<^emph>\<open>kernels\<close> (\<open>kernels/\<close>) filter, compute, reduce
  and hash int4 columns, the \<^emph>\<open>expressions\<close> (\<open>expr/expr.c\<close>) compile PostgreSQL expression trees
  to kernels, the \<^emph>\<open>nodes\<close> (\<open>nodes/\<close>, \<open>examples/\<close>) are built on both, the \<^emph>\<open>spill sets\<close>
  (\<open>spill/spill.c\<close>) hold what does not fit in memory, and the \<^emph>\<open>runtime\<close> (\<open>runtime/\<close>) stores
  plan data, builds batches and executes simple nodes.

  \<^bold>\<open>Conventions.\<close>  Everything that can raise an error returns \<open>result\<close>, a sum of \<open>pg_error\<close> and
  the value; the operations that leave changes behind on an error return the state with it.
  Machine integers are words of their width where they can wrap or are used as bits; an \<open>int\<close>
  of C that is only compared is an \<open>int\<close> or \<open>nat\<close> here.  Private data that a callback may change
  is passed and returned.  What PostgreSQL does is an argument: evaluating an expression
  (\<open>ev\<close>), the hash functions (\<open>mur\<close>, \<open>comb\<close>), tapes (\<open>tape_ops\<close>), \<open>datumCopy\<close> (\<open>copy\<close>); what
  is assumed of it is a named predicate (\<open>executor_ok\<close>, \<open>tape_spec\<close>).  Memory contexts, explain
  output and allocation failures are left out throughout.

  \<^bold>\<open>Theories.\<close>

  \<^item> \<^emph>\<open>Foundations.\<close>  \<open>Prelude\<close>: errors, results, word primitives, loops over set bits and over
    results.  \<open>Batch\<close>: append-only structures (\<open>include/pg_batch/abi.h\<close>) and row selections
    (\<open>batch.h\<close>); walking a selection visits exactly its rows, and selections only shrink.
    \<open>Columns\<close>: batches with their callbacks, column access, layouts, the cache of native
    interfaces (\<open>runtime/adapter.c\<close>, \<open>kernels/vector.c\<close>, \<open>layout.h\<close>, \<open>vector.h\<close>).
  \<^item> \<^emph>\<open>Kernels.\<close>  \<open>Kernels\<close>, \<open>Arithmetic\<close>, \<open>Reduce\<close>, \<open>Hash\<close>: \<open>kernels/int4.c\<close>, \<open>int4_simd.c\<close>,
    \<open>int4_hash.c\<close>.  The SIMD paths of both targets equal the scalar loops; each kernel is
    compared with the evident function on the list of selected values.  The locale
    \<open>row_filter\<close> is the contract of whatever narrows a selection.
  \<^item> \<^emph>\<open>Expressions.\<close>  \<open>Expr\<close> is \<open>expr/expr.c\<close>; \<open>Expr_Correct\<close> relates compiled steps to the value
    of the tree, \<open>Expr_Run\<close> runs them on a batch, \<open>Expr_Reuse\<close> over several batches, \<open>Expr_Vars\<close>
    carries them through PostgreSQL's renaming of variables, \<open>Expr_Props\<close> states the results.
  \<^item> \<^emph>\<open>Bridge.\<close>  \<open>Registry\<close>: the registries of sources and nodes, both interpretations of the
    locale \<open>registry\<close>.  \<open>Bridge\<close>: bindings, requests and the life of a batch, with slots,
    bindings and batches as addresses.  \<open>Bridge_Props\<close>: histories of calls as an inductive
    relation, simulated by a specification of ownership with its invariant.
  \<^item> \<^emph>\<open>Plan data.\<close>  \<open>Plan_Data\<close> (\<open>runtime/plan.c\<close>), \<open>Planner\<close> and \<open>Planner_Props\<close>
    (\<open>runtime/planner.c\<close>), \<open>Node_Plans\<close> (\<open>nodes/plan_data.c\<close> and the writers of
    \<open>nodes/planner.c\<close>).  Every kind of data is an interpretation of the locale \<open>plan_codec\<close>.
  \<^item> \<^emph>\<open>Spill sets.\<close>  \<open>Spill\<close> (\<open>spill/spill.c\<close>, the serial half), \<open>Spill_Buffers\<close> (byte encodings),
    \<open>Spill_Props\<close> (the invariant between tapes, buffers and written rows), \<open>Spill_Read\<close> (round
    trip, rereading, memory limit, damaged blocks), \<open>Spill_Loop\<close> (the loop of the readers).
  \<^item> \<^emph>\<open>Hash join.\<close>  \<open>Build_Store\<close>, \<open>Build_Props\<close>, \<open>Open_Addressing\<close>: the build side and its table
    (\<open>nodes/hash_join.c\<close>, \<open>hash_join_internal.h\<close>).  \<open>Hash_Join\<close>, \<open>Join_Probe\<close>, \<open>Join_Loop\<close>,
    \<open>Join_Correct\<close>, \<open>Join_Props\<close>: probing with several lanes, qualification, output in bounded
    batches.  The probe is proved once in the locale \<open>join_candidates\<close>, whose interpretation is
    the serial table.
  \<^item> \<^emph>\<open>Spilling hash join.\<close>  \<open>Join_Spill\<close> (choosing partitions, routing rows, compaction, the
    whole of \<open>build_hash_table\<close>) and \<open>Join_Partitions\<close> (build chunks, rescanning probe rows,
    repartitioning, the loop over partitions, \<open>fetch_probe_batch\<close> and \<open>finish_probe_batch\<close> of
    \<open>nodes/hash_join.c\<close> once the build has spilled) are \<open>nodes/hash_join_spill.c\<close>.  \<open>Join_Store\<close>: the
    build store while rows move out of it.  \<open>Join_Files\<close>: what is on the files of a side.
    \<open>Join_Spill_Build\<close>, \<open>Join_Build_Props\<close>: where every build row is, from batch to batch.
    \<open>Join_Spill_Props\<close>: the result, and the validity bits that compaction leaves behind.
    \<open>Join_Reading\<close>, \<open>Join_Chunks\<close>, \<open>Join_Rounds\<close>: reading a file, loading a chunk of build rows and
    rescanning the probe rows for each.  \<open>Join_Repartition\<close>, \<open>Join_Partition_Loop\<close>: splitting a
    partition, and what the loop over partitions hands out.  \<open>Join_Resident\<close>, \<open>Join_Probe_Spill\<close>,
    \<open>Join_Probe_Loop\<close>: the buffer of resident probe rows, routing an outer batch, the outer
    input to its end.  \<open>Join_Spilled_Props\<close>: together they present the pairs of the two inputs.
  \<^item> \<^emph>\<open>Aggregation.\<close>  \<open>Aggregate\<close> is \<open>nodes/aggregate.c\<close>; \<open>Aggregate_Values\<close> (running aggregates),
    \<open>Aggregate_Plain\<close>, \<open>Aggregate_Groups\<close> (the bounded table), \<open>Aggregate_Input\<close> and
    \<open>Aggregate_Work\<close> (partitions that wait and are split), \<open>Aggregate_Emit\<close>, \<open>Aggregate_Props\<close>:
    grouped aggregation is GROUP BY, whatever is spilled.
  \<^item> \<^emph>\<open>Compressed tables.\<close>  \<open>Compressed\<close> (snapshots) and \<open>Compressed_Scan\<close> (scans) are
    \<open>examples/compressed_tam/compressed.c\<close>, \<open>Compressed_Source\<close> is \<open>source.c\<close> beside it.
    \<open>Compressed_Store\<close>: a stored column decodes to its values.  \<open>Compressed_Snapshot\<close>: the
    batches hold the rows, the groups tile the batches and summarise their values.
    \<open>Compressed_Prune\<close>: skipping a group is sound.  \<open>Compressed_Read\<close>, \<open>Compressed_Filter\<close>: the
    callbacks give the stored values and the filter keeps the right rows.  \<open>Compressed_Loop\<close>,
    \<open>Compressed_All\<close>: the scan loop.  \<open>Compressed_Plan\<close>, \<open>Compressed_Props\<close>: from planning to
    the last batch.
  \<^item> \<^emph>\<open>Builder and simple nodes.\<close>  \<open>Builder\<close> is \<open>runtime/builder.c\<close> with the pack node
    (\<open>nodes/pack.c\<close>), \<open>Pack_Props\<close> its correctness.  \<open>Unary\<close> is \<open>runtime/unary.c\<close> with what it
    uses of \<open>input.c\<close> and \<open>output.c\<close>, the filter node (\<open>nodes/filter.c\<close>) and LIMIT
    (\<open>examples/limit_node/executor.c\<close>).  \<open>Unary_Correct\<close> proves the executor once, in row mode and
    in batch mode, in the locale \<open>unary_process\<close> on top of the locale \<open>datum_source\<close>;
    \<open>Unary_Props\<close> shows that LIMIT and the filter are such processes over every source and that
    the builder's batches are such a source, and composes them with the pack node.

  \<^bold>\<open>What the properties show.\<close>  End to end: the in-memory hash join returns the join, a build
  side too large for memory is split without losing a row and its join presents every pair of
  rows with equal keys once, grouped aggregation the groups, a compressed scan the rows the clauses ask for, LIMIT and the filter
  the right part of a packed child, and a spill set what was written to it.  For the interfaces
  below: the bridge implements its specification of ownership over every history, and gives
  exclusive ownership and safe row views over the histories in which no batch is published while
  another binding has finished it without clearing it (the one case its checks let through);
  frozen requests, exact acceptance checks, round trips of every codec, bounds of arithmetic
  and memory, and errors exactly where the code can raise them.

  \<^bold>\<open>Loops.\<close>  Loops over the bits of a word, the rows of a batch or a list are structural or have
  a measure.  The loops that end only because of an invariant (searching and inserting in the
  open-addressed table, producing output, reading and splitting partitions, scanning a snapshot, running a
  node to its end) are partial functions into \<open>option\<close>, and the properties show that they
  return a value; no fuel is used.  The kernels' walk over a selection has one extra exit, a row number that does not
  increase, that is never taken on a well-formed selection.

  \<^bold>\<open>Bounds.\<close>  The memory limit of a hash join is below \<open>2 ^ 62\<close>, so that the size of its filter
  stays within 64 bits; a build side has at most \<open>2 ^ 30\<close> rows, as many as its table takes.  Aggregation counts fewer than \<open>2 ^ 32\<close> rows per aggregate, so that sums of 32-bit
  values fit 64 bits.  Offsets of packed vectors stay below \<open>2 ^ 31\<close>, beyond which
  \<open>pg_batch_int4_row_is_null\<close> truncates the row.  The statistics counters of a scan are unbounded.

  \<^bold>\<open>Not modelled.\<close>  The parallel hash join (\<open>nodes/parallel_hash_join.c\<close>) and the shared spill sets
  (second half of \<open>spill/spill.c\<close>): barriers, dynamic shared memory and atomics decide what
  their workers see.  Of the spilling hash join, closing files and peak memory are left out, and its theorem
  ends where a batch and the table of the moment are handed to the probe; build rows with a NULL
  payload are excluded, as compaction can lose the NULL.  The heap scan and its slots
  (\<open>nodes/scan.c\<close>, \<open>nodes/slot.c\<close>) and the projection node (\<open>nodes/project.c\<close>): glue over heap pages,
  tuple slots and \<open>ExecProject\<close>.  Path generation (\<open>nodes/planner.c\<close>) and the column analysis of
  projections (\<open>expr/projection.c\<close>): they walk PostgreSQL's planner structures.  The Arrow foreign
  data wrapper (\<open>examples/arrow_fdw/\<close>): callbacks over a foreign stream interface.  Module entry
  points, settings, hooks and \<open>benchmark/\<close>, tests and scripts.
\<close>

end
